(* ===== verification/Prelude.thy ===== *)
theory Prelude imports Complex_Main "HOL-Library.Multiset" begin

text \<open>
  Shared material of the development: the run of a state machine over a list of
  events and the locale that lifts a one-step invariant to runs; JavaScript's
  insertion-ordered \<open>Map\<close> as an association list with its interface; a time line
  with an infinite point (\<open>Infinity\<close>); and the generic list lemmas
  the components share.
\<close>

named_theorems machine_defs \<open>unfolding rules of a component's step function\<close>

section \<open>State machines\<close>

definition run :: "('s \<Rightarrow> 'e \<Rightarrow> 's) \<Rightarrow> 's \<Rightarrow> 'e list \<Rightarrow> 's" where
  "run step s es = foldl step s es"

lemma run_Nil [simp]: "run step s [] = s"
  by (simp add: run_def)

lemma run_Cons [simp]: "run step s (e # es) = run step (step s e) es"
  by (simp add: run_def)

lemma run_append: "run step s (es @ fs) = run step (run step s es) fs"
  by (simp add: run_def)

locale machine_invariant =
  fixes step :: "'s \<Rightarrow> 'e \<Rightarrow> 's"
    and inv :: "'s \<Rightarrow> bool"
  assumes inv_step: "inv s \<Longrightarrow> inv (step s e)"
begin

lemma inv_run: "inv s \<Longrightarrow> inv (run step s es)"
  by (induction es arbitrary: s) (simp_all add: inv_step)

lemma inv_prefix: "inv s \<Longrightarrow> inv (run step s (take n es))"
  by (rule inv_run)

end

text \<open>
  A machine whose invariant comes with a quantity that no step decreases: the
  quantity is monotone along every run.
\<close>

locale machine_monotone = machine_invariant step inv
  for step :: "'s \<Rightarrow> 'e \<Rightarrow> 's" and inv :: "'s \<Rightarrow> bool" +
  fixes val :: "'s \<Rightarrow> 'n::preorder"
  assumes val_step: "inv s \<Longrightarrow> val s \<le> val (step s e)"
begin

lemma val_run: "inv s \<Longrightarrow> val s \<le> val (run step s es)"
proof (induction es arbitrary: s)
  case Nil
  then show ?case by simp
next
  case (Cons e es)
  then have "val s \<le> val (step s e)" and "val (step s e) \<le> val (run step (step s e) es)"
    by (simp_all add: val_step inv_step)
  then show ?case by (auto intro: order_trans)
qed

end

section \<open>Insertion-ordered maps\<close>

text \<open>
  A JavaScript \<open>Map\<close> iterates in insertion order: \<open>set\<close> on a present key
  keeps its place, on a new key appends; \<open>delete\<close> removes the entry.
\<close>

type_synonym ('k, 'v) jmap = "('k \<times> 'v) list"

fun jm_set :: "'k \<Rightarrow> 'v \<Rightarrow> ('k, 'v) jmap \<Rightarrow> ('k, 'v) jmap" where
  "jm_set k v [] = [(k, v)]"
| "jm_set k v ((k', v') # m) = (if k = k' then (k, v) # m else (k', v') # jm_set k v m)"

definition jm_get :: "('k, 'v) jmap \<Rightarrow> 'k \<Rightarrow> 'v option" where
  "jm_get m k = map_of m k"

definition jm_del :: "'k \<Rightarrow> ('k, 'v) jmap \<Rightarrow> ('k, 'v) jmap" where
  "jm_del k m = filter (\<lambda>p. fst p \<noteq> k) m"

definition jm_has :: "('k, 'v) jmap \<Rightarrow> 'k \<Rightarrow> bool" where
  "jm_has m k \<longleftrightarrow> jm_get m k \<noteq> None"

definition jm_keys :: "('k, 'v) jmap \<Rightarrow> 'k list" where
  "jm_keys m = map fst m"

definition jm_ok :: "('k, 'v) jmap \<Rightarrow> bool" where
  "jm_ok m \<longleftrightarrow> distinct (jm_keys m)"

lemma jm_get_Nil [simp]: "jm_get [] k = None"
  by (simp add: jm_get_def)

lemma jm_get_Cons [simp]: "jm_get ((k', v) # m) k = (if k = k' then Some v else jm_get m k)"
  by (simp add: jm_get_def)

lemma jm_keys_Nil [simp]: "jm_keys [] = []"
  by (simp add: jm_keys_def)

lemma jm_keys_Cons [simp]: "jm_keys (p # m) = fst p # jm_keys m"
  by (simp add: jm_keys_def)

lemma jm_get_set: "jm_get (jm_set k v m) k' = (if k' = k then Some v else jm_get m k')"
  by (induction k v m rule: jm_set.induct) auto

lemma jm_get_del: "jm_get (jm_del k m) k' = (if k' = k then None else jm_get m k')"
  by (induction m) (auto simp: jm_del_def)

lemma jm_keys_set: "jm_keys (jm_set k v m) = (if k \<in> set (jm_keys m) then jm_keys m else jm_keys m @ [k])"
  by (induction k v m rule: jm_set.induct) auto

lemma jm_keys_del: "jm_keys (jm_del k m) = filter (\<lambda>x. x \<noteq> k) (jm_keys m)"
  by (induction m) (auto simp: jm_del_def)

lemma jm_has_iff: "jm_has m k \<longleftrightarrow> k \<in> set (jm_keys m)"
  by (induction m) (auto simp: jm_has_def)

lemma jm_get_None_iff: "jm_get m k = None \<longleftrightarrow> k \<notin> set (jm_keys m)"
  using jm_has_iff [of m k] by (auto simp: jm_has_def)

lemma jm_get_in_set: "jm_get m k = Some v \<Longrightarrow> (k, v) \<in> set m"
  by (simp add: jm_get_def map_of_SomeD)

lemma jm_in_set_get: "jm_ok m \<Longrightarrow> (k, v) \<in> set m \<Longrightarrow> jm_get m k = Some v"
  by (simp add: jm_ok_def jm_keys_def jm_get_def)

lemma jm_ok_Nil [simp]: "jm_ok []"
  by (simp add: jm_ok_def)

lemma jm_ok_set [simp]: "jm_ok m \<Longrightarrow> jm_ok (jm_set k v m)"
  by (simp add: jm_ok_def jm_keys_set)

lemma jm_ok_del [simp]: "jm_ok m \<Longrightarrow> jm_ok (jm_del k m)"
  by (simp add: jm_ok_def jm_keys_del)

lemma jm_ok_filter [simp]: "jm_ok m \<Longrightarrow> jm_ok (filter P m)"
  by (simp add: jm_ok_def jm_keys_def distinct_map_filter)

lemma jm_del_absent: "k \<notin> set (jm_keys m) \<Longrightarrow> jm_del k m = m"
  by (induction m) (auto simp: jm_del_def)

lemma jm_set_absent: "k \<notin> set (jm_keys m) \<Longrightarrow> jm_set k v m = m @ [(k, v)]"
  by (induction k v m rule: jm_set.induct) auto

lemma length_jm_set_le: "length (jm_set k v m) \<le> Suc (length m)"
  by (induction k v m rule: jm_set.induct) auto

lemma jm_set_not_Nil [simp]: "jm_set k v m \<noteq> []"
  by (cases m) (auto split: if_splits)

lemma set_jm_set: "set (jm_set k v m) \<subseteq> insert (k, v) (set m)"
  by (induction k v m rule: jm_set.induct) auto

lemma set_jm_del: "set (jm_del k m) = {p \<in> set m. fst p \<noteq> k}"
  by (auto simp: jm_del_def)

lemma length_jm_del_le: "length (jm_del k m) \<le> length m"
  by (simp add: jm_del_def)

lemma length_jm_del:
  assumes "jm_ok m" and "k \<in> set (jm_keys m)"
  shows "Suc (length (jm_del k m)) = length m"
  using assms
proof (induction m)
  case Nil
  then show ?case by simp
next
  case (Cons p m)
  show ?case
  proof (cases "fst p = k")
    case True
    with Cons.prems have "k \<notin> set (jm_keys m)" by (simp add: jm_ok_def)
    with True show ?thesis using jm_del_absent [of k m] by (simp add: jm_del_def)
  next
    case False
    with Cons show ?thesis by (simp add: jm_ok_def jm_del_def)
  qed
qed

lemma length_filter_neq: "distinct xs \<Longrightarrow> x \<in> set xs \<Longrightarrow> Suc (length (filter (\<lambda>y. y \<noteq> x) xs)) = length xs"
proof (induction xs)
  case Nil
  then show ?case by simp
next
  case (Cons y ys)
  have "x \<notin> set ys \<Longrightarrow> filter (\<lambda>y. y \<noteq> x) ys = ys"
    by (rule filter_True) auto
  with Cons show ?case by (cases "y = x") auto
qed

text \<open>
  The interface the components use: what a lookup returns after each update, and how
  the iteration order moves. Its client lemmas are the ones a component needs when it
  takes an entry out or replaces it.
\<close>

locale ordered_map =
  fixes get :: "'m \<Rightarrow> 'k \<Rightarrow> 'v option"
    and put :: "'k \<Rightarrow> 'v \<Rightarrow> 'm \<Rightarrow> 'm"
    and del :: "'k \<Rightarrow> 'm \<Rightarrow> 'm"
    and keys :: "'m \<Rightarrow> 'k list"
    and ok :: "'m \<Rightarrow> bool"
  assumes get_put: "get (put k v m) k' = (if k' = k then Some v else get m k')"
    and get_del: "get (del k m) k' = (if k' = k then None else get m k')"
    and get_keys: "get m k = None \<longleftrightarrow> k \<notin> set (keys m)"
    and keys_put: "keys (put k v m) = (if k \<in> set (keys m) then keys m else keys m @ [k])"
    and keys_del: "keys (del k m) = filter (\<lambda>x. x \<noteq> k) (keys m)"
    and ok_distinct: "ok m \<Longrightarrow> distinct (keys m)"
    and ok_put: "ok m \<Longrightarrow> ok (put k v m)"
    and ok_del: "ok m \<Longrightarrow> ok (del k m)"
begin

lemma take_once: "get (del k m) k = None"
  by (simp add: get_del)

lemma put_overwrites: "get (put k v (put k w m)) k = Some v"
  by (simp add: get_put)

lemma other_untouched: "k' \<noteq> k \<Longrightarrow> get (put k v m) k' = get m k' \<and> get (del k m) k' = get m k'"
  by (simp add: get_put get_del)

lemma length_keys_del: "ok m \<Longrightarrow> get m k \<noteq> None \<Longrightarrow> Suc (length (keys (del k m))) = length (keys m)"
  by (simp add: keys_del get_keys ok_distinct length_filter_neq)

lemma length_keys_put: "length (keys (put k v m)) = length (keys m) + (if get m k = None then 1 else 0)"
  by (simp add: keys_put get_keys)

end

interpretation jm: ordered_map jm_get jm_set jm_del jm_keys jm_ok
  by unfold_locales
    (auto simp: jm_get_set jm_get_del jm_get_None_iff jm_keys_set jm_keys_del jm_ok_def)

section \<open>Extended time\<close>

text \<open>Milliseconds with \<open>Infinity\<close> on top.\<close>

datatype ext = Fin int | Inf

instantiation ext :: linorder
begin

definition less_eq_ext :: "ext \<Rightarrow> ext \<Rightarrow> bool" where
  "less_eq_ext a b = (case (a, b) of (_, Inf) \<Rightarrow> True | (Inf, Fin _) \<Rightarrow> False | (Fin x, Fin y) \<Rightarrow> x \<le> y)"

definition less_ext :: "ext \<Rightarrow> ext \<Rightarrow> bool" where
  "less_ext a b \<longleftrightarrow> a \<le> b \<and> \<not> b \<le> a" for a b :: ext

instance
  by standard (auto simp: less_eq_ext_def less_ext_def split: ext.splits)

end

lemma ext_le_simps [simp]:
  "a \<le> Inf" "\<not> Inf \<le> Fin x" "(Fin x \<le> Fin y) = (x \<le> y)"
  by (auto simp: less_eq_ext_def split: ext.splits)

lemma ext_less_simps [simp]:
  "\<not> Inf < a" "Fin x < Inf" "(Fin x < Fin y) = (x < y)"
  by (auto simp: less_ext_def less_eq_ext_def split: ext.splits)

lemma ext_min_simps [simp]:
  "min a Inf = a" "min Inf a = a" "min (Fin x) (Fin y) = Fin (min x y)"
  by (auto simp: min_def intro: antisym)

lemma ext_max_simps [simp]:
  "max a Inf = Inf" "max Inf a = Inf" "max (Fin x) (Fin y) = Fin (max x y)"
  by (auto simp: max_def intro: antisym)

fun ext_minus :: "ext \<Rightarrow> int \<Rightarrow> ext" where
  "ext_minus (Fin x) y = Fin (x - y)"
| "ext_minus Inf y = Inf"

fun ext_plus :: "int \<Rightarrow> ext \<Rightarrow> ext" where
  "ext_plus y (Fin x) = Fin (y + x)"
| "ext_plus y Inf = Inf"

lemma ext_plus_minus [simp]: "ext_plus y (ext_minus a y) = a"
  by (cases a) simp_all

lemma ext_plus_mono: "y \<le> z \<Longrightarrow> a \<le> b \<Longrightarrow> ext_plus y a \<le> ext_plus z b"
  by (cases a; cases b) auto

text \<open>A JavaScript \<open>number\<close>: a finite value (rounding is not modelled) or one of the
  three special ones.\<close>

datatype jsnum = NaN | PosInf | NegInf | Num rat

section \<open>JSON values\<close>

text \<open>What \<open>JSON.parse\<close> yields; an object's keys are distinct, in their order.\<close>

datatype json = JNull | JBool bool | JNum rat | JStr string | JArr "json list" | JObj "(string \<times> json) list"

definition is_record :: "json \<Rightarrow> bool" where
  "is_record v = (case v of JObj _ \<Rightarrow> True | _ \<Rightarrow> False)"

text \<open>\<open>v.k\<close> of an object, \<open>None\<close> for undefined.\<close>

definition jfield :: "json \<Rightarrow> string \<Rightarrow> json option" where
  "jfield v k = (case v of JObj fs \<Rightarrow> map_of fs k | _ \<Rightarrow> None)"

section \<open>Lists\<close>

text \<open>\<open>Array.prototype.at(-1)\<close> and bounded appends.\<close>

definition last_opt :: "'a list \<Rightarrow> 'a option" where
  "last_opt xs = (if xs = [] then None else Some (last xs))"

lemma last_opt_simps [simp]: "last_opt [] = None" "last_opt (xs @ [x]) = Some x"
  by (simp_all add: last_opt_def)

lemma foldl_inv: "P s \<Longrightarrow> (\<And>s x. x \<in> set xs \<Longrightarrow> P s \<Longrightarrow> P (f s x)) \<Longrightarrow> P (foldl f s xs)"
  by (induction xs arbitrary: s) auto

section \<open>Errors\<close>

text \<open>Sequencing of fallible steps: an error ends the whole.\<close>

definition bind_e :: "'e + 'a \<Rightarrow> ('a \<Rightarrow> 'e + 'b) \<Rightarrow> 'e + 'b" where
  "bind_e r f = (case r of Inl e \<Rightarrow> Inl e | Inr a \<Rightarrow> f a)"

lemma bind_e_simps [simp]: "bind_e (Inl e) f = Inl e" "bind_e (Inr a) f = f a"
  by (simp_all add: bind_e_def)

lemma bind_e_Inr: "bind_e r f = Inr b \<longleftrightarrow> (\<exists>a. r = Inr a \<and> f a = Inr b)"
  by (cases r) simp_all

end
