(* ===== verification/Semaphore.thy ===== *)
theory Semaphore imports Prelude begin

text \<open>
  \<^verbatim>\<open>src/src/agents/semaphore.ts\<close>: the FIFO permit pool that bounds concurrent agents.
  A permit is the closure \<open>acquire\<close> resolves with; its private \<open>released\<close> flag makes the
  second call a no-op. Permits are numbered here: \<open>live\<close> holds the numbers of the closures
  whose flag is still false. A waiter is the promise of a queued \<open>acquire\<close>; \<open>settled\<close>
  records how each promise ended.
\<close>

record waiter =
  w_id :: nat
  w_signal :: "nat option"

datatype outcome = Resolved nat | RejectedAborted

record sem =
  limit :: nat
  active :: nat
  waiters :: "waiter list"
  live :: "nat list"
  next_permit :: nat
  settled :: "(nat \<times> outcome) list"

datatype sem_error = LimitNotPositive | OperationAborted

text \<open>The constructor: \<open>Number.isInteger(limit)\<close> is the type \<open>int\<close>.\<close>

definition new_semaphore :: "int \<Rightarrow> sem_error + sem" where
  "new_semaphore l =
     (if l < 1 then Inl LimitNotPositive
      else Inr \<lparr>limit = nat l, active = 0, waiters = [], live = [], next_permit = 0, settled = []\<rparr>)"

text \<open>A fresh release closure, its flag false.\<close>

definition release_function :: "sem \<Rightarrow> nat \<times> sem" where
  "release_function s = (next_permit s, s\<lparr>live := next_permit s # live s, next_permit := Suc (next_permit s)\<rparr>)"

definition try_acquire :: "bool \<Rightarrow> sem \<Rightarrow> sem_error + (nat option \<times> sem)" where
  "try_acquire aborted s =
     (if aborted then Inl OperationAborted
      else if active s \<ge> limit s \<or> waiters s \<noteq> [] then Inr (None, s)
      else (let (p, s') = release_function (s\<lparr>active := Suc (active s)\<rparr>) in Inr (Some p, s')))"

text \<open>\<open>acquire\<close> of the promise \<open>i\<close>; \<open>aborted\<close> is \<open>signal?.aborted\<close> at the call.\<close>

definition acquire :: "nat \<Rightarrow> nat option \<Rightarrow> bool \<Rightarrow> sem \<Rightarrow> sem" where
  "acquire i sig aborted s =
     (case try_acquire aborted s of
        Inl _ \<Rightarrow> s\<lparr>settled := settled s @ [(i, RejectedAborted)]\<rparr>
      | Inr (Some p, s') \<Rightarrow> s'\<lparr>settled := settled s' @ [(i, Resolved p)]\<rparr>
      | Inr (None, s') \<Rightarrow> s'\<lparr>waiters := waiters s' @ [\<lparr>w_id = i, w_signal = sig\<rparr>]\<rparr>)"

text \<open>
  The abort listeners of one signal: each queued waiter registered on it leaves the queue and
  its promise rejects. A granted waiter has removed its listener.
\<close>

definition on_abort :: "nat \<Rightarrow> sem \<Rightarrow> sem" where
  "on_abort sig s =
     s\<lparr>waiters := filter (\<lambda>w. w_signal w \<noteq> Some sig) (waiters s),
       settled := settled s @ map (\<lambda>w. (w_id w, RejectedAborted)) (filter (\<lambda>w. w_signal w = Some sig) (waiters s))\<rparr>"

definition release :: "nat \<Rightarrow> sem \<Rightarrow> sem" where
  "release p s =
     (if p \<notin> set (live s) then s
      else (let s1 = s\<lparr>live := remove1 p (live s)\<rparr> in
        case waiters s1 of
          w # ws \<Rightarrow>
            (let (q, s2) = release_function (s1\<lparr>waiters := ws\<rparr>)
             in s2\<lparr>settled := settled s2 @ [(w_id w, Resolved q)]\<rparr>)
        | [] \<Rightarrow> s1\<lparr>active := active s1 - 1\<rparr>))"

datatype sem_event = Acquire nat "nat option" bool | TryAcquire | Release nat | Abort nat

fun sem_step :: "sem \<Rightarrow> sem_event \<Rightarrow> sem" where
  "sem_step s (Acquire i sig aborted) = acquire i sig aborted s"
| "sem_step s TryAcquire = (case try_acquire False s of Inr (_, s') \<Rightarrow> s' | Inl _ \<Rightarrow> s)"
| "sem_step s (Release p) = release p s"
| "sem_step s (Abort sig) = on_abort sig s"

section \<open>Invariant\<close>

text \<open>
  \<open>active\<close> counts the live permits, never beyond the limit; the live numbers are distinct and
  were handed out; and a waiter exists only while every permit is taken, so no wakeup is lost.
\<close>

definition sem_ok :: "sem \<Rightarrow> bool" where
  "sem_ok s \<longleftrightarrow> 1 \<le> limit s \<and> active s = length (live s) \<and> active s \<le> limit s
     \<and> distinct (live s) \<and> (\<forall>p \<in> set (live s). p < next_permit s)
     \<and> (waiters s \<noteq> [] \<longrightarrow> active s = limit s)"

lemmas sem_defs = try_acquire_def acquire_def on_abort_def release_def release_function_def

lemma sem_ok_new: "new_semaphore l = Inr s \<Longrightarrow> sem_ok s"
  by (auto simp: new_semaphore_def sem_ok_def split: if_splits)

lemma sem_ok_try_acquire: "sem_ok s \<Longrightarrow> try_acquire a s = Inr (p, s') \<Longrightarrow> sem_ok s'"
  by (auto simp: sem_defs sem_ok_def Let_def less_Suc_eq split: if_splits)

lemma sem_ok_acquire: "sem_ok s \<Longrightarrow> sem_ok (acquire i sig a s)"
  by (auto simp: sem_defs sem_ok_def Let_def less_Suc_eq split: if_splits)

lemma sem_ok_abort: "sem_ok s \<Longrightarrow> sem_ok (on_abort sig s)"
  by (auto simp: on_abort_def sem_ok_def filter_empty_conv)

lemma sem_ok_release: "sem_ok s \<Longrightarrow> sem_ok (release p s)"
proof (cases "p \<in> set (live s)")
  case True
  assume ok: "sem_ok s"
  with True have "0 < length (live s)" by (auto intro: length_pos_if_in_set)
  with ok True show ?thesis
    by (cases "waiters s")
      (auto simp: release_def release_function_def sem_ok_def length_remove1 Let_def
        dest: notin_set_remove1)
next
  case False
  then show "sem_ok s \<Longrightarrow> ?thesis" by (simp add: release_def)
qed

lemma sem_ok_step: "sem_ok s \<Longrightarrow> sem_ok (sem_step s e)"
  by (cases e)
    (auto simp: sem_ok_acquire sem_ok_release sem_ok_abort
      split: sum.splits intro: sem_ok_try_acquire)

lemma limit_step: "limit (sem_step s e) = limit s"
  by (cases e) (auto simp: sem_defs Let_def split: list.splits)

lemma next_permit_step: "next_permit s \<le> next_permit (sem_step s e)"
  by (cases e) (auto simp: sem_defs Let_def split: list.splits)

interpretation sem: machine_invariant sem_step sem_ok
  by unfold_locales (rule sem_ok_step)

interpretation sem_limit: machine_monotone sem_step sem_ok next_permit
  by unfold_locales (rule next_permit_step)

lemma limit_run: "limit (run sem_step s es) = limit s"
  by (induction es arbitrary: s) (simp_all add: limit_step)

section \<open>Queue behaviour\<close>

lemma release_hands_over:
  assumes "sem_ok s" and "p \<in> set (live s)" and "waiters s = w # ws"
  shows "waiters (release p s) = ws" "active (release p s) = active s"
    "settled (release p s) = settled s @ [(w_id w, Resolved (next_permit s))]"
    "live (release p s) = next_permit s # remove1 p (live s)"
  using assms by (auto simp: release_def release_function_def Let_def)

lemma release_frees:
  assumes "p \<in> set (live s)" and "waiters s = []"
  shows "release p s = s\<lparr>live := remove1 p (live s), active := active s - 1\<rparr>"
  using assms by (simp add: release_def)

fun release_all :: "nat list \<Rightarrow> sem \<Rightarrow> sem" where
  "release_all [] s = s"
| "release_all (p # ps) s = release_all ps (release p s)"

text \<open>The permits that \<open>n\<close> releases make, and the promises they settle.\<close>

definition fresh_permits :: "sem \<Rightarrow> nat \<Rightarrow> nat list" where
  "fresh_permits s n = [next_permit s..<next_permit s + n]"

definition grants :: "waiter list \<Rightarrow> nat list \<Rightarrow> (nat \<times> outcome) list" where
  "grants ws qs = map2 (\<lambda>w q. (w_id w, Resolved q)) ws qs"

lemma fresh_permits_Suc: "fresh_permits s (Suc n) = next_permit s # [Suc (next_permit s)..<Suc (next_permit s) + n]"
  by (simp add: fresh_permits_def upt_conv_Cons del: upt_Suc)

lemma release_all_fifo:
  assumes "sem_ok s" and "distinct ps" and "set ps \<subseteq> set (live s)" and "length ps \<le> length (waiters s)"
  shows "waiters (release_all ps s) = drop (length ps) (waiters s)
    \<and> settled (release_all ps s) = settled s @ grants (take (length ps) (waiters s)) (fresh_permits s (length ps))
    \<and> set (live (release_all ps s)) = (set (live s) - set ps) \<union> set (fresh_permits s (length ps))"
  using assms
proof (induction ps arbitrary: s)
  case Nil
  then show ?case by (simp add: grants_def fresh_permits_def)
next
  case (Cons p ps)
  from Cons.prems obtain w ws where w: "waiters s = w # ws" by (cases "waiters s") auto
  from Cons.prems have p: "p \<in> set (live s)" and ps: "p \<notin> set ps" by auto
  have new: "next_permit s \<notin> set ps" "next_permit s \<noteq> p" using Cons.prems by (auto simp: sem_ok_def)
  note h = release_hands_over [OF Cons.prems(1) p w]
  have np: "next_permit (release p s) = Suc (next_permit s)"
    using p w by (simp add: release_def release_function_def Let_def)
  have live: "set (live (release p s)) = insert (next_permit s) (set (live s) - {p})"
    using Cons.prems(1) by (simp add: h(4) sem_ok_def set_remove1_eq)
  have "set ps \<subseteq> set (live (release p s))" using Cons.prems ps by (auto simp: live)
  with Cons.IH [OF sem_ok_release [OF Cons.prems(1)]] Cons.prems w h(1)
  have "waiters (release_all ps (release p s)) = drop (length ps) ws
    \<and> settled (release_all ps (release p s)) = settled (release p s) @ grants (take (length ps) ws) (fresh_permits (release p s) (length ps))
    \<and> set (live (release_all ps (release p s))) = (set (live (release p s)) - set ps) \<union> set (fresh_permits (release p s) (length ps))"
    by simp
  moreover have "fresh_permits s (length (p # ps)) = next_permit s # fresh_permits (release p s) (length ps)"
    by (simp add: fresh_permits_Suc) (simp add: fresh_permits_def np)
  ultimately show ?case using w h(3) new by (auto simp: grants_def live)
qed

section \<open>Properties\<close>

text \<open>C1: from construction on, whatever acquires, releases and aborts happen in whatever
  order, at most \<open>limit\<close> permits are live at once, and an acquirer waits only while all of
  them are.\<close>

theorem semaphore_bounds_permits:
  assumes "new_semaphore l = Inr s0"
  shows "let s = run sem_step s0 es in
    length (live s) \<le> nat l \<and> (waiters s \<noteq> [] \<longrightarrow> length (live s) = nat l)"
proof -
  have "sem_ok (run sem_step s0 es)"
    using assms by (intro sem.inv_run sem_ok_new)
  moreover have "limit (run sem_step s0 es) = nat l"
    using assms by (auto simp: limit_run new_semaphore_def split: if_splits)
  ultimately show ?thesis by (auto simp: sem_ok_def Let_def)
qed

theorem semaphore_bounds_permits_witness:
  "\<exists>s0. new_semaphore 1 = Inr s0 \<and>
    (let s = run sem_step s0 [Acquire 7 None False, Acquire 8 (Some 3) False] in
     length (live s) \<le> nat 1 \<and> (waiters s \<noteq> [] \<longrightarrow> length (live s) = nat 1))"
  using semaphore_bounds_permits [of 1 _ "[Acquire 7 None False, Acquire 8 (Some 3) False]"]
  by (simp add: new_semaphore_def)

text \<open>C2: waiters are granted in arrival order: releasing \<open>n\<close> distinct live permits resolves exactly the promises of the
  first \<open>n\<close> waiters, in queue order, each with a permit of its own that was never live before, and leaves the rest queued;
  afterwards those new permits are live, the released ones are dead, and every other permit is as it was.\<close>

theorem semaphore_fifo:
  assumes "sem_ok s" and "distinct ps" and "set ps \<subseteq> set (live s)" and "length ps \<le> length (waiters s)"
  shows "let s' = release_all ps s; n = length ps; fresh = fresh_permits s n in
    waiters s' = drop n (waiters s)
    \<and> settled s' = settled s @ map2 (\<lambda>w q. (w_id w, Resolved q)) (take n (waiters s)) fresh
    \<and> length fresh = n \<and> distinct fresh \<and> set fresh \<inter> set (live s) = {}
    \<and> set (live s') = (set (live s) - set ps) \<union> set fresh"
proof -
  have "set (fresh_permits s n) \<inter> set (live s) = {}" for n using assms(1) by (auto simp: sem_ok_def fresh_permits_def)
  then show ?thesis using release_all_fifo [OF assms] by (simp add: Let_def grants_def fresh_permits_def)
qed

theorem semaphore_fifo_witness:
  "let s = \<lparr>limit = 1, active = 1, waiters = [\<lparr>w_id = 5, w_signal = None\<rparr>, \<lparr>w_id = 6, w_signal = None\<rparr>],
      live = [0], next_permit = 1, settled = []\<rparr> in
   waiters (release_all [0] s) = [\<lparr>w_id = 6, w_signal = None\<rparr>] \<and> settled (release_all [0] s) = [(5, Resolved 1)]
     \<and> set (live (release_all [0] s)) = {1}"
  using semaphore_fifo [of "\<lparr>limit = 1, active = 1, waiters = [\<lparr>w_id = 5, w_signal = None\<rparr>, \<lparr>w_id = 6, w_signal = None\<rparr>],
      live = [0], next_permit = 1, settled = []\<rparr>" "[0]"]
  by (auto simp: sem_ok_def Let_def fresh_permits_def)

text \<open>a release function works once: whatever happens in between, calling the same one a
  second time changes nothing.\<close>

lemma released_stays_released:
  "sem_ok s \<Longrightarrow> p \<notin> set (live s) \<Longrightarrow> p < next_permit s \<Longrightarrow> p \<notin> set (live (sem_step s e)) \<and> p < next_permit (sem_step s e)"
  by (cases e)
    (auto simp: sem_defs Let_def split: list.splits if_splits dest: notin_set_remove1)

theorem release_is_once:
  assumes "sem_ok s" and "p \<in> set (live s)"
  shows "release p (run sem_step (release p s) es) = run sem_step (release p s) es"
proof -
  let ?s = "release p s"
  have ok: "sem_ok ?s" by (rule sem_ok_release [OF assms(1)])
  have gone: "p \<notin> set (live ?s) \<and> p < next_permit ?s"
    using assms by (auto simp: sem_defs sem_ok_def Let_def split: list.splits)
  have "sem_ok t \<Longrightarrow> p \<notin> set (live t) \<and> p < next_permit t \<Longrightarrow> p \<notin> set (live (run sem_step t es))" for t
    by (induction es arbitrary: t) (auto simp: released_stays_released sem_ok_step)
  from this [OF ok gone] show ?thesis by (simp add: release_def)
qed

theorem release_is_once_witness:
  "let s = \<lparr>limit = 1, active = 1, waiters = [], live = [0], next_permit = 1, settled = []\<rparr> in
   release 0 (run sem_step (release 0 s) [TryAcquire]) = run sem_step (release 0 s) [TryAcquire]"
  using release_is_once [of "\<lparr>limit = 1, active = 1, waiters = [], live = [0], next_permit = 1, settled = []\<rparr>" 0 "[TryAcquire]"]
  by (simp add: sem_ok_def)

end
