(* ===== verification/Deadline.thy ===== *)
theory Deadline imports Prelude begin

text \<open>
  \<^verbatim>\<open>src/src/runtime/execution-deadline.ts\<close> and \<^verbatim>\<open>src/src/runtime/deadline-pause.ts\<close>: the
  absolute clock of one guest program and the pause that stops it while a host call waits for a
  person. Every read of \<open>Date.now()\<close> is an argument; a method that reads the clock twice takes
  two readings. Times are whole milliseconds; a requested floor is any JavaScript number.
  The deadline's \<open>options.maximumDeadlineAt ?? Infinity\<close> is \<open>maximum_at\<close>.
\<close>

datatype dl_reason = MaximumReason string | TimedOutAfter ext

record deadline =
  started_at :: int
  deadline_at :: ext
  clamped :: bool
  expired_reason :: "dl_reason option"
  timer :: "int option"
  maximum_at :: ext
  maximum_reason :: "string option"

definition clamp :: "ext \<Rightarrow> deadline \<Rightarrow> deadline" where
  "clamp a d = d\<lparr>clamped := a \<ge> maximum_at d, deadline_at := min a (maximum_at d)\<rparr>"

definition new_deadline :: "int \<Rightarrow> ext \<Rightarrow> string option \<Rightarrow> int \<Rightarrow> deadline" where
  "new_deadline timeout maxi maxr startedAt =
     clamp (Fin (startedAt + timeout))
       \<lparr>started_at = startedAt, deadline_at = Inf, clamped = False, expired_reason = None, timer = None,
        maximum_at = maxi, maximum_reason = maxr\<rparr>"

definition timeout_ms :: "deadline \<Rightarrow> ext" where
  "timeout_ms d = ext_minus (deadline_at d) (started_at d)"

definition reached :: "int \<Rightarrow> deadline \<Rightarrow> bool" where
  "reached now d \<longleftrightarrow> expired_reason d \<noteq> None \<or> deadline_at d \<le> Fin now"

definition reason :: "int \<Rightarrow> int \<Rightarrow> deadline \<Rightarrow> dl_reason \<times> deadline" where
  "reason now1 now2 d =
     (case expired_reason d of
        Some r \<Rightarrow> (r, d)
      | None \<Rightarrow>
         (let r = (case (if clamped d \<and> reached now1 d then maximum_reason d else None) of
                     Some m \<Rightarrow> MaximumReason m
                   | None \<Rightarrow> TimedOutAfter (timeout_ms d))
          in (r, if reached now2 d then d\<lparr>expired_reason := Some r\<rparr> else d)))"

text \<open>The result a timed-out program gets: its message and whether the host's own reason object
  is attached.\<close>

definition timeout_result :: "int \<Rightarrow> int \<Rightarrow> deadline \<Rightarrow> (dl_reason \<times> bool) \<times> deadline" where
  "timeout_result now1 now2 d =
     (case reason now1 now2 d of
        (r, d') \<Rightarrow> ((r, case r of MaximumReason _ \<Rightarrow> True | TimedOutAfter _ \<Rightarrow> False), d'))"

definition extend_deadline :: "jsnum option \<Rightarrow> int \<Rightarrow> int \<Rightarrow> deadline \<Rightarrow> bool \<times> deadline" where
  "extend_deadline requested now1 now2 d =
     (if reached now1 d then (False, d)
      else case requested of
        Some (Num q) \<Rightarrow>
          (let nxt = min (Fin (now2 + max 1 \<lfloor>q\<rfloor>)) (maximum_at d)
           in if nxt \<le> deadline_at d then (False, d) else (True, clamp nxt d))
      | _ \<Rightarrow> (False, d))"

definition remaining_ms :: "int \<Rightarrow> deadline \<Rightarrow> ext" where
  "remaining_ms now d = ext_minus (deadline_at d) now"

definition suspend :: "int \<Rightarrow> deadline \<Rightarrow> deadline" where
  "suspend now d = (if reached now d then d else clamp Inf d)"

definition resume :: "ext \<Rightarrow> int \<Rightarrow> deadline \<Rightarrow> deadline" where
  "resume remaining now d =
     (if expired_reason d \<noteq> None then d else clamp (ext_plus now (max (Fin 0) remaining)) d)"

text \<open>The delay handed to \<open>setTimeout\<close>, whose argument is a signed 32-bit integer.\<close>

definition timer_delay :: "int \<Rightarrow> deadline \<Rightarrow> int" where
  "timer_delay now d =
     (case max (Fin 0) (ext_minus (deadline_at d) now) of Inf \<Rightarrow> 2147483647 | Fin x \<Rightarrow> min 2147483647 x)"

definition clear_timer :: "deadline \<Rightarrow> deadline" where
  "clear_timer d = d\<lparr>timer := None\<rparr>"

definition schedule_deadline :: "int \<Rightarrow> deadline \<Rightarrow> deadline" where
  "schedule_deadline now d = (clear_timer d)\<lparr>timer := Some (timer_delay now d)\<rparr>"

text \<open>The timer callback: \<open>True\<close> when it calls \<open>expire\<close>.\<close>

definition timer_fires :: "int \<Rightarrow> int \<Rightarrow> deadline \<Rightarrow> bool \<times> deadline" where
  "timer_fires now1 now2 d =
     (let d' = d\<lparr>timer := None\<rparr>
      in if \<not> reached now1 d' then (False, schedule_deadline now2 d') else (True, d'))"

section \<open>The human-wait pause\<close>

text \<open>The pause works on any clock with the three operations of \<open>PausableDeadlineClock\<close>.\<close>

record pause =
  waiting :: nat
  saved_ms :: ext

definition new_pause :: pause where
  "new_pause = \<lparr>waiting = 0, saved_ms = Fin 0\<rparr>"

definition paused :: "pause \<Rightarrow> bool" where
  "paused p \<longleftrightarrow> waiting p > 0"

definition pause_enter :: "('c \<Rightarrow> ext) \<Rightarrow> ('c \<Rightarrow> 'c) \<Rightarrow> pause \<times> 'c \<Rightarrow> pause \<times> 'c" where
  "pause_enter remaining susp pc =
     (case pc of (p, c) \<Rightarrow>
        (let p' = p\<lparr>waiting := Suc (waiting p)\<rparr>
         in if waiting p > 0 then (p', c)
            else (p'\<lparr>saved_ms := max (Fin 0) (remaining c)\<rparr>, susp c)))"

definition pause_leave :: "(ext \<Rightarrow> 'c \<Rightarrow> 'c) \<Rightarrow> pause \<times> 'c \<Rightarrow> pause \<times> 'c" where
  "pause_leave res pc =
     (case pc of (p, c) \<Rightarrow>
        if waiting p = 0 then (p, c)
        else (let p' = p\<lparr>waiting := waiting p - 1\<rparr>
              in if waiting p' > 0 then (p', c) else (p', res (saved_ms p') c)))"

definition pause_raise :: "rat \<Rightarrow> pause \<Rightarrow> pause" where
  "pause_raise floorMs p = p\<lparr>saved_ms := max (saved_ms p) (Fin (max 1 \<lfloor>floorMs\<rfloor>))\<rparr>"

lemmas deadline_defs = clamp_def reached_def extend_deadline_def suspend_def resume_def schedule_deadline_def
  clear_timer_def timer_fires_def reason_def remaining_ms_def

section \<open>The clock contract\<close>

text \<open>
  What the pause relies on: resuming with a budget leaves exactly that budget, cut at the host's
  ceiling, and suspending loses neither the ceiling nor the right to resume.
\<close>

locale pausable_clock =
  fixes remaining :: "int \<Rightarrow> 'c \<Rightarrow> ext"
    and susp :: "int \<Rightarrow> 'c \<Rightarrow> 'c"
    and res :: "ext \<Rightarrow> int \<Rightarrow> 'c \<Rightarrow> 'c"
    and ceiling_at :: "'c \<Rightarrow> ext"
    and resumable :: "'c \<Rightarrow> bool"
  assumes remaining_res: "resumable c \<Longrightarrow> remaining now (res r now c) = min (max (Fin 0) r) (ext_minus (ceiling_at c) now)"
    and ceiling_susp: "ceiling_at (susp now c) = ceiling_at c"
    and resumable_susp: "resumable c \<Longrightarrow> resumable (susp now c)"
begin

lemma enter_first:
  "waiting p = 0 \<Longrightarrow> pause_enter (remaining now) (susp now) (p, c)
     = (p\<lparr>waiting := 1, saved_ms := max (Fin 0) (remaining now c)\<rparr>, susp now c)"
  by (simp add: pause_enter_def)

lemma enter_nested:
  "waiting p > 0 \<Longrightarrow> pause_enter (remaining now) (susp now) (p, c) = (p\<lparr>waiting := Suc (waiting p)\<rparr>, c)"
  by (simp add: pause_enter_def)

lemma leave_nested:
  "waiting p > 1 \<Longrightarrow> pause_leave (\<lambda>r. res r now) (p, c) = (p\<lparr>waiting := waiting p - 1\<rparr>, c)"
  by (simp add: pause_leave_def)

lemma leave_last:
  "waiting p = 1 \<Longrightarrow> pause_leave (\<lambda>r. res r now) (p, c) = (p\<lparr>waiting := 0\<rparr>, res (saved_ms p) now c)"
  by (simp add: pause_leave_def)

end

text \<open>The waits that start and end while an outer one is running: \<open>True\<close> starts one. The depth
  never drops below the outer wait.\<close>

fun inner_waits :: "nat \<Rightarrow> bool list \<Rightarrow> bool" where
  "inner_waits d [] = (d = 0)"
| "inner_waits d (True # ws) = inner_waits (Suc d) ws"
| "inner_waits d (False # ws) = (case d of 0 \<Rightarrow> False | Suc d' \<Rightarrow> inner_waits d' ws)"

definition wait_step :: "pause \<times> deadline \<Rightarrow> int \<times> bool \<Rightarrow> pause \<times> deadline" where
  "wait_step pc e =
     (case e of (now, enter) \<Rightarrow>
        if enter then pause_enter (remaining_ms now) (suspend now) pc
        else pause_leave (\<lambda>r. resume r now) pc)"

lemma ext_minus_min: "ext_minus (min a b) x = min (ext_minus a x) (ext_minus b x)"
  by (cases a; cases b) (auto simp: min_def)

lemma ext_minus_plus [simp]: "ext_minus (ext_plus x a) x = a"
  by (cases a) simp_all

interpretation dl: pausable_clock remaining_ms suspend resume maximum_at "\<lambda>d. expired_reason d = None"
  by unfold_locales
    (auto simp: remaining_ms_def suspend_def resume_def clamp_def ext_minus_min)

lemma inner_waits_run:
  "inner_waits d (map snd ws) \<Longrightarrow> waiting p = Suc d \<Longrightarrow> run wait_step (p, c) ws = (p\<lparr>waiting := 1\<rparr>, c)"
proof (induction ws arbitrary: d p)
  case Nil
  then show ?case by simp
next
  case (Cons w ws)
  obtain now e where w: "w = (now, e)" by (cases w)
  show ?case
  proof (cases e)
    case True
    with Cons w show ?thesis
      by (simp add: wait_step_def dl.enter_nested)
  next
    case False
    with Cons.prems w obtain d' where d: "d = Suc d'" by (cases d) auto
    with Cons False w show ?thesis
      by (simp add: wait_step_def dl.leave_nested)
  qed
qed

section \<open>Invariant of the deadline\<close>

datatype dl_event =
    Extend "jsnum option" int int
  | Suspend int
  | Resume ext int
  | ReadReason int int
  | Schedule int
  | TimerFires int int
  | Clear

fun dl_step :: "deadline \<Rightarrow> dl_event \<Rightarrow> deadline" where
  "dl_step d (Extend r n1 n2) = snd (extend_deadline r n1 n2 d)"
| "dl_step d (Suspend n) = suspend n d"
| "dl_step d (Resume r n) = resume r n d"
| "dl_step d (ReadReason n1 n2) = snd (reason n1 n2 d)"
| "dl_step d (Schedule n) = schedule_deadline n d"
| "dl_step d (TimerFires n1 n2) = snd (timer_fires n1 n2 d)"
| "dl_step d Clear = clear_timer d"

definition dl_ok :: "ext \<Rightarrow> deadline \<Rightarrow> bool" where
  "dl_ok m d \<longleftrightarrow> maximum_at d = m \<and> deadline_at d \<le> m"

lemma dl_ok_step: "dl_ok m d \<Longrightarrow> dl_ok m (dl_step d e)"
  by (cases e)
    (auto simp: dl_ok_def deadline_defs Let_def split: option.splits jsnum.splits)

interpretation dl_ceiling: machine_invariant dl_step "dl_ok m"
  by unfold_locales (rule dl_ok_step)

text \<open>Once the cause is recorded, no later operation changes the deadline or the cause.\<close>

definition dl_dead :: "ext \<Rightarrow> dl_reason \<Rightarrow> deadline \<Rightarrow> bool" where
  "dl_dead a r d \<longleftrightarrow> deadline_at d = a \<and> expired_reason d = Some r"

lemma dl_dead_step: "dl_dead a r d \<Longrightarrow> dl_dead a r (dl_step d e)"
  by (cases e) (auto simp: dl_dead_def deadline_defs Let_def)

interpretation dl_expired: machine_invariant dl_step "dl_dead a r"
  by unfold_locales (rule dl_dead_step)

lemma timer_delay_bounds: "0 \<le> timer_delay now d \<and> timer_delay now d \<le> 2147483647"
  by (cases "ext_minus (deadline_at d) now") (auto simp: timer_delay_def)

section \<open>Properties\<close>

text \<open>no sequence of floors, pauses, resumes, timers and reads moves a program's deadline
  past the host-owned absolute ceiling.\<close>

theorem deadline_below_ceiling:
  "deadline_at (run dl_step (new_deadline timeout maxi maxr startedAt) es) \<le> maxi"
proof -
  have "dl_ok maxi (new_deadline timeout maxi maxr startedAt)"
    by (simp add: dl_ok_def new_deadline_def clamp_def)
  from dl_ceiling.inv_run [OF this] show ?thesis by (simp add: dl_ok_def)
qed

text \<open>an expired program stays expired for the same cause: after the cause has been read at
  a time the deadline was reached, every later sequence of operations leaves the deadline, the
  cause and the answer of \<open>reached\<close> as they were, and no floor is accepted.\<close>

theorem expiry_is_final:
  assumes "reached n2 d" and "reason n1 n2 d = (r, d')"
  shows "let t = run dl_step d' es in
    deadline_at t = deadline_at d \<and> fst (reason m1 m2 t) = r \<and> reached m1 t \<and> \<not> fst (extend_deadline q m1 m2 t)"
proof -
  have "dl_dead (deadline_at d) r d'"
    using assms by (auto simp: dl_dead_def reason_def Let_def split: option.splits if_splits)
  from dl_expired.inv_run [OF this, of es] show ?thesis
    by (auto simp: dl_dead_def reason_def reached_def extend_deadline_def)
qed

theorem expiry_is_final_witness:
  "let d = new_deadline 10 Inf None 0; d' = snd (reason 12 12 d); t = run dl_step d' [Suspend 13, Resume (Fin 99) 14] in
    deadline_at t = deadline_at d \<and> fst (reason 15 15 t) = fst (reason 12 12 d) \<and> reached 15 t \<and> \<not> fst (extend_deadline (Some (Num 50)) 15 15 t)"
  using expiry_is_final [of 12 "new_deadline 10 Inf None 0" 12 "fst (reason 12 12 (new_deadline 10 Inf None 0))"
      "snd (reason 12 12 (new_deadline 10 Inf None 0))" "[Suspend 13, Resume (Fin 99) 14]" 15 15 "Some (Num 50)"]
  by (simp add: reached_def new_deadline_def clamp_def Let_def)

text \<open>waiting for a person costs no program time: a wait that starts at \<open>t1\<close> and ends at
  \<open>t2\<close>, with any properly nested waits inside, leaves the budget the program had at \<open>t1\<close>, cut
  only by the host ceiling.\<close>

theorem human_wait_is_free:
  assumes "waiting p = 0" and "expired_reason d = None" and "inner_waits 0 (map snd ws)"
  shows "case run wait_step (p, d) ((t1, True) # ws @ [(t2, False)]) of
    (p', d') \<Rightarrow> waiting p' = 0 \<and>
      remaining_ms t2 d' = min (max (Fin 0) (remaining_ms t1 d)) (ext_minus (maximum_at d) t2)"
proof -
  let ?p = "p\<lparr>waiting := 1, saved_ms := max (Fin 0) (remaining_ms t1 d)\<rparr>"
  have "run wait_step (p, d) ((t1, True) # ws) = (?p, suspend t1 d)"
    using assms(1) inner_waits_run [OF assms(3), of ?p "suspend t1 d"]
    by (simp add: wait_step_def dl.enter_first)
  then have "run wait_step (p, d) ((t1, True) # ws @ [(t2, False)]) = wait_step (?p, suspend t1 d) (t2, False)"
    using run_append [of wait_step "(p, d)" "(t1, True) # ws" "[(t2, False)]"] by simp
  then show ?thesis
    using dl.remaining_res [OF dl.resumable_susp [OF assms(2)], of t2 "max (Fin 0) (remaining_ms t1 d)" t1]
    by (simp add: wait_step_def dl.leave_last dl.ceiling_susp)
qed

theorem human_wait_is_free_witness:
  "case run wait_step (new_pause, new_deadline 100 Inf None 0)
      ((40, True) # [(50, True), (60, False)] @ [(5000, False)]) of
    (p', d') \<Rightarrow> waiting p' = 0 \<and> remaining_ms 5000 d' =
      min (max (Fin 0) (remaining_ms 40 (new_deadline 100 Inf None 0))) (ext_minus (maximum_at (new_deadline 100 Inf None 0)) 5000)"
  by (rule human_wait_is_free)
    (simp_all add: new_pause_def new_deadline_def clamp_def)

text \<open>the host timer never expires a program early and never overflows its 32-bit delay: a
  callback before the exact deadline re-arms, one at or after it expires, and the re-armed delay
  is within \<open>[0, 2^31 - 1]\<close> and reaches the deadline when it is that near.\<close>

theorem timer_is_exact:
  assumes "expired_reason d = None"
  shows "(fst (timer_fires now now2 d) \<longleftrightarrow> deadline_at d \<le> Fin now)
    \<and> (\<not> fst (timer_fires now now2 d) \<longrightarrow>
        (\<exists>w. timer (snd (timer_fires now now2 d)) = Some w \<and> 0 \<le> w \<and> w \<le> 2147483647
          \<and> (deadline_at d \<le> Fin (now2 + 2147483647) \<longrightarrow> deadline_at d \<le> Fin (now2 + w))))"
proof (cases "deadline_at d")
  case (Fin x)
  with assms show ?thesis
    by (auto simp add: timer_fires_def reached_def schedule_deadline_def clear_timer_def timer_delay_def Let_def)
next
  case Inf
  with assms show ?thesis
    by (simp add: timer_fires_def reached_def schedule_deadline_def clear_timer_def timer_delay_def Let_def)
qed

theorem timer_is_exact_witness:
  "let d = new_deadline 100 Inf None 0 in
    (fst (timer_fires 30 31 d) \<longleftrightarrow> deadline_at d \<le> Fin 30)
    \<and> (\<not> fst (timer_fires 30 31 d) \<longrightarrow>
        (\<exists>w. timer (snd (timer_fires 30 31 d)) = Some w \<and> 0 \<le> w \<and> w \<le> 2147483647
          \<and> (deadline_at d \<le> Fin (31 + 2147483647) \<longrightarrow> deadline_at d \<le> Fin (31 + w))))"
  using timer_is_exact [of "new_deadline 100 Inf None 0" 30 31]
  by (simp add: new_deadline_def clamp_def Let_def)

end
