(* ===== verification/Speculation.thy ===== *)
theory Speculation imports Prelude begin

text \<open>
  \<^verbatim>\<open>src/src/speculation/store.ts\<close>: the turn-scoped store of pre-launched tool calls.
  An entry is a mutable object shared by the \<open>#entries\<close> map, the \<open>#serving\<close> set and
  the suspended \<open>tryServe\<close> that awaits its promise, so entries live in an explicit store
  \<open>objs\<close> under a number; \<open>s_key\<close> is the map key it was launched under.
  \<open>tryServe\<close> is split at its only \<open>await\<close>: \<open>serve_begin\<close> and \<open>serve_end\<close>, and
  the promise settles in between (\<open>promise_settles\<close>). \<open>Date.now()\<close>, the digest of the
  prepared arguments (\<^verbatim>\<open>core/stable-hash.ts\<close>), and the answer of the freshness checker at
  the time it is asked are arguments.
\<close>

record stats =
  launched :: nat
  served :: nat
  epochInvalidated :: nat
  freshnessInvalidated :: nat
  failed_count :: nat
  wasted :: nat
  skipped :: nat

record sentry =
  parent :: string
  s_ref :: string
  s_key :: string
  birth :: nat
  created :: int
  aborted :: bool
  has_freshness :: bool
  failed :: bool
  settled :: bool
  result :: nat

record spec =
  epoch :: nat
  entries :: "(string, nat) jmap"
  serving :: "nat list"
  ended :: "string list"
  objs :: "nat \<Rightarrow> sentry option"
  next_obj :: nat
  st :: stats
  max_concurrent :: nat
  max_entries :: nat
  entry_ttl :: int

datatype miss = Absent | EpochChanged | Stale | Failed
datatype serve_result = Miss miss | Hit nat | Pending nat

definition zero_stats :: stats where
  "zero_stats = \<lparr>launched = 0, served = 0, epochInvalidated = 0, freshnessInvalidated = 0,
     failed_count = 0, wasted = 0, skipped = 0\<rparr>"

definition new_store :: "nat \<Rightarrow> nat \<Rightarrow> int \<Rightarrow> spec" where
  "new_store mc me ttl = \<lparr>epoch = 0, entries = [], serving = [], ended = [], objs = (\<lambda>_. None), next_obj = 0,
     st = zero_stats, max_concurrent = mc, max_entries = me, entry_ttl = ttl\<rparr>"

definition pending :: "spec \<Rightarrow> nat" where
  "pending s = length (entries s)"

definition bump_epoch :: "spec \<Rightarrow> spec" where
  "bump_epoch s = s\<lparr>epoch := Suc (epoch s)\<rparr>"

text \<open>\<open>captureLaunch\<close> returns a closure over the epoch; its answer later is \<open>launch_current\<close>.\<close>

definition capture_launch :: "spec \<Rightarrow> nat" where
  "capture_launch s = epoch s"

definition launch_current :: "nat \<Rightarrow> string \<Rightarrow> spec \<Rightarrow> bool" where
  "launch_current captured p s \<longleftrightarrow> captured = epoch s \<and> p \<notin> set (ended s)"

definition spec_key :: "string \<Rightarrow> string \<Rightarrow> string \<Rightarrow> string \<Rightarrow> string" where
  "spec_key p r digest token = p @ [CHR 10] @ r @ [CHR 10] @ digest @ [CHR 10] @ token"

definition abort_all :: "nat list \<Rightarrow> (nat \<Rightarrow> sentry option) \<Rightarrow> nat \<Rightarrow> sentry option" where
  "abort_all is h i = (if i \<in> set is then map_option (\<lambda>e. e\<lparr>aborted := True\<rparr>) (h i) else h i)"

text \<open>The deleting loops over \<open>#entries\<close>: abort, delete and count as waste every entry that
  satisfies the predicate.\<close>

definition waste_where :: "(sentry \<Rightarrow> bool) \<Rightarrow> spec \<Rightarrow> spec" where
  "waste_where P s =
     (let hit = (\<lambda>(k, i). case objs s i of Some e \<Rightarrow> P e | None \<Rightarrow> False);
          gone = filter hit (entries s)
      in s\<lparr>entries := filter (\<lambda>p. \<not> hit p) (entries s), objs := abort_all (map snd gone) (objs s),
           st := (st s)\<lparr>wasted := wasted (st s) + length gone\<rparr>\<rparr>)"

definition sweep_expired :: "int \<Rightarrow> spec \<Rightarrow> spec" where
  "sweep_expired now s = waste_where (\<lambda>e. now - created e > entry_ttl s) s"

definition in_flight_count :: "spec \<Rightarrow> nat" where
  "in_flight_count s = length (filter (\<lambda>(k, i). case objs s i of Some e \<Rightarrow> \<not> failed e | None \<Rightarrow> False) (entries s))"

definition skip :: "spec \<Rightarrow> spec" where
  "skip s = s\<lparr>st := (st s)\<lparr>skipped := Suc (skipped (st s))\<rparr>\<rparr>"

definition launch :: "string \<Rightarrow> string \<Rightarrow> string \<Rightarrow> string \<Rightarrow> bool \<Rightarrow> int \<Rightarrow> spec \<Rightarrow> bool \<times> spec" where
  "launch p r digest token fresh now s =
     (if p \<in> set (ended s) then (False, s)
      else (let s1 = sweep_expired now s; key = spec_key p r digest token in
        if length (entries s1) \<ge> max_entries s1 \<or> in_flight_count s1 \<ge> max_concurrent s1 then (False, skip s1)
        else if jm_has (entries s1) key then (False, skip s1)
        else (True, s1\<lparr>entries := jm_set key (next_obj s1) (entries s1),
            objs := (objs s1)(next_obj s1 \<mapsto> \<lparr>parent = p, s_ref = r, s_key = key, birth = epoch s1, created = now,
              aborted = False, has_freshness = fresh, failed = False, settled = False, result = 0\<rparr>),
            next_obj := Suc (next_obj s1),
            st := (st s1)\<lparr>launched := Suc (launched (st s1))\<rparr>\<rparr>)))"

text \<open>The provider's promise: \<open>None\<close> is a rejection; a promise settles once.\<close>

definition promise_settles :: "nat \<Rightarrow> nat option \<Rightarrow> spec \<Rightarrow> spec" where
  "promise_settles i v s = s\<lparr>objs := (objs s)(i := map_option
     (\<lambda>e. if settled e then e
          else case v of None \<Rightarrow> e\<lparr>failed := True, settled := True\<rparr> | Some x \<Rightarrow> e\<lparr>result := x, settled := True\<rparr>)
     (objs s i))\<rparr>"

definition abort_one :: "nat \<Rightarrow> spec \<Rightarrow> spec" where
  "abort_one i s = s\<lparr>objs := abort_all [i] (objs s)\<rparr>"

definition count_epoch :: "spec \<Rightarrow> spec" where
  "count_epoch s = s\<lparr>st := (st s)\<lparr>epochInvalidated := Suc (epochInvalidated (st s))\<rparr>\<rparr>"

definition count_wasted :: "spec \<Rightarrow> spec" where
  "count_wasted s = s\<lparr>st := (st s)\<lparr>wasted := Suc (wasted (st s))\<rparr>\<rparr>"

definition count_stale :: "spec \<Rightarrow> spec" where
  "count_stale s = s\<lparr>st := (st s)\<lparr>freshnessInvalidated := Suc (freshnessInvalidated (st s))\<rparr>\<rparr>"

definition count_failed :: "spec \<Rightarrow> spec" where
  "count_failed s = s\<lparr>st := (st s)\<lparr>failed_count := Suc (failed_count (st s))\<rparr>\<rparr>"

definition count_served :: "spec \<Rightarrow> spec" where
  "count_served s = s\<lparr>st := (st s)\<lparr>served := Suc (served (st s))\<rparr>\<rparr>"

text \<open>\<open>tryServe\<close> up to its await.\<close>

definition serve_begin :: "string \<Rightarrow> string \<Rightarrow> string \<Rightarrow> string \<Rightarrow> int \<Rightarrow> bool \<Rightarrow> spec \<Rightarrow> serve_result \<times> spec" where
  "serve_begin p r digest token now holds s =
     (let key = spec_key p r digest token in
      case jm_get (entries s) key of
        None \<Rightarrow> (Miss Absent, s)
      | Some i \<Rightarrow> (case objs s i of
          None \<Rightarrow> (Miss Absent, s)
        | Some e \<Rightarrow>
          if parent e \<noteq> p then (Miss Absent, s)
          else (let s1 = s\<lparr>entries := jm_del key (entries s)\<rparr> in
            if now - created e > entry_ttl s then (Miss Absent, abort_one i (count_wasted s1))
            else if birth e \<noteq> epoch s then (Miss EpochChanged, abort_one i (count_epoch s1))
            else if has_freshness e \<and> \<not> holds then (Miss Stale, abort_one i (count_stale s1))
            else (Pending i, s1\<lparr>serving := serving s1 @ [i]\<rparr>))))"

text \<open>\<open>tryServe\<close> after the promise of a served entry settled.\<close>

definition serve_end :: "nat \<Rightarrow> int \<Rightarrow> bool \<Rightarrow> spec \<Rightarrow> serve_result \<times> spec" where
  "serve_end i now holds s =
     (if i \<notin> set (serving s) then (Pending i, s)
      else case objs s i of None \<Rightarrow> (Pending i, s) | Some e \<Rightarrow>
        if \<not> settled e then (Pending i, s) else
        (let s1 = s\<lparr>serving := remove1 i (serving s)\<rparr> in
         if aborted e \<or> birth e \<noteq> epoch s then (Miss EpochChanged, abort_one i (count_epoch s1))
         else if now - created e > entry_ttl s then (Miss Absent, abort_one i (count_wasted s1))
         else if has_freshness e \<and> \<not> holds then (Miss Stale, abort_one i (count_stale s1))
         else if failed e then (Miss Failed, count_failed s1)
         else (Hit (result e), count_served s1)))"

definition on_invocation_end :: "string \<Rightarrow> spec \<Rightarrow> spec" where
  "on_invocation_end p s =
     waste_where (\<lambda>e. parent e = p)
       (s\<lparr>ended := (if p \<in> set (ended s) then ended s else ended s @ [p]),
          objs := abort_all (filter (\<lambda>i. case objs s i of Some e \<Rightarrow> parent e = p | None \<Rightarrow> False) (serving s)) (objs s)\<rparr>)"

definition reset :: "spec \<Rightarrow> spec" where
  "reset s = (let s1 = bump_epoch s in
     s1\<lparr>objs := abort_all (serving s1 @ map snd (entries s1)) (objs s1), entries := [], ended := []\<rparr>)"

datatype spec_event =
    Launch string string string string bool int
  | Settle nat "nat option"
  | ServeBegin string string string string int bool
  | ServeEnd nat int bool
  | BumpEpoch
  | InvocationEnd string
  | ResetTurn

fun spec_step :: "spec \<Rightarrow> spec_event \<Rightarrow> spec" where
  "spec_step s (Launch p r d t f now) = snd (launch p r d t f now s)"
| "spec_step s (Settle i v) = promise_settles i v s"
| "spec_step s (ServeBegin p r d t now h) = snd (serve_begin p r d t now h s)"
| "spec_step s (ServeEnd i now h) = snd (serve_end i now h s)"
| "spec_step s BumpEpoch = bump_epoch s"
| "spec_step s (InvocationEnd p) = on_invocation_end p s"
| "spec_step s ResetTurn = reset s"


section \<open>Invariant\<close>

lemma waste_where_frame [simp]:
  "epoch (waste_where P s) = epoch s" "serving (waste_where P s) = serving s"
  "next_obj (waste_where P s) = next_obj s" "ended (waste_where P s) = ended s"
  "max_entries (waste_where P s) = max_entries s" "max_concurrent (waste_where P s) = max_concurrent s"
  "entry_ttl (waste_where P s) = entry_ttl s"
  by (simp_all add: waste_where_def Let_def)

lemma set_entries_waste: "set (entries (waste_where P s)) =
    {(k, i) \<in> set (entries s). \<not> (case objs s i of Some e \<Rightarrow> P e | None \<Rightarrow> False)}"
  by (auto simp: waste_where_def Let_def)

lemma length_entries_waste: "length (entries (waste_where P s)) \<le> length (entries s)"
  by (simp add: waste_where_def Let_def)

lemma abort_all_Some: "h i = Some e \<Longrightarrow> \<exists>e'. abort_all is h i = Some e' \<and> e' = (if i \<in> set is then e\<lparr>aborted := True\<rparr> else e)"
  by (simp add: abort_all_def)

lemma abort_all_None_iff [simp]: "abort_all is h i = None \<longleftrightarrow> h i = None"
  by (simp add: abort_all_def)

lemma abort_all_proj:
  "abort_all is h i = Some e' \<Longrightarrow> \<exists>e. h i = Some e \<and> failed e' = failed e \<and> s_key e' = s_key e \<and> birth e' = birth e"
  by (auto simp: abort_all_def split: if_splits)

text \<open>Entries and served objects are numbered apart, each number names a stored object with the
  key it is filed under, and no object is younger than the epoch.\<close>

definition spec_ok :: "spec \<Rightarrow> bool" where
  "spec_ok s \<longleftrightarrow> jm_ok (entries s) \<and> distinct (map snd (entries s) @ serving s)
     \<and> (\<forall>i \<in> snd ` set (entries s) \<union> set (serving s). objs s i \<noteq> None)
     \<and> (\<forall>i e. objs s i = Some e \<longrightarrow> i < next_obj s \<and> birth e \<le> epoch s)
     \<and> (\<forall>(k, i) \<in> set (entries s). \<forall>e. objs s i = Some e \<longrightarrow> s_key e = k)"

lemma spec_ok_new: "spec_ok (new_store mc me ttl)"
  by (simp add: spec_ok_def new_store_def)

definition obj_id :: "spec \<Rightarrow> nat \<Rightarrow> (string \<times> nat) option" where
  "obj_id s i = map_option (\<lambda>e. (s_key e, birth e)) (objs s i)"

lemma spec_ok_shrinks:
  assumes "spec_ok s" and "jm_ok (entries s')" and "distinct (map snd (entries s') @ serving s')"
    and "set (entries s') \<subseteq> set (entries s)"
    and "set (serving s') \<subseteq> set (serving s) \<union> snd ` set (entries s)"
    and "next_obj s' = next_obj s" and "epoch s \<le> epoch s'" and "obj_id s' = obj_id s"
  shows "spec_ok s'"
proof -
  have same: "map_option (\<lambda>e. (s_key e, birth e)) (objs s' i) = map_option (\<lambda>e. (s_key e, birth e)) (objs s i)" for i
    using fun_cong [OF assms(8), of i] by (simp add: obj_id_def)
  have old: "\<exists>e0. objs s i = Some e0 \<and> s_key e0 = s_key e \<and> birth e0 = birth e" if "objs s' i = Some e" for i e
    using same [of i] that by (cases "objs s i") auto
  have live: "objs s' i \<noteq> None" if "objs s i \<noteq> None" for i
    using same [of i] that by auto
  have "snd ` set (entries s') \<union> set (serving s') \<subseteq> snd ` set (entries s) \<union> set (serving s)"
    using assms(4,5) by blast
  moreover have "\<forall>i \<in> snd ` set (entries s) \<union> set (serving s). objs s i \<noteq> None"
    using assms(1) by (simp add: spec_ok_def)
  ultimately have "\<forall>i \<in> snd ` set (entries s') \<union> set (serving s'). objs s' i \<noteq> None"
    using live by blast
  moreover have "i < next_obj s' \<and> birth e \<le> epoch s'" if "objs s' i = Some e" for i e
    using old [OF that] assms(1,6,7) by (fastforce simp: spec_ok_def)
  moreover have "s_key e = k" if "(k, i) \<in> set (entries s')" "objs s' i = Some e" for k i e
    using old [OF that(2)] that(1) assms(1,4) by (fastforce simp: spec_ok_def)
  ultimately show ?thesis
    using assms(2,3) unfolding spec_ok_def by blast
qed

lemma obj_id_abort [simp]: "objs s' = abort_all is (objs s) \<Longrightarrow> obj_id s' = obj_id s"
  by (auto simp: obj_id_def fun_eq_iff abort_all_def option.map_comp comp_def)

lemma obj_id_frame [simp]: "obj_id (s\<lparr>epoch := x\<rparr>) = obj_id s"
  by (simp add: obj_id_def fun_eq_iff)

lemma spec_ok_waste: "spec_ok s \<Longrightarrow> spec_ok (waste_where P s)"
  by (rule spec_ok_shrinks, assumption)
    (auto simp: waste_where_def Let_def spec_ok_def distinct_map_filter intro: obj_id_abort)

lemma spec_ok_stats [simp]: "spec_ok (s\<lparr>st := x\<rparr>) = spec_ok s"
  by (simp add: spec_ok_def)

lemma spec_ok_ended [simp]: "spec_ok (s\<lparr>ended := x\<rparr>) = spec_ok s"
  by (simp add: spec_ok_def)

lemma spec_ok_abort: "spec_ok s \<Longrightarrow> spec_ok (s\<lparr>objs := abort_all is (objs s)\<rparr>)"
  by (rule spec_ok_shrinks [of s]) (auto simp: spec_ok_def intro: obj_id_abort)

lemma spec_ok_abort_one: "spec_ok s \<Longrightarrow> spec_ok (abort_one i s)"
  by (simp add: abort_one_def spec_ok_abort)

lemma obj_id_settle: "obj_id (promise_settles i v s) = obj_id s"
  by (cases "objs s i") (auto simp: obj_id_def promise_settles_def fun_eq_iff split: option.splits)

lemma spec_ok_settle: "spec_ok s \<Longrightarrow> spec_ok (promise_settles i v s)"
  by (rule spec_ok_shrinks [of s]) (auto simp: spec_ok_def promise_settles_def obj_id_settle [unfolded promise_settles_def])

lemma spec_ok_bump: "spec_ok s \<Longrightarrow> spec_ok (bump_epoch s)"
  by (rule spec_ok_shrinks [of s]) (auto simp: spec_ok_def bump_epoch_def obj_id_def)

lemma entries_del:
  assumes "spec_ok s" and "jm_get (entries s) k = Some i"
  shows "i \<notin> snd ` set (jm_del k (entries s))" "i \<notin> set (serving s)" "(k, i) \<in> set (entries s)"
proof -
  show ki: "(k, i) \<in> set (entries s)" using assms(2) by (rule jm_get_in_set)
  have inj: "inj_on snd (set (entries s))"
    using assms(1) by (simp add: spec_ok_def distinct_map)
  show "i \<notin> snd ` set (jm_del k (entries s))"
    using inj_onD [OF inj _ ki] by (auto simp: set_jm_del)
  show "i \<notin> set (serving s)" using ki assms(1) by (force simp: spec_ok_def)
qed

lemma spec_ok_take:
  assumes "spec_ok s" and "jm_get (entries s) k = Some i"
  shows "spec_ok (s\<lparr>entries := jm_del k (entries s)\<rparr>)"
    "spec_ok (s\<lparr>entries := jm_del k (entries s), serving := serving s @ [i]\<rparr>)"
proof -
  note e = entries_del [OF assms]
  have ok: "jm_ok (entries s)" "distinct (map snd (entries s))" "distinct (serving s)"
      "snd ` set (entries s) \<inter> set (serving s) = {}"
    using assms(1) by (auto simp: spec_ok_def)
  have d: "distinct (map snd (jm_del k (entries s)))"
    using ok(2) by (simp add: jm_del_def distinct_map_filter)
  have sub: "set (jm_del k (entries s)) \<subseteq> set (entries s)" by (auto simp: set_jm_del)
  show "spec_ok (s\<lparr>entries := jm_del k (entries s)\<rparr>)"
    using ok d sub by (intro spec_ok_shrinks [OF assms(1)]) (auto simp: obj_id_def)
  have "i \<in> snd ` set (entries s)" using e(3) by force
  then show "spec_ok (s\<lparr>entries := jm_del k (entries s), serving := serving s @ [i]\<rparr>)"
    using ok d sub e(1,2) by (intro spec_ok_shrinks [OF assms(1)]) (auto simp: obj_id_def)
qed

lemma spec_ok_unserve: "spec_ok s \<Longrightarrow> spec_ok (s\<lparr>serving := remove1 i (serving s)\<rparr>)"
  by (rule spec_ok_shrinks [of s]) (auto simp: spec_ok_def obj_id_def dest: notin_set_remove1)

lemmas count_defs = count_epoch_def count_wasted_def count_stale_def count_failed_def count_served_def skip_def

lemma spec_ok_counts [simp]:
  "spec_ok (count_epoch s) = spec_ok s" "spec_ok (count_wasted s) = spec_ok s"
  "spec_ok (count_stale s) = spec_ok s" "spec_ok (count_failed s) = spec_ok s"
  "spec_ok (count_served s) = spec_ok s" "spec_ok (skip s) = spec_ok s"
  by (simp_all add: count_defs)

lemma spec_ok_fresh:
  assumes "spec_ok s" shows "next_obj s \<notin> snd ` set (entries s)" "next_obj s \<notin> set (serving s)"
proof -
  have "i < next_obj s" if i: "i \<in> snd ` set (entries s) \<union> set (serving s)" for i
  proof -
    from i assms obtain e where "objs s i = Some e" unfolding spec_ok_def by blast
    with assms show ?thesis by (simp add: spec_ok_def)
  qed
  then show "next_obj s \<notin> snd ` set (entries s)" "next_obj s \<notin> set (serving s)" by blast+
qed

lemma spec_ok_add:
  assumes "spec_ok s" and "\<not> jm_has (entries s) key" and "s_key e = key" and "birth e = epoch s"
  shows "spec_ok (s\<lparr>entries := jm_set key (next_obj s) (entries s), objs := (objs s)(next_obj s \<mapsto> e),
    next_obj := Suc (next_obj s)\<rparr>)"
proof -
  note fresh = spec_ok_fresh [OF assms(1)]
  have e: "jm_set key (next_obj s) (entries s) = entries s @ [(key, next_obj s)]"
    using assms(2) by (simp add: jm_set_absent jm_has_iff)
  have "jm_ok (entries s @ [(key, next_obj s)])"
    using assms(1) jm_ok_set [of "entries s" key "next_obj s"] e by (simp add: spec_ok_def)
  moreover have "distinct (map snd (entries s @ [(key, next_obj s)]) @ serving s)"
    using fresh assms(1) by (auto simp: spec_ok_def)
  moreover have "\<forall>i\<in>snd ` set (entries s @ [(key, next_obj s)]) \<union> set (serving s). ((objs s)(next_obj s \<mapsto> e)) i \<noteq> None"
    using assms(1) by (auto simp: spec_ok_def)
  moreover have "\<forall>i x. ((objs s)(next_obj s \<mapsto> e)) i = Some x \<longrightarrow> i < Suc (next_obj s) \<and> birth x \<le> epoch s"
  proof (intro allI impI)
    fix i x assume x: "((objs s)(next_obj s \<mapsto> e)) i = Some x"
    show "i < Suc (next_obj s) \<and> birth x \<le> epoch s"
    proof (cases "i = next_obj s")
      case True
      with x assms(4) show ?thesis by simp
    next
      case False
      with x have "objs s i = Some x" by simp
      with assms(1) have "i < next_obj s \<and> birth x \<le> epoch s" unfolding spec_ok_def by blast
      then show ?thesis by simp
    qed
  qed
  moreover have "\<forall>(k, i)\<in>set (entries s @ [(key, next_obj s)]). \<forall>x. ((objs s)(next_obj s \<mapsto> e)) i = Some x \<longrightarrow> s_key x = k"
  proof clarify
    fix k i x assume ki: "(k, i) \<in> set (entries s @ [(key, next_obj s)])"
      and x: "((objs s)(next_obj s \<mapsto> e)) i = Some x"
    show "s_key x = k"
    proof (cases "i = next_obj s")
      case True
      with ki fresh(1) have "k = key" by force
      with True x assms(3) show ?thesis by simp
    next
      case False
      with ki x have "(k, i) \<in> set (entries s)" "objs s i = Some x" by auto
      with assms(1) show ?thesis unfolding spec_ok_def by blast
    qed
  qed
  ultimately show ?thesis
    unfolding spec_ok_def e by simp
qed

lemma spec_ok_sweep: "spec_ok s \<Longrightarrow> spec_ok (sweep_expired now s)"
  by (simp add: sweep_expired_def spec_ok_waste)

lemma spec_ok_launch: "spec_ok s \<Longrightarrow> spec_ok (snd (launch p r d t f now s))"
  by (auto simp: launch_def Let_def spec_ok_sweep intro!: spec_ok_add)

lemma spec_ok_serve_begin: "spec_ok s \<Longrightarrow> spec_ok (snd (serve_begin p r d t now h s))"
  by (auto simp: serve_begin_def Let_def spec_ok_abort_one spec_ok_take split: option.splits)

lemma spec_ok_serve_end: "spec_ok s \<Longrightarrow> spec_ok (snd (serve_end i now h s))"
  by (auto simp: serve_end_def Let_def spec_ok_abort_one spec_ok_unserve split: option.splits)

lemma spec_ok_invocation_end: "spec_ok s \<Longrightarrow> spec_ok (on_invocation_end p s)"
  unfolding on_invocation_end_def
  by (rule spec_ok_waste) (use spec_ok_abort [of s] spec_ok_ended in \<open>auto simp: spec_ok_def\<close>)

lemma spec_ok_reset: "spec_ok s \<Longrightarrow> spec_ok (reset s)"
  unfolding reset_def Let_def
  by (rule spec_ok_shrinks [OF spec_ok_bump [of s]])
    (auto simp: spec_ok_def bump_epoch_def intro: obj_id_abort)

lemma spec_ok_step: "spec_ok s \<Longrightarrow> spec_ok (spec_step s e)"
  by (cases e) (simp_all add: spec_ok_launch spec_ok_serve_begin spec_ok_serve_end
      spec_ok_invocation_end spec_ok_reset spec_ok_bump spec_ok_settle)

interpretation spec: machine_invariant spec_step spec_ok
  by unfold_locales (rule spec_ok_step)

section \<open>Capacity\<close>

lemma length_filter_mono: "(\<And>x. x \<in> set xs \<Longrightarrow> P x \<Longrightarrow> Q x) \<Longrightarrow> length (filter P xs) \<le> length (filter Q xs)"
  by (induction xs) auto

definition running :: "(nat \<Rightarrow> sentry option) \<Rightarrow> nat \<Rightarrow> bool" where
  "running h i = (case h i of Some e \<Rightarrow> \<not> failed e | None \<Rightarrow> False)"

lemma in_flight_alt: "in_flight_count s = length (filter (\<lambda>p. running (objs s) (snd p)) (entries s))"
  by (simp add: in_flight_count_def running_def case_prod_beta')

lemma running_abort [simp]: "running (abort_all is h) i = running h i"
  by (auto simp: running_def abort_all_def split: option.splits)

lemma promise_settles_frame [simp]:
  "entries (promise_settles i v s) = entries s" "max_entries (promise_settles i v s) = max_entries s"
  "max_concurrent (promise_settles i v s) = max_concurrent s" "serving (promise_settles i v s) = serving s"
  "epoch (promise_settles i v s) = epoch s"
  by (simp_all add: promise_settles_def)

lemma running_settle: "running (objs (promise_settles i v s)) j \<Longrightarrow> running (objs s) j"
  by (auto simp: running_def promise_settles_def split: option.splits if_splits)

definition within_capacity :: "nat \<Rightarrow> nat \<Rightarrow> spec \<Rightarrow> bool" where
  "within_capacity me mc s \<longleftrightarrow> spec_ok s \<and> max_entries s = me \<and> max_concurrent s = mc
     \<and> length (entries s) \<le> me \<and> in_flight_count s \<le> mc"

lemma within_capacity_shrinks:
  assumes "within_capacity me mc s" and "spec_ok s'" and "max_entries s' = max_entries s"
    and "max_concurrent s' = max_concurrent s" and "entries s' = filter P (entries s)"
    and "\<And>i. running (objs s') i \<Longrightarrow> running (objs s) i"
  shows "within_capacity me mc s'"
proof -
  have "length (filter (\<lambda>p. running (objs s') (snd p)) (filter P (entries s)))
      \<le> length (filter (\<lambda>p. running (objs s) (snd p)) (entries s))"
    using assms(6) by (auto intro: length_filter_mono)
  with assms(1-5) show ?thesis
    by (auto simp: within_capacity_def in_flight_alt intro: order_trans [OF length_filter_le])
qed

lemma waste_where_entries: "\<exists>Q. entries (waste_where P s) = filter Q (entries s)"
  by (auto simp: waste_where_def Let_def)

lemma running_waste [simp]: "running (objs (waste_where P s)) i = running (objs s) i"
  by (simp add: waste_where_def Let_def)

lemma within_capacity_waste: "within_capacity me mc s \<Longrightarrow> within_capacity me mc (waste_where P s)"
proof -
  assume c: "within_capacity me mc s"
  then have "spec_ok (waste_where P s)" by (simp add: within_capacity_def spec_ok_waste)
  moreover obtain Q where "entries (waste_where P s) = filter Q (entries s)"
    using waste_where_entries by blast
  ultimately show ?thesis by (intro within_capacity_shrinks [OF c]) simp_all
qed

lemma within_capacity_frame [simp]:
  "within_capacity me mc (s\<lparr>st := x\<rparr>) = within_capacity me mc s"
  "within_capacity me mc (s\<lparr>ended := y\<rparr>) = within_capacity me mc s"
  by (simp_all add: within_capacity_def in_flight_count_def)

lemma within_capacity_launch:
  assumes "within_capacity me mc s"
  shows "within_capacity me mc (snd (launch p r d t f now s))"
proof -
  let ?s1 = "sweep_expired now s"
  have s1: "within_capacity me mc ?s1"
    using assms by (simp add: sweep_expired_def within_capacity_waste)
  have keep: "length (filter (\<lambda>q. running ((objs ?s1)(next_obj ?s1 \<mapsto> e)) (snd q)) (entries ?s1)) = in_flight_count ?s1" for e
  proof -
    have "next_obj ?s1 \<notin> snd ` set (entries ?s1)"
      using s1 spec_ok_fresh [of ?s1] by (simp add: within_capacity_def)
    then have "filter (\<lambda>q. running ((objs ?s1)(next_obj ?s1 \<mapsto> e)) (snd q)) (entries ?s1)
        = filter (\<lambda>q. running (objs ?s1) (snd q)) (entries ?s1)"
      by (intro filter_cong refl) (force simp: running_def)
    then show ?thesis by (simp add: in_flight_alt)
  qed
  have ok: "spec_ok (snd (launch p r d t f now s))"
    using assms by (simp add: within_capacity_def spec_ok_launch)
  show ?thesis
  proof (cases "fst (launch p r d t f now s)")
    case False
    with s1 assms show ?thesis by (auto simp: launch_def Let_def skip_def split: if_splits)
  next
    case True
    let ?l = "snd (launch p r d t f now s)"
    obtain e where "entries ?l = entries ?s1 @ [(spec_key p r d t, next_obj ?s1)]"
        "objs ?l = (objs ?s1)(next_obj ?s1 \<mapsto> e)" "max_entries ?l = me" "max_concurrent ?l = mc"
        "length (entries ?s1) < me" "in_flight_count ?s1 < mc"
      using True s1
      by (auto simp: launch_def Let_def within_capacity_def jm_set_absent jm_has_iff split: if_splits)
    then show ?thesis
      using ok keep [of e] by (simp add: within_capacity_def in_flight_alt [of ?l])
  qed
qed

lemma serve_begin_effect:
  "entries (snd (serve_begin p r d t now h s)) = entries s
     \<or> entries (snd (serve_begin p r d t now h s)) = jm_del (spec_key p r d t) (entries s)"
  "max_entries (snd (serve_begin p r d t now h s)) = max_entries s"
  "max_concurrent (snd (serve_begin p r d t now h s)) = max_concurrent s"
  "running (objs (snd (serve_begin p r d t now h s))) i = running (objs s) i"
  by (auto simp: serve_begin_def Let_def abort_one_def count_defs split: option.split)

lemma serve_begin_filters: "\<exists>P. entries (snd (serve_begin p r d t now h s)) = filter P (entries s)"
proof -
  have "\<exists>P. m = filter P m" for m :: "(string, nat) jmap"
    by (rule exI [of _ "\<lambda>_. True"]) simp
  then show ?thesis using serve_begin_effect(1) [of p r d t now h s] by (auto simp: jm_del_def)
qed

lemma serve_end_effect:
  "entries (snd (serve_end j now h s)) = entries s"
  "max_entries (snd (serve_end j now h s)) = max_entries s"
  "max_concurrent (snd (serve_end j now h s)) = max_concurrent s"
  "running (objs (snd (serve_end j now h s))) i = running (objs s) i"
  by (auto simp: serve_end_def Let_def abort_one_def count_defs split: option.split)

lemma within_capacity_step:
  assumes "within_capacity me mc s"
  shows "within_capacity me mc (spec_step s e)"
proof -
  have ok: "spec_ok (spec_step s e)" using assms by (simp add: within_capacity_def spec_ok_step)
  note [simp] = abort_one_def count_defs
  show ?thesis
  proof (cases e)
    case (Launch p r d t f now)
    with assms show ?thesis by (simp add: within_capacity_launch)
  next
    case (Settle i v)
    with assms ok show ?thesis
      by (intro within_capacity_shrinks [OF assms, where P = "\<lambda>_. True"])
        (auto dest: running_settle)
  next
    case (ServeBegin p r d t now h)
    then show ?thesis
      using ok serve_begin_effect(2,3,4) [of p r d t now h s] serve_begin_filters [of p r d t now h s]
      by (auto intro: within_capacity_shrinks [OF assms])
  next
    case (ServeEnd i now h)
    then show ?thesis
      using ok by (intro within_capacity_shrinks [OF assms, where P = "\<lambda>_. True"])
        (auto simp: serve_end_effect)
  next
    case BumpEpoch
    then show ?thesis
      using ok by (intro within_capacity_shrinks [OF assms, where P = "\<lambda>_. True"]) (auto simp: bump_epoch_def)
  next
    case (InvocationEnd p)
    have "within_capacity me mc (s\<lparr>objs := abort_all is (objs s)\<rparr>)" for "is"
      using assms by (intro within_capacity_shrinks [OF assms, where P = "\<lambda>_. True"])
        (auto simp: within_capacity_def spec_ok_abort)
    moreover have "within_capacity me mc (s\<lparr>ended := x, objs := y\<rparr>) = within_capacity me mc (s\<lparr>objs := y\<rparr>)" for x y
      by (simp add: within_capacity_def in_flight_count_def spec_ok_def)
    ultimately show ?thesis
      using InvocationEnd by (simp add: on_invocation_end_def within_capacity_waste)
  next
    case ResetTurn
    then show ?thesis
      using ok by (intro within_capacity_shrinks [OF assms, where P = "\<lambda>_. False"])
        (auto simp: reset_def bump_epoch_def Let_def)
  qed
qed

interpretation spec_capacity: machine_invariant spec_step "within_capacity me mc"
  by unfold_locales (rule within_capacity_step)

section \<open>The life of one launched entry\<close>

text \<open>What the events \<open>es\<close> since its launch imply for the object \<open>i\<close>, born as \<open>e0\<close>.\<close>

definition same_launch :: "sentry \<Rightarrow> sentry \<Rightarrow> bool" where
  "same_launch e0 e \<longleftrightarrow> parent e = parent e0 \<and> s_key e = s_key e0 \<and> birth e = birth e0
     \<and> created e = created e0 \<and> has_freshness e = has_freshness e0"

definition requested :: "sentry \<Rightarrow> spec_event list \<Rightarrow> bool" where
  "requested e0 es \<longleftrightarrow> (\<exists>r d t now h. ServeBegin (parent e0) r d t now h \<in> set es
     \<and> spec_key (parent e0) r d t = s_key e0 \<and> (has_freshness e0 \<longrightarrow> h))"

definition tracks :: "nat \<Rightarrow> sentry \<Rightarrow> spec_event list \<Rightarrow> spec \<Rightarrow> bool" where
  "tracks i e0 es s \<longleftrightarrow> i < next_obj s \<and> (\<exists>e. objs s i = Some e \<and> same_launch e0 e
     \<and> (settled e \<and> \<not> failed e \<longrightarrow> Settle i (Some (result e)) \<in> set es)
     \<and> (BumpEpoch \<in> set es \<or> ResetTurn \<in> set es \<longrightarrow> birth e < epoch s)
     \<and> (InvocationEnd (parent e0) \<in> set es \<longrightarrow> i \<notin> snd ` set (entries s) \<and> (i \<in> set (serving s) \<longrightarrow> aborted e))
     \<and> (i \<in> set (serving s) \<longrightarrow> requested e0 es))
   \<and> (\<forall>e. objs s i = Some e \<longrightarrow> birth e \<le> epoch s)"

lemma requested_mono: "requested e0 es \<Longrightarrow> requested e0 (es @ fs)"
  unfolding requested_def set_append by blast

text \<open>A step that neither files nor serves new objects, and only sets abort flags, keeps track.\<close>

lemma tracks_quiet:
  assumes "tracks i e0 es s" and "next_obj s \<le> next_obj s'" and "epoch s \<le> epoch s'"
    and "i \<in> snd ` set (entries s') \<longrightarrow> i \<in> snd ` set (entries s)"
    and "i \<in> set (serving s') \<longrightarrow> i \<in> set (serving s)"
    and "objs s' i = objs s i \<or> objs s' i = map_option (\<lambda>e. e\<lparr>aborted := True\<rparr>) (objs s i)"
    and "ev = BumpEpoch \<or> ev = ResetTurn \<longrightarrow> epoch s < epoch s'"
    and "ev = InvocationEnd (parent e0) \<longrightarrow> i \<notin> snd ` set (entries s')
          \<and> (i \<in> set (serving s') \<longrightarrow> objs s' i = map_option (\<lambda>e. e\<lparr>aborted := True\<rparr>) (objs s i))"
  shows "tracks i e0 (es @ [ev]) s'"
proof -
  from assms(1) obtain e where e: "objs s i = Some e" "i < next_obj s" "same_launch e0 e" "birth e \<le> epoch s"
      "settled e \<and> \<not> failed e \<longrightarrow> Settle i (Some (result e)) \<in> set es"
      "BumpEpoch \<in> set es \<or> ResetTurn \<in> set es \<longrightarrow> birth e < epoch s"
      "InvocationEnd (parent e0) \<in> set es \<longrightarrow> i \<notin> snd ` set (entries s) \<and> (i \<in> set (serving s) \<longrightarrow> aborted e)"
      "i \<in> set (serving s) \<longrightarrow> requested e0 es"
    unfolding tracks_def by auto
  define e' where "e' = (if objs s' i = objs s i then e else e\<lparr>aborted := True\<rparr>)"
  have e': "objs s' i = Some e'" using assms(6) e(1) by (auto simp: e'_def)
  have eq: "same_launch e0 e'" "settled e' = settled e" "failed e' = failed e" "result e' = result e"
      "birth e' = birth e" "aborted e \<longrightarrow> aborted e'"
    using e(3) by (auto simp: e'_def same_launch_def)
  have ab: "ev = InvocationEnd (parent e0) \<and> i \<in> set (serving s') \<longrightarrow> aborted e'"
    using assms(8) e(1) e' by auto
  show ?thesis
    unfolding tracks_def
  proof (intro conjI exI [of _ e'])
    show "InvocationEnd (parent e0) \<in> set (es @ [ev]) \<longrightarrow>
        i \<notin> snd ` set (entries s') \<and> (i \<in> set (serving s') \<longrightarrow> aborted e')"
      using assms(4,5,8) e(7) eq(6) ab by auto
    show "BumpEpoch \<in> set (es @ [ev]) \<or> ResetTurn \<in> set (es @ [ev]) \<longrightarrow> birth e' < epoch s'"
      using assms(3,7) e(4,6) eq(5) by auto
    show "i \<in> set (serving s') \<longrightarrow> requested e0 (es @ [ev])"
      using assms(5) e(8) by (auto intro: requested_mono)
  qed (use assms(2,3) e e' eq in auto)
qed

lemma objs_waste: "objs (waste_where P s) i = objs s i
    \<or> objs (waste_where P s) i = map_option (\<lambda>e. e\<lparr>aborted := True\<rparr>) (objs s i)"
  by (simp add: waste_where_def Let_def abort_all_def)

lemma ids_waste: "i \<in> snd ` set (entries (waste_where P s)) \<Longrightarrow> i \<in> snd ` set (entries s)"
  by (auto simp: set_entries_waste)

lemma tracks_launch: "tracks i e0 es s \<Longrightarrow> tracks i e0 (es @ [Launch p r d t f now]) (snd (launch p r d t f now s))"
proof (rule tracks_quiet [of i e0 es s])
  assume "tracks i e0 es s"
  then have i: "i < next_obj s" by (simp add: tracks_def)
  let ?l = "launch p r d t f now s" and ?s1 = "sweep_expired now s"
  have s1: "next_obj ?s1 = next_obj s" "epoch ?s1 = epoch s" "serving ?s1 = serving s"
    by (simp_all add: sweep_expired_def)
  show "objs (snd ?l) i = objs s i \<or> objs (snd ?l) i = map_option (\<lambda>e. e\<lparr>aborted := True\<rparr>) (objs s i)"
    using i s1 objs_waste [of "\<lambda>e. entry_ttl s < now - created e" s i]
    by (auto simp: launch_def Let_def skip_def sweep_expired_def)
  show "i \<in> snd ` set (entries (snd ?l)) \<longrightarrow> i \<in> snd ` set (entries s)"
    using i s1 ids_waste [of i "\<lambda>e. entry_ttl s < now - created e" s]
    by (auto simp: launch_def Let_def skip_def sweep_expired_def jm_set_absent jm_has_iff)
qed (auto simp: launch_def Let_def skip_def sweep_expired_def)

lemma tracks_settle:
  assumes "tracks i e0 es s"
  shows "tracks i e0 (es @ [Settle j v]) (promise_settles j v s)"
proof (cases "j = i")
  case False
  then show ?thesis
    by (intro tracks_quiet [OF assms]) (simp_all add: promise_settles_def)
next
  case True
  let ?f = "\<lambda>e. if settled e then e
    else case v of None \<Rightarrow> e\<lparr>failed := True, settled := True\<rparr> | Some x \<Rightarrow> e\<lparr>result := x, settled := True\<rparr>"
  obtain e where e: "objs s i = Some e" "i < next_obj s" "same_launch e0 e" "birth e \<le> epoch s"
      "settled e \<and> \<not> failed e \<longrightarrow> Settle i (Some (result e)) \<in> set es"
      "BumpEpoch \<in> set es \<or> ResetTurn \<in> set es \<longrightarrow> birth e < epoch s"
      "InvocationEnd (parent e0) \<in> set es \<longrightarrow> i \<notin> snd ` set (entries s) \<and> (i \<in> set (serving s) \<longrightarrow> aborted e)"
      "i \<in> set (serving s) \<longrightarrow> requested e0 es"
    using assms unfolding tracks_def by auto
  have f: "same_launch e0 (?f e)" "birth (?f e) = birth e" "aborted (?f e) = aborted e"
      "settled (?f e) \<and> \<not> failed (?f e) \<longrightarrow> Settle i (Some (result (?f e))) \<in> set (es @ [Settle i v])"
    using e(3,5) by (auto simp: same_launch_def split: option.split)
  have o: "objs (promise_settles i v s) i = Some (?f e)" "next_obj (promise_settles i v s) = next_obj s"
    using e(1) by (simp_all add: promise_settles_def)
  show ?thesis
    unfolding tracks_def True
    by (intro conjI exI [of _ "?f e"])
      (use e f o in \<open>simp_all add: requested_mono\<close>)
qed

lemma serve_begin_quiet:
  "objs (snd (serve_begin p r d t now h s)) i = objs s i
    \<or> objs (snd (serve_begin p r d t now h s)) i = map_option (\<lambda>e. e\<lparr>aborted := True\<rparr>) (objs s i)"
  "i \<in> set (serving (snd (serve_begin p r d t now h s))) \<Longrightarrow> i \<notin> set (serving s) \<Longrightarrow>
    fst (serve_begin p r d t now h s) = Pending i"
  "next_obj (snd (serve_begin p r d t now h s)) = next_obj s"
  "epoch (snd (serve_begin p r d t now h s)) = epoch s"
  by (auto simp: serve_begin_def Let_def abort_one_def count_defs abort_all_def split: option.splits if_splits)

lemma tracks_serve_begin:
  assumes "tracks i e0 es s" and "spec_ok s"
  shows "tracks i e0 (es @ [ServeBegin p r d t now h]) (snd (serve_begin p r d t now h s))"
proof -
  let ?b = "serve_begin p r d t now h s"
  show ?thesis
  proof (cases "fst ?b = Pending i")
    case False
    then show ?thesis
      using serve_begin_quiet(1,2) [where i = i and s = s and p = p and r = r and d = d and t = t and now = now and h = h]
        serve_begin_quiet(3,4) [where s = s and p = p and r = r and d = d and t = t and now = now and h = h]
        serve_begin_filters [of p r d t now h s]
      by (intro tracks_quiet [OF assms(1)]) auto
  next
    case True
    then obtain e where e: "jm_get (entries s) (spec_key p r d t) = Some i" "objs s i = Some e" "parent e = p"
        "has_freshness e \<longrightarrow> h" and s': "snd ?b = s\<lparr>entries := jm_del (spec_key p r d t) (entries s), serving := serving s @ [i]\<rparr>"
      by (auto simp: serve_begin_def Let_def split: option.splits if_splits)
    have "s_key e = spec_key p r d t"
      using entries_del(3) [OF assms(2) e(1)] e(2) assms(2) by (auto simp: spec_ok_def)
    with e assms(1) have "parent e0 = p" "s_key e0 = spec_key p r d t" "has_freshness e0 \<longrightarrow> h"
      by (auto simp: tracks_def same_launch_def)
    then have "requested e0 (es @ [ServeBegin p r d t now h])"
      unfolding requested_def
      by (intro exI [of _ r] exI [of _ d] exI [of _ t] exI [of _ now] exI [of _ h]) simp
    moreover have "i \<in> snd ` set (entries s)" using entries_del(3) [OF assms(2) e(1)] by force
    moreover have "i \<notin> snd ` set (jm_del (spec_key p r d t) (entries s))" by (rule entries_del(1) [OF assms(2) e(1)])
    ultimately show ?thesis
      using assms(1) e(2) by (auto simp: tracks_def s')
  qed
qed

lemma tracks_serve_end: "tracks i e0 es s \<Longrightarrow> tracks i e0 (es @ [ServeEnd j now h]) (snd (serve_end j now h s))"
  by (elim tracks_quiet)
    (auto simp: serve_end_def Let_def abort_one_def count_defs abort_all_def split: option.splits dest: subsetD [OF set_remove1_subset])

lemma tracks_invocation_end:
  assumes "tracks i e0 es s"
  shows "tracks i e0 (es @ [InvocationEnd p]) (on_invocation_end p s)"
proof -
  from assms obtain e where e: "objs s i = Some e" "parent e = parent e0"
    by (auto simp: tracks_def same_launch_def)
  let ?s1 = "s\<lparr>ended := (if p \<in> set (ended s) then ended s else ended s @ [p]),
    objs := abort_all (filter (\<lambda>i. case objs s i of Some e \<Rightarrow> parent e = p | None \<Rightarrow> False) (serving s)) (objs s)\<rparr>"
  have s': "on_invocation_end p s = waste_where (\<lambda>e. parent e = p) ?s1"
    by (simp only: on_invocation_end_def)
  have o: "objs ?s1 i = Some (if i \<in> set (serving s) \<and> p = parent e0 then e\<lparr>aborted := True\<rparr> else e)"
    using e by (auto simp: abort_all_def)
  show ?thesis
    unfolding s'
  proof (rule tracks_quiet [OF assms])
    show "i \<in> snd ` set (entries (waste_where (\<lambda>e. parent e = p) ?s1)) \<longrightarrow> i \<in> snd ` set (entries s)"
      using ids_waste [of i "\<lambda>e. parent e = p" ?s1] by simp
    show "objs (waste_where (\<lambda>e. parent e = p) ?s1) i = objs s i
        \<or> objs (waste_where (\<lambda>e. parent e = p) ?s1) i = map_option (\<lambda>e. e\<lparr>aborted := True\<rparr>) (objs s i)"
      using objs_waste [of "\<lambda>e. parent e = p" ?s1 i] o e(1) by (auto split: if_splits)
    show "InvocationEnd p = InvocationEnd (parent e0) \<longrightarrow> i \<notin> snd ` set (entries (waste_where (\<lambda>e. parent e = p) ?s1))
        \<and> (i \<in> set (serving (waste_where (\<lambda>e. parent e = p) ?s1)) \<longrightarrow>
            objs (waste_where (\<lambda>e. parent e = p) ?s1) i = map_option (\<lambda>e. e\<lparr>aborted := True\<rparr>) (objs s i))"
      using objs_waste [of "\<lambda>e. parent e = p" ?s1 i] o e by (auto simp: set_entries_waste split: if_splits)
  qed auto
qed

lemma tracks_reset: "tracks i e0 es s \<Longrightarrow> tracks i e0 (es @ [ResetTurn]) (reset s)"
  by (elim tracks_quiet) (auto simp: reset_def bump_epoch_def Let_def abort_all_def)

lemma tracks_bump: "tracks i e0 es s \<Longrightarrow> tracks i e0 (es @ [BumpEpoch]) (bump_epoch s)"
  by (elim tracks_quiet) (auto simp: bump_epoch_def)

lemma tracks_step: "tracks i e0 es s \<Longrightarrow> spec_ok s \<Longrightarrow> tracks i e0 (es @ [ev]) (spec_step s ev)"
  by (cases ev) (simp_all add: tracks_launch tracks_settle tracks_serve_begin tracks_serve_end
      tracks_invocation_end tracks_reset tracks_bump)

lemma tracks_run: "tracks i e0 [] s \<Longrightarrow> spec_ok s \<Longrightarrow> tracks i e0 es (run spec_step s es)"
proof (induction es rule: rev_induct)
  case Nil
  then show ?case by simp
next
  case (snoc ev es)
  then have "tracks i e0 (es @ [ev]) (spec_step (run spec_step s es) ev)"
    by (intro tracks_step) (simp_all add: spec.inv_run)
  then show ?case by (simp add: run_append)
qed

lemma launch_tracks:
  assumes "spec_ok s" and "launch p r d t f now s = (True, s1)"
  defines "e0 \<equiv> \<lparr>parent = p, s_ref = r, s_key = spec_key p r d t, birth = epoch s, created = now,
    aborted = False, has_freshness = f, failed = False, settled = False, result = 0\<rparr>"
  shows "tracks (next_obj s) e0 [] s1" "spec_ok s1"
proof -
  have s1: "s1 = snd (launch p r d t f now s)" using assms(2) by simp
  then show "spec_ok s1" using assms(1) by (simp add: spec_ok_launch)
  have fr: "next_obj (sweep_expired now s) = next_obj s" "epoch (sweep_expired now s) = epoch s"
    "serving (sweep_expired now s) = serving s" by (simp_all add: sweep_expired_def)
  show "tracks (next_obj s) e0 [] s1"
    using assms(2) spec_ok_fresh(2) [OF assms(1)] fr
    by (auto simp: launch_def Let_def tracks_def same_launch_def e0_def split: if_splits)
qed

lemma entry_ttl_step: "entry_ttl (spec_step s e) = entry_ttl s"
  by (cases e) (auto simp: launch_def skip_def sweep_expired_def serve_begin_def serve_end_def abort_one_def count_defs
      promise_settles_def bump_epoch_def on_invocation_end_def reset_def Let_def split: option.split)

lemma entry_ttl_run: "entry_ttl (run spec_step s es) = entry_ttl s"
  by (induction es arbitrary: s) (simp_all add: entry_ttl_step)

lemma entry_ttl_launch: "launch p r d t f now s = (b, s1) \<Longrightarrow> entry_ttl s1 = entry_ttl s"
  using entry_ttl_step [of s "Launch p r d t f now"] by simp

section \<open>Conservation of launches\<close>

definition accounted :: "spec \<Rightarrow> nat" where
  "accounted s = served (st s) + epochInvalidated (st s) + freshnessInvalidated (st s) + failed_count (st s)
     + wasted (st s) + length (entries s) + length (serving s)"

text \<open>Launches no counter and no container holds any more.\<close>

definition uncounted :: "spec \<Rightarrow> int" where
  "uncounted s = int (launched (st s)) - int (accounted s)"

lemma uncounted_frame [simp]:
  "uncounted (s\<lparr>ended := x\<rparr>) = uncounted s" "uncounted (s\<lparr>objs := h\<rparr>) = uncounted s"
  "uncounted (s\<lparr>epoch := n\<rparr>) = uncounted s"
  by (simp_all add: uncounted_def accounted_def)

lemma uncounted_waste: "uncounted (waste_where P s) = uncounted s"
proof -
  have "length (filter Q m) + length (filter (\<lambda>p. \<not> Q p) m) = length m" for Q and m :: "(string, nat) jmap"
    by (rule sum_length_filter_compl)
  then show ?thesis
    unfolding uncounted_def accounted_def waste_where_def Let_def
    by (simp add: algebra_simps)
qed

lemma uncounted_launch: "spec_ok s \<Longrightarrow> uncounted (snd (launch p r d t f now s)) = uncounted s"
  using uncounted_waste [of "\<lambda>e. entry_ttl s < now - created e" s]
  by (auto simp: launch_def Let_def skip_def sweep_expired_def uncounted_def accounted_def jm_set_absent jm_has_iff)

lemma uncounted_serve_begin: "spec_ok s \<Longrightarrow> uncounted (snd (serve_begin p r d t now h s)) = uncounted s"
proof -
  assume ok: "spec_ok s"
  have "int (length (jm_del k (entries s))) = int (length (entries s)) - 1" if "jm_get (entries s) k = Some i" for k i
    using length_jm_del [of "entries s" k] that ok jm_get_None_iff [of "entries s" k] by (auto simp: spec_ok_def)
  then show ?thesis
    by (auto simp: serve_begin_def Let_def abort_one_def count_defs uncounted_def accounted_def split: option.split)
qed

lemma uncounted_serve_end: "uncounted (snd (serve_end i now h s)) = uncounted s"
proof -
  have "int (length (remove1 i (serving s))) = int (length (serving s)) - 1" if "i \<in> set (serving s)"
    using that length_pos_if_in_set [OF that] by (simp add: length_remove1 of_nat_diff Suc_leI)
  then show ?thesis
    by (auto simp: serve_end_def Let_def abort_one_def count_defs uncounted_def accounted_def split: option.split)
qed

lemma uncounted_reset: "uncounted (reset s) = uncounted s + int (pending s)"
  by (simp add: reset_def bump_epoch_def Let_def uncounted_def accounted_def pending_def)

lemma uncounted_step:
  "spec_ok s \<Longrightarrow> uncounted (spec_step s e) = uncounted s + (if e = ResetTurn then int (pending s) else 0)"
  by (cases e)
    (simp_all add: uncounted_launch uncounted_serve_begin uncounted_serve_end uncounted_reset
      bump_epoch_def on_invocation_end_def uncounted_waste promise_settles_def)

lemma uncounted_run:
  "spec_ok s \<Longrightarrow> uncounted s \<le> uncounted (run spec_step s es)
    \<and> (ResetTurn \<notin> set es \<longrightarrow> uncounted (run spec_step s es) = uncounted s)"
proof (induction es arbitrary: s)
  case Nil
  then show ?case by simp
next
  case (Cons e es)
  have "uncounted (spec_step s e) \<le> uncounted (run spec_step (spec_step s e) es)
    \<and> (ResetTurn \<notin> set es \<longrightarrow> uncounted (run spec_step (spec_step s e) es) = uncounted (spec_step s e))"
    using Cons.prems by (intro Cons.IH spec_ok_step)
  with uncounted_step [OF Cons.prems, of e] show ?case by auto
qed

section \<open>Properties\<close>

text \<open>C3: a speculated result is served to a real call only when nothing happened since its launch
  that could make it wrong: no mutation epoch passed, the turn was not reset, the invocation it
  belongs to did not end, it is within its lifetime, its freshness checker held both before and
  after the wait, the value is the one its own provider call resolved with, and the real call asked
  for the very key (invocation, ref, arguments digest, provider binding) it was launched under.\<close>

theorem speculation_contract:
  assumes "spec_ok s" and "launch p r d t f now s = (True, s1)"
    and "serve_end (next_obj s) now' holds (run spec_step s1 es) = (Hit v, s3)"
  shows "BumpEpoch \<notin> set es \<and> ResetTurn \<notin> set es \<and> InvocationEnd p \<notin> set es
    \<and> now' - now \<le> entry_ttl s \<and> Settle (next_obj s) (Some v) \<in> set es
    \<and> (f \<longrightarrow> holds)
    \<and> (\<exists>r' d' t' now0 h. ServeBegin p r' d' t' now0 h \<in> set es \<and> spec_key p r' d' t' = spec_key p r d t \<and> (f \<longrightarrow> h))"
proof -
  let ?i = "next_obj s" and ?s2 = "run spec_step s1 es"
  note l = launch_tracks [OF assms(1,2)]
  note T = tracks_run [OF l, of es]
  have hit: "?i \<in> set (serving ?s2)" "\<And>e. objs ?s2 ?i = Some e \<Longrightarrow>
      settled e \<and> \<not> aborted e \<and> birth e = epoch ?s2 \<and> now' - created e \<le> entry_ttl ?s2
      \<and> (has_freshness e \<longrightarrow> holds) \<and> \<not> failed e \<and> result e = v"
    using assms(3) by (auto simp: serve_end_def Let_def split: if_splits option.splits)
  have ttl: "entry_ttl ?s2 = entry_ttl s"
    using entry_ttl_run [of s1 es] entry_ttl_launch [OF assms(2)] by simp
  obtain e where e: "objs ?s2 ?i = Some e" "parent e = p" "s_key e = spec_key p r d t" "created e = now" "has_freshness e = f"
      "settled e \<and> \<not> failed e \<longrightarrow> Settle ?i (Some (result e)) \<in> set es"
      "BumpEpoch \<in> set es \<or> ResetTurn \<in> set es \<longrightarrow> birth e < epoch ?s2"
      "InvocationEnd p \<in> set es \<longrightarrow> ?i \<in> set (serving ?s2) \<longrightarrow> aborted e"
      "\<exists>r' d' t' now0 h. ServeBegin p r' d' t' now0 h \<in> set es \<and> spec_key p r' d' t' = spec_key p r d t \<and> (f \<longrightarrow> h)"
    using T hit(1) by (simp add: tracks_def same_launch_def requested_def) blast
  from hit(2) [OF e(1)] e hit(1) show ?thesis by (simp add: ttl)
qed

text \<open>capacity: whatever happens, the store never holds more than \<open>maxEntries\<close> unserved
  entries, nor more than \<open>maxConcurrent\<close> whose provider call has not failed.\<close>

theorem speculation_capacity:
  "let s = run spec_step (new_store mc me ttl) es in pending s \<le> me \<and> in_flight_count s \<le> mc"
proof -
  have "within_capacity me mc (new_store mc me ttl)"
    using spec_ok_new [of mc me ttl]
    by (simp add: within_capacity_def in_flight_count_def) (simp add: new_store_def)
  from spec_capacity.inv_run [OF this, of es] show ?thesis
    by (simp add: within_capacity_def pending_def Let_def)
qed

text \<open>conservation: every launched speculation is, at any time, served, invalidated by epoch or
  freshness, failed, wasted, still stored or being served, and never in two of these; only a turn
  reset takes entries out without counting them.\<close>

theorem speculation_conservation:
  "let s = run spec_step (new_store mc me ttl) es in
    accounted s \<le> launched (st s) \<and> (ResetTurn \<notin> set es \<longrightarrow> accounted s = launched (st s))"
proof -
  have "uncounted (new_store mc me ttl) = 0"
    by (simp add: uncounted_def accounted_def new_store_def zero_stats_def)
  with uncounted_run [OF spec_ok_new, of mc me ttl es] show ?thesis
    by (auto simp: uncounted_def Let_def)
qed

theorem speculation_conservation_witness:
  "ResetTurn \<notin> set [Launch ''c'' ''pi.read'' ''h'' ''b'' False 0, InvocationEnd ''c''] \<and>
   accounted (run spec_step (new_store 2 2 100) [Launch ''c'' ''pi.read'' ''h'' ''b'' False 0, InvocationEnd ''c''])
     = launched (st (run spec_step (new_store 2 2 100) [Launch ''c'' ''pi.read'' ''h'' ''b'' False 0, InvocationEnd ''c'']))"
  using speculation_conservation [of 2 2 100 "[Launch ''c'' ''pi.read'' ''h'' ''b'' False 0, InvocationEnd ''c'']"]
  by (simp add: Let_def)

theorem speculation_contract_witness:
  "let s = new_store 2 2 100; s1 = snd (launch ''c'' ''pi.read'' ''h'' ''b'' True 5 s);
       es = [Settle 0 (Some 42), ServeBegin ''c'' ''pi.read'' ''h'' ''b'' 9 True] in
    fst (serve_end (next_obj s) 11 True (run spec_step s1 es)) = Hit 42
    \<and> BumpEpoch \<notin> set es \<and> (11::int) - 5 \<le> entry_ttl s"
proof -
  let ?s = "new_store 2 2 100" and ?es = "[Settle 0 (Some 42), ServeBegin ''c'' ''pi.read'' ''h'' ''b'' 9 True]"
  let ?s1 = "snd (launch ''c'' ''pi.read'' ''h'' ''b'' True 5 ?s)"
  note ev = new_store_def zero_stats_def launch_def sweep_expired_def waste_where_def in_flight_count_def jm_has_def
    promise_settles_def serve_begin_def serve_end_def spec_key_def jm_del_def Let_def
  have l: "launch ''c'' ''pi.read'' ''h'' ''b'' True 5 ?s = (True, ?s1)"
    by (simp add: ev)
  have h: "fst (serve_end (next_obj ?s) 11 True (run spec_step ?s1 ?es)) = Hit 42"
    by (simp add: ev)
  then obtain s3 where "serve_end (next_obj ?s) 11 True (run spec_step ?s1 ?es) = (Hit 42, s3)"
    by (metis prod.collapse)
  from speculation_contract [OF spec_ok_new l this] h show ?thesis by (simp add: Let_def)
qed

end
