(* ===== verification/Admission.thy ===== *)
theory Admission imports Prelude begin

unbundle bit_operations_syntax

text \<open>
  \<^verbatim>\<open>src/src/records/admission.ts\<close>: WAL positions (LSNs) and their text form, the contiguous
  recoverable prefix of a WAL-G report, and the gate that refuses new records while the archived
  frontier lags the insert position. BigInts are \<open>int\<close> or \<open>nat\<close>; clock readings and the
  results of the providers' promises are arguments; \<open>onStatus\<close> calls are recorded in \<open>notified\<close>.
\<close>

section \<open>LSNs\<close>

datatype lsn_error = MalformedLsn string | LsnOutOfRange int | InvalidSegmentSize int
  | MalformedSegment string | SegmentOutOfRange string

definition hex_value :: "char \<Rightarrow> nat option" where
  "hex_value c = (let n = of_char c :: nat in
     if 48 \<le> n \<and> n \<le> 57 then Some (n - 48)
     else if 65 \<le> n \<and> n \<le> 70 then Some (n - 55)
     else if 97 \<le> n \<and> n \<le> 102 then Some (n - 87)
     else None)"

definition is_hex :: "string \<Rightarrow> bool" where
  "is_hex s \<longleftrightarrow> list_all (\<lambda>c. hex_value c \<noteq> None) s"

text \<open>\<open>BigInt("0x" + s)\<close> of hex digits.\<close>

definition parse_hex :: "string \<Rightarrow> nat" where
  "parse_hex s = foldl (\<lambda>n c. 16 * n + (case hex_value c of Some v \<Rightarrow> v | None \<Rightarrow> 0)) 0 s"

definition max_lsn :: int where
  "max_lsn = push_bit 64 1 - 1"

definition hex_group :: "string \<Rightarrow> bool" where
  "hex_group s \<longleftrightarrow> is_hex s \<and> 1 \<le> length s \<and> length s \<le> 8"

definition lsn_to_bigint :: "string \<Rightarrow> lsn_error + nat" where
  "lsn_to_bigint s =
     (let a = takeWhile (\<lambda>c. c \<noteq> CHR ''/'') s; rest = dropWhile (\<lambda>c. c \<noteq> CHR ''/'') s in
      case rest of
        [] \<Rightarrow> Inl (MalformedLsn s)
      | _ # b \<Rightarrow> if hex_group a \<and> hex_group b then Inr (push_bit 32 (parse_hex a) OR parse_hex b)
          else Inl (MalformedLsn s))"

definition hex_digit :: "nat \<Rightarrow> char" where
  "hex_digit n = (if n < 10 then char_of (48 + n) else char_of (55 + n))"

text \<open>\<open>toString(16).toUpperCase()\<close> of a nonnegative BigInt.\<close>

fun to_hex :: "nat \<Rightarrow> string" where
  "to_hex n = (if n < 16 then [hex_digit n] else to_hex (n div 16) @ [hex_digit (n mod 16)])"

declare to_hex.simps [simp del]

definition bigint_to_lsn :: "int \<Rightarrow> lsn_error + string" where
  "bigint_to_lsn v =
     (if v < 0 \<or> v > max_lsn then Inl (LsnOutOfRange v)
      else Inr (to_hex (nat (drop_bit 32 v)) @ ''/'' @ to_hex (nat (v AND 4294967295))))"

definition check_segment_size :: "int \<Rightarrow> lsn_error + nat" where
  "check_segment_size sz =
     (if sz \<le> 0 \<or> 4294967296 mod sz \<noteq> 0 then Inl (InvalidSegmentSize sz) else Inr (nat sz))"

definition wal_segment_start_lsn :: "string \<Rightarrow> int \<Rightarrow> lsn_error + nat" where
  "wal_segment_start_lsn segment segmentSize =
     (case check_segment_size segmentSize of
        Inl e \<Rightarrow> Inl e
      | Inr sz \<Rightarrow>
          if \<not> (is_hex segment \<and> length segment = 24) then Inl (MalformedSegment segment)
          else (let logId = parse_hex (take 8 (drop 8 segment)); segNo = parse_hex (take 8 (drop 16 segment)) in
            if segNo \<ge> 4294967296 div sz then Inl (SegmentOutOfRange segment)
            else Inr (logId * 4294967296 + segNo * sz)))"

section \<open>The WAL-G frontier\<close>

text \<open>One range: stop the prefix (\<open>Inl\<close>, with whether the loop threw) or go on.\<close>

datatype stop = Break | Throw

definition range_step :: "int \<Rightarrow> nat option \<Rightarrow> json \<Rightarrow> stop + nat" where
  "range_step segmentSize ending r =
     (if \<not> is_record r \<or> jfield r ''status'' \<noteq> Some (JStr ''FOUND'') then Inl Break
      else case (jfield r ''start_segment'', jfield r ''end_segment'') of
        (Some (JStr a), Some (JStr b)) \<Rightarrow>
          (case wal_segment_start_lsn a segmentSize of
             Inl _ \<Rightarrow> Inl Throw
           | Inr start \<Rightarrow>
               if (case ending of Some e \<Rightarrow> start > e | None \<Rightarrow> False) then Inl Break
               else (case wal_segment_start_lsn b segmentSize of
                 Inl _ \<Rightarrow> Inl Throw
               | Inr b0 \<Rightarrow>
                   (let rangeEnd = b0 + nat segmentSize in
                    if rangeEnd < start then Inl Break
                    else Inr (case ending of None \<Rightarrow> rangeEnd | Some e \<Rightarrow> if rangeEnd > e then rangeEnd else e))))
      | _ \<Rightarrow> Inl Break)"

fun ranges_end :: "int \<Rightarrow> nat option \<Rightarrow> json list \<Rightarrow> (nat option) option" where
  "ranges_end sz ending [] = Some ending"
| "ranges_end sz ending (r # rs) =
     (case range_step sz ending r of
        Inl Break \<Rightarrow> Some ending
      | Inl Throw \<Rightarrow> None
      | Inr e \<Rightarrow> ranges_end sz (Some e) rs)"

definition integrity_of :: "json \<Rightarrow> json" where
  "integrity_of report =
     (if is_record report then
        (case jfield report ''integrity'' of Some i \<Rightarrow> if is_record i then i else report | None \<Rightarrow> report)
      else report)"

definition walg_frontier :: "json \<Rightarrow> int \<Rightarrow> string option" where
  "walg_frontier report segmentSize =
     (let integrity = integrity_of report in
      if \<not> is_record integrity then None
      else case jfield integrity ''details'' of
        Some (JArr details) \<Rightarrow>
          (case ranges_end segmentSize None details of
             Some (Some e) \<Rightarrow> (case bigint_to_lsn (int e) of Inr s \<Rightarrow> Some s | Inl _ \<Rightarrow> None)
           | _ \<Rightarrow> None)
      | _ \<Rightarrow> None)"

section \<open>The admission gate\<close>

record target =
  t_name :: string
  t_frontier :: "string option"
  t_checked :: "int option"
  t_error :: "string option"

record sample =
  s_at :: int
  s_lsn :: nat

datatype adm_state = Ok | Alarm | Refuse | Disabled

record status =
  state :: adm_state
  lag_seconds :: int
  frontier_text :: "string option"
  insert_lsn :: string
  status_targets :: "target list"
  checked_at :: int
  status_alarm :: int
  status_refuse :: int

record gate =
  alarm_seconds :: int
  refuse_seconds :: int
  max_samples :: nat
  targets :: "target list"
  samples :: "sample list"
  last_status :: "status option"
  refreshes :: nat
  notified :: "(status \<times> status option) list"

datatype gate_error = BadLsn lsn_error | ArchiveLagging int

definition new_gate :: "string list \<Rightarrow> int option \<Rightarrow> int option \<Rightarrow> nat option \<Rightarrow> gate" where
  "new_gate providers alarm refuse maxS =
     \<lparr>alarm_seconds = (case alarm of Some a \<Rightarrow> a | None \<Rightarrow> 120),
      refuse_seconds = (case refuse of Some r \<Rightarrow> r | None \<Rightarrow> 300),
      max_samples = max 2 (case maxS of Some m \<Rightarrow> m | None \<Rightarrow> 1000),
      targets = map (\<lambda>n. \<lparr>t_name = n, t_frontier = None, t_checked = None, t_error = None\<rparr>) providers,
      samples = [], last_status = None, refreshes = 0, notified = []\<rparr>"

text \<open>One target per provider, so \<open>providers.length > 0\<close> is a nonempty target list.\<close>

definition enabled :: "gate \<Rightarrow> bool" where
  "enabled g \<longleftrightarrow> targets g \<noteq> []"

definition max_opt :: "nat option \<Rightarrow> nat \<Rightarrow> nat option" where
  "max_opt f v = (case f of None \<Rightarrow> Some v | Some x \<Rightarrow> if v > x then Some v else Some x)"

text \<open>The freshest frontier over the targets; a stored frontier was validated by \<open>refresh\<close>.\<close>

fun freshest :: "nat option \<Rightarrow> target list \<Rightarrow> lsn_error + nat option" where
  "freshest f [] = Inr f"
| "freshest f (t # ts) =
     (case t_frontier t of
        None \<Rightarrow> freshest f ts
      | Some x \<Rightarrow> (case lsn_to_bigint x of Inl e \<Rightarrow> Inl e | Inr v \<Rightarrow> freshest (max_opt f v) ts))"

definition gate_frontier :: "gate \<Rightarrow> lsn_error + string option" where
  "gate_frontier g =
     (case freshest None (targets g) of
        Inl e \<Rightarrow> Inl e
      | Inr None \<Rightarrow> Inr None
      | Inr (Some f) \<Rightarrow> map_sum id Some (bigint_to_lsn (int f)))"

definition push_sample :: "nat \<Rightarrow> sample \<Rightarrow> sample list \<Rightarrow> sample list" where
  "push_sample maxS x ss =
     (if (case last_opt ss of Some n \<Rightarrow> s_lsn x \<le> s_lsn n \<or> s_at x < s_at n | None \<Rightarrow> False) then ss
      else (let ss1 = ss @ [x] in
        if length ss1 > maxS then
          (case ss1 of
             oldest # nxt # rest \<Rightarrow> nxt\<lparr>s_at := s_at oldest\<rparr> # rest
           | _ \<Rightarrow> tl ss1)
        else ss1))"

definition take_sample :: "string \<Rightarrow> int \<Rightarrow> gate \<Rightarrow> (gate_error + unit) \<times> gate" where
  "take_sample insertLsn now g =
     (case lsn_to_bigint insertLsn of
        Inl e \<Rightarrow> (Inl (BadLsn e), g)
      | Inr l \<Rightarrow> (Inr (), g\<lparr>samples := push_sample (max_samples g) \<lparr>s_at = now, s_lsn = l\<rparr> (samples g)\<rparr>))"

text \<open>The lag, from the oldest known write the frontier does not cover; a non-finite
  \<open>oldestUncoveredAt\<close> is dropped.\<close>

definition candidates :: "jsnum option \<Rightarrow> sample list \<Rightarrow> rat list" where
  "candidates oldest ss =
     (case oldest of Some (Num q) \<Rightarrow> [q] | _ \<Rightarrow> []) @ (case ss of x # _ \<Rightarrow> [of_int (s_at x)] | [] \<Rightarrow> [])"

definition lag_of :: "int \<Rightarrow> rat list \<Rightarrow> int" where
  "lag_of now cs = (if cs = [] then 0 else max 0 \<lfloor>(of_int now - Min (set cs)) / 1000\<rfloor>)"

definition state_of :: "bool \<Rightarrow> int \<Rightarrow> int \<Rightarrow> int \<Rightarrow> adm_state" where
  "state_of en lag alarm refuse =
     (if \<not> en then Disabled else if lag > refuse then Refuse else if lag \<ge> alarm then Alarm else Ok)"

definition uncovered :: "nat option \<Rightarrow> sample list \<Rightarrow> sample list" where
  "uncovered f ss = (case f of None \<Rightarrow> ss | Some c \<Rightarrow> filter (\<lambda>x. s_lsn x > c) ss)"

text \<open>Every operation that can throw returns its result beside the state it leaves.\<close>

definition evaluate :: "string \<Rightarrow> jsnum option \<Rightarrow> int \<Rightarrow> gate \<Rightarrow> (gate_error + status) \<times> gate" where
  "evaluate insertLsn oldest now g =
     (case lsn_to_bigint insertLsn of
        Inl e \<Rightarrow> (Inl (BadLsn e), g)
      | Inr ins \<Rightarrow>
        (let ss = push_sample (max_samples g) \<lparr>s_at = now, s_lsn = ins\<rparr> (samples g) in
         case freshest None (targets g) of
           Inl e \<Rightarrow> (Inl (BadLsn e), g\<lparr>samples := ss\<rparr>)
         | Inr f \<Rightarrow>
           (let ss' = uncovered f ss;
                lag = (if enabled g \<and> (case f of None \<Rightarrow> True | Some x \<Rightarrow> x < ins)
                       then lag_of now (candidates oldest ss') else 0) in
            case (case f of None \<Rightarrow> Inr None | Some x \<Rightarrow> map_sum id Some (bigint_to_lsn (int x))) of
              Inl e \<Rightarrow> (Inl (BadLsn e), g\<lparr>samples := ss'\<rparr>)
            | Inr ft \<Rightarrow>
              (let stat = \<lparr>state = state_of (enabled g) lag (alarm_seconds g) (refuse_seconds g), lag_seconds = lag,
                     frontier_text = ft, insert_lsn = insertLsn, status_targets = targets g, checked_at = now,
                     status_alarm = alarm_seconds g, status_refuse = refuse_seconds g\<rparr>
               in (Inr stat, g\<lparr>samples := ss', last_status := Some stat,
                    notified := notified g @ [(stat, last_status g)]\<rparr>)))))"

definition check :: "string \<Rightarrow> jsnum option \<Rightarrow> int \<Rightarrow> gate \<Rightarrow> (gate_error + status) \<times> gate" where
  "check insertLsn oldest now g =
     (case evaluate insertLsn oldest now g of
        (Inl e, g') \<Rightarrow> (Inl e, g')
      | (Inr stat, g') \<Rightarrow>
          (if state stat = Refuse then Inl (ArchiveLagging (lag_seconds stat)) else Inr stat, g'))"

text \<open>The settled provider calls of one refresh.\<close>

datatype provided = Fulfilled "string option" | Rejected string

definition refresh_target :: "int \<Rightarrow> (lsn_error \<Rightarrow> string) \<Rightarrow> provided \<Rightarrow> target \<Rightarrow> target" where
  "refresh_target now message r t =
     (case r of
        Fulfilled (Some x) \<Rightarrow>
          (case lsn_to_bigint x of
             Inr _ \<Rightarrow> t\<lparr>t_frontier := Some x, t_checked := Some now, t_error := None\<rparr>
           | Inl e \<Rightarrow> t\<lparr>t_error := Some (message e)\<rparr>)
      | Fulfilled None \<Rightarrow> t\<lparr>t_error := Some ''no recoverable WAL frontier''\<rparr>
      | Rejected m \<Rightarrow> t\<lparr>t_error := Some m\<rparr>)"

definition settle_targets :: "provided list \<Rightarrow> int \<Rightarrow> (lsn_error \<Rightarrow> string) \<Rightarrow> gate \<Rightarrow> gate" where
  "settle_targets rs now msg g = g\<lparr>targets := map (\<lambda>(r, t). refresh_target now msg r t) (zip rs (targets g)) @ drop (length rs) (targets g),
     refreshes := Suc (refreshes g)\<rparr>"

definition refresh :: "provided list \<Rightarrow> int \<Rightarrow> int \<Rightarrow> (lsn_error \<Rightarrow> string) \<Rightarrow> gate \<Rightarrow> (gate_error + status option) \<times> gate" where
  "refresh results now now2 message g =
     (let g1 = settle_targets results now message g in
      case last_status g1 of
        None \<Rightarrow> (Inr None, g1)
      | Some stat \<Rightarrow>
          (case evaluate (insert_lsn stat) None now2 g1 of
             (Inl e, g2) \<Rightarrow> (Inl e, g2)
           | (Inr _, g2) \<Rightarrow> (Inr (last_status g2), g2)))"

section \<open>LSN arithmetic\<close>

lemma hex_value_digit: "n < 16 \<Longrightarrow> hex_value (hex_digit n) = Some n"
  by (auto simp: hex_value_def hex_digit_def Let_def)

lemma to_hex_base: "n < 16 \<Longrightarrow> to_hex n = [hex_digit n]"
  by (simp add: to_hex.simps [of n])

lemma to_hex_step: "\<not> n < 16 \<Longrightarrow> to_hex n = to_hex (n div 16) @ [hex_digit (n mod 16)]"
  by (simp add: to_hex.simps [of n])

lemma is_hex_to_hex: "is_hex (to_hex n)"
proof (induction n rule: to_hex.induct)
  case (1 n)
  then show ?case
    by (cases "n < 16") (simp_all add: is_hex_def to_hex_base to_hex_step hex_value_digit)
qed

lemma parse_hex_snoc: "parse_hex (s @ [c]) = 16 * parse_hex s + (case hex_value c of Some v \<Rightarrow> v | None \<Rightarrow> 0)"
  by (simp add: parse_hex_def)

lemma parse_to_hex: "parse_hex (to_hex n) = n"
proof (induction n rule: to_hex.induct)
  case (1 n)
  show ?case
  proof (cases "n < 16")
    case True
    then show ?thesis by (simp add: to_hex_base hex_value_digit parse_hex_def)
  next
    case False
    then show ?thesis using 1 by (simp add: to_hex_step parse_hex_snoc hex_value_digit)
  qed
qed

lemma length_to_hex: "n < 16 ^ Suc k \<Longrightarrow> 1 \<le> length (to_hex n) \<and> length (to_hex n) \<le> Suc k"
proof (induction k arbitrary: n)
  case 0
  then show ?case by (simp add: to_hex_base)
next
  case (Suc k)
  show ?case
  proof (cases "n < 16")
    case True
    then show ?thesis by (simp add: to_hex_base)
  next
    case False
    from Suc.prems have "n div 16 < 16 ^ Suc k" by (simp add: less_mult_imp_div_less)
    from Suc.IH [OF this] False show ?thesis by (simp add: to_hex_step)
  qed
qed

lemma hex_group_to_hex: "n < 4294967296 \<Longrightarrow> hex_group (to_hex n)"
  using length_to_hex [of n 7] by (simp add: hex_group_def is_hex_to_hex)

lemma hex_no_slash: "is_hex s \<Longrightarrow> c \<in> set s \<Longrightarrow> c \<noteq> CHR ''/''"
  by (auto simp: is_hex_def list_all_iff hex_value_def Let_def dest: bspec)

lemma push_or: "b < 4294967296 \<Longrightarrow> push_bit 32 a OR b = a * 4294967296 + (b::nat)"
proof -
  assume b: "b < 4294967296"
  have t: "take_bit 32 b = b" using b by (simp add: take_bit_eq_mod)
  have "push_bit 32 a AND b = 0"
    by (subst t [symmetric]) (rule bit_eqI, auto simp: bit_simps)
  then have "push_bit 32 a OR b = push_bit 32 a + b"
    by (simp add: disjunctive_add_eq_or)
  then show ?thesis by (simp add: push_bit_eq_mult)
qed

lemma lsn_to_bigint_groups:
  "hex_group a \<Longrightarrow> hex_group b \<Longrightarrow> lsn_to_bigint (a @ ''/'' @ b) = Inr (push_bit 32 (parse_hex a) OR parse_hex b)"
proof -
  assume a: "hex_group a" and b: "hex_group b"
  have n: "\<And>c. c \<in> set a \<Longrightarrow> c \<noteq> CHR ''/''" using a hex_no_slash by (auto simp: hex_group_def)
  have "takeWhile (\<lambda>c. c \<noteq> CHR ''/'') (a @ ''/'' @ b) = a"
    and "dropWhile (\<lambda>c. c \<noteq> CHR ''/'') (a @ ''/'' @ b) = ''/'' @ b"
    using n by (simp_all add: takeWhile_append dropWhile_append)
  then show ?thesis using a b by (simp add: lsn_to_bigint_def)
qed

section \<open>The sample ring\<close>

text \<open>Times and positions grow along the ring.\<close>

definition ring_ok :: "sample list \<Rightarrow> bool" where
  "ring_ok ss \<longleftrightarrow> sorted_wrt (\<lambda>x y. s_at x \<le> s_at y \<and> s_lsn x < s_lsn y) ss"

definition gate_ok :: "gate \<Rightarrow> bool" where
  "gate_ok g \<longleftrightarrow> ring_ok (samples g) \<and> 2 \<le> max_samples g \<and> length (samples g) \<le> max_samples g"

text \<open>The ring still knows that position \<open>l\<close> was reached by time \<open>t\<close>.\<close>

definition remembers :: "int \<Rightarrow> nat \<Rightarrow> sample list \<Rightarrow> bool" where
  "remembers t l ss \<longleftrightarrow> list_ex (\<lambda>x. s_at x \<le> t \<and> l \<le> s_lsn x) ss"

lemma remembers_append: "remembers t l (xs @ ys) \<longleftrightarrow> remembers t l xs \<or> remembers t l ys"
  by (simp add: remembers_def)

lemma ring_ok_snoc:
  "ring_ok (ss @ [x]) \<longleftrightarrow> ring_ok ss \<and> (\<forall>y \<in> set ss. s_at y \<le> s_at x \<and> s_lsn y < s_lsn x)"
  by (auto simp: ring_ok_def sorted_wrt_append)

lemma ring_last:
  "ring_ok ss \<Longrightarrow> y \<in> set ss \<Longrightarrow> s_at y \<le> s_at (last ss) \<and> s_lsn y \<le> s_lsn (last ss)"
  by (cases ss rule: rev_cases) (auto simp: ring_ok_snoc less_imp_le)

lemma ring_append_new:
  assumes "ring_ok ss"
    and "\<not> (case last_opt ss of Some n \<Rightarrow> s_lsn x \<le> s_lsn n \<or> s_at x < s_at n | None \<Rightarrow> False)"
  shows "ring_ok (ss @ [x])"
proof (cases "ss = []")
  case True
  then show ?thesis by (simp add: ring_ok_def)
next
  case False
  with assms have l: "s_lsn (last ss) < s_lsn x" "s_at (last ss) \<le> s_at x" by (auto simp: last_opt_def)
  have "s_at y \<le> s_at x \<and> s_lsn y < s_lsn x" if "y \<in> set ss" for y
    using ring_last [OF assms(1) that] l by linarith
  with assms(1) show ?thesis by (simp add: ring_ok_snoc)
qed

text \<open>Merging the two oldest samples keeps the ring in order and what it remembers.\<close>

lemma ring_merge: "ring_ok (a # b # rest) \<Longrightarrow> ring_ok (b\<lparr>s_at := s_at a\<rparr> # rest)"
  by (auto simp: ring_ok_def)

lemma remembers_merge:
  "ring_ok (a # b # rest) \<Longrightarrow> remembers t l (a # b # rest) \<Longrightarrow> remembers t l (b\<lparr>s_at := s_at a\<rparr> # rest)"
  by (auto simp: ring_ok_def remembers_def)

lemma push_sample_cases:
  obtains (ignored) "push_sample m x ss = ss"
      "case last_opt ss of Some n \<Rightarrow> s_lsn x \<le> s_lsn n \<or> s_at x < s_at n | None \<Rightarrow> False"
  | (appended) "push_sample m x ss = ss @ [x]" "length (ss @ [x]) \<le> m"
      "\<not> (case last_opt ss of Some n \<Rightarrow> s_lsn x \<le> s_lsn n \<or> s_at x < s_at n | None \<Rightarrow> False)"
  | (merged) a b rest where "ss @ [x] = a # b # rest" "push_sample m x ss = b\<lparr>s_at := s_at a\<rparr> # rest"
      "\<not> (case last_opt ss of Some n \<Rightarrow> s_lsn x \<le> s_lsn n \<or> s_at x < s_at n | None \<Rightarrow> False)"
  | (tiny) "length (ss @ [x]) = 1" "m = 0"
proof (cases "case last_opt ss of Some n \<Rightarrow> s_lsn x \<le> s_lsn n \<or> s_at x < s_at n | None \<Rightarrow> False")
  case True
  then show ?thesis using ignored by (simp add: push_sample_def)
next
  case False
  show ?thesis
  proof (cases "length (ss @ [x]) > m")
    case big: True
    show ?thesis
    proof (cases "ss @ [x]")
      case Nil
      then show ?thesis by simp
    next
      case (Cons a r)
      show ?thesis
      proof (cases r)
        case Nil
        then show ?thesis using Cons big tiny by simp
      next
        case (Cons b rest)
        then show ?thesis using \<open>ss @ [x] = a # r\<close> big False merged [of a b rest]
          by (simp add: push_sample_def Let_def)
      qed
    qed
  next
    case small: False
    then show ?thesis using appended False by (simp add: push_sample_def Let_def)
  qed
qed

lemma push_sample_ok:
  assumes "ring_ok ss" and "2 \<le> m" and "length ss \<le> m"
  shows "ring_ok (push_sample m x ss) \<and> length (push_sample m x ss) \<le> m"
proof (cases m x ss rule: push_sample_cases)
  case (merged a b rest)
  have "ring_ok (a # b # rest)"
    using ring_append_new [OF assms(1) merged(3)] merged(1) by simp
  moreover have "length (a # b # rest) = Suc (length ss)" using merged(1) by (metis length_append_singleton)
  ultimately show ?thesis using merged(2) assms by (simp add: ring_merge)
qed (use assms ring_append_new in auto)

lemma push_sample_remembers:
  assumes "ring_ok ss" and "2 \<le> m" and "remembers t l ss"
  shows "remembers t l (push_sample m x ss)"
proof (cases m x ss rule: push_sample_cases)
  case (merged a b rest)
  have "ring_ok (a # b # rest)"
    using ring_append_new [OF assms(1) merged(3)] merged(1) by simp
  moreover have "remembers t l (a # b # rest)"
    using assms(3) by (simp add: merged(1) [symmetric] remembers_append)
  ultimately show ?thesis using merged(2) remembers_merge by simp
qed (use assms in \<open>auto simp: remembers_def\<close>)

text \<open>A position pushed at a time not before the newest sample is remembered.\<close>

lemma push_sample_new:
  assumes "ring_ok ss" and "2 \<le> m" and "ss \<noteq> [] \<Longrightarrow> s_at (last ss) \<le> t"
  shows "remembers t l (push_sample m \<lparr>s_at = t, s_lsn = l\<rparr> ss)"
proof (cases m "\<lparr>s_at = t, s_lsn = l\<rparr>" ss rule: push_sample_cases)
  case ignored
  then have n: "ss \<noteq> []" by (auto simp: last_opt_def)
  with ignored assms(3) have "s_at (last ss) \<le> t \<and> l \<le> s_lsn (last ss)" by (auto simp: last_opt_def)
  then show ?thesis using n ignored(1) by (force simp: remembers_def list_ex_iff)
next
  case (merged a b rest)
  have "ring_ok (a # b # rest)"
    using ring_append_new [OF assms(1) merged(3)] merged(1) by simp
  moreover have "remembers t l (ss @ [\<lparr>s_at = t, s_lsn = l\<rparr>])" by (simp add: remembers_def)
  ultimately show ?thesis using merged remembers_merge by simp
qed (use assms in \<open>auto simp: remembers_def\<close>)

lemma ring_ok_uncovered: "ring_ok ss \<Longrightarrow> ring_ok (uncovered f ss)"
  by (auto simp: uncovered_def ring_ok_def sorted_wrt_filter split: option.splits)

lemma length_uncovered: "length (uncovered f ss) \<le> length ss"
  by (auto simp: uncovered_def split: option.splits)

lemma remembers_uncovered:
  "remembers t l ss \<Longrightarrow> (\<And>c. f = Some c \<Longrightarrow> c < l) \<Longrightarrow> remembers t l (uncovered f ss)"
  by (force simp: uncovered_def remembers_def list_ex_iff split: option.splits)

lemma ring_hd_oldest: "ring_ok ss \<Longrightarrow> remembers t l ss \<Longrightarrow> ss \<noteq> [] \<and> s_at (hd ss) \<le> t"
  by (cases ss) (auto simp: ring_ok_def remembers_def list_ex_iff)

section \<open>The steps of the gate\<close>

lemmas result_splits = sum.splits option.splits if_splits prod.splits

lemma parse_hex_bound: "is_hex s \<Longrightarrow> parse_hex s < 16 ^ length s"
proof (induction s rule: rev_induct)
  case Nil
  then show ?case by (simp add: parse_hex_def)
next
  case (snoc c s)
  then obtain v where v: "hex_value c = Some v" by (auto simp: is_hex_def)
  then have "v < 16" by (auto simp: hex_value_def Let_def split: if_splits)
  with snoc v show ?case by (simp add: parse_hex_snoc is_hex_def)
qed

lemma hex_group_bound: "hex_group s \<Longrightarrow> parse_hex s < 4294967296"
proof -
  assume h: "hex_group s"
  then have "parse_hex s < 16 ^ length s" and "length s \<le> 8" by (simp_all add: hex_group_def parse_hex_bound)
  moreover have "(16::nat) ^ length s \<le> 16 ^ 8" using \<open>length s \<le> 8\<close> by (rule power_increasing) simp
  ultimately show ?thesis by simp
qed

lemma lsn_in_range: "lsn_to_bigint s = Inr v \<Longrightarrow> int v \<le> max_lsn"
proof -
  assume h: "lsn_to_bigint s = Inr v"
  then obtain a b where ab: "hex_group a" "hex_group b" "v = push_bit 32 (parse_hex a) OR parse_hex b"
    by (auto simp: lsn_to_bigint_def Let_def split: list.splits if_splits)
  then have "v = parse_hex a * 4294967296 + parse_hex b" by (simp add: push_or hex_group_bound)
  moreover have "parse_hex a < 4294967296" "parse_hex b < 4294967296" using ab hex_group_bound by auto
  ultimately have "v \<le> 18446744073709551615" by simp
  then show ?thesis by (simp add: max_lsn_def push_bit_eq_mult)
qed

definition targets_ok :: "target list \<Rightarrow> bool" where
  "targets_ok ts \<longleftrightarrow> list_all (\<lambda>t. case t_frontier t of None \<Rightarrow> True | Some x \<Rightarrow> \<not> isl (lsn_to_bigint x)) ts"

lemma freshest_ok:
  "targets_ok ts \<Longrightarrow> (\<And>v. f = Some v \<Longrightarrow> int v \<le> max_lsn) \<Longrightarrow>
    \<exists>f'. freshest f ts = Inr f' \<and> (\<forall>v. f' = Some v \<longrightarrow> int v \<le> max_lsn)"
proof (induction ts arbitrary: f)
  case Nil
  then show ?case by simp
next
  case (Cons t ts)
  show ?case
  proof (cases "t_frontier t")
    case None
    with Cons show ?thesis by (simp add: targets_ok_def)
  next
    case (Some x)
    with Cons.prems obtain v where v: "lsn_to_bigint x = Inr v"
      by (cases "lsn_to_bigint x") (auto simp: targets_ok_def)
    have "targets_ok ts" using Cons.prems(1) by (simp add: targets_ok_def)
    then show ?thesis using Some v Cons.IH [of "max_opt f v"] Cons.prems(2) lsn_in_range [OF v]
      by (auto simp: max_opt_def split: option.splits if_splits)
  qed
qed

definition gate_inv :: "gate \<Rightarrow> bool" where
  "gate_inv g \<longleftrightarrow> gate_ok g \<and> targets_ok (targets g)"

text \<open>The three ways a ring can come out of \<open>evaluate\<close>.\<close>

lemma evaluate_shape:
  obtains "snd (evaluate ins oldest now g) = g"
  | i ss g' where "lsn_to_bigint ins = Inr i" "ss = push_sample (max_samples g) \<lparr>s_at = now, s_lsn = i\<rparr> (samples g)"
      "snd (evaluate ins oldest now g) = g'" "samples g' = ss \<or> (\<exists>f. freshest None (targets g) = Inr f \<and> samples g' = uncovered f ss)"
      "max_samples g' = max_samples g" "targets g' = targets g"
proof (cases "lsn_to_bigint ins")
  case (Inl e)
  then show ?thesis using that(1) by (simp add: evaluate_def)
next
  case (Inr i)
  show ?thesis
    by (rule that(2) [OF Inr refl refl]) (auto simp: evaluate_def Inr Let_def split: result_splits)
qed

lemma evaluate_inv: "gate_inv g \<Longrightarrow> gate_inv (snd (evaluate ins oldest now g))"
proof (cases ins oldest now g rule: evaluate_shape)
  case (2 i ss g')
  assume g: "gate_inv g"
  then have "ring_ok ss \<and> length ss \<le> max_samples g"
    unfolding 2(2) by (intro push_sample_ok) (simp_all add: gate_inv_def gate_ok_def)
  then show ?thesis using 2 g length_uncovered le_trans
    by (auto simp: gate_inv_def gate_ok_def ring_ok_uncovered intro: le_trans [OF length_uncovered])
qed simp

definition below :: "nat \<Rightarrow> gate \<Rightarrow> bool" where
  "below l g \<longleftrightarrow> (case freshest None (targets g) of Inr (Some f) \<Rightarrow> f < l | _ \<Rightarrow> True)"

lemma evaluate_remembers:
  "gate_inv g \<Longrightarrow> below l g \<Longrightarrow> remembers t l (samples g) \<Longrightarrow> remembers t l (samples (snd (evaluate ins oldest now g)))"
proof (cases ins oldest now g rule: evaluate_shape)
  case (2 i ss g')
  assume g: "gate_inv g" "below l g" "remembers t l (samples g)"
  have r: "remembers t l ss"
    unfolding 2(2) by (rule push_sample_remembers) (use g in \<open>simp_all add: gate_inv_def gate_ok_def\<close>)
  from 2(4) show ?thesis
  proof
    assume "\<exists>f. freshest None (targets g) = Inr f \<and> samples g' = uncovered f ss"
    then obtain f where f: "freshest None (targets g) = Inr f" "samples g' = uncovered f ss" by blast
    have "remembers t l (uncovered f ss)"
      by (rule remembers_uncovered [OF r]) (use g(2) f in \<open>auto simp: below_def\<close>)
    with f 2 show ?thesis by simp
  qed (use 2 r in simp)
qed simp

lemma lag_of_ge: "q \<in> set cs \<Longrightarrow> q \<le> of_int t \<Longrightarrow> (now - t) div 1000 \<le> lag_of now cs"
proof -
  assume q: "q \<in> set cs" "q \<le> of_int t"
  have "Min (set cs) \<le> q" using q by (intro Min_le) auto
  with q have "Min (set cs) \<le> of_int t" by linarith
  then have "(of_int (now - t) :: rat) / of_int 1000 \<le> (of_int now - Min (set cs)) / 1000" by simp
  then have "\<lfloor>(of_int (now - t) :: rat) / of_int 1000\<rfloor> \<le> \<lfloor>(of_int now - Min (set cs)) / 1000\<rfloor>"
    by (rule floor_mono)
  then have "(now - t) div 1000 \<le> \<lfloor>(of_int now - Min (set cs)) / 1000\<rfloor>"
    by (simp only: floor_divide_of_int_eq)
  then show ?thesis using q(1) by (auto simp: lag_of_def)
qed

text \<open>A remembered, uncovered position bounds the lag from below.\<close>

lemma evaluate_lag:
  assumes g: "gate_inv g" and b: "below l g" and r: "remembers t l (samples g)"
    and en: "enabled g" and i: "lsn_to_bigint ins = Inr i" "l \<le> i"
  shows "\<exists>stat. fst (evaluate ins oldest now g) = Inr stat \<and> (now - t) div 1000 \<le> lag_seconds stat
    \<and> state stat = state_of True (lag_seconds stat) (alarm_seconds g) (refuse_seconds g)"
proof -
  obtain f where f: "freshest None (targets g) = Inr f" "\<forall>v. f = Some v \<longrightarrow> int v \<le> max_lsn"
    using freshest_ok [of "targets g" None] g by (auto simp: gate_inv_def)
  have fl: "\<And>c. f = Some c \<Longrightarrow> c < l" using b f by (simp add: below_def)
  define ss where "ss = push_sample (max_samples g) \<lparr>s_at = now, s_lsn = i\<rparr> (samples g)"
  have ok: "ring_ok ss" "remembers t l ss" unfolding ss_def
    using g r push_sample_ok push_sample_remembers by (simp_all add: gate_inv_def gate_ok_def)
  then have u: "ring_ok (uncovered f ss)" "remembers t l (uncovered f ss)"
    using ring_ok_uncovered remembers_uncovered fl by blast+
  then obtain x xs where x: "uncovered f ss = x # xs" "s_at x \<le> t"
    using ring_hd_oldest [OF u] by (cases "uncovered f ss") auto
  have "of_int (s_at x) \<in> set (candidates oldest (uncovered f ss))" using x by (simp add: candidates_def)
  then have lag: "(now - t) div 1000 \<le> lag_of now (candidates oldest (uncovered f ss))"
    by (rule lag_of_ge) (use x(2) in simp)
  have cond: "(case f of None \<Rightarrow> True | Some x \<Rightarrow> x < i)" using fl i(2) by (fastforce split: option.splits)
  have bl: "\<exists>ft. (case f of None \<Rightarrow> Inr None | Some x \<Rightarrow> map_sum id Some (bigint_to_lsn (int x))) = Inr ft"
    using f(2) by (auto simp: bigint_to_lsn_def split: option.splits)
  then obtain ft where ft: "(case f of None \<Rightarrow> Inr None | Some x \<Rightarrow> map_sum id Some (bigint_to_lsn (int x))) = Inr ft"
    by blast
  show ?thesis using lag by (simp add: evaluate_def i f(1) Let_def ft en cond ss_def [symmetric])
qed

lemma targets_ok_refresh:
  "targets_ok ts \<Longrightarrow> targets_ok (map (\<lambda>(r, t). refresh_target now msg r t) (zip rs ts) @ drop (length rs) ts)"
proof (induction ts arbitrary: rs)
  case Nil
  then show ?case by simp
next
  case (Cons t ts)
  show ?case
  proof (cases rs)
    case Nil
    with Cons show ?thesis by simp
  next
    case (Cons r rs')
    have "targets_ok ts" using Cons.prems by (simp add: targets_ok_def)
    then have "targets_ok (map (\<lambda>(r, t). refresh_target now msg r t) (zip rs' ts) @ drop (length rs') ts)"
      by (rule Cons.IH)
    moreover have "case t_frontier (refresh_target now msg r t) of None \<Rightarrow> True | Some x \<Rightarrow> \<not> isl (lsn_to_bigint x)"
      using Cons.prems by (auto simp: targets_ok_def refresh_target_def split: provided.splits option.splits sum.splits)
    ultimately show ?thesis using Cons by (simp add: targets_ok_def)
  qed
qed

datatype gate_event =
    SampleEv string int
  | EvaluateEv string "jsnum option" int
  | RefreshEv "provided list" int int

definition gate_step :: "(lsn_error \<Rightarrow> string) \<Rightarrow> gate \<Rightarrow> gate_event \<Rightarrow> gate" where
  "gate_step msg g e = (case e of
     SampleEv ins now \<Rightarrow> snd (take_sample ins now g)
   | EvaluateEv ins oldest now \<Rightarrow> snd (evaluate ins oldest now g)
   | RefreshEv rs now now2 \<Rightarrow> snd (refresh rs now now2 msg g))"

lemma take_sample_inv: "gate_inv g \<Longrightarrow> gate_inv (snd (take_sample ins now g))"
  using push_sample_ok by (auto simp: take_sample_def gate_inv_def gate_ok_def split: sum.splits)

lemma take_sample_remembers:
  "gate_inv g \<Longrightarrow> remembers t l (samples g) \<Longrightarrow> remembers t l (samples (snd (take_sample ins now g)))"
  using push_sample_remembers by (auto simp: take_sample_def gate_inv_def gate_ok_def split: sum.splits)

lemma last_status_settle [simp]: "last_status (settle_targets rs now msg g) = last_status g"
  by (simp add: settle_targets_def)

lemma refresh_is_evaluate:
  "snd (refresh rs now now2 msg g) = (case last_status g of None \<Rightarrow> settle_targets rs now msg g
     | Some stat \<Rightarrow> snd (evaluate (insert_lsn stat) None now2 (settle_targets rs now msg g)))"
  by (auto simp: refresh_def Let_def split: option.splits sum.splits prod.splits)

lemma settle_targets_inv: "gate_inv g \<Longrightarrow> gate_inv (settle_targets rs now msg g)"
  using targets_ok_refresh by (auto simp: gate_inv_def gate_ok_def settle_targets_def)

lemma refresh_inv: "gate_inv g \<Longrightarrow> gate_inv (snd (refresh rs now now2 msg g))"
  by (auto simp: refresh_is_evaluate settle_targets_inv evaluate_inv split: option.splits)

lemma evaluate_targets [simp]: "targets (snd (evaluate ins oldest now g)) = targets g"
  by (auto simp: evaluate_def Let_def split: result_splits)

lemma below_evaluate [simp]: "below l (snd (evaluate ins oldest now g)) = below l g"
  by (simp add: below_def)

lemma refresh_remembers:
  "gate_inv g \<Longrightarrow> below l (snd (refresh rs now now2 msg g)) \<Longrightarrow> remembers t l (samples g) \<Longrightarrow>
    remembers t l (samples (snd (refresh rs now now2 msg g)))"
proof -
  assume g: "gate_inv g" "below l (snd (refresh rs now now2 msg g))" "remembers t l (samples g)"
  have s: "samples (settle_targets rs now msg g) = samples g" by (simp add: settle_targets_def)
  show ?thesis
  proof (cases "last_status g")
    case None
    with g s show ?thesis by (simp add: refresh_is_evaluate)
  next
    case (Some stat)
    with g have "below l (settle_targets rs now msg g)" by (simp add: refresh_is_evaluate)
    then show ?thesis using Some g s settle_targets_inv evaluate_remembers by (simp add: refresh_is_evaluate)
  qed
qed

lemma gate_step_inv: "gate_inv g \<Longrightarrow> gate_inv (gate_step msg g e)"
  by (cases e) (simp_all add: gate_step_def take_sample_inv evaluate_inv refresh_inv)

interpretation adm: machine_invariant "gate_step msg" gate_inv for msg
  by unfold_locales (rule gate_step_inv)

lemma gate_step_remembers:
  "gate_inv g \<Longrightarrow> below l (gate_step msg g e) \<Longrightarrow> remembers t l (samples g) \<Longrightarrow> remembers t l (samples (gate_step msg g e))"
  by (cases e) (simp_all add: gate_step_def take_sample_remembers evaluate_remembers refresh_remembers)

text \<open>No state along the run has a frontier at \<open>l\<close> or beyond.\<close>

fun stays_below :: "(lsn_error \<Rightarrow> string) \<Rightarrow> nat \<Rightarrow> gate \<Rightarrow> gate_event list \<Rightarrow> bool" where
  "stays_below msg l g [] = below l g"
| "stays_below msg l g (e # es) = (below l g \<and> stays_below msg l (gate_step msg g e) es)"

lemma stays_below_hd: "stays_below msg l g es \<Longrightarrow> below l g"
  by (cases es) simp_all

lemma run_remembers:
  "gate_inv g \<Longrightarrow> stays_below msg l g es \<Longrightarrow> remembers t l (samples g) \<Longrightarrow>
    below l (run (gate_step msg) g es) \<and> remembers t l (samples (run (gate_step msg) g es))"
proof (induction es arbitrary: g)
  case Nil
  then show ?case by simp
next
  case (Cons e es)
  then have "below l (gate_step msg g e)" using stays_below_hd by fastforce
  then have "remembers t l (samples (gate_step msg g e))" using Cons.prems gate_step_remembers by blast
  then show ?case using Cons by (simp add: gate_step_inv)
qed

lemma new_gate_inv: "gate_inv (new_gate ps alarm refuse m)"
  by (auto simp: gate_inv_def gate_ok_def new_gate_def ring_ok_def targets_ok_def list_all_iff)

section \<open>The contiguous prefix\<close>

text \<open>The bytes \<open>[start, end)\<close> of a FOUND range.\<close>

definition found_range :: "int \<Rightarrow> json \<Rightarrow> (nat \<times> nat) option" where
  "found_range sz r =
     (if is_record r \<and> jfield r ''status'' = Some (JStr ''FOUND'') then
        (case (jfield r ''start_segment'', jfield r ''end_segment'') of
           (Some (JStr a), Some (JStr b)) \<Rightarrow>
             (case (wal_segment_start_lsn a sz, wal_segment_start_lsn b sz) of
                (Inr x, Inr y) \<Rightarrow> Some (x, y + nat sz)
              | _ \<Rightarrow> None)
         | _ \<Rightarrow> None)
      else None)"

definition archived :: "int \<Rightarrow> json list \<Rightarrow> nat \<Rightarrow> bool" where
  "archived sz rs p \<longleftrightarrow> list_ex (\<lambda>r. case found_range sz r of Some (a, b) \<Rightarrow> a \<le> p \<and> p < b | None \<Rightarrow> False) rs"

lemma range_step_shape:
  "range_step sz ending r = Inr e \<Longrightarrow> (case found_range sz r of None \<Rightarrow> False
     | Some (a, b) \<Rightarrow> a \<le> b \<and> e = (case ending of None \<Rightarrow> b | Some x \<Rightarrow> max x b) \<and> (\<forall>x. ending = Some x \<longrightarrow> a \<le> x))"
  by (auto simp: range_step_def found_range_def Let_def max_def split: if_splits option.splits json.splits sum.splits)

lemma range_step_found:
  assumes "range_step sz ending r = Inr e"
  obtains a b where "found_range sz r = Some (a, b)" "a \<le> b"
    "e = (case ending of None \<Rightarrow> b | Some x \<Rightarrow> max x b)" "\<And>x. ending = Some x \<Longrightarrow> a \<le> x"
  using range_step_shape [OF assms] by (cases "found_range sz r") auto

lemma archived_Cons:
  "archived sz (r # rs) p \<longleftrightarrow> (case found_range sz r of Some (a, b) \<Rightarrow> a \<le> p \<and> p < b | None \<Rightarrow> False) \<or> archived sz rs p"
  by (simp add: archived_def)

text \<open>The loop only extends the covered stretch at its end.\<close>

lemma ranges_end_covers:
  "ranges_end sz (Some x) rs = Some res \<Longrightarrow> \<exists>e. res = Some e \<and> x \<le> e \<and> (\<forall>p. x \<le> p \<and> p < e \<longrightarrow> archived sz rs p)"
proof (induction rs arbitrary: x)
  case Nil
  then show ?case by auto
next
  case (Cons r rs)
  show ?case
  proof (cases "range_step sz (Some x) r")
    case (Inl s)
    with Cons.prems show ?thesis by (cases s) auto
  next
    case (Inr y)
    from Inr obtain a b where r: "found_range sz r = Some (a, b)" "y = max x b" "a \<le> x"
      by (rule range_step_found) simp
    from Cons.prems Inr have "ranges_end sz (Some y) rs = Some res" by simp
    from Cons.IH [OF this] obtain e where e: "res = Some e" "y \<le> e" "\<forall>p. y \<le> p \<and> p < e \<longrightarrow> archived sz rs p"
      by blast
    have "archived sz (r # rs) p" if "x \<le> p" "p < e" for p
    proof (cases "p < y")
      case True
      with that r have "a \<le> p" and "p < b" by auto
      with r show ?thesis by (simp add: archived_Cons)
    next
      case False
      with that e show ?thesis by (simp add: archived_Cons)
    qed
    with e r show ?thesis by auto
  qed
qed

lemma ranges_end_first:
  assumes "ranges_end sz None rs = Some (Some e)"
  shows "\<exists>a b. rs \<noteq> [] \<and> found_range sz (hd rs) = Some (a, b) \<and> b \<le> e
    \<and> (\<forall>p. a \<le> p \<and> p < e \<longrightarrow> archived sz rs p)"
proof (cases rs)
  case Nil
  with assms show ?thesis by simp
next
  case (Cons r rest)
  show ?thesis
  proof (cases "range_step sz None r")
    case (Inl s)
    with assms Cons show ?thesis by (cases s) auto
  next
    case (Inr y)
    from Inr obtain a b where r: "found_range sz r = Some (a, b)" "y = b" by (rule range_step_found) simp
    from assms Cons Inr have "ranges_end sz (Some y) rest = Some (Some e)" by simp
    from ranges_end_covers [OF this] have e: "y \<le> e" "\<forall>p. y \<le> p \<and> p < e \<longrightarrow> archived sz rest p" by auto
    have "archived sz rs p" if "a \<le> p" "p < e" for p
      using that r e Cons by (cases "p < y") (auto simp: archived_Cons)
    with r e Cons show ?thesis by auto
  qed
qed

lemma walg_details:
  assumes "walg_frontier report sz = Some s"
  shows "\<exists>d e. jfield (integrity_of report) ''details'' = Some (JArr d)
    \<and> ranges_end sz None d = Some (Some e) \<and> bigint_to_lsn (int e) = Inr s"
proof -
  have w: "(case jfield (integrity_of report) ''details'' of
        Some (JArr details) \<Rightarrow>
          (case ranges_end sz None details of
             Some (Some e) \<Rightarrow> (case bigint_to_lsn (int e) of Inr s \<Rightarrow> Some s | Inl _ \<Rightarrow> None)
           | _ \<Rightarrow> None)
      | _ \<Rightarrow> None) = Some s"
    using assms by (simp add: walg_frontier_def Let_def split: if_splits)
  then obtain v where v: "jfield (integrity_of report) ''details'' = Some v"
    by (cases "jfield (integrity_of report) ''details''") simp_all
  with w obtain d where d: "v = JArr d" by (cases v) simp_all
  from w v d show ?thesis by (auto split: option.splits sum.splits)
qed

text \<open>The rules that evaluate the module on concrete input.\<close>

lemmas lsn_eval = lsn_to_bigint_def hex_group_def is_hex_def parse_hex_def hex_value_def of_char_def push_bit_eq_mult
  drop_bit_eq_div bigint_to_lsn_def max_lsn_def to_hex_step to_hex_base hex_digit_def char_of_def bit_0

lemmas gate_eval = gate_step_def take_sample_def refresh_def settle_targets_def refresh_target_def evaluate_def enabled_def
  push_sample_def last_opt_def uncovered_def max_opt_def new_gate_def below_def

section \<open>Properties\<close>

text \<open>every LSN in the 64-bit range is printed in a form that parses back to it.\<close>

theorem lsn_round_trip:
  assumes "0 \<le> v" and "v \<le> max_lsn"
  shows "\<exists>s. bigint_to_lsn v = Inr s \<and> lsn_to_bigint s = Inr (nat v)"
proof -
  have v: "v < 18446744073709551616" using assms(2) by (simp add: max_lsn_def push_bit_eq_mult)
  define a where "a = nat (drop_bit 32 v)"
  define b where "b = nat (v AND 4294967295)"
  have a: "a = nat v div 4294967296"
    using assms(1) by (simp add: a_def drop_bit_eq_div nat_div_distrib)
  have "v AND 4294967295 = take_bit 32 v" by (simp add: take_bit_eq_mask mask_eq_exp_minus_1)
  then have b: "b = nat v mod 4294967296"
    using assms(1) by (simp add: b_def take_bit_eq_mod nat_mod_distrib)
  have "nat v < 18446744073709551616" using v by simp
  then have "a < 4294967296" "b < 4294967296" using a b by simp_all
  then have "lsn_to_bigint (to_hex a @ ''/'' @ to_hex b) = Inr (nat v)"
    using a b by (subst lsn_to_bigint_groups) (simp_all add: hex_group_to_hex parse_to_hex push_or)
  moreover have "bigint_to_lsn v = Inr (to_hex a @ ''/'' @ to_hex b)"
    using assms by (simp add: bigint_to_lsn_def a_def b_def)
  ultimately show ?thesis by blast
qed

theorem lsn_round_trip_witness:
  "\<exists>s. bigint_to_lsn 5000000000 = Inr s \<and> lsn_to_bigint s = Inr (nat 5000000000)"
  by (rule lsn_round_trip) (simp_all add: max_lsn_def push_bit_eq_mult)

text \<open>C5: the frontier read from a WAL-G report is gap free: it is the end of the first range's stretch, and
  every position from that range's start up to it lies in a FOUND range of the report.\<close>

theorem walg_frontier_gap_free:
  assumes "walg_frontier report sz = Some s"
  shows "\<exists>details a b e. (jfield report ''details'' = Some (JArr details)
        \<or> (\<exists>i. jfield report ''integrity'' = Some i \<and> jfield i ''details'' = Some (JArr details)))
      \<and> details \<noteq> [] \<and> found_range sz (hd details) = Some (a, b) \<and> b \<le> e \<and> bigint_to_lsn (int e) = Inr s
      \<and> (\<forall>p. a \<le> p \<and> p < e \<longrightarrow> archived sz details p)"
proof -
  have d: "integrity_of report = report \<or> jfield report ''integrity'' = Some (integrity_of report)"
    by (auto simp: integrity_of_def split: option.splits)
  from walg_details [OF assms] obtain details e where d2: "jfield (integrity_of report) ''details'' = Some (JArr details)"
    and e: "ranges_end sz None details = Some (Some e)" "bigint_to_lsn (int e) = Inr s" by blast
  from ranges_end_first [OF e(1)] obtain a b where "details \<noteq> []" "found_range sz (hd details) = Some (a, b)"
    "b \<le> e" "\<forall>p. a \<le> p \<and> p < e \<longrightarrow> archived sz details p" by blast
  with d d2 e show ?thesis by metis
qed

theorem walg_frontier_gap_free_witness:
  "\<exists>details a b e. (jfield (JObj [(''details'', JArr [JObj [(''status'', JStr ''FOUND''),
          (''start_segment'', JStr ''000000010000000000000002''), (''end_segment'', JStr ''000000010000000000000003'')]])])
        ''details'' = Some (JArr details)
      \<or> (\<exists>i. jfield (JObj [(''details'', JArr [JObj [(''status'', JStr ''FOUND''),
          (''start_segment'', JStr ''000000010000000000000002''), (''end_segment'', JStr ''000000010000000000000003'')]])])
        ''integrity'' = Some i \<and> jfield i ''details'' = Some (JArr details)))
    \<and> details \<noteq> [] \<and> found_range 16777216 (hd details) = Some (a, b) \<and> b \<le> e \<and> bigint_to_lsn (int e) = Inr ''0/4000000''
    \<and> (\<forall>p. a \<le> p \<and> p < e \<longrightarrow> archived 16777216 details p)"
  by (rule walg_frontier_gap_free) (simp add: walg_frontier_def integrity_of_def is_record_def jfield_def Let_def
      range_step_def wal_segment_start_lsn_def check_segment_size_def lsn_eval)

text \<open>C4: the gate fails closed. Once it has seen a write position, then as long as no archive frontier reaches that
  position - whatever samples, evaluations and refreshes happen meanwhile, and however many ring entries
  are merged - a check made more than \<open>refuseSeconds\<close> later refuses, reporting at least the true lag.\<close>

theorem admission_fails_closed:
  assumes g0: "g0 = run (gate_step msg) (new_gate ps alarm refuse m) es0"
    and seen: "lsn_to_bigint ins = Inr l" "g1 = snd (take_sample ins t g0)"
    and clock: "samples g0 \<noteq> [] \<longrightarrow> s_at (last (samples g0)) \<le> t"
    and behind: "stays_below msg l g1 es" "g2 = run (gate_step msg) g1 es"
    and now: "lsn_to_bigint ins2 = Inr i" "l \<le> i" "refuse_seconds g2 < (now - t) div 1000"
    and en: "enabled g2"
  shows "\<exists>n. fst (check ins2 oldest now g2) = Inl (ArchiveLagging n) \<and> (now - t) div 1000 \<le> n"
proof -
  have i0: "gate_inv g0" unfolding g0 by (rule adm.inv_run [OF new_gate_inv])
  then have i1: "gate_inv g1" unfolding seen(2) by (rule take_sample_inv)
  have "remembers t l (samples g1)" unfolding seen(2) using i0 clock push_sample_new
    by (simp add: take_sample_def seen(1) gate_inv_def gate_ok_def)
  then have r: "below l g2" "remembers t l (samples g2)"
    unfolding behind(2) using run_remembers [OF i1 behind(1)] by blast+
  have i2: "gate_inv g2" unfolding behind(2) by (rule adm.inv_run [OF i1])
  from evaluate_lag [OF i2 r en now(1) now(2), of oldest now] obtain stat
    where s: "fst (evaluate ins2 oldest now g2) = Inr stat" "(now - t) div 1000 \<le> lag_seconds stat"
      "state stat = state_of True (lag_seconds stat) (alarm_seconds g2) (refuse_seconds g2)" by blast
  then have "state stat = Refuse" using now(3) by (simp add: state_of_def)
  with s show ?thesis by (auto simp: check_def split: prod.splits)
qed

theorem admission_fails_closed_witness:
  "\<exists>n. fst (check ''0/30'' None 400000 (run (gate_step (\<lambda>_. ''''))
       (snd (take_sample ''0/20'' 1000 (run (gate_step (\<lambda>_. '''')) (new_gate [''a''] None None (Some 2)) [])))
       [RefreshEv [Fulfilled (Some ''0/10'')] 2000 2000, SampleEv ''0/21'' 3000, SampleEv ''0/22'' 4000]))
     = Inl (ArchiveLagging n) \<and> (400000 - 1000) div 1000 \<le> n"
proof -
  let ?msg = "\<lambda>_. ''''"
  let ?g0 = "run (gate_step ?msg) (new_gate [''a''] None None (Some 2)) []"
  let ?g1 = "snd (take_sample ''0/20'' 1000 ?g0)"
  let ?es = "[RefreshEv [Fulfilled (Some ''0/10'')] 2000 2000, SampleEv ''0/21'' 3000, SampleEv ''0/22'' 4000]"
  have l: "lsn_to_bigint ''0/20'' = Inr 32" "lsn_to_bigint ''0/30'' = Inr 48" by (simp_all add: lsn_eval)
  have b: "stays_below ?msg 32 ?g1 ?es" by (simp add: gate_eval lsn_eval)
  have r: "refuse_seconds (run (gate_step ?msg) ?g1 ?es) < (400000 - 1000) div 1000" by (simp add: gate_eval lsn_eval)
  have en: "enabled (run (gate_step ?msg) ?g1 ?es)" by (simp add: gate_eval lsn_eval)
  have c: "samples ?g0 \<noteq> [] \<longrightarrow> s_at (last (samples ?g0)) \<le> 1000" by (simp add: new_gate_def)
  show ?thesis
    using admission_fails_closed [where oldest = None, OF refl l(1) refl c b refl l(2) _ r en] by simp
qed

end
