(* ===== verification/Chain.thy ===== *)
theory Chain imports Prelude "HOL-Library.List_Lexorder" "HOL-Library.Char_ord" begin

text \<open>
  \<^verbatim>\<open>src/src/records/chain.ts\<close>: the canonical bytes of a record row, the verification of an organisation's
  hash chain against anchors, and the backfill of \<open>prev_hash\<close>. The SHA-256 digest and PostgreSQL are
  parameters: \<open>sha\<close> hashes the canonical text, and a query function gives the batch of rows after a cursor.
\<close>

section \<open>Canonical bytes\<close>

type_synonym row = "(string, string option) jmap"

text \<open>\<open>JSON.stringify\<close> of a string.\<close>

definition hex_lower :: "nat \<Rightarrow> char" where
  "hex_lower n = (if n < 10 then char_of (48 + n) else char_of (87 + n))"

definition special :: "nat \<Rightarrow> bool" where
  "special n \<longleftrightarrow> n < 32 \<or> n = 34 \<or> n = 92"

definition escape_tail :: "nat \<Rightarrow> string" where
  "escape_tail n =
     (if n = 34 then [CHR 0x22] else if n = 92 then [CHR 0x5C] else if n = 8 then ''b'' else if n = 12 then ''f''
      else if n = 10 then ''n'' else if n = 13 then ''r'' else if n = 9 then ''t''
      else [CHR ''u'', CHR ''0'', CHR ''0'', hex_lower (n div 16), hex_lower (n mod 16)])"

definition json_escape :: "char \<Rightarrow> string" where
  "json_escape c = (if special (of_char c) then CHR 0x5C # escape_tail (of_char c) else [c])"

definition json_quote :: "string \<Rightarrow> string" where
  "json_quote s = [CHR 0x22] @ concat (map json_escape s) @ [CHR 0x22]"

definition json_value :: "string option \<Rightarrow> string" where
  "json_value v = (case v of None \<Rightarrow> ''null'' | Some s \<Rightarrow> json_quote s)"

fun json_entries :: "(string \<times> string option) list \<Rightarrow> string" where
  "json_entries [] = ''''"
| "json_entries [(k, v)] = json_quote k @ '':'' @ json_value v"
| "json_entries ((k, v) # p # ps) = json_quote k @ '':'' @ json_value v @ '','' @ json_entries (p # ps)"

text \<open>The columns are sorted by name; no column name is a number, so \<open>JSON.stringify\<close> keeps that order.\<close>

definition sorted_columns :: "row \<Rightarrow> (string \<times> string option) list" where
  "sorted_columns r = map (\<lambda>k. (k, case jm_get r k of Some v \<Rightarrow> v | None \<Rightarrow> None)) (sort (jm_keys r))"

definition canonical_bytes :: "row \<Rightarrow> string" where
  "canonical_bytes r = ''{'' @ json_entries (sorted_columns r) @ ''}''"

definition row_hash :: "(string \<Rightarrow> string) \<Rightarrow> row \<Rightarrow> string" where
  "row_hash sha r = sha (canonical_bytes r)"

section \<open>Anchors\<close>

definition MAX_ANCHORS :: nat where "MAX_ANCHORS = 10000"
definition MAX_REPORTED_ANCHOR_FAILURES :: nat where "MAX_REPORTED_ANCHOR_FAILURES = 20"
definition BATCH :: nat where "BATCH = 1000"

definition hash_text :: "string \<Rightarrow> bool" where
  "hash_text s \<longleftrightarrow> length s = 64 \<and> list_all (\<lambda>c. c \<in> set ''0123456789abcdef'') s"

datatype anchor_error = NotAnArray | BadAnchor

definition safe_integer :: "rat \<Rightarrow> bool" where
  "safe_integer q \<longleftrightarrow> of_int \<lfloor>q\<rfloor> = q \<and> \<bar>q\<bar> \<le> 9007199254740991"

definition parse_anchor :: "json \<Rightarrow> anchor_error + (int \<times> string) list" where
  "parse_anchor e =
     (let s = jfield e ''seq''; h = jfield e ''hash'' in
      if s = Some (JNum 0) \<and> h = Some JNull then Inr []
      else case (s, h) of
        (Some (JNum q), Some (JStr t)) \<Rightarrow>
          if \<not> safe_integer q \<or> q < 1 \<or> \<not> hash_text t then Inl BadAnchor else Inr [(\<lfloor>q\<rfloor>, t)]
      | _ \<Rightarrow> Inl BadAnchor)"

fun parse_entries :: "json list \<Rightarrow> anchor_error + (int \<times> string) list" where
  "parse_entries [] = Inr []"
| "parse_entries (e # es) =
     (case parse_anchor e of Inl x \<Rightarrow> Inl x
      | Inr a \<Rightarrow> (case parse_entries es of Inl x \<Rightarrow> Inl x | Inr as \<Rightarrow> Inr (a @ as)))"

definition parse_anchors :: "json option \<Rightarrow> anchor_error + (int \<times> string) list" where
  "parse_anchors v =
     (case v of None \<Rightarrow> Inr []
      | Some (JArr es) \<Rightarrow> if length es > MAX_ANCHORS then Inl NotAnArray else parse_entries es
      | Some _ \<Rightarrow> Inl NotAnArray)"

section \<open>Verification\<close>

text \<open>\<open>Number(text)\<close> of a PostgreSQL bigint's text.\<close>

definition parse_dec :: "string \<Rightarrow> int" where
  "parse_dec s = foldl (\<lambda>n c. 10 * n + int (of_char c - 48)) 0 s"

definition number_of :: "string option \<Rightarrow> int" where
  "number_of t = (case t of None \<Rightarrow> 0
     | Some s \<Rightarrow> (case s of c # r \<Rightarrow> if c = CHR ''-'' then - parse_dec r else parse_dec s | [] \<Rightarrow> 0))"

definition column :: "row \<Rightarrow> string \<Rightarrow> string option" where
  "column r k = (case jm_get r k of Some v \<Rightarrow> v | None \<Rightarrow> None)"

definition row_seq :: "row \<Rightarrow> int" where
  "row_seq r = number_of (column r ''seq'')"

datatype reason = PrevHash | Gap | Org | Origin
datatype break_value = Txt "string option" | SeqNum int

record chain_break =
  b_seq :: int
  b_reason :: reason
  b_expected :: break_value
  b_found :: break_value

record vstate =
  wanted :: "(int, string option) jmap"
  first :: "chain_break option"
  prev :: "(int \<times> string) option"
  rows :: nat

definition init_verify :: "(int \<times> string) list \<Rightarrow> vstate" where
  "init_verify anchors = \<lparr>wanted = foldl (\<lambda>m a. jm_set (fst a) None m) [] anchors, first = None, prev = None, rows = 0\<rparr>"

definition or_else :: "'a option \<Rightarrow> 'a option \<Rightarrow> 'a option" where
  "or_else x y = (case x of None \<Rightarrow> y | Some _ \<Rightarrow> x)"

definition foreign :: "string \<Rightarrow> string \<Rightarrow> row \<Rightarrow> bool" where
  "foreign org origin r \<longleftrightarrow> jm_get r ''org'' \<noteq> Some (Some org) \<or> jm_get r ''origin'' \<noteq> Some (Some origin)"

definition link_break :: "(int \<times> string) option \<Rightarrow> row \<Rightarrow> chain_break option" where
  "link_break p r =
     (let expected = (case p of Some (s, _) \<Rightarrow> s | None \<Rightarrow> 0) + 1; ph = map_option snd p in
      if row_seq r \<noteq> expected then
        Some \<lparr>b_seq = row_seq r, b_reason = Gap, b_expected = SeqNum expected, b_found = SeqNum (row_seq r)\<rparr>
      else if jm_get r ''prev_hash'' \<noteq> Some ph then
        Some \<lparr>b_seq = row_seq r, b_reason = PrevHash, b_expected = Txt ph, b_found = Txt (column r ''prev_hash'')\<rparr>
      else None)"

definition verify_row :: "(string \<Rightarrow> string) \<Rightarrow> string \<Rightarrow> string \<Rightarrow> vstate \<Rightarrow> row \<Rightarrow> vstate" where
  "verify_row sha org origin st r =
     (if foreign org origin r then
        (let other = (jm_get r ''org'' \<noteq> Some (Some org)) in
         st\<lparr>first := or_else (first st) (Some \<lparr>b_seq = row_seq r, b_reason = (if other then Org else Origin),
               b_expected = Txt (Some (if other then org else origin)), b_found = Txt (column r (if other then ''org'' else ''origin''))\<rparr>),
            rows := Suc (rows st)\<rparr>)
      else
        st\<lparr>first := or_else (first st) (link_break (prev st) r),
           wanted := (if jm_has (wanted st) (row_seq r) then jm_set (row_seq r) (Some (row_hash sha r)) (wanted st) else wanted st),
           prev := Some (row_seq r, row_hash sha r), rows := Suc (rows st)\<rparr>)"

type_synonym cursor = "string option \<times> string option"

definition cursor_of :: "row \<Rightarrow> cursor" where
  "cursor_of r = (column r ''seq'', column r ''id'')"

definition first_cursor :: cursor where
  "first_cursor = (Some ''0'', Some ''00000000-0000-0000-0000-000000000000'')"

text \<open>The batch loop: ask for the page after the state's cursor, fold its rows in, stop at a short page.
  \<open>None\<close> is running out of fuel.\<close>

fun page_loop :: "nat \<Rightarrow> ('c \<Rightarrow> 'r list) \<Rightarrow> ('s \<Rightarrow> 'c) \<Rightarrow> ('s \<Rightarrow> 'r \<Rightarrow> 's) \<Rightarrow> 's \<Rightarrow> 's option" where
  "page_loop 0 q cur f s = None"
| "page_loop (Suc n) q cur f s =
     (let b = q (cur s); s' = foldl f s b in
      if length b < BATCH then Some s' else page_loop n q cur f s')"

definition verify_step :: "(string \<Rightarrow> string) \<Rightarrow> string \<Rightarrow> string \<Rightarrow> cursor \<times> vstate \<Rightarrow> row \<Rightarrow> cursor \<times> vstate" where
  "verify_step sha org origin s r = (cursor_of r, verify_row sha org origin (snd s) r)"

record anchor_failure =
  af_seq :: int
  af_hash :: string
  af_found :: "string option"

record verify_result =
  v_rows :: nat
  v_last :: "(int \<times> string) option"
  v_ok :: bool
  v_clean :: bool
  v_break :: "chain_break option"
  v_passed :: nat
  v_failed :: nat
  v_failures :: "anchor_failure list"
  v_unanchored :: "(int \<times> int) option"

definition found_hash :: "vstate \<Rightarrow> int \<Rightarrow> string option" where
  "found_hash st s = (case jm_get (wanted st) s of Some h \<Rightarrow> h | None \<Rightarrow> None)"

definition anchor_step :: "vstate \<Rightarrow> nat \<times> nat \<times> anchor_failure list \<Rightarrow> int \<times> string \<Rightarrow> nat \<times> nat \<times> anchor_failure list" where
  "anchor_step st acc a =
     (case acc of (passed, failed, fails) \<Rightarrow>
        if found_hash st (fst a) = Some (snd a) then (Suc passed, failed, fails)
        else (passed, Suc failed,
              if length fails < MAX_REPORTED_ANCHOR_FAILURES
              then fails @ [\<lparr>af_seq = fst a, af_hash = snd a, af_found = found_hash st (fst a)\<rparr>] else fails))"

definition verify_finish :: "(int \<times> string) list \<Rightarrow> vstate \<Rightarrow> verify_result" where
  "verify_finish anchors st =
     (case foldl (anchor_step st) (0, 0, []) (sort_key fst anchors) of (passed, failed, fails) \<Rightarrow>
       (let latest = foldl max 0 (map fst anchors);
            un = (case prev st of Some (s, _) \<Rightarrow> if s > latest then Some (latest + 1, s) else None | None \<Rightarrow> None);
            ok = (first st = None \<and> failed = 0)
        in \<lparr>v_rows = rows st, v_last = prev st, v_ok = ok, v_clean = (ok \<and> un = None), v_break = first st,
            v_passed = passed, v_failed = failed, v_failures = fails, v_unanchored = un\<rparr>))"

definition verify_chain :: "nat \<Rightarrow> (string \<Rightarrow> string) \<Rightarrow> (cursor \<Rightarrow> row list) \<Rightarrow> string \<Rightarrow> string \<Rightarrow> (int \<times> string) list \<Rightarrow> verify_result option" where
  "verify_chain fuel sha q org origin anchors =
     map_option (\<lambda>s. verify_finish anchors (snd s))
       (page_loop fuel q fst (verify_step sha org origin) (first_cursor, init_verify anchors))"

text \<open>What the code relies on from PostgreSQL: in the snapshot \<open>rs\<close>, ordered by (seq, id), the query gives the
  first \<open>BATCH\<close> rows after the cursor's row (from the start for the initial cursor).\<close>

definition keyset_query :: "(cursor \<Rightarrow> row list) \<Rightarrow> row list \<Rightarrow> bool" where
  "keyset_query q rs \<longleftrightarrow> q first_cursor = take BATCH rs
     \<and> list_all (\<lambda>i. q (cursor_of (rs ! i)) = take BATCH (drop (Suc i) rs)) [0..<length rs]"

section \<open>Backfill\<close>

text \<open>One organisation's rows in seq order: the updates \<open>(id, prev_hash)\<close> sent, in batches.\<close>

definition backfill_row :: "(string \<Rightarrow> string) \<Rightarrow> (int \<times> string) option \<times> (string option \<times> string option) list \<Rightarrow> row
    \<Rightarrow> (int \<times> string) option \<times> (string option \<times> string option) list" where
  "backfill_row sha acc r = (case acc of (p, ups) \<Rightarrow>
     (let r' = jm_set ''prev_hash'' (map_option snd p) r in
      (Some (row_seq r', row_hash sha r'), ups @ [(column r' ''id'', map_option snd p)])))"

definition backfill_org :: "nat \<Rightarrow> (int \<Rightarrow> row list) \<Rightarrow> (string \<Rightarrow> string) \<Rightarrow> (string option \<times> string option) list option" where
  "backfill_org fuel q sha =
     map_option snd (page_loop fuel q (\<lambda>acc. case fst acc of Some (s, _) \<Rightarrow> s | None \<Rightarrow> 0) (backfill_row sha) (None, []))"

text \<open>Applying the updates to the table.\<close>

definition apply_updates :: "(string option \<times> string option) list \<Rightarrow> row list \<Rightarrow> row list" where
  "apply_updates ups rs = map (\<lambda>r. case map_of ups (column r ''id'') of Some h \<Rightarrow> jm_set ''prev_hash'' h r | None \<Rightarrow> r) rs"

definition seq_query :: "(int \<Rightarrow> row list) \<Rightarrow> row list \<Rightarrow> bool" where
  "seq_query q rs \<longleftrightarrow> q 0 = take BATCH rs \<and> list_all (\<lambda>i. q (row_seq (rs ! i)) = take BATCH (drop (Suc i) rs)) [0..<length rs]"

section \<open>The canonical text determines the row\<close>

lemma hex_lower_inj: "n < 16 \<Longrightarrow> m < 16 \<Longrightarrow> hex_lower n = hex_lower m \<Longrightarrow> n = m"
  by (auto simp: hex_lower_def dest!: arg_cong [where f = "of_char :: char \<Rightarrow> nat"] split: if_splits)

lemma hex_digits_inj:
  assumes a: "n < 32" "m < 32" "hex_lower (n div 16) = hex_lower (m div 16)" "hex_lower (n mod 16) = hex_lower (m mod 16)"
  shows "n = m"
proof -
  have "n div 16 = m div 16" by (rule hex_lower_inj) (use a in linarith, use a in linarith, rule a(3))
  moreover have "n mod 16 = m mod 16" by (rule hex_lower_inj) (simp, simp, rule a(4))
  ultimately show ?thesis by (metis div_mult_mod_eq)
qed

lemma escape_tail_prefix: "special n \<Longrightarrow> special m \<Longrightarrow> escape_tail n @ x = escape_tail m @ y \<Longrightarrow> n = m \<and> x = y"
  unfolding escape_tail_def special_def
  by (auto split: if_split_asm intro: hex_digits_inj)

lemma special_backslash: "special (of_char (CHR 0x5C))"
  by (simp add: special_def)

lemma json_escape_prefix: "json_escape c @ x = json_escape d @ y \<Longrightarrow> c = d \<and> x = y"
proof -
  assume h: "json_escape c @ x = json_escape d @ y"
  show ?thesis
  proof (cases "special (of_char c)"; cases "special (of_char d)")
    assume s: "special (of_char c)" "special (of_char d)"
    with h have "escape_tail (of_char c) @ x = escape_tail (of_char d) @ y" by (simp add: json_escape_def)
    with escape_tail_prefix s have "(of_char c :: nat) = of_char d \<and> x = y" by blast
    then show ?thesis by simp
  qed (use h special_backslash in \<open>auto simp: json_escape_def\<close>)
qed

lemma json_escape_no_quote: "json_escape c @ x \<noteq> CHR 0x22 # y"
  by (auto simp: json_escape_def special_def)

lemma json_escapes_prefix:
  "concat (map json_escape s) @ CHR 0x22 # x = concat (map json_escape t) @ CHR 0x22 # y \<Longrightarrow> s = t \<and> x = y"
proof (induction s arbitrary: t)
  case Nil
  then show ?case using json_escape_no_quote by (cases t) (auto simp: append_assoc dest: sym)
next
  case (Cons c s)
  show ?case
  proof (cases t)
    case Nil
    with Cons.prems show ?thesis using json_escape_no_quote by (auto simp: append_assoc)
  next
    case (Cons d t')
    with Cons.prems have "json_escape c @ (concat (map json_escape s) @ CHR 0x22 # x)
        = json_escape d @ (concat (map json_escape t') @ CHR 0x22 # y)" by simp
    from json_escape_prefix [OF this] have "c = d"
      and "concat (map json_escape s) @ CHR 0x22 # x = concat (map json_escape t') @ CHR 0x22 # y" by blast+
    with Cons.IH Cons show ?thesis by blast
  qed
qed

lemma json_quote_prefix: "json_quote s @ x = json_quote t @ y \<Longrightarrow> s = t \<and> x = y"
  using json_escapes_prefix [of s x t y] by (simp add: json_quote_def)

lemma json_value_prefix: "json_value v @ x = json_value w @ y \<Longrightarrow> v = w \<and> x = y"
proof (cases v; cases w)
  fix s t
  assume "json_value v @ x = json_value w @ y" "v = Some s" "w = Some t"
  then show ?thesis using json_quote_prefix [of s x t y] by (simp add: json_value_def)
qed (auto simp: json_value_def json_quote_def)

lemma json_entries_prefix:
  "json_entries ps @ CHR ''}'' # x = json_entries qs @ CHR ''}'' # y \<Longrightarrow> ps = qs"
proof (induction ps arbitrary: qs rule: json_entries.induct)
  case 1
  then show ?case by (cases qs rule: json_entries.cases) (simp_all add: json_quote_def)
next
  case (2 k v)
  show ?case
  proof (cases qs rule: json_entries.cases)
    case 1
    with 2 show ?thesis by (simp add: json_quote_def)
  next
    case (2 k' v')
    with \<open>json_entries [(k, v)] @ _ = _\<close> show ?thesis
      by (auto dest!: json_quote_prefix json_value_prefix)
  next
    case (3 k' v' p qs')
    with \<open>json_entries [(k, v)] @ _ = _\<close> show ?thesis
      by (auto dest!: json_quote_prefix json_value_prefix)
  qed
next
  case (3 k v p ps)
  show ?case
  proof (cases qs rule: json_entries.cases)
    case 1
    with 3 show ?thesis by (simp add: json_quote_def)
  next
    case (2 k' v')
    with 3(2) show ?thesis by (auto dest!: json_quote_prefix json_value_prefix)
  next
    case (3 k' v' q qs')
    with \<open>json_entries ((k, v) # p # ps) @ _ = _\<close>
    have "k = k'" "v = v'" "json_entries (p # ps) @ CHR ''}'' # x = json_entries (q # qs') @ CHR ''}'' # y"
      by (auto dest!: json_quote_prefix json_value_prefix)
    with 3 \<open>\<And>qs. json_entries (p # ps) @ _ = _ \<Longrightarrow> _ = qs\<close> show ?thesis by blast
  qed
qed

lemma sorted_columns_get:
  "jm_get r k = (if k \<in> set (map fst (sorted_columns r)) then map_of (sorted_columns r) k else None)"
proof -
  have m: "map fst (sorted_columns r) = sort (jm_keys r)" by (simp add: sorted_columns_def o_def)
  show ?thesis
  proof (cases "k \<in> set (jm_keys r)")
    case True
    then have "map_of (sorted_columns r) k = Some (case jm_get r k of Some v \<Rightarrow> v | None \<Rightarrow> None)"
      by (auto simp: sorted_columns_def map_of_map_restrict restrict_map_def)
    moreover obtain v where "jm_get r k = Some v" using True jm_get_None_iff [of r k] by (cases "jm_get r k") auto
    ultimately show ?thesis using True by (simp add: m)
  next
    case False
    then show ?thesis using jm_get_None_iff [of r k] by (simp add: m)
  qed
qed

lemma canonical_bytes_eq: "canonical_bytes r = canonical_bytes s \<Longrightarrow> jm_get r = jm_get s"
proof -
  assume "canonical_bytes r = canonical_bytes s"
  then have "sorted_columns r = sorted_columns s"
    using json_entries_prefix [of "sorted_columns r" "''''" "sorted_columns s" "''''"] by (simp add: canonical_bytes_def)
  then show ?thesis by (intro ext) (simp add: sorted_columns_get)
qed

section \<open>The batch loop reads every row\<close>

lemma page_loop_all:
  assumes page: "\<And>i. i \<le> length rs \<Longrightarrow> q (cur (foldl f s0 (take i rs))) = take BATCH (drop i rs)"
    and fuel: "length rs < n * BATCH"
  shows "page_loop n q cur f s0 = Some (foldl f s0 rs)"
proof -
  have "page_loop n q cur f (foldl f s0 (take i rs)) = Some (foldl f s0 rs)"
    if "i \<le> length rs" "length rs - i < n * BATCH" for i n
    using that
  proof (induction n arbitrary: i)
    case 0
    then show ?case by simp
  next
    case (Suc n)
    define b where "b = take BATCH (drop i rs)"
    have q: "q (cur (foldl f s0 (take i rs))) = b" unfolding b_def by (rule page) (rule Suc.prems(1))
    have t: "take (i + length b) rs = take i rs @ b" by (auto simp: b_def take_add min_def)
    then have s: "foldl f (foldl f s0 (take i rs)) b = foldl f s0 (take (i + length b) rs)" by simp
    show ?case
    proof (cases "length b < BATCH")
      case True
      then have "i + length b = length rs" using Suc.prems(1) by (simp add: b_def)
      with True show ?thesis by (simp add: q s Let_def)
    next
      case False
      then have l: "length b = BATCH" "i + BATCH \<le> length rs" by (auto simp: b_def BATCH_def)
      have "page_loop n q cur f (foldl f s0 (take (i + BATCH) rs)) = Some (foldl f s0 rs)"
        by (rule Suc.IH) (use l Suc.prems in \<open>auto simp: BATCH_def\<close>)
      with l show ?thesis by (simp add: q s Let_def)
    qed
  qed
  from this [of 0 n] fuel show ?thesis by simp
qed

lemma foldl_verify_step:
  "foldl (verify_step sha org origin) (c, st) rs
     = (if rs = [] then c else cursor_of (last rs), foldl (verify_row sha org origin) st rs)"
  by (induction rs arbitrary: c st) (auto simp: verify_step_def)

lemma verify_chain_folds:
  assumes q: "keyset_query q rs" and fuel: "length rs < n * BATCH"
  shows "verify_chain n sha q org origin anchors
    = Some (verify_finish anchors (foldl (verify_row sha org origin) (init_verify anchors) rs))"
proof -
  let ?f = "verify_step sha org origin" and ?s = "(first_cursor, init_verify anchors)"
  have "q (fst (foldl ?f ?s (take i rs))) = take BATCH (drop i rs)" if i: "i \<le> length rs" for i
  proof (cases i)
    case 0
    then show ?thesis using q by (simp add: keyset_query_def)
  next
    case (Suc k)
    with i have k: "k < length rs" by simp
    then have "last (take i rs) = rs ! k" "take i rs \<noteq> []" by (auto simp: Suc take_Suc_conv_app_nth)
    then show ?thesis using q k Suc by (simp add: keyset_query_def foldl_verify_step list_all_iff)
  qed
  then have "page_loop n q fst ?f ?s = Some (foldl ?f ?s rs)" by (intro page_loop_all fuel)
  then show ?thesis by (simp add: verify_chain_def foldl_verify_step)
qed

section \<open>What a verified chain is\<close>

definition chain_ok :: "(string \<Rightarrow> string) \<Rightarrow> string \<Rightarrow> string \<Rightarrow> row list \<Rightarrow> bool" where
  "chain_ok sha org origin rs \<longleftrightarrow>
     list_all (\<lambda>i. jm_get (rs ! i) ''org'' = Some (Some org) \<and> jm_get (rs ! i) ''origin'' = Some (Some origin)
        \<and> row_seq (rs ! i) = int i + 1
        \<and> jm_get (rs ! i) ''prev_hash'' = Some (if i = 0 then None else Some (row_hash sha (rs ! (i - 1)))))
       [0..<length rs]"

lemma chain_ok_Nil [simp]: "chain_ok sha org origin []"
  by (simp add: chain_ok_def)

lemma chain_ok_snoc:
  "chain_ok sha org origin (rs @ [r]) \<longleftrightarrow> chain_ok sha org origin rs \<and> \<not> foreign org origin r
     \<and> row_seq r = int (length rs) + 1
     \<and> jm_get r ''prev_hash'' = Some (if rs = [] then None else Some (row_hash sha (last rs)))"
  by (auto simp: chain_ok_def foreign_def nth_append last_conv_nth list_all_iff)

definition end_of :: "(string \<Rightarrow> string) \<Rightarrow> row list \<Rightarrow> (int \<times> string) option" where
  "end_of sha rs = (if rs = [] then None else Some (int (length rs), row_hash sha (last rs)))"

lemma link_break_end:
  "link_break (end_of sha rs) r = None \<longleftrightarrow> row_seq r = int (length rs) + 1
     \<and> jm_get r ''prev_hash'' = Some (if rs = [] then None else Some (row_hash sha (last rs)))"
  by (auto simp: link_break_def end_of_def Let_def)

lemma or_else_None: "or_else a b = None \<longleftrightarrow> a = None \<and> b = None"
  by (auto simp: or_else_def split: option.splits)

lemma fold_chain_ok:
  fixes sha org origin anchors
  defines "st \<equiv> \<lambda>rs. foldl (verify_row sha org origin) (init_verify anchors) rs"
  shows "rows (st rs) = length rs \<and> (first (st rs) = None \<longleftrightarrow> chain_ok sha org origin rs)
    \<and> (chain_ok sha org origin rs \<longrightarrow> prev (st rs) = end_of sha rs)"
proof (induction rs rule: rev_induct)
  case Nil
  then show ?case by (simp add: st_def init_verify_def end_of_def)
next
  case (snoc r rs)
  have s: "st (rs @ [r]) = verify_row sha org origin (st rs) r" by (simp add: st_def)
  show ?case
  proof (cases "chain_ok sha org origin rs \<and> \<not> foreign org origin r")
    case True
    then have p: "prev (st rs) = end_of sha rs" "first (st rs) = None" using snoc by auto
    have l: "link_break (prev (st rs)) r = None \<longleftrightarrow> chain_ok sha org origin (rs @ [r])"
      using True by (simp add: p link_break_end chain_ok_snoc)
    have "chain_ok sha org origin (rs @ [r]) \<Longrightarrow> Some (row_seq r, row_hash sha r) = end_of sha (rs @ [r])"
      by (simp add: chain_ok_snoc end_of_def)
    with True snoc p l show ?thesis by (simp add: s verify_row_def or_else_None)
  next
    case False
    then show ?thesis using snoc by (auto simp: s verify_row_def or_else_None chain_ok_snoc Let_def)
  qed
qed

text \<open>Anchored positions: what \<open>wanted\<close> holds after the rows.\<close>

lemma init_wanted: "jm_get (foldl (\<lambda>m a. jm_set (fst a) None m) m anchors) s
   = (if s \<in> fst ` set anchors then Some None else jm_get m s)"
  by (induction anchors arbitrary: m) (auto simp: jm_get_set)

lemma fold_wanted:
  fixes sha org origin anchors
  defines "st \<equiv> \<lambda>rs. foldl (verify_row sha org origin) (init_verify anchors) rs"
  assumes "chain_ok sha org origin rs"
  shows "jm_get (wanted (st rs)) s = (if s \<in> fst ` set anchors
    then Some (if 1 \<le> s \<and> s \<le> int (length rs) then Some (row_hash sha (rs ! nat (s - 1))) else None) else None)"
  using assms(2)
proof (induction rs rule: rev_induct)
  case Nil
  then show ?case by (auto simp: st_def init_verify_def init_wanted)
next
  case (snoc r rs)
  have u: "st (rs @ [r]) = verify_row sha org origin (st rs) r" by (simp add: st_def)
  from snoc.prems have ok: "chain_ok sha org origin rs" "\<not> foreign org origin r" "row_seq r = int (length rs) + 1"
    by (simp_all add: chain_ok_snoc)
  have IH: "jm_get (wanted (st rs)) s = (if s \<in> fst ` set anchors
    then Some (if 1 \<le> s \<and> s \<le> int (length rs) then Some (row_hash sha (rs ! nat (s - 1))) else None) else None)"
    by (rule snoc.IH [OF ok(1)])
  show ?case
  proof (cases "s = row_seq r")
    case True
    have "jm_has (wanted (st rs)) (row_seq r) \<longleftrightarrow> s \<in> fst ` set anchors"
      using IH True by (simp add: jm_has_def)
    then show ?thesis using IH True ok by (simp add: u verify_row_def jm_get_set)
  next
    case False
    then have g: "jm_get (wanted (st (rs @ [r]))) s = jm_get (wanted (st rs)) s"
      using ok by (simp add: u verify_row_def jm_get_set)
    have n: "1 \<le> s \<and> s \<le> int (length (rs @ [r])) \<longleftrightarrow> 1 \<le> s \<and> s \<le> int (length rs)"
      using False ok by auto
    have "1 \<le> s \<and> s \<le> int (length rs) \<Longrightarrow> (rs @ [r]) ! nat (s - 1) = rs ! nat (s - 1)"
      by (auto simp: nth_append)
    then show ?thesis unfolding g IH n by simp
  qed
qed

section \<open>Anchors\<close>

lemma anchor_step_simps:
  "found_hash st (fst a) = Some (snd a) \<Longrightarrow> anchor_step st (p, f, fs) a = (Suc p, f, fs)"
  "found_hash st (fst a) \<noteq> Some (snd a) \<Longrightarrow> \<exists>gs. anchor_step st (p, f, fs) a = (p, Suc f, gs)"
  by (simp_all add: anchor_step_def)

lemma fold_anchors:
  "foldl (anchor_step st) (p, f, fs) as = (p', f', fs') \<Longrightarrow>
     p' + f' = p + f + length as \<and> f \<le> f' \<and> (f' = f \<longleftrightarrow> list_all (\<lambda>a. found_hash st (fst a) = Some (snd a)) as)"
proof (induction as arbitrary: p f fs)
  case Nil
  then show ?case by simp
next
  case (Cons a as)
  show ?case
  proof (cases "found_hash st (fst a) = Some (snd a)")
    case True
    with Cons.prems have "foldl (anchor_step st) (Suc p, f, fs) as = (p', f', fs')"
      by (simp add: anchor_step_simps)
    from Cons.IH [OF this] True show ?thesis by auto
  next
    case False
    then obtain gs where "anchor_step st (p, f, fs) a = (p, Suc f, gs)" using anchor_step_simps(2) by blast
    with Cons.prems have "foldl (anchor_step st) (p, Suc f, gs) as = (p', f', fs')" by simp
    from Cons.IH [OF this] False show ?thesis by auto
  qed
qed

lemma finish_ok:
  "v_ok (verify_finish anchors st) \<longleftrightarrow> first st = None \<and> (\<forall>a \<in> set anchors. found_hash st (fst a) = Some (snd a))"
proof -
  obtain p f fs where e: "foldl (anchor_step st) (0, 0, []) (sort_key fst anchors) = (p, f, fs)"
    by (metis prod_cases3)
  from fold_anchors [OF this] have "f = 0 \<longleftrightarrow> (\<forall>a \<in> set anchors. found_hash st (fst a) = Some (snd a))"
    by (simp add: list_all_iff)
  then show ?thesis by (simp add: verify_finish_def e Let_def)
qed

lemma finish_clean:
  "v_clean (verify_finish anchors st) \<longleftrightarrow> v_ok (verify_finish anchors st)
     \<and> (case prev st of None \<Rightarrow> True | Some (s, _) \<Rightarrow> s \<le> foldl max 0 (map fst anchors))"
  by (auto simp: verify_finish_def Let_def split: prod.splits option.splits)

lemma foldl_max_ge: "s \<le> foldl max a xs \<longleftrightarrow> s \<le> (a::int) \<or> (\<exists>x \<in> set xs. s \<le> x)"
  by (induction xs arbitrary: a) auto

text \<open>One verification in closed form.\<close>

lemma verify_result:
  assumes "keyset_query q rs" and "length rs < n * BATCH"
  obtains res where "verify_chain n sha q org origin anchors = Some res"
    and "v_ok res \<longleftrightarrow> chain_ok sha org origin rs
      \<and> (\<forall>(s, h) \<in> set anchors. 1 \<le> s \<and> s \<le> int (length rs) \<and> row_hash sha (rs ! nat (s - 1)) = h)"
    and "v_clean res \<longleftrightarrow> v_ok res \<and> (rs \<noteq> [] \<longrightarrow> (\<exists>h. (int (length rs), h) \<in> set anchors))"
proof
  let ?st = "foldl (verify_row sha org origin) (init_verify anchors) rs"
  show "verify_chain n sha q org origin anchors = Some (verify_finish anchors ?st)"
    by (rule verify_chain_folds [OF assms])
  have c: "first ?st = None \<longleftrightarrow> chain_ok sha org origin rs" "chain_ok sha org origin rs \<Longrightarrow> prev ?st = end_of sha rs"
    using fold_chain_ok [of sha org origin anchors rs] by auto
  have w: "found_hash ?st s = Some h \<longleftrightarrow> 1 \<le> s \<and> s \<le> int (length rs) \<and> row_hash sha (rs ! nat (s - 1)) = h"
    if "chain_ok sha org origin rs" "(s, h) \<in> set anchors" for s h
    using fold_wanted [OF that(1), of anchors s] that(2) by (force simp: found_hash_def)
  show ok: "v_ok (verify_finish anchors ?st) \<longleftrightarrow> chain_ok sha org origin rs
      \<and> (\<forall>(s, h) \<in> set anchors. 1 \<le> s \<and> s \<le> int (length rs) \<and> row_hash sha (rs ! nat (s - 1)) = h)"
    unfolding finish_ok c(1) using w by fastforce
  have "(case prev ?st of None \<Rightarrow> True | Some (s, _) \<Rightarrow> s \<le> foldl max 0 (map fst anchors))
      \<longleftrightarrow> (rs \<noteq> [] \<longrightarrow> (\<exists>h. (int (length rs), h) \<in> set anchors))" if o: "v_ok (verify_finish anchors ?st)"
  proof -
    from o ok have ch: "chain_ok sha org origin rs" and le: "\<And>s h. (s, h) \<in> set anchors \<Longrightarrow> s \<le> int (length rs)" by auto
    from c(2) [OF ch] have p: "prev ?st = end_of sha rs" .
    show ?thesis
    proof (cases "rs = []")
      case False
      then have "int (length rs) \<le> foldl max 0 (map fst anchors) \<longleftrightarrow> (\<exists>a \<in> set anchors. int (length rs) \<le> fst a)"
        by (auto simp: foldl_max_ge)
      also have "\<dots> \<longleftrightarrow> (\<exists>h. (int (length rs), h) \<in> set anchors)" using le by force
      finally show ?thesis using False unfolding p by (simp add: end_of_def)
    next
      case True
      then have "end_of sha rs = None" by (simp add: end_of_def)
      then show ?thesis using True unfolding p by simp
    qed
  qed
  then show "v_clean (verify_finish anchors ?st) \<longleftrightarrow> v_ok (verify_finish anchors ?st)
      \<and> (rs \<noteq> [] \<longrightarrow> (\<exists>h. (int (length rs), h) \<in> set anchors))"
    unfolding finish_clean by blast
qed

section \<open>Tamper evidence\<close>

text \<open>Two intact chains whose hashes agree at one row have the same columns in every row up to it.\<close>

lemma chains_agree_below:
  assumes ok: "chain_ok sha org origin rs" "chain_ok sha org origin rs'"
    and inj: "inj_on sha (canonical_bytes ` (set rs \<union> set rs'))"
    and h: "k < length rs" "k < length rs'" "row_hash sha (rs ! k) = row_hash sha (rs' ! k)"
  shows "i \<le> k \<Longrightarrow> jm_get (rs ! i) = jm_get (rs' ! i)"
proof -
  have eq: "jm_get (rs ! j) = jm_get (rs' ! j)"
    if "j < length rs" "j < length rs'" "row_hash sha (rs ! j) = row_hash sha (rs' ! j)" for j
    using that inj by (intro canonical_bytes_eq) (auto simp: row_hash_def dest!: inj_onD)
  have down: "row_hash sha (rs ! (k - d)) = row_hash sha (rs' ! (k - d))" if "d \<le> k" for d
    using that
  proof (induction d)
    case 0
    then show ?case using h by simp
  next
    case (Suc d)
    define j where "j = k - d"
    from Suc have j: "0 < j" "j < length rs" "j < length rs'" "row_hash sha (rs ! j) = row_hash sha (rs' ! j)"
      using h by (auto simp: j_def)
    have "jm_get (rs ! j) ''prev_hash'' = Some (Some (row_hash sha (rs ! (j - 1))))"
      and "jm_get (rs' ! j) ''prev_hash'' = Some (Some (row_hash sha (rs' ! (j - 1))))"
      using ok j by (simp_all add: chain_ok_def list_all_iff)
    with eq [OF j(2-4)] show ?case by (simp add: j_def Suc_diff_Suc)
  qed
  assume "i \<le> k"
  with down [of "k - i"] have "row_hash sha (rs ! i) = row_hash sha (rs' ! i)" by simp
  with \<open>i \<le> k\<close> h eq show ?thesis by simp
qed

section \<open>Backfill\<close>

fun fill :: "(string \<Rightarrow> string) \<Rightarrow> (int \<times> string) option \<Rightarrow> row list \<Rightarrow> row list" where
  "fill sha p [] = []"
| "fill sha p (r # rs) = (let r' = jm_set ''prev_hash'' (map_option snd p) r in
     r' # fill sha (Some (row_seq r', row_hash sha r')) rs)"

fun fill_hashes :: "(string \<Rightarrow> string) \<Rightarrow> (int \<times> string) option \<Rightarrow> row list \<Rightarrow> string option list" where
  "fill_hashes sha p [] = []"
| "fill_hashes sha p (r # rs) = (let r' = jm_set ''prev_hash'' (map_option snd p) r in
     map_option snd p # fill_hashes sha (Some (row_seq r', row_hash sha r')) rs)"

lemma column_set_prev [simp]:
  "k \<noteq> ''prev_hash'' \<Longrightarrow> column (jm_set ''prev_hash'' h r) k = column r k"
  "row_seq (jm_set ''prev_hash'' h r) = row_seq r"
  by (simp_all add: column_def row_seq_def jm_get_set)

lemma length_fill [simp]: "length (fill sha p rs) = length rs" "length (fill_hashes sha p rs) = length rs"
  by (induction rs arbitrary: p) (simp_all add: Let_def)

lemma fill_nth:
  "i < length rs \<Longrightarrow> fill sha p rs ! i
     = jm_set ''prev_hash'' (if i = 0 then map_option snd p else Some (row_hash sha (fill sha p rs ! (i - 1)))) (rs ! i)"
proof (induction rs arbitrary: p i)
  case Nil
  then show ?case by simp
next
  case (Cons r rs)
  define r' where "r' = jm_set ''prev_hash'' (map_option snd p) r"
  have f: "fill sha p (r # rs) = r' # fill sha (Some (row_seq r', row_hash sha r')) rs"
    by (simp add: r'_def Let_def)
  show ?case
  proof (cases i)
    case 0
    show ?thesis unfolding f 0 by (simp add: r'_def)
  next
    case (Suc j)
    then have j: "j < length rs" using Cons.prems by simp
    show ?thesis unfolding f using Cons.IH [OF j, of "Some (row_seq r', row_hash sha r')"]
      by (cases j) (simp_all add: Suc)
  qed
qed

lemma fill_map2: "fill sha p rs = map2 (\<lambda>r h. jm_set ''prev_hash'' h r) rs (fill_hashes sha p rs)"
  by (induction rs arbitrary: p) (simp_all add: Let_def)

lemma apply_zip:
  "distinct (map (\<lambda>r. column r ''id'') rs) \<Longrightarrow> length hs = length rs \<Longrightarrow>
    apply_updates (zip (map (\<lambda>r. column r ''id'') rs) hs) rs = map2 (\<lambda>r h. jm_set ''prev_hash'' h r) rs hs"
proof (induction rs arbitrary: hs)
  case Nil
  then show ?case by (simp add: apply_updates_def)
next
  case (Cons r rs)
  then obtain h hs' where hs: "hs = h # hs'" by (cases hs) auto
  have "apply_updates (zip (map (\<lambda>r. column r ''id'') (r # rs)) hs) rs
      = apply_updates (zip (map (\<lambda>r. column r ''id'') rs) hs') rs"
  proof -
    have "column x ''id'' \<noteq> column r ''id''" if "x \<in> set rs" for x
    proof
      assume "column x ''id'' = column r ''id''"
      with that have "column r ''id'' \<in> (\<lambda>r. column r ''id'') ` set rs" by (metis imageI)
      with Cons.prems(1) show False by simp
    qed
    then show ?thesis by (simp add: apply_updates_def hs)
  qed
  with Cons hs show ?case by (simp add: apply_updates_def)
qed

lemma foldl_backfill:
  "foldl (backfill_row sha) (p, ups) rs
    = (if rs = [] then p else Some (row_seq (last rs), row_hash sha (last (fill sha p rs))),
       ups @ zip (map (\<lambda>r. column r ''id'') rs) (fill_hashes sha p rs))"
proof (induction rs arbitrary: p ups)
  case Nil
  then show ?case by simp
next
  case (Cons r rs)
  define r' where "r' = jm_set ''prev_hash'' (map_option snd p) r"
  have b: "backfill_row sha (p, ups) r = (Some (row_seq r', row_hash sha r'), ups @ [(column r ''id'', map_option snd p)])"
    by (simp add: backfill_row_def r'_def Let_def)
  have "fill sha q rs = [] \<longleftrightarrow> rs = []" for q by (metis length_fill(1) length_0_conv)
  then show ?case by (simp add: b Cons r'_def [symmetric] Let_def) (simp add: r'_def)
qed

lemma backfill_all:
  assumes q: "seq_query q rs" and fuel: "length rs < n * BATCH"
  shows "backfill_org n q sha = Some (zip (map (\<lambda>r. column r ''id'') rs) (fill_hashes sha None rs))"
proof -
  let ?cur = "\<lambda>acc. case fst acc of Some (s, _) \<Rightarrow> s | None \<Rightarrow> (0::int)"
  have "q (?cur (foldl (backfill_row sha) (None, []) (take i rs))) = take BATCH (drop i rs)" if i: "i \<le> length rs" for i
  proof (cases i)
    case 0
    then show ?thesis using q by (simp add: seq_query_def)
  next
    case (Suc k)
    with i have k: "k < length rs" by simp
    then have "last (take i rs) = rs ! k" "take i rs \<noteq> []" by (auto simp: Suc take_Suc_conv_app_nth)
    then show ?thesis using q k Suc by (simp add: seq_query_def foldl_backfill list_all_iff)
  qed
  then have "page_loop n q ?cur (backfill_row sha) (None, []) = Some (foldl (backfill_row sha) (None, []) rs)"
    by (intro page_loop_all fuel)
  then show ?thesis by (simp add: backfill_org_def foldl_backfill)
qed

section \<open>Properties\<close>

text \<open>Concrete tables for the instances.\<close>

definition example_row :: "string \<Rightarrow> string \<Rightarrow> string \<Rightarrow> string option \<Rightarrow> row" where
  "example_row org i s h =
     [(''id'', Some i), (''org'', Some org), (''origin'', Some ''p''), (''seq'', Some s), (''prev_hash'', h)]"

definition example_rows :: "row list" where
  "example_rows = [example_row ''o'' ''x'' ''1'' None, example_row ''o'' ''y'' ''2'' (Some ''h'')]"

definition example_query :: "cursor \<Rightarrow> row list" where
  "example_query c = (if c = first_cursor then example_rows else if c = cursor_of (hd example_rows) then tl example_rows else [])"

lemmas chain_eval = example_rows_def example_row_def example_query_def cursor_of_def column_def first_cursor_def BATCH_def
  row_seq_def number_of_def parse_dec_def foreign_def

text \<open>C7: verification is exact. Over a table of any length, with enough batches, it reports \<open>ok\<close> exactly when
  every row belongs to the organisation and origin, the sequence is 1, 2, 3, ... without a gap, every \<open>prev_hash\<close> is the
  hash of the row before, and every anchor names a row with that hash; \<open>clean\<close> asks besides that the last row is anchored.\<close>

theorem chain_verification_exact:
  assumes "keyset_query q rs" and "length rs < fuel * 1000"
  shows "\<exists>res. verify_chain fuel sha q org origin anchors = Some res
    \<and> (v_ok res \<longleftrightarrow> chain_ok sha org origin rs
      \<and> (\<forall>(s, h) \<in> set anchors. 1 \<le> s \<and> s \<le> int (length rs) \<and> row_hash sha (rs ! nat (s - 1)) = h))
    \<and> (v_clean res \<longleftrightarrow> v_ok res \<and> (rs \<noteq> [] \<longrightarrow> (\<exists>h. (int (length rs), h) \<in> set anchors)))"
proof -
  have "length rs < fuel * BATCH" using assms(2) by (simp add: BATCH_def)
  from assms(1) this obtain res where r: "verify_chain fuel sha q org origin anchors = Some res"
    "v_ok res \<longleftrightarrow> chain_ok sha org origin rs
      \<and> (\<forall>(s, h) \<in> set anchors. 1 \<le> s \<and> s \<le> int (length rs) \<and> row_hash sha (rs ! nat (s - 1)) = h)"
    "v_clean res \<longleftrightarrow> v_ok res \<and> (rs \<noteq> [] \<longrightarrow> (\<exists>h. (int (length rs), h) \<in> set anchors))"
    by (rule verify_result)
  show ?thesis by (rule exI [of _ res], intro conjI) (rule r)+
qed

theorem chain_verification_exact_witness:
  "\<exists>res. verify_chain 1 (\<lambda>_. ''h'') example_query ''o'' ''p'' [(2, ''h'')] = Some res
    \<and> (v_ok res \<longleftrightarrow> chain_ok (\<lambda>_. ''h'') ''o'' ''p'' example_rows
      \<and> (\<forall>(s, h) \<in> set [(2, ''h'')]. 1 \<le> s \<and> s \<le> int (length example_rows) \<and> row_hash (\<lambda>_. ''h'') (example_rows ! nat (s - 1)) = h))
    \<and> (v_clean res \<longleftrightarrow> v_ok res \<and> (example_rows \<noteq> [] \<longrightarrow> (\<exists>h. (int (length example_rows), h) \<in> set [(2, ''h'')])))"
  by (rule chain_verification_exact) (simp_all add: keyset_query_def chain_eval)

lemma clean_facts:
  assumes "keyset_query q rs" and "length rs < n * 1000"
    and "verify_chain n sha q org origin anchors = Some res" and "v_clean res"
  shows "chain_ok sha org origin rs" and "rs \<noteq> [] \<Longrightarrow> \<exists>h. (int (length rs), h) \<in> set anchors"
    and "(s, h) \<in> set anchors \<Longrightarrow> 1 \<le> s \<and> s \<le> int (length rs) \<and> row_hash sha (rs ! nat (s - 1)) = h"
proof -
  have "length rs < n * BATCH" using assms(2) by (simp add: BATCH_def)
  with assms(1) obtain res' where r: "verify_chain n sha q org origin anchors = Some res'"
    "v_ok res' \<longleftrightarrow> chain_ok sha org origin rs
      \<and> (\<forall>(s, h) \<in> set anchors. 1 \<le> s \<and> s \<le> int (length rs) \<and> row_hash sha (rs ! nat (s - 1)) = h)"
    "v_clean res' \<longleftrightarrow> v_ok res' \<and> (rs \<noteq> [] \<longrightarrow> (\<exists>h. (int (length rs), h) \<in> set anchors))"
    by (rule verify_result)
  from r(1) assms(3) have "res' = res" by simp
  with r assms(4) show "chain_ok sha org origin rs" and "rs \<noteq> [] \<Longrightarrow> \<exists>h. (int (length rs), h) \<in> set anchors"
    and "(s, h) \<in> set anchors \<Longrightarrow> 1 \<le> s \<and> s \<le> int (length rs) \<and> row_hash sha (rs ! nat (s - 1)) = h"
    by auto
qed

text \<open>C6: the chain is tamper evident. If two snapshots both verify clean against the same anchors and the digest does not
  collide on their rows, they have the same rows: as many, and equal in every column.\<close>

theorem chain_tamper_evident:
  assumes "keyset_query q rs" and "keyset_query q' rs'" and "length rs < n * 1000" and "length rs' < n' * 1000"
    and "verify_chain n sha q org origin anchors = Some res" and "v_clean res"
    and "verify_chain n' sha q' org origin anchors = Some res'" and "v_clean res'"
    and "inj_on sha (canonical_bytes ` (set rs \<union> set rs'))"
  shows "length rs = length rs' \<and> (\<forall>i < length rs. jm_get (rs ! i) = jm_get (rs' ! i))"
proof -
  note r = clean_facts [OF assms(1,3,5,6)] and r' = clean_facts [OF assms(2,4,7,8)]
  have len: "length rs = length rs'"
  proof (rule antisym)
    show "length rs \<le> length rs'" using r(2) r'(3) by (cases "rs = []") force+
    show "length rs' \<le> length rs" using r'(2) r(3) by (cases "rs' = []") force+
  qed
  show ?thesis
  proof (cases "rs = []")
    case False
    define k where "k = length rs - 1"
    from False have "0 < length rs" by simp
    then have k: "k < length rs" "k < length rs'" unfolding k_def len by linarith+
    from r(2) [OF False] obtain h where h: "(int (length rs), h) \<in> set anchors" by blast
    have "nat (int (length rs) - 1) = k" using False by (cases rs) (simp_all add: k_def)
    with r(3) [OF h] r'(3) [OF h] have "row_hash sha (rs ! k) = row_hash sha (rs' ! k)" by simp
    from chains_agree_below [OF r(1) r'(1) assms(9) k this] len k show ?thesis by (auto simp: k_def)
  qed (use len in simp)
qed

theorem chain_tamper_evident_witness:
  "\<exists>sha res. verify_chain 1 sha example_query ''o'' ''p'' [(2, ''k'')] = Some res \<and> v_clean res
    \<and> inj_on sha (canonical_bytes ` (set example_rows \<union> set example_rows)) \<and> jm_get (example_rows ! 1) = jm_get (example_rows ! 1)"
proof -
  have q: "keyset_query example_query example_rows" by (simp add: keyset_query_def chain_eval)
  have l: "length example_rows < 1 * 1000" by (simp add: chain_eval)
  define sha :: "string \<Rightarrow> string" where "sha = (\<lambda>x. if x = canonical_bytes (hd example_rows) then ''h'' else ''k'')"
  have ne: "canonical_bytes (example_rows ! 0) \<noteq> canonical_bytes (example_rows ! 1)"
  proof
    assume "canonical_bytes (example_rows ! 0) = canonical_bytes (example_rows ! 1)"
    then have "jm_get (example_rows ! 0) ''seq'' = jm_get (example_rows ! 1) ''seq''" by (rule fun_cong [OF canonical_bytes_eq])
    then show False by (simp add: chain_eval)
  qed
  then have h: "row_hash sha (example_rows ! 0) = ''h''" "row_hash sha (example_rows ! 1) = ''k''"
    by (auto simp: row_hash_def sha_def example_rows_def)
  have len: "length example_rows = 2" by (simp add: chain_eval)
  have ok: "chain_ok sha ''o'' ''p'' example_rows"
    using h by (simp add: chain_ok_def len upt_rec) (simp add: chain_eval)
  have b: "length example_rows < 1 * BATCH" by (simp add: chain_eval)
  from q b obtain res where res: "verify_chain 1 sha example_query ''o'' ''p'' [(2, ''k'')] = Some res"
    and r: "v_ok res \<longleftrightarrow> chain_ok sha ''o'' ''p'' example_rows \<and> (\<forall>(s, g) \<in> set [(2, ''k'')]. 1 \<le> s
        \<and> s \<le> int (length example_rows) \<and> row_hash sha (example_rows ! nat (s - 1)) = g)"
      "v_clean res \<longleftrightarrow> v_ok res \<and> (example_rows \<noteq> [] \<longrightarrow> (\<exists>h. (int (length example_rows), h) \<in> set [(2, ''k'')]))"
    by (rule verify_result)
  then have c: "v_clean res" using ok h len by simp
  have i: "inj_on sha (canonical_bytes ` (set example_rows \<union> set example_rows))"
    using ne by (auto simp: inj_on_def sha_def example_rows_def)
  have "1 < length example_rows" by (simp add: len)
  with chain_tamper_evident [OF q q l l res c res c i] have "jm_get (example_rows ! 1) = jm_get (example_rows ! 1)" by blast
  with res c i show ?thesis by blast
qed

text \<open>the migration's backfill builds an intact chain: applied to one organisation's rows, numbered from 1 with distinct
  ids and whatever \<open>prev_hash\<close> they carried, its updates make every row link to the one before.\<close>

theorem backfill_builds_chain:
  assumes "seq_query q rs" and "length rs < fuel * 1000" and "distinct (map (\<lambda>r. column r ''id'') rs)"
    and "\<And>i. i < length rs \<Longrightarrow> row_seq (rs ! i) = int i + 1 \<and> \<not> foreign org origin (rs ! i)"
  shows "\<exists>ups. backfill_org fuel q sha = Some ups \<and> chain_ok sha org origin (apply_updates ups rs)"
proof -
  have f: "length rs < fuel * BATCH" using assms(2) by (simp add: BATCH_def)
  have a: "apply_updates (zip (map (\<lambda>r. column r ''id'') rs) (fill_hashes sha None rs)) rs = fill sha None rs"
    using apply_zip [OF assms(3), of "fill_hashes sha None rs"] by (simp add: fill_map2)
  have "chain_ok sha org origin (fill sha None rs)"
    unfolding chain_ok_def list_all_iff
  proof
    fix i assume "i \<in> set [0..<length (fill sha None rs)]"
    then have i: "i < length rs" by simp
    from fill_nth [OF i, of sha None] assms(4) [OF i]
    show "jm_get (fill sha None rs ! i) ''org'' = Some (Some org) \<and> jm_get (fill sha None rs ! i) ''origin'' = Some (Some origin)
        \<and> row_seq (fill sha None rs ! i) = int i + 1
        \<and> jm_get (fill sha None rs ! i) ''prev_hash'' = Some (if i = 0 then None else Some (row_hash sha (fill sha None rs ! (i - 1))))"
      by (simp add: jm_get_set foreign_def)
  qed
  with a backfill_all [OF assms(1) f] show ?thesis by auto
qed

theorem backfill_builds_chain_witness:
  "\<exists>ups. backfill_org 1 (\<lambda>s. if s = (0::int) then [example_row ''o'' ''x'' ''1'' (Some ''old'')] else []) (\<lambda>_. ''h'') = Some ups
    \<and> chain_ok (\<lambda>_. ''h'') ''o'' ''p'' (apply_updates ups [example_row ''o'' ''x'' ''1'' (Some ''old'')])"
  by (rule backfill_builds_chain) (simp_all add: seq_query_def chain_eval)

end
