(* ===== verification/Delivery.thy ===== *)
theory Delivery imports Prelude begin

text \<open>
  \<^verbatim>\<open>src/src/lifecycle/delivery-scheduler.ts\<close> (coalescing of lifecycle deliveries per target, and the chain that
  serialises the dispatches of a target) and \<^verbatim>\<open>src/src/repeat-guard.ts\<close> (the breaker for identical code).
  A dispatch is an operation numbered in dispatch order; the microtasks that start it, settle it and run its
  \<open>finally\<close> callback are events. The dispatcher itself is outside the model: it settles an operation with or without an error.
\<close>

section \<open>The scheduler\<close>

datatype mode = Steer | FollowUp

record 'e pending =
  delivery :: mode
  event :: 'e

text \<open>Life of an operation: waiting for the previous one of its target, in \<open>deliver\<close>, resolved, and resolved
  with its \<open>finally\<close> callback run.\<close>

datatype phase = Queued | Running | Settled | Finalized

record 'e op =
  op_target :: string
  op_batch :: "'e pending list"
  op_previous :: "nat option"
  op_phase :: phase

text \<open>The two promises of operation \<open>n\<close>: the async function's own and the one \<open>finally\<close> returns.\<close>

datatype promise = Operation nat | FinallyOf nat

record 'e scheduler =
  closed :: bool
  buffers :: "(string, 'e pending list) jmap"
  timers :: "string list"
  in_flight :: "(string, promise) jmap"
  ops :: "'e op list"
  calls :: "nat list"
  errors :: "nat list"

definition new_scheduler :: "'e scheduler" where
  "new_scheduler = \<lparr>closed = False, buffers = [], timers = [], in_flight = [], ops = [], calls = [], errors = []\<rparr>"

fun promise_op :: "promise \<Rightarrow> nat" where
  "promise_op (Operation n) = n"
| "promise_op (FinallyOf n) = n"

definition dispatch :: "string \<Rightarrow> 'e pending list \<Rightarrow> 'e scheduler \<Rightarrow> 'e scheduler" where
  "dispatch t batch s =
     s\<lparr>ops := ops s @ [\<lparr>op_target = t, op_batch = batch, op_previous = map_option promise_op (jm_get (in_flight s) t), op_phase = Queued\<rparr>],
       in_flight := jm_set t (FinallyOf (length (ops s))) (in_flight s)\<rparr>"

definition schedule :: "string \<Rightarrow> 'e pending \<Rightarrow> 'e scheduler \<Rightarrow> 'e scheduler" where
  "schedule t d s =
     (if closed s then s
      else if delivery d = Steer then dispatch t [d] s
      else (let s1 = s\<lparr>buffers := (case jm_get (buffers s) t of Some b \<Rightarrow> jm_set t (b @ [d]) (buffers s)
                                     | None \<Rightarrow> jm_set t [d] (buffers s))\<rparr> in
            if t \<in> set (timers s1) then s1 else s1\<lparr>timers := timers s1 @ [t]\<rparr>))"

definition flush :: "string \<Rightarrow> 'e scheduler \<Rightarrow> 'e scheduler" where
  "flush t s =
     (let s1 = s\<lparr>timers := filter (\<lambda>x. x \<noteq> t) (timers s)\<rparr> in
      case jm_get (buffers s1) t of
        None \<Rightarrow> s1
      | Some b \<Rightarrow> if b = [] then s1 else dispatch t b (s1\<lparr>buffers := jm_del t (buffers s1)\<rparr>))"

definition flush_all :: "'e scheduler \<Rightarrow> 'e scheduler" where
  "flush_all s = (let s1 = s\<lparr>timers := []\<rparr> in foldl (\<lambda>s t. flush t s) s1 (jm_keys (buffers s1)))"

definition dispose :: "'e scheduler \<Rightarrow> 'e scheduler" where
  "dispose s = s\<lparr>closed := True, timers := [], buffers := []\<rparr>"

definition set_phase :: "nat \<Rightarrow> phase \<Rightarrow> 'e scheduler \<Rightarrow> 'e scheduler" where
  "set_phase n p s = s\<lparr>ops := (ops s)[n := (ops s ! n)\<lparr>op_phase := p\<rparr>]\<rparr>"

text \<open>\<open>await previous?.catch(...)\<close> is over once the previous operation's \<open>finally\<close> promise settled; then \<open>deliver\<close> is called.\<close>

definition op_start :: "nat \<Rightarrow> 'e scheduler \<Rightarrow> 'e scheduler" where
  "op_start n s =
     (if n < length (ops s) \<and> op_phase (ops s ! n) = Queued
         \<and> (case op_previous (ops s ! n) of None \<Rightarrow> True | Some j \<Rightarrow> op_phase (ops s ! j) = Finalized)
      then (set_phase n Running s)\<lparr>calls := calls s @ [n]\<rparr> else s)"

definition op_settle :: "nat \<Rightarrow> bool \<Rightarrow> 'e scheduler \<Rightarrow> 'e scheduler" where
  "op_settle n failed s =
     (if n < length (ops s) \<and> op_phase (ops s ! n) = Running
      then (set_phase n Settled s)\<lparr>errors := errors s @ (if failed then [n] else [])\<rparr> else s)"

definition op_finally :: "nat \<Rightarrow> 'e scheduler \<Rightarrow> 'e scheduler" where
  "op_finally n s =
     (if n < length (ops s) \<and> op_phase (ops s ! n) = Settled
      then (let s1 = set_phase n Finalized s; t = op_target (ops s ! n) in
            if jm_get (in_flight s1) t = Some (Operation n) then s1\<lparr>in_flight := jm_del t (in_flight s1)\<rparr> else s1)
      else s)"

datatype 'e sched_event =
    Schedule string "'e pending"
  | Flush string
  | FlushAll
  | Dispose
  | Start nat
  | Settle nat bool
  | FinallyCallback nat

definition sched_step :: "'e scheduler \<Rightarrow> 'e sched_event \<Rightarrow> 'e scheduler" where
  "sched_step s e = (case e of
     Schedule t d \<Rightarrow> schedule t d s | Flush t \<Rightarrow> flush t s | FlushAll \<Rightarrow> flush_all s | Dispose \<Rightarrow> dispose s
   | Start n \<Rightarrow> op_start n s | Settle n failed \<Rightarrow> op_settle n failed s | FinallyCallback n \<Rightarrow> op_finally n s)"

section \<open>The chain of a target\<close>

text \<open>The operations before \<open>n\<close> that go to \<open>t\<close>.\<close>

definition ops_of :: "'e op list \<Rightarrow> string \<Rightarrow> nat \<Rightarrow> nat list" where
  "ops_of os t n = filter (\<lambda>j. op_target (os ! j) = t) [0..<n]"

definition chained_parts :: "'e op list \<Rightarrow> (string, promise) jmap \<Rightarrow> nat list \<Rightarrow> bool" where
  "chained_parts os fl cs \<longleftrightarrow>
     (\<forall>t. jm_get fl t = map_option FinallyOf (last_opt (ops_of os t (length os))))
     \<and> (\<forall>k < length os. op_previous (os ! k) = last_opt (ops_of os (op_target (os ! k)) k))
     \<and> (\<forall>k < length os. \<forall>j. op_phase (os ! k) \<noteq> Queued \<longrightarrow> op_previous (os ! k) = Some j \<longrightarrow> op_phase (os ! j) = Finalized)
     \<and> (\<forall>k. k \<in> set cs \<longleftrightarrow> k < length os \<and> op_phase (os ! k) \<noteq> Queued)
     \<and> (\<forall>t. sorted_wrt (<) (filter (\<lambda>k. op_target (os ! k) = t) cs))"

definition chained :: "'e scheduler \<Rightarrow> bool" where
  "chained s \<longleftrightarrow> chained_parts (ops s) (in_flight s) (calls s)"

lemma chained_parts_D:
  assumes "chained_parts os fl cs"
  shows "jm_get fl t = map_option FinallyOf (last_opt (ops_of os t (length os)))"
    and "k < length os \<Longrightarrow> op_previous (os ! k) = last_opt (ops_of os (op_target (os ! k)) k)"
    and "k < length os \<Longrightarrow> op_phase (os ! k) \<noteq> Queued \<Longrightarrow> op_previous (os ! k) = Some j \<Longrightarrow> op_phase (os ! j) = Finalized"
    and "k \<in> set cs \<longleftrightarrow> k < length os \<and> op_phase (os ! k) \<noteq> Queued"
    and "sorted_wrt (<) (filter (\<lambda>k. op_target (os ! k) = t) cs)"
  using assms unfolding chained_parts_def by blast+

lemma ops_of_Suc: "ops_of os t (Suc n) = ops_of os t n @ (if op_target (os ! n) = t then [n] else [])"
  by (simp add: ops_of_def)

lemma ops_of_append: "n \<le> length os \<Longrightarrow> ops_of (os @ xs) t n = ops_of os t n"
  unfolding ops_of_def by (rule filter_cong) (auto simp: nth_append)

lemma last_ops_of: "last_opt (ops_of os t n) = Some j \<longleftrightarrow> j < n \<and> op_target (os ! j) = t \<and> (\<forall>i. j < i \<and> i < n \<longrightarrow> op_target (os ! i) \<noteq> t)"
proof (induction n)
  case 0
  then show ?case by (simp add: ops_of_def)
next
  case (Suc n)
  then show ?case by (cases "op_target (os ! n) = t") (auto simp: ops_of_Suc less_Suc_eq)
qed

lemma last_ops_of_None: "last_opt (ops_of os t n) = None \<longleftrightarrow> (\<forall>i < n. op_target (os ! i) \<noteq> t)"
  by (auto simp: ops_of_def last_opt_def filter_empty_conv split: if_splits)

lemma previous_less:
  "chained_parts os fl cs \<Longrightarrow> k < length os \<Longrightarrow> op_previous (os ! k) = Some j \<Longrightarrow> j < k"
  by (metis chained_parts_D(2) last_ops_of)

text \<open>An operation that left its queue has every earlier operation of its target finalized.\<close>

lemma chained_earlier:
  assumes c: "chained_parts os fl cs" and "k < length os" and "op_phase (os ! k) \<noteq> Queued"
    and "j < k" and "op_target (os ! j) = op_target (os ! k)"
  shows "op_phase (os ! j) = Finalized"
  using assms(2-)
proof (induction k rule: less_induct)
  case (less k)
  let ?t = "op_target (os ! k)"
  obtain i where i: "last_opt (ops_of os ?t k) = Some i"
    using less.prems last_ops_of_None [of os ?t k] by (cases "last_opt (ops_of os ?t k)") auto
  then have il: "i < k" "op_target (os ! i) = ?t" "\<forall>m. i < m \<and> m < k \<longrightarrow> op_target (os ! m) \<noteq> ?t"
    by (simp_all add: last_ops_of)
  have p: "op_previous (os ! k) = Some i" using chained_parts_D(2) [OF c less.prems(1)] i by simp
  have f: "op_phase (os ! i) = Finalized" by (rule chained_parts_D(3) [OF c less.prems(1,2) p])
  show ?case
  proof (cases "j = i")
    case False
    with il less.prems have "j < i" by (metis linorder_neqE_nat)
    with less.IH [of i] il f less.prems show ?thesis by simp
  qed (simp add: f)
qed

lemma chained_new: "chained new_scheduler"
  by (simp add: chained_def chained_parts_def new_scheduler_def ops_of_def)

lemma chained_dispatch:
  assumes "chained s"
  shows "chained (dispatch t b s)"
proof -
  let ?n = "length (ops s)"
  define o1 where "o1 = \<lparr>op_target = t, op_batch = b, op_previous = map_option promise_op (jm_get (in_flight s) t), op_phase = Queued\<rparr>"
  define os where "os = ops s @ [o1]"
  note c = chained_parts_D [OF assms [unfolded chained_def]]
  have less: "os ! j = ops s ! j" if "j < ?n" for j using that by (simp add: os_def nth_append)
  have new: "os ! ?n = o1" by (simp add: os_def)
  have oo: "k \<le> ?n \<Longrightarrow> ops_of os u k = ops_of (ops s) u k" for k u by (simp add: os_def ops_of_append)
  have p: "map_option promise_op (jm_get (in_flight s) t) = last_opt (ops_of (ops s) t ?n)"
    by (simp add: c(1) option.map_comp comp_def option.map_ident)
  have "chained_parts os (jm_set t (FinallyOf ?n) (in_flight s)) (calls s)"
    unfolding chained_parts_def
  proof (intro conjI allI impI)
    fix u show "jm_get (jm_set t (FinallyOf ?n) (in_flight s)) u = map_option FinallyOf (last_opt (ops_of os u (length os)))"
      by (simp add: os_def ops_of_Suc ops_of_append jm_get_set c(1) o1_def)
  next
    fix k assume "k < length os"
    then show "op_previous (os ! k) = last_opt (ops_of os (op_target (os ! k)) k)"
      using c(2) [of k] p by (cases "k < ?n") (auto simp: less oo os_def nth_append o1_def ops_of_append less_Suc_eq)
  next
    fix k j assume "k < length os" "op_phase (os ! k) \<noteq> Queued" "op_previous (os ! k) = Some j"
    then have k: "k < ?n" by (cases "k = ?n") (auto simp: new o1_def os_def)
    with previous_less [OF assms [unfolded chained_def] k] \<open>op_previous (os ! k) = Some j\<close> have "j < k"
      by (simp add: less)
    then show "op_phase (os ! j) = Finalized"
      using c(3) [of k j] k \<open>op_phase (os ! k) \<noteq> Queued\<close> \<open>op_previous (os ! k) = Some j\<close> by (simp add: less)
  next
    fix k show "k \<in> set (calls s) \<longleftrightarrow> k < length os \<and> op_phase (os ! k) \<noteq> Queued"
      using c(4) [of k] less [of k] new by (cases "k < ?n"; cases "k = ?n") (auto simp: o1_def os_def)
  next
    fix u
    have "filter (\<lambda>k. op_target (os ! k) = u) (calls s) = filter (\<lambda>k. op_target (ops s ! k) = u) (calls s)"
      using c(4) less by (intro filter_cong) auto
    then show "sorted_wrt (<) (filter (\<lambda>k. op_target (os ! k) = u) (calls s))" using c(5) [of u] by simp
  qed
  then show ?thesis by (simp add: chained_def dispatch_def os_def o1_def)
qed

text \<open>A phase change of one operation.\<close>

lemma op_fields_update [simp]:
  "n < length os \<Longrightarrow> op_target (os[n := (os ! n)\<lparr>op_phase := p\<rparr>] ! k) = op_target (os ! k)"
  "n < length os \<Longrightarrow> op_previous (os[n := (os ! n)\<lparr>op_phase := p\<rparr>] ! k) = op_previous (os ! k)"
  "n < length os \<Longrightarrow> op_batch (os[n := (os ! n)\<lparr>op_phase := p\<rparr>] ! k) = op_batch (os ! k)"
  "n < length os \<Longrightarrow> op_phase (os[n := (os ! n)\<lparr>op_phase := p\<rparr>] ! k) = (if k = n then p else op_phase (os ! k))"
  by (cases "k = n", simp_all)+

lemma ops_of_update [simp]: "n < length os \<Longrightarrow> ops_of (os[n := (os ! n)\<lparr>op_phase := p\<rparr>]) t k = ops_of os t k"
  by (simp add: ops_of_def)

lemma chained_update:
  assumes c: "chained_parts os fl cs" and n: "n < length os"
    and ready: "op_phase (os ! n) = Queued \<Longrightarrow> \<forall>j. op_previous (os ! n) = Some j \<longrightarrow> op_phase (os ! j) = Finalized"
    and p: "p \<noteq> Queued" and final: "op_phase (os ! n) \<noteq> Finalized"
    and cs: "cs' = (if op_phase (os ! n) = Queued then cs @ [n] else cs)"
  shows "chained_parts (os[n := (os ! n)\<lparr>op_phase := p\<rparr>]) fl cs'"
proof -
  note d = chained_parts_D [OF c]
  let ?os = "os[n := (os ! n)\<lparr>op_phase := p\<rparr>]"
  show ?thesis
    unfolding chained_parts_def
  proof (intro conjI allI impI)
    fix u show "jm_get fl u = map_option FinallyOf (last_opt (ops_of ?os u (length ?os)))"
      using n d(1) by simp
  next
    fix k assume "k < length ?os"
    then show "op_previous (?os ! k) = last_opt (ops_of ?os (op_target (?os ! k)) k)"
      using n d(2) [of k] by simp
  next
    fix k j assume h: "k < length ?os" "op_phase (?os ! k) \<noteq> Queued" "op_previous (?os ! k) = Some j"
    have "op_phase (os ! j) = Finalized"
    proof (cases "k = n \<and> op_phase (os ! n) = Queued")
      case True
      with ready h n show ?thesis by simp
    next
      case False
      with h n d(3) [of k j] show ?thesis by (auto split: if_splits)
    qed
    then show "op_phase (?os ! j) = Finalized" using n final by auto
  next
    fix k show "k \<in> set cs' \<longleftrightarrow> k < length ?os \<and> op_phase (?os ! k) \<noteq> Queued"
      using n p cs d(4) [of k] by auto
  next
    fix u
    have old: "sorted_wrt (<) (filter (\<lambda>k. op_target (os ! k) = u) cs)" by (rule d(5))
    have "j < n" if "op_phase (os ! n) = Queued" "j \<in> set cs" "op_target (os ! j) = op_target (os ! n)" for j
    proof (rule ccontr)
      assume "\<not> j < n"
      moreover from that d(4) have j: "j < length os" "op_phase (os ! j) \<noteq> Queued" by auto
      ultimately have "n < j" using that(1) by (metis linorder_neqE_nat)
      from chained_earlier [OF c j this] that show False by simp
    qed
    then show "sorted_wrt (<) (filter (\<lambda>k. op_target (?os ! k) = u) cs')"
      using n old cs by (auto simp: sorted_wrt_append)
  qed
qed

lemma chained_start: "chained s \<Longrightarrow> chained (op_start n s)"
  using chained_update [of "ops s" "in_flight s" "calls s" n Running]
  by (auto simp: op_start_def set_phase_def chained_def split: option.splits)

lemma chained_settle: "chained s \<Longrightarrow> chained (op_settle n failed s)"
  using chained_update [of "ops s" "in_flight s" "calls s" n Settled]
  by (auto simp: op_settle_def set_phase_def chained_def)

text \<open>The map holds the promise of \<open>finally\<close>, never the operation itself, so the clean-up test is always false.\<close>

lemma chained_finally: "chained s \<Longrightarrow> chained (op_finally n s) \<and> in_flight (op_finally n s) = in_flight s"
proof -
  assume c: "chained s"
  have "jm_get (in_flight s) t \<noteq> Some (Operation n)" for t
    using chained_parts_D(1) [OF c [unfolded chained_def], of t] by auto
  then show ?thesis using c chained_update [of "ops s" "in_flight s" "calls s" n Finalized]
    by (auto simp: op_finally_def set_phase_def chained_def Let_def)
qed

lemma chained_flush: "chained s \<Longrightarrow> chained (flush t s)"
proof -
  assume "chained s"
  then have "chained (s\<lparr>timers := ts, buffers := bs\<rparr>)" "chained (s\<lparr>timers := ts\<rparr>)" for ts bs
    by (simp_all add: chained_def)
  then show ?thesis by (auto simp: flush_def Let_def chained_dispatch split: option.splits)
qed

lemma chained_schedule: "chained s \<Longrightarrow> chained (schedule t d s)"
proof -
  assume c: "chained s"
  then have "chained (s\<lparr>buffers := bs, timers := ts\<rparr>)" "chained (s\<lparr>buffers := bs\<rparr>)" for ts bs
    by (simp_all add: chained_def)
  then show ?thesis using c by (auto simp: schedule_def Let_def chained_dispatch)
qed

lemma chained_flush_all: "chained s \<Longrightarrow> chained (flush_all s)"
  unfolding flush_all_def Let_def
  by (rule foldl_inv) (simp_all add: chained_flush, simp add: chained_def)

lemma chained_dispose: "chained s \<Longrightarrow> chained (dispose s)"
  by (simp add: chained_def dispose_def)

interpretation sched: machine_invariant sched_step chained
  by unfold_locales
    (auto simp: sched_step_def chained_schedule chained_flush chained_flush_all chained_dispose chained_start
      chained_settle chained_finally split: sched_event.splits)

section \<open>No delivery is lost, repeated or overtaken\<close>

definition follow_ups :: "'e pending list \<Rightarrow> 'e pending list" where
  "follow_ups ds = filter (\<lambda>d. delivery d = FollowUp) ds"

definition dispatched :: "string \<Rightarrow> 'e scheduler \<Rightarrow> 'e pending list" where
  "dispatched t s = concat (map op_batch (filter (\<lambda>p. op_target p = t) (ops s)))"

definition buffered :: "string \<Rightarrow> 'e scheduler \<Rightarrow> 'e pending list" where
  "buffered t s = (case jm_get (buffers s) t of Some b \<Rightarrow> b | None \<Rightarrow> [])"

text \<open>The deliveries of a target in the order they entered: the dispatched ones, then the buffer.\<close>

definition line :: "string \<Rightarrow> 'e scheduler \<Rightarrow> 'e pending list" where
  "line t s = follow_ups (dispatched t s) @ buffered t s"

definition batches_ok :: "'e scheduler \<Rightarrow> bool" where
  "batches_ok s \<longleftrightarrow> (\<forall>t b. jm_get (buffers s) t = Some b \<longrightarrow> b \<noteq> [] \<and> follow_ups b = b)"

definition waiting_ok :: "'e scheduler \<Rightarrow> bool" where
  "waiting_ok s \<longleftrightarrow> batches_ok s \<and> (\<forall>t. t \<in> set (timers s) \<longleftrightarrow> jm_get (buffers s) t \<noteq> None)"

lemma follow_ups_Nil [simp]: "follow_ups [] = []"
  by (simp add: follow_ups_def)

lemma follow_ups_append: "follow_ups (xs @ ys) = follow_ups xs @ follow_ups ys"
  by (simp add: follow_ups_def)

lemma dispatched_dispatch: "dispatched u (dispatch t b s) = dispatched u s @ (if u = t then b else [])"
  by (simp add: dispatched_def dispatch_def)

lemma dispatch_frame [simp]:
  "buffers (dispatch t b s) = buffers s" "timers (dispatch t b s) = timers s" "closed (dispatch t b s) = closed s"
  by (simp_all add: dispatch_def)

lemma dispatched_buffers [simp]: "dispatched u (s\<lparr>buffers := bs\<rparr>) = dispatched u s" "dispatched u (s\<lparr>timers := ts\<rparr>) = dispatched u s"
  by (simp_all add: dispatched_def)

lemma flush_effect:
  assumes "batches_ok s"
  shows "jm_get (buffers (flush t s)) u = (if u = t then None else jm_get (buffers s) u)"
    and "timers (flush t s) = filter (\<lambda>x. x \<noteq> t) (timers s)"
    and "line u (flush t s) = line u s"
    and "closed (flush t s) = closed s"
  using assms
  by (auto simp: flush_def Let_def batches_ok_def line_def buffered_def dispatched_dispatch follow_ups_append jm_get_del
      split: option.splits)

lemma flush_ok: "batches_ok s \<Longrightarrow> batches_ok (flush t s)"
  unfolding batches_ok_def [of "flush t s"] by (simp add: flush_effect) (simp add: batches_ok_def)

lemma flush_list:
  "batches_ok s \<Longrightarrow> batches_ok (foldl (\<lambda>s t. flush t s) s ts) \<and> line u (foldl (\<lambda>s t. flush t s) s ts) = line u s
     \<and> jm_get (buffers (foldl (\<lambda>s t. flush t s) s ts)) u = (if u \<in> set ts then None else jm_get (buffers s) u)
     \<and> timers (foldl (\<lambda>s t. flush t s) s ts) = filter (\<lambda>x. x \<notin> set ts) (timers s)
     \<and> closed (foldl (\<lambda>s t. flush t s) s ts) = closed s"
proof (induction ts arbitrary: s)
  case Nil
  then show ?case by simp
next
  case (Cons t ts)
  note f = flush_effect(1) [where t = t and u = u, OF Cons.prems] flush_effect(1) [where t = t and u = t, OF Cons.prems] flush_effect(2) [where t = t, OF Cons.prems]
    flush_effect(3) [where t = t and u = u, OF Cons.prems] flush_effect(4) [where t = t, OF Cons.prems]
  from Cons.IH [OF flush_ok [OF Cons.prems, of t]] show ?case
    by (auto simp: f)
qed

lemma flush_all_effect:
  assumes "batches_ok s"
  shows "batches_ok (flush_all s)" and "line u (flush_all s) = line u s"
    and "jm_get (buffers (flush_all s)) u = None" and "timers (flush_all s) = []" and "closed (flush_all s) = closed s"
proof -
  have b: "batches_ok (s\<lparr>timers := []\<rparr>)" using assms by (simp add: batches_ok_def)
  note f = flush_list [OF b, of "jm_keys (buffers s)" u]
  have e: "flush_all s = foldl (\<lambda>s t. flush t s) (s\<lparr>timers := []\<rparr>) (jm_keys (buffers s))"
    by (simp add: flush_all_def)
  show "batches_ok (flush_all s)" "timers (flush_all s) = []" "closed (flush_all s) = closed s"
    using f by (simp_all add: e)
  show "line u (flush_all s) = line u s" using f by (simp add: e) (simp add: line_def buffered_def)
  show "jm_get (buffers (flush_all s)) u = None" using f jm_get_None_iff [of "buffers s" u] by (auto simp: e)
qed

lemma schedule_effect:
  assumes "batches_ok s"
  shows "batches_ok (schedule t d s)"
    and "line u (schedule t d s) = line u s @ (if \<not> closed s \<and> u = t \<and> delivery d = FollowUp then [d] else [])"
    and "closed (schedule t d s) = closed s"
    and "waiting_ok s \<Longrightarrow> waiting_ok (schedule t d s)"
proof -
  have d: "delivery d \<noteq> Steer \<longleftrightarrow> delivery d = FollowUp" by (cases "delivery d") auto
  show "batches_ok (schedule t d s)" using assms d
    by (auto simp: schedule_def Let_def batches_ok_def jm_get_set follow_ups_def split: option.splits if_splits)
  show "line u (schedule t d s) = line u s @ (if \<not> closed s \<and> u = t \<and> delivery d = FollowUp then [d] else [])" using d
    by (auto simp: schedule_def Let_def line_def buffered_def dispatched_dispatch follow_ups_append jm_get_set
        follow_ups_def split: option.splits)
  show "closed (schedule t d s) = closed s" by (auto simp: schedule_def Let_def split: option.splits)
  show "waiting_ok s \<Longrightarrow> waiting_ok (schedule t d s)"
    using \<open>batches_ok (schedule t d s)\<close> unfolding waiting_ok_def
    by (auto simp: schedule_def Let_def jm_get_set split: option.splits if_splits)
qed

text \<open>The steps of the promise chain.\<close>

lemma phase_frame:
  assumes "s' = op_start n s \<or> s' = op_settle n b s \<or> s' = op_finally n s"
  shows "buffers s' = buffers s \<and> timers s' = timers s \<and> closed s' = closed s \<and> dispatched u s' = dispatched u s"
proof -
  have m: "n < length os \<Longrightarrow> map (\<lambda>x. (op_target x, op_batch x)) (os[n := (os ! n)\<lparr>op_phase := p\<rparr>]) = map (\<lambda>x. (op_target x, op_batch x)) os" for os :: "'a op list" and p
    by (intro nth_equalityI) simp_all
  have g: "concat (map op_batch (filter (\<lambda>p. op_target p = u) os)) = concat (map snd (filter (\<lambda>p. fst p = u) (map (\<lambda>x. (op_target x, op_batch x)) os)))" for os :: "'a op list"
    by (simp add: filter_map comp_def)
  have ph: "n < length (ops s) \<Longrightarrow> dispatched u (set_phase n p s) = dispatched u s" for p
    unfolding dispatched_def g by (simp add: set_phase_def m)
  have fr: "buffers (set_phase n p s) = buffers s" "timers (set_phase n p s) = timers s" "closed (set_phase n p s) = closed s" for p
    by (simp_all add: set_phase_def)
  have d: "dispatched u (s\<lparr>calls := c\<rparr>) = dispatched u s" "dispatched u (s\<lparr>errors := c\<rparr>) = dispatched u s"
    "dispatched u (s\<lparr>in_flight := f\<rparr>) = dispatched u s" for c f and s :: "'a scheduler"
    by (simp_all add: dispatched_def)
  from assms show ?thesis
    by (elim disjE) (simp_all add: op_start_def op_settle_def op_finally_def Let_def fr ph d)
qed

lemma step_waiting: "waiting_ok s \<Longrightarrow> waiting_ok (sched_step s e)"
proof (cases e)
  case (Schedule t d)
  assume "waiting_ok s"
  then show ?thesis using Schedule schedule_effect(4) [of s] by (simp add: sched_step_def waiting_ok_def)
next
  case (Flush t)
  assume "waiting_ok s"
  then show ?thesis using Flush flush_effect [of s t] flush_ok [of s t] by (auto simp: sched_step_def waiting_ok_def)
next
  case FlushAll
  assume "waiting_ok s"
  then show ?thesis using FlushAll flush_all_effect [of s] by (simp add: sched_step_def waiting_ok_def)
next
  case Dispose
  then show ?thesis by (simp add: sched_step_def waiting_ok_def dispose_def batches_ok_def)
next
  case (Start n)
  assume "waiting_ok s"
  then show ?thesis using Start phase_frame [of "op_start n s" n s]
    by (simp add: sched_step_def waiting_ok_def batches_ok_def)
next
  case (Settle n b)
  assume "waiting_ok s"
  then show ?thesis using Settle phase_frame [of "op_settle n b s" n s b]
    by (simp add: sched_step_def waiting_ok_def batches_ok_def)
next
  case (FinallyCallback n)
  assume "waiting_ok s"
  then show ?thesis using FinallyCallback phase_frame [of "op_finally n s" n s]
    by (simp add: sched_step_def waiting_ok_def batches_ok_def)
qed

interpretation buf: machine_invariant sched_step waiting_ok
  by unfold_locales (rule step_waiting)

lemma waiting_new: "waiting_ok new_scheduler"
  by (simp add: waiting_ok_def batches_ok_def new_scheduler_def)

definition arrival :: "string \<Rightarrow> 'e sched_event \<Rightarrow> 'e pending list" where
  "arrival t e = (case e of Schedule u d \<Rightarrow> if u = t \<and> delivery d = FollowUp then [d] else [] | _ \<Rightarrow> [])"

lemma step_line:
  assumes "waiting_ok s" and "\<not> closed s" and "e \<noteq> Dispose"
  shows "\<not> closed (sched_step s e) \<and> line t (sched_step s e) = line t s @ arrival t e"
proof -
  have b: "batches_ok s" using assms(1) by (simp add: waiting_ok_def)
  show ?thesis
  proof (cases e)
    case (Start n)
    then show ?thesis using assms phase_frame [of "op_start n s" n s]
      by (simp add: sched_step_def arrival_def line_def buffered_def)
  next
    case (Settle n f)
    then show ?thesis using assms phase_frame [of "op_settle n f s" n s f]
      by (simp add: sched_step_def arrival_def line_def buffered_def)
  next
    case (FinallyCallback n)
    then show ?thesis using assms phase_frame [of "op_finally n s" n s]
      by (simp add: sched_step_def arrival_def line_def buffered_def)
  qed (use assms b schedule_effect [OF b] flush_effect [OF b] flush_all_effect [OF b] in
      \<open>auto simp: sched_step_def arrival_def\<close>)
qed

section \<open>The repeat guard\<close>

record guard =
  last_code :: "string option"
  repeats :: nat

definition new_guard :: guard where
  "new_guard = \<lparr>last_code = None, repeats = 0\<rparr>"

record observed =
  o_count :: nat
  o_blocked :: bool
  o_warn :: bool

definition observe :: "nat \<Rightarrow> nat \<Rightarrow> string \<Rightarrow> guard \<Rightarrow> observed \<times> guard" where
  "observe warnAt blockAt code g =
     (let n = (if last_code g = Some code then repeats g + 1 else 1) in
      (\<lparr>o_count = n, o_blocked = (n \<ge> blockAt), o_warn = (n \<ge> warnAt)\<rparr>, \<lparr>last_code = Some code, repeats = n\<rparr>))"

definition guard_after :: "nat \<Rightarrow> nat \<Rightarrow> string list \<Rightarrow> guard" where
  "guard_after warnAt blockAt codes = foldl (\<lambda>g c. snd (observe warnAt blockAt c g)) new_guard codes"

definition trailing :: "string \<Rightarrow> string list \<Rightarrow> nat" where
  "trailing c codes = length (takeWhile (\<lambda>x. x = c) (rev codes))"

lemma guard_counts:
  "last_code (guard_after w b codes) = last_opt codes
     \<and> repeats (guard_after w b codes) = (case last_opt codes of None \<Rightarrow> 0 | Some c \<Rightarrow> trailing c codes)"
proof (induction codes rule: rev_induct)
  case Nil
  then show ?case by (simp add: guard_after_def new_guard_def)
next
  case (snoc c codes)
  have s: "guard_after w b (codes @ [c]) = snd (observe w b c (guard_after w b codes))" by (simp add: guard_after_def)
  show ?case unfolding s using snoc
    by (cases codes rule: rev_cases) (auto simp: observe_def Let_def trailing_def last_opt_def)
qed

section \<open>Properties\<close>

text \<open>C8: deliveries to one target are serialised: whatever the order of timers, flushes, settlements and callbacks, at
  most one delivery per target runs at a time, and the calls of \<open>deliver\<close> for a target follow the dispatch order.\<close>

theorem deliveries_serialized:
  assumes "s = run sched_step new_scheduler es"
  shows "(\<forall>j < length (ops s). \<forall>k < length (ops s). op_target (ops s ! j) = op_target (ops s ! k)
        \<and> op_phase (ops s ! j) = Running \<and> op_phase (ops s ! k) = Running \<longrightarrow> j = k)
    \<and> sorted_wrt (<) (filter (\<lambda>k. op_target (ops s ! k) = t) (calls s))"
proof -
  have c: "chained_parts (ops s) (in_flight s) (calls s)"
    using sched.inv_run [OF chained_new, of es] assms by (simp add: chained_def)
  have not_less: "\<not> j < k" if "k < length (ops s)" "op_target (ops s ! j) = op_target (ops s ! k)"
    "op_phase (ops s ! j) = Running" "op_phase (ops s ! k) = Running" for j k
  proof
    assume "j < k"
    with chained_earlier [OF c that(1) _ this that(2)] that show False by simp
  qed
  have "j = k" if "j < length (ops s)" "k < length (ops s)" "op_target (ops s ! j) = op_target (ops s ! k)"
    "op_phase (ops s ! j) = Running" "op_phase (ops s ! k) = Running" for j k
    using not_less [of k j] not_less [of j k] that by (metis linorder_neqE_nat)
  with chained_parts_D(5) [OF c] show ?thesis by blast
qed

definition example_delivery :: "mode \<Rightarrow> nat pending" where
  "example_delivery m = \<lparr>delivery = m, event = 0\<rparr>"

definition example_events :: "nat sched_event list" where
  "example_events = [Schedule ''a'' (example_delivery FollowUp), Schedule ''a'' (example_delivery Steer), Start 0, Flush ''a'', Start 1]"

theorem deliveries_serialized_witness:
  "sorted_wrt (<) (filter (\<lambda>k. op_target (ops (run sched_step new_scheduler example_events) ! k) = ''a'')
     (calls (run sched_step new_scheduler example_events)))"
  by (rule deliveries_serialized [THEN conjunct2]) (rule refl)

text \<open>until \<open>dispose\<close>, the scheduler loses, repeats and reorders nothing: the follow-ups scheduled for a target are
  exactly those dispatched to it, in order, followed by those in its buffer, and a nonempty buffer has an armed timer.\<close>

theorem deliveries_conserved:
  assumes "Dispose \<notin> set es" and "s = run sched_step new_scheduler es"
  shows "follow_ups (dispatched t s) @ buffered t s = concat (map (arrival t) es)
    \<and> (buffered t s \<noteq> [] \<longrightarrow> t \<in> set (timers s))"
proof -
  have "\<not> closed (run sched_step s0 es) \<and> line t (run sched_step s0 es) = line t s0 @ concat (map (arrival t) es)"
    if "waiting_ok s0" "\<not> closed s0" for s0 :: "'a scheduler"
    using that assms(1)
  proof (induction es arbitrary: s0)
    case Nil
    then show ?case by simp
  next
    case (Cons e es)
    then have "\<not> closed (sched_step s0 e) \<and> line t (sched_step s0 e) = line t s0 @ arrival t e"
      by (intro step_line) auto
    with Cons step_waiting [of s0 e] show ?case by simp
  qed
  from this [OF waiting_new] have "line t s = concat (map (arrival t) es)"
    by (simp add: assms(2) new_scheduler_def line_def dispatched_def buffered_def)
  moreover have "waiting_ok s" unfolding assms(2) by (rule buf.inv_run [OF waiting_new])
  ultimately show ?thesis by (auto simp: line_def waiting_ok_def buffered_def split: option.splits)
qed

theorem deliveries_conserved_witness:
  "follow_ups (dispatched ''a'' (run sched_step new_scheduler example_events)) @ buffered ''a'' (run sched_step new_scheduler example_events)
     = concat (map (arrival ''a'') example_events)"
  by (rule deliveries_conserved [THEN conjunct1]) (simp_all add: example_events_def)

text \<open>the in-flight map never forgets a target: \<open>#dispatch\<close> stores the promise of \<open>finally\<close> but compares with the
  operation's own promise, so its clean-up never deletes and every target ever dispatched to keeps an entry.\<close>

theorem in_flight_never_cleaned:
  assumes "s = run sched_step new_scheduler es" and "k < length (ops s)"
  shows "\<exists>n. jm_get (in_flight s) (op_target (ops s ! k)) = Some (FinallyOf n) \<and> k \<le> n"
proof -
  have c: "chained_parts (ops s) (in_flight s) (calls s)"
    using sched.inv_run [OF chained_new, of es] assms by (simp add: chained_def)
  let ?t = "op_target (ops s ! k)"
  obtain n where n: "last_opt (ops_of (ops s) ?t (length (ops s))) = Some n"
    using assms(2) last_ops_of_None [of "ops s" ?t "length (ops s)"] by (cases "last_opt (ops_of (ops s) ?t (length (ops s)))") auto
  then have "k \<le> n" using assms(2) by (metis last_ops_of not_le)
  with n chained_parts_D(1) [OF c, of ?t] show ?thesis by simp
qed

theorem in_flight_never_cleaned_witness:
  "\<exists>n. jm_get (in_flight (run sched_step new_scheduler (example_events @ [Settle 0 False, FinallyCallback 0, Start 1, Settle 1 False, FinallyCallback 1])))
      (op_target (ops (run sched_step new_scheduler (example_events @ [Settle 0 False, FinallyCallback 0, Start 1, Settle 1 False, FinallyCallback 1])) ! 0))
      = Some (FinallyOf n) \<and> 0 \<le> n"
  by (rule in_flight_never_cleaned) (rule refl, code_simp)

text \<open>The breaker counts exactly the identical codes at the end of the sequence: it warns and blocks when that run,
  the current code included, reaches its thresholds, whatever came before.\<close>

theorem repeat_guard_counts_run:
  "fst (observe warnAt blockAt code (guard_after warnAt blockAt codes))
     = \<lparr>o_count = trailing code (codes @ [code]), o_blocked = (trailing code (codes @ [code]) \<ge> blockAt),
        o_warn = (trailing code (codes @ [code]) \<ge> warnAt)\<rparr>"
proof -
  have "(if last_code (guard_after warnAt blockAt codes) = Some code then repeats (guard_after warnAt blockAt codes) + 1 else 1)
      = trailing code (codes @ [code])"
    using guard_counts [of warnAt blockAt codes] by (cases codes rule: rev_cases) (auto simp: trailing_def)
  then show ?thesis by (simp add: observe_def Let_def)
qed

end
