(* ===== verification/Cache.thy ===== *)
theory Cache imports Prelude begin

text \<open>
  \<^verbatim>\<open>src/src/cache/leases.ts\<close> (leases that keep one native cache-warming handle alive) and
  \<^verbatim>\<open>src/src/cache/observations.ts\<close> (the bounded walk over the session's active branch). The digest of a context
  (\<open>#key\<close>), fresh ids, clock readings and what the native calls do are arguments: \<open>rel n\<close> says whether the
  \<open>n\<close>-th call of a native release function returns or throws.
\<close>

section \<open>Leases\<close>

datatype scope = Session | Component

record lease =
  l_scope :: scope
  l_expires :: int
  l_invocation :: string
  l_attached :: bool

record ctx =
  c_session :: string
  c_key :: string
  c_supported :: bool
  c_model :: bool

record leases =
  live :: "(string, lease) jmap"
  session_id :: string
  listening :: bool
  native :: "nat option"
  binding :: "string option"
  failed_binding :: "string option"
  cleanup_failed :: bool
  shut :: bool
  acquired :: nat
  release_calls :: nat
  released :: "nat list"

definition MAX_CACHE_LEASES :: nat where "MAX_CACHE_LEASES = 128"

definition new_leases :: "string \<Rightarrow> leases" where
  "new_leases sid = \<lparr>live = [], session_id = sid, listening = False, native = None, binding = None, failed_binding = None,
     cleanup_failed = False, shut = False, acquired = 0, release_calls = 0, released = []\<rparr>"

text \<open>Acquired handles are numbered; \<open>native\<close> is the handle whose release function is kept.\<close>

definition release_native :: "(nat \<Rightarrow> bool) \<Rightarrow> leases \<Rightarrow> leases" where
  "release_native rel s =
     (case native s of
        None \<Rightarrow> s\<lparr>binding := None, cleanup_failed := False\<rparr>
      | Some k \<Rightarrow>
          (let s1 = s\<lparr>release_calls := Suc (release_calls s)\<rparr> in
           if rel (release_calls s)
           then s1\<lparr>native := None, binding := None, cleanup_failed := False, released := released s @ [k]\<rparr>
           else s1\<lparr>cleanup_failed := True\<rparr>))"

definition drop_lease :: "(nat \<Rightarrow> bool) \<Rightarrow> string \<Rightarrow> leases \<Rightarrow> bool \<times> leases" where
  "drop_lease rel i s =
     (case jm_get (live s) i of
        None \<Rightarrow> (False, s)
      | Some l \<Rightarrow> (let s1 = s\<lparr>live := jm_del i (live s)\<rparr> in (True, if live s1 = [] then release_native rel s1 else s1)))"

definition invalidate :: "(nat \<Rightarrow> bool) \<Rightarrow> leases \<Rightarrow> leases" where
  "invalidate rel s = (foldl (\<lambda>s i. snd (drop_lease rel i s)) s (jm_keys (live s)))\<lparr>failed_binding := None\<rparr>"

definition reconcile :: "(nat \<Rightarrow> bool) \<Rightarrow> ctx \<Rightarrow> leases \<Rightarrow> leases" where
  "reconcile rel c s =
     (if binding s = None \<and> failed_binding s = None then s
      else (let s1 = (if binding s \<noteq> None \<and> (binding s \<noteq> Some (c_key c) \<or> \<not> c_supported c) then invalidate rel s else s) in
            if failed_binding s1 \<noteq> Some (c_key c) then s1\<lparr>failed_binding := None\<rparr> else s1))"

datatype refusal = Ended | NoNative | BoundsUnsupported | NoModel | CleanupFailed | Capacity | AcquireFailed

datatype hold_result = Held string int | Refused refusal | Aborted

record hold_request =
  r_duration :: int
  r_bounds :: bool
  r_scope :: scope
  r_invocation :: string
  r_aborted :: bool
  r_aborted_after :: bool
  r_id :: string
  r_now :: int
  r_acquired :: bool

text \<open>\<open>r_bounds\<close> is a requested cost or refresh bound; \<open>r_acquired\<close> is whether the native acquisition gives a
  function; \<open>r_aborted\<close> and \<open>r_aborted_after\<close> are the signal at the start and after the lease is stored.\<close>

definition hold :: "(nat \<Rightarrow> bool) \<Rightarrow> hold_request \<Rightarrow> ctx \<Rightarrow> leases \<Rightarrow> hold_result \<times> leases" where
  "hold rel r c s =
     (if r_aborted r then (Aborted, s)
      else if shut s \<or> c_session c \<noteq> session_id s then (Refused Ended, s)
      else (let s1 = reconcile rel c s in
        if \<not> c_supported c then (Refused NoNative, s1)
        else if r_bounds r then (Refused BoundsUnsupported, s1)
        else if \<not> c_model c then (Refused NoModel, s1)
        else if cleanup_failed s1 then (Refused CleanupFailed, s1)
        else if length (live s1) \<ge> MAX_CACHE_LEASES then (Refused Capacity, s1)
        else if failed_binding s1 = Some (c_key c) then (Refused AcquireFailed, s1)
        else (let s2 = s1\<lparr>listening := True\<rparr> in
          if native s2 = None \<and> \<not> r_acquired r then (Refused AcquireFailed, s2\<lparr>failed_binding := Some (c_key c)\<rparr>)
          else (let s3 = (if native s2 = None
                          then s2\<lparr>native := Some (acquired s2), acquired := Suc (acquired s2), binding := Some (c_key c)\<rparr> else s2);
                    expires = r_now r + r_duration r;
                    s4 = s3\<lparr>live := jm_set (r_id r) \<lparr>l_scope = r_scope r, l_expires = expires, l_invocation = r_invocation r,
                            l_attached = True\<rparr> (live s3)\<rparr> in
            if r_aborted_after r then (Aborted, snd (drop_lease rel (r_id r) s4)) else (Held (r_id r) expires, s4)))))"

datatype lease_error = ComponentOwned | CleanupError

definition release_lease :: "(nat \<Rightarrow> bool) \<Rightarrow> string \<Rightarrow> leases \<Rightarrow> (lease_error + bool \<times> bool) \<times> leases" where
  "release_lease rel i s =
     (if (case jm_get (live s) i of Some l \<Rightarrow> l_scope l = Component | None \<Rightarrow> False) then (Inl ComponentOwned, s)
      else (let (d, s') = drop_lease rel i s in (Inr (d, cleanup_failed s'), s')))"

definition dispose_lease :: "(nat \<Rightarrow> bool) \<Rightarrow> string \<Rightarrow> leases \<Rightarrow> (lease_error + unit) \<times> leases" where
  "dispose_lease rel i s =
     (let s' = snd (drop_lease rel i s) in (if cleanup_failed s' then Inl CleanupError else Inr (), s'))"

definition detach :: "string \<Rightarrow> leases \<Rightarrow> leases" where
  "detach i s = (case jm_get (live s) i of None \<Rightarrow> s | Some l \<Rightarrow> s\<lparr>live := jm_set i (l\<lparr>l_attached := False\<rparr>) (live s)\<rparr>)"

definition ended_one :: "(nat \<Rightarrow> bool) \<Rightarrow> string \<Rightarrow> bool \<Rightarrow> leases \<Rightarrow> string \<times> lease \<Rightarrow> leases" where
  "ended_one rel invocation succeeded s p =
     (if l_scope (snd p) \<noteq> Session \<or> l_invocation (snd p) \<noteq> invocation then s
      else if succeeded then detach (fst p) s else snd (drop_lease rel (fst p) s))"

definition invocation_ended :: "(nat \<Rightarrow> bool) \<Rightarrow> string \<Rightarrow> bool \<Rightarrow> leases \<Rightarrow> leases" where
  "invocation_ended rel invocation succeeded s = foldl (ended_one rel invocation succeeded) s (live s)"

definition close_leases :: "(nat \<Rightarrow> bool) \<Rightarrow> leases \<Rightarrow> (lease_error + unit) \<times> leases" where
  "close_leases rel s =
     (let s' = (release_native rel (invalidate rel (s\<lparr>shut := True\<rparr>)))\<lparr>listening := False\<rparr> in
      (if cleanup_failed s' then Inl CleanupError else Inr (), s'))"

text \<open>The timer and the abort listener of a lease drop it; the session events invalidate while subscribed.\<close>

datatype lease_event =
    Hold hold_request ctx
  | TimerFires string
  | AbortSignal string
  | Release string
  | DisposeLease string
  | InvocationEnded string bool
  | SessionEvent
  | Reconcile ctx
  | Close

definition lease_step :: "(nat \<Rightarrow> bool) \<Rightarrow> leases \<Rightarrow> lease_event \<Rightarrow> leases" where
  "lease_step rel s e = (case e of
     Hold r c \<Rightarrow> snd (hold rel r c s)
   | TimerFires i \<Rightarrow> snd (drop_lease rel i s)
   | AbortSignal i \<Rightarrow> (case jm_get (live s) i of Some l \<Rightarrow> if l_attached l then snd (drop_lease rel i s) else s | None \<Rightarrow> s)
   | Release i \<Rightarrow> snd (release_lease rel i s)
   | DisposeLease i \<Rightarrow> snd (dispose_lease rel i s)
   | InvocationEnded i ok \<Rightarrow> invocation_ended rel i ok s
   | SessionEvent \<Rightarrow> if listening s then invalidate rel s else s
   | Reconcile c \<Rightarrow> if listening s then reconcile rel c s else s
   | Close \<Rightarrow> snd (close_leases rel s))"

section \<open>The native handle\<close>

text \<open>One handle at most is out; it is held exactly while leases live, or after its release failed.\<close>

definition handles_ok :: "leases \<Rightarrow> bool" where
  "handles_ok s \<longleftrightarrow> distinct (released s) \<and> (case native s of
     None \<Rightarrow> set (released s) = {..<acquired s} \<and> binding s = None \<and> \<not> cleanup_failed s
   | Some k \<Rightarrow> k < acquired s \<and> set (released s) = {..<acquired s} - {k} \<and> binding s \<noteq> None)"

definition leases_ok :: "leases \<Rightarrow> bool" where
  "leases_ok s \<longleftrightarrow> handles_ok s \<and> jm_ok (live s) \<and> length (live s) \<le> MAX_CACHE_LEASES
     \<and> (live s \<noteq> [] \<longrightarrow> native s \<noteq> None \<and> \<not> cleanup_failed s)
     \<and> (live s = [] \<and> native s \<noteq> None \<longrightarrow> cleanup_failed s)"

lemma handles_frame [simp]:
  "handles_ok (s\<lparr>live := m\<rparr>) = handles_ok s" "handles_ok (s\<lparr>failed_binding := f\<rparr>) = handles_ok s"
  "handles_ok (s\<lparr>listening := b\<rparr>) = handles_ok s" "handles_ok (s\<lparr>shut := b\<rparr>) = handles_ok s"
  by (auto simp: handles_ok_def split: option.split)

lemma leases_frame [simp]:
  "leases_ok (s\<lparr>failed_binding := f\<rparr>) = leases_ok s" "leases_ok (s\<lparr>listening := b\<rparr>) = leases_ok s"
  "leases_ok (s\<lparr>shut := b\<rparr>) = leases_ok s"
  by (simp_all add: leases_ok_def)

lemma leases_new: "leases_ok (new_leases sid)"
  by (simp add: leases_ok_def handles_ok_def new_leases_def)

lemma release_native_frame [simp]:
  "live (release_native rel s) = live s" "shut (release_native rel s) = shut s"
  "failed_binding (release_native rel s) = failed_binding s" "session_id (release_native rel s) = session_id s"
  "listening (release_native rel s) = listening s" "acquired (release_native rel s) = acquired s"
  by (simp_all add: release_native_def Let_def split: option.splits)

lemma release_native_handles:
  "handles_ok s \<Longrightarrow> handles_ok (release_native rel s) \<and> (native (release_native rel s) \<noteq> None \<longrightarrow> cleanup_failed (release_native rel s))"
  by (auto simp: handles_ok_def release_native_def Let_def split: option.splits)

lemma drop_ok: "leases_ok s \<Longrightarrow> leases_ok (snd (drop_lease rel i s))"
proof (cases "jm_get (live s) i")
  case None
  assume "leases_ok s"
  then show ?thesis by (simp add: drop_lease_def None)
next
  case (Some l)
  assume s: "leases_ok s"
  let ?s = "s\<lparr>live := jm_del i (live s)\<rparr>"
  have h: "handles_ok ?s" "jm_ok (live ?s)" "length (live ?s) \<le> MAX_CACHE_LEASES"
    using s length_jm_del_le [of i "live s"] by (auto simp: leases_ok_def)
  have "live s \<noteq> []" using Some by auto
  then have n: "native s \<noteq> None" "\<not> cleanup_failed s" using s by (simp_all add: leases_ok_def)
  show ?thesis
  proof (cases "jm_del i (live s) = []")
    case True
    then show ?thesis using release_native_handles [OF h(1), of rel]
      by (simp add: drop_lease_def Some leases_ok_def Let_def)
  next
    case False
    then show ?thesis using h n by (simp add: drop_lease_def Some leases_ok_def Let_def)
  qed
qed

lemma drop_live: "live (snd (drop_lease rel i s)) = jm_del i (live s)"
  using jm_del_absent [of i "live s"] by (auto simp: drop_lease_def Let_def jm_get_None_iff split: option.splits)

lemma drop_list:
  "leases_ok s \<Longrightarrow> leases_ok (foldl (\<lambda>s i. snd (drop_lease rel i s)) s ks)
     \<and> live (foldl (\<lambda>s i. snd (drop_lease rel i s)) s ks) = filter (\<lambda>p. fst p \<notin> set ks) (live s)"
proof (induction ks arbitrary: s)
  case Nil
  then show ?case by simp
next
  case (Cons i js)
  from Cons.IH [OF drop_ok [OF Cons.prems, of rel i]] show ?case
    by (auto simp: drop_live jm_del_def intro!: filter_cong)
qed

lemma invalidate_ok:
  assumes "leases_ok s"
  shows "leases_ok (invalidate rel s)" and "live (invalidate rel s) = []" and "failed_binding (invalidate rel s) = None"
proof -
  have "filter (\<lambda>p. fst p \<notin> set (jm_keys (live s))) (live s) = []"
    by (auto simp: filter_empty_conv jm_keys_def)
  then show "leases_ok (invalidate rel s)" "live (invalidate rel s) = []" "failed_binding (invalidate rel s) = None"
    using drop_list [OF assms, of rel "jm_keys (live s)"]
    by (simp_all add: invalidate_def)
qed

lemma reconcile_ok: "leases_ok s \<Longrightarrow> leases_ok (reconcile rel c s)"
  using invalidate_ok(1) [of s rel] by (simp add: reconcile_def Let_def)

text \<open>After \<open>reconcile\<close> a binding that survives is the context's own, unless a release failed.\<close>

lemma reconcile_binding:
  assumes "leases_ok s"
  shows "binding (reconcile rel c s) = None \<or> binding (reconcile rel c s) = Some (c_key c) \<or> cleanup_failed (reconcile rel c s)"
proof (cases "binding s \<noteq> None \<and> (binding s \<noteq> Some (c_key c) \<or> \<not> c_supported c)")
  case True
  have "leases_ok (invalidate rel s)" "live (invalidate rel s) = []" using assms by (rule invalidate_ok)+
  then have "native (invalidate rel s) = None \<and> binding (invalidate rel s) = None \<or> cleanup_failed (invalidate rel s)"
    by (auto simp: leases_ok_def handles_ok_def split: option.splits)
  then show ?thesis using True by (auto simp: reconcile_def Let_def)
qed (auto simp: reconcile_def Let_def)

definition acquire_native :: "string \<Rightarrow> leases \<Rightarrow> leases" where
  "acquire_native k s = s\<lparr>native := Some (acquired s), acquired := Suc (acquired s), binding := Some k\<rparr>"

lemma acquire_handles: "handles_ok s \<Longrightarrow> native s = None \<Longrightarrow> handles_ok (acquire_native k s)"
proof -
  assume "handles_ok s" "native s = None"
  then have "distinct (released s)" "set (released s) = {..<acquired s}" by (simp_all add: handles_ok_def)
  moreover have "{..<acquired s} = {..<Suc (acquired s)} - {acquired s}" by auto
  ultimately show ?thesis by (simp add: handles_ok_def acquire_native_def)
qed

text \<open>What \<open>hold\<close> does past its refusals.\<close>

lemma hold_cases:
  obtains "snd (hold rel r c s) = s" "\<And>i e. fst (hold rel r c s) \<noteq> Held i e"
  | "snd (hold rel r c s) = reconcile rel c s" "\<And>i e. fst (hold rel r c s) \<noteq> Held i e"
  | "snd (hold rel r c s) = (reconcile rel c s)\<lparr>listening := True, failed_binding := Some (c_key c)\<rparr>"
      "\<And>i e. fst (hold rel r c s) \<noteq> Held i e"
  | s3 s4 l where "\<not> shut s" "\<not> cleanup_failed (reconcile rel c s)" "length (live (reconcile rel c s)) < MAX_CACHE_LEASES"
      "s3 = (if native (reconcile rel c s) = None then acquire_native (c_key c) ((reconcile rel c s)\<lparr>listening := True\<rparr>)
             else (reconcile rel c s)\<lparr>listening := True\<rparr>)"
      "l = \<lparr>l_scope = r_scope r, l_expires = r_now r + r_duration r, l_invocation = r_invocation r, l_attached = True\<rparr>"
      "s4 = s3\<lparr>live := jm_set (r_id r) l (live s3)\<rparr>"
      "hold rel r c s = (if r_aborted_after r then (Aborted, snd (drop_lease rel (r_id r) s4)) else (Held (r_id r) (r_now r + r_duration r), s4))"
proof (cases "r_aborted r \<or> shut s \<or> c_session c \<noteq> session_id s")
  case True
  then have "hold rel r c s = (if r_aborted r then (Aborted, s) else (Refused Ended, s))"
    unfolding hold_def by (cases "r_aborted r"; cases "shut s") simp_all
  then show ?thesis using that(1) by simp
next
  case a: False
  let ?s = "reconcile rel c s"
  show ?thesis
  proof (cases "\<not> c_supported c \<or> r_bounds r \<or> \<not> c_model c \<or> cleanup_failed ?s \<or> length (live ?s) \<ge> MAX_CACHE_LEASES
      \<or> failed_binding ?s = Some (c_key c)")
    case True
    with a show ?thesis by (intro that(2)) (auto simp: hold_def Let_def)
  next
    case b: False
    show ?thesis
    proof (cases "native ?s = None \<and> \<not> r_acquired r")
      case True
      with a b show ?thesis by (intro that(3)) (auto simp: hold_def Let_def)
    next
      case False
      with a b show ?thesis
        by (intro that(4) [OF _ _ _ refl refl refl]) (auto simp: hold_def Let_def acquire_native_def)
    qed
  qed
qed

lemma leases_ok_store:
  assumes "leases_ok s" and "\<not> cleanup_failed s" and "length (live s) < MAX_CACHE_LEASES"
    and "s3 = (if native s = None then acquire_native k (s\<lparr>listening := True\<rparr>) else s\<lparr>listening := True\<rparr>)"
  shows "leases_ok (s3\<lparr>live := jm_set i l (live s3)\<rparr>)"
proof -
  have h: "handles_ok s3" using assms acquire_handles [of "s\<lparr>listening := True\<rparr>" k] by (auto simp: leases_ok_def)
  have f: "live s3 = live s" "native s3 \<noteq> None" "\<not> cleanup_failed s3" using assms(2,4) by (simp_all add: acquire_native_def)
  have "length (jm_set i l (live s)) \<le> MAX_CACHE_LEASES" using length_jm_set_le [of i l "live s"] assms(3) by linarith
  then show ?thesis using h f assms(1) by (auto simp: leases_ok_def)
qed

lemma hold_ok: "leases_ok s \<Longrightarrow> leases_ok (snd (hold rel r c s))"
proof (cases rel r c s rule: hold_cases)
  case (4 s3 s4 l)
  assume "leases_ok s"
  then have "leases_ok (reconcile rel c s)" by (rule reconcile_ok)
  then have "leases_ok s4" unfolding 4(6) using 4(2-4) leases_ok_store by blast
  then show ?thesis using drop_ok [of s4 rel] by (simp add: 4(7))
qed (simp_all add: reconcile_ok)

lemma detach_ok: "leases_ok s \<Longrightarrow> leases_ok (detach i s)"
proof (cases "jm_get (live s) i")
  case (Some l)
  assume s: "leases_ok s"
  have k: "i \<in> set (jm_keys (live s))" using Some jm_get_None_iff [of "live s" i] by auto
  then have "length (jm_keys (jm_set i (l\<lparr>l_attached := False\<rparr>) (live s))) = length (jm_keys (live s))"
    by (simp add: jm_keys_set)
  then have "length (jm_set i (l\<lparr>l_attached := False\<rparr>) (live s)) = length (live s)" by (simp add: jm_keys_def)
  then show ?thesis using s Some by (auto simp: detach_def leases_ok_def)
qed (simp add: detach_def)

lemma invocation_ended_ok: "leases_ok s \<Longrightarrow> leases_ok (invocation_ended rel i ok s)"
  unfolding invocation_ended_def
  by (rule foldl_inv) (simp_all add: ended_one_def detach_ok drop_ok)

lemma close_ok: "leases_ok s \<Longrightarrow> leases_ok (snd (close_leases rel s))"
proof -
  assume s: "leases_ok s"
  let ?s = "invalidate rel (s\<lparr>shut := True\<rparr>)"
  have i: "leases_ok ?s" "live ?s = []" using s invalidate_ok [of "s\<lparr>shut := True\<rparr>"] by simp_all
  have h: "handles_ok ?s" using i by (simp add: leases_ok_def)
  have "leases_ok (release_native rel ?s)"
    using i release_native_handles [OF h, of rel] by (simp add: leases_ok_def)
  then show ?thesis by (simp add: close_leases_def Let_def)
qed

lemma release_lease_ok: "leases_ok s \<Longrightarrow> leases_ok (snd (release_lease rel i s))"
  using drop_ok [of s rel i] by (simp add: release_lease_def split_beta)

lemma lease_step_ok: "leases_ok s \<Longrightarrow> leases_ok (lease_step rel s e)"
  by (simp add: lease_step_def hold_ok drop_ok release_lease_ok dispose_lease_def invocation_ended_ok invalidate_ok(1)
      reconcile_ok close_ok Let_def split: lease_event.split option.split)

interpretation lease: machine_invariant "lease_step rel" leases_ok for rel
  by unfold_locales (rule lease_step_ok)

section \<open>Observations\<close>

definition CACHE_OBSERVATION_LIMIT :: nat where "CACHE_OBSERVATION_LIMIT = 256"

definition max_safe :: rat where "max_safe = 9007199254740991"

definition count :: "json option \<Rightarrow> rat option" where
  "count v = (case v of Some (JNum q) \<Rightarrow> if of_int \<lfloor>q\<rfloor> = q \<and> 0 \<le> q \<and> q \<le> max_safe then Some q else None | _ \<Rightarrow> None)"

definition price :: "json option \<Rightarrow> rat option" where
  "price v = (case v of Some (JNum q) \<Rightarrow> if 0 \<le> q then Some q else None | _ \<Rightarrow> None)"

record sample =
  sm_entry :: string
  sm_observed :: rat
  sm_input :: rat
  sm_read :: rat
  sm_write :: rat
  sm_output :: rat
  sm_total :: rat
  sm_share :: rat
  sm_cost :: "rat option"

text \<open>\<open>parsed\<close> is \<open>Date.parse\<close> of the entry's timestamp when finite.\<close>

definition cost_total :: "json \<Rightarrow> json option" where
  "cost_total u = (case jfield u ''cost'' of Some c \<Rightarrow> jfield c ''total'' | None \<Rightarrow> None)"

definition cache_sample :: "json \<Rightarrow> string \<Rightarrow> rat option \<Rightarrow> sample option" where
  "cache_sample u i parsed =
     (case (count (jfield u ''input''), count (jfield u ''cacheRead''), count (jfield u ''cacheWrite''), count (jfield u ''output'')) of
        (Some inp, Some rd, Some wr, Some outp) \<Rightarrow>
          (let total = inp + rd + wr in
           if total + outp > max_safe \<or> total = 0 then None
           else (case parsed of None \<Rightarrow> None
             | Some t \<Rightarrow> Some \<lparr>sm_entry = i, sm_observed = t, sm_input = inp, sm_read = rd, sm_write = wr, sm_output = outp,
                 sm_total = total, sm_share = rd / total, sm_cost = price (cost_total u)\<rparr>))
      | _ \<Rightarrow> None)"

record hist_entry =
  h_id :: string
  h_parent :: "string option"
  h_type :: string
  h_kind :: string
  h_role :: string
  h_provider :: string
  h_model :: string
  h_usage :: json
  h_time :: "rat option"

record observation =
  last_request :: "sample option"
  last_refresh :: "sample option"
  requests :: nat
  tokens :: rat
  cost :: rat
  unknown_cost :: nat
  unknown_tokens :: nat
  entries :: nat
  stopped :: "string option"
  seen :: "string list"

definition new_observation :: observation where
  "new_observation = \<lparr>last_request = None, last_refresh = None, requests = 0, tokens = 0, cost = 0, unknown_cost = 0,
     unknown_tokens = 0, entries = 0, stopped = None, seen = []\<rparr>"

definition or_set :: "'a option \<Rightarrow> 'a option \<Rightarrow> 'a option" where
  "or_set x y = (case x of None \<Rightarrow> y | Some _ \<Rightarrow> x)"

definition account_tokens :: "json \<Rightarrow> observation \<Rightarrow> observation" where
  "account_tokens u s =
     (case (count (jfield u ''input''), count (jfield u ''output''), count (jfield u ''cacheRead''), count (jfield u ''cacheWrite'')) of
        (Some a, Some b, Some c, Some d) \<Rightarrow>
          (if a + b + c + d \<le> max_safe \<and> tokens s + (a + b + c + d) \<le> max_safe then s\<lparr>tokens := tokens s + (a + b + c + d)\<rparr>
           else s\<lparr>unknown_tokens := Suc (unknown_tokens s)\<rparr>)
      | _ \<Rightarrow> s\<lparr>unknown_tokens := Suc (unknown_tokens s)\<rparr>)"

definition account_cost :: "json \<Rightarrow> observation \<Rightarrow> observation" where
  "account_cost u s = (case price (cost_total u) of
      Some c \<Rightarrow> s\<lparr>cost := cost s + c\<rparr> | None \<Rightarrow> s\<lparr>unknown_cost := Suc (unknown_cost s)\<rparr>)"

definition stop_types :: "string list" where
  "stop_types = [''compaction'', ''branch_summary'', ''model_change'', ''thinking_level_change'', ''context_edit'']"

text \<open>The body of the walk for one entry, when it is neither a repeat nor a stop; \<open>model\<close> is the context's provider and model.\<close>

definition observe_entry :: "(string \<times> string) option \<Rightarrow> hist_entry \<Rightarrow> observation \<Rightarrow> observation" where
  "observe_entry model e s =
     (if h_type e = ''message'' \<and> h_role e = ''assistant'' then
        (if model = Some (h_provider e, h_model e)
         then s\<lparr>last_request := or_set (last_request s) (cache_sample (h_usage e) (h_id e) (h_time e))\<rparr> else s)
      else if h_type e = ''usage'' \<and> h_kind e = ''cache_warm'' \<and> model = Some (h_provider e, h_model e) then
        account_cost (h_usage e) (account_tokens (h_usage e)
          (s\<lparr>last_refresh := or_set (last_refresh s) (cache_sample (h_usage e) (h_id e) (h_time e)),
             requests := Suc (requests s)\<rparr>))
      else s)"

text \<open>\<open>n\<close> is what is left of the limit, so the loop is structural.\<close>

fun walk :: "(string \<Rightarrow> hist_entry option) \<Rightarrow> (string \<times> string) option \<Rightarrow> nat \<Rightarrow> hist_entry option \<Rightarrow> observation
    \<Rightarrow> hist_entry option \<times> observation" where
  "walk get model n None s = (None, s)"
| "walk get model 0 (Some e) s = (Some e, s)"
| "walk get model (Suc n) (Some e) s =
     (if h_id e \<in> set (seen s) then (Some e, s\<lparr>stopped := Some ''invalid-history''\<rparr>)
      else (let s1 = s\<lparr>seen := h_id e # seen s, entries := Suc (entries s)\<rparr> in
        if h_type e \<in> set stop_types \<or> (h_type e = ''message'' \<and> h_role e = ''system'')
        then (Some e, s1\<lparr>stopped := Some (h_type e)\<rparr>)
        else (let s2 = observe_entry model e s1 in
          case h_parent e of
            None \<Rightarrow> walk get model n None s2
          | Some p \<Rightarrow> (case get p of
              None \<Rightarrow> walk get model n None (s2\<lparr>stopped := Some ''missing-parent''\<rparr>)
            | Some e' \<Rightarrow> walk get model n (Some e') s2))))"

definition observe_prompt_cache :: "(string \<Rightarrow> hist_entry option) \<Rightarrow> (string \<times> string) option \<Rightarrow> hist_entry option \<Rightarrow> observation \<times> bool" where
  "observe_prompt_cache get model leaf =
     (let (e, s) = walk get model CACHE_OBSERVATION_LIMIT leaf new_observation in
      (s, e \<noteq> None \<and> stopped s = None))"

section \<open>Facts about the walk\<close>

definition observation_ok :: "observation \<Rightarrow> bool" where
  "observation_ok s \<longleftrightarrow> entries s = length (seen s) \<and> distinct (seen s) \<and> requests s \<le> entries s
     \<and> unknown_tokens s \<le> requests s \<and> unknown_cost s \<le> requests s \<and> 0 \<le> tokens s \<and> tokens s \<le> max_safe \<and> 0 \<le> cost s"

lemma count_nonneg: "count v = Some q \<Longrightarrow> 0 \<le> q"
  by (auto simp: count_def split: option.splits json.splits if_splits)

lemma price_nonneg: "price v = Some q \<Longrightarrow> 0 \<le> q"
  by (auto simp: price_def split: option.splits json.splits if_splits)

lemma account_tokens_frame:
  "entries (account_tokens u s) = entries s \<and> seen (account_tokens u s) = seen s \<and> requests (account_tokens u s) = requests s
     \<and> unknown_cost (account_tokens u s) = unknown_cost s \<and> cost (account_tokens u s) = cost s \<and> stopped (account_tokens u s) = stopped s
     \<and> unknown_tokens (account_tokens u s) \<le> Suc (unknown_tokens s)"
  by (auto simp: account_tokens_def split: option.splits)

lemma account_tokens_range:
  "0 \<le> tokens s \<Longrightarrow> tokens s \<le> max_safe \<Longrightarrow> 0 \<le> tokens (account_tokens u s) \<and> tokens (account_tokens u s) \<le> max_safe"
  by (auto simp: account_tokens_def split: option.splits dest!: count_nonneg)

lemma account_cost_frame:
  "entries (account_cost u s) = entries s \<and> seen (account_cost u s) = seen s \<and> requests (account_cost u s) = requests s
     \<and> unknown_tokens (account_cost u s) = unknown_tokens s \<and> tokens (account_cost u s) = tokens s \<and> stopped (account_cost u s) = stopped s
     \<and> unknown_cost (account_cost u s) \<le> Suc (unknown_cost s) \<and> (0 \<le> cost s \<longrightarrow> 0 \<le> cost (account_cost u s))"
  by (auto simp: account_cost_def split: option.splits dest!: price_nonneg)

text \<open>The observations between two entries: one entry more has been seen than accounted for.\<close>

lemma observe_entry_ok:
  assumes "observation_ok s" and "h_id e \<notin> set (seen s)"
  shows "observation_ok (observe_entry model e (s\<lparr>seen := h_id e # seen s, entries := Suc (entries s)\<rparr>))
    \<and> entries (observe_entry model e (s\<lparr>seen := h_id e # seen s, entries := Suc (entries s)\<rparr>)) = Suc (entries s)
    \<and> stopped (observe_entry model e (s\<lparr>seen := h_id e # seen s, entries := Suc (entries s)\<rparr>)) = stopped s"
proof -
  let ?s = "s\<lparr>seen := h_id e # seen s, entries := Suc (entries s)\<rparr>"
  define r where "r = ?s\<lparr>last_refresh := or_set (last_refresh ?s) (cache_sample (h_usage e) (h_id e) (h_time e)), requests := Suc (requests ?s)\<rparr>"
  define t where "t = account_tokens (h_usage e) r"
  define w where "w = account_cost (h_usage e) t"
  have ok: "observation_ok ?s" using assms by (simp add: observation_ok_def)
  have s: "entries s = length (seen s)" "distinct (seen s)" "requests s \<le> entries s" "unknown_tokens s \<le> requests s"
    "unknown_cost s \<le> requests s" "0 \<le> tokens s" "tokens s \<le> max_safe" "0 \<le> cost s"
    using assms(1) by (simp_all add: observation_ok_def)
  have r: "entries r = Suc (entries s)" "seen r = h_id e # seen s" "requests r = Suc (requests s)" "stopped r = stopped s"
    "unknown_tokens r = unknown_tokens s" "unknown_cost r = unknown_cost s" "tokens r = tokens s" "cost r = cost s"
    by (simp_all add: r_def)
  have t: "entries t = entries r" "seen t = seen r" "requests t = requests r" "unknown_cost t = unknown_cost r"
    "cost t = cost r" "stopped t = stopped r" "unknown_tokens t \<le> Suc (unknown_tokens r)" "0 \<le> tokens t" "tokens t \<le> max_safe"
    using account_tokens_frame [of "h_usage e" r] account_tokens_range [of r "h_usage e"] s r unfolding t_def by simp_all
  have w: "entries w = entries t" "seen w = seen t" "requests w = requests t" "unknown_tokens w = unknown_tokens t"
    "tokens w = tokens t" "stopped w = stopped t" "unknown_cost w \<le> Suc (unknown_cost t)" "0 \<le> cost w"
    using account_cost_frame [of "h_usage e" t] s r t unfolding w_def by simp_all
  have "observation_ok w \<and> entries w = Suc (entries s) \<and> stopped w = stopped s"
    unfolding observation_ok_def using s r t w assms(2) by simp
  then have "observation_ok (account_cost (h_usage e) (account_tokens (h_usage e) r))
      \<and> entries (account_cost (h_usage e) (account_tokens (h_usage e) r)) = Suc (entries s)
      \<and> stopped (account_cost (h_usage e) (account_tokens (h_usage e) r)) = stopped s"
    unfolding w_def t_def .
  note refresh = this [unfolded r_def]
  have "observation_ok (?s\<lparr>last_request := x\<rparr>)" for x using ok by (simp add: observation_ok_def)
  with ok refresh show ?thesis unfolding observe_entry_def by simp
qed

lemma walk_ok:
  "observation_ok s \<Longrightarrow> walk get model n e s = (e', s') \<Longrightarrow>
     observation_ok s' \<and> entries s' \<le> entries s + n \<and> (e' \<noteq> None \<and> stopped s' = None \<longrightarrow> entries s' = entries s + n)"
proof (induction get model n e s rule: walk.induct)
  case (3 get model n e s)
  let ?s1 = "s\<lparr>seen := h_id e # seen s, entries := Suc (entries s)\<rparr>"
  let ?s2 = "observe_entry model e ?s1"
  show ?case
  proof (cases "h_id e \<in> set (seen s)")
    case True
    with 3(5) have "s' = s\<lparr>stopped := Some ''invalid-history''\<rparr>" by simp
    with 3(4) show ?thesis by (simp add: observation_ok_def)
  next
    case new: False
    show ?thesis
    proof (cases "h_type e \<in> set stop_types \<or> (h_type e = ''message'' \<and> h_role e = ''system'')")
      case True
      with 3(5) new have "s' = ?s1\<lparr>stopped := Some (h_type e)\<rparr>" by (simp add: Let_def)
      with 3(4) new show ?thesis by (simp add: observation_ok_def)
    next
      case go: False
      have s2: "observation_ok ?s2" "entries ?s2 = Suc (entries s)"
        using observe_entry_ok [OF 3(4) new] by blast+
      have m: "observation_ok (?s2\<lparr>stopped := x\<rparr>)" for x using s2(1) by (simp add: observation_ok_def)
      show ?thesis
      proof (cases "h_parent e")
        case None
        with 3(5) new go have "walk get model n None ?s2 = (e', s')" by (simp add: Let_def)
        then show ?thesis using s2 by simp
      next
        case (Some p)
        show ?thesis
        proof (cases "get p")
          case None
          with Some 3(5) new go have "walk get model n None (?s2\<lparr>stopped := Some ''missing-parent''\<rparr>) = (e', s')"
            by (simp add: Let_def)
          then show ?thesis using s2 m by auto
        next
          case (Some e2)
          with \<open>h_parent e = Some p\<close> 3(5) new go have w: "walk get model n (Some e2) ?s2 = (e', s')" by (simp add: Let_def)
          have IH: "observation_ok s' \<and> entries s' \<le> entries ?s2 + n
              \<and> (e' \<noteq> None \<and> stopped s' = None \<longrightarrow> entries s' = entries ?s2 + n)"
            by (rule 3(3) [OF new refl go refl \<open>h_parent e = Some p\<close> Some s2(1) w])
          then show ?thesis using s2(2) by simp
        qed
      qed
    qed
  qed
qed (simp_all)

section \<open>Properties\<close>

text \<open>at most one native warming handle is out. In every reachable state each handle ever acquired was released
  exactly once, but for the one kept; it is kept while leases live, and without a lease only if its release failed.\<close>

theorem cache_single_native_handle:
  assumes "s = run (lease_step rel) (new_leases sid) es"
  shows "length (live s) \<le> 128 \<and> distinct (released s)
    \<and> set (released s) \<union> set_option (native s) = {..<acquired s} \<and> set (released s) \<inter> set_option (native s) = {}
    \<and> (live s \<noteq> [] \<longrightarrow> native s \<noteq> None \<and> \<not> cleanup_failed s)
    \<and> (live s = [] \<and> native s \<noteq> None \<longrightarrow> cleanup_failed s)"
proof -
  have ok: "leases_ok s" unfolding assms by (rule lease.inv_run [OF leases_new])
  then show ?thesis by (cases "native s") (auto simp: leases_ok_def handles_ok_def MAX_CACHE_LEASES_def)
qed

definition example_ctx :: "string \<Rightarrow> ctx" where
  "example_ctx k = \<lparr>c_session = ''s'', c_key = k, c_supported = True, c_model = True\<rparr>"

definition example_hold :: "string \<Rightarrow> hold_request" where
  "example_hold i = \<lparr>r_duration = 1000, r_bounds = False, r_scope = Session, r_invocation = ''run'', r_aborted = False,
     r_aborted_after = False, r_id = i, r_now = 5, r_acquired = True\<rparr>"

theorem cache_single_native_handle_witness:
  "length (live (run (lease_step (\<lambda>_. False)) (new_leases ''s'') [Hold (example_hold ''a'') (example_ctx ''k''), TimerFires ''a''])) \<le> 128
    \<and> distinct (released (run (lease_step (\<lambda>_. False)) (new_leases ''s'') [Hold (example_hold ''a'') (example_ctx ''k''), TimerFires ''a'']))
    \<and> set (released (run (lease_step (\<lambda>_. False)) (new_leases ''s'') [Hold (example_hold ''a'') (example_ctx ''k''), TimerFires ''a'']))
        \<union> set_option (native (run (lease_step (\<lambda>_. False)) (new_leases ''s'') [Hold (example_hold ''a'') (example_ctx ''k''), TimerFires ''a'']))
        = {..<acquired (run (lease_step (\<lambda>_. False)) (new_leases ''s'') [Hold (example_hold ''a'') (example_ctx ''k''), TimerFires ''a''])}"
  using cache_single_native_handle [OF refl, of "\<lambda>_. False" "''s''" "[Hold (example_hold ''a'') (example_ctx ''k''), TimerFires ''a'']"]
  by blast

text \<open>a lease is only ever held under its own context. A \<open>hold\<close> that succeeds leaves the native handle bound to the
  digest of the caller's context; leases held under another binding are gone, those of the same binding stay.\<close>

theorem hold_binds_context:
  assumes "s = run (lease_step rel) (new_leases sid) es" and "hold rel r c s = (Held i e, s')"
  shows "native s' \<noteq> None \<and> binding s' = Some (c_key c) \<and> i = r_id r \<and> e = r_now r + r_duration r
    \<and> (\<exists>l. jm_get (live s') i = Some l \<and> l_expires l = e \<and> l_scope l = r_scope r)
    \<and> live s' = jm_set i (the (jm_get (live s') i)) (if binding s = Some (c_key c) then live s else [])"
proof -
  have ok: "leases_ok s" unfolding assms(1) by (rule lease.inv_run [OF leases_new])
  let ?s = "reconcile rel c s"
  have rk: "leases_ok ?s" by (rule reconcile_ok [OF ok])
  have h: "fst (hold rel r c s) = Held i e" "snd (hold rel r c s) = s'" using assms(2) by simp_all
  show ?thesis
  proof (cases rel r c s rule: hold_cases)
    case (4 s3 s4 l)
    from 4(7) assms(2) have r: "i = r_id r" "e = r_now r + r_duration r" "s' = s4" by (auto split: if_splits)
    have sup: "c_supported c" using assms(2) by (auto simp: hold_def Let_def split: if_splits)
    have b3: "native s3 \<noteq> None \<and> binding s3 = Some (c_key c)"
    proof (cases "native ?s")
      case None
      with 4(4) show ?thesis by (simp add: acquire_native_def)
    next
      case (Some k)
      then have "binding ?s \<noteq> None" using rk by (simp add: leases_ok_def handles_ok_def)
      with reconcile_binding [OF ok, of rel c] 4(2) have "binding ?s = Some (c_key c)" by auto
      with Some 4(4) show ?thesis by simp
    qed
    have l3: "live s3 = live ?s" using 4(4) by (simp add: acquire_native_def)
    have "live ?s = (if binding s = Some (c_key c) then live s else [])"
    proof (cases "binding s = None")
      case True
      then have "live s = []" using ok by (auto simp: leases_ok_def handles_ok_def split: option.splits)
      with True show ?thesis by (auto simp: reconcile_def Let_def)
    next
      case False
      then show ?thesis using sup invalidate_ok(2) [OF ok, of rel] by (auto simp: reconcile_def Let_def)
    qed
    with b3 l3 r 4(5,6) show ?thesis by (simp add: jm_get_set)
  qed ((use h in blast)+)
qed

theorem hold_binds_context_witness:
  "native (snd (hold (\<lambda>_. True) (example_hold ''b'') (example_ctx ''k2'')
      (run (lease_step (\<lambda>_. True)) (new_leases ''s'') [Hold (example_hold ''a'') (example_ctx ''k'')]))) \<noteq> None"
proof -
  let ?s = "run (lease_step (\<lambda>_. True)) (new_leases ''s'') [Hold (example_hold ''a'') (example_ctx ''k'')]"
  have "fst (hold (\<lambda>_. True) (example_hold ''b'') (example_ctx ''k2'') ?s) = Held ''b'' 1005" by code_simp
  then have "hold (\<lambda>_. True) (example_hold ''b'') (example_ctx ''k2'') ?s
      = (Held ''b'' 1005, snd (hold (\<lambda>_. True) (example_hold ''b'') (example_ctx ''k2'') ?s))" by (metis prod.collapse)
  from hold_binds_context [OF refl this] show ?thesis by blast
qed

text \<open>the end of an invocation that did not succeed releases exactly its session leases: every component lease
  and every lease of another invocation stays.\<close>

theorem failed_invocation_releases:
  assumes "s = run (lease_step rel) (new_leases sid) es"
  shows "live (invocation_ended rel i False s) = filter (\<lambda>p. \<not> (l_scope (snd p) = Session \<and> l_invocation (snd p) = i)) (live s)"
proof -
  have ok: "leases_ok s" unfolding assms by (rule lease.inv_run [OF leases_new])
  let ?m = "\<lambda>p. l_scope (snd p) = Session \<and> l_invocation (snd p) = i"
  have f: "foldl (ended_one rel i False) s0 ps = foldl (\<lambda>s i. snd (drop_lease rel i s)) s0 (map fst (filter ?m ps))" for s0 ps
    by (induction ps arbitrary: s0) (auto simp: ended_one_def)
  have "live (invocation_ended rel i False s) = filter (\<lambda>p. fst p \<notin> set (map fst (filter ?m (live s)))) (live s)"
    using drop_list [OF ok, of rel "map fst (filter ?m (live s))"] by (simp add: invocation_ended_def f)
  also have "\<dots> = filter (\<lambda>p. \<not> ?m p) (live s)"
  proof (rule filter_cong [OF refl])
    fix p assume p: "p \<in> set (live s)"
    have "distinct (map fst (live s))" using ok by (simp add: leases_ok_def jm_ok_def jm_keys_def)
    then have "q = p" if "q \<in> set (live s)" "fst q = fst p" for q using p that by (metis eq_key_imp_eq_value prod.collapse)
    with p show "fst p \<notin> set (map fst (filter ?m (live s))) \<longleftrightarrow> \<not> ?m p" by auto
  qed
  finally show ?thesis .
qed

theorem failed_invocation_releases_witness:
  "live (invocation_ended (\<lambda>_. True) ''run'' False (run (lease_step (\<lambda>_. True)) (new_leases ''s'') [Hold (example_hold ''a'') (example_ctx ''k'')]))
    = filter (\<lambda>p. \<not> (l_scope (snd p) = Session \<and> l_invocation (snd p) = ''run''))
        (live (run (lease_step (\<lambda>_. True)) (new_leases ''s'') [Hold (example_hold ''a'') (example_ctx ''k'')]))"
  by (rule failed_invocation_releases [OF refl])

text \<open>the observation of any history - cyclic, broken or endless - visits at most 256 entries, each once, accounts every
  refresh once as known or unknown, and reports truncation only when the whole window was used.\<close>

theorem observation_bounded:
  "observation_ok (fst (observe_prompt_cache get model leaf)) \<and> entries (fst (observe_prompt_cache get model leaf)) \<le> 256
    \<and> (snd (observe_prompt_cache get model leaf) \<longrightarrow> entries (fst (observe_prompt_cache get model leaf)) = 256)"
proof -
  obtain e s where w: "walk get model CACHE_OBSERVATION_LIMIT leaf new_observation = (e, s)" by fastforce
  have "observation_ok new_observation" by (simp add: observation_ok_def new_observation_def max_safe_def)
  from walk_ok [OF this w] show ?thesis
    by (simp add: observe_prompt_cache_def w) (simp add: new_observation_def CACHE_OBSERVATION_LIMIT_def)
qed

theorem observation_bounded_witness:
  "entries (fst (observe_prompt_cache (\<lambda>_. None) None None)) \<le> 256 \<and> observation_ok (fst (observe_prompt_cache (\<lambda>_. None) None None))"
  using observation_bounded [of "\<lambda>_. None" None None] by blast

end
