(* ===== verification/DrainGate.thy ===== *)
theory DrainGate imports Prelude "HOL-Library.Sublist" begin

text \<open>
  \<^verbatim>\<open>src/src/main-drain/slot.ts\<close> and \<^verbatim>\<open>gate.ts\<close>: the process-global drain slots, one per Main root, and the gate that
  refuses new input while a root drains, but for the drain's own children. Opaque records the gate only carries
  (the binding's fields, recorded actors) are type parameters; the digest of a refused text is the argument \<open>sha\<close>.
\<close>

section \<open>Slots\<close>

record entry =
  e_at :: int
  e_path :: string
  e_from :: "string option"
  e_id :: "string option"

record refusal =
  f_entry :: entry
  f_sha :: "string option"

record 'b slot =
  gate_closed :: "int option"
  binding :: "'b option"
  fence :: bool
  children :: "(string list \<times> string list) option"
  admitted :: "entry list option"
  ledger :: "refusal list option"
  ledger_overflow :: "nat option"
  stopped :: "string list option"
  stop_attempted :: "string list option"
  restored :: "(string \<times> string) list option"
  pending_operation :: bool
  pending_stop :: bool

type_synonym 'b slots = "(string, 'b slot) jmap"

definition empty_slot :: "'b slot" where
  "empty_slot = \<lparr>gate_closed = None, binding = None, fence = False, children = None, admitted = None, ledger = None,
     ledger_overflow = None, stopped = None, stop_attempted = None, restored = None, pending_operation = False, pending_stop = False\<rparr>"

definition drain_slot :: "string \<Rightarrow> 'b slots \<Rightarrow> 'b slot \<times> 'b slots" where
  "drain_slot rt m = (case jm_get m rt of Some s \<Rightarrow> (s, m) | None \<Rightarrow> (empty_slot, jm_set rt empty_slot m))"

definition peek_drain_slot :: "string \<Rightarrow> 'b slots \<Rightarrow> 'b slot option" where
  "peek_drain_slot rt m = jm_get m rt"

definition none_or_empty :: "'a list option \<Rightarrow> bool" where
  "none_or_empty x = (case x of None \<Rightarrow> True | Some l \<Rightarrow> l = [])"

definition prunable :: "'b slot \<Rightarrow> bool" where
  "prunable s \<longleftrightarrow> gate_closed s = None \<and> binding s = None \<and> \<not> fence s \<and> none_or_empty (stopped s)
     \<and> none_or_empty (stop_attempted s) \<and> none_or_empty (restored s) \<and> \<not> pending_operation s \<and> \<not> pending_stop s"

definition prune_drain_slot :: "string \<Rightarrow> 'b slots \<Rightarrow> 'b slots" where
  "prune_drain_slot rt m = (case jm_get m rt of Some s \<Rightarrow> if prunable s then jm_del rt m else m | None \<Rightarrow> m)"

definition LEDGER_LIMIT :: nat where "LEDGER_LIMIT = 1000"

definition append_bounded :: "'a list \<Rightarrow> 'a \<Rightarrow> bool \<times> 'a list" where
  "append_bounded xs x = (if length xs \<ge> LEDGER_LIMIT then (False, xs) else (True, xs @ [x]))"

section \<open>The gate\<close>

definition close_main_inbox :: "string \<Rightarrow> int \<Rightarrow> 'b slots \<Rightarrow> int \<times> 'b slots" where
  "close_main_inbox rt now m =
     (let (s, m1) = drain_slot rt m in
      case gate_closed s of
        Some t \<Rightarrow> (t, m1)
      | None \<Rightarrow> (now, jm_set rt (s\<lparr>gate_closed := Some now\<rparr>) m1))"

definition reopen_main_inbox :: "string \<Rightarrow> 'b slots \<Rightarrow> bool \<times> 'b slots" where
  "reopen_main_inbox rt m =
     (case jm_get m rt of
        None \<Rightarrow> (False, prune_drain_slot rt m)
      | Some s \<Rightarrow> (gate_closed s \<noteq> None, prune_drain_slot rt (jm_set rt (s\<lparr>gate_closed := None\<rparr>) m)))"

definition main_inbox_drain_gate :: "string \<Rightarrow> 'b slots \<Rightarrow> int option" where
  "main_inbox_drain_gate rt m = (case peek_drain_slot rt m of Some s \<Rightarrow> gate_closed s | None \<Rightarrow> None)"

text \<open>\<open>a_from\<close>: the sender's id when it is a string, and its kind.\<close>

record admission =
  a_path :: string
  a_from_id :: "string option"
  a_from_kind :: "string option"
  a_delivery :: "string option"
  a_event :: "string option"
  a_text :: "string option"

definition completion_prefix :: string where "completion_prefix = ''agent-completion:''"

definition completed_run :: "admission \<Rightarrow> string option" where
  "completed_run a = (case a_delivery a of
     Some d \<Rightarrow> if prefix completion_prefix d then Some (drop (length completion_prefix) d) else None | None \<Rightarrow> None)"

definition own_child :: "'b slot \<Rightarrow> admission \<Rightarrow> bool" where
  "own_child s a \<longleftrightarrow> (case (children s, a_from_id a) of
     (Some (runs, actors), Some i) \<Rightarrow> \<not> fence s \<and>
       ((case completed_run a of Some r \<Rightarrow> a_from_kind a = Some ''agent'' \<and> i = r \<and> r \<in> set runs | None \<Rightarrow> False)
        \<or> (a_from_kind a = Some ''actor'' \<and> i \<in> set actors))
   | _ \<Rightarrow> False)"

definition admission_entry :: "int \<Rightarrow> admission \<Rightarrow> entry" where
  "admission_entry now a = \<lparr>e_at = now, e_path = a_path a, e_from = a_from_id a,
     e_id = (case a_delivery a of Some d \<Rightarrow> Some d | None \<Rightarrow> a_event a)\<rparr>"

definition list_or_new :: "'a list option \<Rightarrow> 'a list" where
  "list_or_new x = (case x of Some l \<Rightarrow> l | None \<Rightarrow> [])"

datatype verdict = Open | Draining string

definition assert_main_inbox_open :: "(string \<Rightarrow> string) \<Rightarrow> string \<Rightarrow> int \<Rightarrow> admission option \<Rightarrow> 'b slots \<Rightarrow> verdict \<times> 'b slots" where
  "assert_main_inbox_open sha rt now adm m =
     (case jm_get m rt of
        None \<Rightarrow> (Open, m)
      | Some s \<Rightarrow>
          if gate_closed s = None then (Open, m)
          else (case adm of
            None \<Rightarrow> (Draining rt, m)
          | Some a \<Rightarrow>
              if own_child s a
              then (Open, jm_set rt (s\<lparr>admitted := Some (snd (append_bounded (list_or_new (admitted s)) (admission_entry now a)))\<rparr>) m)
              else (let (fits, l) = append_bounded (list_or_new (ledger s)) \<lparr>f_entry = admission_entry now a, f_sha = map_option sha (a_text a)\<rparr>;
                        s1 = s\<lparr>ledger := Some l\<rparr>;
                        s2 = (if fits then s1 else s1\<lparr>ledger_overflow := Some (case ledger_overflow s1 of Some n \<Rightarrow> n + 1 | None \<Rightarrow> 1)\<rparr>)
                    in (Draining rt, jm_set rt s2 m))))"

section \<open>Facts\<close>

definition refused_count :: "'b slot \<Rightarrow> nat" where
  "refused_count s = length (list_or_new (ledger s)) + (case ledger_overflow s of Some n \<Rightarrow> n | None \<Rightarrow> 0)"

definition ledger_ok :: "'b slot \<Rightarrow> bool" where
  "ledger_ok s \<longleftrightarrow> length (list_or_new (ledger s)) \<le> LEDGER_LIMIT
     \<and> (ledger_overflow s \<noteq> None \<longrightarrow> length (list_or_new (ledger s)) = LEDGER_LIMIT)"

definition open_at :: "string \<Rightarrow> 'b slots \<Rightarrow> bool" where
  "open_at rt m \<longleftrightarrow> main_inbox_drain_gate rt m = None"

lemma list_or_new_Some [simp]: "list_or_new (Some l) = l"
  by (simp add: list_or_new_def)

lemma assert_cases:
  obtains (open_gate) "main_inbox_drain_gate rt m = None" "assert_main_inbox_open sha rt now adm m = (Open, m)"
  | (probe) s where "jm_get m rt = Some s" "gate_closed s \<noteq> None" "adm = None"
      "assert_main_inbox_open sha rt now adm m = (Draining rt, m)"
  | (child) s a s' where "jm_get m rt = Some s" "gate_closed s \<noteq> None" "adm = Some a" "own_child s a"
      "s' = s\<lparr>admitted := Some (snd (append_bounded (list_or_new (admitted s)) (admission_entry now a)))\<rparr>"
      "assert_main_inbox_open sha rt now adm m = (Open, jm_set rt s' m)"
  | (refused) s a s' where "jm_get m rt = Some s" "gate_closed s \<noteq> None" "adm = Some a" "\<not> own_child s a"
      "refused_count s' = Suc (refused_count s)" "ledger_ok s \<Longrightarrow> ledger_ok s'" "gate_closed s' = gate_closed s"
      "fence s' = fence s" "children s' = children s" "admitted s' = admitted s"
      "assert_main_inbox_open sha rt now adm m = (Draining rt, jm_set rt s' m)"
proof (cases "jm_get m rt")
  case None
  then show ?thesis using open_gate by (simp add: main_inbox_drain_gate_def peek_drain_slot_def assert_main_inbox_open_def)
next
  case (Some s)
  show ?thesis
  proof (cases "gate_closed s")
    case None
    then show ?thesis using Some open_gate by (simp add: main_inbox_drain_gate_def peek_drain_slot_def assert_main_inbox_open_def)
  next
    case g: (Some t)
    show ?thesis
    proof (cases adm)
      case None
      then show ?thesis using Some g probe by (simp add: assert_main_inbox_open_def)
    next
      case a: (Some a)
      show ?thesis
      proof (cases "own_child s a")
        case True
        then show ?thesis using Some g a by (intro child [OF Some _ a True refl]) (simp_all add: assert_main_inbox_open_def)
      next
        case False
        define r where "r = \<lparr>f_entry = admission_entry now a, f_sha = map_option sha (a_text a)\<rparr>"
        define s1 where "s1 = s\<lparr>ledger := Some (snd (append_bounded (list_or_new (ledger s)) r))\<rparr>"
        define s2 where "s2 = (if fst (append_bounded (list_or_new (ledger s)) r) then s1
          else s1\<lparr>ledger_overflow := Some (case ledger_overflow s1 of Some n \<Rightarrow> n + 1 | None \<Rightarrow> 1)\<rparr>)"
        have e: "assert_main_inbox_open sha rt now adm m = (Draining rt, jm_set rt s2 m)"
          using Some g a False by (simp add: assert_main_inbox_open_def split_beta Let_def s2_def s1_def r_def)
        have c: "refused_count s2 = Suc (refused_count s)"
          by (simp add: s2_def s1_def refused_count_def append_bounded_def split: option.split)
        have k: "ledger_ok s \<Longrightarrow> ledger_ok s2"
          by (auto simp: s2_def s1_def ledger_ok_def append_bounded_def)
        show ?thesis
          by (rule refused [OF Some _ a False c k _ _ _ _ e]) (simp_all add: g s2_def s1_def)
      qed
    qed
  qed
qed

text \<open>A sequence of live admissions at one root.\<close>

fun admissions :: "(string \<Rightarrow> string) \<Rightarrow> string \<Rightarrow> (int \<times> admission) list \<Rightarrow> 'b slots \<Rightarrow> verdict list \<times> 'b slots" where
  "admissions sha rt [] m = ([], m)"
| "admissions sha rt (x # xs) m =
     (let (v, m1) = assert_main_inbox_open sha rt (fst x) (Some (snd x)) m; (vs, m2) = admissions sha rt xs m1 in (v # vs, m2))"

lemma admissions_ledger:
  assumes "jm_get m rt = Some s" and "gate_closed s \<noteq> None" and "ledger_ok s"
  shows "\<exists>s'. jm_get (snd (admissions sha rt xs m)) rt = Some s' \<and> gate_closed s' = gate_closed s \<and> ledger_ok s'
    \<and> refused_count s' = refused_count s + length (filter (\<lambda>v. v \<noteq> Open) (fst (admissions sha rt xs m)))"
  using assms
proof (induction xs arbitrary: m s)
  case Nil
  then show ?case by auto
next
  case (Cons x xs)
  obtain v m1 where v: "assert_main_inbox_open sha rt (fst x) (Some (snd x)) m = (v, m1)" by fastforce
  have "\<exists>s1. jm_get m1 rt = Some s1 \<and> gate_closed s1 = gate_closed s \<and> ledger_ok s1
      \<and> refused_count s1 = refused_count s + (if v = Open then 0 else 1)"
  proof (cases rule: assert_cases [where adm = "Some (snd x)" and m = m and rt = rt and now = "fst x" and sha = sha])
    case open_gate
    with Cons.prems show ?thesis by (simp add: main_inbox_drain_gate_def peek_drain_slot_def)
  next
    case (child s0 a s')
    with Cons.prems v show ?thesis by (auto simp: jm_get_set ledger_ok_def refused_count_def)
  next
    case (refused s0 a s')
    with Cons.prems v show ?thesis by (auto simp: jm_get_set)
  qed simp
  then obtain s1 where s1: "jm_get m1 rt = Some s1" "gate_closed s1 = gate_closed s" "ledger_ok s1"
    "refused_count s1 = refused_count s + (if v = Open then 0 else 1)" by blast
  from Cons.IH [OF s1(1) _ s1(3)] s1 Cons.prems(2) show ?case
    by (auto simp: v split_beta Let_def)
qed

section \<open>Properties\<close>

text \<open>Who may enter a draining root, as rules: the run a completion names, or a registered actor, while the fence is open.\<close>

inductive may_enter :: "'b slot \<Rightarrow> admission \<Rightarrow> bool" for s a where
  completing_run: "children s = Some (runs, actors) \<Longrightarrow> \<not> fence s \<Longrightarrow> a_delivery a = Some (''agent-completion:'' @ r) \<Longrightarrow>
    a_from_kind a = Some ''agent'' \<Longrightarrow> a_from_id a = Some r \<Longrightarrow> r \<in> set runs \<Longrightarrow> may_enter s a"
| own_actor: "children s = Some (runs, actors) \<Longrightarrow> \<not> fence s \<Longrightarrow> a_from_kind a = Some ''actor'' \<Longrightarrow> a_from_id a = Some i \<Longrightarrow>
    i \<in> set actors \<Longrightarrow> may_enter s a"

inductive_simps may_enter_simps: "may_enter s a"

lemma completed_run_iff: "completed_run a = Some r \<longleftrightarrow> a_delivery a = Some (''agent-completion:'' @ r)"
  by (auto simp: completed_run_def completion_prefix_def prefix_def split: option.splits)

lemma own_child_iff: "own_child s a \<longleftrightarrow> may_enter s a"
proof
  assume "own_child s a"
  then obtain runs actors i where c: "children s = Some (runs, actors)" "a_from_id a = Some i" "\<not> fence s"
    and k: "(\<exists>r. completed_run a = Some r \<and> a_from_kind a = Some ''agent'' \<and> i = r \<and> r \<in> set runs) \<or> (a_from_kind a = Some ''actor'' \<and> i \<in> set actors)"
    by (cases "completed_run a"; cases "children s"; cases "a_from_id a") (auto simp: own_child_def)
  from k show "may_enter s a"
  proof
    assume "\<exists>r. completed_run a = Some r \<and> a_from_kind a = Some ''agent'' \<and> i = r \<and> r \<in> set runs"
    then show ?thesis using c completing_run [of s runs actors a i] completed_run_iff by blast
  next
    assume "a_from_kind a = Some ''actor'' \<and> i \<in> set actors"
    then show ?thesis using c own_actor [of s runs actors a i] by blast
  qed
next
  assume "may_enter s a"
  then show "own_child s a" by cases (auto simp: own_child_def completed_run_iff [THEN iffD2])
qed

text \<open>C9: the gate's verdict. A request is let through exactly when its root's gate is open or it is a live admission of one
  of the drain's own children (a completion sent by the very run it names, or a message of a registered actor, before
  the native fence); the dry-run probe leaves every slot as it was.\<close>

theorem gate_verdict:
  "(fst (assert_main_inbox_open sha rt now adm m) = Open \<longleftrightarrow>
     main_inbox_drain_gate rt m = None \<or> (\<exists>s a. jm_get m rt = Some s \<and> adm = Some a \<and> may_enter s a))
   \<and> snd (assert_main_inbox_open sha rt now None m) = m"
proof
  show "fst (assert_main_inbox_open sha rt now adm m) = Open \<longleftrightarrow>
      main_inbox_drain_gate rt m = None \<or> (\<exists>s a. jm_get m rt = Some s \<and> adm = Some a \<and> may_enter s a)"
    by (cases rule: assert_cases [where adm = adm and m = m and rt = rt and now = now and sha = sha])
      (auto simp: main_inbox_drain_gate_def peek_drain_slot_def own_child_iff)
  show "snd (assert_main_inbox_open sha rt now None m) = m"
    by (cases rule: assert_cases [where adm = None and m = m and rt = rt and now = now and sha = sha]) auto
qed

text \<open>the refusal ledger is complete and bounded. While a root drains, every refused live admission is either an entry of
  the ledger or counted in the overflow, the ledger never exceeds 1000 entries, and the overflow starts only when it is full.\<close>

theorem refusals_all_counted:
  assumes "jm_get m rt = Some s" and "gate_closed s \<noteq> None" and "ledger s = None" and "ledger_overflow s = None"
    and "admissions sha rt xs m = (vs, m')"
  shows "\<exists>s'. jm_get m' rt = Some s' \<and> length (list_or_new (ledger s')) = min 1000 (length (filter (\<lambda>v. v \<noteq> Open) vs))
    \<and> (case ledger_overflow s' of Some n \<Rightarrow> n | None \<Rightarrow> 0) = length (filter (\<lambda>v. v \<noteq> Open) vs) - 1000"
proof -
  have "ledger_ok s" "refused_count s = 0"
    using assms(3,4) by (simp_all add: ledger_ok_def refused_count_def list_or_new_def)
  from admissions_ledger [OF assms(1,2) this(1), of sha xs] this(2) assms(5)
  obtain s' where s': "jm_get m' rt = Some s'" "ledger_ok s'" "refused_count s' = length (filter (\<lambda>v. v \<noteq> Open) vs)" by auto
  then show ?thesis
    by (intro exI [of _ s']) (auto simp: ledger_ok_def refused_count_def LEDGER_LIMIT_def split: option.splits)
qed

definition example_admission :: admission where
  "example_admission = \<lparr>a_path = ''deliver'', a_from_id = Some ''peer'', a_from_kind = Some ''agent'', a_delivery = Some ''agent-completion:r'',
     a_event = None, a_text = None\<rparr>"

definition example_slots :: "unit slots" where
  "example_slots = snd (close_main_inbox ''m'' 7 [])"

theorem refusals_all_counted_witness:
  "\<exists>s'. jm_get (snd (admissions (\<lambda>x. x) ''m'' [(8, example_admission), (9, example_admission)] example_slots)) ''m'' = Some s'
    \<and> length (list_or_new (ledger s')) = min 1000 (length (filter (\<lambda>v. v \<noteq> Open) [Draining ''m'', Draining ''m'']))
    \<and> (case ledger_overflow s' of Some n \<Rightarrow> n | None \<Rightarrow> 0) = length (filter (\<lambda>v. v \<noteq> Open) [Draining ''m'', Draining ''m'']) - 1000"
proof -
  let ?r = "admissions (\<lambda>x. x) ''m'' [(8, example_admission), (9, example_admission)] example_slots"
  have s: "jm_get example_slots ''m'' = Some (empty_slot\<lparr>gate_closed := Some 7\<rparr>)" by code_simp
  have "fst ?r = [Draining ''m'', Draining ''m'']"
    by (simp add: example_slots_def close_main_inbox_def drain_slot_def jm_get_set assert_main_inbox_open_def empty_slot_def
        own_child_def append_bounded_def LEDGER_LIMIT_def Let_def list_or_new_def)
  then have "?r = ([Draining ''m'', Draining ''m''], snd ?r)" by (metis prod.collapse)
  then show ?thesis by (rule refusals_all_counted [OF s, rotated 3]) (simp_all add: empty_slot_def)
qed

text \<open>closing is idempotent and an undo restores: the first closing time is kept, and reopening a root that
  holds nothing else opens its gate and removes its slot.\<close>

theorem close_then_reopen:
  "fst (close_main_inbox rt now2 (snd (close_main_inbox rt now m))) = fst (close_main_inbox rt now m)
   \<and> snd (close_main_inbox rt now2 (snd (close_main_inbox rt now m))) = snd (close_main_inbox rt now m)
   \<and> main_inbox_drain_gate rt (snd (reopen_main_inbox rt m)) = None
   \<and> fst (reopen_main_inbox rt m) = (main_inbox_drain_gate rt m \<noteq> None)
   \<and> (case jm_get (snd (reopen_main_inbox rt m)) rt of None \<Rightarrow> True | Some s \<Rightarrow> \<not> prunable s)"
proof -
  define s1 where "s1 = snd (close_main_inbox rt now m)"
  have "\<exists>s. jm_get s1 rt = Some s \<and> gate_closed s = Some (fst (close_main_inbox rt now m))"
  proof (cases "jm_get m rt")
    case None
    then show ?thesis by (simp add: s1_def close_main_inbox_def drain_slot_def jm_get_set empty_slot_def)
  next
    case (Some s)
    then show ?thesis
      by (cases "gate_closed s") (simp_all add: s1_def close_main_inbox_def drain_slot_def jm_get_set)
  qed
  then obtain s where s: "jm_get s1 rt = Some s" "gate_closed s = Some (fst (close_main_inbox rt now m))" by blast
  then have c: "close_main_inbox rt now2 s1 = (fst (close_main_inbox rt now m), s1)"
    by (simp add: close_main_inbox_def drain_slot_def)
  have r: "main_inbox_drain_gate rt (snd (reopen_main_inbox rt m)) = None
      \<and> fst (reopen_main_inbox rt m) = (main_inbox_drain_gate rt m \<noteq> None)
      \<and> (case jm_get (snd (reopen_main_inbox rt m)) rt of None \<Rightarrow> True | Some s \<Rightarrow> \<not> prunable s)"
    by (auto simp: reopen_main_inbox_def main_inbox_drain_gate_def peek_drain_slot_def prune_drain_slot_def jm_get_set
        jm_get_del split: option.splits)
  show ?thesis using c r by (simp add: s1_def)
qed

end
