(* ===== verification/Alignment.thy ===== *)
theory Alignment imports Prelude begin

text \<open>
  \<^verbatim>\<open>src/src/ui/word-diff/alignment.ts\<close>: the dynamic programs that align two sequences, from the left
  (\<open>suffixAlignedPairs\<close>) and from the right (\<open>prefixAlignedPairs\<close>), and the score alone in two rows.
  A pair score is a rational or \<open>None\<close> for minus infinity; floating-point rounding is not modelled,
  the tolerance of the comparison is. Tables are lists of rows, filled in the order of the loops.
\<close>

type_synonym score_at = "nat \<Rightarrow> nat \<Rightarrow> rat option"

definition ALIGNMENT_SCORE_EPSILON :: rat where
  "ALIGNMENT_SCORE_EPSILON = 1 / 1000000000"

definition same_alignment_score :: "rat \<Rightarrow> rat \<Rightarrow> bool" where
  "same_alignment_score a b \<longleftrightarrow> \<bar>a - b\<bar> < ALIGNMENT_SCORE_EPSILON"

text \<open>\<open>Math.max(align, x, y)\<close> with \<open>align\<close> possibly minus infinity.\<close>

definition max_cell :: "rat option \<Rightarrow> rat \<Rightarrow> rat \<Rightarrow> rat" where
  "max_cell align x y = (case align of None \<Rightarrow> max x y | Some a \<Rightarrow> max a (max x y))"

definition align_value :: "rat option \<Rightarrow> rat \<Rightarrow> rat option" where
  "align_value pairScore below = (case pairScore of None \<Rightarrow> None | Some p \<Rightarrow> Some (below + p))"

section \<open>From the left: suffix tables\<close>

text \<open>Row \<open>i\<close> from row \<open>i + 1\<close>: columns \<open>j, ..., m\<close>, filled from the right.\<close>

fun suffix_row_from :: "score_at \<Rightarrow> nat \<Rightarrow> rat list \<Rightarrow> nat \<Rightarrow> nat \<Rightarrow> rat list" where
  "suffix_row_from s i nxt m 0 = [0]"
| "suffix_row_from s i nxt m (Suc k) =
     (let acc = suffix_row_from s i nxt m k; j = m - Suc k in
      max_cell (align_value (s i j) (nxt ! Suc j)) (nxt ! j) (hd acc) # acc)"

definition suffix_row :: "score_at \<Rightarrow> nat \<Rightarrow> rat list \<Rightarrow> nat \<Rightarrow> rat list" where
  "suffix_row s i nxt m = suffix_row_from s i nxt m m"

fun suffix_rows :: "score_at \<Rightarrow> nat \<Rightarrow> nat \<Rightarrow> nat \<Rightarrow> rat list list" where
  "suffix_rows s n m 0 = [replicate (Suc m) 0]"
| "suffix_rows s n m (Suc k) =
     (let rows = suffix_rows s n m k in suffix_row s (n - Suc k) (hd rows) m # rows)"

definition suffix_table :: "nat \<Rightarrow> nat \<Rightarrow> score_at \<Rightarrow> rat list list" where
  "suffix_table n m s = suffix_rows s n m n"

function suffix_walk :: "rat list list \<Rightarrow> nat \<Rightarrow> nat \<Rightarrow> score_at \<Rightarrow> nat \<Rightarrow> nat \<Rightarrow> (nat \<times> nat) list" where
  "suffix_walk dp n m s i j =
     (if i < n \<and> j < m then
        (case align_value (s i j) (dp ! Suc i ! Suc j) of
           Some align \<Rightarrow>
             if same_alignment_score (dp ! i ! j) align then (i, j) # suffix_walk dp n m s (Suc i) (Suc j)
             else if dp ! Suc i ! j \<ge> dp ! i ! Suc j then suffix_walk dp n m s (Suc i) j
             else suffix_walk dp n m s i (Suc j)
         | None \<Rightarrow>
             if dp ! Suc i ! j \<ge> dp ! i ! Suc j then suffix_walk dp n m s (Suc i) j
             else suffix_walk dp n m s i (Suc j))
      else [])"
  by pat_completeness auto
termination by (relation "measure (\<lambda>(dp, n, m, s, i, j). (n - i) + (m - j))") auto

declare suffix_walk.simps [simp del]

definition suffix_aligned_pairs :: "nat \<Rightarrow> nat \<Rightarrow> score_at \<Rightarrow> (nat \<times> nat) list" where
  "suffix_aligned_pairs n m s = suffix_walk (suffix_table n m s) n m s 0 0"

section \<open>From the right: prefix tables\<close>

fun prefix_row_upto :: "score_at \<Rightarrow> nat \<Rightarrow> rat list \<Rightarrow> nat \<Rightarrow> rat list" where
  "prefix_row_upto s i prv 0 = [0]"
| "prefix_row_upto s i prv (Suc j) =
     (let acc = prefix_row_upto s i prv j in
      acc @ [max_cell (align_value (s (i - 1) j) (prv ! j)) (prv ! Suc j) (last acc)])"

fun prefix_table :: "nat \<Rightarrow> nat \<Rightarrow> score_at \<Rightarrow> rat list list" where
  "prefix_table 0 m s = [replicate (Suc m) 0]"
| "prefix_table (Suc n) m s = (let rows = prefix_table n m s in rows @ [prefix_row_upto s (Suc n) (last rows) m])"

fun prefix_walk :: "rat list list \<Rightarrow> score_at \<Rightarrow> nat \<Rightarrow> nat \<Rightarrow> (nat \<times> nat) list" where
  "prefix_walk dp s 0 j = []"
| "prefix_walk dp s (Suc i) 0 = []"
| "prefix_walk dp s (Suc i) (Suc j) =
     (case align_value (s i j) (dp ! i ! j) of
        Some pair \<Rightarrow>
          if same_alignment_score (dp ! Suc i ! Suc j) pair then (i, j) # prefix_walk dp s i j
          else if dp ! i ! Suc j \<ge> dp ! Suc i ! j then prefix_walk dp s i (Suc j)
          else prefix_walk dp s (Suc i) j
      | None \<Rightarrow>
          if dp ! i ! Suc j \<ge> dp ! Suc i ! j then prefix_walk dp s i (Suc j)
          else prefix_walk dp s (Suc i) j)"

definition prefix_aligned_pairs :: "nat \<Rightarrow> nat \<Rightarrow> score_at \<Rightarrow> (nat \<times> nat) list" where
  "prefix_aligned_pairs n m s = rev (prefix_walk (prefix_table n m s) s n m)"

section \<open>The score in two rows\<close>

text \<open>\<open>next\<close> after the rows \<open>n - 1, ..., n - k\<close>.\<close>

fun suffix_score_rows :: "score_at \<Rightarrow> nat \<Rightarrow> nat \<Rightarrow> nat \<Rightarrow> rat list" where
  "suffix_score_rows s n m 0 = replicate (Suc m) 0"
| "suffix_score_rows s n m (Suc k) = suffix_row s (n - Suc k) (suffix_score_rows s n m k) m"

definition suffix_alignment_score :: "nat \<Rightarrow> nat \<Rightarrow> score_at \<Rightarrow> rat" where
  "suffix_alignment_score n m s = suffix_score_rows s n m n ! 0"

section \<open>The tables as functions\<close>

function best :: "nat \<Rightarrow> nat \<Rightarrow> score_at \<Rightarrow> nat \<Rightarrow> nat \<Rightarrow> rat" where
  "best n m s i j =
     (if i < n \<and> j < m
      then max_cell (align_value (s i j) (best n m s (Suc i) (Suc j))) (best n m s (Suc i) j) (best n m s i (Suc j))
      else 0)"
  by pat_completeness auto
termination by (relation "measure (\<lambda>(n, m, s, i, j). (n - i) + (m - j))") auto

declare best.simps [simp del]

lemma suffix_row_from_best:
  assumes "i < n" and nxt: "\<And>j. j \<le> m \<Longrightarrow> nxt ! j = best n m s (Suc i) j" and "k \<le> m"
  shows "length (suffix_row_from s i nxt m k) = Suc k
    \<and> (\<forall>l \<le> k. suffix_row_from s i nxt m k ! l = best n m s i (m - k + l))"
  using assms(3)
proof (induction k)
  case 0
  then show ?case by (simp add: best.simps [of n m s i m])
next
  case (Suc k)
  define acc where "acc = suffix_row_from s i nxt m k"
  define j where "j = m - Suc k"
  have IH: "length acc = Suc k" "\<And>l. l \<le> k \<Longrightarrow> acc ! l = best n m s i (m - k + l)" using Suc by (auto simp: acc_def)
  have j: "j < m" "Suc j = m - k" using Suc.prems by (auto simp: j_def)
  have h: "hd acc = best n m s i (Suc j)" using IH(1) IH(2) [of 0] j by (cases acc) auto
  have e: "suffix_row_from s i nxt m (Suc k)
      = max_cell (align_value (s i j) (nxt ! Suc j)) (nxt ! j) (hd acc) # acc" by (simp add: acc_def j_def Let_def)
  have b: "max_cell (align_value (s i j) (nxt ! Suc j)) (nxt ! j) (hd acc) = best n m s i j"
    using assms(1) j by (subst best.simps) (simp add: nxt h)
  show ?case unfolding e b
  proof (intro conjI allI impI)
    show "length (best n m s i j # acc) = Suc (Suc k)" by (simp add: IH)
  next
    fix l assume l: "l \<le> Suc k"
    show "(best n m s i j # acc) ! l = best n m s i (m - Suc k + l)"
    proof (cases l)
      case 0
      then show ?thesis by (simp add: j_def)
    next
      case (Suc l')
      then have "acc ! l' = best n m s i (m - k + l')" using l IH(2) by simp
      moreover have "m - k + l' = m - Suc k + l" using Suc Suc.prems j by (simp add: j_def)
      ultimately show ?thesis using Suc by simp
    qed
  qed
qed

lemma suffix_row_best:
  assumes "i < n" and "\<And>j. j \<le> m \<Longrightarrow> nxt ! j = best n m s (Suc i) j" and "j \<le> m"
  shows "suffix_row s i nxt m ! j = best n m s i j"
  using suffix_row_from_best [OF assms(1,2) order_refl] assms(3) by (simp add: suffix_row_def)

lemma suffix_rows_best:
  "k \<le> n \<Longrightarrow> length (suffix_rows s n m k) = Suc k
     \<and> (\<forall>l \<le> k. \<forall>j \<le> m. suffix_rows s n m k ! l ! j = best n m s (n - k + l) j)"
proof (induction k)
  case 0
  then show ?case by (simp add: best.simps [of n m s n] nth_append del: replicate.simps)
next
  case (Suc k)
  let ?rows = "suffix_rows s n m k" and ?i = "n - Suc k"
  from Suc have IH: "length ?rows = Suc k" "\<And>l j. l \<le> k \<Longrightarrow> j \<le> m \<Longrightarrow> ?rows ! l ! j = best n m s (n - k + l) j" by auto
  have i: "?i < n" "Suc ?i = n - k" using Suc.prems by auto
  have hd: "hd ?rows ! j = best n m s (Suc ?i) j" if "j \<le> m" for j
    using IH(1) IH(2) [OF _ that, of 0] i by (cases ?rows) auto
  have row: "suffix_row s ?i (hd ?rows) m ! j = best n m s ?i j" if "j \<le> m" for j
    by (rule suffix_row_best [OF i(1) hd that])
  show ?case
  proof (intro conjI allI impI)
    show "length (suffix_rows s n m (Suc k)) = Suc (Suc k)" by (simp add: IH Let_def)
  next
    fix l j assume l: "l \<le> Suc k" and j: "j \<le> m"
    show "suffix_rows s n m (Suc k) ! l ! j = best n m s (n - Suc k + l) j"
    proof (cases l)
      case 0
      then show ?thesis using row [OF j] by (simp add: Let_def)
    next
      case (Suc l')
      then have "?rows ! l' ! j = best n m s (n - k + l') j" using l IH(2) j by simp
      moreover have "n - k + l' = n - Suc k + l" using Suc i by simp
      ultimately show ?thesis using Suc by (simp add: Let_def)
    qed
  qed
qed

lemma suffix_table_best: "i \<le> n \<Longrightarrow> j \<le> m \<Longrightarrow> suffix_table n m s ! i ! j = best n m s i j"
  using suffix_rows_best [of n n s m] by (simp add: suffix_table_def)

lemma suffix_score_rows_hd: "suffix_score_rows s n m k = hd (suffix_rows s n m k)"
  by (induction k) (simp_all add: Let_def)

lemma suffix_alignment_score_best: "suffix_alignment_score n m s = best n m s 0 0"
proof -
  have "suffix_rows s n m n \<noteq> []" using suffix_rows_best [of n n s m] by (metis length_0_conv nat.distinct(1) order_refl)
  then have "hd (suffix_rows s n m n) = suffix_table n m s ! 0" by (simp add: suffix_table_def hd_conv_nth)
  then show ?thesis using suffix_table_best [of 0 n 0 m s] by (simp add: suffix_alignment_score_def suffix_score_rows_hd)
qed

section \<open>Alignments\<close>

definition alignment :: "nat \<Rightarrow> nat \<Rightarrow> score_at \<Rightarrow> (nat \<times> nat) list \<Rightarrow> bool" where
  "alignment n m s ps \<longleftrightarrow> sorted_wrt (\<lambda>p q. fst p < fst q \<and> snd p < snd q) ps
     \<and> list_all (\<lambda>p. fst p < n \<and> snd p < m \<and> s (fst p) (snd p) \<noteq> None) ps"

definition pair_score :: "score_at \<Rightarrow> nat \<times> nat \<Rightarrow> rat" where
  "pair_score s p = (case s (fst p) (snd p) of Some q \<Rightarrow> q | None \<Rightarrow> 0)"

definition total :: "score_at \<Rightarrow> (nat \<times> nat) list \<Rightarrow> rat" where
  "total s ps = sum_list (map (pair_score s) ps)"

text \<open>The same with the place where the next pair may start, and mirrored.\<close>

fun aligned_from :: "nat \<Rightarrow> nat \<Rightarrow> score_at \<Rightarrow> nat \<Rightarrow> nat \<Rightarrow> (nat \<times> nat) list \<Rightarrow> bool" where
  "aligned_from n m s i j [] = True"
| "aligned_from n m s i j ((a, b) # ps) =
     (i \<le> a \<and> a < n \<and> j \<le> b \<and> b < m \<and> s a b \<noteq> None \<and> aligned_from n m s (Suc a) (Suc b) ps)"

fun aligned_down :: "score_at \<Rightarrow> nat \<Rightarrow> nat \<Rightarrow> (nat \<times> nat) list \<Rightarrow> bool" where
  "aligned_down s i j [] = True"
| "aligned_down s i j ((a, b) # ps) = (a < i \<and> b < j \<and> s a b \<noteq> None \<and> aligned_down s a b ps)"

lemma aligned_from_iff:
  "aligned_from n m s i j ps \<longleftrightarrow> alignment n m s ps \<and> list_all (\<lambda>p. i \<le> fst p \<and> j \<le> snd p) ps"
proof (induction ps arbitrary: i j)
  case Nil
  then show ?case by (simp add: alignment_def)
next
  case (Cons p ps)
  obtain a b where p: "p = (a, b)" by (cases p)
  show ?case unfolding p by (auto simp: Cons alignment_def list_all_iff Suc_le_eq)
qed

lemma aligned_down_iff:
  "aligned_down s i j (rev ps) \<longleftrightarrow> alignment i j s ps"
proof (induction ps arbitrary: i j rule: rev_induct)
  case Nil
  then show ?case by (simp add: alignment_def)
next
  case (snoc p ps)
  obtain a b where p: "p = (a, b)" by (cases p)
  show ?case unfolding p by (auto simp: snoc alignment_def list_all_iff sorted_wrt_append)
qed

lemma total_simps [simp]: "total s [] = 0" "total s (p # ps) = pair_score s p + total s ps" "total s (rev ps) = total s ps"
  by (simp_all add: total_def rev_map [symmetric] sum_list_rev)

lemma max_cell_ge: "x \<le> max_cell al x y" "y \<le> max_cell al x y" "al = Some v \<Longrightarrow> v \<le> max_cell al x y"
  by (auto simp: max_cell_def split: option.splits)

lemma max_cell_cases: "max_cell al x y = x \<or> max_cell al x y = y \<or> al = Some (max_cell al x y)"
  by (auto simp: max_cell_def max_def split: option.splits)

lemma best_mono_Suc: "best n m s (Suc i) j \<le> best n m s i j" "best n m s i (Suc j) \<le> best n m s i j"
  using best.simps [of n m s i j] max_cell_ge by (cases "i < n \<and> j < m"; auto simp: best.simps [of n m s "Suc i" j] best.simps [of n m s i "Suc j"])+

lemma best_mono: "i \<le> i' \<Longrightarrow> j \<le> j' \<Longrightarrow> best n m s i' j' \<le> best n m s i j"
proof -
  assume "i \<le> i'" "j \<le> j'"
  have "best n m s i' j' \<le> best n m s i j'" using \<open>i \<le> i'\<close>
    by (induction rule: dec_induct) (auto intro: order_trans [OF best_mono_Suc(1)])
  also have "\<dots> \<le> best n m s i j" using \<open>j \<le> j'\<close>
    by (induction rule: dec_induct) (auto intro: order_trans [OF best_mono_Suc(2)])
  finally show ?thesis .
qed

lemma best_upper: "aligned_from n m s i j ps \<Longrightarrow> total s ps \<le> best n m s i j"
proof (induction ps arbitrary: i j)
  case Nil
  have "best n m s (max i n) j \<le> best n m s i j" by (rule best_mono) auto
  then show ?case by (simp add: best.simps [of n m s "max i n" j])
next
  case (Cons p ps)
  obtain a b where p: "p = (a, b)" by (cases p)
  with Cons.prems obtain q where q: "i \<le> a" "a < n" "j \<le> b" "b < m" "s a b = Some q" "aligned_from n m s (Suc a) (Suc b) ps"
    by auto
  have "q + best n m s (Suc a) (Suc b) \<le> best n m s a b"
    using q max_cell_ge(3) [of "align_value (s a b) (best n m s (Suc a) (Suc b))"]
    by (subst (2) best.simps) (simp add: align_value_def add.commute)
  moreover have "best n m s a b \<le> best n m s i j" using q by (intro best_mono) auto
  ultimately show ?case using Cons.IH [OF q(6)] q by (simp add: p pair_score_def)
qed

text \<open>The walk keeps within the tolerance per pair of the best score.\<close>

lemma suffix_walk_good:
  assumes dp: "\<And>i j. i \<le> n \<Longrightarrow> j \<le> m \<Longrightarrow> dp ! i ! j = best n m s i j"
  shows "aligned_from n m s i j (suffix_walk dp n m s i j)
    \<and> best n m s i j \<le> total s (suffix_walk dp n m s i j)
        + ALIGNMENT_SCORE_EPSILON * of_nat (length (suffix_walk dp n m s i j))"
proof (induction "(n - i) + (m - j)" arbitrary: i j rule: less_induct)
  case less
  show ?case
  proof (cases "i < n \<and> j < m")
    case False
    then have "suffix_walk dp n m s i j = []" by (subst suffix_walk.simps) auto
    moreover have "best n m s i j = 0" using False by (subst best.simps) auto
    ultimately show ?thesis by simp
  next
    case ij: True
    have b: "best n m s i j = max_cell (align_value (s i j) (best n m s (Suc i) (Suc j))) (best n m s (Suc i) j) (best n m s i (Suc j))"
      using ij by (subst best.simps) simp
    have d: "dp ! Suc i ! Suc j = best n m s (Suc i) (Suc j)" "dp ! i ! j = best n m s i j"
      "dp ! Suc i ! j = best n m s (Suc i) j" "dp ! i ! Suc j = best n m s i (Suc j)" using dp ij by auto
    have down: "aligned_from n m s i j ps" if "aligned_from n m s i' j' ps" "i \<le> i'" "j \<le> j'" for ps i' j'
      using that by (cases ps) auto
    have IH1: "aligned_from n m s i j (suffix_walk dp n m s (Suc i) j)"
      "best n m s (Suc i) j \<le> total s (suffix_walk dp n m s (Suc i) j) + ALIGNMENT_SCORE_EPSILON * of_nat (length (suffix_walk dp n m s (Suc i) j))"
      using less [of "Suc i" j] ij down [of "Suc i" j] by (auto simp: diff_less_mono2)
    have IH2: "aligned_from n m s i j (suffix_walk dp n m s i (Suc j))"
      "best n m s i (Suc j) \<le> total s (suffix_walk dp n m s i (Suc j)) + ALIGNMENT_SCORE_EPSILON * of_nat (length (suffix_walk dp n m s i (Suc j)))"
      using less [of i "Suc j"] ij down [of i "Suc j"] by (auto simp: diff_less_mono2)
    have IH3: "aligned_from n m s (Suc i) (Suc j) (suffix_walk dp n m s (Suc i) (Suc j))"
      "best n m s (Suc i) (Suc j) \<le> total s (suffix_walk dp n m s (Suc i) (Suc j)) + ALIGNMENT_SCORE_EPSILON * of_nat (length (suffix_walk dp n m s (Suc i) (Suc j)))"
      using less [of "Suc i" "Suc j"] ij by auto
    show ?thesis
    proof (cases "\<exists>al. align_value (s i j) (best n m s (Suc i) (Suc j)) = Some al \<and> same_alignment_score (best n m s i j) al")
      case True
      then obtain q where q: "s i j = Some q" "same_alignment_score (best n m s i j) (best n m s (Suc i) (Suc j) + q)"
        by (auto simp: align_value_def split: option.splits)
      then have w: "suffix_walk dp n m s i j = (i, j) # suffix_walk dp n m s (Suc i) (Suc j)"
        using ij by (subst suffix_walk.simps) (simp add: d align_value_def)
      have "best n m s i j \<le> best n m s (Suc i) (Suc j) + q + ALIGNMENT_SCORE_EPSILON"
        using q(2) by (simp add: same_alignment_score_def)
      with IH3 q ij show ?thesis by (simp add: w pair_score_def algebra_simps)
    next
      case False
      have "best n m s i j \<noteq> al" if "align_value (s i j) (best n m s (Suc i) (Suc j)) = Some al" for al
        using False that by (auto simp: same_alignment_score_def ALIGNMENT_SCORE_EPSILON_def)
      with b max_cell_cases have m: "best n m s i j = best n m s (Suc i) j \<or> best n m s i j = best n m s i (Suc j)" by metis
      have le: "best n m s (Suc i) j \<le> best n m s i j" "best n m s i (Suc j) \<le> best n m s i j" by (rule best_mono_Suc)+
      have w: "suffix_walk dp n m s i j = (if best n m s (Suc i) j \<ge> best n m s i (Suc j) then suffix_walk dp n m s (Suc i) j
          else suffix_walk dp n m s i (Suc j))"
        using ij False by (subst suffix_walk.simps) (auto simp: d split: option.split)
      show ?thesis
      proof (cases "best n m s (Suc i) j \<ge> best n m s i (Suc j)")
        case True
        with m le have "best n m s i j = best n m s (Suc i) j" by linarith
        with True IH1 w show ?thesis by simp
      next
        case False
        with m le have "best n m s i j = best n m s i (Suc j)" by linarith
        with False IH2 w show ?thesis by simp
      qed
    qed
  qed
qed

section \<open>The prefix program\<close>

fun pbest :: "score_at \<Rightarrow> nat \<Rightarrow> nat \<Rightarrow> rat" where
  "pbest s 0 j = 0"
| "pbest s (Suc i) 0 = 0"
| "pbest s (Suc i) (Suc j) = max_cell (align_value (s i j) (pbest s i j)) (pbest s i (Suc j)) (pbest s (Suc i) j)"

lemma pbest_0 [simp]: "pbest s i 0 = 0"
  by (cases i) simp_all

lemma prefix_row_pbest:
  assumes "\<And>j. j \<le> m \<Longrightarrow> prv ! j = pbest s i j" and "k \<le> m"
  shows "length (prefix_row_upto s (Suc i) prv k) = Suc k \<and> (\<forall>j \<le> k. prefix_row_upto s (Suc i) prv k ! j = pbest s (Suc i) j)"
  using assms(2)
proof (induction k)
  case 0
  then show ?case by simp
next
  case (Suc k)
  define acc where "acc = prefix_row_upto s (Suc i) prv k"
  have IH: "length acc = Suc k" "\<And>j. j \<le> k \<Longrightarrow> acc ! j = pbest s (Suc i) j" using Suc by (auto simp: acc_def)
  then have "acc \<noteq> []" "acc ! k = pbest s (Suc i) k" by auto
  then have "last acc = pbest s (Suc i) k" using IH(1) by (simp add: last_conv_nth)
  then have e: "prefix_row_upto s (Suc i) prv (Suc k) = acc @ [pbest s (Suc i) (Suc k)]"
    using Suc.prems assms(1) by (simp add: acc_def [symmetric] Let_def)
  show ?case unfolding e using IH by (auto simp: nth_append le_Suc_eq)
qed

lemma prefix_table_pbest:
  "length (prefix_table n m s) = Suc n \<and> (\<forall>i \<le> n. \<forall>j \<le> m. prefix_table n m s ! i ! j = pbest s i j)"
proof (induction n)
  case 0
  then show ?case by (simp del: replicate.simps)
next
  case (Suc n)
  let ?rows = "prefix_table n m s"
  have "?rows ! n = last ?rows" using Suc by (cases ?rows rule: rev_cases) (auto simp: nth_append)
  then have "last ?rows ! j = pbest s n j" if "j \<le> m" for j using Suc that by auto
  from prefix_row_pbest [where m = m and k = m, OF this] Suc show ?case
    by (auto simp: Let_def nth_append le_Suc_eq)
qed

lemma pbest_mono_Suc: "pbest s i j \<le> pbest s (Suc i) j" "pbest s i j \<le> pbest s i (Suc j)"
proof -
  have nonneg: "0 \<le> pbest s i j" for i j
    by (induction s i j rule: pbest.induct) (auto intro: order_trans [OF _ max_cell_ge(1)])
  show "pbest s i j \<le> pbest s (Suc i) j" by (cases j) (simp_all add: max_cell_ge)
  show "pbest s i j \<le> pbest s i (Suc j)" by (cases i) (simp_all add: max_cell_ge)
qed

lemma pbest_mono: "i \<le> i' \<Longrightarrow> j \<le> j' \<Longrightarrow> pbest s i j \<le> pbest s i' j'"
proof -
  assume "i \<le> i'" "j \<le> j'"
  have "pbest s i j \<le> pbest s i' j" using \<open>i \<le> i'\<close>
    by (induction rule: dec_induct) (auto intro: order_trans [OF _ pbest_mono_Suc(1)])
  also have "\<dots> \<le> pbest s i' j'" using \<open>j \<le> j'\<close>
    by (induction rule: dec_induct) (auto intro: order_trans [OF _ pbest_mono_Suc(2)])
  finally show ?thesis .
qed

lemma pbest_upper: "aligned_down s i j ps \<Longrightarrow> total s ps \<le> pbest s i j"
proof (induction ps arbitrary: i j)
  case Nil
  have "pbest s 0 j \<le> pbest s i j" by (rule pbest_mono) auto
  then show ?case by simp
next
  case (Cons p ps)
  obtain a b where p: "p = (a, b)" by (cases p)
  with Cons.prems obtain q where q: "a < i" "b < j" "s a b = Some q" "aligned_down s a b ps" by auto
  have "q + pbest s a b \<le> pbest s (Suc a) (Suc b)"
    using q max_cell_ge(3) [of "align_value (s a b) (pbest s a b)"] by (simp add: align_value_def add.commute)
  moreover have "pbest s (Suc a) (Suc b) \<le> pbest s i j" using q by (intro pbest_mono) auto
  ultimately show ?case using Cons.IH [OF q(4)] q by (simp add: p pair_score_def)
qed

lemma prefix_walk_good:
  assumes dp: "\<And>i j. i \<le> n \<Longrightarrow> j \<le> m \<Longrightarrow> dp ! i ! j = pbest s i j"
  shows "i \<le> n \<Longrightarrow> j \<le> m \<Longrightarrow> aligned_down s i j (prefix_walk dp s i j)
    \<and> pbest s i j \<le> total s (prefix_walk dp s i j) + ALIGNMENT_SCORE_EPSILON * of_nat (length (prefix_walk dp s i j))"
proof (induction "i + j" arbitrary: i j rule: less_induct)
  case less
  show ?case
  proof (cases "i = 0 \<or> j = 0")
    case True
    then show ?thesis by (cases i) auto
  next
    case False
    then obtain a b where ab: "i = Suc a" "j = Suc b" by (cases i; cases j) auto
    have d: "dp ! a ! b = pbest s a b" "dp ! i ! j = pbest s i j" "dp ! a ! j = pbest s a j" "dp ! i ! b = pbest s i b"
      using dp less.prems ab by auto
    have up: "aligned_down s i j ps" if "aligned_down s i' j' ps" "i' \<le> i" "j' \<le> j" for ps i' j'
      using that by (cases ps) auto
    have IH1: "aligned_down s i j (prefix_walk dp s a j)"
      "pbest s a j \<le> total s (prefix_walk dp s a j) + ALIGNMENT_SCORE_EPSILON * of_nat (length (prefix_walk dp s a j))"
      using less.hyps [of a j] less.prems ab up [of a j] by auto
    have IH2: "aligned_down s i j (prefix_walk dp s i b)"
      "pbest s i b \<le> total s (prefix_walk dp s i b) + ALIGNMENT_SCORE_EPSILON * of_nat (length (prefix_walk dp s i b))"
      using less.hyps [of i b] less.prems ab up [of i b] by auto
    have IH3: "aligned_down s a b (prefix_walk dp s a b)"
      "pbest s a b \<le> total s (prefix_walk dp s a b) + ALIGNMENT_SCORE_EPSILON * of_nat (length (prefix_walk dp s a b))"
      using less.hyps [of a b] less.prems ab by auto
    have bst: "pbest s i j = max_cell (align_value (s a b) (pbest s a b)) (pbest s a j) (pbest s i b)"
      by (simp add: ab)
    have walk: "prefix_walk dp s i j = (case align_value (s a b) (dp ! a ! b) of
        Some pair \<Rightarrow> if same_alignment_score (dp ! i ! j) pair then (a, b) # prefix_walk dp s a b
          else if dp ! a ! j \<ge> dp ! i ! b then prefix_walk dp s a j else prefix_walk dp s i b
      | None \<Rightarrow> if dp ! a ! j \<ge> dp ! i ! b then prefix_walk dp s a j else prefix_walk dp s i b)"
      unfolding ab by (rule prefix_walk.simps(3))
    show ?thesis
    proof (cases "\<exists>al. align_value (s a b) (pbest s a b) = Some al \<and> same_alignment_score (pbest s i j) al")
      case True
      then obtain q where q: "s a b = Some q" "same_alignment_score (pbest s i j) (pbest s a b + q)"
        by (auto simp: align_value_def split: option.splits)
      then have w: "prefix_walk dp s i j = (a, b) # prefix_walk dp s a b" by (simp add: walk d align_value_def)
      have "pbest s i j \<le> pbest s a b + q + ALIGNMENT_SCORE_EPSILON"
        using q(2) by (simp add: same_alignment_score_def)
      then have "pbest s i j \<le> total s ((a, b) # prefix_walk dp s a b)
          + ALIGNMENT_SCORE_EPSILON * of_nat (length ((a, b) # prefix_walk dp s a b))"
        using IH3(2) q(1) by (simp add: pair_score_def algebra_simps)
      moreover have "aligned_down s i j ((a, b) # prefix_walk dp s a b)" using IH3(1) q(1) ab by simp
      ultimately show ?thesis unfolding w by blast
    next
      case False
      have "pbest s i j \<noteq> al" if "align_value (s a b) (pbest s a b) = Some al" for al
        using False that by (auto simp: same_alignment_score_def ALIGNMENT_SCORE_EPSILON_def)
      with bst max_cell_cases have m: "pbest s i j = pbest s a j \<or> pbest s i j = pbest s i b" by metis
      have le: "pbest s a j \<le> pbest s i j" "pbest s i b \<le> pbest s i j" unfolding bst by (rule max_cell_ge)+
      have w: "prefix_walk dp s i j = (if pbest s a j \<ge> pbest s i b then prefix_walk dp s a j else prefix_walk dp s i b)"
        unfolding walk using False by (auto simp: d split: option.split)
      show ?thesis
      proof (cases "pbest s a j \<ge> pbest s i b")
        case True
        with m le have "pbest s i j = pbest s a j" by linarith
        with True IH1 w show ?thesis by simp
      next
        case False
        with m le have "pbest s i j = pbest s i b" by linarith
        with False IH2 w show ?thesis by simp
      qed
    qed
  qed
qed

section \<open>The interface of an aligner\<close>

text \<open>What the token and line matchers rely on: the pairs are an alignment, and no alignment scores more than theirs
  but for the tolerance of the comparison at each pair.\<close>

locale aligner =
  fixes align :: "nat \<Rightarrow> nat \<Rightarrow> score_at \<Rightarrow> (nat \<times> nat) list"
  assumes align_alignment: "alignment n m s (align n m s)"
    and align_optimal: "alignment n m s ps \<Longrightarrow>
      total s ps \<le> total s (align n m s) + ALIGNMENT_SCORE_EPSILON * of_nat (length (align n m s))"
begin

lemma align_increasing: "sorted_wrt (\<lambda>p q. fst p < fst q \<and> snd p < snd q) (align n m s)"
  using align_alignment by (simp add: alignment_def)

lemma align_in_range: "p \<in> set (align n m s) \<Longrightarrow> fst p < n \<and> snd p < m \<and> s (fst p) (snd p) \<noteq> None"
  using align_alignment by (auto simp: alignment_def list_all_iff)

lemma align_one_to_one: "distinct (map fst (align n m s)) \<and> distinct (map snd (align n m s))"
proof -
  have "sorted_wrt (\<lambda>p q. fst p < fst q \<and> snd p < snd q) ps \<Longrightarrow> distinct (map fst ps) \<and> distinct (map snd ps)"
    for ps :: "(nat \<times> nat) list"
    by (induction ps) force+
  with align_increasing show ?thesis by blast
qed

lemma align_short: "length (align n m s) \<le> min n m"
proof -
  have "set (map fst (align n m s)) \<subseteq> {..<n}" "set (map snd (align n m s)) \<subseteq> {..<m}"
    using align_in_range by force+
  then have "card (set (map fst (align n m s))) \<le> n" "card (set (map snd (align n m s))) \<le> m"
    by (metis card_lessThan card_mono finite_lessThan)+
  then show ?thesis using align_one_to_one distinct_card by (metis length_map min.boundedI)
qed

end

interpretation suffix: aligner suffix_aligned_pairs
proof
  fix n m s ps
  note w = suffix_walk_good [where dp = "suffix_table n m s" and i = 0 and j = 0, OF suffix_table_best]
  show "alignment n m s (suffix_aligned_pairs n m s)"
    using w by (simp add: suffix_aligned_pairs_def aligned_from_iff)
  assume "alignment n m s ps"
  then have "aligned_from n m s 0 0 ps" by (simp add: aligned_from_iff list_all_iff)
  from best_upper [OF this] w
  show "total s ps \<le> total s (suffix_aligned_pairs n m s) + ALIGNMENT_SCORE_EPSILON * of_nat (length (suffix_aligned_pairs n m s))"
    unfolding suffix_aligned_pairs_def by linarith
qed

interpretation prefix: aligner prefix_aligned_pairs
proof
  fix n m s ps
  have dp: "prefix_table n m s ! i ! j = pbest s i j" if "i \<le> n" "j \<le> m" for i j
    using prefix_table_pbest [of n m s] that by blast
  note w = prefix_walk_good [where dp = "prefix_table n m s" and i = n and j = m, OF dp order_refl order_refl]
  show "alignment n m s (prefix_aligned_pairs n m s)"
    using w by (simp add: prefix_aligned_pairs_def aligned_down_iff [symmetric])
  assume "alignment n m s ps"
  then have "aligned_down s n m (rev ps)" by (simp add: aligned_down_iff)
  from pbest_upper [OF this] w
  show "total s ps \<le> total s (prefix_aligned_pairs n m s) + ALIGNMENT_SCORE_EPSILON * of_nat (length (prefix_aligned_pairs n m s))"
    unfolding prefix_aligned_pairs_def by simp
qed

section \<open>Properties\<close>

text \<open>C10: both aligners return an alignment - pairs of positions in range, increasing on both sides, each with a finite
  score - and it is optimal within the tolerance: no alignment scores more than it by a billionth per pair or more;
  the two-row program computes an upper bound of every alignment's score.\<close>

theorem aligners_near_optimal:
  assumes "alignment n m s ps"
  shows "alignment n m s (suffix_aligned_pairs n m s) \<and> alignment n m s (prefix_aligned_pairs n m s)
    \<and> total s ps \<le> suffix_alignment_score n m s
    \<and> suffix_alignment_score n m s \<le> total s (suffix_aligned_pairs n m s) + of_nat (min n m) / 1000000000
    \<and> total s ps \<le> total s (prefix_aligned_pairs n m s) + of_nat (min n m) / 1000000000"
proof -
  have e: "ALIGNMENT_SCORE_EPSILON * of_nat k \<le> of_nat (min n m) / 1000000000" if "k \<le> min n m" for k
    using that by (simp add: ALIGNMENT_SCORE_EPSILON_def divide_right_mono)
  have "aligned_from n m s 0 0 ps" using assms by (simp add: aligned_from_iff list_all_iff)
  then have u: "total s ps \<le> suffix_alignment_score n m s"
    by (simp add: suffix_alignment_score_best best_upper)
  have "suffix_alignment_score n m s \<le> total s (suffix_aligned_pairs n m s)
      + ALIGNMENT_SCORE_EPSILON * of_nat (length (suffix_aligned_pairs n m s))"
    using suffix_walk_good [where dp = "suffix_table n m s" and i = 0 and j = 0, OF suffix_table_best]
    by (simp add: suffix_alignment_score_best suffix_aligned_pairs_def)
  then have l: "suffix_alignment_score n m s \<le> total s (suffix_aligned_pairs n m s) + of_nat (min n m) / 1000000000"
    using e [OF suffix.align_short] by (rule order_trans [OF _ add_left_mono])
  have p: "total s ps \<le> total s (prefix_aligned_pairs n m s) + of_nat (min n m) / 1000000000"
    using prefix.align_optimal [OF assms] e [OF prefix.align_short] by (rule order_trans [OF _ add_left_mono])
  from u l p show ?thesis using suffix.align_alignment prefix.align_alignment by blast
qed

theorem aligners_near_optimal_witness:
  "alignment 2 2 (\<lambda>i j. if i = j then Some 1 else None) (suffix_aligned_pairs 2 2 (\<lambda>i j. if i = j then Some 1 else None))
    \<and> alignment 2 2 (\<lambda>i j. if i = j then Some 1 else None) (prefix_aligned_pairs 2 2 (\<lambda>i j. if i = j then Some 1 else None))
    \<and> 2 \<le> suffix_alignment_score 2 2 (\<lambda>i j. if i = j then Some 1 else None)"
  using aligners_near_optimal [where n = 2 and m = 2 and s = "\<lambda>i j. if i = j then Some 1 else None" and ps = "[(0, 0), (1, 1)]"]
  by (simp add: alignment_def pair_score_def)

end
