(* ===== verification/TokenGaps.thy ===== *)
theory TokenGaps imports Alignment begin

text \<open>
  \<^verbatim>\<open>src/src/ui/word-diff/token-alignment.ts\<close> (the changed gaps between two token sequences: common ends, an exact
  alignment of small regions, unique anchors for large ones) with the token weights of \<^verbatim>\<open>tokens.ts\<close> and the
  ranges of \<^verbatim>\<open>ranges.ts\<close>. The Unicode classes of identifiers and numbers are the arguments \<open>ident\<close> and \<open>num\<close>;
  positions are in range wherever the code indexes, so its \<open>RangeError\<close>s are outside the model.
\<close>

record token =
  t_value :: string
  t_from :: nat
  t_to :: nat

datatype confidence = Low | Medium | High

record gap =
  g_removed :: "nat \<times> nat"
  g_added :: "nat \<times> nat"

section \<open>Tokens\<close>

definition all_in :: "string \<Rightarrow> string \<Rightarrow> bool" where
  "all_in chars s \<longleftrightarrow> s \<noteq> [] \<and> list_all (\<lambda>c. c \<in> set chars) s"

definition domain_separator :: "string \<Rightarrow> bool" where
  "domain_separator s \<longleftrightarrow> length s = 1 \<and> all_in ''-/:@#'' s"

definition structural_punctuation :: "string \<Rightarrow> bool" where
  "structural_punctuation s \<longleftrightarrow> length s = 1 \<and> all_in ''{}()[].,;'' s"

definition meaningful_operator :: "string \<Rightarrow> bool" where
  "meaningful_operator s \<longleftrightarrow>
     s \<in> {''==='', ''!=='', ''=>'', ''=='', ''!='', ''<='', ''>='', ''&&'', ''||''} \<or> all_in ''+-*/%<>=!?:~&|^'' s"

definition token_weight :: "(string \<Rightarrow> bool) \<Rightarrow> (string \<Rightarrow> bool) \<Rightarrow> string \<Rightarrow> rat" where
  "token_weight ident num s =
     (if ident s then 2 else if num s then 3 / 2 else if domain_separator s then 1 / 4
      else if meaningful_operator s then 1 else if structural_punctuation s then 1 / 20 else 1)"

text \<open>The value of the token at a position in range; the callers stay in range, where \<open>tokenAt\<close> does not throw.\<close>

definition value_at :: "token list \<Rightarrow> nat \<Rightarrow> string" where
  "value_at ts i = t_value (ts ! i)"

section \<open>Gaps\<close>

definition append_gap :: "gap list \<Rightarrow> nat \<Rightarrow> nat \<Rightarrow> nat \<Rightarrow> nat \<Rightarrow> gap list" where
  "append_gap gaps bs be as ae =
     (if bs = be \<and> as = ae then gaps else gaps @ [\<lparr>g_removed = (bs, be), g_added = (as, ae)\<rparr>])"

function trim_front :: "token list \<Rightarrow> token list \<Rightarrow> nat \<Rightarrow> nat \<Rightarrow> nat \<Rightarrow> nat \<Rightarrow> nat \<times> nat" where
  "trim_front tb ta bs be as ae =
     (if bs < be \<and> as < ae \<and> value_at tb bs = value_at ta as then trim_front tb ta (Suc bs) be (Suc as) ae else (bs, as))"
  by pat_completeness auto
termination by (relation "measure (\<lambda>(tb, ta, bs, be, as, ae). be - bs)") auto

function trim_back :: "token list \<Rightarrow> token list \<Rightarrow> nat \<Rightarrow> nat \<Rightarrow> nat \<Rightarrow> nat \<Rightarrow> nat \<times> nat" where
  "trim_back tb ta bs be as ae =
     (if bs < be \<and> as < ae \<and> value_at tb (be - 1) = value_at ta (ae - 1) then trim_back tb ta bs (be - 1) as (ae - 1) else (be, ae))"
  by pat_completeness auto
termination by (relation "measure (\<lambda>(tb, ta, bs, be, as, ae). be)") auto

declare trim_front.simps [simp del] trim_back.simps [simp del]

text \<open>The exact alignment.\<close>

fun gaps_of_pairs :: "nat \<Rightarrow> nat \<Rightarrow> nat \<Rightarrow> nat \<Rightarrow> gap list \<Rightarrow> nat \<Rightarrow> nat \<Rightarrow> (nat \<times> nat) list \<Rightarrow> gap list" where
  "gaps_of_pairs bs be as ae gaps bi ai [] = append_gap gaps (bs + bi) be (as + ai) ae"
| "gaps_of_pairs bs be as ae gaps bi ai ((nb, na) # ps) =
     gaps_of_pairs bs be as ae (append_gap gaps (bs + bi) (bs + nb) (as + ai) (as + na)) (Suc nb) (Suc na) ps"

definition token_score :: "(string \<Rightarrow> rat) \<Rightarrow> token list \<Rightarrow> token list \<Rightarrow> nat \<Rightarrow> nat \<Rightarrow> score_at" where
  "token_score w tb ta bs as i j = (if value_at tb (bs + i) = value_at ta (as + j) then Some (w (value_at tb (bs + i))) else None)"

definition collect_by_lcs :: "(string \<Rightarrow> rat) \<Rightarrow> token list \<Rightarrow> token list \<Rightarrow> nat \<Rightarrow> nat \<Rightarrow> nat \<Rightarrow> nat \<Rightarrow> gap list \<Rightarrow> gap list" where
  "collect_by_lcs w tb ta bs be as ae gaps =
     gaps_of_pairs bs be as ae gaps 0 0 (suffix_aligned_pairs (be - bs) (ae - as) (token_score w tb ta bs as))"

section \<open>Anchors\<close>

definition token_counts :: "token list \<Rightarrow> nat \<Rightarrow> nat \<Rightarrow> (string, nat) jmap" where
  "token_counts ts a b =
     foldl (\<lambda>m i. jm_set (value_at ts i) ((case jm_get m (value_at ts i) of Some n \<Rightarrow> n | None \<Rightarrow> 0) + 1) m) [] [a..<b]"

definition unique_in :: "(string, nat) jmap \<Rightarrow> (string, nat) jmap \<Rightarrow> string \<Rightarrow> bool" where
  "unique_in bc ac v \<longleftrightarrow> jm_get bc v = Some 1 \<and> jm_get ac v = Some 1"

definition after_unique :: "(string, nat) jmap \<Rightarrow> (string, nat) jmap \<Rightarrow> token list \<Rightarrow> nat \<Rightarrow> nat \<Rightarrow> (string, nat) jmap" where
  "after_unique bc ac ta as ae =
     foldl (\<lambda>m i. if unique_in bc ac (value_at ta i) then jm_set (value_at ta i) i m else m) [] [as..<ae]"

definition anchor_candidates :: "token list \<Rightarrow> token list \<Rightarrow> nat \<Rightarrow> nat \<Rightarrow> nat \<Rightarrow> nat \<Rightarrow> (nat \<times> nat) list" where
  "anchor_candidates tb ta bs be as ae =
     (let bc = token_counts tb bs be; ac = token_counts ta as ae; au = after_unique bc ac ta as ae in
      concat (map (\<lambda>i. if unique_in bc ac (value_at tb i)
                      then (case jm_get au (value_at tb i) of Some a \<Rightarrow> [(i, a)] | None \<Rightarrow> []) else []) [bs..<be]))"

text \<open>Patience: the least low in \<open>[low, high)\<close> whose tail is not below \<open>x\<close>.\<close>

function bisect :: "nat list \<Rightarrow> nat \<Rightarrow> nat \<Rightarrow> nat \<Rightarrow> nat" where
  "bisect tails x low high =
     (if low < high then
        (let middle = (low + high) div 2 in
         if tails ! middle < x then bisect tails x (Suc middle) high else bisect tails x low middle)
      else low)"
  by pat_completeness auto
termination by (relation "measure (\<lambda>(t, x, low, high). high - low)") auto

declare bisect.simps [simp del]

definition store :: "'a list \<Rightarrow> nat \<Rightarrow> 'a \<Rightarrow> 'a list" where
  "store xs k v = (if k < length xs then xs[k := v] else xs @ [v])"

record patience =
  tails :: "nat list"
  tail_index :: "nat list"
  previous :: "nat option list"

definition patience_step :: "(nat \<times> nat) list \<Rightarrow> patience \<Rightarrow> nat \<Rightarrow> patience" where
  "patience_step cs p i =
     (let x = snd (cs ! i); low = bisect (tails p) x 0 (length (tails p)) in
      \<lparr>tails = store (tails p) low x, tail_index = store (tail_index p) low i,
       previous = (if low > 0 then (previous p)[i := Some (tail_index p ! (low - 1))] else previous p)\<rparr>)"

text \<open>The walk back along \<open>previous\<close>; \<open>fuel\<close> bounds its length.\<close>

fun walk_back :: "nat \<Rightarrow> (nat \<times> nat) list \<Rightarrow> nat option list \<Rightarrow> nat option \<Rightarrow> (nat \<times> nat) list" where
  "walk_back fuel cs prevs None = []"
| "walk_back 0 cs prevs (Some i) = []"
| "walk_back (Suc fuel) cs prevs (Some i) = cs ! i # walk_back fuel cs prevs (prevs ! i)"

definition patience_run :: "(nat \<times> nat) list \<Rightarrow> nat \<Rightarrow> patience" where
  "patience_run cs k = foldl (patience_step cs) \<lparr>tails = [], tail_index = [], previous = replicate (length cs) None\<rparr> [0..<k]"

definition longest_increasing :: "(nat \<times> nat) list \<Rightarrow> (nat \<times> nat) list" where
  "longest_increasing cs =
     (if length cs \<le> 1 then cs
      else (let p = patience_run cs (length cs) in
            rev (walk_back (length cs) cs (previous p) (last_opt (tail_index p)))))"

definition unique_ordered_anchors :: "token list \<Rightarrow> token list \<Rightarrow> nat \<Rightarrow> nat \<Rightarrow> nat \<Rightarrow> nat \<Rightarrow> (nat \<times> nat) list" where
  "unique_ordered_anchors tb ta bs be as ae = longest_increasing (anchor_candidates tb ta bs be as ae)"

section \<open>The recursion\<close>

definition EXACT_LCS_MAX_CELLS :: nat where "EXACT_LCS_MAX_CELLS = 262144"

fun rank :: "confidence \<Rightarrow> nat" where
  "rank Low = 0" | "rank Medium = 1" | "rank High = 2"

definition lower :: "confidence \<Rightarrow> confidence \<Rightarrow> confidence" where
  "lower a b = (if rank a \<le> rank b then a else b)"

text \<open>\<open>cells\<close> is the limit for the exact alignment; \<open>None\<close> is running out of fuel.\<close>

fun collect :: "nat \<Rightarrow> nat \<Rightarrow> (string \<Rightarrow> rat) \<Rightarrow> token list \<Rightarrow> token list \<Rightarrow> nat \<Rightarrow> nat \<Rightarrow> nat \<Rightarrow> nat \<Rightarrow> gap list
    \<Rightarrow> (confidence \<times> gap list) option" where
  "collect 0 cells w tb ta bs0 be0 as0 ae0 gaps = None"
| "collect (Suc n) cells w tb ta bs0 be0 as0 ae0 gaps =
     (let (bs, as) = trim_front tb ta bs0 be0 as0 ae0; (be, ae) = trim_back tb ta bs be0 as ae0 in
      if bs = be \<or> as = ae then Some (High, append_gap gaps bs be as ae)
      else if (be - bs) * (ae - as) \<le> cells then Some (High, collect_by_lcs w tb ta bs be as ae gaps)
      else (let anchors = unique_ordered_anchors tb ta bs be as ae in
        if anchors = [] then Some (Low, append_gap gaps bs be as ae)
        else (case foldl (\<lambda>acc anchor. case acc of None \<Rightarrow> None
                  | Some (conf, pb, pa, gs) \<Rightarrow>
                      (case collect n cells w tb ta pb (fst anchor) pa (snd anchor) gs of None \<Rightarrow> None
                       | Some (c, gs') \<Rightarrow> Some (lower conf c, Suc (fst anchor), Suc (snd anchor), gs')))
                (Some (High, bs, as, gaps)) anchors of
           None \<Rightarrow> None
         | Some (conf, pb, pa, gs) \<Rightarrow>
             (case collect n cells w tb ta pb be pa ae gs of None \<Rightarrow> None
              | Some (c, gs') \<Rightarrow> Some (lower (lower conf c) Medium, gs')))))"

definition collect_changed_token_gaps :: "(string \<Rightarrow> rat) \<Rightarrow> token list \<Rightarrow> token list \<Rightarrow> nat \<Rightarrow> nat \<Rightarrow> nat \<Rightarrow> nat \<Rightarrow> gap list
    \<Rightarrow> (confidence \<times> gap list) option" where
  "collect_changed_token_gaps w tb ta bs be as ae gaps =
     collect (Suc (be - bs)) EXACT_LCS_MAX_CELLS w tb ta bs be as ae gaps"

section \<open>Ranges\<close>

type_synonym range = "nat \<times> nat"

definition append_range :: "range list \<Rightarrow> range \<Rightarrow> range list" where
  "append_range rs r =
     (case last_opt rs of
        Some p \<Rightarrow> if int (fst r) - int (snd p) \<le> 1 then butlast rs @ [(fst p, snd r)] else rs @ [r]
      | None \<Rightarrow> rs @ [r])"

definition merge_ranges :: "range list \<Rightarrow> range list" where
  "merge_ranges rs = foldl append_range [] rs"

definition merge_ranges_by_start :: "range list \<Rightarrow> range list" where
  "merge_ranges_by_start rs = merge_ranges (sort_key fst rs)"

definition ranges_for_token_group :: "token list \<Rightarrow> nat \<times> nat \<Rightarrow> range list" where
  "ranges_for_token_group ts g =
     foldl (\<lambda>rs i. if i < length ts then append_range rs (t_from (ts ! i), t_to (ts ! i)) else rs) [] [fst g..<snd g]"

section \<open>What a list of gaps must satisfy\<close>

definition vals :: "token list \<Rightarrow> nat \<Rightarrow> nat \<Rightarrow> string list" where
  "vals ts a b = map (value_at ts) [a..<b]"

text \<open>Between the gaps, in order, both sides have the same values.\<close>

fun covers :: "token list \<Rightarrow> token list \<Rightarrow> nat \<Rightarrow> nat \<Rightarrow> nat \<Rightarrow> nat \<Rightarrow> gap list \<Rightarrow> bool" where
  "covers tb ta bs be as ae [] = (bs \<le> be \<and> as \<le> ae \<and> vals tb bs be = vals ta as ae)"
| "covers tb ta bs be as ae (g # gs) =
     (bs \<le> fst (g_removed g) \<and> as \<le> fst (g_added g)
      \<and> vals tb bs (fst (g_removed g)) = vals ta as (fst (g_added g))
      \<and> fst (g_removed g) \<le> snd (g_removed g) \<and> fst (g_added g) \<le> snd (g_added g)
      \<and> covers tb ta (snd (g_removed g)) be (snd (g_added g)) ae gs)"

text \<open>The before values with each removed group replaced by its added group.\<close>

fun patch :: "token list \<Rightarrow> token list \<Rightarrow> nat \<Rightarrow> nat \<Rightarrow> gap list \<Rightarrow> string list" where
  "patch tb ta c e [] = vals tb c e"
| "patch tb ta c e (g # gs) =
     vals tb c (fst (g_removed g)) @ vals ta (fst (g_added g)) (snd (g_added g)) @ patch tb ta (snd (g_removed g)) e gs"

lemma vals_append: "a \<le> b \<Longrightarrow> b \<le> c \<Longrightarrow> vals ts a b @ vals ts b c = vals ts a c"
  unfolding vals_def by (metis map_append upt_add_eq_append le_add_diff_inverse)

lemma vals_self [simp]: "vals ts a a = []"
  by (simp add: vals_def)

lemma vals_Suc: "a < b \<Longrightarrow> vals ts a b = value_at ts a # vals ts (Suc a) b"
  by (simp add: vals_def upt_conv_Cons)

lemma covers_bounds: "covers tb ta bs be as ae gs \<Longrightarrow> bs \<le> be \<and> as \<le> ae"
  by (induction gs arbitrary: bs as) fastforce+

lemma covers_patch: "covers tb ta bs be as ae gs \<Longrightarrow> patch tb ta bs be gs = vals ta as ae"
proof (induction gs arbitrary: bs as)
  case Nil
  then show ?case by simp
next
  case (Cons g gs)
  then have "patch tb ta bs be (g # gs) = vals ta as (fst (g_added g)) @ vals ta (fst (g_added g)) (snd (g_added g)) @ vals ta (snd (g_added g)) ae"
    by simp
  also have "\<dots> = vals ta as ae"
    using Cons.prems covers_bounds [of tb ta "snd (g_removed g)" be "snd (g_added g)" ae gs]
      vals_append [of as "fst (g_added g)" "snd (g_added g)" ta] vals_append [of as "snd (g_added g)" ae ta]
    by (simp flip: append_assoc)
  finally show ?case .
qed

lemma covers_prepend:
  "bs \<le> k \<Longrightarrow> as \<le> k' \<Longrightarrow> vals tb bs k = vals ta as k' \<Longrightarrow> covers tb ta k be k' ae gs \<Longrightarrow> covers tb ta bs be as ae gs"
proof (cases gs)
  case Nil
  assume "bs \<le> k" "as \<le> k'" "vals tb bs k = vals ta as k'" "covers tb ta k be k' ae gs"
  then show ?thesis using Nil vals_append [of bs k be tb] vals_append [of as k' ae ta] by auto
next
  case (Cons g rest)
  assume h: "bs \<le> k" "as \<le> k'" "vals tb bs k = vals ta as k'" "covers tb ta k be k' ae gs"
  with Cons have "vals tb bs (fst (g_removed g)) = vals ta as (fst (g_added g))"
    using vals_append [of bs k "fst (g_removed g)" tb] vals_append [of as k' "fst (g_added g)" ta] by auto
  with h Cons show ?thesis by auto
qed

lemma covers_glue:
  "covers tb ta bs m as m' gs \<Longrightarrow> m \<le> k \<Longrightarrow> m' \<le> k' \<Longrightarrow> vals tb m k = vals ta m' k' \<Longrightarrow> covers tb ta k be k' ae hs \<Longrightarrow>
    covers tb ta bs be as ae (gs @ hs)"
proof (induction gs arbitrary: bs as)
  case Nil
  then have "vals tb bs m @ vals tb m k = vals ta as m' @ vals ta m' k'" "bs \<le> m" "as \<le> m'" by simp_all
  moreover have "vals tb bs k = vals tb bs m @ vals tb m k" "vals ta as k' = vals ta as m' @ vals ta m' k'"
    using calculation Nil(2,3) by (simp_all only: vals_append)
  ultimately have "vals tb bs k = vals ta as k'" "bs \<le> k" "as \<le> k'" using Nil(2,3) by simp_all
  with Nil(5) show ?case by (auto intro: covers_prepend)
qed simp

lemma covers_gap: "bs \<le> be \<Longrightarrow> as \<le> ae \<Longrightarrow> \<exists>new. append_gap gaps bs be as ae = gaps @ new \<and> covers tb ta bs be as ae new"
  by (auto simp: append_gap_def)

section \<open>The ends\<close>

lemma trim_front_ok:
  "trim_front tb ta bs be as ae = (b, a) \<Longrightarrow> bs \<le> be \<Longrightarrow> as \<le> ae \<Longrightarrow>
    bs \<le> b \<and> b \<le> be \<and> as \<le> a \<and> a \<le> ae \<and> vals tb bs b = vals ta as a"
proof (induction tb ta bs be as ae rule: trim_front.induct)
  case (1 tb ta bs be as ae)
  show ?case
  proof (cases "bs < be \<and> as < ae \<and> value_at tb bs = value_at ta as")
    case True
    with 1(2) have "trim_front tb ta (Suc bs) be (Suc as) ae = (b, a)" by (subst (asm) trim_front.simps) simp
    from 1(1) [OF True this] True have "Suc bs \<le> b \<and> b \<le> be \<and> Suc as \<le> a \<and> a \<le> ae \<and> vals tb (Suc bs) b = vals ta (Suc as) a"
      by simp
    with True show ?thesis by (simp add: vals_Suc)
  next
    case False
    with 1(2) have "(b, a) = (bs, as)" by (subst (asm) trim_front.simps) auto
    with 1(3,4) show ?thesis by simp
  qed
qed

lemma trim_back_ok:
  "trim_back tb ta bs be as ae = (b, a) \<Longrightarrow> bs \<le> be \<Longrightarrow> as \<le> ae \<Longrightarrow>
    bs \<le> b \<and> b \<le> be \<and> as \<le> a \<and> a \<le> ae \<and> vals tb b be = vals ta a ae"
proof (induction tb ta bs be as ae rule: trim_back.induct)
  case (1 tb ta bs be as ae)
  show ?case
  proof (cases "bs < be \<and> as < ae \<and> value_at tb (be - 1) = value_at ta (ae - 1)")
    case True
    with 1(2) have "trim_back tb ta bs (be - 1) as (ae - 1) = (b, a)" by (subst (asm) trim_back.simps) simp
    from 1(1) [OF True this] True have h: "bs \<le> b" "b \<le> be - 1" "as \<le> a" "a \<le> ae - 1" "vals tb b (be - 1) = vals ta a (ae - 1)"
      by auto
    have e: "vals tb b be = vals tb b (be - 1) @ vals tb (be - 1) be" "vals ta a ae = vals ta a (ae - 1) @ vals ta (ae - 1) ae"
      by (rule vals_append [symmetric]; use h in linarith)+
    have l: "vals tb (be - 1) be = vals ta (ae - 1) ae" using True by (simp add: vals_Suc [of _ be] vals_Suc [of _ ae])
    have "vals tb b be = vals ta a ae" by (simp only: e h(5) l)
    with h show ?thesis by linarith
  next
    case False
    with 1(2) have "(b, a) = (be, ae)" by (subst (asm) trim_back.simps) auto
    with 1(3,4) show ?thesis by simp
  qed
qed

section \<open>The exact alignment\<close>

lemma token_score_None [simp]: "token_score w tb ta bs as i j = None \<longleftrightarrow> value_at tb (bs + i) \<noteq> value_at ta (as + j)"
  by (simp add: token_score_def)

lemma gaps_of_pairs_ok:
  assumes "bs + n = be" and "as + m = ae"
  shows "aligned_from n m (token_score w tb ta bs as) bi ai ps \<Longrightarrow> bi \<le> n \<Longrightarrow> ai \<le> m \<Longrightarrow>
    \<exists>new. gaps_of_pairs bs be as ae gaps bi ai ps = gaps @ new \<and> covers tb ta (bs + bi) be (as + ai) ae new"
proof (induction ps arbitrary: bi ai gaps)
  case Nil
  then show ?case using assms covers_gap by simp
next
  case (Cons p ps)
  obtain nb na where p: "p = (nb, na)" by (cases p)
  with Cons.prems have h: "bi \<le> nb" "nb < n" "ai \<le> na" "na < m" "value_at tb (bs + nb) = value_at ta (as + na)"
    "aligned_from n m (token_score w tb ta bs as) (Suc nb) (Suc na) ps"
    by auto
  obtain g where g: "append_gap gaps (bs + bi) (bs + nb) (as + ai) (as + na) = gaps @ g"
    "covers tb ta (bs + bi) (bs + nb) (as + ai) (as + na) g"
    using covers_gap [of "bs + bi" "bs + nb" "as + ai" "as + na" gaps] h by auto
  obtain new where new: "gaps_of_pairs bs be as ae (gaps @ g) (Suc nb) (Suc na) ps = (gaps @ g) @ new"
    "covers tb ta (bs + Suc nb) be (as + Suc na) ae new"
    using Cons.IH [OF h(6), of "gaps @ g"] h by auto
  have "covers tb ta (bs + bi) be (as + ai) ae (g @ new)"
    by (rule covers_glue [OF g(2) _ _ _ new(2)]) (use h(5) in \<open>simp_all add: vals_Suc\<close>)
  with g(1) new(1) p show ?case by auto
qed

lemma collect_by_lcs_ok:
  assumes "bs \<le> be" and "as \<le> ae"
  shows "\<exists>new. collect_by_lcs w tb ta bs be as ae gaps = gaps @ new \<and> covers tb ta bs be as ae new"
proof -
  have "aligned_from (be - bs) (ae - as) (token_score w tb ta bs as) 0 0
      (suffix_aligned_pairs (be - bs) (ae - as) (token_score w tb ta bs as))"
    using suffix.align_alignment by (simp add: aligned_from_iff list_all_iff)
  from gaps_of_pairs_ok [OF _ _ this, of be ae gaps] assms show ?thesis by (simp add: collect_by_lcs_def)
qed

section \<open>Anchors\<close>

definition anchors_ok :: "token list \<Rightarrow> token list \<Rightarrow> nat \<Rightarrow> nat \<Rightarrow> nat \<Rightarrow> nat \<Rightarrow> (nat \<times> nat) list \<Rightarrow> bool" where
  "anchors_ok tb ta bs be as ae cs \<longleftrightarrow> sorted_wrt (\<lambda>p q. fst p < fst q \<and> snd p < snd q) cs
     \<and> (\<forall>p \<in> set cs. bs \<le> fst p \<and> fst p < be \<and> as \<le> snd p \<and> snd p < ae \<and> value_at tb (fst p) = value_at ta (snd p))"

lemma after_unique_get:
  "jm_get (after_unique bc ac ta as ae) v = Some i \<Longrightarrow> as \<le> i \<and> i < ae \<and> value_at ta i = v"
proof -
  have "jm_get (foldl (\<lambda>m i. if unique_in bc ac (value_at ta i) then jm_set (value_at ta i) i m else m) m0 ks) v = Some i
      \<Longrightarrow> jm_get m0 v = Some i \<or> (i \<in> set ks \<and> value_at ta i = v)" for ks m0
    by (induction ks arbitrary: m0) (force simp: jm_get_set split: if_splits)+
  from this [of "[]" "[as..<ae]"] show "jm_get (after_unique bc ac ta as ae) v = Some i \<Longrightarrow> as \<le> i \<and> i < ae \<and> value_at ta i = v"
    by (auto simp: after_unique_def)
qed

lemma candidates_ok:
  fixes tb ta bs be as ae
  defines "cs \<equiv> anchor_candidates tb ta bs be as ae"
  shows "sorted_wrt (\<lambda>p q. fst p < fst q) cs"
    and "p \<in> set cs \<Longrightarrow> bs \<le> fst p \<and> fst p < be \<and> as \<le> snd p \<and> snd p < ae \<and> value_at tb (fst p) = value_at ta (snd p)"
proof -
  let ?bc = "token_counts tb bs be" and ?ac = "token_counts ta as ae"
  let ?au = "after_unique ?bc ?ac ta as ae"
  define f where "f = (\<lambda>i. if unique_in ?bc ?ac (value_at tb i) then (case jm_get ?au (value_at tb i) of Some a \<Rightarrow> [(i, a)] | None \<Rightarrow> []) else [])"
  have cs: "cs = concat (map f [bs..<be])" by (simp add: cs_def anchor_candidates_def f_def Let_def)
  have f: "fst q = i \<and> as \<le> snd q \<and> snd q < ae \<and> value_at tb i = value_at ta (snd q)" if q: "q \<in> set (f i)" for q i
  proof -
    show ?thesis
    proof (cases "jm_get ?au (value_at tb i)")
      case None
      then have "f i = []" by (simp add: f_def)
      with q show ?thesis by simp
    next
      case (Some a)
      then have "f i = [(i, a)] \<or> f i = []" by (simp add: f_def)
      with q have "q = (i, a)" by auto
      with after_unique_get [OF Some] show ?thesis by simp
    qed
  qed
  have s: "sorted_wrt (\<lambda>p q. fst p < fst q) (f i)" for i by (auto simp: f_def split: option.splits)
  have "sorted_wrt (\<lambda>p q. fst p < fst q) (concat (map f ks))" if "sorted_wrt (<) ks" for ks
    using that
  proof (induction ks)
    case (Cons i js)
    have "fst p < fst q" if "p \<in> set (f i)" "q \<in> set (concat (map f js))" for p q
    proof -
      from that(2) obtain j where j: "j \<in> set js" "q \<in> set (f j)" by auto
      from f [OF that(1)] f [OF j(2)] j(1) Cons.prems show ?thesis by simp
    qed
    with Cons s show ?case by (simp add: sorted_wrt_append)
  qed simp
  then show "sorted_wrt (\<lambda>p q. fst p < fst q) cs" by (simp add: cs)
  show "p \<in> set cs \<Longrightarrow> bs \<le> fst p \<and> fst p < be \<and> as \<le> snd p \<and> snd p < ae \<and> value_at tb (fst p) = value_at ta (snd p)"
  proof -
    assume "p \<in> set cs"
    then obtain i where "i \<in> set [bs..<be]" "p \<in> set (f i)" by (auto simp: cs)
    with f [OF this(2)] show ?thesis by simp
  qed
qed

text \<open>The patience invariant after \<open>k\<close> candidates.\<close>

definition patience_ok :: "(nat \<times> nat) list \<Rightarrow> nat \<Rightarrow> patience \<Rightarrow> bool" where
  "patience_ok cs k p \<longleftrightarrow> length (previous p) = length cs \<and> length (tails p) = length (tail_index p)
     \<and> (\<forall>t < length (tails p). tail_index p ! t < k \<and> tails p ! t = snd (cs ! (tail_index p ! t)))
     \<and> (\<forall>i < length cs. \<forall>j. previous p ! i = Some j \<longrightarrow> j < i \<and> snd (cs ! j) < snd (cs ! i))"

lemma bisect_range:
  "low \<le> high \<Longrightarrow> low \<le> bisect ts x low high \<and> bisect ts x low high \<le> high
     \<and> (bisect ts x low high = low \<or> ts ! (bisect ts x low high - 1) < x)"
proof (induction ts x low high rule: bisect.induct)
  case (1 ts x low high)
  let ?m = "(low + high) div 2"
  show ?case
  proof (cases "low < high")
    case True
    then have m: "low \<le> ?m" "?m < high" by auto
    show ?thesis
    proof (cases "ts ! ?m < x")
      case small: True
      then have e: "bisect ts x low high = bisect ts x (Suc ?m) high" using True by (subst bisect.simps) (simp add: Let_def)
      from 1(1) [OF True refl small] m show ?thesis unfolding e using small by auto
    next
      case large: False
      then have e: "bisect ts x low high = bisect ts x low ?m" using True by (subst bisect.simps) (simp add: Let_def)
      from 1(2) [OF True refl large] m show ?thesis unfolding e by auto
    qed
  next
    case False
    with 1(3) show ?thesis by (subst (1 2 3 4) bisect.simps) simp
  qed
qed

lemma store_nth: "k \<le> length xs \<Longrightarrow> t < length (store xs k v) \<Longrightarrow> store xs k v ! t = (if t = k then v else xs ! t)"
  by (auto simp: store_def nth_append)

lemma length_store: "k \<le> length xs \<Longrightarrow> length (store xs k v) = max (length xs) (Suc k)"
  by (auto simp: store_def)

lemma patience_step_ok:
  assumes "patience_ok cs k p" and "k < length cs"
  shows "patience_ok cs (Suc k) (patience_step cs p k)"
proof -
  define x where "x = snd (cs ! k)"
  define low where "low = bisect (tails p) x 0 (length (tails p))"
  have b: "low \<le> length (tails p)" "low = 0 \<or> tails p ! (low - 1) < x"
    using bisect_range [of 0 "length (tails p)" "tails p" x] by (simp_all add: low_def)
  have len: "length (tails p) = length (tail_index p)" "length (previous p) = length cs"
    and t: "\<And>t. t < length (tails p) \<Longrightarrow> tail_index p ! t < k \<and> tails p ! t = snd (cs ! (tail_index p ! t))"
    and pr: "\<And>i j. i < length cs \<Longrightarrow> previous p ! i = Some j \<Longrightarrow> j < i \<and> snd (cs ! j) < snd (cs ! i)"
    using assms(1) by (auto simp: patience_ok_def)
  have s: "patience_step cs p k = \<lparr>tails = store (tails p) low x, tail_index = store (tail_index p) low k,
      previous = (if low > 0 then (previous p)[k := Some (tail_index p ! (low - 1))] else previous p)\<rparr>"
    by (simp add: patience_step_def Let_def x_def low_def)
  have last: "tail_index p ! (low - 1) < k \<and> snd (cs ! (tail_index p ! (low - 1))) < x" if "low > 0"
    using t [of "low - 1"] b that by auto
  define prevs where "prevs = (if low > 0 then (previous p)[k := Some (tail_index p ! (low - 1))] else previous p)"
  have 1: "length prevs = length cs" by (simp add: prevs_def len)
  have b': "low \<le> length (tail_index p)" using b len by simp
  have 2: "length (store (tails p) low x) = length (store (tail_index p) low k)"
    using b b' len by (simp add: length_store)
  have 3: "store (tail_index p) low k ! r < Suc k \<and> store (tails p) low x ! r = snd (cs ! (store (tail_index p) low k ! r))"
    if r: "r < length (store (tails p) low x)" for r
  proof (cases "r = low")
    case True
    then show ?thesis using r 2 b b' by (simp add: store_nth x_def)
  next
    case False
    then have "r < length (tails p)" using r b by (simp add: length_store max_def split: if_splits)
    from t [OF this] show ?thesis using False r 2 b b' by (simp add: store_nth)
  qed
  have 4: "j < i \<and> snd (cs ! j) < snd (cs ! i)" if "i < length cs" "prevs ! i = Some j" for i j
  proof (cases "i = k \<and> low > 0")
    case True
    then have "j = tail_index p ! (low - 1)" using that assms(2) len by (simp add: prevs_def)
    with last True show ?thesis by (simp add: x_def)
  next
    case False
    then have "previous p ! i = Some j" using that by (auto simp: prevs_def split: if_splits)
    with pr that show ?thesis by blast
  qed
  show ?thesis using 1 2 3 4 by (simp add: s patience_ok_def prevs_def [symmetric])
qed

lemma patience_run_ok: "k \<le> length cs \<Longrightarrow> patience_ok cs k (patience_run cs k)"
proof (induction k)
  case 0
  then show ?case by (simp add: patience_run_def patience_ok_def)
next
  case (Suc k)
  then have "patience_run cs (Suc k) = patience_step cs (patience_run cs k) k" by (simp add: patience_run_def)
  with Suc patience_step_ok show ?case by simp
qed

lemma walk_back_ok:
  assumes pr: "\<And>i j. i < length cs \<Longrightarrow> prevs ! i = Some j \<Longrightarrow> j < i \<and> snd (cs ! j) < snd (cs ! i)"
  shows "(\<And>i. start = Some i \<Longrightarrow> i < length cs) \<Longrightarrow>
    \<exists>ks. walk_back fuel cs prevs start = map ((!) cs) ks
      \<and> sorted_wrt (\<lambda>a b. b < a \<and> snd (cs ! b) < snd (cs ! a)) ks \<and> set ks \<subseteq> {..<length cs}
      \<and> (\<forall>k \<in> set ks. \<exists>i. start = Some i \<and> (k = i \<or> k < i \<and> snd (cs ! k) < snd (cs ! i)))"
proof (induction fuel arbitrary: start)
  case 0
  then show ?case by (cases start) auto
next
  case (Suc fuel)
  show ?case
  proof (cases start)
    case None
    then show ?thesis by auto
  next
    case (Some i)
    then have i: "i < length cs" by (rule Suc.prems)
    have "j < length cs" if "prevs ! i = Some j" for j using pr [OF i that] i by linarith
    with Suc.IH [of "prevs ! i"] obtain ks where ks: "walk_back fuel cs prevs (prevs ! i) = map ((!) cs) ks"
      "sorted_wrt (\<lambda>a b. b < a \<and> snd (cs ! b) < snd (cs ! a)) ks" "set ks \<subseteq> {..<length cs}"
      "\<forall>k \<in> set ks. \<exists>j. prevs ! i = Some j \<and> (k = j \<or> k < j \<and> snd (cs ! k) < snd (cs ! j))" by auto
    have less: "k < i \<and> snd (cs ! k) < snd (cs ! i)" if "k \<in> set ks" for k
    proof -
      from ks(4) that obtain j where j: "prevs ! i = Some j" "k = j \<or> k < j \<and> snd (cs ! k) < snd (cs ! j)" by blast
      from pr [OF i j(1)] j(2) show ?thesis by auto
    qed
    then show ?thesis using Some ks(1-3) i by (intro exI [of _ "i # ks"]) auto
  qed
qed

text \<open>The fuel of the walk is enough: more of it changes nothing.\<close>

lemma walk_back_fuel:
  assumes pr: "\<And>i j. i < length cs \<Longrightarrow> prevs ! i = Some j \<Longrightarrow> j < i"
  shows "i < length cs \<Longrightarrow> i < fuel \<Longrightarrow> walk_back (fuel + d) cs prevs (Some i) = walk_back fuel cs prevs (Some i)"
proof (induction fuel arbitrary: i)
  case 0
  then show ?case by simp
next
  case (Suc fuel)
  show ?case
  proof (cases "prevs ! i")
    case (Some j)
    with pr Suc.prems have "j < i" by blast
    with Suc Some show ?thesis by simp
  qed simp
qed

lemma longest_increasing_ok:
  assumes "sorted_wrt (\<lambda>p q. fst p < fst q) cs"
  shows "sorted_wrt (\<lambda>p q. fst p < fst q \<and> snd p < snd q) (longest_increasing cs) \<and> set (longest_increasing cs) \<subseteq> set cs"
proof (cases "length cs \<le> 1")
  case True
  then show ?thesis by (cases cs; cases "tl cs") (auto simp: longest_increasing_def)
next
  case False
  let ?p = "patience_run cs (length cs)"
  have ok: "patience_ok cs (length cs) ?p" by (rule patience_run_ok) simp
  have st: "i < length cs" if "last_opt (tail_index ?p) = Some i" for i
  proof -
    from that have ne: "tail_index ?p \<noteq> []" "i = tail_index ?p ! (length (tail_index ?p) - 1)"
      by (auto simp: last_opt_def last_conv_nth split: if_splits)
    then show ?thesis using ok by (simp add: patience_ok_def)
  qed
  have pr: "j < i \<and> snd (cs ! j) < snd (cs ! i)" if "i < length cs" "previous ?p ! i = Some j" for i j
    using ok that by (simp add: patience_ok_def)
  from walk_back_ok [where prevs = "previous ?p" and start = "last_opt (tail_index ?p)" and fuel = "length cs", OF pr st]
  obtain ks where ks:
    "walk_back (length cs) cs (previous ?p) (last_opt (tail_index ?p)) = map ((!) cs) ks"
    "sorted_wrt (\<lambda>a b. b < a \<and> snd (cs ! b) < snd (cs ! a)) ks" "set ks \<subseteq> {..<length cs}" by blast
  have li: "longest_increasing cs = map ((!) cs) (rev ks)" using False ks(1) by (simp add: longest_increasing_def Let_def rev_map)
  have "sorted_wrt (\<lambda>a b. a < b \<and> snd (cs ! a) < snd (cs ! b)) (rev ks)" using ks(2) by (simp add: sorted_wrt_rev)
  then have "sorted_wrt (\<lambda>a b. fst (cs ! a) < fst (cs ! b) \<and> snd (cs ! a) < snd (cs ! b)) (rev ks)"
  proof (rule sorted_wrt_mono_rel [rotated])
    fix a b assume "a \<in> set (rev ks)" "b \<in> set (rev ks)" "a < b \<and> snd (cs ! a) < snd (cs ! b)"
    then show "fst (cs ! a) < fst (cs ! b) \<and> snd (cs ! a) < snd (cs ! b)"
      using sorted_wrt_nth_less [OF assms, of a b] ks(3) by auto
  qed
  then show ?thesis unfolding li using ks(3) by (auto simp: sorted_wrt_map)
qed

lemma unique_ordered_anchors_ok: "anchors_ok tb ta bs be as ae (unique_ordered_anchors tb ta bs be as ae)"
  using longest_increasing_ok [OF candidates_ok(1), of tb ta bs be as ae] candidates_ok(2)
  by (fastforce simp: anchors_ok_def unique_ordered_anchors_def)

section \<open>The recursion is a correct patch\<close>

lemma collect_ok:
  "be - bs < n \<Longrightarrow> bs \<le> be \<Longrightarrow> as \<le> ae \<Longrightarrow>
    \<exists>conf new. collect n cells w tb ta bs be as ae gaps = Some (conf, gaps @ new) \<and> covers tb ta bs be as ae new"
proof (induction n arbitrary: bs be as ae gaps)
  case 0
  then show ?case by simp
next
  case (Suc n)
  obtain b a where fr: "trim_front tb ta bs be as ae = (b, a)" by fastforce
  from trim_front_ok [OF fr Suc.prems(2,3)]
  have f: "bs \<le> b" "b \<le> be" "as \<le> a" "a \<le> ae" "vals tb bs b = vals ta as a" by auto
  obtain e d where bk: "trim_back tb ta b be a ae = (e, d)" by fastforce
  from trim_back_ok [OF bk f(2,4)]
  have k: "b \<le> e" "e \<le> be" "a \<le> d" "d \<le> ae" "vals tb e be = vals ta d ae" by auto
  have wrap: "covers tb ta bs be as ae new" if "covers tb ta b e a d new" for new
  proof -
    have "covers tb ta bs e as d new" by (rule covers_prepend [OF f(1,3,5) that])
    from covers_glue [OF this k(2,4,5), of be ae "[]"] show ?thesis by simp
  qed
  let ?C = "collect (Suc n) cells w tb ta bs be as ae gaps"
  consider (triv) "b = e \<or> a = d" | (lcs) "\<not> (b = e \<or> a = d)" "(e - b) * (d - a) \<le> cells"
    | (none) "\<not> (b = e \<or> a = d)" "\<not> (e - b) * (d - a) \<le> cells" "unique_ordered_anchors tb ta b e a d = []"
    | (split) "\<not> (b = e \<or> a = d)" "\<not> (e - b) * (d - a) \<le> cells" "unique_ordered_anchors tb ta b e a d \<noteq> []" by blast
  then show ?case
  proof cases
    case triv
    obtain new where new: "append_gap gaps b e a d = gaps @ new" "covers tb ta b e a d new"
      using covers_gap k(1,3) by blast
    then show ?thesis using triv wrap by (intro exI [of _ High] exI [of _ new]) (simp add: fr bk)
  next
    case lcs
    obtain new where new: "collect_by_lcs w tb ta b e a d gaps = gaps @ new" "covers tb ta b e a d new"
      using collect_by_lcs_ok k(1,3) by blast
    then show ?thesis using lcs wrap by (intro exI [of _ High] exI [of _ new]) (simp add: fr bk)
  next
    case none
    obtain new where new: "append_gap gaps b e a d = gaps @ new" "covers tb ta b e a d new"
      using covers_gap k(1,3) by blast
    then show ?thesis using none wrap by (intro exI [of _ Low] exI [of _ new]) (simp add: fr bk)
  next
    case split
    define cs where "cs = unique_ordered_anchors tb ta b e a d"
    have cs: "anchors_ok tb ta b e a d cs" unfolding cs_def by (rule unique_ordered_anchors_ok)
    define g where "g = (\<lambda>acc anchor. case acc of None \<Rightarrow> None
      | Some (conf, pb, pa, gs) \<Rightarrow> (case collect n cells w tb ta pb (fst anchor) pa (snd anchor) gs of None \<Rightarrow> None
           | Some (c, gs') \<Rightarrow> Some (lower conf c, Suc (fst anchor), Suc (snd anchor), gs')))"
    have small: "e - b \<le> n" "b < e" "a < d" using Suc.prems(1) f k split(1) by auto
    have fold: "\<exists>conf' pb' pa' new. foldl g (Some (conf, pb, pa, gs0)) xs = Some (conf', pb', pa', gs0 @ new)
        \<and> covers tb ta pb pb' pa pa' new \<and> pb' \<le> e \<and> pa' \<le> d \<and> (xs = [] \<or> b < pb')"
      if "anchors_ok tb ta pb e pa d xs" "b \<le> pb" "pb \<le> e" "a \<le> pa" "pa \<le> d" for xs conf pb pa gs0
      using that
    proof (induction xs arbitrary: conf pb pa gs0)
      case Nil
      then show ?case by auto
    next
      case (Cons x xs)
      obtain x1 x2 where x: "x = (x1, x2)" by (cases x)
      from Cons.prems x have xx: "pb \<le> x1" "x1 < e" "pa \<le> x2" "x2 < d" "value_at tb x1 = value_at ta x2"
        by (auto simp: anchors_ok_def)
      have "x1 - pb < n" using xx Cons.prems(2) small by linarith
      from Suc.IH [OF this xx(1,3), of gs0] obtain c new1 where c: "collect n cells w tb ta pb x1 pa x2 gs0 = Some (c, gs0 @ new1)"
        "covers tb ta pb x1 pa x2 new1" by blast
      have rest: "anchors_ok tb ta (Suc x1) e (Suc x2) d xs" using Cons.prems(1) x by (fastforce simp: anchors_ok_def)
      obtain conf' pb' pa' new2 where r: "foldl g (Some (lower conf c, Suc x1, Suc x2, gs0 @ new1)) xs
          = Some (conf', pb', pa', (gs0 @ new1) @ new2)" "covers tb ta (Suc x1) pb' (Suc x2) pa' new2" "pb' \<le> e" "pa' \<le> d"
        using Cons.IH [OF rest, of "lower conf c" "gs0 @ new1"] xx Cons.prems by fastforce
      have "covers tb ta pb pb' pa pa' (new1 @ new2)"
        by (rule covers_glue [OF c(2) _ _ _ r(2)]) (use xx(5) in \<open>simp_all add: vals_Suc\<close>)
      moreover have "foldl g (Some (conf, pb, pa, gs0)) (x # xs) = Some (conf', pb', pa', gs0 @ (new1 @ new2))"
        using r(1) c(1) by (simp add: g_def x)
      moreover have "b < pb'" using covers_bounds [OF r(2)] xx Cons.prems by linarith
      ultimately show ?case using r(3,4) by blast
    qed
    from fold [OF cs order_refl k(1) order_refl k(3), of High gaps] obtain conf pb pa new1 where
      o1: "foldl g (Some (High, b, a, gaps)) cs = Some (conf, pb, pa, gaps @ new1)" "covers tb ta b pb a pa new1"
      "pb \<le> e" "pa \<le> d" "cs = [] \<or> b < pb" by blast
    have "e - pb < n" using o1(3,5) small split(3) unfolding cs_def [symmetric] by auto
    from Suc.IH [OF this o1(3,4), of "gaps @ new1"] obtain c new2 where
      o2: "collect n cells w tb ta pb e pa d (gaps @ new1) = Some (c, (gaps @ new1) @ new2)" "covers tb ta pb e pa d new2" by blast
    have cov: "covers tb ta b e a d (new1 @ new2)"
      by (rule covers_glue [OF o1(2) order_refl order_refl _ o2(2)]) simp
    have "?C = Some (lower (lower conf c) Medium, gaps @ (new1 @ new2))"
      using split o1(1) o2(1) unfolding g_def cs_def by (simp add: fr bk Let_def)
    with wrap [OF cov] show ?thesis by blast
  qed
qed

section \<open>Properties\<close>

text \<open>C11: the changed gaps are a correct patch, for small and large inputs alike: the recursion always returns, it only adds
  gaps, outside the gaps both sides have the same token values in the same order, and replacing the removed
  groups by the added ones turns the one range into the other.\<close>

theorem changed_gaps_patch:
  assumes "bs \<le> be" and "as \<le> ae"
  shows "\<exists>conf new. collect_changed_token_gaps w tb ta bs be as ae gaps = Some (conf, gaps @ new)
    \<and> covers tb ta bs be as ae new \<and> patch tb ta bs be new = vals ta as ae"
  using collect_ok [of be bs "Suc (be - bs)" as ae EXACT_LCS_MAX_CELLS w tb ta gaps] assms covers_patch
  by (fastforce simp: collect_changed_token_gaps_def)

definition example_tokens :: "string list \<Rightarrow> token list" where
  "example_tokens vs = map (\<lambda>v. \<lparr>t_value = v, t_from = 0, t_to = 0\<rparr>) vs"

theorem changed_gaps_patch_witness:
  "\<exists>conf new. collect_changed_token_gaps (token_weight (\<lambda>_. True) (\<lambda>_. False)) (example_tokens [''a'', ''b'', ''c'']) (example_tokens [''a'', ''x'', ''c''])
      0 3 0 3 [] = Some (conf, [] @ new)
    \<and> covers (example_tokens [''a'', ''b'', ''c'']) (example_tokens [''a'', ''x'', ''c'']) 0 3 0 3 new
    \<and> patch (example_tokens [''a'', ''b'', ''c'']) (example_tokens [''a'', ''x'', ''c'']) 0 3 new
        = vals (example_tokens [''a'', ''x'', ''c'']) 0 3"
  by (rule changed_gaps_patch) simp_all

end
