(* ===== verification/Complexity.thy ===== *)
theory Complexity imports Prelude begin

text \<open>
  \<^verbatim>\<open>src/src/state/complexity.ts\<close>: the tokenizer for TypeScript and JavaScript and the fold that counts decision
  keywords. Positions are indexes into the source, as in the code; the mutually recursive scanners take fuel, which the
  last section shows to be enough. Characters are code units below 256.
\<close>

section \<open>Characters and tokens\<close>

datatype kind = Word | Punctuation

record token =
  tk_value :: string
  tk_kind :: kind

definition char_at :: "string \<Rightarrow> nat \<Rightarrow> char option" where
  "char_at src i = (if i < length src then Some (src ! i) else None)"

definition letter :: "char \<Rightarrow> bool" where
  "letter c \<longleftrightarrow> (let n = of_char c :: nat in (97 \<le> n \<and> n \<le> 122) \<or> (65 \<le> n \<and> n \<le> 90) \<or> n = 95 \<or> n = 36)"

definition is_word_start :: "char option \<Rightarrow> bool" where
  "is_word_start c = (case c of None \<Rightarrow> False | Some c \<Rightarrow> letter c)"

definition is_word_part :: "char option \<Rightarrow> bool" where
  "is_word_part c = (case c of None \<Rightarrow> False | Some c \<Rightarrow> letter c \<or> (let n = of_char c :: nat in 48 \<le> n \<and> n \<le> 57))"

definition blank :: "char \<Rightarrow> bool" where
  "blank c \<longleftrightarrow> (of_char c :: nat) \<in> {9, 10, 11, 12, 13, 32, 160}"

definition prefix_words :: "string list" where
  "prefix_words = [''await'', ''case'', ''delete'', ''do'', ''else'', ''in'', ''instanceof'', ''of'', ''return'', ''throw'',
     ''typeof'', ''void'', ''yield'']"

text \<open>\<open>String.prototype.substring_of\<close>.\<close>

fun substring_of :: "string \<Rightarrow> string \<Rightarrow> bool" where
  "substring_of [] p \<longleftrightarrow> p = []"
| "substring_of (c # s) p \<longleftrightarrow> take (length p) (c # s) = p \<or> substring_of s p"

definition can_start_regex :: "token list \<Rightarrow> bool" where
  "can_start_regex toks = (case last_opt toks of None \<Rightarrow> True
     | Some t \<Rightarrow> if tk_kind t = Punctuation then substring_of ''([{=,:;!&|?+-*%^~<>'' (tk_value t) else tk_value t \<in> set prefix_words)"

definition can_start_jsx :: "char option \<Rightarrow> token list \<Rightarrow> bool" where
  "can_start_jsx nxt toks =
     (if nxt \<noteq> Some (CHR ''>'') \<and> \<not> is_word_start nxt then False
      else case last_opt toks of None \<Rightarrow> True
        | Some t \<Rightarrow> if tk_kind t = Word then tk_value t = ''return''
            else tk_value t \<in> {''('', ''['', ''{'', ''='', '','', '':'', ''?'', ''=>'', ''&&'', ''||''})"

definition punct :: "string \<Rightarrow> token" where
  "punct v = \<lparr>tk_value = v, tk_kind = Punctuation\<rparr>"

section \<open>The loops that push nothing\<close>

abbreviation bs :: char where "bs \<equiv> CHR 0x5C"
abbreviation newline :: char where "newline \<equiv> CHR 0x0A"
abbreviation backtick :: char where "backtick \<equiv> CHR 0x60"
abbreviation apostrophe :: char where "apostrophe \<equiv> CHR 0x27"
abbreviation dquote :: char where "dquote \<equiv> CHR 0x22"

function skip_quoted_from :: "string \<Rightarrow> char option \<Rightarrow> nat \<Rightarrow> nat" where
  "skip_quoted_from src q i =
     (if i < length src then
        (if src ! i = bs then skip_quoted_from src q (i + 2)
         else if Some (src ! i) = q then i + 1
         else skip_quoted_from src q (i + 1))
      else i)"
  by pat_completeness auto
termination by (relation "measure (\<lambda>(src, q, i). length src - i)") auto

definition skip_quoted :: "string \<Rightarrow> nat \<Rightarrow> nat" where
  "skip_quoted src start = skip_quoted_from src (char_at src start) (start + 1)"

function skip_until :: "string \<Rightarrow> char \<Rightarrow> nat \<Rightarrow> nat" where
  "skip_until src c i = (if i < length src \<and> src ! i \<noteq> c then skip_until src c (i + 1) else i)"
  by pat_completeness auto
termination by (relation "measure (\<lambda>(src, c, i). length src - i)") auto

function skip_block :: "string \<Rightarrow> nat \<Rightarrow> nat" where
  "skip_block src i =
     (if i < length src \<and> \<not> (src ! i = CHR ''*'' \<and> char_at src (i + 1) = Some (CHR ''/'')) then skip_block src (i + 1) else i)"
  by pat_completeness auto
termination by (relation "measure (\<lambda>(src, i). length src - i)") auto

function skip_word :: "string \<Rightarrow> nat \<Rightarrow> nat" where
  "skip_word src i = (if i < length src \<and> is_word_part (char_at src i) then skip_word src (i + 1) else i)"
  by pat_completeness auto
termination by (relation "measure (\<lambda>(src, i). length src - i)") auto

function skip_regex :: "string \<Rightarrow> bool \<Rightarrow> nat \<Rightarrow> nat" where
  "skip_regex src inClass i =
     (if i < length src then
        (if src ! i = bs then skip_regex src inClass (i + 2)
         else if src ! i = CHR ''['' then skip_regex src True (i + 1)
         else if src ! i = CHR '']'' then skip_regex src False (i + 1)
         else if src ! i = CHR ''/'' \<and> \<not> inClass then skip_word src (i + 1)
         else skip_regex src inClass (i + 1))
      else i)"
  by pat_completeness auto
termination by (relation "measure (\<lambda>(src, c, i). length src - i)") auto

fun back_over_blanks :: "string \<Rightarrow> nat \<Rightarrow> nat \<Rightarrow> nat" where
  "back_over_blanks src start 0 = 0"
| "back_over_blanks src start (Suc p) =
     (if Suc p > start \<and> (case char_at src (Suc p) of Some c \<Rightarrow> blank c | None \<Rightarrow> False) then back_over_blanks src start p else Suc p)"

declare skip_quoted_from.simps [simp del] skip_until.simps [simp del] skip_block.simps [simp del] skip_word.simps [simp del]
  skip_regex.simps [simp del]

section \<open>The scanners\<close>

text \<open>
  The recursive scanners are the modes of one machine: \<open>Scan\<close> is the loop of \<open>scan\<close> (with \<open>stopAtClosingBrace\<close>),
  \<open>Template\<close> the loop inside a template literal, \<open>Jsx_open\<close> and \<open>Jsx_children\<close> the two loops of \<open>scanJsx\<close>, \<open>Braced\<close> the call of
  \<open>scan\<close> between the two pushed braces and \<open>Closing\<close> what follows it. A turn of a loop ends the scanner, goes on, or calls
  another scanner and goes on from where that one stopped.
\<close>

datatype mode = Scan bool | Braced | Closing | Template | Jsx_open nat | Jsx_children

datatype turn =
    Return nat "token list"
  | Continue mode nat "token list"
  | Call mode nat "token list" mode

definition punctuation_turn :: "string \<Rightarrow> bool \<Rightarrow> nat \<Rightarrow> token list \<Rightarrow> turn" where
  "punctuation_turn src stop i toks =
     (let two = src ! i # (case char_at src (i + 1) of Some d \<Rightarrow> [d] | None \<Rightarrow> []) in
      if two \<in> set [''?.'', ''??'', ''&&'', ''||'', ''=>''] then Continue (Scan stop) (i + 2) (toks @ [punct two])
      else Continue (Scan stop) (i + 1) (toks @ [punct [src ! i]]))"

definition scan_turn :: "string \<Rightarrow> bool \<Rightarrow> nat \<Rightarrow> token list \<Rightarrow> turn" where
  "scan_turn src stop i toks =
     (if i \<ge> length src then Return i toks
      else (let c = src ! i; nxt = char_at src (i + 1) in
        if stop \<and> c = CHR ''}'' then Return (i + 1) toks
        else if c = CHR ''<'' \<and> can_start_jsx nxt toks then Call (Jsx_open i) (i + 1) toks (Scan stop)
        else if c = CHR ''{'' then Call Braced (i + 1) toks (Scan stop)
        else if c = CHR ''/'' \<and> nxt = Some (CHR ''/'') then Continue (Scan stop) (skip_until src newline (i + 2)) toks
        else if c = CHR ''/'' \<and> nxt = Some (CHR ''*'') then
          Continue (Scan stop) (min (length src) (skip_block src (i + 2) + 2)) toks
        else if c = apostrophe \<or> c = dquote then Continue (Scan stop) (skip_quoted src i) toks
        else if c = backtick then Call Template (i + 1) toks (Scan stop)
        else if c = CHR ''/'' \<and> nxt \<noteq> Some (CHR ''='') \<and> can_start_regex toks then
          Continue (Scan stop) (skip_regex src False (i + 1)) toks
        else if letter c then
          (let j = skip_word src (i + 1) in
           Continue (Scan stop) j (toks @ [\<lparr>tk_value = take (j - i) (drop i src), tk_kind = Word\<rparr>]))
        else if \<not> blank c then punctuation_turn src stop i toks
        else Continue (Scan stop) (i + 1) toks))"

definition template_turn :: "string \<Rightarrow> nat \<Rightarrow> token list \<Rightarrow> turn" where
  "template_turn src i toks =
     (if i \<ge> length src then Return i toks
      else if src ! i = bs then Continue Template (i + 2) toks
      else if src ! i = backtick then Return (i + 1) toks
      else if src ! i = CHR ''$'' \<and> char_at src (i + 1) = Some (CHR ''{'') then Call Braced (i + 2) toks Template
      else Continue Template (i + 1) toks)"

definition jsx_open_turn :: "string \<Rightarrow> nat \<Rightarrow> nat \<Rightarrow> token list \<Rightarrow> turn" where
  "jsx_open_turn src start i toks =
     (if i \<ge> length src then Continue Jsx_children i toks
      else if src ! i = apostrophe \<or> src ! i = dquote then Continue (Jsx_open start) (skip_quoted src i) toks
      else if src ! i = CHR ''{'' then Call Braced (i + 1) toks (Jsx_open start)
      else if src ! i = CHR ''>'' then
        (if char_at src (back_over_blanks src start (i - 1)) = Some (CHR ''/'') then Return (i + 1) toks
         else Continue Jsx_children (i + 1) toks)
      else Continue (Jsx_open start) (i + 1) toks)"

definition jsx_children_turn :: "string \<Rightarrow> nat \<Rightarrow> token list \<Rightarrow> turn" where
  "jsx_children_turn src i toks =
     (if i \<ge> length src then Return i toks
      else if src ! i = CHR ''{'' then Call Braced (i + 1) toks Jsx_children
      else if src ! i = CHR ''<'' \<and> char_at src (i + 1) = Some (CHR ''/'') then
        Return (min (length src) (skip_until src (CHR ''>'') (i + 2) + 1)) toks
      else if src ! i = CHR ''<'' then Call (Jsx_open i) (i + 1) toks Jsx_children
      else Continue Jsx_children (i + 1) toks)"

definition turn_of :: "string \<Rightarrow> mode \<Rightarrow> nat \<Rightarrow> token list \<Rightarrow> turn" where
  "turn_of src m i toks = (case m of
       Scan stop \<Rightarrow> scan_turn src stop i toks
     | Braced \<Rightarrow> Call (Scan True) i (toks @ [punct ''{'']) Closing
     | Closing \<Rightarrow> Return i (toks @ [punct ''}''])
     | Template \<Rightarrow> template_turn src i toks
     | Jsx_open start \<Rightarrow> jsx_open_turn src start i toks
     | Jsx_children \<Rightarrow> jsx_children_turn src i toks)"

primrec scan_from :: "nat \<Rightarrow> string \<Rightarrow> mode \<Rightarrow> nat \<Rightarrow> token list \<Rightarrow> (nat \<times> token list) option" where
  "scan_from 0 src m i toks = None"
| "scan_from (Suc n) src m i toks = (case turn_of src m i toks of
       Return j ts \<Rightarrow> Some (j, ts)
     | Continue m' j ts \<Rightarrow> scan_from n src m' j ts
     | Call sub j ts m' \<Rightarrow> (case scan_from n src sub j ts of None \<Rightarrow> None | Some (k, us) \<Rightarrow> scan_from n src m' k us))"

definition tokenize :: "string \<Rightarrow> token list option" where
  "tokenize src = map_option snd (scan_from (2 * length src + 1) src (Scan False) 0 [])"

section \<open>The count\<close>

definition followed_by :: "token list \<Rightarrow> nat \<Rightarrow> string \<Rightarrow> bool" where
  "followed_by toks i v \<longleftrightarrow> i + 1 < length toks \<and> tk_value (toks ! (i + 1)) = v"

record fold_state =
  switch_bodies :: "bool list"
  waiting :: bool
  counted :: nat

definition count_step :: "token list \<Rightarrow> fold_state \<Rightarrow> nat \<Rightarrow> fold_state" where
  "count_step toks s i =
     (let v = tk_value (toks ! i); s = (if v = ''switch'' then s\<lparr>waiting := True\<rparr> else s) in
      if v = ''{'' then s\<lparr>switch_bodies := switch_bodies s @ [waiting s], waiting := False\<rparr>
      else if v = ''}'' then s\<lparr>switch_bodies := butlast (switch_bodies s)\<rparr>
      else if v \<in> {''if'', ''for'', ''while''} \<and> followed_by toks i ''('' then s\<lparr>counted := Suc (counted s)\<rparr>
      else if v = ''catch'' \<and> (followed_by toks i ''('' \<or> followed_by toks i ''{'') then s\<lparr>counted := Suc (counted s)\<rparr>
      else if last_opt (switch_bodies s) = Some True then
        (if v = ''default'' \<and> followed_by toks i '':'' then s\<lparr>counted := Suc (counted s)\<rparr>
         else if v = ''case'' then s\<lparr>counted := Suc (counted s)\<rparr> else s)
      else s)"

definition count_tokens :: "token list \<Rightarrow> nat" where
  "count_tokens toks = counted (foldl (count_step toks) \<lparr>switch_bodies = [], waiting = False, counted = 0\<rparr> [0..<length toks])"

definition count_source :: "string \<Rightarrow> nat option" where
  "count_source src = map_option count_tokens (tokenize src)"

section \<open>The scanners move forward\<close>

lemma skip_quoted_from_ge: "i \<le> skip_quoted_from src q i"
proof (induction src q i rule: skip_quoted_from.induct)
  case (1 src q i)
  then show ?case by (subst skip_quoted_from.simps) auto
qed

lemma skip_quoted_gt: "i < skip_quoted src i"
  using skip_quoted_from_ge [of "i + 1" src "char_at src i"] by (simp add: skip_quoted_def)

lemma skip_until_ge: "i \<le> skip_until src c i"
proof (induction src c i rule: skip_until.induct)
  case (1 src c i)
  then show ?case by (subst skip_until.simps) auto
qed

lemma skip_block_ge: "i \<le> skip_block src i"
proof (induction src i rule: skip_block.induct)
  case (1 src i)
  then show ?case by (subst skip_block.simps) auto
qed

lemma skip_word_ge: "i \<le> skip_word src i"
proof (induction src i rule: skip_word.induct)
  case (1 src i)
  then show ?case by (subst skip_word.simps) auto
qed

lemma skip_regex_ge: "i \<le> skip_regex src b i"
proof (induction src b i rule: skip_regex.induct)
  case (1 src b i)
  have "i + 1 \<le> skip_word src (i + 1)" by (rule skip_word_ge)
  with 1 show ?case by (subst skip_regex.simps) auto
qed

section \<open>The fuel is enough\<close>

definition need :: "string \<Rightarrow> mode \<Rightarrow> nat \<Rightarrow> nat" where
  "need src m i = (case m of
       Scan _ \<Rightarrow> 2 * (length src - i) + 1
     | Braced \<Rightarrow> 2 * (length src - i) + 2
     | Closing \<Rightarrow> 1
     | Template \<Rightarrow> 2 * (length src - i) + 1
     | Jsx_open _ \<Rightarrow> 2 * (length src - i) + 2
     | Jsx_children \<Rightarrow> 2 * (length src - i) + 1)"

lemma need_simps [simp]:
  "need src (Scan b) i = 2 * (length src - i) + 1"
  "need src Braced i = 2 * (length src - i) + 2"
  "need src Closing i = 1"
  "need src Template i = 2 * (length src - i) + 1"
  "need src (Jsx_open s) i = 2 * (length src - i) + 2"
  "need src Jsx_children i = 2 * (length src - i) + 1"
  by (simp_all add: need_def)

text \<open>A turn taken at \<open>i\<close> with fuel \<open>w\<close> goes on only from positions not before \<open>i\<close> that need less.\<close>

definition turn_descends :: "string \<Rightarrow> nat \<Rightarrow> nat \<Rightarrow> turn \<Rightarrow> bool" where
  "turn_descends src i w t = (case t of
       Return j ts \<Rightarrow> i \<le> j
     | Continue m' j ts \<Rightarrow> i \<le> j \<and> need src m' j < w
     | Call sub j ts m' \<Rightarrow> i \<le> j \<and> need src sub j < w \<and> (\<forall>k\<ge>j. need src m' k < w))"

lemma turn_descends_simps [simp]:
  "turn_descends src i w (Return j ts) \<longleftrightarrow> i \<le> j"
  "turn_descends src i w (Continue m' j ts) \<longleftrightarrow> i \<le> j \<and> need src m' j < w"
  "turn_descends src i w (Call sub j ts m') \<longleftrightarrow> i \<le> j \<and> need src sub j < w \<and> (\<forall>k\<ge>j. need src m' k < w)"
  by (simp_all add: turn_descends_def)

lemma turn_descends_if [intro]:
  "(b \<Longrightarrow> turn_descends src i w t) \<Longrightarrow> (\<not> b \<Longrightarrow> turn_descends src i w u) \<Longrightarrow> turn_descends src i w (if b then t else u)"
  by simp

lemma scan_turn_descends: "turn_descends src i (need src (Scan stop) i) (scan_turn src stop i toks)"
proof (cases "i < length src")
  case False
  then show ?thesis by (simp add: scan_turn_def)
next
  case True
  have block: "i < min (length src) (skip_block src (i + 2) + 2)" "i + 2 \<le> skip_block src (i + 2)"
    using True skip_block_ge [of "i + 2" src] by simp_all
  have u: "i < skip_until src newline (i + 2)" using skip_until_ge [of "i + 2" src newline] by simp
  have q: "i < skip_quoted src i" by (rule skip_quoted_gt)
  have r: "i < skip_regex src False (i + 1)" using skip_regex_ge [of "i + 1" src False] by simp
  have w: "i < skip_word src (i + 1)" using skip_word_ge [of "i + 1" src] by simp
  have go: "turn_descends src i (need src (Scan stop) i) (Continue (Scan b) j ts)" if "i < j" for b j ts
    using True that by simp
  have call: "turn_descends src i (need src (Scan stop) i) (Call m (i + 1) ts (Scan b))"
    if "m \<in> {Jsx_open i, Braced, Template}" for m ts b
    using True that by auto
  show ?thesis
    unfolding scan_turn_def Let_def punctuation_turn_def
    using True by (intro turn_descends_if go call block(1) u q r w) simp_all
qed

lemma template_turn_descends: "turn_descends src i (need src Template i) (template_turn src i toks)"
  unfolding template_turn_def by (intro turn_descends_if) auto

lemma jsx_open_turn_descends: "turn_descends src i (need src (Jsx_open start) i) (jsx_open_turn src start i toks)"
  unfolding jsx_open_turn_def using skip_quoted_gt [of i src] by (intro turn_descends_if) auto

lemma jsx_children_turn_descends: "turn_descends src i (need src Jsx_children i) (jsx_children_turn src i toks)"
  unfolding jsx_children_turn_def using skip_until_ge [of "i + 2" src "CHR ''>''"] by (intro turn_descends_if) auto

lemma turn_of_descends: "turn_descends src i (need src m i) (turn_of src m i toks)"
  by (cases m) (simp_all only: turn_of_def mode.case scan_turn_descends template_turn_descends jsx_open_turn_descends
      jsx_children_turn_descends, simp_all)

lemma scan_from_enough:
  "need src m i \<le> n \<Longrightarrow> \<exists>j ts. scan_from n src m i toks = Some (j, ts) \<and> i \<le> j"
proof (induction n arbitrary: m i toks)
  case 0
  then show ?case by (cases m) simp_all
next
  case (Suc n)
  have d: "turn_descends src i (need src m i) (turn_of src m i toks)" by (rule turn_of_descends)
  show ?case
  proof (cases "turn_of src m i toks")
    case (Return j ts)
    with d show ?thesis by simp
  next
    case (Continue m' j ts)
    with d Suc.prems have "need src m' j \<le> n" "i \<le> j" by simp_all
    with Suc.IH [of m' j ts] Continue show ?thesis by fastforce
  next
    case (Call sub j ts m')
    with d Suc.prems have sub: "need src sub j \<le> n" "i \<le> j" and after: "\<And>k. j \<le> k \<Longrightarrow> need src m' k \<le> n"
      by fastforce+
    from Suc.IH [OF sub(1), of ts] obtain k us where k: "scan_from n src sub j ts = Some (k, us)" "j \<le> k" by blast
    from Suc.IH [OF after [OF k(2)], of us] obtain l vs where l: "scan_from n src m' k us = Some (l, vs)" "k \<le> l" by blast
    with k sub(2) Call show ?thesis by simp
  qed
qed

lemma tokenize_total: "tokenize src \<noteq> None"
  using scan_from_enough [of src "Scan False" 0 "2 * length src + 1" "[]"] by (auto simp: tokenize_def)

section \<open>The fold counts keywords only\<close>

definition decision_words :: "string list" where
  "decision_words = [''if'', ''for'', ''while'', ''catch'', ''case'', ''default'']"

definition is_decision :: "token \<Rightarrow> bool" where
  "is_decision t \<longleftrightarrow> tk_value t \<in> set decision_words"

lemma count_step_le:
  "counted (count_step toks s i) \<le> counted s + (if is_decision (toks ! i) then 1 else 0)"
  by (simp add: count_step_def Let_def is_decision_def decision_words_def)

lemma count_fold_le:
  "counted (foldl (count_step toks) s is) \<le> counted s + length (filter (\<lambda>i. is_decision (toks ! i)) is)"
proof (induction "is" arbitrary: s)
  case Nil
  then show ?case by simp
next
  case (Cons i js)
  have "counted (foldl (count_step toks) s (i # js)) \<le> counted (count_step toks s i) + length (filter (\<lambda>i. is_decision (toks ! i)) js)"
    using Cons.IH [of "count_step toks s i"] by simp
  also have "\<dots> \<le> counted s + length (filter (\<lambda>i. is_decision (toks ! i)) (i # js))"
    using count_step_le [of toks s i] by (cases "is_decision (toks ! i)") simp_all
  finally show ?case .
qed

lemma filter_nth_upt: "length (filter (\<lambda>i. P (xs ! i)) [0..<length xs]) = length (filter P xs)"
proof -
  have "filter P xs = map ((!) xs) (filter (\<lambda>i. P (xs ! i)) [0..<length xs])"
    using filter_map [of P "(!) xs" "[0..<length xs]"] by (simp add: map_nth o_def)
  then show ?thesis by simp
qed

lemma count_tokens_le: "count_tokens toks \<le> length (filter is_decision toks)"
  using count_fold_le [of toks "\<lparr>switch_bodies = [], waiting = False, counted = 0\<rparr>" "[0..<length toks]"]
  by (simp add: count_tokens_def filter_nth_upt)

text \<open>For every source, well formed or not (unclosed braces, quotes, comments, templates and JSX included), the tokenizer
  ends, and the complexity it counts is at most the number of the tokens that are one of the six decision keywords: operators
  such as a ternary, \<open>&&\<close> or \<open>??\<close> never count.\<close>

theorem complexity_total_and_bounded:
  "\<exists>toks n. tokenize src = Some toks \<and> count_source src = Some n \<and> n \<le> length (filter is_decision toks)"
proof -
  obtain toks where t: "tokenize src = Some toks" using tokenize_total [of src] by auto
  then have "count_source src = Some (count_tokens toks)" by (simp add: count_source_def)
  with t count_tokens_le show ?thesis by blast
qed

section \<open>Regular expressions after two-character operators\<close>

text \<open>A slash that follows one of the five two-character operators is never taken for the start of a regular expression, so
  the keywords inside a regular expression literal that stands there are counted, while the same literal after \<open>=\<close> is skipped.\<close>

theorem regex_after_operator_is_scanned:
  "list_all (\<lambda>v. \<not> can_start_regex (toks @ [punct v])) [''?.'', ''??'', ''&&'', ''||'', ''=>''] \<and>
   count_source ''a&&/if(/'' = Some 1 \<and> count_source ''a=/if(/'' = Some 0"
proof (intro conjI)
  show "count_source ''a=/if(/'' = Some 0" by code_simp
  show "count_source ''a&&/if(/'' = Some 1" by code_simp
qed (simp add: can_start_regex_def punct_def last_opt_def)

end
