(* ===== verification/Grants.thy ===== *)
theory Grants imports Prelude begin

text \<open>
  \<^verbatim>\<open>src/src/mesh/grants.ts\<close>: scoped bearer tokens for external mesh posts. The grant file and the event log are the state;
  every operation runs under the mesh lock, so it is one step. SHA-256 (\<open>hash\<close>) and the byte size of the serialized file
  (\<open>file_bytes\<close>) are parameters; clock readings, random ids and tokens are arguments; an identity
  is its opaque text and posted data its serialized bytes.
\<close>

section \<open>Data\<close>

record grant =
  g_id :: string
  g_topic :: string
  g_kind :: "string option"
  g_created :: int
  g_expires :: int
  g_uses :: int
  g_max :: int
  g_created_by :: string
  g_hash :: string
  g_max_event_bytes :: int
  g_last_event :: "string option"

record event =
  ev_id :: string
  ev_topic :: string
  ev_kind :: string
  ev_from :: string
  ev_data :: "string option"
  ev_untrusted :: bool
  ev_grant :: string
  ev_max_bytes :: int

text \<open>The file: absent, readable, or damaged (too large, not JSON, or not of the format).\<close>

datatype grant_file = NoFile | Damaged | Readable "grant list"

datatype grant_error =
    BadTtl | BadUses | BadTopic | BadKind | BadGrantId | DataTooLarge | ReadFailed | FileTooLarge | TooManyActive
  | TokenInvalid | Expired | NoUsesLeft | TopicNotCovered | KindNotCovered | AppendFailed

record mesh =
  grants_file :: grant_file
  log :: "event list"

definition EXTERNAL_DATA_MAX_BYTES :: int where "EXTERNAL_DATA_MAX_BYTES = 65536"
definition MIN_TTL_MS :: int where "MIN_TTL_MS = 60000"
definition MAX_TTL_MS :: int where "MAX_TTL_MS = 2592000000"
definition MAX_USES :: int where "MAX_USES = 10000"
definition MAX_ACTIVE_GRANTS :: int where "MAX_ACTIVE_GRANTS = 1000"
definition MAX_GRANT_FILE_BYTES :: int where "MAX_GRANT_FILE_BYTES = 4194304"

section \<open>The patterns\<close>

definition in_ranges :: "(int \<times> int) list \<Rightarrow> char \<Rightarrow> bool" where
  "in_ranges rs c \<longleftrightarrow> list_ex (\<lambda>r. fst r \<le> of_char c \<and> of_char c \<le> snd r) rs"

definition alnum :: "(int \<times> int) list" where
  "alnum = [(97, 122), (65, 90), (48, 57)]"

definition grant_id_pattern :: "string \<Rightarrow> bool" where
  "grant_id_pattern s \<longleftrightarrow> 1 \<le> length s \<and> length s \<le> 64 \<and> list_all (in_ranges (alnum @ [(45, 45)])) s"

definition token_pattern :: "string \<Rightarrow> bool" where
  "token_pattern s \<longleftrightarrow> length s = 43 \<and> list_all (in_ranges (alnum @ [(95, 95), (45, 45)])) s"

definition kind_pattern :: "string \<Rightarrow> bool" where
  "kind_pattern s = (case s of [] \<Rightarrow> False
     | c # cs \<Rightarrow> in_ranges alnum c \<and> length cs \<le> 127 \<and> list_all (in_ranges (alnum @ [(46, 46), (95, 95), (58, 58), (47, 47), (45, 45)])) cs)"

definition topic_pattern :: "string \<Rightarrow> bool" where
  "topic_pattern s = kind_pattern s"

section \<open>Reading and writing the file\<close>

definition read_grants :: "mesh \<Rightarrow> grant_error + grant list" where
  "read_grants m = (case grants_file m of NoFile \<Rightarrow> Inr [] | Damaged \<Rightarrow> Inl ReadFailed | Readable gs \<Rightarrow> Inr gs)"

definition write_grants :: "(grant list \<Rightarrow> int) \<Rightarrow> mesh \<Rightarrow> grant list \<Rightarrow> grant_error + mesh" where
  "write_grants file_bytes m gs =
     (if file_bytes gs > MAX_GRANT_FILE_BYTES then Inl FileTooLarge else Inr (m\<lparr>grants_file := Readable gs\<rparr>))"

definition bounded_integer :: "int \<Rightarrow> grant_error \<Rightarrow> int \<Rightarrow> int \<Rightarrow> grant_error + int" where
  "bounded_integer v e lo hi = (if v < lo \<or> v > hi then Inl e else Inr v)"

section \<open>Operations\<close>

text \<open>Each yields the outcome and the mesh it leaves: an error may leave a written file behind.\<close>

record create_input =
  c_topic :: string
  c_kind :: "string option"
  c_ttl :: int
  c_uses :: "int option"
  c_by :: string

definition create_mesh_grant ::
  "(string \<Rightarrow> string) \<Rightarrow> (grant list \<Rightarrow> int) \<Rightarrow> int \<Rightarrow> create_input \<Rightarrow> string \<Rightarrow> string \<Rightarrow> int \<Rightarrow> mesh \<Rightarrow> (grant_error + grant) \<times> mesh" where
  "create_mesh_grant hash file_bytes max_event_bytes input uuid token now m =
     (case bounded_integer (c_ttl input) BadTtl MIN_TTL_MS MAX_TTL_MS of Inl e \<Rightarrow> (Inl e, m) | Inr ttl \<Rightarrow>
      case bounded_integer (case c_uses input of None \<Rightarrow> 1 | Some u \<Rightarrow> u) BadUses 1 MAX_USES of Inl e \<Rightarrow> (Inl e, m) | Inr uses \<Rightarrow>
      if \<not> topic_pattern (c_topic input) then (Inl BadTopic, m)
      else if \<not> (case c_kind input of None \<Rightarrow> True | Some k \<Rightarrow> kind_pattern k) then (Inl BadKind, m)
      else (let g = \<lparr>g_id = uuid, g_topic = c_topic input, g_kind = c_kind input, g_created = now, g_expires = now + ttl,
                     g_uses = uses, g_max = uses,
                     g_created_by = c_by input, g_hash = hash token, g_max_event_bytes = max_event_bytes, g_last_event = None\<rparr>
        in case read_grants m of Inl e \<Rightarrow> (Inl e, m) | Inr gs0 \<Rightarrow>
           (let gs = filter (\<lambda>g. g_expires g > now) gs0 in
            if int (length gs) \<ge> MAX_ACTIVE_GRANTS then (Inl TooManyActive, m)
            else case write_grants file_bytes m (gs @ [g]) of Inl e \<Rightarrow> (Inl e, m) | Inr m' \<Rightarrow> (Inr g, m'))))"

definition revoke_mesh_grant :: "(grant list \<Rightarrow> int) \<Rightarrow> string \<Rightarrow> int \<Rightarrow> mesh \<Rightarrow> (grant_error + bool) \<times> mesh" where
  "revoke_mesh_grant file_bytes gid now m =
     (if \<not> grant_id_pattern gid then (Inl BadGrantId, m)
      else case read_grants m of Inl e \<Rightarrow> (Inl e, m) | Inr gs \<Rightarrow>
        (let kept = filter (\<lambda>g. g_id g \<noteq> gid \<and> g_expires g > now) gs; revoked = list_ex (\<lambda>g. g_id g = gid) gs in
         if length kept \<noteq> length gs then
           (case write_grants file_bytes m kept of Inl e \<Rightarrow> (Inl e, m) | Inr m' \<Rightarrow> (Inr revoked, m'))
         else (Inr revoked, m)))"

text \<open>The first grant of the hash, with its place.\<close>

fun match_index :: "string \<Rightarrow> grant list \<Rightarrow> nat option" where
  "match_index h [] = None"
| "match_index h (g # gs) = (if g_hash g = h then Some 0 else map_option Suc (match_index h gs))"

text \<open>How the append under the lock ended: committed, threw with nothing written, threw after the write.\<close>

datatype append_outcome = Committed | ThrewBefore | ThrewAfter

record post_input =
  p_token :: string
  p_topic :: "string option"
  p_kind :: "string option"
  p_data :: "string option"

text \<open>The debited record and the event appended for a use.\<close>

definition spent :: "string \<Rightarrow> grant \<Rightarrow> grant" where
  "spent uuid g = g\<lparr>g_uses := g_uses g - 1, g_last_event := Some uuid\<rparr>"

definition external_event :: "post_input \<Rightarrow> string \<Rightarrow> grant \<Rightarrow> event" where
  "external_event input uuid g =
     \<lparr>ev_id = uuid, ev_topic = g_topic g,
      ev_kind = (case p_kind input of Some k \<Rightarrow> k | None \<Rightarrow> (case g_kind g of Some k \<Rightarrow> k | None \<Rightarrow> ''external'')),
      ev_from = ''external:'' @ g_id g, ev_data = p_data input, ev_untrusted = True, ev_grant = g_id g,
      ev_max_bytes = g_max_event_bytes g\<rparr>"

definition post_with_mesh_grant ::
  "(string \<Rightarrow> string) \<Rightarrow> (grant list \<Rightarrow> int) \<Rightarrow> post_input \<Rightarrow> string \<Rightarrow> append_outcome \<Rightarrow> int \<Rightarrow> mesh \<Rightarrow> (grant_error + event \<times> grant) \<times> mesh" where
  "post_with_mesh_grant hash file_bytes input uuid app now m =
     (if \<not> (case p_kind input of None \<Rightarrow> True | Some k \<Rightarrow> kind_pattern k) then (Inl BadKind, m)
      else if (case p_data input of None \<Rightarrow> 0 | Some d \<Rightarrow> int (length d)) > EXTERNAL_DATA_MAX_BYTES then (Inl DataTooLarge, m)
      else case read_grants m of Inl e \<Rightarrow> (Inl e, m) | Inr gs \<Rightarrow>
        case match_index (hash (p_token input)) gs of None \<Rightarrow> (Inl TokenInvalid, m) | Some i \<Rightarrow>
          (let match = gs ! i in
           if \<not> token_pattern (p_token input) then (Inl TokenInvalid, m)
           else if g_expires match \<le> now then (Inl Expired, m)
           else if g_uses match \<le> 0 then (Inl NoUsesLeft, m)
           else if p_topic input \<noteq> None \<and> p_topic input \<noteq> Some (g_topic match) then (Inl TopicNotCovered, m)
           else if g_kind match \<noteq> None \<and> p_kind input \<noteq> None \<and> p_kind input \<noteq> g_kind match then (Inl KindNotCovered, m)
           else (case write_grants file_bytes m (gs[i := spent uuid match]) of Inl e \<Rightarrow> (Inl e, m) | Inr m' \<Rightarrow>
               (case app of
                  Committed \<Rightarrow> (Inr (external_event input uuid match, spent uuid match), m'\<lparr>log := log m' @ [external_event input uuid match]\<rparr>)
                | ThrewBefore \<Rightarrow> (Inl AppendFailed, m')
                | ThrewAfter \<Rightarrow> (Inl AppendFailed, m'\<lparr>log := log m' @ [external_event input uuid match]\<rparr>)))))"

section \<open>The mesh over time\<close>

text \<open>
  The grants minted so far are kept beside the mesh. Random ids are fresh: a minting event whose id was used before is no
  event.
\<close>

record world =
  mesh_of :: mesh
  minted :: "grant list"

datatype grant_event =
    Create create_input string string int
  | Revoke string int
  | Post post_input string append_outcome int

definition empty_world :: world where
  "empty_world = \<lparr>mesh_of = \<lparr>grants_file = NoFile, log = []\<rparr>, minted = []\<rparr>"

fun world_step :: "(string \<Rightarrow> string) \<Rightarrow> (grant list \<Rightarrow> int) \<Rightarrow> int \<Rightarrow> world \<Rightarrow> grant_event \<Rightarrow> world" where
  "world_step hash fb mx w (Create input uuid token now) =
     (if uuid \<in> set (map g_id (minted w)) then w
      else (case create_mesh_grant hash fb mx input uuid token now (mesh_of w) of
          (Inl _, m) \<Rightarrow> w\<lparr>mesh_of := m\<rparr>
        | (Inr g, m) \<Rightarrow> w\<lparr>mesh_of := m, minted := minted w @ [g]\<rparr>))"
| "world_step hash fb mx w (Revoke gid now) = w\<lparr>mesh_of := snd (revoke_mesh_grant fb gid now (mesh_of w))\<rparr>"
| "world_step hash fb mx w (Post input uuid app now) = w\<lparr>mesh_of := snd (post_with_mesh_grant hash fb input uuid app now (mesh_of w))\<rparr>"

definition stored :: "mesh \<Rightarrow> grant list" where
  "stored m = (case grants_file m of Readable gs \<Rightarrow> gs | _ \<Rightarrow> [])"

definition posts_of :: "string \<Rightarrow> event list \<Rightarrow> nat" where
  "posts_of gid es = length (filter (\<lambda>e. ev_grant e = gid) es)"

lemma posts_of_simps [simp]:
  "posts_of gid [] = 0"
  "posts_of gid (es @ [e]) = posts_of gid es + (if ev_grant e = gid then 1 else 0)"
  by (simp_all add: posts_of_def)

text \<open>The scope of a grant, fixed when it is minted.\<close>

definition same_scope :: "grant \<Rightarrow> grant \<Rightarrow> bool" where
  "same_scope g h \<longleftrightarrow> g_id g = g_id h \<and> g_topic g = g_topic h \<and> g_kind g = g_kind h \<and> g_expires g = g_expires h
     \<and> g_max g = g_max h \<and> g_hash g = g_hash h"

definition within_scope :: "grant \<Rightarrow> event \<Rightarrow> bool" where
  "within_scope g e \<longleftrightarrow> ev_grant e = g_id g \<and> ev_topic e = g_topic g \<and> (g_kind g = None \<or> g_kind g = Some (ev_kind e)) \<and> ev_untrusted e"

definition budget_ok :: "event list \<Rightarrow> grant \<Rightarrow> bool" where
  "budget_ok es g \<longleftrightarrow> 0 \<le> g_uses g \<and> int (posts_of (g_id g) es) + g_uses g \<le> g_max g"

definition stored_ok :: "grant list \<Rightarrow> event list \<Rightarrow> grant list \<Rightarrow> bool" where
  "stored_ok ms es gs \<longleftrightarrow> distinct (map g_id gs) \<and> (\<forall>g \<in> set gs. (\<exists>h \<in> set ms. same_scope g h) \<and> budget_ok es g)"

definition log_ok :: "grant list \<Rightarrow> event list \<Rightarrow> bool" where
  "log_ok ms es \<longleftrightarrow> (\<forall>e \<in> set es. \<exists>h \<in> set ms. within_scope h e)"

definition minted_ok :: "grant list \<Rightarrow> event list \<Rightarrow> bool" where
  "minted_ok ms es \<longleftrightarrow> distinct (map g_id ms) \<and> (\<forall>h \<in> set ms. int (posts_of (g_id h) es) \<le> g_max h)"

definition world_ok :: "world \<Rightarrow> bool" where
  "world_ok w \<longleftrightarrow> minted_ok (minted w) (log (mesh_of w)) \<and> log_ok (minted w) (log (mesh_of w))
     \<and> stored_ok (minted w) (log (mesh_of w)) (stored (mesh_of w))"

lemma world_ok_empty: "world_ok empty_world"
  by (simp add: world_ok_def empty_world_def minted_ok_def log_ok_def stored_ok_def stored_def)

lemma match_index_Some:
  "match_index h gs = Some i \<Longrightarrow> i < length gs \<and> g_hash (gs ! i) = h"
proof (induction gs arbitrary: i)
  case Nil
  then show ?case by simp
next
  case (Cons g gs)
  then show ?case by (auto split: if_splits simp: less_Suc_eq_0_disj)
qed

lemma update_members:
  assumes "distinct (map f xs)" "i < length xs" "x \<in> set (xs[i := u])"
  shows "x = u \<or> (x \<in> set xs \<and> f x \<noteq> f (xs ! i))"
proof -
  from assms(3) obtain j where j: "j < length xs" "x = xs[i := u] ! j" by (auto simp: in_set_conv_nth)
  show ?thesis
  proof (cases "j = i")
    case True
    with j show ?thesis by simp
  next
    case False
    with j have "x = xs ! j" by simp
    moreover have "f (xs ! j) \<noteq> f (xs ! i)"
      using assms(1,2) j(1) False by (auto simp: distinct_conv_nth)
    ultimately show ?thesis using j(1) by simp
  qed
qed

lemma write_grants_Inr: "write_grants fb m gs = Inr m' \<Longrightarrow> stored m' = gs \<and> log m' = log m"
  by (auto simp: write_grants_def stored_def split: if_splits)

lemma read_grants_Inr: "read_grants m = Inr gs \<Longrightarrow> stored m = gs"
  by (auto simp: read_grants_def stored_def split: grant_file.splits)

lemma stored_ok_filter: "stored_ok ms es gs \<Longrightarrow> stored_ok ms es (filter P gs)"
  by (auto simp: stored_ok_def distinct_map_filter)

section \<open>What one operation does\<close>

text \<open>A post that changes anything: the grant at \<open>i\<close> authorized it.\<close>

definition authorizes :: "(string \<Rightarrow> string) \<Rightarrow> post_input \<Rightarrow> int \<Rightarrow> grant \<Rightarrow> bool" where
  "authorizes hash input now g \<longleftrightarrow> token_pattern (p_token input) \<and> g_hash g = hash (p_token input) \<and> now < g_expires g \<and> 0 < g_uses g
     \<and> (p_topic input = None \<or> p_topic input = Some (g_topic g))
     \<and> (g_kind g = None \<or> p_kind input = None \<or> p_kind input = g_kind g)"

lemma post_cases:
  assumes "post_with_mesh_grant hash fb input uuid app now m = (r, m')"
  shows "(m' = m \<and> (\<exists>e. r = Inl e)) \<or>
    (\<exists>gs i ev. read_grants m = Inr gs \<and> i < length gs \<and> authorizes hash input now (gs ! i) \<and> within_scope (gs ! i) ev
       \<and> stored m' = gs[i := spent uuid (gs ! i)] \<and> ev_data ev = p_data input
       \<and> ((log m' = log m \<and> r = Inl AppendFailed) \<or> (log m' = log m @ [ev] \<and> (r = Inl AppendFailed \<or> r = Inr (ev, spent uuid (gs ! i))))))"
proof (cases "m' = m \<and> (\<exists>e. r = Inl e)")
  case True
  then show ?thesis by simp
next
  case False
  from assms False obtain gs i where gs: "read_grants m = Inr gs" and i: "match_index (hash (p_token input)) gs = Some i"
    by (fastforce simp: post_with_mesh_grant_def split: if_splits sum.splits option.splits)
  define g where "g = gs ! i"
  have hit: "i < length gs" "g_hash g = hash (p_token input)" using match_index_Some [OF i] by (simp_all add: g_def)
  have auth: "authorizes hash input now g"
    using assms False gs i hit(2) by (auto simp: post_with_mesh_grant_def authorizes_def g_def Let_def split: if_splits)
  define ev where "ev = external_event input uuid g"
  have ev: "within_scope g ev" using auth by (auto simp: within_scope_def ev_def external_event_def authorizes_def split: option.splits)
  obtain w where w: "write_grants fb m (gs[i := spent uuid g]) = Inr w"
    and rest: "(case app of Committed \<Rightarrow> (Inr (ev, spent uuid g), w\<lparr>log := log w @ [ev]\<rparr>) | ThrewBefore \<Rightarrow> (Inl AppendFailed, w)
       | ThrewAfter \<Rightarrow> (Inl AppendFailed, w\<lparr>log := log w @ [ev]\<rparr>)) = (r, m')"
    using assms False gs i
    unfolding ev_def by (auto simp: post_with_mesh_grant_def Let_def g_def [symmetric] split: if_splits sum.splits)
  have "stored m' = gs[i := spent uuid g]" "(log m' = log m \<and> r = Inl AppendFailed) \<or> (log m' = log m @ [ev] \<and> (r = Inl AppendFailed \<or> r = Inr (ev, spent uuid g)))"
    using rest write_grants_Inr [OF w] by (auto simp: stored_def split: append_outcome.splits)
  moreover have "ev_data ev = p_data input" by (simp add: ev_def external_event_def)
  ultimately show ?thesis using gs hit(1) auth ev unfolding g_def by blast
qed

lemma create_cases:
  assumes "create_mesh_grant hash fb mx input uuid token now m = (r, m')"
  shows "log m' = log m \<and> ((m' = m \<and> (\<exists>e. r = Inl e)) \<or>
    (\<exists>g. r = Inr g \<and> g_id g = uuid \<and> 1 \<le> g_uses g \<and> g_uses g = g_max g \<and> g_max g \<le> MAX_USES \<and> now < g_expires g
       \<and> stored m' = filter (\<lambda>g. g_expires g > now) (stored m) @ [g]))"
  using assms
  by (auto simp: create_mesh_grant_def bounded_integer_def Let_def MIN_TTL_MS_def dest!: read_grants_Inr write_grants_Inr
      split: if_splits sum.splits)

lemma revoke_cases:
  assumes "revoke_mesh_grant fb gid now m = (r, m')"
  shows "log m' = log m \<and> (\<exists>P. stored m' = filter P (stored m)) \<and> (\<forall>b. r = Inr b \<longrightarrow> gid \<notin> g_id ` set (stored m'))"
proof -
  have len: "length (filter P xs) = length xs \<longleftrightarrow> (\<forall>x \<in> set xs. P x)" for P and xs :: "grant list"
    by (metis length_filter_less less_irrefl filter_True)
  show ?thesis
  proof (cases "stored m' = stored m \<and> (\<exists>e. r = Inl e)")
    case True
    then show ?thesis
      using assms by (auto simp: revoke_mesh_grant_def Let_def dest!: write_grants_Inr intro: exI [of _ "\<lambda>_. True"] split: if_splits sum.splits)
  next
    case False
    with assms obtain gs where gs: "read_grants m = Inr gs" "stored m = gs" and gid: "grant_id_pattern gid"
      by (auto simp: revoke_mesh_grant_def dest: read_grants_Inr split: if_splits sum.splits)
    have "log m' = log m \<and> stored m' = filter (\<lambda>g. g_id g \<noteq> gid \<and> g_expires g > now) gs"
    proof (cases "length (filter (\<lambda>g. g_id g \<noteq> gid \<and> g_expires g > now) gs) = length gs")
      case True
      then have "filter (\<lambda>g. g_id g \<noteq> gid \<and> g_expires g > now) gs = gs" unfolding len by (intro filter_True) simp
      with True assms gs gid show ?thesis by (simp add: revoke_mesh_grant_def Let_def)
    next
      case False': False
      with assms gs gid False show ?thesis
        by (auto simp: revoke_mesh_grant_def Let_def dest: write_grants_Inr split: sum.splits)
    qed
    then show ?thesis using gs(2) by auto
  qed
qed

section \<open>The invariant\<close>

lemma log_ok_append: "log_ok ms es \<Longrightarrow> h \<in> set ms \<Longrightarrow> within_scope h e \<Longrightarrow> log_ok ms (es @ [e])"
  by (auto simp: log_ok_def)

lemma stored_ok_grant: "stored_ok ms es gs \<Longrightarrow> g \<in> set gs \<Longrightarrow> \<exists>h \<in> set ms. same_scope g h"
  and stored_ok_budget: "stored_ok ms es gs \<Longrightarrow> g \<in> set gs \<Longrightarrow> budget_ok es g"
  by (simp_all add: stored_ok_def)

lemma spent_simps [simp]: "g_id (spent u g) = g_id g" "same_scope (spent u g) h = same_scope g h" "g_uses (spent u g) = g_uses g - 1"
    "g_max (spent u g) = g_max g"
  by (simp_all add: spent_def same_scope_def)

text \<open>A debit, with or without the event it paid for.\<close>

lemma stored_ok_spend:
  assumes ok: "stored_ok ms es gs" and i: "i < length gs" and pos: "0 < g_uses (gs ! i)"
    and es: "es' = es \<or> (es' = es @ [ev] \<and> ev_grant ev = g_id (gs ! i))"
  shows "stored_ok ms es' (gs[i := spent u (gs ! i)])"
  unfolding stored_ok_def
proof (intro conjI ballI)
  have "map g_id (gs[i := spent u (gs ! i)]) = map g_id gs" using i by (simp add: map_update list_update_same_conv)
  with ok show "distinct (map g_id (gs[i := spent u (gs ! i)]))" by (simp add: stored_ok_def)
next
  fix g assume "g \<in> set (gs[i := spent u (gs ! i)])"
  then have g: "g = spent u (gs ! i) \<or> (g \<in> set gs \<and> g_id g \<noteq> g_id (gs ! i))"
    using ok i by (intro update_members) (simp_all add: stored_ok_def)
  have old: "gs ! i \<in> set gs" using i by simp
  show "\<exists>h \<in> set ms. same_scope g h" using g stored_ok_grant [OF ok] old by auto
  show "budget_ok es' g"
    using g
  proof
    assume "g = spent u (gs ! i)"
    then show ?thesis using stored_ok_budget [OF ok old] pos es by (auto simp: budget_ok_def)
  next
    assume "g \<in> set gs \<and> g_id g \<noteq> g_id (gs ! i)"
    then show ?thesis using stored_ok_budget [OF ok, of g] es by (auto simp: budget_ok_def)
  qed
qed

lemma minted_ok_spend:
  assumes ok: "minted_ok ms es" and st: "stored_ok ms es gs" and i: "i < length gs" and pos: "0 < g_uses (gs ! i)"
    and e: "ev_grant ev = g_id (gs ! i)"
  shows "minted_ok ms (es @ [ev])"
  unfolding minted_ok_def
proof (intro conjI ballI)
  show "distinct (map g_id ms)" using ok by (simp add: minted_ok_def)
next
  fix h assume h: "h \<in> set ms"
  show "int (posts_of (g_id h) (es @ [ev])) \<le> g_max h"
  proof (cases "g_id h = ev_grant ev")
    case False
    with ok h show ?thesis by (simp add: minted_ok_def)
  next
    case True
    have old: "gs ! i \<in> set gs" using i by simp
    from stored_ok_grant [OF st old] obtain h' where h': "h' \<in> set ms" "same_scope (gs ! i) h'" by blast
    with ok h True e have "h' = h" by (auto simp: minted_ok_def same_scope_def distinct_map inj_on_def)
    with h' stored_ok_budget [OF st old] pos True e show ?thesis by (auto simp: budget_ok_def same_scope_def)
  qed
qed

lemma world_ok_post:
  assumes "world_ok w"
  shows "world_ok (world_step hash fb mx w (Post input uuid app now))"
proof -
  let ?m = "mesh_of w"
  obtain r m' where p: "post_with_mesh_grant hash fb input uuid app now ?m = (r, m')" by (meson surj_pair)
  from post_cases [OF p] show ?thesis
  proof
    assume "m' = ?m \<and> (\<exists>e. r = Inl e)"
    with assms p show ?thesis by (simp add: world_ok_def)
  next
    assume "\<exists>gs i ev. read_grants ?m = Inr gs \<and> i < length gs \<and> authorizes hash input now (gs ! i) \<and> within_scope (gs ! i) ev
       \<and> stored m' = gs[i := spent uuid (gs ! i)] \<and> ev_data ev = p_data input
       \<and> ((log m' = log ?m \<and> r = Inl AppendFailed) \<or> (log m' = log ?m @ [ev] \<and> (r = Inl AppendFailed \<or> r = Inr (ev, spent uuid (gs ! i)))))"
    then obtain gs i ev where gs: "stored ?m = gs" "i < length gs" "0 < g_uses (gs ! i)" and ev: "within_scope (gs ! i) ev"
      and st: "stored m' = gs[i := spent uuid (gs ! i)]" and lg: "log m' = log ?m \<or> log m' = log ?m @ [ev]"
      by (auto simp: authorizes_def dest: read_grants_Inr)
    have ok: "minted_ok (minted w) (log ?m)" "log_ok (minted w) (log ?m)" "stored_ok (minted w) (log ?m) gs"
      using assms gs(1) by (simp_all add: world_ok_def)
    have e: "ev_grant ev = g_id (gs ! i)" using ev by (simp add: within_scope_def)
    have st': "stored_ok (minted w) (log m') (stored m')"
      unfolding st by (rule stored_ok_spend [OF ok(3) gs(2,3), where ev = ev]) (use lg e in blast)
    obtain h where h: "h \<in> set (minted w)" "same_scope (gs ! i) h" using stored_ok_grant [OF ok(3)] gs(2) by (metis nth_mem)
    with ev have "within_scope h ev" by (simp add: within_scope_def same_scope_def)
    then have "log_ok (minted w) (log m')" using lg ok(2) log_ok_append [OF ok(2) h(1)] by (elim disjE) simp_all
    moreover have "minted_ok (minted w) (log m')" using lg ok(1) minted_ok_spend [OF ok(1,3) gs(2,3) e] by (elim disjE) simp_all
    ultimately show ?thesis using st' p by (simp add: world_ok_def)
  qed
qed

lemma no_posts: "log_ok ms es \<Longrightarrow> gid \<notin> g_id ` set ms \<Longrightarrow> posts_of gid es = 0"
  by (auto simp: posts_of_def log_ok_def within_scope_def filter_empty_conv)

lemma log_ok_mint: "log_ok ms es \<Longrightarrow> log_ok (ms @ [g]) es"
  by (auto simp: log_ok_def)

lemma world_ok_create:
  assumes "world_ok w"
  shows "world_ok (world_step hash fb mx w (Create input uuid token now))"
proof (cases "uuid \<in> set (map g_id (minted w))")
  case True
  with assms show ?thesis by simp
next
  case fresh: False
  let ?m = "mesh_of w"
  have ok: "minted_ok (minted w) (log ?m)" "log_ok (minted w) (log ?m)" "stored_ok (minted w) (log ?m) (stored ?m)"
    using assms by (simp_all add: world_ok_def)
  obtain r m' where p: "create_mesh_grant hash fb mx input uuid token now ?m = (r, m')" by (meson surj_pair)
  from create_cases [OF p] have lg: "log m' = log ?m" by blast
  from create_cases [OF p] consider "m' = ?m" "\<exists>e. r = Inl e" |
    g where "r = Inr g" "g_id g = uuid" "1 \<le> g_uses g" "g_uses g = g_max g" "stored m' = filter (\<lambda>g. g_expires g > now) (stored ?m) @ [g]"
    by blast
  then show ?thesis
  proof cases
    case 1
    with assms p fresh show ?thesis by (auto simp: world_ok_def)
  next
    case (2 g)
    let ?f = "filter (\<lambda>g. g_expires g > now) (stored ?m)"
    have zero: "posts_of uuid (log ?m) = 0" using no_posts [OF ok(2), of uuid] fresh by simp
    have ids: "g_id ` set (stored ?m) \<subseteq> g_id ` set (minted w)" using ok(3) by (fastforce simp: stored_ok_def same_scope_def)
    have f: "stored_ok (minted w) (log ?m) ?f" by (rule stored_ok_filter [OF ok(3)])
    have "uuid \<notin> g_id ` set ?f" using ids fresh by auto
    with f 2 zero have "stored_ok (minted w @ [g]) (log ?m) (?f @ [g])"
      by (auto simp: stored_ok_def budget_ok_def same_scope_def)
    moreover have "minted_ok (minted w @ [g]) (log ?m)" using ok(1) 2 fresh zero by (auto simp: minted_ok_def)
    ultimately show ?thesis using log_ok_mint [OF ok(2), of g] p 2 lg fresh by (simp add: world_ok_def)
  qed
qed

lemma world_ok_revoke:
  assumes "world_ok w"
  shows "world_ok (world_step hash fb mx w (Revoke gid now))"
proof -
  obtain r m' where p: "revoke_mesh_grant fb gid now (mesh_of w) = (r, m')" by (meson surj_pair)
  from revoke_cases [OF p] obtain P where "log m' = log (mesh_of w)" "stored m' = filter P (stored (mesh_of w))" by blast
  with assms p stored_ok_filter show ?thesis by (auto simp: world_ok_def)
qed

interpretation grant_world: machine_invariant "world_step hash fb mx" world_ok for hash fb mx
proof
  fix w e assume "world_ok w"
  then show "world_ok (world_step hash fb mx w e)"
    by (cases e) (simp_all only: world_ok_create world_ok_revoke world_ok_post)
qed

section \<open>A grant that is gone\<close>

definition gone :: "string \<Rightarrow> nat \<Rightarrow> world \<Rightarrow> bool" where
  "gone gid n w \<longleftrightarrow> gid \<in> g_id ` set (minted w) \<and> gid \<notin> g_id ` set (stored (mesh_of w)) \<and> posts_of gid (log (mesh_of w)) = n"

lemma gone_post:
  assumes "gone gid n w"
  shows "gone gid n (world_step hash fb mx w (Post input uuid app now))"
proof -
  let ?m = "mesh_of w"
  obtain r m' where p: "post_with_mesh_grant hash fb input uuid app now ?m = (r, m')" by (meson surj_pair)
  from post_cases [OF p] consider "m' = ?m" | gs i ev where "stored ?m = gs" "i < length gs" "ev_grant ev = g_id (gs ! i)"
      "stored m' = gs[i := spent uuid (gs ! i)]" "log m' = log ?m \<or> log m' = log ?m @ [ev]"
    by (auto simp: within_scope_def dest: read_grants_Inr)
  then show ?thesis
  proof cases
    case 1
    with assms p show ?thesis by (simp add: gone_def)
  next
    case 2
    then have "gs ! i \<in> set gs" by simp
    then have "g_id (gs ! i) \<in> g_id ` set (stored ?m)" using 2(1) by blast
    with assms have other: "g_id (gs ! i) \<noteq> gid" unfolding gone_def by metis
    with 2 assms have "gid \<notin> g_id ` set (stored m')" using set_update_subset_insert [of gs i "spent uuid (gs ! i)"] by (auto simp: gone_def)
    moreover have "posts_of gid (log m') = n" using 2(3,5) other assms by (auto simp: gone_def)
    ultimately show ?thesis using assms p by (simp add: gone_def)
  qed
qed

lemma gone_step:
  assumes "gone gid n w"
  shows "gone gid n (world_step hash fb mx w e)"
proof (cases e)
  case (Create input uuid token now)
  obtain r m' where p: "create_mesh_grant hash fb mx input uuid token now (mesh_of w) = (r, m')" by (meson surj_pair)
  show ?thesis
  proof (cases "uuid \<in> set (map g_id (minted w))")
    case True
    with assms show ?thesis by (simp add: Create)
  next
    case False
    with assms have "gid \<noteq> uuid" by (auto simp: gone_def)
    with create_cases [OF p] assms False p show ?thesis by (auto simp: gone_def Create split: sum.splits)
  qed
next
  case (Revoke g now)
  obtain r m' where p: "revoke_mesh_grant fb g now (mesh_of w) = (r, m')" by (meson surj_pair)
  from revoke_cases [OF p] obtain P where "log m' = log (mesh_of w)" "stored m' = filter P (stored (mesh_of w))" by blast
  with assms p show ?thesis by (auto simp: gone_def Revoke)
next
  case (Post input uuid app now)
  with assms gone_post show ?thesis by simp
qed

interpretation gone_grant: machine_invariant "world_step hash fb mx" "gone gid n" for hash fb mx gid n
  by unfold_locales (rule gone_step)

section \<open>Properties\<close>

definition example_hash :: "string \<Rightarrow> string" where
  "example_hash t = t"

definition example_bytes :: "grant list \<Rightarrow> int" where
  "example_bytes gs = 100"

definition example_token :: string where
  "example_token = replicate 43 (CHR ''a'')"

definition example_create :: grant_event where
  "example_create = Create \<lparr>c_topic = ''build'', c_kind = Some ''done'', c_ttl = 60000, c_uses = Some 2, c_by = ''main''\<rparr> ''g1'' example_token 5"

definition example_post :: "string \<Rightarrow> grant_event" where
  "example_post uuid = Post \<lparr>p_token = example_token, p_topic = None, p_kind = None, p_data = Some ''1''\<rparr> uuid Committed 7"

definition example_world :: "nat \<Rightarrow> world" where
  "example_world n = run (world_step example_hash example_bytes 1000) empty_world (take n [example_create, example_post ''e1'', example_post ''e2'', example_post ''e3''])"

text \<open>C12: However operations interleave and appends fail, the events that name a minted grant are at most its uses, and each
  carries the grant's topic and, where the grant fixes one, its kind, and is marked untrusted.\<close>

theorem grant_bounded_and_scoped:
  assumes "g \<in> set (minted (run (world_step hash fb mx) empty_world es))"
  shows "int (posts_of (g_id g) (log (mesh_of (run (world_step hash fb mx) empty_world es)))) \<le> g_max g \<and>
    list_all (\<lambda>e. ev_grant e \<noteq> g_id g \<or> within_scope g e) (log (mesh_of (run (world_step hash fb mx) empty_world es)))"
proof -
  define w where "w = run (world_step hash fb mx) empty_world es"
  have ok: "world_ok w" unfolding w_def by (rule grant_world.inv_run [OF world_ok_empty])
  have g: "g \<in> set (minted w)" using assms by (simp add: w_def)
  have "within_scope g e" if "e \<in> set (log (mesh_of w))" "ev_grant e = g_id g" for e
  proof -
    from ok that(1) obtain h where h: "h \<in> set (minted w)" "within_scope h e" by (auto simp: world_ok_def log_ok_def)
    with that(2) have "g_id h = g_id g" by (simp add: within_scope_def)
    with ok g h(1) have "h = g" by (auto simp: world_ok_def minted_ok_def distinct_map inj_on_def)
    with h(2) show ?thesis by simp
  qed
  then show ?thesis
    using ok g unfolding w_def [symmetric] by (auto simp: world_ok_def minted_ok_def list_all_iff)
qed

definition example_grant :: grant where
  "example_grant = \<lparr>g_id = ''g1'', g_topic = ''build'', g_kind = Some ''done'', g_created = 5, g_expires = 60005, g_uses = 2, g_max = 2,
     g_created_by = ''main'', g_hash = example_token, g_max_event_bytes = 1000, g_last_event = None\<rparr>"

lemma example_minted: "minted (example_world 4) = [example_grant]"
  by code_simp

lemma example_posts: "map ev_id (log (mesh_of (example_world 4))) = [''e1'', ''e2'']"
  by code_simp

theorem grant_bounded_and_scoped_witness:
  "int (posts_of (g_id example_grant) (log (mesh_of (example_world 4)))) \<le> g_max example_grant"
  using grant_bounded_and_scoped [of example_grant example_hash example_bytes 1000
      "take 4 [example_create, example_post ''e1'', example_post ''e2'', example_post ''e3'']", folded example_world_def, unfolded example_minted]
  by simp

text \<open>A post that appends an event was authorized by a stored, unexpired grant of the presented token with uses left that
  covers the requested topic and kind; the event lies within that grant's scope, and the same write took one use from
  exactly that grant.\<close>

theorem post_spends_one_use:
  assumes "post_with_mesh_grant hash fb input uuid app now m = (r, m')" and "log m' \<noteq> log m"
  shows "\<exists>i ev. i < length (stored m) \<and> authorizes hash input now (stored m ! i) \<and> within_scope (stored m ! i) ev
    \<and> log m' = log m @ [ev] \<and> ev_data ev = p_data input \<and> stored m' = (stored m)[i := spent uuid (stored m ! i)]"
  using post_cases [OF assms(1)] assms(2) by (auto dest: read_grants_Inr)

theorem post_spends_one_use_witness:
  "\<exists>i ev. i < length (stored (mesh_of (example_world 1))) \<and>
     within_scope (stored (mesh_of (example_world 1)) ! i) ev \<and> log (mesh_of (example_world 2)) = log (mesh_of (example_world 1)) @ [ev]"
proof -
  define input where "input = \<lparr>p_token = example_token, p_topic = None, p_kind = None, p_data = Some ''1''\<rparr>"
  obtain r m' where p: "post_with_mesh_grant example_hash example_bytes input ''e1'' Committed 7 (mesh_of (example_world 1)) = (r, m')"
    by (meson surj_pair)
  have "example_world 2 = world_step example_hash example_bytes 1000 (example_world 1) (example_post ''e1'')"
    by (simp add: example_world_def)
  with p have m: "mesh_of (example_world 2) = m'" by (simp add: example_post_def input_def)
  have "map ev_id (log (mesh_of (example_world 2))) = [''e1'']" "log (mesh_of (example_world 1)) = []" by code_simp+
  then have "log m' \<noteq> log (mesh_of (example_world 1))" unfolding m by auto
  from post_spends_one_use [OF p this] show ?thesis unfolding m by blast
qed

text \<open>Once a revocation reports that it revoked a grant, no event of that grant is ever appended again, whatever follows.\<close>

theorem revoked_never_posts:
  assumes "fst (revoke_mesh_grant fb gid now (mesh_of (run (world_step hash fb mx) empty_world es))) = Inr True"
  shows "posts_of gid (log (mesh_of (run (world_step hash fb mx) empty_world (es @ Revoke gid now # fs)))) =
    posts_of gid (log (mesh_of (run (world_step hash fb mx) empty_world es)))"
proof -
  define w where "w = run (world_step hash fb mx) empty_world es"
  have ok: "world_ok w" unfolding w_def by (rule grant_world.inv_run [OF world_ok_empty])
  obtain m' where p: "revoke_mesh_grant fb gid now (mesh_of w) = (Inr True, m')"
    using assms by (metis w_def prod.collapse)
  then have "gid \<in> g_id ` set (stored (mesh_of w))"
    by (auto simp: revoke_mesh_grant_def Let_def list_ex_iff dest: read_grants_Inr split: if_splits sum.splits)
  with ok have "gid \<in> g_id ` set (minted w)" by (fastforce simp: world_ok_def stored_ok_def same_scope_def)
  with revoke_cases [OF p] p have "gone gid (posts_of gid (log (mesh_of w))) (world_step hash fb mx w (Revoke gid now))"
    by (auto simp: gone_def)
  then have "gone gid (posts_of gid (log (mesh_of w))) (run (world_step hash fb mx) (world_step hash fb mx w (Revoke gid now)) fs)"
    by (rule gone_grant.inv_run)
  then show ?thesis by (simp add: gone_def run_append w_def)
qed

theorem revoked_never_posts_witness:
  "posts_of ''g1'' (log (mesh_of (run (world_step example_hash example_bytes 1000) empty_world
      ([example_create, example_post ''e1''] @ Revoke ''g1'' 8 # [example_post ''e2''])))) =
   posts_of ''g1'' (log (mesh_of (run (world_step example_hash example_bytes 1000) empty_world [example_create, example_post ''e1''])))"
  by (rule revoked_never_posts) code_simp

end
