(* ===== verification/Outcomes.thy ===== *)
theory Outcomes imports Prelude begin

text \<open>
  \<^verbatim>\<open>src/src/mesh/delivery-outcomes.ts\<close>: the journal of delivery outcomes in daily partitions, with its deduplication, its expiry
  after seven days and its compaction behind a counted marker; and the coalescing of repeated unknown-target refusals. The
  journal has one writer (an inode replaced by a concurrent compaction is not modelled). A line's bytes are a parameter.
\<close>

section \<open>Records and lines\<close>

datatype send_mode = Steer | FollowUp | Publish
datatype outcome = Delivered | Superseded | Failed | Unknown

record send =
  s_event :: string
  s_to :: string
  s_from :: string
  s_mode :: send_mode

record outcome_record =
  r_send :: send
  r_outcome :: outcome
  r_reason :: string
  r_at :: int
  r_count :: "nat option"

definition mode_of :: "json \<Rightarrow> send_mode option" where
  "mode_of v = (if v = JStr ''steer'' then Some Steer else if v = JStr ''followUp'' then Some FollowUp
     else if v = JStr ''publish'' then Some Publish else None)"

definition delivery_send :: "json \<Rightarrow> send option" where
  "delivery_send v = (case (jfield v ''eventId'', jfield v ''to'', jfield v ''from'', Option.bind (jfield v ''mode'') mode_of) of
       (Some (JStr e), Some (JStr t), Some (JStr f), Some m) \<Rightarrow> Some \<lparr>s_event = e, s_to = t, s_from = f, s_mode = m\<rparr>
     | _ \<Rightarrow> None)"

text \<open>A line of a partition: a record, the marker of dropped ones, or anything else that is not empty.\<close>

datatype line = Record outcome_record | Truncation nat int | Other string

definition outcome_key :: "send \<Rightarrow> outcome \<Rightarrow> send \<times> outcome" where
  "outcome_key s oc = (s, oc)"

definition line_keys :: "line list \<Rightarrow> (send \<times> outcome) list" where
  "line_keys ls = concat (map (\<lambda>l. case l of Record r \<Rightarrow> [outcome_key (r_send r) (r_outcome r)] | _ \<Rightarrow> []) ls)"

record limits =
  l_records :: nat
  l_bytes :: nat

section \<open>Compaction\<close>

definition dropped_in :: "line list \<Rightarrow> nat" where
  "dropped_in ls = sum_list (map (\<lambda>l. case l of Truncation n _ \<Rightarrow> n | _ \<Rightarrow> 0) ls)"

definition records_in :: "line list \<Rightarrow> line list" where
  "records_in ls = filter (\<lambda>l. case l of Truncation _ _ \<Rightarrow> False | _ \<Rightarrow> True) ls"

fun keep_from :: "(line \<Rightarrow> nat) \<Rightarrow> limits \<Rightarrow> line list \<Rightarrow> nat \<Rightarrow> nat \<Rightarrow> nat" where
  "keep_from size_of lm recs 0 bytes = 0"
| "keep_from size_of lm recs (Suc start) bytes =
     (if length recs - Suc start < l_records lm div 2 then
        (let sz = size_of (recs ! start) + 1 in
         if bytes + sz > l_bytes lm div 2 then Suc start else keep_from size_of lm recs start (bytes + sz))
      else Suc start)"

definition compact_partition :: "(line \<Rightarrow> nat) \<Rightarrow> limits \<Rightarrow> int \<Rightarrow> line list \<Rightarrow> line list" where
  "compact_partition size_of lm at_ms ls =
     (let recs = records_in ls; start = keep_from size_of lm recs (length recs) 0 in
      Truncation (dropped_in ls + start) at_ms # drop start recs)"

section \<open>Appending\<close>

text \<open>The directory: partitions by UTC day number (the eight digits of a day order as its number).\<close>

type_synonym journal = "(int, line list) jmap"

definition DAY_MS :: int where "DAY_MS = 86400000"

definition day :: "int \<Rightarrow> int" where
  "day at_ms = at_ms div DAY_MS"

definition partition_bytes :: "(line \<Rightarrow> nat) \<Rightarrow> line list \<Rightarrow> nat" where
  "partition_bytes size_of ls = sum_list (map (\<lambda>l. size_of l + 1) ls)"

text \<open>Today's partition with room for one more line: a partition that exists and would pass a limit is compacted first.\<close>

definition room_for :: "(line \<Rightarrow> nat) \<Rightarrow> limits \<Rightarrow> int \<Rightarrow> line \<Rightarrow> line list option \<Rightarrow> line list" where
  "room_for size_of lm at_ms l old = (case old of None \<Rightarrow> []
     | Some ls \<Rightarrow> if length ls + 1 > l_records lm \<or> partition_bytes size_of ls + (size_of l + 1) > l_bytes lm
         then compact_partition size_of lm at_ms ls else ls)"

definition retained :: "int \<Rightarrow> journal \<Rightarrow> journal" where
  "retained at_ms j = filter (\<lambda>p. fst p \<ge> day (at_ms - 6 * DAY_MS)) j"

definition has_key :: "send \<times> outcome \<Rightarrow> journal \<Rightarrow> bool" where
  "has_key k j \<longleftrightarrow> list_ex (\<lambda>p. k \<in> set (line_keys (snd p))) j"

definition append_delivery_outcome ::
  "(line \<Rightarrow> nat) \<Rightarrow> limits \<Rightarrow> send \<Rightarrow> outcome \<Rightarrow> string \<Rightarrow> int \<Rightarrow> nat option \<Rightarrow> journal \<Rightarrow> journal" where
  "append_delivery_outcome size_of lm s oc reason at_ms cnt j =
     (let j1 = retained at_ms j in
      if has_key (outcome_key s oc) j1 then j1
      else (let l = Record \<lparr>r_send = s, r_outcome = oc, r_reason = reason, r_at = at_ms, r_count = cnt\<rparr>
        in jm_set (day at_ms) (room_for size_of lm at_ms l (jm_get j1 (day at_ms)) @ [l]) j1))"

definition has_delivery_outcome :: "journal \<Rightarrow> send \<Rightarrow> outcome \<Rightarrow> bool" where
  "has_delivery_outcome j s oc \<longleftrightarrow> has_key (outcome_key s oc) j"

section \<open>Unknown targets\<close>

definition UNKNOWN_TARGET_WINDOW_MS :: int where "UNKNOWN_TARGET_WINDOW_MS = 10000"
definition UNKNOWN_TARGET_KEYS :: nat where "UNKNOWN_TARGET_KEYS = 256"

type_synonym target_key = "string \<times> string \<times> string"

record window =
  w_root :: string
  w_from :: string
  w_to :: string
  w_reason :: string
  w_until :: int
  w_count :: nat
  w_timer :: nat

text \<open>\<open>handed\<close> holds the records handed to \<open>appendDeliveryOutcome\<close> that it wrote, with their root; \<open>timers\<close> numbers the windows
  opened, so that a timer is the one of its window.\<close>

record coalescer =
  windows :: "(target_key, window) jmap"
  handed :: "(string \<times> outcome_record) list"
  timers :: nat

definition failed_record :: "string \<Rightarrow> string \<Rightarrow> string \<Rightarrow> string \<Rightarrow> int \<Rightarrow> nat option \<Rightarrow> outcome_record" where
  "failed_record uuid to from reason at_ms cnt =
     \<lparr>r_send = \<lparr>s_event = uuid, s_to = to, s_from = from, s_mode = Publish\<rparr>, r_outcome = Failed, r_reason = reason, r_at = at_ms, r_count = cnt\<rparr>"

text \<open>A write that may fail: the flag says whether it threw.\<close>

definition hand :: "bool \<Rightarrow> string \<Rightarrow> outcome_record \<Rightarrow> coalescer \<Rightarrow> bool \<times> coalescer" where
  "hand ok rt r c = (if ok then (True, c\<lparr>handed := handed c @ [(rt, r)]\<rparr>) else (False, c))"

definition flush_unknown_target :: "bool \<Rightarrow> string \<Rightarrow> target_key \<Rightarrow> int \<Rightarrow> coalescer \<Rightarrow> bool \<times> coalescer" where
  "flush_unknown_target ok uuid key at_ms c =
     (case jm_get (windows c) key of None \<Rightarrow> (True, c)
      | Some w \<Rightarrow>
          (let c1 = c\<lparr>windows := jm_del key (windows c)\<rparr> in
           if w_count w \<noteq> 0 then hand ok (w_root w) (failed_record uuid (w_to w) (w_from w) (w_reason w) at_ms (Some (w_count w))) c1
           else (True, c1)))"

text \<open>Which writes throw is given per key, in order; a missing flag is a write that succeeds.\<close>

fun flush_keys :: "target_key list \<Rightarrow> bool list \<Rightarrow> string list \<Rightarrow> int \<Rightarrow> coalescer \<Rightarrow> coalescer" where
  "flush_keys [] oks uuids at_ms c = c"
| "flush_keys (k # ks) oks uuids at_ms c =
     flush_keys ks (tl oks) (tl uuids) at_ms
       (snd (flush_unknown_target (oks = [] \<or> hd oks) (if uuids = [] then [] else hd uuids) k at_ms c))"

definition flush_unknown_target_outcomes :: "bool list \<Rightarrow> string list \<Rightarrow> int \<Rightarrow> coalescer \<Rightarrow> coalescer" where
  "flush_unknown_target_outcomes oks uuids at_ms c = flush_keys (jm_keys (windows c)) oks uuids at_ms c"

definition target_key_of :: "coalescer \<Rightarrow> string \<Rightarrow> string \<Rightarrow> string \<Rightarrow> target_key" where
  "target_key_of c rt from to =
     (if jm_has (windows c) (rt, from, to) \<or> length (windows c) < UNKNOWN_TARGET_KEYS then (rt, from, to) else (rt, from, ''*''))"

definition new_window :: "target_key \<Rightarrow> string \<Rightarrow> string \<Rightarrow> string \<Rightarrow> string \<Rightarrow> int \<Rightarrow> nat \<Rightarrow> window" where
  "new_window key rt from to reason at_ms n =
     (let shared = (key \<noteq> (rt, from, to)) in
      \<lparr>w_root = rt, w_from = from, w_to = (if shared then ''*'' else to),
       w_reason = (if shared then ''Unknown Fabric targets (more than 256 distinct, coalesced per sender)'' else reason),
       w_until = at_ms + UNKNOWN_TARGET_WINDOW_MS, w_count = 0, w_timer = n\<rparr>)"

text \<open>The tail of \<open>recordUnknownTarget\<close>: the window is set before the first record is written.\<close>

definition open_window :: "bool \<Rightarrow> string \<Rightarrow> target_key \<Rightarrow> string \<Rightarrow> string \<Rightarrow> string \<Rightarrow> string \<Rightarrow> int \<Rightarrow> coalescer \<Rightarrow> coalescer" where
  "open_window ok uuid key rt from to reason at_ms c =
     snd (hand ok rt (failed_record uuid to from reason at_ms None)
       (c\<lparr>windows := jm_set key (new_window key rt from to reason at_ms (timers c)) (windows c), timers := Suc (timers c)\<rparr>))"

definition record_unknown_target ::
  "bool \<Rightarrow> bool \<Rightarrow> string \<Rightarrow> string \<Rightarrow> string \<Rightarrow> string \<Rightarrow> string \<Rightarrow> string \<Rightarrow> int \<Rightarrow> coalescer \<Rightarrow> coalescer" where
  "record_unknown_target ok1 ok2 uuid1 uuid2 rt from to reason at_ms c =
     (let key = target_key_of c rt from to in
      case jm_get (windows c) key of
        Some w \<Rightarrow>
          (if at_ms < w_until w then c\<lparr>windows := jm_set key (w\<lparr>w_count := w_count w + 1\<rparr>) (windows c)\<rparr>
           else (let f = flush_unknown_target ok1 uuid1 key at_ms c in
             if fst f then open_window ok2 uuid2 key rt from to reason at_ms (snd f) else snd f))
      | None \<Rightarrow> open_window ok2 uuid2 key rt from to reason at_ms c)"

definition window_timer :: "bool \<Rightarrow> string \<Rightarrow> target_key \<Rightarrow> nat \<Rightarrow> int \<Rightarrow> coalescer \<Rightarrow> coalescer" where
  "window_timer ok uuid key n at_ms c =
     (case jm_get (windows c) key of
        Some w \<Rightarrow> if w_timer w = n then snd (flush_unknown_target ok uuid key at_ms c) else c
      | None \<Rightarrow> c)"

section \<open>Compaction keeps the newest and counts the rest\<close>

lemma keep_from_le: "keep_from size_of lm recs start bytes \<le> start"
proof (induction start arbitrary: bytes)
  case 0
  then show ?case by simp
next
  case (Suc start)
  then show ?case by (auto simp: Let_def intro: le_SucI)
qed

lemma keep_from_count:
  "start \<le> length recs \<Longrightarrow> length recs - start \<le> l_records lm div 2 \<Longrightarrow>
   length recs - keep_from size_of lm recs start bytes \<le> l_records lm div 2"
proof (induction start arbitrary: bytes)
  case 0
  then show ?case by simp
next
  case (Suc start)
  then show ?case by (auto simp: Let_def)
qed

lemma partition_bytes_drop:
  "i < length ls \<Longrightarrow> partition_bytes size_of (drop i ls) = size_of (ls ! i) + 1 + partition_bytes size_of (drop (Suc i) ls)"
  by (simp add: partition_bytes_def Cons_nth_drop_Suc [symmetric])

lemma keep_from_bytes:
  "start \<le> length recs \<Longrightarrow> bytes = partition_bytes size_of (drop start recs) \<Longrightarrow> bytes \<le> l_bytes lm div 2 \<Longrightarrow>
   partition_bytes size_of (drop (keep_from size_of lm recs start bytes) recs) \<le> l_bytes lm div 2"
proof (induction start arbitrary: bytes)
  case 0
  then show ?case by simp
next
  case (Suc start)
  have step: "partition_bytes size_of (drop start recs) = bytes + (size_of (recs ! start) + 1)"
    using Suc.prems partition_bytes_drop [of start recs size_of] by simp
  show ?case
    using Suc.IH [of "bytes + (size_of (recs ! start) + 1)"] Suc.prems step by (simp add: Let_def)
qed

text \<open>What a partition stands for: its record lines and those its markers count.\<close>

definition lines_ever :: "line list \<Rightarrow> nat" where
  "lines_ever ls = dropped_in ls + length (records_in ls)"

lemma records_in_append: "records_in (xs @ ys) = records_in xs @ records_in ys"
  by (simp add: records_in_def)

lemma dropped_in_append: "dropped_in (xs @ ys) = dropped_in xs + dropped_in ys"
  by (simp add: dropped_in_def)

lemma records_in_idem: "records_in (records_in ls) = records_in ls"
  by (simp add: records_in_def)

lemma dropped_in_records [simp]: "dropped_in (records_in ls) = 0"
  by (induction ls) (auto simp: dropped_in_def records_in_def split: line.splits)

lemma records_in_drop: "records_in (drop n (records_in ls)) = drop n (records_in ls)"
  unfolding records_in_def by (rule filter_True) (auto dest: in_set_dropD)

lemma dropped_in_drop: "dropped_in (drop n (records_in ls)) = 0"
  using dropped_in_records [of "drop n (records_in ls)"] by (simp add: records_in_drop)

lemma compact_lines_ever: "lines_ever (compact_partition size_of lm t ls) = lines_ever ls"
proof -
  let ?recs = "records_in ls"
  let ?k = "keep_from size_of lm ?recs (length ?recs) 0"
  have k: "?k \<le> length ?recs" by (rule keep_from_le)
  have "records_in (compact_partition size_of lm t ls) = drop ?k ?recs"
    using records_in_drop [of ?k ls] by (simp add: compact_partition_def Let_def records_in_def)
  moreover have "dropped_in (compact_partition size_of lm t ls) = dropped_in ls + ?k"
    using dropped_in_drop [of ?k ls] by (simp add: compact_partition_def Let_def dropped_in_def)
  ultimately show ?thesis using k by (simp add: lines_ever_def)
qed

lemma compact_length: "length (compact_partition size_of lm t ls) \<le> l_records lm div 2 + 1"
proof -
  let ?recs = "records_in ls"
  have "length ?recs - keep_from size_of lm ?recs (length ?recs) 0 \<le> l_records lm div 2" by (rule keep_from_count) simp_all
  then show ?thesis by (simp add: compact_partition_def Let_def)
qed

text \<open>Compacting a partition loses no count: its marker and the kept lines stand for exactly the lines the partition stood
  for; what it keeps is the newest lines in their order, at most half of each limit.\<close>

theorem compaction_conserves:
  "lines_ever (compact_partition size_of lm t ls) = lines_ever ls \<and>
   (\<exists>k. compact_partition size_of lm t ls = Truncation (dropped_in ls + k) t # drop k (records_in ls) \<and> k \<le> length (records_in ls)
      \<and> length (drop k (records_in ls)) \<le> l_records lm div 2 \<and> partition_bytes size_of (drop k (records_in ls)) \<le> l_bytes lm div 2)"
proof -
  let ?recs = "records_in ls"
  let ?k = "keep_from size_of lm ?recs (length ?recs) 0"
  have "length ?recs - ?k \<le> l_records lm div 2" by (rule keep_from_count) simp_all
  moreover have "partition_bytes size_of (drop ?k ?recs) \<le> l_bytes lm div 2"
    by (rule keep_from_bytes) (simp_all add: partition_bytes_def)
  moreover have "?k \<le> length ?recs" by (rule keep_from_le)
  ultimately show ?thesis
    by (intro conjI compact_lines_ever exI [of _ ?k]) (simp_all add: compact_partition_def Let_def)
qed

section \<open>The journal\<close>

lemma jm_set_contains: "(k, v) \<in> set (jm_set k v m)"
  by (induction k v m rule: jm_set.induct) auto

lemma line_keys_append: "line_keys (xs @ ys) = line_keys xs @ line_keys ys"
  by (simp add: line_keys_def)

lemma has_key_set: "k \<in> set (line_keys ls) \<Longrightarrow> has_key k (jm_set d ls m)"
  using jm_set_contains [of d ls m] by (force simp: has_key_def list_ex_iff)

lemma appended_has: "has_key (outcome_key s oc) (append_delivery_outcome size_of lm s oc reason t cnt j)"
  by (simp add: append_delivery_outcome_def Let_def) (auto intro!: has_key_set simp: line_keys_append, simp add: line_keys_def)

lemma retained_idem: "retained t (retained t j) = retained t j"
  by (simp add: retained_def)

lemma cutoff_le: "day (t - 6 * DAY_MS) \<le> day t"
  by (simp add: day_def DAY_MS_def zdiv_mono1)

lemma retained_set: "retained t (jm_set (day t) ls (retained t j)) = jm_set (day t) ls (retained t j)"
  unfolding retained_def [of t "jm_set _ _ _"]
  by (rule filter_True) (use set_jm_set [of "day t" ls "retained t j"] cutoff_le [of t] in \<open>auto simp: retained_def\<close>)

lemma append_retained: "retained t (append_delivery_outcome size_of lm s oc reason t cnt j) = append_delivery_outcome size_of lm s oc reason t cnt j"
  by (simp add: append_delivery_outcome_def Let_def retained_idem retained_set)

text \<open>With a record limit of at least three every partition keeps within it.\<close>

lemma append_fits:
  assumes "3 \<le> l_records lm" and "list_all (\<lambda>p. length (snd p) \<le> l_records lm) j"
  shows "list_all (\<lambda>p. length (snd p) \<le> l_records lm) (append_delivery_outcome size_of lm s oc reason t cnt j)"
proof -
  have fits: "length (room_for size_of lm t l (jm_get (retained t j) d)) + 1 \<le> l_records lm" for l d
  proof (cases "jm_get (retained t j) d")
    case None
    with assms(1) show ?thesis by (simp add: room_for_def)
  next
    case (Some ls)
    have "length (compact_partition size_of lm t ls) \<le> l_records lm div 2 + 1"
      using compact_length [of size_of lm t ls] .
    then have "Suc (length (compact_partition size_of lm t ls)) \<le> l_records lm" using assms(1) by linarith
    with Some show ?thesis by (simp add: room_for_def)
  qed
  have kept: "list_all (\<lambda>p. length (snd p) \<le> l_records lm) (retained t j)"
    using assms(2) by (auto simp: retained_def list_all_iff)
  with fits show ?thesis
    using set_jm_set by (fastforce simp: append_delivery_outcome_def Let_def list_all_iff)
qed

text \<open>Recording an outcome makes it findable, and recording it again (a restart between the append and the queue cleanup)
  changes nothing.\<close>

theorem append_is_idempotent:
  "has_delivery_outcome (append_delivery_outcome size_of lm s oc reason t cnt j) s oc \<and>
   append_delivery_outcome size_of lm s oc reason2 t cnt2 (append_delivery_outcome size_of lm s oc reason t cnt j) =
     append_delivery_outcome size_of lm s oc reason t cnt j"
  using appended_has [of s oc size_of lm reason t cnt j] append_retained [of t size_of lm s oc reason cnt j]
  by (simp add: has_delivery_outcome_def append_delivery_outcome_def [of size_of lm s oc reason2 t cnt2] Let_def)

section \<open>Refusals are neither lost nor counted twice\<close>

datatype refusal_event =
    Refuse bool bool string string string string string string int
  | Timer bool string target_key nat int
  | Flush_all "bool list" "string list" int

fun refusal_step :: "coalescer \<Rightarrow> refusal_event \<Rightarrow> coalescer" where
  "refusal_step c (Refuse ok1 ok2 u1 u2 rt from to reason t) = record_unknown_target ok1 ok2 u1 u2 rt from to reason t c"
| "refusal_step c (Timer ok u key n t) = window_timer ok u key n t c"
| "refusal_step c (Flush_all oks us t) = flush_unknown_target_outcomes oks us t c"

fun writes_succeed :: "refusal_event \<Rightarrow> bool" where
  "writes_succeed (Refuse ok1 ok2 _ _ _ _ _ _ _) \<longleftrightarrow> ok1 \<and> ok2"
| "writes_succeed (Timer ok _ _ _ _) \<longleftrightarrow> ok"
| "writes_succeed (Flush_all oks _ _) \<longleftrightarrow> list_all id oks"

fun is_refusal :: "refusal_event \<Rightarrow> bool" where
  "is_refusal (Refuse _ _ _ _ _ _ _ _ _) \<longleftrightarrow> True"
| "is_refusal _ \<longleftrightarrow> False"

definition no_windows :: coalescer where
  "no_windows = \<lparr>windows = [], handed = [], timers = 0\<rparr>"

definition stands_for :: "outcome_record \<Rightarrow> nat" where
  "stands_for r = (case r_count r of None \<Rightarrow> 1 | Some n \<Rightarrow> n)"

definition written :: "coalescer \<Rightarrow> nat" where
  "written c = sum_list (map (\<lambda>p. stands_for (snd p)) (handed c))"

definition pending :: "(target_key, window) jmap \<Rightarrow> nat" where
  "pending m = sum_list (map (\<lambda>p. w_count (snd p)) m)"

definition accounted :: "coalescer \<Rightarrow> nat" where
  "accounted c = written c + pending (windows c)"

definition exact_keys :: "(target_key, window) jmap \<Rightarrow> nat" where
  "exact_keys m = length (filter (\<lambda>k. snd (snd k) \<noteq> ''*'') (jm_keys m))"

definition coalescer_ok :: "coalescer \<Rightarrow> bool" where
  "coalescer_ok c \<longleftrightarrow> jm_ok (windows c) \<and> exact_keys (windows c) \<le> UNKNOWN_TARGET_KEYS"

lemma pending_del: "jm_ok m \<Longrightarrow> jm_get m k = Some w \<Longrightarrow> pending (jm_del k m) + w_count w = pending m"
proof (induction m)
  case Nil
  then show ?case by simp
next
  case (Cons p m)
  show ?case
  proof (cases "k = fst p")
    case True
    with Cons.prems(1) have "jm_del k m = m" by (intro jm_del_absent) (simp add: jm_ok_def)
    with True Cons.prems(2) show ?thesis by (cases p) (auto simp: pending_def jm_del_def)
  next
    case False
    with Cons show ?thesis by (cases p) (auto simp: pending_def jm_del_def jm_ok_def)
  qed
qed

lemma pending_set_new: "jm_get m k = None \<Longrightarrow> pending (jm_set k w m) = pending m + w_count w"
  by (simp add: jm_get_None_iff jm_set_absent pending_def)

lemma pending_set_old: "jm_get m k = Some w \<Longrightarrow> pending (jm_set k v m) + w_count w = pending m + w_count v"
  by (induction m) (auto simp: pending_def split: if_splits)

lemma exact_keys_del: "exact_keys (jm_del k m) \<le> exact_keys m"
  by (simp add: exact_keys_def jm_keys_del) (metis (no_types, lifting) filter_filter length_filter_le filter_cong conj_commute)

lemma exact_keys_le: "exact_keys m \<le> length m"
  using length_filter_le [of "\<lambda>k. snd (snd k) \<noteq> ''*''" "jm_keys m"] by (simp add: exact_keys_def jm_keys_def)

lemma exact_keys_set:
  "exact_keys (jm_set k w m) = exact_keys m + (if jm_get m k = None \<and> snd (snd k) \<noteq> ''*'' then 1 else 0)"
  by (simp add: exact_keys_def jm_keys_set jm_get_None_iff)

lemma flush_facts:
  fixes ok :: bool and u :: string and key :: target_key and t :: int
  assumes "coalescer_ok c"
  defines "c' \<equiv> snd (flush_unknown_target ok u key t c)"
  shows "coalescer_ok c'" "accounted c' \<le> accounted c" "ok \<Longrightarrow> accounted c' = accounted c"
    "ok \<Longrightarrow> fst (flush_unknown_target ok u key t c)" "jm_get (windows c') key = None"
proof -
  have del: "jm_get (windows c) key = Some w \<Longrightarrow> pending (jm_del key (windows c)) + w_count w = pending (windows c)" for w
    using assms(1) by (intro pending_del) (simp_all add: coalescer_ok_def)
  note defs = c'_def flush_unknown_target_def hand_def
  show "coalescer_ok c'"
    using assms(1) exact_keys_del [of key "windows c"] by (auto simp: defs coalescer_ok_def Let_def split: option.splits)
  show "accounted c' \<le> accounted c"
    using del by (fastforce simp: defs accounted_def written_def stands_for_def failed_record_def Let_def split: option.splits)
  show "accounted c' = accounted c" if ok
    using del that by (fastforce simp: defs accounted_def written_def stands_for_def failed_record_def Let_def split: option.splits)
  show "fst (flush_unknown_target ok u key t c)" if ok using that by (simp add: defs Let_def split: option.splits)
  show "jm_get (windows c') key = None" by (simp add: defs jm_get_del Let_def split: option.splits)
qed

lemma flush_keys_facts:
  "coalescer_ok c \<Longrightarrow> coalescer_ok (flush_keys ks oks us t c) \<and> accounted (flush_keys ks oks us t c) \<le> accounted c
    \<and> (list_all id oks \<longrightarrow> accounted (flush_keys ks oks us t c) = accounted c)"
proof (induction ks arbitrary: oks us c)
  case Nil
  then show ?case by simp
next
  case (Cons k ks)
  let ?ok = "oks = [] \<or> hd oks"
  let ?c = "snd (flush_unknown_target ?ok (if us = [] then [] else hd us) k t c)"
  note f = flush_facts [OF Cons.prems, of ?ok "if us = [] then [] else hd us" k t]
  note ih = Cons.IH [OF f(1), of "tl oks" "tl us"]
  have flags: "?ok" "list_all id (tl oks)" if "list_all id oks" using that by (cases oks; simp)+
  have step: "flush_keys (k # ks) oks us t c = flush_keys ks (tl oks) (tl us) t ?c" by simp
  have all: "accounted (flush_keys ks (tl oks) (tl us) t ?c) = accounted c" if "list_all id oks"
    using ih f(3) flags [OF that] by (metis (no_types, lifting))
  have le: "accounted (flush_keys ks (tl oks) (tl us) t ?c) \<le> accounted c"
    using ih f(2) by (blast intro: order_trans)
  show ?case unfolding step using ih le all by blast
qed

definition exact_one :: "target_key \<Rightarrow> nat" where
  "exact_one k = (if snd (snd k) \<noteq> ''*'' then 1 else 0)"

lemma exact_keys_del_eq:
  assumes "jm_ok m" "jm_get m k = Some w"
  shows "exact_keys (jm_del k m) + exact_one k = exact_keys m"
proof -
  have "length (filter P (filter (\<lambda>x. x \<noteq> k) xs)) + (if P k then 1 else 0) = length (filter P xs)"
    if "distinct xs" "k \<in> set xs" for P and xs :: "target_key list"
    using that by (induction xs) (auto simp: filter_id_conv intro!: arg_cong [where f = length] filter_cong)
  moreover have "k \<in> set (jm_keys m)" using assms(2) jm_get_None_iff [of m k] by auto
  moreover have "distinct (jm_keys m)" using assms(1) by (simp add: jm_ok_def)
  ultimately show ?thesis by (simp only: exact_keys_def exact_one_def jm_keys_del)
qed

text \<open>Opening the window of a key that has none, and writing its first record.\<close>

lemma open_facts:
  assumes "coalescer_ok c" and free: "jm_get (windows c) key = None"
    and room: "exact_keys (windows c) + exact_one key \<le> UNKNOWN_TARGET_KEYS"
  shows "coalescer_ok (open_window ok u key rt from to reason t c)"
    "accounted (open_window ok u key rt from to reason t c) \<le> Suc (accounted c)"
    "ok \<Longrightarrow> accounted (open_window ok u key rt from to reason t c) = Suc (accounted c)"
proof -
  define w where "w = new_window key rt from to reason t (timers c)"
  have w: "w_count w = 0" by (simp add: w_def new_window_def Let_def)
  note p = pending_set_new [OF free, of w]
  have "exact_keys (jm_set key w (windows c)) \<le> UNKNOWN_TARGET_KEYS" using room free by (simp add: exact_keys_set exact_one_def)
  then show "coalescer_ok (open_window ok u key rt from to reason t c)"
    using assms(1) by (simp add: open_window_def hand_def coalescer_ok_def w_def [symmetric])
  show "accounted (open_window ok u key rt from to reason t c) \<le> Suc (accounted c)"
    "ok \<Longrightarrow> accounted (open_window ok u key rt from to reason t c) = Suc (accounted c)"
    using p w by (simp_all add: open_window_def hand_def accounted_def written_def w_def [symmetric] failed_record_def stands_for_def)
qed

lemma flush_frees:
  assumes "coalescer_ok c" "jm_get (windows c) key = Some w"
  shows "exact_keys (windows (snd (flush_unknown_target ok u key t c))) + exact_one key \<le> UNKNOWN_TARGET_KEYS"
proof -
  have "windows (snd (flush_unknown_target ok u key t c)) = jm_del key (windows c)"
    using assms(2) by (auto simp: flush_unknown_target_def hand_def Let_def)
  with assms exact_keys_del_eq [of "windows c" key w] show ?thesis by (simp add: coalescer_ok_def)
qed

lemma key_room:
  assumes "coalescer_ok c" "jm_get (windows c) (target_key_of c rt from to) = None"
  shows "exact_keys (windows c) + exact_one (target_key_of c rt from to) \<le> UNKNOWN_TARGET_KEYS"
  using assms exact_keys_le [of "windows c"]
  by (auto simp: target_key_of_def exact_one_def coalescer_ok_def jm_has_def split: if_splits)

lemma record_facts:
  assumes ok: "coalescer_ok c"
  shows "coalescer_ok (record_unknown_target ok1 ok2 u1 u2 rt from to reason t c) \<and>
    accounted (record_unknown_target ok1 ok2 u1 u2 rt from to reason t c) \<le> Suc (accounted c) \<and>
    (ok1 \<and> ok2 \<longrightarrow> accounted (record_unknown_target ok1 ok2 u1 u2 rt from to reason t c) = Suc (accounted c))"
proof -
  define key where "key = target_key_of c rt from to"
  let ?f = "flush_unknown_target ok1 u1 key t c"
  note f = flush_facts [OF ok, of ok1 u1 key t]
  consider (fresh) "jm_get (windows c) key = None" | (inside) w where "jm_get (windows c) key = Some w" "t < w_until w"
    | (expired) w where "jm_get (windows c) key = Some w" "\<not> t < w_until w" by fastforce
  then show ?thesis
  proof cases
    case fresh
    from open_facts [OF ok fresh] key_room [OF ok] fresh show ?thesis
      by (simp add: record_unknown_target_def Let_def key_def)
  next
    case inside
    with pending_set_old [OF inside(1), of "w\<lparr>w_count := w_count w + 1\<rparr>"] ok show ?thesis
      by (simp add: record_unknown_target_def Let_def key_def [symmetric] accounted_def written_def coalescer_ok_def exact_keys_set)
  next
    case expired
    note g = open_facts [OF f(1) f(5) flush_frees [OF ok expired(1)]]
    have eq: "record_unknown_target ok1 ok2 u1 u2 rt from to reason t c =
        (if fst ?f then open_window ok2 u2 key rt from to reason t (snd ?f) else snd ?f)"
      using expired by (simp add: record_unknown_target_def Let_def key_def [symmetric])
    have "coalescer_ok c1 \<and> accounted c1 \<le> Suc (accounted c) \<and> (ok1 \<and> ok2 \<longrightarrow> accounted c1 = Suc (accounted c))"
      if c1: "c1 = (if fst ?f then open_window ok2 u2 key rt from to reason t (snd ?f) else snd ?f)" for c1
    proof (cases "fst ?f")
      case True
      with c1 have c1: "c1 = open_window ok2 u2 key rt from to reason t (snd ?f)" by simp
      have "accounted c1 \<le> Suc (accounted (snd ?f))" unfolding c1 by (rule g(2))
      moreover have "ok1 \<and> ok2 \<Longrightarrow> accounted c1 = Suc (accounted c)" unfolding c1 using g(3) f(3) by metis
      ultimately show ?thesis using f(2) g(1) c1 by auto
    next
      case False
      with c1 f(1,2,4) show ?thesis by auto
    qed
    then show ?thesis unfolding eq by blast
  qed
qed

lemma timer_facts:
  assumes "coalescer_ok c"
  shows "coalescer_ok (window_timer ok u key n t c) \<and> accounted (window_timer ok u key n t c) \<le> accounted c
    \<and> (ok \<longrightarrow> accounted (window_timer ok u key n t c) = accounted c)"
  using flush_facts [OF assms, of ok u key t] assms by (simp add: window_timer_def split: option.split)

lemma refusal_step_facts:
  assumes "coalescer_ok c"
  shows "coalescer_ok (refusal_step c e) \<and> accounted (refusal_step c e) \<le> accounted c + (if is_refusal e then 1 else 0)
    \<and> (writes_succeed e \<longrightarrow> accounted (refusal_step c e) = accounted c + (if is_refusal e then 1 else 0))"
proof (cases e)
  case (Refuse ok1 ok2 u1 u2 rt sender target reason t)
  with record_facts [OF assms] show ?thesis by simp
next
  case (Timer ok u key n t)
  with timer_facts [OF assms] show ?thesis by simp
next
  case (Flush_all oks us t)
  with flush_keys_facts [OF assms] show ?thesis by (simp add: flush_unknown_target_outcomes_def)
qed

interpretation refusals: machine_invariant refusal_step coalescer_ok
  by unfold_locales (use refusal_step_facts in blast)

lemma run_accounted:
  assumes "coalescer_ok c"
  shows "accounted (run refusal_step c es) \<le> accounted c + length (filter is_refusal es)
    \<and> (list_all writes_succeed es \<longrightarrow> accounted (run refusal_step c es) = accounted c + length (filter is_refusal es))"
  using assms
proof (induction es arbitrary: c)
  case Nil
  then show ?case by simp
next
  case (Cons e es)
  note s = refusal_step_facts [OF Cons.prems, of e]
  from s have "coalescer_ok (refusal_step c e)" by blast
  note ih = Cons.IH [OF this]
  from s ih show ?case by (auto split: if_splits)
qed

lemma coalescer_ok_empty: "coalescer_ok no_windows"
  by (simp add: coalescer_ok_def no_windows_def exact_keys_def)

text \<open>C13: Coalescing never counts an unknown-target refusal twice, and never tracks more than 256 distinct targets; when every
  write succeeds each refusal is in exactly one place: a written record, or the count of the window that is still open.\<close>

theorem refusals_conserved:
  "accounted (run refusal_step no_windows es) \<le> length (filter is_refusal es) \<and>
   (accounted (run refusal_step no_windows es) = length (filter is_refusal es) \<or> list_ex (\<lambda>e. \<not> writes_succeed e) es) \<and>
   exact_keys (windows (run refusal_step no_windows es)) \<le> UNKNOWN_TARGET_KEYS"
proof -
  have z: "accounted no_windows = 0" by (simp add: accounted_def written_def pending_def no_windows_def)
  have "coalescer_ok (run refusal_step no_windows es)" by (rule refusals.inv_run [OF coalescer_ok_empty])
  with run_accounted [OF coalescer_ok_empty, of es] z show ?thesis by (auto simp: coalescer_ok_def list_ex_iff list_all_iff)
qed

text \<open>After a flush (process exit) no refusal is left pending and, if the writes succeed, the written records account for
  everything that was pending.\<close>

theorem flush_empties:
  "windows (flush_unknown_target_outcomes oks us t c) = [] \<and>
   (written (flush_unknown_target_outcomes [] us t (run refusal_step no_windows es)) = accounted (run refusal_step no_windows es))"
proof -
  have e: "windows (flush_keys ks oks us t c) = filter (\<lambda>p. fst p \<notin> set ks) (windows c)" for ks oks us c
  proof (induction ks arbitrary: oks us c)
    case Nil
    then show ?case by simp
  next
    case (Cons k ks)
    have "windows (snd (flush_unknown_target ok u k t c)) = jm_del k (windows c)" for ok u
      using jm_get_None_iff [of "windows c" k] jm_del_absent [of k "windows c"]
      by (simp add: flush_unknown_target_def hand_def Let_def split: option.split)
    with Cons.IH show ?case by (simp add: jm_del_def conj_commute)
  qed
  have empty: "windows (flush_unknown_target_outcomes oks us t c) = []" for oks us c
    by (simp add: flush_unknown_target_outcomes_def e jm_keys_def filter_empty_conv)
  let ?c = "run refusal_step no_windows es"
  have "coalescer_ok ?c" by (rule refusals.inv_run [OF coalescer_ok_empty])
  from flush_keys_facts [OF this, of _ "[]"] have "accounted (flush_unknown_target_outcomes [] us t ?c) = accounted ?c"
    by (simp add: flush_unknown_target_outcomes_def)
  then show ?thesis using empty by (simp add: accounted_def pending_def)
qed

end
