(* ===== verification/Kernel.thy ===== *)
theory Kernel imports Prelude "HOL-Library.List_Lexorder" begin

text \<open>
  The compiled decision kernel (\<^verbatim>\<open>src/src/verified/generated/kernel.js\<close>) and the host code that alone may call it: the policy
  wrappers (\<^verbatim>\<open>src/src/verified/policy.ts\<close>), the resource codec (\<^verbatim>\<open>src/src/verified/resources.ts\<close>), the memory page check
  (\<^verbatim>\<open>src/src/verified/memory.ts\<close>) and the effect conflict policy (\<^verbatim>\<open>src/src/components/effect-policy.ts\<close>). The kernel's lists are
  HOL lists, its naturals are \<open>nat\<close>; a JavaScript string is the list of its UTF-16 code units.
\<close>

type_synonym jstring = "nat list"

definition star :: jstring where "star = [42]"

definition BEND_NAT_MAX :: int where "BEND_NAT_MAX = 281474976710655"
definition MAX_SAFE :: int where "MAX_SAFE = 9007199254740991"

definition is_natural :: "int \<Rightarrow> bool" where
  "is_natural v \<longleftrightarrow> 0 \<le> v \<and> v \<le> MAX_SAFE"

definition is_arithmetic_natural :: "int \<Rightarrow> bool" where
  "is_arithmetic_natural v \<longleftrightarrow> is_natural v \<and> v \<le> BEND_NAT_MAX"

section \<open>Resource scopes\<close>

datatype scope = UnknownScope | Exact "jstring list"

fun same_name :: "jstring \<Rightarrow> jstring \<Rightarrow> bool \<Rightarrow> bool" where
  "same_name [] [] s = s"
| "same_name [] (_ # _) s = False"
| "same_name (_ # _) [] s = False"
| "same_name (l # u) (g # k) s = same_name u k (s \<and> l = g)"

fun length_at_most :: "'a list \<Rightarrow> nat \<Rightarrow> bool" where
  "length_at_most [] r = True"
| "length_at_most (_ # xs) 0 = False"
| "length_at_most (_ # xs) (Suc r) = length_at_most xs r"

definition source_name :: "jstring \<Rightarrow> bool" where
  "source_name n \<longleftrightarrow> n \<noteq> [] \<and> \<not> same_name n star True"

definition normal_name :: "jstring \<Rightarrow> bool" where
  "normal_name n \<longleftrightarrow> n \<noteq> [] \<and> length_at_most n 256 \<and> \<not> same_name n star True"

fun member_name :: "jstring list \<Rightarrow> jstring \<Rightarrow> bool \<Rightarrow> bool" where
  "member_name [] a s = s"
| "member_name (l # u) a s = member_name u a (s \<or> same_name a l True)"

fun all_members :: "jstring list \<Rightarrow> jstring list \<Rightarrow> bool \<Rightarrow> bool" where
  "all_members [] a s = s"
| "all_members (l # u) a s = all_members u a (s \<and> member_name a l False)"

fun all_names :: "(jstring \<Rightarrow> bool) \<Rightarrow> jstring list \<Rightarrow> bool \<Rightarrow> bool" where
  "all_names p [] r = r"
| "all_names p (a # u) r = all_names p u (r \<and> p a)"

definition exact_if :: "bool \<Rightarrow> jstring list \<Rightarrow> scope" where
  "exact_if b ns = (if b then Exact ns else UnknownScope)"

definition resource_source :: "jstring list \<Rightarrow> scope" where
  "resource_source ns = exact_if (ns \<noteq> [] \<and> all_names source_name ns True) ns"

definition normal_list :: "jstring list \<Rightarrow> bool" where
  "normal_list ns \<longleftrightarrow> ns \<noteq> [] \<and> length_at_most ns 64 \<and> all_names normal_name ns True"

definition normalizes :: "jstring list \<Rightarrow> jstring list \<Rightarrow> bool" where
  "normalizes orig prop = (if normal_list prop then all_members orig prop True \<and> all_members prop orig True else False)"

definition resource_normalize :: "scope \<Rightarrow> jstring list \<Rightarrow> scope" where
  "resource_normalize sc prop = (case sc of UnknownScope \<Rightarrow> UnknownScope | Exact ns \<Rightarrow> exact_if (normalizes ns prop) prop)"

fun shares_name :: "jstring list \<Rightarrow> jstring list \<Rightarrow> bool \<Rightarrow> bool" where
  "shares_name [] a s = s"
| "shares_name (l # u) a s = shares_name u a (s \<or> member_name a l False)"

definition scopes_overlap :: "scope \<Rightarrow> scope \<Rightarrow> bool" where
  "scopes_overlap a b = (case a of UnknownScope \<Rightarrow> True | Exact ns \<Rightarrow> (case b of UnknownScope \<Rightarrow> True | Exact ms \<Rightarrow> shares_name ns ms False))"

datatype resource_effect = Quiet | Effect bool scope

definition resource_conflict :: "scope \<Rightarrow> scope \<Rightarrow> bool \<Rightarrow> bool \<Rightarrow> bool" where
  "resource_conflict a b n m \<longleftrightarrow> (n \<or> m) \<and> scopes_overlap a b"

definition effects_conflict :: "resource_effect \<Rightarrow> resource_effect \<Rightarrow> bool" where
  "effects_conflict e f = (case e of Quiet \<Rightarrow> False | Effect n a \<Rightarrow> (case f of Quiet \<Rightarrow> False | Effect m b \<Rightarrow> resource_conflict a b n m))"

fun conflicts_with :: "resource_effect list \<Rightarrow> resource_effect \<Rightarrow> bool \<Rightarrow> bool" where
  "conflicts_with [] a s = s"
| "conflicts_with (l # u) a s = conflicts_with u a (s \<or> effects_conflict a l)"

fun groups_from :: "resource_effect list \<Rightarrow> resource_effect list \<Rightarrow> bool \<Rightarrow> bool" where
  "groups_from [] a s = s"
| "groups_from (l # u) a s = groups_from u a (s \<or> conflicts_with a l False)"

definition resource_groups :: "resource_effect list \<Rightarrow> resource_effect list \<Rightarrow> bool" where
  "resource_groups ls rs = groups_from ls rs False"

section \<open>What the kernel's loops compute\<close>

lemma same_name_eq [simp]: "same_name a b s \<longleftrightarrow> s \<and> a = b"
  by (induction a b s rule: same_name.induct) auto

lemma length_at_most_eq [simp]: "length_at_most xs n \<longleftrightarrow> length xs \<le> n"
  by (induction xs n rule: length_at_most.induct) auto

lemma member_name_eq [simp]: "member_name ls a s \<longleftrightarrow> s \<or> a \<in> set ls"
  by (induction ls a s rule: member_name.induct) auto

lemma all_members_eq [simp]: "all_members ls a s \<longleftrightarrow> s \<and> set ls \<subseteq> set a"
  by (induction ls a s rule: all_members.induct) auto

lemma all_names_eq [simp]: "all_names p ls r \<longleftrightarrow> r \<and> (\<forall>n \<in> set ls. p n)"
  by (induction p ls r rule: all_names.induct) auto

lemma shares_name_eq [simp]: "shares_name ls a s \<longleftrightarrow> s \<or> set ls \<inter> set a \<noteq> {}"
  by (induction ls a s rule: shares_name.induct) auto

lemma conflicts_with_eq [simp]: "conflicts_with ls a s \<longleftrightarrow> s \<or> (\<exists>l \<in> set ls. effects_conflict a l)"
  by (induction ls a s rule: conflicts_with.induct) auto

lemma groups_from_eq [simp]: "groups_from ls a s \<longleftrightarrow> s \<or> (\<exists>l \<in> set ls. \<exists>r \<in> set a. effects_conflict l r)"
  by (induction ls a s rule: groups_from.induct) auto

section \<open>The resource codec\<close>

text \<open>A declared resource: a string, or some other value, told apart by number.\<close>

datatype declared = Str jstring | Alien nat

definition encode_name :: "declared \<Rightarrow> jstring" where
  "encode_name d = (case d of Str s \<Rightarrow> s | Alien _ \<Rightarrow> [])"

definition encode_resource_names :: "declared list \<Rightarrow> jstring list" where
  "encode_resource_names ds = map encode_name ds"

text \<open>\<open>None\<close> is the throw on a code unit out of range.\<close>

definition decode_resource_scope :: "scope \<Rightarrow> jstring list option" where
  "decode_resource_scope sc = (case sc of UnknownScope \<Rightarrow> Some [star]
     | Exact ns \<Rightarrow> if list_all (list_all (\<lambda>u. u \<le> 65535)) ns then Some ns else None)"

text \<open>The set of proposed values, in insertion order; the loop stops past 64.\<close>

fun propose :: "declared list \<Rightarrow> declared list \<Rightarrow> declared list" where
  "propose [] acc = acc"
| "propose (d # ds) acc =
     (let acc = (if d \<in> set acc then acc else acc @ [d]) in if length acc > 64 then acc else propose ds acc)"

definition bounded_effect_resources :: "declared list option \<Rightarrow> jstring list option" where
  "bounded_effect_resources resources =
     (let ds = (case resources of None \<Rightarrow> [] | Some ds \<Rightarrow> ds); original = resource_source (encode_resource_names ds)
      in decode_resource_scope (resource_normalize original (encode_resource_names (propose ds []))))"

definition proper_name :: "jstring \<Rightarrow> bool" where
  "proper_name n \<longleftrightarrow> n \<noteq> [] \<and> length n \<le> 256 \<and> n \<noteq> star"

definition proper_declaration :: "declared list \<Rightarrow> bool" where
  "proper_declaration ds \<longleftrightarrow> ds \<noteq> [] \<and> card (set ds) \<le> 64 \<and> (\<forall>d \<in> set ds. \<exists>n. d = Str n \<and> proper_name n)"

definition code_units :: "declared list \<Rightarrow> bool" where
  "code_units ds \<longleftrightarrow> list_all (\<lambda>d. list_all (\<lambda>u. u \<le> 65535) (encode_name d)) ds"

lemma propose_facts:
  assumes "distinct acc" "length acc \<le> 64"
  shows "distinct (propose ds acc) \<and> set (propose ds acc) \<subseteq> set acc \<union> set ds \<and>
    (length (propose ds acc) \<le> 64 \<longrightarrow> set (propose ds acc) = set acc \<union> set ds)"
  using assms
proof (induction ds arbitrary: acc)
  case Nil
  then show ?case by simp
next
  case (Cons d ds)
  define acc' where "acc' = (if d \<in> set acc then acc else acc @ [d])"
  have acc': "distinct acc'" "set acc' = insert d (set acc)" using Cons.prems(1) by (auto simp: acc'_def)
  have eq: "propose (d # ds) acc = (if length acc' > 64 then acc' else propose ds acc')" by (simp add: acc'_def Let_def)
  show ?case
  proof (cases "length acc' > 64")
    case True
    with acc' show ?thesis unfolding eq by auto
  next
    case False
    with Cons.IH [OF acc'(1)] acc'(2) show ?thesis unfolding eq by auto
  qed
qed

lemma propose_set:
  shows "distinct (propose ds []) \<and> (length (propose ds []) \<le> 64 \<longleftrightarrow> card (set ds) \<le> 64) \<and>
    (card (set ds) \<le> 64 \<longrightarrow> set (propose ds []) = set ds)"
proof -
  note f = propose_facts [of "[]" ds, simplified]
  have "length (propose ds []) \<le> card (set ds)"
    using f card_mono [of "set ds" "set (propose ds [])"] distinct_card [of "propose ds []"] by simp
  moreover have "length (propose ds []) \<le> 64 \<Longrightarrow> card (set ds) = length (propose ds [])"
    using f distinct_card [of "propose ds []"] by simp
  ultimately show ?thesis using f by auto
qed

lemma source_proper: "normal_name n \<longleftrightarrow> proper_name n" "proper_name n \<Longrightarrow> source_name n"
  by (auto simp: normal_name_def proper_name_def source_name_def)

lemma encode_proper: "proper_name (encode_name d) \<longleftrightarrow> (\<exists>n. d = Str n \<and> proper_name n)"
  by (auto simp: encode_name_def proper_name_def split: declared.splits)

lemma Str_encode: "\<exists>n. d = Str n \<Longrightarrow> Str (encode_name d) = d"
  by (auto simp: encode_name_def)

lemma encode_inj: "\<forall>d \<in> A. \<exists>n. d = Str n \<and> P n \<Longrightarrow> inj_on encode_name A"
  by (auto simp: inj_on_def encode_name_def split: declared.splits)

lemma bounded_proper:
  assumes ok: "proper_declaration ds" and u: "code_units ds"
  shows "bounded_effect_resources (Some ds) = Some (map encode_name (propose ds []))"
proof -
  let ?p = "propose ds []" and ?e = "encode_resource_names ds"
  have p: "set ?p = set ds" "length ?p \<le> 64" using propose_set [of ds] ok by (auto simp: proper_declaration_def)
  have proper: "\<forall>n \<in> encode_name ` set ds. proper_name n" using ok by (auto simp: proper_declaration_def encode_name_def)
  have ne: "ds \<noteq> []" "?p \<noteq> []" using ok p(1) by (auto simp: proper_declaration_def)
  have src: "resource_source ?e = Exact ?e"
    using ne proper source_proper(2) by (auto simp: resource_source_def exact_if_def encode_resource_names_def)
  have nl: "normal_list (encode_resource_names ?p)"
    using ne p proper by (auto simp: normal_list_def encode_resource_names_def source_proper(1))
  have "normalizes ?e (encode_resource_names ?p)"
    using nl p by (simp add: normalizes_def encode_resource_names_def)
  then have "resource_normalize (resource_source ?e) (encode_resource_names ?p) = Exact (map encode_name ?p)"
    by (simp add: src resource_normalize_def exact_if_def) (simp add: encode_resource_names_def)
  moreover have "list_all (list_all (\<lambda>u. u \<le> 65535)) (map encode_name ?p)"
    using u p(1) by (auto simp: code_units_def list_all_iff)
  ultimately show ?thesis by (simp add: bounded_effect_resources_def Let_def decode_resource_scope_def)
qed

lemma bounded_improper:
  assumes "\<not> proper_declaration ds"
  shows "bounded_effect_resources (Some ds) = Some [star]"
proof -
  let ?p = "propose ds []"
  have "resource_normalize (resource_source (encode_resource_names ds)) (encode_resource_names ?p) = UnknownScope"
  proof (rule ccontr)
    assume "resource_normalize (resource_source (encode_resource_names ds)) (encode_resource_names ?p) \<noteq> UnknownScope"
    then have s: "ds \<noteq> []" "normal_list (encode_resource_names ?p)" "encode_name ` set ds \<subseteq> encode_name ` set ?p"
      by (auto simp: resource_normalize_def resource_source_def exact_if_def normalizes_def encode_resource_names_def split: scope.splits if_splits)
    then have "length ?p \<le> 64" "\<forall>n \<in> encode_name ` set ?p. proper_name n"
      by (auto simp: normal_list_def encode_resource_names_def source_proper(1))
    with s propose_set [of ds] have "card (set ds) \<le> 64" "\<forall>d \<in> set ds. proper_name (encode_name d)" by auto
    with s(1) assms show False unfolding proper_declaration_def encode_proper by blast
  qed
  then show ?thesis by (simp add: bounded_effect_resources_def Let_def decode_resource_scope_def)
qed

text \<open>Normalizing a declaration of resources yields the wildcard, unless every declared value is a string that is not empty,
  not a wildcard and at most 256 code units, and there are between 1 and 64 distinct ones; then it yields exactly the
  declared names, each once.\<close>

theorem resources_normalized:
  assumes "code_units ds"
  shows "\<exists>r. bounded_effect_resources (Some ds) = Some r \<and>
    (if proper_declaration ds then distinct r \<and> Str ` set r = set ds else r = [star])"
proof (cases "proper_declaration ds")
  case False
  with bounded_improper show ?thesis by simp
next
  case True
  note p = propose_set [of ds]
  have set: "set (propose ds []) = set ds" using p True by (simp add: proper_declaration_def)
  have strs: "\<forall>d \<in> set ds. \<exists>n. d = Str n \<and> proper_name n" using True by (simp add: proper_declaration_def)
  have "distinct (map encode_name (propose ds []))"
    using p encode_inj [OF strs] by (simp add: distinct_map set)
  moreover have "Str ` set (map encode_name (propose ds [])) = set ds"
  proof -
    have "Str (encode_name d) = d" if "d \<in> set ds" for d using strs that Str_encode by blast
    then show ?thesis by (simp add: set image_image)
  qed
  ultimately show ?thesis using bounded_proper [OF True assms] True by auto
qed

definition example_declaration :: "declared list" where
  "example_declaration = [Str [97], Str [98, 99], Str [97]]"

theorem resources_normalized_witness:
  "\<exists>r. bounded_effect_resources (Some example_declaration) = Some r \<and> distinct r \<and> Str ` set r = set example_declaration"
proof -
  have "proper_declaration example_declaration"
    by (simp add: proper_declaration_def example_declaration_def proper_name_def star_def card_insert_if)
  with resources_normalized [of example_declaration] show ?thesis by (simp add: code_units_def example_declaration_def encode_name_def)
qed

section \<open>Effects and their conflicts\<close>

datatype effect_kind = NoEffect | Scoped | Transactional | Emission
datatype effect_ordering = Commutative | Ordered | UnknownOrder

record effect_info =
  e_label :: jstring
  e_kind :: effect_kind
  e_resources :: "jstring list"
  e_ordering :: effect_ordering

definition encode_resource_effect :: "effect_info \<Rightarrow> resource_effect" where
  "encode_resource_effect e = (if e_kind e = NoEffect then Quiet
     else Effect (e_ordering e \<noteq> Commutative) (resource_source (encode_resource_names (map Str (e_resources e)))))"

definition encode_resource_effects :: "effect_info list \<Rightarrow> resource_effect list" where
  "encode_resource_effects es = map encode_resource_effect es"

record effect_summary =
  declarations :: "resource_effect list"
  has_effects :: bool
  has_noncommutative :: bool
  has_unknown :: bool
  has_unknown_noncommutative :: bool
  resource_noncommutative :: "(jstring, bool) jmap"

definition summarize_resource :: "bool \<Rightarrow> effect_summary \<Rightarrow> jstring \<Rightarrow> effect_summary" where
  "summarize_resource noncomm s r =
     (if r = star then s\<lparr>has_unknown := True, has_unknown_noncommutative := has_unknown_noncommutative s \<or> noncomm\<rparr>
      else s\<lparr>resource_noncommutative :=
        jm_set r ((case jm_get (resource_noncommutative s) r of None \<Rightarrow> False | Some b \<Rightarrow> b) \<or> noncomm) (resource_noncommutative s)\<rparr>)"

definition summarize_effect :: "effect_summary \<Rightarrow> effect_info \<Rightarrow> effect_summary" where
  "summarize_effect s e =
     (if e_kind e = NoEffect then s
      else (let noncomm = (e_ordering e \<noteq> Commutative) in
        foldl (summarize_resource noncomm)
          (s\<lparr>has_effects := True, has_noncommutative := has_noncommutative s \<or> noncomm\<rparr>) (e_resources e)))"

definition summarize_effects :: "effect_info list \<Rightarrow> effect_summary" where
  "summarize_effects es =
     foldl summarize_effect \<lparr>declarations = encode_resource_effects es, has_effects = False, has_noncommutative = False,
       has_unknown = False, has_unknown_noncommutative = False, resource_noncommutative = []\<rparr> es"

definition unknown_conflict :: "bool \<Rightarrow> bool \<Rightarrow> bool \<Rightarrow> bool \<Rightarrow> bool \<Rightarrow> bool \<Rightarrow> bool" where
  "unknown_conflict lu lun lnc ru runc rnc \<longleftrightarrow> (lu \<and> (lun \<or> rnc)) \<or> (ru \<and> (runc \<or> lnc))"

definition known_conflict :: "bool \<Rightarrow> bool \<Rightarrow> bool \<Rightarrow> bool" where
  "known_conflict e t n \<longleftrightarrow> e \<and> (t \<or> n)"

datatype conflict_reason = Shared_resource | Unknown_resource

type_synonym conflict = "jstring list \<times> conflict_reason"

definition noncommutative_on :: "effect_summary \<Rightarrow> jstring \<Rightarrow> bool" where
  "noncommutative_on s r = (case jm_get (resource_noncommutative s) r of None \<Rightarrow> False | Some b \<Rightarrow> b)"

definition overlap_of :: "effect_summary \<Rightarrow> effect_summary \<Rightarrow> jstring list" where
  "overlap_of l r = sort (filter (\<lambda>n. known_conflict (jm_has (resource_noncommutative r) n) (noncommutative_on l n) (noncommutative_on r n))
     (jm_keys (resource_noncommutative l)))"

definition effect_conflicts_between :: "effect_summary \<Rightarrow> effect_summary \<Rightarrow> conflict list" where
  "effect_conflicts_between l r =
     (if \<not> resource_groups (declarations l) (declarations r) then []
      else (let unknown = (if unknown_conflict (has_unknown l) (has_unknown_noncommutative l) (has_noncommutative l)
                  (has_unknown r) (has_unknown_noncommutative r) (has_noncommutative r) then [([star], Unknown_resource)] else []);
                overlap = overlap_of l r;
                conflicts = unknown @ (if overlap \<noteq> [] then [(overlap, Shared_resource)] else [])
            in if conflicts \<noteq> [] then conflicts else [([star], Unknown_resource)]))"

section \<open>Conflicts are what the declarations say\<close>

text \<open>The specification: two effects conflict when both do something, one of them is not commutative and they may touch the same
  resource; a declaration that is empty or holds the wildcard or an empty name may touch any.\<close>

definition may_touch_any :: "effect_info \<Rightarrow> bool" where
  "may_touch_any e \<longleftrightarrow> e_resources e = [] \<or> star \<in> set (e_resources e) \<or> [] \<in> set (e_resources e)"

definition infos_conflict :: "effect_info \<Rightarrow> effect_info \<Rightarrow> bool" where
  "infos_conflict e f \<longleftrightarrow> e_kind e \<noteq> NoEffect \<and> e_kind f \<noteq> NoEffect \<and> (e_ordering e \<noteq> Commutative \<or> e_ordering f \<noteq> Commutative)
     \<and> (may_touch_any e \<or> may_touch_any f \<or> set (e_resources e) \<inter> set (e_resources f) \<noteq> {})"

lemma declared_scope:
  "resource_source (encode_resource_names (map Str (e_resources e))) = (if may_touch_any e then UnknownScope else Exact (e_resources e))"
proof -
  have "encode_resource_names (map Str ns) = ns" for ns by (simp add: encode_resource_names_def encode_name_def o_def)
  then show ?thesis by (auto simp: resource_source_def exact_if_def may_touch_any_def source_name_def)
qed

lemma effects_conflict_iff: "effects_conflict (encode_resource_effect e) (encode_resource_effect f) \<longleftrightarrow> infos_conflict e f"
  by (auto simp: effects_conflict_def encode_resource_effect_def resource_conflict_def declared_scope scopes_overlap_def infos_conflict_def)

lemma summarize_resource_declarations [simp]: "declarations (foldl (summarize_resource b) s rs) = declarations s"
  by (induction rs arbitrary: s) (simp_all add: summarize_resource_def)

lemma summarize_effect_declarations [simp]: "declarations (summarize_effect s e) = declarations s"
  by (simp add: summarize_effect_def Let_def)

lemma summarize_declarations: "declarations (summarize_effects es) = encode_resource_effects es"
proof -
  have "declarations (foldl summarize_effect s fs) = declarations s" for s fs
    by (induction fs arbitrary: s) simp_all
  then show ?thesis by (simp add: summarize_effects_def)
qed

lemma groups_iff:
  "resource_groups (declarations (summarize_effects ls)) (declarations (summarize_effects rs)) \<longleftrightarrow>
   (\<exists>e \<in> set ls. \<exists>f \<in> set rs. infos_conflict e f)"
  by (simp add: resource_groups_def summarize_declarations encode_resource_effects_def effects_conflict_iff)

lemma infos_conflict_commute: "infos_conflict e f \<longleftrightarrow> infos_conflict f e"
  by (auto simp: infos_conflict_def)

lemma conflicts_empty_iff:
  "effect_conflicts_between (summarize_effects ls) (summarize_effects rs) = [] \<longleftrightarrow>
   \<not> (\<exists>e \<in> set ls. \<exists>f \<in> set rs. infos_conflict e f)"
  by (simp add: effect_conflicts_between_def groups_iff Let_def)

definition touches :: "effect_info list \<Rightarrow> jstring \<Rightarrow> bool" where
  "touches es r \<longleftrightarrow> (\<exists>e \<in> set es. e_kind e \<noteq> NoEffect \<and> r \<in> set (e_resources e))"

definition touches_in_order :: "effect_info list \<Rightarrow> jstring \<Rightarrow> bool" where
  "touches_in_order es r \<longleftrightarrow> (\<exists>e \<in> set es. e_kind e \<noteq> NoEffect \<and> e_ordering e \<noteq> Commutative \<and> r \<in> set (e_resources e))"

lemma touches_simps [simp]:
  "\<not> touches [] r" "touches (e # es) r \<longleftrightarrow> (e_kind e \<noteq> NoEffect \<and> r \<in> set (e_resources e)) \<or> touches es r"
  "\<not> touches_in_order [] r"
  "touches_in_order (e # es) r \<longleftrightarrow> (e_kind e \<noteq> NoEffect \<and> e_ordering e \<noteq> Commutative \<and> r \<in> set (e_resources e)) \<or> touches_in_order es r"
  by (auto simp: touches_def touches_in_order_def)

abbreviation flag :: "bool option \<Rightarrow> bool" where "flag v \<equiv> v = Some True"

lemma resource_fold:
  "jm_get (resource_noncommutative (foldl (summarize_resource b) s rs)) r =
   (if r \<in> set rs \<and> r \<noteq> star then Some (flag (jm_get (resource_noncommutative s) r) \<or> b) else jm_get (resource_noncommutative s) r)"
proof (induction rs arbitrary: s)
  case Nil
  then show ?case by simp
next
  case (Cons q rs)
  show ?case
    by (simp add: Cons.IH) (auto simp: summarize_resource_def jm_get_set split: option.splits)
qed

lemma effect_fold:
  "jm_get (resource_noncommutative (foldl summarize_effect s es)) r =
   (if touches es r \<and> r \<noteq> star then Some (flag (jm_get (resource_noncommutative s) r) \<or> touches_in_order es r)
    else jm_get (resource_noncommutative s) r)"
proof (induction es arbitrary: s)
  case Nil
  then show ?case by simp
next
  case (Cons e es)
  have sub: "touches_in_order es r \<Longrightarrow> touches es r" by (auto simp: touches_def touches_in_order_def)
  show ?case
    using sub by (simp add: Cons.IH) (auto simp: summarize_effect_def Let_def resource_fold)
qed

lemma summary_get:
  "jm_get (resource_noncommutative (summarize_effects es)) r = (if touches es r \<and> r \<noteq> star then Some (touches_in_order es r) else None)"
  by (simp add: summarize_effects_def effect_fold)

lemma jm_get_keys: "set (jm_keys m) = {k. jm_get m k \<noteq> None}"
  using jm_get_None_iff [of m] by auto

lemma overlap_set:
  "set (overlap_of (summarize_effects ls) (summarize_effects rs)) =
   {r. r \<noteq> star \<and> touches ls r \<and> touches rs r \<and> (touches_in_order ls r \<or> touches_in_order rs r)}"
  by (auto simp: overlap_of_def known_conflict_def noncommutative_on_def jm_has_def summary_get jm_get_keys split: if_splits)

text \<open>Two components are reported independent exactly when no effect of one conflicts with an effect of the other by their
  declarations, in either order; and a shared-resource conflict lists, sorted, exactly the declared resources both sides touch with
  at least one of them not commutative.\<close>

theorem independence_is_declared:
  "(effect_conflicts_between (summarize_effects ls) (summarize_effects rs) = [] \<longleftrightarrow>
     \<not> list_ex (\<lambda>e. list_ex (infos_conflict e) rs) ls) \<and>
   (effect_conflicts_between (summarize_effects ls) (summarize_effects rs) = [] \<longleftrightarrow>
     effect_conflicts_between (summarize_effects rs) (summarize_effects ls) = []) \<and>
   (let ns = overlap_of (summarize_effects ls) (summarize_effects rs) in sorted ns \<and>
     set ns = {r. r \<noteq> star \<and> touches ls r \<and> touches rs r \<and> (touches_in_order ls r \<or> touches_in_order rs r)})"
proof (intro conjI)
  show "effect_conflicts_between (summarize_effects ls) (summarize_effects rs) = [] \<longleftrightarrow> \<not> list_ex (\<lambda>e. list_ex (infos_conflict e) rs) ls"
    by (simp add: conflicts_empty_iff list_ex_iff)
  show "effect_conflicts_between (summarize_effects ls) (summarize_effects rs) = [] \<longleftrightarrow>
     effect_conflicts_between (summarize_effects rs) (summarize_effects ls) = []"
    using infos_conflict_commute by (simp add: conflicts_empty_iff) blast
  show "let ns = overlap_of (summarize_effects ls) (summarize_effects rs) in sorted ns \<and>
     set ns = {r. r \<noteq> star \<and> touches ls r \<and> touches rs r \<and> (touches_in_order ls r \<or> touches_in_order rs r)}"
    unfolding Let_def overlap_set by (simp add: overlap_of_def)
qed

section \<open>The policy wrappers\<close>

definition summary_within :: "int \<Rightarrow> int \<Rightarrow> int \<Rightarrow> int \<Rightarrow> bool" where
  "summary_within bytes limit projected target \<longleftrightarrow> list_all id [bytes \<le> limit, projected \<le> target]"

definition sample_within :: "int \<Rightarrow> int \<Rightarrow> int \<Rightarrow> int \<Rightarrow> bool" where
  "sample_within tot kept omitted limit \<longleftrightarrow> list_all id [tot = kept + omitted, kept \<le> limit]"

definition accept_summary_bounds :: "int \<Rightarrow> int \<Rightarrow> int \<Rightarrow> int \<Rightarrow> bool" where
  "accept_summary_bounds bytes limit projected target \<longleftrightarrow>
     list_all is_natural [bytes, limit, projected, target] \<and> summary_within bytes limit projected target"

definition accept_sample_accounting :: "int \<Rightarrow> int \<Rightarrow> int \<Rightarrow> int \<Rightarrow> bool" where
  "accept_sample_accounting tot kept omitted limit \<longleftrightarrow>
     list_all is_arithmetic_natural [tot, kept, omitted, limit] \<and> kept + omitted \<le> BEND_NAT_MAX
     \<and> sample_within tot kept omitted limit"

record cut_span =
  cs_first :: int
  cs_last :: int
  cs_call :: bool
  cs_result :: bool

record cut_candidate =
  cc_eligible :: bool
  cc_after_previous :: bool
  cc_retained :: int
  cc_budget :: int
  cc_boundary :: int

text \<open>The kernel's span: first, last and whether call and result are paired.\<close>

definition span_safe :: "int \<Rightarrow> int \<times> int \<times> bool \<Rightarrow> bool" where
  "span_safe b sp = (case sp of (first, lst, paired) \<Rightarrow> \<not> paired \<or> b \<le> first \<or> lst < b)"

definition cut_accepted :: "cut_candidate \<Rightarrow> (int \<times> int \<times> bool) list \<Rightarrow> bool" where
  "cut_accepted c spans \<longleftrightarrow>
     list_all id [cc_eligible c, cc_after_previous c, cc_retained c \<le> cc_budget c, list_all (span_safe (cc_boundary c)) spans]"

fun cut_batches :: "cut_candidate \<Rightarrow> cut_span list \<Rightarrow> (int \<times> int \<times> bool) list \<Rightarrow> bool" where
  "cut_batches c [] batch = cut_accepted c batch"
| "cut_batches c (sp # spans) batch =
     (if \<not> is_natural (cs_first sp) \<or> \<not> is_natural (cs_last sp) \<or> cs_first sp > cs_last sp then False
      else (let batch = batch @ [(cs_first sp, cs_last sp, cs_call sp \<and> cs_result sp)] in
        if length batch = 128 then (if \<not> cut_accepted c batch then False else cut_batches c spans [])
        else cut_batches c spans batch))"

definition accept_compaction_cut :: "cut_candidate \<Rightarrow> cut_span list \<Rightarrow> bool" where
  "accept_compaction_cut c spans =
     (if \<not> list_all is_natural [cc_retained c, cc_budget c, cc_boundary c] then False
      else if \<not> cut_accepted c [] then False else cut_batches c spans [])"

text \<open>\<open>assertCertificateFacts\<close>: the first failing fact's message, of exactly eight.\<close>

definition assert_certificate_facts :: "(bool \<times> string) list \<Rightarrow> string + unit" where
  "assert_certificate_facts facts =
     (if length facts \<noteq> 8 then Inl ''Invalid Schema certificate evidence''
      else if \<not> list_all fst facts then
        (case find (\<lambda>f. \<not> fst f) facts of Some f \<Rightarrow> Inl (snd f) | None \<Rightarrow> Inl ''Schema certificate rejected'')
      else Inr ())"

definition cleanup_state :: "bool \<Rightarrow> bool \<Rightarrow> nat" where
  "cleanup_state failed partial = (if failed then 2 else if partial then 1 else 0)"

text \<open>What a cut must not do: separate a call from its result.\<close>

definition splits :: "int \<Rightarrow> cut_span \<Rightarrow> bool" where
  "splits b sp \<longleftrightarrow> cs_call sp \<and> cs_result sp \<and> cs_first sp < b \<and> b \<le> cs_last sp"

definition well_formed_span :: "cut_span \<Rightarrow> bool" where
  "well_formed_span sp \<longleftrightarrow> is_natural (cs_first sp) \<and> is_natural (cs_last sp) \<and> cs_first sp \<le> cs_last sp"

definition base_ok :: "cut_candidate \<Rightarrow> bool" where
  "base_ok c \<longleftrightarrow> cc_eligible c \<and> cc_after_previous c \<and> cc_retained c \<le> cc_budget c"

lemma cut_accepted_iff: "cut_accepted c spans \<longleftrightarrow> base_ok c \<and> list_all (span_safe (cc_boundary c)) spans"
  by (auto simp: cut_accepted_def base_ok_def)

lemma cut_batches_iff:
  "cut_batches c spans batch \<longleftrightarrow> base_ok c \<and> list_all (span_safe (cc_boundary c)) batch \<and>
     list_all (\<lambda>sp. well_formed_span sp \<and> \<not> splits (cc_boundary c) sp) spans"
proof (induction spans arbitrary: batch)
  case Nil
  then show ?case by (simp add: cut_accepted_iff)
next
  case (Cons sp spans)
  have "span_safe (cc_boundary c) (cs_first sp, cs_last sp, cs_call sp \<and> cs_result sp) \<longleftrightarrow> \<not> splits (cc_boundary c) sp"
    by (auto simp: span_safe_def splits_def)
  with Cons.IH show ?case by (auto simp: Let_def cut_accepted_iff well_formed_span_def)
qed

text \<open>Checking the spans in batches of 128 accepts a cut exactly when the candidate is eligible and within budget, every number
  is a natural one and no span whose call and result are paired has the boundary inside it.\<close>

theorem cut_check_exact:
  "accept_compaction_cut c spans \<longleftrightarrow>
   list_all is_natural [cc_retained c, cc_budget c, cc_boundary c] \<and>
   cc_eligible c \<and> cc_after_previous c \<and> cc_retained c \<le> cc_budget c \<and>
   list_all (\<lambda>sp. well_formed_span sp \<and> \<not> splits (cc_boundary c) sp) spans"
  by (auto simp: accept_compaction_cut_def cut_batches_iff cut_accepted_iff base_ok_def)

text \<open>A certificate is accepted only when all eight facts hold.\<close>

lemma certificate_complete: "assert_certificate_facts facts = Inr () \<longleftrightarrow> length facts = 8 \<and> list_all fst facts"
  by (auto simp: assert_certificate_facts_def split: option.split)

section \<open>Memory pages\<close>

record text_range =
  tr_start :: int
  tr_end :: int
  tr_total :: int
  tr_complete :: bool

definition chunk_accepted :: "text_range \<Rightarrow> int \<Rightarrow> int \<Rightarrow> int \<Rightarrow> bool" where
  "chunk_accepted r len start tot \<longleftrightarrow>
     list_all id [tr_start r = start, tr_total r = tot, tr_start r \<le> tr_end r, tr_end r \<le> tr_total r,
       len = (if tr_end r < tr_start r then 0 else tr_end r - tr_start r),
       \<not> (tr_complete r \<noteq> (tr_end r = tr_total r)), tr_complete r \<or> tr_start r < tr_end r]"

definition accept_memory_chunk :: "text_range \<Rightarrow> int \<Rightarrow> int \<Rightarrow> int \<Rightarrow> bool" where
  "accept_memory_chunk r len start tot \<longleftrightarrow>
     list_all is_arithmetic_natural [tr_start r, tr_end r, tr_total r, len, start, tot] \<and> tr_start r + len \<le> BEND_NAT_MAX
     \<and> chunk_accepted r len start tot"

record page_record =
  pr_index :: int
  pr_text :: "jstring option"
  pr_range :: "text_range option"

definition slice :: "int \<Rightarrow> int \<Rightarrow> 'a list \<Rightarrow> 'a list" where
  "slice a b xs = take (nat b - nat a) (drop (nat a) xs)"

definition record_fits :: "page_record \<Rightarrow> int \<times> jstring \<Rightarrow> int \<Rightarrow> text_range option" where
  "record_fits r entry offset = (case (pr_text r, pr_range r) of
       (Some text, Some rg) \<Rightarrow>
         if pr_index r = fst entry \<and> accept_memory_chunk rg (int (length text)) offset (int (length (snd entry)))
           \<and> text = slice (tr_start rg) (tr_end rg) (snd entry) then Some rg else None
     | _ \<Rightarrow> None)"

fun page_walk :: "(int \<times> jstring) list \<Rightarrow> page_record list \<Rightarrow> nat \<Rightarrow> int \<Rightarrow> (nat \<times> int) option" where
  "page_walk source [] position offset = Some (position, offset)"
| "page_walk source (r # rs) position offset =
     (if position < length source then
        (case record_fits r (source ! position) offset of
           None \<Rightarrow> None
         | Some rg \<Rightarrow> if tr_complete rg then page_walk source rs (position + 1) 0
             else page_walk source rs position (tr_end rg))
      else None)"

definition accepts_expansion_page ::
  "page_record list \<Rightarrow> (int \<times> jstring) list \<Rightarrow> int \<Rightarrow> int \<Rightarrow> int \<times> int \<Rightarrow> bool" where
  "accepts_expansion_page records source entry_offset text_offset cursor =
     (if \<not> list_all is_natural [entry_offset, text_offset, fst cursor, snd cursor] then False
      else (case page_walk source records (nat entry_offset) text_offset of
          None \<Rightarrow> False
        | Some (position, offset) \<Rightarrow> int position = fst cursor \<and> offset = snd cursor \<and> (records \<noteq> [] \<or> position = length source)))"

text \<open>What is still to be sent at a cursor.\<close>

definition still_to_send :: "(int \<times> jstring) list \<Rightarrow> nat \<Rightarrow> int \<Rightarrow> jstring" where
  "still_to_send source position offset =
     (if position < length source then drop (nat offset) (snd (source ! position)) @ concat (map snd (drop (position + 1) source)) else [])"

lemma still_to_send_next:
  "position < length source \<Longrightarrow> concat (map snd (drop (position + 1) source)) = still_to_send source (position + 1) 0"
  by (cases "position + 1 < length source") (simp_all add: still_to_send_def Cons_nth_drop_Suc [symmetric])

lemma record_fits_text:
  assumes "record_fits r entry offset = Some rg"
  shows "tr_start rg = offset \<and> 0 \<le> offset \<and> offset \<le> tr_end rg \<and> tr_end rg \<le> int (length (snd entry)) \<and>
    pr_text r = Some (slice offset (tr_end rg) (snd entry)) \<and> (tr_complete rg \<longleftrightarrow> tr_end rg = int (length (snd entry)))"
  using assms
  by (auto simp: record_fits_def accept_memory_chunk_def chunk_accepted_def is_arithmetic_natural_def is_natural_def split: option.splits if_splits)

lemma slice_drop: "0 \<le> a \<Longrightarrow> a \<le> b \<Longrightarrow> drop (nat a) xs = slice a b xs @ drop (nat b) xs"
  by (simp add: slice_def) (metis append_take_drop_id drop_drop le_add_diff_inverse2 nat_mono)

lemma page_walk_sends:
  "page_walk source rs position offset = Some (p, d) \<Longrightarrow> 0 \<le> offset \<Longrightarrow>
   still_to_send source position offset = concat (map (\<lambda>r. the (pr_text r)) rs) @ still_to_send source p d"
proof (induction source rs position offset rule: page_walk.induct)
  case (1 source position offset)
  then show ?case by simp
next
  case (2 source r rs position offset)
  from 2(3) have pos: "position < length source" by (simp split: if_splits)
  from 2(3) pos obtain rg where fit: "record_fits r (source ! position) offset = Some rg" by (auto split: option.splits)
  note f = record_fits_text [OF fit]
  let ?e = "snd (source ! position)"
  have here: "still_to_send source position offset = the (pr_text r) @ drop (nat (tr_end rg)) ?e @ concat (map snd (drop (position + 1) source))"
    using pos f slice_drop [of offset "tr_end rg" ?e] by (simp add: still_to_send_def)
  show ?case
  proof (cases "tr_complete rg")
    case True
    with 2(3) pos fit have "page_walk source rs (position + 1) 0 = Some (p, d)" by simp
    with 2(1) [OF pos fit True] have "still_to_send source (position + 1) 0 = concat (map (\<lambda>r. the (pr_text r)) rs) @ still_to_send source p d"
      by simp
    moreover have "drop (nat (tr_end rg)) ?e = []" using f True by simp
    ultimately show ?thesis using here still_to_send_next [OF pos] by simp
  next
    case False
    with 2(3) pos fit have "page_walk source rs position (tr_end rg) = Some (p, d)" by simp
    with 2(2) [OF pos fit False] f have "still_to_send source position (tr_end rg) = concat (map (\<lambda>r. the (pr_text r)) rs) @ still_to_send source p d"
      by simp
    then show ?thesis using here pos by (simp add: still_to_send_def)
  qed
qed

text \<open>An accepted expansion page loses and repeats nothing: what was to be sent from its start is the page's texts in order
  followed by what is to be sent from its cursor; a page without records is accepted only at the end of the source.\<close>

theorem expansion_page_exact:
  assumes "accepts_expansion_page records source e t cursor"
  shows "still_to_send source (nat e) t = concat (map (\<lambda>r. the (pr_text r)) records) @ still_to_send source (nat (fst cursor)) (snd cursor)
    \<and> (records \<noteq> [] \<or> still_to_send source (nat e) t = [])"
proof -
  from assms obtain p d where w: "page_walk source records (nat e) t = Some (p, d)" "int p = fst cursor" "d = snd cursor"
    and t: "0 \<le> t" and r: "records \<noteq> [] \<or> p = length source"
    by (auto simp: accepts_expansion_page_def is_natural_def split: option.splits if_splits)
  from w(2) have "p = nat (fst cursor)" by simp
  with page_walk_sends [OF w(1) t] w(3)
  have s: "still_to_send source (nat e) t = concat (map (\<lambda>r. the (pr_text r)) records) @ still_to_send source (nat (fst cursor)) (snd cursor)" by simp
  moreover have "still_to_send source (nat e) t = []" if "records = []"
    using that r w by (simp add: still_to_send_def)
  ultimately show ?thesis by blast
qed

definition example_source :: "(int \<times> jstring) list" where
  "example_source = [(7, [1, 2, 3]), (9, [4])]"

definition example_page :: "page_record list" where
  "example_page =
     [\<lparr>pr_index = 7, pr_text = Some [2, 3], pr_range = Some \<lparr>tr_start = 1, tr_end = 3, tr_total = 3, tr_complete = True\<rparr>\<rparr>,
      \<lparr>pr_index = 9, pr_text = Some [4], pr_range = Some \<lparr>tr_start = 0, tr_end = 1, tr_total = 1, tr_complete = True\<rparr>\<rparr>]"

theorem expansion_page_exact_witness:
  "still_to_send example_source (nat 0) 1 = concat (map (\<lambda>r. the (pr_text r)) example_page) @ still_to_send example_source (nat 2) 0"
proof -
  have "accepts_expansion_page example_page example_source 0 1 (2, 0)" by code_simp
  from expansion_page_exact [OF this] show ?thesis by simp
qed

end
