(* ===== verification/Compaction.thy ===== *)
theory Compaction imports Kernel begin

text \<open>
  Bounded texts and samples of a compaction summary (\<^verbatim>\<open>src/src/compaction/bounds.ts\<close>), the token heuristics
  (\<^verbatim>\<open>src/src/core/token-math.ts\<close>), the automatic trigger (\<^verbatim>\<open>src/src/compaction/threshold.ts\<close>) and the pressure band
  (\<^verbatim>\<open>src/src/compaction/pressure.ts\<close>). A text is the list of its code points, as \<open>for \<dots> of\<close> walks it; a lone surrogate is one
  code point and encodes in three bytes, as \<open>TextEncoder\<close> does. Fractions are rationals.
\<close>

section \<open>Bounded texts\<close>

type_synonym points = "nat list"

definition code_point_bytes :: "nat \<Rightarrow> nat" where
  "code_point_bytes c = (if c < 0x80 then 1 else if c < 0x800 then 2 else if c < 0x10000 then 3 else 4)"

definition utf8_bytes :: "points \<Rightarrow> nat" where
  "utf8_bytes t = sum_list (map code_point_bytes t)"

definition ellipsis :: points where "ellipsis = [0x2026]"

fun clip_loop :: "points \<Rightarrow> nat \<Rightarrow> nat \<Rightarrow> points" where
  "clip_loop [] used available = []"
| "clip_loop (c # cs) used available =
     (if used + code_point_bytes c > available then [] else c # clip_loop cs (used + code_point_bytes c) available)"

definition clip_utf8 :: "points \<Rightarrow> nat \<Rightarrow> points \<Rightarrow> points" where
  "clip_utf8 t max_bytes suffix =
     (if max_bytes = 0 then []
      else if utf8_bytes t \<le> max_bytes then t
      else if utf8_bytes suffix \<ge> max_bytes then []
      else clip_loop t 0 (max_bytes - utf8_bytes suffix) @ suffix)"

text \<open>Decimal digits as \<open>String(n)\<close> prints them.\<close>

fun decimal :: "nat \<Rightarrow> points" where
  "decimal n = (if n < 10 then [48 + n] else decimal (n div 10) @ [48 + n mod 10])"

declare decimal.simps [simp del]

definition omitted_note :: "nat \<Rightarrow> points" where
  "omitted_note n = 10 # map of_char ''[omitted '' @ decimal n @ map of_char '' UTF-8 bytes]''"

definition bounded_excerpt :: "points \<Rightarrow> nat \<Rightarrow> points \<times> nat" where
  "bounded_excerpt t max_bytes =
     (if utf8_bytes t \<le> max_bytes then (t, 0)
      else (let prefix = clip_utf8 t (max_bytes - 64) []; omitted = utf8_bytes t - utf8_bytes prefix in
        (clip_utf8 (prefix @ omitted_note omitted) max_bytes [], omitted)))"

text \<open>The white space of \<open>trim\<close> and of \<open>\s\<close>.\<close>

definition is_space :: "nat \<Rightarrow> bool" where
  "is_space c \<longleftrightarrow> (9 \<le> c \<and> c \<le> 13) \<or> c = 32 \<or> c = 160 \<or> c = 0x1680 \<or> (0x2000 \<le> c \<and> c \<le> 0x200A) \<or> c = 0x2028 \<or> c = 0x2029
     \<or> c = 0x202F \<or> c = 0x205F \<or> c = 0x3000 \<or> c = 0xFEFF"

text \<open>The non-empty runs between white space.\<close>

fun words_from :: "points \<Rightarrow> points \<Rightarrow> points list" where
  "words_from [] acc = (if acc = [] then [] else [acc])"
| "words_from (c # cs) acc =
     (if is_space c then (if acc = [] then words_from cs [] else acc # words_from cs []) else words_from cs (acc @ [c]))"

fun join_spaces :: "points list \<Rightarrow> points" where
  "join_spaces [] = []"
| "join_spaces [w] = w"
| "join_spaces (w # v # ws) = w @ [32] @ join_spaces (v # ws)"

record canonical_text =
  ct_text :: points
  ct_truncated :: bool
  ct_source_bytes :: nat

definition canonicalize_text :: "points \<Rightarrow> nat \<Rightarrow> canonical_text" where
  "canonicalize_text input max_bytes =
     (let c = join_spaces (words_from input []) in
      \<lparr>ct_text = clip_utf8 c max_bytes ellipsis, ct_truncated = (utf8_bytes c > max_bytes), ct_source_bytes = utf8_bytes c\<rparr>)"

lemma utf8_bytes_simps [simp]:
  "utf8_bytes [] = 0" "utf8_bytes (c # t) = code_point_bytes c + utf8_bytes t" "utf8_bytes (s @ t) = utf8_bytes s + utf8_bytes t"
  by (simp_all add: utf8_bytes_def)

lemma code_point_bytes_bounds: "1 \<le> code_point_bytes c" "code_point_bytes c \<le> 4"
  by (simp_all add: code_point_bytes_def)

lemma clip_loop_spec:
  "used \<le> available \<Longrightarrow> \<exists>k. clip_loop t used available = take k t \<and> k \<le> length t \<and> used + utf8_bytes (take k t) \<le> available \<and>
     (k < length t \<longrightarrow> used + utf8_bytes (take (Suc k) t) > available)"
proof (induction t arbitrary: used)
  case Nil
  then show ?case by simp
next
  case (Cons c t)
  show ?case
  proof (cases "used + code_point_bytes c > available")
    case True
    with Cons.prems show ?thesis by (intro exI [of _ 0]) simp
  next
    case False
    with Cons.IH [of "used + code_point_bytes c"] obtain k where
      "clip_loop t (used + code_point_bytes c) available = take k t" "k \<le> length t"
      "used + code_point_bytes c + utf8_bytes (take k t) \<le> available"
      "k < length t \<longrightarrow> used + code_point_bytes c + utf8_bytes (take (Suc k) t) > available" by auto
    with False show ?thesis by (intro exI [of _ "Suc k"]) (simp add: add.assoc)
  qed
qed

lemma clip_le: "utf8_bytes (clip_utf8 t m s) \<le> m"
proof -
  obtain k where "clip_loop t 0 (m - utf8_bytes s) = take k t" "utf8_bytes (take k t) \<le> m - utf8_bytes s"
    using clip_loop_spec [of 0 "m - utf8_bytes s" t] by auto
  then show ?thesis by (auto simp: clip_utf8_def)
qed

text \<open>A clipped text fits its budget; a text that fits is kept whole; any other is the longest prefix that leaves room for the
  suffix, followed by it.\<close>

lemma clip_spec:
  shows "utf8_bytes (clip_utf8 t m s) \<le> m"
    and "utf8_bytes t \<le> m \<Longrightarrow> 0 < m \<Longrightarrow> clip_utf8 t m s = t"
    and "utf8_bytes s < m \<Longrightarrow> m < utf8_bytes t \<Longrightarrow>
      \<exists>k. clip_utf8 t m s = take k t @ s \<and> (k < length t \<longrightarrow> utf8_bytes (take (Suc k) t) + utf8_bytes s > m)"
proof -
  show "utf8_bytes (clip_utf8 t m s) \<le> m" by (rule clip_le)
  show "utf8_bytes t \<le> m \<Longrightarrow> 0 < m \<Longrightarrow> clip_utf8 t m s = t" by (simp add: clip_utf8_def)
  assume a: "utf8_bytes s < m" "m < utf8_bytes t"
  obtain k where k: "clip_loop t 0 (m - utf8_bytes s) = take k t" "k < length t \<longrightarrow> utf8_bytes (take (Suc k) t) > m - utf8_bytes s"
    using clip_loop_spec [of 0 "m - utf8_bytes s" t] by auto
  with a show "\<exists>k. clip_utf8 t m s = take k t @ s \<and> (k < length t \<longrightarrow> utf8_bytes (take (Suc k) t) + utf8_bytes s > m)"
    by (intro exI [of _ k]) (auto simp: clip_utf8_def)
qed

lemma excerpt_le: "utf8_bytes (fst (bounded_excerpt t m)) \<le> m"
  using clip_le by (auto simp: bounded_excerpt_def Let_def)

text \<open>Canonical text is stable: splitting it again gives the same words.\<close>

lemma words_from_acc:
  "list_all (\<lambda>c. \<not> is_space c) w \<Longrightarrow> words_from (w @ t) acc = words_from t (acc @ w)"
  by (induction w arbitrary: acc) simp_all

definition is_word :: "points \<Rightarrow> bool" where
  "is_word w \<longleftrightarrow> w \<noteq> [] \<and> list_all (\<lambda>c. \<not> is_space c) w"

lemma words_are_words: "list_all (\<lambda>c. \<not> is_space c) acc \<Longrightarrow> list_all is_word (words_from t acc)"
  by (induction t acc rule: words_from.induct) (auto simp: is_word_def)

lemma words_of_join: "list_all is_word ws \<Longrightarrow> words_from (join_spaces ws) [] = ws"
proof (induction ws rule: join_spaces.induct)
  case 1
  then show ?case by simp
next
  case (2 w)
  then show ?case using words_from_acc [of w "[]" "[]"] by (simp add: is_word_def)
next
  case (3 w v ws)
  then have "words_from (w @ 32 # join_spaces (v # ws)) [] = words_from (32 # join_spaces (v # ws)) w"
    using words_from_acc [of w "32 # join_spaces (v # ws)" "[]"] by (simp add: is_word_def)
  with 3 show ?case by (simp add: is_word_def is_space_def)
qed

lemma canonical_stable:
  "join_spaces (words_from (join_spaces (words_from t [])) []) = join_spaces (words_from t [])"
  using words_of_join [of "words_from t []"] words_are_words [of "[]" t] by simp

section \<open>Addressed samples\<close>

text \<open>Values are pairs of an entry id and a payload.\<close>

record 'a sampling =
  sm_earliest :: "(string \<times> 'a) list"
  sm_latest :: "(string \<times> 'a) list"
  sm_omitted :: nat
  sm_total :: nat
  sm_first :: "string option"
  sm_last :: "string option"

record 'a sample =
  sa_values :: "(string \<times> 'a) list"
  sa_omitted :: nat
  sa_first :: "string option"
  sa_last :: "string option"
  sa_split :: nat

definition sample_step :: "nat \<Rightarrow> nat \<Rightarrow> 'a sampling \<Rightarrow> string \<times> 'a \<Rightarrow> 'a sampling" where
  "sample_step e l s v =
     (let s = s\<lparr>sm_total := sm_total s + 1\<rparr> in
      if length (sm_earliest s) < e then s\<lparr>sm_earliest := sm_earliest s @ [v]\<rparr>
      else (let latest = sm_latest s @ [v] in
        if length latest \<le> l then s\<lparr>sm_latest := latest\<rparr>
        else s\<lparr>sm_latest := tl latest, sm_omitted := sm_omitted s + 1,
               sm_first := (case sm_first s of None \<Rightarrow> Some (fst (hd latest)) | Some i \<Rightarrow> Some i),
               sm_last := Some (fst (hd latest))\<rparr>))"

definition sample_addressed_from :: "(string \<times> 'a) list \<Rightarrow> nat \<Rightarrow> string + 'a sample" where
  "sample_addressed_from source max_values =
     (let s = foldl (sample_step ((max_values + 1) div 2) (max_values div 2))
            \<lparr>sm_earliest = [], sm_latest = [], sm_omitted = 0, sm_total = 0, sm_first = None, sm_last = None\<rparr> source
      in if \<not> accept_sample_accounting (int (sm_total s)) (int (length (sm_earliest s) + length (sm_latest s))) (int (sm_omitted s)) (int max_values)
         then Inl ''Addressed sample failed conservation/bound verification''
         else Inr \<lparr>sa_values = sm_earliest s @ sm_latest s, sa_omitted = sm_omitted s, sa_first = sm_first s, sa_last = sm_last s,
                   sa_split = length (sm_earliest s)\<rparr>)"

definition sampled :: "nat \<Rightarrow> nat \<Rightarrow> (string \<times> 'a) list \<Rightarrow> 'a sampling \<Rightarrow> bool" where
  "sampled e l src s \<longleftrightarrow> (let rest = drop e src; k = length rest - l in
     sm_earliest s = take e src \<and> sm_latest s = drop k rest \<and> sm_omitted s = k \<and> sm_total s = length src
     \<and> sm_first s = (if k = 0 then None else Some (fst (rest ! 0))) \<and> sm_last s = (if k = 0 then None else Some (fst (rest ! (k - 1)))))"

lemma sampled_step:
  assumes "sampled e l src s"
  shows "sampled e l (src @ [v]) (sample_step e l s v)"
proof (cases "length src < e")
  case True
  with assms show ?thesis by (simp add: sampled_def sample_step_def Let_def)
next
  case False
  let ?rest = "drop e src" and ?k = "length (drop e src) - l"
  have d: "drop e (src @ [v]) = ?rest @ [v]" "take e (src @ [v]) = take e src" "length (sm_earliest s) = e"
    using False assms by (simp_all add: sampled_def Let_def)
  have lat: "sm_latest s @ [v] = drop ?k (?rest @ [v])" using assms by (simp add: sampled_def Let_def)
  show ?thesis
  proof (cases "length (sm_latest s @ [v]) \<le> l")
    case True
    then have "length ?rest < l" unfolding lat by auto
    with assms d True lat show ?thesis by (simp add: sampled_def sample_step_def Let_def)
  next
    case False
    then have k: "Suc (length ?rest) - l = Suc ?k" unfolding lat by auto
    then have "?k < length (?rest @ [v])" by simp
    then have cons: "drop ?k (?rest @ [v]) = (?rest @ [v]) ! ?k # drop (Suc ?k) (?rest @ [v])" by (rule Cons_nth_drop_Suc [symmetric])
    have "sm_first s = (if ?k = 0 then None else Some (fst (?rest ! 0)))" using assms unfolding sampled_def Let_def by blast
    moreover have "?k = 0 \<or> (?rest @ [v]) ! 0 = ?rest ! 0" by (cases ?rest) simp_all
    ultimately have first: "(case sm_first s of None \<Rightarrow> Some (fst ((?rest @ [v]) ! ?k)) | Some i \<Rightarrow> Some i) = Some (fst ((?rest @ [v]) ! 0))" by auto
    have "sample_step e l s v = s\<lparr>sm_total := sm_total s + 1, sm_latest := tl (sm_latest s @ [v]), sm_omitted := sm_omitted s + 1,
        sm_first := (case sm_first s of None \<Rightarrow> Some (fst (hd (sm_latest s @ [v]))) | Some i \<Rightarrow> Some i),
        sm_last := Some (fst (hd (sm_latest s @ [v])))\<rparr>"
      using False d(3) by (simp add: sample_step_def Let_def)
    then have step: "sample_step e l s v = s\<lparr>sm_total := sm_total s + 1, sm_latest := drop (Suc ?k) (?rest @ [v]), sm_omitted := sm_omitted s + 1,
        sm_first := Some (fst ((?rest @ [v]) ! 0)), sm_last := Some (fst ((?rest @ [v]) ! ?k))\<rparr>"
      unfolding lat cons list.sel first .
    have len: "length (?rest @ [v]) - l = Suc ?k" using k by simp
    show ?thesis
      unfolding sampled_def Let_def d(1,2) len step using assms by (simp add: sampled_def Let_def)
  qed
qed

lemma sampled_fold:
  "sampled e l src s \<Longrightarrow> sampled e l (src @ vs) (foldl (sample_step e l) s vs)"
proof (induction vs arbitrary: src s)
  case Nil
  then show ?case by simp
next
  case (Cons v vs)
  from Cons.IH [OF sampled_step [OF Cons.prems, of v]] show ?case by simp
qed

lemma sampled_empty: "sampled e l [] \<lparr>sm_earliest = [], sm_latest = [], sm_omitted = 0, sm_total = 0, sm_first = None, sm_last = None\<rparr>"
  by (simp add: sampled_def Let_def)

text \<open>Sampling keeps the earliest half and the latest half of the source in order, at most the limit, counts exactly what lies
  between and names its first and last entry; the kernel's accounting check never rejects it for sources below \<open>2^48\<close>.\<close>

theorem sample_conserves:
  assumes "int (length src) \<le> BEND_NAT_MAX" and "int n \<le> BEND_NAT_MAX"
  shows "\<exists>s k. sample_addressed_from src n = Inr s \<and> k = length src - n \<and> sa_omitted s = k \<and> sa_split s = min (length src) ((n + 1) div 2) \<and>
    src = take (sa_split s) (sa_values s) @ take k (drop (sa_split s) src) @ drop (sa_split s) (sa_values s) \<and> length (sa_values s) \<le> n \<and>
    (sa_first s = (if k = 0 then None else Some (fst (src ! sa_split s)))) \<and>
    (sa_last s = (if k = 0 then None else Some (fst (src ! (sa_split s + k - 1)))))"
proof -
  define e l where "e = (n + 1) div 2" and "l = n div 2"
  have el: "e + l = n" by (simp add: e_def l_def)
  have he: "Suc n div 2 = e" by (simp add: e_def)
  define s where "s = foldl (sample_step e l) \<lparr>sm_earliest = [], sm_latest = [], sm_omitted = 0, sm_total = 0, sm_first = None, sm_last = None\<rparr> src"
  have s: "sampled e l src s" using sampled_fold [OF sampled_empty, of e l src] by (simp add: s_def)
  define rest k where "rest = drop e src" and "k = length rest - l"
  have f: "sm_earliest s = take e src" "sm_latest s = drop k rest" "sm_omitted s = k" "sm_total s = length src"
    "sm_first s = (if k = 0 then None else Some (fst (rest ! 0)))" "sm_last s = (if k = 0 then None else Some (fst (rest ! (k - 1))))"
    using s unfolding sampled_def Let_def rest_def k_def by blast+
  have len: "length (take e src) + length (drop k rest) + k = length src" "length (take e src) + length (drop k rest) \<le> n" "k = length src - n"
    using el by (auto simp: rest_def k_def)
  have "accept_sample_accounting (int (length src)) (int (length (take e src) + length (drop k rest))) (int k) (int n)"
    using len assms unfolding accept_sample_accounting_def sample_within_def is_arithmetic_natural_def is_natural_def BEND_NAT_MAX_def MAX_SAFE_def
    by (simp del: length_take length_drop)
  then have r: "sample_addressed_from src n = Inr \<lparr>sa_values = take e src @ drop k rest, sa_omitted = k,
      sa_first = (if k = 0 then None else Some (fst (rest ! 0))), sa_last = (if k = 0 then None else Some (fst (rest ! (k - 1)))),
      sa_split = length (take e src)\<rparr>"
    unfolding sample_addressed_from_def Let_def e_def [symmetric] l_def [symmetric] s_def [symmetric] f
    by (simp only: if_False not_True_eq_False simp_thms)
  have pos: "e < length src" if "k \<noteq> 0" using that by (simp add: k_def rest_def)
  have ids: "k = 0 \<or> (rest ! 0 = src ! min (length src) e \<and> rest ! (k - 1) = src ! (min (length src) e + k - 1))"
    using pos by (auto simp: rest_def min_absorb2 less_imp_le)
  have "src = take e src @ take k rest @ drop k rest" unfolding append_take_drop_id rest_def by simp
  moreover have "drop (min (length src) e) src = rest" by (cases "e \<le> length src") (simp_all add: rest_def min_def)
  ultimately show ?thesis using len ids by (intro exI [of _ "\<lparr>sa_values = take e src @ drop k rest, sa_omitted = k,
      sa_first = (if k = 0 then None else Some (fst (rest ! 0))), sa_last = (if k = 0 then None else Some (fst (rest ! (k - 1)))),
      sa_split = length (take e src)\<rparr>"] exI [of _ k]) (auto simp: r he)
qed

theorem sample_conserves_witness:
  "\<exists>s. sample_addressed_from [(''a'', 1::nat), (''b'', 2), (''c'', 3), (''d'', 4)] 3 = Inr s \<and> sa_omitted s = 1 \<and> length (sa_values s) \<le> 3"
  using sample_conserves [of "[(''a'', 1::nat), (''b'', 2), (''c'', 3), (''d'', 4)]" 3] by (auto simp: BEND_NAT_MAX_def)

section \<open>Token heuristics\<close>

record part =
  pt_type :: string
  pt_text :: "string option"
  pt_thinking :: "string option"
  pt_name :: "string option"
  pt_arguments :: "json option"

datatype content = Text string | Parts "part list" | Missing

record message =
  ms_role :: string
  ms_content :: content
  ms_command :: "string option"
  ms_output :: "string option"
  ms_summary :: "string option"

definition ESTIMATED_IMAGE_CHARS :: nat where "ESTIMATED_IMAGE_CHARS = 4800"

definition content_parts :: "content \<Rightarrow> part list" where
  "content_parts c = (case c of Parts ps \<Rightarrow> ps | _ \<Rightarrow> [])"

definition text_length :: "string option \<Rightarrow> nat" where
  "text_length v = (case v of Some s \<Rightarrow> length s | None \<Rightarrow> 0)"

definition text_and_image_chars :: "content \<Rightarrow> nat" where
  "text_and_image_chars c = (case c of Text s \<Rightarrow> length s
     | _ \<Rightarrow> sum_list (map (\<lambda>b. if pt_type b = ''text'' then text_length (pt_text b)
         else if pt_type b = ''image'' then ESTIMATED_IMAGE_CHARS else 0) (content_parts c)))"

definition quarter :: "nat \<Rightarrow> nat" where
  "quarter chars = (chars + 3) div 4"

text \<open>\<open>stringify\<close> is the length of \<open>JSON.stringify\<close>; a tool call without arguments throws, which is \<open>None\<close>.\<close>

definition assistant_part_chars :: "(json \<Rightarrow> nat) \<Rightarrow> part \<Rightarrow> nat option" where
  "assistant_part_chars stringify b =
     (if pt_type b = ''text'' then Some (text_length (pt_text b))
      else if pt_type b = ''thinking'' then Some (text_length (pt_thinking b))
      else if pt_type b = ''toolCall'' then map_option (\<lambda>a. text_length (pt_name b) + stringify a) (pt_arguments b)
      else Some 0)"

fun sum_chars :: "(part \<Rightarrow> nat option) \<Rightarrow> part list \<Rightarrow> nat option" where
  "sum_chars f [] = Some 0"
| "sum_chars f (p # ps) = (case f p of None \<Rightarrow> None | Some n \<Rightarrow> map_option ((+) n) (sum_chars f ps))"

definition estimate_tokens :: "(json \<Rightarrow> nat) \<Rightarrow> message \<Rightarrow> nat option" where
  "estimate_tokens stringify m =
     (if ms_role m = ''user'' then Some (quarter (text_and_image_chars (ms_content m)))
      else if ms_role m = ''assistant'' then map_option quarter (sum_chars (assistant_part_chars stringify) (content_parts (ms_content m)))
      else if ms_role m \<in> set [''custom'', ''toolResult''] then Some (quarter (text_and_image_chars (ms_content m)))
      else if ms_role m = ''bashExecution'' then Some (quarter (text_length (ms_command m) + text_length (ms_output m)))
      else if ms_role m \<in> set [''branchSummary'', ''compactionSummary''] then Some (quarter (text_length (ms_summary m)))
      else Some 0)"

definition token_count :: "json option \<Rightarrow> rat" where
  "token_count v = (case v of Some (JNum q) \<Rightarrow> q | _ \<Rightarrow> 0)"

definition calculate_context_tokens :: "json \<Rightarrow> rat" where
  "calculate_context_tokens usage =
     (case jfield usage ''totalTokens'' of
        Some (JNum q) \<Rightarrow> if q > 0 then q
          else token_count (jfield usage ''input'') + token_count (jfield usage ''output'') + token_count (jfield usage ''cacheRead'') + token_count (jfield usage ''cacheWrite'')
      | _ \<Rightarrow> token_count (jfield usage ''input'') + token_count (jfield usage ''output'') + token_count (jfield usage ''cacheRead'') + token_count (jfield usage ''cacheWrite''))"

lemma quarter_bounds: "chars \<le> 4 * quarter chars" "4 * quarter chars \<le> chars + 3"
  unfolding quarter_def by presburger+

lemma sum_chars_total: "list_all (\<lambda>p. f p \<noteq> None) ps \<Longrightarrow> sum_chars f ps \<noteq> None"
  by (induction ps) auto

text \<open>Only a tool call without arguments makes the estimate throw.\<close>

lemma estimate_total:
  assumes "list_all (\<lambda>p. pt_type p = ''toolCall'' \<longrightarrow> pt_arguments p \<noteq> None) (content_parts (ms_content m))"
  shows "estimate_tokens stringify m \<noteq> None"
proof -
  have "list_all (\<lambda>p. assistant_part_chars stringify p \<noteq> None) (content_parts (ms_content m))"
    using assms by (auto simp: list_all_iff assistant_part_chars_def)
  from sum_chars_total [OF this] show ?thesis by (simp add: estimate_tokens_def)
qed

section \<open>The automatic trigger and the pressure band\<close>

text \<open>Numbers are finite rationals; \<open>None\<close> is null or undefined.\<close>

record usage =
  us_tokens :: "rat option"
  us_window :: rat
  us_percent :: "rat option"

record model_view =
  mv_provider :: string
  mv_id :: string
  mv_window :: "rat option"

record compaction_config =
  cf_reserve :: rat
  cf_thresholds :: "string \<Rightarrow> rat option"
  cf_token_thresholds :: "string \<Rightarrow> rat option"
  cf_warn :: rat
  cf_urgent :: rat

definition model_compaction_key :: "model_view option \<Rightarrow> string option" where
  "model_compaction_key m = map_option (\<lambda>m. mv_provider m @ ''/'' @ mv_id m) m"

definition configured :: "(string \<Rightarrow> rat option) \<Rightarrow> string option \<Rightarrow> rat option" where
  "configured f k = (case k of None \<Rightarrow> None | Some k \<Rightarrow> f k)"

definition output_reserve_breached :: "rat option \<Rightarrow> rat \<Rightarrow> rat \<Rightarrow> bool" where
  "output_reserve_breached tokens window reserve \<longleftrightarrow>
     reserve > 0 \<and> (case tokens of None \<Rightarrow> False | Some t \<Rightarrow> window > 0 \<and> window - t < reserve)"

datatype trigger = Headroom | Tokens | Ratio

definition auto_compaction_trigger :: "model_view option \<Rightarrow> usage option \<Rightarrow> compaction_config \<Rightarrow> trigger option" where
  "auto_compaction_trigger model usage cf =
     (let key = model_compaction_key model in
      case usage of None \<Rightarrow> None | Some u \<Rightarrow>
        if output_reserve_breached (us_tokens u) (us_window u) (cf_reserve cf) then Some Headroom
        else (case configured (cf_token_thresholds cf) key of
            Some limit \<Rightarrow> (case us_tokens u of None \<Rightarrow> None | Some t \<Rightarrow> if t \<ge> limit then Some Tokens else None)
          | None \<Rightarrow> (case (configured (cf_thresholds cf) key, us_percent u) of
              (Some th, Some p) \<Rightarrow> if p / 100 \<ge> th then Some Ratio else None
            | _ \<Rightarrow> None)))"

text \<open>The compaction runs only on a trigger; \<open>committed\<close> is how it ended.\<close>

definition compact_at_configured_threshold ::
  "model_view option \<Rightarrow> usage option \<Rightarrow> compaction_config \<Rightarrow> bool \<Rightarrow> bool \<times> (trigger \<times> bool) list" where
  "compact_at_configured_threshold model usage cf committed =
     (case auto_compaction_trigger model usage cf of None \<Rightarrow> (False, []) | Some t \<Rightarrow> (committed, [(t, committed)]))"

datatype band = Ok | Warn | Urgent | UnknownBand

record pressure =
  ps_tokens :: "rat option"
  ps_window :: "rat option"
  ps_fraction :: "rat option"
  ps_headroom :: "rat option"
  ps_band :: band
  ps_threshold_fraction :: "rat option"
  ps_threshold_tokens :: "rat option"

definition positive_window :: "rat option \<Rightarrow> rat option" where
  "positive_window v = (case v of Some w \<Rightarrow> if w > 0 then Some w else None | None \<Rightarrow> None)"

definition compaction_pressure :: "model_view option \<Rightarrow> usage option \<Rightarrow> compaction_config \<Rightarrow> pressure" where
  "compaction_pressure model usage cf =
     (let key = model_compaction_key model;
          threshold_tokens = configured (cf_token_thresholds cf) key;
          threshold_fraction = (if key = None \<or> threshold_tokens \<noteq> None then None else configured (cf_thresholds cf) key);
          window = (case positive_window (map_option us_window usage) of Some w \<Rightarrow> Some w
             | None \<Rightarrow> positive_window (Option.bind model mv_window));
          tokens = Option.bind usage us_tokens;
          fraction = (case (tokens, window) of (Some t, Some w) \<Rightarrow> Some (t / w) | _ \<Rightarrow> None);
          headroom = (case (tokens, window) of (Some t, Some w) \<Rightarrow> Some (w - t) | _ \<Rightarrow> None);
          band = (case fraction of None \<Rightarrow> UnknownBand
             | Some q \<Rightarrow> if q \<ge> cf_urgent cf \<or> (case window of Some w \<Rightarrow> output_reserve_breached tokens w (cf_reserve cf) | None \<Rightarrow> False) then Urgent
                 else if q \<ge> cf_warn cf then Warn else Ok)
      in \<lparr>ps_tokens = tokens, ps_window = window, ps_fraction = fraction, ps_headroom = headroom, ps_band = band,
          ps_threshold_fraction = threshold_fraction, ps_threshold_tokens = threshold_tokens\<rparr>)"

text \<open>Pressure and trigger agree: headroom compaction runs only in the urgent band, and the two thresholds the projection shows are the
  ones the trigger uses, never both.\<close>

lemma pressure_matches_trigger:
  shows "auto_compaction_trigger model usage cf = Some Headroom \<Longrightarrow> ps_band (compaction_pressure model usage cf) = Urgent"
    and "auto_compaction_trigger model usage cf = Some Tokens \<Longrightarrow>
      \<exists>t l. ps_tokens (compaction_pressure model usage cf) = Some t \<and> ps_threshold_tokens (compaction_pressure model usage cf) = Some l \<and> l \<le> t"
    and "auto_compaction_trigger model usage cf = Some Ratio \<Longrightarrow>
      ps_threshold_tokens (compaction_pressure model usage cf) = None \<and> ps_threshold_fraction (compaction_pressure model usage cf) \<noteq> None"
    and "ps_threshold_tokens (compaction_pressure model usage cf) = None \<or> ps_threshold_fraction (compaction_pressure model usage cf) = None"
proof -
  show "auto_compaction_trigger model usage cf = Some Headroom \<Longrightarrow> ps_band (compaction_pressure model usage cf) = Urgent"
    by (auto simp: auto_compaction_trigger_def compaction_pressure_def Let_def output_reserve_breached_def positive_window_def
        split: option.splits if_splits)
  show "auto_compaction_trigger model usage cf = Some Tokens \<Longrightarrow>
      \<exists>t l. ps_tokens (compaction_pressure model usage cf) = Some t \<and> ps_threshold_tokens (compaction_pressure model usage cf) = Some l \<and> l \<le> t"
    by (auto simp: auto_compaction_trigger_def compaction_pressure_def Let_def split: option.splits if_splits)
  show "auto_compaction_trigger model usage cf = Some Ratio \<Longrightarrow>
      ps_threshold_tokens (compaction_pressure model usage cf) = None \<and> ps_threshold_fraction (compaction_pressure model usage cf) \<noteq> None"
    by (auto simp: auto_compaction_trigger_def compaction_pressure_def Let_def configured_def split: option.splits if_splits)
  show "ps_threshold_tokens (compaction_pressure model usage cf) = None \<or> ps_threshold_fraction (compaction_pressure model usage cf) = None"
    by (simp add: compaction_pressure_def Let_def)
qed

end
