(* ===== verification/PartialCode.thy ===== *)
theory PartialCode imports Prelude begin

text \<open>
  \<^verbatim>\<open>src/src/speculation/partial-json.ts\<close>: the incremental extractor of the \<open>code\<close> string from a streamed argument blob. A text is
  the list of its UTF-16 code units.
\<close>

section \<open>The extractor\<close>

type_synonym units = "int list"

record extractor =
  x_raw :: units
  x_code_start :: "nat option"
  x_cursor :: nat
  x_decoded :: units
  x_complete :: bool
  x_failed :: bool
  x_max_bytes :: nat

definition new_extractor :: "nat \<Rightarrow> extractor" where
  "new_extractor m = \<lparr>x_raw = [], x_code_start = None, x_cursor = 0, x_decoded = [], x_complete = False, x_failed = False, x_max_bytes = m\<rparr>"

definition escape_of :: "int \<Rightarrow> int option" where
  "escape_of c = map_of [(34, 34), (92, 92), (47, 47), (98, 8), (102, 12), (110, 10), (114, 13), (116, 9)] c"

definition hex_value :: "int \<Rightarrow> int option" where
  "hex_value c = (if 48 \<le> c \<and> c \<le> 57 then Some (c - 48) else if 97 \<le> c \<and> c \<le> 102 then Some (c - 87)
     else if 65 \<le> c \<and> c \<le> 70 then Some (c - 55) else None)"

fun parse_hex :: "units \<Rightarrow> int \<Rightarrow> int option" where
  "parse_hex [] acc = Some acc"
| "parse_hex (c # cs) acc = (case hex_value c of None \<Rightarrow> None | Some v \<Rightarrow> parse_hex cs (16 * acc + v))"

text \<open>White space of \<open>\s\<close>.\<close>

definition space_unit :: "int \<Rightarrow> bool" where
  "space_unit c \<longleftrightarrow> (9 \<le> c \<and> c \<le> 13) \<or> c = 32 \<or> c = 160 \<or> c = 0x1680 \<or> (0x2000 \<le> c \<and> c \<le> 0x200A) \<or> c = 0x2028 \<or> c = 0x2029
     \<or> c = 0x202F \<or> c = 0x205F \<or> c = 0x3000 \<or> c = 0xFEFF"

text \<open>The length of a match of \<open>"code"\s*:\s*"\<close> at the front of a text.\<close>

definition key_units :: units where
  "key_units = [34, 99, 111, 100, 101, 34]"

definition blanks :: "units \<Rightarrow> nat" where
  "blanks t = length (takeWhile space_unit t)"

definition match_key_here :: "units \<Rightarrow> nat option" where
  "match_key_here t =
     (if take 6 t \<noteq> key_units then None
      else (let r = drop 6 t in
        case dropWhile space_unit r of [] \<Rightarrow> None
        | c # r2 \<Rightarrow> if c \<noteq> 58 then None
            else (case dropWhile space_unit r2 of [] \<Rightarrow> None
              | d # _ \<Rightarrow> if d = 34 then Some (8 + blanks r + blanks r2) else None)))"

text \<open>The leftmost match: the index just after it.\<close>

fun match_key :: "units \<Rightarrow> nat option" where
  "match_key [] = None"
| "match_key (c # t) = (case match_key_here (c # t) of Some n \<Rightarrow> Some n | None \<Rightarrow> map_option Suc (match_key t))"

text \<open>One turn of the decoding loop at a cursor inside the text: the loop stops for good, waits, or decodes some units.\<close>

datatype turn = Closed | Wait | Fail | Decode units nat

definition turn_at :: "units \<Rightarrow> nat \<Rightarrow> turn" where
  "turn_at raw cur =
     (let ch = raw ! cur in
      if ch = 34 then Closed
      else if ch = 92 then
        (if cur + 1 \<ge> length raw then Wait
         else (let esc = raw ! (cur + 1) in
           if esc = 117 then
             (if cur + 5 \<ge> length raw then Wait
              else (case parse_hex (take 4 (drop (cur + 2) raw)) 0 of None \<Rightarrow> Fail | Some v \<Rightarrow> Decode [v] 6))
           else (case escape_of esc of None \<Rightarrow> Fail | Some m \<Rightarrow> Decode [m] 2)))
      else if ch < 32 then Fail
      else Decode [ch] 1)"

lemma turn_decodes: "turn_at raw cur = Decode us n \<Longrightarrow> 0 < n"
  by (auto simp: turn_at_def Let_def split: if_splits option.splits)

function decode_loop :: "extractor \<Rightarrow> extractor" where
  "decode_loop x =
     (if x_cursor x < length (x_raw x) then
        (case turn_at (x_raw x) (x_cursor x) of
           Closed \<Rightarrow> x\<lparr>x_complete := True, x_cursor := length (x_raw x)\<rparr>
         | Wait \<Rightarrow> x
         | Fail \<Rightarrow> x\<lparr>x_failed := True\<rparr>
         | Decode us n \<Rightarrow> decode_loop (x\<lparr>x_decoded := x_decoded x @ us, x_cursor := x_cursor x + n\<rparr>))
      else x)"
  by pat_completeness auto
termination
  by (relation "measure (\<lambda>x. length (x_raw x) - x_cursor x)") (auto dest: turn_decodes)

declare decode_loop.simps [simp del]

definition push :: "extractor \<Rightarrow> units \<Rightarrow> extractor" where
  "push x delta =
     (if x_complete x \<or> x_failed x then x
      else if length (x_raw x) + length delta > x_max_bytes x then x\<lparr>x_failed := True\<rparr>
      else (let x = x\<lparr>x_raw := x_raw x @ delta\<rparr> in
        case x_code_start x of
          Some _ \<Rightarrow> decode_loop x
        | None \<Rightarrow> (case match_key (x_raw x) of
            None \<Rightarrow> x
          | Some k \<Rightarrow> decode_loop (x\<lparr>x_code_start := Some k, x_cursor := k\<rparr>))))"

definition code :: "extractor \<Rightarrow> units option" where
  "code x = (case x_code_start x of None \<Rightarrow> None | Some _ \<Rightarrow> Some (x_decoded x))"

section \<open>The key, found once, stays found\<close>

definition is_match :: "units \<Rightarrow> nat \<Rightarrow> bool" where
  "is_match u n \<longleftrightarrow> (\<exists>s1 s2 rest. u = key_units @ s1 @ 58 # s2 @ 34 # rest \<and> list_all space_unit s1 \<and> list_all space_unit s2
     \<and> n = 8 + length s1 + length s2)"

lemma not_space [simp]: "\<not> space_unit 58" "\<not> space_unit 34" "\<not> space_unit 99"
  by (simp_all add: space_unit_def)

lemma takeWhile_all: "list_all P xs \<Longrightarrow> takeWhile P (xs @ ys) = xs @ takeWhile P ys"
  by (induction xs) simp_all

lemma match_key_here_iff: "match_key_here u = Some n \<longleftrightarrow> is_match u n"
proof
  assume m: "match_key_here u = Some n"
  then have key: "take 6 u = key_units" by (auto simp: match_key_here_def split: if_splits)
  from m key obtain r2 rest where r: "dropWhile space_unit (drop 6 u) = 58 # r2" "dropWhile space_unit r2 = 34 # rest"
    and n: "n = 8 + blanks (drop 6 u) + blanks r2"
    by (auto simp: match_key_here_def Let_def split: list.splits if_splits)
  have "u = key_units @ drop 6 u" using key by (metis append_take_drop_id)
  also have "drop 6 u = takeWhile space_unit (drop 6 u) @ 58 # r2" using r(1) by (metis takeWhile_dropWhile_id)
  also have "r2 = takeWhile space_unit r2 @ 34 # rest" using r(2) by (metis takeWhile_dropWhile_id)
  finally have "u = key_units @ takeWhile space_unit (drop 6 u) @ 58 # takeWhile space_unit r2 @ 34 # rest" .
  moreover have "list_all space_unit (takeWhile space_unit xs)" for xs by (auto simp: list_all_iff dest: set_takeWhileD)
  ultimately show "is_match u n" using n unfolding is_match_def blanks_def by blast
next
  assume "is_match u n"
  then obtain s1 s2 rest where u: "u = key_units @ s1 @ 58 # s2 @ 34 # rest" and s: "list_all space_unit s1" "list_all space_unit s2"
    and n: "n = 8 + length s1 + length s2" by (auto simp: is_match_def)
  have k: "length key_units = 6" by (simp add: key_units_def)
  have "dropWhile space_unit (s1 @ 58 # s2 @ 34 # rest) = 58 # s2 @ 34 # rest" "dropWhile space_unit (s2 @ 34 # rest) = 34 # rest"
    using s by (simp_all add: dropWhile_append list_all_iff)
  moreover have "blanks (s1 @ 58 # s2 @ 34 # rest) = length s1" "blanks (s2 @ 34 # rest) = length s2"
    using s by (simp_all add: blanks_def takeWhile_all)
  ultimately show "match_key_here u = Some n"
    by (simp add: match_key_here_def u k n Let_def)
qed

text \<open>A match survives more input; one that more input completes reads to the end of what is there.\<close>

lemma is_match_append: "is_match t n \<Longrightarrow> is_match (t @ d) n"
  by (fastforce simp: is_match_def)

lemma is_match_le: "is_match t n \<Longrightarrow> n \<le> length t \<and> 0 < n"
  by (auto simp: is_match_def key_units_def)

definition pattern :: "units \<Rightarrow> units \<Rightarrow> units" where
  "pattern s1 s2 = key_units @ s1 @ 58 # s2 @ [34]"

lemma length_pattern: "length (pattern s1 s2) = 8 + length s1 + length s2"
  by (simp add: pattern_def key_units_def)

lemma is_match_pattern:
  "is_match u n \<longleftrightarrow> (\<exists>s1 s2 rest. u = pattern s1 s2 @ rest \<and> list_all space_unit s1 \<and> list_all space_unit s2 \<and> n = length (pattern s1 s2))"
  unfolding is_match_def length_pattern by (simp add: pattern_def)

lemma is_match_take:
  assumes "is_match (t @ d) n" "n \<le> length t"
  shows "is_match t n"
proof -
  from assms(1) obtain s1 s2 rest where u: "t @ d = pattern s1 s2 @ rest" and s: "list_all space_unit s1" "list_all space_unit s2"
    and n: "n = length (pattern s1 s2)" by (auto simp: is_match_pattern)
  have "take n t = pattern s1 s2" using arg_cong [OF u, of "take n"] assms(2) n by simp
  then have "t = pattern s1 s2 @ drop n t" by (metis append_take_drop_id)
  then show ?thesis using s n by (auto simp: is_match_pattern)
qed

text \<open>Inside a match no quote is followed by the first letter of the key, except at its start.\<close>

definition no_key_start :: "units \<Rightarrow> bool" where
  "no_key_start = successively (\<lambda>a b. \<not> (a = 34 \<and> b = 99))"

lemma no_key_start_append: "no_key_start (xs @ ys) \<Longrightarrow> no_key_start xs"
  by (simp add: no_key_start_def successively_append_iff)

lemma no_key_start_no99: "99 \<notin> set xs \<Longrightarrow> no_key_start xs"
  unfolding no_key_start_def by (induction xs rule: induct_list012) auto

lemma pattern_tail: "list_all space_unit s1 \<Longrightarrow> list_all space_unit s2 \<Longrightarrow> no_key_start (tl (pattern s1 s2))"
proof -
  assume s: "list_all space_unit s1" "list_all space_unit s2"
  have n99: "99 \<notin> set (34 # s1 @ 58 # s2 @ [34])" using s by (auto simp: list_all_iff)
  have "tl (pattern s1 s2) = [99, 111, 100, 101] @ 34 # s1 @ 58 # s2 @ [34]" by (simp add: pattern_def key_units_def)
  then show ?thesis using no_key_start_no99 [OF n99] by (simp add: no_key_start_def successively_append_iff)
qed

lemma match_key_here_None: "match_key_here t = None \<longleftrightarrow> (\<forall>n. \<not> is_match t n)"
  using match_key_here_iff [of t] by (metis not_Some_eq)

lemma match_key_starts: "match_key t = Some k \<Longrightarrow> \<not> no_key_start t"
proof (induction t arbitrary: k)
  case Nil
  then show ?case by simp
next
  case (Cons c t)
  show ?case
  proof (cases "match_key_here (c # t)")
    case (Some n)
    then obtain s1 s2 rest where "c # t = pattern s1 s2 @ rest" by (auto simp: match_key_here_iff is_match_pattern)
    then show ?thesis by (simp add: pattern_def key_units_def no_key_start_def)
  next
    case None
    with Cons obtain k' where "match_key t = Some k'" by auto
    from Cons.IH [OF this] show ?thesis by (auto simp: no_key_start_def successively_Cons)
  qed
qed

lemma match_key_append: "match_key t = Some k \<Longrightarrow> match_key (t @ d) = Some k"
proof (induction t arbitrary: k)
  case Nil
  then show ?case by simp
next
  case (Cons c t)
  show ?case
  proof (cases "match_key_here (c # t)")
    case (Some n)
    then have "match_key_here ((c # t) @ d) = Some n" using is_match_append [of "c # t" n d] by (simp only: match_key_here_iff)
    with Some Cons.prems show ?thesis by simp
  next
    case None
    with Cons.prems obtain k' where k': "match_key t = Some k'" "k = Suc k'" by auto
    have "match_key_here ((c # t) @ d) = None"
    proof (rule ccontr)
      assume "match_key_here ((c # t) @ d) \<noteq> None"
      then obtain n where "match_key_here ((c # t) @ d) = Some n" by blast
      then have m: "is_match ((c # t) @ d) n" by (simp only: match_key_here_iff)
      have "\<not> n \<le> length (c # t)" using is_match_take [OF m] None match_key_here_None by blast
      moreover from m obtain s1 s2 rest where u: "(c # t) @ d = pattern s1 s2 @ rest"
        and s: "list_all space_unit s1" "list_all space_unit s2" "n = length (pattern s1 s2)" by (auto simp: is_match_pattern)
      moreover have "c # t = take (length (c # t)) ((c # t) @ d)" by simp
      ultimately have "c # t = take (length (c # t)) (pattern s1 s2)" unfolding u by (metis take_append diff_is_0_eq' nat_le_linear take_eq_Nil append_Nil2)
      then have "t = take (length t) (tl (pattern s1 s2))" by (cases "pattern s1 s2") simp_all
      then have "tl (pattern s1 s2) = t @ drop (length t) (tl (pattern s1 s2))" by (metis append_take_drop_id)
      with pattern_tail [OF s(1,2)] have "no_key_start t" by (metis no_key_start_append)
      with match_key_starts [OF k'(1)] show False by blast
    qed
    with Cons.IH [OF k'(1)] k'(2) show ?thesis by simp
  qed
qed

section \<open>Chunks do not matter\<close>

lemma turn_append:
  assumes "cur < length raw" "turn_at raw cur \<noteq> Wait"
  shows "turn_at (raw @ d) cur = turn_at raw cur"
proof -
  have at: "(raw @ d) ! cur = raw ! cur" using assms(1) by (simp add: nth_append)
  have "cur + 1 < length raw \<Longrightarrow> (raw @ d) ! (cur + 1) = raw ! (cur + 1)" by (simp add: nth_append)
  moreover have "cur + 5 < length raw \<Longrightarrow> take 4 (drop (cur + 2) (raw @ d)) = take 4 (drop (cur + 2) raw)" by simp
  ultimately show ?thesis using assms(2) at by (auto simp: turn_at_def Let_def)
qed

definition finished :: "extractor \<Rightarrow> bool" where
  "finished x \<longleftrightarrow> x_complete x \<or> x_failed x"

text \<open>What a caller sees.\<close>

definition seen :: "extractor \<Rightarrow> units option \<times> bool \<times> bool" where
  "seen x = (code x, x_complete x, x_failed x)"

lemma decode_extend:
  assumes "\<not> finished x"
  shows "let y = decode_loop x; z = decode_loop (x\<lparr>x_raw := x_raw x @ d\<rparr>) in
    x_raw y = x_raw x \<and> x_code_start y = x_code_start x \<and> x_max_bytes y = x_max_bytes x \<and>
    (if finished y then seen z = seen y \<and> finished z else z = decode_loop (y\<lparr>x_raw := x_raw x @ d\<rparr>))"
  using assms
proof (induction x rule: decode_loop.induct)
  case (1 x)
  let ?d = "x\<lparr>x_raw := x_raw x @ d\<rparr>"
  show ?case
  proof (cases "x_cursor x < length (x_raw x)")
    case False
    then have "decode_loop x = x" by (subst decode_loop.simps) simp
    with 1(2) show ?thesis by (simp add: Let_def)
  next
    case True
    show ?thesis
    proof (cases "turn_at (x_raw x) (x_cursor x)")
      case Closed
      then have "turn_at (x_raw x @ d) (x_cursor x) = Closed" using turn_append [OF True] by simp
      with Closed True show ?thesis
        by (simp add: decode_loop.simps [of x] decode_loop.simps [of ?d] Let_def finished_def seen_def code_def split: option.split)
    next
      case Wait
      with True have "decode_loop x = x" by (simp add: decode_loop.simps [of x])
      with 1(2) show ?thesis by (simp add: Let_def)
    next
      case Fail
      then have "turn_at (x_raw x @ d) (x_cursor x) = Fail" using turn_append [OF True] by simp
      with Fail True show ?thesis
        by (simp add: decode_loop.simps [of x] decode_loop.simps [of ?d] Let_def finished_def seen_def code_def split: option.split)
    next
      case (Decode us n)
      then have t: "turn_at (x_raw x @ d) (x_cursor x) = Decode us n" using turn_append [OF True] by simp
      let ?x = "x\<lparr>x_decoded := x_decoded x @ us, x_cursor := x_cursor x + n\<rparr>"
      have comm: "?d\<lparr>x_decoded := x_decoded x @ us, x_cursor := x_cursor x + n\<rparr> = ?x\<lparr>x_raw := x_raw ?x @ d\<rparr>" by simp
      have eq1: "decode_loop x = decode_loop ?x" using True Decode by (subst decode_loop.simps) simp
      have eq2: "decode_loop ?d = decode_loop (?x\<lparr>x_raw := x_raw ?x @ d\<rparr>)"
        unfolding comm [symmetric] using True t by (subst decode_loop.simps) simp
      have fields: "x_raw ?x = x_raw x" "x_code_start ?x = x_code_start x" "x_max_bytes ?x = x_max_bytes x" by simp_all
      have "\<not> finished ?x" using 1(2) by (simp add: finished_def)
      from 1(1) [OF True Decode this] show ?thesis unfolding Let_def eq1 eq2 fields .
    qed
  qed
qed

definition feed :: "nat \<Rightarrow> units list \<Rightarrow> extractor" where
  "feed m chunks = foldl push (new_extractor m) chunks"

definition started :: "nat \<Rightarrow> units \<Rightarrow> nat \<Rightarrow> extractor" where
  "started m t k = (new_extractor m)\<lparr>x_raw := t, x_code_start := Some k, x_cursor := k\<rparr>"

lemma push_new:
  "length t \<le> m \<Longrightarrow> push (new_extractor m) t =
     (case match_key t of None \<Rightarrow> (new_extractor m)\<lparr>x_raw := t\<rparr> | Some k \<Rightarrow> decode_loop (started m t k))"
  by (simp add: push_def new_extractor_def started_def Let_def split: option.split)

lemma push_done: "finished x \<Longrightarrow> push x d = x"
  by (auto simp: push_def finished_def)

lemma push_push:
  assumes fits: "length (t @ d) \<le> m"
  shows "(if finished (push (new_extractor m) t) then seen (push (new_extractor m) (t @ d)) = seen (push (new_extractor m) t) \<and> finished (push (new_extractor m) (t @ d))
    else push (push (new_extractor m) t) d = push (new_extractor m) (t @ d))"
proof (cases "match_key t")
  case None
  have "push (new_extractor m) t = (new_extractor m)\<lparr>x_raw := t\<rparr>" using fits None by (simp add: push_new)
  moreover have "push ((new_extractor m)\<lparr>x_raw := t\<rparr>) d = push (new_extractor m) (t @ d)"
    using fits by (simp add: push_def new_extractor_def Let_def)
  ultimately show ?thesis by (simp add: finished_def new_extractor_def)
next
  case (Some k)
  let ?y = "decode_loop (started m t k)"
  have t: "push (new_extractor m) t = ?y" using fits Some by (simp add: push_new)
  have td: "push (new_extractor m) (t @ d) = decode_loop (started m (t @ d) k)" using fits match_key_append [OF Some] by (simp add: push_new)
  have nd: "\<not> finished (started m t k)" by (simp add: started_def new_extractor_def finished_def)
  have e: "x_raw ?y = t" "x_code_start ?y = Some k" "x_max_bytes ?y = m"
    "if finished ?y then seen (decode_loop (started m (t @ d) k)) = seen ?y \<and> finished (decode_loop (started m (t @ d) k))
     else decode_loop (started m (t @ d) k) = decode_loop (?y\<lparr>x_raw := t @ d\<rparr>)"
    using decode_extend [OF nd, of d] by (simp_all add: Let_def started_def new_extractor_def)
  have "\<not> finished ?y \<Longrightarrow> push ?y d = decode_loop (?y\<lparr>x_raw := t @ d\<rparr>)"
    using fits e(1-3) by (simp add: push_def finished_def Let_def)
  with e(4) show ?thesis unfolding t td by (auto split: if_splits)
qed

lemma feed_invariant:
  "length (concat chunks) \<le> m \<Longrightarrow>
   seen (feed m chunks) = seen (push (new_extractor m) (concat chunks)) \<and>
   (finished (feed m chunks) \<longleftrightarrow> finished (push (new_extractor m) (concat chunks))) \<and>
   (finished (feed m chunks) \<or> feed m chunks = push (new_extractor m) (concat chunks))"
proof (induction chunks rule: rev_induct)
  case Nil
  have "push (new_extractor m) [] = new_extractor m" by (simp add: push_new) (simp add: new_extractor_def)
  then show ?case by (simp add: feed_def)
next
  case (snoc d chunks)
  let ?t = "concat chunks"
  have fits: "length (?t @ d) \<le> m" using snoc.prems by simp
  have step: "feed m (chunks @ [d]) = push (feed m chunks) d" by (simp add: feed_def)
  note ih = snoc.IH [OF order_trans [OF _ fits]]
  note pp = push_push [OF fits]
  have seen_done: "seen x = seen y \<Longrightarrow> finished x = finished y" for x y by (simp add: seen_def finished_def)
  show ?case
  proof (cases "finished (feed m chunks)")
    case True
    with ih pp show ?thesis by (simp add: step push_done)
  next
    case False
    with ih have eq: "feed m chunks = push (new_extractor m) ?t" by simp
    with False pp show ?thesis by (simp add: step)
  qed
qed

text \<open>C14: However a provider cuts an argument blob that fits the size cap into chunks, and wherever a cut falls (inside the key, an
  escape or a \<open>\u\<close> sequence included), the extractor shows the same code, completeness and failure as for the whole blob at once.\<close>

theorem chunking_is_invisible:
  assumes "length (concat chunks) \<le> m"
  shows "seen (feed m chunks) = seen (feed m [concat chunks])"
  using feed_invariant [OF assms] by (simp add: feed_def)

definition example_chunks :: "units list" where
  "example_chunks = [[123, 34, 99, 111], [100, 101, 34, 58, 32, 34, 97, 92], [110, 34]]"

theorem chunking_is_invisible_witness:
  "seen (feed 100 example_chunks) = seen (feed 100 [concat example_chunks]) \<and> seen (feed 100 [concat example_chunks]) = (Some [97, 10], True, False)"
proof
  show "seen (feed 100 example_chunks) = seen (feed 100 [concat example_chunks])"
    by (rule chunking_is_invisible) (simp add: example_chunks_def)
  show "seen (feed 100 [concat example_chunks]) = (Some [97, 10], True, False)" by code_simp
qed

end
