(* ===== verification/MeshState.thy ===== *)
theory MeshState imports Prelude begin

text \<open>
  The keyed mesh state (\<^verbatim>\<open>src/src/mesh/state-file.ts\<close>) over the storage reducer (\<^verbatim>\<open>src/src/verified/storage.ts\<close> and
  its compiled kernel): a revision is a pair of radix-\<open>2^32\<close> limbs; \<open>put\<close>, \<open>delete\<close> and the
  batch take a parsed state document to the next one or to an error; every write ends in a tombstone compaction.
  The document is what \<open>JSON.parse\<close> yields: a revision on disk is a whole number or something else, an entry may be
  damaged, the version table may be missing or no object. A value is held as its JSON text, which is what the
  captured request carries. At the end \<open>#withWriteSnapshot\<close> is a step relation of concurrent writers.
\<close>

section \<open>Errors and revisions\<close>

datatype mesh_error =
  InvalidRevision | InvalidTable | InvalidEntry | InconsistentRevision | UnsupportedProtocol | MissingHighWater
| InconsistentHighWater | CasFailed string int int | Exhausted string | NotSerializable | TooLarge
| InvalidKey string | BatchConflict string int int | InvalidLimbs | InvalidPlan

text \<open>A number on disk: a whole one, or anything else (a fraction, \<open>NaN\<close>, a value that is no number).\<close>

datatype stored = Whole int | Other

definition SAFE :: int where "SAFE = 9007199254740991"
definition RADIX :: int where "RADIX = 4294967296"

definition storage_revision :: "stored \<Rightarrow> mesh_error + int" where
  "storage_revision v = (case v of
     Other \<Rightarrow> Inl InvalidRevision
   | Whole n \<Rightarrow> if n < 0 \<or> SAFE < n then Inl InvalidRevision else Inr n)"

datatype revision = Revision (high: int) (low: int)

definition encode_revision :: "int \<Rightarrow> mesh_error + revision" where
  "encode_revision v = bind_e (storage_revision (Whole v)) (\<lambda>n. Inr (Revision (n div RADIX) (n mod RADIX)))"

definition decode_revision :: "revision \<Rightarrow> mesh_error + int" where
  "decode_revision r = (if high r < 0 \<or> 2097151 < high r \<or> low r < 0 \<or> RADIX \<le> low r then Inl InvalidLimbs
     else storage_revision (Whole (high r * RADIX + low r)))"

section \<open>The storage kernel\<close>

datatype expectation = AnyVersion | At revision
datatype change = Put string string | Delete
record request = rq_key :: string  rq_expected :: expectation  rq_change :: change
record kslot = ks_present :: bool  ks_version :: revision  ks_high :: revision
datatype plan = PutNext string string string revision revision | DeleteNext string revision revision
  | Unchanged | Conflict | ExhaustedPlan

definition same_revision :: "revision \<Rightarrow> revision \<Rightarrow> bool" where
  "same_revision e t \<longleftrightarrow> high e = high t \<and> low e = low t"

definition met :: "expectation \<Rightarrow> revision \<Rightarrow> bool" where
  "met e t = (case e of AnyVersion \<Rightarrow> True | At v \<Rightarrow> same_revision v t)"

definition available :: "revision \<Rightarrow> bool" where
  "available e \<longleftrightarrow> (high e \<le> 2097151 \<and> low e \<le> 4294967295) \<and> (high e < 2097151 \<or> low e < 4294967295)"

definition carry :: "bool \<Rightarrow> int \<Rightarrow> int \<Rightarrow> revision" where
  "carry e t a = (if e then Revision (t + 1) 0 else Revision t (a + 1))"

definition next_revision :: "revision \<Rightarrow> revision" where
  "next_revision e = carry (low e = 4294967295) (high e) (low e)"

definition next_plan :: "bool \<Rightarrow> string \<Rightarrow> change \<Rightarrow> revision \<Rightarrow> revision \<Rightarrow> plan" where
  "next_plan e t a s n = (if e then (case a of
       Put v i \<Rightarrow> PutNext t v i (next_revision s) (next_revision n)
     | Delete \<Rightarrow> DeleteNext t (next_revision s) (next_revision n)) else ExhaustedPlan)"

definition change_plan :: "string \<Rightarrow> change \<Rightarrow> bool \<Rightarrow> revision \<Rightarrow> revision \<Rightarrow> plan" where
  "change_plan e t a s n = (case t of
     Delete \<Rightarrow> if a then next_plan (available s \<and> available n) e Delete s n else Unchanged
   | Put r o' \<Rightarrow> (let base = (if a then s else n) in next_plan (available base \<and> available n) e (Put r o') base n))"

definition storage_transition :: "request \<Rightarrow> kslot \<Rightarrow> plan" where
  "storage_transition e t = (if met (rq_expected e) (ks_version t)
     then change_plan (rq_key e) (rq_change e) (ks_present t) (ks_version t) (ks_high t) else Conflict)"

section \<open>Captured requests\<close>

datatype transition = TPut string string string int int | TDelete string int int | TUnchanged

text \<open>\<open>capture\<close>: the expected version is checked at once; the transition runs under the lock.\<close>

definition capture :: "string \<Rightarrow> int option \<Rightarrow> change \<Rightarrow> mesh_error + request" where
  "capture key if_version c = (case if_version of
     None \<Rightarrow> Inr \<lparr>rq_key = key, rq_expected = AnyVersion, rq_change = c\<rparr>
   | Some v \<Rightarrow> bind_e (encode_revision v) (\<lambda>r. Inr \<lparr>rq_key = key, rq_expected = At r, rq_change = c\<rparr>))"

definition run_transition :: "int option \<Rightarrow> request \<Rightarrow> bool \<Rightarrow> int \<Rightarrow> int \<Rightarrow> mesh_error + transition" where
  "run_transition if_version rq present actual high_water =
     bind_e (storage_revision (Whole actual)) (\<lambda>a. bind_e (storage_revision (Whole high_water)) (\<lambda>c.
     if c < a then Inl InconsistentHighWater
     else bind_e (encode_revision a) (\<lambda>ra. bind_e (encode_revision c) (\<lambda>rc.
       case storage_transition rq \<lparr>ks_present = present, ks_version = ra, ks_high = rc\<rparr> of
         Conflict \<Rightarrow> Inl (CasFailed (rq_key rq) (case if_version of Some v \<Rightarrow> v | None \<Rightarrow> 0) a)
       | ExhaustedPlan \<Rightarrow> Inl (Exhausted (rq_key rq))
       | Unchanged \<Rightarrow> Inr TUnchanged
       | PutNext k v i r h \<Rightarrow> bind_e (decode_revision r) (\<lambda>nv. bind_e (decode_revision h) (\<lambda>nh. Inr (TPut k v i nv nh)))
       | DeleteNext k r h \<Rightarrow> bind_e (decode_revision r) (\<lambda>nv. bind_e (decode_revision h) (\<lambda>nh. Inr (TDelete k nv nh)))))))"

text \<open>\<open>JSON.stringify\<close> of a value (\<open>None\<close> for undefined) and the byte length of a text are parameters.\<close>

record 'v store_cfg =
  stringify :: "'v \<Rightarrow> string option"
  byte_length :: "string \<Rightarrow> int"
  max_event_bytes :: int
  max_tombstones :: nat

definition serialize :: "'v store_cfg \<Rightarrow> 'v \<Rightarrow> mesh_error + string" where
  "serialize cfg v = (case stringify cfg v of None \<Rightarrow> Inl NotSerializable | Some j \<Rightarrow> Inr j)"

definition capture_put :: "'v store_cfg \<Rightarrow> string \<Rightarrow> int option \<Rightarrow> 'v \<Rightarrow> 'v \<Rightarrow> mesh_error + request" where
  "capture_put cfg key if_version value identity =
     bind_e (case if_version of None \<Rightarrow> Inr 0 | Some v \<Rightarrow> storage_revision (Whole v)) (\<lambda>_.
     bind_e (serialize cfg identity) (\<lambda>ij. bind_e (serialize cfg value) (\<lambda>vj.
     if max_event_bytes cfg < byte_length cfg vj then Inl TooLarge
     else capture key if_version (Put vj ij))))"

definition capture_delete :: "string \<Rightarrow> int option \<Rightarrow> mesh_error + request" where
  "capture_delete key if_version = capture key if_version Delete"

section \<open>The state document\<close>

record entry =
  e_key :: string
  e_value :: string
  e_version :: stored
  e_at :: int
  e_by :: string

datatype raw_entry = BadEntry | Ent entry

datatype table = NoTable | BadTable | Table "(string, stored) jmap"

record mesh_state =
  m_format :: int
  m_revision_format :: "stored option"
  m_entries :: "(string, raw_entry) jmap"
  m_versions :: table
  m_tombstones :: "string list option"
  m_high :: "stored option"

definition empty_state :: mesh_state where
  "empty_state = \<lparr>m_format = 1, m_revision_format = Some (Whole 2), m_entries = [], m_versions = NoTable,
     m_tombstones = None, m_high = Some (Whole 0)\<rparr>"

text \<open>\<open>Object.keys\<close>: the array indices in numeric order, then the other keys in insertion order.\<close>

definition digit :: "char \<Rightarrow> bool" where
  "digit c \<longleftrightarrow> (48::nat) \<le> of_char c \<and> of_char c \<le> (57::nat)"

definition digits_value :: "string \<Rightarrow> int" where
  "digits_value s = foldl (\<lambda>n c. 10 * n + (of_char c - 48)) 0 s"

definition array_index :: "string \<Rightarrow> bool" where
  "array_index s \<longleftrightarrow> s \<noteq> [] \<and> list_all digit s \<and> (s = ''0'' \<or> hd s \<noteq> CHR ''0'') \<and> digits_value s < 4294967295"

definition own_order :: "(string, 'v) jmap \<Rightarrow> (string, 'v) jmap" where
  "own_order m = sort_key (\<lambda>p. digits_value (fst p)) (filter (\<lambda>p. array_index (fst p)) m)
     @ filter (\<lambda>p. \<not> array_index (fst p)) m"

definition own_keys :: "(string, 'v) jmap \<Rightarrow> string list" where
  "own_keys m = map fst (own_order m)"

definition table_map :: "table \<Rightarrow> (string, stored) jmap" where
  "table_map t = (case t of Table m \<Rightarrow> m | _ \<Rightarrow> [])"

section \<open>The slot of a key\<close>

primrec max_revisions :: "stored list \<Rightarrow> int \<Rightarrow> mesh_error + int" where
  "max_revisions [] m = Inr m"
| "max_revisions (r # rs) m = bind_e (storage_revision r) (\<lambda>n. max_revisions rs (max m n))"

definition entry_revision :: "table \<Rightarrow> string \<Rightarrow> raw_entry \<Rightarrow> mesh_error + int" where
  "entry_revision t k raw = (case raw of
     BadEntry \<Rightarrow> Inl InvalidEntry
   | Ent e \<Rightarrow> if e_key e \<noteq> k then Inl InvalidEntry
      else bind_e (storage_revision (e_version e)) (\<lambda>v.
        if v = 0 \<or> (case jm_get (table_map t) k of None \<Rightarrow> False | Some r \<Rightarrow> r \<noteq> Whole v) then Inl InconsistentRevision
        else Inr v))"

primrec max_entries :: "table \<Rightarrow> (string \<times> raw_entry) list \<Rightarrow> int \<Rightarrow> mesh_error + int" where
  "max_entries t [] m = Inr m"
| "max_entries t (p # ps) m = bind_e (entry_revision t (fst p) (snd p)) (\<lambda>v. max_entries t ps (max m v))"

record slot =
  s_present :: bool
  s_version :: int
  s_high :: int

definition whole :: "stored \<Rightarrow> int" where
  "whole v = (case v of Whole n \<Rightarrow> n | Other \<Rightarrow> 0)"

definition entry_version :: "raw_entry \<Rightarrow> int" where
  "entry_version r = (case r of Ent e \<Rightarrow> whole (e_version e) | BadEntry \<Rightarrow> 0)"

definition slot_version :: "mesh_state \<Rightarrow> string \<Rightarrow> int" where
  "slot_version s key = (case jm_get (m_entries s) key of
     Some r \<Rightarrow> entry_version r
   | None \<Rightarrow> (case jm_get (table_map (m_versions s)) key of Some v \<Rightarrow> whole v | None \<Rightarrow> 0))"

definition state_slot :: "mesh_state \<Rightarrow> string \<Rightarrow> mesh_error + slot" where
  "state_slot s key = (if m_versions s = BadTable then Inl InvalidTable
     else bind_e (max_revisions (map snd (own_order (table_map (m_versions s)))) 0) (\<lambda>m1.
     bind_e (max_entries (m_versions s) (own_order (m_entries s)) m1) (\<lambda>m2.
     if m_revision_format s \<noteq> None \<and> m_revision_format s \<noteq> Some (Whole 2) then Inl UnsupportedProtocol
     else if (m_format s = 2 \<or> m_revision_format s = Some (Whole 2)) \<and> m_high s = None then Inl MissingHighWater
     else bind_e (case m_high s of None \<Rightarrow> Inr m2 | Some h \<Rightarrow> bind_e (storage_revision h) (\<lambda>n. Inr (max n m2))) (\<lambda>hw.
       Inr \<lparr>s_present = jm_has (m_entries s) key, s_version = slot_version s key, s_high = hw\<rparr>))))"

section \<open>Tombstone compaction\<close>

primrec walk :: "(string \<Rightarrow> bool) \<Rightarrow> string list \<Rightarrow> string list \<Rightarrow> string list" where
  "walk P seen [] = seen"
| "walk P seen (k # ks) = walk P (if \<not> P k \<or> k \<in> set seen then seen else seen @ [k]) ks"

definition ordered_tombstones :: "mesh_state \<Rightarrow> string list" where
  "ordered_tombstones s = (let es = m_entries s; vs = table_map (m_versions s) in
     walk (\<lambda>k. \<not> jm_has es k)
       (walk (\<lambda>k. \<not> jm_has es k \<and> jm_has vs k) [] (case m_tombstones s of None \<Rightarrow> [] | Some o' \<Rightarrow> o'))
       (own_keys vs))"

text \<open>\<open>slice(-n)\<close> for a bound of at least 1, which the constructor ensures.\<close>

definition last_n :: "nat \<Rightarrow> 'a list \<Rightarrow> 'a list" where
  "last_n n xs = drop (length xs - n) xs"

definition compact :: "nat \<Rightarrow> mesh_state \<Rightarrow> mesh_state" where
  "compact n s = (let retained = last_n n (ordered_tombstones s) in
     s\<lparr>m_versions := Table (filter (\<lambda>p. jm_has (m_entries s) (fst p) \<or> fst p \<in> set retained) (table_map (m_versions s))),
       m_tombstones := Some retained\<rparr>)"

section \<open>Keys\<close>

definition key_char :: "char \<Rightarrow> bool" where
  "key_char c \<longleftrightarrow> c \<in> set ''abcdefghijklmnopqrstuvwxyzABCDEFGHIJKLMNOPQRSTUVWXYZ0123456789._:/-''"

definition key_head :: "char \<Rightarrow> bool" where
  "key_head c \<longleftrightarrow> key_char c \<and> c \<notin> set ''._:/-''"

fun segments :: "string \<Rightarrow> string list" where
  "segments [] = [[]]"
| "segments (c # cs) = (if c = CHR ''/'' \<or> c = CHR '':'' then [] # segments cs
     else (case segments cs of [] \<Rightarrow> [[c]] | x # xs \<Rightarrow> (c # x) # xs))"

definition unsafe_segment :: "string \<Rightarrow> bool" where
  "unsafe_segment g \<longleftrightarrow> g = ''__proto__'' \<or> g = ''prototype'' \<or> g = ''constructor''"

definition key_valid :: "string \<Rightarrow> bool" where
  "key_valid k \<longleftrightarrow> k \<noteq> [] \<and> key_head (hd k) \<and> list_all key_char (tl k) \<and> length k \<le> 256
     \<and> \<not> list_ex unsafe_segment (segments k)"

section \<open>Put, delete and get\<close>

definition get_entry :: "mesh_state \<Rightarrow> string \<Rightarrow> mesh_error + raw_entry option" where
  "get_entry s key = (if \<not> key_valid key then Inl (InvalidKey key) else Inr (jm_get (m_entries s) key))"

definition store_put :: "string \<Rightarrow> string \<Rightarrow> string \<Rightarrow> int \<Rightarrow> int \<Rightarrow> int \<Rightarrow> mesh_state \<Rightarrow> mesh_state" where
  "store_put k v i ver hw now s = s\<lparr>
     m_entries := jm_set k (Ent \<lparr>e_key = k, e_value = v, e_version = Whole ver, e_at = now, e_by = i\<rparr>) (m_entries s),
     m_versions := Table (jm_set k (Whole ver) (table_map (m_versions s))),
     m_format := 1, m_revision_format := Some (Whole 2), m_high := Some (Whole hw),
     m_tombstones := Some (filter (\<lambda>x. x \<noteq> k) (case m_tombstones s of None \<Rightarrow> [] | Some o' \<Rightarrow> o'))\<rparr>"

definition store_delete :: "string \<Rightarrow> int \<Rightarrow> int \<Rightarrow> mesh_state \<Rightarrow> mesh_state" where
  "store_delete k ver hw s = s\<lparr>
     m_entries := jm_del k (m_entries s),
     m_versions := Table (jm_set k (Whole ver) (table_map (m_versions s))),
     m_format := 1, m_revision_format := Some (Whole 2), m_high := Some (Whole hw),
     m_tombstones := Some (filter (\<lambda>x. x \<noteq> k) (case m_tombstones s of None \<Rightarrow> [] | Some o' \<Rightarrow> o') @ [k])\<rparr>"

text \<open>The change \<open>put\<close> makes: the entry written, the keys to commit, the new document.\<close>

definition put_change :: "'v store_cfg \<Rightarrow> string \<Rightarrow> int option \<Rightarrow> request \<Rightarrow> int \<Rightarrow> mesh_state
    \<Rightarrow> mesh_error + (int \<times> mesh_state)" where
  "put_change cfg key if_version rq now s = bind_e (state_slot s key) (\<lambda>sl.
     bind_e (run_transition if_version rq (s_present sl) (s_version sl) (s_high sl)) (\<lambda>t. case t of
       TPut k v i ver hw \<Rightarrow> Inr (ver, compact (max_tombstones cfg) (store_put k v i ver hw now s))
     | _ \<Rightarrow> Inl InvalidPlan))"

definition put :: "'v store_cfg \<Rightarrow> string \<Rightarrow> int option \<Rightarrow> 'v \<Rightarrow> 'v \<Rightarrow> int \<Rightarrow> mesh_state \<Rightarrow> mesh_error + (int \<times> mesh_state)" where
  "put cfg key if_version value identity now s = (if \<not> key_valid key then Inl (InvalidKey key)
     else bind_e (capture_put cfg key if_version value identity) (\<lambda>rq. put_change cfg key if_version rq now s))"

definition delete_change :: "'v store_cfg \<Rightarrow> string \<Rightarrow> int option \<Rightarrow> request \<Rightarrow> mesh_state
    \<Rightarrow> mesh_error + (int option \<times> mesh_state)" where
  "delete_change cfg key if_version rq s = bind_e (state_slot s key) (\<lambda>sl.
     bind_e (run_transition if_version rq (s_present sl) (s_version sl) (s_high sl)) (\<lambda>t. case t of
       TUnchanged \<Rightarrow> Inr (None, s)
     | TDelete k ver hw \<Rightarrow> Inr (Some ver, compact (max_tombstones cfg) (store_delete k ver hw s))
     | TPut _ _ _ _ _ \<Rightarrow> Inl InvalidPlan))"

definition delete :: "'v store_cfg \<Rightarrow> string \<Rightarrow> int option \<Rightarrow> mesh_state \<Rightarrow> mesh_error + (int option \<times> mesh_state)" where
  "delete cfg key if_version s = (if \<not> key_valid key then Inl (InvalidKey key)
     else bind_e (capture_delete key if_version) (\<lambda>rq. delete_change cfg key if_version rq s))"

section \<open>Revision arithmetic\<close>

definition rev_of :: "int \<Rightarrow> revision" where
  "rev_of v = Revision (v div RADIX) (v mod RADIX)"

lemma storage_revision_Inr: "storage_revision v = Inr n \<longleftrightarrow> v = Whole n \<and> 0 \<le> n \<and> n \<le> SAFE"
  by (auto simp: storage_revision_def split: stored.splits)

lemma storage_revision_whole: "0 \<le> n \<Longrightarrow> n \<le> SAFE \<Longrightarrow> storage_revision (Whole n) = Inr n"
  by (simp add: storage_revision_Inr)

lemma encode_revision_ok: "0 \<le> v \<Longrightarrow> v \<le> SAFE \<Longrightarrow> encode_revision v = Inr (rev_of v)"
  by (simp add: encode_revision_def storage_revision_whole rev_of_def)

lemma encode_revision_Inr: "encode_revision v = Inr r \<longleftrightarrow> 0 \<le> v \<and> v \<le> SAFE \<and> r = rev_of v"
  by (auto simp: encode_revision_def bind_e_Inr storage_revision_Inr rev_of_def)

lemma limbs: "v = (v div RADIX) * RADIX + v mod RADIX" "0 \<le> v mod RADIX" "v mod RADIX < RADIX"
  "0 \<le> v \<Longrightarrow> 0 \<le> v div RADIX"
  by (simp_all add: RADIX_def pos_imp_zdiv_nonneg_iff)

lemma decode_rev_of: "0 \<le> v \<Longrightarrow> v \<le> SAFE \<Longrightarrow> decode_revision (rev_of v) = Inr v"
proof -
  assume "0 \<le> v" and "v \<le> SAFE"
  then show ?thesis using limbs [of v]
    by (simp add: decode_revision_def rev_of_def storage_revision_Inr) (simp add: SAFE_def RADIX_def)
qed

lemma same_rev_of: "same_revision (rev_of a) (rev_of b) \<longleftrightarrow> a = b"
proof
  assume "same_revision (rev_of a) (rev_of b)"
  then have "a div RADIX = b div RADIX" and "a mod RADIX = b mod RADIX"
    by (simp_all add: same_revision_def rev_of_def)
  then show "a = b" by (metis div_mult_mod_eq)
qed (simp add: same_revision_def)

lemma available_rev_of: "0 \<le> v \<Longrightarrow> v \<le> SAFE \<Longrightarrow> available (rev_of v) \<longleftrightarrow> v < SAFE"
proof -
  assume "0 \<le> v" and "v \<le> SAFE"
  moreover define q and r where "q = v div RADIX" and "r = v mod RADIX"
  ultimately have "v = q * RADIX + r" "0 \<le> r" "r < RADIX" "v \<le> SAFE"
    using limbs [of v] by simp_all
  then have "available (Revision q r) \<longleftrightarrow> v < SAFE"
    unfolding available_def RADIX_def SAFE_def revision.sel by linarith
  then show ?thesis by (simp add: rev_of_def q_def r_def)
qed

lemma next_rev_of: "0 \<le> v \<Longrightarrow> next_revision (rev_of v) = rev_of (v + 1)"
proof (cases "v mod RADIX = 4294967295")
  case True
  then have "v + 1 = (v div RADIX + 1) * RADIX" using limbs(1) [of v] unfolding RADIX_def by simp
  then have "(v + 1) div RADIX = v div RADIX + 1" and "(v + 1) mod RADIX = 0"
    by (metis nonzero_mult_div_cancel_right RADIX_def zero_neq_numeral, metis mod_mult_self2_is_0)
  with True show ?thesis by (simp add: next_revision_def carry_def rev_of_def)
next
  case False
  then have b: "v mod RADIX + 1 < RADIX" using limbs(3) [of v] by (simp add: RADIX_def)
  have e: "v + 1 = (v div RADIX) * RADIX + (v mod RADIX + 1)" using limbs(1) [of v] by simp
  have "(v + 1) div RADIX = v div RADIX" and "(v + 1) mod RADIX = v mod RADIX + 1"
    using b limbs(2) [of v] by (auto intro!: int_div_pos_eq int_mod_pos_eq e [unfolded mult.commute [of _ RADIX]])
  with False show ?thesis by (simp add: next_revision_def carry_def rev_of_def)
qed

lemma capture_Inr: "capture key ifv c = Inr rq \<Longrightarrow> rq_key rq = key \<and> rq_change rq = c
    \<and> rq_expected rq = (case ifv of None \<Rightarrow> AnyVersion | Some v \<Rightarrow> At (rev_of v))"
  by (auto simp: capture_def bind_e_Inr encode_revision_Inr split: option.splits)

definition cas_ok :: "int option \<Rightarrow> int \<Rightarrow> bool" where
  "cas_ok ifv a \<longleftrightarrow> (case ifv of None \<Rightarrow> True | Some v \<Rightarrow> v = a)"

lemma met_capture: "capture key ifv c = Inr rq \<Longrightarrow> met (rq_expected rq) (rev_of a) \<longleftrightarrow> cas_ok ifv a"
  by (drule capture_Inr) (simp add: met_def cas_ok_def same_rev_of split: option.splits)

text \<open>The transition read on the integers themselves.\<close>

lemma run_transition_put:
  assumes "capture key ifv (Put v i) = Inr rq" and "0 \<le> a" and "a \<le> c" and "c \<le> SAFE"
  shows "run_transition ifv rq p a c = (if \<not> cas_ok ifv a then Inl (CasFailed key (the ifv) a)
     else if c = SAFE then Inl (Exhausted key) else Inr (TPut key v i ((if p then a else c) + 1) (c + 1)))"
proof -
  have r: "rq_key rq = key" "rq_change rq = Put v i" using capture_Inr [OF assms(1)] by simp_all
  have m: "met (rq_expected rq) (rev_of a) \<longleftrightarrow> cas_ok ifv a" by (rule met_capture [OF assms(1)])
  have n: "\<not> c < a" "a \<le> SAFE" "0 \<le> c" using assms by simp_all
  have s: "storage_revision (Whole a) = Inr a" "storage_revision (Whole c) = Inr c"
    "encode_revision a = Inr (rev_of a)" "encode_revision c = Inr (rev_of c)"
    using assms by (simp_all add: storage_revision_whole encode_revision_ok)
  have d: "c \<noteq> SAFE \<Longrightarrow> decode_revision (rev_of (a + 1)) = Inr (a + 1) \<and> decode_revision (rev_of (c + 1)) = Inr (c + 1)"
    using assms by (simp add: decode_rev_of)
  have av: "(available (if p then rev_of a else rev_of c) \<and> available (rev_of c)) = (c \<noteq> SAFE)"
    using assms n by (cases p) (auto simp: available_rev_of)
  have nx: "next_revision (if p then rev_of a else rev_of c) = rev_of ((if p then a else c) + 1)"
    "next_revision (rev_of c) = rev_of (c + 1)"
    using assms n by (simp_all add: next_rev_of)
  have t: "storage_transition rq \<lparr>ks_present = p, ks_version = rev_of a, ks_high = rev_of c\<rparr>
    = (if \<not> cas_ok ifv a then Conflict else if c = SAFE then ExhaustedPlan
       else PutNext key v i (rev_of ((if p then a else c) + 1)) (rev_of (c + 1)))"
    by (simp add: storage_transition_def m r change_plan_def Let_def next_plan_def av nx del: if_split)
  show ?thesis
    using n s d by (auto simp: run_transition_def t r cas_ok_def split: option.splits)
qed

lemma run_transition_delete:
  assumes "capture key ifv Delete = Inr rq" and "0 \<le> a" and "a \<le> c" and "c \<le> SAFE"
  shows "run_transition ifv rq p a c = (if \<not> cas_ok ifv a then Inl (CasFailed key (the ifv) a)
     else if \<not> p then Inr TUnchanged else if c = SAFE then Inl (Exhausted key) else Inr (TDelete key (a + 1) (c + 1)))"
proof -
  have r: "rq_key rq = key" "rq_change rq = Delete" using capture_Inr [OF assms(1)] by simp_all
  have m: "met (rq_expected rq) (rev_of a) \<longleftrightarrow> cas_ok ifv a" by (rule met_capture [OF assms(1)])
  have n: "\<not> c < a" "a \<le> SAFE" "0 \<le> c" using assms by simp_all
  have s: "storage_revision (Whole a) = Inr a" "storage_revision (Whole c) = Inr c"
    "encode_revision a = Inr (rev_of a)" "encode_revision c = Inr (rev_of c)"
    using assms by (simp_all add: storage_revision_whole encode_revision_ok)
  have d: "c \<noteq> SAFE \<Longrightarrow> decode_revision (rev_of (a + 1)) = Inr (a + 1) \<and> decode_revision (rev_of (c + 1)) = Inr (c + 1)"
    using assms by (simp add: decode_rev_of)
  have av: "(available (rev_of a) \<and> available (rev_of c)) = (c \<noteq> SAFE)"
    using assms n by (auto simp: available_rev_of)
  have t: "storage_transition rq \<lparr>ks_present = p, ks_version = rev_of a, ks_high = rev_of c\<rparr>
    = (if \<not> cas_ok ifv a then Conflict else if \<not> p then Unchanged else if c = SAFE then ExhaustedPlan
       else DeleteNext key (rev_of (a + 1)) (rev_of (c + 1)))"
    using assms n by (simp add: storage_transition_def m r change_plan_def next_plan_def av next_rev_of del: if_split)
  show ?thesis
    using n s d by (auto simp: run_transition_def t r cas_ok_def split: option.splits)
qed

section \<open>Well-formed documents\<close>

definition mesh_ok :: "mesh_state \<Rightarrow> bool" where
  "mesh_ok s \<longleftrightarrow> m_versions s \<noteq> BadTable
     \<and> jm_ok (m_entries s) \<and> jm_ok (table_map (m_versions s))
     \<and> (\<forall>v \<in> snd ` set (table_map (m_versions s)). \<exists>n. v = Whole n \<and> 0 \<le> n \<and> n \<le> SAFE)
     \<and> (\<forall>p \<in> set (m_entries s). \<exists>n. entry_revision (m_versions s) (fst p) (snd p) = Inr n)
     \<and> (m_revision_format s = None \<or> m_revision_format s = Some (Whole 2))
     \<and> (m_format s = 2 \<or> m_revision_format s = Some (Whole 2) \<longrightarrow> m_high s \<noteq> None)
     \<and> (\<forall>h. m_high s = Some h \<longrightarrow> (\<exists>n. h = Whole n \<and> 0 \<le> n \<and> n \<le> SAFE))"

lemma set_own_order [simp]: "set (own_order m) = set m"
  by (auto simp: own_order_def)

lemma set_own_keys [simp]: "set (own_keys m) = set (jm_keys m)"
  by (simp add: own_keys_def jm_keys_def)

lemma max_revisions_Inr: "(\<exists>n. max_revisions rs m = Inr n) \<longleftrightarrow> (\<forall>v \<in> set rs. \<exists>n. v = Whole n \<and> 0 \<le> n \<and> n \<le> SAFE)"
  by (induction rs arbitrary: m) (auto simp: bind_e_Inr storage_revision_Inr)

lemma max_revisions_bounds:
  "max_revisions rs m = Inr n \<Longrightarrow> m \<le> n \<and> (\<forall>v \<in> set rs. whole v \<le> n) \<and> (n = m \<or> n \<le> SAFE)
     \<and> (0 \<le> m \<longrightarrow> (\<forall>b \<ge> m. (\<forall>v \<in> set rs. whole v \<le> b) \<longrightarrow> n \<le> b))"
proof (induction rs arbitrary: m)
  case (Cons r rs)
  then obtain x where x: "r = Whole x" "0 \<le> x" "x \<le> SAFE" "max_revisions rs (max m x) = Inr n"
    by (auto simp: bind_e_Inr storage_revision_Inr)
  show ?case using Cons.IH [OF x(4)] x(1-3) by (auto simp: whole_def)
qed simp

lemma max_entries_Inr: "(\<exists>n. max_entries t ps m = Inr n) \<longleftrightarrow> (\<forall>p \<in> set ps. \<exists>n. entry_revision t (fst p) (snd p) = Inr n)"
  by (induction ps arbitrary: m) (auto simp: bind_e_Inr)

lemma entry_revision_Inr:
  "entry_revision t k raw = Inr n \<longleftrightarrow> (\<exists>e. raw = Ent e \<and> e_key e = k \<and> e_version e = Whole n \<and> 0 < n \<and> n \<le> SAFE
     \<and> (jm_get (table_map t) k = None \<or> jm_get (table_map t) k = Some (Whole n)))"
  by (cases "jm_get (table_map t) k"; cases raw)
    (auto simp: entry_revision_def bind_e_Inr storage_revision_Inr intro!: exI [of _ n] split: if_splits)

lemma max_entries_bounds:
  "max_entries t ps m = Inr n \<Longrightarrow> m \<le> n \<and> (\<forall>p \<in> set ps. entry_version (snd p) \<le> n) \<and> (n = m \<or> n \<le> SAFE)
     \<and> (\<forall>b \<ge> m. (\<forall>p \<in> set ps. entry_version (snd p) \<le> b) \<longrightarrow> n \<le> b)"
proof (induction ps arbitrary: m)
  case (Cons p ps)
  then obtain x where x: "entry_revision t (fst p) (snd p) = Inr x" "max_entries t ps (max m x) = Inr n"
    by (auto simp: bind_e_Inr)
  then have e: "entry_version (snd p) = x" "x \<le> SAFE" by (auto simp: entry_revision_Inr entry_version_def whole_def)
  show ?case using Cons.IH [OF x(2)] e by auto
qed simp

text \<open>The maps are JavaScript objects: no key twice. That much is the representation, not a check of the code.\<close>

definition mesh_rep :: "mesh_state \<Rightarrow> bool" where
  "mesh_rep s \<longleftrightarrow> jm_ok (m_entries s) \<and> jm_ok (table_map (m_versions s))"

definition clock :: "mesh_state \<Rightarrow> int" where
  "clock s = (case state_slot s [] of Inr sl \<Rightarrow> s_high sl | Inl _ \<Rightarrow> 0)"

lemma state_slot_key:
  "state_slot s key = (case state_slot s [] of Inl e \<Rightarrow> Inl e
     | Inr sl \<Rightarrow> Inr \<lparr>s_present = jm_has (m_entries s) key, s_version = slot_version s key, s_high = s_high sl\<rparr>)"
  by (auto simp: state_slot_def bind_e_def split: sum.splits)

lemma state_slot_parts:
  "state_slot s key = Inr sl \<Longrightarrow> \<exists>m1 m2 hw. m_versions s \<noteq> BadTable
     \<and> max_revisions (map snd (own_order (table_map (m_versions s)))) 0 = Inr m1
     \<and> max_entries (m_versions s) (own_order (m_entries s)) m1 = Inr m2
     \<and> (m_revision_format s = None \<or> m_revision_format s = Some (Whole 2))
     \<and> (m_format s = 2 \<or> m_revision_format s = Some (Whole 2) \<longrightarrow> m_high s \<noteq> None)
     \<and> (case m_high s of None \<Rightarrow> hw = m2 | Some h \<Rightarrow> \<exists>n. h = Whole n \<and> 0 \<le> n \<and> n \<le> SAFE \<and> hw = max n m2)
     \<and> sl = \<lparr>s_present = jm_has (m_entries s) key, s_version = slot_version s key, s_high = hw\<rparr>"
  unfolding state_slot_def
  by (cases "m_high s")
    (auto simp: bind_e_Inr storage_revision_Inr split: if_splits)

lemma state_slot_iff: "mesh_rep s \<Longrightarrow> (\<exists>sl. state_slot s key = Inr sl) \<longleftrightarrow> mesh_ok s"
proof
  assume r: "mesh_rep s" and "\<exists>sl. state_slot s key = Inr sl"
  then obtain sl where "state_slot s key = Inr sl" by blast
  from state_slot_parts [OF this] obtain m1 m2 hw where p: "m_versions s \<noteq> BadTable"
     "max_revisions (map snd (own_order (table_map (m_versions s)))) 0 = Inr m1"
     "max_entries (m_versions s) (own_order (m_entries s)) m1 = Inr m2"
     "m_revision_format s = None \<or> m_revision_format s = Some (Whole 2)"
     "m_format s = 2 \<or> m_revision_format s = Some (Whole 2) \<longrightarrow> m_high s \<noteq> None"
     "case m_high s of None \<Rightarrow> hw = m2 | Some h \<Rightarrow> \<exists>n. h = Whole n \<and> 0 \<le> n \<and> n \<le> SAFE \<and> hw = max n m2"
    by blast
  have v: "\<forall>v \<in> snd ` set (table_map (m_versions s)). \<exists>n. v = Whole n \<and> 0 \<le> n \<and> n \<le> SAFE"
    using p(2) max_revisions_Inr [of "map snd (own_order (table_map (m_versions s)))" 0] by auto
  have e: "\<forall>p \<in> set (m_entries s). \<exists>n. entry_revision (m_versions s) (fst p) (snd p) = Inr n"
    using p(3) max_entries_Inr [of "m_versions s" "own_order (m_entries s)" m1] by auto
  have h: "\<forall>h. m_high s = Some h \<longrightarrow> (\<exists>n. h = Whole n \<and> 0 \<le> n \<and> n \<le> SAFE)"
    using p(6) by (auto split: option.splits)
  show "mesh_ok s" using r v e h p(1,4,5) by (simp add: mesh_ok_def mesh_rep_def)
next
  assume "mesh_rep s" and ok: "mesh_ok s"
  have "\<exists>n. max_revisions (map snd (own_order (table_map (m_versions s)))) 0 = Inr n"
    unfolding max_revisions_Inr using ok by (simp add: mesh_ok_def)
  then obtain m1 where 1: "max_revisions (map snd (own_order (table_map (m_versions s)))) 0 = Inr m1" by blast
  have "\<exists>n. max_entries (m_versions s) (own_order (m_entries s)) m1 = Inr n"
    unfolding max_entries_Inr using ok by (simp add: mesh_ok_def)
  then obtain m2 where 2: "max_entries (m_versions s) (own_order (m_entries s)) m1 = Inr m2" by blast
  have 3: "\<exists>hw. (case m_high s of None \<Rightarrow> Inr m2 | Some h \<Rightarrow> bind_e (storage_revision h) (\<lambda>n. Inr (max n m2))) = Inr hw"
    using ok by (auto simp: mesh_ok_def storage_revision_whole split: option.splits)
  then obtain hw where hw: "(case m_high s of None \<Rightarrow> Inr m2 | Some h \<Rightarrow> bind_e (storage_revision h) (\<lambda>n. Inr (max n m2))) = Inr hw"
    by blast
  show "\<exists>sl. state_slot s key = Inr sl"
    using ok 1 2 hw unfolding state_slot_def mesh_ok_def by (auto simp del: not_None_eq)
qed

text \<open>What a slot of a well-formed document says: the clock covers every retained version and is a safe integer.\<close>

lemma slot_of_ok:
  assumes "mesh_ok s"
  shows "state_slot s key = Inr \<lparr>s_present = jm_has (m_entries s) key, s_version = slot_version s key, s_high = clock s\<rparr>"
    and "0 \<le> slot_version s key" and "slot_version s key \<le> clock s" and "clock s \<le> SAFE"
    and "\<And>h. m_high s = Some (Whole h) \<Longrightarrow> (\<And>p. p \<in> set (m_entries s) \<Longrightarrow> entry_version (snd p) \<le> h)
      \<Longrightarrow> (\<And>p. p \<in> set (table_map (m_versions s)) \<Longrightarrow> whole (snd p) \<le> h) \<Longrightarrow> clock s = h"
    and "\<And>p. p \<in> set (m_entries s) \<Longrightarrow> entry_version (snd p) \<le> clock s"
    and "\<And>p. p \<in> set (table_map (m_versions s)) \<Longrightarrow> whole (snd p) \<le> clock s"
proof -
  have "mesh_rep s" using assms by (simp add: mesh_ok_def mesh_rep_def)
  then obtain sl where sl: "state_slot s [] = Inr sl" using assms state_slot_iff by blast
  show "state_slot s key = Inr \<lparr>s_present = jm_has (m_entries s) key, s_version = slot_version s key, s_high = clock s\<rparr>"
    by (simp add: state_slot_key [of s key] sl clock_def)
  from state_slot_parts [OF sl] obtain m1 m2 hw where p:
     "max_revisions (map snd (own_order (table_map (m_versions s)))) 0 = Inr m1"
     "max_entries (m_versions s) (own_order (m_entries s)) m1 = Inr m2"
     "case m_high s of None \<Rightarrow> hw = m2 | Some h \<Rightarrow> \<exists>n. h = Whole n \<and> 0 \<le> n \<and> n \<le> SAFE \<and> hw = max n m2"
     "s_high sl = hw" by fastforce
  have c: "clock s = hw" by (simp add: clock_def sl p)
  have 1: "\<forall>p \<in> set (table_map (m_versions s)). whole (snd p) \<le> m1" "0 \<le> m1" "m1 \<le> SAFE"
    "\<And>b. 0 \<le> b \<Longrightarrow> \<forall>p \<in> set (table_map (m_versions s)). whole (snd p) \<le> b \<Longrightarrow> m1 \<le> b"
    using max_revisions_bounds [OF p(1)] by (auto simp: SAFE_def)
  have 2: "m1 \<le> m2" "\<forall>p \<in> set (m_entries s). entry_version (snd p) \<le> m2" "m2 \<le> SAFE"
    "\<And>b. m1 \<le> b \<Longrightarrow> \<forall>p \<in> set (m_entries s). entry_version (snd p) \<le> b \<Longrightarrow> m2 \<le> b"
    using max_entries_bounds [OF p(2)] 1(3) by auto
  have h: "m2 \<le> hw" "hw \<le> SAFE" using p(3) 2(3) by (auto split: option.splits)
  show sf: "clock s \<le> SAFE" using h c by simp
  show e: "\<And>p. p \<in> set (m_entries s) \<Longrightarrow> entry_version (snd p) \<le> clock s"
    using h(1) c 2(2) by fastforce
  show t: "\<And>p. p \<in> set (table_map (m_versions s)) \<Longrightarrow> whole (snd p) \<le> clock s"
    using h(1) c 2(1) 1(1) by fastforce
  have pos: "0 \<le> clock s" using h(1) c 2(1) 1(2) by simp
  have nonneg: "p \<in> set (table_map (m_versions s)) \<Longrightarrow> 0 \<le> whole (snd p)" for p
    using assms by (force simp: mesh_ok_def whole_def)
  have nonneg': "p \<in> set (m_entries s) \<Longrightarrow> 0 \<le> entry_version (snd p)" for p
    using assms by (fastforce simp: mesh_ok_def entry_revision_Inr entry_version_def whole_def)
  show "0 \<le> slot_version s key" using nonneg nonneg'
    by (fastforce simp: slot_version_def dest: jm_get_in_set split: option.splits)
  show "slot_version s key \<le> clock s" using e t pos
    by (fastforce simp: slot_version_def dest: jm_get_in_set split: option.splits)
  show "clock s = x" if "m_high s = Some (Whole x)" "\<And>p. p \<in> set (m_entries s) \<Longrightarrow> entry_version (snd p) \<le> x"
    "\<And>p. p \<in> set (table_map (m_versions s)) \<Longrightarrow> whole (snd p) \<le> x" for x
  proof -
    have x: "0 \<le> x" "hw = max x m2" using that(1) p(3) by auto
    have "m1 \<le> x" using 1(4) x(1) that(3) by blast
    then have "m2 \<le> x" using 2(4) that(2) by blast
    then show ?thesis using x c by simp
  qed
qed

section \<open>One write keeps the document well formed\<close>

definition tombs_of :: "mesh_state \<Rightarrow> string set" where
  "tombs_of s = {k. jm_has (table_map (m_versions s)) k \<and> \<not> jm_has (m_entries s) k}"

definition order_of :: "mesh_state \<Rightarrow> string list" where
  "order_of s = (case m_tombstones s of None \<Rightarrow> [] | Some o' \<Rightarrow> o')"

text \<open>The document with its tombstone order telling exactly the deleted keys that keep a version.\<close>

definition graved :: "mesh_state \<Rightarrow> bool" where
  "graved s \<longleftrightarrow> mesh_ok s \<and> distinct (order_of s) \<and> set (order_of s) = tombs_of s"

lemma jm_has_set [simp]: "jm_has (jm_set k v m) k' \<longleftrightarrow> k' = k \<or> jm_has m k'"
  by (simp add: jm_has_def jm_get_set)

lemma jm_has_del [simp]: "jm_has (jm_del k m) k' \<longleftrightarrow> k' \<noteq> k \<and> jm_has m k'"
  by (simp add: jm_has_def jm_get_del)

lemma jm_get_filter: "jm_get (filter (\<lambda>p. P (fst p)) m) k = (if P k then jm_get m k else None)"
  by (induction m) auto

lemma mesh_okD:
  assumes "mesh_ok s"
  shows "m_versions s \<noteq> BadTable" "jm_ok (m_entries s)" "jm_ok (table_map (m_versions s))"
    and "\<And>k v. (k, v) \<in> set (table_map (m_versions s)) \<Longrightarrow> \<exists>n. v = Whole n \<and> 0 \<le> n \<and> n \<le> SAFE"
    and "\<And>k r. (k, r) \<in> set (m_entries s) \<Longrightarrow> \<exists>n e. r = Ent e \<and> e_key e = k \<and> e_version e = Whole n \<and> 0 < n \<and> n \<le> SAFE
      \<and> (jm_get (table_map (m_versions s)) k = None \<or> jm_get (table_map (m_versions s)) k = Some (Whole n))"
  using assms unfolding mesh_ok_def entry_revision_Inr by fastforce+

lemma store_put_ok:
  assumes ok: "mesh_ok s" and v: "0 < ver" "ver \<le> hw" "hw \<le> SAFE"
  shows "mesh_ok (store_put k v i ver hw now s)"
  unfolding mesh_ok_def
proof (intro conjI)
  let ?s = "store_put k v i ver hw now s"
  let ?e = "Ent \<lparr>e_key = k, e_value = v, e_version = Whole ver, e_at = now, e_by = i\<rparr>"
  have vs: "m_versions ?s = Table (jm_set k (Whole ver) (table_map (m_versions s)))"
    and es: "m_entries ?s = jm_set k ?e (m_entries s)" by (simp_all add: store_put_def)
  show "m_versions ?s \<noteq> BadTable" by (simp add: vs)
  show "jm_ok (m_entries ?s)" "jm_ok (table_map (m_versions ?s))"
    using mesh_okD(2,3) [OF ok] by (simp_all add: vs es table_map_def)
  show "\<forall>w \<in> snd ` set (table_map (m_versions ?s)). \<exists>n. w = Whole n \<and> 0 \<le> n \<and> n \<le> SAFE"
  proof
    fix w assume "w \<in> snd ` set (table_map (m_versions ?s))"
    then obtain k' where "(k', w) \<in> set (jm_set k (Whole ver) (table_map (m_versions s)))"
      by (auto simp: vs table_map_def)
    then have "(k', w) = (k, Whole ver) \<or> (k', w) \<in> set (table_map (m_versions s))"
      using set_jm_set [of k "Whole ver"] by blast
    then show "\<exists>n. w = Whole n \<and> 0 \<le> n \<and> n \<le> SAFE" using v mesh_okD(4) [OF ok] by (elim disjE) simp_all
  qed
  show "\<forall>p \<in> set (m_entries ?s). \<exists>n. entry_revision (m_versions ?s) (fst p) (snd p) = Inr n"
  proof
    fix p assume p: "p \<in> set (m_entries ?s)"
    have g: "jm_get (m_entries ?s) (fst p) = Some (snd p)"
      using p mesh_okD(2) [OF ok] by (simp add: es jm_in_set_get)
    show "\<exists>n. entry_revision (m_versions ?s) (fst p) (snd p) = Inr n"
    proof (cases "fst p = k")
      case True
      with g have "snd p = ?e" by (simp add: es jm_get_set)
      with True show ?thesis using v by (simp add: entry_revision_Inr vs table_map_def jm_get_set)
    next
      case False
      with g have "(fst p, snd p) \<in> set (m_entries s)" by (auto simp: es jm_get_set dest: jm_get_in_set)
      from mesh_okD(5) [OF ok this] False show ?thesis
        by (simp add: entry_revision_Inr vs table_map_def jm_get_set)
    qed
  qed
qed (use v in \<open>simp_all add: store_put_def\<close>)

lemma store_delete_ok:
  assumes ok: "mesh_ok s" and v: "0 < ver" "ver \<le> hw" "hw \<le> SAFE"
  shows "mesh_ok (store_delete k ver hw s)"
  unfolding mesh_ok_def
proof (intro conjI)
  let ?s = "store_delete k ver hw s"
  have vs: "m_versions ?s = Table (jm_set k (Whole ver) (table_map (m_versions s)))"
    and es: "m_entries ?s = jm_del k (m_entries s)" by (simp_all add: store_delete_def)
  show "m_versions ?s \<noteq> BadTable" by (simp add: vs)
  show "jm_ok (m_entries ?s)" "jm_ok (table_map (m_versions ?s))"
    using mesh_okD(2,3) [OF ok] by (simp_all add: vs es table_map_def)
  show "\<forall>w \<in> snd ` set (table_map (m_versions ?s)). \<exists>n. w = Whole n \<and> 0 \<le> n \<and> n \<le> SAFE"
  proof
    fix w assume "w \<in> snd ` set (table_map (m_versions ?s))"
    then obtain k' where "(k', w) \<in> set (jm_set k (Whole ver) (table_map (m_versions s)))"
      by (auto simp: vs table_map_def)
    then have "(k', w) = (k, Whole ver) \<or> (k', w) \<in> set (table_map (m_versions s))"
      using set_jm_set [of k "Whole ver"] by blast
    then show "\<exists>n. w = Whole n \<and> 0 \<le> n \<and> n \<le> SAFE" using v mesh_okD(4) [OF ok] by (elim disjE) simp_all
  qed
  show "\<forall>p \<in> set (m_entries ?s). \<exists>n. entry_revision (m_versions ?s) (fst p) (snd p) = Inr n"
  proof
    fix p assume p: "p \<in> set (m_entries ?s)"
    then have "(fst p, snd p) \<in> set (m_entries s)" "fst p \<noteq> k" by (auto simp: es set_jm_del)
    from mesh_okD(5) [OF ok this(1)] this(2) show "\<exists>n. entry_revision (m_versions ?s) (fst p) (snd p) = Inr n"
      by (simp add: entry_revision_Inr vs table_map_def jm_get_set)
  qed
qed (use v in \<open>simp_all add: store_delete_def\<close>)

lemma store_put_graved:
  "graved s \<Longrightarrow> 0 < ver \<Longrightarrow> ver \<le> hw \<Longrightarrow> hw \<le> SAFE \<Longrightarrow> graved (store_put k v i ver hw now s)"
  unfolding graved_def
  by (auto simp: store_put_ok) (auto simp: store_put_def tombs_of_def order_of_def table_map_def)

lemma store_delete_graved:
  "graved s \<Longrightarrow> 0 < ver \<Longrightarrow> ver \<le> hw \<Longrightarrow> hw \<le> SAFE \<Longrightarrow> graved (store_delete k ver hw s)"
  unfolding graved_def
  by (auto simp: store_delete_ok) (auto simp: store_delete_def tombs_of_def order_of_def table_map_def)

section \<open>Compaction\<close>

lemma walk_all: "distinct (seen @ ks) \<Longrightarrow> \<forall>k \<in> set ks. P k \<Longrightarrow> walk P seen ks = seen @ ks"
  by (induction ks arbitrary: seen) auto

lemma walk_none: "\<forall>k \<in> set ks. P k \<longrightarrow> k \<in> set seen \<Longrightarrow> walk P seen ks = seen"
  by (induction ks) auto

lemma ordered_graved: "graved s \<Longrightarrow> ordered_tombstones s = order_of s"
proof -
  assume g: "graved s"
  have d: "distinct ([] @ order_of s)" and st: "set (order_of s) = tombs_of s" using g by (simp_all add: graved_def)
  have w: "walk (\<lambda>k. \<not> jm_has (m_entries s) k \<and> jm_has (table_map (m_versions s)) k) [] (order_of s) = order_of s"
    by (rule walk_all [OF d, simplified]) (auto simp: st tombs_of_def)
  have "walk (\<lambda>k. \<not> jm_has (m_entries s) k) (order_of s) (own_keys (table_map (m_versions s))) = order_of s"
    by (rule walk_none) (auto simp: st tombs_of_def jm_has_iff)
  with w show ?thesis by (simp add: ordered_tombstones_def order_of_def [symmetric] Let_def)
qed

lemma set_last_n: "set (last_n n xs) \<subseteq> set xs"
  by (simp add: last_n_def set_drop_subset)

lemma length_last_n: "length (last_n n xs) = min n (length xs)"
  by (simp add: last_n_def)

lemma distinct_last_n: "distinct xs \<Longrightarrow> distinct (last_n n xs)"
  by (simp add: last_n_def)

lemma compact_get_version:
  "jm_get (table_map (m_versions (compact n s))) k
     = (if jm_has (m_entries s) k \<or> k \<in> set (last_n n (ordered_tombstones s)) then jm_get (table_map (m_versions s)) k else None)"
  using jm_get_filter [of "\<lambda>x. jm_has (m_entries s) x \<or> x \<in> set (last_n n (ordered_tombstones s))" "table_map (m_versions s)" k]
  by (simp add: compact_def Let_def table_map_def [of "Table _"])

lemma compact_ok:
  assumes ok: "mesh_ok s"
  shows "mesh_ok (compact n s)"
proof -
  let ?s = "compact n s"
  have es: "m_entries ?s = m_entries s" by (simp add: compact_def Let_def)
  have r: "set (table_map (m_versions ?s)) \<subseteq> set (table_map (m_versions s))"
    by (auto simp: compact_def Let_def table_map_def split: table.splits)
  have 1: "\<forall>w \<in> snd ` set (table_map (m_versions ?s)). \<exists>m. w = Whole m \<and> 0 \<le> m \<and> m \<le> SAFE"
    using r mesh_okD(4) [OF ok] by fastforce
  have 2: "\<forall>p \<in> set (m_entries ?s). \<exists>m. entry_revision (m_versions ?s) (fst p) (snd p) = Inr m"
  proof
    fix p assume "p \<in> set (m_entries ?s)"
    then have "(fst p, snd p) \<in> set (m_entries s)" by (simp add: es)
    from mesh_okD(5) [OF ok this] show "\<exists>m. entry_revision (m_versions ?s) (fst p) (snd p) = Inr m"
      by (auto simp: entry_revision_Inr compact_get_version)
  qed
  have 3: "m_versions ?s \<noteq> BadTable" "jm_ok (table_map (m_versions ?s))" "m_high ?s = m_high s"
    "m_format ?s = m_format s" "m_revision_format ?s = m_revision_format s"
    using mesh_okD(3) [OF ok] by (simp_all add: compact_def Let_def table_map_def)
  show ?thesis using ok 1 2 3 unfolding mesh_ok_def es by simp
qed

lemma compact_graved:
  assumes g: "graved s"
  shows "graved (compact n s)" and "order_of (compact n s) = last_n n (order_of s)"
proof -
  show o: "order_of (compact n s) = last_n n (order_of s)"
    by (simp add: compact_def Let_def ordered_graved [OF g]) (simp add: order_of_def)
  have "set (last_n n (order_of s)) \<subseteq> tombs_of s" using g set_last_n by (metis graved_def)
  then have "tombs_of (compact n s) = set (last_n n (order_of s))"
    by (auto simp: tombs_of_def jm_has_def compact_get_version ordered_graved [OF g])
      (auto simp: compact_def Let_def jm_has_def split: if_splits)
  then show "graved (compact n s)"
    using g o by (simp add: graved_def compact_ok distinct_last_n)
qed

section \<open>The clock\<close>

lemma store_put_clock:
  assumes ok: "mesh_ok s" and v: "0 < ver" "ver \<le> hw" "hw \<le> SAFE" and c: "clock s \<le> hw"
  shows "clock (store_put k v i ver hw now s) = hw"
proof (rule slot_of_ok(5))
  show "mesh_ok (store_put k v i ver hw now s)" by (rule store_put_ok [OF ok v])
  show "m_high (store_put k v i ver hw now s) = Some (Whole hw)" by (simp add: store_put_def)
next
  fix p
  let ?e = "Ent \<lparr>e_key = k, e_value = v, e_version = Whole ver, e_at = now, e_by = i\<rparr>"
  assume "p \<in> set (m_entries (store_put k v i ver hw now s))"
  then have "p = (k, ?e) \<or> p \<in> set (m_entries s)"
    using set_jm_set [of k ?e "m_entries s"] by (auto simp: store_put_def)
  then show "entry_version (snd p) \<le> hw"
    using slot_of_ok(6) [OF ok, of p] v c by (auto simp: entry_version_def whole_def)
next
  fix p
  assume "p \<in> set (table_map (m_versions (store_put k v i ver hw now s)))"
  then have "p = (k, Whole ver) \<or> p \<in> set (table_map (m_versions s))"
    using set_jm_set [of k "Whole ver" "table_map (m_versions s)"] by (auto simp: store_put_def table_map_def [of "Table _"])
  then show "whole (snd p) \<le> hw" using slot_of_ok(7) [OF ok, of p] v c by (auto simp: whole_def)
qed

lemma store_delete_clock:
  assumes ok: "mesh_ok s" and v: "0 < ver" "ver \<le> hw" "hw \<le> SAFE" and c: "clock s \<le> hw"
  shows "clock (store_delete k ver hw s) = hw"
proof (rule slot_of_ok(5))
  show "mesh_ok (store_delete k ver hw s)" by (rule store_delete_ok [OF ok v])
  show "m_high (store_delete k ver hw s) = Some (Whole hw)" by (simp add: store_delete_def)
next
  fix p assume "p \<in> set (m_entries (store_delete k ver hw s))"
  then have "p \<in> set (m_entries s)" by (auto simp: store_delete_def set_jm_del)
  then show "entry_version (snd p) \<le> hw" using slot_of_ok(6) [OF ok, of p] c by simp
next
  fix p assume "p \<in> set (table_map (m_versions (store_delete k ver hw s)))"
  then have "p = (k, Whole ver) \<or> p \<in> set (table_map (m_versions s))"
    using set_jm_set [of k "Whole ver" "table_map (m_versions s)"] by (auto simp: store_delete_def table_map_def [of "Table _"])
  then show "whole (snd p) \<le> hw" using slot_of_ok(7) [OF ok, of p] v c by (auto simp: whole_def)
qed

lemma compact_clock:
  assumes ok: "mesh_ok s" and h: "m_high s = Some (Whole (clock s))"
  shows "clock (compact n s) = clock s"
proof (rule slot_of_ok(5))
  show "mesh_ok (compact n s)" by (rule compact_ok [OF ok])
  show "m_high (compact n s) = Some (Whole (clock s))" by (simp add: compact_def Let_def h)
next
  fix p assume "p \<in> set (m_entries (compact n s))"
  then show "entry_version (snd p) \<le> clock s"
    using slot_of_ok(6) [OF ok, of p] by (simp add: compact_def Let_def)
next
  fix p assume "p \<in> set (table_map (m_versions (compact n s)))"
  then have "p \<in> set (table_map (m_versions s))"
    by (auto simp: compact_def Let_def table_map_def split: table.splits)
  then show "whole (snd p) \<le> clock s" using slot_of_ok(7) [OF ok, of p] by simp
qed

section \<open>The abstract store\<close>

text \<open>
  What a client may rely on: the live entries, the graveyard of deleted keys whose last version is still known
  (oldest first, of bounded length) and one clock that only goes up.
\<close>

record amesh =
  live :: "string \<Rightarrow> (string \<times> string \<times> int \<times> int) option"
  graves :: "(string \<times> int) list"
  clk :: int

definition a_version :: "amesh \<Rightarrow> string \<Rightarrow> int" where
  "a_version a k = (case live a k of Some (_, _, _, v) \<Rightarrow> v
     | None \<Rightarrow> (case map_of (graves a) k of Some v \<Rightarrow> v | None \<Rightarrow> 0))"

definition a_put :: "string \<Rightarrow> int option \<Rightarrow> string \<Rightarrow> string \<Rightarrow> int \<Rightarrow> amesh \<Rightarrow> mesh_error + (int \<times> amesh)" where
  "a_put k ifv v i now a = (if \<not> cas_ok ifv (a_version a k) then Inl (CasFailed k (the ifv) (a_version a k))
     else if clk a = SAFE then Inl (Exhausted k)
     else let nv = (if live a k \<noteq> None then a_version a k else clk a) + 1 in
       Inr (nv, a\<lparr>live := (live a)(k \<mapsto> (v, i, now, nv)), graves := filter (\<lambda>p. fst p \<noteq> k) (graves a), clk := clk a + 1\<rparr>))"

definition a_delete :: "string \<Rightarrow> int option \<Rightarrow> amesh \<Rightarrow> mesh_error + (int option \<times> amesh)" where
  "a_delete k ifv a = (if \<not> cas_ok ifv (a_version a k) then Inl (CasFailed k (the ifv) (a_version a k))
     else if live a k = None then Inr (None, a)
     else if clk a = SAFE then Inl (Exhausted k)
     else let nv = a_version a k + 1 in
       Inr (Some nv, a\<lparr>live := (live a)(k := None), graves := filter (\<lambda>p. fst p \<noteq> k) (graves a) @ [(k, nv)], clk := clk a + 1\<rparr>))"

definition a_trim :: "nat \<Rightarrow> amesh \<Rightarrow> amesh" where
  "a_trim n a = a\<lparr>graves := last_n n (graves a)\<rparr>"

definition entry_view :: "raw_entry \<Rightarrow> (string \<times> string \<times> int \<times> int) option" where
  "entry_view r = (case r of Ent e \<Rightarrow> Some (e_value e, e_by e, e_at e, whole (e_version e)) | BadEntry \<Rightarrow> None)"

definition absm :: "mesh_state \<Rightarrow> amesh" where
  "absm s = \<lparr>live = (\<lambda>k. Option.bind (jm_get (m_entries s) k) entry_view),
     graves = map (\<lambda>k. (k, slot_version s k)) (order_of s), clk = clock s\<rparr>"

lemma map_of_order: "map_of (map (\<lambda>k. (k, f k)) ks) k = (if k \<in> set ks then Some (f k) else None)"
  by (induction ks) auto

lemma live_absm:
  assumes "mesh_ok s"
  shows "live (absm s) k \<noteq> None \<longleftrightarrow> jm_has (m_entries s) k"
    and "jm_get (m_entries s) k = Some r \<Longrightarrow> \<exists>e. r = Ent e \<and> live (absm s) k = Some (e_value e, e_by e, e_at e, slot_version s k)"
proof -
  show e: "\<exists>e. r = Ent e \<and> live (absm s) k = Some (e_value e, e_by e, e_at e, slot_version s k)"
    if g: "jm_get (m_entries s) k = Some r" for r
  proof -
    obtain e where "r = Ent e" using mesh_okD(5) [OF assms jm_get_in_set [OF g]] by blast
    with g show ?thesis by (simp add: absm_def entry_view_def slot_version_def entry_version_def)
  qed
  show "live (absm s) k \<noteq> None \<longleftrightarrow> jm_has (m_entries s) k"
  proof (cases "jm_get (m_entries s) k")
    case None then show ?thesis by (simp add: absm_def jm_has_def)
  next
    case (Some r) with e [OF Some] show ?thesis by (auto simp: jm_has_def)
  qed
qed

lemma a_version_absm:
  assumes g: "graved s"
  shows "a_version (absm s) k = slot_version s k"
proof (cases "jm_get (m_entries s) k")
  case (Some r)
  then show ?thesis using live_absm(2) [of s k r] g by (auto simp: graved_def a_version_def)
next
  case None
  then have l: "live (absm s) k = None" by (simp add: absm_def)
  have "k \<in> set (order_of s) \<longleftrightarrow> jm_has (table_map (m_versions s)) k"
    using g None by (simp add: graved_def tombs_of_def jm_has_def)
  then show ?thesis using None l
    by (auto simp: a_version_def absm_def map_of_order slot_version_def jm_has_def)
qed

text \<open>The two document updates, seen abstractly.\<close>

lemma absm_store_put:
  assumes "mesh_ok s" "0 < ver" "ver \<le> hw" "hw \<le> SAFE" "clock s \<le> hw"
  shows "absm (store_put k v i ver hw now s) = (absm s)\<lparr>live := (live (absm s))(k \<mapsto> (v, i, now, ver)),
    graves := filter (\<lambda>p. fst p \<noteq> k) (graves (absm s)), clk := hw\<rparr>"
proof -
  have v: "k' \<noteq> k \<Longrightarrow> slot_version (store_put k v i ver hw now s) k' = slot_version s k'" for k'
    by (simp add: slot_version_def store_put_def jm_get_set table_map_def [of "Table _"] cong: option.case_cong)
  have o: "order_of (store_put k v i ver hw now s) = filter (\<lambda>x. x \<noteq> k) (order_of s)"
    by (simp add: store_put_def order_of_def)
  have l: "(\<lambda>k'. Option.bind (jm_get (m_entries (store_put k v i ver hw now s)) k') entry_view)
    = (\<lambda>k'. Option.bind (jm_get (m_entries s) k') entry_view)(k \<mapsto> (v, i, now, ver))"
    by (rule ext) (simp add: store_put_def jm_get_set entry_view_def whole_def)
  show ?thesis
    using store_put_clock [OF assms, of k v i now] v
    by (auto simp: absm_def o l filter_map o_def intro!: map_cong)
qed

lemma absm_store_delete:
  assumes "mesh_ok s" "0 < ver" "ver \<le> hw" "hw \<le> SAFE" "clock s \<le> hw"
  shows "absm (store_delete k ver hw s) = (absm s)\<lparr>live := (live (absm s))(k := None),
    graves := filter (\<lambda>p. fst p \<noteq> k) (graves (absm s)) @ [(k, ver)], clk := hw\<rparr>"
proof -
  have v: "k' \<noteq> k \<Longrightarrow> slot_version (store_delete k ver hw s) k' = slot_version s k'" for k'
    by (simp add: slot_version_def store_delete_def jm_get_set jm_get_del table_map_def [of "Table _"] cong: option.case_cong)
  have vk: "slot_version (store_delete k ver hw s) k = ver"
    by (simp add: slot_version_def store_delete_def jm_get_set jm_get_del table_map_def [of "Table _"] whole_def)
  have o: "order_of (store_delete k ver hw s) = filter (\<lambda>x. x \<noteq> k) (order_of s) @ [k]"
    by (simp add: store_delete_def order_of_def)
  have l: "(\<lambda>k'. Option.bind (jm_get (m_entries (store_delete k ver hw s)) k') entry_view)
    = (\<lambda>k'. Option.bind (jm_get (m_entries s) k') entry_view)(k := None)"
    by (rule ext) (simp add: store_delete_def jm_get_del)
  show ?thesis
    using store_delete_clock [OF assms, of k] v
    by (auto simp: absm_def o l vk filter_map o_def intro!: map_cong)
qed

lemma absm_compact:
  assumes g: "graved s" and h: "m_high s = Some (Whole (clock s))"
  shows "absm (compact n s) = a_trim n (absm s)"
proof -
  have es: "m_entries (compact n s) = m_entries s" by (simp add: compact_def Let_def)
  have v: "k \<in> set (last_n n (order_of s)) \<Longrightarrow> slot_version (compact n s) k = slot_version s k" for k
    by (simp add: slot_version_def es compact_get_version ordered_graved [OF g] cong: option.case_cong)
  have "map (\<lambda>k. (k, slot_version (compact n s) k)) (last_n n (order_of s))
    = last_n n (map (\<lambda>k. (k, slot_version s k)) (order_of s))"
    using v by (simp add: last_n_def drop_map)
  then show ?thesis
    using compact_clock [OF _ h] g by (simp add: absm_def es compact_graved(2) a_trim_def graved_def)
qed

section \<open>Batches\<close>

type_synonym view = "string \<times> string \<times> int \<times> int"

datatype policy = Skip | Abort
datatype on_conflict = NoPolicy | Fixed policy | Ask "view option \<Rightarrow> policy"
datatype 'v source = Static 'v | AtCommit "int \<Rightarrow> 'v"

text \<open>A batch operation; a delete may carry a condition on the entries as the batch has changed them so far.\<close>

datatype 'v batch_op =
  BPut (b_key: string) (b_value: "'v source") (b_identity: 'v) (b_if: "int option") (b_conflict: on_conflict)
| BDelete (b_key: string) (b_if: "int option") (b_conflict: on_conflict) (b_condition: "((string \<Rightarrow> view option) \<Rightarrow> bool) option")

type_synonym batch_result = "string \<times> bool \<times> int"

definition view_get :: "mesh_state \<Rightarrow> string \<Rightarrow> view option" where
  "view_get s k = Option.bind (jm_get (m_entries s) k) entry_view"

definition resolve_policy :: "on_conflict \<Rightarrow> view option \<Rightarrow> policy" where
  "resolve_policy c e = (case c of NoPolicy \<Rightarrow> Abort | Fixed p \<Rightarrow> p | Ask f \<Rightarrow> f e)"

definition condition_fails :: "'v batch_op \<Rightarrow> (string \<Rightarrow> view option) \<Rightarrow> bool" where
  "condition_fails op get = (case op of BDelete _ _ _ (Some c) \<Rightarrow> \<not> c get | _ \<Rightarrow> False)"

definition source_value :: "int \<Rightarrow> 'v source \<Rightarrow> 'v" where
  "source_value now src = (case src of Static v \<Rightarrow> v | AtCommit f \<Rightarrow> f now)"

definition op_request :: "'v store_cfg \<Rightarrow> int \<Rightarrow> 'v batch_op \<Rightarrow> mesh_error + request" where
  "op_request cfg now op = (case op of
     BDelete k ifv _ _ \<Rightarrow> capture_delete k ifv
   | BPut k src i ifv _ \<Rightarrow> capture_put cfg k ifv (source_value now src) i)"

record batch_state =
  b_state :: mesh_state
  b_tombs :: "string list"
  b_results :: "batch_result list"
  b_changed :: bool

definition write_entry :: "string \<Rightarrow> string \<Rightarrow> string \<Rightarrow> int \<Rightarrow> int \<Rightarrow> int \<Rightarrow> mesh_state \<Rightarrow> mesh_state" where
  "write_entry k v i ver hw now s = s\<lparr>
     m_entries := jm_set k (Ent \<lparr>e_key = k, e_value = v, e_version = Whole ver, e_at = now, e_by = i\<rparr>) (m_entries s),
     m_versions := Table (jm_set k (Whole ver) (table_map (m_versions s))),
     m_format := 1, m_revision_format := Some (Whole 2), m_high := Some (Whole hw)\<rparr>"

definition remove_entry :: "string \<Rightarrow> int \<Rightarrow> int \<Rightarrow> mesh_state \<Rightarrow> mesh_state" where
  "remove_entry k ver hw s = s\<lparr>
     m_entries := jm_del k (m_entries s),
     m_versions := Table (jm_set k (Whole ver) (table_map (m_versions s))),
     m_format := 1, m_revision_format := Some (Whole 2), m_high := Some (Whole hw)\<rparr>"

definition keep_result :: "string \<Rightarrow> int \<Rightarrow> batch_state \<Rightarrow> batch_state" where
  "keep_result k v b = b\<lparr>b_results := b_results b @ [(k, False, v)]\<rparr>"

definition apply_plan :: "int \<Rightarrow> slot \<Rightarrow> string \<Rightarrow> transition \<Rightarrow> batch_state \<Rightarrow> batch_state" where
  "apply_plan now sl key t b = (case t of
     TUnchanged \<Rightarrow> keep_result key (s_version sl) b
   | TDelete k ver hw \<Rightarrow> b\<lparr>b_state := remove_entry k ver hw (b_state b), b_tombs := filter (\<lambda>x. x \<noteq> k) (b_tombs b) @ [k],
       b_results := b_results b @ [(key, True, ver)], b_changed := True\<rparr>
   | TPut k v i ver hw \<Rightarrow> b\<lparr>b_state := write_entry k v i ver hw now (b_state b), b_tombs := filter (\<lambda>x. x \<noteq> k) (b_tombs b),
       b_results := b_results b @ [(key, True, ver)], b_changed := True\<rparr>)"

definition batch_step :: "'v store_cfg \<Rightarrow> int \<Rightarrow> 'v batch_op \<Rightarrow> batch_state \<Rightarrow> mesh_error + batch_state" where
  "batch_step cfg now op b = bind_e (state_slot (b_state b) (b_key op)) (\<lambda>sl.
     if condition_fails op (view_get (b_state b)) then Inr (keep_result (b_key op) (s_version sl) b)
     else if b_if op \<noteq> None \<and> b_if op \<noteq> Some (s_version sl) then
       (case resolve_policy (b_conflict op) (view_get (b_state b) (b_key op)) of
          Abort \<Rightarrow> Inl (BatchConflict (b_key op) (the (b_if op)) (s_version sl))
        | Skip \<Rightarrow> Inr (keep_result (b_key op) (s_version sl) b))
     else bind_e (op_request cfg now op) (\<lambda>rq.
       bind_e (run_transition (b_if op) rq (s_present sl) (s_version sl) (s_high sl)) (\<lambda>t.
         Inr (apply_plan now sl (b_key op) t b))))"

primrec batch_loop :: "'v store_cfg \<Rightarrow> int \<Rightarrow> 'v batch_op list \<Rightarrow> batch_state \<Rightarrow> mesh_error + batch_state" where
  "batch_loop cfg now [] b = Inr b"
| "batch_loop cfg now (op # ops) b = bind_e (batch_step cfg now op b) (batch_loop cfg now ops)"

primrec check_keys :: "'v batch_op list \<Rightarrow> mesh_error option" where
  "check_keys [] = None"
| "check_keys (op # ops) = (if \<not> key_valid (b_key op) then Some (InvalidKey (b_key op)) else check_keys ops)"

text \<open>
  One batch on the state read for it: the caller's operations, then those its \<open>prepare\<close> callback makes from a view
  of that state; the document is replaced only when an operation applied.
\<close>

definition write_batch_once :: "'v store_cfg \<Rightarrow> 'v batch_op list \<Rightarrow> ((string \<Rightarrow> view option) \<Rightarrow> (string \<Rightarrow> int) \<Rightarrow> 'v batch_op list)
    \<Rightarrow> int \<Rightarrow> mesh_state \<Rightarrow> mesh_error + (batch_result list \<times> mesh_state)" where
  "write_batch_once cfg ops prepare now s = (let all_ops = ops @ prepare (view_get s) (slot_version s) in
     case check_keys all_ops of Some e \<Rightarrow> Inl e
     | None \<Rightarrow> bind_e (batch_loop cfg now all_ops \<lparr>b_state = s, b_tombs = walk (\<lambda>_. True) [] (order_of s), b_results = [], b_changed = False\<rparr>)
         (\<lambda>b. Inr (b_results b, if b_changed b
            then compact (max_tombstones cfg) ((b_state b)\<lparr>m_tombstones := Some (b_tombs b)\<rparr>) else s)))"

definition write_batch :: "'v store_cfg \<Rightarrow> 'v batch_op list \<Rightarrow> ((string \<Rightarrow> view option) \<Rightarrow> (string \<Rightarrow> int) \<Rightarrow> 'v batch_op list)
    \<Rightarrow> int \<Rightarrow> mesh_state \<Rightarrow> mesh_error + (batch_result list \<times> mesh_state)" where
  "write_batch cfg ops prepare now s = (case check_keys ops of Some e \<Rightarrow> Inl e
     | None \<Rightarrow> write_batch_once cfg ops prepare now s)"

section \<open>The contract of the writes\<close>

definition spec_capture :: "'v store_cfg \<Rightarrow> 'v \<Rightarrow> 'v \<Rightarrow> mesh_error + (string \<times> string)" where
  "spec_capture cfg value identity = bind_e (serialize cfg identity) (\<lambda>ij. bind_e (serialize cfg value) (\<lambda>vj.
     if max_event_bytes cfg < byte_length cfg vj then Inl TooLarge else Inr (vj, ij)))"

definition valid_expected :: "int option \<Rightarrow> bool" where
  "valid_expected ifv \<longleftrightarrow> (case ifv of None \<Rightarrow> True | Some v \<Rightarrow> 0 \<le> v \<and> v \<le> SAFE)"

definition spec_put :: "'v store_cfg \<Rightarrow> string \<Rightarrow> int option \<Rightarrow> 'v \<Rightarrow> 'v \<Rightarrow> int \<Rightarrow> amesh \<Rightarrow> mesh_error + (int \<times> amesh)" where
  "spec_put cfg k ifv value identity now a = (if \<not> key_valid k then Inl (InvalidKey k)
     else if \<not> valid_expected ifv then Inl InvalidRevision
     else bind_e (spec_capture cfg value identity) (\<lambda>(v, i). bind_e (a_put k ifv v i now a) (\<lambda>(ver, a').
       Inr (ver, a_trim (max_tombstones cfg) a'))))"

definition spec_delete :: "'v store_cfg \<Rightarrow> string \<Rightarrow> int option \<Rightarrow> amesh \<Rightarrow> mesh_error + (int option \<times> amesh)" where
  "spec_delete cfg k ifv a = (if \<not> key_valid k then Inl (InvalidKey k)
     else if \<not> valid_expected ifv then Inl InvalidRevision
     else bind_e (a_delete k ifv a) (\<lambda>(r, a'). Inr (r, if r = None then a' else a_trim (max_tombstones cfg) a')))"

definition applied :: "batch_result \<Rightarrow> bool" where
  "applied r = fst (snd r)"

definition spec_step :: "'v store_cfg \<Rightarrow> int \<Rightarrow> 'v batch_op \<Rightarrow> amesh \<times> batch_result list \<Rightarrow> mesh_error + (amesh \<times> batch_result list)" where
  "spec_step cfg now op x = (case x of (a, rs) \<Rightarrow> let k = b_key op; v = a_version a k in
     if condition_fails op (live a) then Inr (a, rs @ [(k, False, v)])
     else if \<not> cas_ok (b_if op) v then
       (if resolve_policy (b_conflict op) (live a k) = Abort then Inl (BatchConflict k (the (b_if op)) v)
        else Inr (a, rs @ [(k, False, v)]))
     else (case op of
       BPut _ src i _ _ \<Rightarrow> bind_e (spec_capture cfg (source_value now src) i) (\<lambda>(vj, ij).
         bind_e (a_put k None vj ij now a) (\<lambda>(ver, a'). Inr (a', rs @ [(k, True, ver)])))
     | BDelete _ _ _ _ \<Rightarrow> bind_e (a_delete k None a) (\<lambda>(r, a'). Inr (a', rs @ [(k, r \<noteq> None, case r of None \<Rightarrow> v | Some w \<Rightarrow> w)]))))"

primrec spec_loop :: "'v store_cfg \<Rightarrow> int \<Rightarrow> 'v batch_op list \<Rightarrow> amesh \<times> batch_result list \<Rightarrow> mesh_error + (amesh \<times> batch_result list)" where
  "spec_loop cfg now [] x = Inr x"
| "spec_loop cfg now (op # ops) x = bind_e (spec_step cfg now op x) (spec_loop cfg now ops)"

definition spec_batch :: "'v store_cfg \<Rightarrow> 'v batch_op list \<Rightarrow> ((string \<Rightarrow> view option) \<Rightarrow> (string \<Rightarrow> int) \<Rightarrow> 'v batch_op list)
    \<Rightarrow> int \<Rightarrow> amesh \<Rightarrow> mesh_error + (batch_result list \<times> amesh)" where
  "spec_batch cfg ops prepare now a = (case check_keys ops of Some e \<Rightarrow> Inl e | None \<Rightarrow>
     (let all_ops = ops @ prepare (live a) (a_version a) in
      case check_keys all_ops of Some e \<Rightarrow> Inl e
      | None \<Rightarrow> bind_e (spec_loop cfg now all_ops (a, [])) (\<lambda>(a', rs).
          Inr (rs, if list_ex applied rs then a_trim (max_tombstones cfg) a' else a))))"

section \<open>Simulation\<close>

lemma clk_absm [simp]: "clk (absm s) = clock s"
  by (simp add: absm_def)

lemma live_view: "live (absm s) = view_get s"
  by (rule ext) (simp add: absm_def view_get_def)

lemma graved_ok: "graved s \<Longrightarrow> mesh_ok s"
  by (simp add: graved_def)

lemma put_transition:
  assumes g: "graved s" and rq: "capture key ifv (Put v i) = Inr rq"
  shows "run_transition ifv rq (jm_has (m_entries s) key) (slot_version s key) (clock s)
    = (case a_put key ifv v i now (absm s) of Inl e \<Rightarrow> Inl e | Inr (ver, a') \<Rightarrow> Inr (TPut key v i ver (clock s + 1)))"
  using run_transition_put [OF rq] slot_of_ok(1-3) [OF graved_ok [OF g], of key] slot_of_ok(4) [OF graved_ok [OF g]] live_absm(1) [OF graved_ok [OF g], of key]
  by (simp add: a_put_def a_version_absm [OF g] Let_def)

lemma put_simulation:
  assumes g: "graved s" and a: "a_put key ifv v i now (absm s) = Inr (ver, a')"
  shows "absm (store_put key v i ver (clock s + 1) now s) = a'"
    and "graved (store_put key v i ver (clock s + 1) now s)"
    and "m_high (store_put key v i ver (clock s + 1) now s) = Some (Whole (clock (store_put key v i ver (clock s + 1) now s)))"
proof -
  have ok: "mesh_ok s" by (rule graved_ok [OF g])
  have c: "clock s \<noteq> SAFE" "ver = (if jm_has (m_entries s) key then slot_version s key else clock s) + 1"
    using a live_absm(1) [OF ok, of key]
    by (auto simp: a_put_def Let_def a_version_absm [OF g] split: if_splits)
  then have v: "0 < ver" "ver \<le> clock s + 1" "clock s + 1 \<le> SAFE" "clock s \<le> clock s + 1"
    using slot_of_ok(2,3) [OF ok, of key] slot_of_ok(4) [OF ok] by auto
  show "absm (store_put key v i ver (clock s + 1) now s) = a'"
    using a unfolding absm_store_put [OF ok v] by (auto simp: a_put_def Let_def split: if_splits)
  show "graved (store_put key v i ver (clock s + 1) now s)" by (rule store_put_graved [OF g v(1-3)])
  show "m_high (store_put key v i ver (clock s + 1) now s) = Some (Whole (clock (store_put key v i ver (clock s + 1) now s)))"
    using store_put_clock [OF ok v] by (simp add: store_put_def)
qed

lemma delete_transition:
  assumes g: "graved s" and rq: "capture key ifv Delete = Inr rq"
  shows "run_transition ifv rq (jm_has (m_entries s) key) (slot_version s key) (clock s)
    = (case a_delete key ifv (absm s) of Inl e \<Rightarrow> Inl e | Inr (None, a') \<Rightarrow> Inr TUnchanged
       | Inr (Some ver, a') \<Rightarrow> Inr (TDelete key ver (clock s + 1)))"
  using run_transition_delete [OF rq] slot_of_ok(1-3) [OF graved_ok [OF g], of key] slot_of_ok(4) [OF graved_ok [OF g]] live_absm(1) [OF graved_ok [OF g], of key]
  by (cases "live (absm s) key") (simp_all add: a_delete_def a_version_absm [OF g] Let_def)

lemma delete_simulation:
  assumes g: "graved s" and a: "a_delete key ifv (absm s) = Inr (Some ver, a')"
  shows "absm (store_delete key ver (clock s + 1) s) = a'"
    and "graved (store_delete key ver (clock s + 1) s)"
    and "m_high (store_delete key ver (clock s + 1) s) = Some (Whole (clock (store_delete key ver (clock s + 1) s)))"
proof -
  have ok: "mesh_ok s" by (rule graved_ok [OF g])
  have c: "clock s \<noteq> SAFE" "ver = slot_version s key + 1"
    using a by (auto simp: a_delete_def Let_def a_version_absm [OF g] split: if_splits)
  then have v: "0 < ver" "ver \<le> clock s + 1" "clock s + 1 \<le> SAFE" "clock s \<le> clock s + 1"
    using slot_of_ok(2,3) [OF ok, of key] slot_of_ok(4) [OF ok] by auto
  show "absm (store_delete key ver (clock s + 1) s) = a'"
    using a unfolding absm_store_delete [OF ok v] by (auto simp: a_delete_def Let_def split: if_splits)
  show "graved (store_delete key ver (clock s + 1) s)" by (rule store_delete_graved [OF g v(1-3)])
  show "m_high (store_delete key ver (clock s + 1) s) = Some (Whole (clock (store_delete key ver (clock s + 1) s)))"
    using store_delete_clock [OF ok v] by (simp add: store_delete_def)
qed

lemma delete_unchanged: "a_delete key ifv a = Inr (None, a') \<Longrightarrow> a' = a"
  by (auto simp: a_delete_def Let_def split: if_splits)

lemma capture_spec:
  "capture key ifv c = (if \<not> valid_expected ifv then Inl InvalidRevision
     else Inr \<lparr>rq_key = key, rq_expected = (case ifv of None \<Rightarrow> AnyVersion | Some v \<Rightarrow> At (rev_of v)), rq_change = c\<rparr>)"
  by (cases ifv) (auto simp: capture_def valid_expected_def encode_revision_def storage_revision_def rev_of_def)

lemma capture_put_spec:
  "capture_put cfg key ifv value identity = (if \<not> valid_expected ifv then Inl InvalidRevision
     else bind_e (spec_capture cfg value identity) (\<lambda>(v, i). capture key ifv (Put v i)))"
  by (cases ifv)
    (auto simp: capture_put_def spec_capture_def bind_e_def valid_expected_def storage_revision_def split: sum.splits)

abbreviation lift_abs :: "mesh_error + ('r \<times> mesh_state) \<Rightarrow> mesh_error + ('r \<times> amesh)" where
  "lift_abs \<equiv> map_sum id (map_prod id absm)"

lemma put_refines: "graved s \<Longrightarrow> lift_abs (put cfg k ifv value identity now s) = spec_put cfg k ifv value identity now (absm s)"
proof -
  assume g: "graved s"
  show ?thesis
  proof (cases "key_valid k \<and> valid_expected ifv")
    case False then show ?thesis by (auto simp: put_def spec_put_def capture_put_spec)
  next
    case True
    show ?thesis
    proof (cases "spec_capture cfg value identity")
      case (Inl e) with True show ?thesis by (simp add: put_def spec_put_def capture_put_spec)
    next
      case (Inr p)
      obtain v i where p: "p = (v, i)" by (cases p)
      obtain rq where rq: "capture k ifv (Put v i) = Inr rq" using True by (simp add: capture_spec)
      have pc: "put cfg k ifv value identity now s = put_change cfg k ifv rq now s"
        using True Inr p rq by (simp add: put_def capture_put_spec)
      have sp: "spec_put cfg k ifv value identity now (absm s)
        = bind_e (a_put k ifv v i now (absm s)) (\<lambda>(ver, a'). Inr (ver, a_trim (max_tombstones cfg) a'))"
        using True Inr p by (simp add: spec_put_def)
      show ?thesis
      proof (cases "a_put k ifv v i now (absm s)")
        case (Inl e)
        then show ?thesis unfolding pc sp put_change_def
          by (simp add: slot_of_ok(1) [OF graved_ok [OF g]] put_transition [OF g rq, of now])
      next
        case (Inr q)
        obtain ver a' where q: "a_put k ifv v i now (absm s) = Inr (ver, a')" using Inr by (cases q) simp
        show ?thesis unfolding pc sp put_change_def
          using put_simulation [OF g q] absm_compact
          by (simp add: slot_of_ok(1) [OF graved_ok [OF g]] put_transition [OF g rq, of now] q)
      qed
    qed
  qed
qed

lemma delete_refines: "graved s \<Longrightarrow> lift_abs (delete cfg k ifv s) = spec_delete cfg k ifv (absm s)"
proof -
  assume g: "graved s"
  show ?thesis
  proof (cases "key_valid k \<and> valid_expected ifv")
    case False then show ?thesis by (auto simp: delete_def spec_delete_def capture_delete_def capture_spec)
  next
    case True
    then obtain rq where rq: "capture k ifv Delete = Inr rq" by (simp add: capture_spec)
    have dc: "delete cfg k ifv s = delete_change cfg k ifv rq s"
      using True rq by (simp add: delete_def capture_delete_def)
    have sl: "state_slot s k = Inr \<lparr>s_present = jm_has (m_entries s) k, s_version = slot_version s k, s_high = clock s\<rparr>"
      by (rule slot_of_ok(1) [OF graved_ok [OF g]])
    note t = delete_transition [OF g rq]
    show ?thesis
    proof (cases "a_delete k ifv (absm s)")
      case (Inl e) then show ?thesis using True by (simp add: dc spec_delete_def delete_change_def sl t)
    next
      case (Inr q)
      obtain r a' where q: "q = (r, a')" by (cases q)
      show ?thesis
      proof (cases r)
        case None then show ?thesis
          using True Inr q delete_unchanged [of k ifv "absm s" a'] by (simp add: dc spec_delete_def delete_change_def sl t)
      next
        case (Some ver)
        then show ?thesis using True Inr q delete_simulation [OF g, of k ifv ver a'] absm_compact
          by (simp add: dc spec_delete_def delete_change_def sl t)
      qed
    qed
  qed
qed

definition staged :: "batch_state \<Rightarrow> mesh_state" where
  "staged b = (b_state b)\<lparr>m_tombstones := Some (b_tombs b)\<rparr>"

definition b_rel :: "batch_state \<Rightarrow> amesh \<times> batch_result list \<Rightarrow> bool" where
  "b_rel b x \<longleftrightarrow> graved (staged b) \<and> absm (staged b) = fst x \<and> b_results b = snd x
     \<and> b_changed b = list_ex applied (snd x)
     \<and> (b_changed b \<longrightarrow> m_high (b_state b) = Some (Whole (clock (staged b))))"

lemma slot_version_staged [simp]: "slot_version (s\<lparr>m_tombstones := t\<rparr>) k = slot_version s k"
  by (simp add: slot_version_def cong: option.case_cong)

lemma state_slot_staged [simp]: "state_slot (s\<lparr>m_tombstones := t\<rparr>) k = state_slot s k"
  by (simp add: state_slot_def cong: option.case_cong if_cong)

lemma view_get_staged [simp]: "view_get (s\<lparr>m_tombstones := t\<rparr>) = view_get s"
  by (rule ext) (simp add: view_get_def)

lemma staged_put: "(write_entry k v i ver hw now s)\<lparr>m_tombstones := Some (filter (\<lambda>x. x \<noteq> k) ts)\<rparr>
    = store_put k v i ver hw now (s\<lparr>m_tombstones := Some ts\<rparr>)"
  by (simp add: write_entry_def store_put_def)

lemma staged_delete: "(remove_entry k ver hw s)\<lparr>m_tombstones := Some (filter (\<lambda>x. x \<noteq> k) ts @ [k])\<rparr>
    = store_delete k ver hw (s\<lparr>m_tombstones := Some ts\<rparr>)"
  by (simp add: remove_entry_def store_delete_def)

lemma a_put_cas: "cas_ok ifv (a_version a k) \<Longrightarrow> a_put k ifv v i now a = a_put k None v i now a"
  by (simp add: a_put_def cas_ok_def)

lemma a_delete_cas: "cas_ok ifv (a_version a k) \<Longrightarrow> a_delete k ifv a = a_delete k None a"
  by (simp add: a_delete_def cas_ok_def)

lemma b_rel_keep: "b_rel b (a, rs) \<Longrightarrow> b_rel (keep_result k v b) (a, rs @ [(k, False, v)])"
  by (simp add: b_rel_def keep_result_def staged_def applied_def)

lemma b_rel_put:
  assumes r: "b_rel b (a, rs)" and p: "a_put k ifv v i now a = Inr (ver, a')"
  shows "b_rel (apply_plan now sl k (TPut k v i ver (clock (staged b) + 1)) b) (a', rs @ [(k, True, ver)])"
proof -
  have g: "graved (staged b)" and a: "a_put k ifv v i now (absm (staged b)) = Inr (ver, a')"
    using r p by (simp_all add: b_rel_def)
  have e: "staged (apply_plan now sl k (TPut k v i ver (clock (staged b) + 1)) b) = store_put k v i ver (clock (staged b) + 1) now (staged b)"
    by (simp add: staged_def apply_plan_def staged_put)
  have h: "m_high (b_state (apply_plan now sl k (TPut k v i ver (clock (staged b) + 1)) b))
      = m_high (store_put k v i ver (clock (staged b) + 1) now (staged b))"
    by (simp add: apply_plan_def write_entry_def store_put_def)
  show ?thesis unfolding b_rel_def e h using put_simulation [OF g a] r
    by (simp add: apply_plan_def b_rel_def applied_def)
qed

lemma b_rel_delete:
  assumes r: "b_rel b (a, rs)" and p: "a_delete k ifv a = Inr (Some ver, a')"
  shows "b_rel (apply_plan now sl k (TDelete k ver (clock (staged b) + 1)) b) (a', rs @ [(k, True, ver)])"
proof -
  have g: "graved (staged b)" and a: "a_delete k ifv (absm (staged b)) = Inr (Some ver, a')"
    using r p by (simp_all add: b_rel_def)
  have e: "staged (apply_plan now sl k (TDelete k ver (clock (staged b) + 1)) b) = store_delete k ver (clock (staged b) + 1) (staged b)"
    by (simp add: staged_def apply_plan_def staged_delete)
  have h: "m_high (b_state (apply_plan now sl k (TDelete k ver (clock (staged b) + 1)) b))
      = m_high (store_delete k ver (clock (staged b) + 1) (staged b))"
    by (simp add: apply_plan_def remove_entry_def store_delete_def)
  show ?thesis unfolding b_rel_def e h using delete_simulation [OF g a] r
    by (simp add: apply_plan_def b_rel_def applied_def)
qed

text \<open>Both sides of a simulation step: the same error, or related results.\<close>

definition sim :: "('x \<Rightarrow> 'y \<Rightarrow> bool) \<Rightarrow> 'e + 'x \<Rightarrow> 'e + 'y \<Rightarrow> bool" where
  "sim R x y \<longleftrightarrow> (case x of Inl e \<Rightarrow> y = Inl e | Inr u \<Rightarrow> (case y of Inl _ \<Rightarrow> False | Inr w \<Rightarrow> R u w))"

lemma sim_simps [simp]: "sim R (Inl e) (Inl d) \<longleftrightarrow> d = e" "sim R (Inr u) (Inr w) \<longleftrightarrow> R u w"
  "\<not> sim R (Inr u) (Inl d)" "\<not> sim R (Inl e) (Inr w)"
  by (simp_all add: sim_def)

lemma sim_bind: "sim R x y \<Longrightarrow> (\<And>u w. R u w \<Longrightarrow> sim Q (f u) (g w)) \<Longrightarrow> sim Q (bind_e x f) (bind_e y g)"
  by (cases x; cases y) auto

lemma run_put_sim:
  assumes r: "b_rel b (a, rs)" and rq: "capture k ifv (Put vj ij) = Inr rq"
    and s: "state_slot (b_state b) k = Inr sl" and c: "cas_ok ifv (a_version a k)"
  shows "sim b_rel (bind_e (run_transition ifv rq (s_present sl) (s_version sl) (s_high sl)) (\<lambda>t. Inr (apply_plan now sl k t b)))
     (bind_e (a_put k None vj ij now a) (\<lambda>(ver, a'). Inr (a', rs @ [(k, True, ver)])))"
proof -
  have g: "graved (staged b)" and a: "absm (staged b) = a" using r by (simp_all add: b_rel_def)
  have sl: "sl = \<lparr>s_present = jm_has (m_entries (staged b)) k, s_version = slot_version (staged b) k, s_high = clock (staged b)\<rparr>"
    using s slot_of_ok(1) [OF graved_ok [OF g], of k] by (simp add: staged_def)
  note t = put_transition [OF g rq, of now] a_put_cas [OF c, of vj ij now]
  show ?thesis
  proof (cases "a_put k None vj ij now a")
    case (Inl e) then show ?thesis using t by (simp add: sl a)
  next
    case (Inr q)
    obtain ver a' where q: "a_put k None vj ij now a = Inr (ver, a')" using Inr by (cases q) simp
    show ?thesis using t b_rel_put [OF r q, of sl] by (simp add: sl a q)
  qed
qed

lemma run_delete_sim:
  assumes r: "b_rel b (a, rs)" and rq: "capture k ifv Delete = Inr rq"
    and s: "state_slot (b_state b) k = Inr sl" and c: "cas_ok ifv (a_version a k)"
  shows "sim b_rel (bind_e (run_transition ifv rq (s_present sl) (s_version sl) (s_high sl)) (\<lambda>t. Inr (apply_plan now sl k t b)))
     (bind_e (a_delete k None a) (\<lambda>(r, a'). Inr (a', rs @ [(k, r \<noteq> None, case r of None \<Rightarrow> a_version a k | Some w \<Rightarrow> w)])))"
proof -
  have g: "graved (staged b)" and a: "absm (staged b) = a" using r by (simp_all add: b_rel_def)
  have sl: "sl = \<lparr>s_present = jm_has (m_entries (staged b)) k, s_version = slot_version (staged b) k, s_high = clock (staged b)\<rparr>"
    using s slot_of_ok(1) [OF graved_ok [OF g], of k] by (simp add: staged_def)
  have v: "a_version a k = slot_version (staged b) k" using a_version_absm [OF g, of k] a by simp
  note t = delete_transition [OF g rq] a_delete_cas [OF c]
  show ?thesis
  proof (cases "a_delete k None a")
    case (Inl e) then show ?thesis using t by (simp add: sl a)
  next
    case (Inr q)
    obtain d a' where q: "a_delete k None a = Inr (d, a')" using Inr by (cases q) simp
    show ?thesis
    proof (cases d)
      case None
      then show ?thesis
        using t q delete_unchanged [of k None a a'] b_rel_keep [OF r] by (simp add: sl a apply_plan_def v)
    next
      case (Some ver)
      then have q': "a_delete k None a = Inr (Some ver, a')" using q by simp
      show ?thesis using t b_rel_delete [OF r q', of now sl] by (simp add: sl a q')
    qed
  qed
qed

lemma spec_capture_sim:
  assumes "\<And>vj ij rq. capture k ifv (Put vj ij) = Inr rq \<Longrightarrow> sim R (f rq) (g (vj, ij))" and "valid_expected ifv"
  shows "sim R (bind_e (capture_put cfg k ifv value identity) f) (bind_e (spec_capture cfg value identity) g)"
  using assms by (cases "spec_capture cfg value identity") (auto simp: capture_put_spec capture_spec)

lemma batch_step_sim:
  assumes r: "b_rel b (a, rs)"
  shows "sim b_rel (batch_step cfg now op b) (spec_step cfg now op (a, rs))"
proof -
  have g: "graved (staged b)" and a: "absm (staged b) = a" using r by (simp_all add: b_rel_def)
  let ?k = "b_key op"
  obtain sl where sl: "state_slot (b_state b) ?k = Inr sl" and v: "s_version sl = a_version a ?k"
    using slot_of_ok(1) [OF graved_ok [OF g], of ?k] a_version_absm [OF g, of ?k] a by (simp add: staged_def)
  have vs: "0 \<le> s_version sl" "s_version sl \<le> SAFE"
    using slot_of_ok(2,3) [OF graved_ok [OF g], of ?k] slot_of_ok(4) [OF graved_ok [OF g]] a_version_absm [OF g, of ?k] a v
    by simp_all
  have lv: "live a = view_get (b_state b)" using live_view [of "staged b"] a by (simp add: staged_def)
  have cs: "(b_if op \<noteq> None \<and> b_if op \<noteq> Some (s_version sl)) = (\<not> cas_ok (b_if op) (a_version a ?k))"
    using v by (auto simp: cas_ok_def split: option.splits)
  show ?thesis
  proof (cases "condition_fails op (view_get (b_state b))")
    case True then show ?thesis
      using b_rel_keep [OF r] by (simp add: batch_step_def spec_step_def sl lv v Let_def)
  next
    case cond: False
    show ?thesis
    proof (cases "cas_ok (b_if op) (a_version a ?k)")
      case False
      then show ?thesis using b_rel_keep [OF r] cond unfolding batch_step_def spec_step_def sl bind_e_simps cs
        by (cases "resolve_policy (b_conflict op) (view_get (b_state b) ?k)") (simp_all add: lv v Let_def)
    next
      case True
      have ve: "valid_expected (b_if op)"
        using True vs v by (cases "b_if op") (auto simp: valid_expected_def cas_ok_def)
      have bs: "batch_step cfg now op b = bind_e (op_request cfg now op) (\<lambda>rq.
         bind_e (run_transition (b_if op) rq (s_present sl) (s_version sl) (s_high sl)) (\<lambda>t. Inr (apply_plan now sl ?k t b)))"
        using cond True unfolding batch_step_def sl bind_e_simps cs by simp
      show ?thesis
      proof (cases op)
        case (BPut k src i ifv c)
        have "sim b_rel (bind_e (capture_put cfg k ifv (source_value now src) i) (\<lambda>rq.
            bind_e (run_transition ifv rq (s_present sl) (s_version sl) (s_high sl)) (\<lambda>t. Inr (apply_plan now sl k t b))))
          (bind_e (spec_capture cfg (source_value now src) i) (\<lambda>(vj, ij).
            bind_e (a_put k None vj ij now a) (\<lambda>(ver, a'). Inr (a', rs @ [(k, True, ver)]))))"
          using ve BPut sl True r by (intro spec_capture_sim) (simp_all add: run_put_sim)
        then show ?thesis using cond True unfolding bs by (simp add: spec_step_def BPut lv op_request_def)
      next
        case (BDelete k ifv c cnd)
        obtain rq where rq: "capture k ifv Delete = Inr rq" using ve BDelete by (simp add: capture_spec)
        show ?thesis using run_delete_sim [OF r rq, of sl now] sl True cond unfolding bs
          by (simp add: spec_step_def BDelete lv op_request_def capture_delete_def rq)
      qed
    qed
  qed
qed

lemma batch_loop_sim: "b_rel b x \<Longrightarrow> sim b_rel (batch_loop cfg now ops b) (spec_loop cfg now ops x)"
proof (induction ops arbitrary: b x)
  case Nil then show ?case by simp
next
  case (Cons op ops)
  have "sim b_rel (batch_step cfg now op b) (spec_step cfg now op x)"
    using batch_step_sim [of b "fst x" "snd x"] Cons.prems by simp
  then show ?case using Cons.IH by (auto intro: sim_bind)
qed

lemma batch_init_rel: "graved s \<Longrightarrow> b_rel \<lparr>b_state = s, b_tombs = walk (\<lambda>_. True) [] (order_of s), b_results = [], b_changed = False\<rparr> (absm s, [])"
proof -
  assume g: "graved s"
  have w: "walk (\<lambda>_. True) [] (order_of s) = order_of s"
    using g by (subst walk_all) (simp_all add: graved_def)
  have e: "staged \<lparr>b_state = s, b_tombs = order_of s, b_results = [], b_changed = False\<rparr> = s\<lparr>m_tombstones := Some (order_of s)\<rparr>"
    by (simp add: staged_def)
  have o: "order_of (s\<lparr>m_tombstones := Some (order_of s)\<rparr>) = order_of s" by (simp add: order_of_def)
  have g': "graved (s\<lparr>m_tombstones := Some (order_of s)\<rparr>)"
    using g by (simp add: graved_def mesh_ok_def tombs_of_def o)
  have "absm (s\<lparr>m_tombstones := Some (order_of s)\<rparr>) = absm s"
    by (simp add: absm_def o clock_def)
  then show ?thesis using g' by (simp add: b_rel_def w e)
qed

lemma batch_once_sim:
  assumes g: "graved s"
  shows "lift_abs (write_batch_once cfg ops prepare now s) = (let all_ops = ops @ prepare (live (absm s)) (a_version (absm s)) in
      case check_keys all_ops of Some e \<Rightarrow> Inl e
      | None \<Rightarrow> bind_e (spec_loop cfg now all_ops (absm s, [])) (\<lambda>(a', rs).
          Inr (rs, if list_ex applied rs then a_trim (max_tombstones cfg) a' else absm s)))"
proof -
  have av: "a_version (absm s) = slot_version s" by (rule ext) (rule a_version_absm [OF g])
  let ?ops = "ops @ prepare (view_get s) (slot_version s)"
  let ?b = "\<lparr>b_state = s, b_tombs = walk (\<lambda>_. True) [] (order_of s), b_results = [], b_changed = False\<rparr>"
  have sm: "sim b_rel (batch_loop cfg now ?ops ?b) (spec_loop cfg now ?ops (absm s, []))"
    by (rule batch_loop_sim [OF batch_init_rel [OF g]])
  show ?thesis
  proof (cases "check_keys ?ops")
    case Some then show ?thesis by (simp add: write_batch_once_def live_view av Let_def)
  next
    case None
    show ?thesis
    proof (cases "spec_loop cfg now ?ops (absm s, [])")
      case (Inl e)
      then have "batch_loop cfg now ?ops ?b = Inl e" using sm by (cases "batch_loop cfg now ?ops ?b") simp_all
      then show ?thesis using None Inl by (simp add: write_batch_once_def live_view av Let_def)
    next
      case (Inr q)
      obtain a' rs where q: "q = (a', rs)" by (cases q)
      then obtain b' where b: "batch_loop cfg now ?ops ?b = Inr b'" and rl: "b_rel b' (a', rs)"
        using sm Inr by (cases "batch_loop cfg now ?ops ?b") simp_all
      have "b_changed b' \<Longrightarrow> absm (compact (max_tombstones cfg) (staged b')) = a_trim (max_tombstones cfg) a'"
        using rl absm_compact [of "staged b'"] by (simp add: b_rel_def staged_def)
      then show ?thesis using None Inr b rl q
        by (simp add: write_batch_once_def live_view av Let_def b_rel_def staged_def)
    qed
  qed
qed

lemma batch_refines: "graved s \<Longrightarrow> lift_abs (write_batch cfg ops prepare now s) = spec_batch cfg ops prepare now (absm s)"
  using batch_once_sim [of s cfg ops prepare now]
  by (simp add: write_batch_def spec_batch_def split: option.split)

section \<open>Every write keeps the document well formed\<close>

definition tidy :: "nat \<Rightarrow> mesh_state \<Rightarrow> bool" where
  "tidy n s \<longleftrightarrow> graved s \<and> length (order_of s) \<le> n"

lemma compact_tidy: "graved s \<Longrightarrow> tidy n (compact n s)"
  by (simp add: tidy_def compact_graved length_last_n)

lemma put_tidy:
  assumes g: "graved s" and p: "put cfg k ifv value identity now s = Inr (ver, s')"
  shows "tidy (max_tombstones cfg) s'"
proof -
  obtain v i where c: "capture k ifv (Put v i) = Inr \<lparr>rq_key = k, rq_expected = (case ifv of None \<Rightarrow> AnyVersion | Some v \<Rightarrow> At (rev_of v)), rq_change = Put v i\<rparr>"
    and pc: "put_change cfg k ifv \<lparr>rq_key = k, rq_expected = (case ifv of None \<Rightarrow> AnyVersion | Some v \<Rightarrow> At (rev_of v)), rq_change = Put v i\<rparr> now s = Inr (ver, s')"
    using p by (auto simp: put_def capture_put_spec capture_spec bind_e_Inr split: if_splits prod.splits)
  obtain a' where a: "a_put k ifv v i now (absm s) = Inr (ver, a')" and s': "s' = compact (max_tombstones cfg) (store_put k v i ver (clock s + 1) now s)"
    using pc by (auto simp: put_change_def slot_of_ok(1) [OF graved_ok [OF g]] put_transition [OF g c, of now] bind_e_Inr split: sum.splits)
  show ?thesis unfolding s' by (rule compact_tidy [OF put_simulation(2) [OF g a]])
qed

lemma delete_tidy:
  assumes g: "graved s" and p: "delete cfg k ifv s = Inr (r, s')"
  shows "if r = None then s' = s else tidy (max_tombstones cfg) s'"
proof -
  obtain rq where c: "capture k ifv Delete = Inr rq" and dc: "delete_change cfg k ifv rq s = Inr (r, s')"
    using p by (auto simp: delete_def capture_delete_def bind_e_Inr split: if_splits)
  show ?thesis
  proof (cases r)
    case None then show ?thesis using dc
      by (auto simp: delete_change_def slot_of_ok(1) [OF graved_ok [OF g]] delete_transition [OF g c] bind_e_Inr split: sum.splits option.splits)
  next
    case (Some ver)
    obtain a' where a: "a_delete k ifv (absm s) = Inr (Some ver, a')" and s': "s' = compact (max_tombstones cfg) (store_delete k ver (clock s + 1) s)"
      using dc Some by (auto simp: delete_change_def slot_of_ok(1) [OF graved_ok [OF g]] delete_transition [OF g c] bind_e_Inr split: sum.splits option.splits)
    show ?thesis using compact_tidy [OF delete_simulation(2) [OF g a]] Some s' by simp
  qed
qed

lemma batch_tidy:
  assumes g: "graved s" and p: "write_batch cfg ops prepare now s = Inr (rs, s')"
  shows "if list_ex applied rs then tidy (max_tombstones cfg) s' else s' = s"
proof -
  let ?ops = "ops @ prepare (view_get s) (slot_version s)"
  let ?b = "\<lparr>b_state = s, b_tombs = walk (\<lambda>_. True) [] (order_of s), b_results = [], b_changed = False\<rparr>"
  obtain b where b: "batch_loop cfg now ?ops ?b = Inr b" and rs: "b_results b = rs"
    and s': "s' = (if b_changed b then compact (max_tombstones cfg) ((b_state b)\<lparr>m_tombstones := Some (b_tombs b)\<rparr>) else s)"
    using p by (auto simp: write_batch_def write_batch_once_def Let_def bind_e_Inr split: option.splits)
  have "sim b_rel (batch_loop cfg now ?ops ?b) (spec_loop cfg now ?ops (absm s, []))"
    by (rule batch_loop_sim [OF batch_init_rel [OF g]])
  then obtain x where x: "b_rel b x" using b by (cases "spec_loop cfg now ?ops (absm s, [])") simp_all
  then show ?thesis using s' rs compact_tidy [of "staged b"] by (simp add: b_rel_def staged_def)
qed

section \<open>Version tokens\<close>

text \<open>A client call and the version tokens it hands out; a rejected call leaves the document as it is.\<close>

datatype 'v mesh_call =
  CallPut string "int option" 'v 'v int
| CallDelete string "int option"
| CallBatch "'v batch_op list" "(string \<Rightarrow> view option) \<Rightarrow> (string \<Rightarrow> int) \<Rightarrow> 'v batch_op list" int

type_synonym token = "string \<times> int"

definition tokens_of :: "batch_result list \<Rightarrow> token list" where
  "tokens_of rs = map (\<lambda>r. (fst r, snd (snd r))) (filter applied rs)"

definition call :: "'v store_cfg \<Rightarrow> 'v mesh_call \<Rightarrow> mesh_state \<Rightarrow> mesh_error + (token list \<times> mesh_state)" where
  "call cfg c s = (case c of
     CallPut k ifv v i now \<Rightarrow> map_sum id (\<lambda>(ver, s'). ([(k, ver)], s')) (put cfg k ifv v i now s)
   | CallDelete k ifv \<Rightarrow> map_sum id (\<lambda>(r, s'). (case r of None \<Rightarrow> [] | Some ver \<Rightarrow> [(k, ver)], s')) (delete cfg k ifv s)
   | CallBatch ops prepare now \<Rightarrow> map_sum id (\<lambda>(rs, s'). (tokens_of rs, s')) (write_batch cfg ops prepare now s))"

definition mesh_step :: "'v store_cfg \<Rightarrow> mesh_state \<times> token list \<Rightarrow> 'v mesh_call \<Rightarrow> mesh_state \<times> token list" where
  "mesh_step cfg x c = (case call cfg c (fst x) of Inl _ \<Rightarrow> x | Inr (ts, s') \<Rightarrow> (s', snd x @ ts))"

primrec increasing :: "token list \<Rightarrow> bool" where
  "increasing [] \<longleftrightarrow> True"
| "increasing (t # ts) \<longleftrightarrow> list_all (\<lambda>u. fst u = fst t \<longrightarrow> snd t < snd u) ts \<and> increasing ts"

lemma increasing_snoc: "increasing (ts @ [u]) \<longleftrightarrow> increasing ts \<and> (\<forall>t \<in> set ts. fst u = fst t \<longrightarrow> snd t < snd u)"
  by (induction ts) auto

definition token_ok :: "amesh \<Rightarrow> token list \<Rightarrow> bool" where
  "token_ok a lg \<longleftrightarrow> increasing lg \<and> 0 \<le> clk a \<and> distinct (map fst (graves a))
     \<and> (\<forall>t \<in> set lg. snd t \<le> clk a \<and> (a_version a (fst t) \<noteq> 0 \<longrightarrow> snd t \<le> a_version a (fst t)))
     \<and> (\<forall>k. a_version a k \<le> clk a \<and> (live a k \<noteq> None \<longrightarrow> 0 < a_version a k))"

lemma map_of_filter_key: "map_of (filter (\<lambda>p. fst p \<noteq> k) xs) k' = (if k' = k then None else map_of xs k')"
  by (induction xs) auto

lemma map_of_last_n:
  assumes "distinct (map fst xs)"
  shows "map_of (last_n n xs) k = None \<or> map_of (last_n n xs) k = map_of xs k"
proof -
  have "distinct (map fst (last_n n xs))" using assms by (simp add: last_n_def drop_map [symmetric] distinct_drop)
  moreover have "set (last_n n xs) \<subseteq> set xs" by (rule set_last_n)
  ultimately show ?thesis using assms by (metis map_of_eq_Some_iff not_None_eq subsetD)
qed

lemma a_put_token:
  assumes t: "token_ok a lg" and p: "a_put k ifv v i now a = Inr (ver, a')"
  shows "token_ok a' (lg @ [(k, ver)])"
proof -
  have ver: "ver = (if live a k \<noteq> None then a_version a k else clk a) + 1"
    and a': "a' = a\<lparr>live := (live a)(k \<mapsto> (v, i, now, ver)), graves := filter (\<lambda>p. fst p \<noteq> k) (graves a), clk := clk a + 1\<rparr>"
    using p by (auto simp: a_put_def Let_def split: if_splits)
  have av: "a_version a' k' = (if k' = k then ver else a_version a k')" for k'
    by (simp add: a' a_version_def map_of_filter_key cong: option.case_cong)
  have new: "u \<in> set lg \<Longrightarrow> fst u = k \<Longrightarrow> snd u < ver" for u
    using t ver by (force simp: token_ok_def)
  have pos: "0 < ver" "ver \<le> clk a + 1"
  proof -
    have "live a k \<noteq> None \<longrightarrow> 0 < a_version a k" "a_version a k \<le> clk a" "0 \<le> clk a"
      using t unfolding token_ok_def by blast+
    then show "0 < ver" "ver \<le> clk a + 1" by (cases "live a k"; simp add: ver)+
  qed
  have d: "distinct (map fst (graves a'))" using t by (simp add: a' token_ok_def distinct_map_filter)
  have c: "clk a' = clk a + 1" by (simp add: a')
  have l: "live a' k' \<noteq> None \<Longrightarrow> k' = k \<or> live a k' \<noteq> None" for k' by (simp add: a' split: if_splits)
  show ?thesis unfolding token_ok_def increasing_snoc av c
  proof (intro conjI ballI allI)
    show "increasing lg" "0 \<le> clk a + 1" using t by (simp_all add: token_ok_def)
    show "distinct (map fst (graves a'))" by (rule d)
  next
    fix u assume "u \<in> set lg"
    then show "fst (k, ver) = fst u \<longrightarrow> snd u < snd (k, ver)" using new by auto
  next
    fix u assume u: "u \<in> set (lg @ [(k, ver)])"
    then show "snd u \<le> clk a + 1" using t pos by (auto simp: token_ok_def)
    show "(if fst u = k then ver else a_version a (fst u)) \<noteq> 0 \<longrightarrow> snd u \<le> (if fst u = k then ver else a_version a (fst u))"
      using u t new by (auto simp: token_ok_def less_imp_le)
  next
    fix k'
    show "(if k' = k then ver else a_version a k') \<le> clk a + 1" using t pos by (auto simp: token_ok_def intro: order_trans)
    show "live a' k' \<noteq> None \<longrightarrow> 0 < (if k' = k then ver else a_version a k')"
      using t pos l [of k'] by (auto simp: token_ok_def)
  qed
qed

lemma a_delete_token:
  assumes t: "token_ok a lg" and p: "a_delete k ifv a = Inr (Some ver, a')"
  shows "token_ok a' (lg @ [(k, ver)])"
proof -
  have ver: "ver = a_version a k + 1" "live a k \<noteq> None"
    and a': "a' = a\<lparr>live := (live a)(k := None), graves := filter (\<lambda>p. fst p \<noteq> k) (graves a) @ [(k, ver)], clk := clk a + 1\<rparr>"
    using p by (auto simp: a_delete_def Let_def split: if_splits)
  have av: "a_version a' k' = (if k' = k then ver else a_version a k')" for k'
    by (simp add: a' a_version_def map_of_filter_key map_add_def split: option.splits)
  have new: "u \<in> set lg \<Longrightarrow> fst u = k \<Longrightarrow> snd u < ver" for u
    using t ver by (force simp: token_ok_def)
  have pos: "0 < ver" "ver \<le> clk a + 1"
  proof -
    have "0 < a_version a k" "a_version a k \<le> clk a" using t ver(2) unfolding token_ok_def by blast+
    then show "0 < ver" "ver \<le> clk a + 1" using ver(1) by simp_all
  qed
  have d: "distinct (map fst (graves a'))" using t by (auto simp: a' token_ok_def distinct_map_filter)
  have c: "clk a' = clk a + 1" by (simp add: a')
  have l: "live a' k' \<noteq> None \<Longrightarrow> k' \<noteq> k \<and> live a k' \<noteq> None" for k' by (simp add: a' split: if_splits)
  show ?thesis unfolding token_ok_def increasing_snoc av c
  proof (intro conjI ballI allI)
    show "increasing lg" "0 \<le> clk a + 1" using t by (simp_all add: token_ok_def)
    show "distinct (map fst (graves a'))" by (rule d)
  next
    fix u assume "u \<in> set lg"
    then show "fst (k, ver) = fst u \<longrightarrow> snd u < snd (k, ver)" using new by auto
  next
    fix u assume u: "u \<in> set (lg @ [(k, ver)])"
    then show "snd u \<le> clk a + 1" using t pos by (auto simp: token_ok_def)
    show "(if fst u = k then ver else a_version a (fst u)) \<noteq> 0 \<longrightarrow> snd u \<le> (if fst u = k then ver else a_version a (fst u))"
      using u t new by (auto simp: token_ok_def less_imp_le)
  next
    fix k'
    show "(if k' = k then ver else a_version a k') \<le> clk a + 1" using t pos by (auto simp: token_ok_def intro: order_trans)
    show "live a' k' \<noteq> None \<longrightarrow> 0 < (if k' = k then ver else a_version a k')"
      using t pos l [of k'] by (auto simp: token_ok_def)
  qed
qed

lemma trim_token: "token_ok a lg \<Longrightarrow> token_ok (a_trim n a) lg"
proof -
  assume t: "token_ok a lg"
  have d: "distinct (map fst (graves a))" using t by (simp add: token_ok_def)
  have l: "live (a_trim n a) = live a" "clk (a_trim n a) = clk a" "graves (a_trim n a) = last_n n (graves a)"
    by (simp_all add: a_trim_def)
  have av: "a_version (a_trim n a) k = a_version a k \<or> (a_version (a_trim n a) k = 0 \<and> live a k = None)" for k
    using map_of_last_n [OF d, of n k] by (auto simp: a_version_def l split: option.splits)
  have d': "distinct (map fst (last_n n (graves a)))" using d by (simp add: last_n_def drop_map [symmetric] distinct_drop)
  have 1: "\<forall>u \<in> set lg. snd u \<le> clk a \<and> (a_version (a_trim n a) (fst u) \<noteq> 0 \<longrightarrow> snd u \<le> a_version (a_trim n a) (fst u))"
    using t av unfolding token_ok_def by (metis (no_types))
  have 2: "\<forall>k. a_version (a_trim n a) k \<le> clk a \<and> (live a k \<noteq> None \<longrightarrow> 0 < a_version (a_trim n a) k)"
    using t av unfolding token_ok_def by (metis (no_types))
  show ?thesis using t d' 1 2 unfolding token_ok_def l by blast
qed

lemma tokens_of_append: "tokens_of (rs @ [(k, ok, v)]) = tokens_of rs @ (if ok then [(k, v)] else [])"
  by (simp add: tokens_of_def applied_def)

lemma spec_step_token:
  assumes "token_ok a (lg @ tokens_of rs)" and "spec_step cfg now op (a, rs) = Inr (a', rs')"
  shows "token_ok a' (lg @ tokens_of rs')"
proof (cases "condition_fails op (live a) \<or> \<not> cas_ok (b_if op) (a_version a (b_key op))")
  case True
  then have "a' = a \<and> tokens_of rs' = tokens_of rs"
    using assms(2) by (auto simp: spec_step_def Let_def tokens_of_append split: if_splits)
  then show ?thesis using assms(1) by simp
next
  case False
  show ?thesis
  proof (cases op)
    case (BPut k src i ifv c)
    then obtain vj ij ver where "a_put k None vj ij now a = Inr (ver, a')" "rs' = rs @ [(k, True, ver)]"
      using False assms(2) by (auto simp: spec_step_def Let_def bind_e_Inr)
    then show ?thesis using a_put_token [OF assms(1)] by (simp add: tokens_of_append)
  next
    case (BDelete k ifv c cnd)
    then obtain r where r: "a_delete k None a = Inr (r, a')"
      and rs: "rs' = rs @ [(k, r \<noteq> None, case r of None \<Rightarrow> a_version a k | Some w \<Rightarrow> w)]"
      using False assms(2) by (auto simp: spec_step_def Let_def bind_e_Inr)
    show ?thesis
    proof (cases r)
      case None then show ?thesis using delete_unchanged [of k None a a'] r rs assms(1) by (simp add: tokens_of_append)
    next
      case (Some ver) then show ?thesis
        using a_delete_token [OF assms(1), of k None ver a'] r rs by (simp add: tokens_of_append)
    qed
  qed
qed

lemma spec_loop_token:
  "token_ok a (lg @ tokens_of rs) \<Longrightarrow> spec_loop cfg now ops (a, rs) = Inr (a', rs') \<Longrightarrow> token_ok a' (lg @ tokens_of rs')"
proof (induction ops arbitrary: a rs)
  case Nil then show ?case by simp
next
  case (Cons op ops)
  then obtain a1 rs1 where "spec_step cfg now op (a, rs) = Inr (a1, rs1)" "spec_loop cfg now ops (a1, rs1) = Inr (a', rs')"
    by (auto simp: bind_e_Inr)
  then show ?case using spec_step_token [OF Cons.prems(1)] Cons.IH by blast
qed

lemma no_tokens: "\<not> list_ex applied rs \<Longrightarrow> tokens_of rs = []"
  by (auto simp: tokens_of_def list_ex_iff filter_empty_conv)

lemma lift_abs_Inr: "x = Inr (r, s') \<Longrightarrow> lift_abs x = y \<Longrightarrow> y = Inr (r, absm s')"
  by auto

lemma lift_abs_Inl: "lift_abs x = Inl e \<Longrightarrow> x = Inl e"
  by (cases x) auto

lemma mesh_run_log:
  "run (mesh_step cfg) (s, lg @ ts) cs = (fst (run (mesh_step cfg) (s, ts) cs), lg @ snd (run (mesh_step cfg) (s, ts) cs))"
  by (induction cs arbitrary: s ts) (auto simp: mesh_step_def split: sum.splits)

lemma call_put: "call cfg (CallPut k ifv v i now) s = Inr (ts, s') \<Longrightarrow> \<exists>ver. ts = [(k, ver)] \<and> put cfg k ifv v i now s = Inr (ver, s')"
  by (cases "put cfg k ifv v i now s") (auto simp: call_def)

lemma call_delete: "call cfg (CallDelete k ifv) s = Inr (ts, s')
    \<Longrightarrow> \<exists>r. ts = (case r of None \<Rightarrow> [] | Some ver \<Rightarrow> [(k, ver)]) \<and> delete cfg k ifv s = Inr (r, s')"
  by (cases "delete cfg k ifv s") (auto simp: call_def)

lemma call_batch: "call cfg (CallBatch ops prepare now) s = Inr (ts, s')
    \<Longrightarrow> \<exists>rs. ts = tokens_of rs \<and> write_batch cfg ops prepare now s = Inr (rs, s')"
  by (cases "write_batch cfg ops prepare now s") (auto simp: call_def)

lemma call_token:
  assumes g: "graved s" and t: "token_ok (absm s) lg" and c: "call cfg c s = Inr (ts, s')"
  shows "graved s' \<and> token_ok (absm s') (lg @ ts)"
proof (cases c)
  case (CallPut k ifv v i now)
  obtain ver where p: "ts = [(k, ver)]" "put cfg k ifv v i now s = Inr (ver, s')" using call_put [OF c [unfolded CallPut]] by blast
  obtain vj ij a1 where a: "a_put k ifv vj ij now (absm s) = Inr (ver, a1)" and s: "absm s' = a_trim (max_tombstones cfg) a1"
    using lift_abs_Inr [OF p(2) put_refines [OF g]]
    by (auto simp: spec_put_def bind_e_Inr split: if_splits prod.splits)
  show ?thesis using put_tidy [OF g p(2)] trim_token [OF a_put_token [OF t a]] p(1) s by (simp add: tidy_def)
next
  case (CallDelete k ifv)
  obtain r where p: "ts = (case r of None \<Rightarrow> [] | Some ver \<Rightarrow> [(k, ver)])" "delete cfg k ifv s = Inr (r, s')"
    using call_delete [OF c [unfolded CallDelete]] by blast
  note d = delete_tidy [OF g p(2)]
  show ?thesis
  proof (cases r)
    case None then show ?thesis using p(1) d g t by simp
  next
    case (Some ver)
    obtain a1 where a: "a_delete k ifv (absm s) = Inr (Some ver, a1)" and s: "absm s' = a_trim (max_tombstones cfg) a1"
      using lift_abs_Inr [OF p(2) delete_refines [OF g]] Some
      by (auto simp: spec_delete_def bind_e_Inr split: if_splits prod.splits)
    show ?thesis using d Some trim_token [OF a_delete_token [OF t a]] p(1) s by (simp add: tidy_def)
  qed
next
  case (CallBatch ops prepare now)
  obtain rs where p: "ts = tokens_of rs" "write_batch cfg ops prepare now s = Inr (rs, s')"
    using call_batch [OF c [unfolded CallBatch]] by blast
  let ?ops = "ops @ prepare (live (absm s)) (a_version (absm s))"
  obtain a1 where a: "spec_loop cfg now ?ops (absm s, []) = Inr (a1, rs)"
    and s: "absm s' = (if list_ex applied rs then a_trim (max_tombstones cfg) a1 else absm s)"
    using lift_abs_Inr [OF p(2) batch_refines [OF g]]
    by (auto simp: spec_batch_def Let_def bind_e_Inr split: option.splits prod.splits)
  have "token_ok a1 (lg @ tokens_of rs)" using spec_loop_token [OF _ a] t by (simp add: tokens_of_def)
  then show ?thesis using batch_tidy [OF g p(2)] p(1) s t g no_tokens [of rs] trim_token
    by (auto simp: tidy_def split: if_splits)
qed

definition mesh_inv :: "mesh_state \<times> token list \<Rightarrow> bool" where
  "mesh_inv x \<longleftrightarrow> graved (fst x) \<and> token_ok (absm (fst x)) (snd x)"

interpretation mesh: machine_invariant "mesh_step cfg" mesh_inv for cfg :: "'v store_cfg"
proof unfold_locales
  fix x :: "mesh_state \<times> token list" and c :: "'v mesh_call"
  assume "mesh_inv x"
  then show "mesh_inv (mesh_step cfg x c)"
    using call_token [of "fst x" "snd x" cfg c] unfolding mesh_inv_def mesh_step_def
    by (auto split: sum.splits)
qed

lemma graved_token: "graved s \<Longrightarrow> token_ok (absm s) [(k, slot_version s k)]"
proof -
  assume g: "graved s"
  have ok: "mesh_ok s" by (rule graved_ok [OF g])
  have p: "live (absm s) j \<noteq> None \<Longrightarrow> 0 < slot_version s j" for j
  proof -
    assume "live (absm s) j \<noteq> None"
    then obtain r where r: "jm_get (m_entries s) j = Some r" using live_absm(1) [OF ok] by (auto simp: jm_has_def)
    from mesh_okD(5) [OF ok jm_get_in_set [OF r]] r show ?thesis by (auto simp: slot_version_def entry_version_def whole_def)
  qed
  have d: "distinct (map fst (graves (absm s)))" using g by (simp add: absm_def graved_def o_def)
  have c: "0 \<le> clock s" using slot_of_ok(2,3) [OF ok, of k] by simp
  show ?thesis using d c p slot_of_ok(3) [OF ok]
    by (simp add: token_ok_def a_version_absm [OF g])
qed

section \<open>Properties\<close>

lemma empty_graved: "graved empty_state"
  by (simp add: graved_def empty_state_def mesh_ok_def order_of_def tombs_of_def table_map_def jm_has_def SAFE_def)

definition sample_cfg :: "string store_cfg" where
  "sample_cfg = \<lparr>stringify = Some, byte_length = int \<circ> length, max_event_bytes = 64, max_tombstones = 1\<rparr>"

text \<open>C15: put, delete and a whole batch implement the abstract store of live entries, bounded graveyard and clock, errors included.\<close>

theorem mesh_refines:
  assumes "graved s"
  shows "lift_abs (put cfg k ifv value identity now s) = spec_put cfg k ifv value identity now (absm s)
    \<and> lift_abs (delete cfg k ifv s) = spec_delete cfg k ifv (absm s)
    \<and> lift_abs (write_batch cfg ops prepare now s) = spec_batch cfg ops prepare now (absm s)"
  by (intro conjI put_refines delete_refines batch_refines assms)

lemma mesh_refines_witness:
  "lift_abs (put sample_cfg ''a'' (Some 0) ''1'' ''me'' 7 empty_state) = spec_put sample_cfg ''a'' (Some 0) ''1'' ''me'' 7 (absm empty_state)
    \<and> lift_abs (delete sample_cfg ''a'' (Some 0) empty_state) = spec_delete sample_cfg ''a'' (Some 0) (absm empty_state)
    \<and> lift_abs (write_batch sample_cfg [BDelete ''a'' None NoPolicy None] (\<lambda>_ _. []) 7 empty_state)
      = spec_batch sample_cfg [BDelete ''a'' None NoPolicy None] (\<lambda>_ _. []) 7 (absm empty_state)"
  by (rule mesh_refines [OF empty_graved])

text \<open>C16: over any sequence of calls the versions issued for a key only go up, starting above the version the key had: none is issued twice, even after its tombstone was evicted.\<close>

theorem mesh_versions_increase:
  assumes "graved s"
  shows "increasing ((k, slot_version s k) # snd (run (mesh_step cfg) (s, []) cs))"
proof -
  have "mesh_inv (s, [(k, slot_version s k)])"
    using assms graved_token by (simp add: mesh_inv_def)
  then have "mesh_inv (run (mesh_step cfg) (s, [(k, slot_version s k)]) cs)" by (rule mesh.inv_run)
  then show ?thesis using mesh_run_log [of cfg s "[(k, slot_version s k)]" "[]" cs]
    by (simp add: mesh_inv_def token_ok_def)
qed

lemma mesh_versions_increase_witness:
  "increasing ((''a'', slot_version empty_state ''a'') # snd (run (mesh_step sample_cfg) (empty_state, [])
     [CallPut ''a'' None ''1'' ''me'' 7, CallDelete ''a'' None, CallPut ''b'' None ''2'' ''me'' 7, CallDelete ''b'' None, CallPut ''a'' (Some 0) ''3'' ''me'' 9]))
   \<and> snd (run (mesh_step sample_cfg) (empty_state, [])
     [CallPut ''a'' None ''1'' ''me'' 7, CallDelete ''a'' None, CallPut ''b'' None ''2'' ''me'' 7, CallDelete ''b'' None, CallPut ''a'' (Some 0) ''3'' ''me'' 9])
     = [(''a'', 1), (''a'', 2), (''b'', 3), (''b'', 4), (''a'', 5)]"
  by (rule conjI, rule mesh_versions_increase [OF empty_graved], code_simp)

text \<open>C17: a compare-and-swap against the version of a key that is present or still has its tombstone (a version other
  than 0) is refused once the key was written in between.\<close>

theorem mesh_cas_detects_writes:
  assumes g: "graved s" and r: "run (mesh_step cfg) (s, []) cs = (s', ts)" and w: "(k, w) \<in> set ts" and v: "slot_version s k \<noteq> 0"
  shows "\<exists>e d. put cfg k (Some (slot_version s k)) value identity now s' = Inl e \<and> delete cfg k (Some (slot_version s k)) s' = Inl d"
proof -
  let ?v = "slot_version s k"
  have inv: "mesh_inv (run (mesh_step cfg) (s, [(k, ?v)]) cs)"
    using g graved_token by (intro mesh.inv_run) (simp add: mesh_inv_def)
  have "run (mesh_step cfg) (s, [(k, ?v)]) cs = (s', (k, ?v) # ts)"
    using r mesh_run_log [of cfg s "[(k, ?v)]" "[]" cs] by simp
  then have g': "graved s'" and t: "token_ok (absm s') ((k, ?v) # ts)" using inv by (simp_all add: mesh_inv_def)
  have "?v < w" using t w by (force simp: token_ok_def list_all_iff)
  moreover have "slot_version s' k \<noteq> 0 \<Longrightarrow> w \<le> slot_version s' k"
    using t w a_version_absm [OF g', of k] by (force simp: token_ok_def)
  ultimately have n: "\<not> cas_ok (Some ?v) (a_version (absm s') k)"
    using v a_version_absm [OF g', of k] by (auto simp: cas_ok_def)
  have "\<exists>e. spec_put cfg k (Some ?v) value identity now (absm s') = Inl e"
    using n by (auto simp: spec_put_def a_put_def bind_e_def split: sum.splits)
  moreover have "\<exists>e. spec_delete cfg k (Some ?v) (absm s') = Inl e"
    using n by (auto simp: spec_delete_def a_delete_def)
  ultimately obtain e d where "lift_abs (put cfg k (Some ?v) value identity now s') = Inl e" "lift_abs (delete cfg k (Some ?v) s') = Inl d"
    by (auto simp: put_refines [OF g'] delete_refines [OF g'])
  then show ?thesis by (auto dest: lift_abs_Inl)
qed

lemma mesh_cas_detects_writes_witness:
  "\<exists>s e d. s = fst (run (mesh_step sample_cfg) (empty_state, []) [CallPut ''a'' None ''1'' ''me'' 7]) \<and> slot_version s ''a'' = 1
     \<and> put sample_cfg ''a'' (Some 1) ''2'' ''me'' 8 (fst (run (mesh_step sample_cfg) (s, []) [CallPut ''a'' None ''9'' ''you'' 7])) = Inl e
     \<and> delete sample_cfg ''a'' (Some 1) (fst (run (mesh_step sample_cfg) (s, []) [CallPut ''a'' None ''9'' ''you'' 7])) = Inl d"
proof -
  let ?s = "fst (run (mesh_step sample_cfg) (empty_state, []) [CallPut ''a'' None ''1'' ''me'' 7])"
  let ?r = "run (mesh_step sample_cfg) (?s, []) [CallPut ''a'' None ''9'' ''you'' 7]"
  have "mesh_inv (run (mesh_step sample_cfg) (empty_state, []) [CallPut ''a'' None ''1'' ''me'' 7])"
    using empty_graved graved_token [OF empty_graved] by (intro mesh.inv_run) (simp add: mesh_inv_def token_ok_def)
  then have g: "graved ?s" by (simp add: mesh_inv_def)
  have v: "slot_version ?s ''a'' = 1" and t: "snd ?r = [(''a'', 2)]" by code_simp+
  have "(''a'', 2) \<in> set (snd ?r)" by (simp only: t list.set insert_iff simp_thms)
  with mesh_cas_detects_writes [OF g, of sample_cfg "[CallPut ''a'' None ''9'' ''you'' 7]" "fst ?r" "snd ?r" "''a''" 2 "''2''" "''me''" 8] v
  show ?thesis by auto
qed

text \<open>C18: a damaged document is a write barrier: put, delete and a batch with an operation are refused whenever the check of the whole document fails, whatever their key.\<close>

theorem mesh_damage_blocks_writes:
  assumes r: "mesh_rep s" and d: "\<not> mesh_ok s"
  shows "(\<exists>e. put cfg k ifv value identity now s = Inl e) \<and> (\<exists>e. delete cfg k ifv s = Inl e)
    \<and> (\<exists>e. write_batch cfg (op # ops) prepare now s = Inl e)"
proof -
  have n: "\<exists>e. state_slot s key = Inl e" for key
    using state_slot_iff [OF r, of key] d by (cases "state_slot s key") auto
  then have p: "\<exists>e. put_change cfg k ifv rq now s = Inl e" "\<exists>e. delete_change cfg k ifv rq s = Inl e"
    "\<exists>e. batch_loop cfg now (op # l) \<lparr>b_state = s, b_tombs = t, b_results = [], b_changed = False\<rparr> = Inl e" for rq t l
  proof -
    obtain e1 e2 where "state_slot s k = Inl e1" "state_slot s (b_key op) = Inl e2" using n by blast
    then show "\<exists>e. put_change cfg k ifv rq now s = Inl e" "\<exists>e. delete_change cfg k ifv rq s = Inl e"
      "\<exists>e. batch_loop cfg now (op # l) \<lparr>b_state = s, b_tombs = t, b_results = [], b_changed = False\<rparr> = Inl e"
      by (simp_all add: put_change_def delete_change_def batch_step_def)
  qed
  have 1: "\<exists>e. put cfg k ifv value identity now s = Inl e"
    using p(1) by (cases "capture_put cfg k ifv value identity") (auto simp: put_def)
  have 2: "\<exists>e. delete cfg k ifv s = Inl e"
    using p(2) by (cases "capture_delete k ifv") (auto simp: delete_def)
  have 3: "\<exists>e. write_batch cfg (op # ops) prepare now s = Inl e"
    using p(3) [of "ops @ prepare (view_get s) (slot_version s)" "walk (\<lambda>_. True) [] (order_of s)"]
    by (auto simp: write_batch_def write_batch_once_def Let_def split: option.splits simp del: batch_loop.simps check_keys.simps)
  show ?thesis using 1 2 3 by blast
qed

definition lost_clock :: mesh_state where
  "lost_clock = empty_state\<lparr>m_high := None\<rparr>"

lemma mesh_damage_blocks_writes_witness:
  "(\<exists>e. put sample_cfg ''a'' None ''1'' ''me'' 7 lost_clock = Inl e) \<and> (\<exists>e. delete sample_cfg ''a'' None lost_clock = Inl e)
    \<and> (\<exists>e. write_batch sample_cfg [BDelete ''a'' None NoPolicy None] (\<lambda>_ _. []) 7 lost_clock = Inl e)"
proof (rule mesh_damage_blocks_writes)
  show "mesh_rep lost_clock" and "\<not> mesh_ok lost_clock"
    by (simp_all add: mesh_rep_def mesh_ok_def lost_clock_def empty_state_def table_map_def)
qed

text \<open>an accepted call keeps the document well formed, every entry under its own key with a safe positive version below the clock, and a call that wrote leaves at most the configured number of tombstones.\<close>

theorem mesh_stays_well_formed:
  assumes g: "graved s" and c: "call cfg c s = Inr (ts, s')"
  shows "(\<forall>k r. jm_get (m_entries s') k = Some r \<longrightarrow> (\<exists>e n. r = Ent e \<and> e_key e = k \<and> e_version e = Whole n \<and> 0 < n \<and> n \<le> clock s'))
    \<and> clock s' \<le> SAFE \<and> distinct (order_of s') \<and> set (order_of s') = tombs_of s'
    \<and> (ts \<noteq> [] \<longrightarrow> length (order_of s') \<le> max_tombstones cfg)"
proof -
  have g': "graved s'" using call_token [OF g _ c, of "[([], slot_version s [])]"] graved_token [OF g] by blast
  have ok: "mesh_ok s'" by (rule graved_ok [OF g'])
  have e: "jm_get (m_entries s') k = Some r \<Longrightarrow> \<exists>e n. r = Ent e \<and> e_key e = k \<and> e_version e = Whole n \<and> 0 < n \<and> n \<le> clock s'" for k r
    using mesh_okD(5) [OF ok, of k r] slot_of_ok(6) [OF ok, of "(k, r)"] by (auto dest!: jm_get_in_set simp: entry_version_def whole_def)
  have t: "ts \<noteq> [] \<Longrightarrow> length (order_of s') \<le> max_tombstones cfg"
  proof (cases c)
    case (CallPut k ifv v i now)
    then obtain ver where "put cfg k ifv v i now s = Inr (ver, s')" using call_put [OF c [unfolded CallPut]] by blast
    from put_tidy [OF g this] show ?thesis by (simp add: tidy_def)
  next
    case (CallDelete k ifv)
    assume "ts \<noteq> []"
    then obtain r where "delete cfg k ifv s = Inr (r, s')" "r \<noteq> None" using call_delete [OF c [unfolded CallDelete]] by fastforce
    then show ?thesis using delete_tidy [OF g, of cfg k ifv r s'] by (cases r) (simp_all add: tidy_def)
  next
    case (CallBatch ops prepare now)
    obtain rs where rs: "ts = tokens_of rs" "write_batch cfg ops prepare now s = Inr (rs, s')"
      using call_batch [OF c [unfolded CallBatch]] by blast
    assume "ts \<noteq> []"
    then have "list_ex applied rs" using rs no_tokens by blast
    then show ?thesis using batch_tidy [OF g rs(2)] by (simp add: tidy_def)
  qed
  show ?thesis using e t slot_of_ok(4) [OF ok] g' unfolding graved_def by blast
qed

lemma mesh_stays_well_formed_witness:
  "\<exists>ts s'. call sample_cfg (CallPut ''a'' None ''1'' ''me'' 7) empty_state = Inr (ts, s') \<and> ts = [(''a'', 1)]
    \<and> clock s' \<le> SAFE \<and> distinct (order_of s') \<and> length (order_of s') \<le> 1"
proof -
  let ?s = "snd (projr (call sample_cfg (CallPut ''a'' None ''1'' ''me'' 7) empty_state))"
  have "isl (call sample_cfg (CallPut ''a'' None ''1'' ''me'' 7) empty_state) = False"
    and t: "fst (projr (call sample_cfg (CallPut ''a'' None ''1'' ''me'' 7) empty_state)) = [(''a'', 1)]" by code_simp+
  then have c: "call sample_cfg (CallPut ''a'' None ''1'' ''me'' 7) empty_state = Inr ([(''a'', 1)], ?s)"
    by (cases "call sample_cfg (CallPut ''a'' None ''1'' ''me'' 7) empty_state") auto
  with mesh_stays_well_formed [OF empty_graved c] show ?thesis by (auto simp: sample_cfg_def)
qed

end
