(* ===== verification/MeshWriters.thy ===== *)
theory MeshWriters imports MeshState begin

text \<open>
  Concurrent writers of the state document (\<^verbatim>\<open>#withWriteSnapshot\<close> and \<^verbatim>\<open>#writeState\<close> of
  \<^verbatim>\<open>src/src/mesh/state-file.ts\<close>): a writer notes the identity of the file, reads it and prepares its change outside
  the lock, checks the identity again, and publishes under the lock only if the identity still holds; otherwise it retries,
  gives up or falls back to one preparation under the lock. The file is its history: each replacement gives it
  an identity it never had before, the length of the history. The abort signal of a call is left out, and its clock is read
  once for all its attempts. The author recorded beside a version is not part of the
  program; it is what the statement of serializability is about.
\<close>

section \<open>Writers\<close>

type_synonym ('d) history = "(nat option \<times> 'd) list"

datatype ('r, 'e) outcome = Committed 'r | Failed 'e | LockTimeout | Exhausted nat | Rejected

text \<open>Where a writer stands: the attempts made, the identity captured, what its change yields on the snapshot.\<close>

datatype ('d, 'r, 'e) phase =
  Attempt nat
| Captured nat nat
| Prepared nat nat "'r \<times> 'd option"
| Checked nat nat "'r \<times> 'd option"
| Threw nat nat 'e
| Changed nat
| Fallback nat
| Done "('r, 'e) outcome"

record ('d, 'r, 'e) writer =
  w_change :: "'d \<Rightarrow> 'e + ('r \<times> 'd option)"
  w_max :: "nat option"
  w_fallback :: bool

definition optimistic_attempts :: "('d, 'r, 'e) writer \<Rightarrow> nat option" where
  "optimistic_attempts w = (if w_fallback w then Some 2 else w_max w)"

definition may_retry :: "('d, 'r, 'e) writer \<Rightarrow> nat \<Rightarrow> bool" where
  "may_retry w n \<longleftrightarrow> (case optimistic_attempts w of None \<Rightarrow> True | Some m \<Rightarrow> n < m)"

definition current :: "'d history \<Rightarrow> 'd" where
  "current h = snd (last h)"

definition identity :: "'d history \<Rightarrow> nat" where
  "identity h = length h"

definition publish :: "nat \<Rightarrow> 'd option \<Rightarrow> 'd history \<Rightarrow> 'd history" where
  "publish i d h = (case d of None \<Rightarrow> h | Some x \<Rightarrow> h @ [(Some i, x)])"

text \<open>One step of writer \<open>i\<close>; whatever happens under the lock is one step.\<close>

inductive wstep :: "('d, 'r, 'e) writer \<Rightarrow> nat \<Rightarrow> 'd history \<Rightarrow> ('d, 'r, 'e) phase \<Rightarrow> 'd history \<Rightarrow> ('d, 'r, 'e) phase \<Rightarrow> bool"
  for w i where
  Capture: "wstep w i h (Attempt n) h (Captured (Suc n) (identity h))"
| Locked: "w_change w (current h) = Inr (r, d) \<Longrightarrow> wstep w i h (Attempt n) (publish i d h) (Done (Committed r))"
| Locked_error: "w_change w (current h) = Inl e \<Longrightarrow> wstep w i h (Attempt n) h (Done (Failed e))"
| Prepare: "w_change w (current h) = Inr out \<Longrightarrow> wstep w i h (Captured n k) h (Prepared n k out)"
| Throw: "w_change w (current h) = Inl e \<Longrightarrow> wstep w i h (Captured n k) h (Threw n k e)"
| Recheck: "identity h = k \<Longrightarrow> wstep w i h (Prepared n k out) h (Checked n k out)"
| Recheck_changed: "identity h \<noteq> k \<Longrightarrow> wstep w i h (Prepared n k out) h (Changed n)"
| Commit: "identity h = k \<Longrightarrow> wstep w i h (Checked n k (r, d)) (publish i d h) (Done (Committed r))"
| Commit_rejected: "identity h = k \<Longrightarrow> wstep w i h (Checked n k out) h (Done Rejected)"
| Commit_changed: "identity h \<noteq> k \<Longrightarrow> wstep w i h (Checked n k out) h (Changed n)"
| Commit_timeout: "wstep w i h (Checked n k out) h (Done LockTimeout)"
| Report: "identity h = k \<Longrightarrow> wstep w i h (Threw n k e) h (Done (Failed e))"
| Report_stale: "identity h \<noteq> k \<Longrightarrow> wstep w i h (Threw n k e) h (Changed n)"
| Deadline: "wstep w i h (Changed n) h (Done (Exhausted n))"
| Retry: "may_retry w n \<Longrightarrow> wstep w i h (Changed n) h (Attempt n)"
| To_fallback: "\<not> may_retry w n \<Longrightarrow> w_fallback w \<Longrightarrow> wstep w i h (Changed n) h (Fallback n)"
| Fallback_deadline: "wstep w i h (Fallback n) h (Done (Exhausted n))"
| Fallback_timeout: "wstep w i h (Fallback n) h (Done LockTimeout)"
| Fallback_commit: "w_change w (current h) = Inr (r, d) \<Longrightarrow> wstep w i h (Fallback n) (publish i d h) (Done (Committed r))"
| Fallback_error: "w_change w (current h) = Inl e \<Longrightarrow> wstep w i h (Fallback n) h (Done (Failed e))"

inductive_simps wstep_done [simp]: "wstep w i h (Done out) h' p'"
inductive_simps wstep_attempt: "wstep w i h (Attempt n) h' p'"
inductive_simps wstep_captured: "wstep w i h (Captured n k) h' p'"
inductive_simps wstep_prepared: "wstep w i h (Prepared n k out) h' p'"
inductive_simps wstep_checked: "wstep w i h (Checked n k out) h' p'"
inductive_simps wstep_threw: "wstep w i h (Threw n k e) h' p'"
inductive_simps wstep_changed: "wstep w i h (Changed n) h' p'"
inductive_simps wstep_fallback: "wstep w i h (Fallback n) h' p'"

text \<open>All writers together; another program may replace the file at any moment.\<close>

inductive system_step :: "(nat \<Rightarrow> ('d, 'r, 'e) writer) \<Rightarrow> 'd history \<times> (nat \<Rightarrow> ('d, 'r, 'e) phase)
    \<Rightarrow> 'd history \<times> (nat \<Rightarrow> ('d, 'r, 'e) phase) \<Rightarrow> bool" for ws where
  Writer: "wstep (ws i) i h (ph i) h' p' \<Longrightarrow> system_step ws (h, ph) (h', ph(i := p'))"
| Foreign: "system_step ws (h, ph) (h @ [(None, d)], ph)"

inductive reachable :: "(nat \<Rightarrow> ('d, 'r, 'e) writer) \<Rightarrow> 'd \<Rightarrow> 'd history \<times> (nat \<Rightarrow> ('d, 'r, 'e) phase) \<Rightarrow> bool"
  for ws d where
  Init: "reachable ws d ([(None, d)], \<lambda>_. Attempt 0)"
| Step: "reachable ws d x \<Longrightarrow> system_step ws x y \<Longrightarrow> reachable ws d y"

section \<open>The invariant\<close>

definition authored :: "nat \<Rightarrow> 'd history \<Rightarrow> nat" where
  "authored i h = length (filter (\<lambda>v. fst v = Some i) h)"

text \<open>What the phase of writer \<open>i\<close> says of the history.\<close>

definition phase_ok :: "('d, 'r, 'e) writer \<Rightarrow> nat \<Rightarrow> 'd history \<Rightarrow> ('d, 'r, 'e) phase \<Rightarrow> bool" where
  "phase_ok w i h p \<longleftrightarrow> (case p of
     Captured n k \<Rightarrow> k \<le> length h \<and> authored i h = 0
   | Prepared n k out \<Rightarrow> k \<le> length h \<and> (k = length h \<longrightarrow> w_change w (current h) = Inr out) \<and> authored i h = 0
   | Checked n k out \<Rightarrow> k \<le> length h \<and> (k = length h \<longrightarrow> w_change w (current h) = Inr out) \<and> authored i h = 0
   | Threw n k e \<Rightarrow> k \<le> length h \<and> (k = length h \<longrightarrow> w_change w (current h) = Inl e) \<and> authored i h = 0
   | Done (Committed r) \<Rightarrow> (\<exists>n < length h. \<exists>d. w_change w (snd (h ! n)) = Inr (r, d)
       \<and> (case d of None \<Rightarrow> authored i h = 0
          | Some x \<Rightarrow> Suc n < length h \<and> h ! Suc n = (Some i, x) \<and> authored i h = 1))
   | Done (Failed e) \<Rightarrow> (\<exists>n < length h. w_change w (snd (h ! n)) = Inl e) \<and> authored i h = 0
   | _ \<Rightarrow> authored i h = 0)"

text \<open>The history is a serial run: a version with an author is that writer's change of the version before it.\<close>

definition serial :: "(nat \<Rightarrow> ('d, 'r, 'e) writer) \<Rightarrow> 'd history \<Rightarrow> bool" where
  "serial ws h \<longleftrightarrow> h \<noteq> [] \<and> fst (h ! 0) = None
     \<and> (\<forall>n i. Suc n < length h \<and> fst (h ! Suc n) = Some i \<longrightarrow> (\<exists>r. w_change (ws i) (snd (h ! n)) = Inr (r, Some (snd (h ! Suc n)))))"

definition system_ok :: "(nat \<Rightarrow> ('d, 'r, 'e) writer) \<Rightarrow> 'd history \<times> (nat \<Rightarrow> ('d, 'r, 'e) phase) \<Rightarrow> bool" where
  "system_ok ws x \<longleftrightarrow> serial ws (fst x) \<and> (\<forall>i. phase_ok (ws i) i (fst x) (snd x i))"

lemma authored_append [simp]: "authored i (h @ [(a, d)]) = authored i h + (if a = Some i then 1 else 0)"
  by (simp add: authored_def)

lemma current_nth: "h \<noteq> [] \<Longrightarrow> current h = snd (h ! (length h - 1))"
  by (simp add: current_def last_conv_nth)

lemma nth_snoc: "n < length h \<Longrightarrow> (h @ [v]) ! n = h ! n"
  by (simp add: nth_append)

text \<open>A version appended by somebody else leaves every phase true.\<close>

lemma phase_ok_append:
  assumes "phase_ok w i h p" and "a \<noteq> Some i"
  shows "phase_ok w i (h @ [(a, d)]) p"
proof (cases p)
  case (Done out)
  show ?thesis
  proof (cases out)
    case (Committed r)
    then obtain n x where "n < length h" "w_change w (snd (h ! n)) = Inr (r, x)"
      "case x of None \<Rightarrow> authored i h = 0 | Some y \<Rightarrow> Suc n < length h \<and> h ! Suc n = (Some i, y) \<and> authored i h = 1"
      using assms(1) Done by (auto simp: phase_ok_def)
    then have "n < length (h @ [(a, d)]) \<and> w_change w (snd ((h @ [(a, d)]) ! n)) = Inr (r, x)
      \<and> (case x of None \<Rightarrow> authored i (h @ [(a, d)]) = 0
         | Some y \<Rightarrow> Suc n < length (h @ [(a, d)]) \<and> (h @ [(a, d)]) ! Suc n = (Some i, y) \<and> authored i (h @ [(a, d)]) = 1)"
      using assms(2) by (cases x) (simp_all add: nth_snoc)
    then show ?thesis unfolding phase_ok_def Done Committed by auto
  next
    case (Failed e)
    then show ?thesis using assms Done by (auto simp: phase_ok_def nth_append)
  qed (use assms Done in \<open>simp_all add: phase_ok_def\<close>)
qed (use assms in \<open>auto simp: phase_ok_def\<close>)

lemma serial_append:
  assumes "serial ws h"
    and "\<And>i. a = Some i \<Longrightarrow> \<exists>r. w_change (ws i) (current h) = Inr (r, Some d)"
  shows "serial ws (h @ [(a, d)])"
proof -
  have ne: "h \<noteq> []" using assms(1) by (simp add: serial_def)
  have "\<exists>r. w_change (ws i) (snd ((h @ [(a, d)]) ! n)) = Inr (r, Some (snd ((h @ [(a, d)]) ! Suc n)))"
    if n: "Suc n < length (h @ [(a, d)])" "fst ((h @ [(a, d)]) ! Suc n) = Some i" for n i
  proof (cases "Suc n < length h")
    case True then show ?thesis using assms(1) n by (simp add: serial_def nth_append)
  next
    case False
    then have l: "Suc n = length h" using n(1) by simp
    then have "current h = snd (h ! n)" using current_nth [OF ne] by (simp flip: l)
    then show ?thesis using assms(2) [of i] n(2) l by (auto simp: nth_append)
  qed
  moreover have "fst ((h @ [(a, d)]) ! 0) = None" using assms(1) ne by (simp add: serial_def nth_append)
  ultimately show ?thesis unfolding serial_def by blast
qed

text \<open>Publishing a change of the current version.\<close>

lemma publish_ok:
  assumes s: "serial ws h" and c: "w_change (ws i) (current h) = Inr (r, d)" and a: "authored i h = 0"
  shows "serial ws (publish i d h)" and "phase_ok (ws i) i (publish i d h) (Done (Committed r))"
    and "j \<noteq> i \<Longrightarrow> phase_ok (ws j) j h p \<Longrightarrow> phase_ok (ws j) j (publish i d h) p"
proof -
  have ne: "h \<noteq> []" using s by (simp add: serial_def)
  have cn: "w_change (ws i) (snd (h ! (length h - 1))) = Inr (r, d)" using c current_nth [OF ne] by simp
  show "serial ws (publish i d h)"
    using s c serial_append [OF s, of "Some i"] by (cases d) (auto simp: publish_def)
  show "phase_ok (ws i) i (publish i d h) (Done (Committed r))"
  proof (cases d)
    case None
    then show ?thesis using cn a ne by (auto simp: publish_def phase_ok_def intro!: exI [of _ "length h - 1"])
  next
    case (Some x)
    have "length h - 1 < length (h @ [(Some i, x)]) \<and> w_change (ws i) (snd ((h @ [(Some i, x)]) ! (length h - 1))) = Inr (r, d)
      \<and> Suc (length h - 1) < length (h @ [(Some i, x)]) \<and> (h @ [(Some i, x)]) ! Suc (length h - 1) = (Some i, x)
      \<and> authored i (h @ [(Some i, x)]) = 1"
      using cn a ne by (simp add: nth_append)
    then show ?thesis unfolding phase_ok_def publish_def Some by auto
  qed
  show "j \<noteq> i \<Longrightarrow> phase_ok (ws j) j h p \<Longrightarrow> phase_ok (ws j) j (publish i d h) p"
    by (cases d) (auto simp: publish_def intro: phase_ok_append)
qed

lemma failed_ok:
  assumes "serial ws h" and "w_change w (current h) = Inl e" and "authored i h = 0"
  shows "phase_ok w i h (Done (Failed e))"
proof -
  have ne: "h \<noteq> []" using assms(1) by (simp add: serial_def)
  then show ?thesis using assms(2,3) current_nth [OF ne] by (auto simp: phase_ok_def intro!: exI [of _ "length h - 1"])
qed

lemma wstep_ok:
  assumes w: "wstep (ws i) i h p h' p'" and s: "serial ws h" and o: "phase_ok (ws i) i h p"
  shows "serial ws h' \<and> phase_ok (ws i) i h' p' \<and> (\<forall>j q. j \<noteq> i \<longrightarrow> phase_ok (ws j) j h q \<longrightarrow> phase_ok (ws j) j h' q)"
  using w
proof cases
  case (Locked r d n)
  have a: "authored i h = 0" using o Locked by (simp add: phase_ok_def)
  show ?thesis using publish_ok [OF s Locked(4) a] Locked by simp
next
  case (Commit k n r d)
  have a: "authored i h = 0" and c: "w_change (ws i) (current h) = Inr (r, d)" using o Commit by (simp_all add: phase_ok_def identity_def)
  show ?thesis using publish_ok [OF s c a] Commit by simp
next
  case (Fallback_commit r d n)
  have a: "authored i h = 0" using o Fallback_commit by (simp add: phase_ok_def)
  show ?thesis using publish_ok [OF s Fallback_commit(4) a] Fallback_commit by simp
next
  case (Locked_error e n)
  have a: "authored i h = 0" using o Locked_error by (simp add: phase_ok_def)
  show ?thesis using failed_ok [OF s Locked_error(4) a] Locked_error s by simp
next
  case (Report k n e)
  have a: "authored i h = 0" and c: "w_change (ws i) (current h) = Inl e" using o Report by (simp_all add: phase_ok_def identity_def)
  show ?thesis using failed_ok [OF s c a] Report s by simp
next
  case (Fallback_error e n)
  have a: "authored i h = 0" using o Fallback_error by (simp add: phase_ok_def)
  show ?thesis using failed_ok [OF s Fallback_error(4) a] Fallback_error s by simp
qed (use s o in \<open>auto simp: phase_ok_def identity_def\<close>)

lemma system_ok_step:
  assumes "system_ok ws x" and "system_step ws x y"
  shows "system_ok ws y"
  using assms(2)
proof cases
  case (Writer i h ph h' p')
  have s: "serial ws h" and o: "\<And>j. phase_ok (ws j) j h (ph j)" using assms(1) Writer by (simp_all add: system_ok_def)
  show ?thesis using wstep_ok [OF Writer(3) s o] o Writer by (simp add: system_ok_def)
next
  case (Foreign h ph d)
  have s: "serial ws h" and o: "\<And>j. phase_ok (ws j) j h (ph j)" using assms(1) Foreign by (simp_all add: system_ok_def)
  show ?thesis using serial_append [OF s, of None d] phase_ok_append [OF o] Foreign by (simp add: system_ok_def)
qed

lemma reachable_ok: "reachable ws d x \<Longrightarrow> system_ok ws x"
proof (induction rule: reachable.induct)
  case Init
  show ?case by (simp add: system_ok_def serial_def phase_ok_def authored_def)
next
  case (Step x y)
  then show ?case by (blast intro: system_ok_step)
qed

section \<open>Bounded attempts\<close>

text \<open>The writer's own steps, the file changing in between as it may.\<close>

inductive own_run :: "('d, 'r, 'e) writer \<Rightarrow> nat \<Rightarrow> nat \<Rightarrow> ('d, 'r, 'e) phase \<Rightarrow> bool" for w i where
  Own_init: "own_run w i 0 (Attempt 0)"
| Own_step: "own_run w i k p \<Longrightarrow> wstep w i h p h' p' \<Longrightarrow> own_run w i (Suc k) p'"

definition attempt_bound :: "nat \<Rightarrow> nat" where
  "attempt_bound m = max 1 m"

primrec rank :: "nat \<Rightarrow> ('d, 'r, 'e) phase \<Rightarrow> nat" where
  "rank m (Attempt n) = 5 * (m - n) + 2"
| "rank m (Captured n k) = 5 * (m - n) + 6"
| "rank m (Prepared n k out) = 5 * (m - n) + 5"
| "rank m (Checked n k out) = 5 * (m - n) + 4"
| "rank m (Threw n k e) = 5 * (m - n) + 4"
| "rank m (Changed n) = 5 * (m - n) + 3"
| "rank m (Fallback n) = 1"
| "rank m (Done out) = 0"

primrec attempts_ok :: "nat \<Rightarrow> ('d, 'r, 'e) phase \<Rightarrow> bool" where
  "attempts_ok m (Attempt n) \<longleftrightarrow> n < m"
| "attempts_ok m (Captured n k) \<longleftrightarrow> n \<le> m"
| "attempts_ok m (Prepared n k out) \<longleftrightarrow> n \<le> m"
| "attempts_ok m (Checked n k out) \<longleftrightarrow> n \<le> m"
| "attempts_ok m (Threw n k e) \<longleftrightarrow> n \<le> m"
| "attempts_ok m (Changed n) \<longleftrightarrow> n \<le> m"
| "attempts_ok m (Fallback n) \<longleftrightarrow> n \<le> m"
| "attempts_ok m (Done out) \<longleftrightarrow> (case out of Exhausted n \<Rightarrow> n \<le> m | _ \<Rightarrow> True)"

lemma wstep_rank:
  assumes "wstep w i h p h' p'" and "optimistic_attempts w = Some m" and "attempts_ok (attempt_bound m) p"
  shows "attempts_ok (attempt_bound m) p' \<and> rank (attempt_bound m) p' < rank (attempt_bound m) p"
  using assms by cases (auto simp: may_retry_def attempt_bound_def)

lemma own_run_rank:
  assumes "own_run w i k p" and "optimistic_attempts w = Some m"
  shows "attempts_ok (attempt_bound m) p \<and> k + rank (attempt_bound m) p \<le> 5 * attempt_bound m + 2"
  using assms(1)
proof induction
  case Own_init
  then show ?case by (simp add: attempt_bound_def)
next
  case (Own_step k p h h' p')
  then show ?case using wstep_rank [OF Own_step.hyps(2) assms(2)] by fastforce
qed

lemma wstep_progress:
  assumes "\<And>out. p \<noteq> Done out"
  shows "\<exists>h' p'. wstep w i h p h' p'"
proof (cases p)
  case (Captured n k)
  then show ?thesis by (cases "w_change w (current h)") (auto intro: wstep.intros)
next
  case (Prepared n k out)
  then show ?thesis by (cases "identity h = k") (auto intro: wstep.intros)
next
  case (Threw n k e)
  then show ?thesis by (cases "identity h = k") (auto intro: wstep.intros)
qed (use assms in \<open>auto intro: wstep.intros\<close>)

section \<open>Properties\<close>

text \<open>A call of the store, made by a writer: nothing is published when no version was issued.\<close>

definition call_writer :: "'v store_cfg \<Rightarrow> 'v mesh_call \<Rightarrow> nat option \<Rightarrow> bool \<Rightarrow> (mesh_state, token list, mesh_error) writer" where
  "call_writer cfg c m fb = \<lparr>w_change = (\<lambda>s. case call cfg c s of Inl e \<Rightarrow> Inl e
     | Inr (ts, s') \<Rightarrow> Inr (ts, if ts = [] then None else Some s')), w_max = m, w_fallback = fb\<rparr>"

lemma call_writer_Inr:
  "w_change (call_writer cfg c m fb) s = Inr (ts, d) \<longleftrightarrow> (\<exists>s'. call cfg c s = Inr (ts, s') \<and> d = (if ts = [] then None else Some s'))"
  by (auto simp: call_writer_def split: sum.splits)

lemma call_writer_Inl: "w_change (call_writer cfg c m fb) s = Inl e \<longleftrightarrow> call cfg c s = Inl e"
  by (auto simp: call_writer_def split: sum.splits)

text \<open>C19: concurrent put, delete and batch calls are serial: each version a caller published is its call on the version right before it, a committed result or error is that of a version that was current, and no caller publishes twice.\<close>

theorem concurrent_calls_serialize:
  assumes "reachable (\<lambda>i. call_writer cfg (calls i) (maxs i) (fbs i)) s0 (h, ph)"
  shows "(\<forall>n i. Suc n < length h \<and> fst (h ! Suc n) = Some i
        \<longrightarrow> (\<exists>ts. ts \<noteq> [] \<and> call cfg (calls i) (snd (h ! n)) = Inr (ts, snd (h ! Suc n))))
    \<and> (\<forall>i ts. ph i = Done (Committed ts) \<longrightarrow> (\<exists>n s'. n < length h \<and> call cfg (calls i) (snd (h ! n)) = Inr (ts, s')
        \<and> (if ts = [] then authored i h = 0 else Suc n < length h \<and> h ! Suc n = (Some i, s') \<and> authored i h = 1)))
    \<and> (\<forall>i e. ph i = Done (Failed e) \<longrightarrow> authored i h = 0 \<and> (\<exists>n. n < length h \<and> call cfg (calls i) (snd (h ! n)) = Inl e))"
proof -
  let ?ws = "\<lambda>i. call_writer cfg (calls i) (maxs i) (fbs i)"
  have s: "serial ?ws h" and o: "\<And>i. phase_ok (?ws i) i h (ph i)"
    using reachable_ok [OF assms] by (simp_all add: system_ok_def)
  have 1: "\<exists>ts. ts \<noteq> [] \<and> call cfg (calls i) (snd (h ! n)) = Inr (ts, snd (h ! Suc n))"
    if n: "Suc n < length h" "fst (h ! Suc n) = Some i" for n i
  proof -
    obtain r where "w_change (?ws i) (snd (h ! n)) = Inr (r, Some (snd (h ! Suc n)))" using s n unfolding serial_def by blast
    then show ?thesis by (auto simp: call_writer_Inr split: if_splits)
  qed
  have 2: "\<exists>n s'. n < length h \<and> call cfg (calls i) (snd (h ! n)) = Inr (ts, s')
      \<and> (if ts = [] then authored i h = 0 else Suc n < length h \<and> h ! Suc n = (Some i, s') \<and> authored i h = 1)"
    if d: "ph i = Done (Committed ts)" for i ts
  proof -
    obtain n d where n: "n < length h" "w_change (?ws i) (snd (h ! n)) = Inr (ts, d)"
      "case d of None \<Rightarrow> authored i h = 0 | Some x \<Rightarrow> Suc n < length h \<and> h ! Suc n = (Some i, x) \<and> authored i h = 1"
      using o [of i] d by (auto simp: phase_ok_def)
    then show ?thesis by (auto simp: call_writer_Inr split: if_splits)
  qed
  have 3: "authored i h = 0 \<and> (\<exists>n. n < length h \<and> call cfg (calls i) (snd (h ! n)) = Inl e)"
    if d: "ph i = Done (Failed e)" for i e
    using o [of i] d by (auto simp: phase_ok_def call_writer_Inl)
  show ?thesis using 1 2 3 by blast
qed

text \<open>Two writers of one key on an empty store: the second must retry and reads what the first wrote.\<close>

definition demo_calls :: "nat \<Rightarrow> string mesh_call" where
  "demo_calls i = CallPut ''a'' None (if i = 0 then ''1'' else ''2'') ''me'' 7"

definition demo_writers :: "nat \<Rightarrow> (mesh_state, token list, mesh_error) writer" where
  "demo_writers = (\<lambda>i. call_writer sample_cfg (demo_calls i) (Some 2) False)"

definition demo_next :: "nat \<Rightarrow> mesh_state \<Rightarrow> mesh_state" where
  "demo_next i s = snd (projr (call sample_cfg (demo_calls i) s))"

lemma demo_change:
  "w_change (demo_writers 0) empty_state = Inr ([(''a'', 1)], Some (demo_next 0 empty_state))"
  "w_change (demo_writers 1) empty_state = Inr ([(''a'', 1)], Some (demo_next 1 empty_state))"
  "w_change (demo_writers 1) (demo_next 0 empty_state) = Inr ([(''a'', 2)], Some (demo_next 1 (demo_next 0 empty_state)))"
  by code_simp+

lemma demo_reachable:
  "\<exists>ph. reachable demo_writers empty_state
     ([(None, empty_state), (Some 0, demo_next 0 empty_state), (Some 1, demo_next 1 (demo_next 0 empty_state))], ph)
     \<and> ph 0 = Done (Committed [(''a'', 1)]) \<and> ph 1 = Done (Committed [(''a'', 2)])"
proof -
  let ?h0 = "[(None, empty_state)]" and ?s1 = "demo_next 0 empty_state"
  let ?h1 = "[(None, empty_state), (Some 0, ?s1)]"
  let ?h2 = "[(None, empty_state), (Some 0, ?s1), (Some 1, demo_next 1 ?s1)]"
  have step: "reachable demo_writers empty_state (h', ph(i := p'))"
    if "reachable demo_writers empty_state (h, ph)" "wstep (demo_writers i) i h (ph i) h' p'" for h h' ph p' i
    using that by (blast intro: reachable.Step system_step.Writer)
  define p0 :: "nat \<Rightarrow> (mesh_state, token list, mesh_error) phase" where "p0 = (\<lambda>_. Attempt 0)"
  have r0: "reachable demo_writers empty_state (?h0, p0)" unfolding p0_def by (rule reachable.Init)
  have r1: "reachable demo_writers empty_state (?h0, p0(0 := Captured 1 1))"
    by (rule step [OF r0]) (simp add: p0_def wstep_attempt identity_def del: One_nat_def)
  have r2: "reachable demo_writers empty_state (?h0, p0(0 := Prepared 1 1 ([(''a'', 1)], Some ?s1)))"
    using step [OF r1, of 0 ?h0 "Prepared 1 1 ([(''a'', 1)], Some ?s1)"] by (simp add: wstep_captured current_def demo_change del: One_nat_def)
  have r3: "reachable demo_writers empty_state (?h0, p0(0 := Checked 1 1 ([(''a'', 1)], Some ?s1)))"
    using step [OF r2, of 0 ?h0 "Checked 1 1 ([(''a'', 1)], Some ?s1)"] by (simp add: wstep_prepared identity_def del: One_nat_def)
  have r4: "reachable demo_writers empty_state (?h0, p0(0 := Checked 1 1 ([(''a'', 1)], Some ?s1), 1 := Captured 1 1))"
    by (rule step [OF r3]) (simp add: p0_def wstep_attempt identity_def del: One_nat_def)
  have r5: "reachable demo_writers empty_state (?h0, p0(0 := Checked 1 1 ([(''a'', 1)], Some ?s1), 1 := Prepared 1 1 ([(''a'', 1)], Some (demo_next 1 empty_state))))"
    using step [OF r4, of 1 ?h0 "Prepared 1 1 ([(''a'', 1)], Some (demo_next 1 empty_state))"]
    by (simp add: wstep_captured current_def demo_change del: One_nat_def)
  have r6: "reachable demo_writers empty_state (?h1, p0(0 := Done (Committed [(''a'', 1)]), 1 := Prepared 1 1 ([(''a'', 1)], Some (demo_next 1 empty_state))))"
    using step [OF r5, of 0 ?h1 "Done (Committed [(''a'', 1)])"]
    by (simp add: wstep_checked identity_def publish_def fun_upd_twist del: One_nat_def)
  have r7: "reachable demo_writers empty_state (?h1, p0(0 := Done (Committed [(''a'', 1)]), 1 := Changed 1))"
    using step [OF r6, of 1 ?h1 "Changed 1"] by (simp add: wstep_prepared identity_def del: One_nat_def)
  have r8: "reachable demo_writers empty_state (?h1, p0(0 := Done (Committed [(''a'', 1)]), 1 := Attempt 1))"
    using step [OF r7, of 1 ?h1 "Attempt 1"]
    by (simp add: wstep_changed may_retry_def optimistic_attempts_def demo_writers_def call_writer_def del: One_nat_def)
  have r9: "reachable demo_writers empty_state (?h2, p0(0 := Done (Committed [(''a'', 1)]), 1 := Done (Committed [(''a'', 2)])))"
    using step [OF r8, of 1 ?h2 "Done (Committed [(''a'', 2)])"]
    by (simp add: wstep_attempt current_def demo_change publish_def del: One_nat_def)
  then show ?thesis by (intro exI conjI) (rule r9, simp_all)
qed

lemma concurrent_calls_serialize_witness:
  "\<exists>ts n. ts \<noteq> [] \<and> call sample_cfg (demo_calls 1) (demo_next 0 empty_state) = Inr (ts, demo_next 1 (demo_next 0 empty_state)) \<and> n = ts"
proof -
  obtain ph where r: "reachable demo_writers empty_state
     ([(None, empty_state), (Some 0, demo_next 0 empty_state), (Some 1, demo_next 1 (demo_next 0 empty_state))], ph)"
    using demo_reachable by blast
  from concurrent_calls_serialize [OF r [unfolded demo_writers_def], THEN conjunct1, rule_format, of 1 1]
  show ?thesis by simp
qed

text \<open>C20: a writer with a bounded number of optimistic attempts is never stuck and ends after at most \<open>5 * max 1 m + 2\<close> steps of its own, however the file changes; it never makes more than those attempts.\<close>

theorem writer_terminates:
  assumes "own_run w i k p" and "optimistic_attempts w = Some m"
  shows "k \<le> 5 * max 1 m + 2 \<and> ((\<exists>out. p = Done out) \<or> (\<exists>h' p'. wstep w i h p h' p'))
    \<and> attempts_ok (max 1 m) p"
  using own_run_rank [OF assms] wstep_progress [of p w i h] by (auto simp: attempt_bound_def)

lemma writer_terminates_witness:
  "\<exists>p :: (mesh_state, token list, mesh_error) phase. p = Captured 1 1 \<and> (1::nat) \<le> 5 * max 1 2 + 2
    \<and> (\<exists>h' p'. wstep (demo_writers 0) 0 [(None, empty_state)] p h' p') \<and> attempts_ok (max 1 2) p"
proof -
  have "own_run (demo_writers 0) 0 0 (Attempt 0)" by (rule own_run.Own_init)
  then have r: "own_run (demo_writers 0) 0 (Suc 0) (Captured 1 1)"
    by (rule own_run.Own_step [of _ _ _ _ "[(None, empty_state)]" "[(None, empty_state)]"])
      (simp add: wstep_attempt identity_def)
  have o: "optimistic_attempts (demo_writers 0) = Some 2"
    by (simp add: optimistic_attempts_def demo_writers_def call_writer_def)
  show ?thesis using writer_terminates [OF r o, of "[(None, empty_state)]"] by auto
qed

end
