(* ===== verification/EffectScope.thy ===== *)
theory EffectScope imports Kernel begin

text \<open>
  The effect scope (\<^verbatim>\<open>src/src/components/effect-scope.ts\<close>): each \<open>effect\<close> is a record whose asynchronous setup
  collects disposers, each \<open>dispose\<close> runs them once in reverse, and disposing the scope disposes its records
  in reverse. An \<open>async\<close> method is split at its awaits: the record keeps where its setup and its disposal stand,
  and what the awaited promise brings (a guard's answer, an iterator step, a disposer's error) is an event.
  A disposer is a number; the calls made, the errors seen and the disposers ever collected are recorded beside the state.
  A \<open>beforeCleanup\<close> hook does not throw.
\<close>

section \<open>Records\<close>

datatype yielded = Nothing | Fn nat | Invalid

datatype effect_value = NoValue | Single nat | Iterator bool | Unsupported

datatype setup_event =
  GuardSays bool | GuardThrows
| EffectIs effect_value | EffectThrows
| StepIs yielded bool | StepThrows
| DisposerEnds "jstring option"

text \<open>What a setup awaits. The flag of the two closing points tells a diverted setup from a disarmed one.\<close>

datatype setup_pc =
  AwaitGuard | AwaitEffect | AwaitValueGuard | AwaitLoopGuard | AwaitNext | AwaitEndGuard
| AwaitReturn bool | AwaitClose bool
| Rollback "nat list" "jstring list"
| SetupDone bool "jstring list"

datatype disposal_pc = NotDisposed | WaitSetup | Running "nat list" "jstring list" | Disposed "jstring list"

record erec =
  r_label :: jstring
  r_effect :: "effect_info option"
  r_disposers :: "nat list"
  r_disposed :: bool
  r_armed :: bool
  r_started :: bool
  r_hook :: bool
  r_deferred :: bool
  r_returns :: bool
  r_setup :: setup_pc
  r_disposal :: disposal_pc
  r_collected :: "nat list"
  r_called :: "nat list"
  r_hooks :: nat

definition setup_done :: "erec \<Rightarrow> bool" where
  "setup_done r \<longleftrightarrow> (case r_setup r of SetupDone _ _ \<Rightarrow> True | _ \<Rightarrow> False)"

definition begin_cleanup :: "erec \<Rightarrow> erec" where
  "begin_cleanup r = (if r_started r then r
     else r\<lparr>r_started := True, r_hooks := r_hooks r + (if r_hook r then 1 else 0)\<rparr>)"

text \<open>\<open>collectDisposer\<close>; \<open>None\<close> is its \<open>TypeError\<close>.\<close>

definition collect :: "yielded \<Rightarrow> erec \<Rightarrow> erec option" where
  "collect y r = (case y of Nothing \<Rightarrow> Some r | Invalid \<Rightarrow> None
     | Fn d \<Rightarrow> Some (r\<lparr>r_disposers := r_disposers r @ [d], r_collected := r_collected r @ [d]\<rparr>))"

definition consume :: "bool \<Rightarrow> bool \<times> bool" where
  "consume active = (active, False)"

section \<open>Setup\<close>

text \<open>The next disposer of a rollback, called at once and then awaited.\<close>

definition rollback_next :: "nat list \<Rightarrow> jstring list \<Rightarrow> erec \<Rightarrow> erec" where
  "rollback_next todo fails r = (case todo of
     [] \<Rightarrow> r\<lparr>r_setup := SetupDone False fails\<rparr>
   | d # ds \<Rightarrow> r\<lparr>r_called := r_called r @ [d], r_setup := Rollback ds fails\<rparr>)"

definition fail_setup :: "erec \<Rightarrow> erec" where
  "fail_setup r = rollback_next (rev (r_disposers r)) [] ((begin_cleanup r)\<lparr>r_disposers := []\<rparr>)"

definition finish_setup :: "erec \<Rightarrow> erec" where
  "finish_setup r = r\<lparr>r_setup := SetupDone True []\<rparr>"

definition close_done :: "bool \<Rightarrow> erec \<Rightarrow> erec" where
  "close_done diverted r = (if diverted then fail_setup r else finish_setup r)"

definition close_iterator :: "bool \<Rightarrow> erec \<Rightarrow> erec" where
  "close_iterator diverted r = (let r = begin_cleanup r in
     if r_returns r then r\<lparr>r_setup := AwaitReturn diverted\<rparr> else close_done diverted r)"

definition loop_head :: "erec \<Rightarrow> erec" where
  "loop_head r = (if \<not> r_armed r then close_iterator False r else r\<lparr>r_setup := AwaitLoopGuard\<rparr>)"

definition collect_value :: "yielded \<Rightarrow> erec \<Rightarrow> erec" where
  "collect_value y r = (case collect y r of None \<Rightarrow> fail_setup r
     | Some r \<Rightarrow> if r_armed r then r\<lparr>r_setup := AwaitValueGuard\<rparr> else finish_setup r)"

definition effect_resolved :: "effect_value \<Rightarrow> erec \<Rightarrow> erec" where
  "effect_resolved v r = (case v of
     NoValue \<Rightarrow> collect_value Nothing r
   | Single d \<Rightarrow> collect_value (Fn d) r
   | Iterator returns \<Rightarrow> loop_head (r\<lparr>r_returns := returns\<rparr>)
   | Unsupported \<Rightarrow> fail_setup r)"

definition next_resolved :: "yielded \<Rightarrow> bool \<Rightarrow> erec \<Rightarrow> erec" where
  "next_resolved y fin r = (case (if fin then Some r else collect y r) of None \<Rightarrow> fail_setup r
     | Some r \<Rightarrow> if \<not> r_armed r then close_iterator False r
        else if fin then r\<lparr>r_setup := AwaitEndGuard\<rparr> else loop_head r)"

definition close_resolved :: "bool \<Rightarrow> yielded \<Rightarrow> bool \<Rightarrow> erec \<Rightarrow> erec" where
  "close_resolved diverted y fin r = (if fin then close_done diverted r
     else (case collect y r of None \<Rightarrow> fail_setup r | Some r \<Rightarrow> r\<lparr>r_setup := AwaitClose diverted\<rparr>))"

definition guard_resolved :: "setup_event \<Rightarrow> bool \<Rightarrow> (erec \<Rightarrow> erec) \<Rightarrow> erec \<Rightarrow> erec" where
  "guard_resolved ev in_loop k r = (case ev of
     GuardSays True \<Rightarrow> k r
   | GuardSays False \<Rightarrow> if in_loop then close_iterator True r else fail_setup r
   | GuardThrows \<Rightarrow> fail_setup r
   | _ \<Rightarrow> r)"

definition setup_step :: "setup_event \<Rightarrow> erec \<Rightarrow> erec" where
  "setup_step ev r = (case r_setup r of
     AwaitGuard \<Rightarrow> guard_resolved ev False (\<lambda>r. if \<not> r_armed r then finish_setup r else r\<lparr>r_setup := AwaitEffect\<rparr>) r
   | AwaitEffect \<Rightarrow> (case ev of EffectIs v \<Rightarrow> effect_resolved v r | EffectThrows \<Rightarrow> fail_setup r | _ \<Rightarrow> r)
   | AwaitValueGuard \<Rightarrow> guard_resolved ev False finish_setup r
   | AwaitLoopGuard \<Rightarrow> guard_resolved ev True (\<lambda>r. r\<lparr>r_setup := AwaitNext\<rparr>) r
   | AwaitNext \<Rightarrow> (case ev of StepIs y fin \<Rightarrow> next_resolved y fin r | StepThrows \<Rightarrow> fail_setup r | _ \<Rightarrow> r)
   | AwaitEndGuard \<Rightarrow> guard_resolved ev True finish_setup r
   | AwaitReturn dv \<Rightarrow> (case ev of StepIs y fin \<Rightarrow> close_resolved dv y fin r | StepThrows \<Rightarrow> fail_setup r | _ \<Rightarrow> r)
   | AwaitClose dv \<Rightarrow> (case ev of StepIs y fin \<Rightarrow> close_resolved dv y fin r | StepThrows \<Rightarrow> fail_setup r | _ \<Rightarrow> r)
   | Rollback todo fails \<Rightarrow> (case ev of
       DisposerEnds e \<Rightarrow> rollback_next todo (fails @ (case e of None \<Rightarrow> [] | Some x \<Rightarrow> [x])) r | _ \<Rightarrow> r)
   | SetupDone _ _ \<Rightarrow> r)"

section \<open>Disposal of a record\<close>

definition disposal_next :: "nat list \<Rightarrow> jstring list \<Rightarrow> erec \<Rightarrow> erec" where
  "disposal_next todo fails r = (case todo of
     [] \<Rightarrow> r\<lparr>r_disposal := Disposed fails\<rparr>
   | d # ds \<Rightarrow> r\<lparr>r_called := r_called r @ [d], r_disposal := Running ds fails\<rparr>)"

definition start_disposal :: "erec \<Rightarrow> erec" where
  "start_disposal r = disposal_next (rev (r_disposers r)) [] ((if r_deferred r then r else begin_cleanup r)\<lparr>r_disposers := []\<rparr>)"

text \<open>The setup has settled: a disposal that waits for it goes on.\<close>

definition wake :: "erec \<Rightarrow> erec" where
  "wake r = (if r_disposal r = WaitSetup \<and> setup_done r then start_disposal r else r)"

definition dispose_record :: "erec \<Rightarrow> erec" where
  "dispose_record r = (let release = consume (\<not> r_disposed r) in
     if \<not> fst release then r
     else wake (r\<lparr>r_disposed := \<not> snd release, r_armed := False, r_disposal := WaitSetup\<rparr>))"

definition disposer_ends :: "jstring option \<Rightarrow> erec \<Rightarrow> erec" where
  "disposer_ends e r = (case r_disposal r of
     Running todo fails \<Rightarrow> disposal_next todo (fails @ (case e of None \<Rightarrow> [] | Some x \<Rightarrow> [x])) r
   | _ \<Rightarrow> r)"

section \<open>The scope\<close>

datatype scope_state = Open | Disposing | ScopeDisposed

record scope =
  sc_store :: "erec list"
  sc_records :: "nat list"
  sc_setup_failures :: "(jstring \<times> jstring) list"
  sc_state :: scope_state
  sc_cleanup :: bool
  sc_queue :: "nat list"
  sc_current :: "nat option"
  sc_failures :: "(jstring \<times> jstring) list"
  sc_report :: "(bool \<times> (jstring \<times> jstring) list) option"

definition new_scope :: scope where
  "new_scope = \<lparr>sc_store = [], sc_records = [], sc_setup_failures = [], sc_state = Open, sc_cleanup = False,
     sc_queue = [], sc_current = None, sc_failures = [], sc_report = None\<rparr>"

text \<open>\<open>normalizeRegistration\<close> with the trimmed label; an options object without a kind or an order gets the defaults.\<close>

datatype registration = LabelOnly jstring
  | Options "jstring option" "effect_kind option" "declared list option" "effect_ordering option"
  | NoRegistration

definition normalize_registration :: "registration \<Rightarrow> jstring \<Rightarrow> (jstring \<times> effect_info option) option" where
  "normalize_registration reg fallback = (case reg of
     LabelOnly l \<Rightarrow> Some (l, None)
   | NoRegistration \<Rightarrow> Some (fallback, None)
   | Options l k rs ord \<Rightarrow> (case bounded_effect_resources rs of None \<Rightarrow> None
      | Some resources \<Rightarrow>
        let lb = (case l of None \<Rightarrow> fallback | Some l \<Rightarrow> if take 256 l = [] then fallback else take 256 l) in
        Some (lb, Some \<lparr>e_label = lb, e_kind = (case k of None \<Rightarrow> Transactional | Some k \<Rightarrow> k), e_resources = resources,
          e_ordering = (case ord of None \<Rightarrow> UnknownOrder | Some ord \<Rightarrow> ord)\<rparr>)))"

definition new_record :: "jstring \<times> effect_info option \<Rightarrow> bool \<Rightarrow> bool \<Rightarrow> erec" where
  "new_record n hook guarded = \<lparr>r_label = fst n, r_effect = snd n, r_disposers = [], r_disposed = False, r_armed = True,
     r_started = False, r_hook = hook, r_deferred = False, r_returns = False,
     r_setup = (if guarded then AwaitGuard else AwaitEffect), r_disposal = NotDisposed,
     r_collected = [], r_called = [], r_hooks = 0\<rparr>"

definition deferred_record :: "jstring \<times> effect_info option \<Rightarrow> nat \<Rightarrow> erec" where
  "deferred_record n d = \<lparr>r_label = fst n, r_effect = snd n, r_disposers = [d], r_disposed = False, r_armed = True,
     r_started = False, r_hook = False, r_deferred = True, r_returns = False,
     r_setup = SetupDone True [], r_disposal = NotDisposed, r_collected = [d], r_called = [], r_hooks = 0\<rparr>"

definition add_record :: "erec \<Rightarrow> scope \<Rightarrow> scope" where
  "add_record r s = s\<lparr>sc_store := sc_store s @ [r], sc_records := sc_records s @ [length (sc_store s)]\<rparr>"

text \<open>\<open>effect\<close> and \<open>defer\<close>; \<open>None\<close> is the error of a scope that is no longer open (or of a bad registration).\<close>

definition effect :: "registration \<Rightarrow> bool \<Rightarrow> bool \<Rightarrow> scope \<Rightarrow> scope option" where
  "effect reg hook guarded s = (if sc_state s \<noteq> Open then None
     else map_option (\<lambda>n. add_record (new_record n hook guarded) s) (normalize_registration reg (map of_char ''anonymous'')))"

definition defer_disposer :: "nat \<Rightarrow> registration \<Rightarrow> scope \<Rightarrow> scope option" where
  "defer_disposer d reg s = (if sc_state s \<noteq> Open then None
     else map_option (\<lambda>n. add_record (deferred_record n d) s) (normalize_registration reg (map of_char ''deferred'')))"

definition update :: "nat \<Rightarrow> (erec \<Rightarrow> erec) \<Rightarrow> scope \<Rightarrow> scope" where
  "update i f s = s\<lparr>sc_store := (sc_store s)[i := f (sc_store s ! i)]\<rparr>"

text \<open>What \<open>effect\<close> does when its setup settles: a success moves to the end of the open scope's records, a failure leaves them.\<close>

definition settle :: "nat \<Rightarrow> scope \<Rightarrow> scope" where
  "settle i s = (let r = sc_store s ! i in case r_setup r of
     SetupDone True _ \<Rightarrow> if sc_state s = Open \<and> i \<in> set (sc_records s) \<and> last (sc_records s) \<noteq> i
       then s\<lparr>sc_records := filter (\<lambda>j. j \<noteq> i) (sc_records s) @ [i]\<rparr> else s
   | SetupDone False fails \<Rightarrow> s\<lparr>sc_setup_failures := sc_setup_failures s @ map (\<lambda>e. (r_label r, e)) fails,
       sc_records := filter (\<lambda>j. j \<noteq> i) (sc_records s)\<rparr>
   | _ \<Rightarrow> s)"

definition setup_event_at :: "nat \<Rightarrow> setup_event \<Rightarrow> scope \<Rightarrow> scope" where
  "setup_event_at i ev s = (if length (sc_store s) \<le> i \<or> setup_done (sc_store s ! i) then s
     else let s = update i (setup_step ev) s in
       if setup_done (sc_store s ! i) then update i wake (settle i s) else s)"

definition labelled :: "erec \<Rightarrow> (jstring \<times> jstring) list" where
  "labelled r = (case r_disposal r of Disposed fails \<Rightarrow> map (\<lambda>e. (r_label r, e)) fails | _ \<Rightarrow> [])"

definition disposal_done :: "erec \<Rightarrow> bool" where
  "disposal_done r \<longleftrightarrow> (case r_disposal r of Disposed _ \<Rightarrow> True | _ \<Rightarrow> False)"

text \<open>The loop of \<open>dispose\<close>: as far as the records it asks dispose at once.\<close>

primrec dispose_loop :: "nat list \<Rightarrow> scope \<Rightarrow> scope" where
  "dispose_loop [] s = s\<lparr>sc_queue := [], sc_current := None, sc_state := ScopeDisposed,
     sc_report := Some (cleanup_state (sc_failures s \<noteq> []) False = 2, sc_failures s)\<rparr>"
| "dispose_loop (i # q) s = (let s = update i dispose_record s in
     if disposal_done (sc_store s ! i) then dispose_loop q (s\<lparr>sc_failures := sc_failures s @ labelled (sc_store s ! i)\<rparr>)
     else s\<lparr>sc_queue := q, sc_current := Some i\<rparr>)"

definition resume_loop :: "scope \<Rightarrow> scope" where
  "resume_loop s = (case sc_current s of None \<Rightarrow> s
     | Some i \<Rightarrow> if disposal_done (sc_store s ! i)
        then dispose_loop (sc_queue s) (s\<lparr>sc_failures := sc_failures s @ labelled (sc_store s ! i)\<rparr>) else s)"

definition dispose_scope :: "scope \<Rightarrow> scope" where
  "dispose_scope s = (if sc_cleanup s then s
     else dispose_loop (rev (sc_records s)) (s\<lparr>sc_cleanup := True, sc_state := Disposing,
       sc_failures := sc_setup_failures s, sc_setup_failures := [], sc_records := []\<rparr>))"

definition footprint :: "nat \<Rightarrow> scope \<Rightarrow> effect_info list" where
  "footprint limit s = take limit (List.map_filter (\<lambda>i. let r = sc_store s ! i in
     if \<not> r_disposed r then r_effect r else None) (sc_records s))"

datatype scope_event =
  CallEffect registration bool bool
| CallDefer nat registration
| SetupEvent nat setup_event
| DisposeRecord nat
| DisposerEvent nat "jstring option"
| DisposeScope

definition scope_step :: "scope \<Rightarrow> scope_event \<Rightarrow> scope" where
  "scope_step s ev = (case ev of
     CallEffect reg hook guarded \<Rightarrow> (case effect reg hook guarded s of None \<Rightarrow> s | Some s' \<Rightarrow> s')
   | CallDefer d reg \<Rightarrow> (case defer_disposer d reg s of None \<Rightarrow> s | Some s' \<Rightarrow> s')
   | SetupEvent i e \<Rightarrow> resume_loop (setup_event_at i e s)
   | DisposeRecord i \<Rightarrow> if i < length (sc_store s) then resume_loop (update i dispose_record s) else s
   | DisposerEvent i e \<Rightarrow> if i < length (sc_store s) then resume_loop (update i (disposer_ends e) s) else s
   | DisposeScope \<Rightarrow> dispose_scope s)"

section \<open>A record's invariant\<close>

text \<open>Every disposer ever collected is still held, or called, or next in a cleanup that runs in reverse.\<close>

definition rec_ok :: "erec \<Rightarrow> bool" where
  "rec_ok r \<longleftrightarrow> (r_armed r \<longleftrightarrow> \<not> r_disposed r) \<and> (r_disposed r \<longleftrightarrow> r_disposal r \<noteq> NotDisposed)
     \<and> r_hooks r = (if r_started r \<and> r_hook r then 1 else 0)
     \<and> (r_called r \<noteq> [] \<longrightarrow> r_started r \<or> r_deferred r)
     \<and> (case r_setup r of
          Rollback todo _ \<Rightarrow> r_disposers r = [] \<and> r_called r @ todo = rev (r_collected r)
            \<and> (r_disposal r = NotDisposed \<or> r_disposal r = WaitSetup) \<and> r_started r
        | SetupDone False _ \<Rightarrow> r_disposers r = [] \<and> r_called r = rev (r_collected r)
            \<and> (r_disposal r = NotDisposed \<or> r_disposal r = Disposed [])
        | SetupDone True _ \<Rightarrow> (case r_disposal r of
              NotDisposed \<Rightarrow> r_called r = [] \<and> r_disposers r = r_collected r
            | WaitSetup \<Rightarrow> False
            | Running todo _ \<Rightarrow> r_disposers r = [] \<and> r_called r @ todo = rev (r_collected r) \<and> r_called r \<noteq> []
            | Disposed _ \<Rightarrow> r_disposers r = [] \<and> r_called r = rev (r_collected r))
        | _ \<Rightarrow> r_called r = [] \<and> r_disposers r = r_collected r
            \<and> (r_disposal r = NotDisposed \<or> r_disposal r = WaitSetup))"

text \<open>The same with a disposal that waits although the setup just settled: what \<open>wake\<close> starts from.\<close>

definition pre_ok :: "erec \<Rightarrow> bool" where
  "pre_ok r \<longleftrightarrow> rec_ok r \<or> (setup_done r \<and> r_disposal r = WaitSetup \<and> \<not> r_armed r \<and> r_disposed r
     \<and> r_hooks r = (if r_started r \<and> r_hook r then 1 else 0) \<and> (r_called r \<noteq> [] \<longrightarrow> r_started r \<or> r_deferred r)
     \<and> (case r_setup r of SetupDone True _ \<Rightarrow> r_called r = [] \<and> r_disposers r = r_collected r
        | SetupDone False _ \<Rightarrow> r_disposers r = [] \<and> r_called r = rev (r_collected r) | _ \<Rightarrow> False))"

lemma begin_cleanup_simps [simp]:
  "r_label (begin_cleanup r) = r_label r" "r_disposers (begin_cleanup r) = r_disposers r"
  "r_disposed (begin_cleanup r) = r_disposed r" "r_armed (begin_cleanup r) = r_armed r" "r_started (begin_cleanup r)"
  "r_hook (begin_cleanup r) = r_hook r" "r_deferred (begin_cleanup r) = r_deferred r" "r_returns (begin_cleanup r) = r_returns r"
  "r_setup (begin_cleanup r) = r_setup r" "r_disposal (begin_cleanup r) = r_disposal r"
  "r_collected (begin_cleanup r) = r_collected r" "r_called (begin_cleanup r) = r_called r"
  "r_hooks (begin_cleanup r) = r_hooks r + (if r_started r \<or> \<not> r_hook r then 0 else 1)"
  by (simp_all add: begin_cleanup_def)

text \<open>A setup that has neither settled nor failed yet.\<close>

definition collecting :: "erec \<Rightarrow> bool" where
  "collecting r \<longleftrightarrow> (r_armed r \<longleftrightarrow> \<not> r_disposed r) \<and> (r_disposed r \<longleftrightarrow> r_disposal r \<noteq> NotDisposed)
     \<and> r_hooks r = (if r_started r \<and> r_hook r then 1 else 0) \<and> r_called r = [] \<and> r_disposers r = r_collected r
     \<and> (r_disposal r = NotDisposed \<or> r_disposal r = WaitSetup)"

definition in_setup :: "setup_pc \<Rightarrow> bool" where
  "in_setup p \<longleftrightarrow> (case p of Rollback _ _ \<Rightarrow> False | SetupDone _ _ \<Rightarrow> False | _ \<Rightarrow> True)"

lemma collecting_rec_ok: "in_setup (r_setup r) \<Longrightarrow> rec_ok r \<longleftrightarrow> collecting r"
  by (auto simp: rec_ok_def collecting_def in_setup_def split: setup_pc.splits)

lemma collecting_pc: "collecting r \<Longrightarrow> in_setup p \<Longrightarrow> pre_ok (r\<lparr>r_setup := p\<rparr>)"
  unfolding pre_ok_def by (intro disjI1, subst collecting_rec_ok) (auto simp: collecting_def)

lemma collecting_begin: "collecting r \<Longrightarrow> collecting (begin_cleanup r)"
  by (auto simp: collecting_def)

lemma collecting_collect: "collecting r \<Longrightarrow> collect y r = Some r' \<Longrightarrow> collecting r'"
  by (auto simp: collecting_def collect_def split: yielded.splits)

lemma collecting_returns [simp]: "collecting (r\<lparr>r_returns := b\<rparr>) = collecting r"
  by (simp add: collecting_def)

lemma finish_setup_ok: "collecting r \<Longrightarrow> pre_ok (finish_setup r)"
  unfolding pre_ok_def finish_setup_def
  by (cases "r_disposal r") (auto simp: collecting_def rec_ok_def setup_done_def)

lemma rollback_ok:
  assumes "r_called r @ todo = rev (r_collected r)" "r_disposers r = []" "r_started r"
    "r_armed r \<longleftrightarrow> \<not> r_disposed r" "r_disposed r \<longleftrightarrow> r_disposal r \<noteq> NotDisposed"
    "r_hooks r = (if r_started r \<and> r_hook r then 1 else 0)" "r_disposal r = NotDisposed \<or> r_disposal r = WaitSetup"
  shows "pre_ok (rollback_next todo fails r)"
  using assms unfolding pre_ok_def rollback_next_def
  by (cases todo; cases "r_disposal r") (auto simp: rec_ok_def setup_done_def)

lemma fail_ok: "collecting r \<Longrightarrow> pre_ok (fail_setup r)"
  unfolding fail_setup_def by (rule rollback_ok) (auto simp: collecting_def)

lemma close_done_ok: "collecting r \<Longrightarrow> pre_ok (close_done dv r)"
  by (simp add: close_done_def finish_setup_ok fail_ok)

lemma close_iterator_ok: "collecting r \<Longrightarrow> pre_ok (close_iterator dv r)"
  by (simp add: close_iterator_def Let_def close_done_ok collecting_begin collecting_pc in_setup_def)

lemma loop_head_ok: "collecting r \<Longrightarrow> pre_ok (loop_head r)"
  by (simp add: loop_head_def close_iterator_ok collecting_pc in_setup_def)

lemma collect_value_ok: "collecting r \<Longrightarrow> pre_ok (collect_value y r)"
  by (auto simp: collect_value_def fail_ok finish_setup_ok collecting_pc collecting_collect in_setup_def split: option.splits)

lemma next_resolved_ok: "collecting r \<Longrightarrow> pre_ok (next_resolved y fin r)"
  by (auto simp: next_resolved_def fail_ok close_iterator_ok loop_head_ok collecting_pc in_setup_def split: option.splits
      dest: collecting_collect)

lemma close_resolved_ok: "collecting r \<Longrightarrow> pre_ok (close_resolved dv y fin r)"
  by (auto simp: close_resolved_def close_done_ok fail_ok collecting_pc in_setup_def split: option.splits dest: collecting_collect)

lemma guard_resolved_ok: "collecting r \<Longrightarrow> rec_ok r \<Longrightarrow> pre_ok (k r) \<Longrightarrow> pre_ok (guard_resolved ev l k r)"
  by (auto simp: guard_resolved_def close_iterator_ok fail_ok pre_ok_def [of r] split: setup_event.splits bool.splits)

lemma setup_step_ok:
  assumes ok: "rec_ok r"
  shows "pre_ok (setup_step ev r)"
proof (cases "in_setup (r_setup r)")
  case True
  then have c: "collecting r" using ok collecting_rec_ok by blast
  have p: "pre_ok r" using ok by (simp add: pre_ok_def)
  show ?thesis
  proof (cases "r_setup r")
    case AwaitEffect
    then show ?thesis using c p
      by (auto simp: setup_step_def effect_resolved_def collect_value_ok loop_head_ok fail_ok split: setup_event.splits effect_value.splits)
  qed (use c p ok True in \<open>auto simp: setup_step_def guard_resolved_ok finish_setup_ok fail_ok collecting_pc next_resolved_ok
      close_resolved_ok in_setup_def split: setup_event.splits\<close>)
next
  case False
  show ?thesis
  proof (cases "r_setup r")
    case (Rollback todo fails)
    then show ?thesis using ok
      by (auto simp: setup_step_def rec_ok_def pre_ok_def [of r] intro!: rollback_ok split: setup_event.splits)
  next
    case (SetupDone b fails)
    then show ?thesis using ok by (simp add: setup_step_def pre_ok_def)
  qed (use False in \<open>simp_all add: in_setup_def\<close>)
qed

lemma disposal_next_ok:
  assumes "r_called r @ todo = rev (r_collected r)" "r_disposers r = []" "r_started r \<or> r_deferred r"
    "r_disposed r" "\<not> r_armed r" "r_hooks r = (if r_started r \<and> r_hook r then 1 else 0)" "r_setup r = SetupDone True f"
  shows "rec_ok (disposal_next todo fails r)"
  using assms by (cases todo) (auto simp: disposal_next_def rec_ok_def)

lemma wake_ok:
  assumes "pre_ok r"
  shows "rec_ok (wake r)"
proof (cases "rec_ok r")
  case True
  then have "\<not> (r_disposal r = WaitSetup \<and> setup_done r)"
    by (auto simp: rec_ok_def setup_done_def split: setup_pc.splits bool.splits)
  then have "wake r = r" unfolding wake_def by (rule if_not_P)
  then show ?thesis using True by simp
next
  case False
  then obtain b f where s: "r_setup r = SetupDone b f" and w: "r_disposal r = WaitSetup"
    using assms by (auto simp: pre_ok_def setup_done_def split: setup_pc.splits)
  show ?thesis
  proof (cases b)
    case True
    then show ?thesis using assms False s w
      by (auto simp: pre_ok_def wake_def setup_done_def start_disposal_def intro!: disposal_next_ok)
  next
    case False
    then show ?thesis using assms \<open>\<not> rec_ok r\<close> s w
      by (auto simp: pre_ok_def wake_def setup_done_def start_disposal_def disposal_next_def rec_ok_def split: if_splits)
  qed
qed

lemma dispose_record_ok:
  assumes "rec_ok r"
  shows "rec_ok (dispose_record r)"
proof (cases "r_disposed r")
  case True then show ?thesis using assms by (simp add: dispose_record_def consume_def)
next
  case False
  have "pre_ok (r\<lparr>r_disposed := True, r_armed := False, r_disposal := WaitSetup\<rparr>)"
    using assms False by (auto simp: rec_ok_def pre_ok_def setup_done_def split: setup_pc.splits bool.splits)
  then show ?thesis using False by (simp add: dispose_record_def consume_def wake_ok)
qed

lemma disposer_ends_ok: "rec_ok r \<Longrightarrow> rec_ok (disposer_ends e r)"
proof (cases "r_disposal r")
  case (Running todo fails)
  assume ok: "rec_ok r"
  obtain f where s: "r_setup r = SetupDone True f"
  proof (cases "r_setup r")
    case (SetupDone b f)
    then show ?thesis using ok Running that by (cases b) (auto simp: rec_ok_def)
  qed (use ok Running in \<open>auto simp: rec_ok_def\<close>)
  then show ?thesis using ok Running
    by (auto simp: disposer_ends_def rec_ok_def [of r] intro!: disposal_next_ok)
qed (auto simp: disposer_ends_def)

text \<open>What the invariant says of the calls made.\<close>

lemma rec_ok_calls:
  assumes "rec_ok r"
  shows "\<exists>rest. r_called r @ rest = rev (r_collected r)" and "r_hooks r \<le> 1"
    and "r_hook r \<Longrightarrow> r_called r \<noteq> [] \<Longrightarrow> \<not> r_deferred r \<Longrightarrow> r_hooks r = 1"
    and "disposal_done r \<or> (\<exists>f. r_setup r = SetupDone False f) \<Longrightarrow> setup_done r \<and> r_called r = rev (r_collected r)"
proof -
  show "\<exists>rest. r_called r @ rest = rev (r_collected r)"
  proof (cases "r_setup r")
    case (SetupDone b f)
    then show ?thesis using assms by (cases b; cases "r_disposal r") (auto simp: rec_ok_def)
  qed (use assms in \<open>auto simp: rec_ok_def\<close>)
  show "r_hooks r \<le> 1" using assms by (simp add: rec_ok_def)
  show "r_hooks r = 1" if "r_hook r" "r_called r \<noteq> []" "\<not> r_deferred r" using assms that by (simp add: rec_ok_def)
  show "setup_done r \<and> r_called r = rev (r_collected r)" if d: "disposal_done r \<or> (\<exists>f. r_setup r = SetupDone False f)"
  proof (cases "r_setup r")
    case (SetupDone b f)
    then show ?thesis using assms d by (cases b; cases "r_disposal r") (auto simp: rec_ok_def disposal_done_def setup_done_def)
  qed (use assms d in \<open>auto simp: rec_ok_def disposal_done_def\<close>)
qed

section \<open>The scope's invariant\<close>

definition failed :: "erec \<Rightarrow> bool" where
  "failed r \<longleftrightarrow> (\<exists>f. r_setup r = SetupDone False f)"

definition settled :: "erec \<Rightarrow> bool" where
  "settled r \<longleftrightarrow> failed r \<or> disposal_done r"

definition store_ok :: "scope \<Rightarrow> bool" where
  "store_ok s \<longleftrightarrow> (\<forall>i < length (sc_store s). rec_ok (sc_store s ! i))"

text \<open>The loop's bookkeeping: nothing that is not settled is forgotten.\<close>

definition covered :: "scope \<Rightarrow> nat set \<Rightarrow> bool" where
  "covered s A \<longleftrightarrow> A \<subseteq> {..<length (sc_store s)} \<and> (\<forall>i < length (sc_store s). i \<in> A \<or> settled (sc_store s ! i))"

definition scope_ok :: "scope \<Rightarrow> bool" where
  "scope_ok s \<longleftrightarrow> store_ok s \<and> (if \<not> sc_cleanup s
     then sc_state s = Open \<and> sc_current s = None \<and> sc_report s = None \<and> covered s (set (sc_records s))
     else sc_state s \<noteq> Open \<and> sc_records s = [] \<and> (case sc_report s of
        Some _ \<Rightarrow> sc_current s = None \<and> covered s {}
      | None \<Rightarrow> (\<exists>c. sc_current s = Some c \<and> covered s (insert c (set (sc_queue s)))
          \<and> \<not> disposal_done (sc_store s ! c) \<and> r_disposed (sc_store s ! c))))"

lemma dispose_record_frozen: "rec_ok r \<Longrightarrow> r_disposed r \<Longrightarrow> dispose_record r = r"
  by (simp add: dispose_record_def consume_def)

lemma done_disposed: "rec_ok r \<Longrightarrow> disposal_done r \<Longrightarrow> r_disposed r \<and> setup_done r"
proof -
  assume r: "rec_ok r" and d: "disposal_done r"
  then have "r_disposed r = (r_disposal r \<noteq> NotDisposed)" unfolding rec_ok_def by blast
  moreover have "r_disposal r \<noteq> NotDisposed" using d by (auto simp: disposal_done_def)
  ultimately show ?thesis using rec_ok_calls(4) [OF r] d by simp
qed

lemma frozen_dispose: "rec_ok r \<Longrightarrow> disposal_done r \<Longrightarrow> dispose_record r = r"
  using done_disposed dispose_record_frozen by blast

lemma frozen_ends: "disposal_done r \<Longrightarrow> disposer_ends e r = r"
  by (auto simp: disposer_ends_def disposal_done_def split: disposal_pc.splits)

lemma setup_disposal_next [simp]: "r_setup (disposal_next t f r) = r_setup r"
  by (simp add: disposal_next_def split: list.splits)

lemma setup_wake [simp]: "r_setup (wake r) = r_setup r"
  by (simp add: wake_def start_disposal_def)

lemma setup_dispose [simp]: "r_setup (dispose_record r) = r_setup r"
  by (simp add: dispose_record_def Let_def)

lemma setup_ends [simp]: "r_setup (disposer_ends e r) = r_setup r"
  by (simp add: disposer_ends_def split: disposal_pc.splits)

lemma disposed_disposal_next [simp]: "r_disposed (disposal_next t f r) = r_disposed r"
  by (simp add: disposal_next_def split: list.splits)

lemma disposed_wake [simp]: "r_disposed (wake r) = r_disposed r"
  by (simp add: wake_def start_disposal_def)

lemma disposed_dispose [simp]: "r_disposed (dispose_record r)"
  by (simp add: dispose_record_def Let_def consume_def)

lemma disposed_ends [simp]: "r_disposed (disposer_ends e r) = r_disposed r"
  by (simp add: disposer_ends_def split: disposal_pc.splits)

lemma disposed_rollback [simp]: "r_disposed (rollback_next todo fails r) = r_disposed r"
  by (cases todo) (simp_all add: rollback_next_def)

lemma disposed_fail [simp]: "r_disposed (fail_setup r) = r_disposed r"
  by (simp add: fail_setup_def)

lemma disposed_close_done [simp]: "r_disposed (close_done dv r) = r_disposed r"
  by (simp add: close_done_def finish_setup_def)

lemma disposed_close [simp]: "r_disposed (close_iterator dv r) = r_disposed r"
  by (simp add: close_iterator_def Let_def)

lemma disposed_head [simp]: "r_disposed (loop_head r) = r_disposed r"
  by (simp add: loop_head_def)

lemma disposed_finish [simp]: "r_disposed (finish_setup r) = r_disposed r"
  by (simp add: finish_setup_def)

lemma disposed_collect: "collect y r = Some r' \<Longrightarrow> r_disposed r' = r_disposed r"
  by (auto simp: collect_def split: yielded.splits)

lemma disposed_resolved [simp]:
  "r_disposed (collect_value y r) = r_disposed r" "r_disposed (next_resolved y fin r) = r_disposed r"
  "r_disposed (close_resolved dv y fin r) = r_disposed r" "r_disposed (effect_resolved v r) = r_disposed r"
proof -
  show 1: "r_disposed (collect_value y r) = r_disposed r" for y
    by (simp add: collect_value_def disposed_collect split: option.splits)
  show "r_disposed (next_resolved y fin r) = r_disposed r"
    by (auto simp: next_resolved_def disposed_collect split: option.splits)
  show "r_disposed (close_resolved dv y fin r) = r_disposed r"
    by (simp add: close_resolved_def disposed_collect split: option.splits)
  show "r_disposed (effect_resolved v r) = r_disposed r"
    by (simp add: effect_resolved_def 1 split: effect_value.splits)
qed

lemma disposed_guard: "r_disposed (k r) = r_disposed r \<Longrightarrow> r_disposed (guard_resolved ev l k r) = r_disposed r"
  by (simp add: guard_resolved_def split: setup_event.splits bool.splits)

lemma disposed_setup_step [simp]: "r_disposed (setup_step ev r) = r_disposed r"
  by (cases "r_setup r"; simp add: setup_step_def disposed_guard split: setup_event.split)

lemma failed_dispose [simp]: "failed (dispose_record r) = failed r"
  by (simp add: failed_def)

lemma failed_ends [simp]: "failed (disposer_ends e r) = failed r"
  by (simp add: failed_def)

lemma settled_dispose: "rec_ok r \<Longrightarrow> settled r \<Longrightarrow> settled (dispose_record r)"
  using frozen_dispose [of r] by (auto simp: settled_def)

lemma settled_ends: "settled r \<Longrightarrow> settled (disposer_ends e r)"
  using frozen_ends [of r e] by (auto simp: settled_def)

text \<open>A change of one record that keeps the invariant and what is settled.\<close>

definition good_update :: "(erec \<Rightarrow> erec) \<Rightarrow> erec \<Rightarrow> bool" where
  "good_update f r \<longleftrightarrow> rec_ok (f r) \<and> (settled r \<longrightarrow> settled (f r)) \<and> (disposal_done r \<longrightarrow> f r = r) \<and> (r_disposed r \<longrightarrow> r_disposed (f r))"

lemma good_dispose: "rec_ok r \<Longrightarrow> good_update dispose_record r"
  by (simp add: good_update_def dispose_record_ok settled_dispose frozen_dispose)

lemma good_ends: "rec_ok r \<Longrightarrow> good_update (disposer_ends e) r"
  by (simp add: good_update_def disposer_ends_ok settled_ends frozen_ends)

lemma update_simps [simp]:
  "sc_records (update i f s) = sc_records s" "sc_state (update i f s) = sc_state s" "sc_cleanup (update i f s) = sc_cleanup s"
  "sc_queue (update i f s) = sc_queue s" "sc_current (update i f s) = sc_current s" "sc_report (update i f s) = sc_report s"
  "sc_failures (update i f s) = sc_failures s" "sc_setup_failures (update i f s) = sc_setup_failures s"
  "length (sc_store (update i f s)) = length (sc_store s)"
  by (simp_all add: update_def)

lemma nth_update: "j < length (sc_store s) \<Longrightarrow> sc_store (update i f s) ! j = (if j = i then f (sc_store s ! i) else sc_store s ! j)"
  by (auto simp: update_def nth_list_update)

lemma update_store_ok: "store_ok s \<Longrightarrow> (i < length (sc_store s) \<Longrightarrow> good_update f (sc_store s ! i)) \<Longrightarrow> store_ok (update i f s)"
  by (auto simp: store_ok_def nth_update good_update_def)

lemma update_covered: "covered s A \<Longrightarrow> (i < length (sc_store s) \<Longrightarrow> good_update f (sc_store s ! i)) \<Longrightarrow> covered (update i f s) A"
  by (auto simp: covered_def nth_update good_update_def)

text \<open>The loop of \<open>dispose\<close> from a covered scope.\<close>

lemma dispose_loop_ok:
  assumes "store_ok s" "sc_cleanup s" "sc_state s \<noteq> Open" "sc_records s = []" "sc_report s = None" "covered s (set q)"
  shows "scope_ok (dispose_loop q s)"
  using assms
proof (induction q arbitrary: s)
  case Nil
  then show ?case by (simp add: scope_ok_def store_ok_def covered_def)
next
  case (Cons i q)
  have i: "i < length (sc_store s)" using Cons.prems(6) by (simp add: covered_def)
  have g: "good_update dispose_record (sc_store s ! i)" using Cons.prems(1) i by (simp add: store_ok_def good_dispose)
  let ?s = "update i dispose_record s"
  have so: "store_ok ?s" by (rule update_store_ok [OF Cons.prems(1) g])
  have co: "covered ?s (insert i (set q))" using update_covered [OF Cons.prems(6) g] by simp
  show ?case
  proof (cases "disposal_done (sc_store ?s ! i)")
    case True
    let ?s' = "?s\<lparr>sc_failures := sc_failures ?s @ labelled (sc_store ?s ! i)\<rparr>"
    have "covered ?s' (set q)" using co True by (auto simp: covered_def settled_def)
    then have "scope_ok (dispose_loop q ?s')" using Cons.IH [of ?s'] so Cons.prems by (simp add: store_ok_def)
    then show ?thesis using True by (simp add: Let_def)
  next
    case False
    then show ?thesis using so co i Cons.prems by (simp add: Let_def scope_ok_def store_ok_def covered_def nth_update)
  qed
qed

text \<open>Before the loop resumes, the record it awaits may have finished.\<close>

definition mid_ok :: "scope \<Rightarrow> bool" where
  "mid_ok s \<longleftrightarrow> store_ok s \<and> (if \<not> sc_cleanup s
     then sc_state s = Open \<and> sc_current s = None \<and> sc_report s = None \<and> covered s (set (sc_records s))
     else sc_state s \<noteq> Open \<and> sc_records s = [] \<and> (case sc_report s of
        Some _ \<Rightarrow> sc_current s = None \<and> covered s {}
      | None \<Rightarrow> (\<exists>c. sc_current s = Some c \<and> covered s (insert c (set (sc_queue s))) \<and> r_disposed (sc_store s ! c))))"

lemma scope_mid: "scope_ok s \<Longrightarrow> mid_ok s"
  by (auto simp: scope_ok_def mid_ok_def split: option.splits)

lemma resume_ok:
  assumes m: "mid_ok s"
  shows "scope_ok (resume_loop s)"
proof (cases "sc_current s")
  case None
  then show ?thesis using m by (auto simp: resume_loop_def mid_ok_def scope_ok_def split: if_splits option.splits)
next
  case (Some c)
  then have p: "sc_cleanup s" "sc_report s = None" "sc_state s \<noteq> Open" "sc_records s = []" "store_ok s"
    "covered s (insert c (set (sc_queue s)))" "r_disposed (sc_store s ! c)"
    using m by (auto simp: mid_ok_def split: if_splits option.splits)
  show ?thesis
  proof (cases "disposal_done (sc_store s ! c)")
    case True
    let ?s = "s\<lparr>sc_failures := sc_failures s @ labelled (sc_store s ! c)\<rparr>"
    have "covered ?s (set (sc_queue s))" using p(6) True by (auto simp: covered_def settled_def)
    then have "scope_ok (dispose_loop (sc_queue s) ?s)" using p by (intro dispose_loop_ok) (simp_all add: store_ok_def)
    then show ?thesis using Some True by (simp add: resume_loop_def)
  next
    case False
    then show ?thesis using Some p by (simp add: resume_loop_def scope_ok_def)
  qed
qed

lemma update_mid:
  assumes m: "mid_ok s" and g: "i < length (sc_store s) \<Longrightarrow> good_update f (sc_store s ! i)"
  shows "mid_ok (update i f s)"
proof (cases "sc_cleanup s")
  case False
  then show ?thesis using m update_store_ok [of s i f] update_covered [of s "set (sc_records s)" i f] g by (simp add: mid_ok_def)
next
  case True
  show ?thesis
  proof (cases "sc_report s")
    case (Some rp)
    then show ?thesis using True m update_store_ok [of s i f] update_covered [of s "{}" i f] g by (simp add: mid_ok_def)
  next
    case None
    then obtain c where c: "sc_current s = Some c" "covered s (insert c (set (sc_queue s)))" "r_disposed (sc_store s ! c)"
      using True m by (auto simp: mid_ok_def)
    have "c < length (sc_store s)" using c(2) by (simp add: covered_def)
    then have "r_disposed (sc_store (update i f s) ! c)" using c(3) g by (auto simp: nth_update good_update_def)
    then show ?thesis using True None m c update_store_ok [of s i f] update_covered [OF c(2), of i f] g by (simp add: mid_ok_def)
  qed
qed

definition records_after :: "nat \<Rightarrow> scope \<Rightarrow> nat list" where
  "records_after i s = sc_records (settle i s)"

lemma settle_other:
  "sc_store (settle i s) = sc_store s" "sc_state (settle i s) = sc_state s" "sc_cleanup (settle i s) = sc_cleanup s"
  "sc_queue (settle i s) = sc_queue s" "sc_current (settle i s) = sc_current s" "sc_report (settle i s) = sc_report s"
  "sc_failures (settle i s) = sc_failures s"
  by (auto simp: settle_def Let_def split: setup_pc.splits bool.splits)

lemma settle_records:
  "set (sc_records (settle i s)) = (if failed (sc_store s ! i) then set (sc_records s) - {i} else set (sc_records s))"
  by (auto simp: settle_def Let_def failed_def split: setup_pc.splits bool.splits)

lemma settle_empty: "sc_records s = [] \<Longrightarrow> sc_records (settle i s) = []"
  by (auto simp: settle_def Let_def split: setup_pc.splits bool.splits)

lemma setup_event_shape:
  fixes ev :: setup_event
  assumes "i < length (sc_store s)" "\<not> setup_done (sc_store s ! i)"
  defines "r' \<equiv> setup_step ev (sc_store s ! i)"
  shows "\<not> setup_done r' \<Longrightarrow> setup_event_at i ev s = update i (setup_step ev) s"
    and "setup_done r' \<Longrightarrow> setup_event_at i ev s = (update i (\<lambda>r. wake (setup_step ev r)) s)
      \<lparr>sc_records := sc_records (settle i (update i (setup_step ev) s)),
       sc_setup_failures := sc_setup_failures (settle i (update i (setup_step ev) s))\<rparr>"
proof -
  have n: "sc_store (update i (setup_step ev) s) ! i = r'" using assms by (simp add: nth_update)
  show "\<not> setup_done r' \<Longrightarrow> setup_event_at i ev s = update i (setup_step ev) s"
    using assms n by (simp add: setup_event_at_def Let_def)
  assume d: "setup_done r'"
  let ?s1 = "update i (setup_step ev) s"
  have "setup_event_at i ev s = update i wake (settle i ?s1)" using assms n d by (simp add: setup_event_at_def Let_def)
  moreover have "sc_store (update i wake (settle i ?s1)) = sc_store (update i (\<lambda>r. wake (setup_step ev r)) s)"
    using assms(1) by (simp add: update_def settle_other)
  ultimately show "setup_event_at i ev s = (update i (\<lambda>r. wake (setup_step ev r)) s)
      \<lparr>sc_records := sc_records (settle i ?s1), sc_setup_failures := sc_setup_failures (settle i ?s1)\<rparr>"
    by (intro scope.equality) (simp_all add: settle_other)
qed

lemma good_setup:
  assumes ok: "rec_ok r" and n: "\<not> setup_done r"
  shows "\<not> setup_done (setup_step ev r) \<Longrightarrow> good_update (setup_step ev) r"
    and "good_update (\<lambda>r. wake (setup_step ev r)) r"
proof -
  have p: "pre_ok (setup_step ev r)" by (rule setup_step_ok [OF ok])
  have s: "\<not> settled r" "\<not> disposal_done r" using n done_disposed [OF ok] by (auto simp: settled_def failed_def setup_done_def)
  show "\<not> setup_done (setup_step ev r) \<Longrightarrow> good_update (setup_step ev) r"
    using p s by (auto simp: good_update_def pre_ok_def)
  show "good_update (\<lambda>r. wake (setup_step ev r)) r"
    using wake_ok [OF p] s by (simp add: good_update_def)
qed

lemma setup_event_mid:
  assumes m: "mid_ok s"
  shows "mid_ok (setup_event_at i ev s)"
proof (cases "i < length (sc_store s) \<and> \<not> setup_done (sc_store s ! i)")
  case False
  then show ?thesis using m by (auto simp: setup_event_at_def)
next
  case True
  let ?r = "sc_store s ! i"
  have ok: "rec_ok ?r" using m True by (simp add: mid_ok_def store_ok_def)
  show ?thesis
  proof (cases "setup_done (setup_step ev ?r)")
    case False
    then show ?thesis using setup_event_shape(1) [of i s ev] True update_mid [OF m] good_setup(1) [OF ok] by simp
  next
    case d: True
    let ?s1 = "update i (setup_step ev) s" and ?s2 = "update i (\<lambda>r. wake (setup_step ev r)) s"
    have m2: "mid_ok ?s2" by (rule update_mid [OF m]) (use good_setup(2) [OF ok] True in simp)
    have e: "setup_event_at i ev s = ?s2\<lparr>sc_records := sc_records (settle i ?s1), sc_setup_failures := sc_setup_failures (settle i ?s1)\<rparr>"
      using setup_event_shape(2) [of i s ev] True d by simp
    have f: "failed (sc_store ?s1 ! i) \<Longrightarrow> settled (sc_store ?s2 ! i)"
      using True by (simp add: nth_update settled_def failed_def)
    have em: "sc_records s = [] \<Longrightarrow> sc_records (settle i ?s1) = []" by (simp add: settle_empty)
    have cov: "covered ?s2 (set (sc_records ?s2)) \<Longrightarrow> covered ?s2 (set (sc_records (settle i ?s1)))"
      using f by (auto simp: covered_def settle_records)
    show ?thesis using m2 em cov unfolding e
      by (auto simp: mid_ok_def store_ok_def covered_def split: option.splits if_splits)
  qed
qed

lemma add_ok:
  assumes s: "scope_ok s" and o: "sc_state s = Open" and r: "rec_ok r"
  shows "scope_ok (add_record r s)"
proof -
  have c: "\<not> sc_cleanup s" using s o by (auto simp: scope_ok_def split: if_splits)
  have st: "store_ok (add_record r s)" using s r by (auto simp: scope_ok_def store_ok_def add_record_def nth_append)
  have cv: "covered s (set (sc_records s))" using s c by (simp add: scope_ok_def)
  have "covered (add_record r s) (set (sc_records (add_record r s)))"
    unfolding covered_def
  proof (intro conjI allI impI)
    show "set (sc_records (add_record r s)) \<subseteq> {..<length (sc_store (add_record r s))}"
      using cv by (auto simp: covered_def add_record_def)
    fix i assume "i < length (sc_store (add_record r s))"
    then consider "i < length (sc_store s)" | "i = length (sc_store s)" by (auto simp: add_record_def less_Suc_eq)
    then show "i \<in> set (sc_records (add_record r s)) \<or> settled (sc_store (add_record r s) ! i)"
      using cv by cases (auto simp: covered_def add_record_def nth_append)
  qed
  then show ?thesis using s c o st by (simp add: scope_ok_def add_record_def)
qed

lemma new_record_ok: "rec_ok (new_record n h g)" "rec_ok (deferred_record n d)"
  by (simp_all add: new_record_def deferred_record_def rec_ok_def)

lemma dispose_scope_ok: "scope_ok s \<Longrightarrow> scope_ok (dispose_scope s)"
proof (cases "sc_cleanup s")
  case False
  assume ok: "scope_ok s"
  have "scope_ok (dispose_loop (rev (sc_records s)) (s\<lparr>sc_cleanup := True, sc_state := Disposing,
       sc_failures := sc_setup_failures s, sc_setup_failures := [], sc_records := []\<rparr>))"
    by (rule dispose_loop_ok) (use ok False in \<open>simp_all add: scope_ok_def store_ok_def covered_def\<close>)
  then show ?thesis using False by (simp add: dispose_scope_def)
qed (simp add: dispose_scope_def)

lemma scope_step_ok:
  assumes ok: "scope_ok s"
  shows "scope_ok (scope_step s ev)"
proof (cases ev)
  case (CallEffect reg hook guarded)
  then show ?thesis using ok add_ok new_record_ok(1)
    by (auto simp: scope_step_def effect_def split: option.splits)
next
  case (CallDefer d reg)
  then show ?thesis using ok add_ok new_record_ok(2)
    by (auto simp: scope_step_def defer_disposer_def split: option.splits)
next
  case (SetupEvent i e)
  then show ?thesis using resume_ok [OF setup_event_mid [OF scope_mid [OF ok]]] by (simp add: scope_step_def)
next
  case (DisposeRecord i)
  have "i < length (sc_store s) \<Longrightarrow> good_update dispose_record (sc_store s ! i)"
    using ok by (simp add: scope_ok_def store_ok_def good_dispose)
  then show ?thesis using resume_ok [OF update_mid [OF scope_mid [OF ok]]] ok DisposeRecord by (simp add: scope_step_def)
next
  case (DisposerEvent i e)
  have "i < length (sc_store s) \<Longrightarrow> good_update (disposer_ends e) (sc_store s ! i)"
    using ok by (simp add: scope_ok_def store_ok_def good_ends)
  then show ?thesis using resume_ok [OF update_mid [OF scope_mid [OF ok]]] ok DisposerEvent by (simp add: scope_step_def)
next
  case DisposeScope
  then show ?thesis using dispose_scope_ok [OF ok] by (simp add: scope_step_def)
qed

interpretation scope: machine_invariant scope_step scope_ok
  by unfold_locales (rule scope_step_ok)

lemma new_scope_ok: "scope_ok new_scope"
  by (simp add: new_scope_def scope_ok_def store_ok_def covered_def)

section \<open>What the report holds\<close>

definition labels_of :: "scope \<Rightarrow> nat list \<Rightarrow> (jstring \<times> jstring) list" where
  "labels_of s is = concat (map (\<lambda>i. labelled (sc_store s ! i)) is)"

definition gathered :: "nat list \<Rightarrow> (jstring \<times> jstring) list \<Rightarrow> scope \<Rightarrow> nat list \<Rightarrow> bool" where
  "gathered Q F s d \<longleftrightarrow> sc_cleanup s \<and> sc_failures s = F @ labels_of s d
     \<and> (\<forall>i \<in> set d. i < length (sc_store s) \<and> disposal_done (sc_store s ! i))"

definition exact :: "nat list \<Rightarrow> (jstring \<times> jstring) list \<Rightarrow> scope \<Rightarrow> bool" where
  "exact Q F s \<longleftrightarrow> (\<exists>d. gathered Q F s d \<and> (case sc_report s of
       None \<Rightarrow> (\<exists>c. sc_current s = Some c \<and> Q = d @ c # sc_queue s)
     | Some rp \<Rightarrow> sc_current s = None \<and> d = Q \<and> rp = (sc_failures s \<noteq> [], sc_failures s)))"

lemma labels_frame:
  "\<forall>i \<in> set d. sc_store s' ! i = sc_store s ! i \<Longrightarrow> labels_of s' d = labels_of s d"
  by (simp add: labels_of_def cong: map_cong)

definition frame :: "scope \<Rightarrow> scope \<Rightarrow> bool" where
  "frame s s' \<longleftrightarrow> sc_cleanup s' = sc_cleanup s \<and> sc_report s' = sc_report s \<and> sc_current s' = sc_current s
     \<and> sc_queue s' = sc_queue s \<and> sc_failures s' = sc_failures s \<and> length (sc_store s') = length (sc_store s)
     \<and> (\<forall>i < length (sc_store s). disposal_done (sc_store s ! i) \<longrightarrow> sc_store s' ! i = sc_store s ! i)"

lemma gathered_frame: "gathered Q F s d \<Longrightarrow> frame s s' \<Longrightarrow> gathered Q F s' d"
  using labels_frame [of d s' s] by (auto simp: gathered_def frame_def)

lemma exact_frame: "exact Q F s \<Longrightarrow> frame s s' \<Longrightarrow> exact Q F s'"
  unfolding exact_def using gathered_frame by (fastforce simp: frame_def split: option.splits)

lemma frame_update:
  "(i < length (sc_store s) \<Longrightarrow> good_update f (sc_store s ! i)) \<Longrightarrow> frame s (update i f s)"
  by (auto simp: frame_def nth_update good_update_def)

lemma dispose_loop_exact:
  assumes "store_ok s" "sc_report s = None" "gathered Q F s d" "Q = d @ q" "set q \<subseteq> {..<length (sc_store s)}"
  shows "exact Q F (dispose_loop q s)"
  using assms
proof (induction q arbitrary: s d)
  case Nil
  then have "gathered Q F (dispose_loop [] s) Q" by (simp add: gathered_def labels_of_def)
  then show ?case by (auto simp: exact_def cleanup_state_def)
next
  case (Cons i q)
  have i: "i < length (sc_store s)" using Cons.prems(5) by simp
  have g: "good_update dispose_record (sc_store s ! i)" using Cons.prems(1) i by (simp add: store_ok_def good_dispose)
  let ?s = "update i dispose_record s"
  have so: "store_ok ?s" by (rule update_store_ok [OF Cons.prems(1) g])
  have ga: "gathered Q F ?s d" by (rule gathered_frame [OF Cons.prems(3) frame_update]) (rule g)
  show ?case
  proof (cases "disposal_done (sc_store ?s ! i)")
    case True
    let ?s' = "?s\<lparr>sc_failures := sc_failures ?s @ labelled (sc_store ?s ! i)\<rparr>"
    have "gathered Q F ?s' (d @ [i])" using ga True i by (auto simp: gathered_def labels_of_def)
    moreover have "store_ok ?s'" using so by (simp add: store_ok_def)
    moreover have "sc_report ?s' = None" using Cons.prems(2) by simp
    ultimately have "exact Q F (dispose_loop q ?s')" using Cons.prems(4,5) by (intro Cons.IH [where d = "d @ [i]"]) simp_all
    then show ?thesis using True by (simp add: Let_def)
  next
    case False
    have "gathered Q F (?s\<lparr>sc_queue := q, sc_current := Some i\<rparr>) d" using ga by (simp add: gathered_def labels_of_def)
    then show ?thesis using False Cons.prems(2,4) by (auto simp: exact_def Let_def)
  qed
qed

lemma resume_exact:
  assumes e: "exact Q F s" and m: "mid_ok s"
  shows "exact Q F (resume_loop s)"
proof (cases "sc_current s")
  case None then show ?thesis using e by (simp add: resume_loop_def)
next
  case (Some c)
  then have rp: "sc_report s = None" using e by (cases "sc_report s") (auto simp: exact_def)
  then obtain d where d: "gathered Q F s d" "Q = d @ c # sc_queue s" using e Some by (auto simp: exact_def)
  show ?thesis
  proof (cases "disposal_done (sc_store s ! c)")
    case False then show ?thesis using e Some by (simp add: resume_loop_def)
  next
    case True
    have cl: "sc_cleanup s" using d(1) by (simp add: gathered_def)
    have cv: "covered s (insert c (set (sc_queue s)))" and so: "store_ok s" using m cl rp Some by (auto simp: mid_ok_def)
    let ?s = "s\<lparr>sc_failures := sc_failures s @ labelled (sc_store s ! c)\<rparr>"
    have "exact Q F (dispose_loop (sc_queue s) ?s)"
    proof (rule dispose_loop_exact)
      show "store_ok ?s" using so by (simp add: store_ok_def)
      show "sc_report ?s = None" using rp by simp
      show "gathered Q F ?s (d @ [c])" using d(1) True cv by (auto simp: gathered_def labels_of_def covered_def)
      show "Q = (d @ [c]) @ sc_queue s" using d(2) by simp
      show "set (sc_queue s) \<subseteq> {..<length (sc_store ?s)}" using cv by (simp add: covered_def)
    qed
    then show ?thesis using Some True by (simp add: resume_loop_def)
  qed
qed

lemma setup_event_frame:
  assumes m: "mid_ok s"
  shows "frame s (setup_event_at i ev s)"
proof (cases "i < length (sc_store s) \<and> \<not> setup_done (sc_store s ! i)")
  case False
  then show ?thesis by (auto simp: setup_event_at_def frame_def)
next
  case True
  let ?r = "sc_store s ! i"
  have ok: "rec_ok ?r" using m True by (simp add: mid_ok_def store_ok_def)
  show ?thesis
  proof (cases "setup_done (setup_step ev ?r)")
    case False
    then show ?thesis using setup_event_shape(1) [of i s ev] True frame_update good_setup(1) [OF ok] by simp
  next
    case d: True
    have "frame s (update i (\<lambda>r. wake (setup_step ev r)) s)" by (rule frame_update) (rule good_setup(2) [OF ok], use True in simp)
    then show ?thesis using setup_event_shape(2) [of i s ev] True d by (simp add: frame_def)
  qed
qed

lemma scope_step_exact:
  assumes ok: "scope_ok s" and e: "exact Q F s"
  shows "exact Q F (scope_step s ev)"
proof -
  have cl: "sc_cleanup s" using e by (auto simp: exact_def gathered_def)
  then have o: "sc_state s \<noteq> Open" using ok by (simp add: scope_ok_def)
  note m = scope_mid [OF ok]
  have st: "i < length (sc_store s) \<Longrightarrow> rec_ok (sc_store s ! i)" for i using ok by (simp add: scope_ok_def store_ok_def)
  show ?thesis
  proof (cases ev)
    case (SetupEvent i x)
    then show ?thesis using resume_exact [OF exact_frame [OF e setup_event_frame [OF m]] setup_event_mid [OF m]] by (simp add: scope_step_def)
  next
    case (DisposeRecord i)
    have g: "i < length (sc_store s) \<Longrightarrow> good_update dispose_record (sc_store s ! i)" by (rule good_dispose [OF st])
    show ?thesis using resume_exact [OF exact_frame [OF e frame_update [OF g]] update_mid [OF m g]] e DisposeRecord
      by (simp add: scope_step_def)
  next
    case (DisposerEvent i x)
    have g: "i < length (sc_store s) \<Longrightarrow> good_update (disposer_ends x) (sc_store s ! i)" by (rule good_ends [OF st])
    show ?thesis using resume_exact [OF exact_frame [OF e frame_update [OF g]] update_mid [OF m g]] e DisposerEvent
      by (simp add: scope_step_def)
  qed (use e o cl in \<open>simp_all add: scope_step_def effect_def defer_disposer_def dispose_scope_def\<close>)
qed

lemma run_exact: "scope_ok s \<Longrightarrow> exact Q F s \<Longrightarrow> exact Q F (run scope_step s es)"
  by (induction es arbitrary: s) (simp_all add: scope_step_ok scope_step_exact)

lemma dispose_exact:
  assumes ok: "scope_ok s" and c: "\<not> sc_cleanup s"
  shows "exact (rev (sc_records s)) (sc_setup_failures s) (dispose_scope s)"
proof -
  have "exact (rev (sc_records s)) (sc_setup_failures s) (dispose_loop (rev (sc_records s)) (s\<lparr>sc_cleanup := True, sc_state := Disposing,
       sc_failures := sc_setup_failures s, sc_setup_failures := [], sc_records := []\<rparr>))"
    by (rule dispose_loop_exact [where d = "[]"])
      (use ok c in \<open>simp_all add: scope_ok_def store_ok_def covered_def gathered_def labels_of_def\<close>)
  then show ?thesis using c by (simp add: dispose_scope_def)
qed

section \<open>Properties\<close>

text \<open>C21: each record calls every disposer it collected at most once and in reverse order, its hook at most once and before the first; once its disposal or its failed setup is over all have been called; and when the scope reports, that holds of every effect and deferral ever made on it.\<close>

theorem no_disposer_leaks:
  assumes "s = run scope_step new_scope es"
  shows "\<forall>i < length (sc_store s). let r = sc_store s ! i in
      (\<exists>rest. r_called r @ rest = rev (r_collected r)) \<and> r_hooks r \<le> 1
      \<and> (r_hook r \<and> \<not> r_deferred r \<and> r_called r \<noteq> [] \<longrightarrow> r_hooks r = 1)
      \<and> (disposal_done r \<or> failed r \<or> sc_report s \<noteq> None \<longrightarrow> setup_done r \<and> r_called r = rev (r_collected r))"
proof (intro allI impI)
  fix i assume i: "i < length (sc_store s)"
  have ok: "scope_ok s" unfolding assms by (rule scope.inv_run [OF new_scope_ok])
  have r: "rec_ok (sc_store s ! i)" using ok i by (simp add: scope_ok_def store_ok_def)
  have "sc_report s \<noteq> None \<Longrightarrow> settled (sc_store s ! i)"
    using ok i by (auto simp: scope_ok_def covered_def split: if_splits)
  then show "let r = sc_store s ! i in
      (\<exists>rest. r_called r @ rest = rev (r_collected r)) \<and> r_hooks r \<le> 1
      \<and> (r_hook r \<and> \<not> r_deferred r \<and> r_called r \<noteq> [] \<longrightarrow> r_hooks r = 1)
      \<and> (disposal_done r \<or> failed r \<or> sc_report s \<noteq> None \<longrightarrow> setup_done r \<and> r_called r = rev (r_collected r))"
    using rec_ok_calls [OF r] unfolding Let_def settled_def failed_def by blast
qed

text \<open>A run with two effects, one diverted while its iterator is open, and the scope disposed: two errors.\<close>

definition sample_scope_run :: "scope_event list" where
  "sample_scope_run = [CallEffect (LabelOnly [97]) True False, SetupEvent 0 (EffectIs (Iterator True)), SetupEvent 0 (GuardSays True),
     SetupEvent 0 (StepIs (Fn 1) False), CallDefer 7 (LabelOnly [98]), SetupEvent 0 (GuardSays True), SetupEvent 0 (StepIs (Fn 2) False),
     DisposeScope, DisposerEvent 1 (Some [101]), SetupEvent 0 (GuardSays True), SetupEvent 0 (StepIs Nothing True),
     SetupEvent 0 (StepIs Nothing True), DisposerEvent 0 None, DisposerEvent 0 (Some [102])]"

lemma no_disposer_leaks_witness:
  "\<exists>s. s = run scope_step new_scope sample_scope_run \<and> length (sc_store s) = 2 \<and> r_called (sc_store s ! 0) = [2, 1]
     \<and> sc_report s = Some (True, [([98], [101]), ([97], [102])]) \<and> setup_done (sc_store s ! 0)
     \<and> r_called (sc_store s ! 0) = rev (r_collected (sc_store s ! 0))"
proof -
  let ?s = "run scope_step new_scope sample_scope_run"
  have e: "length (sc_store ?s) = 2 \<and> r_called (sc_store ?s ! 0) = [2, 1] \<and> sc_report ?s = Some (True, [([98], [101]), ([97], [102])])"
    by code_simp
  have "setup_done (sc_store ?s ! 0) \<and> r_called (sc_store ?s ! 0) = rev (r_collected (sc_store ?s ! 0))"
    using no_disposer_leaks [of ?s sample_scope_run, OF refl, rule_format, of 0] e unfolding Let_def by simp
  then show ?thesis using e by blast
qed

text \<open>C22: the report lists exactly the rollback errors of the setups that had failed before, then every disposer error of the records of the scope in the reverse of their order; it is a quarantine exactly when that list is not empty.\<close>

theorem report_is_exact:
  assumes s: "s = run scope_step new_scope es" "\<not> sc_cleanup s"
    and r: "s' = run scope_step (dispose_scope s) fs" "sc_report s' = Some (quarantined, failures)"
  shows "failures = sc_setup_failures s @ labels_of s' (rev (sc_records s)) \<and> quarantined = (failures \<noteq> [])"
proof -
  have ok: "scope_ok s" unfolding s(1) by (rule scope.inv_run [OF new_scope_ok])
  have "exact (rev (sc_records s)) (sc_setup_failures s) s'"
    unfolding r(1) by (rule run_exact [OF dispose_scope_ok [OF ok] dispose_exact [OF ok s(2)]])
  then show ?thesis using r(2) by (auto simp: exact_def gathered_def)
qed

lemma report_is_exact_witness:
  "\<exists>s s'. s = run scope_step new_scope (take 7 sample_scope_run) \<and> s' = run scope_step (dispose_scope s) (drop 8 sample_scope_run)
     \<and> [([98], [101]), ([97], [102])] = sc_setup_failures s @ labels_of s' (rev (sc_records s))"
proof -
  let ?s = "run scope_step new_scope (take 7 sample_scope_run)"
  let ?t = "run scope_step (dispose_scope ?s) (drop 8 sample_scope_run)"
  have "sc_report ?t = Some (True, [([98], [101]), ([97], [102])])" and "\<not> sc_cleanup ?s" by code_simp+
  with report_is_exact [OF refl _ refl, of "take 7 sample_scope_run" "drop 8 sample_scope_run" True "[([98], [101]), ([97], [102])]"]
  show ?thesis by blast
qed

text \<open>
  A setup still running when \<open>dispose\<close> begins: its guard then diverts it and the rollback's disposer throws. The error lands in the
  failures \<open>dispose\<close> took at its start, so the report of the scope is a clean disposal.
\<close>

lemma late_rollback_failure_is_lost:
  "let s = run scope_step new_scope [CallEffect (LabelOnly [97]) False True, SetupEvent 0 (GuardSays True),
      SetupEvent 0 (EffectIs (Single 1)), DisposeScope, SetupEvent 0 (GuardSays False), SetupEvent 0 (DisposerEnds (Some [101]))]
   in sc_report s = Some (False, []) \<and> sc_setup_failures s = [([97], [101])] \<and> r_called (sc_store s ! 0) = [1]"
  by code_simp

end
