(* ===== verification/Kinds.thy ===== *)
theory Kinds imports Prelude begin

text \<open>
  Record kinds and the check of an append call (\<^verbatim>\<open>src/src/records/kinds.ts\<close>). A JavaScript value handed to the call is
  a \<open>jsv\<close>; a string is its characters up to U+00FF; how a finite number prints is a parameter of \<open>JSON.stringify\<close>.
  An error is the reason of the \<open>RecordsArgumentError\<close>, without its text.
\<close>

section \<open>Values and JSON text\<close>

datatype jsv = Undef | Nul | Bool bool | Number jsnum | Text string | Arr "jsv list" | Obj "(string \<times> jsv) list"

definition get_field :: "(string \<times> jsv) list \<Rightarrow> string \<Rightarrow> jsv" where
  "get_field fs k = (case map_of fs k of Some v \<Rightarrow> v | None \<Rightarrow> Undef)"

definition code :: "char \<Rightarrow> nat" where "code c = of_char c"

definition space_char :: "char \<Rightarrow> bool" where
  "space_char c \<longleftrightarrow> (9 \<le> code c \<and> code c \<le> 13) \<or> code c = 32 \<or> code c = 160"

definition js_trim :: "string \<Rightarrow> string" where
  "js_trim s = rev (dropWhile space_char (rev (dropWhile space_char s)))"

definition hex_digit :: "nat \<Rightarrow> char" where
  "hex_digit n = ''0123456789abcdef'' ! n"

definition quote_char :: "char \<Rightarrow> string" where
  "quote_char c = (let n = code c in
     if n = 34 \<or> n = 92 then [CHR 0x5C, c]
     else if n = 8 then [CHR 0x5C, CHR ''b''] else if n = 9 then [CHR 0x5C, CHR ''t'']
     else if n = 10 then [CHR 0x5C, CHR ''n''] else if n = 12 then [CHR 0x5C, CHR ''f'']
     else if n = 13 then [CHR 0x5C, CHR ''r'']
     else if n < 32 then [CHR 0x5C, CHR ''u'', CHR ''0'', CHR ''0'', hex_digit (n div 16), hex_digit (n mod 16)]
     else [c])"

definition quote :: "string \<Rightarrow> string" where
  "quote s = [CHR 0x22] @ concat (map quote_char s) @ [CHR 0x22]"

fun commas :: "string list \<Rightarrow> string" where
  "commas [] = []"
| "commas [x] = x"
| "commas (x # xs) = x @ '','' @ commas xs"

text \<open>\<open>JSON.stringify\<close>; undefined is left out of an object and is null in an array.\<close>

fun json_text :: "(rat \<Rightarrow> string) \<Rightarrow> jsv \<Rightarrow> string" where
  "json_text num Undef = ''null''"
| "json_text num Nul = ''null''"
| "json_text num (Bool b) = (if b then ''true'' else ''false'')"
| "json_text num (Number n) = (case n of Num r \<Rightarrow> num r | _ \<Rightarrow> ''null'')"
| "json_text num (Text s) = quote s"
| "json_text num (Arr vs) = ''['' @ commas (map (json_text num) vs) @ '']''"
| "json_text num (Obj fs) = ''{'' @ commas (map (\<lambda>p. quote (fst p) @ '':'' @ json_text num (snd p)) (filter (\<lambda>p. snd p \<noteq> Undef) fs)) @ ''}''"

definition byte_length :: "string \<Rightarrow> int" where
  "byte_length s = sum_list (map (\<lambda>c. if code c < 128 then 1 else 2) s)"

section \<open>Kinds and their fields\<close>

definition RECORD_KINDS :: "string list" where
  "RECORD_KINDS = [''issue'', ''status'', ''comment'', ''decision'', ''ask'', ''answer'', ''handoff'', ''link'', ''close'', ''reopen'', ''mirror'']"

definition IMPORT_FIELDS :: "string list" where
  "IMPORT_FIELDS = [''via'', ''githubId'']"

definition MAX_TEXT_BYTES :: int where "MAX_TEXT_BYTES = 65536"
definition MAX_DATA_BYTES :: int where "MAX_DATA_BYTES = 65536"
definition MAX_KEY_LENGTH :: nat where "MAX_KEY_LENGTH = 256"
definition MAX_ENCODED_RECORD_BYTES :: int where "MAX_ENCODED_RECORD_BYTES = 196608"

datatype field_type = StringT | StringsT | NumberT | BooleanT | UuidT | EtaT

record field_spec =
  f_type :: field_type
  f_required :: bool
  f_values :: "string list option"
  f_recipient :: bool

definition plain :: "field_type \<Rightarrow> field_spec" where
  "plain t = \<lparr>f_type = t, f_required = False, f_values = None, f_recipient = False\<rparr>"

definition must :: "field_spec \<Rightarrow> field_spec" where
  "must f = f\<lparr>f_required := True\<rparr>"

definition one_of :: "string list \<Rightarrow> field_spec" where
  "one_of vs = (plain StringT)\<lparr>f_values := Some vs\<rparr>"

definition STATUS_STATES :: "string list" where
  "STATUS_STATES = [''in progress'', ''waiting'', ''blocked'', ''done'']"

definition MIRROR_STATES :: "string list" where
  "MIRROR_STATES = [''pending'', ''mirrored'', ''refused'', ''skipped'', ''unknown'']"

definition kind_fields :: "string \<Rightarrow> (string \<times> field_spec) list" where
  "kind_fields k = (if k = ''issue'' then [(''title'', plain StringT), (''body'', plain StringT), (''owner'', plain StringT),
       (''acceptance'', plain StringT), (''labels'', plain StringsT), (''nextAction'', plain StringT), (''stage'', plain StringT)]
     else if k = ''status'' then [(''eta'', plain EtaT), (''state'', one_of STATUS_STATES), (''waitOn'', plain StringT)]
     else if k = ''comment'' then [(''deleted'', plain BooleanT)]
     else if k = ''decision'' then [(''by'', plain StringT), (''where'', plain StringT)]
     else if k = ''ask'' then [(''to'', must ((plain StringT)\<lparr>f_recipient := True\<rparr>)), (''class'', plain StringT), (''minutes'', plain NumberT)]
     else if k = ''answer'' then [(''ask'', must (plain UuidT)), (''outcome'', must (one_of [''answered'', ''withdrawn'']))]
     else if k = ''handoff'' then [(''to'', must ((plain StringT)\<lparr>f_recipient := True\<rparr>)), (''key'', plain StringT)]
     else if k = ''link'' then [(''pr'', plain StringT), (''issue'', plain StringT), (''commit'', plain StringT), (''url'', plain StringT),
       (''forge'', plain StringT), (''number'', plain NumberT)]
     else if k = ''close'' \<or> k = ''reopen'' then [(''reason'', plain StringT)]
     else if k = ''mirror'' then [(''mirrorOf'', must (plain UuidT)), (''target'', must (plain StringT)), (''url'', plain StringT),
       (''githubId'', plain StringT), (''state'', must (one_of MIRROR_STATES)), (''attempts'', plain NumberT), (''error'', plain StringT)]
     else [])"

definition TEXT_REQUIRED :: "string list" where
  "TEXT_REQUIRED = [''comment'', ''decision'', ''ask'']"

text \<open>\<open>specs[name]\<close> on an object literal also finds what every object inherits.\<close>

definition inherited :: "string list" where
  "inherited = [''constructor'', ''toString'', ''toLocaleString'', ''valueOf'', ''hasOwnProperty'', ''isPrototypeOf'', ''propertyIsEnumerable'',
     ''__proto__'', ''__defineGetter__'', ''__defineSetter__'', ''__lookupGetter__'', ''__lookupSetter__'']"

datatype spec_lookup = NoSpec | Own field_spec | Inherited

definition lookup_spec :: "string \<Rightarrow> string \<Rightarrow> spec_lookup" where
  "lookup_spec kind name = (case map_of (kind_fields kind) name of
     Some f \<Rightarrow> Own f | None \<Rightarrow> if name \<in> set inherited then Inherited else NoSpec)"

section \<open>References\<close>

definition alnum :: "char \<Rightarrow> bool" where
  "alnum c \<longleftrightarrow> (48 \<le> code c \<and> code c \<le> 57) \<or> (65 \<le> code c \<and> code c \<le> 90) \<or> (97 \<le> code c \<and> code c \<le> 122)"

definition name_char :: "char \<Rightarrow> bool" where
  "name_char c \<longleftrightarrow> alnum c \<or> c \<in> set ''_.-''"

definition digit_char :: "char \<Rightarrow> bool" where
  "digit_char c \<longleftrightarrow> 48 \<le> code c \<and> code c \<le> 57"

definition recipient_text :: "string \<Rightarrow> bool" where
  "recipient_text s \<longleftrightarrow> 1 \<le> length s \<and> length s \<le> 256 \<and> list_all (\<lambda>c. alnum c \<or> c \<in> set ''._@:/-'') s"

definition name_ok :: "string \<Rightarrow> bool" where
  "name_ok s \<longleftrightarrow> 1 \<le> length s \<and> length s \<le> 100 \<and> list_all name_char s"

definition number_ok :: "string \<Rightarrow> bool" where
  "number_ok s \<longleftrightarrow> s \<noteq> [] \<and> length s \<le> 10 \<and> list_all digit_char s \<and> hd s \<noteq> CHR ''0''"

definition decimal :: "string \<Rightarrow> int" where
  "decimal s = foldl (\<lambda>n c. 10 * n + (int (code c) - 48)) 0 s"

record parsed_ref =
  p_owner :: string
  p_repo :: string
  p_number :: int
  p_native :: bool

definition split_at :: "char \<Rightarrow> string \<Rightarrow> (string \<times> string) option" where
  "split_at c s = (let a = takeWhile (\<lambda>x. x \<noteq> c) s; b = dropWhile (\<lambda>x. x \<noteq> c) s in
     case b of [] \<Rightarrow> None | _ # r \<Rightarrow> Some (a, r))"

definition parse_ref :: "string \<Rightarrow> parsed_ref option" where
  "parse_ref ref = (case split_at CHR ''/'' ref of None \<Rightarrow> None | Some (owner, r1) \<Rightarrow>
     (case split_at CHR ''#'' r1 of None \<Rightarrow> None | Some (repo, r2) \<Rightarrow>
       (let native = (r2 \<noteq> [] \<and> hd r2 = CHR ''L''); num = (if native then tl r2 else r2) in
        if name_ok owner \<and> name_ok repo \<and> number_ok num
        then Some \<lparr>p_owner = owner, p_repo = repo, p_number = decimal num, p_native = native\<rparr> else None)))"

definition parse_repo :: "string \<Rightarrow> (string \<times> string) option" where
  "parse_repo repo = (case split_at CHR ''/'' repo of None \<Rightarrow> None | Some (owner, r) \<Rightarrow>
     if name_ok owner \<and> name_ok r then Some (owner, r) else None)"

primrec print_digits :: "nat \<Rightarrow> int \<Rightarrow> string \<Rightarrow> string" where
  "print_digits 0 n acc = acc"
| "print_digits (Suc k) n acc = (let acc = char_of (nat (n mod 10) + 48) # acc in if n < 10 then acc else print_digits k (n div 10) acc)"

text \<open>\<open>String(number)\<close> of a natural with at most ten digits.\<close>

definition show_number :: "int \<Rightarrow> string" where
  "show_number n = print_digits 10 n []"

definition record_topic :: "parsed_ref \<Rightarrow> string" where
  "record_topic p = ''record/'' @ p_owner p @ ''/'' @ p_repo p @ ''/'' @ (if p_native p then ''L'' else []) @ show_number (p_number p)"

section \<open>Ids\<close>

definition hex_char :: "char \<Rightarrow> bool" where
  "hex_char c \<longleftrightarrow> digit_char c \<or> (65 \<le> code c \<and> code c \<le> 70) \<or> (97 \<le> code c \<and> code c \<le> 102)"

definition uuid_char :: "nat \<Rightarrow> char \<Rightarrow> bool" where
  "uuid_char i c = (if i = 8 \<or> i = 13 \<or> i = 18 \<or> i = 23 then c = CHR ''-'' else hex_char c)"

definition uuid_text :: "string \<Rightarrow> bool" where
  "uuid_text s \<longleftrightarrow> length s = 36 \<and> list_all (\<lambda>i. uuid_char i (s ! i)) [0..<36]"

definition lower_char :: "char \<Rightarrow> char" where
  "lower_char c = (if 65 \<le> code c \<and> code c \<le> 90 then char_of (code c + 32) else c)"

text \<open>\<open>toLowerCase\<close> of an id, which is ASCII.\<close>

definition lower :: "string \<Rightarrow> string" where
  "lower s = map lower_char s"

section \<open>The check of an append\<close>

datatype reason =
  NotAnObject | UnknownArgument string | BadKind | BadKey | RefNotString | RepoNotString | NoTarget | BothTargets
| RepoOnlyCreates | BadRepo | BadRef | TextNotString | TextTooLong | TextNeeded | BadSupersedes | DataNotObject
| DataTooLong | RecordTooLong | NotImporter string | ImportNotText string | UnknownField string | BadField string
| FieldNeeded string | TitleNeeded | LinkTargetNeeded | NotMirror | AuthorNotImporter | BadAuthor | ViaNeeded

definition is_text :: "jsv \<Rightarrow> bool" where
  "is_text v = (case v of Text _ \<Rightarrow> True | _ \<Rightarrow> False)"

definition text_of :: "jsv \<Rightarrow> string" where
  "text_of v = (case v of Text s \<Rightarrow> s | _ \<Rightarrow> [])"

definition is_obj :: "jsv \<Rightarrow> bool" where
  "is_obj v = (case v of Obj _ \<Rightarrow> True | _ \<Rightarrow> False)"

definition entries_of :: "jsv \<Rightarrow> (string \<times> jsv) list" where
  "entries_of v = (case v of Obj fs \<Rightarrow> fs | _ \<Rightarrow> [])"

definition stage_item :: "jsv \<Rightarrow> bool" where
  "stage_item v = (case v of Obj fs \<Rightarrow> is_text (get_field fs ''stage'') \<and> is_text (get_field fs ''at'')
     \<and> list_all (\<lambda>p. fst p = ''stage'' \<or> fst p = ''at'') fs | _ \<Rightarrow> False)"

definition check_field :: "field_spec \<Rightarrow> jsv \<Rightarrow> bool" where
  "check_field f v = (case f_type f of
     StringT \<Rightarrow> is_text v \<and> (case f_values f of None \<Rightarrow> True | Some vs \<Rightarrow> text_of v \<in> set vs)
       \<and> (f_recipient f \<longrightarrow> recipient_text (text_of v))
   | StringsT \<Rightarrow> (case v of Arr vs \<Rightarrow> list_all is_text vs | _ \<Rightarrow> False)
   | NumberT \<Rightarrow> (case v of Number (Num _) \<Rightarrow> True | _ \<Rightarrow> False)
   | BooleanT \<Rightarrow> (case v of Bool _ \<Rightarrow> True | _ \<Rightarrow> False)
   | UuidT \<Rightarrow> is_text v \<and> uuid_text (text_of v)
   | EtaT \<Rightarrow> (case v of Text _ \<Rightarrow> True | Arr vs \<Rightarrow> list_all stage_item vs | _ \<Rightarrow> False))"

definition blank :: "jsv \<Rightarrow> bool" where
  "blank v \<longleftrightarrow> \<not> is_text v \<or> js_trim (text_of v) = []"

text \<open>One entry of the data; \<open>None\<close> lets it pass.\<close>

definition check_entry :: "bool \<Rightarrow> string \<Rightarrow> string \<Rightarrow> jsv \<Rightarrow> reason option" where
  "check_entry importer kind name v = (if name \<in> set IMPORT_FIELDS \<and> \<not> (kind = ''mirror'' \<and> name = ''githubId'')
     then (if \<not> importer then Some (NotImporter name) else if blank v then Some (ImportNotText name) else None)
     else (case lookup_spec kind name of
        NoSpec \<Rightarrow> Some (UnknownField name)
      | Inherited \<Rightarrow> None
      | Own f \<Rightarrow> if check_field f v then None else Some (BadField name)))"

primrec check_entries :: "bool \<Rightarrow> string \<Rightarrow> (string \<times> jsv) list \<Rightarrow> reason option" where
  "check_entries importer kind [] = None"
| "check_entries importer kind (p # ps) = (case check_entry importer kind (fst p) (snd p) of
     Some r \<Rightarrow> Some r | None \<Rightarrow> check_entries importer kind ps)"

definition missing_required :: "string \<Rightarrow> (string \<times> jsv) list \<Rightarrow> string option" where
  "missing_required kind data = map_option fst (find (\<lambda>p. f_required (snd p) \<and> get_field data (fst p) = Undef) (kind_fields kind))"

record append_args =
  a_ref :: "string option"
  a_repo :: "string option"
  a_kind :: string
  a_key :: string
  a_text :: "string option"
  a_data :: "(string \<times> jsv) list"
  a_supersedes :: "string option"
  a_author :: "string option"

definition canonical_entry :: "string \<Rightarrow> string \<times> jsv \<Rightarrow> string \<times> jsv" where
  "canonical_entry kind p = (fst p, case lookup_spec kind (fst p) of
     Own f \<Rightarrow> if f_type f = UuidT \<and> is_text (snd p) then Text (lower (text_of (snd p))) else snd p
   | _ \<Rightarrow> snd p)"

definition optional_text :: "jsv \<Rightarrow> string option" where
  "optional_text v = (case v of Text s \<Rightarrow> Some s | _ \<Rightarrow> None)"

definition ALLOWED :: "string list" where
  "ALLOWED = [''ref'', ''repo'', ''kind'', ''key'', ''text'', ''data'', ''supersedes'', ''author'']"

text \<open>A sequence of checks: the first that fails is the reason.\<close>

primrec first_failing :: "(bool \<times> reason) list \<Rightarrow> reason option" where
  "first_failing [] = None"
| "first_failing (c # cs) = (if fst c then Some (snd c) else first_failing cs)"

text \<open>The checks of the arguments up to the data's size, in their order.\<close>

definition argument_checks :: "(rat \<Rightarrow> string) \<Rightarrow> (string \<times> jsv) list \<Rightarrow> (bool \<times> reason) list" where
  "argument_checks num input = (let get = get_field input; kind = text_of (get ''kind''); data = entries_of (get ''data'');
       text_json = (if get ''text'' = Undef then Nul else get ''text'') in
    [(\<not> (is_text (get ''kind'') \<and> kind \<in> set RECORD_KINDS), BadKind),
     (blank (get ''key'') \<or> MAX_KEY_LENGTH < length (text_of (get ''key'')), BadKey),
     (get ''ref'' \<noteq> Undef \<and> \<not> is_text (get ''ref''), RefNotString),
     (get ''repo'' \<noteq> Undef \<and> \<not> is_text (get ''repo''), RepoNotString),
     (get ''ref'' = Undef \<and> get ''repo'' = Undef, NoTarget),
     (get ''ref'' \<noteq> Undef \<and> get ''repo'' \<noteq> Undef, BothTargets),
     (get ''repo'' \<noteq> Undef \<and> (kind \<noteq> ''issue'' \<or> get ''supersedes'' \<noteq> Undef), RepoOnlyCreates),
     (get ''repo'' \<noteq> Undef \<and> parse_repo (text_of (get ''repo'')) = None, BadRepo),
     (get ''repo'' = Undef \<and> parse_ref (text_of (get ''ref'')) = None, BadRef),
     (get ''text'' \<noteq> Undef \<and> \<not> is_text (get ''text''), TextNotString),
     (MAX_TEXT_BYTES < byte_length (text_of (get ''text'')), TextTooLong),
     (kind \<in> set TEXT_REQUIRED \<and> blank (get ''text''), TextNeeded),
     (get ''supersedes'' \<noteq> Undef \<and> \<not> (is_text (get ''supersedes'') \<and> uuid_text (text_of (get ''supersedes''))), BadSupersedes),
     (get ''data'' \<noteq> Undef \<and> \<not> is_obj (get ''data''), DataNotObject),
     (MAX_DATA_BYTES < byte_length (json_text num (Obj data)), DataTooLong),
     (MAX_ENCODED_RECORD_BYTES < byte_length (json_text num (Obj [(''text'', text_json), (''data'', Obj data)])), RecordTooLong)])"

text \<open>Those after the fields.\<close>

definition role_checks :: "bool \<Rightarrow> bool \<Rightarrow> (string \<times> jsv) list \<Rightarrow> (bool \<times> reason) list" where
  "role_checks importer mirror input = (let get = get_field input; kind = text_of (get ''kind''); data = entries_of (get ''data'');
       field = get_field data in
    [(kind = ''issue'' \<and> get ''repo'' \<noteq> Undef \<and> \<not> is_text (field ''title''), TitleNeeded),
     (kind = ''link'' \<and> list_all (\<lambda>n. field n = Undef) [''pr'', ''issue'', ''commit'', ''url'', ''forge''], LinkTargetNeeded),
     (kind = ''mirror'' \<and> \<not> mirror, NotMirror),
     (get ''author'' \<noteq> Undef \<and> \<not> importer, AuthorNotImporter),
     (get ''author'' \<noteq> Undef \<and> (blank (get ''author'') \<or> 256 < length (text_of (get ''author''))), BadAuthor),
     (get ''author'' \<noteq> Undef \<and> \<not> is_text (field ''via''), ViaNeeded)])"

definition validate_append :: "(rat \<Rightarrow> string) \<Rightarrow> bool \<Rightarrow> bool \<Rightarrow> jsv \<Rightarrow> reason + append_args" where
  "validate_append num importer mirror v = (case v of
     Obj input \<Rightarrow>
       (let get = get_field input; kind = text_of (get ''kind''); data = entries_of (get ''data'') in
        case find (\<lambda>p. fst p \<notin> set ALLOWED) input of Some p \<Rightarrow> Inl (UnknownArgument (fst p)) | None \<Rightarrow>
        (case first_failing (argument_checks num input) of Some r \<Rightarrow> Inl r | None \<Rightarrow>
        (case check_entries importer kind data of Some r \<Rightarrow> Inl r | None \<Rightarrow>
        (case missing_required kind data of Some f \<Rightarrow> Inl (FieldNeeded f) | None \<Rightarrow>
        (case first_failing (role_checks importer mirror input) of Some r \<Rightarrow> Inl r | None \<Rightarrow>
         Inr \<lparr>a_ref = optional_text (get ''ref''), a_repo = optional_text (get ''repo''), a_kind = kind, a_key = text_of (get ''key''),
           a_text = optional_text (get ''text''), a_data = map (canonical_entry kind) data,
           a_supersedes = map_option lower (optional_text (get ''supersedes'')),
           a_author = map_option js_trim (optional_text (get ''author''))\<rparr>)))))
   | _ \<Rightarrow> Inl NotAnObject)"

section \<open>The payload hash\<close>

text \<open>\<open>Array.prototype.sort\<close> of keys compares code units. (No field of a record is an array index, which an object would list first.)\<close>

fun text_le :: "string \<Rightarrow> string \<Rightarrow> bool" where
  "text_le [] _ = True"
| "text_le (_ # _) [] = False"
| "text_le (x # xs) (y # ys) = (if code x = code y then text_le xs ys else code x < code y)"

fun insert_key :: "string \<times> 'a \<Rightarrow> (string \<times> 'a) list \<Rightarrow> (string \<times> 'a) list" where
  "insert_key p [] = [p]"
| "insert_key p (q # qs) = (if text_le (fst p) (fst q) then p # q # qs else q # insert_key p qs)"

definition sort_keys :: "(string \<times> 'a) list \<Rightarrow> (string \<times> 'a) list" where
  "sort_keys ps = foldr insert_key ps []"

fun canonical :: "jsv \<Rightarrow> jsv" where
  "canonical (Arr vs) = Arr (map canonical vs)"
| "canonical (Obj fs) = Obj (sort_keys (map (\<lambda>p. (fst p, canonical (snd p))) fs))"
| "canonical v = v"

definition text_or_null :: "string option \<Rightarrow> jsv" where
  "text_or_null s = (case s of None \<Rightarrow> Nul | Some t \<Rightarrow> Text t)"

text \<open>The text that is hashed; SHA-256 itself is a parameter.\<close>

definition payload_text :: "(rat \<Rightarrow> string) \<Rightarrow> append_args \<Rightarrow> string" where
  "payload_text num a = json_text num (canonical (Obj [(''ref'', text_or_null (a_ref a)), (''repo'', text_or_null (a_repo a)),
     (''kind'', Text (a_kind a)), (''text'', text_or_null (a_text a)), (''data'', Obj (a_data a)),
     (''supersedes'', text_or_null (a_supersedes a))]))"

definition payload_hash :: "(string \<Rightarrow> string) \<Rightarrow> (rat \<Rightarrow> string) \<Rightarrow> append_args \<Rightarrow> string" where
  "payload_hash sha num a = sha (payload_text num a)"

section \<open>References round trip\<close>

lemma split_at_Some: "split_at c s = Some (a, r) \<Longrightarrow> s = a @ c # r \<and> c \<notin> set a"
proof -
  assume "split_at c s = Some (a, r)"
  then obtain x where d: "dropWhile (\<lambda>x. x \<noteq> c) s = x # r" and a: "a = takeWhile (\<lambda>x. x \<noteq> c) s"
    by (auto simp: split_at_def Let_def split: list.splits)
  have "x = c" using d by (metis (mono_tags, lifting) dropWhile_eq_Cons_conv)
  moreover have "s = a @ x # r" using d a takeWhile_dropWhile_id [of "\<lambda>x. x \<noteq> c" s] by simp
  moreover have "c \<notin> set a" using a by (auto dest: set_takeWhileD)
  ultimately show ?thesis by simp
qed

lemma split_at_append: "c \<notin> set a \<Longrightarrow> split_at c (a @ c # r) = Some (a, r)"
proof -
  assume "c \<notin> set a"
  then have "takeWhile (\<lambda>x. x \<noteq> c) (a @ c # r) = a" "dropWhile (\<lambda>x. x \<noteq> c) (a @ c # r) = c # r"
    by (auto simp: takeWhile_append dropWhile_append)
  then show ?thesis by (simp add: split_at_def)
qed

lemma parse_ref_shape:
  "parse_ref ref = Some p \<Longrightarrow> \<exists>num. ref = p_owner p @ ''/'' @ p_repo p @ ''#'' @ (if p_native p then ''L'' else []) @ num
     \<and> number_ok num \<and> p_number p = decimal num \<and> name_ok (p_owner p) \<and> name_ok (p_repo p)"
proof -
  assume p: "parse_ref ref = Some p"
  then obtain owner r1 where 1: "split_at CHR ''/'' ref = Some (owner, r1)"
    by (cases "split_at CHR ''/'' ref") (auto simp: parse_ref_def)
  then obtain repo r2 where 2: "split_at CHR ''#'' r1 = Some (repo, r2)"
    using p by (cases "split_at CHR ''#'' r1") (auto simp: parse_ref_def)
  define native where "native = (r2 \<noteq> [] \<and> hd r2 = CHR ''L'')"
  define num where "num = (if native then tl r2 else r2)"
  have q: "name_ok owner" "name_ok repo" "number_ok num"
    "p = \<lparr>p_owner = owner, p_repo = repo, p_number = decimal num, p_native = native\<rparr>"
    using p 1 2 by (auto simp: parse_ref_def native_def num_def Let_def split: if_splits)
  have "r2 = (if native then ''L'' else []) @ num" by (cases r2) (auto simp: native_def num_def)
  then have "ref = owner @ ''/'' @ repo @ ''#'' @ (if native then ''L'' else []) @ num"
    using split_at_Some [OF 1] split_at_Some [OF 2] by simp
  then show ?thesis using q by auto
qed

lemma digit_value: "digit_char c \<Longrightarrow> 0 \<le> int (code c) - 48 \<and> int (code c) - 48 < 10
    \<and> char_of (nat (int (code c) - 48) + 48) = c"
proof -
  assume d: "digit_char c"
  then have "nat (int (code c) - 48) + 48 = code c" unfolding digit_char_def by arith
  then show ?thesis using d by (simp add: digit_char_def code_def)
qed

lemma decimal_snoc: "decimal (s @ [c]) = 10 * decimal s + (int (code c) - 48)"
  by (simp add: decimal_def)

lemma decimal_nonneg: "list_all digit_char s \<Longrightarrow> 0 \<le> decimal s"
  by (induction s rule: rev_induct) (auto simp: decimal_snoc digit_char_def, simp add: decimal_def)

lemma decimal_pos: "list_all digit_char s \<Longrightarrow> s \<noteq> [] \<Longrightarrow> hd s \<noteq> CHR ''0'' \<Longrightarrow> 0 < decimal s"
proof (induction s rule: rev_induct)
  case (snoc c s)
  show ?case
  proof (cases s)
    case Nil
    have "c \<noteq> CHR ''0''" using snoc.prems(3) Nil by simp
    then have "code c \<noteq> code CHR ''0''" by (simp only: code_def of_char_eq_iff not_False_eq_True)
    then have "code c \<noteq> 48" by (simp add: code_def)
    then show ?thesis using snoc.prems(1) Nil by (simp add: decimal_snoc decimal_def digit_char_def)
  next
    case (Cons a list)
    then have "0 < decimal s" using snoc by simp
    then show ?thesis using snoc.prems(1) by (simp add: decimal_snoc digit_char_def)
  qed
qed simp

lemma print_decimal:
  assumes "list_all digit_char s" "s \<noteq> []" "hd s \<noteq> CHR ''0''" "length s \<le> k"
  shows "print_digits k (decimal s) acc = s @ acc"
  using assms
proof (induction k arbitrary: s acc)
  case (Suc k)
  obtain t c where s: "s = t @ [c]" using Suc.prems(2) by (cases s rule: rev_cases) auto
  have dc: "digit_char c" using Suc.prems(1) s by simp
  have m: "decimal s mod 10 = int (code c) - 48" "decimal s div 10 = decimal t"
    using digit_value [OF dc] by (simp_all add: s decimal_snoc)
  have ch: "char_of (nat (decimal s mod 10) + 48) = c" using digit_value [OF dc] by (simp add: m)
  show ?case
  proof (cases "t = []")
    case True
    then have "decimal s < 10" using digit_value [OF dc] by (simp add: s decimal_snoc decimal_def)
    then show ?thesis using ch True s by (simp add: Let_def)
  next
    case False
    have t: "list_all digit_char t" "hd t \<noteq> CHR ''0''" "length t \<le> k" using Suc.prems s False by simp_all
    have "0 < decimal t" by (rule decimal_pos [OF t(1) False t(2)])
    then have "\<not> decimal s < 10" using digit_value [OF dc] by (simp add: s decimal_snoc)
    then show ?thesis using Suc.IH [OF t(1) False t(2,3)] ch m s by (simp add: Let_def)
  qed
qed simp

lemma show_decimal: "number_ok num \<Longrightarrow> show_number (decimal num) = num"
  using print_decimal [of num 10 "[]"] by (simp add: number_ok_def show_number_def)

lemma name_no_sep: "name_ok s \<Longrightarrow> CHR ''/'' \<notin> set s"
  by (auto simp: name_ok_def list_all_iff name_char_def alnum_def code_def)

lemma number_no_L: "number_ok num \<Longrightarrow> \<exists>c r. num = c # r \<and> c \<noteq> CHR ''L''"
  by (cases num) (auto simp: number_ok_def digit_char_def code_def)

text \<open>distinct references have distinct topics, and a reference prints back from its parts.\<close>

theorem topic_identifies_ref:
  assumes p: "parse_ref r = Some p" and q: "parse_ref s = Some q" and t: "record_topic p = record_topic q"
  shows "r = s \<and> p = q \<and> r = p_owner p @ ''/'' @ p_repo p @ ''#'' @ (if p_native p then ''L'' else []) @ show_number (p_number p)"
proof -
  obtain n where n: "r = p_owner p @ ''/'' @ p_repo p @ ''#'' @ (if p_native p then ''L'' else []) @ n" "number_ok n"
    "p_number p = decimal n" "name_ok (p_owner p)" "name_ok (p_repo p)" using parse_ref_shape [OF p] by blast
  obtain m where m: "s = p_owner q @ ''/'' @ p_repo q @ ''#'' @ (if p_native q then ''L'' else []) @ m" "number_ok m"
    "p_number q = decimal m" "name_ok (p_owner q)" "name_ok (p_repo q)" using parse_ref_shape [OF q] by blast
  have sn: "show_number (p_number p) = n" "show_number (p_number q) = m" using show_decimal n(2,3) m(2,3) by simp_all
  let ?x = "p_repo p @ ''/'' @ (if p_native p then ''L'' else []) @ n" and ?y = "p_repo q @ ''/'' @ (if p_native q then ''L'' else []) @ m"
  have e: "p_owner p @ CHR ''/'' # ?x = p_owner q @ CHR ''/'' # ?y" using t by (simp add: record_topic_def sn)
  have 1: "p_owner p = p_owner q" "?x = ?y"
    using arg_cong [OF e, of "split_at CHR ''/''"] split_at_append [OF name_no_sep [OF n(4)]] split_at_append [OF name_no_sep [OF m(4)]]
    by simp_all
  have e2: "p_repo p @ CHR ''/'' # (if p_native p then ''L'' else []) @ n = p_repo q @ CHR ''/'' # (if p_native q then ''L'' else []) @ m"
    using 1(2) by simp
  have 2: "p_repo p = p_repo q" "(if p_native p then ''L'' else []) @ n = (if p_native q then ''L'' else []) @ m"
    using arg_cong [OF e2, of "split_at CHR ''/''"] split_at_append [OF name_no_sep [OF n(5)]] split_at_append [OF name_no_sep [OF m(5)]]
    by simp_all
  have 3: "p_native p = p_native q \<and> n = m" using 2(2) number_no_L [OF n(2)] number_no_L [OF m(2)] by (auto split: if_splits)
  have "p = q" using 1(1) 2(1) 3 n(3) m(3) by (intro parsed_ref.equality) simp_all
  then show ?thesis using n(1) m(1) 3 sn by simp
qed

lemma topic_identifies_ref_witness:
  "\<exists>p. parse_ref ''pi/fabric#L120'' = Some p \<and> record_topic p = ''record/pi/fabric/L120''
     \<and> ''pi/fabric#L120'' = p_owner p @ ''/'' @ p_repo p @ ''#'' @ (if p_native p then ''L'' else []) @ show_number (p_number p)"
proof -
  let ?p = "\<lparr>p_owner = ''pi'', p_repo = ''fabric'', p_number = 120, p_native = True\<rparr>"
  have e: "parse_ref ''pi/fabric#L120'' = Some ?p" and "record_topic ?p = ''record/pi/fabric/L120''" by code_simp+
  with topic_identifies_ref [OF e e refl] show ?thesis by blast
qed

section \<open>What is accepted\<close>

lemma first_failing_None: "first_failing cs = None \<longleftrightarrow> (\<forall>c \<in> set cs. \<not> fst c)"
  by (induction cs) auto

lemma check_entries_None: "check_entries importer kind ps = None \<longleftrightarrow> (\<forall>p \<in> set ps. check_entry importer kind (fst p) (snd p) = None)"
  by (induction ps) (auto split: option.splits)

lemma missing_None: "missing_required kind data = None \<longleftrightarrow> (\<forall>p \<in> set (kind_fields kind). f_required (snd p) \<longrightarrow> get_field data (fst p) \<noteq> Undef)"
  by (auto simp: missing_required_def find_None_iff)

definition accepted :: "(rat \<Rightarrow> string) \<Rightarrow> bool \<Rightarrow> bool \<Rightarrow> (string \<times> jsv) list \<Rightarrow> bool" where
  "accepted num importer mirror input \<longleftrightarrow> (let kind = text_of (get_field input ''kind''); data = entries_of (get_field input ''data'') in
     (\<forall>p \<in> set input. fst p \<in> set ALLOWED) \<and> (\<forall>c \<in> set (argument_checks num input). \<not> fst c)
     \<and> (\<forall>p \<in> set data. check_entry importer kind (fst p) (snd p) = None)
     \<and> (\<forall>p \<in> set (kind_fields kind). f_required (snd p) \<longrightarrow> get_field data (fst p) \<noteq> Undef)
     \<and> (\<forall>c \<in> set (role_checks importer mirror input). \<not> fst c))"

definition returned :: "(string \<times> jsv) list \<Rightarrow> append_args" where
  "returned input = (let get = get_field input; kind = text_of (get ''kind''); data = entries_of (get ''data'') in
     \<lparr>a_ref = optional_text (get ''ref''), a_repo = optional_text (get ''repo''), a_kind = kind, a_key = text_of (get ''key''),
       a_text = optional_text (get ''text''), a_data = map (canonical_entry kind) data,
       a_supersedes = map_option lower (optional_text (get ''supersedes'')),
       a_author = map_option js_trim (optional_text (get ''author''))\<rparr>)"

lemma validate_Inr:
  "validate_append num importer mirror v = Inr a \<longleftrightarrow> (\<exists>input. v = Obj input \<and> accepted num importer mirror input \<and> a = returned input)"
proof (cases v)
  case (Obj input)
  let ?kind = "text_of (get_field input ''kind'')" and ?data = "entries_of (get_field input ''data'')"
  show ?thesis
  proof (cases "find (\<lambda>p. fst p \<notin> set ALLOWED) input")
    case (Some p)
    then have "\<exists>p \<in> set input. fst p \<notin> set ALLOWED" by (auto simp: find_Some_iff)
    then show ?thesis using Some Obj by (auto simp: validate_append_def Let_def accepted_def)
  next
    case None
    then have al: "\<forall>p \<in> set input. fst p \<in> set ALLOWED" unfolding find_None_iff by blast
    show ?thesis using None al Obj unfolding validate_append_def accepted_def returned_def Let_def
        first_failing_None [symmetric] check_entries_None [symmetric] missing_None [symmetric]
      by (auto split: option.splits)
  qed
qed (auto simp: validate_append_def)

text \<open>The object a caller would pass to repeat an accepted call.\<close>

definition opt_entry :: "string \<Rightarrow> string option \<Rightarrow> (string \<times> jsv) list" where
  "opt_entry k v = (case v of None \<Rightarrow> [] | Some s \<Rightarrow> [(k, Text s)])"

definition args_input :: "append_args \<Rightarrow> (string \<times> jsv) list" where
  "args_input a = opt_entry ''ref'' (a_ref a) @ opt_entry ''repo'' (a_repo a) @ [(''kind'', Text (a_kind a)), (''key'', Text (a_key a))]
     @ opt_entry ''text'' (a_text a) @ [(''data'', Obj (a_data a))] @ opt_entry ''supersedes'' (a_supersedes a) @ opt_entry ''author'' (a_author a)"

definition opt_value :: "string option \<Rightarrow> jsv" where
  "opt_value v = (case v of None \<Rightarrow> Undef | Some s \<Rightarrow> Text s)"

lemma get_opt: "get_field (opt_entry k v @ xs) k' = (if k = k' \<and> v \<noteq> None then opt_value v else get_field xs k')"
  by (auto simp: opt_entry_def get_field_def opt_value_def split: option.splits)

lemma get_cons: "get_field ((k, v) # xs) k' = (if k = k' then v else get_field xs k')"
  by (simp add: get_field_def)

lemma get_nil: "get_field [] k = Undef"
  by (simp add: get_field_def)

lemma get_opt_last: "get_field (opt_entry k v) k' = (if k = k' then opt_value v else Undef)"
  by (auto simp: opt_entry_def get_field_def opt_value_def split: option.splits)

lemma args_get:
  "get_field (args_input a) ''ref'' = opt_value (a_ref a)" "get_field (args_input a) ''repo'' = opt_value (a_repo a)"
  "get_field (args_input a) ''kind'' = Text (a_kind a)" "get_field (args_input a) ''key'' = Text (a_key a)"
  "get_field (args_input a) ''text'' = opt_value (a_text a)" "get_field (args_input a) ''data'' = Obj (a_data a)"
  "get_field (args_input a) ''supersedes'' = opt_value (a_supersedes a)" "get_field (args_input a) ''author'' = opt_value (a_author a)"
  unfolding args_input_def by (auto simp: get_opt get_cons get_nil get_opt_last opt_value_def split: option.splits)

lemma args_allowed: "\<forall>p \<in> set (args_input a). fst p \<in> set ALLOWED"
  by (auto simp: args_input_def ALLOWED_def opt_entry_def split: option.splits)

section \<open>Canonical ids\<close>

definition id_char :: "char \<Rightarrow> bool" where
  "id_char c \<longleftrightarrow> c = CHR ''-'' \<or> hex_char c"

lemma id_char_code: "id_char c \<Longrightarrow> 45 \<le> code c \<and> code c < 103 \<and> code c \<noteq> 92"
  by (auto simp: id_char_def hex_char_def digit_char_def code_def)

lemma code_lower: "code (lower_char c) = (if 65 \<le> code c \<and> code c \<le> 90 then code c + 32 else code c)"
  by (simp add: lower_char_def code_def)

lemma lower_lower_char [simp]: "lower_char (lower_char c) = lower_char c"
  using code_lower [of c] by (auto simp: lower_char_def [of "lower_char c"])

lemma lower_lower [simp]: "lower (lower s) = lower s"
  by (simp add: lower_def)

lemma hex_lower: "hex_char c \<Longrightarrow> hex_char (lower_char c)"
  by (auto simp: hex_char_def digit_char_def code_lower)

lemma id_lower: "id_char c \<Longrightarrow> id_char (lower_char c)"
  by (auto simp: id_char_def hex_lower) (simp add: lower_char_def code_def)

lemma uuid_ids: "uuid_text s \<Longrightarrow> \<forall>c \<in> set s. id_char c"
proof
  fix c assume u: "uuid_text s" and "c \<in> set s"
  then obtain i where i: "i < length s" "c = s ! i" by (metis in_set_conv_nth)
  then have "i \<in> set [0..<36]" using u by (simp add: uuid_text_def)
  then have "uuid_char i c" using u i(2) unfolding uuid_text_def list_all_iff by blast
  then show "id_char c" by (simp add: uuid_char_def id_char_def split: if_splits)
qed

lemma uuid_lower:
  assumes u: "uuid_text s"
  shows "uuid_text (lower s)"
proof -
  have l: "length s = 36" using u by (simp add: uuid_text_def)
  have "uuid_char i (lower s ! i)" if "i \<in> set [0..<36]" for i
  proof -
    have "uuid_char i (s ! i)" using u that unfolding uuid_text_def list_all_iff by blast
    moreover have "lower s ! i = lower_char (s ! i)" using that l by (simp add: lower_def)
    moreover have "lower_char CHR ''-'' = CHR ''-''" by (simp add: lower_char_def code_def)
    ultimately show ?thesis by (auto simp: uuid_char_def hex_lower)
  qed
  then show ?thesis using l unfolding uuid_text_def list_all_iff by (simp add: lower_def)
qed

lemma byte_length_simps [simp]: "byte_length [] = 0" "byte_length (c # s) = (if code c < 128 then 1 else 2) + byte_length s"
  "byte_length (s @ t) = byte_length s + byte_length t"
  by (simp_all add: byte_length_def)

lemma quote_ids: "\<forall>c \<in> set s. id_char c \<Longrightarrow> byte_length (concat (map quote_char s)) = int (length s)"
proof (induction s)
  case (Cons c s)
  then have "quote_char c = [c]" "code c < 128" using id_char_code [of c] by (simp_all add: quote_char_def Let_def)
  then show ?case using Cons by simp
qed simp

lemma quote_lower: "uuid_text s \<Longrightarrow> byte_length (quote (lower s)) = byte_length (quote s)"
  using quote_ids [OF uuid_ids] quote_ids [OF uuid_ids [OF uuid_lower]]
  by (simp add: quote_def) (simp add: lower_def)

lemma commas_length: "map byte_length xs = map byte_length ys \<Longrightarrow> byte_length (commas xs) = byte_length (commas ys)"
proof (induction xs arbitrary: ys rule: commas.induct)
  case (2 x)
  then show ?case by (cases ys) auto
next
  case (3 x y xs)
  then obtain a b zs where "ys = a # b # zs" by (cases ys; cases "tl ys") auto
  then show ?case using 3 by auto
qed simp

lemma json_obj_length:
  assumes "map fst fs = map fst gs" and "list_all2 (\<lambda>p q. (snd p = Undef \<longleftrightarrow> snd q = Undef) \<and> byte_length (json_text num (snd p)) = byte_length (json_text num (snd q))) fs gs"
  shows "byte_length (json_text num (Obj fs)) = byte_length (json_text num (Obj gs))"
proof -
  let ?t = "\<lambda>p. quote (fst p) @ '':'' @ json_text num (snd p)"
  have "map (byte_length \<circ> ?t) (filter (\<lambda>p. snd p \<noteq> Undef) fs) = map (byte_length \<circ> ?t) (filter (\<lambda>p. snd p \<noteq> Undef) gs)"
    using assms(2,1) by (induction fs gs rule: list_all2_induct) auto
  then have "byte_length (commas (map ?t (filter (\<lambda>p. snd p \<noteq> Undef) fs))) = byte_length (commas (map ?t (filter (\<lambda>p. snd p \<noteq> Undef) gs)))"
    by (intro commas_length) simp
  then show ?thesis by simp
qed

section \<open>Canonical data\<close>

text \<open>An entry that passed the check, seen through its canonical form.\<close>

lemma import_not_uuid: "lookup_spec kind name = Own f \<Longrightarrow> f_type f = UuidT \<Longrightarrow> name \<notin> set IMPORT_FIELDS"
  by (auto simp: lookup_spec_def kind_fields_def IMPORT_FIELDS_def plain_def must_def one_of_def split: if_splits option.splits)

lemma canonical_entry_cases:
  assumes "check_entry importer kind name v = None"
  shows "canonical_entry kind (name, v) = (name, v)
    \<or> (\<exists>f s. lookup_spec kind name = Own f \<and> f_type f = UuidT \<and> v = Text s \<and> uuid_text s \<and> canonical_entry kind (name, v) = (name, Text (lower s)))"
proof (cases "lookup_spec kind name")
  case (Own f)
  show ?thesis
  proof (cases "f_type f = UuidT \<and> is_text v")
    case True
    then have "name \<notin> set IMPORT_FIELDS" using import_not_uuid Own by blast
    then have "check_field f v" using assms Own by (simp add: check_entry_def split: if_splits)
    then show ?thesis using True Own by (auto simp: check_field_def canonical_entry_def is_text_def text_of_def split: jsv.splits)
  next
    case False
    then show ?thesis using Own by (auto simp: canonical_entry_def)
  qed
qed (auto simp: canonical_entry_def)

lemma canonical_entry_facts:
  assumes "check_entry importer kind name v = None" and e: "canonical_entry kind (name, v) = (name', v')"
  shows "name' = name" "v' = Undef \<longleftrightarrow> v = Undef" "is_text v' = is_text v"
    and "byte_length (json_text num v') = byte_length (json_text num v)"
    and "check_entry importer kind name v' = None" and "canonical_entry kind (name, v') = (name, v')"
proof -
  have "(name', v') = (name, v) \<or> (\<exists>f s. lookup_spec kind name = Own f \<and> f_type f = UuidT \<and> v = Text s \<and> uuid_text s
      \<and> name' = name \<and> v' = Text (lower s))"
    using canonical_entry_cases [OF assms(1)] e by auto
  then have "name' = name \<and> (v' = Undef \<longleftrightarrow> v = Undef) \<and> is_text v' = is_text v \<and> byte_length (json_text num v') = byte_length (json_text num v)
     \<and> check_entry importer kind name v' = None \<and> canonical_entry kind (name, v') = (name, v')"
  proof
    assume "(name', v') = (name, v)"
    then show ?thesis using assms by simp
  next
    assume "\<exists>f s. lookup_spec kind name = Own f \<and> f_type f = UuidT \<and> v = Text s \<and> uuid_text s \<and> name' = name \<and> v' = Text (lower s)"
    then obtain f s where f: "lookup_spec kind name = Own f" "f_type f = UuidT" "v = Text s" "uuid_text s" "name' = name" "v' = Text (lower s)"
      by blast
    have "name \<notin> set IMPORT_FIELDS" by (rule import_not_uuid [OF f(1,2)])
    then show ?thesis using f
      by (simp add: is_text_def quote_lower check_entry_def check_field_def uuid_lower canonical_entry_def text_of_def)
  qed
  then show "name' = name" "v' = Undef \<longleftrightarrow> v = Undef" "is_text v' = is_text v"
    "byte_length (json_text num v') = byte_length (json_text num v)"
    "check_entry importer kind name v' = None" "canonical_entry kind (name, v') = (name, v')" by blast+
qed

section \<open>Accepted calls are normal forms\<close>

lemma dropWhile_idem [simp]: "dropWhile P (dropWhile P s) = dropWhile P s"
  by (induction s) auto

lemma dropWhile_id: "s = [] \<or> \<not> P (hd s) \<Longrightarrow> dropWhile P s = s"
  by (cases s) auto

lemma js_trim_idem [simp]: "js_trim (js_trim s) = js_trim s"
proof -
  define d where "d = dropWhile space_char s"
  define r where "r = rev (dropWhile space_char (rev d))"
  have t: "js_trim s = r" by (simp add: js_trim_def r_def d_def)
  have "rev d = takeWhile space_char (rev d) @ rev r" by (simp add: r_def)
  then have p: "d = r @ rev (takeWhile space_char (rev d))" by (metis rev_append rev_rev_ident)
  have "r = [] \<or> \<not> space_char (hd r)"
  proof (cases r)
    case (Cons c cs)
    then have "d = c # (cs @ rev (takeWhile space_char (rev d)))" using p by simp
    then have "\<not> space_char c" unfolding d_def by (metis dropWhile_eq_Cons_conv)
    then show ?thesis using Cons by simp
  qed simp
  then have "dropWhile space_char r = r" by (rule dropWhile_id)
  moreover have "dropWhile space_char (rev r) = rev r" by (simp add: r_def)
  ultimately show ?thesis by (simp add: t) (simp add: js_trim_def)
qed

lemma length_js_trim: "length (js_trim s) \<le> length s"
proof -
  have "length (js_trim s) \<le> length (rev (dropWhile space_char s))" unfolding js_trim_def length_rev
    using length_dropWhile_le [of space_char "rev (dropWhile space_char s)"] by simp
  also have "\<dots> \<le> length s" by (simp add: length_dropWhile_le)
  finally show ?thesis .
qed

lemma opt_value_optional: "v = Undef \<or> is_text v \<Longrightarrow> opt_value (optional_text v) = v"
  by (cases v) (auto simp: opt_value_def optional_text_def is_text_def)

lemma get_canonical:
  "get_field (map (canonical_entry kind) data) k = (case map_of data k of None \<Rightarrow> Undef | Some v \<Rightarrow> snd (canonical_entry kind (k, v)))"
  by (induction data) (auto simp: get_field_def canonical_entry_def)

lemma canonical_data:
  assumes "\<forall>p \<in> set data. check_entry importer kind (fst p) (snd p) = None"
  defines "canon \<equiv> map (canonical_entry kind) data"
  shows "\<forall>p \<in> set canon. check_entry importer kind (fst p) (snd p) = None"
    and "map (canonical_entry kind) canon = canon"
    and "get_field canon k = Undef \<longleftrightarrow> get_field data k = Undef" and "is_text (get_field canon k) = is_text (get_field data k)"
    and "byte_length (json_text num (Obj canon)) = byte_length (json_text num (Obj data))"
proof -
  have f: "check_entry importer kind k v = None \<Longrightarrow> fst (canonical_entry kind (k, v)) = k
      \<and> (snd (canonical_entry kind (k, v)) = Undef \<longleftrightarrow> v = Undef) \<and> is_text (snd (canonical_entry kind (k, v))) = is_text v
      \<and> byte_length (json_text num (snd (canonical_entry kind (k, v)))) = byte_length (json_text num v)
      \<and> check_entry importer kind k (snd (canonical_entry kind (k, v))) = None
      \<and> canonical_entry kind (canonical_entry kind (k, v)) = canonical_entry kind (k, v)" for k v
  proof -
    assume c: "check_entry importer kind k v = None"
    obtain k' v' where e: "canonical_entry kind (k, v) = (k', v')" by (cases "canonical_entry kind (k, v)")
    show ?thesis using canonical_entry_facts(1,2,3,5,6) [OF c e] canonical_entry_facts(4) [OF c e, of num] by (simp add: e)
  qed
  have g: "fst (canonical_entry kind p) = fst p \<and> (snd (canonical_entry kind p) = Undef \<longleftrightarrow> snd p = Undef)
      \<and> byte_length (json_text num (snd (canonical_entry kind p))) = byte_length (json_text num (snd p))
      \<and> check_entry importer kind (fst p) (snd (canonical_entry kind p)) = None
      \<and> canonical_entry kind (canonical_entry kind p) = canonical_entry kind p" if "p \<in> set data" for p
    using f [of "fst p" "snd p"] assms(1) that by simp
  show "\<forall>p \<in> set canon. check_entry importer kind (fst p) (snd p) = None"
    using g by (simp add: canon_def)
  show "map (canonical_entry kind) canon = canon" using g by (simp add: canon_def)
  have m: "map_of data k = Some v \<Longrightarrow> check_entry importer kind k v = None" for v
    using assms(1) map_of_SomeD by fastforce
  show "get_field canon k = Undef \<longleftrightarrow> get_field data k = Undef" and "is_text (get_field canon k) = is_text (get_field data k)"
    using f m unfolding canon_def get_canonical by (auto simp: get_field_def split: option.splits)
  have "map fst canon = map fst data" using g by (simp add: canon_def)
  moreover have "list_all2 (\<lambda>p q. (snd p = Undef \<longleftrightarrow> snd q = Undef) \<and> byte_length (json_text num (snd p)) = byte_length (json_text num (snd q))) canon data"
    using g unfolding canon_def by (simp add: list_all2_conv_all_nth)
  ultimately show "byte_length (json_text num (Obj canon)) = byte_length (json_text num (Obj data))" by (rule json_obj_length)
qed

lemma pair_json_length:
  assumes "byte_length (json_text num (Obj d)) = byte_length (json_text num (Obj e))"
  shows "byte_length (json_text num (Obj [(''text'', t), (''data'', Obj d)])) = byte_length (json_text num (Obj [(''text'', t), (''data'', Obj e)]))"
  by (rule json_obj_length) (use assms in simp_all)


text \<open>The checks, over the values they read.\<close>

definition arguments_ok :: "(rat \<Rightarrow> string) \<Rightarrow> jsv \<Rightarrow> jsv \<Rightarrow> jsv \<Rightarrow> jsv \<Rightarrow> jsv \<Rightarrow> jsv \<Rightarrow> jsv \<Rightarrow> bool" where
  "arguments_ok num kind key ref repo text' supersedes data \<longleftrightarrow>
     is_text kind \<and> text_of kind \<in> set RECORD_KINDS \<and> \<not> blank key \<and> \<not> MAX_KEY_LENGTH < length (text_of key)
     \<and> (ref = Undef \<or> is_text ref) \<and> (repo = Undef \<or> is_text repo) \<and> (ref = Undef \<longleftrightarrow> repo \<noteq> Undef)
     \<and> (repo \<noteq> Undef \<longrightarrow> text_of kind = ''issue'' \<and> supersedes = Undef \<and> parse_repo (text_of repo) \<noteq> None)
     \<and> (repo = Undef \<longrightarrow> parse_ref (text_of ref) \<noteq> None)
     \<and> (text' = Undef \<or> is_text text') \<and> \<not> MAX_TEXT_BYTES < byte_length (text_of text')
     \<and> (text_of kind \<in> set TEXT_REQUIRED \<longrightarrow> \<not> blank text')
     \<and> (supersedes = Undef \<or> (is_text supersedes \<and> uuid_text (text_of supersedes)))
     \<and> (data = Undef \<or> is_obj data)
     \<and> \<not> MAX_DATA_BYTES < byte_length (json_text num (Obj (entries_of data)))
     \<and> \<not> MAX_ENCODED_RECORD_BYTES < byte_length (json_text num (Obj [(''text'', if text' = Undef then Nul else text'), (''data'', Obj (entries_of data))]))"

lemma argument_checks_ok:
  "(\<forall>c \<in> set (argument_checks num input). \<not> fst c) \<longleftrightarrow> arguments_ok num (get_field input ''kind'') (get_field input ''key'')
     (get_field input ''ref'') (get_field input ''repo'') (get_field input ''text'') (get_field input ''supersedes'') (get_field input ''data'')"
  unfolding argument_checks_def arguments_ok_def Let_def list.set ball_simps fst_conv by satx

definition role_ok :: "bool \<Rightarrow> bool \<Rightarrow> string \<Rightarrow> jsv \<Rightarrow> jsv \<Rightarrow> (string \<times> jsv) list \<Rightarrow> bool" where
  "role_ok importer mirror kind repo author data \<longleftrightarrow>
     (kind = ''issue'' \<and> repo \<noteq> Undef \<longrightarrow> is_text (get_field data ''title''))
     \<and> (kind = ''link'' \<longrightarrow> \<not> list_all (\<lambda>n. get_field data n = Undef) [''pr'', ''issue'', ''commit'', ''url'', ''forge''])
     \<and> (kind = ''mirror'' \<longrightarrow> mirror)
     \<and> (author \<noteq> Undef \<longrightarrow> importer \<and> \<not> blank author \<and> \<not> 256 < length (text_of author) \<and> is_text (get_field data ''via''))"

lemma role_checks_ok:
  "(\<forall>c \<in> set (role_checks importer mirror input). \<not> fst c) \<longleftrightarrow> role_ok importer mirror (text_of (get_field input ''kind''))
     (get_field input ''repo'') (get_field input ''author'') (entries_of (get_field input ''data''))"
  unfolding role_checks_def role_ok_def Let_def list.set ball_simps fst_conv by satx

lemma optional_supersedes:
  assumes "v = Undef \<or> (is_text v \<and> uuid_text (text_of v))"
  shows "opt_value (map_option lower (optional_text v)) = Undef \<longleftrightarrow> v = Undef"
    and "v \<noteq> Undef \<Longrightarrow> is_text (opt_value (map_option lower (optional_text v))) \<and> uuid_text (text_of (opt_value (map_option lower (optional_text v))))"
    and "optional_text (opt_value (map_option lower (optional_text v))) = map_option lower (optional_text v)"
  using assms by (cases v; simp add: opt_value_def optional_text_def is_text_def text_of_def uuid_lower)+

lemma optional_author:
  assumes "v = Undef \<or> \<not> blank v"
  shows "opt_value (map_option js_trim (optional_text v)) = Undef \<longleftrightarrow> v = Undef"
    and "v \<noteq> Undef \<Longrightarrow> \<not> blank (opt_value (map_option js_trim (optional_text v)))
      \<and> length (text_of (opt_value (map_option js_trim (optional_text v)))) \<le> length (text_of v)"
    and "map_option js_trim (optional_text (opt_value (map_option js_trim (optional_text v)))) = map_option js_trim (optional_text v)"
  using assms by (cases v; simp add: opt_value_def optional_text_def is_text_def text_of_def blank_def length_js_trim)+

lemma text_optional: "is_text v \<Longrightarrow> Text (text_of v) = v"
  by (cases v) (simp_all add: is_text_def text_of_def)

text \<open>The values read again from the returned arguments.\<close>

lemma returned_get:
  assumes ok: "arguments_ok num (get_field input ''kind'') (get_field input ''key'') (get_field input ''ref'') (get_field input ''repo'')
      (get_field input ''text'') (get_field input ''supersedes'') (get_field input ''data'')"
  defines "i' \<equiv> args_input (returned input)"
  shows "get_field i' ''kind'' = get_field input ''kind''" "get_field i' ''key'' = get_field input ''key''"
    "get_field i' ''ref'' = get_field input ''ref''" "get_field i' ''repo'' = get_field input ''repo''"
    "get_field i' ''text'' = get_field input ''text''"
    "get_field i' ''supersedes'' = opt_value (map_option lower (optional_text (get_field input ''supersedes'')))"
    "get_field i' ''author'' = opt_value (map_option js_trim (optional_text (get_field input ''author'')))"
    "get_field i' ''data'' = Obj (map (canonical_entry (text_of (get_field input ''kind''))) (entries_of (get_field input ''data'')))"
proof -
  have f: "is_text (get_field input ''key'')" "is_text (get_field input ''kind'')"
    "get_field input ''ref'' = Undef \<or> is_text (get_field input ''ref'')" "get_field input ''repo'' = Undef \<or> is_text (get_field input ''repo'')"
    "get_field input ''text'' = Undef \<or> is_text (get_field input ''text'')"
    using ok unfolding arguments_ok_def blank_def by satx+
  note r = returned_def Let_def append_args.simps
  show "get_field i' ''kind'' = get_field input ''kind''" unfolding i'_def args_get r by (rule text_optional [OF f(2)])
  show "get_field i' ''key'' = get_field input ''key''" unfolding i'_def args_get r by (rule text_optional [OF f(1)])
  show "get_field i' ''ref'' = get_field input ''ref''" unfolding i'_def args_get r by (rule opt_value_optional [OF f(3)])
  show "get_field i' ''repo'' = get_field input ''repo''" unfolding i'_def args_get r by (rule opt_value_optional [OF f(4)])
  show "get_field i' ''text'' = get_field input ''text''" unfolding i'_def args_get r by (rule opt_value_optional [OF f(5)])
  show "get_field i' ''supersedes'' = opt_value (map_option lower (optional_text (get_field input ''supersedes'')))"
    unfolding i'_def args_get r ..
  show "get_field i' ''author'' = opt_value (map_option js_trim (optional_text (get_field input ''author'')))"
    unfolding i'_def args_get r ..
  show "get_field i' ''data'' = Obj (map (canonical_entry (text_of (get_field input ''kind''))) (entries_of (get_field input ''data'')))"
    unfolding i'_def args_get r ..
qed

lemma arguments_ok_change:
  assumes ok: "arguments_ok num k key r rp t su d" and su: "su' = Undef \<longleftrightarrow> su = Undef"
    "su \<noteq> Undef \<Longrightarrow> is_text su' \<and> uuid_text (text_of su')"
    and l: "byte_length (json_text num (Obj d')) = byte_length (json_text num (Obj (entries_of d)))"
  shows "arguments_ok num k key r rp t su' (Obj d')"
proof -
  have o: "is_obj (Obj d')" "entries_of (Obj d') = d'" by (simp_all add: is_obj_def entries_of_def)
  note p = pair_json_length [OF l, of "if t = Undef then Nul else t"]
  show ?thesis using ok su(2) o(1) unfolding arguments_ok_def su(1) o(2) l p by satx
qed

lemma role_ok_change:
  assumes ok: "role_ok importer mirror kind rp au d" and au: "au' = Undef \<longleftrightarrow> au = Undef"
    "au \<noteq> Undef \<Longrightarrow> \<not> blank au' \<and> length (text_of au') \<le> length (text_of au)"
    and d: "\<And>n. get_field d' n = Undef \<longleftrightarrow> get_field d n = Undef" "\<And>n. is_text (get_field d' n) = is_text (get_field d n)"
  shows "role_ok importer mirror kind rp au' d'"
proof -
  have l: "au \<noteq> Undef \<Longrightarrow> \<not> 256 < length (text_of au) \<Longrightarrow> \<not> 256 < length (text_of au')" using au(2) by auto
  show ?thesis using ok au(2) l unfolding role_ok_def au(1) d by blast
qed

lemma accepted_again:
  assumes ac: "accepted num importer mirror input"
  shows "accepted num importer mirror (args_input (returned input)) \<and> returned (args_input (returned input)) = returned input"
proof -
  define kind where "kind = text_of (get_field input ''kind'')"
  define data where "data = entries_of (get_field input ''data'')"
  define i' where "i' = args_input (returned input)"
  have ck: "\<forall>p \<in> set data. check_entry importer kind (fst p) (snd p) = None"
    and rq: "\<forall>p \<in> set (kind_fields kind). f_required (snd p) \<longrightarrow> get_field data (fst p) \<noteq> Undef"
    and ar: "arguments_ok num (get_field input ''kind'') (get_field input ''key'') (get_field input ''ref'') (get_field input ''repo'')
      (get_field input ''text'') (get_field input ''supersedes'') (get_field input ''data'')"
    and ro: "role_ok importer mirror kind (get_field input ''repo'') (get_field input ''author'') data"
    using ac by (simp_all add: accepted_def Let_def kind_def data_def argument_checks_ok role_checks_ok)
  note cd = canonical_data [OF ck]
  note get = returned_get [OF ar, folded i'_def kind_def data_def]
  have su: "get_field input ''supersedes'' = Undef \<or> (is_text (get_field input ''supersedes'') \<and> uuid_text (text_of (get_field input ''supersedes'')))"
    using ar by (simp add: arguments_ok_def)
  have au: "get_field input ''author'' = Undef \<or> \<not> blank (get_field input ''author'')" using ro by (auto simp: role_ok_def)
  have len: "byte_length (json_text num (Obj [(''text'', t), (''data'', Obj (map (canonical_entry kind) data))]))
    = byte_length (json_text num (Obj [(''text'', t), (''data'', Obj data)]))" for t
    by (rule pair_json_length [OF cd(5)])
  have 1: "arguments_ok num (get_field i' ''kind'') (get_field i' ''key'') (get_field i' ''ref'') (get_field i' ''repo'')
      (get_field i' ''text'') (get_field i' ''supersedes'') (get_field i' ''data'')"
  proof -
    have l: "byte_length (json_text num (Obj (map (canonical_entry kind) data))) = byte_length (json_text num (Obj (entries_of (get_field input ''data''))))"
      unfolding cd(5) data_def [symmetric] ..
    show ?thesis unfolding get by (rule arguments_ok_change [OF ar optional_supersedes(1,2) [OF su] l])
  qed
  have 2: "role_ok importer mirror kind (get_field i' ''repo'') (get_field i' ''author'') (map (canonical_entry kind) data)"
    unfolding get by (rule role_ok_change [OF ro optional_author(1,2) [OF au] cd(3,4)])
  have k: "text_of (get_field i' ''kind'') = kind" "entries_of (get_field i' ''data'') = map (canonical_entry kind) data"
    by (simp_all add: get kind_def entries_of_def)
  have "accepted num importer mirror i'"
    unfolding accepted_def Let_def k argument_checks_ok role_checks_ok
    using 1 2 cd(1,3) rq args_allowed [of "returned input"] by (simp add: i'_def [symmetric])
  moreover have "returned i' = returned input"
    using optional_supersedes(3) [OF su] optional_author(3) [OF au] cd(2)
    unfolding returned_def Let_def k by (simp add: get kind_def [symmetric] data_def [symmetric] option.map_comp o_def)
  ultimately show ?thesis by (simp add: i'_def)
qed

section \<open>Key order does not matter\<close>

lemma text_le_total: "text_le a b \<or> text_le b a"
  by (induction a b rule: text_le.induct) auto

lemma text_le_refl [simp]: "text_le a a"
  using text_le_total [of a a] by blast

lemma text_le_antisym: "text_le a b \<Longrightarrow> text_le b a \<Longrightarrow> a = b"
proof (induction a b rule: text_le.induct)
  case (3 x xs y ys)
  then have c: "code x = code y" by (auto split: if_splits)
  then have "x = y" by (simp add: code_def)
  then show ?case using 3 c by simp
qed (auto elim: text_le.elims)

lemma text_le_trans: "text_le a b \<Longrightarrow> text_le b c \<Longrightarrow> text_le a c"
proof (induction a b arbitrary: c rule: text_le.induct)
  case (3 x xs y ys)
  then show ?case by (cases c) (auto split: if_splits)
qed auto

definition keys_sorted :: "(string \<times> 'a) list \<Rightarrow> bool" where
  "keys_sorted ps \<longleftrightarrow> sorted_wrt (\<lambda>p q. text_le (fst p) (fst q)) ps"

lemma insert_key_mset [simp]: "mset (insert_key p ps) = add_mset p (mset ps)"
  by (induction ps) auto

lemma insert_key_sorted: "keys_sorted ps \<Longrightarrow> keys_sorted (insert_key p ps)"
proof (induction ps)
  case Nil then show ?case by (simp add: keys_sorted_def)
next
  case (Cons q qs)
  have st: "set (insert_key p qs) = insert p (set qs)" by (induction qs) auto
  show ?case
  proof (cases "text_le (fst p) (fst q)")
    case True
    then show ?thesis using Cons.prems by (auto simp: keys_sorted_def intro: text_le_trans)
  next
    case False
    then have "text_le (fst q) (fst p)" using text_le_total by blast
    then show ?thesis using Cons False st by (auto simp: keys_sorted_def)
  qed
qed

lemma sort_keys_ok: "keys_sorted (sort_keys ps) \<and> mset (sort_keys ps) = mset ps"
  unfolding sort_keys_def by (induction ps) (auto simp: insert_key_sorted, simp add: keys_sorted_def)

lemma keys_sorted_unique:
  "keys_sorted xs \<Longrightarrow> keys_sorted ys \<Longrightarrow> mset xs = mset ys \<Longrightarrow> distinct (map fst xs) \<Longrightarrow> xs = ys"
proof (induction xs arbitrary: ys)
  case (Cons x xs)
  then obtain y zs where ys: "ys = y # zs" by (cases ys) auto
  have "x \<in> set ys" "y \<in> set (x # xs)" using Cons.prems(3) ys mset_eq_setD [OF Cons.prems(3)] by auto
  then have "text_le (fst y) (fst x)" "text_le (fst x) (fst y)" using Cons.prems(1,2) ys by (auto simp: keys_sorted_def)
  then have "fst x = fst y" by (simp add: text_le_antisym)
  then have "x = y" using \<open>y \<in> set (x # xs)\<close> Cons.prems(4) by (cases x; cases y) (force simp: image_iff)
  then show ?case using Cons ys by (auto simp: keys_sorted_def)
qed simp

lemma sort_keys_perm: "mset ps = mset qs \<Longrightarrow> distinct (map fst ps) \<Longrightarrow> sort_keys ps = sort_keys qs"
proof -
  assume m: "mset ps = mset qs" and d: "distinct (map fst ps)"
  have "mset (map fst (sort_keys ps)) = mset (map fst ps)" using sort_keys_ok [of ps] by simp
  then have "distinct (map fst (sort_keys ps))" using d by (metis mset_eq_imp_distinct_iff)
  then show ?thesis using keys_sorted_unique [of "sort_keys ps" "sort_keys qs"] sort_keys_ok [of ps] sort_keys_ok [of qs] m by simp
qed

section \<open>Properties\<close>

lemma optional_text_None: "optional_text x = None \<longleftrightarrow> \<not> is_text x"
  by (cases x) (auto simp: optional_text_def is_text_def)

lemma optional_text_Some: "optional_text x = Some r \<longleftrightarrow> is_text x \<and> text_of x = r"
  by (cases x) (auto simp: optional_text_def is_text_def text_of_def)

lemma arguments_ok_head:
  assumes "arguments_ok num kind key ref repo txt ov data"
  shows "text_of kind \<in> set RECORD_KINDS \<and> js_trim (text_of key) \<noteq> [] \<and> length (text_of key) \<le> 256"
proof -
  have r: "text_of kind \<in> set RECORD_KINDS" "\<not> blank key" "\<not> MAX_KEY_LENGTH < length (text_of key)"
    using assms unfolding arguments_ok_def by satx+
  then show ?thesis by (simp add: blank_def MAX_KEY_LENGTH_def)
qed

lemma arguments_ok_target:
  assumes "arguments_ok num kind key ref repo txt ov data"
  shows "(optional_text ref = None \<longleftrightarrow> optional_text repo \<noteq> None)
    \<and> (\<forall>r. optional_text ref = Some r \<longrightarrow> parse_ref r \<noteq> None)
    \<and> (\<forall>r. optional_text repo = Some r \<longrightarrow> parse_repo r \<noteq> None \<and> text_of kind = ''issue'')"
proof -
  have r: "ref = Undef \<or> is_text ref" "repo = Undef \<or> is_text repo" "ref = Undef \<longleftrightarrow> repo \<noteq> Undef"
      "repo = Undef \<longrightarrow> parse_ref (text_of ref) \<noteq> None" "repo \<noteq> Undef \<longrightarrow> text_of kind = ''issue''"
      "repo \<noteq> Undef \<longrightarrow> parse_repo (text_of repo) \<noteq> None"
    using assms unfolding arguments_ok_def by satx+
  then have "is_text ref \<longleftrightarrow> ref \<noteq> Undef" "is_text repo \<longleftrightarrow> repo \<noteq> Undef" by (auto simp: is_text_def)
  with r show ?thesis unfolding optional_text_None optional_text_Some by blast
qed

lemma arguments_ok_supersedes:
  assumes "arguments_ok num kind key ref repo txt ov data"
  shows "\<forall>s. map_option lower (optional_text ov) = Some s \<longrightarrow> uuid_text s \<and> lower s = s"
proof -
  have "ov = Undef \<or> (is_text ov \<and> uuid_text (text_of ov))" using assms unfolding arguments_ok_def by satx
  then show ?thesis by (cases ov) (auto simp: optional_text_def text_of_def uuid_lower is_text_def)
qed

text \<open>An identifier in its one stored form.\<close>

definition canonical_id :: "jsv \<Rightarrow> bool" where
  "canonical_id v \<longleftrightarrow> is_text v \<and> uuid_text (text_of v) \<and> lower (text_of v) = text_of v"

lemma canonical_entry_id:
  assumes "check_entry importer kind (fst p) (snd p) = None" and "map_of (kind_fields kind) (fst p) = Some f" and "f_type f = UuidT"
  shows "canonical_id (snd (canonical_entry kind p))"
proof -
  have own: "lookup_spec kind (fst p) = Own f" using assms(2) by (simp add: lookup_spec_def)
  then have "fst p \<notin> set IMPORT_FIELDS" using import_not_uuid assms(3) by blast
  then have "check_field f (snd p)" using assms(1) own by (simp add: check_entry_def split: if_splits)
  then show ?thesis using assms(3) own
    by (auto simp: check_field_def canonical_entry_def canonical_id_def is_text_def text_of_def uuid_lower split: jsv.splits)
qed

lemma check_entry_typed:
  "check_entry importer kind (fst p) (snd p) = None \<Longrightarrow> (fst p \<in> set IMPORT_FIELDS \<and> importer \<and> \<not> blank (snd p))
     \<or> (\<exists>f. map_of (kind_fields kind) (fst p) = Some f \<and> check_field f (snd p))
     \<or> (map_of (kind_fields kind) (fst p) = None \<and> fst p \<in> set inherited)"
  by (auto simp: check_entry_def lookup_spec_def split: if_splits option.splits)

text \<open>C23: what validation returns is well typed: a known kind, a bounded key, one target that parses, every required field, and
  each data field either one that only the importer sets, or declared by the kind and of its declared type, or undeclared
  under a name that every object inherits, whose content is not checked. The superseded id and every data field
  declared as an id are ids in lower case, the one form in which they are stored.\<close>

theorem accepted_append_well_typed:
  assumes "validate_append num importer mirror v = Inr a"
  shows "a_kind a \<in> set RECORD_KINDS \<and> js_trim (a_key a) \<noteq> [] \<and> length (a_key a) \<le> 256
    \<and> (a_ref a = None \<longleftrightarrow> a_repo a \<noteq> None) \<and> (\<forall>r. a_ref a = Some r \<longrightarrow> parse_ref r \<noteq> None)
    \<and> (\<forall>r. a_repo a = Some r \<longrightarrow> parse_repo r \<noteq> None \<and> a_kind a = ''issue'')
    \<and> (\<forall>s. a_supersedes a = Some s \<longrightarrow> uuid_text s \<and> lower s = s)
    \<and> (\<forall>p \<in> set (a_data a). (fst p \<in> set IMPORT_FIELDS \<and> importer \<and> \<not> blank (snd p))
        \<or> (\<exists>f. map_of (kind_fields (a_kind a)) (fst p) = Some f \<and> check_field f (snd p))
        \<or> (map_of (kind_fields (a_kind a)) (fst p) = None \<and> fst p \<in> set inherited))
    \<and> (\<forall>p \<in> set (a_data a). \<forall>f. map_of (kind_fields (a_kind a)) (fst p) = Some f \<longrightarrow> f_type f = UuidT \<longrightarrow>
        is_text (snd p) \<and> uuid_text (text_of (snd p)) \<and> lower (text_of (snd p)) = text_of (snd p))
    \<and> (\<forall>p \<in> set (kind_fields (a_kind a)). f_required (snd p) \<longrightarrow> get_field (a_data a) (fst p) \<noteq> Undef)
    \<and> (a_author a \<noteq> None \<longrightarrow> importer) \<and> (a_kind a = ''mirror'' \<longrightarrow> mirror)"
proof -
  obtain input where ac: "accepted num importer mirror input" and a: "a = returned input" using assms by (auto simp: validate_Inr)
  define kind where "kind = text_of (get_field input ''kind'')"
  define data where "data = entries_of (get_field input ''data'')"
  have ck: "\<forall>p \<in> set data. check_entry importer kind (fst p) (snd p) = None"
    and rq: "\<forall>p \<in> set (kind_fields kind). f_required (snd p) \<longrightarrow> get_field data (fst p) \<noteq> Undef"
    and ar: "arguments_ok num (get_field input ''kind'') (get_field input ''key'') (get_field input ''ref'') (get_field input ''repo'')
      (get_field input ''text'') (get_field input ''supersedes'') (get_field input ''data'')"
    and ro: "role_ok importer mirror kind (get_field input ''repo'') (get_field input ''author'') data"
    using ac by (simp_all add: accepted_def Let_def kind_def data_def argument_checks_ok role_checks_ok)
  note cd = canonical_data [OF ck]
  have s: "a_kind a = kind" "a_key a = text_of (get_field input ''key'')" "a_ref a = optional_text (get_field input ''ref'')"
    "a_repo a = optional_text (get_field input ''repo'')" "a_supersedes a = map_option lower (optional_text (get_field input ''supersedes''))"
    "a_data a = map (canonical_entry kind) data" "a_author a = map_option js_trim (optional_text (get_field input ''author''))"
    by (simp_all add: a returned_def Let_def kind_def data_def)
  note head = arguments_ok_head [OF ar, folded kind_def s]
  note target = arguments_ok_target [OF ar, folded kind_def s]
  note over = arguments_ok_supersedes [OF ar, folded s]
  have typed: "(fst p \<in> set IMPORT_FIELDS \<and> importer \<and> \<not> blank (snd p))
        \<or> (\<exists>f. map_of (kind_fields kind) (fst p) = Some f \<and> check_field f (snd p))
        \<or> (map_of (kind_fields kind) (fst p) = None \<and> fst p \<in> set inherited)" if "p \<in> set (a_data a)" for p
    using cd(1) that unfolding s(6) by (intro check_entry_typed) blast
  have ids: "canonical_id (snd p)" if "p \<in> set (a_data a)" "map_of (kind_fields kind) (fst p) = Some f" "f_type f = UuidT" for p f
  proof -
    from that(1) obtain d where d: "d \<in> set data" "p = canonical_entry kind d" unfolding s(6) by auto
    then show ?thesis using canonical_entry_id [of importer kind d f] ck that(2,3) by (simp add: canonical_entry_def)
  qed
  have complete: "\<forall>p \<in> set (kind_fields kind). f_required (snd p) \<longrightarrow> get_field (a_data a) (fst p) \<noteq> Undef" using rq cd(3) s(6) by simp
  have "a_author a \<noteq> None \<longrightarrow> importer" "kind = ''mirror'' \<longrightarrow> mirror"
    using ro by (auto simp: role_ok_def s optional_text_None is_text_def)
  then show ?thesis using head target over typed ids [unfolded canonical_id_def] complete s(1) by blast
qed

definition sample_input :: "(string \<times> jsv) list" where
  "sample_input = [(''ref'', Text ''a/b#7''), (''kind'', Text ''answer''), (''key'', Text ''k1''),
     (''data'', Obj [(''outcome'', Text ''answered''), (''ask'', Text ''0123ABCD-0000-4000-8000-00000000000F'')])]"

definition sample_args :: append_args where
  "sample_args = \<lparr>a_ref = Some ''a/b#7'', a_repo = None, a_kind = ''answer'', a_key = ''k1'', a_text = None,
     a_data = [(''outcome'', Text ''answered''), (''ask'', Text ''0123abcd-0000-4000-8000-00000000000f'')], a_supersedes = None, a_author = None\<rparr>"

lemma sample_validates: "validate_append (\<lambda>_. []) False False (Obj sample_input) = Inr sample_args"
  by code_simp

lemma accepted_append_well_typed_witness:
  "\<exists>a. validate_append (\<lambda>_. []) False False (Obj sample_input) = Inr a \<and> a = sample_args \<and> a_kind a \<in> set RECORD_KINDS
     \<and> js_trim (a_key a) \<noteq> [] \<and> length (a_key a) \<le> 256
     \<and> (\<forall>p \<in> set (a_data a). fst p = ''ask'' \<longrightarrow> uuid_text (text_of (snd p)) \<and> lower (text_of (snd p)) = text_of (snd p))"
proof -
  have "case map_of (kind_fields (a_kind sample_args)) ''ask'' of Some f \<Rightarrow> f_type f = UuidT | None \<Rightarrow> False" by code_simp
  then have "\<exists>f. map_of (kind_fields (a_kind sample_args)) ''ask'' = Some f \<and> f_type f = UuidT" by (simp split: option.splits)
  then show ?thesis using accepted_append_well_typed [OF sample_validates] sample_validates by metis
qed

text \<open>C24: validation is idempotent: the arguments it returns, passed again, are accepted and returned unchanged, so a retry hashes to the same payload.\<close>

theorem validation_is_idempotent:
  assumes "validate_append num importer mirror v = Inr a"
  shows "validate_append num importer mirror (Obj (args_input a)) = Inr a"
proof -
  obtain input where "accepted num importer mirror input" "a = returned input" using assms by (auto simp: validate_Inr)
  then show ?thesis using accepted_again [of num importer mirror input] by (auto simp: validate_Inr)
qed

lemma validation_is_idempotent_witness:
  "validate_append (\<lambda>_. []) False False (Obj (args_input sample_args)) = Inr sample_args"
  by (rule validation_is_idempotent [OF sample_validates])

text \<open>the payload hash does not depend on the order of the data's keys.\<close>

theorem payload_hash_ignores_order:
  assumes "mset (a_data a) = mset (a_data b)" and "distinct (map fst (a_data a))"
    and "a_ref a = a_ref b" "a_repo a = a_repo b" "a_kind a = a_kind b" "a_text a = a_text b" "a_supersedes a = a_supersedes b"
  shows "payload_hash sha num a = payload_hash sha num b"
proof -
  let ?f = "\<lambda>p :: string \<times> jsv. (fst p, canonical (snd p))"
  have "mset (map ?f (a_data a)) = mset (map ?f (a_data b))" using assms(1) by simp
  moreover have "distinct (map fst (map ?f (a_data a)))" using assms(2) by (simp add: o_def)
  ultimately have "sort_keys (map ?f (a_data a)) = sort_keys (map ?f (a_data b))" by (rule sort_keys_perm)
  then show ?thesis using assms(3-7) by (simp add: payload_hash_def payload_text_def)
qed

lemma payload_hash_ignores_order_witness:
  "payload_hash id (\<lambda>_. []) sample_args = payload_hash id (\<lambda>_. []) (sample_args\<lparr>a_data := rev (a_data sample_args)\<rparr>)"
  by (rule payload_hash_ignores_order) (simp_all add: sample_args_def)

text \<open>A field under a name every object inherits is not refused, whatever its value.\<close>

lemma inherited_field_is_accepted:
  "validate_append (\<lambda>_. []) False False (Obj [(''ref'', Text ''a/b#7''), (''kind'', Text ''close''), (''key'', Text ''k''),
     (''data'', Obj [(''constructor'', Bool True)])])
   = Inr \<lparr>a_ref = Some ''a/b#7'', a_repo = None, a_kind = ''close'', a_key = ''k'', a_text = None, a_data = [(''constructor'', Bool True)],
       a_supersedes = None, a_author = None\<rparr>"
  by code_simp

end
