(* ===== verification/Decisions.thy ===== *)
theory Decisions imports Kinds begin

text \<open>
  Pending decisions (\<^verbatim>\<open>src/src/decisions/store.ts\<close>): raising one from untyped arguments, answering, cancelling and
  escalating it, and applying the deadlines that have passed. The store that runs these under a compare-and-swap is in
  \<open>DecisionStore\<close>. The random id and clock readings are arguments; an error is its reason, without its text. A stored
  record has the declared types; only its escalation may be malformed, as \<open>decisionEscalation\<close> checks.
\<close>

section \<open>Records\<close>

datatype kind = Approval | Question | Escalation
datatype input_mode = TextInput | Confirm | Select | Editor
datatype status = Open | Answered | Expired | Cancelled
datatype holder = RootHolder | UserHolder | Supervisor string
datatype on_expire = OnCancel | OnDefault | OnEscalate

record choice =
  c_id :: string
  c_label :: string

record answer =
  an_option :: "string option"
  an_text :: "string option"
  an_by :: string
  an_via :: string
  an_at :: int

record escalation =
  e_chain :: "holder list"
  e_hop :: int
  e_hop_ms :: int
  e_final :: on_expire

datatype reason = DeadlinePassed | Escalated

record passage =
  p_holder :: holder
  p_until :: int
  p_reason :: reason
  p_text :: "string option"
  p_by :: "string option"

record decision =
  d_id :: string
  d_kind :: kind
  d_title :: string
  d_body :: "string option"
  d_options :: "choice list option"
  d_input :: input_mode
  d_participant :: string
  d_run :: "string option"
  d_session :: "string option"
  d_holder :: holder
  d_created :: int
  d_deadline :: "int option"
  d_on_expire :: on_expire
  d_default :: "string option"
  d_escalation :: "escalation option"
  d_history :: "passage list"
  d_status :: status
  d_answer :: "answer option"

datatype refusal = BadText string | BadHolder | BadOptions | BadOptionId | RepeatedOption string | BadEscalation
| UnknownEscalationField string | BadChain | RepeatedHolder | ChainStart | BadHopTimeout | BadFinal | BadKind | BadInput
| NeedsOptions | TakesNoOptions | DeadlineAndTimeout | BadTimeout | BadDeadline | BadOnExpire | NeedsEscalate
| BadDefault | DefaultNeedsDeadline | FinalNeedsDefault | NeedsOptionId | HasNoOptions | NeedsText | NoFurtherHolder
| NotAuthorized

definition MAX_DECISION_TITLE_CHARS :: nat where "MAX_DECISION_TITLE_CHARS = 200"
definition MAX_DECISION_BODY_CHARS :: nat where "MAX_DECISION_BODY_CHARS = 4000"
definition MAX_DECISION_TEXT_CHARS :: nat where "MAX_DECISION_TEXT_CHARS = 4000"
definition MAX_DECISION_OPTIONS :: nat where "MAX_DECISION_OPTIONS = 12"
definition MAX_DECISION_DEADLINE_MS :: int where "MAX_DECISION_DEADLINE_MS = 30 * 24 * 60 * 60 * 1000"
definition MAX_ESCALATION_HOPS :: nat where "MAX_ESCALATION_HOPS = 8"
definition MIN_ESCALATION_HOP_MS :: int where "MIN_ESCALATION_HOP_MS = 1000"
definition MAX_ESCALATION_HOP_MS :: int where "MAX_ESCALATION_HOP_MS = 7 * 24 * 60 * 60 * 1000"
definition DEFAULT_ESCALATION_HOP_MS :: int where "DEFAULT_ESCALATION_HOP_MS = 10 * 60 * 1000"
definition MAX_ESCALATION_REASON_CHARS :: nat where "MAX_ESCALATION_REASON_CHARS = 500"

lemmas decision_bounds = MAX_DECISION_TITLE_CHARS_def MAX_DECISION_BODY_CHARS_def MAX_DECISION_TEXT_CHARS_def
  MAX_DECISION_OPTIONS_def MAX_DECISION_DEADLINE_MS_def MAX_ESCALATION_HOPS_def MIN_ESCALATION_HOP_MS_def
  MAX_ESCALATION_HOP_MS_def DEFAULT_ESCALATION_HOP_MS_def MAX_ESCALATION_REASON_CHARS_def

definition CONFIRM_OPTIONS :: "choice list" where
  "CONFIRM_OPTIONS = [\<lparr>c_id = ''yes'', c_label = ''Yes''\<rparr>, \<lparr>c_id = ''no'', c_label = ''No''\<rparr>]"

section \<open>Reading the arguments of a raise\<close>

definition bounded_text :: "jsv \<Rightarrow> string \<Rightarrow> nat \<Rightarrow> bool \<Rightarrow> refusal + string option" where
  "bounded_text v label most required = (if v = Undef \<and> \<not> required then Inr None
     else (case v of Text s \<Rightarrow>
         if required \<and> js_trim s = [] then Inl (BadText label)
         else if most < length s then Inl (BadText label) else Inr (Some s)
       | _ \<Rightarrow> Inl (BadText label)))"

text \<open>The three patterns: a head that is a letter or digit, then a bounded tail over a few more characters.\<close>

definition pattern_id :: "string \<Rightarrow> nat \<Rightarrow> string \<Rightarrow> bool" where
  "pattern_id extra most s \<longleftrightarrow> s \<noteq> [] \<and> alnum (hd s) \<and> list_all (\<lambda>c. alnum c \<or> c \<in> set extra) (tl s) \<and> length s \<le> Suc most"

definition OPTION_ID :: "string \<Rightarrow> bool" where "OPTION_ID = pattern_id ''._:-'' 63"
definition PARTICIPANT_ID :: "string \<Rightarrow> bool" where "PARTICIPANT_ID = pattern_id ''._:/@-'' 127"

definition DECISION_ID :: "string \<Rightarrow> bool" where
  "DECISION_ID s \<longleftrightarrow> take 4 s = ''dec_'' \<and> 8 \<le> length (drop 4 s) \<and> length (drop 4 s) \<le> 64
     \<and> list_all (\<lambda>c. alnum c \<or> c \<in> set ''_-'') (drop 4 s)"

definition decision_holder_value :: "jsv \<Rightarrow> refusal + holder" where
  "decision_holder_value v = (case v of
     Undef \<Rightarrow> Inr UserHolder
   | Text s \<Rightarrow> if s = ''root'' then Inr RootHolder else if s = ''user'' then Inr UserHolder
       else if take 11 s = ''supervisor:'' \<and> PARTICIPANT_ID (drop 11 s) then Inr (Supervisor (drop 11 s)) else Inl BadHolder
   | _ \<Rightarrow> Inl BadHolder)"

definition option_entry :: "string list \<Rightarrow> jsv \<Rightarrow> refusal + choice" where
  "option_entry seen v = (let fields = (case v of Obj fs \<Rightarrow> fs | _ \<Rightarrow> []) in case get_field fields ''id'' of
     Text i \<Rightarrow> if \<not> OPTION_ID i then Inl BadOptionId else if i \<in> set seen then Inl (RepeatedOption i)
       else bind_e (bounded_text (get_field fields ''label'') ''option label'' MAX_DECISION_TITLE_CHARS True)
         (\<lambda>l. Inr \<lparr>c_id = i, c_label = the l\<rparr>)
   | _ \<Rightarrow> Inl BadOptionId)"

primrec option_entries :: "string list \<Rightarrow> jsv list \<Rightarrow> refusal + choice list" where
  "option_entries seen [] = Inr []"
| "option_entries seen (v # vs) = bind_e (option_entry seen v) (\<lambda>c.
     bind_e (option_entries (seen @ [c_id c]) vs) (\<lambda>cs. Inr (c # cs)))"

definition options_value :: "jsv \<Rightarrow> refusal + choice list option" where
  "options_value v = (case v of
     Undef \<Rightarrow> Inr None
   | Arr vs \<Rightarrow> if vs = [] \<or> MAX_DECISION_OPTIONS < length vs then Inl BadOptions
       else bind_e (option_entries [] vs) (\<lambda>cs. Inr (Some cs))
   | _ \<Rightarrow> Inl BadOptions)"

definition default_escalation_chain :: "holder \<Rightarrow> holder list" where
  "default_escalation_chain h = (case h of UserHolder \<Rightarrow> [UserHolder] | RootHolder \<Rightarrow> [RootHolder, UserHolder]
     | Supervisor _ \<Rightarrow> [h, RootHolder, UserHolder])"

definition nullish :: "jsv \<Rightarrow> jsv \<Rightarrow> jsv" where
  "nullish v d = (if v = Undef \<or> v = Nul then d else v)"

primrec chain_entries :: "jsv list \<Rightarrow> refusal + holder list" where
  "chain_entries [] = Inr []"
| "chain_entries (v # vs) = (if v = Undef then Inl BadChain
     else bind_e (decision_holder_value v) (\<lambda>h. bind_e (chain_entries vs) (\<lambda>hs. Inr (h # hs))))"

definition chain_value :: "jsv \<Rightarrow> holder \<Rightarrow> refusal + holder list" where
  "chain_value v h = (case v of
     Undef \<Rightarrow> Inr (default_escalation_chain h)
   | Arr vs \<Rightarrow> if vs = [] \<or> MAX_ESCALATION_HOPS < length vs then Inl BadChain
       else bind_e (chain_entries vs) (\<lambda>hs. if \<not> distinct hs then Inl RepeatedHolder
         else if hd hs \<noteq> h then Inl ChainStart else Inr hs)
   | _ \<Rightarrow> Inl BadChain)"

definition escalation_value :: "jsv \<Rightarrow> holder \<Rightarrow> refusal + escalation" where
  "escalation_value v h = (case nullish v (Obj []) of
     Obj fs \<Rightarrow> if v = Nul then Inl BadEscalation
       else (case find (\<lambda>p. fst p \<notin> {''chain'', ''hopTimeoutMs'', ''onFinal''}) fs of
         Some p \<Rightarrow> Inl (UnknownEscalationField (fst p))
       | None \<Rightarrow> bind_e (chain_value (get_field fs ''chain'') h) (\<lambda>chain.
           case nullish (get_field fs ''hopTimeoutMs'') (Number (Num (of_int DEFAULT_ESCALATION_HOP_MS))) of
             Number (Num t) \<Rightarrow> if t < of_int MIN_ESCALATION_HOP_MS \<or> of_int MAX_ESCALATION_HOP_MS < t then Inl BadHopTimeout
               else (let f = nullish (get_field fs ''onFinal'') (Text ''cancel'') in
                 if f \<noteq> Text ''cancel'' \<and> f \<noteq> Text ''default'' then Inl BadFinal
                 else Inr \<lparr>e_chain = chain, e_hop = 0, e_hop_ms = \<lfloor>t\<rfloor>,
                   e_final = (if f = Text ''default'' then OnDefault else OnCancel)\<rparr>)
           | _ \<Rightarrow> Inl BadHopTimeout))
   | _ \<Rightarrow> Inl BadEscalation)"

section \<open>Raising\<close>

definition kind_value :: "jsv \<Rightarrow> refusal + kind" where
  "kind_value v = (case nullish v (Text ''question'') of
     Text s \<Rightarrow> if s = ''approval'' then Inr Approval else if s = ''question'' then Inr Question
       else if s = ''escalation'' then Inr Escalation else Inl BadKind
   | _ \<Rightarrow> Inl BadKind)"

definition mode_value :: "jsv \<Rightarrow> choice list option \<Rightarrow> refusal + input_mode" where
  "mode_value v options = (case v of
     Undef \<Rightarrow> Inr (if options = None then TextInput else Select)
   | Text s \<Rightarrow> if s = ''text'' then Inr TextInput else if s = ''confirm'' then Inr Confirm
       else if s = ''select'' then Inr Select else if s = ''editor'' then Inr Editor else Inl BadInput
   | _ \<Rightarrow> Inl BadInput)"

definition mode_options :: "input_mode \<Rightarrow> choice list option \<Rightarrow> refusal + choice list option" where
  "mode_options mode options = (
     let options = (if mode = Confirm \<and> options = None then Some CONFIRM_OPTIONS else options) in
     if mode = Select \<and> options = None then Inl NeedsOptions
     else if (mode = TextInput \<or> mode = Editor) \<and> options \<noteq> None then Inl TakesNoOptions
     else Inr options)"

definition deadline_value :: "jsv \<Rightarrow> jsv \<Rightarrow> int \<Rightarrow> refusal + int option" where
  "deadline_value deadline timeout now = (
     if deadline \<noteq> Undef \<and> timeout \<noteq> Undef then Inl DeadlineAndTimeout
     else if timeout \<noteq> Undef then (case timeout of
         Number (Num t) \<Rightarrow> if t < 1000 \<or> of_int MAX_DECISION_DEADLINE_MS < t then Inl BadTimeout else Inr (Some (now + \<lfloor>t\<rfloor>))
       | _ \<Rightarrow> Inl BadTimeout)
     else if deadline \<noteq> Undef then (case deadline of
         Number (Num t) \<Rightarrow> if t \<le> of_int now \<or> of_int (now + MAX_DECISION_DEADLINE_MS) < t then Inl BadDeadline else Inr (Some \<lfloor>t\<rfloor>)
       | _ \<Rightarrow> Inl BadDeadline)
     else Inr None)"

definition on_expire_value :: "jsv \<Rightarrow> refusal + on_expire" where
  "on_expire_value v = (case nullish v (Text ''cancel'') of
     Text s \<Rightarrow> if s = ''cancel'' then Inr OnCancel else if s = ''default'' then Inr OnDefault
       else if s = ''escalate'' then Inr OnEscalate else Inl BadOnExpire
   | _ \<Rightarrow> Inl BadOnExpire)"

definition has_option :: "choice list option \<Rightarrow> string \<Rightarrow> bool" where
  "has_option options i \<longleftrightarrow> (case options of None \<Rightarrow> False | Some cs \<Rightarrow> i \<in> set (map c_id cs))"

definition default_value :: "jsv \<Rightarrow> choice list option \<Rightarrow> refusal + string option" where
  "default_value v options = (case v of
     Undef \<Rightarrow> Inr None
   | Text i \<Rightarrow> if has_option options i then Inr (Some i) else Inl BadDefault
   | _ \<Rightarrow> Inl BadDefault)"

definition raise_escalation :: "on_expire \<Rightarrow> jsv \<Rightarrow> holder \<Rightarrow> refusal + escalation option" where
  "raise_escalation x v h = (if x \<noteq> OnEscalate \<and> v \<noteq> Undef then Inl NeedsEscalate
     else if x = OnEscalate then bind_e (escalation_value v h) (\<lambda>e. Inr (Some e)) else Inr None)"

text \<open>\<open>buildDecisionRecord\<close>: \<open>new_id\<close> stands for the random id, \<open>who\<close> for the raiser.\<close>

definition build_decision_record ::
    "(string \<times> jsv) list \<Rightarrow> string \<times> string option \<times> string option \<Rightarrow> int \<Rightarrow> string \<Rightarrow> refusal + decision" where
  "build_decision_record input who now new_id = (let arg = get_field input in
     bind_e (kind_value (arg ''kind'')) (\<lambda>kind.
     bind_e (bounded_text (arg ''title'') ''title'' MAX_DECISION_TITLE_CHARS True) (\<lambda>title.
     bind_e (bounded_text (arg ''body'') ''body'' MAX_DECISION_BODY_CHARS False) (\<lambda>body.
     bind_e (options_value (arg ''options'')) (\<lambda>options.
     bind_e (mode_value (arg ''input'') options) (\<lambda>mode.
     bind_e (mode_options mode options) (\<lambda>options.
     bind_e (deadline_value (arg ''deadline'') (arg ''timeoutMs'') now) (\<lambda>deadline.
     bind_e (on_expire_value (arg ''onExpire'')) (\<lambda>expire.
     bind_e (decision_holder_value (arg ''holder'')) (\<lambda>holder.
     bind_e (raise_escalation expire (arg ''escalation'') holder) (\<lambda>escalation.
     let deadline = (case (escalation, deadline) of (Some e, None) \<Rightarrow> Some (now + e_hop_ms e) | _ \<Rightarrow> deadline) in
     bind_e (default_value (arg ''defaultOptionId'') options) (\<lambda>default.
     if expire = OnDefault \<and> (default = None \<or> deadline = None) then Inl DefaultNeedsDeadline
     else if (case escalation of None \<Rightarrow> False | Some e \<Rightarrow> e_final e = OnDefault) \<and> default = None then Inl FinalNeedsDefault
     else Inr \<lparr>d_id = new_id, d_kind = kind, d_title = the title, d_body = body, d_options = options, d_input = mode,
       d_participant = fst who, d_run = fst (snd who), d_session = snd (snd who), d_holder = holder, d_created = now,
       d_deadline = deadline, d_on_expire = expire, d_default = default, d_escalation = escalation,
       d_history = [], d_status = Open, d_answer = None\<rparr>))))))))))))"

section \<open>Deadlines\<close>

definition decision_escalation :: "decision \<Rightarrow> escalation option" where
  "decision_escalation r = (case (if d_on_expire r = OnEscalate then d_escalation r else None) of
     None \<Rightarrow> None
   | Some e \<Rightarrow> if e_chain e = [] \<or> MAX_ESCALATION_HOPS < length (e_chain e) \<or> e_hop e < 0
         \<or> int (length (e_chain e)) \<le> e_hop e \<or> \<not> MIN_ESCALATION_HOP_MS \<le> e_hop_ms e then None else Some e)"

text \<open>The loop over the hops whose deadline has passed: hop, holder, deadline and the history so far.\<close>

function elapsed_hops :: "holder list \<Rightarrow> int \<Rightarrow> int \<Rightarrow> nat \<Rightarrow> holder \<Rightarrow> int \<Rightarrow> passage list
    \<Rightarrow> nat \<times> holder \<times> int \<times> passage list" where
  "elapsed_hops chain ms now hop h deadline history =
     (if deadline \<le> now \<and> hop + 1 < length chain
      then elapsed_hops chain ms now (hop + 1) (chain ! (hop + 1)) (deadline + ms)
        (history @ [\<lparr>p_holder = h, p_until = deadline, p_reason = DeadlinePassed, p_text = None, p_by = None\<rparr>])
      else (hop, h, deadline, history))"
  by pat_completeness auto
termination by (relation "measure (\<lambda>(chain, ms, now, hop, h, deadline, history). length chain - hop)") auto

declare elapsed_hops.simps [simp del]

definition expire_record :: "on_expire \<Rightarrow> decision \<Rightarrow> int \<Rightarrow> decision" where
  "expire_record x r now = r\<lparr>d_status := Expired, d_answer := (if x = OnDefault \<and> d_default r \<noteq> None \<and> d_default r \<noteq> Some []
     then Some \<lparr>an_option = d_default r, an_text = None, an_by = ''deadline'', an_via = ''expiry'', an_at = now\<rparr> else d_answer r)\<rparr>"

definition due :: "decision \<Rightarrow> int \<Rightarrow> bool" where
  "due r now \<longleftrightarrow> d_status r = Open \<and> (case d_deadline r of None \<Rightarrow> False | Some d \<Rightarrow> d \<le> now)"

definition apply_decision_deadline :: "decision \<Rightarrow> int \<Rightarrow> decision" where
  "apply_decision_deadline r now = (if \<not> due r now then r
     else (case decision_escalation r of
       None \<Rightarrow> expire_record (if d_on_expire r = OnDefault then OnDefault else OnCancel) r now
     | Some e \<Rightarrow> (let (hop, h, d, history) =
           elapsed_hops (e_chain e) (e_hop_ms e) now (nat (e_hop e)) (d_holder r) (the (d_deadline r)) (d_history r);
         r' = r\<lparr>d_holder := h, d_deadline := Some d, d_escalation := Some (e\<lparr>e_hop := int hop\<rparr>), d_history := history\<rparr> in
         if now < d then r' else expire_record (e_final e) r' now)))"

definition decision_hop_label :: "decision \<Rightarrow> (int \<times> nat) option" where
  "decision_hop_label r = map_option (\<lambda>e. (e_hop e + 1, length (e_chain e))) (decision_escalation r)"

section \<open>Answer, cancel, escalate\<close>

text \<open>\<open>id\<close> and text of a validated answer.\<close>

definition validate_decision_answer :: "decision \<Rightarrow> jsv \<Rightarrow> jsv \<Rightarrow> refusal + (string option \<times> string option)" where
  "validate_decision_answer r option_id txt = bind_e (bounded_text txt ''answer text'' MAX_DECISION_TEXT_CHARS False) (\<lambda>t.
     case d_options r of
       Some cs \<Rightarrow> (case option_id of
           Text i \<Rightarrow> if i \<in> set (map c_id cs) then Inr (Some i, t) else Inl NeedsOptionId
         | _ \<Rightarrow> Inl NeedsOptionId)
     | None \<Rightarrow> if option_id \<noteq> Undef then Inl HasNoOptions else if t = None then Inl NeedsText else Inr (None, t))"

definition authorized :: "(decision \<Rightarrow> bool) \<Rightarrow> decision \<Rightarrow> refusal + decision" where
  "authorized allow r = (if allow r then Inr r else Inl NotAuthorized)"

text \<open>What a transition makes of the open record it read; the escalation's reason is checked before.\<close>

datatype action =
  Answer jsv jsv string string
| Cancel string string
| Escalate "string option" string

definition next_record :: "action \<Rightarrow> (decision \<Rightarrow> bool) \<Rightarrow> int \<Rightarrow> decision \<Rightarrow> refusal + decision" where
  "next_record a allow now r = bind_e (authorized allow r) (\<lambda>r. case a of
     Answer option_id txt by' via \<Rightarrow> bind_e (validate_decision_answer r option_id txt) (\<lambda>(i, t).
       Inr (r\<lparr>d_status := Answered, d_answer := Some \<lparr>an_option = i, an_text = t, an_by = by', an_via = via, an_at = now\<rparr>\<rparr>))
   | Cancel by' via \<Rightarrow> Inr (r\<lparr>d_status := Cancelled,
       d_answer := Some \<lparr>an_option = None, an_text = None, an_by = by', an_via = via, an_at = now\<rparr>\<rparr>)
   | Escalate txt by' \<Rightarrow> (case decision_escalation r of
         None \<Rightarrow> Inl NoFurtherHolder
       | Some e \<Rightarrow> if int (length (e_chain e)) \<le> e_hop e + 1 then Inl NoFurtherHolder
           else Inr (r\<lparr>d_holder := e_chain e ! nat (e_hop e + 1), d_deadline := Some (now + e_hop_ms e),
             d_escalation := Some (e\<lparr>e_hop := e_hop e + 1\<rparr>),
             d_history := d_history r @ [\<lparr>p_holder = d_holder r, p_until = now, p_reason = Escalated, p_text = txt, p_by = Some by'\<rparr>]\<rparr>)))"

definition escalate_action :: "jsv \<Rightarrow> string \<Rightarrow> refusal + action" where
  "escalate_action v by' = bind_e (bounded_text v ''escalation reason'' MAX_ESCALATION_REASON_CHARS False)
     (\<lambda>txt. Inr (Escalate txt by'))"

section \<open>The hops of a passed deadline\<close>

lemma elapsed_stop:
  "now < d \<or> length chain \<le> hop + 1 \<Longrightarrow> elapsed_hops chain ms now hop h d hist = (hop, h, d, hist)"
  by (subst elapsed_hops.simps) auto

lemma elapsed_turn:
  "d \<le> now \<Longrightarrow> hop + 1 < length chain \<Longrightarrow> elapsed_hops chain ms now hop h d hist
     = elapsed_hops chain ms now (hop + 1) (chain ! (hop + 1)) (d + ms)
         (hist @ [\<lparr>p_holder = h, p_until = d, p_reason = DeadlinePassed, p_text = None, p_by = None\<rparr>])"
  by (subst elapsed_hops.simps) simp

text \<open>Reading twice is reading once, later.\<close>

lemma elapsed_twice:
  assumes "t1 \<le> t2" and "elapsed_hops chain ms t1 hop h d hist = (hop', h', d', hist')"
  shows "elapsed_hops chain ms t2 hop' h' d' hist' = elapsed_hops chain ms t2 hop h d hist"
  using assms
proof (induction chain ms t1 hop h d hist rule: elapsed_hops.induct)
  case (1 chain ms t1 hop h d hist)
  show ?case
  proof (cases "d \<le> t1 \<and> hop + 1 < length chain")
    case True
    then show ?thesis using 1 by (simp add: elapsed_turn)
  next
    case False
    then have "t1 < d \<or> length chain \<le> hop + 1" by linarith
    then show ?thesis using "1.prems" by (simp add: elapsed_stop)
  qed
qed

text \<open>The passages of hops \<open>hop..<hop + k\<close>, each until one timeout later.\<close>

lemma elapsed_closed:
  assumes "0 < ms" and "hop < length chain"
  shows "elapsed_hops chain ms now hop h d hist = (let k = (if now < d then 0 else min (length chain - 1 - hop) (nat ((now - d) div ms) + 1)) in
    (hop + k, (if k = 0 then h else chain ! (hop + k)), d + int k * ms,
     hist @ map (\<lambda>j. \<lparr>p_holder = (if j = 0 then h else chain ! (hop + j)), p_until = d + int j * ms, p_reason = DeadlinePassed,
       p_text = None, p_by = None\<rparr>) [0..<k]))"
  using assms
proof (induction "length chain - hop" arbitrary: hop h d hist)
  case 0 then show ?case by simp
next
  case (Suc m)
  show ?case
  proof (cases "d \<le> now \<and> hop + 1 < length chain")
    case False
    then have "now < d \<or> length chain - 1 - hop = 0" using Suc.prems by linarith
    then show ?thesis using False by (auto simp: elapsed_stop Let_def)
  next
    case True
    define q where "q = nat ((now - d) div ms)"
    have q: "now < d + ms \<longleftrightarrow> q = 0" "d + ms \<le> now \<Longrightarrow> nat ((now - (d + ms)) div ms) + 1 = q"
    proof -
      show "now < d + ms \<longleftrightarrow> q = 0" using True Suc.prems(1)
        pos_imp_zdiv_pos_iff [of ms "now - d"] by (auto simp: q_def)
      have e: "now - (d + ms) = (now - d) - ms" by simp
      show "nat ((now - (d + ms)) div ms) + 1 = q" if "d + ms \<le> now"
      proof -
        have "(now - d) div ms = (now - (d + ms)) div ms + 1" using Suc.prems(1) div_add_self2 [of ms "now - d - ms"] by (simp add: e)
        moreover have "0 \<le> (now - (d + ms)) div ms" using that Suc.prems(1) by (simp add: pos_imp_zdiv_nonneg_iff)
        ultimately show ?thesis unfolding q_def by simp
      qed
    qed
    have IH: "elapsed_hops chain ms now (hop + 1) h' (d + ms) hist' = (let k = (if now < d + ms then 0 else min (length chain - 1 - (hop + 1)) (nat ((now - (d + ms)) div ms) + 1)) in
    (hop + 1 + k, (if k = 0 then h' else chain ! (hop + 1 + k)), d + ms + int k * ms,
     hist' @ map (\<lambda>j. \<lparr>p_holder = (if j = 0 then h' else chain ! (hop + 1 + j)), p_until = d + ms + int j * ms, p_reason = DeadlinePassed,
       p_text = None, p_by = None\<rparr>) [0..<k]))" for h' hist'
      by (rule Suc.hyps(1)) (use Suc.hyps(2) Suc.prems True in simp_all)
    define k where "k = (if now < d + ms then 0 else min (length chain - 1 - (hop + 1)) q)"
    have k: "min (length chain - 1 - hop) (q + 1) = Suc k" "(if now < d + ms then 0 else min (length chain - 1 - (hop + 1)) (nat ((now - (d + ms)) div ms) + 1)) = k"
      using q True by (auto simp: k_def)
    have u: "[0..<Suc k] = 0 # map Suc [0..<k]" by (simp add: upt_conv_Cons map_Suc_upt del: upt_Suc)
    show ?thesis using True unfolding elapsed_turn [OF conjunct1 [OF True] conjunct2 [OF True]] IH k(2)
      by (simp add: Let_def k(1) [simplified] q_def [symmetric] u o_def algebra_simps del: upt_Suc)
  qed
qed

section \<open>What a decision keeps\<close>

definition escalation_valid :: "escalation \<Rightarrow> bool" where
  "escalation_valid e \<longleftrightarrow> e_chain e \<noteq> [] \<and> length (e_chain e) \<le> MAX_ESCALATION_HOPS \<and> distinct (e_chain e)
     \<and> 0 \<le> e_hop e \<and> e_hop e < int (length (e_chain e))
     \<and> MIN_ESCALATION_HOP_MS \<le> e_hop_ms e \<and> e_hop_ms e \<le> MAX_ESCALATION_HOP_MS"

definition options_valid :: "choice list option \<Rightarrow> bool" where
  "options_valid options \<longleftrightarrow> (case options of None \<Rightarrow> True
     | Some cs \<Rightarrow> cs \<noteq> [] \<and> length cs \<le> MAX_DECISION_OPTIONS \<and> distinct (map c_id cs) \<and> list_all OPTION_ID (map c_id cs))"

definition answer_valid :: "decision \<Rightarrow> answer \<Rightarrow> bool" where
  "answer_valid r a \<longleftrightarrow> (case d_options r of Some cs \<Rightarrow> (\<exists>i \<in> set (map c_id cs). an_option a = Some i)
     | None \<Rightarrow> an_option a = None \<and> an_text a \<noteq> None)
     \<and> (\<forall>t. an_text a = Some t \<longrightarrow> length t \<le> MAX_DECISION_TEXT_CHARS)"

definition outcome_valid :: "decision \<Rightarrow> bool" where
  "outcome_valid r \<longleftrightarrow> (case d_status r of
     Open \<Rightarrow> d_answer r = None
   | Answered \<Rightarrow> (\<exists>a. d_answer r = Some a \<and> answer_valid r a)
   | Cancelled \<Rightarrow> (\<exists>a. d_answer r = Some a \<and> an_option a = None \<and> an_text a = None)
   | Expired \<Rightarrow> (if d_on_expire r = OnDefault \<or> (\<exists>e. d_escalation r = Some e \<and> e_final e = OnDefault)
       then \<exists>a. d_answer r = Some a \<and> an_option a = d_default r \<and> d_default r \<noteq> None else d_answer r = None))"

definition decision_valid :: "decision \<Rightarrow> bool" where
  "decision_valid r \<longleftrightarrow> js_trim (d_title r) \<noteq> [] \<and> length (d_title r) \<le> MAX_DECISION_TITLE_CHARS
     \<and> options_valid (d_options r) \<and> (d_options r \<noteq> None \<longleftrightarrow> d_input r = Confirm \<or> d_input r = Select)
     \<and> (\<forall>i. d_default r = Some i \<longrightarrow> has_option (d_options r) i)
     \<and> (d_on_expire r = OnDefault \<longrightarrow> d_default r \<noteq> None \<and> d_deadline r \<noteq> None)
     \<and> (d_on_expire r = OnEscalate \<longleftrightarrow> d_escalation r \<noteq> None)
     \<and> (d_escalation r = None \<longrightarrow> d_history r = [])
     \<and> (\<forall>e. d_escalation r = Some e \<longrightarrow> escalation_valid e \<and> d_deadline r \<noteq> None
          \<and> d_holder r = e_chain e ! nat (e_hop e) \<and> map p_holder (d_history r) = take (nat (e_hop e)) (e_chain e)
          \<and> (e_final e = OnDefault \<longrightarrow> d_default r \<noteq> None))
     \<and> outcome_valid r"

text \<open>The records a decision goes through.\<close>

inductive lived :: "decision \<Rightarrow> bool" where
  Raised: "build_decision_record input who now new_id = Inr r \<Longrightarrow> lived r"
| Passed: "lived r \<Longrightarrow> lived (apply_decision_deadline r now)"
| Acted: "lived r \<Longrightarrow> d_status r = Open \<Longrightarrow> next_record a allow now r = Inr r' \<Longrightarrow> lived r'"

lemma bounded_text_Inr:
  "bounded_text v l n q = Inr t \<Longrightarrow> (q \<longrightarrow> (\<exists>s. t = Some s \<and> js_trim s \<noteq> [])) \<and> (\<forall>s. t = Some s \<longrightarrow> length s \<le> n)"
  by (auto simp: bounded_text_def split: if_splits jsv.splits)

lemma option_entries_Inr:
  "option_entries seen vs = Inr cs \<Longrightarrow> length cs = length vs \<and> distinct (map c_id cs) \<and> set (map c_id cs) \<inter> set seen = {}
     \<and> list_all OPTION_ID (map c_id cs)"
proof (induction vs arbitrary: seen cs)
  case (Cons v vs)
  then obtain c cs' where c: "option_entry seen v = Inr c" "option_entries (seen @ [c_id c]) vs = Inr cs'" "cs = c # cs'"
    by (auto simp: bind_e_Inr)
  have "OPTION_ID (c_id c) \<and> c_id c \<notin> set seen"
    using c(1) by (auto simp: option_entry_def Let_def bind_e_Inr split: jsv.splits if_splits)
  then show ?case using Cons.IH [OF c(2)] c(3) by auto
qed simp

lemma options_value_Inr: "options_value v = Inr options \<Longrightarrow> options_valid options"
  by (auto simp: options_value_def options_valid_def bind_e_Inr dest!: option_entries_Inr split: jsv.splits if_splits)

lemma confirm_valid: "options_valid (Some CONFIRM_OPTIONS)"
  by code_simp

lemma mode_options_Inr:
  assumes "mode_options mode options = Inr options'" and "options_valid options"
  shows "options_valid options' \<and> (options' \<noteq> None \<longleftrightarrow> mode = Confirm \<or> mode = Select)"
  using assms confirm_valid by (cases mode) (auto simp: mode_options_def Let_def split: if_splits)

lemma chain_value_Inr: "chain_value v h = Inr chain \<Longrightarrow> chain \<noteq> [] \<and> length chain \<le> MAX_ESCALATION_HOPS \<and> distinct chain \<and> hd chain = h"
proof -
  assume c: "chain_value v h = Inr chain"
  have e: "chain_entries vs = Inr hs \<Longrightarrow> length hs = length vs" for vs hs
    by (induction vs arbitrary: hs) (auto simp: bind_e_Inr split: if_splits)
  show ?thesis
  proof (cases v)
    case Undef then show ?thesis using c
      by (cases h) (auto simp: chain_value_def default_escalation_chain_def decision_bounds)
  next
    case (Arr vs)
    then obtain hs where hs: "chain_entries vs = Inr hs" and n: "vs \<noteq> []" "length vs \<le> MAX_ESCALATION_HOPS"
      and r: "(if \<not> distinct hs then Inl RepeatedHolder else if hd hs \<noteq> h then Inl ChainStart else Inr hs) = Inr chain"
      using c by (auto simp: chain_value_def bind_e_Inr not_less split: if_split_asm)
    from r have "chain = hs" "distinct hs" "hd hs = h" by (auto split: if_split_asm)
    then show ?thesis using n e [OF hs] by auto
  qed (use c in \<open>simp_all add: chain_value_def\<close>)
qed

lemma escalation_value_Inr:
  assumes "escalation_value v h = Inr e"
  shows "escalation_valid e \<and> e_hop e = 0 \<and> e_chain e ! 0 = h"
proof -
  obtain fs where fs: "nullish v (Obj []) = Obj fs" using assms by (auto simp: escalation_value_def split: jsv.splits)
  define final where "final = nullish (get_field fs ''onFinal'') (Text ''cancel'')"
  obtain chain where c: "chain_value (get_field fs ''chain'') h = Inr chain"
    and k: "(case nullish (get_field fs ''hopTimeoutMs'') (Number (Num (of_int DEFAULT_ESCALATION_HOP_MS))) of
             Number (Num t) \<Rightarrow> if t < of_int MIN_ESCALATION_HOP_MS \<or> of_int MAX_ESCALATION_HOP_MS < t then Inl BadHopTimeout
               else (if final \<noteq> Text ''cancel'' \<and> final \<noteq> Text ''default'' then Inl BadFinal
                 else Inr \<lparr>e_chain = chain, e_hop = 0, e_hop_ms = \<lfloor>t\<rfloor>,
                   e_final = (if final = Text ''default'' then OnDefault else OnCancel)\<rparr>)
           | _ \<Rightarrow> Inl BadHopTimeout) = Inr e"
    using assms unfolding escalation_value_def fs Let_def final_def [symmetric] jsv.case
    by (auto simp: bind_e_Inr split: if_split_asm option.splits)
  obtain t where t: "nullish (get_field fs ''hopTimeoutMs'') (Number (Num (of_int DEFAULT_ESCALATION_HOP_MS))) = Number (Num t)"
    using k by (auto split: jsv.splits jsnum.splits)
  from k have "e_chain e = chain" "e_hop e = 0" "e_hop_ms e = \<lfloor>t\<rfloor>" "of_int MIN_ESCALATION_HOP_MS \<le> t" "t \<le> of_int MAX_ESCALATION_HOP_MS"
    unfolding t by (auto simp: not_less split: if_split_asm)
  then show ?thesis using chain_value_Inr [OF c]
    by (auto simp: escalation_valid_def hd_conv_nth le_floor_iff floor_le_iff)
qed

lemma deadline_value_some: "deadline_value d t now = Inr x \<Longrightarrow> (x = None) = (d = Undef \<and> t = Undef)"
  by (auto simp: deadline_value_def split: jsv.splits jsnum.splits if_splits)

lemma built_shape:
  assumes "build_decision_record input who now new_id = Inr r"
  shows "\<exists>options. options_valid options \<and> mode_options (d_input r) options = Inr (d_options r)
    \<and> bounded_text (get_field input ''title'') ''title'' MAX_DECISION_TITLE_CHARS True = Inr (Some (d_title r))
    \<and> raise_escalation (d_on_expire r) (get_field input ''escalation'') (d_holder r) = Inr (d_escalation r)
    \<and> (d_escalation r \<noteq> None \<longrightarrow> d_deadline r \<noteq> None)
    \<and> default_value (get_field input ''defaultOptionId'') (d_options r) = Inr (d_default r)
    \<and> (d_on_expire r = OnDefault \<longrightarrow> d_default r \<noteq> None \<and> d_deadline r \<noteq> None)
    \<and> (\<forall>e. d_escalation r = Some e \<and> e_final e = OnDefault \<longrightarrow> d_default r \<noteq> None)
    \<and> d_history r = [] \<and> d_status r = Open \<and> d_answer r = None"
proof -
  let ?arg = "get_field input"
  obtain kind title body options mode options' deadline expire holder escalation default where
    p: "bounded_text (?arg ''title'') ''title'' MAX_DECISION_TITLE_CHARS True = Inr title"
      "options_value (?arg ''options'') = Inr options" "mode_options mode options = Inr options'"
      "raise_escalation expire (?arg ''escalation'') holder = Inr escalation"
      "default_value (?arg ''defaultOptionId'') options' = Inr default"
    and k: "(let deadline = (case (escalation, deadline) of (Some e, None) \<Rightarrow> Some (now + e_hop_ms e) | _ \<Rightarrow> deadline) in
       if expire = OnDefault \<and> (default = None \<or> deadline = None) then Inl DefaultNeedsDeadline
       else if (case escalation of None \<Rightarrow> False | Some e \<Rightarrow> e_final e = OnDefault) \<and> default = None then Inl FinalNeedsDefault
       else Inr \<lparr>d_id = new_id, d_kind = kind, d_title = the title, d_body = body, d_options = options', d_input = mode,
         d_participant = fst who, d_run = fst (snd who), d_session = snd (snd who), d_holder = holder, d_created = now,
         d_deadline = deadline, d_on_expire = expire, d_default = default, d_escalation = escalation,
         d_history = [], d_status = Open, d_answer = None\<rparr>) = Inr r"
    using assms unfolding build_decision_record_def Let_def bind_e_Inr by blast
  obtain t where t: "title = Some t" using bounded_text_Inr [OF p(1)] by auto
  have e: "escalation \<noteq> None \<longrightarrow> (case (escalation, deadline) of (Some e, None) \<Rightarrow> Some (now + e_hop_ms e) | _ \<Rightarrow> deadline) \<noteq> None"
    by (auto split: option.splits)
  show ?thesis using k p t e options_value_Inr [OF p(2)] unfolding Let_def
    by (auto split: if_split_asm option.splits)
qed

lemma built_valid:
  assumes "build_decision_record input who now new_id = Inr r"
  shows "decision_valid r"
proof -
  obtain options where b: "options_valid options" "mode_options (d_input r) options = Inr (d_options r)"
    "bounded_text (get_field input ''title'') ''title'' MAX_DECISION_TITLE_CHARS True = Inr (Some (d_title r))"
    "raise_escalation (d_on_expire r) (get_field input ''escalation'') (d_holder r) = Inr (d_escalation r)"
    "d_escalation r \<noteq> None \<longrightarrow> d_deadline r \<noteq> None"
    "default_value (get_field input ''defaultOptionId'') (d_options r) = Inr (d_default r)"
    "d_on_expire r = OnDefault \<longrightarrow> d_default r \<noteq> None \<and> d_deadline r \<noteq> None"
    "\<forall>e. d_escalation r = Some e \<and> e_final e = OnDefault \<longrightarrow> d_default r \<noteq> None"
    "d_history r = []" "d_status r = Open" "d_answer r = None"
    using built_shape [OF assms] by blast
  have e: "escalation_valid e \<and> e_hop e = 0 \<and> e_chain e ! 0 = d_holder r" if "d_escalation r = Some e" for e
    using b(4) that escalation_value_Inr by (auto simp: raise_escalation_def bind_e_Inr split: if_split_asm)
  moreover have "d_on_expire r = OnEscalate \<longleftrightarrow> d_escalation r \<noteq> None"
    using b(4) by (auto simp: raise_escalation_def bind_e_Inr dest: sym split: if_split_asm)
  moreover have "\<forall>i. d_default r = Some i \<longrightarrow> has_option (d_options r) i"
    using b(6) by (auto simp: default_value_def split: jsv.splits if_splits)
  ultimately show ?thesis
    using b mode_options_Inr [OF b(2,1)] bounded_text_Inr [OF b(3)]
    by (auto simp: decision_valid_def outcome_valid_def)
qed

lemma valid_escalation:
  assumes "decision_valid r" and "d_escalation r = Some e"
  shows "decision_escalation r = Some e"
  using assms by (auto simp: decision_escalation_def decision_valid_def escalation_valid_def split: option.splits)

lemma decision_escalation_Some:
  "decision_escalation r = Some e \<Longrightarrow> d_escalation r = Some e \<and> d_on_expire r = OnEscalate"
  by (auto simp: decision_escalation_def split: if_splits option.splits)

text \<open>A valid record moved to a later hop of its chain.\<close>

lemma moved_valid:
  assumes v: "decision_valid r" and e: "d_escalation r = Some e" and s: "d_status r = Open"
    and hop: "hop < length (e_chain e)" and h: "map p_holder hist = take hop (e_chain e)"
    and r': "r' = r\<lparr>d_holder := e_chain e ! hop, d_deadline := Some d, d_escalation := Some (e\<lparr>e_hop := int hop\<rparr>), d_history := hist\<rparr>"
  shows "decision_valid r'"
  using v e s hop h by (simp add: r' decision_valid_def escalation_valid_def outcome_valid_def)

lemma zdiv_less: "0 < m \<Longrightarrow> x div m < j \<longleftrightarrow> x < j * m" for x m j :: int
proof
  assume m: "0 < m"
  have x: "x = (x div m) * m + x mod m" "0 \<le> x mod m" "x mod m < m" using m by simp_all
  show "x < j * m" if "x div m < j"
  proof -
    have "(x div m + 1) * m \<le> j * m" using that m by (intro mult_right_mono) auto
    then have "(x div m) * m + m \<le> j * m" by (simp only: distrib_right mult_1)
    with x show ?thesis by linarith
  qed
  show "x div m < j" if "x < j * m"
  proof (rule ccontr)
    assume "\<not> x div m < j"
    then have "j * m \<le> (x div m) * m" using m by (intro mult_right_mono) auto
    with x that show False by linarith
  qed
qed

text \<open>Where a due escalating record lands: \<open>k\<close> hops on, and expired when the chain has no hop left for the time.\<close>

lemma due_lands:
  assumes e: "decision_escalation r = Some e" and d: "due r now" and dl: "d_deadline r = Some d"
  defines "hops \<equiv> nat ((now - d) div e_hop_ms e) + 1"
  defines "k \<equiv> min (length (e_chain e) - 1 - nat (e_hop e)) hops"
  shows "\<exists>hist r'. map p_holder hist = map p_holder (d_history r) @ map (\<lambda>j. if j = 0 then d_holder r else e_chain e ! (nat (e_hop e) + j)) [0..<k]
    \<and> r' = r\<lparr>d_holder := (if k = 0 then d_holder r else e_chain e ! (nat (e_hop e) + k)), d_deadline := Some (d + int k * e_hop_ms e),
        d_escalation := Some (e\<lparr>e_hop := int (nat (e_hop e) + k)\<rparr>), d_history := hist\<rparr>
    \<and> apply_decision_deadline r now = (if hops \<le> length (e_chain e) - 1 - nat (e_hop e) then r' else expire_record (e_final e) r' now)"
proof -
  have v: "0 < e_hop_ms e" "nat (e_hop e) < length (e_chain e)"
    using e by (auto simp: decision_escalation_def decision_bounds split: if_splits option.splits)
  have dd: "d \<le> now" using d dl by (simp add: due_def)
  have b: "now < d + int k * e_hop_ms e \<longleftrightarrow> hops \<le> length (e_chain e) - 1 - nat (e_hop e)"
  proof -
    have q: "int (nat ((now - d) div e_hop_ms e)) = (now - d) div e_hop_ms e" using dd v by (simp add: pos_imp_zdiv_nonneg_iff)
    have "now < d + int j * e_hop_ms e \<longleftrightarrow> hops \<le> j" for j
    proof -
      have "now < d + int j * e_hop_ms e \<longleftrightarrow> (now - d) div e_hop_ms e < int j"
        using v(1) by (simp add: zdiv_less less_diff_eq algebra_simps)
      also have "\<dots> \<longleftrightarrow> nat ((now - d) div e_hop_ms e) < j" using q by linarith
      finally show ?thesis by (simp add: hops_def Suc_le_eq)
    qed
    then show ?thesis by (simp add: k_def min_def) 
  qed
  define f where "f = (\<lambda>j. if j = 0 then d_holder r else e_chain e ! (nat (e_hop e) + j))"
  define added where "added = map (\<lambda>j. \<lparr>p_holder = f j, p_until = d + int j * e_hop_ms e, p_reason = DeadlinePassed,
       p_text = None, p_by = None\<rparr>) [0..<k]"
  have el: "elapsed_hops (e_chain e) (e_hop_ms e) now (nat (e_hop e)) (d_holder r) d (d_history r)
    = (nat (e_hop e) + k, f k, d + int k * e_hop_ms e, d_history r @ added)"
    unfolding elapsed_closed [OF v] using dd by (simp only: Let_def k_def hops_def f_def added_def not_less [symmetric] if_False)
  have "map p_holder added = map f [0..<k]" by (simp add: added_def o_def)
  moreover have "apply_decision_deadline r now = (let r' = r\<lparr>d_holder := f k, d_deadline := Some (d + int k * e_hop_ms e),
        d_escalation := Some (e\<lparr>e_hop := int (nat (e_hop e) + k)\<rparr>), d_history := d_history r @ added\<rparr> in
      if now < d + int k * e_hop_ms e then r' else expire_record (e_final e) r' now)"
    using d by (simp only: apply_decision_deadline_def e dl option.case option.sel el Let_def prod.case not_True_eq_False if_False)
  ultimately show ?thesis unfolding f_def [symmetric] b Let_def
    by (intro exI [of _ "d_history r @ added"] exI conjI) (simp_all add: f_def)
qed

lemma default_nonempty: "decision_valid r \<Longrightarrow> d_default r \<noteq> Some []"
proof
  assume v: "decision_valid r" and "d_default r = Some []"
  then have "has_option (d_options r) []" "options_valid (d_options r)" by (simp_all add: decision_valid_def)
  then show False by (cases "d_options r") (auto simp: has_option_def options_valid_def list_all_iff OPTION_ID_def pattern_id_def)
qed

lemma expire_valid:
  assumes v: "decision_valid r" and s: "d_status r = Open"
    and x: "x = OnDefault \<longleftrightarrow> d_on_expire r = OnDefault \<or> (\<exists>e. d_escalation r = Some e \<and> e_final e = OnDefault)"
  shows "decision_valid (expire_record x r now)"
proof -
  have "x = OnDefault \<Longrightarrow> d_default r \<noteq> None" using v x by (auto simp: decision_valid_def)
  moreover have "d_answer r = None" using v s by (simp add: decision_valid_def outcome_valid_def)
  ultimately have "outcome_valid (expire_record x r now)"
    using x default_nonempty [OF v] by (auto simp: outcome_valid_def expire_record_def)
  then show ?thesis using v by (simp add: decision_valid_def expire_record_def)
qed

lemma take_more: "n + k \<le> length xs \<Longrightarrow> take n xs @ map (\<lambda>j. xs ! (n + j)) [0..<k] = take (n + k) xs"
proof (induction k)
  case (Suc k)
  then show ?case by (simp add: take_Suc_conv_app_nth [of "n + k" xs] flip: append_assoc)
qed simp

lemma deadline_valid:
  assumes v: "decision_valid r"
  shows "decision_valid (apply_decision_deadline r now)"
proof (cases "due r now")
  case False then show ?thesis using v by (simp add: apply_decision_deadline_def)
next
  case True
  then obtain d where s: "d_status r = Open" and d: "d_deadline r = Some d" by (auto simp: due_def split: option.splits)
  show ?thesis
  proof (cases "decision_escalation r")
    case None
    then have "d_escalation r = None" using valid_escalation [OF v] by (cases "d_escalation r") auto
    then show ?thesis using expire_valid [OF v s] True None by (simp add: apply_decision_deadline_def)
  next
    case (Some e)
    let ?h = "nat (e_hop e)"
    define k where "k = min (length (e_chain e) - 1 - nat (e_hop e)) (nat ((now - d) div e_hop_ms e) + 1)"
    obtain hist r' where r: "map p_holder hist = map p_holder (d_history r) @ map (\<lambda>j. if j = 0 then d_holder r else e_chain e ! (?h + j)) [0..<k]"
      and r': "r' = r\<lparr>d_holder := (if k = 0 then d_holder r else e_chain e ! (?h + k)), d_deadline := Some (d + int k * e_hop_ms e),
        d_escalation := Some (e\<lparr>e_hop := int (?h + k)\<rparr>), d_history := hist\<rparr>"
      and c: "apply_decision_deadline r now = r' \<or> apply_decision_deadline r now = expire_record (e_final e) r' now"
      unfolding k_def using due_lands [OF Some True d] by (metis (no_types, lifting))
    have e: "d_escalation r = Some e" "d_holder r = e_chain e ! ?h" "map p_holder (d_history r) = take ?h (e_chain e)" "escalation_valid e"
      using v decision_escalation_Some [OF Some] by (auto simp: decision_valid_def)
    then have hk: "?h + k < length (e_chain e)" by (auto simp: k_def escalation_valid_def)
    have f: "(\<lambda>j. if j = 0 then d_holder r else e_chain e ! (?h + j)) = (\<lambda>j. e_chain e ! (?h + j))" using e(2) by auto
    have h: "map p_holder hist = take (?h + k) (e_chain e)"
      using hk take_more [of ?h k "e_chain e"] by (simp only: r f e(3) less_imp_le)
    have "(if k = 0 then d_holder r else e_chain e ! (?h + k)) = e_chain e ! (?h + k)" using e(2) by simp
    then have v': "decision_valid r'" using moved_valid [OF v e(1) s hk h] r' by simp
    have "decision_valid (expire_record (e_final e) r' now)"
      using expire_valid [OF v', of "e_final e" now] decision_escalation_Some [OF Some] s by (simp add: r')
    then show ?thesis using v' c by auto
  qed
qed

lemma action_valid:
  assumes v: "decision_valid r" and s: "d_status r = Open" and n: "next_record a allow now r = Inr r'"
  shows "decision_valid r'"
proof (cases a)
  case (Answer i t b via)
  then obtain oi ot where a: "validate_decision_answer r i t = Inr (oi, ot)"
    and r': "r' = r\<lparr>d_status := Answered, d_answer := Some \<lparr>an_option = oi, an_text = ot, an_by = b, an_via = via, an_at = now\<rparr>\<rparr>"
    using n by (auto simp: next_record_def bind_e_Inr authorized_def split: if_splits)
  from a obtain ot' where t: "bounded_text t ''answer text'' MAX_DECISION_TEXT_CHARS False = Inr ot'"
    and c: "(case d_options r of
       Some cs \<Rightarrow> (case i of
           Text j \<Rightarrow> if j \<in> set (map c_id cs) then Inr (Some j, ot') else Inl NeedsOptionId
         | _ \<Rightarrow> Inl NeedsOptionId)
     | None \<Rightarrow> if i \<noteq> Undef then Inl HasNoOptions else if ot' = None then Inl NeedsText else Inr (None, ot')) = Inr (oi, ot)"
    unfolding validate_decision_answer_def bind_e_Inr by blast
  have "answer_valid r' \<lparr>an_option = oi, an_text = ot, an_by = b, an_via = via, an_at = now\<rparr>"
    using c bounded_text_Inr [OF t] by (cases "d_options r"; cases i) (auto simp: r' answer_valid_def split: if_split_asm)
  then show ?thesis using v by (simp add: r' decision_valid_def outcome_valid_def)
next
  case (Cancel b via)
  then have "r' = r\<lparr>d_status := Cancelled, d_answer := Some \<lparr>an_option = None, an_text = None, an_by = b, an_via = via, an_at = now\<rparr>\<rparr>"
    using n by (auto simp: next_record_def authorized_def split: if_split_asm)
  then show ?thesis using v by (simp add: decision_valid_def outcome_valid_def)
next
  case (Escalate t b)
  then obtain e where e: "decision_escalation r = Some e" "e_hop e + 1 < int (length (e_chain e))"
    and r': "r' = r\<lparr>d_holder := e_chain e ! nat (e_hop e + 1), d_deadline := Some (now + e_hop_ms e),
      d_escalation := Some (e\<lparr>e_hop := e_hop e + 1\<rparr>),
      d_history := d_history r @ [\<lparr>p_holder = d_holder r, p_until = now, p_reason = Escalated, p_text = t, p_by = Some b\<rparr>]\<rparr>"
    using n by (auto simp: next_record_def bind_e_Inr authorized_def not_le split: if_splits option.splits)
  have f: "d_escalation r = Some e" "d_holder r = e_chain e ! nat (e_hop e)" "map p_holder (d_history r) = take (nat (e_hop e)) (e_chain e)" "0 \<le> e_hop e"
    using v decision_escalation_Some [OF e(1)] by (auto simp: decision_valid_def escalation_valid_def)
  have n1: "nat (e_hop e + 1) = Suc (nat (e_hop e))" "int (Suc (nat (e_hop e))) = e_hop e + 1" using f(4) by linarith+
  have h: "nat (e_hop e + 1) < length (e_chain e)" using e(2) f(4) by linarith
  have "map p_holder (d_history r @ [\<lparr>p_holder = d_holder r, p_until = now, p_reason = Escalated, p_text = t, p_by = Some b\<rparr>])
    = take (nat (e_hop e + 1)) (e_chain e)"
    using f h by (simp add: n1 take_Suc_conv_app_nth)
  then show ?thesis using moved_valid [OF v f(1) s h, of _ r' "now + e_hop_ms e"] f(4) by (simp add: r')
qed

section \<open>Properties\<close>

definition timeless :: "decision \<Rightarrow> decision" where
  "timeless r = r\<lparr>d_answer := map_option (\<lambda>a. a\<lparr>an_at := 0\<rparr>) (d_answer r)\<rparr>"

lemma deadline_open_or_closed:
  "d_status (apply_decision_deadline r now) = Open \<or> d_status (apply_decision_deadline r now) = d_status r \<or> d_status (apply_decision_deadline r now) = Expired"
  by (auto simp: apply_decision_deadline_def expire_record_def Let_def split: option.splits prod.splits)

lemma expired_stays: "apply_decision_deadline (expire_record x r t) now = expire_record x r t"
  by (simp add: apply_decision_deadline_def due_def expire_record_def)

lemma expire_timeless: "timeless (expire_record x r t) = timeless (expire_record x r now)"
  by (cases "d_default r") (simp_all add: timeless_def expire_record_def)

lemma elapsed_ends:
  assumes "elapsed_hops chain ms t hop h d hist = (hop', h', d', hist')" and "hop < length chain"
  shows "hop' < length chain \<and> (d' \<le> t \<longrightarrow> length chain \<le> hop' + 1)"
  using assms
proof (induction chain ms t hop h d hist rule: elapsed_hops.induct)
  case (1 chain ms t hop h d hist)
  show ?case
  proof (cases "d \<le> t \<and> hop + 1 < length chain")
    case True then show ?thesis using 1 by (simp add: elapsed_turn)
  next
    case False
    then have "t < d \<or> length chain \<le> hop + 1" by linarith
    then show ?thesis using "1.prems" by (auto simp: elapsed_stop)
  qed
qed

lemma escalation_moved:
  assumes "decision_escalation r = Some e" and "hop < length (e_chain e)"
  shows "decision_escalation (r\<lparr>d_holder := h, d_deadline := d, d_escalation := Some (e\<lparr>e_hop := int hop\<rparr>), d_history := hist\<rparr>) = Some (e\<lparr>e_hop := int hop\<rparr>)"
  using assms by (auto simp: decision_escalation_def split: if_splits option.splits)

text \<open>C26: Deadlines are applied lazily by whichever reader comes first, and it does not matter who came and when: reading a
  decision at \<open>t1\<close> and its result at \<open>t2\<close> gives what a single reader at \<open>t2\<close> gets, except the time stamped into a
  default answer.\<close>

theorem deadline_reading_is_path_independent:
  assumes "t1 \<le> t2"
  shows "timeless (apply_decision_deadline (apply_decision_deadline r t1) t2) = timeless (apply_decision_deadline r t2)"
proof (cases "due r t1")
  case False then show ?thesis by (simp add: apply_decision_deadline_def [of r t1])
next
  case True
  then have d2: "due r t2" using assms by (auto simp: due_def split: option.splits)
  from True obtain d where d: "d_deadline r = Some d" "d_status r = Open" by (auto simp: due_def split: option.splits)
  show ?thesis
  proof (cases "decision_escalation r")
    case None
    then show ?thesis using True d2 by (simp add: apply_decision_deadline_def [of r] expired_stays expire_timeless [of _ r t1 t2])
  next
    case (Some e)
    let ?el = "\<lambda>t hop h d hist. elapsed_hops (e_chain e) (e_hop_ms e) t hop h d hist"
    let ?r = "\<lambda>(hop, h, d, hist). r\<lparr>d_holder := h, d_deadline := Some d, d_escalation := Some (e\<lparr>e_hop := int hop\<rparr>), d_history := hist\<rparr>"
    obtain hop h d' hist where e1: "?el t1 (nat (e_hop e)) (d_holder r) d (d_history r) = (hop, h, d', hist)" by (metis prod_cases4)
    obtain hop2 h2 d2' hist2 where e2: "?el t2 hop h d' hist = (hop2, h2, d2', hist2)" by (metis prod_cases4)
    have e12: "?el t2 (nat (e_hop e)) (d_holder r) d (d_history r) = (hop2, h2, d2', hist2)"
      using elapsed_twice [OF assms e1] e2 by simp
    have a: "apply_decision_deadline r t1 = (if t1 < d' then ?r (hop, h, d', hist) else expire_record (e_final e) (?r (hop, h, d', hist)) t1)"
      "apply_decision_deadline r t2 = (if t2 < d2' then ?r (hop2, h2, d2', hist2) else expire_record (e_final e) (?r (hop2, h2, d2', hist2)) t2)"
      using True d2 d Some e1 e12 by (simp_all add: apply_decision_deadline_def Let_def)
    have hop: "hop < length (e_chain e) \<and> (d' \<le> t1 \<longrightarrow> length (e_chain e) \<le> hop + 1)"
      using elapsed_ends [OF e1] Some by (auto simp: decision_escalation_def split: if_splits option.splits)
    show ?thesis
    proof (cases "t1 < d'")
      case False
      then have "(hop2, h2, d2', hist2) = (hop, h, d', hist)" using hop e2 by (simp add: elapsed_stop)
      then show ?thesis using False assms a expire_timeless [of _ "?r (hop, h, d', hist)" t1 t2] by (simp add: expired_stays)
    next
      case lt: True
      note es = escalation_moved [OF Some conjunct1 [OF hop], where h = h and d = "Some d'" and hist = hist]
      show ?thesis
      proof (cases "t2 < d'")
        case True
        then have "(hop2, h2, d2', hist2) = (hop, h, d', hist)" using e2 by (simp add: elapsed_stop)
        then show ?thesis using lt True d unfolding a by (simp add: apply_decision_deadline_def due_def)
      next
        case False
        then show ?thesis using lt d e2 es unfolding a by (simp add: apply_decision_deadline_def due_def Let_def)
      qed
    qed
  qed
qed

lemma case_Inr: "(case x of Inl _ \<Rightarrow> False | Inr r \<Rightarrow> Q r) \<Longrightarrow> \<exists>r. x = Inr r \<and> Q r"
  by (cases x) simp_all

definition sample_raise :: "(string \<times> jsv) list" where
  "sample_raise = [(''title'', Text ''Ship?''), (''options'', Arr [Obj [(''id'', Text ''yes''), (''label'', Text ''Yes'')], Obj [(''id'', Text ''no''), (''label'', Text ''No'')]]),
     (''holder'', Text ''supervisor:lead''), (''onExpire'', Text ''escalate''), (''defaultOptionId'', Text ''no''),
     (''escalation'', Obj [(''hopTimeoutMs'', Number (Num 1000)), (''onFinal'', Text ''default'')])]"

definition sample_decision :: decision where
  "sample_decision = (case build_decision_record sample_raise (''main'', None, None) 0 ''dec_12345678'' of Inr r \<Rightarrow> r | Inl _ \<Rightarrow> undefined)"

lemma sample_built: "build_decision_record sample_raise (''main'', None, None) 0 ''dec_12345678'' = Inr sample_decision"
  unfolding sample_decision_def by code_simp

theorem deadline_reading_is_path_independent_witness:
  "timeless (apply_decision_deadline (apply_decision_deadline sample_decision 1500) 3500) = timeless (apply_decision_deadline sample_decision 3500)
   \<and> d_holder (apply_decision_deadline sample_decision 1500) = RootHolder
   \<and> d_status (apply_decision_deadline sample_decision 3500) = Expired
   \<and> apply_decision_deadline (apply_decision_deadline sample_decision 3100) 3500 \<noteq> apply_decision_deadline sample_decision 3500"
proof -
  have "d_holder (apply_decision_deadline sample_decision 1500) = RootHolder" by code_simp
  moreover have "d_status (apply_decision_deadline sample_decision 3500) = Expired" by code_simp
  moreover have "d_answer (apply_decision_deadline (apply_decision_deadline sample_decision 3100) 3500) \<noteq> d_answer (apply_decision_deadline sample_decision 3500)"
    by code_simp
  moreover have "timeless (apply_decision_deadline (apply_decision_deadline sample_decision 1500) 3500) = timeless (apply_decision_deadline sample_decision 3500)"
    by (rule deadline_reading_is_path_independent) simp
  ultimately show ?thesis by metis
qed

text \<open>Whatever arguments raise it and whatever happens to it (deadlines read at any time, answers, cancellations, escalations), a
  decision stays well formed: bounded title and distinct options, a default that names an option, the holder at the current hop of
  its chain with exactly the earlier holders in its history, and an answer exactly as its status and options call for.\<close>

theorem decision_stays_valid:
  assumes "lived r"
  shows "decision_valid r"
  using assms by induction (auto intro: built_valid deadline_valid action_valid)

theorem decision_stays_valid_witness:
  "\<exists>r. next_record (Answer (Text ''yes'') Undef ''root'' ''cli'') (\<lambda>r. d_holder r = RootHolder) 1600 (apply_decision_deadline sample_decision 1500) = Inr r
     \<and> lived r \<and> decision_valid r \<and> d_status r = Answered \<and> map p_holder (d_history r) = [Supervisor ''lead'']"
proof -
  let ?r = "apply_decision_deadline sample_decision 1500"
  let ?next = "next_record (Answer (Text ''yes'') Undef ''root'' ''cli'') (\<lambda>r. d_holder r = RootHolder) 1600 ?r"
  have "case ?next of Inl _ \<Rightarrow> False | Inr r \<Rightarrow> d_status r = Answered \<and> map p_holder (d_history r) = [Supervisor ''lead'']" by code_simp
  from case_Inr [OF this] obtain r where r: "?next = Inr r" and s: "d_status r = Answered \<and> map p_holder (d_history r) = [Supervisor ''lead'']"
    by (elim exE conjE) (rule that, assumption, rule conjI)
  have "d_status ?r = Open" by code_simp
  then have l: "lived r" by (rule Acted [OF Passed [OF Raised [OF sample_built]] _ r])
  show ?thesis by (rule exI [of _ r]) (intro conjI r l decision_stays_valid [OF l] conjunct1 [OF s] conjunct2 [OF s])
qed

end
