(* ===== verification/DecisionStore.thy ===== *)
theory DecisionStore imports Decisions MeshState begin

text \<open>
  The decision store (\<^verbatim>\<open>src/src/decisions/store.ts\<close>, class \<open>DecisionStore\<close>): \<open>#transition\<close> and \<open>#expire\<close> of many
  callers at once over one key of the mesh, as a step relation split at their awaits; pruning, listing and raising.
  What they need of the mesh is the interface \<open>cas_slot\<close>: a slot with a version and a compare-and-swap; the mesh
  state of \<open>MeshState\<close> provides it. Each mesh write is one step, which is what \<open>MeshWriters\<close> shows of concurrent writes.
  Notifications are hints and are left out.
\<close>

section \<open>A caller\<close>

datatype request = Transition action | Read

record client =
  cl_request :: request
  cl_allow :: "decision \<Rightarrow> bool"

datatype failure = Unknown | NotOpen status | Refused refusal | Contended | StoreFailed
datatype result = Won decision | Seen decision | Lost failure

text \<open>
  Where a call stands: its attempt, the attempt of the expiry inside, the version it holds, and the record it read, is
  about to write as expired, has expired, or is about to write as its own transition.
\<close>

datatype phase =
  Looking nat
| Expiring nat nat int decision
| ExpiryPut nat nat int decision
| Rereading nat nat
| Deciding nat int decision
| Putting nat int decision
| Ended result

datatype cas_error = CasConflict | StoreError

definition ATTEMPTS :: nat where "ATTEMPTS = 8"

text \<open>The steps that write nothing; \<open>look\<close> is the slot's version and record, \<open>cas\<close> its compare-and-swap at a time.\<close>

inductive local_step :: "('s \<Rightarrow> int \<times> decision option) \<Rightarrow> (int \<Rightarrow> int \<Rightarrow> decision \<Rightarrow> 's \<Rightarrow> cas_error + 's) \<Rightarrow> client
    \<Rightarrow> 's \<Rightarrow> phase \<Rightarrow> phase \<Rightarrow> bool" for look cas c s where
  Missing: "snd (look s) = None \<Longrightarrow> local_step look cas c s (Looking n) (Ended (Lost Unknown))"
| Found: "look s = (v, Some r) \<Longrightarrow> local_step look cas c s (Looking n) (Expiring n 0 v r)"
| Current: "apply_decision_deadline r now = r \<Longrightarrow> local_step look cas c s (Expiring n m v r) (Deciding n v r)"
| Passed: "apply_decision_deadline r now \<noteq> r
    \<Longrightarrow> local_step look cas c s (Expiring n m v r) (ExpiryPut n m v (apply_decision_deadline r now))"
| Expiry_conflict: "cas now v r s = Inl CasConflict \<Longrightarrow> local_step look cas c s (ExpiryPut n m v r) (Rereading n (Suc m))"
| Expiry_failed: "cas now v r s = Inl StoreError \<Longrightarrow> local_step look cas c s (ExpiryPut n m v r) (Ended (Lost StoreFailed))"
| Gone: "snd (look s) = None \<Longrightarrow> local_step look cas c s (Rereading n m) (Ended (Lost Unknown))"
| Reread: "look s = (v, Some r) \<Longrightarrow> m < ATTEMPTS \<Longrightarrow> local_step look cas c s (Rereading n m) (Expiring n m v r)"
| Expiry_contended: "snd (look s) \<noteq> None \<Longrightarrow> ATTEMPTS \<le> m \<Longrightarrow> local_step look cas c s (Rereading n m) (Ended (Lost Contended))"
| Reported: "cl_request c = Read \<Longrightarrow> local_step look cas c s (Deciding n v r) (Ended (Seen r))"
| Closed: "cl_request c = Transition a \<Longrightarrow> d_status r \<noteq> Open
    \<Longrightarrow> local_step look cas c s (Deciding n v r) (Ended (Lost (NotOpen (d_status r))))"
| Refused: "cl_request c = Transition a \<Longrightarrow> d_status r = Open \<Longrightarrow> next_record a (cl_allow c) now r = Inl e
    \<Longrightarrow> local_step look cas c s (Deciding n v r) (Ended (Lost (Refused e)))"
| Decided: "cl_request c = Transition a \<Longrightarrow> d_status r = Open \<Longrightarrow> next_record a (cl_allow c) now r = Inr u
    \<Longrightarrow> local_step look cas c s (Deciding n v r) (Putting n v u)"
| Conflict: "cas now v u s = Inl CasConflict \<Longrightarrow> Suc n < ATTEMPTS \<Longrightarrow> local_step look cas c s (Putting n v u) (Looking (Suc n))"
| Contended: "cas now v u s = Inl CasConflict \<Longrightarrow> ATTEMPTS \<le> Suc n \<Longrightarrow> local_step look cas c s (Putting n v u) (Ended (Lost Contended))"
| Failed: "cas now v u s = Inl StoreError \<Longrightarrow> local_step look cas c s (Putting n v u) (Ended (Lost StoreFailed))"

text \<open>The two that write.\<close>

inductive write_step :: "('s \<Rightarrow> int \<times> decision option) \<Rightarrow> (int \<Rightarrow> int \<Rightarrow> decision \<Rightarrow> 's \<Rightarrow> cas_error + 's)
    \<Rightarrow> 's \<Rightarrow> phase \<Rightarrow> 's \<Rightarrow> phase \<Rightarrow> bool" for look cas s where
  Expired: "cas now v r s = Inr s' \<Longrightarrow> write_step look cas s (ExpiryPut n m v r) s' (Deciding n (fst (look s')) r)"
| Committed: "cas now v u s = Inr s' \<Longrightarrow> write_step look cas s (Putting n v u) s' (Ended (Won u))"

section \<open>All callers\<close>

text \<open>The slot before and after each write, and who wrote; the log is not part of the program.\<close>

type_synonym slot_write = "nat \<times> (int \<times> decision option) \<times> (int \<times> decision option)"
type_synonym 's system = "'s \<times> (nat \<Rightarrow> phase) \<times> slot_write list"

text \<open>
  \<open>Removed\<close> is a pruner that deletes the key at the version at which it read it resolved; \<open>Elsewhere\<close> is any
  mesh call on another key.
\<close>

inductive system_step :: "('s \<Rightarrow> int \<times> decision option) \<Rightarrow> (int \<Rightarrow> int \<Rightarrow> decision \<Rightarrow> 's \<Rightarrow> cas_error + 's)
    \<Rightarrow> (int \<Rightarrow> 's \<Rightarrow> 's option) \<Rightarrow> ('s \<Rightarrow> 's \<Rightarrow> bool) \<Rightarrow> (nat \<Rightarrow> client) \<Rightarrow> 's system \<Rightarrow> 's system \<Rightarrow> bool"
  for look cas rem other cs where
  Local: "local_step look cas (cs i) s (ph i) p \<Longrightarrow> system_step look cas rem other cs (s, ph, lg) (s, ph(i := p), lg)"
| Write: "write_step look cas s (ph i) s' p
    \<Longrightarrow> system_step look cas rem other cs (s, ph, lg) (s', ph(i := p), lg @ [(i, look s, look s')])"
| Removed: "look s = (v, Some r) \<Longrightarrow> d_status r \<noteq> Open \<Longrightarrow> rem v s = Some s'
    \<Longrightarrow> system_step look cas rem other cs (s, ph, lg) (s', ph, lg)"
| Elsewhere: "other s s' \<Longrightarrow> system_step look cas rem other cs (s, ph, lg) (s', ph, lg)"

inductive reachable :: "('s \<Rightarrow> int \<times> decision option) \<Rightarrow> (int \<Rightarrow> int \<Rightarrow> decision \<Rightarrow> 's \<Rightarrow> cas_error + 's)
    \<Rightarrow> (int \<Rightarrow> 's \<Rightarrow> 's option) \<Rightarrow> ('s \<Rightarrow> 's \<Rightarrow> bool) \<Rightarrow> (nat \<Rightarrow> client) \<Rightarrow> 's \<Rightarrow> 's system \<Rightarrow> bool"
  for look cas rem other cs s0 where
  Start: "reachable look cas rem other cs s0 (s0, \<lambda>_. Looking 0, [])"
| Step: "reachable look cas rem other cs s0 x \<Longrightarrow> system_step look cas rem other cs x y \<Longrightarrow> reachable look cas rem other cs s0 y"

section \<open>The slot interface\<close>

locale cas_slot =
  fixes ok :: "'s \<Rightarrow> bool"
    and look :: "'s \<Rightarrow> int \<times> decision option"
    and cas :: "int \<Rightarrow> int \<Rightarrow> decision \<Rightarrow> 's \<Rightarrow> cas_error + 's"
    and rem :: "int \<Rightarrow> 's \<Rightarrow> 's option"
    and other :: "'s \<Rightarrow> 's \<Rightarrow> bool"
  assumes look_pos: "ok s \<Longrightarrow> look s = (v, Some r) \<Longrightarrow> 0 < v"
    and cas_swaps: "ok s \<Longrightarrow> cas now v r s = Inr s' \<Longrightarrow> 0 < v
      \<Longrightarrow> ok s' \<and> fst (look s) = v \<and> v < fst (look s') \<and> snd (look s') = Some r"
    and rem_removes: "ok s \<Longrightarrow> rem v s = Some s' \<Longrightarrow> 0 < v
      \<Longrightarrow> ok s' \<and> fst (look s) = v \<and> (v < fst (look s') \<or> fst (look s') = 0) \<and> snd (look s') = None"
    and other_keeps: "ok s \<Longrightarrow> other s s'
      \<Longrightarrow> ok s' \<and> snd (look s') = snd (look s) \<and> (fst (look s') = fst (look s) \<or> (snd (look s) = None \<and> fst (look s') = 0))"
begin

text \<open>A version that no compare-and-swap will match any more.\<close>

definition stale :: "int \<Rightarrow> 's \<Rightarrow> bool" where
  "stale v s \<longleftrightarrow> 0 < v \<and> (v < fst (look s) \<or> (snd (look s) = None \<and> fst (look s) = 0))"

definition holds :: "int \<Rightarrow> decision \<Rightarrow> 's \<Rightarrow> bool" where
  "holds v r s \<longleftrightarrow> look s = (v, Some r) \<or> stale v s"

definition phase_ok :: "client \<Rightarrow> nat \<Rightarrow> 's \<Rightarrow> slot_write list \<Rightarrow> phase \<Rightarrow> bool" where
  "phase_ok c i s lg p \<longleftrightarrow> (case p of
     Expiring n m v r \<Rightarrow> holds v r s
   | ExpiryPut n m v r \<Rightarrow> (\<exists>b now. holds v b s \<and> due b now \<and> r = apply_decision_deadline b now)
   | Deciding n v r \<Rightarrow> holds v r s
   | Putting n v u \<Rightarrow> (\<exists>a b now. cl_request c = Transition a \<and> holds v b s \<and> d_status b = Open \<and> next_record a (cl_allow c) now b = Inr u)
   | Ended (Won u) \<Rightarrow> (\<exists>a b now v v'. cl_request c = Transition a \<and> (i, (v, Some b), (v', Some u)) \<in> set lg \<and> d_status b = Open
       \<and> next_record a (cl_allow c) now b = Inr u)
   | _ \<Rightarrow> True)"

text \<open>The log is one line of writes over an open record, up to the slot as it is now.\<close>

definition before :: "slot_write \<Rightarrow> int \<times> decision option" where "before w = fst (snd w)"
definition after :: "slot_write \<Rightarrow> int \<times> decision option" where "after w = snd (snd w)"

definition line :: "slot_write list \<Rightarrow> 's \<Rightarrow> bool" where
  "line lg s \<longleftrightarrow> (\<forall>w \<in> set lg. (\<exists>b. snd (before w) = Some b \<and> d_status b = Open) \<and> snd (after w) \<noteq> None)
     \<and> (\<forall>k. Suc k < length lg \<longrightarrow> before (lg ! Suc k) = after (lg ! k))
     \<and> (lg \<noteq> [] \<longrightarrow> look s = after (last lg) \<or> (snd (look s) = None \<and> d_status (the (snd (after (last lg)))) \<noteq> Open))"

definition system_ok :: "(nat \<Rightarrow> client) \<Rightarrow> 's system \<Rightarrow> bool" where
  "system_ok cs x \<longleftrightarrow> (case x of (s, ph, lg) \<Rightarrow> ok s \<and> line lg s \<and> (\<forall>i. phase_ok (cs i) i s lg (ph i)))"

lemma holds_pos: "ok s \<Longrightarrow> holds v r s \<Longrightarrow> 0 < v"
  using look_pos by (auto simp: holds_def stale_def)

lemma holds_match: "ok s \<Longrightarrow> holds v r s \<Longrightarrow> fst (look s) = v \<Longrightarrow> look s = (v, Some r)"
  using look_pos by (auto simp: holds_def stale_def)

text \<open>A change of the slot that lets every held version go stale, or leaves a live slot alone.\<close>

definition passes :: "'s \<Rightarrow> 's \<Rightarrow> bool" where
  "passes s s' \<longleftrightarrow> look s' = look s \<or> (snd (look s) \<noteq> None \<and> fst (look s) < fst (look s')) \<or> (snd (look s') = None \<and> fst (look s') = 0)"

lemma holds_passes: "ok s \<Longrightarrow> passes s s' \<Longrightarrow> holds v r s \<Longrightarrow> holds v r s'"
  using look_pos by (auto simp: holds_def stale_def passes_def)

lemma phase_passes:
  assumes "ok s" "passes s s'" "phase_ok c i s lg p"
  shows "phase_ok c i s' (lg @ lg') p"
  using assms holds_passes [OF assms(1,2)] unfolding phase_ok_def
  by (cases p) (auto split: result.splits; blast)+

lemma local_ok:
  assumes k: "ok s" and p: "phase_ok c i s lg p" and l: "local_step look cas c s p p'"
  shows "phase_ok c i s lg p'"
  using l
proof cases
  case (Found v r n)
  then show ?thesis by (simp add: phase_ok_def holds_def)
next
  case (Passed r now n m v)
  then have "due r now" by (auto simp: apply_decision_deadline_def split: if_splits)
  then show ?thesis using p Passed by (auto simp: phase_ok_def)
next
  case (Decided a r now u n v)
  then show ?thesis using p by (auto simp: phase_ok_def)
qed (use p in \<open>auto simp: phase_ok_def holds_def\<close>)

lemma line_snoc:
  assumes "line lg s" and "look s = (v, Some b)" and "d_status b = Open" and "snd (look s') \<noteq> None"
  shows "line (lg @ [(i, look s, look s')]) s'"
proof -
  have l: "Suc k = length lg \<Longrightarrow> lg ! k = last lg" for k by (cases lg rule: rev_cases) auto
  have "lg \<noteq> [] \<Longrightarrow> after (last lg) = look s" using assms(1,2) by (auto simp: line_def)
  then show ?thesis using assms unfolding line_def
    by (cases "lg = []") (auto simp: nth_append before_def after_def less_Suc_eq l)
qed

lemma line_same: "line lg s \<Longrightarrow> look s' = look s \<Longrightarrow> line lg s'"
  by (simp add: line_def)

lemma apply_due_open: "due b now \<Longrightarrow> d_status b = Open"
  by (simp add: due_def)

text \<open>Every step keeps the invariant.\<close>

lemma write_ok:
  assumes k: "ok s" and l: "line lg s" and p: "\<forall>j. phase_ok (cs j) j s lg (ph j)" and w: "write_step look cas s (ph i) s' p'"
  shows "system_ok cs (s', ph(i := p'), lg @ [(i, look s, look s')])"
proof -
  obtain now v r where c: "cas now v r s = Inr s'" and h: "\<exists>b. holds v b s \<and> d_status b = Open"
    and p': "phase_ok (cs i) i s' (lg @ [(i, look s, look s')]) p'"
    using w
  proof cases
    case (Expired now v r n m)
    then obtain b where b: "holds v b s" "d_status b = Open" using p apply_due_open by (force simp: phase_ok_def dest: spec [of _ i])
    then have "snd (look s') = Some r" using cas_swaps [OF k Expired(3)] holds_pos [OF k b(1)] by blast
    then have "holds (fst (look s')) r s'" by (cases "look s'") (simp add: holds_def)
    then show thesis using that Expired b by (force simp: phase_ok_def)
  next
    case (Committed now v u n)
    then obtain a b t where b: "cl_request (cs i) = Transition a" "holds v b s" "d_status b = Open" "next_record a (cl_allow (cs i)) t b = Inr u"
      using p by (force simp: phase_ok_def dest: spec [of _ i])
    note sw = cas_swaps [OF k Committed(3) holds_pos [OF k b(2)]]
    have "look s = (v, Some b)" using holds_match [OF k b(2)] sw by blast
    moreover obtain v' where "look s' = (v', Some u)" using sw by (cases "look s'") auto
    ultimately have "phase_ok (cs i) i s' (lg @ [(i, look s, look s')]) p'"
      using Committed b by (auto simp: phase_ok_def)
    then show thesis using that Committed b by blast
  qed
  then obtain b where b: "holds v b s" "d_status b = Open" by blast
  note sw = cas_swaps [OF k c holds_pos [OF k b(1)]]
  have s: "look s = (v, Some b)" using holds_match [OF k b(1)] sw by blast
  have ps: "passes s s'" using s sw by (simp add: passes_def)
  have "line (lg @ [(i, look s, look s')]) s'" using line_snoc [OF l s b(2)] sw by simp
  then show ?thesis using sw p' p phase_passes [OF k ps] by (simp add: system_ok_def)
qed

lemma step_ok:
  assumes "system_ok cs x" and "system_step look cas rem other cs x y"
  shows "system_ok cs y"
  using assms(2)
proof cases
  case (Local i s ph p lg)
  have k: "ok s" and l: "line lg s" and p: "\<forall>i. phase_ok (cs i) i s lg (ph i)" using assms(1) Local by (simp_all add: system_ok_def)
  show ?thesis using Local k l p local_ok [OF k spec [OF p] Local(3)] by (simp add: system_ok_def)
next
  case (Write s ph i s' p lg)
  have k: "ok s" and l: "line lg s" and p: "\<forall>i. phase_ok (cs i) i s lg (ph i)" using assms(1) Write by (simp_all add: system_ok_def)
  show ?thesis using write_ok [OF k l p Write(3)] Write(2) by simp
next
  case (Removed s v r s' ph lg)
  have k: "ok s" and l: "line lg s" and p: "\<forall>i. phase_ok (cs i) i s lg (ph i)" using assms(1) Removed by (simp_all add: system_ok_def)
  note rm = rem_removes [OF k Removed(5) look_pos [OF k Removed(3)]]
  have ps: "passes s s'" using rm Removed(3) by (auto simp: passes_def)
  have a: "lg \<noteq> [] \<Longrightarrow> after (last lg) = (v, Some r)" using l Removed(3) by (auto simp: line_def)
  have "line lg s'" using l rm Removed(4) a unfolding line_def by (cases "lg = []") simp_all
  then show ?thesis using Removed rm p phase_passes [OF k ps, where lg' = "[]"] by (simp add: system_ok_def)
next
  case (Elsewhere s s' ph lg)
  have k: "ok s" and l: "line lg s" and p: "\<forall>i. phase_ok (cs i) i s lg (ph i)" using assms(1) Elsewhere by (simp_all add: system_ok_def)
  note ot = other_keeps [OF k Elsewhere(3)]
  have ps: "passes s s'" using ot by (cases "look s"; cases "look s'") (auto simp: passes_def)
  have "lg \<noteq> [] \<Longrightarrow> snd (after (last lg)) \<noteq> None" using l last_in_set unfolding line_def by blast
  then have "line lg s'" using l ot by (cases "look s"; cases "look s'"; cases "after (last lg)") (auto simp: line_def)
  then show ?thesis using Elsewhere ot p phase_passes [OF k ps, where lg' = "[]"] by (simp add: system_ok_def)
qed

lemma slot_reachable_ok: "ok s0 \<Longrightarrow> reachable look cas rem other cs s0 x \<Longrightarrow> system_ok cs x"
proof -
  assume k: "ok s0" and "reachable look cas rem other cs s0 x"
  from this(2) show ?thesis
  proof induction
    case Start then show ?case using k by (simp add: system_ok_def line_def phase_ok_def)
  next
    case (Step x y) then show ?case using step_ok by blast
  qed
qed

text \<open>Only the last write can have resolved the decision.\<close>

lemma line_resolves_last:
  assumes l: "line lg s" and k: "k < length lg" and r: "snd (after (lg ! k)) = Some a" "d_status a \<noteq> Open"
  shows "Suc k = length lg"
proof (rule ccontr)
  assume "Suc k \<noteq> length lg"
  then have n: "Suc k < length lg" using k by simp
  then have "lg ! Suc k \<in> set lg" by simp
  with l have "\<exists>b. snd (before (lg ! Suc k)) = Some b \<and> d_status b = Open" unfolding line_def by blast
  moreover have "before (lg ! Suc k) = after (lg ! k)" using l n unfolding line_def by blast
  ultimately show False using r by simp
qed

lemma won_written:
  assumes "system_ok cs (s, ph, lg)" and "ph i = Ended (Won u)"
  shows "\<exists>a b now v v'. cl_request (cs i) = Transition a \<and> (i, (v, Some b), (v', Some u)) \<in> set lg \<and> d_status b = Open
      \<and> cl_allow (cs i) b \<and> next_record a (cl_allow (cs i)) now b = Inr u"
proof -
  have "phase_ok (cs i) i s lg (ph i)" using assms(1) by (simp add: system_ok_def)
  then obtain a b now v v' where w: "cl_request (cs i) = Transition a" "(i, (v, Some b), (v', Some u)) \<in> set lg"
    "d_status b = Open" "next_record a (cl_allow (cs i)) now b = Inr u" by (auto simp: phase_ok_def assms(2))
  then have "cl_allow (cs i) b" by (auto simp: next_record_def authorized_def split: if_split_asm)
  with w show ?thesis by blast
qed

lemma won_resolves:
  assumes "system_ok cs (s, ph, lg)" and "ph i = Ended (Won u)" and "d_status u \<noteq> Open"
  shows "lg \<noteq> [] \<and> fst (last lg) = i \<and> (snd (look s) = Some u \<or> snd (look s) = None)"
proof -
  have l: "line lg s" and p: "phase_ok (cs i) i s lg (ph i)" using assms(1) by (auto simp: system_ok_def)
  from p assms(2) obtain v b v' where w: "(i, (v, Some b), (v', Some u)) \<in> set lg" by (auto simp: phase_ok_def)
  then obtain k where k: "k < length lg" "lg ! k = (i, (v, Some b), (v', Some u))" by (auto simp: in_set_conv_nth)
  have "Suc k = length lg" using line_resolves_last [OF l k(1), of u] k(2) assms(3) by (simp add: after_def)
  then have "last lg = (i, (v, Some b), (v', Some u))" using k by (cases lg rule: rev_cases) auto
  then show ?thesis using l w by (auto simp: line_def after_def)
qed

end

section \<open>The mesh as the slot\<close>

text \<open>\<open>obj\<close> is the value put for a record, \<open>parse\<close> reads a stored JSON text back as a record, if it is one.\<close>

definition mesh_look :: "(string \<Rightarrow> decision option) \<Rightarrow> string \<Rightarrow> mesh_state \<Rightarrow> int \<times> decision option" where
  "mesh_look parse key s = (slot_version s key, case jm_get (m_entries s) key of Some (Ent e) \<Rightarrow> parse (e_value e) | _ \<Rightarrow> None)"

definition mesh_cas :: "'v store_cfg \<Rightarrow> (decision \<Rightarrow> 'v) \<Rightarrow> 'v \<Rightarrow> string \<Rightarrow> int \<Rightarrow> int \<Rightarrow> decision \<Rightarrow> mesh_state \<Rightarrow> cas_error + mesh_state" where
  "mesh_cas cfg obj ident key now v r s = (case put cfg key (Some v) (obj r) ident now s of
     Inr (ver, s') \<Rightarrow> Inr s' | Inl (CasFailed _ _ _) \<Rightarrow> Inl CasConflict | Inl _ \<Rightarrow> Inl StoreError)"

definition mesh_rem :: "'v store_cfg \<Rightarrow> string \<Rightarrow> int \<Rightarrow> mesh_state \<Rightarrow> mesh_state option" where
  "mesh_rem cfg key v s = (case delete cfg key (Some v) s of Inr (Some ver, s') \<Rightarrow> Some s' | _ \<Rightarrow> None)"

inductive mesh_other :: "'v store_cfg \<Rightarrow> string \<Rightarrow> mesh_state \<Rightarrow> mesh_state \<Rightarrow> bool" for cfg key where
  Other_put: "k \<noteq> key \<Longrightarrow> put cfg k ifv value ident now s = Inr (ver, s') \<Longrightarrow> mesh_other cfg key s s'"
| Other_delete: "k \<noteq> key \<Longrightarrow> delete cfg k ifv s = Inr (r, s') \<Longrightarrow> mesh_other cfg key s s'"

text \<open>What is assumed of \<open>JSON\<close>: a record that was serialized is read back.\<close>

definition codec :: "'v store_cfg \<Rightarrow> (decision \<Rightarrow> 'v) \<Rightarrow> (string \<Rightarrow> decision option) \<Rightarrow> bool" where
  "codec cfg obj parse \<longleftrightarrow> (\<forall>r j. stringify cfg (obj r) = Some j \<longrightarrow> parse j = Some r)"

definition a_look :: "(string \<Rightarrow> decision option) \<Rightarrow> string \<Rightarrow> amesh \<Rightarrow> int \<times> decision option" where
  "a_look parse key a = (a_version a key, Option.bind (live a key) (\<lambda>x. parse (fst x)))"

lemma look_absm: "graved s \<Longrightarrow> mesh_look parse key s = a_look parse key (absm s)"
proof -
  assume g: "graved s"
  show ?thesis
  proof (cases "jm_get (m_entries s) key")
    case None
    then have "live (absm s) key = None" by (simp add: absm_def)
    with None show ?thesis by (simp add: mesh_look_def a_look_def a_version_absm [OF g])
  next
    case (Some r)
    with live_absm(2) [OF graved_ok [OF g] Some] show ?thesis by (auto simp: mesh_look_def a_look_def a_version_absm [OF g])
  qed
qed

lemma look_trim:
  assumes "token_ok a lg"
  shows "snd (a_look parse key (a_trim n a)) = snd (a_look parse key a)"
    and "fst (a_look parse key (a_trim n a)) = a_version a key \<or> (live a key = None \<and> fst (a_look parse key (a_trim n a)) = 0)"
proof -
  have d: "distinct (map fst (graves a))" using assms by (simp add: token_ok_def)
  show "snd (a_look parse key (a_trim n a)) = snd (a_look parse key a)" by (simp add: a_look_def a_trim_def)
  show "fst (a_look parse key (a_trim n a)) = a_version a key \<or> (live a key = None \<and> fst (a_look parse key (a_trim n a)) = 0)"
    using map_of_last_n [OF d, of n key] by (auto simp: a_look_def a_version_def a_trim_def split: option.splits)
qed

lemma put_abs:
  assumes g: "graved s" and p: "put cfg k ifv value ident now s = Inr (ver, s')"
  obtains vj ij a where "graved s'" "spec_capture cfg value ident = Inr (vj, ij)" "a_put k ifv vj ij now (absm s) = Inr (ver, a)"
    "absm s' = a_trim (max_tombstones cfg) a" "token_ok a [(key, slot_version s key), (k, ver)]"
proof -
  obtain vj ij a where a: "spec_capture cfg value ident = Inr (vj, ij)" "a_put k ifv vj ij now (absm s) = Inr (ver, a)"
    "absm s' = a_trim (max_tombstones cfg) a"
    using lift_abs_Inr [OF p put_refines [OF g]] by (auto simp: spec_put_def bind_e_Inr split: if_splits prod.splits)
  show thesis using that [OF _ a] put_tidy [OF g p] a_put_token [OF graved_token [OF g] a(2)] by (simp add: tidy_def)
qed

lemma delete_abs:
  assumes g: "graved s" and p: "delete cfg k ifv s = Inr (Some ver, s')"
  obtains a where "graved s'" "a_delete k ifv (absm s) = Inr (Some ver, a)" "absm s' = a_trim (max_tombstones cfg) a"
    "token_ok a [(key, slot_version s key), (k, ver)]"
proof -
  obtain a where a: "a_delete k ifv (absm s) = Inr (Some ver, a)" "absm s' = a_trim (max_tombstones cfg) a"
    using lift_abs_Inr [OF p delete_refines [OF g]] by (auto simp: spec_delete_def bind_e_Inr split: if_splits prod.splits)
  show thesis using that [OF _ a] delete_tidy [OF g p] a_delete_token [OF graved_token [OF g] a(1)] by (simp add: tidy_def)
qed

lemma a_put_look:
  assumes "a_put k ifv vj ij now a = Inr (ver, a')"
  shows "a_look parse key a' = (if key = k then (ver, parse vj) else a_look parse key a)"
  using assms by (auto simp: a_put_def Let_def a_look_def a_version_def map_of_filter_key split: if_splits cong: option.case_cong)

lemma map_of_regraved: "map_of (filter (\<lambda>p. fst p \<noteq> k) xs @ [(k, v)]) key = (if key = k then Some v else map_of xs key)"
  by (induction xs) auto

lemma a_delete_look:
  assumes "a_delete k ifv a = Inr (Some ver, a')"
  shows "a_look parse key a' = (if key = k then (ver, None) else a_look parse key a)"
  using assms by (auto simp: a_delete_def Let_def a_look_def a_version_def map_of_regraved split: if_splits cong: option.case_cong simp del: map_of_append)

text \<open>The laws of the slot, for every encoding of records, identity and key.\<close>

interpretation mesh: cas_slot "\<lambda>s. graved s \<and> codec cfg obj parse" "mesh_look parse key" "mesh_cas cfg obj ident key"
  "mesh_rem cfg key" "mesh_other cfg key"
  for cfg :: "'v store_cfg" and obj parse ident key
proof
  fix s v r
  assume k: "graved s \<and> codec cfg obj parse" and l: "mesh_look parse key s = (v, Some r)"
  have "live (absm s) key \<noteq> None" "v = a_version (absm s) key"
    using l k by (auto simp: look_absm a_look_def bind_eq_Some_conv)
  then show "0 < v" using graved_token [of s key] k by (auto simp: token_ok_def)
next
  fix s now v r s'
  assume k: "graved s \<and> codec cfg obj parse" and c: "mesh_cas cfg obj ident key now v r s = Inr s'" and v: "0 < v"
  then have g: "graved s" by simp
  from c obtain ver where p: "put cfg key (Some v) (obj r) ident now s = Inr (ver, s')"
    by (auto simp: mesh_cas_def split: sum.splits mesh_error.splits)
  obtain vj ij a where a: "graved s'" "spec_capture cfg (obj r) ident = Inr (vj, ij)" "a_put key (Some v) vj ij now (absm s) = Inr (ver, a)"
    "absm s' = a_trim (max_tombstones cfg) a" "token_ok a [(key, slot_version s key), (key, ver)]"
    using put_abs [OF g p, where key = key] by blast
  have "stringify cfg (obj r) = Some vj"
    using a(2) by (auto simp: spec_capture_def bind_e_Inr serialize_def split: option.splits if_splits)
  then have r: "parse vj = Some r" using k by (simp add: codec_def)
  have l: "a_look parse key a = (ver, Some r)" using a_put_look [OF a(3), of parse key] r by simp
  then have "snd (mesh_look parse key s') = Some r" "fst (mesh_look parse key s') = ver"
    using look_trim [OF a(5), of parse key "max_tombstones cfg"] by (auto simp: look_absm [OF a(1)] a(4) a_look_def split: bind_splits)
  moreover have "fst (mesh_look parse key s) = v" "v < ver"
    using a(3,5) by (auto simp: look_absm [OF g] a_look_def a_put_def cas_ok_def token_ok_def a_version_absm [OF g] split: if_splits)
  ultimately show "(graved s' \<and> codec cfg obj parse) \<and> fst (mesh_look parse key s) = v \<and> v < fst (mesh_look parse key s')
      \<and> snd (mesh_look parse key s') = Some r"
    using a(1) k by simp
next
  fix s v s'
  assume k: "graved s \<and> codec cfg obj parse" and c: "mesh_rem cfg key v s = Some s'" and v: "0 < v"
  then have g: "graved s" by simp
  from c obtain ver where p: "delete cfg key (Some v) s = Inr (Some ver, s')"
    by (auto simp: mesh_rem_def split: sum.splits option.splits)
  obtain a where a: "graved s'" "a_delete key (Some v) (absm s) = Inr (Some ver, a)" "absm s' = a_trim (max_tombstones cfg) a"
    "token_ok a [(key, slot_version s key), (key, ver)]"
    using delete_abs [OF g p, where key = key] by blast
  have l: "a_look parse key a = (ver, None)" using a_delete_look [OF a(2), of parse key] by simp
  then have "snd (mesh_look parse key s') = None" "fst (mesh_look parse key s') = ver \<or> fst (mesh_look parse key s') = 0"
    using look_trim [OF a(4), of parse key "max_tombstones cfg"] by (auto simp: look_absm [OF a(1)] a(3) a_look_def)
  moreover have "fst (mesh_look parse key s) = v" "v < ver"
    using a(2,4) by (auto simp: look_absm [OF g] a_look_def a_delete_def cas_ok_def token_ok_def a_version_absm [OF g] split: if_splits)
  ultimately show "(graved s' \<and> codec cfg obj parse) \<and> fst (mesh_look parse key s) = v
      \<and> (v < fst (mesh_look parse key s') \<or> fst (mesh_look parse key s') = 0) \<and> snd (mesh_look parse key s') = None"
    using a(1) k by auto
next
  fix s s'
  assume k: "graved s \<and> codec cfg obj parse" and o': "mesh_other cfg key s s'"
  then have g: "graved s" by simp
  obtain a lg where a: "graved s'" "absm s' = a_trim (max_tombstones cfg) a \<or> absm s' = absm s" "token_ok a lg" "a_look parse key a = a_look parse key (absm s)"
    using o'
  proof cases
    case (Other_put k ifv val ident now ver)
    obtain vj ij a where "graved s'" "a_put k ifv vj ij now (absm s) = Inr (ver, a)" "absm s' = a_trim (max_tombstones cfg) a"
      "token_ok a [(key, slot_version s key), (k, ver)]"
      using put_abs [OF g Other_put(2), where key = key] by blast
    then show thesis using that [of a] Other_put(1) a_put_look [of k ifv vj ij now "absm s" ver a parse key] by auto
  next
    case (Other_delete k ifv r)
    show thesis
    proof (cases r)
      case None
      then have "s' = s" using delete_tidy [OF g Other_delete(2)] by simp
      then show thesis using that [of "absm s"] g graved_token [OF g] by blast
    next
      case (Some ver)
      obtain a where "graved s'" "a_delete k ifv (absm s) = Inr (Some ver, a)" "absm s' = a_trim (max_tombstones cfg) a"
        "token_ok a [(key, slot_version s key), (k, ver)]"
        using delete_abs [OF g Other_delete(2) [unfolded Some], where key = key] by blast
      then show thesis using that [of a] Other_delete(1) a_delete_look [of k ifv "absm s" ver a parse key] by auto
    qed
  qed
  then show "(graved s' \<and> codec cfg obj parse) \<and> snd (mesh_look parse key s') = snd (mesh_look parse key s)
      \<and> (fst (mesh_look parse key s') = fst (mesh_look parse key s) \<or> snd (mesh_look parse key s) = None \<and> fst (mesh_look parse key s') = 0)"
    using k look_trim [OF a(3), of parse key "max_tombstones cfg"]
    by (auto simp: look_absm [OF a(1)] look_absm [OF g] a_look_def)
qed

section \<open>Raising, pruning, listing, waiting\<close>

definition MAX_OPEN_DECISIONS :: nat where "MAX_OPEN_DECISIONS = 200"
definition MAX_STORED_DECISIONS :: nat where "MAX_STORED_DECISIONS = 500"
definition RESOLVED_RETENTION_MS :: int where "RESOLVED_RETENTION_MS = 7 * 24 * 60 * 60 * 1000"

definition resolved_at :: "decision \<Rightarrow> int" where
  "resolved_at r = (case d_answer r of Some a \<Rightarrow> an_at a | None \<Rightarrow> d_created r)"

definition old :: "int \<Rightarrow> decision \<Rightarrow> bool" where
  "old now r \<longleftrightarrow> RESOLVED_RETENTION_MS < now - resolved_at r"

text \<open>The loop of \<open>#prune\<close>: the entries it asks the mesh to delete, in order.\<close>

primrec prune_loop :: "int \<Rightarrow> int \<Rightarrow> ('e \<times> decision) list \<Rightarrow> ('e \<times> decision) list" where
  "prune_loop now excess [] = []"
| "prune_loop now excess (x # xs) = (if \<not> old now (snd x) \<and> excess \<le> 0 then [] else x # prune_loop now (excess - 1) xs)"

definition resolved :: "('e \<times> decision) list \<Rightarrow> ('e \<times> decision) list" where
  "resolved entries = sort_key (\<lambda>x. resolved_at (snd x)) (filter (\<lambda>x. d_status (snd x) \<noteq> Open) entries)"

definition prune :: "int \<Rightarrow> ('e \<times> decision) list \<Rightarrow> ('e \<times> decision) list" where
  "prune now entries = prune_loop now (int (length entries) + 1 - int MAX_STORED_DECISIONS) (resolved entries)"

text \<open>\<open>raise\<close>, once the record is built: refused at the limit, else what it prunes before it puts with version 0.\<close>

definition raise_entries :: "int \<Rightarrow> ('e \<times> decision) list \<Rightarrow> ('e \<times> decision) list option" where
  "raise_entries now entries = (if MAX_OPEN_DECISIONS \<le> length (filter (\<lambda>x. d_status (snd x) = Open) entries)
     then None else Some (prune now entries))"

text \<open>\<open>list\<close>: newest first, ties by id; \<open>rank\<close> stands for the collation of \<open>localeCompare\<close>.\<close>

definition list_decisions :: "(string \<Rightarrow> nat) \<Rightarrow> status option \<Rightarrow> holder option \<Rightarrow> int option \<Rightarrow> decision list \<Rightarrow> decision list" where
  "list_decisions rank st h most rs = (let n = max 1 (min 200 (case most of None \<Rightarrow> 50 | Some l \<Rightarrow> l)) in
     take (nat n) (sort_key (\<lambda>r. - d_created r) (sort_key (\<lambda>r. rank (d_id r))
       (filter (\<lambda>r. (st = None \<or> st = Some (d_status r)) \<and> (h = None \<or> h = Some (d_holder r))) rs))))"

text \<open>One turn of \<open>wait\<close>: return the record, or sleep and poll again later.\<close>

datatype turn = Return decision | Sleep int int

definition wait_turn :: "int \<Rightarrow> int \<Rightarrow> int option \<Rightarrow> int \<Rightarrow> decision \<Rightarrow> turn" where
  "wait_turn started now timeout poll r = (if d_status r \<noteq> Open then Return r
     else if (case timeout of None \<Rightarrow> False | Some t \<Rightarrow> t \<le> now - started) then Return r
     else (let delay = Min (set (poll # (case timeout of None \<Rightarrow> [] | Some t \<Rightarrow> [started + t - now])
         @ (case d_deadline r of None \<Rightarrow> [] | Some d \<Rightarrow> [d - now]))) in
       Sleep (max 1 delay) (min 1000 ((poll * 3 + 1) div 2))))"

lemma prune_take:
  assumes "sorted (map (\<lambda>x. resolved_at (snd x)) xs)"
  shows "prune_loop now excess xs = take (max (length (filter (\<lambda>x. old now (snd x)) xs)) (nat excess)) xs"
  using assms
proof (induction xs arbitrary: excess)
  case (Cons x xs)
  show ?case
  proof (cases "old now (snd x)")
    case False
    then have "filter (\<lambda>x. old now (snd x)) xs = []" using Cons.prems by (force simp: filter_empty_conv old_def)
    then show ?thesis using False Cons by (auto simp: Suc_nat_eq_nat_zadd1 take_Cons' nat_diff_distrib)
  next
    case True
    have "nat (excess - 1) = nat excess - 1" by linarith
    then have "max (Suc n) (nat excess) = Suc (max n (nat (excess - 1)))" for n by linarith
    then show ?thesis using True Cons by simp
  qed
qed simp

lemma length_resolved: "length (resolved es) + length (filter (\<lambda>x. d_status (snd x) = Open) es) = length es"
  using sum_length_filter_compl [of "\<lambda>x. d_status (snd x) = Open" es] by (simp add: resolved_def)

section \<open>A call ends\<close>

text \<open>\<open>k\<close> steps of one call, whatever the others do to the slot in between.\<close>

inductive own_run :: "('s \<Rightarrow> int \<times> decision option) \<Rightarrow> (int \<Rightarrow> int \<Rightarrow> decision \<Rightarrow> 's \<Rightarrow> cas_error + 's) \<Rightarrow> client
    \<Rightarrow> nat \<Rightarrow> phase \<Rightarrow> bool" for look cas c where
  Begin: "own_run look cas c 0 (Looking 0)"
| Next_local: "own_run look cas c k p \<Longrightarrow> local_step look cas c s p p' \<Longrightarrow> own_run look cas c (Suc k) p'"
| Next_write: "own_run look cas c k p \<Longrightarrow> write_step look cas s p s' p' \<Longrightarrow> own_run look cas c (Suc k) p'"

fun steps_left :: "phase \<Rightarrow> nat" where
  "steps_left (Looking n) = (8 - n) * 30"
| "steps_left (Expiring n m v r) = (8 - n) * 30 - 27 + 3 * (8 - m)"
| "steps_left (ExpiryPut n m v r) = (8 - n) * 30 - 28 + 3 * (8 - m)"
| "steps_left (Rereading n m) = (8 - n) * 30 - 26 + 3 * (8 - m)"
| "steps_left (Deciding n v r) = (8 - n) * 30 - 28"
| "steps_left (Putting n v r) = (8 - n) * 30 - 29"
| "steps_left (Ended r) = 0"

fun attempts_ok :: "phase \<Rightarrow> bool" where
  "attempts_ok (Looking n) = (n < 8)"
| "attempts_ok (Expiring n m v r) = (n < 8 \<and> m < 8)"
| "attempts_ok (ExpiryPut n m v r) = (n < 8 \<and> m < 8)"
| "attempts_ok (Rereading n m) = (n < 8 \<and> m \<le> 8)"
| "attempts_ok (Deciding n v r) = (n < 8)"
| "attempts_ok (Putting n v r) = (n < 8)"
| "attempts_ok (Ended r) = True"

lemma local_rank:
  "local_step look cas c s p p' \<Longrightarrow> attempts_ok p \<Longrightarrow> attempts_ok p' \<and> steps_left p' < steps_left p"
  by (erule local_step.cases) (auto simp: ATTEMPTS_def)

lemma write_rank:
  "write_step look cas s p s' p' \<Longrightarrow> attempts_ok p \<Longrightarrow> attempts_ok p' \<and> steps_left p' < steps_left p"
  by (erule write_step.cases) auto

lemma call_rank: "own_run look cas c k p \<Longrightarrow> attempts_ok p \<and> k + steps_left p \<le> 240"
proof (induction rule: own_run.induct)
  case (Next_local k p s p') then show ?case using local_rank by fastforce
next
  case (Next_write k p s s' p') then show ?case using write_rank by fastforce
qed simp

lemma call_progress: "(\<exists>r. p = Ended r) \<or> (\<exists>p'. local_step look cas c s p p') \<or> (\<exists>s' p'. write_step look cas s p s' p')"
proof (cases p)
  case (Looking n)
  have "\<exists>p'. local_step look cas c s (Looking n) p'"
  proof (cases "snd (look s)")
    case None then show ?thesis by (intro exI) (rule Missing)
  next
    case (Some r)
    then have "look s = (fst (look s), Some r)" by (simp add: prod_eq_iff)
    then show ?thesis using Found by metis
  qed
  then show ?thesis using Looking by blast
next
  case (Expiring n m v r)
  have "\<exists>p'. local_step look cas c s (Expiring n m v r) p'"
    by (metis local_step.Current local_step.Passed)
  then show ?thesis using Expiring by blast
next
  case (ExpiryPut n m v r)
  show ?thesis
  proof (cases "cas 0 v r s")
    case (Inl e) then show ?thesis using ExpiryPut by (cases e) (auto intro: local_step.intros)
  qed (use ExpiryPut in \<open>auto intro: write_step.intros\<close>)
next
  case (Rereading n m)
  have "\<exists>p'. local_step look cas c s (Rereading n m) p'"
  proof (cases "snd (look s)")
    case None then show ?thesis by (intro exI) (rule Gone)
  next
    case (Some r)
    then have "look s = (fst (look s), Some r)" by (simp add: prod_eq_iff)
    from Reread [where look = look and cas = cas and c = c and s = s and n = n and m = m, OF this]
      Expiry_contended [where look = look and cas = cas and c = c and s = s and n = n and m = m] Some
    show ?thesis by (cases "m < ATTEMPTS") auto
  qed
  then show ?thesis using Rereading by blast
next
  case (Deciding n v r)
  show ?thesis
  proof (cases "cl_request c")
    case (Transition a)
    show ?thesis
    proof (cases "d_status r = Open")
      case True
      then show ?thesis using Deciding Transition by (cases "next_record a (cl_allow c) 0 r") (auto intro: local_step.intros)
    qed (use Deciding Transition in \<open>auto intro: local_step.intros\<close>)
  qed (use Deciding in \<open>auto intro: local_step.intros\<close>)
next
  case (Putting n v u)
  show ?thesis
  proof (cases "cas 0 v u s")
    case (Inl e) then show ?thesis using Putting by (cases e; cases "Suc n < ATTEMPTS") (auto simp: not_less intro: local_step.intros)
  qed (use Putting in \<open>auto intro: write_step.intros\<close>)
qed simp

section \<open>Properties\<close>

text \<open>C25: Two answerers cannot both win. Whatever callers answer, cancel, escalate or read a decision at once, over the mesh
  state and next to any other mesh calls and prunings: a call that reports success wrote its record over an open one that its
  own authorization accepted, at the version it read; at most one such call resolves the decision; and its record stays until
  it is pruned.\<close>

theorem decision_resolved_once:
  assumes "reachable (mesh_look parse key) (mesh_cas cfg obj ident key) (mesh_rem cfg key) (mesh_other cfg key) cs s0 (s, ph, lg)"
    and "graved s0" and "codec cfg obj parse"
  shows "(\<forall>i u. ph i = Ended (Won u) \<longrightarrow> (\<exists>a b now v v'. cl_request (cs i) = Transition a
        \<and> (i, (v, Some b), (v', Some u)) \<in> set lg \<and> d_status b = Open \<and> cl_allow (cs i) b \<and> next_record a (cl_allow (cs i)) now b = Inr u))
    \<and> (\<forall>i j u w. ph i = Ended (Won u) \<and> ph j = Ended (Won w) \<and> d_status u \<noteq> Open \<and> d_status w \<noteq> Open \<longrightarrow> i = j)
    \<and> (\<forall>i u. ph i = Ended (Won u) \<and> d_status u \<noteq> Open \<longrightarrow> snd (mesh_look parse key s) = Some u \<or> snd (mesh_look parse key s) = None)"
proof -
  have g: "graved s0 \<and> codec cfg obj parse" using assms(2,3) by simp
  note k = mesh.slot_reachable_ok [OF g assms(1)]
  show ?thesis
  proof (intro conjI allI impI)
    show "i = j" if "ph i = Ended (Won u) \<and> ph j = Ended (Won w) \<and> d_status u \<noteq> Open \<and> d_status w \<noteq> Open" for i j u w
      using mesh.won_resolves [OF k, of i u] mesh.won_resolves [OF k, of j w] that by simp
    show "snd (mesh_look parse key s) = Some u \<or> snd (mesh_look parse key s) = None"
      if "ph i = Ended (Won u) \<and> d_status u \<noteq> Open" for i u
      using mesh.won_resolves [OF k, of i u] that by simp
  qed (use mesh.won_written [OF k] in simp)
qed

text \<open>A call ends: within 240 of its own steps whatever the other callers do, and it is never stuck before.\<close>

theorem decision_call_terminates:
  assumes "own_run look cas c k p"
  shows "k \<le> 240 \<and> ((\<exists>r. p = Ended r) \<or> (\<forall>s. \<exists>p' s'. local_step look cas c s p p' \<or> write_step look cas s p s' p'))"
  using call_rank [OF assms] call_progress [of p look cas c] by (metis add_leD1)

text \<open>The store stays bounded: when a raise is admitted, what it prunes are resolved decisions only, exactly the longest
  resolved ones: all past retention, and as many as it takes to stay within the bound with the new one.\<close>

theorem raise_keeps_store_bounded:
  assumes "raise_entries now entries = Some ps"
  shows "length entries - length ps + 1 \<le> MAX_STORED_DECISIONS
    \<and> ps = take (max (length (filter (\<lambda>x. old now (snd x)) (resolved entries))) (length entries + 1 - MAX_STORED_DECISIONS)) (resolved entries)
    \<and> (\<forall>x \<in> set ps. x \<in> set entries \<and> d_status (snd x) \<noteq> Open)"
proof -
  let ?n = "max (length (filter (\<lambda>x. old now (snd x)) (resolved entries))) (length entries + 1 - MAX_STORED_DECISIONS)"
  have o': "length (filter (\<lambda>x. d_status (snd x) = Open) entries) < 200" and ps: "ps = prune now entries"
    using assms by (auto simp: raise_entries_def MAX_OPEN_DECISIONS_def split: if_splits)
  have "sorted (map (\<lambda>x. resolved_at (snd x)) (resolved entries))" by (simp add: resolved_def)
  then have t: "ps = take ?n (resolved entries)"
  proof -
    have "nat (int (length entries) + 1 - int MAX_STORED_DECISIONS) = length entries + 1 - MAX_STORED_DECISIONS" by linarith
    then show ?thesis unfolding ps prune_def prune_take [OF \<open>sorted _\<close>] by (simp only:)
  qed
  have "length entries - length ps + 1 \<le> MAX_STORED_DECISIONS"
    using length_resolved [of entries] o' t by (simp add: MAX_STORED_DECISIONS_def)
  moreover have "\<forall>x \<in> set ps. x \<in> set entries \<and> d_status (snd x) \<noteq> Open"
    unfolding t by (auto simp: resolved_def dest: in_set_takeD)
  ultimately show ?thesis using t by blast
qed

section \<open>A run\<close>

text \<open>Two callers cancel the same decision: the first writes, the second conflicts, reads again and finds it cancelled.\<close>

definition demo_open :: decision where
  "demo_open = \<lparr>d_id = ''dec_12345678'', d_kind = Question, d_title = ''Ship?'', d_body = None, d_options = None, d_input = TextInput,
     d_participant = ''main'', d_run = None, d_session = None, d_holder = Supervisor ''lead'', d_created = 0, d_deadline = Some 1000,
     d_on_expire = OnCancel, d_default = None, d_escalation = None, d_history = [], d_status = Open, d_answer = None\<rparr>"

definition demo_cancelled :: decision where
  "demo_cancelled = demo_open\<lparr>d_status := Cancelled,
     d_answer := Some \<lparr>an_option = None, an_text = None, an_by = ''root'', an_via = ''cli'', an_at = 5\<rparr>\<rparr>"

definition demo_cfg :: "(decision + unit) store_cfg" where
  "demo_cfg = \<lparr>stringify = (\<lambda>v. case v of Inr _ \<Rightarrow> Some ''me'' | Inl d \<Rightarrow> if d = demo_open then Some ''open''
       else if d = demo_cancelled then Some ''cancelled'' else None),
     byte_length = (\<lambda>s. int (length s)), max_event_bytes = 100, max_tombstones = 2\<rparr>"

definition demo_parse :: "string \<Rightarrow> decision option" where
  "demo_parse j = (if j = ''open'' then Some demo_open else if j = ''cancelled'' then Some demo_cancelled else None)"

definition demo_state :: mesh_state where
  "demo_state = (case put demo_cfg ''decisions/dec_12345678'' (Some 0) (Inl demo_open) (Inr ()) 0 empty_state of Inr (_, s) \<Rightarrow> s | Inl _ \<Rightarrow> empty_state)"

definition demo_later :: mesh_state where
  "demo_later = (case mesh_cas demo_cfg Inl (Inr ()) ''decisions/dec_12345678'' 5 1 demo_cancelled demo_state of Inr s \<Rightarrow> s | Inl _ \<Rightarrow> empty_state)"

definition demo_clients :: "nat \<Rightarrow> client" where
  "demo_clients i = \<lparr>cl_request = Transition (Cancel ''root'' ''cli''), cl_allow = (\<lambda>r. d_holder r = Supervisor ''lead'')\<rparr>"

lemma demo_codec: "codec demo_cfg Inl demo_parse"
proof -
  have "demo_open \<noteq> demo_cancelled" by code_simp
  then show ?thesis by (auto simp: codec_def demo_cfg_def demo_parse_def split: if_splits)
qed

lemma demo_put: "put demo_cfg ''decisions/dec_12345678'' (Some 0) (Inl demo_open) (Inr ()) 0 empty_state = Inr (1, demo_state)"
  by code_simp

lemma demo_look: "mesh_look demo_parse ''decisions/dec_12345678'' demo_state = (1, Some demo_open)"
  by code_simp

lemma demo_swap: "mesh_cas demo_cfg Inl (Inr ()) ''decisions/dec_12345678'' 5 1 demo_cancelled demo_state = Inr demo_later"
  by code_simp

lemma demo_conflict: "mesh_cas demo_cfg Inl (Inr ()) ''decisions/dec_12345678'' 6 1 demo_cancelled demo_later = Inl CasConflict"
  by code_simp

lemma demo_look_later: "mesh_look demo_parse ''decisions/dec_12345678'' demo_later = (2, Some demo_cancelled)"
  by code_simp

lemma demo_current: "apply_decision_deadline demo_open 4 = demo_open"
  by code_simp

lemma demo_current_later: "apply_decision_deadline demo_cancelled 7 = demo_cancelled"
  by code_simp

lemma demo_next: "next_record (Cancel ''root'' ''cli'') (\<lambda>r. d_holder r = Supervisor ''lead'') 5 demo_open = Inr demo_cancelled"
  by code_simp

lemma demo_graved: "graved demo_state"
  by (rule put_abs [OF empty_graved demo_put, where key = "[]"]) assumption

abbreviation "demo_look_at \<equiv> mesh_look demo_parse ''decisions/dec_12345678''"
abbreviation "demo_cas \<equiv> mesh_cas demo_cfg Inl (Inr ()) ''decisions/dec_12345678''"
abbreviation "demo_rem \<equiv> mesh_rem demo_cfg ''decisions/dec_12345678''"
abbreviation "demo_other \<equiv> mesh_other demo_cfg ''decisions/dec_12345678''"

lemma demo_steps:
  "local_step demo_look_at demo_cas (demo_clients i) demo_state (Looking 0) (Expiring 0 0 1 demo_open)"
  "local_step demo_look_at demo_cas (demo_clients i) demo_state (Expiring 0 0 1 demo_open) (Deciding 0 1 demo_open)"
  "local_step demo_look_at demo_cas (demo_clients i) demo_state (Deciding 0 1 demo_open) (Putting 0 1 demo_cancelled)"
  "write_step demo_look_at demo_cas demo_state (Putting 0 1 demo_cancelled) demo_later (Ended (Won demo_cancelled))"
  "local_step demo_look_at demo_cas (demo_clients i) demo_later (Putting 0 1 demo_cancelled) (Looking 1)"
  "local_step demo_look_at demo_cas (demo_clients i) demo_later (Looking 1) (Expiring 1 0 2 demo_cancelled)"
  "local_step demo_look_at demo_cas (demo_clients i) demo_later (Expiring 1 0 2 demo_cancelled) (Deciding 1 2 demo_cancelled)"
  "local_step demo_look_at demo_cas (demo_clients i) demo_later (Deciding 1 2 demo_cancelled) (Ended (Lost (NotOpen Cancelled)))"
proof -
  have c: "cl_request (demo_clients i) = Transition (Cancel ''root'' ''cli'')" by (simp add: demo_clients_def)
  have n: "next_record (Cancel ''root'' ''cli'') (cl_allow (demo_clients i)) 5 demo_open = Inr demo_cancelled"
    using demo_next by (simp add: demo_clients_def)
  have o': "d_status demo_open = Open" "d_status demo_cancelled = Cancelled" by code_simp+
  show "local_step demo_look_at demo_cas (demo_clients i) demo_state (Looking 0) (Expiring 0 0 1 demo_open)"
    by (rule Found) (rule demo_look)
  show "local_step demo_look_at demo_cas (demo_clients i) demo_state (Expiring 0 0 1 demo_open) (Deciding 0 1 demo_open)"
    by (rule Current) (rule demo_current)
  show "local_step demo_look_at demo_cas (demo_clients i) demo_state (Deciding 0 1 demo_open) (Putting 0 1 demo_cancelled)"
    by (rule Decided [OF c o'(1) n])
  show "write_step demo_look_at demo_cas demo_state (Putting 0 1 demo_cancelled) demo_later (Ended (Won demo_cancelled))"
    by (rule Committed) (rule demo_swap)
  show "local_step demo_look_at demo_cas (demo_clients i) demo_later (Putting 0 1 demo_cancelled) (Looking 1)"
    unfolding One_nat_def by (rule Conflict) (rule demo_conflict, simp add: ATTEMPTS_def)
  show "local_step demo_look_at demo_cas (demo_clients i) demo_later (Looking 1) (Expiring 1 0 2 demo_cancelled)"
    by (rule Found) (rule demo_look_later)
  show "local_step demo_look_at demo_cas (demo_clients i) demo_later (Expiring 1 0 2 demo_cancelled) (Deciding 1 2 demo_cancelled)"
    by (rule Current) (rule demo_current_later)
  show "local_step demo_look_at demo_cas (demo_clients i) demo_later (Deciding 1 2 demo_cancelled) (Ended (Lost (NotOpen Cancelled)))"
    unfolding o'(2) [symmetric] by (rule Closed [OF c]) (simp add: o')
qed

abbreviation "demo_run \<equiv> reachable demo_look_at demo_cas demo_rem demo_other demo_clients demo_state"

lemma demo_local: "demo_run (s, ph, lg) \<Longrightarrow> local_step demo_look_at demo_cas (demo_clients i) s (ph i) p \<Longrightarrow> demo_run (s, ph(i := p), lg)"
  by (rule Step [OF _ Local])

lemma contest_reachable:
  "\<exists>ph lg. demo_run (demo_later, ph, lg) \<and> ph 0 = Ended (Won demo_cancelled) \<and> ph 1 = Ended (Lost (NotOpen Cancelled))"
proof -
  have two: "demo_run (demo_state, ph(i := Putting 0 1 demo_cancelled), lg)" if "demo_run (demo_state, ph, lg)" "ph i = Looking 0" for ph i lg
  proof -
    have "demo_run (demo_state, ph(i := Expiring 0 0 1 demo_open), lg)" by (rule demo_local [OF that(1)]) (simp only: that demo_steps)
    from demo_local [OF this, of i "Deciding 0 1 demo_open"] have "demo_run (demo_state, ph(i := Deciding 0 1 demo_open), lg)"
      by (simp add: demo_steps)
    from demo_local [OF this, of i "Putting 0 1 demo_cancelled"] show ?thesis by (simp add: demo_steps)
  qed
  let ?ph = "(\<lambda>_. Looking 0)(0 := Putting 0 1 demo_cancelled, 1 := Putting 0 1 demo_cancelled)"
  have "demo_run (demo_state, ?ph, [])" by (rule two, rule two, rule Start) simp_all
  from Step [OF this Write, of 0 demo_later "Ended (Won demo_cancelled)"]
  obtain lg where w: "demo_run (demo_later, ?ph(0 := Ended (Won demo_cancelled)), lg)" by (auto simp: demo_steps)
  from demo_local [OF w, of 1 "Looking 1"] have "demo_run (demo_later, ?ph(0 := Ended (Won demo_cancelled), 1 := Looking 1), lg)"
    using demo_steps(5) [of 1] by simp
  from demo_local [OF this, of 1 "Expiring 1 0 2 demo_cancelled"]
  have "demo_run (demo_later, ?ph(0 := Ended (Won demo_cancelled), 1 := Expiring 1 0 2 demo_cancelled), lg)"
    using demo_steps(6) [of 1] by simp
  from demo_local [OF this, of 1 "Deciding 1 2 demo_cancelled"]
  have "demo_run (demo_later, ?ph(0 := Ended (Won demo_cancelled), 1 := Deciding 1 2 demo_cancelled), lg)"
    using demo_steps(7) [of 1] by simp
  from demo_local [OF this, of 1 "Ended (Lost (NotOpen Cancelled))"]
  have "demo_run (demo_later, ?ph(0 := Ended (Won demo_cancelled), 1 := Ended (Lost (NotOpen Cancelled))), lg)"
    using demo_steps(8) [of 1] by simp
  then show ?thesis by fastforce
qed

theorem decision_resolved_once_witness:
  "\<exists>ph lg. demo_run (demo_later, ph, lg) \<and> ph 0 = Ended (Won demo_cancelled) \<and> ph 1 = Ended (Lost (NotOpen Cancelled))
     \<and> (\<exists>b now v v'. (0, (v, Some b), (v', Some demo_cancelled)) \<in> set lg \<and> d_status b = Open \<and> cl_allow (demo_clients 0) b
        \<and> next_record (Cancel ''root'' ''cli'') (cl_allow (demo_clients 0)) now b = Inr demo_cancelled)"
proof -
  obtain ph lg where r: "demo_run (demo_later, ph, lg)" "ph 0 = Ended (Won demo_cancelled)" "ph 1 = Ended (Lost (NotOpen Cancelled))"
    using contest_reachable by blast
  have c: "cl_request (demo_clients 0) = Transition (Cancel ''root'' ''cli'')" by (simp add: demo_clients_def)
  from decision_resolved_once [OF r(1) demo_graved demo_codec, THEN conjunct1, rule_format, OF r(2)] c
  obtain b now v v' where "(0, (v, Some b), (v', Some demo_cancelled)) \<in> set lg" "d_status b = Open" "cl_allow (demo_clients 0) b"
    "next_record (Cancel ''root'' ''cli'') (cl_allow (demo_clients 0)) now b = Inr demo_cancelled" by auto
  with r show ?thesis by blast
qed

theorem decision_call_terminates_witness:
  "\<exists>k p. own_run demo_look_at demo_cas (demo_clients 0) k p \<and> k = 4 \<and> k \<le> 240 \<and> p = Ended (Won demo_cancelled)"
proof -
  have r: "own_run demo_look_at demo_cas (demo_clients 0) (Suc (Suc (Suc (Suc 0)))) (Ended (Won demo_cancelled))"
    by (rule Next_write [OF Next_local [OF Next_local [OF Next_local [OF Begin demo_steps(1)] demo_steps(2)] demo_steps(3)] demo_steps(4)])
  have "Suc (Suc (Suc (Suc 0))) = 4" by simp
  then show ?thesis using r conjunct1 [OF decision_call_terminates [OF r]] by metis
qed

lemma map_option_obtain: "map_option f x = Some y \<Longrightarrow> \<exists>p. x = Some p \<and> f p = y"
  by (cases x) simp_all

theorem raise_keeps_store_bounded_witness:
  "\<exists>ps. raise_entries 604800006 [(''a'', demo_open), (''b'', demo_cancelled)] = Some ps \<and> map fst ps = [''b'']
     \<and> length [(''a'', demo_open), (''b'', demo_cancelled)] - length ps + 1 \<le> MAX_STORED_DECISIONS"
proof -
  have "map_option (map fst) (raise_entries 604800006 [(''a'', demo_open), (''b'', demo_cancelled)]) = Some [''b'']" by code_simp
  from map_option_obtain [OF this] obtain ps where p: "raise_entries 604800006 [(''a'', demo_open), (''b'', demo_cancelled)] = Some ps"
    and f: "map fst ps = [''b'']" by (elim exE conjE) (rule that)
  show ?thesis by (intro exI conjI) (rule p, rule f, rule conjunct1 [OF raise_keeps_store_bounded [OF p]])
qed

end
