(* ===== verification/LifecycleTypes.thy ===== *)
theory LifecycleTypes imports Prelude begin

text \<open>
  Lifecycle events and subscriptions as they travel through the mesh (\<^verbatim>\<open>src/src/lifecycle/types.ts\<close>): the JSON an event is
  published as and what a reader accepts of it, the JSON of a subscription, and the test that an event's source is owned
  by the participant of that name (\<^verbatim>\<open>src/src/lifecycle/broker.ts\<close>, \<open>#ownsSource\<close>). Both round trips are shown.
\<close>

section \<open>Names\<close>

definition LIFECYCLE_TOPIC :: string where "LIFECYCLE_TOPIC = ''fabric.participant.lifecycle''"
definition SUBSCRIPTION_PREFIX :: string where "SUBSCRIPTION_PREFIX = ''topology/subscriptions/''"

definition LIFECYCLE_EVENTS :: "string list" where
  "LIFECYCLE_EVENTS = [''pi.input'', ''pi.agent_start'', ''pi.agent_end'', ''pi.turn_end'', ''pi.agent_settled'',
     ''pi.tool_error'', ''pi.session_compact'', ''run.spawned'', ''run.completed'', ''run.failed'', ''run.stopped'',
     ''run.timed_out'', ''run.resumed'', ''run.detached'', ''tokens.usage'', ''component.state'']"

definition subscription_key :: "string \<Rightarrow> string" where
  "subscription_key i = SUBSCRIPTION_PREFIX @ i"

lemma subscription_key_inj [simp]: "subscription_key i = subscription_key j \<longleftrightarrow> i = j"
  by (simp add: subscription_key_def)

text \<open>\<open>^[a-z][a-z0-9]*(?:[._-][a-z0-9]+)*$\<close>, at most 64 characters; the flag says that a letter or digit came last.\<close>

definition lower :: "char \<Rightarrow> bool" where
  "lower c \<longleftrightarrow> c \<in> set ''abcdefghijklmnopqrstuvwxyz''"

definition lower_or_digit :: "char \<Rightarrow> bool" where
  "lower_or_digit c \<longleftrightarrow> lower c \<or> c \<in> set ''0123456789''"

fun runner_rest :: "bool \<Rightarrow> string \<Rightarrow> bool" where
  "runner_rest b [] = b"
| "runner_rest b (c # cs) = (if lower_or_digit c then runner_rest True cs else b \<and> c \<in> set ''._-'' \<and> runner_rest False cs)"

definition runner_pattern :: "string \<Rightarrow> bool" where
  "runner_pattern s = (case s of [] \<Rightarrow> False | c # cs \<Rightarrow> lower c \<and> runner_rest True cs)"

definition runner_id :: "json option \<Rightarrow> string option" where
  "runner_id v = (case v of Some (JStr s) \<Rightarrow> if length s \<le> 64 \<and> runner_pattern s then Some s else None | _ \<Rightarrow> None)"

datatype pkind = Root | Agent | Actor | Provider

definition kind_name :: "pkind \<Rightarrow> string" where
  "kind_name k = (case k of Root \<Rightarrow> ''root'' | Agent \<Rightarrow> ''agent'' | Actor \<Rightarrow> ''actor'' | Provider \<Rightarrow> ''provider'')"

definition participant_kind :: "json option \<Rightarrow> pkind option" where
  "participant_kind v = (if v = Some (JStr ''root'') then Some Root else if v = Some (JStr ''agent'') then Some Agent
     else if v = Some (JStr ''actor'') then Some Actor else None)"

section \<open>Records\<close>

record identity =
  i_id :: string
  i_name :: string
  i_kind :: string

record source =
  ls_id :: string
  ls_name :: string
  ls_kind :: pkind
  ls_root :: string
  ls_runner :: string
  ls_host :: "string option"
  ls_ident :: "string option"

record publish_request =
  q_source :: source
  q_event :: string
  q_at :: rat
  q_run :: "string option"
  q_status :: "string option"
  q_data :: "json option"

record mesh_event =
  ev_id :: string
  ev_seq :: rat
  ev_topic :: string
  ev_kind :: string
  ev_from :: identity
  ev_data :: "json option"
  ev_at :: rat

record lifecycle_event =
  le_id :: string
  le_seq :: rat
  le_event :: string
  le_source :: source
  le_at :: rat
  le_published :: rat
  le_run :: "string option"
  le_status :: "string option"
  le_data :: "json option"

text \<open>A subscription; the fields the reader does not check stay JSON, and \<open>s_rest\<close> holds fields of other names.\<close>

datatype delivery = Steer | FollowUp

record subscription =
  s_id :: string
  s_from :: string
  s_events :: "string list"
  s_to :: string
  s_delivery :: delivery
  s_trigger :: bool
  s_once :: bool
  s_after :: rat
  s_created :: rat
  s_updated :: rat
  s_by :: json
  s_last_at :: "json option"
  s_last_event :: "json option"
  s_last_error :: "json option"
  s_rest :: "(string \<times> json) list"

record participant =
  p_kind :: pkind
  p_root :: string
  p_runner :: "string option"
  p_host :: "string option"
  p_ident :: "string option"
  p_stale :: bool
  p_local :: bool
  p_caps :: "string list"

section \<open>Events\<close>

definition is_lifecycle_type :: "json option \<Rightarrow> bool" where
  "is_lifecycle_type v = (case v of Some (JStr s) \<Rightarrow> s \<in> set LIFECYCLE_EVENTS | _ \<Rightarrow> False)"

definition source_identity :: "source \<Rightarrow> identity" where
  "source_identity s = \<lparr>i_id = ls_id s, i_name = ls_name s,
     i_kind = (case ls_kind s of Root \<Rightarrow> ''main'' | Provider \<Rightarrow> ''agent'' | k \<Rightarrow> kind_name k)\<rparr>"

definition as_string :: "json option \<Rightarrow> string option" where
  "as_string v = (case v of Some (JStr s) \<Rightarrow> Some s | _ \<Rightarrow> None)"

definition as_number :: "json option \<Rightarrow> rat option" where
  "as_number v = (case v of Some (JNum n) \<Rightarrow> Some n | _ \<Rightarrow> None)"

text \<open>\<open>lifecycleEventFromMesh\<close>: first the envelope, then the source, then what is kept of the rest.\<close>

definition parse_source :: "identity \<Rightarrow> json \<Rightarrow> source option" where
  "parse_source who v =
     Option.bind (participant_kind (jfield v ''kind'')) (\<lambda>kind.
     Option.bind (runner_id (jfield v ''runner'')) (\<lambda>runner.
     Option.bind (as_string (jfield v ''id'')) (\<lambda>i.
     Option.bind (as_string (jfield v ''name'')) (\<lambda>name.
     Option.bind (as_string (jfield v ''rootId'')) (\<lambda>root.
       if i_id who = i \<and> (if kind = Root then i_kind who = ''main'' else i_kind who = kind_name kind)
       then Some \<lparr>ls_id = i, ls_name = name, ls_kind = kind, ls_root = root, ls_runner = runner,
         ls_host = as_string (jfield v ''ownerHostId''), ls_ident = as_string (jfield v ''ownerIdentityId'')\<rparr>
       else None)))))"

definition event_of_mesh :: "mesh_event \<Rightarrow> lifecycle_event option" where
  "event_of_mesh e = (case ev_data e of None \<Rightarrow> None | Some d \<Rightarrow>
     if ev_topic e \<noteq> LIFECYCLE_TOPIC \<or> \<not> is_record d \<or> jfield d ''version'' \<noteq> Some (JNum 1)
        \<or> \<not> is_lifecycle_type (jfield d ''event'') \<or> jfield d ''event'' \<noteq> Some (JStr (ev_kind e)) then None
     else case jfield d ''source'' of None \<Rightarrow> None | Some v \<Rightarrow>
       if \<not> is_record v then None
       else Option.bind (parse_source (ev_from e) v) (\<lambda>src.
         Option.bind (as_number (jfield d ''occurredAt'')) (\<lambda>t.
           Some \<lparr>le_id = ev_id e, le_seq = ev_seq e, le_event = ev_kind e, le_source = src, le_at = t, le_published = ev_at e,
             le_run = as_string (jfield d ''runId''), le_status = as_string (jfield d ''status''),
             le_data = jfield d ''payload''\<rparr>)))"

text \<open>What \<open>publish\<close> hands to the mesh: an optional text is sent when it is not empty.\<close>

definition opt_field :: "string \<Rightarrow> json option \<Rightarrow> (string \<times> json) list" where
  "opt_field k v = (case v of None \<Rightarrow> [] | Some x \<Rightarrow> [(k, x)])"

definition nonempty :: "string option \<Rightarrow> string option" where
  "nonempty v = (if v = Some [] then None else v)"

definition value_of_source :: "source \<Rightarrow> json" where
  "value_of_source s = JObj ([(''id'', JStr (ls_id s)), (''name'', JStr (ls_name s)), (''kind'', JStr (kind_name (ls_kind s))),
     (''rootId'', JStr (ls_root s)), (''runner'', JStr (ls_runner s))]
     @ opt_field ''ownerHostId'' (map_option JStr (ls_host s)) @ opt_field ''ownerIdentityId'' (map_option JStr (ls_ident s)))"

definition published_data :: "publish_request \<Rightarrow> json" where
  "published_data q = JObj ([(''version'', JNum 1), (''event'', JStr (q_event q)), (''source'', value_of_source (q_source q)),
     (''occurredAt'', JNum (q_at q))] @ opt_field ''runId'' (map_option JStr (nonempty (q_run q)))
     @ opt_field ''status'' (map_option JStr (nonempty (q_status q))) @ opt_field ''payload'' (q_data q))"

definition published_event :: "publish_request \<Rightarrow> string \<Rightarrow> rat \<Rightarrow> rat \<Rightarrow> mesh_event" where
  "published_event q i n now = \<lparr>ev_id = i, ev_seq = n, ev_topic = LIFECYCLE_TOPIC, ev_kind = q_event q,
     ev_from = source_identity (q_source q), ev_data = Some (published_data q), ev_at = now\<rparr>"

section \<open>Subscriptions\<close>

definition delivery_name :: "delivery \<Rightarrow> string" where
  "delivery_name d = (case d of Steer \<Rightarrow> ''steer'' | FollowUp \<Rightarrow> ''followUp'')"

definition parse_delivery :: "json option \<Rightarrow> delivery option" where
  "parse_delivery v = (if v = Some (JStr ''steer'') then Some Steer else if v = Some (JStr ''followUp'') then Some FollowUp else None)"

definition as_bool :: "json option \<Rightarrow> bool option" where
  "as_bool v = (case v of Some (JBool b) \<Rightarrow> Some b | _ \<Rightarrow> None)"

definition event_name :: "json \<Rightarrow> string" where
  "event_name v = (case v of JStr s \<Rightarrow> s | _ \<Rightarrow> [])"

definition parse_events :: "json option \<Rightarrow> string list option" where
  "parse_events v = (case v of Some (JArr xs) \<Rightarrow>
     if xs \<noteq> [] \<and> (\<forall>x \<in> set xs. is_lifecycle_type (Some x)) then Some (map event_name xs) else None | _ \<Rightarrow> None)"

definition identity_json :: "json \<Rightarrow> bool" where
  "identity_json v \<longleftrightarrow> is_record v \<and> as_string (jfield v ''id'') \<noteq> None \<and> as_string (jfield v ''name'') \<noteq> None
     \<and> jfield v ''kind'' \<in> {Some (JStr ''main''), Some (JStr ''agent''), Some (JStr ''actor'')}"

definition SUBSCRIPTION_FIELDS :: "string list" where
  "SUBSCRIPTION_FIELDS = [''format'', ''id'', ''from'', ''events'', ''to'', ''delivery'', ''triggerTurn'', ''once'', ''afterSequence'',
     ''createdAt'', ''updatedAt'', ''createdBy'', ''lastDeliveredAt'', ''lastEventId'', ''lastError'']"

definition rest_fields :: "json \<Rightarrow> (string \<times> json) list" where
  "rest_fields v = (case v of JObj fs \<Rightarrow> filter (\<lambda>p. fst p \<notin> set SUBSCRIPTION_FIELDS) fs | _ \<Rightarrow> [])"

definition subscription_of_value :: "json \<Rightarrow> subscription option" where
  "subscription_of_value v =
     (if \<not> is_record v \<or> jfield v ''format'' \<noteq> Some (JNum 1) then None
      else case jfield v ''createdBy'' of None \<Rightarrow> None | Some who \<Rightarrow>
     Option.bind (as_string (jfield v ''id'')) (\<lambda>i.
     Option.bind (as_string (jfield v ''from'')) (\<lambda>src.
     Option.bind (as_string (jfield v ''to'')) (\<lambda>dst.
     Option.bind (parse_events (jfield v ''events'')) (\<lambda>evs.
     Option.bind (parse_delivery (jfield v ''delivery'')) (\<lambda>dl.
     Option.bind (as_bool (jfield v ''triggerTurn'')) (\<lambda>tr.
     Option.bind (as_bool (jfield v ''once'')) (\<lambda>onc.
     Option.bind (as_number (jfield v ''afterSequence'')) (\<lambda>aft.
     Option.bind (as_number (jfield v ''createdAt'')) (\<lambda>cr.
     Option.bind (as_number (jfield v ''updatedAt'')) (\<lambda>up.
       if identity_json who then Some \<lparr>s_id = i, s_from = src, s_events = evs, s_to = dst, s_delivery = dl, s_trigger = tr,
         s_once = onc, s_after = aft, s_created = cr, s_updated = up, s_by = who, s_last_at = jfield v ''lastDeliveredAt'',
         s_last_event = jfield v ''lastEventId'', s_last_error = jfield v ''lastError'', s_rest = rest_fields v\<rparr>
       else None)))))))))))"

definition value_of_subscription :: "subscription \<Rightarrow> json" where
  "value_of_subscription s = JObj ([(''format'', JNum 1), (''id'', JStr (s_id s)), (''from'', JStr (s_from s)),
     (''events'', JArr (map JStr (s_events s))), (''to'', JStr (s_to s)), (''delivery'', JStr (delivery_name (s_delivery s))),
     (''triggerTurn'', JBool (s_trigger s)), (''once'', JBool (s_once s)), (''afterSequence'', JNum (s_after s)),
     (''createdAt'', JNum (s_created s)), (''updatedAt'', JNum (s_updated s)), (''createdBy'', s_by s)]
     @ opt_field ''lastDeliveredAt'' (s_last_at s) @ opt_field ''lastEventId'' (s_last_event s)
     @ opt_field ''lastError'' (s_last_error s) @ s_rest s)"

text \<open>What the reader guarantees and the printer needs.\<close>

definition subscription_ok :: "subscription \<Rightarrow> bool" where
  "subscription_ok s \<longleftrightarrow> s_events s \<noteq> [] \<and> set (s_events s) \<subseteq> set LIFECYCLE_EVENTS \<and> identity_json (s_by s)
     \<and> (\<forall>p \<in> set (s_rest s). fst p \<notin> set SUBSCRIPTION_FIELDS)"

section \<open>Ownership\<close>

definition truthy :: "string option \<Rightarrow> bool" where
  "truthy v \<longleftrightarrow> (case v of Some s \<Rightarrow> s \<noteq> [] | None \<Rightarrow> False)"

definition owns_source :: "lifecycle_event \<Rightarrow> participant option \<Rightarrow> bool" where
  "owns_source e p = (case p of None \<Rightarrow> False | Some q \<Rightarrow> \<not> p_stale q \<and> truthy (ls_host (le_source e)) \<and> truthy (ls_ident (le_source e))
     \<and> p_kind q = ls_kind (le_source e) \<and> p_root q = ls_root (le_source e) \<and> p_runner q = Some (ls_runner (le_source e))
     \<and> p_host q = ls_host (le_source e) \<and> p_ident q = ls_ident (le_source e))"

text \<open>The event is one the subscription asks for.\<close>

definition candidate :: "subscription \<Rightarrow> lifecycle_event \<Rightarrow> bool" where
  "candidate s e \<longleftrightarrow> ls_id (le_source e) = s_from s \<and> le_event e \<in> set (s_events s)"

section \<open>Facts\<close>

lemma event_of_mesh_seq: "event_of_mesh e = Some ev \<Longrightarrow> le_seq ev = ev_seq e"
  by (auto simp: event_of_mesh_def bind_eq_Some_conv split: option.splits if_splits)

lemma event_of_mesh_id: "event_of_mesh e = Some ev \<Longrightarrow> le_id ev = ev_id e"
  by (auto simp: event_of_mesh_def bind_eq_Some_conv split: option.splits if_splits)

lemma as_conv [simp]: "as_string (Some (JStr s)) = Some s" "as_string None = None" "as_number (Some (JNum n)) = Some n"
  "as_bool (Some (JBool b)) = Some b"
  by (simp_all add: as_string_def as_number_def as_bool_def)

lemma as_Some: "as_string v = Some s \<longleftrightarrow> v = Some (JStr s)" "as_number v = Some n \<longleftrightarrow> v = Some (JNum n)" "as_bool v = Some b \<longleftrightarrow> v = Some (JBool b)"
  by (auto simp: as_string_def as_number_def as_bool_def split: option.splits json.splits)

lemma as_string_map [simp]: "as_string (map_option JStr v) = v"
  by (cases v) simp_all

lemma jfield_obj [simp]: "jfield (JObj fs) k = map_of fs k" "is_record (JObj fs)"
  by (simp_all add: jfield_def is_record_def)

lemma map_of_opt [simp]: "map_of (opt_field k v @ fs) k' = (if k = k' \<and> v \<noteq> None then v else map_of fs k')"
  "map_of (opt_field k v) k' = (if k = k' \<and> v \<noteq> None then v else None)"
  by (auto simp: opt_field_def split: option.splits)

lemma parse_source_value:
  assumes "ls_kind s \<noteq> Provider" and "runner_id (Some (JStr (ls_runner s))) = Some (ls_runner s)"
  shows "parse_source (source_identity s) (value_of_source s) = Some s"
proof -
  have k: "participant_kind (Some (JStr (kind_name (ls_kind s)))) = Some (ls_kind s)"
    using assms(1) by (cases "ls_kind s") (simp_all add: participant_kind_def kind_name_def)
  have i: "if ls_kind s = Root then i_kind (source_identity s) = ''main'' else i_kind (source_identity s) = kind_name (ls_kind s)"
    using assms(1) by (cases "ls_kind s") (simp_all add: source_identity_def kind_name_def)
  have o: "i_id (source_identity s) = ls_id s" by (simp add: source_identity_def)
  show ?thesis using i o by (cases "ls_host s"; cases "ls_ident s") (simp_all add: parse_source_def value_of_source_def k assms(2) del: map_of_append)
qed

text \<open>What a request means to a reader.\<close>

definition event_meant :: "publish_request \<Rightarrow> string \<Rightarrow> rat \<Rightarrow> rat \<Rightarrow> lifecycle_event" where
  "event_meant q i n now = \<lparr>le_id = i, le_seq = n, le_event = q_event q, le_source = q_source q, le_at = q_at q, le_published = now,
     le_run = nonempty (q_run q), le_status = nonempty (q_status q), le_data = q_data q\<rparr>"

lemma published_event_parses:
  assumes "q_event q \<in> set LIFECYCLE_EVENTS" and "ls_kind (q_source q) \<noteq> Provider"
    and "runner_id (Some (JStr (ls_runner (q_source q)))) = Some (ls_runner (q_source q))"
  shows "event_of_mesh (published_event q i n now) = Some (event_meant q i n now)"
proof -
  have r: "is_record (value_of_source (q_source q))" by (simp add: value_of_source_def)
  show ?thesis using assms(1) r parse_source_value [OF assms(2,3)]
    by (cases "nonempty (q_run q)"; cases "nonempty (q_status q)"; cases "q_data q")
      (simp_all add: event_of_mesh_def published_event_def published_data_def event_meant_def is_lifecycle_type_def del: map_of_append)
qed

lemma provider_unread: "ls_kind (q_source q) = Provider \<Longrightarrow> event_of_mesh (published_event q i n now) = None"
  by (auto simp: event_of_mesh_def published_event_def published_data_def parse_source_def value_of_source_def
      participant_kind_def kind_name_def split: option.splits)

lemma parse_events_value: "xs \<noteq> [] \<Longrightarrow> set xs \<subseteq> set LIFECYCLE_EVENTS \<Longrightarrow> parse_events (Some (JArr (map JStr xs))) = Some xs"
proof -
  assume "xs \<noteq> []" "set xs \<subseteq> set LIFECYCLE_EVENTS"
  moreover have "map event_name (map JStr xs) = xs" by (induction xs) (simp_all add: event_name_def)
  ultimately show ?thesis by (auto simp: parse_events_def is_lifecycle_type_def)
qed

lemma parse_delivery_value [simp]: "parse_delivery (Some (JStr (delivery_name d))) = Some d"
  by (cases d) (simp_all add: parse_delivery_def delivery_name_def)

lemma map_of_rest: "\<forall>p \<in> set fs. fst p \<notin> S \<Longrightarrow> k \<in> S \<Longrightarrow> map_of fs k = None"
  by (induction fs) auto

lemma known_opt: "filter (\<lambda>p. fst p \<notin> K) (opt_field k v) = (if k \<in> K then [] else opt_field k v)"
  by (auto simp: opt_field_def split: option.splits)

lemma subscription_value_parses:
  assumes "subscription_ok s"
  shows "subscription_of_value (value_of_subscription s) = Some s"
proof -
  have n: "map_of (s_rest s) k = None" if "k \<in> set SUBSCRIPTION_FIELDS" for k
    by (rule map_of_rest [OF _ that]) (use assms in \<open>simp add: subscription_ok_def\<close>)
  have f: "filter (\<lambda>p. fst p \<notin> set SUBSCRIPTION_FIELDS) (s_rest s) = s_rest s"
    using assms by (simp add: subscription_ok_def)
  have k: "''lastDeliveredAt'' \<in> set SUBSCRIPTION_FIELDS" "''lastEventId'' \<in> set SUBSCRIPTION_FIELDS"
    "''lastError'' \<in> set SUBSCRIPTION_FIELDS"
    by (simp_all add: SUBSCRIPTION_FIELDS_def)
  have t: "{''format'', ''id'', ''from'', ''events'', ''to'', ''delivery'', ''triggerTurn'', ''once'', ''afterSequence'',
      ''createdAt'', ''updatedAt'', ''createdBy''} \<subseteq> set SUBSCRIPTION_FIELDS"
    by (simp add: SUBSCRIPTION_FIELDS_def)
  have r: "rest_fields (value_of_subscription s) = s_rest s"
    using t by (simp add: rest_fields_def value_of_subscription_def known_opt f k)
  have e: "parse_events (Some (JArr (map JStr (s_events s)))) = Some (s_events s)"
    using assms by (intro parse_events_value) (simp_all add: subscription_ok_def)
  have l: "jfield (value_of_subscription s) ''lastDeliveredAt'' = s_last_at s"
    "jfield (value_of_subscription s) ''lastEventId'' = s_last_event s"
    "jfield (value_of_subscription s) ''lastError'' = s_last_error s"
    by (simp_all add: value_of_subscription_def n SUBSCRIPTION_FIELDS_def del: map_of_append)
  have "subscription_of_value (value_of_subscription s) = Some \<lparr>s_id = s_id s, s_from = s_from s, s_events = s_events s,
      s_to = s_to s, s_delivery = s_delivery s, s_trigger = s_trigger s, s_once = s_once s, s_after = s_after s,
      s_created = s_created s, s_updated = s_updated s, s_by = s_by s, s_last_at = s_last_at s,
      s_last_event = s_last_event s, s_last_error = s_last_error s, s_rest = s_rest s\<rparr>"
    using assms unfolding subscription_of_value_def r l
    by (simp add: value_of_subscription_def e subscription_ok_def)
  then show ?thesis by simp
qed

lemma subscription_of_value_ok: "subscription_of_value v = Some s \<Longrightarrow> subscription_ok s"
proof -
  assume a: "subscription_of_value v = Some s"
  have e: "parse_events x = Some xs \<Longrightarrow> xs \<noteq> [] \<and> set xs \<subseteq> set LIFECYCLE_EVENTS" for x xs
    by (auto simp: parse_events_def is_lifecycle_type_def event_name_def split: option.splits json.splits if_splits)
  have f: "\<forall>p \<in> set (rest_fields v). fst p \<notin> set SUBSCRIPTION_FIELDS"
    by (cases v) (auto simp: rest_fields_def)
  show ?thesis using a f
    by (auto simp: subscription_of_value_def subscription_ok_def bind_eq_Some_conv dest: e subsetD [OF conjunct2 [OF e]] split: if_splits option.splits)
qed

end
