(* ===== verification/Broker.thy ===== *)
theory Broker imports LifecycleTypes begin

text \<open>
  The lifecycle broker (\<^verbatim>\<open>src/src/lifecycle/broker.ts\<close>): it hands the lifecycle events of one participant to the
  subscribers of another. The broker is a machine over the events of its world; a method is split at its awaits, so a step
  is what runs between two awaits, and what another process or caller does in between is a step of its own. The drain is
  the loop \<open>#runDrains\<close>, \<open>#drain\<close>, \<open>#drainSubscription\<close> with its place in it as data; the release checkpoint is
  a second thread. The backend's proof that a cached listing is unchanged is not modelled: the listing is read.
\<close>

section \<open>The mesh as the broker sees it\<close>

record entry =
  n_key :: string
  n_value :: json
  n_version :: int

text \<open>Keyed entries with a version each; the retained events in order, and the counter of reserved sequences.\<close>

record store =
  st_state :: "(string, json \<times> int) jmap"
  st_clock :: int
  st_events :: "mesh_event list"
  st_counter :: rat

definition st_get :: "store \<Rightarrow> string \<Rightarrow> entry option" where
  "st_get st k = map_option (\<lambda>(v, n). \<lparr>n_key = k, n_value = v, n_version = n\<rparr>) (jm_get (st_state st) k)"

text \<open>
  The part of the mesh state the broker uses. A changed key gets the version after its own, where the mesh takes the next
  of its clock; the broker only compares versions.
\<close>

definition st_put :: "string \<Rightarrow> json \<Rightarrow> int \<Rightarrow> store \<Rightarrow> (int \<times> store) option" where
  "st_put k v ver st = (case jm_get (st_state st) k of None \<Rightarrow> None | Some (w, n) \<Rightarrow>
     if n = ver then Some (n + 1, st\<lparr>st_state := jm_set k (v, n + 1) (st_state st), st_clock := st_clock st + 1\<rparr>) else None)"

definition st_create :: "string \<Rightarrow> json \<Rightarrow> store \<Rightarrow> store" where
  "st_create k v st = (if jm_has (st_state st) k then st
     else st\<lparr>st_state := jm_set k (v, st_clock st + 1) (st_state st), st_clock := st_clock st + 1\<rparr>)"

definition st_delete :: "string \<Rightarrow> int \<Rightarrow> store \<Rightarrow> (int \<times> store) option" where
  "st_delete k ver st = (case jm_get (st_state st) k of None \<Rightarrow> None | Some (w, n) \<Rightarrow>
     if n = ver then Some (n + 1, st\<lparr>st_state := jm_del k (st_state st), st_clock := st_clock st + 1\<rparr>) else None)"

definition starts_with :: "string \<Rightarrow> string \<Rightarrow> bool" where
  "starts_with p s \<longleftrightarrow> take (length p) s = p"

definition listing :: "store \<Rightarrow> entry list" where
  "listing st = map (\<lambda>(k, v, n). \<lparr>n_key = k, n_value = v, n_version = n\<rparr>) (filter (\<lambda>p. starts_with SUBSCRIPTION_PREFIX (fst p)) (st_state st))"

text \<open>\<open>latestSequence\<close> is the larger of the reservation counter and the last event.\<close>

definition latest :: "store \<Rightarrow> rat" where
  "latest st = (case last_opt (st_events st) of None \<Rightarrow> st_counter st | Some e \<Rightarrow> max (st_counter st) (ev_seq e))"

definition read_after :: "store \<Rightarrow> rat \<Rightarrow> nat \<Rightarrow> mesh_event list" where
  "read_after st q n = take n (filter (\<lambda>e. q < ev_seq e) (st_events st))"

section \<open>The state\<close>

text \<open>What a write checks when it is asked and again when it commits.\<close>

datatype guard = Unguarded | Held | Release nat

datatype job = Save entry subscription guard | Retire entry subscription guard
datatype reply = Applied int | Refused bool
datatype pending = Asked job | Answered job reply

text \<open>The variables of \<open>#drainSubscription\<close> inside a page.\<close>

record frame =
  f_entry :: entry
  f_sub :: subscription
  f_events :: "mesh_event list"
  f_full :: bool
  f_cursor :: rat
  f_decided :: bool
  f_last_at :: "json option"
  f_last_event :: "json option"

record pass =
  d_rest :: "entry list"
  d_listed :: "string list"
  d_latest :: "rat option"

datatype stage = Head | Confirm string pending | Page entry subscription | Scan frame | Hand frame lifecycle_event
  | Receipt frame pending | Store_last string pending | Store_page frame pending

datatype outcome = Done | Retry | Failed | Skipped

datatype loop = Idle | Ready | Drain pass stage | Ending outcome

datatype checkpoint = No_checkpoint | Settling nat bool | Confirming nat bool "string list" | Awaiting nat bool "string list" string pending

record once_receipt =
  rc_key :: string
  rc_version :: int
  rc_event :: "json option"
  rc_after :: rat

type_synonym release_state = "entry multiset \<times> (string, once_receipt) jmap \<times> (string, rat) jmap"

text \<open>
  \<open>b_lost\<close> and \<open>b_valid\<close> are what \<open>canConsumeMesh\<close> (whether it answers \<open>false\<close>) and the checkpoint's \<open>valid\<close> would
  answer now; the draining flag is \<open>b_loop \<noteq> Idle\<close>. The last four fields are read by no step: every delivery the handler
  accepted, every matching event that was passed over with the owner that was read, what each subscription was created with
  and the cursor it started from, and whether a reserved sequence was ever seen without its event.
\<close>

record broker =
  b_enabled :: bool
  b_poll :: int
  b_page :: nat
  b_mesh :: store
  b_lost :: bool
  b_valid :: bool
  b_started :: bool
  b_closed :: bool
  b_paused :: bool
  b_strict :: bool
  b_epoch :: nat
  b_dirty :: bool
  b_scheduled :: bool
  b_failed :: bool
  b_retry :: "int option"
  b_delay :: int
  b_delivered :: "(string, entry \<times> subscription) jmap"
  b_unsaved :: "(string, rat) jmap"
  b_once :: "(string, once_receipt) jmap"
  b_loop :: loop
  b_checkpoint :: checkpoint
  b_release :: "(nat \<times> release_state) option"
  b_log :: "(string \<times> lifecycle_event) list"
  b_skipped :: "(string \<times> lifecycle_event \<times> participant option) list"
  b_known :: "(string, string \<times> string list \<times> rat) jmap"
  b_torn :: bool

definition DRAIN_RETRY_MAX :: int where "DRAIN_RETRY_MAX = 30000"

section \<open>Wakes and the drain loop\<close>

definition gated :: "broker \<Rightarrow> bool" where
  "gated s \<longleftrightarrow> b_closed s \<or> b_paused s \<or> \<not> b_enabled s \<or> b_lost s"

definition schedule_poll :: "broker \<Rightarrow> broker" where
  "schedule_poll s = (if b_scheduled s \<or> b_closed s \<or> \<not> b_enabled s then s else s\<lparr>b_scheduled := True\<rparr>)"

definition wake :: "broker \<Rightarrow> broker" where
  "wake s = schedule_poll (s\<lparr>b_dirty := True\<rparr>)"

text \<open>The test of the loop in \<open>#runDrains\<close> and what it does before the poll.\<close>

definition loop_test :: "broker \<Rightarrow> broker" where
  "loop_test s = (if b_dirty s \<and> \<not> gated s
     then s\<lparr>b_retry := None, b_dirty := False, b_failed := False, b_loop := Ready\<rparr> else s\<lparr>b_loop := Idle\<rparr>)"

definition microtask :: "broker \<Rightarrow> broker" where
  "microtask s = (if \<not> b_scheduled s then s else let t = s\<lparr>b_scheduled := False\<rparr> in
     if b_closed s \<or> b_loop s \<noteq> Idle then t else loop_test t)"

definition schedule_retry :: "outcome \<Rightarrow> int \<Rightarrow> broker \<Rightarrow> broker" where
  "schedule_retry out wait s = (if b_closed s then s
     else if out = Retry \<or> out = Skipped then s\<lparr>b_retry := Some (max 1 wait)\<rparr>
     else let d = min DRAIN_RETRY_MAX (if b_delay s \<noteq> 0 then b_delay s * 2 else b_poll s) in s\<lparr>b_delay := d, b_retry := Some d\<rparr>)"

definition retry_timer :: "broker \<Rightarrow> broker" where
  "retry_timer s = (if b_retry s = None then s else wake (s\<lparr>b_retry := None\<rparr>))"

definition go_ending :: "outcome \<Rightarrow> int \<Rightarrow> broker \<Rightarrow> broker" where
  "go_ending out wait s = (if out = Done \<and> \<not> b_failed s \<and> b_delivered s = [] then loop_test (s\<lparr>b_delay := 0\<rparr>)
     else (schedule_retry out wait (s\<lparr>b_dirty := True\<rparr>))\<lparr>b_loop := Idle\<rparr>)"

section \<open>Cursors and receipts\<close>

definition cursor_of :: "broker \<Rightarrow> subscription \<Rightarrow> rat" where
  "cursor_of s sub = max (s_after sub) (case jm_get (b_unsaved s) (s_id sub) of None \<Rightarrow> 0 | Some c \<Rightarrow> c)"

text \<open>\<open>#keepUnsaved\<close>: \<open>None\<close> when the cursor must be saved.\<close>

definition keep_unsaved :: "subscription \<Rightarrow> rat \<Rightarrow> broker \<Rightarrow> broker option" where
  "keep_unsaved sub c s = (if b_lost s \<or> s_last_error sub \<noteq> None \<or> of_nat (b_page s) \<le> c - s_after sub then None
     else Some (s\<lparr>b_unsaved := jm_set (s_id sub) c (b_unsaved s)\<rparr>))"

definition own_subscription :: "entry \<Rightarrow> subscription option" where
  "own_subscription e = (case subscription_of_value (n_value e) of None \<Rightarrow> None | Some sub \<Rightarrow>
     if n_key e = subscription_key (s_id sub) then Some sub else None)"

text \<open>The \<open>check\<close> of \<open>checkpointForRelease\<close>, and the checks a write carries.\<close>

definition release_ok :: "bool \<Rightarrow> nat \<Rightarrow> broker \<Rightarrow> bool" where
  "release_ok g e s \<longleftrightarrow> b_paused s \<and> b_epoch s = e \<and> (g \<longrightarrow> b_valid s)"

definition guard_ok :: "guard \<Rightarrow> broker \<Rightarrow> bool" where
  "guard_ok g s = (case g of Unguarded \<Rightarrow> True | Held \<Rightarrow> \<not> b_paused s | Release e \<Rightarrow> release_ok True e s)"

text \<open>The commit of a write: its guard, the lease and the version are tested under the mesh lock.\<close>

definition perform :: "job \<Rightarrow> broker \<Rightarrow> reply \<times> broker" where
  "perform j s = (case j of
     Save e sub g \<Rightarrow> if \<not> guard_ok g s \<or> b_lost s then (Refused False, s)
       else (case st_put (n_key e) (value_of_subscription sub) (n_version e) (b_mesh s) of
         None \<Rightarrow> (Refused False, s) | Some (v, st) \<Rightarrow> (Applied v, s\<lparr>b_mesh := st\<rparr>))
   | Retire e _ g \<Rightarrow> if \<not> guard_ok g s \<or> b_lost s then (Refused False, s)
       else (case st_delete (n_key e) (n_version e) (b_mesh s) of
         None \<Rightarrow> (Refused False, s) | Some (v, st) \<Rightarrow> (Applied v, s\<lparr>b_mesh := st\<rparr>)))"

text \<open>The storage may commit, throw before it commits, or commit and lose the answer; the flag is a lock timeout.\<close>

datatype how = Stored | Broken bool | Vanished bool

definition answer :: "how \<Rightarrow> pending \<Rightarrow> broker \<Rightarrow> pending \<times> broker" where
  "answer h w s = (case w of Answered j r \<Rightarrow> (w, s) | Asked j \<Rightarrow> (case h of
     Stored \<Rightarrow> (Answered j (fst (perform j s)), snd (perform j s))
   | Broken b \<Rightarrow> (Answered j (Refused b), s)
   | Vanished b \<Rightarrow> (Answered j (Refused b), snd (perform j s))))"

datatype confirm_ask = Throws | Nothing | Ask job

text \<open>\<open>#confirmDelivered\<close> before its write, and after the write was applied (\<open>None\<close> when the check throws).\<close>

definition confirm_start :: "guard \<Rightarrow> string \<Rightarrow> broker \<Rightarrow> confirm_ask" where
  "confirm_start g i s = (if \<not> guard_ok g s then Throws else case jm_get (b_delivered s) i of None \<Rightarrow> Nothing | Some (e, sub) \<Rightarrow>
     (case st_get (b_mesh s) (n_key e) of None \<Rightarrow> Throws | Some cur \<Rightarrow>
        if s_once sub then (if n_version cur \<noteq> n_version e then Throws else Ask (Retire cur sub g))
        else (case subscription_of_value (n_value cur) of None \<Rightarrow> Throws | Some obs \<Rightarrow>
          if n_version cur \<noteq> n_version e \<and> obs \<noteq> sub then Throws else Ask (Save cur sub g))))"

definition settle_receipt :: "string \<Rightarrow> broker \<Rightarrow> broker" where
  "settle_receipt i s = s\<lparr>b_delivered := jm_del i (b_delivered s), b_unsaved := jm_del i (b_unsaved s)\<rparr>"

definition confirm_end :: "guard \<Rightarrow> string \<Rightarrow> job \<Rightarrow> int \<Rightarrow> broker \<Rightarrow> (entry option \<times> broker) option" where
  "confirm_end g i j v s = (if \<not> guard_ok g s then None else case j of
     Save e sub _ \<Rightarrow> Some (Some \<lparr>n_key = n_key e, n_value = value_of_subscription sub, n_version = v\<rparr>, settle_receipt i s)
   | Retire e sub _ \<Rightarrow> Some (None, settle_receipt i (s\<lparr>b_once := jm_set i \<lparr>rc_key = n_key e, rc_version = n_version e,
       rc_event = (if s_last_event sub = Some (JStr []) then None else s_last_event sub), rc_after = s_after sub\<rparr> (b_once s)\<rparr>)))"

section \<open>The drain\<close>

text \<open>What the step reads outside: the clock, the wait of \<open>MeshBackgroundRetry\<close>, and what the participant directory says.\<close>

record answers =
  a_now :: rat
  a_wait :: int
  a_elsewhere :: bool
  a_target :: "participant option"
  a_owner :: "participant option"

text \<open>\<open>MeshBackgroundRetry.run\<close> up to the poll, and \<open>#poll\<close>.\<close>

definition go_ready :: "answers \<Rightarrow> broker \<Rightarrow> broker" where
  "go_ready a s = (if 0 < a_wait a then s\<lparr>b_loop := Ending Skipped\<rparr>
     else if gated s then s\<lparr>b_dirty := True, b_loop := Ending Done\<rparr>
     else s\<lparr>b_loop := Drain \<lparr>d_rest = listing (b_mesh s), d_listed = [], d_latest = None\<rparr> Head\<rparr>)"

text \<open>\<open>#contain\<close>: the failure is kept for the retry; a lock timeout ends the drain, and the poll with it.\<close>

definition contain :: "bool \<Rightarrow> (broker \<Rightarrow> broker) \<Rightarrow> broker \<Rightarrow> broker" where
  "contain locked k s = (if locked then s\<lparr>b_failed := True, b_loop := Ending Retry\<rparr> else k (s\<lparr>b_failed := True\<rparr>))"

text \<open>The return of \<open>#drainSubscription\<close> into the loop of \<open>#drain\<close>.\<close>

definition leave :: "pass \<Rightarrow> broker \<Rightarrow> broker" where
  "leave d s = (if b_paused s then s\<lparr>b_loop := Ending Done\<rparr> else s\<lparr>b_loop := Drain d Head\<rparr>)"

definition go_target :: "answers \<Rightarrow> pass \<Rightarrow> entry \<Rightarrow> subscription \<Rightarrow> broker \<Rightarrow> broker" where
  "go_target a d e sub s = (case a_target a of None \<Rightarrow> s\<lparr>b_loop := Drain d Head\<rparr> | Some t \<Rightarrow>
     if p_stale t \<or> \<not> p_local t then s\<lparr>b_loop := Drain d Head\<rparr>
     else if b_paused s then s\<lparr>b_loop := Ending Done\<rparr> else s\<lparr>b_loop := Drain d (Page e sub)\<rparr>)"

definition go_entry :: "answers \<Rightarrow> pass \<Rightarrow> entry \<Rightarrow> subscription \<Rightarrow> broker \<Rightarrow> broker" where
  "go_entry a d e sub s =
     (if jm_has (b_delivered s) (s_id sub) then
        (case confirm_start Unguarded (s_id sub) s of Throws \<Rightarrow> s\<lparr>b_failed := True, b_loop := Drain d Head\<rparr>
         | Nothing \<Rightarrow> s\<lparr>b_loop := Drain d Head\<rparr> | Ask j \<Rightarrow> s\<lparr>b_loop := Drain d (Confirm (s_id sub) (Asked j))\<rparr>)
      else if a_elsewhere a then s\<lparr>b_loop := Drain d Head\<rparr>
      else let l = (case d_latest d of Some l \<Rightarrow> l | None \<Rightarrow> latest (b_mesh s)); d' = d\<lparr>d_latest := Some l\<rparr> in
        if l \<le> cursor_of s sub then s\<lparr>b_loop := Drain d' Head\<rparr> else go_target a d' e sub s)"

definition go_head :: "answers \<Rightarrow> pass \<Rightarrow> broker \<Rightarrow> broker" where
  "go_head a d s = (case d_rest d of
     [] \<Rightarrow> if b_paused s then s\<lparr>b_loop := Ending Done\<rparr>
       else s\<lparr>b_unsaved := filter (\<lambda>p. fst p \<in> set (d_listed d)) (b_unsaved s), b_loop := Ending Done\<rparr>
   | e # es \<Rightarrow> if b_lost s then s\<lparr>b_dirty := True, b_loop := Ending Done\<rparr>
       else (case own_subscription e of None \<Rightarrow> s\<lparr>b_loop := Drain (d\<lparr>d_rest := es\<rparr>) Head\<rparr>
         | Some sub \<Rightarrow> go_entry a (d\<lparr>d_rest := es, d_listed := d_listed d @ [s_id sub]\<rparr>) e sub s))"

text \<open>The head of the loop of \<open>#drainSubscription\<close>: a page of events after the cursor.\<close>

definition go_page :: "answers \<Rightarrow> pass \<Rightarrow> entry \<Rightarrow> subscription \<Rightarrow> broker \<Rightarrow> broker" where
  "go_page a d e sub s = (if gated s then leave d (s\<lparr>b_dirty := True\<rparr>)
     else let from_seq = cursor_of s sub; l = latest (b_mesh s); evs = read_after (b_mesh s) from_seq (b_page s) in
       if l \<le> from_seq then leave d s
       else if evs = [] then (case keep_unsaved sub l s of Some t \<Rightarrow> leave d t
         | None \<Rightarrow> s\<lparr>b_loop := Drain d (Store_last (s_id sub) (Asked (Save e (sub\<lparr>s_after := l, s_updated := a_now a\<rparr>) Held)))\<rparr>)
       else s\<lparr>b_loop := Drain d (Scan \<lparr>f_entry = e, f_sub = sub, f_events = evs, f_full = (b_page s \<le> length evs),
         f_cursor = from_seq, f_decided = False, f_last_at = s_last_at sub, f_last_event = s_last_event sub\<rparr>)\<rparr>)"

definition page_sub :: "answers \<Rightarrow> frame \<Rightarrow> subscription" where
  "page_sub a f = (f_sub f)\<lparr>s_after := f_cursor f, s_updated := a_now a,
     s_last_at := (if f_last_at f = None then s_last_at (f_sub f) else f_last_at f),
     s_last_event := (if f_last_event f = None then s_last_event (f_sub f) else f_last_event f), s_last_error := None\<rparr>"

text \<open>After the last event of a page: the next page when this one was full.\<close>

definition next_page :: "pass \<Rightarrow> frame \<Rightarrow> broker \<Rightarrow> broker" where
  "next_page d f s = (if \<not> f_full f then leave d s else s\<lparr>b_loop := Drain d (Page (f_entry f) (f_sub f))\<rparr>)"

definition page_end :: "answers \<Rightarrow> pass \<Rightarrow> frame \<Rightarrow> broker \<Rightarrow> broker" where
  "page_end a d f s = (if b_paused s then leave d s
     else case (if f_decided f then None else keep_unsaved (f_sub f) (f_cursor f) s) of Some t \<Rightarrow> next_page d f t
     | None \<Rightarrow> if f_cursor f = s_after (f_sub f) \<and> s_last_error (f_sub f) = None then next_page d f s
         else s\<lparr>b_loop := Drain d (Store_page f (Asked (Save (f_entry f) (page_sub a f) Held)))\<rparr>)"

definition go_scan :: "answers \<Rightarrow> pass \<Rightarrow> frame \<Rightarrow> broker \<Rightarrow> broker" where
  "go_scan a d f s = (case f_events f of [] \<Rightarrow> page_end a d f s
   | e # es \<Rightarrow> if b_paused s \<or> b_lost s then leave d (s\<lparr>b_dirty := True\<rparr>)
       else (case event_of_mesh e of
         None \<Rightarrow> s\<lparr>b_loop := Drain d (Scan (f\<lparr>f_events := es, f_cursor := max (f_cursor f) (ev_seq e)\<rparr>))\<rparr>
       | Some ev \<Rightarrow> let want = candidate (f_sub f) ev in
           if \<not> want \<or> \<not> owns_source ev (a_owner a)
           then s\<lparr>b_loop := Drain d (Scan (f\<lparr>f_events := es, f_cursor := le_seq ev, f_decided := f_decided f \<or> want\<rparr>)),
                b_skipped := (if want then b_skipped s @ [(s_id (f_sub f), ev, a_owner a)] else b_skipped s)\<rparr>
           else s\<lparr>b_loop := Drain d (Hand (f\<lparr>f_events := es\<rparr>) ev)\<rparr>))"

text \<open>The handler accepted the event: the receipt is kept before the cursor is written.\<close>

definition delivered_sub :: "rat \<Rightarrow> lifecycle_event \<Rightarrow> subscription \<Rightarrow> subscription" where
  "delivered_sub now ev sub = sub\<lparr>s_after := le_seq ev, s_updated := now, s_last_at := Some (JNum now),
     s_last_event := Some (JStr (le_id ev)), s_last_error := None\<rparr>"

definition accepted :: "rat \<Rightarrow> pass \<Rightarrow> frame \<Rightarrow> lifecycle_event \<Rightarrow> broker \<Rightarrow> broker" where
  "accepted now d f ev s = (let sub = delivered_sub now ev (f_sub f);
       f' = f\<lparr>f_sub := sub, f_cursor := le_seq ev, f_decided := True, f_last_at := Some (JNum now), f_last_event := Some (JStr (le_id ev))\<rparr>;
       t = s\<lparr>b_log := b_log s @ [(s_id sub, ev)], b_delivered := jm_set (s_id sub) (f_entry f, sub) (b_delivered s)\<rparr> in
     if b_lost t then leave d (t\<lparr>b_dirty := True\<rparr>)
     else case confirm_start Unguarded (s_id sub) t of
       Throws \<Rightarrow> leave d (t\<lparr>b_failed := True\<rparr>) | Nothing \<Rightarrow> leave d t
     | Ask j \<Rightarrow> t\<lparr>b_loop := Drain d (Receipt f' (Asked j))\<rparr>)"

definition rejected :: "rat \<Rightarrow> string \<Rightarrow> pass \<Rightarrow> frame \<Rightarrow> broker \<Rightarrow> broker" where
  "rejected now msg d f s = (let t = s\<lparr>b_failed := True\<rparr> in if b_lost t then leave d t
     else t\<lparr>b_loop := Drain d (Store_last (s_id (f_sub f)) (Asked (Save (f_entry f)
       ((f_sub f)\<lparr>s_after := f_cursor f, s_updated := now, s_last_error := Some (JStr msg)\<rparr>) Unguarded)))\<rparr>)"

text \<open>What follows each write of the drain, once it is answered.\<close>

definition go_confirm :: "pass \<Rightarrow> string \<Rightarrow> pending \<Rightarrow> broker \<Rightarrow> broker" where
  "go_confirm d i w s = (case w of Asked _ \<Rightarrow> s
   | Answered j (Refused b) \<Rightarrow> contain b (\<lambda>t. t\<lparr>b_loop := Drain d Head\<rparr>) s
   | Answered j (Applied v) \<Rightarrow> (case confirm_end Unguarded i j v s of None \<Rightarrow> s | Some (_, t) \<Rightarrow> t\<lparr>b_loop := Drain d Head\<rparr>))"

definition go_receipt :: "pass \<Rightarrow> frame \<Rightarrow> pending \<Rightarrow> broker \<Rightarrow> broker" where
  "go_receipt d f w s = (case w of Asked _ \<Rightarrow> s
   | Answered j (Refused b) \<Rightarrow> contain b (leave d) s
   | Answered j (Applied v) \<Rightarrow> (case confirm_end Unguarded (s_id (f_sub f)) j v s of None \<Rightarrow> s
     | Some (None, t) \<Rightarrow> leave d t
     | Some (Some e, t) \<Rightarrow> if s_once (f_sub f) \<or> b_paused t then leave d t
         else t\<lparr>b_loop := Drain d (Scan (f\<lparr>f_entry := e\<rparr>))\<rparr>))"

definition forget_unsaved :: "string \<Rightarrow> broker \<Rightarrow> broker" where
  "forget_unsaved i s = s\<lparr>b_unsaved := jm_del i (b_unsaved s)\<rparr>"

definition go_store_last :: "pass \<Rightarrow> string \<Rightarrow> pending \<Rightarrow> broker \<Rightarrow> broker" where
  "go_store_last d i w s = (case w of Asked _ \<Rightarrow> s
   | Answered j (Refused b) \<Rightarrow> contain b (leave d) s
   | Answered j (Applied v) \<Rightarrow> leave d (forget_unsaved i s))"

definition go_store_page :: "pass \<Rightarrow> frame \<Rightarrow> pending \<Rightarrow> broker \<Rightarrow> broker" where
  "go_store_page d f w s = (case w of Asked _ \<Rightarrow> s
   | Answered j (Refused b) \<Rightarrow> contain b (leave d) s
   | Answered j (Applied v) \<Rightarrow> (case j of Retire _ _ _ \<Rightarrow> s | Save e sub _ \<Rightarrow>
       next_page d (f\<lparr>f_entry := \<lparr>n_key = n_key e, n_value = value_of_subscription sub, n_version = v\<rparr>, f_sub := sub\<rparr>)
         (forget_unsaved (s_id sub) s)))"

definition go_loop :: "answers \<Rightarrow> broker \<Rightarrow> broker" where
  "go_loop a s = (case b_loop s of Idle \<Rightarrow> s | Ready \<Rightarrow> go_ready a s | Ending out \<Rightarrow> go_ending out (a_wait a) s
   | Drain d st \<Rightarrow> (case st of Head \<Rightarrow> go_head a d s | Confirm i w \<Rightarrow> go_confirm d i w s | Page e sub \<Rightarrow> go_page a d e sub s
     | Scan f \<Rightarrow> go_scan a d f s | Hand f ev \<Rightarrow> s | Receipt f w \<Rightarrow> go_receipt d f w s
     | Store_last i w \<Rightarrow> go_store_last d i w s | Store_page f w \<Rightarrow> go_store_page d f w s))"

text \<open>A read of the mesh that throws ends the drain; the flag is a lock timeout.\<close>

definition drain_throws :: "bool \<Rightarrow> broker \<Rightarrow> broker" where
  "drain_throws locked s = (case b_loop s of
     Drain d st \<Rightarrow> (case st of Head \<Rightarrow> s\<lparr>b_loop := Ending (if locked then Retry else Failed)\<rparr>
       | Page e sub \<Rightarrow> s\<lparr>b_loop := Ending (if locked then Retry else Failed)\<rparr>
       | Scan f \<Rightarrow> s\<lparr>b_loop := Ending (if locked then Retry else Failed)\<rparr> | _ \<Rightarrow> s)
   | _ \<Rightarrow> s)"

text \<open>A commit of the drain's write.\<close>

definition pending_of :: "stage \<Rightarrow> pending option" where
  "pending_of st = (case st of Confirm i w \<Rightarrow> Some w | Receipt f w \<Rightarrow> Some w | Store_last i w \<Rightarrow> Some w | Store_page f w \<Rightarrow> Some w | _ \<Rightarrow> None)"

definition with_pending :: "pending \<Rightarrow> stage \<Rightarrow> stage" where
  "with_pending w st = (case st of Confirm i _ \<Rightarrow> Confirm i w | Receipt f _ \<Rightarrow> Receipt f w | Store_last i _ \<Rightarrow> Store_last i w
     | Store_page f _ \<Rightarrow> Store_page f w | _ \<Rightarrow> st)"

definition drain_commit :: "how \<Rightarrow> broker \<Rightarrow> broker" where
  "drain_commit h s = (case b_loop s of Drain d st \<Rightarrow> (case pending_of st of None \<Rightarrow> s | Some w \<Rightarrow>
       (snd (answer h w s))\<lparr>b_loop := Drain d (with_pending (fst (answer h w s)) st)\<rparr>) | _ \<Rightarrow> s)"

definition deliver_end :: "rat \<Rightarrow> string option \<Rightarrow> broker \<Rightarrow> broker" where
  "deliver_end now err s = (case b_loop s of Drain d (Hand f ev) \<Rightarrow>
     (case err of None \<Rightarrow> accepted now d f ev s | Some msg \<Rightarrow> rejected now msg d f s) | _ \<Rightarrow> s)"

section \<open>Callers\<close>

text \<open>\<open>subscribe\<close>: the checks of the request, of the two participants, and the record that is written.\<close>

datatype subscribe_error = Mesh_disabled | Empty_source | Empty_target | Own_source | No_events | Admission_held
  | Unknown_source string | Unknown_target string | Not_capable string delivery

record subscribe_request =
  r_from :: string
  r_to :: string
  r_events :: "string list"
  r_delivery :: delivery
  r_trigger :: bool
  r_once :: "bool option"

definition admission_held :: "broker \<Rightarrow> bool" where
  "admission_held s \<longleftrightarrow> b_paused s \<and> b_strict s"

definition usable :: "participant option \<Rightarrow> bool" where
  "usable p \<longleftrightarrow> (case p of None \<Rightarrow> False | Some q \<Rightarrow> \<not> p_stale q)"

text \<open>\<open>String.prototype.trim\<close> (of the ASCII blanks) and \<open>[...new Set(xs)]\<close>.\<close>

definition blank :: "char \<Rightarrow> bool" where
  "blank c \<longleftrightarrow> of_char c \<in> {9 :: nat, 10, 11, 12, 13, 32}"

definition trimmed :: "string \<Rightarrow> string" where
  "trimmed s = rev (dropWhile blank (rev (dropWhile blank s)))"

definition unique :: "string list \<Rightarrow> string list" where
  "unique xs = rev (foldl (\<lambda>acc x. if x \<in> set acc then acc else x # acc) [] xs)"

definition subscribe_checks :: "subscribe_request \<Rightarrow> broker \<Rightarrow> subscribe_error + (string \<times> string \<times> string list)" where
  "subscribe_checks r s = (let src = trimmed (r_from r); dst = trimmed (r_to r); evs = unique (r_events r) in
     if \<not> b_enabled s then Inl Mesh_disabled else if src = [] then Inl Empty_source else if dst = [] then Inl Empty_target
     else if src = dst then Inl Own_source else if evs = [] then Inl No_events
     else if admission_held s then Inl Admission_held else Inr (src, dst, evs))"

definition subscribe :: "subscribe_request \<Rightarrow> string \<Rightarrow> json \<Rightarrow> rat \<Rightarrow> (string \<Rightarrow> participant option) \<Rightarrow> broker \<Rightarrow> subscribe_error + subscription" where
  "subscribe r i who now lookup s = bind_e (subscribe_checks r s) (\<lambda>(src, dst, evs).
     if \<not> usable (lookup src) then Inl (Unknown_source src) else if \<not> usable (lookup dst) then Inl (Unknown_target dst)
     else if delivery_name (r_delivery r) \<notin> set (p_caps (the (lookup dst))) then Inl (Not_capable dst (r_delivery r))
     else Inr \<lparr>s_id = i, s_from = src, s_events = evs, s_to = dst, s_delivery = r_delivery r, s_trigger = r_trigger r,
       s_once = (r_once r = Some True), s_after = latest (b_mesh s), s_created = now, s_updated = now, s_by = who,
       s_last_at = None, s_last_event = None, s_last_error = None, s_rest = []\<rparr>)"

text \<open>The commit of a new subscription, and of a removal at the version that was read.\<close>

definition subscribed :: "subscription \<Rightarrow> broker \<Rightarrow> broker" where
  "subscribed sub s = (if admission_held s \<or> jm_has (st_state (b_mesh s)) (subscription_key (s_id sub)) then s
     else wake (s\<lparr>b_known := jm_set (s_id sub) (s_from sub, s_events sub, s_after sub) (b_known s),
       b_mesh := st_create (subscription_key (s_id sub)) (value_of_subscription sub) (b_mesh s)\<rparr>))"

definition removed :: "string \<Rightarrow> int \<Rightarrow> broker \<Rightarrow> broker" where
  "removed i ver s = (case st_delete (subscription_key i) ver (b_mesh s) of None \<Rightarrow> s | Some (_, st) \<Rightarrow> s\<lparr>b_mesh := st\<rparr>)"

text \<open>\<open>unsubscribe\<close> first reads the version it removes; \<open>None\<close> when there is no such subscription.\<close>

definition unsubscribe_read :: "string \<Rightarrow> broker \<Rightarrow> int option" where
  "unsubscribe_read i s = (case st_get (b_mesh s) (subscription_key (trimmed i)) of None \<Rightarrow> None
     | Some e \<Rightarrow> if subscription_of_value (n_value e) = None then None else Some (n_version e))"

definition unsubscribe :: "string \<Rightarrow> int \<Rightarrow> broker \<Rightarrow> broker" where
  "unsubscribe i ver s = (if admission_held s then s else removed (trimmed i) ver s)"

text \<open>\<open>list\<close>, with the optional filters of the source and of the target.\<close>

definition selects :: "string option \<Rightarrow> string \<Rightarrow> bool" where
  "selects f x \<longleftrightarrow> (case f of None \<Rightarrow> True | Some y \<Rightarrow> y = [] \<or> x = y)"

definition list_subscriptions :: "string option \<Rightarrow> string option \<Rightarrow> store \<Rightarrow> subscription list" where
  "list_subscriptions src dst st = filter (\<lambda>sub. selects src (s_from sub) \<and> selects dst (s_to sub)) (List.map_filter own_subscription (listing st))"

text \<open>\<open>publish\<close> is refused unless some subscription asks for the event.\<close>

definition observed :: "store \<Rightarrow> string \<Rightarrow> string \<Rightarrow> bool" where
  "observed st src ev \<longleftrightarrow> (\<exists>e \<in> set (listing st). case own_subscription e of None \<Rightarrow> False
     | Some sub \<Rightarrow> s_from sub = src \<and> ev \<in> set (s_events sub))"

definition publishes :: "publish_request \<Rightarrow> broker \<Rightarrow> bool" where
  "publishes q s \<longleftrightarrow> b_enabled s \<and> \<not> b_closed s \<and> observed (b_mesh s) (ls_id (q_source q)) (q_event q)"

definition pause :: "bool \<Rightarrow> broker \<Rightarrow> broker" where
  "pause strict s = s\<lparr>b_epoch := (if b_paused s then b_epoch s else Suc (b_epoch s)), b_paused := True, b_strict := (b_strict s \<or> strict)\<rparr>"

definition resume :: "broker \<Rightarrow> broker" where
  "resume s = wake (if b_paused s then s\<lparr>b_paused := False, b_strict := False, b_epoch := Suc (b_epoch s)\<rparr> else s)"

definition start :: "broker \<Rightarrow> broker" where
  "start s = (if \<not> b_enabled s \<or> b_started s then s else wake (s\<lparr>b_started := True, b_closed := False\<rparr>))"

definition close :: "broker \<Rightarrow> broker" where
  "close s = (if b_closed s then s else s\<lparr>b_closed := True, b_started := False, b_retry := None\<rparr>)"

section \<open>The release checkpoint\<close>

definition release_state :: "broker \<Rightarrow> release_state option" where
  "release_state s = (if (\<exists>e \<in> set (listing (b_mesh s)). own_subscription e = None)
       \<or> (\<exists>p \<in> set (b_once s). st_get (b_mesh s) (rc_key (snd p)) \<noteq> None) then None
     else Some (mset (listing (b_mesh s)), b_once s, b_unsaved s))"

definition begin_checkpoint :: "bool \<Rightarrow> broker \<Rightarrow> broker" where
  "begin_checkpoint g s = (if b_checkpoint s = No_checkpoint \<and> release_ok g (b_epoch s) s
     then s\<lparr>b_checkpoint := Settling (b_epoch s) g\<rparr> else s)"

definition polling :: "broker \<Rightarrow> bool" where
  "polling s \<longleftrightarrow> (case b_loop s of Drain _ _ \<Rightarrow> True | _ \<Rightarrow> False)"

definition cp_guard :: "nat \<Rightarrow> bool \<Rightarrow> guard" where
  "cp_guard e g = (if g then Release e else Unguarded)"

definition end_checkpoint :: "nat \<Rightarrow> broker \<Rightarrow> broker" where
  "end_checkpoint e s = (if b_delivered s \<noteq> [] then s\<lparr>b_checkpoint := No_checkpoint\<rparr>
     else s\<lparr>b_checkpoint := No_checkpoint, b_release := (case release_state s of None \<Rightarrow> b_release s | Some st \<Rightarrow> Some (e, st))\<rparr>)"

text \<open>One segment of \<open>checkpointForRelease\<close>; \<open>ids\<close> are the obligations already confirmed.\<close>

definition go_checkpoint :: "broker \<Rightarrow> broker" where
  "go_checkpoint s = (case b_checkpoint s of No_checkpoint \<Rightarrow> s
   | Settling e g \<Rightarrow> if polling s then s else if release_ok g e s then s\<lparr>b_checkpoint := Confirming e g []\<rparr>
       else s\<lparr>b_checkpoint := No_checkpoint\<rparr>
   | Confirming e g ids \<Rightarrow> if \<not> release_ok g e s then s\<lparr>b_checkpoint := No_checkpoint\<rparr>
       else (case filter (\<lambda>i. i \<notin> set ids) (jm_keys (b_delivered s)) of [] \<Rightarrow> end_checkpoint e s
         | i # _ \<Rightarrow> (case confirm_start (cp_guard e g) i s of Throws \<Rightarrow> s\<lparr>b_checkpoint := No_checkpoint\<rparr>
            | Nothing \<Rightarrow> s\<lparr>b_checkpoint := Confirming e g (ids @ [i])\<rparr>
            | Ask j \<Rightarrow> s\<lparr>b_checkpoint := Awaiting e g ids i (Asked j)\<rparr>))
   | Awaiting e g ids i w \<Rightarrow> (case w of Asked _ \<Rightarrow> s | Answered j (Refused b) \<Rightarrow> s\<lparr>b_checkpoint := No_checkpoint\<rparr>
      | Answered j (Applied v) \<Rightarrow> (case confirm_end (cp_guard e g) i j v s of None \<Rightarrow> s\<lparr>b_checkpoint := No_checkpoint\<rparr>
         | Some (_, t) \<Rightarrow> t\<lparr>b_checkpoint := Confirming e g (ids @ [i])\<rparr>)))"

definition checkpoint_commit :: "how \<Rightarrow> broker \<Rightarrow> broker" where
  "checkpoint_commit h s = (case b_checkpoint s of Awaiting e g ids i w \<Rightarrow>
     (snd (answer h w s))\<lparr>b_checkpoint := Awaiting e g ids i (fst (answer h w s))\<rparr> | _ \<Rightarrow> s)"

definition release_receipt :: "broker \<Rightarrow> release_state option" where
  "release_receipt s = (case b_release s of None \<Rightarrow> None | Some (e, st) \<Rightarrow>
     if \<not> b_paused s \<or> e \<noteq> b_epoch s \<or> b_delivered s \<noteq> [] \<or> polling s then None
     else if release_state s = Some st then Some st else None)"

section \<open>The machine\<close>

text \<open>
  The last group is the world: a publisher reserves a sequence and appends its event, the log is pruned, another host saves
  a cursor or removes a subscription, the lease and the caller's \<open>valid\<close> change.
\<close>

datatype event =
  Wake | Microtask | Timer | Go answers | Drain_commit how | Drain_throws bool | Deliver_end rat "string option"
| Subscribed subscription | Unsubscribe string int | Pause bool | Resume | Start | Close
| Checkpoint bool | Checkpoint_go | Checkpoint_commit how
| Reserve | Append mesh_event | Prune nat | Foreign_save subscription int | Foreign_remove string int | Lease bool | Valid bool

text \<open>Another host's cursor: what it passed is not this broker's to deliver any more.\<close>

definition foreign_save :: "subscription \<Rightarrow> int \<Rightarrow> broker \<Rightarrow> broker" where
  "foreign_save sub ver s = (case st_put (subscription_key (s_id sub)) (value_of_subscription sub) ver (b_mesh s) of None \<Rightarrow> s
     | Some (_, st) \<Rightarrow> s\<lparr>b_known := jm_set (s_id sub) (s_from sub, s_events sub, s_after sub) (b_known s), b_mesh := st\<rparr>)"

definition reserve :: "broker \<Rightarrow> broker" where
  "reserve s = s\<lparr>b_mesh := (b_mesh s)\<lparr>st_counter := latest (b_mesh s) + 1\<rparr>, b_torn := True\<rparr>"

definition append_event :: "mesh_event \<Rightarrow> broker \<Rightarrow> broker" where
  "append_event e s = s\<lparr>b_mesh := (b_mesh s)\<lparr>st_events := st_events (b_mesh s) @ [e], st_counter := max (st_counter (b_mesh s)) (ev_seq e)\<rparr>\<rparr>"

fun step :: "broker \<Rightarrow> event \<Rightarrow> broker" where
  "step s Wake = wake s"
| "step s Microtask = microtask s"
| "step s Timer = retry_timer s"
| "step s (Go a) = go_loop a s"
| "step s (Drain_commit h) = drain_commit h s"
| "step s (Drain_throws b) = drain_throws b s"
| "step s (Deliver_end now err) = deliver_end now err s"
| "step s (Subscribed sub) = subscribed sub s"
| "step s (Unsubscribe i ver) = unsubscribe i ver s"
| "step s (Pause strict) = pause strict s"
| "step s Resume = resume s"
| "step s Start = start s"
| "step s Close = close s"
| "step s (Checkpoint g) = begin_checkpoint g s"
| "step s Checkpoint_go = go_checkpoint s"
| "step s (Checkpoint_commit h) = checkpoint_commit h s"
| "step s Reserve = reserve s"
| "step s (Append e) = append_event e s"
| "step s (Prune n) = s\<lparr>b_mesh := (b_mesh s)\<lparr>st_events := drop n (st_events (b_mesh s))\<rparr>\<rparr>"
| "step s (Foreign_save sub ver) = foreign_save sub ver s"
| "step s (Foreign_remove i ver) = removed i ver s"
| "step s (Lease b) = s\<lparr>b_lost := b\<rparr>"
| "step s (Valid b) = s\<lparr>b_valid := b\<rparr>"

text \<open>A broker that has just been built over a mesh.\<close>

definition known_of :: "store \<Rightarrow> (string, string \<times> string list \<times> rat) jmap" where
  "known_of st = map (\<lambda>sub. (s_id sub, s_from sub, s_events sub, s_after sub)) (List.map_filter own_subscription (listing st))"

definition new_broker :: "bool \<Rightarrow> int \<Rightarrow> nat \<Rightarrow> store \<Rightarrow> broker" where
  "new_broker enabled pollms maxread st = \<lparr>b_enabled = enabled, b_poll = max 20 pollms, b_page = max 1 maxread, b_mesh = st,
     b_lost = False, b_valid = True, b_started = False, b_closed = False, b_paused = False, b_strict = False, b_epoch = 0,
     b_dirty = False, b_scheduled = False, b_failed = False, b_retry = None, b_delay = 0, b_delivered = [], b_unsaved = [],
     b_once = [], b_loop = Idle, b_checkpoint = No_checkpoint, b_release = None, b_log = [], b_skipped = [],
     b_known = known_of st, b_torn = False\<rparr>"

text \<open>The deliveries to one subscription, in order.\<close>

definition deliveries :: "broker \<Rightarrow> string \<Rightarrow> lifecycle_event list" where
  "deliveries s i = map snd (filter (\<lambda>p. fst p = i) (b_log s))"

end
