(* ===== verification/BrokerSafety.thy ===== *)
theory BrokerSafety imports Broker begin

text \<open>
  What the lifecycle broker promises (model in \<open>Broker\<close>): no event is handed to a subscription twice and none out of order,
  across failed writes, gates, lease loss and release checkpoints; no matching event is passed over unhandled; and the release
  receipt attests saved cursors. The invariant speaks of cursors only through \<open>covers\<close> (nothing delivered lies beyond) and
  \<open>passed\<close> (nothing wanted lies unhandled before), so that a step is checked by how it changes these two.
\<close>

section \<open>Cursors\<close>

definition covers :: "broker \<Rightarrow> string \<Rightarrow> rat \<Rightarrow> bool" where
  "covers s i q \<longleftrightarrow> (\<forall>ev. (i, ev) \<in> set (b_log s) \<longrightarrow> le_seq ev \<le> q)"

definition handled :: "broker \<Rightarrow> string \<Rightarrow> lifecycle_event \<Rightarrow> bool" where
  "handled s i ev \<longleftrightarrow> (i, ev) \<in> set (b_log s) \<or> (\<exists>p. (i, ev, p) \<in> set (b_skipped s))"

definition wanted :: "broker \<Rightarrow> string \<Rightarrow> mesh_event \<Rightarrow> lifecycle_event \<Rightarrow> bool" where
  "wanted s i e ev \<longleftrightarrow> event_of_mesh e = Some ev \<and> (case jm_get (b_known s) i of None \<Rightarrow> False | Some (src, evs, base) \<Rightarrow>
     base < ev_seq e \<and> ls_id (le_source ev) = src \<and> le_event ev \<in> set evs)"

definition passed :: "broker \<Rightarrow> string \<Rightarrow> rat \<Rightarrow> bool" where
  "passed s i q \<longleftrightarrow> (\<not> b_torn s \<longrightarrow> q \<le> latest (b_mesh s)
     \<and> (\<forall>e \<in> set (st_events (b_mesh s)). \<forall>ev. ev_seq e \<le> q \<longrightarrow> wanted s i e ev \<longrightarrow> handled s i ev))"

text \<open>A subscription as it was created; one whose cursor may be used; one that is being drained up to \<open>q\<close>.\<close>

definition fits :: "broker \<Rightarrow> subscription \<Rightarrow> bool" where
  "fits s sub \<longleftrightarrow> subscription_ok sub \<and> (\<exists>base. jm_get (b_known s) (s_id sub) = Some (s_from sub, s_events sub, base))"

definition safe :: "broker \<Rightarrow> subscription \<Rightarrow> bool" where
  "safe s sub \<longleftrightarrow> fits s sub \<and> passed s (s_id sub) (s_after sub)
     \<and> (jm_has (b_delivered s) (s_id sub) \<or> covers s (s_id sub) (s_after sub))"

definition clear :: "broker \<Rightarrow> subscription \<Rightarrow> rat \<Rightarrow> bool" where
  "clear s sub q \<longleftrightarrow> fits s sub \<and> passed s (s_id sub) q \<and> covers s (s_id sub) q \<and> \<not> jm_has (b_delivered s) (s_id sub)"

definition safe_entries :: "broker \<Rightarrow> entry list \<Rightarrow> bool" where
  "safe_entries s es \<longleftrightarrow> (\<forall>e \<in> set es. \<forall>sub. own_subscription e = Some sub \<longrightarrow> safe s sub)"

definition receipts_ok :: "broker \<Rightarrow> bool" where
  "receipts_ok s \<longleftrightarrow> (\<forall>i e sub. jm_get (b_delivered s) i = Some (e, sub) \<longrightarrow> s_id sub = i \<and> n_key e = subscription_key i
     \<and> fits s sub \<and> passed s i (s_after sub) \<and> covers s i (s_after sub))"

text \<open>The rest of a page after the cursor \<open>q\<close>: in order, and with no gap.\<close>

definition page_ok :: "broker \<Rightarrow> rat \<Rightarrow> mesh_event list \<Rightarrow> bool" where
  "page_ok s q evs \<longleftrightarrow> sorted_wrt (\<lambda>a b. ev_seq a < ev_seq b) evs
     \<and> (\<forall>e \<in> set evs. q < ev_seq e \<and> ev_seq e \<le> latest (b_mesh s))
     \<and> (\<not> b_torn s \<longrightarrow> (\<forall>e \<in> set (st_events (b_mesh s)). q < ev_seq e \<longrightarrow> e \<in> set evs \<or> (\<forall>x \<in> set evs. ev_seq x < ev_seq e)))"

text \<open>What the mesh holds under a subscription's key does not lie before a delivery.\<close>

definition stored :: "broker \<Rightarrow> string \<Rightarrow> bool" where
  "stored s i \<longleftrightarrow> (\<forall>e \<in> set (listing (b_mesh s)). \<forall>sub. own_subscription e = Some sub \<longrightarrow> s_id sub = i \<longrightarrow> covers s i (s_after sub))"

section \<open>The invariant\<close>

definition events_ok :: "store \<Rightarrow> bool" where
  "events_ok st \<longleftrightarrow> sorted_wrt (\<lambda>a b. ev_seq a < ev_seq b) (st_events st) \<and> (\<forall>e \<in> set (st_events st). 0 < ev_seq e \<and> ev_seq e \<le> st_counter st)
     \<and> 0 \<le> st_counter st \<and> jm_ok (st_state st)"

definition log_ok :: "broker \<Rightarrow> bool" where
  "log_ok s \<longleftrightarrow> (\<forall>i. sorted_wrt (\<lambda>a b. le_seq a < le_seq b) (deliveries s i)) \<and> (\<forall>p \<in> set (b_log s). jm_has (b_known s) (fst p))
     \<and> (\<forall>p \<in> set (b_skipped s). \<not> owns_source (fst (snd p)) (snd (snd p)))"

definition base_ok :: "broker \<Rightarrow> bool" where
  "base_ok s \<longleftrightarrow> 1 \<le> b_page s \<and> events_ok (b_mesh s) \<and> log_ok s \<and> safe_entries s (listing (b_mesh s)) \<and> receipts_ok s
     \<and> (\<forall>i c. jm_get (b_unsaved s) i = Some c \<longrightarrow> jm_has (b_known s) i \<and> passed s i c)"

definition receipt_job :: "broker \<Rightarrow> string \<Rightarrow> job \<Rightarrow> bool" where
  "receipt_job s i j \<longleftrightarrow> (case j of Save e sub _ \<Rightarrow> n_key e = subscription_key i \<and> (\<exists>e'. jm_get (b_delivered s) i = Some (e', sub))
     | Retire e sub _ \<Rightarrow> n_key e = subscription_key i \<and> (\<exists>e'. jm_get (b_delivered s) i = Some (e', sub)))"

definition applied :: "pending \<Rightarrow> bool" where
  "applied w \<longleftrightarrow> (case w of Answered _ (Applied _) \<Rightarrow> True | _ \<Rightarrow> False)"

definition job_of :: "pending \<Rightarrow> job" where
  "job_of w = (case w of Asked j \<Rightarrow> j | Answered j _ \<Rightarrow> j)"

definition receipt_ok :: "broker \<Rightarrow> string \<Rightarrow> pending \<Rightarrow> bool" where
  "receipt_ok s i w \<longleftrightarrow> receipt_job s i (job_of w) \<and> (applied w \<longrightarrow> stored s i)"

definition store_ok :: "broker \<Rightarrow> string \<Rightarrow> pending \<Rightarrow> bool" where
  "store_ok s i w \<longleftrightarrow> (case job_of w of Retire _ _ _ \<Rightarrow> False
     | Save e sub _ \<Rightarrow> n_key e = subscription_key i \<and> s_id sub = i \<and> clear s sub (s_after sub))"

definition frame_ok :: "broker \<Rightarrow> string set \<Rightarrow> frame \<Rightarrow> bool" where
  "frame_ok s ks f \<longleftrightarrow> n_key (f_entry f) = subscription_key (s_id (f_sub f)) \<and> subscription_key (s_id (f_sub f)) \<notin> ks
     \<and> page_ok s (f_cursor f) (f_events f)"

definition stage_ok :: "broker \<Rightarrow> string set \<Rightarrow> stage \<Rightarrow> bool" where
  "stage_ok s ks st \<longleftrightarrow> (case st of Head \<Rightarrow> True
   | Confirm i w \<Rightarrow> subscription_key i \<notin> ks \<and> receipt_ok s i w
   | Page e sub \<Rightarrow> n_key e = subscription_key (s_id sub) \<and> subscription_key (s_id sub) \<notin> ks \<and> clear s sub (s_after sub)
   | Scan f \<Rightarrow> frame_ok s ks f \<and> clear s (f_sub f) (f_cursor f) \<and> clear s (f_sub f) (s_after (f_sub f))
   | Hand f ev \<Rightarrow> (\<exists>e. event_of_mesh e = Some ev \<and> frame_ok s ks (f\<lparr>f_events := e # f_events f\<rparr>))
       \<and> clear s (f_sub f) (f_cursor f) \<and> clear s (f_sub f) (s_after (f_sub f))
   | Receipt f w \<Rightarrow> frame_ok s ks f \<and> s_after (f_sub f) = f_cursor f \<and> receipt_ok s (s_id (f_sub f)) w
       \<and> jm_get (b_delivered s) (s_id (f_sub f)) = Some (f_entry f, f_sub f)
   | Store_last i w \<Rightarrow> subscription_key i \<notin> ks \<and> store_ok s i w
   | Store_page f w \<Rightarrow> subscription_key (s_id (f_sub f)) \<notin> ks \<and> store_ok s (s_id (f_sub f)) w)"

definition pass_ok :: "broker \<Rightarrow> pass \<Rightarrow> bool" where
  "pass_ok s d \<longleftrightarrow> distinct (map n_key (d_rest d)) \<and> safe_entries s (d_rest d)"

definition loop_ok :: "broker \<Rightarrow> loop \<Rightarrow> bool" where
  "loop_ok s l \<longleftrightarrow> (case l of Drain d st \<Rightarrow> pass_ok s d \<and> stage_ok s (n_key ` set (d_rest d)) st | _ \<Rightarrow> True)"

text \<open>A checkpoint that still holds the pause it began under has the receipts to itself.\<close>

definition job_guard :: "job \<Rightarrow> guard" where
  "job_guard j = (case j of Save _ _ g \<Rightarrow> g | Retire _ _ g \<Rightarrow> g)"

definition hold_ok :: "broker \<Rightarrow> nat \<Rightarrow> bool \<Rightarrow> bool" where
  "hold_ok s e g \<longleftrightarrow> e \<le> b_epoch s \<and> (e = b_epoch s \<longrightarrow> b_paused s \<and> \<not> polling s) \<and> (\<not> g \<longrightarrow> e = b_epoch s)"

definition checkpoint_ok :: "broker \<Rightarrow> bool" where
  "checkpoint_ok s \<longleftrightarrow> (case b_checkpoint s of No_checkpoint \<Rightarrow> True
   | Settling e g \<Rightarrow> e \<le> b_epoch s \<and> (e = b_epoch s \<longrightarrow> b_paused s)
   | Confirming e g ids \<Rightarrow> hold_ok s e g
   | Awaiting e g ids i w \<Rightarrow> hold_ok s e g \<and> job_guard (job_of w) = cp_guard e g \<and> (e = b_epoch s \<longrightarrow> receipt_ok s i w))"

definition broker_ok :: "broker \<Rightarrow> bool" where
  "broker_ok s \<longleftrightarrow> base_ok s \<and> loop_ok s (b_loop s) \<and> checkpoint_ok s"

text \<open>
  What is assumed of the world: a new subscription has a fresh id; sequences grow, and while none is reserved apart from its
  append they follow all that was seen; another host keeps a subscription's source and events and does not move its cursor back;
  and a checkpoint that was given no \<open>valid\<close> is not resumed while it confirms receipts.
\<close>

definition polite :: "broker \<Rightarrow> event \<Rightarrow> bool" where
  "polite s e \<longleftrightarrow> (case e of
     Subscribed sub \<Rightarrow> subscription_ok sub \<and> \<not> jm_has (b_known s) (s_id sub) \<and> s_after sub \<le> latest (b_mesh s)
   | Append m \<Rightarrow> 0 < ev_seq m \<and> (\<forall>x \<in> set (st_events (b_mesh s)). ev_seq x < ev_seq m) \<and> (\<not> b_torn s \<longrightarrow> latest (b_mesh s) < ev_seq m)
   | Foreign_save sub ver \<Rightarrow> subscription_ok sub \<and> s_after sub \<le> latest (b_mesh s)
       \<and> (case jm_get (b_known s) (s_id sub) of None \<Rightarrow> False | Some (src, evs, base) \<Rightarrow> src = s_from sub \<and> evs = s_events sub \<and> base \<le> s_after sub)
       \<and> (\<exists>x \<in> set (listing (b_mesh s)). case own_subscription x of None \<Rightarrow> False | Some old \<Rightarrow> s_id old = s_id sub \<and> s_after old \<le> s_after sub)
   | Resume \<Rightarrow> (case b_checkpoint s of Confirming _ g _ \<Rightarrow> g | Awaiting _ g _ _ _ \<Rightarrow> g | _ \<Rightarrow> True)
   | _ \<Rightarrow> True)"

fun polite_run :: "broker \<Rightarrow> event list \<Rightarrow> bool" where
  "polite_run s [] = True"
| "polite_run s (e # es) = (polite s e \<and> polite_run (step s e) es)"

section \<open>Change that keeps cursors\<close>

definition evolves :: "broker \<Rightarrow> broker \<Rightarrow> bool" where
  "evolves s t \<longleftrightarrow> b_log t = b_log s \<and> b_delivered t = b_delivered s \<and> (\<forall>sub. fits s sub \<longrightarrow> fits t sub)
     \<and> (\<forall>i. jm_has (b_known s) i \<longrightarrow> jm_has (b_known t) i \<and> (\<forall>q. passed s i q \<longrightarrow> passed t i q)) \<and> (\<forall>q evs. page_ok s q evs \<longrightarrow> page_ok t q evs) \<and> (\<forall>i. stored s i \<longrightarrow> stored t i)"

text \<open>The fields the cursors' meaning depends on.\<close>

definition same_core :: "broker \<Rightarrow> broker \<Rightarrow> bool" where
  "same_core s t \<longleftrightarrow> b_mesh t = b_mesh s \<and> b_log t = b_log s \<and> b_skipped t = b_skipped s \<and> b_delivered t = b_delivered s
     \<and> b_known t = b_known s \<and> b_torn t = b_torn s"

lemma covers_up: "covers s i q \<Longrightarrow> q \<le> q' \<Longrightarrow> covers s i q'"
  by (force simp: covers_def)

lemma same_core_evolves: "same_core s t \<Longrightarrow> evolves s t"
  by (auto simp: same_core_def evolves_def fits_def passed_def wanted_def handled_def page_ok_def stored_def covers_def)

lemma evolves_covers: "evolves s t \<Longrightarrow> covers t i q = covers s i q"
  by (simp add: evolves_def covers_def)

lemma evolves_keeps:
  assumes "evolves s t"
  shows "b_log t = b_log s" and "b_delivered t = b_delivered s" and "fits s sub \<Longrightarrow> fits t sub"
    and "jm_has (b_known s) i \<Longrightarrow> passed s i q \<Longrightarrow> passed t i q" and "jm_has (b_known s) i \<Longrightarrow> jm_has (b_known t) i"
    and "page_ok s q evs \<Longrightarrow> page_ok t q evs" and "stored s i \<Longrightarrow> stored t i"
  using assms by (simp_all add: evolves_def)

lemma evolves_refl [simp]: "evolves s s"
  by (simp add: evolves_def)

lemma evolves_trans: "evolves s t \<Longrightarrow> evolves t u \<Longrightarrow> evolves s u"
  unfolding evolves_def by (intro conjI; (elim conjE)?) (metis | blast)+

lemma fits_known: "fits s sub \<Longrightarrow> jm_has (b_known s) (s_id sub)"
  by (auto simp: fits_def jm_has_def)

lemma evolves_clear: "evolves s t \<Longrightarrow> clear s sub q \<Longrightarrow> clear t sub q"
  using evolves_keeps [of s t] evolves_covers [of s t] fits_known [of s sub] by (simp add: clear_def)

lemma evolves_safe: "evolves s t \<Longrightarrow> safe s sub \<Longrightarrow> safe t sub"
  using evolves_keeps [of s t] evolves_covers [of s t] fits_known [of s sub] by (auto simp: safe_def)

lemma evolves_safe_entries: "evolves s t \<Longrightarrow> safe_entries s es \<Longrightarrow> safe_entries t es"
  by (simp add: safe_entries_def evolves_safe)

lemma evolves_receipts:
  assumes e: "evolves s t" and r: "receipts_ok s"
  shows "receipts_ok t"
  unfolding receipts_ok_def
proof (intro allI impI)
  fix i x sub assume "jm_get (b_delivered t) i = Some (x, sub)"
  with r evolves_keeps(2) [OF e] have o: "s_id sub = i \<and> n_key x = subscription_key i \<and> fits s sub \<and> passed s i (s_after sub) \<and> covers s i (s_after sub)"
    by (simp add: receipts_ok_def)
  with fits_known [of s sub] evolves_keeps [OF e] evolves_covers [OF e]
  show "s_id sub = i \<and> n_key x = subscription_key i \<and> fits t sub \<and> passed t i (s_after sub) \<and> covers t i (s_after sub)" by auto
qed

lemma evolves_receipt: "evolves s t \<Longrightarrow> receipt_ok s i w \<Longrightarrow> receipt_ok t i w"
  by (auto simp: evolves_def receipt_ok_def receipt_job_def split: job.splits)

lemma evolves_store: "evolves s t \<Longrightarrow> store_ok s i w \<Longrightarrow> store_ok t i w"
  by (auto simp: store_ok_def evolves_clear split: job.splits)

lemma evolves_frame: "evolves s t \<Longrightarrow> frame_ok s ks f \<Longrightarrow> frame_ok t ks f"
  by (simp add: frame_ok_def evolves_def)

lemma evolves_stage:
  assumes e: "evolves s t" and o: "stage_ok s ks st"
  shows "stage_ok t ks st"
proof (cases st)
  case (Hand f ev)
  with o evolves_frame [OF e] evolves_clear [OF e] show ?thesis by (auto simp: stage_ok_def)
next
  case (Receipt f w)
  have "b_delivered t = b_delivered s" using e by (simp add: evolves_def)
  with Receipt o evolves_frame [OF e] evolves_receipt [OF e] show ?thesis by (auto simp: stage_ok_def)
qed (use o evolves_frame [OF e] evolves_clear [OF e] evolves_receipt [OF e] evolves_store [OF e] in \<open>auto simp: stage_ok_def\<close>)

lemma evolves_loop: "evolves s t \<Longrightarrow> loop_ok s l \<Longrightarrow> loop_ok t l"
  by (auto simp: loop_ok_def pass_ok_def evolves_safe_entries evolves_stage split: loop.splits)

lemma same_core_base:
  assumes "same_core s t" and "b_unsaved t = b_unsaved s" and "b_page t = b_page s" and "base_ok s"
  shows "base_ok t"
proof -
  have e: "evolves s t" by (rule same_core_evolves) fact
  have m: "b_mesh t = b_mesh s" "b_known t = b_known s" using assms(1) by (simp_all add: same_core_def)
  have p: "\<And>i q. jm_has (b_known s) i \<Longrightarrow> passed s i q \<Longrightarrow> jm_has (b_known t) i \<and> passed t i q" using e by (simp add: evolves_def)
  have l: "log_ok s \<Longrightarrow> log_ok t" using assms(1) by (simp add: same_core_def log_ok_def deliveries_def)
  show ?thesis using assms(2-4) m p l evolves_receipts [OF e] evolves_safe_entries [OF e] by (simp add: base_ok_def)
qed

text \<open>The checkpoint's clause only asks what a held pause gives.\<close>

lemma checkpoint_evolves:
  assumes "evolves s t" and "b_checkpoint t = b_checkpoint s" and "b_epoch t = b_epoch s" and "b_paused t = b_paused s"
    and "b_paused s \<Longrightarrow> polling t \<Longrightarrow> polling s" and "checkpoint_ok s"
  shows "checkpoint_ok t"
  using assms(2-6) evolves_receipt [OF assms(1)] by (auto simp: checkpoint_ok_def hold_ok_def split: checkpoint.splits)

text \<open>A step that only changes flags.\<close>

lemma flags_ok:
  assumes "same_core s t" "b_unsaved t = b_unsaved s" "b_page t = b_page s" "b_loop t = b_loop s" "b_checkpoint t = b_checkpoint s"
    "b_epoch t = b_epoch s" "b_paused t = b_paused s" and o: "broker_ok s"
  shows "broker_ok t"
proof -
  have e: "evolves s t" by (rule same_core_evolves) fact
  have "polling t = polling s" using assms(4) by (simp add: polling_def)
  then show ?thesis using o assms same_core_base [OF assms(1,2,3)] evolves_loop [OF e] checkpoint_evolves [OF e assms(5,6,7)]
    by (simp add: broker_ok_def)
qed

text \<open>A step of the drain: what it leaves behind must be in order; a checkpoint in hold excludes it.\<close>

lemma drain_ok:
  assumes o: "broker_ok s" and e: "evolves s t" and "base_ok t" and l: "loop_ok t (b_loop t)"
    and "b_checkpoint t = b_checkpoint s" "b_epoch t = b_epoch s" "b_paused t = b_paused s" "b_paused s \<Longrightarrow> polling t \<Longrightarrow> polling s"
  shows "broker_ok t"
  using assms checkpoint_evolves [OF e assms(5-8)] by (simp add: broker_ok_def)

lemma broker_wake_ok: "broker_ok s \<Longrightarrow> broker_ok (wake s)"
  by (rule flags_ok [of s]) (simp_all add: wake_def schedule_poll_def same_core_def)

section \<open>Writes\<close>

lemma in_listing: "e \<in> set (listing st) \<longleftrightarrow> starts_with SUBSCRIPTION_PREFIX (n_key e) \<and> (n_key e, n_value e, n_version e) \<in> set (st_state st)"
  by (cases e) (force simp: listing_def image_iff)

lemma listing_keys: "jm_ok (st_state st) \<Longrightarrow> distinct (map n_key (listing st))"
proof -
  assume d: "jm_ok (st_state st)"
  have "map n_key (listing st) = map fst (filter (\<lambda>p. starts_with SUBSCRIPTION_PREFIX (fst p)) (st_state st))"
    by (auto simp: listing_def)
  then show ?thesis using d by (simp add: jm_ok_def jm_keys_def distinct_map_filter)
qed

lemma own_key: "own_subscription e = Some sub \<Longrightarrow> n_key e = subscription_key (s_id sub) \<and> subscription_ok sub"
  by (auto simp: own_subscription_def subscription_of_value_ok split: option.splits if_splits)

lemma own_value: "n_key e = subscription_key (s_id sub) \<Longrightarrow> n_value e = value_of_subscription sub \<Longrightarrow> subscription_ok sub
    \<Longrightarrow> own_subscription e = Some sub"
  by (simp add: own_subscription_def subscription_value_parses)

text \<open>A new mesh state whose events are the old ones, and whose entries are old or hold the given subscription.\<close>

definition writes :: "store \<Rightarrow> store \<Rightarrow> string \<Rightarrow> json option \<Rightarrow> bool" where
  "writes st st' k v \<longleftrightarrow> st_events st' = st_events st \<and> st_counter st' = st_counter st \<and> (jm_ok (st_state st) \<longrightarrow> jm_ok (st_state st'))
     \<and> (\<forall>e \<in> set (listing st'). if n_key e = k then Some (n_value e) = v else e \<in> set (listing st))"

lemma put_writes:
  assumes d: "jm_ok (st_state st)" and p: "st_put k v ver st = Some (n, st')"
  shows "writes st st' k (Some v)"
proof -
  obtain w m where g: "jm_get (st_state st) k = Some (w, m)" "m = ver"
    and st': "st' = st\<lparr>st_state := jm_set k (v, m + 1) (st_state st), st_clock := st_clock st + 1\<rparr>"
    using p by (auto simp: st_put_def split: option.splits if_splits)
  have "if n_key e = k then n_value e = v else e \<in> set (listing st)" if e: "e \<in> set (listing st')" for e
  proof -
    have m: "jm_get (jm_set k (v, m + 1) (st_state st)) (n_key e) = Some (n_value e, n_version e)"
      using e d by (simp add: in_listing st' jm_in_set_get)
    with e show ?thesis by (auto simp: in_listing st' jm_get_set split: if_splits dest: jm_get_in_set)
  qed
  then show ?thesis using d by (auto simp: writes_def st' split: if_splits)
qed

lemma delete_writes:
  assumes d: "jm_ok (st_state st)" and p: "st_delete k ver st = Some (n, st')"
  shows "writes st st' k None"
proof -
  have st': "st' = st\<lparr>st_state := jm_del k (st_state st), st_clock := st_clock st + 1\<rparr>"
    using p by (auto simp: st_delete_def split: option.splits if_splits)
  show ?thesis using d by (auto simp: writes_def st' in_listing set_jm_del)
qed

lemma create_writes:
  assumes d: "jm_ok (st_state st)" and p: "\<not> jm_has (st_state st) k"
  shows "writes st (st_create k v st) k (Some v)"
proof -
  have a: "jm_set k (v, st_clock st + 1) (st_state st) = st_state st @ [(k, v, st_clock st + 1)]"
    using p by (simp add: jm_set_absent jm_has_iff)
  have n: "(k, x) \<notin> set (st_state st)" for x using p by (force simp: jm_has_iff jm_keys_def)
  have "jm_ok (st_state st @ [(k, v, st_clock st + 1)])" using jm_ok_set [OF d] by (metis a)
  then show ?thesis using d p n by (auto simp: writes_def st_create_def a in_listing)
qed

lemma writes_latest: "writes st st' k v \<Longrightarrow> latest st' = latest st"
  by (simp add: writes_def latest_def cong: option.case_cong)

lemma writes_events: "writes st st' k v \<Longrightarrow> events_ok st \<Longrightarrow> events_ok st'"
  by (auto simp: writes_def events_ok_def)

text \<open>Such a write keeps every cursor's meaning if the subscription written is safe, and leaves it stored.\<close>

definition writable :: "broker \<Rightarrow> string \<Rightarrow> subscription option \<Rightarrow> bool" where
  "writable s i v \<longleftrightarrow> (\<forall>sub. v = Some sub \<longrightarrow> s_id sub = i \<and> safe s sub \<and> (stored s i \<longrightarrow> covers s i (s_after sub)))"

lemma written_entry:
  assumes w: "writes (b_mesh s) st (subscription_key i) (map_option value_of_subscription v)" and k: "writable s i v"
    and e: "e \<in> set (listing st)" "own_subscription e = Some sub"
  shows "if s_id sub = i then v = Some sub else e \<in> set (listing (b_mesh s))"
proof (cases "s_id sub = i")
  case True
  with own_key [OF e(2)] w e(1) have "Some (n_value e) = map_option value_of_subscription v" by (auto simp: writes_def)
  then obtain u where u: "v = Some u" "n_value e = value_of_subscription u" by (cases v) auto
  with k have "s_id u = i" "subscription_ok u" by (auto simp: writable_def safe_def fits_def)
  with u True own_key [OF e(2)] have "own_subscription e = Some u" by (intro own_value) auto
  with e u show ?thesis using True by simp
next
  case False
  with own_key [OF e(2)] have "n_key e \<noteq> subscription_key i" by simp
  with w e(1) False show ?thesis by (auto simp: writes_def)
qed

lemma write_evolves:
  assumes o: "base_ok s" and w: "writes (b_mesh s) st (subscription_key i) (map_option value_of_subscription v)" and k: "writable s i v"
  shows "evolves s (s\<lparr>b_mesh := st\<rparr>) \<and> base_ok (s\<lparr>b_mesh := st\<rparr>)
     \<and> ((\<forall>sub. v = Some sub \<longrightarrow> covers s i (s_after sub)) \<longrightarrow> stored (s\<lparr>b_mesh := st\<rparr>) i)"
proof -
  let ?t = "s\<lparr>b_mesh := st\<rparr>"
  note e = written_entry [OF w k]
  have st: "st_events st = st_events (b_mesh s)" "latest st = latest (b_mesh s)" using w writes_latest [OF w] by (simp_all add: writes_def)
  have p: "passed ?t j q = passed s j q" for j q by (simp add: passed_def wanted_def handled_def st)
  have f: "fits ?t sub = fits s sub" for sub by (simp add: fits_def)
  have g: "page_ok ?t q evs = page_ok s q evs" for q evs by (simp add: page_ok_def st)
  have c: "covers ?t = covers s" by (intro ext) (simp add: covers_def)
  have sa: "safe ?t sub = safe s sub" for sub by (simp add: safe_def f p c)
  have so: "stored ?t j" if "stored s j" for j
    unfolding stored_def
  proof (intro ballI allI impI)
    fix x sub assume x: "x \<in> set (listing (b_mesh ?t))" "own_subscription x = Some sub" "s_id sub = j"
    then have "if j = i then v = Some sub else x \<in> set (listing (b_mesh s))" using e [of x sub] by simp
    note y = this
    show "covers ?t j (s_after sub)"
      unfolding c
    proof (cases "j = i")
      case True with y k that show "covers s j (s_after sub)" by (simp add: writable_def)
    next
      case False with y x that show "covers s j (s_after sub)" unfolding stored_def by simp
    qed
  qed
  have si: "stored ?t i" if v: "\<forall>sub. v = Some sub \<longrightarrow> covers s i (s_after sub)"
    unfolding stored_def
  proof (intro ballI allI impI)
    fix x sub assume x: "x \<in> set (listing (b_mesh ?t))" "own_subscription x = Some sub" "s_id sub = i"
    then have "v = Some sub" using e [of x sub] by simp
    with v show "covers ?t i (s_after sub)" unfolding c by blast
  qed
  have "safe_entries ?t (listing st)"
    unfolding safe_entries_def
  proof (intro ballI allI impI)
    fix x sub assume x: "x \<in> set (listing st)" "own_subscription x = Some sub"
    from o have l: "safe_entries s (listing (b_mesh s))" by (simp add: base_ok_def)
    show "safe ?t sub"
    proof (cases "s_id sub = i")
      case True with e [OF x] k show ?thesis unfolding sa writable_def by simp
    next
      case False with e [OF x] x l show ?thesis unfolding sa safe_entries_def by simp
    qed
  qed
  moreover have ev: "evolves s ?t" by (simp add: evolves_def f p g so)
  moreover have "receipts_ok ?t" using o evolves_receipts [OF ev] by (simp add: base_ok_def)
  moreover have "log_ok ?t" using o by (simp add: base_ok_def log_ok_def deliveries_def)
  ultimately show ?thesis using o si writes_events [OF w] by (simp add: base_ok_def p)
qed

definition job_writable :: "broker \<Rightarrow> string \<Rightarrow> job \<Rightarrow> bool" where
  "job_writable s i j \<longleftrightarrow> (case j of Save e sub _ \<Rightarrow> n_key e = subscription_key i \<and> writable s i (Some sub) \<and> covers s i (s_after sub)
     | Retire e _ _ \<Rightarrow> n_key e = subscription_key i)"

definition kept_by :: "broker \<Rightarrow> broker \<Rightarrow> bool" where
  "kept_by s t \<longleftrightarrow> evolves s t \<and> base_ok t \<and> (\<exists>st. t = s\<lparr>b_mesh := st\<rparr>)"

lemma kept_refl: "base_ok s \<Longrightarrow> kept_by s s"
  by (auto simp: kept_by_def evolves_def intro: exI [of _ "b_mesh s"])

lemma perform_ok:
  assumes o: "base_ok s" and j: "job_writable s i j"
  shows "kept_by s (snd (perform j s)) \<and> (\<forall>v. fst (perform j s) = Applied v \<longrightarrow> stored (snd (perform j s)) i)"
proof -
  have d: "jm_ok (st_state (b_mesh s))" using o by (simp add: base_ok_def events_ok_def)
  show ?thesis
  proof (cases j)
    case (Save e sub g)
    show ?thesis
    proof (cases "\<not> guard_ok g s \<or> b_lost s \<or> st_put (n_key e) (value_of_subscription sub) (n_version e) (b_mesh s) = None")
      case True with Save kept_refl [OF o] show ?thesis by (auto simp: perform_def)
    next
      case False
      then obtain v st where p: "st_put (n_key e) (value_of_subscription sub) (n_version e) (b_mesh s) = Some (v, st)" by auto
      have k: "n_key e = subscription_key i" "writable s i (Some sub)" "covers s i (s_after sub)" using j Save by (simp_all add: job_writable_def)
      have "writes (b_mesh s) st (subscription_key i) (map_option value_of_subscription (Some sub))" using put_writes [OF d p] k by simp
      from write_evolves [OF o this k(2)] k(3) False Save p show ?thesis by (auto simp: perform_def kept_by_def)
    qed
  next
    case (Retire e sub g)
    show ?thesis
    proof (cases "\<not> guard_ok g s \<or> b_lost s \<or> st_delete (n_key e) (n_version e) (b_mesh s) = None")
      case True with Retire kept_refl [OF o] show ?thesis by (auto simp: perform_def)
    next
      case False
      then obtain v st where p: "st_delete (n_key e) (n_version e) (b_mesh s) = Some (v, st)" by auto
      have k: "n_key e = subscription_key i" "writable s i None" using j Retire by (simp_all add: job_writable_def writable_def)
      have "writes (b_mesh s) st (subscription_key i) (map_option value_of_subscription None)" using delete_writes [OF d p] k by simp
      from write_evolves [OF o this k(2)] False Retire p show ?thesis by (auto simp: perform_def kept_by_def)
    qed
  qed
qed

lemma answer_ok:
  assumes o: "base_ok s" and j: "job_writable s i (job_of w)"
  shows "kept_by s (snd (answer h w s)) \<and> job_of (fst (answer h w s)) = job_of w
     \<and> ((applied w \<longrightarrow> stored s i) \<longrightarrow> applied (fst (answer h w s)) \<longrightarrow> stored (snd (answer h w s)) i)"
proof (cases w)
  case (Asked j)
  with perform_ok [OF o, of i j] assms kept_refl [OF o] show ?thesis
    by (cases h) (auto simp: answer_def job_of_def applied_def split: reply.splits)
next
  case (Answered j r)
  with kept_refl [OF o] show ?thesis by (simp add: answer_def)
qed

lemma answer_refused:
  assumes "\<not> guard_ok (job_guard (job_of w)) s"
  shows "snd (answer h w s) = s \<and> job_of (fst (answer h w s)) = job_of w"
proof -
  have "snd (perform j s) = s" if "job_guard j = job_guard (job_of w)" for j
    using that assms by (cases j) (simp_all add: perform_def job_guard_def)
  then show ?thesis by (cases w; cases h) (simp_all add: answer_def job_of_def)
qed

lemma receipt_writable: "receipts_ok s \<Longrightarrow> receipt_job s i j \<Longrightarrow> job_writable s i j"
  by (auto simp: receipt_job_def job_writable_def writable_def safe_def receipts_ok_def jm_has_def split: job.splits)

lemma store_writable: "store_ok s i w \<Longrightarrow> job_writable s i (job_of w)"
  by (auto simp: store_ok_def job_writable_def writable_def safe_def clear_def split: job.splits)

lemma answer_receipt:
  assumes o: "base_ok s" and r: "receipt_ok s i w"
  shows "kept_by s (snd (answer h w s)) \<and> receipt_ok (snd (answer h w s)) i (fst (answer h w s))"
proof -
  have j: "job_writable s i (job_of w)" using o r receipt_writable by (simp add: base_ok_def receipt_ok_def)
  note a = answer_ok [OF o j, of h]
  have "b_delivered (snd (answer h w s)) = b_delivered s" using a r by (simp add: kept_by_def evolves_def receipt_ok_def)
  then show ?thesis using a r by (simp add: receipt_ok_def receipt_job_def cong: job.case_cong)
qed

lemma answer_store:
  assumes o: "base_ok s" and r: "store_ok s i w"
  shows "kept_by s (snd (answer h w s)) \<and> store_ok (snd (answer h w s)) i (fst (answer h w s))"
proof -
  note a = answer_ok [OF o store_writable [OF r], of h]
  then have "evolves s (snd (answer h w s))" by (simp add: kept_by_def)
  then have "clear s sub q \<Longrightarrow> clear (snd (answer h w s)) sub q" for sub q by (rule evolves_clear)
  then show ?thesis using a r by (auto simp: store_ok_def split: job.splits)
qed

lemma kept_fields:
  assumes "kept_by s t"
  shows "b_checkpoint t = b_checkpoint s" and "b_epoch t = b_epoch s" and "b_paused t = b_paused s" and "b_loop t = b_loop s"
  using assms by (auto simp: kept_by_def)

text \<open>Setting the loop or the checkpoint touches no cursor.\<close>

lemma same_core_sym: "same_core s t \<Longrightarrow> same_core t s"
  by (simp add: same_core_def)

lemma same_core_eqs:
  assumes "same_core s t"
  shows "loop_ok t = loop_ok s" and "receipt_ok t = receipt_ok s" and "pass_ok t = pass_ok s" and "clear t = clear s"
    and "b_unsaved t = b_unsaved s \<Longrightarrow> b_page t = b_page s \<Longrightarrow> base_ok t = base_ok s"
proof -
  note e = same_core_evolves [OF assms] same_core_evolves [OF same_core_sym [OF assms]]
  show "loop_ok t = loop_ok s" using evolves_loop [OF e(1)] evolves_loop [OF e(2)] by blast
  show "receipt_ok t = receipt_ok s" using evolves_receipt [OF e(1)] evolves_receipt [OF e(2)] by blast
  show "clear t = clear s" using evolves_clear [OF e(1)] evolves_clear [OF e(2)] by blast
  show "pass_ok t = pass_ok s" unfolding pass_ok_def using evolves_safe_entries [OF e(1)] evolves_safe_entries [OF e(2)] by blast
  show "base_ok t = base_ok s" if u: "b_unsaved t = b_unsaved s" "b_page t = b_page s"
    using same_core_base [OF assms u] same_core_base [OF same_core_sym [OF assms] u [symmetric]] by blast
qed

lemma set_evolves:
  assumes "same_core t t'"
  shows "evolves s t' = evolves s t"
  using evolves_trans [OF _ same_core_evolves [OF assms]] evolves_trans [OF _ same_core_evolves [OF same_core_sym [OF assms]]] by blast

lemma set_loop [simp]: "base_ok (s\<lparr>b_loop := l\<rparr>) = base_ok s" "evolves s' (s\<lparr>b_loop := l\<rparr>) = evolves s' s"
  "loop_ok (s\<lparr>b_loop := l\<rparr>) = loop_ok s" "clear (s\<lparr>b_loop := l\<rparr>) = clear s"
proof -
  have c: "same_core s (s\<lparr>b_loop := l\<rparr>)" by (simp add: same_core_def)
  note q = same_core_eqs [OF c]
  show "base_ok (s\<lparr>b_loop := l\<rparr>) = base_ok s" by (rule q(5)) simp_all
  show "loop_ok (s\<lparr>b_loop := l\<rparr>) = loop_ok s" by (rule q(1))
  show "clear (s\<lparr>b_loop := l\<rparr>) = clear s" by (rule q(4))
  show "evolves s' (s\<lparr>b_loop := l\<rparr>) = evolves s' s" by (rule set_evolves [OF c])
qed

lemma set_checkpoint [simp]: "base_ok (s\<lparr>b_checkpoint := l\<rparr>) = base_ok s" "evolves s' (s\<lparr>b_checkpoint := l\<rparr>) = evolves s' s"
  "loop_ok (s\<lparr>b_checkpoint := l\<rparr>) = loop_ok s" "receipt_ok (s\<lparr>b_checkpoint := l\<rparr>) = receipt_ok s"
proof -
  have c: "same_core s (s\<lparr>b_checkpoint := l\<rparr>)" by (simp add: same_core_def)
  note q = same_core_eqs [OF c]
  show "base_ok (s\<lparr>b_checkpoint := l\<rparr>) = base_ok s" by (rule q(5)) simp_all
  show "loop_ok (s\<lparr>b_checkpoint := l\<rparr>) = loop_ok s" by (rule q(1))
  show "receipt_ok (s\<lparr>b_checkpoint := l\<rparr>) = receipt_ok s" by (rule q(2))
  show "evolves s' (s\<lparr>b_checkpoint := l\<rparr>) = evolves s' s" by (rule set_evolves [OF c])
qed

lemma set_flags [simp]: "base_ok (s\<lparr>b_dirty := x\<rparr>) = base_ok s" "loop_ok (s\<lparr>b_dirty := x\<rparr>) = loop_ok s" "pass_ok (s\<lparr>b_dirty := x\<rparr>) = pass_ok s"
  "base_ok (s\<lparr>b_failed := x\<rparr>) = base_ok s" "loop_ok (s\<lparr>b_failed := x\<rparr>) = loop_ok s" "pass_ok (s\<lparr>b_failed := x\<rparr>) = pass_ok s"
proof -
  have c: "same_core s (s\<lparr>b_dirty := x\<rparr>)" "same_core s (s\<lparr>b_failed := x\<rparr>)" by (simp_all add: same_core_def)
  note q = same_core_eqs [OF c(1)] and r = same_core_eqs [OF c(2)]
  show "base_ok (s\<lparr>b_dirty := x\<rparr>) = base_ok s" by (rule q(5)) simp_all
  show "base_ok (s\<lparr>b_failed := x\<rparr>) = base_ok s" by (rule r(5)) simp_all
qed (rule same_core_eqs, simp add: same_core_def)+

lemma polling_loop [simp]: "polling (s\<lparr>b_loop := Drain d st\<rparr>)" "\<not> polling (s\<lparr>b_loop := Ending out\<rparr>)"
  "\<not> polling (s\<lparr>b_loop := Idle\<rparr>)" "\<not> polling (s\<lparr>b_loop := Ready\<rparr>)"
  by (simp_all add: polling_def)

lemma polling_drain: "b_loop s = Drain d st \<Longrightarrow> polling s"
  by (simp add: polling_def)

lemma drain_commit_ok:
  assumes o: "broker_ok s"
  shows "broker_ok (drain_commit h s)"
proof (cases "\<exists>d st w. b_loop s = Drain d st \<and> pending_of st = Some w")
  case False
  then have "drain_commit h s = s" by (auto simp: drain_commit_def split: loop.splits option.splits)
  with o show ?thesis by simp
next
  case True
  then obtain d st w where l: "b_loop s = Drain d st" and w: "pending_of st = Some w" by blast
  let ?t = "snd (answer h w s)" and ?ks = "n_key ` set (d_rest d)"
  have b: "base_ok s" "pass_ok s d" "stage_ok s ?ks st" using o l by (simp_all add: broker_ok_def loop_ok_def)
  have k: "kept_by s ?t \<and> stage_ok ?t ?ks (with_pending (fst (answer h w s)) st)"
  proof (cases st)
    case (Confirm i x)
    with w b answer_receipt [OF b(1), of i w h] show ?thesis by (simp add: pending_of_def stage_ok_def with_pending_def)
  next
    case (Receipt f x)
    with w b answer_receipt [OF b(1), of "s_id (f_sub f)" w h] evolves_frame [of s ?t ?ks f]
    show ?thesis by (auto simp: pending_of_def stage_ok_def with_pending_def kept_by_def evolves_keeps)
  next
    case (Store_last i x)
    with w b answer_store [OF b(1), of i w h] show ?thesis by (simp add: pending_of_def stage_ok_def with_pending_def)
  next
    case (Store_page f x)
    with w b answer_store [OF b(1), of "s_id (f_sub f)" w h] show ?thesis by (simp add: pending_of_def stage_ok_def with_pending_def)
  qed (use w in \<open>simp_all add: pending_of_def\<close>)
  then have e: "evolves s ?t" "base_ok ?t" by (simp_all add: kept_by_def)
  have "pass_ok ?t d" using b evolves_safe_entries [OF e(1)] by (simp add: pass_ok_def)
  with k e kept_fields [of s ?t] l w show ?thesis
    by (intro drain_ok [OF o]) (simp_all add: drain_commit_def loop_ok_def polling_drain)
qed

lemma checkpoint_commit_ok:
  assumes o: "broker_ok s"
  shows "broker_ok (checkpoint_commit h s)"
proof (cases "b_checkpoint s")
  case (Awaiting e g ids i w)
  let ?t = "snd (answer h w s)"
  have c: "hold_ok s e g" "job_guard (job_of w) = cp_guard e g" "e = b_epoch s \<longrightarrow> receipt_ok s i w" and b: "base_ok s" "loop_ok s (b_loop s)"
    using o Awaiting by (simp_all add: broker_ok_def checkpoint_ok_def)
  have k: "kept_by s ?t \<and> job_of (fst (answer h w s)) = job_of w \<and> (e = b_epoch s \<longrightarrow> receipt_ok ?t i (fst (answer h w s)))"
  proof (cases "e = b_epoch s")
    case True
    then have r: "receipt_ok s i w" using c by simp
    have "job_writable s i (job_of w)" using r b receipt_writable by (simp add: base_ok_def receipt_ok_def)
    from answer_ok [OF b(1) this] answer_receipt [OF b(1) r] show ?thesis by simp
  next
    case False
    with c have "\<not> guard_ok (job_guard (job_of w)) s"
      by (auto simp: hold_ok_def cp_guard_def guard_ok_def release_ok_def)
    from answer_refused [OF this, of h] False kept_refl [OF b(1)] show ?thesis by simp
  qed
  then have e: "evolves s ?t" "base_ok ?t" by (simp_all add: kept_by_def)
  have "loop_ok ?t (b_loop s)" by (rule evolves_loop [OF e(1) b(2)])
  with k e kept_fields [of s ?t] c show ?thesis
    by (simp add: checkpoint_commit_def Awaiting broker_ok_def checkpoint_ok_def hold_ok_def polling_def)
qed (use o in \<open>simp_all add: checkpoint_commit_def\<close>)

section \<open>The drain\<close>

text \<open>While a drain runs no checkpoint holds the receipts; it is enough that the drain leaves things in order.\<close>

definition placed :: "broker \<Rightarrow> bool" where
  "placed t \<longleftrightarrow> base_ok t \<and> loop_ok t (b_loop t)"

definition same_hold :: "broker \<Rightarrow> broker \<Rightarrow> bool" where
  "same_hold s t \<longleftrightarrow> b_checkpoint t = b_checkpoint s \<and> b_epoch t = b_epoch s \<and> b_paused t = b_paused s"

lemma drain_placed:
  assumes "broker_ok s" and "polling s" and "placed t" and "same_hold s t"
  shows "broker_ok t"
  using assms by (auto simp: broker_ok_def placed_def same_hold_def checkpoint_ok_def hold_ok_def split: checkpoint.splits)

lemma hold_refl [simp]: "same_hold s s"
  by (simp add: same_hold_def)

lemma placed_loop: "placed (t\<lparr>b_loop := l\<rparr>) \<longleftrightarrow> base_ok t \<and> loop_ok t l"
  by (simp add: placed_def)

lemma loop_ok_simps [simp]: "loop_ok t (Ending out)" "loop_ok t Idle" "loop_ok t Ready"
  "loop_ok t (Drain d st) = (pass_ok t d \<and> stage_ok t (n_key ` set (d_rest d)) st)"
  by (simp_all add: loop_ok_def)

lemma stage_ok_Head [simp]: "stage_ok t ks Head"
  by (simp add: stage_ok_def)

lemma leave_placed: "base_ok t \<Longrightarrow> pass_ok t d \<Longrightarrow> placed (leave d t)"
  by (simp add: leave_def placed_loop)

lemma leave_hold [simp]: "same_hold s (leave d t) = same_hold s t"
  by (simp add: leave_def same_hold_def)

lemma contain_placed: "base_ok s \<Longrightarrow> (\<And>t. same_core s t \<Longrightarrow> b_unsaved t = b_unsaved s \<Longrightarrow> b_page t = b_page s \<Longrightarrow> placed (k t)) \<Longrightarrow> placed (contain b k s)"
  by (simp add: contain_def placed_loop same_core_def)

lemma pass_ok_tail: "pass_ok s d \<Longrightarrow> d_rest d = e # es \<Longrightarrow> pass_ok s (d\<lparr>d_rest := es\<rparr>)"
  by (simp add: pass_ok_def safe_entries_def)

text \<open>A receipt that was stored can be let go.\<close>

definition settled :: "string \<Rightarrow> broker \<Rightarrow> broker \<Rightarrow> bool" where
  "settled i s t \<longleftrightarrow> same_hold s t \<and> b_mesh t = b_mesh s \<and> b_log t = b_log s \<and> b_skipped t = b_skipped s \<and> b_known t = b_known s
     \<and> b_torn t = b_torn s \<and> b_page t = b_page s \<and> b_delivered t = jm_del i (b_delivered s) \<and> b_unsaved t = jm_del i (b_unsaved s)
     \<and> b_loop t = b_loop s \<and> b_lost t = b_lost s"

lemma settled_meaning:
  assumes "settled i s t"
  shows "passed t = passed s" and "fits t = fits s" and "covers t = covers s" and "page_ok t = page_ok s" and "stored t = stored s"
    and "s_id sub \<noteq> i \<Longrightarrow> safe s sub \<Longrightarrow> safe t sub" and "log_ok t = log_ok s"
proof -
  show p: "passed t = passed s" and f: "fits t = fits s" and c: "covers t = covers s" and "page_ok t = page_ok s" and "log_ok t = log_ok s"
    using assms by (auto simp: settled_def passed_def wanted_def handled_def fits_def covers_def page_ok_def log_ok_def deliveries_def fun_eq_iff)
  then show "stored t = stored s" using assms by (simp add: settled_def stored_def fun_eq_iff)
  show "safe t sub" if "s_id sub \<noteq> i" "safe s sub"
    using that assms by (simp add: safe_def p f c jm_has_def settled_def jm_get_del)
qed

lemma settled_base:
  assumes o: "base_ok s" and r: "stored s i" and t: "settled i s t"
  shows "base_ok t"
proof -
  note m = settled_meaning [OF t]
  have b: "b_mesh t = b_mesh s" "b_page t = b_page s" "b_known t = b_known s" "b_unsaved t = jm_del i (b_unsaved s)" "b_delivered t = jm_del i (b_delivered s)"
    using t by (simp_all add: settled_def)
  have "safe_entries t (listing (b_mesh s))"
    unfolding safe_entries_def
  proof (intro ballI allI impI)
    fix e sub assume e: "e \<in> set (listing (b_mesh s))" "own_subscription e = Some sub"
    then have s: "safe s sub" using o by (simp add: base_ok_def safe_entries_def)
    show "safe t sub"
    proof (cases "s_id sub = i")
      case True with r e s show ?thesis by (simp add: safe_def m(1-3) stored_def)
    next
      case False with m(6) s show ?thesis by blast
    qed
  qed
  moreover have "receipts_ok t" using o by (auto simp: base_ok_def receipts_ok_def m(1-3) b jm_get_del split: if_splits)
  moreover have "\<forall>j c. jm_get (jm_del i (b_unsaved s)) j = Some c \<longrightarrow> jm_has (b_known s) j \<and> passed s j c"
    using o by (auto simp: base_ok_def jm_get_del split: if_splits)
  ultimately show ?thesis using o by (simp add: base_ok_def m b)
qed

lemma settled_pass: "settled i s t \<Longrightarrow> subscription_key i \<notin> n_key ` set (d_rest d) \<Longrightarrow> pass_ok s d \<Longrightarrow> pass_ok t d"
proof -
  assume t: "settled i s t" and k: "subscription_key i \<notin> n_key ` set (d_rest d)" and p: "pass_ok s d"
  have "s_id sub \<noteq> i" if "e \<in> set (d_rest d)" "own_subscription e = Some sub" for e sub
    using own_key [OF that(2)] k that(1) by force
  with p settled_meaning(6) [OF t] show ?thesis unfolding pass_ok_def safe_entries_def by blast
qed

lemma settled_clear:
  assumes o: "base_ok s" and "settled i s t" and "jm_get (b_delivered s) i = Some (e, sub)"
  shows "clear t sub (s_after sub)"
proof -
  have "s_id sub = i" "fits s sub" "passed s i (s_after sub)" "covers s i (s_after sub)"
    using o assms(3) by (auto simp: base_ok_def receipts_ok_def)
  with assms(2) settled_meaning [OF assms(2)] show ?thesis by (simp add: clear_def jm_has_def settled_def jm_get_del)
qed

lemma confirm_end_settled: "confirm_end g i j v s = Some (r, t) \<Longrightarrow> settled i s t"
  by (auto simp: confirm_end_def settle_receipt_def settled_def same_hold_def split: if_splits job.splits)

lemma go_ready_ok: "broker_ok s \<Longrightarrow> b_loop s = Ready \<Longrightarrow> broker_ok (go_ready a s)"
proof -
  assume o: "broker_ok s" and l: "b_loop s = Ready"
  have b: "base_ok s" using o by (simp add: broker_ok_def)
  then have p: "pass_ok s \<lparr>d_rest = listing (b_mesh s), d_listed = [], d_latest = None\<rparr>"
    by (simp add: pass_ok_def base_ok_def events_ok_def listing_keys)
  have e': "evolves s (s\<lparr>b_dirty := True\<rparr>)" by (rule same_core_evolves) (simp add: same_core_def)
  show ?thesis
    by (rule drain_ok [OF o]) (use b p e' in \<open>auto simp: go_ready_def gated_def split: if_splits\<close>)
qed

lemma loop_test_fields: "same_core s (loop_test s)" "b_unsaved (loop_test s) = b_unsaved s" "b_page (loop_test s) = b_page s"
  "b_checkpoint (loop_test s) = b_checkpoint s" "b_epoch (loop_test s) = b_epoch s" "b_paused (loop_test s) = b_paused s"
  "loop_ok t (b_loop (loop_test s))" "\<not> polling (loop_test s)"
  by (simp_all add: loop_test_def same_core_def polling_def)

lemma microtask_ok: "broker_ok s \<Longrightarrow> broker_ok (microtask s)"
proof -
  assume o: "broker_ok s"
  let ?t = "s\<lparr>b_scheduled := False\<rparr>"
  have c: "same_core s ?t" by (simp add: same_core_def)
  have t: "broker_ok ?t" by (rule flags_ok [OF c]) (simp_all add: o)
  have "broker_ok (loop_test ?t)"
    by (rule drain_ok [OF t same_core_evolves]) (use loop_test_fields [of ?t] t same_core_eqs [OF loop_test_fields(1)] in
      \<open>simp_all add: broker_ok_def\<close>)
  then show ?thesis using o t by (simp add: microtask_def Let_def)
qed

lemma go_ending_ok: "broker_ok s \<Longrightarrow> broker_ok (go_ending out wait s)"
proof -
  assume o: "broker_ok s"
  let ?t = "s\<lparr>b_delay := 0\<rparr>" and ?u = "schedule_retry out wait (s\<lparr>b_dirty := True\<rparr>)"
  have c: "same_core s ?t" by (simp add: same_core_def)
  have t: "broker_ok ?t" by (rule flags_ok [OF c]) (simp_all add: o)
  have 1: "broker_ok (loop_test ?t)"
    by (rule drain_ok [OF t same_core_evolves]) (use loop_test_fields [of ?t] t same_core_eqs [OF loop_test_fields(1)] in
      \<open>simp_all add: broker_ok_def\<close>)
  have d: "same_core s (s\<lparr>b_dirty := True\<rparr>)" by (simp add: same_core_def)
  have u: "same_core s ?u" "b_unsaved ?u = b_unsaved s" "b_page ?u = b_page s" "b_checkpoint ?u = b_checkpoint s"
    "b_epoch ?u = b_epoch s" "b_paused ?u = b_paused s" "b_loop ?u = b_loop s"
    by (simp_all add: schedule_retry_def same_core_def Let_def)
  have v: "broker_ok ?u" by (rule flags_ok [OF u(1)]) (simp_all add: o u)
  then have "base_ok ?u" by (simp add: broker_ok_def)
  then have 2: "broker_ok (?u\<lparr>b_loop := Idle\<rparr>)" by (intro drain_ok [OF v]) simp_all
  show ?thesis using 1 2 by (simp add: go_ending_def)
qed

text \<open>Where the loop over subscriptions goes next.\<close>

lemma confirm_start_job:
  assumes "base_ok s" and "confirm_start g i s = Ask j"
  shows "receipt_ok s i (Asked j) \<and> job_guard j = g \<and> guard_ok g s"
proof -
  obtain e sub cur where d: "jm_get (b_delivered s) i = Some (e, sub)" "st_get (b_mesh s) (n_key e) = Some cur"
    and j: "j = Retire cur sub g \<or> j = Save cur sub g" and g: "guard_ok g s"
    using assms(2) by (auto simp: confirm_start_def split: if_splits option.splits)
  have "n_key cur = subscription_key i" using assms(1) d by (auto simp: st_get_def base_ok_def receipts_ok_def)
  with d j g show ?thesis by (auto simp: receipt_ok_def receipt_job_def job_of_def applied_def job_guard_def)
qed

lemma safe_clear: "safe s sub \<Longrightarrow> \<not> jm_has (b_delivered s) (s_id sub) \<Longrightarrow> clear s sub (s_after sub)"
  by (simp add: safe_def clear_def)

lemma go_target_placed:
  assumes "base_ok s" "pass_ok s d" "safe s sub" "\<not> jm_has (b_delivered s) (s_id sub)" "n_key e = subscription_key (s_id sub)"
    "n_key e \<notin> n_key ` set (d_rest d)"
  shows "placed (go_target a d e sub s) \<and> same_hold s (go_target a d e sub s)"
  using assms safe_clear [OF assms(3,4)]
  by (auto simp: go_target_def placed_loop stage_ok_def same_hold_def split: option.splits)

lemma go_entry_placed:
  assumes b: "base_ok s" "pass_ok s d" and e: "own_subscription e = Some sub" "safe s sub" "n_key e \<notin> n_key ` set (d_rest d)"
  shows "placed (go_entry a d e sub s) \<and> same_hold s (go_entry a d e sub s)"
proof -
  have k: "n_key e = subscription_key (s_id sub)" using own_key [OF e(1)] by simp
  have d: "pass_ok s (d\<lparr>d_latest := x\<rparr>)" for x using b by (simp add: pass_ok_def)
  show ?thesis
  proof (cases "jm_has (b_delivered s) (s_id sub)")
    case True
    then show ?thesis using b k e confirm_start_job [OF b(1), of Unguarded "s_id sub"]
      by (auto simp: go_entry_def placed_loop stage_ok_def same_hold_def split: confirm_ask.splits)
  next
    case False
    then show ?thesis using b k e d go_target_placed [OF b(1) d e(2) False k, of "Some _"]
      by (auto simp: go_entry_def placed_loop same_hold_def Let_def)
  qed
qed

lemma jm_get_filter_key: "jm_get (filter (\<lambda>p. fst p \<in> S) m) i = (if i \<in> S then jm_get m i else None)"
  by (induction m) auto

lemma unsaved_changes:
  assumes "base_ok s" and "\<And>i c. jm_get u i = Some c \<Longrightarrow> jm_has (b_known s) i \<and> passed s i c"
  shows "base_ok (s\<lparr>b_unsaved := u\<rparr>)"
proof -
  have "same_core s (s\<lparr>b_unsaved := u\<rparr>)" by (simp add: same_core_def)
  note e = same_core_evolves [OF this]
  have "log_ok (s\<lparr>b_unsaved := u\<rparr>) = log_ok s" by (simp add: log_ok_def deliveries_def)
  then show ?thesis using assms evolves_safe_entries [OF e] evolves_receipts [OF e] evolves_keeps(4,5) [OF e] by (simp add: base_ok_def)
qed

lemma go_head_placed:
  assumes b: "base_ok s" and p: "pass_ok s d"
  shows "placed (go_head a d s) \<and> same_hold s (go_head a d s)"
proof (cases "d_rest d")
  case Nil
  have "base_ok (s\<lparr>b_unsaved := filter (\<lambda>p. fst p \<in> set (d_listed d)) (b_unsaved s)\<rparr>)"
    by (rule unsaved_changes [OF b]) (use b in \<open>auto simp: base_ok_def jm_get_filter_key split: if_splits\<close>)
  with Nil b show ?thesis by (simp add: go_head_def placed_loop same_hold_def)
next
  case (Cons e es)
  have k: "n_key e \<notin> n_key ` set es" using p Cons by (auto simp: pass_ok_def)
  have t: "pass_ok s (d\<lparr>d_rest := es, d_listed := x\<rparr>)" "pass_ok s (d\<lparr>d_rest := es\<rparr>)" for x
    using p Cons by (simp_all add: pass_ok_def safe_entries_def)
  have sf: "safe s sub" if "own_subscription e = Some sub" for sub using p Cons that by (simp add: pass_ok_def safe_entries_def)
  show ?thesis
  proof (cases "b_lost s \<or> own_subscription e = None")
    case True
    then show ?thesis using b t Cons by (auto simp: go_head_def placed_loop same_hold_def)
  next
    case False
    then obtain sub where o: "own_subscription e = Some sub" by auto
    with False Cons show ?thesis using go_entry_placed [OF b t(1) o sf [OF o]] k by (simp add: go_head_def)
  qed
qed

text \<open>A page of events.\<close>

lemma sorted_wrt_take: "sorted_wrt P xs \<Longrightarrow> sorted_wrt P (take n xs)"
  by (metis append_take_drop_id sorted_wrt_append)

lemma sorted_take_rest:
  assumes "sorted_wrt (\<lambda>a b. f a < (f b :: 'b :: linorder)) xs" and "x \<in> set xs"
  shows "x \<in> set (take n xs) \<or> (\<forall>y \<in> set (take n xs). f y < f x)"
proof -
  have "sorted_wrt (\<lambda>a b. f a < f b) (take n xs @ drop n xs)" using assms(1) by simp
  then have "\<forall>y \<in> set (take n xs). \<forall>z \<in> set (drop n xs). f y < f z" unfolding sorted_wrt_append by blast
  moreover have "x \<in> set (take n xs) \<or> x \<in> set (drop n xs)" using assms(2) by (metis Un_iff append_take_drop_id set_append)
  ultimately show ?thesis by blast
qed

lemma latest_counter: "events_ok st \<Longrightarrow> latest st = st_counter st"
  by (cases "st_events st" rule: rev_cases) (auto simp: latest_def events_ok_def)

lemma read_page_ok:
  assumes "base_ok s"
  shows "page_ok s q (read_after (b_mesh s) q n)"
proof -
  let ?f = "filter (\<lambda>e. q < ev_seq e) (st_events (b_mesh s))"
  have e: "events_ok (b_mesh s)" using assms by (simp add: base_ok_def)
  then have s: "sorted_wrt (\<lambda>a b. ev_seq a < ev_seq b) ?f" by (simp add: events_ok_def sorted_wrt_filter)
  have "e \<in> set (take n ?f) \<or> (\<forall>x \<in> set (take n ?f). ev_seq x < ev_seq e)" if "e \<in> set (st_events (b_mesh s))" "q < ev_seq e" for e
    using sorted_take_rest [OF s, of e n] that by simp
  moreover have "\<forall>x \<in> set (take n ?f). q < ev_seq x \<and> ev_seq x \<le> latest (b_mesh s)"
  proof
    fix x assume "x \<in> set (take n ?f)"
    then have "x \<in> set (st_events (b_mesh s))" "q < ev_seq x" by (auto dest: in_set_takeD)
    with e show "q < ev_seq x \<and> ev_seq x \<le> latest (b_mesh s)" by (simp add: latest_counter) (simp add: events_ok_def)
  qed
  ultimately show ?thesis using sorted_wrt_take [OF s, of n] unfolding page_ok_def read_after_def by blast
qed

lemma cursor_passed_any:
  assumes b: "base_ok s" and c: "passed s (s_id sub) (s_after sub)"
  shows "passed s (s_id sub) (cursor_of s sub)"
proof -
  have z: "passed s (s_id sub) 0" using b by (auto simp: passed_def base_ok_def events_ok_def latest_counter [unfolded events_ok_def])
  have "passed s (s_id sub) x" if "jm_get (b_unsaved s) (s_id sub) = Some x" for x using b that by (simp add: base_ok_def)
  then show ?thesis using z c by (auto simp: cursor_of_def max_def split: option.splits)
qed

lemma cursor_passed:
  assumes b: "base_ok s" and c: "clear s sub (s_after sub)"
  shows "clear s sub (cursor_of s sub)"
proof -
  have "s_after sub \<le> cursor_of s sub" by (simp add: cursor_of_def)
  then show ?thesis using c covers_up cursor_passed_any [OF b, of sub] by (auto simp: clear_def)
qed

text \<open>Moving the cursor over one event of a page.\<close>

lemma page_next:
  assumes "page_ok s q (e # es)"
  shows "page_ok s (ev_seq e) es" and "q < ev_seq e" and "ev_seq e \<le> latest (b_mesh s)"
proof -
  show "page_ok s (ev_seq e) es"
    unfolding page_ok_def
  proof (intro conjI ballI impI)
    fix x assume "\<not> b_torn s" "x \<in> set (st_events (b_mesh s))" "ev_seq e < ev_seq x"
    with assms show "x \<in> set es \<or> (\<forall>y \<in> set es. ev_seq y < ev_seq x)" unfolding page_ok_def by fastforce
  qed (use assms in \<open>auto simp: page_ok_def\<close>)
qed (use assms in \<open>auto simp: page_ok_def\<close>)

lemma passed_next:
  assumes p: "page_ok s q (e # es)" and c: "passed s i q" and h: "\<And>ev. wanted s i e ev \<Longrightarrow> handled s i ev"
  shows "passed s i (ev_seq e)"
  unfolding passed_def
proof (intro impI conjI ballI allI)
  assume t: "\<not> b_torn s"
  show "ev_seq e \<le> latest (b_mesh s)" by (rule page_next(3) [OF p])
  fix x ev assume x: "x \<in> set (st_events (b_mesh s))" "ev_seq x \<le> ev_seq e" "wanted s i x ev"
  show "handled s i ev"
  proof (cases "ev_seq x \<le> q")
    case True with c t x show ?thesis by (simp add: passed_def)
  next
    case False
    then have "x \<in> set (e # es) \<or> (\<forall>y \<in> set (e # es). ev_seq y < ev_seq x)" using p t x unfolding page_ok_def by (meson not_le)
    then have "x = e" using x p by (fastforce simp: page_ok_def)
    with x h show ?thesis by blast
  qed
qed

lemma wanted_candidate: "fits s sub \<Longrightarrow> wanted s (s_id sub) e ev \<Longrightarrow> event_of_mesh e = Some ev \<and> candidate sub ev"
  by (auto simp: fits_def wanted_def candidate_def)

lemma keep_unsaved_kept:
  assumes "base_ok s" and "clear s sub c" and "keep_unsaved sub c s = Some t"
  shows "base_ok t" and "same_core s t" and "same_hold s t"
proof -
  have t: "t = s\<lparr>b_unsaved := jm_set (s_id sub) c (b_unsaved s)\<rparr>" using assms(3) by (simp add: keep_unsaved_def split: if_splits)
  have "base_ok (s\<lparr>b_unsaved := jm_set (s_id sub) c (b_unsaved s)\<rparr>)"
    by (rule unsaved_changes [OF assms(1)]) (use assms(1,2) fits_known in \<open>auto simp: base_ok_def clear_def jm_get_set split: if_splits\<close>)
  then show "base_ok t" and "same_core s t" and "same_hold s t" by (simp_all add: t same_core_def same_hold_def)
qed

lemma empty_page:
  assumes b: "base_ok s" and c: "clear s sub q" and e: "read_after (b_mesh s) q (b_page s) = []" and l: "q \<le> latest (b_mesh s)"
  shows "clear s sub (latest (b_mesh s))"
proof -
  have n: "0 < b_page s" using b by (simp add: base_ok_def)
  have none: "ev_seq x \<le> q" if "x \<in> set (st_events (b_mesh s))" for x
    using e n that by (auto simp: read_after_def filter_empty_conv not_less)
  have "passed s (s_id sub) (latest (b_mesh s))"
    unfolding passed_def
  proof (intro impI conjI ballI allI order_refl)
    fix x ev assume "\<not> b_torn s" "x \<in> set (st_events (b_mesh s))" "wanted s (s_id sub) x ev"
    with none c show "handled s (s_id sub) ev" by (auto simp: clear_def passed_def)
  qed
  with c covers_up [OF _ l] show ?thesis by (simp add: clear_def)
qed

lemma store_ok_save: "n_key e = subscription_key (s_id sub) \<Longrightarrow> clear s sub' (s_after sub') \<Longrightarrow> s_id sub' = s_id sub
    \<Longrightarrow> store_ok s (s_id sub) (Asked (Save e sub' g))"
  by (simp add: store_ok_def job_of_def)

text \<open>Changing a subscription's progress keeps what it is.\<close>

lemma clear_moved:
  assumes "clear s sub q" and "s_id sub' = s_id sub" "s_from sub' = s_from sub" "s_events sub' = s_events sub" "s_by sub' = s_by sub" "s_rest sub' = s_rest sub"
  shows "clear s sub' q"
  using assms by (simp add: clear_def fits_def subscription_ok_def)

lemma go_page_placed:
  assumes b: "base_ok s" and p: "pass_ok s d" and k: "n_key e = subscription_key (s_id sub)" "n_key e \<notin> n_key ` set (d_rest d)"
    and c: "clear s sub (s_after sub)"
  shows "placed (go_page a d e sub s) \<and> same_hold s (go_page a d e sub s)"
proof -
  let ?q = "cursor_of s sub" and ?l = "latest (b_mesh s)" and ?evs = "read_after (b_mesh s) (cursor_of s sub) (b_page s)"
  have cq: "clear s sub ?q" by (rule cursor_passed [OF b c])
  consider (gate) "gated s" | (seen) "\<not> gated s" "?l \<le> ?q" | (empty) "\<not> gated s" "?q < ?l" "?evs = []" | (page) "\<not> gated s" "?q < ?l" "?evs \<noteq> []" by linarith
  then show ?thesis
  proof cases
    case gate
    then show ?thesis using b p leave_placed [of "s\<lparr>b_dirty := True\<rparr>" d] by (simp add: go_page_def) (simp add: same_hold_def)
  next
    case seen
    then show ?thesis using b p by (simp add: go_page_def Let_def leave_placed)
  next
    case empty
    have cl: "clear s sub ?l" by (rule empty_page [OF b cq empty(3)]) (use empty in simp)
    show ?thesis
    proof (cases "keep_unsaved sub ?l s")
      case None
      have "clear s (sub\<lparr>s_after := ?l, s_updated := a_now a\<rparr>) ?l" by (rule clear_moved [OF cl]) simp_all
      then show ?thesis using empty None b p k by (auto simp: go_page_def Let_def placed_loop same_hold_def stage_ok_def intro!: store_ok_save)
    next
      case (Some t)
      note t = keep_unsaved_kept [OF b cl Some]
      then have "pass_ok t d" using p same_core_eqs(3) [OF t(2)] by simp
      then show ?thesis using empty Some t leave_placed [of t d] by (simp add: go_page_def Let_def)
    qed
  next
    case page
    then show ?thesis using b p k c cq read_page_ok [OF b] by (simp add: go_page_def Let_def placed_loop same_hold_def stage_ok_def frame_ok_def)
  qed
qed

lemma next_page_placed:
  assumes "base_ok s" "pass_ok s d" "n_key (f_entry f) = subscription_key (s_id (f_sub f))" "n_key (f_entry f) \<notin> n_key ` set (d_rest d)"
    "clear s (f_sub f) (s_after (f_sub f))"
  shows "placed (next_page d f s) \<and> same_hold s (next_page d f s)"
  using assms leave_placed [of s d] by (simp add: next_page_def placed_loop stage_ok_def) (simp add: same_hold_def)

lemma page_end_placed:
  assumes b: "base_ok s" and p: "pass_ok s d" and f: "frame_ok s (n_key ` set (d_rest d)) f"
    and c: "clear s (f_sub f) (f_cursor f)" "clear s (f_sub f) (s_after (f_sub f))"
  shows "placed (page_end a d f s) \<and> same_hold s (page_end a d f s)"
proof (cases "b_paused s")
  case True
  then show ?thesis using leave_placed [OF b p] by (simp add: page_end_def)
next
  case False
  have k: "n_key (f_entry f) = subscription_key (s_id (f_sub f))" "n_key (f_entry f) \<notin> n_key ` set (d_rest d)"
    using f by (simp_all add: frame_ok_def)
  show ?thesis
  proof (cases "if f_decided f then None else keep_unsaved (f_sub f) (f_cursor f) s")
    case (Some t)
    then have u: "keep_unsaved (f_sub f) (f_cursor f) s = Some t" by (simp split: if_splits)
    note t = keep_unsaved_kept [OF b c(1) u]
    have "pass_ok t d" "clear t (f_sub f) (s_after (f_sub f))" using p c same_core_eqs(3,4) [OF t(2)] by simp_all
    from next_page_placed [OF t(1) this(1) k this(2)] t(3) show ?thesis
      by (simp add: page_end_def False Some) (simp add: same_hold_def)
  next
    case None
    have "clear s (page_sub a f) (f_cursor f)" by (rule clear_moved [OF c(1)]) (simp_all add: page_sub_def)
    then have "store_ok s (s_id (f_sub f)) (Asked (Save (f_entry f) (page_sub a f) Held))"
      by (intro store_ok_save [OF k(1)]) (simp_all add: page_sub_def)
    then show ?thesis using next_page_placed [OF b p k c(2)] b p k
      by (simp add: page_end_def False None placed_loop stage_ok_def) (simp add: same_hold_def)
  qed
qed

lemma skip_kept:
  assumes "base_ok s" and "\<not> owns_source ev p" and t: "t = s\<lparr>b_skipped := b_skipped s @ [(i, ev, p)]\<rparr>"
  shows "evolves s t" and "base_ok t" and "handled t i ev" and "wanted t = wanted s" and "same_hold s t"
proof -
  have h: "handled s j e \<Longrightarrow> handled t j e" for j e by (auto simp: handled_def t)
  show w: "wanted t = wanted s" by (simp add: wanted_def t fun_eq_iff)
  have "passed s j q \<Longrightarrow> passed t j q" for j q unfolding passed_def w using h by (auto simp: t)
  then show e: "evolves s t" by (simp add: evolves_def t fits_def page_ok_def stored_def covers_def)
  have "log_ok t" using assms(1,2) by (simp add: t log_ok_def deliveries_def base_ok_def)
  then show "base_ok t" using assms(1) evolves_safe_entries [OF e] evolves_receipts [OF e] evolves_keeps(4,5) [OF e]
    by (simp add: base_ok_def t)
  show "handled t i ev" by (auto simp: handled_def t)
  show "same_hold s t" by (simp add: same_hold_def t)
qed

text \<open>The cursor moves over an event that is not handed over.\<close>

lemma scan_next:
  assumes f: "frame_ok s ks f" "f_events f = e # es" and c: "clear s (f_sub f) (f_cursor f)" "clear s (f_sub f) (s_after (f_sub f))"
    and h: "\<And>ev. wanted s (s_id (f_sub f)) e ev \<Longrightarrow> handled s (s_id (f_sub f)) ev"
  shows "stage_ok s ks (Scan (f\<lparr>f_events := es, f_cursor := ev_seq e\<rparr>))"
    and "stage_ok s ks (Scan (f\<lparr>f_events := es, f_cursor := ev_seq e, f_decided := x\<rparr>))"
proof -
  have p: "page_ok s (f_cursor f) (e # es)" using f by (simp add: frame_ok_def)
  note n = page_next [OF p]
  have "passed s (s_id (f_sub f)) (ev_seq e)" by (rule passed_next [OF p _ h]) (use c in \<open>simp add: clear_def\<close>)
  moreover have "covers s (s_id (f_sub f)) (ev_seq e)" by (rule covers_up [of _ _ "f_cursor f"]) (use c n(2) in \<open>auto simp: clear_def\<close>)
  ultimately have "clear s (f_sub f) (ev_seq e)" using c by (simp add: clear_def)
  then show "stage_ok s ks (Scan (f\<lparr>f_events := es, f_cursor := ev_seq e\<rparr>))"
    and "stage_ok s ks (Scan (f\<lparr>f_events := es, f_cursor := ev_seq e, f_decided := x\<rparr>))"
    using f n c by (simp_all add: stage_ok_def frame_ok_def)
qed

lemma go_scan_placed:
  assumes b: "base_ok s" and p: "pass_ok s d" and st: "stage_ok s (n_key ` set (d_rest d)) (Scan f)"
  shows "placed (go_scan a d f s) \<and> same_hold s (go_scan a d f s)"
proof -
  let ?ks = "n_key ` set (d_rest d)" and ?i = "s_id (f_sub f)"
  have f: "frame_ok s ?ks f" and c: "clear s (f_sub f) (f_cursor f)" "clear s (f_sub f) (s_after (f_sub f))" using st by (simp_all add: stage_ok_def)
  have fit: "fits s (f_sub f)" using c by (simp add: clear_def)
  show ?thesis
  proof (cases "f_events f")
    case Nil
    with page_end_placed [OF b p f c] show ?thesis by (simp add: go_scan_def)
  next
    case (Cons e es)
    have pg: "page_ok s (f_cursor f) (e # es)" using f Cons by (simp add: frame_ok_def)
    have mx: "max (f_cursor f) (ev_seq e) = ev_seq e" using page_next(2) [OF pg] by simp
    consider (gate) "b_paused s \<or> b_lost s" | (none) "\<not> (b_paused s \<or> b_lost s)" "event_of_mesh e = None"
      | (other) ev where "\<not> (b_paused s \<or> b_lost s)" "event_of_mesh e = Some ev" "\<not> candidate (f_sub f) ev"
      | (skip) ev where "\<not> (b_paused s \<or> b_lost s)" "event_of_mesh e = Some ev" "candidate (f_sub f) ev" "\<not> owns_source ev (a_owner a)"
      | (hand) ev where "\<not> (b_paused s \<or> b_lost s)" "event_of_mesh e = Some ev" "candidate (f_sub f) ev" "owns_source ev (a_owner a)" by blast
    then show ?thesis
    proof cases
      case gate
      then show ?thesis using b p Cons leave_placed [of "s\<lparr>b_dirty := True\<rparr>" d] by (simp add: go_scan_def) (simp add: same_hold_def)
    next
      case none
      have "stage_ok s ?ks (Scan (f\<lparr>f_events := es, f_cursor := ev_seq e\<rparr>))"
        by (rule scan_next(1) [OF f Cons c]) (use none in \<open>simp add: wanted_def\<close>)
      with none b p Cons mx show ?thesis by (simp add: go_scan_def placed_loop) (simp add: same_hold_def)
    next
      case other
      have "stage_ok s ?ks (Scan (f\<lparr>f_events := es, f_cursor := ev_seq e\<rparr>))"
        by (rule scan_next(1) [OF f Cons c]) (use other wanted_candidate [OF fit] in \<open>fastforce\<close>)
      with other b p Cons event_of_mesh_seq [OF other(2)] show ?thesis
        by (simp add: go_scan_def placed_loop Let_def) (simp add: same_hold_def)
    next
      case skip
      define t where "t = s\<lparr>b_skipped := b_skipped s @ [(?i, ev, a_owner a)]\<rparr>"
      note k = skip_kept [OF b skip(4) t_def]
      have ct: "clear t (f_sub f) (f_cursor f)" "clear t (f_sub f) (s_after (f_sub f))" using evolves_clear [OF k(1)] c by blast+
      have "stage_ok t ?ks (Scan (f\<lparr>f_events := es, f_cursor := ev_seq e, f_decided := x\<rparr>))" for x
        by (rule scan_next(2) [OF evolves_frame [OF k(1) f] Cons ct])
          (use skip k(3,4) wanted_candidate [OF fit] in \<open>fastforce\<close>)
      moreover have "pass_ok t d" using p evolves_safe_entries [OF k(1)] by (simp add: pass_ok_def)
      moreover have "go_scan a d f s = t\<lparr>b_loop := Drain d (Scan (f\<lparr>f_events := es, f_cursor := ev_seq e, f_decided := True\<rparr>))\<rparr>"
        using skip Cons event_of_mesh_seq [OF skip(2)] by (simp add: go_scan_def t_def Let_def)
      ultimately show ?thesis using k(2,5) by (simp add: placed_loop) (simp add: same_hold_def)
    next
      case hand
      have "f\<lparr>f_events := e # es\<rparr> = f" using Cons by (cases f) simp
      then have "frame_ok s ?ks ((f\<lparr>f_events := es\<rparr>)\<lparr>f_events := e # f_events (f\<lparr>f_events := es\<rparr>)\<rparr>)" using f by simp
      then have "stage_ok s ?ks (Hand (f\<lparr>f_events := es\<rparr>) ev)" using c hand(2) by (auto simp: stage_ok_def)
      with hand b p Cons show ?thesis by (simp add: go_scan_def placed_loop Let_def) (simp add: same_hold_def)
    qed
  qed
qed

text \<open>A delivery: the log grows past every cursor of the subscription, and the receipt is kept.\<close>

lemma accept_kept:
  assumes b: "base_ok s" and pg: "page_ok s q (e # es)" and m: "event_of_mesh e = Some ev" and c: "clear s sub0 q"
    and sub: "s_id sub = s_id sub0" "fits s sub" "s_after sub = le_seq ev" and ent: "n_key ent = subscription_key (s_id sub)"
    and t: "t = s\<lparr>b_log := b_log s @ [(s_id sub, ev)], b_delivered := jm_set (s_id sub) (ent, sub) (b_delivered s)\<rparr>"
  shows "base_ok t" and "page_ok t = page_ok s" and "\<And>d. pass_ok s d \<Longrightarrow> pass_ok t d" and "same_hold s t"
proof -
  let ?i = "s_id sub"
  have seq: "le_seq ev = ev_seq e" by (rule event_of_mesh_seq [OF m])
  have w: "wanted t = wanted s" and f: "fits t = fits s" and g: "page_ok t = page_ok s" by (simp_all add: wanted_def fits_def page_ok_def t fun_eq_iff)
  have h: "handled s j x \<Longrightarrow> handled t j x" and hi: "handled t ?i ev" for j x by (simp_all add: handled_def t)
  have p: "passed s j x \<Longrightarrow> passed t j x" for j x unfolding passed_def w using h by (auto simp: t)
  have cj: "j \<noteq> ?i \<Longrightarrow> covers t j x = covers s j x" for j x by (simp add: covers_def t)
  have lt: "q < le_seq ev" using page_next(2) [OF pg] seq by simp
  have cq: "covers s ?i q" using c sub(1) by (simp add: clear_def)
  then have ci: "covers t ?i (le_seq ev)" using lt by (force simp: covers_def t)
  have pn: "passed t ?i (le_seq ev)"
    unfolding seq
  proof (rule passed_next)
    show "page_ok t q (e # es)" using pg g by simp
    show "passed t ?i q" using p c sub(1) by (simp add: clear_def)
    show "handled t ?i x" if "wanted t ?i e x" for x using that m hi by (simp add: wanted_def)
  qed
  have sf: "safe s x \<Longrightarrow> safe t x" for x
    using p f cj [of "s_id x"] by (cases "s_id x = ?i") (auto simp: safe_def t jm_has_def jm_get_set)
  have se: "safe_entries s xs \<Longrightarrow> safe_entries t xs" for xs using sf by (simp add: safe_entries_def)
  have "receipts_ok t"
    unfolding receipts_ok_def
  proof (intro allI impI)
    fix j x u assume g: "jm_get (b_delivered t) j = Some (x, u)"
    show "s_id u = j \<and> n_key x = subscription_key j \<and> fits t u \<and> passed t j (s_after u) \<and> covers t j (s_after u)"
    proof (cases "j = ?i")
      case True with g ent sub pn ci f show ?thesis by (simp add: t jm_get_set)
    next
      case False with g b p f cj show ?thesis by (simp add: t jm_get_set base_ok_def receipts_ok_def)
    qed
  qed
  moreover have "log_ok t"
  proof -
    have d: "deliveries t j = (if j = ?i then deliveries s j @ [ev] else deliveries s j)" for j by (simp add: deliveries_def t)
    have "\<forall>x \<in> set (deliveries s ?i). le_seq x < le_seq ev"
      using cq lt by (force simp: deliveries_def covers_def)
    moreover have "jm_has (b_known s) ?i" using sub(2) by (auto simp: fits_def jm_has_def)
    ultimately show ?thesis using b by (auto simp: base_ok_def log_ok_def d sorted_wrt_append) (auto simp: t)
  qed
  moreover have "safe_entries t (listing (b_mesh s))" using b se by (simp add: base_ok_def)
  moreover have "b_mesh t = b_mesh s" "b_page t = b_page s" "b_unsaved t = b_unsaved s" "b_known t = b_known s" by (simp_all add: t)
  ultimately show "base_ok t" using b p by (simp add: base_ok_def)
  show "page_ok t = page_ok s" by (rule g)
  show "pass_ok t d" if "pass_ok s d" for d using that se by (simp add: pass_ok_def)
  show "same_hold s t" by (simp add: t same_hold_def)
qed

lemma delivered_sub_fits: "fits s sub \<Longrightarrow> fits s (delivered_sub now ev sub)"
  by (simp add: delivered_sub_def fits_def subscription_ok_def)

lemma delivered_sub_simps [simp]: "s_id (delivered_sub now ev sub) = s_id sub" "s_after (delivered_sub now ev sub) = le_seq ev"
  "s_once (delivered_sub now ev sub) = s_once sub"
  by (simp_all add: delivered_sub_def)

lemma accepted_placed:
  assumes b: "base_ok s" and p: "pass_ok s d" and st: "stage_ok s (n_key ` set (d_rest d)) (Hand f ev)"
  shows "placed (accepted now d f ev s) \<and> same_hold s (accepted now d f ev s)"
proof -
  let ?sub = "delivered_sub now ev (f_sub f)" and ?ks = "n_key ` set (d_rest d)"
  define t where "t = s\<lparr>b_log := b_log s @ [(s_id ?sub, ev)], b_delivered := jm_set (s_id ?sub) (f_entry f, ?sub) (b_delivered s)\<rparr>"
  define f' where "f' = f\<lparr>f_sub := ?sub, f_cursor := le_seq ev, f_decided := True, f_last_at := Some (JNum now), f_last_event := Some (JStr (le_id ev))\<rparr>"
  obtain e where m: "event_of_mesh e = Some ev" and f: "frame_ok s ?ks (f\<lparr>f_events := e # f_events f\<rparr>)"
    and c: "clear s (f_sub f) (f_cursor f)" using st by (auto simp: stage_ok_def)
  have pg: "page_ok s (f_cursor f) (e # f_events f)" and k: "n_key (f_entry f) = subscription_key (s_id (f_sub f))"
    "subscription_key (s_id (f_sub f)) \<notin> ?ks" using f by (simp_all add: frame_ok_def)
  have fit: "fits s ?sub" using c delivered_sub_fits by (simp add: clear_def)
  note a = accept_kept [OF b pg m c _ fit _ _ t_def, simplified, OF k(1)]
  have "page_ok t (le_seq ev) (f_events f)" using page_next(1) [OF pg] event_of_mesh_seq [OF m] a(2) by simp
  then have fr: "frame_ok t ?ks f'" using k by (simp add: frame_ok_def f'_def)
  have lt: "placed (leave d t)" "placed (leave d (t\<lparr>b_failed := True\<rparr>))" "placed (leave d (t\<lparr>b_dirty := True\<rparr>))"
    using a p leave_placed by simp_all
  have g: "jm_get (b_delivered t) (s_id (f_sub f)) = Some (f_entry f, ?sub)" by (simp add: t_def jm_get_set)
  have r: "placed (t\<lparr>b_loop := Drain d (Receipt f' (Asked j))\<rparr>)" if "confirm_start Unguarded (s_id (f_sub f)) t = Ask j" for j
    using confirm_start_job [OF a(1) that] fr g a p by (simp add: placed_loop stage_ok_def f'_def)
  have "accepted now d f ev s = (if b_lost t then leave d (t\<lparr>b_dirty := True\<rparr>) else case confirm_start Unguarded (s_id (f_sub f)) t of
     Throws \<Rightarrow> leave d (t\<lparr>b_failed := True\<rparr>) | Nothing \<Rightarrow> leave d t | Ask j \<Rightarrow> t\<lparr>b_loop := Drain d (Receipt f' (Asked j))\<rparr>)"
    unfolding accepted_def Let_def t_def [symmetric] f'_def [symmetric] by simp
  then show ?thesis using lt r a(4) by (auto split: confirm_ask.splits) (simp_all add: same_hold_def)
qed

lemma rejected_placed:
  assumes b: "base_ok s" and p: "pass_ok s d" and st: "stage_ok s (n_key ` set (d_rest d)) (Hand f ev)"
  shows "placed (rejected now msg d f s) \<and> same_hold s (rejected now msg d f s)"
proof -
  let ?t = "s\<lparr>b_failed := True\<rparr>" and ?sub = "(f_sub f)\<lparr>s_after := f_cursor f, s_updated := now, s_last_error := Some (JStr msg)\<rparr>"
  have k: "n_key (f_entry f) = subscription_key (s_id (f_sub f))" "subscription_key (s_id (f_sub f)) \<notin> n_key ` set (d_rest d)"
    and c: "clear s (f_sub f) (f_cursor f)" using st by (auto simp: stage_ok_def frame_ok_def)
  have cs: "clear s ?sub (f_cursor f)" by (rule clear_moved [OF c]) simp_all
  have "store_ok s (s_id (f_sub f)) (Asked (Save (f_entry f) ?sub Unguarded))" by (rule store_ok_save [OF k(1)]) (use cs in simp_all)
  then have "stage_ok s (n_key ` set (d_rest d)) (Store_last (s_id (f_sub f)) (Asked (Save (f_entry f) ?sub Unguarded)))"
    using k by (simp add: stage_ok_def)
  moreover have "loop_ok ?t = loop_ok s" by simp
  then have "stage_ok ?t ks x = stage_ok s ks x" for ks x
    using evolves_stage [OF same_core_evolves [of s ?t]] evolves_stage [OF same_core_evolves [of ?t s]] by (auto simp: same_core_def)
  ultimately show ?thesis using b p leave_placed [of ?t d] by (auto simp: rejected_def Let_def placed_loop) (simp_all add: same_hold_def)
qed

text \<open>After a write of the drain was answered.\<close>

lemma settled_hold: "settled i s t \<Longrightarrow> same_hold s t"
  by (simp add: settled_def)

lemma same_core_placed_head: "same_core s t \<Longrightarrow> b_unsaved t = b_unsaved s \<Longrightarrow> b_page t = b_page s \<Longrightarrow> base_ok s \<Longrightarrow> pass_ok s d
    \<Longrightarrow> base_ok t \<and> pass_ok t d"
  using same_core_eqs [of s t] by simp

lemma contain_hold: "(\<And>t. same_hold s t \<Longrightarrow> same_hold s (k t)) \<Longrightarrow> same_hold s (contain b k s)"
  by (simp add: contain_def same_hold_def)

lemma contain_leave:
  assumes "base_ok s" and "pass_ok s d"
  shows "placed (contain b (leave d) s) \<and> same_hold s (contain b (leave d) s)"
  using assms by (auto intro!: contain_placed leave_placed contain_hold dest: same_core_placed_head)

lemma go_confirm_placed:
  assumes b: "base_ok s" and p: "pass_ok s d" and st: "stage_ok s (n_key ` set (d_rest d)) (Confirm i w)" and l: "b_loop s = Drain d (Confirm i w)"
  shows "placed (go_confirm d i w s) \<and> same_hold s (go_confirm d i w s)"
proof (cases "\<exists>j v. w = Answered j (Applied v)")
  case True
  then obtain j v where w: "w = Answered j (Applied v)" by blast
  have r: "stored s i" and k: "subscription_key i \<notin> n_key ` set (d_rest d)"
    using st w by (simp_all add: stage_ok_def receipt_ok_def applied_def)
  obtain e t where t: "confirm_end Unguarded i j v s = Some (e, t)" by (cases j) (auto simp: confirm_end_def guard_ok_def)
  note c = confirm_end_settled [OF t]
  show ?thesis using settled_base [OF b r c] settled_pass [OF c k p] settled_hold [OF c]
    by (simp add: go_confirm_def w t placed_loop) (simp add: same_hold_def)
next
  case False
  have s: "placed s" using b p st l by (simp add: placed_def)
  have f: "placed (contain x (\<lambda>t. t\<lparr>b_loop := Drain d Head\<rparr>) s) \<and> same_hold s (contain x (\<lambda>t. t\<lparr>b_loop := Drain d Head\<rparr>) s)" for x
    using b p by (auto intro!: contain_placed contain_hold simp: placed_loop dest: same_core_placed_head) (simp add: same_hold_def)
  show ?thesis using False s f by (auto simp: go_confirm_def same_hold_def split: pending.splits reply.splits)
qed

lemma go_receipt_placed:
  assumes b: "base_ok s" and p: "pass_ok s d" and st: "stage_ok s (n_key ` set (d_rest d)) (Receipt f w)" and l: "b_loop s = Drain d (Receipt f w)"
  shows "placed (go_receipt d f w s) \<and> same_hold s (go_receipt d f w s)"
proof (cases "\<exists>j v. w = Answered j (Applied v)")
  case True
  let ?i = "s_id (f_sub f)" and ?ks = "n_key ` set (d_rest d)"
  obtain j v where w: "w = Answered j (Applied v)" using True by blast
  have r: "stored s ?i" "receipt_job s ?i j" and k: "subscription_key ?i \<notin> ?ks" and f: "frame_ok s ?ks f" "s_after (f_sub f) = f_cursor f"
    and g: "jm_get (b_delivered s) ?i = Some (f_entry f, f_sub f)"
    using st w by (simp_all add: stage_ok_def receipt_ok_def applied_def job_of_def frame_ok_def)
  obtain e t where t: "confirm_end Unguarded ?i j v s = Some (e, t)" by (cases j) (auto simp: confirm_end_def guard_ok_def)
  note c = confirm_end_settled [OF t]
  have bt: "base_ok t" and pt: "pass_ok t d" by (rule settled_base [OF b r(1) c], rule settled_pass [OF c k p])
  have cl: "clear t (f_sub f) (f_cursor f)" using settled_clear [OF b c g] f(2) by simp
  have "stage_ok t ?ks (Scan (f\<lparr>f_entry := x\<rparr>))" if "e = Some x" for x
  proof -
    have "n_key x = subscription_key ?i" using t that r(2) by (auto simp: confirm_end_def receipt_job_def split: if_splits job.splits)
    with f k cl settled_meaning(4) [OF c] show ?thesis by (simp add: stage_ok_def frame_ok_def)
  qed
  then show ?thesis using bt pt leave_placed [OF bt pt] settled_hold [OF c]
    by (auto simp: go_receipt_def w t placed_loop split: option.splits) (simp_all add: same_hold_def)
next
  case False
  have "placed s" using b p st l by (simp add: placed_def)
  with False contain_leave [OF b p] show ?thesis by (auto simp: go_receipt_def same_hold_def split: pending.splits reply.splits)
qed

lemma forget_kept:
  assumes b: "base_ok s" shows "base_ok (forget_unsaved i s)" and "same_core s (forget_unsaved i s)" and "same_hold s (forget_unsaved i s)"
proof -
  have "base_ok (s\<lparr>b_unsaved := jm_del i (b_unsaved s)\<rparr>)"
    by (rule unsaved_changes [OF b]) (use b in \<open>auto simp: base_ok_def jm_get_del split: if_splits\<close>)
  then show "base_ok (forget_unsaved i s)" by (simp add: forget_unsaved_def)
qed (simp_all add: forget_unsaved_def same_core_def same_hold_def)

lemma go_store_last_placed:
  assumes b: "base_ok s" and p: "pass_ok s d" and st: "stage_ok s (n_key ` set (d_rest d)) (Store_last i w)" and l: "b_loop s = Drain d (Store_last i w)"
  shows "placed (go_store_last d i w s) \<and> same_hold s (go_store_last d i w s)"
proof -
  have "placed s" using b p st l by (simp add: placed_def)
  moreover have "pass_ok (forget_unsaved i s) d" using p same_core_eqs(3) [OF forget_kept(2) [OF b]] by simp
  ultimately show ?thesis using contain_leave [OF b p] leave_placed [OF forget_kept(1) [OF b]] forget_kept(3) [OF b]
    by (auto simp: go_store_last_def split: pending.splits reply.splits)
qed

lemma go_store_page_placed:
  assumes b: "base_ok s" and p: "pass_ok s d" and st: "stage_ok s (n_key ` set (d_rest d)) (Store_page f w)" and l: "b_loop s = Drain d (Store_page f w)"
  shows "placed (go_store_page d f w s) \<and> same_hold s (go_store_page d f w s)"
proof (cases "\<exists>j v. w = Answered j (Applied v)")
  case True
  let ?i = "s_id (f_sub f)"
  obtain j v where w: "w = Answered j (Applied v)" using True by blast
  obtain e sub g where j: "j = Save e sub g" and k: "n_key e = subscription_key ?i" "s_id sub = ?i" "clear s sub (s_after sub)"
    "subscription_key ?i \<notin> n_key ` set (d_rest d)"
    using st w by (auto simp: stage_ok_def store_ok_def job_of_def split: job.splits)
  define t where "t = forget_unsaved ?i s"
  note t = forget_kept [OF b, of ?i, folded t_def]
  have "pass_ok t d" "clear t sub (s_after sub)" using p k same_core_eqs(3,4) [OF t(2)] by simp_all
  then show ?thesis using next_page_placed [OF t(1), of d "f\<lparr>f_entry := \<lparr>n_key = n_key e, n_value = value_of_subscription sub, n_version = v\<rparr>, f_sub := sub\<rparr>"] k t
    by (simp add: go_store_page_def w j t_def [symmetric]) (simp add: same_hold_def)
next
  case False
  have "placed s" using b p st l by (simp add: placed_def)
  with False contain_leave [OF b p] show ?thesis by (auto simp: go_store_page_def same_hold_def split: pending.splits reply.splits)
qed

lemma go_loop_ok:
  assumes o: "broker_ok s"
  shows "broker_ok (go_loop a s)"
proof (cases "b_loop s")
  case (Drain d st)
  have b: "base_ok s" and p: "pass_ok s d" and g: "stage_ok s (n_key ` set (d_rest d)) st"
    using o Drain by (simp_all add: broker_ok_def)
  have "placed (go_loop a s) \<and> same_hold s (go_loop a s)"
  proof (cases st)
    case Head
    with Drain go_head_placed [OF b p] show ?thesis by (simp add: go_loop_def)
  next
    case (Confirm i w)
    with Drain go_confirm_placed [OF b p] g show ?thesis by (simp add: go_loop_def)
  next
    case (Page e sub)
    with Drain go_page_placed [OF b p] g show ?thesis by (simp add: go_loop_def stage_ok_def)
  next
    case (Scan f)
    with Drain go_scan_placed [OF b p] g show ?thesis by (simp add: go_loop_def)
  next
    case (Hand f ev)
    have "placed s" using o by (simp add: broker_ok_def placed_def)
    with Hand Drain show ?thesis by (simp add: go_loop_def)
  next
    case (Receipt f w)
    with Drain go_receipt_placed [OF b p] g show ?thesis by (simp add: go_loop_def)
  next
    case (Store_last i w)
    with Drain go_store_last_placed [OF b p] g show ?thesis by (simp add: go_loop_def)
  next
    case (Store_page f w)
    with Drain go_store_page_placed [OF b p] g show ?thesis by (simp add: go_loop_def)
  qed
  then show ?thesis using drain_placed [OF o polling_drain [OF Drain]] by blast
qed (use o go_ready_ok go_ending_ok in \<open>simp_all add: go_loop_def\<close>)

lemma drain_throws_ok: "broker_ok s \<Longrightarrow> broker_ok (drain_throws locked s)"
proof -
  assume o: "broker_ok s"
  have "placed (s\<lparr>b_loop := Ending x\<rparr>) \<and> same_hold s (s\<lparr>b_loop := Ending x\<rparr>)" for x
    using o by (simp add: placed_loop broker_ok_def) (simp add: same_hold_def)
  then have "broker_ok (s\<lparr>b_loop := Ending x\<rparr>)" if "polling s" for x using drain_placed [OF o that] by blast
  then show ?thesis using o by (auto simp: drain_throws_def polling_drain split: loop.splits stage.splits)
qed

lemma deliver_end_ok:
  assumes o: "broker_ok s"
  shows "broker_ok (deliver_end now err s)"
proof (cases "\<exists>d f ev. b_loop s = Drain d (Hand f ev)")
  case True
  then obtain d f ev where l: "b_loop s = Drain d (Hand f ev)" by blast
  have b: "base_ok s" "pass_ok s d" "stage_ok s (n_key ` set (d_rest d)) (Hand f ev)"
    using o l by (simp_all add: broker_ok_def)
  have "placed (deliver_end now err s) \<and> same_hold s (deliver_end now err s)"
    using accepted_placed [OF b] rejected_placed [OF b] by (cases err) (simp_all add: deliver_end_def l)
  then show ?thesis using drain_placed [OF o polling_drain [OF l]] by blast
next
  case False
  then show ?thesis using o by (auto simp: deliver_end_def split: loop.splits stage.splits)
qed

section \<open>Callers and the world\<close>

text \<open>A step that leaves the drain where it is and only moves the mesh.\<close>

lemma world_ok:
  assumes o: "broker_ok s" and e: "evolves s t" and b: "base_ok t" and "b_loop t = b_loop s" "same_hold s t"
  shows "broker_ok t"
proof (rule drain_ok [OF o e b])
  have "loop_ok s (b_loop s)" using o by (simp add: broker_ok_def)
  then show "loop_ok t (b_loop t)" using evolves_loop [OF e] assms(4) by simp
qed (use assms(4,5) in \<open>auto simp: same_hold_def polling_def\<close>)

lemma known_kept:
  assumes b: "base_ok s" and t: "t = s\<lparr>b_known := jm_set i (src, evs, base) (b_known s)\<rparr>"
    and k: "case jm_get (b_known s) i of None \<Rightarrow> True | Some (src', evs', base') \<Rightarrow> src' = src \<and> evs' = evs \<and> base' \<le> base"
  shows "evolves s t" and "base_ok t"
proof -
  have w: "wanted t j e ev \<Longrightarrow> j = i \<and> \<not> jm_has (b_known s) i \<or> wanted s j e ev" for j e ev
    using k by (cases "j = i") (auto simp: wanted_def t jm_get_set jm_has_def split: option.splits)
  have p: "jm_has (b_known s) j \<Longrightarrow> passed s j q \<Longrightarrow> passed t j q" for j q
    unfolding passed_def using w by (fastforce simp: t handled_def)
  have n: "jm_has (b_known s) j \<Longrightarrow> jm_has (b_known t) j" for j by (simp add: jm_has_def t jm_get_set)
  have f: "fits s sub \<Longrightarrow> fits t sub" for sub
    using k by (auto simp: fits_def t jm_get_set)
  show e: "evolves s t"
    using p n f by (simp add: evolves_def) (simp add: t page_ok_def stored_def covers_def)
  have "log_ok t" using b n by (auto simp: base_ok_def log_ok_def deliveries_def t)
  then show "base_ok t" using b p n evolves_safe_entries [OF e] evolves_receipts [OF e] by (simp add: base_ok_def) (simp add: t)
qed

lemma known_covers: "base_ok s \<Longrightarrow> \<not> jm_has (b_known s) i \<Longrightarrow> covers s i q"
  by (force simp: base_ok_def log_ok_def covers_def)

lemma fresh_passed: "jm_get (b_known t) i = Some (src, evs, base) \<Longrightarrow> base \<le> latest (b_mesh t) \<Longrightarrow> passed t i base"
  by (auto simp: passed_def wanted_def)

lemma subscribed_ok:
  assumes o: "broker_ok s" and p: "polite s (Subscribed sub)"
  shows "broker_ok (subscribed sub s)"
proof (cases "admission_held s \<or> jm_has (st_state (b_mesh s)) (subscription_key (s_id sub))")
  case True with o show ?thesis by (simp add: subscribed_def)
next
  case False
  let ?i = "s_id sub" and ?st = "st_create (subscription_key (s_id sub)) (value_of_subscription sub) (b_mesh s)"
  define t where "t = s\<lparr>b_known := jm_set ?i (s_from sub, s_events sub, s_after sub) (b_known s)\<rparr>"
  have b: "base_ok s" using o by (simp add: broker_ok_def)
  have q: "subscription_ok sub" "\<not> jm_has (b_known s) ?i" "s_after sub \<le> latest (b_mesh s)" using p by (simp_all add: polite_def)
  have nk: "jm_get (b_known s) ?i = None" using q(2) unfolding jm_has_def by blast
  note k = known_kept [OF b t_def, unfolded nk, simplified]
  have g: "jm_get (b_known t) ?i = Some (s_from sub, s_events sub, s_after sub)" by (simp add: t_def jm_get_set)
  have "fits t sub" using g q(1) by (simp add: fits_def)
  moreover have "passed t ?i (s_after sub)" by (rule fresh_passed [OF g]) (simp add: t_def q(3))
  moreover have "covers t ?i (s_after sub)" using known_covers [OF b q(2)] by (simp add: t_def covers_def)
  ultimately have w: "writable t ?i (Some sub)" by (simp add: writable_def safe_def)
  have "jm_ok (st_state (b_mesh s))" using b by (simp add: base_ok_def events_ok_def)
  then have "writes (b_mesh t) ?st (subscription_key ?i) (map_option value_of_subscription (Some sub))"
    using create_writes False by (simp add: t_def)
  note e = write_evolves [OF k(2) this w]
  have "broker_ok (t\<lparr>b_mesh := ?st\<rparr>)"
    by (rule world_ok [OF o evolves_trans [OF k(1) conjunct1 [OF e]]]) (use e in \<open>simp_all add: t_def same_hold_def\<close>)
  then show ?thesis using False broker_wake_ok by (simp add: subscribed_def t_def)
qed

lemma foreign_save_ok:
  assumes o: "broker_ok s" and p: "polite s (Foreign_save sub ver)"
  shows "broker_ok (foreign_save sub ver s)"
proof (cases "st_put (subscription_key (s_id sub)) (value_of_subscription sub) ver (b_mesh s)")
  case None with o show ?thesis by (simp add: foreign_save_def)
next
  case (Some r)
  let ?i = "s_id sub"
  obtain v st where r: "r = (v, st)" by (cases r)
  define t where "t = s\<lparr>b_known := jm_set ?i (s_from sub, s_events sub, s_after sub) (b_known s)\<rparr>"
  have b: "base_ok s" using o by (simp add: broker_ok_def)
  obtain base x old where q: "subscription_ok sub" "s_after sub \<le> latest (b_mesh s)" "jm_get (b_known s) ?i = Some (s_from sub, s_events sub, base)" "base \<le> s_after sub"
    and x: "x \<in> set (listing (b_mesh s))" "own_subscription x = Some old" "s_id old = ?i" "s_after old \<le> s_after sub"
    using p by (auto simp: polite_def split: option.splits)
  note k = known_kept [OF b t_def, unfolded q(3), simplified, OF q(4)]
  have g: "jm_get (b_known t) ?i = Some (s_from sub, s_events sub, s_after sub)" by (simp add: t_def jm_get_set)
  have f: "fits t sub" using g q(1) by (simp add: fits_def)
  have ps: "passed t ?i (s_after sub)" by (rule fresh_passed [OF g]) (simp add: t_def q(2))
  have "safe t old" using k(2) x by (simp add: base_ok_def safe_entries_def t_def)
  then have c: "jm_has (b_delivered t) ?i \<or> covers t ?i (s_after sub)" using x covers_up by (auto simp: safe_def)
  have w: "writable t ?i (Some sub)"
    using f ps c x covers_up unfolding writable_def safe_def stored_def by (auto simp: t_def)
  have d: "jm_ok (st_state (b_mesh s))" using b by (simp add: base_ok_def events_ok_def)
  have "writes (b_mesh t) st (subscription_key ?i) (map_option value_of_subscription (Some sub))"
    using put_writes [OF d] Some r by (simp add: t_def)
  note e = write_evolves [OF k(2) this w]
  have "broker_ok (t\<lparr>b_mesh := st\<rparr>)"
    by (rule world_ok [OF o evolves_trans [OF k(1) conjunct1 [OF e]]]) (use e in \<open>simp_all add: t_def same_hold_def\<close>)
  then show ?thesis using Some r by (simp add: foreign_save_def t_def)
qed

lemma removed_ok:
  assumes o: "broker_ok s"
  shows "broker_ok (removed i ver s)"
proof (cases "st_delete (subscription_key i) ver (b_mesh s)")
  case None with o show ?thesis by (simp add: removed_def)
next
  case (Some r)
  obtain v st where r: "r = (v, st)" by (cases r)
  have b: "base_ok s" using o by (simp add: broker_ok_def)
  then have d: "jm_ok (st_state (b_mesh s))" by (simp add: base_ok_def events_ok_def)
  have "writes (b_mesh s) st (subscription_key i) (map_option value_of_subscription None)"
    using delete_writes [OF d] Some r by simp
  note e = write_evolves [OF b this, simplified writable_def, simplified]
  have "broker_ok (s\<lparr>b_mesh := st\<rparr>)"
    by (rule world_ok [OF o]) (use e in \<open>simp_all add: same_hold_def\<close>)
  then show ?thesis using Some r by (simp add: removed_def)
qed

text \<open>The log of events moves; nothing that a cursor passed comes back.\<close>

lemma events_moved:
  assumes o: "broker_ok s" and t: "t = s\<lparr>b_mesh := m, b_torn := torn\<rparr>" and m: "events_ok m" "st_state m = st_state (b_mesh s)"
    and l: "latest (b_mesh s) \<le> latest m"
    and n: "\<not> torn \<Longrightarrow> \<not> b_torn s \<and> (\<forall>e \<in> set (st_events m). e \<in> set (st_events (b_mesh s)) \<or> latest (b_mesh s) < ev_seq e)"
  shows "broker_ok t"
proof -
  have b: "base_ok s" using o by (simp add: broker_ok_def)
  have li: "listing m = listing (b_mesh s)" by (simp add: listing_def m)
  have p: "passed s i q \<Longrightarrow> passed t i q" for i q
    unfolding passed_def using n l by (fastforce simp: t wanted_def handled_def)
  have g: "page_ok s q evs \<Longrightarrow> page_ok t q evs" for q evs
    unfolding page_ok_def using n l by (fastforce simp: t)
  have e: "evolves s t" using p g by (simp add: evolves_def) (simp add: t fits_def stored_def covers_def li)
  have lo: "log_ok t = log_ok s" by (simp add: t log_ok_def deliveries_def)
  have "base_ok t" using b p m lo evolves_safe_entries [OF e] evolves_receipts [OF e]
    by (simp add: base_ok_def) (simp add: t li)
  then show ?thesis by (intro world_ok [OF o e]) (simp_all add: t same_hold_def)
qed

lemma events_of_ok: "broker_ok s \<Longrightarrow> events_ok (b_mesh s)"
  by (simp add: broker_ok_def base_ok_def)

lemma append_ok:
  assumes o: "broker_ok s" and p: "polite s (Append e)"
  shows "broker_ok (append_event e s)"
proof -
  let ?m = "(b_mesh s)\<lparr>st_events := st_events (b_mesh s) @ [e], st_counter := max (st_counter (b_mesh s)) (ev_seq e)\<rparr>"
  note k = events_of_ok [OF o]
  have q: "0 < ev_seq e" "\<forall>x \<in> set (st_events (b_mesh s)). ev_seq x < ev_seq e" "\<not> b_torn s \<Longrightarrow> latest (b_mesh s) < ev_seq e"
    using p by (simp_all add: polite_def)
  have m: "events_ok ?m" using k q by (auto simp: events_ok_def sorted_wrt_append)
  have l: "latest (b_mesh s) \<le> latest ?m" by (simp add: latest_counter [OF k] latest_counter [OF m])
  show ?thesis
    by (rule events_moved [OF o _ m _ l, where torn = "b_torn s"]) (use q in \<open>auto simp: append_event_def\<close>)
qed

lemma reserve_ok:
  assumes o: "broker_ok s"
  shows "broker_ok (reserve s)"
proof -
  let ?m = "(b_mesh s)\<lparr>st_counter := latest (b_mesh s) + 1\<rparr>"
  note k = events_of_ok [OF o]
  have m: "events_ok ?m" using k by (fastforce simp: events_ok_def latest_counter [OF k])
  have l: "latest (b_mesh s) \<le> latest ?m" by (simp add: latest_counter [OF m])
  show ?thesis by (rule events_moved [OF o _ m _ l, where torn = True]) (simp_all add: reserve_def)
qed

lemma prune_ok:
  assumes o: "broker_ok s"
  shows "broker_ok (s\<lparr>b_mesh := (b_mesh s)\<lparr>st_events := drop n (st_events (b_mesh s))\<rparr>\<rparr>)"
proof -
  let ?m = "(b_mesh s)\<lparr>st_events := drop n (st_events (b_mesh s))\<rparr>"
  note k = events_of_ok [OF o]
  have "sorted_wrt (\<lambda>a b. ev_seq a < ev_seq b) (drop n (st_events (b_mesh s)))"
    using k by (metis append_take_drop_id events_ok_def sorted_wrt_append)
  then have m: "events_ok ?m" using k by (auto simp: events_ok_def dest: in_set_dropD)
  have l: "latest (b_mesh s) \<le> latest ?m" by (simp add: latest_counter [OF k] latest_counter [OF m])
  show ?thesis by (rule events_moved [OF o _ m _ l, where torn = "b_torn s"]) (auto dest: in_set_dropD)
qed

text \<open>Pauses and the checkpoint.\<close>

lemma core_ok:
  assumes o: "broker_ok s" and c: "same_core s t" "b_unsaved t = b_unsaved s" "b_page t = b_page s" "b_loop t = b_loop s" and k: "checkpoint_ok t"
  shows "broker_ok t"
  using o k same_core_eqs(1,5) [OF c(1)] c by (simp add: broker_ok_def)

lemma pause_ok: "broker_ok s \<Longrightarrow> broker_ok (pause strict s)"
proof -
  assume o: "broker_ok s"
  have c: "same_core s (pause strict s)" by (simp add: pause_def same_core_def)
  have "polling (pause strict s) = polling s" by (simp add: polling_def pause_def)
  then have "checkpoint_ok (pause strict s)" using o same_core_eqs(2) [OF c]
    by (auto simp: broker_ok_def checkpoint_ok_def hold_ok_def pause_def split: checkpoint.splits)
  then show ?thesis by (intro core_ok [OF o c]) (simp_all add: pause_def)
qed

lemma broker_resume_ok:
  assumes o: "broker_ok s" and p: "polite s Resume"
  shows "broker_ok (resume s)"
proof -
  let ?t = "if b_paused s then s\<lparr>b_paused := False, b_strict := False, b_epoch := Suc (b_epoch s)\<rparr> else s"
  have c: "same_core s ?t" by (simp add: same_core_def)
  have "checkpoint_ok ?t"
    using o p same_core_eqs(2) [OF c] by (auto simp: broker_ok_def checkpoint_ok_def hold_ok_def polite_def split: checkpoint.splits)
  then have "broker_ok ?t" by (intro core_ok [OF o c]) simp_all
  then show ?thesis using broker_wake_ok by (simp add: resume_def)
qed

lemma begin_checkpoint_ok: "broker_ok s \<Longrightarrow> broker_ok (begin_checkpoint g s)"
  by (auto simp: begin_checkpoint_def broker_ok_def checkpoint_ok_def release_ok_def)

lemma go_checkpoint_ok:
  assumes o: "broker_ok s"
  shows "broker_ok (go_checkpoint s)"
proof -
  have b: "base_ok s" and l: "loop_ok s (b_loop s)" and c: "checkpoint_ok s" using o by (simp_all add: broker_ok_def)
  have set: "broker_ok (s\<lparr>b_checkpoint := cp\<rparr>)" if "checkpoint_ok (s\<lparr>b_checkpoint := cp\<rparr>)" for cp
    using that b l by (simp add: broker_ok_def)
  have none: "broker_ok (s\<lparr>b_checkpoint := No_checkpoint\<rparr>)" by (rule set) (simp add: checkpoint_ok_def)
  have pol: "polling (s\<lparr>b_checkpoint := cp\<rparr>) = polling s" for cp by (simp add: polling_def)
  have conf: "broker_ok (s\<lparr>b_checkpoint := Confirming e g ids\<rparr>)" if "hold_ok s e g" for e g ids
    by (rule set) (use that in \<open>simp add: checkpoint_ok_def hold_ok_def pol\<close>)
  show ?thesis
  proof (cases "b_checkpoint s")
    case No_checkpoint with o show ?thesis by (simp add: go_checkpoint_def)
  next
    case (Settling e g)
    have "hold_ok s e g" if "\<not> polling s" "release_ok g e s" using that by (simp add: hold_ok_def release_ok_def)
    with Settling o none conf show ?thesis by (simp add: go_checkpoint_def)
  next
    case (Confirming e g ids)
    have h: "hold_ok s e g" using c Confirming by (simp add: checkpoint_ok_def)
    have "broker_ok (end_checkpoint e s)"
    proof -
      have "broker_ok (s\<lparr>b_checkpoint := No_checkpoint, b_release := x\<rparr>)" for x
        by (rule flags_ok [OF _ _ _ _ _ _ _ none]) (simp_all add: same_core_def)
      with none show ?thesis by (simp add: end_checkpoint_def)
    qed
    moreover have "broker_ok (s\<lparr>b_checkpoint := Awaiting e g ids i (Asked j)\<rparr>)" if "confirm_start (cp_guard e g) i s = Ask j" for i j
      by (rule set) (use confirm_start_job [OF b that] h in \<open>simp add: checkpoint_ok_def hold_ok_def pol job_of_def\<close>)
    ultimately show ?thesis using Confirming none conf [OF h]
      by (simp add: go_checkpoint_def split: list.split confirm_ask.split)
  next
    case (Awaiting e g ids i w)
    have h: "hold_ok s e g" and r: "e = b_epoch s \<longrightarrow> receipt_ok s i w" using c Awaiting by (simp_all add: checkpoint_ok_def)
    have "broker_ok (t\<lparr>b_checkpoint := Confirming e g (ids @ [i])\<rparr>)"
      if w: "w = Answered j (Applied v)" and t: "confirm_end (cp_guard e g) i j v s = Some (x, t)" for j v x t
    proof -
      note k = confirm_end_settled [OF t]
      have "guard_ok (cp_guard e g) s" using t by (simp add: confirm_end_def split: if_splits)
      then have "e = b_epoch s" using h by (cases g) (simp_all add: cp_guard_def guard_ok_def release_ok_def hold_ok_def)
      then have st: "stored s i" and np: "\<not> polling s" using r w h by (simp_all add: receipt_ok_def applied_def hold_ok_def)
      have bl: "b_loop t = b_loop s" "b_epoch t = b_epoch s" "b_paused t = b_paused s" using k by (simp_all add: settled_def same_hold_def)
      have "loop_ok t (b_loop t)" using np bl by (cases "b_loop s") (simp_all add: polling_def)
      moreover have "polling (t\<lparr>b_checkpoint := cp\<rparr>) = polling s" for cp by (simp add: polling_def bl)
      ultimately show ?thesis using settled_base [OF b st k] h by (simp add: broker_ok_def checkpoint_ok_def hold_ok_def bl)
    qed
    then show ?thesis using Awaiting o none by (auto simp: go_checkpoint_def split: pending.split reply.split option.split)
  qed
qed

section \<open>Every run\<close>

theorem broker_step_ok:
  assumes o: "broker_ok s" and p: "polite s e"
  shows "broker_ok (step s e)"
proof -
  have flag: "broker_ok (s\<lparr>b_lost := x\<rparr>)" "broker_ok (s\<lparr>b_valid := y\<rparr>)" for x y
    by (rule flags_ok [OF _ _ _ _ _ _ _ o], simp_all add: same_core_def)+
  have t: "broker_ok (retry_timer s)"
  proof -
    have "broker_ok (s\<lparr>b_retry := None\<rparr>)" by (rule flags_ok [OF _ _ _ _ _ _ _ o]) (simp_all add: same_core_def)
    with o broker_wake_ok show ?thesis by (simp add: retry_timer_def)
  qed
  have st: "broker_ok (start s)"
  proof -
    have "broker_ok (s\<lparr>b_started := True, b_closed := False\<rparr>)" by (rule flags_ok [OF _ _ _ _ _ _ _ o]) (simp_all add: same_core_def)
    with o broker_wake_ok show ?thesis by (simp add: start_def)
  qed
  have cl: "broker_ok (close s)"
    by (rule flags_ok [OF _ _ _ _ _ _ _ o]) (simp_all add: close_def same_core_def)
  show ?thesis using o p flag t st cl broker_wake_ok microtask_ok go_loop_ok drain_commit_ok drain_throws_ok deliver_end_ok subscribed_ok
      pause_ok broker_resume_ok begin_checkpoint_ok go_checkpoint_ok checkpoint_commit_ok reserve_ok append_ok prune_ok foreign_save_ok removed_ok
    by (cases e) (auto simp: unsubscribe_def)
qed

lemma broker_run_ok: "broker_ok s \<Longrightarrow> polite_run s es \<Longrightarrow> broker_ok (run step s es)"
  by (induction es arbitrary: s) (simp_all add: broker_step_ok)

text \<open>A new broker over a mesh whose subscriptions do not lie ahead of its events.\<close>

definition mesh_ready :: "store \<Rightarrow> bool" where
  "mesh_ready st \<longleftrightarrow> events_ok st \<and> (\<forall>e \<in> set (listing st). \<forall>sub. own_subscription e = Some sub \<longrightarrow> s_after sub \<le> latest st)"

lemma own_ids_distinct: "distinct (map n_key es) \<Longrightarrow> distinct (map s_id (List.map_filter own_subscription es))"
proof (induction es)
  case Nil
  then show ?case by (simp add: List.map_filter_def)
next
  case (Cons e es)
  have "s_id sub \<noteq> s_id sub'" if "own_subscription e = Some sub" "x \<in> set es" "own_subscription x = Some sub'" for sub sub' x
    using Cons.prems own_key [OF that(1)] own_key [OF that(3)] that(2) by force
  with Cons show ?case by (force simp: List.map_filter_def)
qed

lemma known_of_get:
  assumes "jm_ok (st_state st)" and "e \<in> set (listing st)" and "own_subscription e = Some sub"
  shows "jm_get (known_of st) (s_id sub) = Some (s_from sub, s_events sub, s_after sub)"
proof (rule jm_in_set_get)
  have "distinct (map s_id (List.map_filter own_subscription (listing st)))" by (rule own_ids_distinct [OF listing_keys [OF assms(1)]])
  then show "jm_ok (known_of st)" by (simp add: jm_ok_def jm_keys_def known_of_def comp_def)
  show "(s_id sub, s_from sub, s_events sub, s_after sub) \<in> set (known_of st)"
    using assms(2,3) by (force simp: known_of_def List.map_filter_def)
qed

lemma new_broker_ok:
  assumes "mesh_ready st"
  shows "broker_ok (new_broker enabled pollms maxread st)"
proof -
  let ?s = "new_broker enabled pollms maxread st"
  have e: "events_ok st" using assms by (simp add: mesh_ready_def)
  have "safe ?s sub" if x: "x \<in> set (listing st)" "own_subscription x = Some sub" for x sub
  proof -
    have "jm_ok (st_state st)" using e by (simp add: events_ok_def)
    then have k: "jm_get (b_known ?s) (s_id sub) = Some (s_from sub, s_events sub, s_after sub)"
      using known_of_get x by (simp add: new_broker_def)
    have "s_after sub \<le> latest (b_mesh ?s)" using assms x by (auto simp: mesh_ready_def new_broker_def)
    from fresh_passed [OF k this] show ?thesis using k own_key [OF x(2)] by (simp add: safe_def fits_def) (simp add: covers_def new_broker_def)
  qed
  then have "safe_entries ?s (listing st)" by (simp add: safe_entries_def)
  then show ?thesis using e
    by (simp add: broker_ok_def base_ok_def loop_ok_def checkpoint_ok_def receipts_ok_def log_ok_def deliveries_def) (simp add: new_broker_def)
qed

end
