(* ===== verification/BrokerRuns.thy ===== *)
theory BrokerRuns imports BrokerSafety begin

text \<open>
  The properties of the lifecycle broker over whole runs, with concrete runs at which they apply; that work left behind
  always has a carrier (a scheduled poll, a running drain or a retry timer); and the run that loses an event.
\<close>

section \<open>What the drain leaves alone\<close>

definition setting :: "broker \<Rightarrow> bool \<times> bool \<times> bool \<times> bool \<times> bool \<times> checkpoint \<times> int" where
  "setting s = (b_torn s, b_closed s, b_paused s, b_enabled s, b_lost s, b_checkpoint s, b_poll s)"

lemma setting_loop [simp]: "setting (s\<lparr>b_loop := l\<rparr>) = setting s" "setting (s\<lparr>b_dirty := x\<rparr>) = setting s" "setting (s\<lparr>b_failed := x\<rparr>) = setting s"
  "setting (s\<lparr>b_unsaved := u\<rparr>) = setting s" "setting (s\<lparr>b_loop := l, b_skipped := k\<rparr>) = setting s"
  by (simp_all add: setting_def)

lemma answer_setting [simp]: "setting (snd (answer h w s)) = setting s"
proof -
  have "setting (snd (perform j s)) = setting s" for j
    by (cases j) (auto simp: perform_def setting_def split: option.splits)
  then show ?thesis by (cases w; cases h) (simp_all add: answer_def)
qed

lemma confirm_setting: "confirm_end g i j v s = Some (r, t) \<Longrightarrow> setting t = setting s"
  by (auto simp: confirm_end_def settle_receipt_def setting_def split: if_splits job.splits)

lemma small_setting [simp]: "setting (wake s) = setting s" "setting (loop_test s) = setting s" "setting (leave d s) = setting s"
  "setting (next_page d f s) = setting s" "setting (forget_unsaved i s) = setting s" "setting (schedule_retry out wait s) = setting s"
  "setting (s\<lparr>b_delay := y\<rparr>) = setting s"
  by (simp_all add: wake_def schedule_poll_def loop_test_def leave_def next_page_def forget_unsaved_def schedule_retry_def Let_def setting_def)

lemma keep_setting: "keep_unsaved sub c s = Some t \<Longrightarrow> setting t = setting s"
  by (auto simp: keep_unsaved_def split: if_splits)

lemma small_busy [simp]: "b_loop (leave d s) \<noteq> Idle" "b_loop (next_page d f s) \<noteq> Idle"
  by (simp_all add: leave_def next_page_def)

definition busy_like :: "broker \<Rightarrow> broker \<Rightarrow> bool" where
  "busy_like s t \<longleftrightarrow> setting t = setting s \<and> b_loop t \<noteq> Idle"

lemma contain_busy: "(\<And>t. setting t = setting s \<Longrightarrow> busy_like s (k t)) \<Longrightarrow> busy_like s (contain b k s)"
  by (simp add: contain_def busy_like_def)

lemma go_busy: "b_loop s = Drain d st \<Longrightarrow> busy_like s (go_loop a s)"
proof (cases st)
  case Head
  moreover assume "b_loop s = Drain d st"
  ultimately show ?thesis
    by (auto simp: busy_like_def go_loop_def go_head_def go_entry_def go_target_def Let_def split: list.splits option.splits confirm_ask.splits)
next
  case (Confirm i w)
  moreover assume "b_loop s = Drain d st"
  ultimately show ?thesis using confirm_setting
    by (auto simp: busy_like_def [of _ "_\<lparr>b_loop := _\<rparr>"] busy_like_def [of s s] go_loop_def go_confirm_def intro!: contain_busy
        split: pending.splits reply.splits option.splits)
next
  case (Page e sub)
  moreover assume "b_loop s = Drain d st"
  ultimately show ?thesis using keep_setting by (auto simp: busy_like_def go_loop_def go_page_def Let_def split: option.splits)
next
  case (Scan f)
  moreover assume "b_loop s = Drain d st"
  ultimately show ?thesis using keep_setting
    by (auto simp: busy_like_def go_loop_def go_scan_def page_end_def Let_def split: list.splits option.splits)
next
  case (Hand f ev)
  moreover assume "b_loop s = Drain d st"
  ultimately show ?thesis by (simp add: busy_like_def go_loop_def)
next
  case (Receipt f w)
  moreover assume "b_loop s = Drain d st"
  moreover have "busy_like s (contain b (leave d) s)" for b by (rule contain_busy) (simp add: busy_like_def)
  ultimately show ?thesis using confirm_setting
    by (auto simp: busy_like_def go_loop_def go_receipt_def split: pending.splits reply.splits option.splits)
next
  case (Store_last i w)
  moreover assume "b_loop s = Drain d st"
  moreover have "busy_like s (contain b (leave d) s)" for b by (rule contain_busy) (simp add: busy_like_def)
  ultimately show ?thesis by (auto simp: busy_like_def go_loop_def go_store_last_def split: pending.splits reply.splits)
next
  case (Store_page f w)
  moreover assume "b_loop s = Drain d st"
  moreover have "busy_like s (contain b (leave d) s)" for b by (rule contain_busy) (simp add: busy_like_def)
  ultimately show ?thesis by (auto simp: busy_like_def go_loop_def go_store_page_def split: pending.splits reply.splits job.splits)
qed

lemma deliver_busy: "b_loop s = Drain d (Hand f ev) \<Longrightarrow> busy_like s (deliver_end now err s)"
  by (cases err) (auto simp: busy_like_def deliver_end_def accepted_def rejected_def Let_def setting_def leave_def split: confirm_ask.splits)

lemma go_setting: "setting (go_loop a s) = setting s"
proof (cases "b_loop s")
  case (Drain d st)
  with go_busy [OF Drain] show ?thesis by (simp add: busy_like_def)
qed (simp_all add: go_loop_def go_ready_def go_ending_def)

lemma deliver_setting: "setting (deliver_end now err s) = setting s"
proof (cases "\<exists>d f ev. b_loop s = Drain d (Hand f ev)")
  case True
  with deliver_busy show ?thesis by (auto simp: busy_like_def)
qed (auto simp: deliver_end_def split: loop.splits stage.splits)

lemma setting_torn: "setting t = setting s \<Longrightarrow> b_torn t = b_torn s"
  by (simp add: setting_def)

lemma step_torn: "b_torn (step s e) \<longleftrightarrow> b_torn s \<or> e = Reserve"
proof (cases e)
  case (Go a)
  then show ?thesis using setting_torn [OF go_setting] by simp
next
  case (Deliver_end now err)
  then show ?thesis using setting_torn [OF deliver_setting] by simp
next
  case (Drain_commit h)
  then show ?thesis using setting_torn [OF answer_setting] by (auto simp: drain_commit_def split: loop.splits option.splits)
next
  case (Checkpoint_commit h)
  then show ?thesis using setting_torn [OF answer_setting] by (auto simp: checkpoint_commit_def split: checkpoint.splits)
next
  case Checkpoint_go
  have "confirm_end g i j v s = Some (r, t) \<Longrightarrow> b_torn t = b_torn s" for g i j v r t by (rule setting_torn [OF confirm_setting])
  then have "b_torn (go_checkpoint s) = b_torn s"
    by (cases "b_checkpoint s") (auto simp: go_checkpoint_def end_checkpoint_def split: list.splits confirm_ask.splits pending.splits reply.splits option.splits)
  with Checkpoint_go show ?thesis by simp
qed (auto simp: microtask_def retry_timer_def drain_throws_def subscribed_def unsubscribe_def removed_def pause_def wake_def schedule_poll_def
    loop_test_def resume_def start_def close_def begin_checkpoint_def reserve_def append_event_def foreign_save_def Let_def
    split: loop.splits option.splits stage.splits)

lemma run_torn: "b_torn (run step s es) \<longleftrightarrow> b_torn s \<or> Reserve \<in> set es"
  by (induction es arbitrary: s) (auto simp: step_torn)

section \<open>Work left behind\<close>

text \<open>Nothing gates the broker, and no event closes a gate.\<close>

definition ungated :: "event \<Rightarrow> bool" where
  "ungated e \<longleftrightarrow> (case e of Pause _ \<Rightarrow> False | Close \<Rightarrow> False | Lease b \<Rightarrow> \<not> b | Checkpoint _ \<Rightarrow> False | _ \<Rightarrow> True)"

definition work_left :: "broker \<Rightarrow> bool" where
  "work_left s \<longleftrightarrow> b_dirty s \<or> b_delivered s \<noteq> []"

definition carried :: "broker \<Rightarrow> bool" where
  "carried s \<longleftrightarrow> \<not> gated s \<and> b_checkpoint s = No_checkpoint \<and> (b_loop s = Idle \<longrightarrow> work_left s \<longrightarrow> b_dirty s \<and> (b_scheduled s \<or> b_retry s \<noteq> None))"

lemma gated_setting: "setting t = setting s \<Longrightarrow> gated t = gated s \<and> b_checkpoint t = b_checkpoint s"
  by (simp add: setting_def gated_def)

lemma busy_carried: "busy_like s t \<Longrightarrow> carried s \<Longrightarrow> carried t"
  using gated_setting [of t s] by (simp add: busy_like_def carried_def)

lemma wake_carried: "\<not> gated s \<Longrightarrow> b_checkpoint s = No_checkpoint \<Longrightarrow> carried (wake s)"
  by (simp add: carried_def wake_def schedule_poll_def gated_def)

lemma quiet_carried:
  assumes "carried s" and "setting t = setting s" and "b_loop t = b_loop s" "b_dirty t = b_dirty s" "b_delivered t = b_delivered s"
    "b_scheduled t = b_scheduled s" "b_retry t = b_retry s"
  shows "carried t"
  using assms gated_setting [OF assms(2)] by (simp add: carried_def work_left_def)

lemma loop_test_carried: "\<not> gated s \<Longrightarrow> b_checkpoint s = No_checkpoint \<Longrightarrow> (\<not> b_dirty s \<Longrightarrow> b_delivered s = []) \<Longrightarrow> carried (loop_test s)"
  by (auto simp: loop_test_def carried_def gated_def work_left_def)

lemma go_carried:
  assumes c: "carried s" shows "carried (go_loop a s)"
proof (cases "b_loop s")
  case (Drain d st)
  from busy_carried [OF go_busy [OF Drain] c] show ?thesis .
next
  case (Ending out)
  have g: "\<not> gated s" "b_checkpoint s = No_checkpoint" using c by (simp_all add: carried_def)
  show ?thesis
  proof (cases "out = Done \<and> \<not> b_failed s \<and> b_delivered s = []")
    case True
    then show ?thesis using loop_test_carried [of "s\<lparr>b_delay := 0\<rparr>"] g
      by (simp add: go_loop_def Ending go_ending_def gated_def)
  next
    case False
    then have e: "go_loop a s = (schedule_retry out (a_wait a) (s\<lparr>b_dirty := True\<rparr>))\<lparr>b_loop := Idle\<rparr>"
      by (auto simp: go_loop_def Ending go_ending_def)
    show ?thesis unfolding e using g by (auto simp: carried_def gated_def schedule_retry_def Let_def)
  qed
qed (use c in \<open>auto simp: go_loop_def go_ready_def carried_def gated_def\<close>)

lemma answer_quiet: "b_loop (snd (answer h w s)) = b_loop s" "b_dirty (snd (answer h w s)) = b_dirty s"
  "b_delivered (snd (answer h w s)) = b_delivered s" "b_scheduled (snd (answer h w s)) = b_scheduled s" "b_retry (snd (answer h w s)) = b_retry s"
proof -
  have "b_loop (snd (perform j s)) = b_loop s \<and> b_dirty (snd (perform j s)) = b_dirty s \<and> b_delivered (snd (perform j s)) = b_delivered s
     \<and> b_scheduled (snd (perform j s)) = b_scheduled s \<and> b_retry (snd (perform j s)) = b_retry s" for j
    by (cases j) (auto simp: perform_def split: option.splits)
  then show "b_loop (snd (answer h w s)) = b_loop s" "b_dirty (snd (answer h w s)) = b_dirty s"
    "b_delivered (snd (answer h w s)) = b_delivered s" "b_scheduled (snd (answer h w s)) = b_scheduled s" "b_retry (snd (answer h w s)) = b_retry s"
    by (cases w; cases h; simp add: answer_def)+
qed

lemma carried_step:
  assumes c: "carried s" and u: "ungated e"
  shows "carried (step s e)"
proof -
  have g: "\<not> gated s" "b_checkpoint s = No_checkpoint" "b_loop s = Idle \<Longrightarrow> work_left s \<Longrightarrow> b_dirty s \<and> (b_scheduled s \<or> b_retry s \<noteq> None)"
    using c by (simp_all add: carried_def)
  show ?thesis
  proof (cases e)
    case Microtask
    then show ?thesis using c g loop_test_carried [of "s\<lparr>b_scheduled := False\<rparr>"]
      by (auto simp: microtask_def Let_def carried_def gated_def work_left_def)
  next
    case Timer
    then show ?thesis using c g wake_carried [of "s\<lparr>b_retry := None\<rparr>"] by (simp add: retry_timer_def gated_def)
  next
    case (Go a)
    then show ?thesis using go_carried [OF c] by simp
  next
    case (Drain_commit h)
    have "busy_like s (drain_commit h s) \<or> drain_commit h s = s"
      by (auto simp: drain_commit_def busy_like_def split: loop.split option.split)
    then show ?thesis using Drain_commit busy_carried [OF _ c] c by auto
  next
    case (Drain_throws b)
    have "busy_like s (drain_throws b s) \<or> drain_throws b s = s"
      by (auto simp: drain_throws_def busy_like_def split: loop.split stage.split)
    then show ?thesis using Drain_throws busy_carried [OF _ c] c by auto
  next
    case (Deliver_end now err)
    have "busy_like s (deliver_end now err s) \<or> deliver_end now err s = s"
      using deliver_busy by (auto simp: deliver_end_def split: loop.split stage.split)
    then show ?thesis using Deliver_end busy_carried [OF _ c] c by auto
  next
    case (Subscribed sub)
    then show ?thesis using c g by (auto simp: subscribed_def gated_def intro!: wake_carried)
  next
    case Checkpoint_go
    then show ?thesis using c g by (simp add: go_checkpoint_def)
  next
    case (Checkpoint_commit h)
    then show ?thesis using c g by (simp add: checkpoint_commit_def)
  next
    case (Start)
    then show ?thesis using c g by (auto simp: start_def gated_def intro!: wake_carried)
  next
    case Resume
    then show ?thesis using c g by (auto simp: resume_def gated_def intro!: wake_carried)
  next
    case Wake
    then show ?thesis using g wake_carried by simp
  next
    case (Lease b)
    then show ?thesis using c u by (auto simp: ungated_def carried_def gated_def work_left_def)
  next
    case (Valid b)
    then show ?thesis using c by (auto simp: carried_def gated_def work_left_def)
  qed (use u c in \<open>auto simp: ungated_def unsubscribe_def removed_def foreign_save_def reserve_def append_event_def carried_def gated_def work_left_def split: option.splits\<close>)
qed

interpretation work: machine_invariant "\<lambda>s e. if ungated e then step s e else s" carried
  by unfold_locales (auto intro: carried_step)

lemma ungated_run: "list_all ungated es \<Longrightarrow> run (\<lambda>s e. if ungated e then step s e else s) s es = run step s es"
  by (induction es arbitrary: s) simp_all

text \<open>The delay of the retry doubles from the polling interval up to half a minute.\<close>

lemma retry_backoff:
  assumes "\<not> b_closed s" and "0 < b_poll s" and "b_delay s = 0"
  shows "b_delay ((schedule_retry Done w ^^ Suc n) s) = min DRAIN_RETRY_MAX (b_poll s * 2 ^ n) \<and> b_poll ((schedule_retry Done w ^^ Suc n) s) = b_poll s
    \<and> \<not> b_closed ((schedule_retry Done w ^^ Suc n) s)"
proof (induction n)
  case 0
  then show ?case using assms by (simp add: schedule_retry_def Let_def)
next
  case (Suc n)
  define t where "t = (schedule_retry Done w ^^ Suc n) s"
  have t: "b_delay t = min DRAIN_RETRY_MAX (b_poll s * 2 ^ n)" "b_poll t = b_poll s" "\<not> b_closed t" using Suc by (simp_all add: t_def)
  have "b_delay t \<noteq> 0" using t(1) assms(2) by (simp add: DRAIN_RETRY_MAX_def min_def)
  then have "schedule_retry Done w t = t\<lparr>b_delay := min DRAIN_RETRY_MAX (b_delay t * 2), b_retry := Some (min DRAIN_RETRY_MAX (b_delay t * 2))\<rparr>"
    using t(3) by (simp add: schedule_retry_def Let_def)
  moreover have "min DRAIN_RETRY_MAX (min DRAIN_RETRY_MAX (b_poll s * 2 ^ n) * 2) = min DRAIN_RETRY_MAX (b_poll s * 2 ^ Suc n)"
    by (simp add: DRAIN_RETRY_MAX_def min_def)
  ultimately have "b_delay (schedule_retry Done w t) = min DRAIN_RETRY_MAX (b_poll s * 2 ^ Suc n) \<and> b_poll (schedule_retry Done w t) = b_poll s
      \<and> \<not> b_closed (schedule_retry Done w t)"
    using t by simp
  then show ?case by (simp add: t_def)
qed

section \<open>Subscribing\<close>

text \<open>What \<open>subscribe\<close> returns is well formed and starts at the end of the log, so its commit is polite when the id is fresh.\<close>

lemma set_unique: "set (unique xs) = set xs"
proof -
  have "set (foldl (\<lambda>acc x. if x \<in> set acc then acc else x # acc) ys xs) = set ys \<union> set xs" for ys
    by (induction xs arbitrary: ys) auto
  then show ?thesis by (simp add: unique_def)
qed

lemma subscribe_polite:
  assumes "subscribe r i who now lookup s = Inr sub" and "set (r_events r) \<subseteq> set LIFECYCLE_EVENTS" and "identity_json who"
    and "\<not> jm_has (b_known s) i"
  shows "polite s (Subscribed sub)" and "s_from sub \<noteq> s_to sub" and "usable (lookup (s_from sub))" and "usable (lookup (s_to sub))"
    and "\<not> admission_held s"
  using assms set_unique [of "r_events r"]
  by (auto simp: subscribe_def bind_e_Inr subscribe_checks_def Let_def polite_def subscription_ok_def split: if_splits)

text \<open>A subscription that was committed is listed, its events are then published, and \<open>unsubscribe\<close> finds and removes it.\<close>

lemma starts_with_append [simp]: "starts_with p (p @ xs)"
  by (simp add: starts_with_def)

lemma subscribed_listed:
  assumes f: "\<not> admission_held s" "\<not> jm_has (st_state (b_mesh s)) (subscription_key (s_id sub))" and k: "subscription_ok sub"
  shows "sub \<in> set (list_subscriptions None None (b_mesh (subscribed sub s)))"
    and "e \<in> set (s_events sub) \<Longrightarrow> observed (b_mesh (subscribed sub s)) (s_from sub) e"
proof -
  have m: "b_mesh (subscribed sub s) = st_create (subscription_key (s_id sub)) (value_of_subscription sub) (b_mesh s)"
    using f by (simp add: subscribed_def wake_def schedule_poll_def)
  let ?e = "\<lparr>n_key = subscription_key (s_id sub), n_value = value_of_subscription sub, n_version = st_clock (b_mesh s) + 1\<rparr>"
  have "jm_get (st_state (b_mesh (subscribed sub s))) (subscription_key (s_id sub)) = Some (value_of_subscription sub, st_clock (b_mesh s) + 1)"
    using f(2) unfolding m by (simp add: st_create_def jm_get_set)
  then have e: "?e \<in> set (listing (b_mesh (subscribed sub s)))" by (auto simp: in_listing subscription_key_def dest: jm_get_in_set)
  have o: "own_subscription ?e = Some sub" by (rule own_value) (simp_all add: k)
  show "sub \<in> set (list_subscriptions None None (b_mesh (subscribed sub s)))"
    using e o by (force simp: list_subscriptions_def selects_def List.map_filter_def)
  show "observed (b_mesh (subscribed sub s)) (s_from sub) e" if "e \<in> set (s_events sub)"
    unfolding observed_def using e o that by (intro bexI [of _ ?e]) simp_all
qed

lemma unsubscribe_removes:
  assumes "unsubscribe_read i s = Some v" and "\<not> admission_held s"
  shows "st_get (b_mesh (unsubscribe i v s)) (subscription_key (trimmed i)) = None"
  using assms by (auto simp: unsubscribe_read_def unsubscribe_def removed_def st_get_def st_delete_def jm_get_del split: option.splits if_splits)

section \<open>A concrete broker\<close>

text \<open>Main \<open>m\<close> wants to know when worker \<open>w\<close> completes a run.\<close>

definition demo_source :: source where
  "demo_source = \<lparr>ls_id = ''w'', ls_name = ''worker'', ls_kind = Agent, ls_root = ''r'', ls_runner = ''pi'', ls_host = Some ''h'', ls_ident = Some ''k''\<rparr>"

definition demo_owner :: participant where
  "demo_owner = \<lparr>p_kind = Agent, p_root = ''r'', p_runner = Some ''pi'', p_host = Some ''h'', p_ident = Some ''k'', p_stale = False, p_local = False, p_caps = []\<rparr>"

definition demo_target :: participant where
  "demo_target = \<lparr>p_kind = Root, p_root = ''r'', p_runner = Some ''pi'', p_host = Some ''h'', p_ident = Some ''m'', p_stale = False, p_local = True, p_caps = [''steer'']\<rparr>"

definition demo_sub :: subscription where
  "demo_sub = \<lparr>s_id = ''a'', s_from = ''w'', s_events = [''run.completed''], s_to = ''m'', s_delivery = Steer, s_trigger = True, s_once = False,
     s_after = 5, s_created = 1, s_updated = 1, s_by = JObj [(''id'', JStr ''m''), (''name'', JStr ''m''), (''kind'', JStr ''main'')],
     s_last_at = None, s_last_event = None, s_last_error = None, s_rest = []\<rparr>"

definition demo_store :: store where
  "demo_store = \<lparr>st_state = [(subscription_key ''a'', value_of_subscription demo_sub, 1)], st_clock = 1, st_events = [], st_counter = 5\<rparr>"

definition demo_request :: publish_request where
  "demo_request = \<lparr>q_source = demo_source, q_event = ''run.completed'', q_at = 7, q_run = Some ''run1'', q_status = None, q_data = None\<rparr>"

definition demo_event :: mesh_event where "demo_event = published_event demo_request ''e1'' 6 8"

definition demo_go :: event where
  "demo_go = Go \<lparr>a_now = 9, a_wait = 0, a_elsewhere = False, a_target = Some demo_target, a_owner = Some demo_owner\<rparr>"

definition demo_broker :: broker where "demo_broker = new_broker True 100 10 demo_store"


lemma demo_listing: "listing demo_store = [\<lparr>n_key = subscription_key ''a'', n_value = value_of_subscription demo_sub, n_version = 1\<rparr>]"
  by code_simp

lemma demo_sub_ok: "subscription_ok demo_sub"
  by code_simp

lemma demo_ready: "mesh_ready demo_store"
proof -
  have "own_subscription \<lparr>n_key = subscription_key ''a'', n_value = value_of_subscription demo_sub, n_version = 1\<rparr> = Some demo_sub"
    by (rule own_value) (simp_all add: demo_sub_ok, simp add: demo_sub_def)
  moreover have "events_ok demo_store" by (simp add: demo_store_def events_ok_def jm_ok_def)
  moreover have "latest demo_store = 5" "s_after demo_sub = 5" by (simp_all add: demo_store_def latest_def demo_sub_def)
  ultimately show ?thesis by (simp add: mesh_ready_def demo_listing)
qed

text \<open>The cursor write of a delivery is committed and its answer is lost; the retry confirms the receipt.\<close>

definition retry_run :: "event list" where
  "retry_run = [Append demo_event, Start, Microtask, demo_go, demo_go, demo_go, demo_go, Deliver_end 10 None, Drain_commit (Vanished False), demo_go,
     demo_go, demo_go, Timer, Microtask, demo_go, demo_go, Drain_commit Stored, demo_go, demo_go, demo_go]"

text \<open>The event is reserved, a wake drains, the event is appended, and a wake drains again.\<close>

definition lost_run :: "event list" where
  "lost_run = [Start, Microtask, demo_go, demo_go, demo_go, demo_go, Reserve, Wake, Microtask, demo_go, demo_go, demo_go, demo_go, demo_go,
     Append demo_event, Wake, Microtask, demo_go, demo_go, demo_go, demo_go]"

text \<open>A delivery whose cursor write throws, a pause, and the release checkpoint that confirms the receipt.\<close>

definition release_run :: "event list" where
  "release_run = [Append demo_event, Start, Microtask, demo_go, demo_go, demo_go, demo_go, Deliver_end 10 None, Drain_commit (Broken False), demo_go,
     Pause True, demo_go, demo_go, Checkpoint True, Checkpoint_go, Checkpoint_go, Checkpoint_commit Stored, Checkpoint_go, Checkpoint_go]"

text \<open>The subscription after the delivery.\<close>

definition done_sub :: subscription where
  "done_sub = delivered_sub 10 (event_meant demo_request ''e1'' 6 8) demo_sub"

lemma retry_run_polite: "polite_run demo_broker retry_run"
  by code_simp

lemma release_run_polite: "polite_run demo_broker release_run"
  by code_simp

lemma lost_run_polite: "polite_run demo_broker lost_run"
  by code_simp

lemma demo_event_meant: "event_of_mesh demo_event = Some (event_meant demo_request ''e1'' 6 8)"
  by code_simp

lemma done_sub_candidate: "candidate done_sub (event_meant demo_request ''e1'' 6 8)"
  by code_simp

lemma done_sub_own: "own_subscription \<lparr>n_key = subscription_key ''a'', n_value = value_of_subscription done_sub, n_version = n\<rparr> = Some done_sub"
proof (rule own_value)
  show "subscription_ok done_sub" by code_simp
qed (simp_all add: done_sub_def demo_sub_def)

lemma retry_run_facts:
  "(let s = run step demo_broker retry_run in
     listing (b_mesh s) = [\<lparr>n_key = subscription_key ''a'', n_value = value_of_subscription done_sub, n_version = 3\<rparr>]
     \<and> jm_get (b_known s) (s_id done_sub) = Some (''w'', [''run.completed''], 5) \<and> demo_event \<in> set (st_events (b_mesh s))
     \<and> 5 < ev_seq demo_event \<and> ev_seq demo_event \<le> cursor_of s done_sub \<and> map le_seq (deliveries s ''a'') = [6])"
  by code_simp

lemma release_run_facts:
  "(let s = run step demo_broker release_run in release_receipt s \<noteq> None
     \<and> listing (b_mesh s) = [\<lparr>n_key = subscription_key ''a'', n_value = value_of_subscription done_sub, n_version = 2\<rparr>]
     \<and> event_meant demo_request ''e1'' 6 8 \<in> set (deliveries s (s_id done_sub)))"
  by code_simp

lemma lost_run_facts:
  "(let s = run step demo_broker lost_run; ev = event_meant demo_request ''e1'' 6 8 in candidate demo_sub ev \<and> owns_source ev (Some demo_owner)
     \<and> demo_event \<in> set (st_events (b_mesh s)) \<and> b_loop s = Idle \<and> \<not> b_dirty s \<and> \<not> b_scheduled s \<and> b_retry s = None
     \<and> deliveries s ''a'' = [] \<and> ev_seq demo_event \<le> cursor_of s demo_sub)"
  by code_simp

text \<open>A matching event of a live source is appended and read over: the broker is at rest, owes nothing, and its cursor lies beyond.\<close>

theorem reserved_event_is_lost:
  "\<exists>s ev. s = run step demo_broker lost_run \<and> event_of_mesh demo_event = Some ev \<and> candidate demo_sub ev \<and> owns_source ev (Some demo_owner)
     \<and> demo_event \<in> set (st_events (b_mesh s)) \<and> b_loop s = Idle \<and> \<not> b_dirty s \<and> \<not> b_scheduled s \<and> b_retry s = None
     \<and> deliveries s ''a'' = [] \<and> ev_seq demo_event \<le> cursor_of s demo_sub"
  using lost_run_facts demo_event_meant unfolding Let_def by blast

section \<open>The broker over whole runs\<close>

text \<open>C27: Whatever fails, stops or restarts in between, the events handed to a subscription come in the order of their sequences, and
  none comes twice.\<close>

theorem broker_delivers_once:
  assumes "mesh_ready st" and "polite_run (new_broker enabled pollms maxread st) es"
  shows "sorted_wrt (\<lambda>a b. le_seq a < le_seq b) (deliveries (run step (new_broker enabled pollms maxread st) es) i)"
  using broker_run_ok [OF new_broker_ok [OF assms(1)] assms(2)] by (simp add: broker_ok_def base_ok_def log_ok_def)

theorem broker_delivers_once_witness:
  "sorted_wrt (\<lambda>a b. le_seq a < le_seq b) (deliveries (run step demo_broker retry_run) ''a'') \<and> map le_seq (deliveries (run step demo_broker retry_run) ''a'') = [6]"
proof
  show "sorted_wrt (\<lambda>a b. le_seq a < le_seq b) (deliveries (run step demo_broker retry_run) ''a'')"
    unfolding demo_broker_def by (rule broker_delivers_once [OF demo_ready retry_run_polite [unfolded demo_broker_def]])
  show "map le_seq (deliveries (run step demo_broker retry_run) ''a'') = [6]" using retry_run_facts unfolding Let_def by blast
qed

text \<open>C28: In a run in which no process takes a sequence ahead of its append (every publish reserves and appends in one
  step, as seen by the broker), every event a subscription asks for that lies at or before the broker's
  cursor (and after where the subscription began) was handed over, or passed over because the owner read for it was not its
  source. A reservation seen without its event breaks this: \<open>reserved_event_is_lost\<close> above.\<close>

theorem broker_passes_nothing_unhandled:
  assumes "mesh_ready st" and "polite_run (new_broker enabled pollms maxread st) es" and "Reserve \<notin> set es"
    and s: "s = run step (new_broker enabled pollms maxread st) es"
    and x: "x \<in> set (listing (b_mesh s))" "own_subscription x = Some sub" and k: "jm_get (b_known s) (s_id sub) = Some (src, evs, base)"
    and m: "m \<in> set (st_events (b_mesh s))" "event_of_mesh m = Some ev" "candidate sub ev" "base < ev_seq m" "ev_seq m \<le> cursor_of s sub"
  shows "ev \<in> set (deliveries s (s_id sub)) \<or> (\<exists>p. (s_id sub, ev, p) \<in> set (b_skipped s) \<and> \<not> owns_source ev p)"
proof -
  have b: "base_ok s" using broker_run_ok [OF new_broker_ok [OF assms(1)] assms(2)] s by (simp add: broker_ok_def)
  have "\<not> b_torn s" using assms(3) by (simp add: s run_torn) (simp add: new_broker_def)
  moreover have f: "safe s sub" using b x by (simp add: base_ok_def safe_entries_def)
  then have "wanted s (s_id sub) m ev" using m k by (auto simp: wanted_def candidate_def safe_def fits_def)
  moreover have "passed s (s_id sub) (cursor_of s sub)" using cursor_passed_any [OF b] f by (simp add: safe_def)
  ultimately have "handled s (s_id sub) ev" using m by (simp add: passed_def)
  then show ?thesis
    unfolding handled_def
  proof (elim disjE exE)
    assume "(s_id sub, ev) \<in> set (b_log s)"
    then show ?thesis by (force simp: deliveries_def)
  next
    fix p assume p: "(s_id sub, ev, p) \<in> set (b_skipped s)"
    have "\<forall>p \<in> set (b_skipped s). \<not> owns_source (fst (snd p)) (snd (snd p))" using b by (simp add: base_ok_def log_ok_def)
    with p have "\<not> owns_source ev p" by fastforce
    with p show ?thesis by blast
  qed
qed

theorem broker_passes_nothing_unhandled_witness:
  "\<exists>s sub ev. s = run step demo_broker retry_run \<and> event_of_mesh demo_event = Some ev \<and> ev_seq demo_event \<le> cursor_of s sub
     \<and> (ev \<in> set (deliveries s (s_id sub)) \<or> (\<exists>p. (s_id sub, ev, p) \<in> set (b_skipped s) \<and> \<not> owns_source ev p))"
proof -
  define s where "s = run step demo_broker retry_run"
  note f = retry_run_facts [unfolded Let_def, folded s_def]
  note l = f [THEN conjunct1] and k = f [THEN conjunct2, THEN conjunct1] and m = f [THEN conjunct2, THEN conjunct2, THEN conjunct1]
  note q = f [THEN conjunct2, THEN conjunct2, THEN conjunct2, THEN conjunct1]
  note u = f [THEN conjunct2, THEN conjunct2, THEN conjunct2, THEN conjunct2, THEN conjunct1]
  have r: "Reserve \<notin> set retry_run" by (simp add: retry_run_def demo_go_def)
  from l have x: "\<lparr>n_key = subscription_key ''a'', n_value = value_of_subscription done_sub, n_version = 3\<rparr> \<in> set (listing (b_mesh s))" by simp
  from broker_passes_nothing_unhandled [OF demo_ready retry_run_polite [unfolded demo_broker_def] r s_def [unfolded demo_broker_def] x done_sub_own k m demo_event_meant done_sub_candidate q u] demo_event_meant u s_def
  show ?thesis by blast
qed

text \<open>While a release receipt is available, no drain runs and every delivery lies at or before the cursor the mesh holds.\<close>

theorem release_receipt_attests:
  assumes "mesh_ready st" and "polite_run (new_broker enabled pollms maxread st) es" and s: "s = run step (new_broker enabled pollms maxread st) es"
    and r: "release_receipt s = Some receipt" and x: "x \<in> set (listing (b_mesh s))" "own_subscription x = Some sub"
    and d: "ev \<in> set (deliveries s (s_id sub))"
  shows "\<not> polling s \<and> gated s \<and> x \<in># fst receipt \<and> le_seq ev \<le> s_after sub"
proof -
  have b: "base_ok s" using broker_run_ok [OF new_broker_ok [OF assms(1)] assms(2)] s by (simp add: broker_ok_def)
  have k: "b_delivered s = []" "\<not> polling s" "b_paused s" "release_state s = Some receipt"
    using r by (auto simp: release_receipt_def split: option.splits if_splits)
  then have "x \<in># fst receipt" using x by (auto simp: release_state_def split: if_splits)
  moreover have "safe s sub" using b x by (simp add: base_ok_def safe_entries_def)
  then have "covers s (s_id sub) (s_after sub)" using k by (simp add: safe_def jm_has_def)
  ultimately show ?thesis using k d by (auto simp: gated_def covers_def deliveries_def)
qed

theorem release_receipt_attests_witness:
  "\<exists>s r. s = run step demo_broker release_run \<and> release_receipt s = Some r \<and> \<not> polling s
     \<and> le_seq (event_meant demo_request ''e1'' 6 8) \<le> s_after done_sub"
proof -
  define s where "s = run step demo_broker release_run"
  note f = release_run_facts [unfolded Let_def, folded s_def]
  note l = f [THEN conjunct2, THEN conjunct1] and d = f [THEN conjunct2, THEN conjunct2]
  obtain r where r: "release_receipt s = Some r" using f [THEN conjunct1] by blast
  from l have x: "\<lparr>n_key = subscription_key ''a'', n_value = value_of_subscription done_sub, n_version = 2\<rparr> \<in> set (listing (b_mesh s))" by simp
  from release_receipt_attests [OF demo_ready release_run_polite [unfolded demo_broker_def] s_def [unfolded demo_broker_def] r x done_sub_own d] r s_def
  show ?thesis by blast
qed

text \<open>C30: While nothing gates the broker, work left behind (a wake not served, a receipt not confirmed) always has a carrier: a drain that
  runs, a scheduled poll or a retry timer.\<close>

theorem work_left_has_carrier:
  assumes "list_all ungated es" and "s = run step (new_broker True pollms maxread st) es" and "b_dirty s \<or> b_delivered s \<noteq> []"
  shows "b_loop s \<noteq> Idle \<or> (b_dirty s \<and> (b_scheduled s \<or> b_retry s \<noteq> None))"
proof -
  have "carried (new_broker True pollms maxread st)" by (simp add: carried_def gated_def work_left_def new_broker_def)
  from work.inv_run [OF this, of es] have "carried s" using assms(1,2) ungated_run by simp
  then show ?thesis using assms(3) by (auto simp: carried_def work_left_def)
qed

theorem work_left_has_carrier_witness:
  "\<exists>s. s = run step demo_broker (take 12 retry_run) \<and> b_delivered s \<noteq> [] \<and> b_loop s = Idle \<and> b_dirty s \<and> b_retry s \<noteq> None"
proof -
  define s where "s = run step demo_broker (take 12 retry_run)"
  have u: "list_all ungated (take 12 retry_run)" by code_simp
  have "b_delivered s \<noteq> [] \<and> b_loop s = Idle \<and> \<not> b_scheduled s" unfolding s_def by code_simp
  then have d: "b_delivered s \<noteq> []" "b_loop s = Idle" "\<not> b_scheduled s" by blast+
  from work_left_has_carrier [OF u s_def [unfolded demo_broker_def]] d have "b_dirty s \<and> b_retry s \<noteq> None" by simp
  with d s_def show ?thesis by blast
qed

end
