(* ===== verification/BrokerEnds.thy ===== *)
theory BrokerEnds imports BrokerRuns begin

text \<open>
  Every drain of the lifecycle broker ends: while no event is appended, each step of a drain (a segment of its code, the commit
  of a write it waits for, the end of a delivery) brings down a measure that starts below a product of the subscriptions and the
  retained events, whatever the handler, the storage and the gates do.
\<close>

section \<open>The measure\<close>

definition ahead :: "broker \<Rightarrow> rat \<Rightarrow> nat" where
  "ahead s q = length (filter (\<lambda>e. q < ev_seq e) (st_events (b_mesh s)))"

text \<open>The events a page still has to give, and those after it.\<close>

definition page_left :: "broker \<Rightarrow> rat \<Rightarrow> mesh_event list \<Rightarrow> nat" where
  "page_left s q evs = length evs + ahead s (if evs = [] then q else ev_seq (last evs))"

definition job_cursor :: "pending \<Rightarrow> rat" where
  "job_cursor w = (case job_of w of Save e sub _ \<Rightarrow> s_after sub | Retire e sub _ \<Rightarrow> s_after sub)"

definition waiting :: "pending \<Rightarrow> nat" where
  "waiting w = (case w of Asked _ \<Rightarrow> 1 | Answered _ _ \<Rightarrow> 0)"

definition stage_left :: "broker \<Rightarrow> stage \<Rightarrow> nat" where
  "stage_left s st = (case st of Head \<Rightarrow> 0 | Confirm i w \<Rightarrow> 1 + waiting w
   | Page e sub \<Rightarrow> 16 * ahead s (cursor_of s sub) + 3
   | Scan f \<Rightarrow> 16 * page_left s (f_cursor f) (f_events f) + (if f_events f = [] then 9 else 2)
   | Hand f ev \<Rightarrow> 16 * (page_left s (le_seq ev) (f_events f) + 1) + 1
   | Receipt f w \<Rightarrow> 16 * page_left s (f_cursor f) (f_events f) + 10 + waiting w
   | Store_last i w \<Rightarrow> 1 + waiting w
   | Store_page f w \<Rightarrow> 16 * ahead s (job_cursor w) + 4 + waiting w)"

definition retained :: "broker \<Rightarrow> nat" where
  "retained s = length (st_events (b_mesh s))"

definition drain_left :: "broker \<Rightarrow> nat" where
  "drain_left s = (case b_loop s of Drain d st \<Rightarrow> length (d_rest d) * (16 * retained s + 5) + stage_left s st | _ \<Rightarrow> 0)"

text \<open>The steps of a drain.\<close>

definition drain_event :: "broker \<Rightarrow> event \<Rightarrow> bool" where
  "drain_event s e \<longleftrightarrow> (case b_loop s of Drain d st \<Rightarrow>
     (case st of Hand f ev \<Rightarrow> (case e of Deliver_end _ _ \<Rightarrow> True | _ \<Rightarrow> False)
      | _ \<Rightarrow> (case pending_of st of Some (Asked j) \<Rightarrow> (case e of Drain_commit _ \<Rightarrow> True | _ \<Rightarrow> False)
              | _ \<Rightarrow> (case e of Go _ \<Rightarrow> True | _ \<Rightarrow> False)))
   | _ \<Rightarrow> False)"

fun drain_run :: "broker \<Rightarrow> event list \<Rightarrow> bool" where
  "drain_run s [] = True"
| "drain_run s (e # es) = (drain_event s e \<and> drain_run (step s e) es)"

section \<open>Every step brings it down\<close>

lemma ahead_length_mono: "(\<And>x. P x \<Longrightarrow> Q x) \<Longrightarrow> length (filter P xs) \<le> length (filter Q xs)"
  by (induction xs) auto

lemma ahead_mono: "q \<le> q' \<Longrightarrow> ahead s q' \<le> ahead s q"
  unfolding ahead_def by (rule ahead_length_mono) simp

lemma ahead_retained: "ahead s q \<le> retained s"
  by (simp add: ahead_def retained_def)

definition same_events :: "broker \<Rightarrow> broker \<Rightarrow> bool" where
  "same_events s t \<longleftrightarrow> st_events (b_mesh t) = st_events (b_mesh s)"

lemma same_events_simps [simp]: "same_events s s" "same_events s (t\<lparr>b_loop := l\<rparr>) = same_events s t" "same_events s (t\<lparr>b_dirty := x\<rparr>) = same_events s t"
  "same_events s (t\<lparr>b_failed := x\<rparr>) = same_events s t" "same_events s (t\<lparr>b_unsaved := u\<rparr>) = same_events s t"
  "same_events s (leave d t) = same_events s t" "same_events s (forget_unsaved i t) = same_events s t"
  by (simp_all add: same_events_def leave_def forget_unsaved_def)

lemma same_events_counts: "same_events s t \<Longrightarrow> ahead t = ahead s \<and> page_left t = page_left s \<and> retained t = retained s"
  by (intro conjI ext) (simp_all add: same_events_def ahead_def page_left_def retained_def)

text \<open>The next state is out of the drain, or lower.\<close>

definition lower_than :: "broker \<Rightarrow> nat \<Rightarrow> broker \<Rightarrow> bool" where
  "lower_than s n t \<longleftrightarrow> same_events s t \<and> (case b_loop t of Drain d st \<Rightarrow> length (d_rest d) * (16 * retained s + 5) + stage_left t st < n | _ \<Rightarrow> True)"

lemma lower_out: "same_events s t \<Longrightarrow> lower_than s n (t\<lparr>b_loop := Ending out\<rparr>)"
  by (simp add: lower_than_def)

lemma lower_leave: "same_events s t \<Longrightarrow> length (d_rest d) * (16 * retained s + 5) < n \<Longrightarrow> lower_than s n (leave d t)"
  by (simp add: lower_than_def leave_def stage_left_def)

lemma stage_left_cong: "same_events s t \<Longrightarrow> b_unsaved t = b_unsaved s \<Longrightarrow> stage_left t st = stage_left s st"
  using same_events_counts [of s t] by (cases st) (simp_all add: stage_left_def cursor_of_def)

lemma stage_left_flags [simp]: "stage_left (t\<lparr>b_loop := l\<rparr>) st = stage_left t st" "stage_left (t\<lparr>b_dirty := x\<rparr>) st = stage_left t st"
  "stage_left (t\<lparr>b_failed := x\<rparr>) st = stage_left t st"
  by (rule stage_left_cong; simp add: same_events_def)+

lemma lower_in: "same_events s t \<Longrightarrow> length (d_rest d) * (16 * retained s + 5) + stage_left t st < n \<Longrightarrow> lower_than s n (t\<lparr>b_loop := Drain d st\<rparr>)"
  by (simp add: lower_than_def)

lemma lower_contain: "(\<And>t. same_events s t \<Longrightarrow> lower_than s n (k t)) \<Longrightarrow> lower_than s n (contain b k s)"
  by (simp add: contain_def lower_out)

text \<open>The loop over subscriptions.\<close>

lemma head_lower: "lower_than s (length (d_rest d) * (16 * retained s + 5) + (if d_rest d = [] then 1 else 0)) (go_head a d s)"
proof (cases "d_rest d")
  case Nil
  then show ?thesis by (simp add: go_head_def lower_out)
next
  case (Cons e es)
  have n: "ahead s q \<le> retained s" for q by (rule ahead_retained)
  have r: "length es * (16 * retained s + 5) + k < length (d_rest d) * (16 * retained s + 5)" if "k < 16 * retained s + 5" for k
    using Cons that by simp
  have i: "lower_than s (length (d_rest d) * (16 * retained s + 5)) (t\<lparr>b_loop := Drain d' st\<rparr>)"
    if "same_events s t" "d_rest d' = es" "stage_left t st < 16 * retained s + 5" for t d' st
    using lower_in [OF that(1), of d' st] r [OF that(3)] that(2) by simp
  have v: "stage_left s Head < 16 * retained s + 5" "stage_left s (Confirm x (Asked j)) < 16 * retained s + 5"
    "stage_left s (Page e sub) < 16 * retained s + 5" for x j sub
    using n [of "cursor_of s sub"] by (simp_all add: stage_left_def waiting_def)
  have t: "lower_than s (length (d_rest d) * (16 * retained s + 5)) (go_target a d' e sub s)" if "d_rest d' = es" for d' sub
    using that v by (auto simp: go_target_def lower_out intro!: i split: option.split)
  have g: "lower_than s (length (d_rest d) * (16 * retained s + 5)) (go_entry a d' e sub s)" if "d_rest d' = es" for d' sub
    using that v t by (auto simp: go_entry_def Let_def intro!: i split: confirm_ask.split)
  have h: "go_head a d s = (if b_lost s then s\<lparr>b_dirty := True, b_loop := Ending Done\<rparr>
       else (case own_subscription e of None \<Rightarrow> s\<lparr>b_loop := Drain (d\<lparr>d_rest := es\<rparr>) Head\<rparr>
         | Some sub \<Rightarrow> go_entry a (d\<lparr>d_rest := es, d_listed := d_listed d @ [s_id sub]\<rparr>) e sub s))"
    by (simp add: go_head_def Cons)
  have "lower_than s (length (d_rest d) * (16 * retained s + 5)) (go_head a d s)"
    unfolding h using g v by (auto simp: lower_out intro!: i split: option.split)
  with Cons show ?thesis by simp
qed

text \<open>A page.\<close>

lemma read_page_left:
  assumes e: "events_ok (b_mesh s)" and n: "read_after (b_mesh s) q n \<noteq> []"
  shows "page_left s q (read_after (b_mesh s) q n) \<le> ahead s q"
proof -
  let ?f = "filter (\<lambda>e. q < ev_seq e) (st_events (b_mesh s))" and ?p = "read_after (b_mesh s) q n"
  have p: "?p = take n ?f" by (simp add: read_after_def)
  have s: "sorted_wrt (\<lambda>a b. ev_seq a < ev_seq b) (take n ?f @ drop n ?f)" using e by (simp add: events_ok_def sorted_wrt_filter)
  have l: "last ?p \<in> set (take n ?f)" using n p last_in_set by metis
  have q: "q < ev_seq (last ?p)" using l by (auto dest: in_set_takeD)
  have "filter (\<lambda>e. ev_seq (last ?p) < ev_seq e) (take n ?f) = []"
    unfolding filter_empty_conv
  proof
    fix x assume x: "x \<in> set (take n ?f)"
    have "sorted_wrt (\<lambda>a b. ev_seq a < ev_seq b) (take n ?f)" using s unfolding sorted_wrt_append by blast
    then have "sorted_wrt (\<lambda>a b. ev_seq a < ev_seq b) (butlast (take n ?f) @ [last (take n ?f)])" using n p by simp
    moreover have "x \<in> set (butlast (take n ?f)) \<or> x = last (take n ?f)" using x n p by (metis append_butlast_last_id rotate1.simps(2) set_ConsD set_rotate1)
    ultimately show "\<not> ev_seq (last ?p) < ev_seq x" unfolding sorted_wrt_append p by fastforce
  qed
  moreover have "ahead s (ev_seq (last ?p)) = length (filter (\<lambda>e. ev_seq (last ?p) < ev_seq e) ?f)"
    using q by (simp add: ahead_def) (metis (mono_tags, lifting) filter_cong less_trans)
  moreover have "filter (\<lambda>e. ev_seq (last ?p) < ev_seq e) ?f = filter (\<lambda>e. ev_seq (last ?p) < ev_seq e) (take n ?f) @ filter (\<lambda>e. ev_seq (last ?p) < ev_seq e) (drop n ?f)"
    by (metis append_take_drop_id filter_append)
  ultimately have "ahead s (ev_seq (last ?p)) \<le> length (drop n ?f)" using length_filter_le by (metis append_Nil)
  moreover have "ahead s q = length (take n ?f) + length (drop n ?f)" by (simp add: ahead_def)
  ultimately show ?thesis using n p by (simp add: page_left_def)
qed

definition level :: "broker \<Rightarrow> pass \<Rightarrow> stage \<Rightarrow> nat" where
  "level s d st = length (d_rest d) * (16 * retained s + 5) + stage_left s st"

lemma level_leave: "same_events s t \<Longrightarrow> 0 < stage_left s st \<Longrightarrow> lower_than s (level s d st) (leave d t)"
  by (rule lower_leave) (simp_all add: level_def)

lemma level_in: "same_events s t \<Longrightarrow> stage_left t st' < stage_left s st \<Longrightarrow> lower_than s (level s d st) (t\<lparr>b_loop := Drain d st'\<rparr>)"
  by (rule lower_in) (simp_all add: level_def)

lemma keep_unsaved_cursor:
  assumes "keep_unsaved sub c s = Some t"
  shows "same_events s t" and "c \<le> cursor_of t sub"
  using assms by (auto simp: keep_unsaved_def same_events_def cursor_of_def jm_get_set split: if_splits)

lemma page_lower:
  assumes e: "events_ok (b_mesh s)"
  shows "lower_than s (level s d (Page e' sub)) (go_page a d e' sub s)"
proof -
  let ?q = "cursor_of s sub" and ?evs = "read_after (b_mesh s) (cursor_of s sub) (b_page s)" and ?v = "stage_left s (Page e' sub)"
  have v: "?v = 16 * ahead s ?q + 3" by (simp add: stage_left_def)
  have lv: "lower_than s (level s d (Page e' sub)) (leave d t)" if "same_events s t" for t
    by (rule level_leave [OF that]) (simp add: v)
  have st: "lower_than s (level s d (Page e' sub)) (s\<lparr>b_loop := Drain d (Store_last i (Asked j))\<rparr>)" for i j
    by (rule level_in) (simp_all add: v, simp add: stage_left_def waiting_def)
  have sc: "lower_than s (level s d (Page e' sub)) (s\<lparr>b_loop := Drain d (Scan f)\<rparr>)"
    if "?evs \<noteq> []" "f_events f = ?evs" "f_cursor f = ?q" for f
    by (rule level_in) (use that read_page_left [OF e that(1)] in \<open>simp_all add: v\<close>, simp add: stage_left_def)
  have k: "keep_unsaved sub l s = Some t \<Longrightarrow> same_events s t" for l t by (rule keep_unsaved_cursor(1))
  show ?thesis using lv st sc k by (auto simp: go_page_def Let_def split: option.split)
qed

lemma next_page_lower:
  assumes "same_events s t" and "16 * ahead t (cursor_of t (f_sub f)) + 3 < stage_left s st"
  shows "lower_than s (level s d st) (next_page d f t)"
  using level_leave [OF assms(1)] level_in [OF assms(1), of "Page (f_entry f) (f_sub f)"] assms(2)
  by (simp add: next_page_def stage_left_def [of t])

lemma scan_lower: "lower_than s (level s d (Scan f)) (go_scan a d f s)"
proof -
  let ?v = "stage_left s (Scan f)"
  have v0: "0 < ?v" by (simp add: stage_left_def)
  have lv: "lower_than s (level s d (Scan f)) (leave d t)" if "same_events s t" for t
    by (rule level_leave [OF that v0])
  show ?thesis
  proof (cases "f_events f")
    case Nil
    have v: "?v = 16 * ahead s (f_cursor f) + 9" by (simp add: stage_left_def page_left_def Nil)
    have 1: "lower_than s (level s d (Scan f)) (next_page d f t)" if "keep_unsaved (f_sub f) (f_cursor f) s = Some t" for t
    proof (rule next_page_lower [OF keep_unsaved_cursor(1) [OF that]])
      have "ahead t (cursor_of t (f_sub f)) \<le> ahead t (f_cursor f)" by (rule ahead_mono [OF keep_unsaved_cursor(2) [OF that]])
      then show "16 * ahead t (cursor_of t (f_sub f)) + 3 < ?v" using same_events_counts [OF keep_unsaved_cursor(1) [OF that]] v by simp
    qed
    have 2: "lower_than s (level s d (Scan f)) (next_page d f s)" if "f_cursor f = s_after (f_sub f)"
    proof (rule next_page_lower)
      have "ahead s (cursor_of s (f_sub f)) \<le> ahead s (f_cursor f)" by (rule ahead_mono) (simp add: cursor_of_def that)
      then show "16 * ahead s (cursor_of s (f_sub f)) + 3 < ?v" using v by simp
    qed simp
    have 3: "lower_than s (level s d (Scan f)) (s\<lparr>b_loop := Drain d (Store_page f (Asked (Save (f_entry f) (page_sub a f) Held)))\<rparr>)"
      by (rule level_in) (simp_all add: v, simp add: stage_left_def job_cursor_def job_of_def waiting_def page_sub_def)
    show ?thesis using 1 2 3 lv by (auto simp: go_scan_def Nil page_end_def split: option.split if_splits)
  next
    case (Cons e es)
    have v: "?v = 16 * page_left s (f_cursor f) (e # es) + 2" by (simp add: stage_left_def Cons)
    have p: "page_left s q (e # es) = Suc (page_left s (ev_seq e) es)" for q by (simp add: page_left_def)
    have sc: "lower_than s (level s d (Scan f)) (t\<lparr>b_loop := Drain d (Scan g)\<rparr>)"
      if "same_events s t" "f_events g = es" "ev_seq e \<le> f_cursor g" for t g
    proof (rule level_in [OF that(1)])
      have "page_left s (f_cursor g) es \<le> page_left s (ev_seq e) es"
        using ahead_mono [OF that(3)] by (simp add: page_left_def)
      then have "16 * page_left s (f_cursor g) es + 9 < ?v" by (simp add: v p)
      moreover have "stage_left t (Scan g) \<le> 16 * page_left s (f_cursor g) es + 9"
        using same_events_counts [OF that(1)] that(2) by (auto simp: stage_left_def)
      ultimately show "stage_left t (Scan g) < ?v" by (rule le_less_trans [rotated])
    qed
    have ha: "lower_than s (level s d (Scan f)) (s\<lparr>b_loop := Drain d (Hand (f\<lparr>f_events := es\<rparr>) ev)\<rparr>)" if "event_of_mesh e = Some ev" for ev
      by (rule level_in) (simp_all add: v p, simp add: stage_left_def event_of_mesh_seq [OF that])
    have sk: "same_events s (s\<lparr>b_skipped := k\<rparr>)" for k by (simp add: same_events_def)
    have sc': "lower_than s (level s d (Scan f)) (s\<lparr>b_loop := Drain d (Scan g), b_skipped := k\<rparr>)"
      if "f_events g = es" "ev_seq e \<le> f_cursor g" for g k
    proof -
      have "s\<lparr>b_loop := Drain d (Scan g), b_skipped := k\<rparr> = s\<lparr>b_skipped := k\<rparr>\<lparr>b_loop := Drain d (Scan g)\<rparr>" by simp
      moreover have "lower_than s (level s d (Scan f)) (s\<lparr>b_skipped := k\<rparr>\<lparr>b_loop := Drain d (Scan g)\<rparr>)" by (rule sc [OF sk that])
      ultimately show ?thesis by (simp only:)
    qed
    show ?thesis using lv sc sc' ha event_of_mesh_seq by (auto simp: go_scan_def Cons Let_def split: option.split)
  qed
qed

text \<open>The end of a delivery, and what follows a write.\<close>

lemma accepted_lower: "lower_than s (level s d (Hand f ev)) (accepted now d f ev s)"
proof -
  let ?v = "stage_left s (Hand f ev)"
  have v: "?v = 16 * (page_left s (le_seq ev) (f_events f) + 1) + 1" by (simp add: stage_left_def)
  have lv: "lower_than s (level s d (Hand f ev)) (leave d t)" if "same_events s t" for t by (rule level_leave [OF that]) (simp add: v)
  have rc: "lower_than s (level s d (Hand f ev)) (t\<lparr>b_loop := Drain d (Receipt g (Asked j))\<rparr>)"
    if "same_events s t" "f_events g = f_events f" "f_cursor g = le_seq ev" for t g j
    by (rule level_in [OF that(1)]) (use same_events_counts [OF that(1)] that(2,3) in \<open>simp add: v stage_left_def [of t] waiting_def\<close>)
  have se: "same_events s (s\<lparr>b_log := x, b_delivered := y\<rparr>)" for x y by (simp add: same_events_def)
  show ?thesis using lv rc se by (auto simp: accepted_def Let_def split: confirm_ask.split)
qed

lemma rejected_lower: "lower_than s (level s d (Hand f ev)) (rejected now msg d f s)"
proof -
  have "stage_left s (Store_last i (Asked j)) < stage_left s (Hand f ev)" for i j by (simp add: stage_left_def waiting_def)
  moreover have "0 < stage_left s (Hand f ev)" by (simp add: stage_left_def)
  ultimately show ?thesis by (auto simp: rejected_def Let_def intro!: level_leave level_in)
qed

lemma confirm_same: "confirm_end g i j v s = Some (r, t) \<Longrightarrow> same_events s t"
  using confirm_end_settled [of g i j v s r t] by (simp add: settled_def same_events_def)

lemma unguarded_end: "\<exists>e t. confirm_end Unguarded i j v s = Some (e, t)"
  by (cases j) (auto simp: confirm_end_def guard_ok_def)

lemma answered_lower:
  assumes o: "broker_ok s" and l: "b_loop s = Drain d st" and w: "pending_of st = Some (Answered j r)"
  shows "lower_than s (level s d st) (go_loop a s)"
proof -
  have p: "0 < stage_left s st" using w by (cases st) (simp_all add: pending_of_def stage_left_def)
  have lv: "lower_than s (level s d st) (leave d t)" if "same_events s t" for t by (rule level_leave [OF that p])
  have c: "lower_than s (level s d st) (contain b (leave d) s)" for b by (rule lower_contain) (rule lv)
  have h: "lower_than s (level s d st) (t\<lparr>b_loop := Drain d Head\<rparr>)" if "same_events s t" for t
    by (rule level_in [OF that]) (use p in \<open>simp add: stage_left_def [of t]\<close>)
  have ch: "lower_than s (level s d st) (contain b (\<lambda>t. t\<lparr>b_loop := Drain d Head\<rparr>) s)" for b by (rule lower_contain) (rule h)
  show ?thesis
  proof (cases st)
    case (Confirm i x)
    then have x: "go_loop a s = go_confirm d i (Answered j r) s" using w l by (simp add: go_loop_def pending_of_def)
    obtain e t where t: "confirm_end Unguarded i j v s = Some (e v, t v)" for v using unguarded_end [of i j _ s] by metis
    show ?thesis using h [OF confirm_same [OF t]] ch unfolding x by (cases r) (simp_all add: go_confirm_def t)
  next
    case (Receipt f x)
    then have x: "go_loop a s = go_receipt d f (Answered j r) s" and y: "st = Receipt f (Answered j r)" using w l by (simp_all add: go_loop_def pending_of_def)
    obtain e t where t: "confirm_end Unguarded (s_id (f_sub f)) j v s = Some (e v, t v)" for v using unguarded_end [of "s_id (f_sub f)" j _ s] by metis
    have sc: "lower_than s (level s d st) (u\<lparr>b_loop := Drain d (Scan (f\<lparr>f_entry := z\<rparr>))\<rparr>)" if "same_events s u" for u z
      by (rule level_in [OF that]) (use same_events_counts [OF that] y in \<open>simp add: stage_left_def waiting_def\<close>)
    show ?thesis using c lv [OF confirm_same [OF t]] sc [OF confirm_same [OF t]] unfolding x
      by (cases r) (auto simp: go_receipt_def t split: option.split)
  next
    case (Store_last i x)
    then have x: "go_loop a s = go_store_last d i (Answered j r) s" using w l by (simp add: go_loop_def pending_of_def)
    show ?thesis using c lv unfolding x by (cases r) (simp_all add: go_store_last_def)
  next
    case (Store_page f x)
    then have x: "go_loop a s = go_store_page d f (Answered j r) s" and y: "st = Store_page f (Answered j r)" using w l by (simp_all add: go_loop_def pending_of_def)
    have "store_ok s (s_id (f_sub f)) (Answered j r)" using o l y by (simp add: broker_ok_def stage_ok_def)
    then obtain e sub g where j: "j = Save e sub g" by (cases j) (simp_all add: store_ok_def job_of_def)
    have n: "lower_than s (level s d st) (next_page d g (forget_unsaved i s))" if "f_sub g = sub" for g i
    proof (rule next_page_lower)
      let ?t = "forget_unsaved i s"
      have "ahead ?t (cursor_of ?t sub) \<le> ahead ?t (s_after sub)" by (rule ahead_mono) (simp add: cursor_of_def)
      then show "16 * ahead ?t (cursor_of ?t (f_sub g)) + 3 < stage_left s st"
        using same_events_counts [of s ?t] that y by (simp add: stage_left_def job_cursor_def job_of_def j waiting_def)
    qed simp
    show ?thesis using c n unfolding x by (cases r) (simp_all add: go_store_page_def j)
  qed (use w in \<open>simp_all add: pending_of_def\<close>)
qed

lemma answer_events: "same_events s (snd (answer h w s))"
proof -
  have "same_events s (snd (perform j s))" for j
    by (cases j) (auto simp: perform_def same_events_def st_put_def st_delete_def split: option.splits if_splits)
  then show ?thesis by (cases w; cases h) (simp_all add: answer_def)
qed

lemma answer_asked: "\<exists>r. fst (answer h (Asked j) s) = Answered j r"
  by (cases h) (simp_all add: answer_def)

lemma commit_lower:
  assumes l: "b_loop s = Drain d st" and w: "pending_of st = Some (Asked j)"
  shows "lower_than s (level s d st) (drain_commit h s)"
proof -
  obtain r where r: "fst (answer h (Asked j) s) = Answered j r" using answer_asked by blast
  have "lower_than s (level s d st) ((snd (answer h (Asked j) s))\<lparr>b_loop := Drain d (with_pending (Answered j r) st)\<rparr>)"
    by (rule level_in [OF answer_events]) (use w same_events_counts [OF answer_events] in
      \<open>cases st; simp add: pending_of_def with_pending_def stage_left_def waiting_def job_cursor_def job_of_def\<close>)
  then show ?thesis by (simp add: drain_commit_def l w r)
qed

lemma drain_step_lower:
  assumes o: "broker_ok s" and e: "drain_event s e"
  shows "same_events s (step s e) \<and> (polling (step s e) \<longrightarrow> drain_left (step s e) < drain_left s + (if \<exists>d. b_loop s = Drain d Head \<and> d_rest d = [] then 1 else 0))"
proof -
  obtain d st where l: "b_loop s = Drain d st" using e by (auto simp: drain_event_def split: loop.splits)
  have lo: ?thesis if "lower_than s n (step s e)" "n = drain_left s + (if \<exists>d. b_loop s = Drain d Head \<and> d_rest d = [] then 1 else 0)" for n
    using that same_events_counts [of s "step s e"] by (auto simp: lower_than_def drain_left_def polling_def split: loop.splits)
  have dl: "drain_left s = level s d st" by (simp add: drain_left_def level_def l)
  have ev: "events_ok (b_mesh s)" by (rule events_of_ok [OF o])
  have pend: ?thesis if w: "pending_of st = Some w" for w
  proof -
    have nh: "\<not> (\<exists>d. b_loop s = Drain d Head \<and> d_rest d = [])" using l w by (auto simp: pending_of_def)
    have "lower_than s (level s d st) (step s e)"
    proof (cases w)
      case (Asked j)
      then obtain h where "e = Drain_commit h" using e l w by (auto simp: drain_event_def pending_of_def split: event.splits stage.splits)
      then show ?thesis using commit_lower [OF l] w Asked by simp
    next
      case (Answered j r)
      then obtain a where "e = Go a" using e l w by (auto simp: drain_event_def pending_of_def split: event.splits stage.splits)
      then show ?thesis using answered_lower [OF o l] w Answered by simp
    qed
    then show ?thesis using lo [unfolded if_not_P [OF nh]] dl unfolding if_not_P [OF nh] by simp
  qed
  show ?thesis
  proof (cases st)
    case Head
    then obtain a where "e = Go a" using e l by (auto simp: drain_event_def pending_of_def split: event.splits)
    then show ?thesis using lo head_lower [of s d a] by (simp add: go_loop_def l Head dl level_def stage_left_def)
  next
    case (Page x sub)
    then obtain a where "e = Go a" using e l by (auto simp: drain_event_def pending_of_def split: event.splits)
    then show ?thesis using lo page_lower [OF ev, of d x sub a] by (simp add: go_loop_def l Page dl)
  next
    case (Scan f)
    then obtain a where "e = Go a" using e l by (auto simp: drain_event_def pending_of_def split: event.splits)
    then show ?thesis using lo scan_lower [of s d f a] by (simp add: go_loop_def l Scan dl)
  next
    case (Hand f ev)
    then obtain now err where "e = Deliver_end now err" using e l by (auto simp: drain_event_def split: event.splits)
    then show ?thesis using lo accepted_lower [of s d f ev now] rejected_lower [of s d f ev now]
      by (cases err) (simp_all add: deliver_end_def l Hand dl)
  qed (use pend in \<open>simp_all add: pending_of_def\<close>)
qed

text \<open>The run of one drain.\<close>

lemma drain_polite: "drain_event s e \<Longrightarrow> polite s e"
  by (auto simp: drain_event_def polite_def split: event.splits loop.splits stage.splits option.splits pending.splits)

lemma drain_run_bound:
  "broker_ok s \<Longrightarrow> drain_run s es \<Longrightarrow> length es \<le> drain_left s + 1 \<and> retained (run step s es) = retained s"
proof (induction es arbitrary: s)
  case Nil
  then show ?case by simp
next
  case (Cons e es)
  have e: "drain_event s e" "drain_run (step s e) es" using Cons.prems by simp_all
  have o: "broker_ok (step s e)" by (rule broker_step_ok [OF Cons.prems(1) drain_polite [OF e(1)]])
  note d = drain_step_lower [OF Cons.prems(1) e(1)] and i = Cons.IH [OF o e(2)]
  have r: "retained (step s e) = retained s" using d same_events_counts by blast
  show ?case
  proof (cases "polling (step s e)")
    case False
    then have "es = []" using e(2) by (cases es) (auto simp: drain_event_def polling_def split: loop.splits)
    then show ?thesis using r by simp
  next
    case True
    show ?thesis
    proof (cases "\<exists>d. b_loop s = Drain d Head \<and> d_rest d = []")
      case True
      then obtain x where x: "b_loop s = Drain x Head" "d_rest x = []" by blast
      then obtain a where "e = Go a" using e(1) by (auto simp: drain_event_def pending_of_def split: event.splits)
      with x \<open>polling (step s e)\<close> show ?thesis by (simp add: go_loop_def go_head_def split: if_splits)
    next
      case False
      then have "drain_left (step s e) < drain_left s" using d [unfolded if_not_P [OF False]] True by simp
      with i r show ?thesis by simp
    qed
  qed
qed

lemma drain_goes_on: "polling s \<Longrightarrow> \<exists>e. drain_event s e"
proof -
  assume "polling s"
  then obtain d st where l: "b_loop s = Drain d st" by (auto simp: polling_def split: loop.splits)
  have "drain_event s (Deliver_end 0 None) \<or> drain_event s (Drain_commit Stored) \<or> drain_event s (Go undefined)"
    by (cases st) (auto simp: drain_event_def l pending_of_def split: pending.split)
  then show ?thesis by blast
qed

text \<open>C29: A drain ends: once it listed \<open>n\<close> subscriptions, and while no event is appended, it takes at most one step more than \<open>n\<close> times
  (sixteen for each retained event, and five), whatever the handler and the storage answer; and it never stops in between.\<close>

theorem drain_terminates:
  assumes "mesh_ready st" and "polite_run (new_broker enabled pollms maxread st) es" and s: "s = run step (new_broker enabled pollms maxread st) es"
    and l: "b_loop s = Drain d Head" and r: "drain_run s fs"
  shows "length fs \<le> length (d_rest d) * (16 * length (st_events (b_mesh s)) + 5) + 1
    \<and> (polling (run step s fs) \<longrightarrow> (\<exists>e. drain_event (run step s fs) e))"
proof -
  have "broker_ok s" using broker_run_ok [OF new_broker_ok [OF assms(1)] assms(2)] s by simp
  from drain_run_bound [OF this r] drain_goes_on show ?thesis by (simp add: drain_left_def l stage_left_def retained_def)
qed

theorem drain_terminates_witness:
  "\<exists>s d. s = run step demo_broker (take 4 retry_run) \<and> b_loop s = Drain d Head
     \<and> length (take 7 (drop 4 retry_run)) \<le> length (d_rest d) * (16 * length (st_events (b_mesh s)) + 5) + 1"
proof -
  define s where "s = run step demo_broker (take 4 retry_run)"
  have p: "polite_run demo_broker (take 4 retry_run)" by code_simp
  have "(case b_loop s of Drain d Head \<Rightarrow> True | _ \<Rightarrow> False) \<and> drain_run s (take 7 (drop 4 retry_run))" unfolding s_def by code_simp
  then obtain d where l: "b_loop s = Drain d Head" and r: "drain_run s (take 7 (drop 4 retry_run))"
    by (auto split: loop.splits stage.splits)
  from drain_terminates [OF demo_ready p [unfolded demo_broker_def] s_def [unfolded demo_broker_def] l r] l s_def show ?thesis by blast
qed

end
