(* ===== verification/Watch.thy ===== *)
theory Watch imports Prelude begin

text \<open>
  How the lifecycle broker notices that the mesh changed (\<^verbatim>\<open>src/src/lifecycle/broker.ts\<close>, \<open>#armWatch\<close>, \<open>#watchFailed\<close>) and
  the carrier that takes over when watching is exhausted (\<^verbatim>\<open>src/src/core/observation-watch.ts\<close>, class
  \<open>DegradedObservation\<close>): a file watcher; bounded attempts to arm it again; then a scan each minute. Whether arming succeeds is
  an argument. Warnings are left out.
\<close>

definition WATCH_REARM_BASE :: int where "WATCH_REARM_BASE = 1000"
definition WATCH_REARM_MAX :: int where "WATCH_REARM_MAX = 60000"
definition WATCH_REARM_ATTEMPTS :: nat where "WATCH_REARM_ATTEMPTS = 6"

text \<open>\<open>w_rearm\<close> is the delay of the re-arm timer while it is pending, \<open>w_scan\<close> the pending timer of the degraded carrier;
  \<open>w_wakes\<close> counts the wakes of the broker and is read by no step.\<close>

record watch =
  w_started :: bool
  w_closed :: bool
  w_armed :: bool
  w_rearm :: "int option"
  w_attempts :: nat
  w_degraded :: bool
  w_scan :: bool
  w_shut :: bool
  w_wakes :: nat

definition new_watch :: watch where
  "new_watch = \<lparr>w_started = False, w_closed = False, w_armed = False, w_rearm = None, w_attempts = 0, w_degraded = False, w_scan = False,
     w_shut = False, w_wakes = 0\<rparr>"

definition notify :: "watch \<Rightarrow> watch" where
  "notify w = w\<lparr>w_wakes := Suc (w_wakes w)\<rparr>"

text \<open>\<open>DegradedObservation\<close>: \<open>#schedule\<close>, \<open>enter\<close>.\<close>

definition schedule_scan :: "watch \<Rightarrow> watch" where
  "schedule_scan w = (if w_shut w \<or> \<not> w_degraded w \<or> w_scan w then w else w\<lparr>w_scan := True\<rparr>)"

definition enter_degraded :: "watch \<Rightarrow> watch" where
  "enter_degraded w = (if w_shut w \<or> w_degraded w then w else schedule_scan (w\<lparr>w_degraded := True\<rparr>))"

definition rearm_delay :: "nat \<Rightarrow> int" where
  "rearm_delay n = min WATCH_REARM_MAX (WATCH_REARM_BASE * 2 ^ n)"

definition watch_failed :: "watch \<Rightarrow> watch" where
  "watch_failed w0 = (let w = w0\<lparr>w_armed := False\<rparr> in
     if w_closed w \<or> w_degraded w then w
     else let w = notify w in
       if w_rearm w \<noteq> None then w
       else if WATCH_REARM_ATTEMPTS \<le> w_attempts w then enter_degraded w
       else w\<lparr>w_attempts := Suc (w_attempts w), w_rearm := Some (rearm_delay (w_attempts w))\<rparr>)"

definition arm_watch :: "bool \<Rightarrow> watch \<Rightarrow> watch" where
  "arm_watch success w = (if w_closed w \<or> w_armed w then w else if success then w\<lparr>w_armed := True\<rparr> else watch_failed w)"

definition rearm_fires :: "bool \<Rightarrow> watch \<Rightarrow> watch" where
  "rearm_fires success w = (if w_rearm w = None then w else
     let w = w\<lparr>w_rearm := None\<rparr> in if w_closed w then w
     else let w = arm_watch success w in if w_armed w then notify w else w)"

text \<open>The minute timer: arm first, then scan, then either stop or wait again.\<close>

definition scan_fires :: "bool \<Rightarrow> watch \<Rightarrow> watch" where
  "scan_fires success w = (if \<not> w_scan w then w else
     let w = w\<lparr>w_scan := False\<rparr> in if w_shut w then w
     else let w = arm_watch success w; restored = w_armed w;
         w = notify (if restored then w\<lparr>w_attempts := 0\<rparr> else w) in
       if restored then w\<lparr>w_degraded := False\<rparr> else schedule_scan w)"

definition watch_start :: "bool \<Rightarrow> watch \<Rightarrow> watch" where
  "watch_start success w = (if w_started w then w else
     notify (arm_watch success (w\<lparr>w_started := True, w_closed := False, w_shut := False\<rparr>)))"

definition watch_close :: "watch \<Rightarrow> watch" where
  "watch_close w = (if w_closed w then w
     else w\<lparr>w_closed := True, w_started := False, w_shut := True, w_degraded := False, w_scan := False, w_armed := False, w_rearm := None\<rparr>)"

text \<open>Notifications and errors come from an armed watcher only.\<close>

datatype watch_event = Watch_start bool | Notified | Watch_error | Rearm_fires bool | Scan_fires bool | Watch_close

fun watch_step :: "watch \<Rightarrow> watch_event \<Rightarrow> watch" where
  "watch_step w (Watch_start success) = watch_start success w"
| "watch_step w Notified = (if w_armed w then notify (w\<lparr>w_attempts := 0\<rparr>) else w)"
| "watch_step w Watch_error = (if w_armed w then watch_failed w else w)"
| "watch_step w (Rearm_fires success) = rearm_fires success w"
| "watch_step w (Scan_fires success) = scan_fires success w"
| "watch_step w Watch_close = watch_close w"

section \<open>One carrier\<close>

text \<open>A started broker has exactly one way to notice a change; a broker at rest has none.\<close>

definition watch_ok :: "watch \<Rightarrow> bool" where
  "watch_ok w \<longleftrightarrow> w_attempts w \<le> WATCH_REARM_ATTEMPTS \<and> w_scan w = w_degraded w \<and> (w_closed w \<longrightarrow> \<not> w_started w)
     \<and> (if w_started w then \<not> w_shut w \<and> ((w_armed w \<and> w_rearm w = None \<and> \<not> w_degraded w) \<or> (\<not> w_armed w \<and> w_rearm w \<noteq> None \<and> \<not> w_degraded w)
          \<or> (\<not> w_armed w \<and> w_rearm w = None \<and> w_degraded w))
        else \<not> w_armed w \<and> w_rearm w = None \<and> \<not> w_degraded w)
     \<and> (\<forall>d. w_rearm w = Some d \<longrightarrow> WATCH_REARM_BASE \<le> d \<and> d \<le> WATCH_REARM_MAX)"

lemma rearm_delay_bounds: "WATCH_REARM_BASE \<le> rearm_delay n \<and> rearm_delay n \<le> WATCH_REARM_MAX"
proof -
  have "(1::int) \<le> 2 ^ n" by simp
  then show ?thesis by (simp add: rearm_delay_def WATCH_REARM_BASE_def WATCH_REARM_MAX_def)
qed

lemmas watch_defs = watch_failed_def arm_watch_def notify_def enter_degraded_def schedule_scan_def Let_def

lemma watch_step_ok: "watch_ok w \<Longrightarrow> watch_ok (watch_step w e)"
  using rearm_delay_bounds
  by (cases e) (auto simp: watch_ok_def watch_start_def rearm_fires_def scan_fires_def watch_close_def watch_defs split: if_splits)

interpretation watch: machine_invariant watch_step watch_ok
  by unfold_locales (rule watch_step_ok)

lemma new_watch_ok: "watch_ok new_watch"
  by (simp add: watch_ok_def new_watch_def)

text \<open>Every failure of an armed watcher is followed by a scan at once.\<close>

lemma error_wakes: "watch_ok w \<Longrightarrow> w_armed w \<Longrightarrow> w_started w \<Longrightarrow> w_wakes (watch_step w Watch_error) = Suc (w_wakes w)"
  by (auto simp: watch_ok_def watch_defs split: if_splits)

theorem watch_has_one_carrier:
  assumes "w = run watch_step new_watch es" and "w_started w"
  shows "(w_armed w \<and> w_rearm w = None \<and> \<not> w_scan w) \<or> (\<not> w_armed w \<and> (\<exists>d. w_rearm w = Some d \<and> d \<le> WATCH_REARM_MAX) \<and> \<not> w_scan w)
    \<or> (\<not> w_armed w \<and> w_rearm w = None \<and> w_scan w)"
proof -
  have "watch_ok w" using watch.inv_run [OF new_watch_ok] assms(1) by simp
  then show ?thesis using assms(2) by (cases "w_rearm w") (auto simp: watch_ok_def split: if_splits)
qed

theorem watch_has_one_carrier_witness:
  "\<exists>w. w = run watch_step new_watch ([Watch_start True, Watch_error] @ replicate 6 (Rearm_fires False)) \<and> w_started w \<and> \<not> w_armed w \<and> w_rearm w = None \<and> w_scan w"
proof -
  define w where "w = run watch_step new_watch ([Watch_start True, Watch_error] @ replicate 6 (Rearm_fires False))"
  have "w_started w \<and> \<not> w_armed w \<and> w_rearm w = None" unfolding w_def by code_simp
  then have s: "w_started w" "\<not> w_armed w" "w_rearm w = None" by blast+
  from watch_has_one_carrier [OF w_def s(1)] s have "w_scan w" by simp
  with s w_def show ?thesis by blast
qed

end
