(* ===== verification/LockRecord.thy ===== *)
theory LockRecord imports Prelude begin

text \<open>
  The owner record of the mesh lock (\<^verbatim>\<open>#withLock\<close> and \<^verbatim>\<open>clearStaleLock\<close> of \<^verbatim>\<open>src/src/mesh/mesh-lock.ts\<close>) and
  the evidence that its writer is dead: the text a holder writes under each protocol, what a recoverer reads back from
  it, and the verdict on the writer's PID namespace (\<^verbatim>\<open>src/src/core/pid-namespace.ts\<close>) and incarnation
  (\<^verbatim>\<open>src/src/core/atomic-write.ts\<close>). Texts are character lists; \<open>Number\<close> is modelled on decimal texts, the only ones written.
\<close>

section \<open>Lines and decimals\<close>

fun split_on :: "char \<Rightarrow> string \<Rightarrow> string list" where
  "split_on c [] = [[]]"
| "split_on c (x # xs) = (if x = c then [] # split_on c xs
     else (case split_on c xs of [] \<Rightarrow> [[x]] | l # ls \<Rightarrow> (x # l) # ls))"

fun decimal_text :: "nat \<Rightarrow> string" where
  "decimal_text n = (if n < 10 then [char_of (48 + n)] else decimal_text (n div 10) @ [char_of (48 + n mod 10)])"

declare decimal_text.simps [simp del]

text \<open>The same by structural recursion, for evaluation: at most \<open>n\<close> digits.\<close>

primrec decimal_upto :: "nat \<Rightarrow> nat \<Rightarrow> string" where
  "decimal_upto 0 n = []"
| "decimal_upto (Suc k) n = (if n < 10 then [char_of (48 + n)] else decimal_upto k (n div 10) @ [char_of (48 + n mod 10)])"

lemma decimal_upto_enough: "n < k \<Longrightarrow> decimal_upto k n = decimal_text n"
proof (induction k arbitrary: n)
  case (Suc k)
  show ?case
  proof (cases "n < 10")
    case False
    then have "n div 10 < k" using Suc.prems by simp
    with Suc.IH False show ?thesis by (subst decimal_text.simps) simp
  qed (subst decimal_text.simps, simp)
qed simp

lemma decimal_text_code [code]: "decimal_text n = decimal_upto (Suc n) n"
  by (rule decimal_upto_enough [symmetric]) simp

definition is_digit :: "char \<Rightarrow> bool" where
  "is_digit c \<longleftrightarrow> 48 \<le> (of_char c :: nat) \<and> (of_char c :: nat) \<le> 57"

definition read_decimal :: "string \<Rightarrow> nat option" where
  "read_decimal s = (if s \<noteq> [] \<and> list_all is_digit s then Some (foldl (\<lambda>n c. 10 * n + (of_char c - 48)) 0 s) else None)"

abbreviation newline :: char where
  "newline \<equiv> CHR 0x0A"

definition max_safe :: nat where
  "max_safe = 9007199254740991"

text \<open>\<open>Number.isSafeInteger(pid) && pid > 0\<close>.\<close>

definition read_pid :: "string \<Rightarrow> nat option" where
  "read_pid s = (case read_decimal s of None \<Rightarrow> None | Some n \<Rightarrow> if 0 < n \<and> n \<le> max_safe then Some n else None)"

section \<open>Processes and attempts\<close>

text \<open>
  A process has a pid inside a PID namespace (\<open>p_host\<close>), a birth identity, and what it could read of the two itself.
\<close>

record lock_process =
  p_host :: nat
  p_pid :: nat
  p_birth :: string
  p_start :: "string option"
  p_ns :: "string option"

datatype lock_protocol = Protocol1 | Protocol2 | Protocol3

record lock_attempt =
  a_proc :: nat
  a_token :: string
  a_protocol :: lock_protocol
  a_created :: nat

definition owner_lines :: "lock_process \<Rightarrow> lock_attempt \<Rightarrow> string list" where
  "owner_lines p a = [a_token a, decimal_text (p_pid p), decimal_text (a_created a)] @
    (case a_protocol a of
       Protocol1 \<Rightarrow> []
     | Protocol2 \<Rightarrow> (case p_start p of None \<Rightarrow> [] | Some t \<Rightarrow> if t = [] then [] else [t])
     | Protocol3 \<Rightarrow> [case p_start p of None \<Rightarrow> [] | Some t \<Rightarrow> t, case p_ns p of None \<Rightarrow> [] | Some t \<Rightarrow> t])"

definition owner_text :: "lock_process \<Rightarrow> lock_attempt \<Rightarrow> string" where
  "owner_text p a = concat (map (\<lambda>l. l @ [newline]) (owner_lines p a))"

section \<open>Reading a record\<close>

record owner_reading =
  o_pid :: nat
  o_start :: "string option"
  o_ns :: "string option"

text \<open>An unreadable record may still name a pid.\<close>

datatype reading = Unreadable "nat option" | Readable owner_reading

definition blank :: "string \<Rightarrow> bool" where
  "blank s \<longleftrightarrow> list_all (\<lambda>c. c \<in> {CHR '' '', newline, CHR 0x09, CHR 0x0D, CHR 0x0B, CHR 0x0C}) s"

definition line_at :: "string list \<Rightarrow> nat \<Rightarrow> string option" where
  "line_at ls n = (if n < length ls then Some (ls ! n) else None)"

definition ends_newline :: "string \<Rightarrow> bool" where
  "ends_newline s \<longleftrightarrow> s \<noteq> [] \<and> last s = newline"

definition read_owner :: "string \<Rightarrow> reading" where
  "read_owner t = (let ls = split_on newline t;
     pid = (case line_at ls 1 of None \<Rightarrow> None | Some l \<Rightarrow> read_pid l);
     start = (if ends_newline t then (case line_at ls 3 of None \<Rightarrow> None | Some l \<Rightarrow> if l = [] then None else Some l) else None);
     created = (case line_at ls 2 of None \<Rightarrow> False | Some l \<Rightarrow> \<not> blank l \<and> read_decimal l \<noteq> None)
   in case pid of
        Some n \<Rightarrow> if ends_newline t \<and> length ls \<in> {4, 5, 6} \<and> line_at ls 0 \<noteq> Some [] \<and> created
                  then Readable \<lparr>o_pid = n, o_start = start, o_ns = (if length ls = 6 then Some (ls ! 4) else None)\<rparr>
                  else Unreadable pid
      | None \<Rightarrow> Unreadable None)"

section \<open>Namespaces and incarnations\<close>

datatype ns_verdict = PidEvidence | Foreign | Unproven

definition is_hex_lower :: "char \<Rightarrow> bool" where
  "is_hex_lower c \<longleftrightarrow> is_digit c \<or> 97 \<le> (of_char c :: nat) \<and> (of_char c :: nat) \<le> 102"

definition is_hex_any :: "char \<Rightarrow> bool" where
  "is_hex_any c \<longleftrightarrow> is_hex_lower c \<or> 65 \<le> (of_char c :: nat) \<and> (of_char c :: nat) \<le> 70"

definition is_uuid :: "string \<Rightarrow> bool" where
  "is_uuid s \<longleftrightarrow> map length (split_on (CHR ''-'') s) = [8, 4, 4, 4, 12] \<and> list_all (list_all is_hex_any) (split_on (CHR ''-'') s)"

definition all_digits :: "string \<Rightarrow> bool" where
  "all_digits s \<longleftrightarrow> s \<noteq> [] \<and> list_all is_digit s"

text \<open>The three platform forms of a namespace.\<close>

definition well_formed_ns :: "string \<Rightarrow> bool" where
  "well_formed_ns s \<longleftrightarrow> (case split_on (CHR '':'') s of
      [os, a, b, c] \<Rightarrow>
        os = ''linux'' \<and> (a = ''-'' \<or> length a = 32 \<and> list_all is_hex_lower a) \<and> is_uuid b \<and> all_digits c
        \<or> os = ''darwin'' \<and> (a = ''-'' \<or> is_uuid a) \<and> is_uuid b \<and> c = ''host''
        \<or> os = ''win32'' \<and> is_uuid a \<and> all_digits b \<and> c = ''host''
    | _ \<Rightarrow> False)"

definition ns_part :: "nat \<Rightarrow> string \<Rightarrow> string" where
  "ns_part n s = (case line_at (split_on (CHR '':'') s) n of None \<Rightarrow> [] | Some p \<Rightarrow> p)"

fun pid_namespace_verdict :: "string option \<Rightarrow> string option \<Rightarrow> ns_verdict" where
  "pid_namespace_verdict None own = PidEvidence"
| "pid_namespace_verdict (Some r) None = Unproven"
| "pid_namespace_verdict (Some r) (Some own) =
     (if \<not> well_formed_ns r \<or> own = [] \<or> \<not> well_formed_ns own then Unproven
      else if ns_part 0 r = ''win32'' \<or> ns_part 0 own = ''win32'' then Unproven
      else if r = own then PidEvidence
      else if ns_part 0 r = ns_part 0 own \<and> ns_part 1 r \<noteq> ''-'' \<and> ns_part 1 r = ns_part 1 own \<and> ns_part 2 r \<noteq> ns_part 2 own then Unproven
      else Foreign)"

text \<open>A namespace counts only on a root of a host-local file system.\<close>

definition reclaim_verdict :: "string option \<Rightarrow> string option \<Rightarrow> bool \<Rightarrow> ns_verdict" where
  "reclaim_verdict r own local = (let v = pid_namespace_verdict r own
     in if v \<noteq> PidEvidence \<or> r = None then v else if local then v else Unproven)"

text \<open>The rule of \<^verbatim>\<open>clearStaleLock\<close> before it looks at the pid: a protocol-3 recoverer takes no record without a namespace.\<close>

definition may_use_pid :: "lock_protocol \<Rightarrow> string option \<Rightarrow> string option \<Rightarrow> bool \<Rightarrow> bool" where
  "may_use_pid pr own r local \<longleftrightarrow> (if r = None then pr \<noteq> Protocol3 else reclaim_verdict r own local = PidEvidence)"

text \<open>\<open>validProcessIncarnation\<close> on Linux.\<close>

definition valid_incarnation :: "string \<Rightarrow> bool" where
  "valid_incarnation s \<longleftrightarrow> all_digits s"

definition incarnation :: "lock_process \<Rightarrow> string option" where
  "incarnation p = (if valid_incarnation (p_birth p) then Some (p_birth p) else None)"

section \<open>Lemmas\<close>

lemma split_on_not_Nil [simp]: "split_on c s \<noteq> []"
  by (cases s) (auto split: list.split)

lemma split_on_line [simp]: "c \<notin> set l \<Longrightarrow> split_on c (l @ c # s) = l # split_on c s"
  by (induction l) auto

lemma split_on_lines: "\<forall>l \<in> set ls. newline \<notin> set l \<Longrightarrow>
    split_on newline (concat (map (\<lambda>l. l @ [newline]) ls)) = ls @ [[]]"
  by (induction ls) auto

lemma decimal_text_digits: "list_all is_digit (decimal_text n)"
proof (induction n rule: decimal_text.induct)
  case (1 n)
  have d: "is_digit (char_of (48 + n mod 10))" by (simp add: is_digit_def)
  show ?case
  proof (cases "n < 10")
    case True
    with d show ?thesis by (subst decimal_text.simps) (simp add: is_digit_def)
  next
    case False
    with 1 d show ?thesis by (subst decimal_text.simps) simp
  qed
qed

lemma decimal_text_not_Nil [simp]: "decimal_text n \<noteq> []"
  by (subst decimal_text.simps) simp

lemma decimal_text_value: "foldl (\<lambda>n c. 10 * n + (of_char c - 48)) 0 (decimal_text n) = n"
proof (induction n rule: decimal_text.induct)
  case (1 n)
  show ?case
  proof (cases "n < 10")
    case True
    then show ?thesis by (subst decimal_text.simps) simp
  next
    case False
    with 1 show ?thesis by (subst decimal_text.simps) simp
  qed
qed

lemma read_decimal_text [simp]: "read_decimal (decimal_text n) = Some n"
  using decimal_text_digits [of n] decimal_text_value [of n] by (simp add: read_decimal_def)

lemma digit_not_space: "is_digit c \<Longrightarrow> c \<notin> {CHR '' '', newline, CHR 0x09, CHR 0x0D, CHR 0x0B, CHR 0x0C}"
  by (auto simp: is_digit_def)

lemma digits_no_newline: "list_all is_digit s \<Longrightarrow> newline \<notin> set s"
  by (auto simp: list_all_iff is_digit_def)

lemma decimal_text_no_newline [simp]: "newline \<notin> set (decimal_text n)"
  by (rule digits_no_newline [OF decimal_text_digits])

lemma decimal_text_not_blank [simp]: "\<not> blank (decimal_text n)"
proof
  assume "blank (decimal_text n)"
  moreover obtain c s where "decimal_text n = c # s" by (cases "decimal_text n") simp_all
  moreover have "list_all is_digit (decimal_text n)" by (rule decimal_text_digits)
  ultimately show False using digit_not_space [of c] by (simp add: blank_def)
qed

text \<open>What a process may write about itself holds no line break.\<close>

definition one_line :: "lock_process \<Rightarrow> lock_attempt \<Rightarrow> bool" where
  "one_line p a \<longleftrightarrow> newline \<notin> set (a_token a) \<and> (\<forall>t. p_start p = Some t \<longrightarrow> newline \<notin> set t) \<and> (\<forall>t. p_ns p = Some t \<longrightarrow> newline \<notin> set t)"

lemma owner_lines_one_line: "one_line p a \<Longrightarrow> l \<in> set (owner_lines p a) \<Longrightarrow> newline \<notin> set l"
  by (auto simp: owner_lines_def one_line_def split: lock_protocol.splits option.splits if_splits)

lemma split_owner_text: "one_line p a \<Longrightarrow> split_on newline (owner_text p a) = owner_lines p a @ [[]]"
  unfolding owner_text_def by (rule split_on_lines) (blast dest: owner_lines_one_line)

lemma owner_text_token:
  assumes "one_line p a" and "one_line q b" and "owner_text p a = owner_text q b"
  shows "a_token a = a_token b"
proof -
  have "owner_lines p a @ [[]] = owner_lines q b @ [[]]"
    using split_owner_text [OF assms(1)] split_owner_text [OF assms(2)] assms(3) by simp
  then show ?thesis by (simp add: owner_lines_def)
qed

lemma owner_text_ends [simp]: "ends_newline (owner_text p a)"
proof -
  have "concat (map (\<lambda>l. l @ [newline]) ls) \<noteq> [] \<and> last (concat (map (\<lambda>l. l @ [newline]) ls)) = newline" if "ls \<noteq> []" for ls :: "string list"
    using that by (induction ls rule: rev_induct) auto
  then show ?thesis by (simp add: ends_newline_def owner_text_def owner_lines_def)
qed

lemma owner_text_not_Nil [simp]: "owner_text p a \<noteq> []"
  using owner_text_ends by (auto simp: ends_newline_def)

text \<open>What a recoverer learns from a complete record.\<close>

definition recorded_start :: "lock_process \<Rightarrow> lock_attempt \<Rightarrow> string option" where
  "recorded_start p a = (if a_protocol a = Protocol1 \<or> p_start p = Some [] then None else p_start p)"

definition recorded_ns :: "lock_process \<Rightarrow> lock_attempt \<Rightarrow> string option" where
  "recorded_ns p a = (if a_protocol a = Protocol3 then Some (case p_ns p of None \<Rightarrow> [] | Some t \<Rightarrow> t) else None)"

lemma read_owner_text:
  assumes "one_line p a" and "a_token a \<noteq> []" and "0 < p_pid p" and "p_pid p \<le> max_safe"
  shows "read_owner (owner_text p a) = Readable \<lparr>o_pid = p_pid p, o_start = recorded_start p a, o_ns = recorded_ns p a\<rparr>"
proof -
  have s: "split_on newline (owner_text p a) = owner_lines p a @ [[]]" by (rule split_owner_text [OF assms(1)])
  show ?thesis
    unfolding read_owner_def Let_def s owner_lines_def recorded_start_def recorded_ns_def
    using assms(2-4)
    by (cases "a_protocol a") (auto simp: line_at_def read_pid_def nth_append split: option.splits)
qed

lemma read_owner_empty [simp]: "read_owner [] = Unreadable None"
  by (simp add: read_owner_def line_at_def)

lemma pid_evidence_same_ns:
  "pid_namespace_verdict (Some r) own = PidEvidence \<Longrightarrow> own = Some r \<and> well_formed_ns r"
  by (cases own) (auto split: if_splits)

lemma well_formed_ns_Nil [simp]: "\<not> well_formed_ns []"
  by (simp add: well_formed_ns_def)

lemma may_use_pid_ns: "may_use_pid pr own (Some r) local \<Longrightarrow> own = Some r \<and> well_formed_ns r"
  by (auto simp: may_use_pid_def reclaim_verdict_def Let_def dest: pid_evidence_same_ns split: if_splits)

end
