(* ===== verification/MeshLock.thy ===== *)
theory MeshLock imports LockRecord begin

text \<open>
  The mesh lock (\<^verbatim>\<open>src/src/mesh/mesh-lock.ts\<close>, with the pinned release of \<^verbatim>\<open>src/src/mesh/fence-lock.ts\<close> and
  the removal of a judged directory of \<^verbatim>\<open>src/src/storage/verified-remove.ts\<close>) as a machine whose steps are single
  system calls: any number of acquisitions by any number of processes, each paused between two calls for as long as the
  scheduler likes, any of them failing, processes dying anywhere and their pids coming back. Admission by the FIFO queue
  is not part of it: an acquisition may probe whenever it wants to. The platform is Linux.
\<close>

section \<open>The directory tree\<close>

text \<open>
  A directory has an identity of its own, an inode number that a later one may reuse, times, and the owner
  file. An owner file is torn between the exclusive open and the write; who opened it is not visible to the program.
\<close>

datatype owner_file = Torn nat | Full nat

primrec creator :: "owner_file \<Rightarrow> nat" where
  "creator (Torn i) = i"
| "creator (Full i) = i"

record lock_dir =
  d_ino :: nat
  d_mtime :: nat
  d_ctime :: nat
  d_owner :: "owner_file option"
  d_gone :: bool

text \<open>What \<open>lstat\<close> told of the canonical directory.\<close>

record lock_stat =
  s_ino :: nat
  s_mtime :: nat
  s_ctime :: nat

text \<open>Where an acquisition stands, named after the call it makes next or the state it is in.\<close>

datatype lock_pc =
    Idle | Trying
  | MadeDir | Resolving nat | Opening nat nat | Created nat nat | Confirming nat | Reading
  | Staged nat | Absent nat
  | Pinning | Pinned nat | Holding nat
  | Release nat | Checking nat | Unlinking nat | Emptied nat | Removing nat | Proving nat | ProvingOwner
  | Ours | NameStat | NameRead lock_stat | NameVerify lock_stat | NameMove lock_stat | NameSweep lock_stat nat
  | JudgeStat | JudgeRead lock_stat
  | EmptyRestat lock_stat | EmptyReread | EmptyRemove
  | TornList lock_stat string | TornRestat lock_stat string | TornReread lock_stat string | TornDetach lock_stat
  | JudgeProbe lock_stat string | JudgeBirth lock_stat string | JudgeSame lock_stat string | JudgeOwner lock_stat string
  | Detach lock_stat string
  | Finished bool

record lock_state =
  l_now :: nat
  l_lock :: "nat option"
  l_dirs :: "nat \<Rightarrow> lock_dir"
  l_next :: nat
  l_fence :: "((nat \<times> string) \<times> nat) list"
  l_live :: "nat list"
  l_started :: "nat list"
  l_pc :: "nat \<Rightarrow> lock_pc"

record lock_config =
  c_att :: "nat \<Rightarrow> lock_attempt"
  c_process :: "nat \<Rightarrow> lock_process"
  c_stale :: nat
  c_local :: bool

abbreviation att_process :: "lock_config \<Rightarrow> nat \<Rightarrow> lock_process" where
  "att_process cfg i \<equiv> c_process cfg (a_proc (c_att cfg i))"

definition record_text :: "lock_config \<Rightarrow> nat \<Rightarrow> string" where
  "record_text cfg i = owner_text (att_process cfg i) (c_att cfg i)"

definition file_text :: "lock_config \<Rightarrow> owner_file \<Rightarrow> string" where
  "file_text cfg f = (case f of Torn i \<Rightarrow> [] | Full i \<Rightarrow> record_text cfg i)"

definition alive :: "lock_config \<Rightarrow> lock_state \<Rightarrow> nat \<Rightarrow> bool" where
  "alive cfg s i \<longleftrightarrow> a_proc (c_att cfg i) \<in> set (l_live s)"

section \<open>System calls\<close>

definition set_pc :: "nat \<Rightarrow> lock_pc \<Rightarrow> lock_state \<Rightarrow> lock_state" where
  "set_pc i p s = s\<lparr>l_pc := (l_pc s)(i := p)\<rparr>"

definition set_dir :: "nat \<Rightarrow> lock_dir \<Rightarrow> lock_state \<Rightarrow> lock_state" where
  "set_dir h d s = s\<lparr>l_dirs := (l_dirs s)(h := d)\<rparr>"

definition canonical_owner :: "lock_state \<Rightarrow> owner_file option" where
  "canonical_owner s = (case l_lock s of None \<Rightarrow> None | Some h \<Rightarrow> d_owner (l_dirs s h))"

text \<open>\<open>lstat\<close> of the lock path and \<open>readFileSync\<close> of the owner path; a missing directory and a missing file are both \<open>ENOENT\<close>.\<close>

definition stat_of :: "lock_dir \<Rightarrow> lock_stat" where
  "stat_of d = \<lparr>s_ino = d_ino d, s_mtime = d_mtime d, s_ctime = d_ctime d\<rparr>"

definition lstat_lock :: "lock_state \<Rightarrow> lock_stat option" where
  "lstat_lock s = map_option (\<lambda>h. stat_of (l_dirs s h)) (l_lock s)"

definition read_owner_path :: "lock_config \<Rightarrow> lock_state \<Rightarrow> string option" where
  "read_owner_path cfg s = map_option (file_text cfg) (canonical_owner s)"

text \<open>An inode number is free while no directory that still exists has it.\<close>

definition ino_free :: "lock_state \<Rightarrow> nat \<Rightarrow> bool" where
  "ino_free s n \<longleftrightarrow> list_all (\<lambda>h. d_gone (l_dirs s h) \<or> d_ino (l_dirs s h) \<noteq> n) [0..<l_next s]"

definition new_dir :: "lock_state \<Rightarrow> nat \<Rightarrow> owner_file option \<Rightarrow> lock_dir" where
  "new_dir s n f = \<lparr>d_ino = n, d_mtime = l_now s, d_ctime = l_now s, d_owner = f, d_gone = False\<rparr>"

definition add_dir :: "nat \<Rightarrow> owner_file option \<Rightarrow> lock_state \<Rightarrow> lock_state" where
  "add_dir n f s = s\<lparr>l_dirs := (l_dirs s)(l_next s := new_dir s n f), l_next := Suc (l_next s)\<rparr>"

text \<open>Changing the entries of a directory stamps it; so does renaming the directory itself (the change time).\<close>

definition put_owner :: "nat \<Rightarrow> owner_file option \<Rightarrow> lock_state \<Rightarrow> lock_state" where
  "put_owner h f s = set_dir h ((l_dirs s h)\<lparr>d_owner := f, d_mtime := l_now s, d_ctime := l_now s\<rparr>) s"

definition write_owner :: "nat \<Rightarrow> nat \<Rightarrow> lock_state \<Rightarrow> lock_state" where
  "write_owner h i s = (if d_owner (l_dirs s h) = Some (Torn i) then set_dir h ((l_dirs s h)\<lparr>d_owner := Some (Full i)\<rparr>) s else s)"

definition drop_dir :: "nat \<Rightarrow> lock_state \<Rightarrow> lock_state" where
  "drop_dir h s = set_dir h ((l_dirs s h)\<lparr>d_owner := None, d_gone := True\<rparr>) s"

definition touch_dir :: "nat \<Rightarrow> lock_state \<Rightarrow> lock_state" where
  "touch_dir h s = set_dir h ((l_dirs s h)\<lparr>d_ctime := l_now s\<rparr>) s"

text \<open>\<open>mkdir\<close>, \<open>rmdir\<close> and the two renames of the lock path; \<open>None\<close> is the error.\<close>

definition mkdir_lock :: "nat \<Rightarrow> lock_state \<Rightarrow> lock_state option" where
  "mkdir_lock n s = (if l_lock s = None then Some ((add_dir n None s)\<lparr>l_lock := Some (l_next s)\<rparr>) else None)"

definition rmdir_lock :: "lock_state \<Rightarrow> lock_state option" where
  "rmdir_lock s = (case l_lock s of None \<Rightarrow> None
     | Some h \<Rightarrow> if d_owner (l_dirs s h) = None then Some ((drop_dir h s)\<lparr>l_lock := None\<rparr>) else None)"

definition publish_dir :: "nat \<Rightarrow> lock_state \<Rightarrow> lock_state option" where
  "publish_dir h s = (case l_lock s of
       None \<Rightarrow> Some ((touch_dir h s)\<lparr>l_lock := Some h\<rparr>)
     | Some c \<Rightarrow> if d_owner (l_dirs s c) = None then Some ((touch_dir h (drop_dir c s))\<lparr>l_lock := Some h\<rparr>) else None)"

definition fence_taken :: "lock_state \<Rightarrow> nat \<times> string \<Rightarrow> bool" where
  "fence_taken s k \<longleftrightarrow> (case jm_get (l_fence s) k of None \<Rightarrow> False | Some h \<Rightarrow> d_owner (l_dirs s h) \<noteq> None)"

definition detach_lock :: "nat \<times> string \<Rightarrow> lock_state \<Rightarrow> lock_state option" where
  "detach_lock k s = (case l_lock s of None \<Rightarrow> None
     | Some h \<Rightarrow> if fence_taken s k then None
         else Some ((touch_dir h s)\<lparr>l_lock := None, l_fence := jm_set k h (l_fence s)\<rparr>))"

section \<open>Acquisition\<close>

text \<open>Protocol 1 makes the directory and publishes its owner inside; protocols 2 and 3 rename a complete directory into place.\<close>

definition try_lock :: "lock_config \<Rightarrow> nat \<Rightarrow> nat \<Rightarrow> lock_state \<Rightarrow> lock_state" where
  "try_lock cfg i n s = (if a_protocol (c_att cfg i) = Protocol1
     then (case mkdir_lock n s of None \<Rightarrow> set_pc i JudgeStat s | Some s' \<Rightarrow> set_pc i MadeDir s')
     else set_pc i (Staged (l_next s)) (add_dir n (Some (Full i)) s))"

definition stat_made :: "nat \<Rightarrow> lock_state \<Rightarrow> lock_state" where
  "stat_made i s = set_pc i (case lstat_lock s of None \<Rightarrow> NameStat | Some st \<Rightarrow> Resolving (s_ino st)) s"

text \<open>The path of the owner file is resolved first; the directory found may have moved when the file is opened in it.\<close>

definition resolve_owner :: "nat \<Rightarrow> nat \<Rightarrow> lock_state \<Rightarrow> lock_state" where
  "resolve_owner i x s = set_pc i (case l_lock s of None \<Rightarrow> NameStat | Some h \<Rightarrow> Opening x h) s"

definition open_owner :: "nat \<Rightarrow> nat \<Rightarrow> nat \<Rightarrow> lock_state \<Rightarrow> lock_state" where
  "open_owner i x h s = (if d_gone (l_dirs s h) \<or> d_owner (l_dirs s h) \<noteq> None then set_pc i NameStat s
     else set_pc i (Created x h) (put_owner h (Some (Torn i)) s))"

definition fill_owner :: "nat \<Rightarrow> nat \<Rightarrow> nat \<Rightarrow> lock_state \<Rightarrow> lock_state" where
  "fill_owner i x h s = set_pc i (Confirming x) (write_owner h i s)"

definition confirm_dir :: "nat \<Rightarrow> nat \<Rightarrow> lock_state \<Rightarrow> lock_state" where
  "confirm_dir i x s = set_pc i (case lstat_lock s of None \<Rightarrow> NameStat | Some st \<Rightarrow> if s_ino st = x then Reading else NameStat) s"

definition confirm_owner :: "lock_config \<Rightarrow> nat \<Rightarrow> lock_state \<Rightarrow> lock_state" where
  "confirm_owner cfg i s = set_pc i (if read_owner_path cfg s = Some (record_text cfg i) then Pinning else NameStat) s"

definition see_absent :: "nat \<Rightarrow> nat \<Rightarrow> lock_state \<Rightarrow> lock_state" where
  "see_absent i h s = (if l_lock s = None then set_pc i (Absent h) s else set_pc i JudgeStat (drop_dir h s))"

definition publish_staged :: "nat \<Rightarrow> nat \<Rightarrow> lock_state \<Rightarrow> lock_state" where
  "publish_staged i h s = (case publish_dir h s of None \<Rightarrow> set_pc i JudgeStat (drop_dir h s) | Some s' \<Rightarrow> set_pc i Pinning s')"

text \<open>The pin is a descriptor of the directory; it must hold this record.\<close>

definition open_pin :: "nat \<Rightarrow> lock_state \<Rightarrow> lock_state" where
  "open_pin i s = set_pc i (case l_lock s of None \<Rightarrow> Ours | Some h \<Rightarrow> Pinned h) s"

definition pinned_text :: "lock_config \<Rightarrow> nat \<Rightarrow> lock_state \<Rightarrow> string option" where
  "pinned_text cfg h s = map_option (file_text cfg) (d_owner (l_dirs s h))"

definition check_pin :: "lock_config \<Rightarrow> nat \<Rightarrow> nat \<Rightarrow> lock_state \<Rightarrow> lock_state" where
  "check_pin cfg i h s = set_pc i (if pinned_text cfg h s = Some (record_text cfg i) then Holding h else Ours) s"

definition check_ours :: "lock_config \<Rightarrow> nat \<Rightarrow> lock_state \<Rightarrow> lock_state" where
  "check_ours cfg i s = set_pc i (if read_owner_path cfg s = Some (record_text cfg i) then NameStat else Finished False) s"

section \<open>Release\<close>

definition release_read :: "lock_config \<Rightarrow> nat \<Rightarrow> nat \<Rightarrow> lock_state \<Rightarrow> lock_state" where
  "release_read cfg i h s = set_pc i (if pinned_text cfg h s = Some (record_text cfg i) then Checking h else Finished False) s"

definition release_check :: "nat \<Rightarrow> nat \<Rightarrow> lock_state \<Rightarrow> lock_state" where
  "release_check i h s = set_pc i (case lstat_lock s of None \<Rightarrow> Finished False
     | Some st \<Rightarrow> if s_ino st = d_ino (l_dirs s h) then Unlinking h else Finished False) s"

definition release_unlink :: "nat \<Rightarrow> nat \<Rightarrow> lock_state \<Rightarrow> lock_state" where
  "release_unlink i h s = (if d_owner (l_dirs s h) = None then set_pc i (Finished False) s
     else set_pc i (Emptied (d_ino (l_dirs s h))) (put_owner h None s))"

text \<open>After the unlink: \<open>releaseAfterOwnerUnlink\<close>.\<close>

definition after_unlink :: "nat \<Rightarrow> nat \<Rightarrow> lock_state \<Rightarrow> lock_state" where
  "after_unlink i x s = set_pc i (case lstat_lock s of None \<Rightarrow> Finished True
     | Some st \<Rightarrow> if s_ino st = x then Removing x else Finished True) s"

definition remove_emptied :: "nat \<Rightarrow> nat \<Rightarrow> lock_state \<Rightarrow> lock_state" where
  "remove_emptied i x s = (case rmdir_lock s of Some s' \<Rightarrow> set_pc i (Finished True) s'
     | None \<Rightarrow> if l_lock s = None then set_pc i (Finished True) s else set_pc i (Proving x) s)"

definition prove_moved :: "nat \<Rightarrow> nat \<Rightarrow> lock_state \<Rightarrow> lock_state" where
  "prove_moved i x s = set_pc i (case lstat_lock s of None \<Rightarrow> Finished True
     | Some st \<Rightarrow> if s_ino st = x then ProvingOwner else Finished True) s"

definition prove_owner :: "lock_config \<Rightarrow> nat \<Rightarrow> lock_state \<Rightarrow> lock_state" where
  "prove_owner cfg i s = set_pc i (case read_owner_path cfg s of None \<Rightarrow> Finished False
     | Some t \<Rightarrow> Finished (t \<noteq> record_text cfg i)) s"

text \<open>Release by name, for an acquisition without a pin: the directory judged by its record goes through \<open>verifiedRemove\<close>.\<close>

definition name_stat :: "nat \<Rightarrow> lock_state \<Rightarrow> lock_state" where
  "name_stat i s = set_pc i (case lstat_lock s of None \<Rightarrow> Finished False | Some st \<Rightarrow> NameRead st) s"

definition name_read :: "lock_config \<Rightarrow> nat \<Rightarrow> lock_stat \<Rightarrow> lock_state \<Rightarrow> lock_state" where
  "name_read cfg i st s = set_pc i (if read_owner_path cfg s = Some (record_text cfg i) then NameVerify st else Finished False) s"

definition judged_still :: "lock_stat \<Rightarrow> lock_dir \<Rightarrow> bool" where
  "judged_still st d \<longleftrightarrow> d_ino d = s_ino st \<and> d_mtime d = s_mtime st"

definition name_verify :: "nat \<Rightarrow> lock_stat \<Rightarrow> lock_state \<Rightarrow> lock_state" where
  "name_verify i st s = set_pc i (case l_lock s of None \<Rightarrow> Finished False
     | Some h \<Rightarrow> if judged_still st (l_dirs s h) then NameMove st else Finished False) s"

text \<open>The rename into the private graveyard takes whatever has the name; what was not judged stays there, untouched.\<close>

definition name_move :: "nat \<Rightarrow> lock_stat \<Rightarrow> lock_state \<Rightarrow> lock_state" where
  "name_move i st s = (case l_lock s of None \<Rightarrow> set_pc i (Finished False) s
     | Some h \<Rightarrow> set_pc i (NameSweep st h) ((touch_dir h s)\<lparr>l_lock := None\<rparr>))"

definition name_sweep :: "nat \<Rightarrow> lock_stat \<Rightarrow> nat \<Rightarrow> lock_state \<Rightarrow> lock_state" where
  "name_sweep i st h s = (if judged_still st (l_dirs s h) then set_pc i (Finished True) (drop_dir h s) else set_pc i (Finished False) s)"

section \<open>Recovery of a stale owner\<close>

definition judge_stat :: "nat \<Rightarrow> lock_state \<Rightarrow> lock_state" where
  "judge_stat i s = set_pc i (case lstat_lock s of None \<Rightarrow> Trying | Some st \<Rightarrow> JudgeRead st) s"

definition live_pid :: "lock_config \<Rightarrow> nat \<Rightarrow> nat \<Rightarrow> lock_state \<Rightarrow> lock_process option" where
  "live_pid cfg host pid s = find (\<lambda>p. p_host p = host \<and> p_pid p = pid) (map (c_process cfg) (l_live s))"

text \<open>The branches of \<^verbatim>\<open>clearStaleLock\<close> on what it reads: no owner, an unreadable record, a complete one.\<close>

definition judge_unreadable :: "lock_config \<Rightarrow> nat \<Rightarrow> lock_stat \<Rightarrow> string \<Rightarrow> nat option \<Rightarrow> lock_state \<Rightarrow> lock_pc" where
  "judge_unreadable cfg i st t pid s =
     (if (case pid of None \<Rightarrow> False | Some n \<Rightarrow> live_pid cfg (p_host (att_process cfg i)) n s \<noteq> None) then Trying
      else if l_now s \<le> max (s_ctime st) (s_mtime st) + c_stale cfg then Trying
      else TornList st t)"

definition judge_read :: "lock_config \<Rightarrow> nat \<Rightarrow> lock_stat \<Rightarrow> lock_state \<Rightarrow> lock_state" where
  "judge_read cfg i st s = set_pc i (case read_owner_path cfg s of
       None \<Rightarrow> if l_now s \<le> s_mtime st + c_stale cfg then Trying else EmptyRestat st
     | Some t \<Rightarrow> (case read_owner t of
           Unreadable pid \<Rightarrow> judge_unreadable cfg i st t pid s
         | Readable r \<Rightarrow> if may_use_pid (a_protocol (c_att cfg i)) (p_ns (att_process cfg i)) (o_ns r) (c_local cfg)
             then JudgeProbe st t else Trying)) s"

definition empty_restat :: "nat \<Rightarrow> lock_stat \<Rightarrow> lock_state \<Rightarrow> lock_state" where
  "empty_restat i st s = set_pc i (case lstat_lock s of None \<Rightarrow> Trying
     | Some st' \<Rightarrow> if s_ino st' = s_ino st \<and> s_mtime st' = s_mtime st then EmptyReread else Trying) s"

definition empty_reread :: "nat \<Rightarrow> lock_state \<Rightarrow> lock_state" where
  "empty_reread i s = set_pc i (if canonical_owner s = None then EmptyRemove else Trying) s"

definition empty_remove :: "nat \<Rightarrow> lock_state \<Rightarrow> lock_state" where
  "empty_remove i s = set_pc i Trying (case rmdir_lock s of None \<Rightarrow> s | Some s' \<Rightarrow> s')"

definition torn_list :: "nat \<Rightarrow> lock_stat \<Rightarrow> string \<Rightarrow> lock_state \<Rightarrow> lock_state" where
  "torn_list i st t s = set_pc i (if canonical_owner s = None then Trying else TornRestat st t) s"

definition torn_restat :: "nat \<Rightarrow> lock_stat \<Rightarrow> string \<Rightarrow> lock_state \<Rightarrow> lock_state" where
  "torn_restat i st t s = set_pc i (if lstat_lock s = Some st then TornReread st t else Trying) s"

definition torn_reread :: "lock_config \<Rightarrow> nat \<Rightarrow> lock_stat \<Rightarrow> string \<Rightarrow> lock_state \<Rightarrow> lock_state" where
  "torn_reread cfg i st t s = set_pc i (if read_owner_path cfg s = Some t then TornDetach st else Trying) s"

definition torn_key :: "lock_stat \<Rightarrow> nat \<times> string" where
  "torn_key st = (s_ino st, ''empty-owner'')"

definition torn_detach :: "nat \<Rightarrow> lock_stat \<Rightarrow> lock_state \<Rightarrow> lock_state" where
  "torn_detach i st s = set_pc i Trying (case detach_lock (torn_key st) s of None \<Rightarrow> s | Some s' \<Rightarrow> s')"

text \<open>A complete record: the pid must be free, or its process another incarnation than the one recorded.\<close>

definition judge_probe :: "lock_config \<Rightarrow> nat \<Rightarrow> lock_stat \<Rightarrow> string \<Rightarrow> lock_state \<Rightarrow> lock_state" where
  "judge_probe cfg i st t s = set_pc i (case read_owner t of
       Readable r \<Rightarrow> (case live_pid cfg (p_host (att_process cfg i)) (o_pid r) s of
           None \<Rightarrow> JudgeSame st t
         | Some p \<Rightarrow> (case o_start r of None \<Rightarrow> Trying | Some b \<Rightarrow> if valid_incarnation b then JudgeBirth st t else Trying))
     | Unreadable v \<Rightarrow> Trying) s"

definition judge_birth :: "lock_config \<Rightarrow> nat \<Rightarrow> lock_stat \<Rightarrow> string \<Rightarrow> lock_state \<Rightarrow> lock_state" where
  "judge_birth cfg i st t s = set_pc i (case read_owner t of
       Readable r \<Rightarrow> (case live_pid cfg (p_host (att_process cfg i)) (o_pid r) s of
           None \<Rightarrow> Trying
         | Some p \<Rightarrow> (case incarnation p of None \<Rightarrow> Trying | Some b \<Rightarrow> if o_start r = Some b then Trying else JudgeSame st t))
     | Unreadable v \<Rightarrow> Trying) s"

definition judge_same :: "nat \<Rightarrow> lock_stat \<Rightarrow> string \<Rightarrow> lock_state \<Rightarrow> lock_state" where
  "judge_same i st t s = set_pc i (case lstat_lock s of None \<Rightarrow> Trying
     | Some st' \<Rightarrow> if s_ino st' = s_ino st then JudgeOwner st t else Trying) s"

definition judge_owner :: "lock_config \<Rightarrow> nat \<Rightarrow> lock_stat \<Rightarrow> string \<Rightarrow> lock_state \<Rightarrow> lock_state" where
  "judge_owner cfg i st t s = set_pc i (if read_owner_path cfg s = Some t then Detach st t else Trying) s"

definition detach_dead :: "nat \<Rightarrow> lock_stat \<Rightarrow> string \<Rightarrow> lock_state \<Rightarrow> lock_state" where
  "detach_dead i st t s = set_pc i Trying (case detach_lock (s_ino st, t) s of None \<Rightarrow> s | Some s' \<Rightarrow> s')"

section \<open>The machine\<close>

text \<open>One call of acquisition \<open>i\<close>; \<open>n\<close> is the inode number the file system would give a new directory.\<close>

definition go :: "lock_config \<Rightarrow> nat \<Rightarrow> nat \<Rightarrow> lock_state \<Rightarrow> lock_state" where
  "go cfg i n s = (case l_pc s i of
       Idle \<Rightarrow> set_pc i Trying s
     | Trying \<Rightarrow> if ino_free s n then try_lock cfg i n s else s
     | MadeDir \<Rightarrow> stat_made i s
     | Resolving x \<Rightarrow> resolve_owner i x s
     | Opening x h \<Rightarrow> open_owner i x h s
     | Created x h \<Rightarrow> fill_owner i x h s
     | Confirming x \<Rightarrow> confirm_dir i x s
     | Reading \<Rightarrow> confirm_owner cfg i s
     | Staged h \<Rightarrow> see_absent i h s
     | Absent h \<Rightarrow> publish_staged i h s
     | Pinning \<Rightarrow> open_pin i s
     | Pinned h \<Rightarrow> check_pin cfg i h s
     | Holding h \<Rightarrow> set_pc i (Release h) s
     | Release h \<Rightarrow> release_read cfg i h s
     | Checking h \<Rightarrow> release_check i h s
     | Unlinking h \<Rightarrow> release_unlink i h s
     | Emptied x \<Rightarrow> after_unlink i x s
     | Removing x \<Rightarrow> remove_emptied i x s
     | Proving x \<Rightarrow> prove_moved i x s
     | ProvingOwner \<Rightarrow> prove_owner cfg i s
     | Ours \<Rightarrow> check_ours cfg i s
     | NameStat \<Rightarrow> name_stat i s
     | NameRead st \<Rightarrow> name_read cfg i st s
     | NameVerify st \<Rightarrow> name_verify i st s
     | NameMove st \<Rightarrow> name_move i st s
     | NameSweep st h \<Rightarrow> name_sweep i st h s
     | JudgeStat \<Rightarrow> judge_stat i s
     | JudgeRead st \<Rightarrow> judge_read cfg i st s
     | EmptyRestat st \<Rightarrow> empty_restat i st s
     | EmptyReread \<Rightarrow> empty_reread i s
     | EmptyRemove \<Rightarrow> empty_remove i s
     | TornList st t \<Rightarrow> torn_list i st t s
     | TornRestat st t \<Rightarrow> torn_restat i st t s
     | TornReread st t \<Rightarrow> torn_reread cfg i st t s
     | TornDetach st \<Rightarrow> torn_detach i st s
     | JudgeProbe st t \<Rightarrow> judge_probe cfg i st t s
     | JudgeBirth st t \<Rightarrow> judge_birth cfg i st t s
     | JudgeSame st t \<Rightarrow> judge_same i st t s
     | JudgeOwner st t \<Rightarrow> judge_owner cfg i st t s
     | Detach st t \<Rightarrow> detach_dead i st t s
     | Finished r \<Rightarrow> s)"

text \<open>
  The same call failing with an error of the file system, or the deadline passing, at a point where the code gives up:
  a failed initialiser of protocol 1 releases by name, a staged directory is removed, a failed pin asks whose the lock is,
  an unfinished release is reported as such, and a recoverer returns to the loop.
\<close>

definition fail_pc :: "lock_pc \<Rightarrow> lock_pc" where
  "fail_pc p = (case p of
       MadeDir \<Rightarrow> NameStat | Resolving x \<Rightarrow> NameStat | Opening x h \<Rightarrow> NameStat | Created x h \<Rightarrow> NameStat
     | Confirming x \<Rightarrow> NameStat | Reading \<Rightarrow> NameStat
     | Pinning \<Rightarrow> Ours | Pinned h \<Rightarrow> Ours
     | Holding h \<Rightarrow> Release h | Removing x \<Rightarrow> Proving x
     | JudgeStat \<Rightarrow> Trying | JudgeRead st \<Rightarrow> Trying
     | EmptyRestat st \<Rightarrow> Trying | EmptyReread \<Rightarrow> Trying | EmptyRemove \<Rightarrow> Trying
     | TornList st t \<Rightarrow> Trying | TornRestat st t \<Rightarrow> Trying | TornReread st t \<Rightarrow> Trying | TornDetach st \<Rightarrow> Trying
     | JudgeProbe st t \<Rightarrow> Trying | JudgeBirth st t \<Rightarrow> Trying | JudgeSame st t \<Rightarrow> Trying | JudgeOwner st t \<Rightarrow> Trying
     | Detach st t \<Rightarrow> Trying
     | Finished r \<Rightarrow> Finished r
     | _ \<Rightarrow> Finished False)"

definition fail :: "nat \<Rightarrow> lock_state \<Rightarrow> lock_state" where
  "fail i s = set_pc i (fail_pc (l_pc s i)) (case l_pc s i of Staged h \<Rightarrow> drop_dir h s | Absent h \<Rightarrow> drop_dir h s | _ \<Rightarrow> s)"

text \<open>A rename that is not permitted is treated as a busy lock.\<close>

definition refuse :: "nat \<Rightarrow> lock_state \<Rightarrow> lock_state" where
  "refuse i s = (case l_pc s i of Absent h \<Rightarrow> set_pc i JudgeStat (drop_dir h s) | _ \<Rightarrow> s)"

text \<open>The events: a call, a failing call, a refused publication, a process starting or ending, time passing.\<close>

datatype lock_event = Go nat nat | Fail nat | Refuse nat | Start nat | Exit nat | Pass nat

text \<open>A process runs once, and never beside another one of its pid.\<close>

definition may_start :: "lock_config \<Rightarrow> nat \<Rightarrow> lock_state \<Rightarrow> bool" where
  "may_start cfg p s \<longleftrightarrow> p \<notin> set (l_started s) \<and> live_pid cfg (p_host (c_process cfg p)) (p_pid (c_process cfg p)) s = None"

fun lock_step :: "lock_config \<Rightarrow> lock_state \<Rightarrow> lock_event \<Rightarrow> lock_state" where
  "lock_step cfg s (Go i n) = (if alive cfg s i then go cfg i n s else s)"
| "lock_step cfg s (Fail i) = (if alive cfg s i then fail i s else s)"
| "lock_step cfg s (Refuse i) = (if alive cfg s i then refuse i s else s)"
| "lock_step cfg s (Start p) = (if may_start cfg p s then s\<lparr>l_live := p # l_live s, l_started := p # l_started s\<rparr> else s)"
| "lock_step cfg s (Exit p) = s\<lparr>l_live := removeAll p (l_live s)\<rparr>"
| "lock_step cfg s (Pass n) = s\<lparr>l_now := l_now s + n\<rparr>"

definition no_lock :: lock_state where
  "no_lock = \<lparr>l_now = 0, l_lock = None, l_dirs = (\<lambda>h. \<lparr>d_ino = 0, d_mtime = 0, d_ctime = 0, d_owner = None, d_gone = True\<rparr>),
     l_next = 0, l_fence = [], l_live = [], l_started = [], l_pc = (\<lambda>i. Idle)\<rparr>"

definition in_section :: "lock_state \<Rightarrow> nat \<Rightarrow> bool" where
  "in_section s i \<longleftrightarrow> (case l_pc s i of Holding h \<Rightarrow> True | _ \<Rightarrow> False)"

end
