(* ===== verification/MeshLockSafety.thy ===== *)
theory MeshLockSafety imports MeshLock begin

text \<open>
  Mutual exclusion of the mesh lock. The invariant has a part about the directories (the retained receipts name owners that
  are gone, an owner file belongs to one acquisition) and a part per acquisition about the point it has reached; the
  second is kept because every call of another acquisition stays within a rely condition.
\<close>

section \<open>The assumptions\<close>

text \<open>
  What the code takes for granted: tokens are unique and records are lines; two processes of one pid in one namespace
  differ in birth; a process that knows its birth or its namespace knows it right, and one namespace is one
  host; writers of records without a namespace share a host.
\<close>

definition sound_config :: "lock_config \<Rightarrow> bool" where
  "sound_config cfg \<longleftrightarrow>
     (\<forall>i. one_line (att_process cfg i) (c_att cfg i) \<and> a_token (c_att cfg i) \<noteq> [])
     \<and> (\<forall>i j. a_token (c_att cfg i) = a_token (c_att cfg j) \<longrightarrow> i = j)
     \<and> (\<forall>p. 0 < p_pid (c_process cfg p) \<and> p_pid (c_process cfg p) \<le> max_safe)
     \<and> (\<forall>p q. p_host (c_process cfg p) = p_host (c_process cfg q) \<and> p_pid (c_process cfg p) = p_pid (c_process cfg q)
          \<and> p_birth (c_process cfg p) = p_birth (c_process cfg q) \<longrightarrow> p = q)
     \<and> (\<forall>p. p_start (c_process cfg p) = None \<or> p_start (c_process cfg p) = incarnation (c_process cfg p))
     \<and> (\<forall>p q t. p_ns (c_process cfg p) = Some t \<and> p_ns (c_process cfg q) = Some t \<longrightarrow> p_host (c_process cfg p) = p_host (c_process cfg q))
     \<and> (\<forall>i j. a_protocol (c_att cfg i) \<noteq> Protocol3 \<and> a_protocol (c_att cfg j) \<noteq> Protocol3
          \<longrightarrow> p_host (att_process cfg i) = p_host (att_process cfg j))"

definition ended :: "lock_config \<Rightarrow> lock_state \<Rightarrow> nat \<Rightarrow> bool" where
  "ended cfg s i \<longleftrightarrow> a_proc (c_att cfg i) \<in> set (l_started s) \<and> a_proc (c_att cfg i) \<notin> set (l_live s)"

text \<open>An acquisition that has published its record, or has given up trying to.\<close>

definition late :: "lock_pc \<Rightarrow> bool" where
  "late p \<longleftrightarrow> (case p of
       Confirming x \<Rightarrow> True | Reading \<Rightarrow> True | Pinning \<Rightarrow> True | Pinned h \<Rightarrow> True | Holding h \<Rightarrow> True
     | Release h \<Rightarrow> True | Checking h \<Rightarrow> True | Unlinking h \<Rightarrow> True | Emptied x \<Rightarrow> True | Removing x \<Rightarrow> True
     | Proving x \<Rightarrow> True | ProvingOwner \<Rightarrow> True | Ours \<Rightarrow> True | NameStat \<Rightarrow> True | NameRead st \<Rightarrow> True
     | NameVerify st \<Rightarrow> True | NameMove st \<Rightarrow> True | NameSweep st h \<Rightarrow> True | Finished r \<Rightarrow> True | _ \<Rightarrow> False)"

text \<open>The writer of a torn owner file that will never be completed.\<close>

definition quiet :: "lock_config \<Rightarrow> lock_state \<Rightarrow> nat \<Rightarrow> bool" where
  "quiet cfg s w \<longleftrightarrow> ended cfg s w \<or> late (l_pc s w)"

text \<open>
  The grace period does its work: when a recoverer finds an owner file without content older than the grace, its writer
  is not between the open and the write of that file any more. Records of protocols 2 and 3 are never seen without content.
\<close>

definition graceful :: "lock_config \<Rightarrow> lock_state \<Rightarrow> lock_event \<Rightarrow> bool" where
  "graceful cfg s e \<longleftrightarrow> (case e of Go i n \<Rightarrow> (case l_pc s i of
       JudgeRead st \<Rightarrow> (case canonical_owner s of
           Some (Torn w) \<Rightarrow> alive cfg s i \<and> max (s_ctime st) (s_mtime st) + c_stale cfg < l_now s \<longrightarrow> quiet cfg s w
         | _ \<Rightarrow> True)
     | _ \<Rightarrow> True) | _ \<Rightarrow> True)"

section \<open>The invariant\<close>

definition owner_of :: "lock_state \<Rightarrow> nat \<Rightarrow> owner_file option" where
  "owner_of s h = d_owner (l_dirs s h)"

definition fence_key :: "lock_config \<Rightarrow> lock_state \<Rightarrow> nat \<Rightarrow> owner_file \<Rightarrow> nat \<times> string" where
  "fence_key cfg s h f = (d_ino (l_dirs s h), case f of Torn w \<Rightarrow> ''empty-owner'' | Full i \<Rightarrow> record_text cfg i)"

definition dead_file :: "lock_config \<Rightarrow> lock_state \<Rightarrow> owner_file \<Rightarrow> bool" where
  "dead_file cfg s f \<longleftrightarrow> (case f of Torn w \<Rightarrow> quiet cfg s w | Full i \<Rightarrow> ended cfg s i)"

definition procs_ok :: "lock_config \<Rightarrow> lock_state \<Rightarrow> bool" where
  "procs_ok cfg s \<longleftrightarrow> set (l_live s) \<subseteq> set (l_started s)
     \<and> (\<forall>p \<in> set (l_live s). \<forall>q \<in> set (l_live s). p_host (c_process cfg p) = p_host (c_process cfg q)
          \<and> p_pid (c_process cfg p) = p_pid (c_process cfg q) \<longrightarrow> p = q)
     \<and> (\<forall>i. l_pc s i \<noteq> Idle \<longrightarrow> a_proc (c_att cfg i) \<in> set (l_started s))"

definition dirs_ok :: "lock_config \<Rightarrow> lock_state \<Rightarrow> bool" where
  "dirs_ok cfg s \<longleftrightarrow> (\<forall>c. l_lock s = Some c \<longrightarrow> c < l_next s)
     \<and> (\<forall>h. owner_of s h \<noteq> None \<longrightarrow> h < l_next s)
     \<and> (\<forall>h h' f f'. owner_of s h = Some f \<and> owner_of s h' = Some f' \<and> creator f = creator f' \<longrightarrow> h = h')
     \<and> (\<forall>k h. (k, h) \<in> set (l_fence s) \<longrightarrow> l_lock s \<noteq> Some h \<and> (\<exists>f. owner_of s h = Some f \<and> k = fence_key cfg s h f \<and> dead_file cfg s f))"

definition files_ok :: "lock_state \<Rightarrow> nat \<Rightarrow> lock_pc \<Rightarrow> bool" where
  "files_ok s i p \<longleftrightarrow>
     (\<forall>h f. owner_of s h = Some f \<and> creator f = i \<longrightarrow>
        late p \<or> (\<exists>x. p = Created x h) \<and> f = Torn i \<or> (p = Staged h \<or> p = Absent h) \<and> f = Full i)
     \<and> (\<forall>h. p = Staged h \<or> p = Absent h \<longrightarrow> owner_of s h = Some (Full i) \<and> l_lock s \<noteq> Some h)
     \<and> (\<forall>x h. p = Opening x h \<longrightarrow> h < l_next s)"

definition claims :: "lock_state \<Rightarrow> nat \<Rightarrow> nat \<Rightarrow> bool" where
  "claims s i h \<longleftrightarrow> l_lock s = Some h \<and> owner_of s h = Some (Full i)"

definition fenced :: "lock_state \<Rightarrow> nat \<times> string \<Rightarrow> bool" where
  "fenced s k \<longleftrightarrow> k \<in> fst ` set (l_fence s)"

definition dead_torn :: "lock_config \<Rightarrow> lock_state \<Rightarrow> nat \<Rightarrow> bool" where
  "dead_torn cfg s c \<longleftrightarrow> l_lock s = Some c \<and> (\<exists>w. owner_of s c = Some (Torn w) \<and> quiet cfg s w)"

definition point_ok :: "lock_config \<Rightarrow> lock_state \<Rightarrow> nat \<Rightarrow> lock_pc \<Rightarrow> bool" where
  "point_ok cfg s i p \<longleftrightarrow> (case p of
       Pinning \<Rightarrow> (\<exists>c. claims s i c)
     | Pinned h \<Rightarrow> claims s i h | Holding h \<Rightarrow> claims s i h | Release h \<Rightarrow> claims s i h
     | Checking h \<Rightarrow> claims s i h | Unlinking h \<Rightarrow> claims s i h
     | NameVerify st \<Rightarrow> (\<exists>c. claims s i c) | NameMove st \<Rightarrow> (\<exists>c. claims s i c)
     | NameSweep st h \<Rightarrow> owner_of s h = Some (Full i) \<and> l_lock s \<noteq> Some h
     | TornList st t \<Rightarrow> t = [] \<and> s_ctime st < l_now s \<and> ((\<exists>c. dead_torn cfg s c) \<or> (\<forall>c. l_lock s = Some c \<longrightarrow> s_ctime st < d_ctime (l_dirs s c)))
     | TornRestat st t \<Rightarrow> t = [] \<and> s_ctime st < l_now s \<and> ((\<exists>c. dead_torn cfg s c) \<or> (\<forall>c. l_lock s = Some c \<longrightarrow> s_ctime st < d_ctime (l_dirs s c)))
     | TornReread st t \<Rightarrow> t = [] \<and> ((\<exists>c. dead_torn cfg s c \<and> d_ino (l_dirs s c) = s_ino st) \<or> fenced s (torn_key st))
     | TornDetach st \<Rightarrow> (\<exists>c. dead_torn cfg s c \<and> d_ino (l_dirs s c) = s_ino st) \<or> fenced s (torn_key st)
     | JudgeProbe st t \<Rightarrow> (\<exists>d. t = record_text cfg d \<and> p_host (att_process cfg i) = p_host (att_process cfg d) \<and> a_proc (c_att cfg d) \<in> set (l_started s))
     | JudgeBirth st t \<Rightarrow> (\<exists>d. t = record_text cfg d \<and> p_host (att_process cfg i) = p_host (att_process cfg d) \<and> a_proc (c_att cfg d) \<in> set (l_started s)
         \<and> recorded_start (att_process cfg d) (c_att cfg d) \<noteq> None)
     | JudgeSame st t \<Rightarrow> (\<exists>d. t = record_text cfg d \<and> ended cfg s d)
     | JudgeOwner st t \<Rightarrow> (\<exists>d. t = record_text cfg d \<and> ended cfg s d \<and> (\<forall>c. claims s d c \<longrightarrow> d_ino (l_dirs s c) = s_ino st))
     | Detach st t \<Rightarrow> (\<exists>d. t = record_text cfg d \<and> ended cfg s d
         \<and> ((\<exists>c. claims s d c \<and> d_ino (l_dirs s c) = s_ino st) \<or> fenced s (s_ino st, t)))
     | _ \<Rightarrow> True)"

definition attempt_ok :: "lock_config \<Rightarrow> lock_state \<Rightarrow> nat \<Rightarrow> lock_pc \<Rightarrow> bool" where
  "attempt_ok cfg s i p \<longleftrightarrow> files_ok s i p \<and> (alive cfg s i \<longrightarrow> point_ok cfg s i p)"

definition lock_ok :: "lock_config \<Rightarrow> lock_state \<Rightarrow> bool" where
  "lock_ok cfg s \<longleftrightarrow> procs_ok cfg s \<and> dirs_ok cfg s \<and> (\<forall>i. attempt_ok cfg s i (l_pc s i))"

section \<open>The rely condition\<close>

text \<open>
  What acquisition \<open>j\<close> may count on while another one makes a call: its files and what it holds stay, a dead owner
  leaves the canonical name only for its receipt and never comes back, arrivals at the name carry the current time.
\<close>

definition rely :: "lock_config \<Rightarrow> nat \<Rightarrow> lock_state \<Rightarrow> lock_state \<Rightarrow> bool" where
  "rely cfg j s s' \<longleftrightarrow>
     l_live s' = l_live s \<and> l_started s' = l_started s \<and> l_pc s' j = l_pc s j \<and> l_now s' = l_now s \<and> l_next s \<le> l_next s'
     \<and> (\<forall>h f. creator f = j \<longrightarrow> (owner_of s' h = Some f) = (owner_of s h = Some f))
     \<and> (\<forall>h. owner_of s h = Some (Full j) \<longrightarrow> l_lock s \<noteq> Some h \<longrightarrow> l_lock s' \<noteq> Some h)
     \<and> (\<forall>c. alive cfg s j \<and> claims s j c \<longrightarrow> l_lock s' = Some c)
     \<and> (\<forall>c. dead_torn cfg s c \<longrightarrow> dead_torn cfg s' c \<and> d_ino (l_dirs s' c) = d_ino (l_dirs s c)
          \<or> l_lock s' = None \<and> fenced s' (d_ino (l_dirs s c), ''empty-owner''))
     \<and> (\<forall>c d. ended cfg s d \<and> claims s d c \<longrightarrow> claims s' d c \<and> d_ino (l_dirs s' c) = d_ino (l_dirs s c)
          \<or> l_lock s' = None \<and> fenced s' (d_ino (l_dirs s c), record_text cfg d))
     \<and> (\<forall>c d. ended cfg s d \<and> claims s' d c \<longrightarrow> claims s d c \<and> d_ino (l_dirs s' c) = d_ino (l_dirs s c))
     \<and> (\<forall>c. l_lock s' = Some c \<longrightarrow> l_lock s = Some c \<and> d_ctime (l_dirs s c) \<le> d_ctime (l_dirs s' c) \<or> d_ctime (l_dirs s' c) = l_now s)
     \<and> fst ` set (l_fence s) \<subseteq> fst ` set (l_fence s')"

lemma relyD:
  assumes "rely cfg j s s'"
  shows "l_live s' = l_live s"
    and "l_started s' = l_started s"
    and "l_pc s' j = l_pc s j"
    and "l_now s' = l_now s"
    and "l_next s \<le> l_next s'"
    and "(\<forall>h f. creator f = j \<longrightarrow> (owner_of s' h = Some f) = (owner_of s h = Some f))"
    and "(\<forall>h. owner_of s h = Some (Full j) \<longrightarrow> l_lock s \<noteq> Some h \<longrightarrow> l_lock s' \<noteq> Some h)"
    and "(\<forall>c. alive cfg s j \<and> claims s j c \<longrightarrow> l_lock s' = Some c)"
    and "(\<forall>c. dead_torn cfg s c \<longrightarrow> dead_torn cfg s' c \<and> d_ino (l_dirs s' c) = d_ino (l_dirs s c)
          \<or> l_lock s' = None \<and> fenced s' (d_ino (l_dirs s c), ''empty-owner''))"
    and "(\<forall>c d. ended cfg s d \<and> claims s d c \<longrightarrow> claims s' d c \<and> d_ino (l_dirs s' c) = d_ino (l_dirs s c)
          \<or> l_lock s' = None \<and> fenced s' (d_ino (l_dirs s c), record_text cfg d))"
    and "(\<forall>c d. ended cfg s d \<and> claims s' d c \<longrightarrow> claims s d c \<and> d_ino (l_dirs s' c) = d_ino (l_dirs s c))"
    and "(\<forall>c. l_lock s' = Some c \<longrightarrow> l_lock s = Some c \<and> d_ctime (l_dirs s c) \<le> d_ctime (l_dirs s' c) \<or> d_ctime (l_dirs s' c) = l_now s)"
    and "fst ` set (l_fence s) \<subseteq> fst ` set (l_fence s')"
  by (insert assms, unfold rely_def, elim conjE, assumption)+

lemma files_ok_rely:
  assumes "rely cfg j s s'" and "files_ok s j p"
  shows "files_ok s' j p"
proof -
  have own: "owner_of s' h = Some f \<longleftrightarrow> owner_of s h = Some f" if "creator f = j" for h f
    using assms(1) that by (simp add: rely_def)
  have lk: "l_lock s' \<noteq> Some h" if "owner_of s h = Some (Full j)" "l_lock s \<noteq> Some h" for h
    using assms(1) that by (simp add: rely_def)
  have "l_next s \<le> l_next s'" using assms(1) by (simp add: rely_def)
  show ?thesis
    unfolding files_ok_def
  proof (intro conjI)
    show "\<forall>h f. owner_of s' h = Some f \<and> creator f = j \<longrightarrow>
        late p \<or> (\<exists>x. p = Created x h) \<and> f = Torn j \<or> (p = Staged h \<or> p = Absent h) \<and> f = Full j"
      using assms(2) own unfolding files_ok_def by blast
    show "\<forall>h. p = Staged h \<or> p = Absent h \<longrightarrow> owner_of s' h = Some (Full j) \<and> l_lock s' \<noteq> Some h"
      using assms(2) own [of "Full j"] lk unfolding files_ok_def by simp
    show "\<forall>x h. p = Opening x h \<longrightarrow> h < l_next s'"
      using assms(2) \<open>l_next s \<le> l_next s'\<close> unfolding files_ok_def by fastforce
  qed
qed

lemma point_ok_rely:
  assumes r: "rely cfg j s s'" and a: "alive cfg s j" and p: "point_ok cfg s j p"
  shows "point_ok cfg s' j p"
proof -
  note R = relyD [OF r]
  have own: "owner_of s' h = Some f \<longleftrightarrow> owner_of s h = Some f" if "creator f = j" for h f
    using R(6) that by simp
  have cl: "claims s' j c" if "claims s j c" for c
    using R(8) a that own [of "Full j" c] by (simp add: claims_def)
  have sweep: "l_lock s' \<noteq> Some h" if "owner_of s h = Some (Full j)" "l_lock s \<noteq> Some h" for h
    using R(7) that by simp
  have en: "ended cfg s' d = ended cfg s d" for d
    using R(1,2) by (simp add: ended_def)
  note st = R(2) and now = R(4)
  have fen: "fenced s k \<Longrightarrow> fenced s' k" for k
    using R(13) by (auto simp: fenced_def)
  have torn: "dead_torn cfg s c \<Longrightarrow> dead_torn cfg s' c \<and> d_ino (l_dirs s' c) = d_ino (l_dirs s c)
      \<or> l_lock s' = None \<and> fenced s' (d_ino (l_dirs s c), ''empty-owner'')" for c
    using R(9) by simp
  have dead: "ended cfg s d \<Longrightarrow> claims s d c \<Longrightarrow> claims s' d c \<and> d_ino (l_dirs s' c) = d_ino (l_dirs s c)
      \<or> l_lock s' = None \<and> fenced s' (d_ino (l_dirs s c), record_text cfg d)" for c d
    using R(10) by simp
  have returned: "ended cfg s d \<Longrightarrow> claims s' d c \<Longrightarrow> claims s d c \<and> d_ino (l_dirs s' c) = d_ino (l_dirs s c)" for c d
    using R(11) by simp
  have late_arrival: "(\<forall>c. l_lock s' = Some c \<longrightarrow> n < d_ctime (l_dirs s' c))"
    if "n < l_now s" "\<forall>c. l_lock s = Some c \<longrightarrow> n < d_ctime (l_dirs s c)" for n
  proof (intro allI impI)
    fix c assume c: "l_lock s' = Some c"
    then have "l_lock s = Some c \<and> d_ctime (l_dirs s c) \<le> d_ctime (l_dirs s' c) \<or> d_ctime (l_dirs s' c) = l_now s"
      using R(12) by simp
    with that show "n < d_ctime (l_dirs s' c)" by force
  qed
  have list: "(\<exists>c. dead_torn cfg s' c) \<or> (\<forall>c. l_lock s' = Some c \<longrightarrow> n < d_ctime (l_dirs s' c))"
    if "n < l_now s" and "(\<exists>c. dead_torn cfg s c) \<or> (\<forall>c. l_lock s = Some c \<longrightarrow> n < d_ctime (l_dirs s c))" for n
    using that(2)
  proof
    assume "\<exists>c. dead_torn cfg s c"
    then obtain c where "dead_torn cfg s c" ..
    then show ?thesis using torn [of c] by auto
  next
    assume "\<forall>c. l_lock s = Some c \<longrightarrow> n < d_ctime (l_dirs s c)"
    then show ?thesis using late_arrival that(1) by blast
  qed
  show ?thesis
  proof (cases p)
    case (TornReread st t)
    then show ?thesis using p torn fen by (fastforce simp: point_ok_def torn_key_def)
  next
    case (TornDetach st)
    then show ?thesis using p torn fen by (fastforce simp: point_ok_def torn_key_def)
  next
    case (TornList st t)
    then show ?thesis using p list [of "s_ctime st"] by (simp add: point_ok_def now)
  next
    case (TornRestat st t)
    then show ?thesis using p list [of "s_ctime st"] by (simp add: point_ok_def now)
  next
    case (JudgeOwner st t)
    then obtain d where d: "t = record_text cfg d" "ended cfg s d" "\<forall>c. claims s d c \<longrightarrow> d_ino (l_dirs s c) = s_ino st"
      using p by (auto simp: point_ok_def)
    then have "\<forall>c. claims s' d c \<longrightarrow> d_ino (l_dirs s' c) = s_ino st" using returned [of d] by simp
    with d JudgeOwner show ?thesis by (auto simp: point_ok_def en)
  next
    case (Detach st t)
    then obtain d where d: "t = record_text cfg d" "ended cfg s d" "(\<exists>c. claims s d c \<and> d_ino (l_dirs s c) = s_ino st) \<or> fenced s (s_ino st, t)"
      using p by (auto simp: point_ok_def)
    then have "(\<exists>c. claims s' d c \<and> d_ino (l_dirs s' c) = s_ino st) \<or> fenced s' (s_ino st, t)"
      using dead [of d] fen by fastforce
    with d Detach show ?thesis by (auto simp: point_ok_def en)
  next
    case (NameSweep st h)
    then show ?thesis using p own [of "Full j" h] sweep [of h] by (simp add: point_ok_def)
  next
    case Pinning
    then obtain c where "claims s j c" using p by (auto simp: point_ok_def)
    then have "\<exists>c. claims s' j c" using cl by blast
    with Pinning show ?thesis by (simp add: point_ok_def)
  next
    case (NameVerify st)
    then obtain c where "claims s j c" using p by (auto simp: point_ok_def)
    then have "\<exists>c. claims s' j c" using cl by blast
    with NameVerify show ?thesis by (simp add: point_ok_def)
  next
    case (NameMove st)
    then obtain c where "claims s j c" using p by (auto simp: point_ok_def)
    then have "\<exists>c. claims s' j c" using cl by blast
    with NameMove show ?thesis by (simp add: point_ok_def)
  next
    case (Pinned h)
    then show ?thesis using p cl by (simp add: point_ok_def)
  next
    case (Holding h)
    then show ?thesis using p cl by (simp add: point_ok_def)
  next
    case (Release h)
    then show ?thesis using p cl by (simp add: point_ok_def)
  next
    case (Checking h)
    then show ?thesis using p cl by (simp add: point_ok_def)
  next
    case (Unlinking h)
    then show ?thesis using p cl by (simp add: point_ok_def)
  next
    case (JudgeProbe st t)
    then show ?thesis using p by (simp add: point_ok_def en st)
  next
    case (JudgeBirth st t)
    then show ?thesis using p by (simp add: point_ok_def en st)
  next
    case (JudgeSame st t)
    then show ?thesis using p by (simp add: point_ok_def en st)
  qed (simp_all add: point_ok_def)
qed

lemma attempt_ok_rely:
  assumes "rely cfg j s s'" and "attempt_ok cfg s j p"
  shows "attempt_ok cfg s' j p"
proof -
  have "alive cfg s' j = alive cfg s j" using assms(1) by (simp add: rely_def alive_def)
  with assms show ?thesis by (simp add: attempt_ok_def files_ok_rely point_ok_rely)
qed

end
