(* ===== verification/MeshLockSteps.thy ===== *)
theory MeshLockSteps imports MeshLockSafety begin

text \<open>
  The invariant of the mesh lock is kept by every call, every failing call and every change of the processes, under the
  assumption on the grace period; mutual exclusion and its relatives follow.
\<close>

section \<open>Moving one acquisition\<close>

lemma relyI:
  assumes "l_live s' = l_live s" and "l_started s' = l_started s" and "l_pc s' j = l_pc s j" and "l_now s' = l_now s" and "l_next s \<le> l_next s'"
    and "\<And>h f. creator f = j \<Longrightarrow> (owner_of s' h = Some f) = (owner_of s h = Some f)"
    and "\<And>h. owner_of s h = Some (Full j) \<Longrightarrow> l_lock s \<noteq> Some h \<Longrightarrow> l_lock s' \<noteq> Some h"
    and "\<And>c. alive cfg s j \<Longrightarrow> claims s j c \<Longrightarrow> l_lock s' = Some c"
    and "\<And>c. dead_torn cfg s c \<Longrightarrow> dead_torn cfg s' c \<and> d_ino (l_dirs s' c) = d_ino (l_dirs s c)
          \<or> l_lock s' = None \<and> fenced s' (d_ino (l_dirs s c), ''empty-owner'')"
    and "\<And>c d. ended cfg s d \<Longrightarrow> claims s d c \<Longrightarrow> claims s' d c \<and> d_ino (l_dirs s' c) = d_ino (l_dirs s c)
          \<or> l_lock s' = None \<and> fenced s' (d_ino (l_dirs s c), record_text cfg d)"
    and "\<And>c d. ended cfg s d \<Longrightarrow> claims s' d c \<Longrightarrow> claims s d c \<and> d_ino (l_dirs s' c) = d_ino (l_dirs s c)"
    and "\<And>c. l_lock s' = Some c \<Longrightarrow> l_lock s = Some c \<and> d_ctime (l_dirs s c) \<le> d_ctime (l_dirs s' c) \<or> d_ctime (l_dirs s' c) = l_now s"
    and "fst ` set (l_fence s) \<subseteq> fst ` set (l_fence s')"
  shows "rely cfg j s s'"
  unfolding rely_def by (intro conjI allI impI; (elim conjE)?; (rule assms; assumption | rule conjunct1 [OF assms(11)]; assumption | rule conjunct2 [OF assms(11)]; assumption))

lemma rely_refl: "rely cfg j s s"
  by (rule relyI) (auto simp: claims_def)

lemma set_pc_simps [simp]:
  "l_now (set_pc i p s) = l_now s" "l_lock (set_pc i p s) = l_lock s" "l_dirs (set_pc i p s) = l_dirs s"
  "l_next (set_pc i p s) = l_next s" "l_fence (set_pc i p s) = l_fence s" "l_live (set_pc i p s) = l_live s"
  "l_started (set_pc i p s) = l_started s" "l_pc (set_pc i p s) j = (if j = i then p else l_pc s j)"
  by (simp_all add: set_pc_def)

lemma set_pc_views [simp]:
  "owner_of (set_pc i p s) = owner_of s" "alive cfg (set_pc i p s) = alive cfg s" "ended cfg (set_pc i p s) = ended cfg s"
  "claims (set_pc i p s) = claims s" "fenced (set_pc i p s) = fenced s" "files_ok (set_pc i p s) = files_ok s"
  "fence_key cfg (set_pc i p s) = fence_key cfg s"
  by (simp_all add: fun_eq_iff owner_of_def alive_def ended_def claims_def fenced_def files_ok_def fence_key_def)

lemma quiet_set_pc: "quiet cfg s w \<Longrightarrow> (late (l_pc s i) \<Longrightarrow> late p) \<Longrightarrow> quiet cfg (set_pc i p s) w"
  by (auto simp: quiet_def)

lemma dead_torn_set_pc: "dead_torn cfg s c \<Longrightarrow> (late (l_pc s i) \<Longrightarrow> late p) \<Longrightarrow> dead_torn cfg (set_pc i p s) c"
  unfolding dead_torn_def by (auto intro: quiet_set_pc)

lemma dead_file_set_pc: "dead_file cfg s f \<Longrightarrow> (late (l_pc s i) \<Longrightarrow> late p) \<Longrightarrow> dead_file cfg (set_pc i p s) f"
  unfolding dead_file_def by (auto intro: quiet_set_pc split: owner_file.splits)

lemma rely_set_pc:
  assumes r: "rely cfg j s s'" and "j \<noteq> i" and m: "late (l_pc s' i) \<Longrightarrow> late p"
  shows "rely cfg j s (set_pc i p s')"
proof -
  note R = relyD [OF r]
  show ?thesis
  proof (rule relyI)
    fix c assume "dead_torn cfg s c"
    then show "dead_torn cfg (set_pc i p s') c \<and> d_ino (l_dirs (set_pc i p s') c) = d_ino (l_dirs s c)
        \<or> l_lock (set_pc i p s') = None \<and> fenced (set_pc i p s') (d_ino (l_dirs s c), ''empty-owner'')"
      using R(9) dead_torn_set_pc [OF _ m] by auto
  qed (use R assms(2) in simp_all)
qed

lemma point_ok_set_pc:
  assumes m: "late (l_pc s i) \<Longrightarrow> late p" and q: "point_ok cfg s i q"
  shows "point_ok cfg (set_pc i p s) i q"
proof -
  have d: "dead_torn cfg s c \<Longrightarrow> dead_torn cfg (set_pc i p s) c" for c
    by (rule dead_torn_set_pc [OF _ m])
  show ?thesis
  proof (cases q)
    case (TornList st t)
    then show ?thesis using q d by (auto simp: point_ok_def)
  next
    case (TornRestat st t)
    then show ?thesis using q d by (auto simp: point_ok_def)
  next
    case (TornReread st t)
    then show ?thesis using q d by (auto simp: point_ok_def)
  next
    case (TornDetach st)
    then show ?thesis using q d by (auto simp: point_ok_def)
  qed (use q in \<open>simp_all add: point_ok_def\<close>)
qed

lemma dirs_ok_set_pc:
  assumes "dirs_ok cfg s" and m: "late (l_pc s i) \<Longrightarrow> late p"
  shows "dirs_ok cfg (set_pc i p s)"
proof -
  have "\<exists>f. owner_of s h = Some f \<and> k = fence_key cfg s h f \<and> dead_file cfg (set_pc i p s) f" if "(k, h) \<in> set (l_fence s)" for k h
    using assms(1) that dead_file_set_pc [OF _ m] unfolding dirs_ok_def by blast
  with assms(1) show ?thesis unfolding dirs_ok_def by simp
qed

text \<open>One call of \<open>i\<close>: the directories become those of \<open>s'\<close> and \<open>i\<close> moves to \<open>p\<close>.\<close>

lemma move_ok:
  assumes ok: "lock_ok cfg s" and a: "alive cfg s i"
    and r: "\<And>j. j \<noteq> i \<Longrightarrow> rely cfg j s s'"
    and same: "l_live s' = l_live s" "l_started s' = l_started s" "l_pc s' = l_pc s"
    and d: "dirs_ok cfg s'" and m: "late (l_pc s i) \<Longrightarrow> late p"
    and f: "files_ok s' i p" and q: "point_ok cfg s' i p"
  shows "lock_ok cfg (set_pc i p s')"
proof -
  have m': "late (l_pc s' i) \<Longrightarrow> late p" using m same by simp
  have procs: "procs_ok cfg (set_pc i p s')"
    using ok a same by (auto simp: lock_ok_def procs_ok_def alive_def)
  have "attempt_ok cfg (set_pc i p s') j (l_pc (set_pc i p s') j)" for j
  proof (cases "j = i")
    case True
    with f q show ?thesis by (simp add: attempt_ok_def point_ok_set_pc [OF m'])
  next
    case False
    have "attempt_ok cfg s j (l_pc s j)" using ok by (simp add: lock_ok_def)
    with False same show ?thesis using attempt_ok_rely [OF rely_set_pc [OF r _ m']] by simp
  qed
  with procs d m' show ?thesis by (simp add: lock_ok_def dirs_ok_set_pc)
qed

lemma stay_ok:
  assumes "lock_ok cfg s" and "alive cfg s i" and "late (l_pc s i) \<Longrightarrow> late p"
    and "files_ok s i p" and "point_ok cfg s i p"
  shows "lock_ok cfg (set_pc i p s)"
  using assms by (intro move_ok) (simp_all add: lock_ok_def rely_refl)

text \<open>A point before any file of its own.\<close>

definition bare :: "lock_pc \<Rightarrow> bool" where
  "bare p \<longleftrightarrow> \<not> late p \<and> (case p of Created x h \<Rightarrow> False | Staged h \<Rightarrow> False | Absent h \<Rightarrow> False | _ \<Rightarrow> True)"

lemma bareD: "bare p \<Longrightarrow> \<not> late p \<and> p \<noteq> Created x h \<and> p \<noteq> Staged h \<and> p \<noteq> Absent h"
  by (cases p) (simp_all add: bare_def late_def)

lemma files_ok_late: "late p \<Longrightarrow> files_ok s i p"
  unfolding files_ok_def by (cases p) (simp_all add: late_def)

lemma bare_no_file: "files_ok s i p \<Longrightarrow> bare p \<Longrightarrow> owner_of s h = Some f \<Longrightarrow> creator f \<noteq> i"
  unfolding files_ok_def using bareD by blast

lemma files_ok_bare:
  assumes "files_ok s i q" and "bare q" and "bare p" and "\<And>x h. p = Opening x h \<Longrightarrow> h < l_next s"
  shows "files_ok s i p"
proof -
  have "owner_of s h = Some f \<Longrightarrow> creator f \<noteq> i" for h f using bare_no_file assms(1,2) by blast
  then show ?thesis unfolding files_ok_def using assms(4) bareD [OF assms(3)] by blast
qed

lemma bare_calls [simp]: "bare Trying" "bare JudgeStat"
  by (simp_all add: bare_def late_def)

lemma files_ok_trying: "files_ok s i q \<Longrightarrow> bare q \<Longrightarrow> files_ok s i Trying"
  by (rule files_ok_bare) simp_all

lemma to_late: "lock_ok cfg s \<Longrightarrow> alive cfg s i \<Longrightarrow> late p \<Longrightarrow> point_ok cfg s i p \<Longrightarrow> lock_ok cfg (set_pc i p s)"
  by (rule stay_ok) (simp_all add: files_ok_late)

lemma to_bare:
  assumes "lock_ok cfg s" and "alive cfg s i" and "bare (l_pc s i)" and "bare p"
    and "\<And>x h. p = Opening x h \<Longrightarrow> h < l_next s" and "point_ok cfg s i p"
  shows "lock_ok cfg (set_pc i p s)"
proof (rule stay_ok [OF assms(1,2)])
  show "late (l_pc s i) \<Longrightarrow> late p" using assms(3) by (simp add: bare_def)
  show "files_ok s i p" using assms files_ok_bare by (auto simp: lock_ok_def attempt_ok_def)
qed (rule assms)

lemma to_next:
  "lock_ok cfg s \<Longrightarrow> alive cfg s i \<Longrightarrow> late p \<or> bare (l_pc s i) \<and> bare p \<and> (\<forall>x h. p = Opening x h \<longrightarrow> h < l_next s) \<Longrightarrow>
    point_ok cfg s i p \<Longrightarrow> lock_ok cfg (set_pc i p s)"
  by (meson to_late to_bare)

section \<open>Calls that change the directories\<close>

lemma ok_owner_lt: "lock_ok cfg s \<Longrightarrow> owner_of s h = Some f \<Longrightarrow> h < l_next s"
  unfolding lock_ok_def dirs_ok_def by fastforce

lemma ok_lock_lt: "lock_ok cfg s \<Longrightarrow> l_lock s = Some c \<Longrightarrow> c < l_next s"
  unfolding lock_ok_def dirs_ok_def by simp

lemma ok_one_file: "lock_ok cfg s \<Longrightarrow> owner_of s h = Some f \<Longrightarrow> owner_of s h' = Some f' \<Longrightarrow> creator f = creator f' \<Longrightarrow> h = h'"
  unfolding lock_ok_def dirs_ok_def by blast

lemma ok_fence: "lock_ok cfg s \<Longrightarrow> (k, h) \<in> set (l_fence s) \<Longrightarrow>
    l_lock s \<noteq> Some h \<and> (\<exists>f. owner_of s h = Some f \<and> k = fence_key cfg s h f \<and> dead_file cfg s f)"
  unfolding lock_ok_def dirs_ok_def by blast

lemma ok_files: "lock_ok cfg s \<Longrightarrow> files_ok s i (l_pc s i)"
  unfolding lock_ok_def attempt_ok_def by blast

lemma ok_point: "lock_ok cfg s \<Longrightarrow> alive cfg s i \<Longrightarrow> point_ok cfg s i (l_pc s i)"
  unfolding lock_ok_def attempt_ok_def by blast

lemma ok_dirs: "lock_ok cfg s \<Longrightarrow> dirs_ok cfg s"
  unfolding lock_ok_def by blast

lemma alive_not_ended: "alive cfg s i \<Longrightarrow> \<not> ended cfg s i"
  by (simp add: alive_def ended_def)

text \<open>The files a call may touch belong to a writer that is at work, so no receipt holds them.\<close>

lemma busy_not_fenced:
  assumes "lock_ok cfg s" and "owner_of s h = Some f" and "\<not> dead_file cfg s f"
  shows "(k, h) \<notin> set (l_fence s)"
  using ok_fence [OF assms(1)] assms(2,3) by fastforce

lemma dead_file_full [simp]: "dead_file cfg s (Full i) = ended cfg s i"
  and dead_file_torn [simp]: "dead_file cfg s (Torn w) = quiet cfg s w"
  by (simp_all add: dead_file_def)

lemma world_views [simp]:
  "owner_of (set_dir h d s) = (owner_of s)(h := d_owner d)"
  "l_dirs (set_dir h d s) = (l_dirs s)(h := d)"
  "l_lock (set_dir h d s) = l_lock s" "l_next (set_dir h d s) = l_next s" "l_fence (set_dir h d s) = l_fence s"
  "l_live (set_dir h d s) = l_live s" "l_started (set_dir h d s) = l_started s" "l_pc (set_dir h d s) = l_pc s"
  "l_now (set_dir h d s) = l_now s"
  by (simp_all add: set_dir_def owner_of_def fun_eq_iff)

lemma lock_update_views [simp]:
  "owner_of (s\<lparr>l_lock := x\<rparr>) = owner_of s" "owner_of (s\<lparr>l_fence := g\<rparr>) = owner_of s" "owner_of (s\<lparr>l_next := n\<rparr>) = owner_of s"
  "owner_of (s\<lparr>l_dirs := ds\<rparr>) = (\<lambda>h. d_owner (ds h))"
  by (simp_all add: owner_of_def fun_eq_iff)

lemma quiet_same: "l_pc s' = l_pc s \<Longrightarrow> l_live s' = l_live s \<Longrightarrow> l_started s' = l_started s \<Longrightarrow> quiet cfg s' = quiet cfg s"
  by (simp add: quiet_def ended_def fun_eq_iff)

text \<open>
  A change of the directories that leaves the canonical name, the receipts and the inode numbers alone, and touches the
  owner of one directory only, whose file is the actor's before and after.
\<close>

lemma change_owner:
  assumes ok: "lock_ok cfg s" and a: "alive cfg s i" and d: "d_ino d = d_ino (l_dirs s h)" "d_ctime (l_dirs s h) \<le> d_ctime d \<or> d_ctime d = l_now s"
    and h: "h < l_next s"
    and before: "\<And>f. owner_of s h = Some f \<Longrightarrow> creator f = i \<and> \<not> dead_file cfg s f"
    and after: "\<And>f. d_owner d = Some f \<Longrightarrow> creator f = i" and only: "\<And>h' f. owner_of s h' = Some f \<Longrightarrow> creator f = i \<Longrightarrow> h' = h"
  shows "dirs_ok cfg (set_dir h d s)" and "j \<noteq> i \<Longrightarrow> rely cfg j s (set_dir h d s)"
proof -
  have q: "quiet cfg (set_dir h d s) = quiet cfg s" by (rule quiet_same) simp_all
  have e: "ended cfg (set_dir h d s) = ended cfg s" by (simp add: fun_eq_iff ended_def)
  have df: "dead_file cfg (set_dir h d s) = dead_file cfg s" by (auto simp: fun_eq_iff dead_file_def q e split: owner_file.splits)
  have nf: "(k, h) \<notin> set (l_fence s)" for k
  proof
    assume k: "(k, h) \<in> set (l_fence s)"
    then obtain f where "owner_of s h = Some f" "dead_file cfg s f" using ok_fence [OF ok k] by blast
    then show False using before by blast
  qed
  show "dirs_ok cfg (set_dir h d s)"
    unfolding dirs_ok_def
  proof (intro conjI)
    show "\<forall>c. l_lock (set_dir h d s) = Some c \<longrightarrow> c < l_next (set_dir h d s)" using ok_lock_lt [OF ok] by simp
    show "\<forall>h'. owner_of (set_dir h d s) h' \<noteq> None \<longrightarrow> h' < l_next (set_dir h d s)" using ok_owner_lt [OF ok] h by auto
    show "\<forall>h' h'' f f'. owner_of (set_dir h d s) h' = Some f \<and> owner_of (set_dir h d s) h'' = Some f' \<and> creator f = creator f' \<longrightarrow> h' = h''"
      using ok_one_file [OF ok] after only by (auto split: if_splits)
    show "\<forall>k h'. (k, h') \<in> set (l_fence (set_dir h d s)) \<longrightarrow> l_lock (set_dir h d s) \<noteq> Some h' \<and>
        (\<exists>f. owner_of (set_dir h d s) h' = Some f \<and> k = fence_key cfg (set_dir h d s) h' f \<and> dead_file cfg (set_dir h d s) f)"
    proof (intro allI impI)
      fix k h' assume k: "(k, h') \<in> set (l_fence (set_dir h d s))"
      then have "h' \<noteq> h" using nf [of k] by auto
      then show "l_lock (set_dir h d s) \<noteq> Some h' \<and>
          (\<exists>f. owner_of (set_dir h d s) h' = Some f \<and> k = fence_key cfg (set_dir h d s) h' f \<and> dead_file cfg (set_dir h d s) f)"
        using ok_fence [OF ok, of k h'] k by (simp add: fence_key_def df)
    qed
  qed
  show "rely cfg j s (set_dir h d s)" if j: "j \<noteq> i"
  proof (rule relyI)
    show "(owner_of (set_dir h d s) h' = Some f) = (owner_of s h' = Some f)" if "creator f = j" for h' f
      using before [of f] after [of f] that j by auto
    show "dead_torn cfg (set_dir h d s) c \<and> d_ino (l_dirs (set_dir h d s) c) = d_ino (l_dirs s c)
        \<or> l_lock (set_dir h d s) = None \<and> fenced (set_dir h d s) (d_ino (l_dirs s c), ''empty-owner'')" if "dead_torn cfg s c" for c
    proof -
      from that have "c \<noteq> h" using before by (auto simp: dead_torn_def)
      with that show ?thesis by (simp add: dead_torn_def q)
    qed
    show "claims (set_dir h d s) e c \<and> d_ino (l_dirs (set_dir h d s) c) = d_ino (l_dirs s c)
        \<or> l_lock (set_dir h d s) = None \<and> fenced (set_dir h d s) (d_ino (l_dirs s c), record_text cfg e)"
      if "ended cfg s e" "claims s e c" for c e
    proof -
      from that have "c \<noteq> h" using before by (auto simp: claims_def)
      with that show ?thesis by (simp add: claims_def)
    qed
    show "claims s e c \<and> d_ino (l_dirs (set_dir h d s) c) = d_ino (l_dirs s c)" if "ended cfg s e" "claims (set_dir h d s) e c" for c e
    proof -
      from that have "c \<noteq> h" using after alive_not_ended [OF a] by (auto simp: claims_def split: if_splits)
      with that show ?thesis by (simp add: claims_def)
    qed
    show "l_lock s = Some c \<and> d_ctime (l_dirs s c) \<le> d_ctime (l_dirs (set_dir h d s) c) \<or> d_ctime (l_dirs (set_dir h d s) c) = l_now s"
      if "l_lock (set_dir h d s) = Some c" for c
      using that d by auto
  qed (auto simp: claims_def)
qed

text \<open>A change of what the canonical name denotes, and with it perhaps of the receipts.\<close>

lemma jm_set_pairs: "(k', h') \<in> set (jm_set k h m) \<Longrightarrow> (k', h') = (k, h) \<or> (k', h') \<in> set m"
  using set_jm_set [of k h m] by auto

lemma jm_set_fst: "fst ` set (jm_set k h m) = insert k (fst ` set m)"
  by (induction k h m rule: jm_set.induct) auto

lemma change_lock:
  assumes ok: "lock_ok cfg s" and a: "alive cfg s i"
    and same: "l_live s' = l_live s" "l_started s' = l_started s" "l_pc s' = l_pc s" "l_now s' = l_now s" "l_next s \<le> l_next s'"
    and own: "owner_of s' = owner_of s" and ino: "\<And>h. h < l_next s \<Longrightarrow> d_ino (l_dirs s' h) = d_ino (l_dirs s h)"
    and fence: "l_fence s' = l_fence s \<or> (\<exists>c f. l_lock s = Some c \<and> owner_of s c = Some f \<and> dead_file cfg s f \<and> l_lock s' = None
        \<and> l_fence s' = jm_set (fence_key cfg s c f) c (l_fence s))"
    and left: "\<And>c f. l_lock s = Some c \<Longrightarrow> owner_of s c = Some f \<Longrightarrow>
        f = Full i \<or> dead_file cfg s f \<and> fenced s' (fence_key cfg s c f) \<and> l_lock s' = None"
    and arrived: "\<And>c. l_lock s' = Some c \<Longrightarrow> c < l_next s' \<and> d_ctime (l_dirs s' c) = l_now s
        \<and> (owner_of s c = None \<or> owner_of s c = Some (Full i)) \<and> (\<forall>k. (k, c) \<notin> set (l_fence s'))"
  shows "dirs_ok cfg s'" and "j \<noteq> i \<Longrightarrow> rely cfg j s s'"
proof -
  have q: "quiet cfg s' = quiet cfg s" by (rule quiet_same) (simp_all add: same)
  have e: "ended cfg s' = ended cfg s" by (simp add: fun_eq_iff ended_def same)
  have df: "dead_file cfg s' = dead_file cfg s" by (auto simp: fun_eq_iff dead_file_def q e split: owner_file.splits)
  have key: "fence_key cfg s' h f = fence_key cfg s h f" if "owner_of s h = Some f" for h f
    using ino [OF ok_owner_lt [OF ok that]] by (simp add: fence_key_def)
  have fk: "l_lock s' \<noteq> Some h \<and> (\<exists>f. owner_of s' h = Some f \<and> k = fence_key cfg s' h f \<and> dead_file cfg s' f)"
    if k: "(k, h) \<in> set (l_fence s')" for k h
  proof -
    have "l_lock s' \<noteq> Some h" using arrived k by blast
    moreover have "\<exists>f. owner_of s h = Some f \<and> k = fence_key cfg s h f \<and> dead_file cfg s f"
      using fence
    proof
      assume "l_fence s' = l_fence s"
      then show ?thesis using ok_fence [OF ok, of k h] k by simp
    next
      assume "\<exists>c f. l_lock s = Some c \<and> owner_of s c = Some f \<and> dead_file cfg s f \<and> l_lock s' = None
        \<and> l_fence s' = jm_set (fence_key cfg s c f) c (l_fence s)"
      then obtain c f where c: "owner_of s c = Some f" "dead_file cfg s f" "l_fence s' = jm_set (fence_key cfg s c f) c (l_fence s)"
        by blast
      have "(k, h) = (fence_key cfg s c f, c) \<or> (k, h) \<in> set (l_fence s)" using jm_set_pairs k c(3) by metis
      then show ?thesis using c ok_fence [OF ok, of k h] by auto
    qed
    ultimately show ?thesis using key own df by auto
  qed
  show "dirs_ok cfg s'"
    unfolding dirs_ok_def
  proof (intro conjI)
    show "\<forall>c. l_lock s' = Some c \<longrightarrow> c < l_next s'" using arrived by blast
    show "\<forall>h. owner_of s' h \<noteq> None \<longrightarrow> h < l_next s'" using ok_owner_lt [OF ok] own same(5) by fastforce
    show "\<forall>h h' f f'. owner_of s' h = Some f \<and> owner_of s' h' = Some f' \<and> creator f = creator f' \<longrightarrow> h = h'"
      using ok_one_file [OF ok] own by metis
    show "\<forall>k h. (k, h) \<in> set (l_fence s') \<longrightarrow> l_lock s' \<noteq> Some h \<and>
        (\<exists>f. owner_of s' h = Some f \<and> k = fence_key cfg s' h f \<and> dead_file cfg s' f)"
      using fk by blast
  qed
  show "rely cfg j s s'" if j: "j \<noteq> i"
  proof (rule relyI)
    show "l_lock s' \<noteq> Some h" if "owner_of s h = Some (Full j)" "l_lock s \<noteq> Some h" for h
      using arrived [of h] that j by auto
    show "l_lock s' = Some c" if "alive cfg s j" "claims s j c" for c
      using left [of c "Full j"] that j alive_not_ended [of cfg s j] by (auto simp: claims_def)
    show "dead_torn cfg s' c \<and> d_ino (l_dirs s' c) = d_ino (l_dirs s c) \<or> l_lock s' = None \<and> fenced s' (d_ino (l_dirs s c), ''empty-owner'')"
      if "dead_torn cfg s c" for c
      using that left [of c] by (auto simp: dead_torn_def fence_key_def)
    show "claims s' d c \<and> d_ino (l_dirs s' c) = d_ino (l_dirs s c) \<or> l_lock s' = None \<and> fenced s' (d_ino (l_dirs s c), record_text cfg d)"
      if "ended cfg s d" "claims s d c" for c d
      using that left [of c "Full d"] alive_not_ended [OF a] by (auto simp: claims_def fence_key_def)
    show "claims s d c \<and> d_ino (l_dirs s' c) = d_ino (l_dirs s c)" if "ended cfg s d" "claims s' d c" for c d
      using that arrived [of c] own alive_not_ended [OF a] by (auto simp: claims_def)
    show "l_lock s = Some c \<and> d_ctime (l_dirs s c) \<le> d_ctime (l_dirs s' c) \<or> d_ctime (l_dirs s' c) = l_now s" if "l_lock s' = Some c" for c
      using arrived [OF that] by blast
    show "fst ` set (l_fence s) \<subseteq> fst ` set (l_fence s')"
      using fence by (elim disjE exE conjE) (simp_all add: jm_set_fst subset_insertI)
  qed (simp_all add: same own)
qed

text \<open>A staged directory appears, of an acquisition that has no file yet.\<close>

lemma add_staged:
  assumes ok: "lock_ok cfg s" and a: "alive cfg s i" and no: "\<And>h f. owner_of s h = Some f \<Longrightarrow> creator f \<noteq> i"
  shows "dirs_ok cfg (add_dir n (Some (Full i)) s)" and "j \<noteq> i \<Longrightarrow> rely cfg j s (add_dir n (Some (Full i)) s)"
proof -
  let ?s = "add_dir n (Some (Full i)) s"
  have own: "owner_of ?s = (owner_of s)(l_next s := Some (Full i))"
    by (simp add: add_dir_def new_dir_def owner_of_def fun_eq_iff)
  have v: "l_lock ?s = l_lock s" "l_fence ?s = l_fence s" "l_live ?s = l_live s" "l_started ?s = l_started s" "l_pc ?s = l_pc s"
    "l_now ?s = l_now s" "l_next ?s = Suc (l_next s)" by (simp_all add: add_dir_def)
  have dirs: "h \<noteq> l_next s \<Longrightarrow> l_dirs ?s h = l_dirs s h" for h by (simp add: add_dir_def)
  have q: "quiet cfg ?s = quiet cfg s" by (rule quiet_same) (simp_all add: v)
  have e: "ended cfg ?s = ended cfg s" by (simp add: fun_eq_iff ended_def v)
  have df: "dead_file cfg ?s = dead_file cfg s" by (auto simp: fun_eq_iff dead_file_def q e split: owner_file.splits)
  have fresh: "owner_of s (l_next s) = None" using ok_owner_lt [OF ok, of "l_next s"] by (cases "owner_of s (l_next s)") auto
  have lt: "c \<noteq> l_next s" if "l_lock s = Some c" for c using ok_lock_lt [OF ok that] by simp
  show "dirs_ok cfg ?s"
    unfolding dirs_ok_def
  proof (intro conjI)
    show "\<forall>c. l_lock ?s = Some c \<longrightarrow> c < l_next ?s" using ok_lock_lt [OF ok] by (auto simp: v less_Suc_eq)
    show "\<forall>h. owner_of ?s h \<noteq> None \<longrightarrow> h < l_next ?s" using ok_owner_lt [OF ok] by (auto simp: v own less_Suc_eq)
    show "\<forall>h h' f f'. owner_of ?s h = Some f \<and> owner_of ?s h' = Some f' \<and> creator f = creator f' \<longrightarrow> h = h'"
      using ok_one_file [OF ok] by (auto simp: own split: if_splits dest: no)
    show "\<forall>k h. (k, h) \<in> set (l_fence ?s) \<longrightarrow> l_lock ?s \<noteq> Some h \<and>
        (\<exists>f. owner_of ?s h = Some f \<and> k = fence_key cfg ?s h f \<and> dead_file cfg ?s f)"
    proof (intro allI impI)
      fix k h assume k: "(k, h) \<in> set (l_fence ?s)"
      then obtain f where f: "l_lock s \<noteq> Some h" "owner_of s h = Some f" "k = fence_key cfg s h f" "dead_file cfg s f"
        using ok_fence [OF ok, of k h] v by auto
      then have "h \<noteq> l_next s" using fresh by auto
      with f show "l_lock ?s \<noteq> Some h \<and> (\<exists>f. owner_of ?s h = Some f \<and> k = fence_key cfg ?s h f \<and> dead_file cfg ?s f)"
        by (simp add: v own df dirs fence_key_def)
    qed
  qed
  show "rely cfg j s ?s" if j: "j \<noteq> i"
  proof (rule relyI)
    show "(owner_of ?s h = Some f) = (owner_of s h = Some f)" if "creator f = j" for h f
      using that j fresh by (auto simp: own)
  qed (auto simp: v own claims_def dead_torn_def q dirs dest: lt)
qed

section \<open>The calls of an acquisition\<close>

lemmas kinds = late_def bare_def point_ok_def

lemma sound_text: "sound_config cfg \<Longrightarrow> record_text cfg i = record_text cfg j \<Longrightarrow> i = j"
  unfolding sound_config_def record_text_def using owner_text_token by metis

lemma file_text_simps [simp]: "file_text cfg (Torn i) = []" "file_text cfg (Full i) = record_text cfg i"
  by (simp_all add: file_text_def)

lemma record_text_not_Nil [simp]: "record_text cfg i \<noteq> []"
  by (simp add: record_text_def)

lemma file_is_mine: "sound_config cfg \<Longrightarrow> file_text cfg f = record_text cfg i \<Longrightarrow> f = Full i"
  using sound_text by (cases f) (auto simp: record_text_not_Nil [symmetric])

text \<open>Whoever reads its own record at the canonical path holds the lock.\<close>

lemma canonical_owner_Some: "canonical_owner s = Some f \<longleftrightarrow> (\<exists>c. l_lock s = Some c \<and> owner_of s c = Some f)"
  by (simp add: canonical_owner_def owner_of_def split: option.splits)

lemma reads_own_claims: "sound_config cfg \<Longrightarrow> read_owner_path cfg s = Some (record_text cfg i) \<Longrightarrow> \<exists>c. claims s i c"
  unfolding read_owner_path_def claims_def using file_is_mine canonical_owner_Some by fastforce

lemma pc_steps_early:
  assumes "lock_ok cfg s" and "alive cfg s i"
  shows "l_pc s i = MadeDir \<Longrightarrow> lock_ok cfg (stat_made i s)"
    and "l_pc s i = Resolving x \<Longrightarrow> lock_ok cfg (resolve_owner i x s)"
    and "l_pc s i = JudgeStat \<Longrightarrow> lock_ok cfg (judge_stat i s)"
    and "l_pc s i = EmptyRestat st \<Longrightarrow> lock_ok cfg (empty_restat i st s)"
    and "l_pc s i = EmptyReread \<Longrightarrow> lock_ok cfg (empty_reread i s)"
    and "l_pc s i = Idle \<Longrightarrow> lock_ok cfg (set_pc i Trying s)"
  using assms ok_lock_lt [OF assms(1)]
  unfolding stat_made_def resolve_owner_def judge_stat_def empty_restat_def empty_reread_def
  by (auto simp: kinds intro!: to_next split: option.split)

lemma pc_steps_late:
  assumes "lock_ok cfg s" and "alive cfg s i"
  shows "l_pc s i = Confirming x \<Longrightarrow> lock_ok cfg (confirm_dir i x s)"
    and "l_pc s i = Emptied x \<Longrightarrow> lock_ok cfg (after_unlink i x s)"
    and "l_pc s i = Proving x \<Longrightarrow> lock_ok cfg (prove_moved i x s)"
    and "l_pc s i = ProvingOwner \<Longrightarrow> lock_ok cfg (prove_owner cfg i s)"
    and "l_pc s i = Ours \<Longrightarrow> lock_ok cfg (check_ours cfg i s)"
    and "l_pc s i = NameStat \<Longrightarrow> lock_ok cfg (name_stat i s)"
  using assms
  unfolding confirm_dir_def after_unlink_def prove_moved_def prove_owner_def check_ours_def name_stat_def
  by (auto simp: kinds intro!: to_late split: option.split)

lemma confirm_owner_ok:
  assumes "sound_config cfg" and "lock_ok cfg s" and "alive cfg s i"
  shows "lock_ok cfg (confirm_owner cfg i s)" and "lock_ok cfg (name_read cfg i st s)"
  using assms(2,3) reads_own_claims [OF assms(1)]
  unfolding confirm_owner_def name_read_def by (auto simp: kinds intro!: to_late)

lemma pinned_ok:
  assumes ok: "lock_ok cfg s" and a: "alive cfg s i"
  shows "l_pc s i = Pinning \<Longrightarrow> lock_ok cfg (open_pin i s)"
    and "l_pc s i = Pinned h \<Longrightarrow> lock_ok cfg (check_pin cfg i h s)"
    and "l_pc s i = Holding h \<Longrightarrow> lock_ok cfg (set_pc i (Release h) s)"
    and "l_pc s i = Release h \<Longrightarrow> lock_ok cfg (release_read cfg i h s)"
    and "l_pc s i = Checking h \<Longrightarrow> lock_ok cfg (release_check i h s)"
  using ok a ok_point [OF ok a]
  unfolding open_pin_def check_pin_def release_read_def release_check_def
  by (auto simp: kinds claims_def intro!: to_late split: option.split)

lemma name_verify_ok: "lock_ok cfg s \<Longrightarrow> alive cfg s i \<Longrightarrow> l_pc s i = NameVerify st \<Longrightarrow> lock_ok cfg (name_verify i st s)"
  using ok_point [of cfg s i] unfolding name_verify_def by (auto simp: kinds intro!: to_late split: option.split)

lemma torn_reads_ok:
  assumes ok: "lock_ok cfg s" and a: "alive cfg s i"
  shows "l_pc s i = TornList st t \<Longrightarrow> lock_ok cfg (torn_list i st t s)"
    and "l_pc s i = TornRestat st t \<Longrightarrow> lock_ok cfg (torn_restat i st t s)"
    and "l_pc s i = TornReread st t \<Longrightarrow> lock_ok cfg (torn_reread cfg i st t s)"
proof -
  note p = ok_point [OF ok a]
  show "lock_ok cfg (torn_list i st t s)" if "l_pc s i = TornList st t"
    unfolding torn_list_def using that p by (intro to_next ok a) (auto simp: kinds split: if_splits)
  show "lock_ok cfg (torn_reread cfg i st t s)" if "l_pc s i = TornReread st t"
    unfolding torn_reread_def using that p by (intro to_next ok a) (auto simp: kinds split: if_splits)
  show "lock_ok cfg (torn_restat i st t s)" if pc: "l_pc s i = TornRestat st t"
  proof (cases "lstat_lock s = Some st")
    case True
    then obtain c where c: "l_lock s = Some c" "stat_of (l_dirs s c) = st" by (auto simp: lstat_lock_def)
    then have "s_ctime st = d_ctime (l_dirs s c)" "s_ino st = d_ino (l_dirs s c)" by (auto simp: stat_of_def)
    then have "point_ok cfg s i (TornReread st t)" using p pc c by (auto simp: kinds dead_torn_def)
    then show ?thesis unfolding torn_restat_def using pc True by (intro to_next ok a) (auto simp: kinds split: if_splits)
  next
    case False
    then show ?thesis unfolding torn_restat_def using pc by (intro to_next ok a) (auto simp: kinds split: if_splits)
  qed
qed

section \<open>Judging the owner\<close>

lemma live_pid_Some: "live_pid cfg host pid s = Some p \<Longrightarrow> \<exists>q \<in> set (l_live s). p = c_process cfg q \<and> p_host p = host \<and> p_pid p = pid"
  unfolding live_pid_def by (fastforce simp: find_Some_iff)

lemma live_pid_None: "live_pid cfg host pid s = None \<Longrightarrow> q \<in> set (l_live s) \<Longrightarrow> p_host (c_process cfg q) = host \<Longrightarrow> p_pid (c_process cfg q) \<noteq> pid"
  unfolding live_pid_def by (auto simp: find_None_iff)

lemma sound_reading:
  assumes "sound_config cfg"
  shows "read_owner (record_text cfg d) = Readable \<lparr>o_pid = p_pid (att_process cfg d),
    o_start = recorded_start (att_process cfg d) (c_att cfg d), o_ns = recorded_ns (att_process cfg d) (c_att cfg d)\<rparr>"
  unfolding record_text_def using assms by (intro read_owner_text) (auto simp: sound_config_def)

lemma sound_ns:
  assumes "sound_config cfg" and "p_ns (c_process cfg p) = Some t" and "p_ns (c_process cfg q) = Some t"
  shows "p_host (c_process cfg p) = p_host (c_process cfg q)"
  using assms unfolding sound_config_def by (elim conjE) blast

lemma sound_legacy:
  assumes "sound_config cfg" and "a_protocol (c_att cfg i) \<noteq> Protocol3" and "a_protocol (c_att cfg j) \<noteq> Protocol3"
  shows "p_host (att_process cfg i) = p_host (att_process cfg j)"
  using assms unfolding sound_config_def by (elim conjE) blast

lemma sound_start:
  assumes "sound_config cfg"
  shows "p_start (c_process cfg p) = None \<or> p_start (c_process cfg p) = incarnation (c_process cfg p)"
  using assms unfolding sound_config_def by (elim conjE) blast

text \<open>Pid evidence is only used on a record written on the recoverer's own host.\<close>

lemma evidence_same_host:
  assumes c: "sound_config cfg"
    and m: "may_use_pid (a_protocol (c_att cfg i)) (p_ns (att_process cfg i)) (recorded_ns (att_process cfg d) (c_att cfg d)) local"
  shows "p_host (att_process cfg i) = p_host (att_process cfg d)"
proof (cases "a_protocol (c_att cfg d) = Protocol3")
  case True
  then obtain r where r: "recorded_ns (att_process cfg d) (c_att cfg d) = Some r" by (simp add: recorded_ns_def)
  with m have own: "p_ns (att_process cfg i) = Some r" "well_formed_ns r" using may_use_pid_ns by simp_all
  then have "r \<noteq> []" by (cases r) simp_all
  with r True have "p_ns (att_process cfg d) = Some r" by (cases "p_ns (att_process cfg d)") (simp_all add: recorded_ns_def)
  then show ?thesis by (rule sound_ns [OF c own(1)])
next
  case False
  then have "recorded_ns (att_process cfg d) (c_att cfg d) = None" by (simp add: recorded_ns_def)
  with m have "a_protocol (c_att cfg i) \<noteq> Protocol3" by (simp add: may_use_pid_def)
  then show ?thesis using False by (rule sound_legacy [OF c])
qed

lemma ok_owner_started:
  assumes ok: "lock_ok cfg s" and o: "owner_of s h = Some f"
  shows "a_proc (c_att cfg (creator f)) \<in> set (l_started s)"
proof -
  have "l_pc s (creator f) \<noteq> Idle" using bare_no_file [OF ok_files [OF ok, of "creator f"] _ o] by (auto simp: bare_def late_def)
  then show ?thesis using ok by (simp add: lock_ok_def procs_ok_def)
qed

lemma judge_read_ok:
  assumes c: "sound_config cfg" and ok: "lock_ok cfg s" and a: "alive cfg s i" and pc: "l_pc s i = JudgeRead st"
    and g: "graceful cfg s (Go i n)"
  shows "lock_ok cfg (judge_read cfg i st s)"
proof (cases "canonical_owner s")
  case None
  then show ?thesis unfolding judge_read_def read_owner_path_def
    by (intro to_next ok a) (auto simp: kinds pc)
next
  case (Some f)
  then obtain h where h: "l_lock s = Some h" "owner_of s h = Some f" by (auto simp: canonical_owner_Some)
  show ?thesis
  proof (cases f)
    case (Torn w)
    have "point_ok cfg s i (judge_unreadable cfg i st [] None s)"
    proof (cases "max (s_ctime st) (s_mtime st) + c_stale cfg < l_now s")
      case True
      with g a Some Torn pc have "quiet cfg s w" by (simp add: graceful_def)
      with h Torn have "dead_torn cfg s h" by (simp add: dead_torn_def)
      with True show ?thesis by (auto simp: judge_unreadable_def point_ok_def)
    qed (simp add: judge_unreadable_def point_ok_def)
    then show ?thesis using Some Torn unfolding judge_read_def read_owner_path_def
      by (intro to_next ok a) (auto simp: late_def bare_def pc judge_unreadable_def)
  next
    case (Full d)
    have p: "point_ok cfg s i (JudgeProbe st (record_text cfg d))"
      if "may_use_pid (a_protocol (c_att cfg i)) (p_ns (att_process cfg i)) (recorded_ns (att_process cfg d) (c_att cfg d)) (c_local cfg)"
      using evidence_same_host [OF c that] ok_owner_started [OF ok h(2)] Full by (auto simp: point_ok_def)
    have q: "point_ok cfg s i Trying" by (simp add: point_ok_def)
    show ?thesis using Some Full unfolding judge_read_def read_owner_path_def
      by (intro to_next ok a) (auto simp: late_def bare_def pc sound_reading [OF c] p q)
  qed
qed

text \<open>The probe of the pid and of the birth convict only a process that has ended.\<close>

lemma probe_convicts:
  assumes c: "sound_config cfg" and ok: "lock_ok cfg s"
    and host: "p_host (att_process cfg i) = p_host (att_process cfg d)" and st: "a_proc (c_att cfg d) \<in> set (l_started s)"
  shows "live_pid cfg (p_host (att_process cfg i)) (p_pid (att_process cfg d)) s = None \<Longrightarrow> ended cfg s d"
    and "live_pid cfg (p_host (att_process cfg i)) (p_pid (att_process cfg d)) s = Some p \<Longrightarrow> incarnation p = Some b \<Longrightarrow>
      recorded_start (att_process cfg d) (c_att cfg d) \<noteq> Some b \<Longrightarrow> recorded_start (att_process cfg d) (c_att cfg d) \<noteq> None \<Longrightarrow> ended cfg s d"
proof -
  show "ended cfg s d" if "live_pid cfg (p_host (att_process cfg i)) (p_pid (att_process cfg d)) s = None"
    using live_pid_None [OF that] host st by (auto simp: ended_def)
  show "ended cfg s d" if l: "live_pid cfg (p_host (att_process cfg i)) (p_pid (att_process cfg d)) s = Some p"
    and b: "incarnation p = Some b" and r: "recorded_start (att_process cfg d) (c_att cfg d) \<noteq> Some b"
      "recorded_start (att_process cfg d) (c_att cfg d) \<noteq> None"
  proof (rule ccontr)
    assume "\<not> ended cfg s d"
    with st have live: "a_proc (c_att cfg d) \<in> set (l_live s)" by (simp add: ended_def)
    obtain q where q: "q \<in> set (l_live s)" "p = c_process cfg q" "p_host p = p_host (att_process cfg i)" "p_pid p = p_pid (att_process cfg d)"
      using live_pid_Some [OF l] by blast
    then have "q = a_proc (c_att cfg d)" using ok live host by (auto simp: lock_ok_def procs_ok_def)
    with b q have "incarnation (att_process cfg d) = Some b" by simp
    moreover have "p_start (att_process cfg d) = None \<or> p_start (att_process cfg d) = incarnation (att_process cfg d)"
      by (rule sound_start [OF c])
    ultimately show False using r by (auto simp: recorded_start_def split: if_splits)
  qed
qed

lemma judge_pid_ok:
  assumes c: "sound_config cfg" and ok: "lock_ok cfg s" and a: "alive cfg s i"
  shows "l_pc s i = JudgeProbe st t \<Longrightarrow> lock_ok cfg (judge_probe cfg i st t s)"
    and "l_pc s i = JudgeBirth st t \<Longrightarrow> lock_ok cfg (judge_birth cfg i st t s)"
proof -
  assume pc: "l_pc s i = JudgeProbe st t"
  then obtain d where d: "t = record_text cfg d" "p_host (att_process cfg i) = p_host (att_process cfg d)" "a_proc (c_att cfg d) \<in> set (l_started s)"
    using ok_point [OF ok a] by (auto simp: point_ok_def)
  have "point_ok cfg s i (JudgeSame st t)" if "live_pid cfg (p_host (att_process cfg i)) (p_pid (att_process cfg d)) s = None"
    using probe_convicts(1) [OF c ok d(2,3) that] d(1) by (auto simp: point_ok_def)
  moreover have "point_ok cfg s i (JudgeBirth st t)" if "recorded_start (att_process cfg d) (c_att cfg d) \<noteq> None"
    using d that by (auto simp: point_ok_def)
  moreover have "point_ok cfg s i Trying" by (simp add: point_ok_def)
  ultimately show "lock_ok cfg (judge_probe cfg i st t s)" unfolding judge_probe_def
    by (intro to_next ok a) (auto simp: late_def bare_def pc sound_reading [OF c] d(1) split: option.split)
next
  assume pc: "l_pc s i = JudgeBirth st t"
  then obtain d where d: "t = record_text cfg d" "p_host (att_process cfg i) = p_host (att_process cfg d)" "a_proc (c_att cfg d) \<in> set (l_started s)"
    and known: "recorded_start (att_process cfg d) (c_att cfg d) \<noteq> None"
    using ok_point [OF ok a] by (auto simp: point_ok_def)
  have "point_ok cfg s i (JudgeSame st t)"
    if "live_pid cfg (p_host (att_process cfg i)) (p_pid (att_process cfg d)) s = Some p" "incarnation p = Some b"
      "recorded_start (att_process cfg d) (c_att cfg d) \<noteq> Some b" for p b
    using probe_convicts(2) [OF c ok d(2,3) that known] d(1) by (auto simp: point_ok_def)
  moreover have "point_ok cfg s i Trying" by (simp add: point_ok_def)
  ultimately show "lock_ok cfg (judge_birth cfg i st t s)" unfolding judge_birth_def
    by (intro to_next ok a) (auto simp: late_def bare_def pc sound_reading [OF c] d(1) split: option.split)
qed

lemma judge_same_ok:
  assumes c: "sound_config cfg" and ok: "lock_ok cfg s" and a: "alive cfg s i"
  shows "l_pc s i = JudgeSame st t \<Longrightarrow> lock_ok cfg (judge_same i st t s)"
    and "l_pc s i = JudgeOwner st t \<Longrightarrow> lock_ok cfg (judge_owner cfg i st t s)"
proof -
  assume pc: "l_pc s i = JudgeSame st t"
  then obtain d where d: "t = record_text cfg d" "ended cfg s d"
    using ok_point [OF ok a] by (auto simp: point_ok_def)
  show "lock_ok cfg (judge_same i st t s)"
  proof (cases "l_lock s")
    case None
    then show ?thesis unfolding judge_same_def lstat_lock_def by (intro to_next ok a) (auto simp: kinds pc)
  next
    case (Some h)
    have "point_ok cfg s i (JudgeOwner st t)" if "d_ino (l_dirs s h) = s_ino st"
      using d Some that by (auto simp: point_ok_def claims_def)
    moreover have "point_ok cfg s i Trying" by (simp add: point_ok_def)
    ultimately show ?thesis unfolding judge_same_def lstat_lock_def
      by (intro to_next ok a) (auto simp: late_def bare_def pc Some stat_of_def)
  qed
next
  assume pc: "l_pc s i = JudgeOwner st t"
  then obtain d where d: "t = record_text cfg d" "ended cfg s d" "\<forall>c. claims s d c \<longrightarrow> d_ino (l_dirs s c) = s_ino st"
    using ok_point [OF ok a] by (auto simp: point_ok_def)
  have "point_ok cfg s i (Detach st t)" if "read_owner_path cfg s = Some t"
    using d reads_own_claims [OF c, of s d] that by (auto simp: point_ok_def)
  moreover have "point_ok cfg s i Trying" by (simp add: point_ok_def)
  ultimately show "lock_ok cfg (judge_owner cfg i st t s)" unfolding judge_owner_def
    by (intro to_next ok a) (auto simp: late_def bare_def pc)
qed

section \<open>Detaching and removing\<close>

lemma fenced_taken: "lock_ok cfg s \<Longrightarrow> fenced s k \<Longrightarrow> fence_taken s k"
proof -
  assume ok: "lock_ok cfg s" and "fenced s k"
  then have "jm_get (l_fence s) k \<noteq> None"
    by (auto simp: jm_get_None_iff jm_keys_def fenced_def)
  then obtain h where h: "jm_get (l_fence s) k = Some h" by blast
  then have "(k, h) \<in> set (l_fence s)" by (rule jm_get_in_set)
  then have "owner_of s h \<noteq> None" using ok_fence [OF ok] by fastforce
  with h show ?thesis by (simp add: fence_taken_def owner_of_def)
qed

text \<open>A detach that is not refused moves exactly the dead directory it judged.\<close>

lemma detach_moves_ok:
  assumes ok: "lock_ok cfg s" and a: "alive cfg s i" and pc: "bare (l_pc s i)" and d: "detach_lock k s = Some s'"
    and dead: "l_lock s = Some c" "owner_of s c = Some f" "dead_file cfg s f" "k = fence_key cfg s c f"
  shows "lock_ok cfg (set_pc i Trying s')"
proof -
  have s': "s' = (touch_dir c s)\<lparr>l_lock := None, l_fence := jm_set k c (l_fence s)\<rparr>"
    using d dead(1) by (auto simp: detach_lock_def split: if_splits)
  have own: "owner_of s' = owner_of s" by (auto simp: s' touch_dir_def owner_of_def fun_eq_iff)
  have fen: "fenced s' k" by (simp add: fenced_def s' jm_set_fst)
  note world = change_lock [OF ok a, of s']
  show ?thesis
  proof (rule move_ok [OF ok a])
    show "rely cfg j s s'" if "j \<noteq> i" for j
      by (rule world(2) [OF _ _ _ _ _ own _ _ _ _ that]) (use dead fen in \<open>auto simp: s' touch_dir_def\<close>)
    show "dirs_ok cfg s'"
      by (rule world(1) [OF _ _ _ _ _ own]) (use dead fen in \<open>auto simp: s' touch_dir_def\<close>)
    show "late (l_pc s i) \<Longrightarrow> late Trying" using bareD [OF pc] by simp
    have "files_ok s i Trying" by (rule files_ok_trying [OF ok_files [OF ok] pc])
    then show "files_ok s' i Trying" by (simp add: files_ok_def own)
    show "point_ok cfg s' i Trying" by (simp add: point_ok_def)
  qed (simp_all add: s' touch_dir_def)
qed

lemma trying_ok: "lock_ok cfg s \<Longrightarrow> alive cfg s i \<Longrightarrow> bare (l_pc s i) \<Longrightarrow> lock_ok cfg (set_pc i Trying s)"
  by (rule to_next) (auto simp: kinds)

lemma detach_calls_ok:
  assumes ok: "lock_ok cfg s" and a: "alive cfg s i"
  shows "l_pc s i = Detach st t \<Longrightarrow> lock_ok cfg (detach_dead i st t s)"
    and "l_pc s i = TornDetach st \<Longrightarrow> lock_ok cfg (torn_detach i st s)"
proof -
  assume pc: "l_pc s i = Detach st t"
  then have b: "bare (l_pc s i)" by (simp add: bare_def late_def)
  obtain d where d: "t = record_text cfg d" "ended cfg s d"
      "(\<exists>c. claims s d c \<and> d_ino (l_dirs s c) = s_ino st) \<or> fenced s (s_ino st, t)"
    using ok_point [OF ok a] pc by (auto simp: point_ok_def)
  show "lock_ok cfg (detach_dead i st t s)"
  proof (cases "detach_lock (s_ino st, t) s")
    case None
    then show ?thesis using trying_ok [OF ok a b] by (simp add: detach_dead_def)
  next
    case (Some s')
    then have "\<not> fence_taken s (s_ino st, t)" by (auto simp: detach_lock_def split: option.splits if_splits)
    then obtain c where c: "claims s d c" "d_ino (l_dirs s c) = s_ino st" using d(3) fenced_taken [OF ok] by blast
    have "lock_ok cfg (set_pc i Trying s')"
      using c d by (intro detach_moves_ok [OF ok a b Some, of c "Full d"]) (simp_all add: claims_def fence_key_def)
    then show ?thesis by (simp add: detach_dead_def Some)
  qed
next
  assume pc: "l_pc s i = TornDetach st"
  then have b: "bare (l_pc s i)" by (simp add: bare_def late_def)
  have p: "(\<exists>c. dead_torn cfg s c \<and> d_ino (l_dirs s c) = s_ino st) \<or> fenced s (torn_key st)"
    using ok_point [OF ok a] pc by (auto simp: point_ok_def)
  show "lock_ok cfg (torn_detach i st s)"
  proof (cases "detach_lock (torn_key st) s")
    case None
    then show ?thesis using trying_ok [OF ok a b] by (simp add: torn_detach_def)
  next
    case (Some s')
    then have "\<not> fence_taken s (torn_key st)" by (auto simp: detach_lock_def split: option.splits if_splits)
    then obtain c where c: "dead_torn cfg s c" "d_ino (l_dirs s c) = s_ino st" using p fenced_taken [OF ok] by blast
    then obtain w where w: "owner_of s c = Some (Torn w)" "quiet cfg s w" "l_lock s = Some c" by (auto simp: dead_torn_def)
    have "lock_ok cfg (set_pc i Trying s')"
      using w c by (intro detach_moves_ok [OF ok a b Some, of c "Torn w"]) (simp_all add: fence_key_def torn_key_def)
    then show ?thesis by (simp add: torn_detach_def Some)
  qed
qed

text \<open>\<open>rmdir\<close> takes an empty directory only.\<close>

lemma rmdir_ok:
  assumes ok: "lock_ok cfg s" and a: "alive cfg s i" and r: "rmdir_lock s = Some s'"
    and p: "late p \<or> bare (l_pc s i) \<and> p = Trying" and q: "point_ok cfg s' i p"
  shows "lock_ok cfg (set_pc i p s')"
proof -
  obtain h where h: "l_lock s = Some h" "owner_of s h = None" and s': "s' = (drop_dir h s)\<lparr>l_lock := None\<rparr>"
    using r by (auto simp: rmdir_lock_def owner_of_def split: option.splits if_splits)
  have own: "owner_of s' = owner_of s" using h by (auto simp: s' drop_dir_def owner_of_def fun_eq_iff)
  note world = change_lock [OF ok a, of s']
  show ?thesis
  proof (rule move_ok [OF ok a])
    show "rely cfg j s s'" if "j \<noteq> i" for j
      by (rule world(2) [OF _ _ _ _ _ own _ _ _ _ that]) (use h in \<open>auto simp: s' drop_dir_def\<close>)
    show "dirs_ok cfg s'"
      by (rule world(1) [OF _ _ _ _ _ own]) (use h in \<open>auto simp: s' drop_dir_def\<close>)
    show "late (l_pc s i) \<Longrightarrow> late p" using p bareD by auto
    have "files_ok s i p" using p files_ok_late files_ok_trying [OF ok_files [OF ok]] by blast
    then show "files_ok s' i p" using p by (auto simp: files_ok_def own late_def)
    show "point_ok cfg s' i p" by (rule q)
  qed (simp_all add: s' drop_dir_def)
qed

lemma rmdir_calls_ok:
  assumes ok: "lock_ok cfg s" and a: "alive cfg s i"
  shows "l_pc s i = EmptyRemove \<Longrightarrow> lock_ok cfg (empty_remove i s)"
    and "l_pc s i = Removing x \<Longrightarrow> lock_ok cfg (remove_emptied i x s)"
proof -
  show "lock_ok cfg (empty_remove i s)" if pc: "l_pc s i = EmptyRemove"
  proof -
    have b: "bare (l_pc s i)" by (simp add: bare_def late_def pc)
    show ?thesis unfolding empty_remove_def
      using trying_ok [OF ok a b] rmdir_ok [OF ok a, of _ Trying] b by (auto simp: point_ok_def split: option.split)
  qed
  show "lock_ok cfg (remove_emptied i x s)" if pc: "l_pc s i = Removing x"
    unfolding remove_emptied_def
    using to_late [OF ok a, of "Proving x"] to_late [OF ok a, of "Finished True"] rmdir_ok [OF ok a, of _ "Finished True"]
    by (auto simp: kinds split: option.split)
qed

section \<open>Publishing, writing and giving back\<close>

lemma try_lock_ok:
  assumes ok: "lock_ok cfg s" and a: "alive cfg s i" and pc: "l_pc s i = Trying"
  shows "lock_ok cfg (try_lock cfg i n s)"
proof -
  have b: "bare (l_pc s i)" by (simp add: pc)
  have no: "owner_of s h = Some f \<Longrightarrow> creator f \<noteq> i" for h f by (rule bare_no_file [OF ok_files [OF ok] b])
  have fresh: "owner_of s (l_next s) = None" using ok_owner_lt [OF ok, of "l_next s"] by (cases "owner_of s (l_next s)") auto
  show ?thesis
  proof (cases "a_protocol (c_att cfg i) = Protocol1")
    case True
    show ?thesis
    proof (cases "l_lock s")
      case None
      let ?s = "(add_dir n None s)\<lparr>l_lock := Some (l_next s)\<rparr>"
      have own: "owner_of ?s = owner_of s" using fresh by (auto simp: add_dir_def new_dir_def owner_of_def fun_eq_iff)
      have nf: "(k, l_next s) \<notin> set (l_fence s)" for k using ok_fence [OF ok, of k "l_next s"] fresh by auto
      have dirs: "dirs_ok cfg ?s"
        by (rule change_lock(1) [OF ok a _ _ _ _ _ own]) (use None fresh nf in \<open>auto simp: add_dir_def new_dir_def\<close>)
      have rel: "rely cfg j s ?s" if "j \<noteq> i" for j
        by (rule change_lock(2) [OF ok a _ _ _ _ _ own _ _ _ _ that]) (use None fresh nf in \<open>auto simp: add_dir_def new_dir_def\<close>)
      have "lock_ok cfg (set_pc i MadeDir ?s)"
      proof (rule move_ok [OF ok a rel _ _ _ dirs])
        show "files_ok ?s i MadeDir" unfolding files_ok_def own using no by auto
      qed (simp_all add: add_dir_def point_ok_def late_def pc)
      then show ?thesis using True None by (simp add: try_lock_def mkdir_lock_def)
    next
      case (Some h)
      then show ?thesis using True to_next [OF ok a, of JudgeStat] b by (simp add: try_lock_def mkdir_lock_def point_ok_def)
    qed
  next
    case False
    let ?s = "add_dir n (Some (Full i)) s"
    have own: "owner_of ?s = (owner_of s)(l_next s := Some (Full i))" by (simp add: add_dir_def new_dir_def owner_of_def fun_eq_iff)
    have v: "l_lock ?s = l_lock s" "l_next ?s = Suc (l_next s)" by (simp_all add: add_dir_def)
    have "lock_ok cfg (set_pc i (Staged (l_next s)) ?s)"
    proof (rule move_ok [OF ok a add_staged(2) [OF ok a no] _ _ _ add_staged(1) [OF ok a no]])
      show "files_ok ?s i (Staged (l_next s))"
        unfolding files_ok_def own v by (auto dest: no ok_lock_lt [OF ok])
    qed (simp_all add: add_dir_def point_ok_def late_def pc)
    then show ?thesis using False by (simp add: try_lock_def)
  qed
qed

text \<open>A change of the actor's own file, as one lemma for the writes, the unlink and the removals.\<close>

lemma own_file_ok:
  assumes ok: "lock_ok cfg s" and a: "alive cfg s i"
    and d: "d_ino d = d_ino (l_dirs s h)" "d_ctime (l_dirs s h) \<le> d_ctime d \<or> d_ctime d = l_now s" and h: "h < l_next s"
    and before: "owner_of s h = None \<and> (\<forall>h' f. owner_of s h' = Some f \<longrightarrow> creator f \<noteq> i)
      \<or> owner_of s h = Some (Full i) \<or> owner_of s h = Some (Torn i) \<and> \<not> late (l_pc s i)"
    and after: "\<And>f. d_owner d = Some f \<Longrightarrow> creator f = i"
    and m: "late (l_pc s i) \<Longrightarrow> late p" and f: "files_ok (set_dir h d s) i p" and q: "point_ok cfg (set_dir h d s) i p"
  shows "lock_ok cfg (set_pc i p (set_dir h d s))"
proof -
  have alive_file: "\<not> dead_file cfg s g \<and> creator g = i" if "owner_of s h = Some g" for g
    using before that alive_not_ended [OF a] by (auto simp: quiet_def)
  have only: "h' = h" if "owner_of s h' = Some g" "creator g = i" for h' g
    using before that ok_one_file [OF ok, of h' g h] by auto
  show ?thesis
  proof (rule move_ok [OF ok a])
    show "rely cfg j s (set_dir h d s)" if "j \<noteq> i" for j
      by (rule change_owner(2) [OF ok a d h _ after only that]) (simp_all add: alive_file)
    show "dirs_ok cfg (set_dir h d s)"
      by (rule change_owner(1) [OF ok a d h _ after only]) (simp_all add: alive_file)
  qed (simp_all add: m f q)
qed

lemma open_owner_ok:
  assumes ok: "lock_ok cfg s" and a: "alive cfg s i" and pc: "l_pc s i = Opening x h"
  shows "lock_ok cfg (open_owner i x h s)"
proof (cases "d_gone (l_dirs s h) \<or> owner_of s h \<noteq> None")
  case True
  then show ?thesis using to_late [OF ok a, of NameStat] by (auto simp: open_owner_def owner_of_def kinds)
next
  case False
  have lt: "h < l_next s" using ok_files [OF ok, of i] by (simp add: pc files_ok_def)
  have no: "owner_of s h' = Some f \<Longrightarrow> creator f \<noteq> i" for h' f
    by (rule bare_no_file [OF ok_files [OF ok]]) (simp_all add: pc bare_def late_def)
  have "lock_ok cfg (set_pc i (Created x h) (put_owner h (Some (Torn i)) s))"
    unfolding put_owner_def
  proof (rule own_file_ok [OF ok a _ _ lt])
    show "files_ok (set_dir h (l_dirs s h\<lparr>d_owner := Some (Torn i), d_mtime := l_now s, d_ctime := l_now s\<rparr>) s) i (Created x h)"
      using no by (auto simp: files_ok_def)
  qed (use no False in \<open>auto simp: pc late_def point_ok_def\<close>)
  then show ?thesis using False by (simp add: open_owner_def owner_of_def)
qed

lemma fill_owner_ok:
  assumes ok: "lock_ok cfg s" and a: "alive cfg s i" and pc: "l_pc s i = Created x h"
  shows "lock_ok cfg (fill_owner i x h s)"
proof (cases "owner_of s h = Some (Torn i)")
  case True
  have lt: "h < l_next s" by (rule ok_owner_lt [OF ok True])
  have "lock_ok cfg (set_pc i (Confirming x) (set_dir h ((l_dirs s h)\<lparr>d_owner := Some (Full i)\<rparr>) s))"
    by (rule own_file_ok [OF ok a _ _ lt]) (use True in \<open>auto simp: pc late_def point_ok_def intro: files_ok_late\<close>)
  with True show ?thesis by (simp add: fill_owner_def write_owner_def owner_of_def)
next
  case False
  then show ?thesis using to_late [OF ok a, of "Confirming x"] by (simp add: fill_owner_def write_owner_def owner_of_def kinds)
qed

text \<open>Dropping a staged directory.\<close>

lemma drop_staged_ok:
  assumes ok: "lock_ok cfg s" and a: "alive cfg s i" and pc: "l_pc s i = Staged h \<or> l_pc s i = Absent h"
    and p: "p = JudgeStat \<or> p = Finished False"
  shows "lock_ok cfg (set_pc i p (drop_dir h s))"
proof -
  have own: "owner_of s h = Some (Full i)" using ok_files [OF ok, of i] pc by (auto simp: files_ok_def)
  have lt: "h < l_next s" by (rule ok_owner_lt [OF ok own])
  have only: "h' = h" if "owner_of s h' = Some g" "creator g = i" for h' g
    using ok_one_file [OF ok that(1) own] that(2) by simp
  show ?thesis unfolding drop_dir_def
  proof (rule own_file_ok [OF ok a _ _ lt])
    show "files_ok (set_dir h ((l_dirs s h)\<lparr>d_owner := None, d_gone := True\<rparr>) s) i p"
      using p only by (auto simp: files_ok_def)
  qed (use own p pc in \<open>auto simp: late_def point_ok_def\<close>)
qed

lemma publish_calls_ok:
  assumes ok: "lock_ok cfg s" and a: "alive cfg s i"
  shows "l_pc s i = Staged h \<Longrightarrow> lock_ok cfg (see_absent i h s)"
    and "l_pc s i = Absent h \<Longrightarrow> lock_ok cfg (publish_staged i h s)"
proof -
  assume pc: "l_pc s i = Staged h"
  show "lock_ok cfg (see_absent i h s)"
  proof (cases "l_lock s")
    case None
    have "files_ok s i (Absent h)" using ok_files [OF ok, of i] pc by (auto simp: files_ok_def late_def)
    then have "lock_ok cfg (set_pc i (Absent h) s)" by (intro stay_ok [OF ok a]) (simp_all add: pc late_def point_ok_def)
    with None show ?thesis by (simp add: see_absent_def)
  next
    case (Some c)
    then show ?thesis using drop_staged_ok [OF ok a, of h JudgeStat] pc by (simp add: see_absent_def)
  qed
next
  assume pc: "l_pc s i = Absent h"
  have own: "owner_of s h = Some (Full i)" "l_lock s \<noteq> Some h" using ok_files [OF ok, of i] pc by (auto simp: files_ok_def)
  have lt: "h < l_next s" by (rule ok_owner_lt [OF ok own(1)])
  have nf: "(k, h) \<notin> set (l_fence s)" for k
    by (rule busy_not_fenced [OF ok own(1)]) (simp add: alive_not_ended [OF a])
  show "lock_ok cfg (publish_staged i h s)"
  proof (cases "publish_dir h s")
    case None
    then show ?thesis using drop_staged_ok [OF ok a, of h JudgeStat] pc by (simp add: publish_staged_def)
  next
    case (Some s')
    then have e: "l_lock s = None \<or> (\<exists>c. l_lock s = Some c \<and> owner_of s c = None \<and> c \<noteq> h)" and lk: "l_lock s' = Some h"
      and now: "d_ctime (l_dirs s' h) = l_now s" and fe: "l_fence s' = l_fence s"
      and same: "l_live s' = l_live s" "l_started s' = l_started s" "l_pc s' = l_pc s" "l_now s' = l_now s" "l_next s' = l_next s"
      and ino: "\<And>k. d_ino (l_dirs s' k) = d_ino (l_dirs s k)" and own': "owner_of s' = owner_of s"
      using own by (auto simp: publish_dir_def touch_dir_def drop_dir_def owner_of_def fun_eq_iff split: option.splits if_splits)
    have dirs: "dirs_ok cfg s'"
      by (rule change_lock(1) [OF ok a _ _ _ _ _ own']) (use e own lt nf in \<open>auto simp: lk now fe same ino\<close>)
    have rel: "rely cfg j s s'" if "j \<noteq> i" for j
      by (rule change_lock(2) [OF ok a _ _ _ _ _ own' _ _ _ _ that]) (use e own lt nf in \<open>auto simp: lk now fe same ino\<close>)
    have "lock_ok cfg (set_pc i Pinning s')"
      by (rule move_ok [OF ok a rel _ _ _ dirs])
        (use own in \<open>auto simp: same late_def point_ok_def claims_def lk own' intro: files_ok_late\<close>)
    with Some show ?thesis by (simp add: publish_staged_def)
  qed
qed

lemma release_unlink_ok:
  assumes ok: "lock_ok cfg s" and a: "alive cfg s i" and pc: "l_pc s i = Unlinking h"
  shows "lock_ok cfg (release_unlink i h s)"
proof -
  have own: "owner_of s h = Some (Full i)" using ok_point [OF ok a] pc by (simp add: point_ok_def claims_def)
  have lt: "h < l_next s" by (rule ok_owner_lt [OF ok own])
  have "lock_ok cfg (set_pc i (Emptied (d_ino (l_dirs s h))) (put_owner h None s))"
    unfolding put_owner_def
    by (rule own_file_ok [OF ok a _ _ lt]) (use own in \<open>auto simp: late_def point_ok_def intro: files_ok_late\<close>)
  with own show ?thesis by (simp add: release_unlink_def owner_of_def)
qed

lemma name_move_ok:
  assumes ok: "lock_ok cfg s" and a: "alive cfg s i" and pc: "l_pc s i = NameMove st"
  shows "lock_ok cfg (name_move i st s)"
proof -
  obtain h where h: "l_lock s = Some h" "owner_of s h = Some (Full i)"
    using ok_point [OF ok a] pc by (auto simp: point_ok_def claims_def)
  let ?s = "(touch_dir h s)\<lparr>l_lock := None\<rparr>"
  have own: "owner_of ?s = owner_of s" by (auto simp: touch_dir_def owner_of_def fun_eq_iff)
  have dirs: "dirs_ok cfg ?s"
    by (rule change_lock(1) [OF ok a _ _ _ _ _ own]) (use h in \<open>auto simp: touch_dir_def\<close>)
  have rel: "rely cfg j s ?s" if "j \<noteq> i" for j
    by (rule change_lock(2) [OF ok a _ _ _ _ _ own _ _ _ _ that]) (use h in \<open>auto simp: touch_dir_def\<close>)
  have "lock_ok cfg (set_pc i (NameSweep st h) ?s)"
    by (rule move_ok [OF ok a rel _ _ _ dirs])
      (use h own in \<open>auto simp: touch_dir_def late_def point_ok_def intro: files_ok_late\<close>)
  then show ?thesis by (simp add: name_move_def h)
qed

lemma name_sweep_ok:
  assumes ok: "lock_ok cfg s" and a: "alive cfg s i" and pc: "l_pc s i = NameSweep st h"
  shows "lock_ok cfg (name_sweep i st h s)"
proof -
  have own: "owner_of s h = Some (Full i)" using ok_point [OF ok a] pc by (simp add: point_ok_def)
  have lt: "h < l_next s" by (rule ok_owner_lt [OF ok own])
  have "lock_ok cfg (set_pc i (Finished True) (drop_dir h s))"
    unfolding drop_dir_def
    by (rule own_file_ok [OF ok a _ _ lt]) (use own in \<open>auto simp: late_def point_ok_def intro: files_ok_late\<close>)
  then show ?thesis using to_late [OF ok a, of "Finished False"] by (simp add: name_sweep_def kinds)
qed

section \<open>Every event\<close>

lemma go_ok:
  assumes c: "sound_config cfg" and ok: "lock_ok cfg s" and a: "alive cfg s i" and g: "graceful cfg s (Go i n)"
  shows "lock_ok cfg (go cfg i n s)"
proof (cases "l_pc s i")
  case (JudgeRead st)
  then show ?thesis using judge_read_ok [OF c ok a JudgeRead g] by (simp add: go_def)
qed (simp_all add: go_def ok pc_steps_early [OF ok a] pc_steps_late [OF ok a] confirm_owner_ok [OF c ok a] pinned_ok [OF ok a]
    name_verify_ok [OF ok a] torn_reads_ok [OF ok a] judge_pid_ok [OF c ok a] judge_same_ok [OF c ok a] detach_calls_ok [OF ok a]
    rmdir_calls_ok [OF ok a] try_lock_ok [OF ok a] open_owner_ok [OF ok a] fill_owner_ok [OF ok a] publish_calls_ok [OF ok a]
    release_unlink_ok [OF ok a] name_move_ok [OF ok a] name_sweep_ok [OF ok a])

lemma fail_event_ok:
  assumes ok: "lock_ok cfg s" and a: "alive cfg s i"
  shows "lock_ok cfg (fail i s)"
proof (cases "l_pc s i")
  case (Staged h)
  then show ?thesis using drop_staged_ok [OF ok a, of h "Finished False"] by (simp add: fail_def fail_pc_def)
next
  case (Absent h)
  then show ?thesis using drop_staged_ok [OF ok a, of h "Finished False"] by (simp add: fail_def fail_pc_def)
next
  case (Holding h)
  then show ?thesis using pinned_ok(3) [OF ok a Holding] by (simp add: fail_def fail_pc_def)
next
  case (Finished r)
  then show ?thesis using to_late [OF ok a, of "Finished r"] by (simp add: fail_def fail_pc_def kinds)
qed (use ok_point [OF ok a] in \<open>auto simp: fail_def fail_pc_def kinds intro!: to_next [OF ok a]\<close>)

lemma refuse_ok: "lock_ok cfg s \<Longrightarrow> alive cfg s i \<Longrightarrow> lock_ok cfg (refuse i s)"
  unfolding refuse_def using drop_staged_ok [of cfg s i _ JudgeStat] by (auto split: lock_pc.split)

text \<open>A process starts: its acquisitions have done nothing yet. A process ends: it is dead for good. Time passes.\<close>

lemma ended_mono:
  "set (l_started s) \<subseteq> set (l_started s') \<Longrightarrow> (\<And>p. p \<in> set (l_live s') \<Longrightarrow> p \<in> set (l_live s) \<or> p \<notin> set (l_started s)) \<Longrightarrow>
    ended cfg s i \<Longrightarrow> ended cfg s' i"
  by (auto simp: ended_def)

lemma world_kept:
  assumes d: "l_lock s' = l_lock s" "l_dirs s' = l_dirs s" "l_next s' = l_next s" "l_fence s' = l_fence s" "l_pc s' = l_pc s" "l_now s \<le> l_now s'"
    and st: "set (l_started s) \<subseteq> set (l_started s')"
    and en: "\<And>i. ended cfg s i \<Longrightarrow> ended cfg s' i"
  shows "dirs_ok cfg s \<Longrightarrow> dirs_ok cfg s'" and "files_ok s i p \<Longrightarrow> files_ok s' i p" and "point_ok cfg s i p \<Longrightarrow> point_ok cfg s' i p"
proof -
  have own: "owner_of s' = owner_of s" by (simp add: owner_of_def fun_eq_iff d)
  have q: "quiet cfg s w \<Longrightarrow> quiet cfg s' w" for w using en d by (auto simp: quiet_def)
  have df: "dead_file cfg s f \<Longrightarrow> dead_file cfg s' f" for f using q en by (cases f) simp_all
  have dt: "dead_torn cfg s c \<Longrightarrow> dead_torn cfg s' c" for c using q by (auto simp: dead_torn_def own d)
  have cl: "claims s' = claims s" by (simp add: claims_def fun_eq_iff own d)
  have fe: "fenced s' = fenced s" by (simp add: fenced_def fun_eq_iff d)
  show "dirs_ok cfg s'" if "dirs_ok cfg s"
  proof -
    have "\<exists>f. owner_of s h = Some f \<and> k = fence_key cfg s h f \<and> dead_file cfg s' f" if "(k, h) \<in> set (l_fence s)" for k h
      using \<open>dirs_ok cfg s\<close> that df unfolding dirs_ok_def by blast
    with that show ?thesis unfolding dirs_ok_def own d fence_key_def by simp
  qed
  show "files_ok s' i p" if "files_ok s i p" using that by (simp add: files_ok_def own d)
  show "point_ok cfg s' i p" if p: "point_ok cfg s i p"
  proof (cases p)
    case (TornList st t)
    then show ?thesis using p dt d by (auto simp: point_ok_def)
  next
    case (TornRestat st t)
    then show ?thesis using p dt d by (auto simp: point_ok_def)
  next
    case (TornReread st t)
    then show ?thesis using p dt d fe by (auto simp: point_ok_def)
  next
    case (TornDetach st)
    then show ?thesis using p dt d fe by (auto simp: point_ok_def)
  next
    case (JudgeProbe x t)
    then show ?thesis using p st by (auto simp: point_ok_def)
  next
    case (JudgeBirth x t)
    then show ?thesis using p st by (auto simp: point_ok_def)
  next
    case (JudgeSame x t)
    then show ?thesis using p en by (auto simp: point_ok_def)
  next
    case (JudgeOwner x t)
    then show ?thesis using p en d by (auto simp: point_ok_def cl)
  next
    case (Detach x t)
    then show ?thesis using p en d by (auto simp: point_ok_def cl fe)
  qed (use p in \<open>simp_all add: point_ok_def cl own d\<close>)
qed

lemma start_ok:
  assumes ok: "lock_ok cfg s" and m: "may_start cfg p s"
  shows "lock_ok cfg (s\<lparr>l_live := p # l_live s, l_started := p # l_started s\<rparr>)"
proof -
  let ?s = "s\<lparr>l_live := p # l_live s, l_started := p # l_started s\<rparr>"
  have new: "p \<notin> set (l_started s)" using m by (simp add: may_start_def)
  have alone: "q \<in> set (l_live s) \<Longrightarrow> p_host (c_process cfg q) = p_host (c_process cfg p) \<Longrightarrow> p_pid (c_process cfg q) \<noteq> p_pid (c_process cfg p)" for q
    using m live_pid_None by (auto simp: may_start_def)
  have en: "ended cfg s i \<Longrightarrow> ended cfg ?s i" for i
    by (rule ended_mono) (use new in auto)
  have kept: "dirs_ok cfg s \<Longrightarrow> dirs_ok cfg ?s" "files_ok s i q \<Longrightarrow> files_ok ?s i q" "point_ok cfg s i q \<Longrightarrow> point_ok cfg ?s i q" for i q
    by (rule world_kept [where s = s]; use en in auto)+
  have idle: "l_pc s i = Idle" if "a_proc (c_att cfg i) = p" for i
    using ok new that by (auto simp: lock_ok_def procs_ok_def)
  have alone': "q \<in> set (l_live s) \<Longrightarrow> p_host (c_process cfg p) = p_host (c_process cfg q) \<Longrightarrow> p_pid (c_process cfg p) \<noteq> p_pid (c_process cfg q)" for q
    using alone by metis
  have procs: "procs_ok cfg ?s"
    using ok alone alone' by (auto simp: lock_ok_def procs_ok_def)
  have "attempt_ok cfg ?s i (l_pc ?s i)" for i
  proof (cases "a_proc (c_att cfg i) = p")
    case True
    then show ?thesis using kept(2) [OF ok_files [OF ok], of i] idle [OF True] by (simp add: attempt_ok_def point_ok_def)
  next
    case False
    then have "alive cfg ?s i = alive cfg s i" by (simp add: alive_def)
    then show ?thesis using kept(2,3) ok by (simp add: lock_ok_def attempt_ok_def)
  qed
  with procs kept(1) ok show ?thesis by (simp add: lock_ok_def)
qed

lemma exit_ok:
  assumes ok: "lock_ok cfg s"
  shows "lock_ok cfg (s\<lparr>l_live := removeAll p (l_live s)\<rparr>)"
proof -
  let ?s = "s\<lparr>l_live := removeAll p (l_live s)\<rparr>"
  have en: "ended cfg s i \<Longrightarrow> ended cfg ?s i" for i by (auto simp: ended_def)
  have kept: "dirs_ok cfg s \<Longrightarrow> dirs_ok cfg ?s" "files_ok s i q \<Longrightarrow> files_ok ?s i q" "point_ok cfg s i q \<Longrightarrow> point_ok cfg ?s i q" for i q
    by (rule world_kept [where s = s]; use en in auto)+
  have "procs_ok cfg ?s" using ok by (auto simp: lock_ok_def procs_ok_def)
  moreover have "attempt_ok cfg ?s i (l_pc ?s i)" for i
    using ok kept(2,3) by (auto simp: lock_ok_def attempt_ok_def alive_def)
  ultimately show ?thesis using kept(1) ok by (simp add: lock_ok_def)
qed

lemma pass_ok:
  assumes ok: "lock_ok cfg s"
  shows "lock_ok cfg (s\<lparr>l_now := l_now s + n\<rparr>)"
proof -
  let ?s = "s\<lparr>l_now := l_now s + n\<rparr>"
  have kept: "dirs_ok cfg s \<Longrightarrow> dirs_ok cfg ?s" "files_ok s i q \<Longrightarrow> files_ok ?s i q" "point_ok cfg s i q \<Longrightarrow> point_ok cfg ?s i q" for i q
    by (rule world_kept [where s = s]; simp add: ended_def)+
  have "procs_ok cfg ?s" using ok by (simp add: lock_ok_def procs_ok_def)
  moreover have "attempt_ok cfg ?s i (l_pc ?s i)" for i
    using ok kept(2,3) by (simp add: lock_ok_def attempt_ok_def alive_def)
  ultimately show ?thesis using kept(1) ok by (simp add: lock_ok_def)
qed

theorem lock_step_ok:
  assumes "sound_config cfg" and "lock_ok cfg s" and "graceful cfg s e"
  shows "lock_ok cfg (lock_step cfg s e)"
  using assms by (cases e) (simp_all add: go_ok fail_event_ok refuse_ok start_ok exit_ok pass_ok)

lemma no_lock_ok: "lock_ok cfg no_lock"
  by (simp add: lock_ok_def procs_ok_def dirs_ok_def attempt_ok_def files_ok_def point_ok_def no_lock_def owner_of_def late_def)

end
