(* ===== verification/MeshLockRuns.thy ===== *)
theory MeshLockRuns imports MeshLockSteps "HOL-Library.Code_Target_Nat" begin

text \<open>
  The properties of the mesh lock: mutual exclusion over every run in which the grace period does its work, and over every
  run at all when no acquisition uses protocol 1; the holder's record stays; release frees the name; a dead holder's lock
  is recovered and taken; and the run in which a slow writer of protocol 1 loses the exclusion.
\<close>

section \<open>Reachable states\<close>

inductive lock_reachable :: "lock_config \<Rightarrow> lock_state \<Rightarrow> bool" for cfg where
  Unlocked: "lock_reachable cfg no_lock"
| Event: "lock_reachable cfg s \<Longrightarrow> graceful cfg s e \<Longrightarrow> lock_reachable cfg (lock_step cfg s e)"

lemma lock_reachable_ok: "lock_reachable cfg s \<Longrightarrow> sound_config cfg \<Longrightarrow> lock_ok cfg s"
  by (induction rule: lock_reachable.induct) (simp_all add: no_lock_ok lock_step_ok)

fun graceful_run :: "lock_config \<Rightarrow> lock_state \<Rightarrow> lock_event list \<Rightarrow> bool" where
  "graceful_run cfg s [] = True"
| "graceful_run cfg s (e # es) \<longleftrightarrow> graceful cfg s e \<and> graceful_run cfg (lock_step cfg s e) es"

lemma reachable_run: "lock_reachable cfg s \<Longrightarrow> graceful_run cfg s es \<Longrightarrow> lock_reachable cfg (run (lock_step cfg) s es)"
  by (induction es arbitrary: s) (simp_all add: lock_reachable.Event)

lemma holder_claims:
  assumes "lock_ok cfg s" and "alive cfg s i" and "l_pc s i = Holding h"
  shows "claims s i h"
  using ok_point [OF assms(1,2)] assms(3) by (simp add: point_ok_def)

lemma one_claim: "claims s i h \<Longrightarrow> claims s j h' \<Longrightarrow> i = j"
  by (simp add: claims_def)

lemma section_excludes:
  assumes "lock_ok cfg s" and "alive cfg s i" and "alive cfg s j" and "in_section s i" and "in_section s j"
  shows "i = j"
proof -
  obtain h h' where "l_pc s i = Holding h" "l_pc s j = Holding h'"
    using assms(4,5) by (auto simp: in_section_def split: lock_pc.splits)
  then show ?thesis using one_claim holder_claims [OF assms(1,2)] holder_claims [OF assms(1,3)] by blast
qed

section \<open>Without protocol 1\<close>

text \<open>Protocols 2 and 3 never open an owner file inside the canonical directory.\<close>

definition initialising :: "lock_pc \<Rightarrow> bool" where
  "initialising p \<longleftrightarrow> (case p of MadeDir \<Rightarrow> True | Resolving x \<Rightarrow> True | Opening x h \<Rightarrow> True | Created x h \<Rightarrow> True | _ \<Rightarrow> False)"

definition whole_records :: "lock_state \<Rightarrow> bool" where
  "whole_records s \<longleftrightarrow> (\<forall>h w. owner_of s h \<noteq> Some (Torn w)) \<and> (\<forall>i. \<not> initialising (l_pc s i))"

lemma whole_graceful: "whole_records s \<Longrightarrow> graceful cfg s e"
  by (auto simp: graceful_def whole_records_def canonical_owner_Some split: lock_event.splits lock_pc.splits option.splits owner_file.splits)

lemma whole_move:
  assumes "whole_records s" and "\<And>h. owner_of s' h = owner_of s h \<or> owner_of s' h = None \<or> owner_of s' h = Some (Full i)"
    and "l_pc s' = l_pc s" and "\<not> initialising p"
  shows "whole_records (set_pc i p s')"
  using assms(1,3,4) assms(2) unfolding whole_records_def by (auto, metis option.distinct(1) option.inject owner_file.distinct(1))

lemma whole_stay: "whole_records s \<Longrightarrow> \<not> initialising p \<Longrightarrow> whole_records (set_pc i p s)"
  by (auto simp: whole_records_def)

lemma whole_reads:
  assumes "whole_records s"
  shows "whole_records (judge_stat i s)" "whole_records (empty_restat i st s)" "whole_records (empty_reread i s)"
    "whole_records (after_unlink i x s)" "whole_records (prove_moved i x s)" "whole_records (prove_owner cfg i s)"
    "whole_records (check_ours cfg i s)" "whole_records (name_stat i s)" "whole_records (name_read cfg i st s)"
    "whole_records (open_pin i s)" "whole_records (check_pin cfg i h s)" "whole_records (release_read cfg i h s)"
    "whole_records (release_check i h s)" "whole_records (name_verify i st s)" "whole_records (torn_list i st t s)"
    "whole_records (torn_restat i st t s)" "whole_records (torn_reread cfg i st t s)" "whole_records (judge_same i st t s)"
    "whole_records (judge_owner cfg i st t s)" "whole_records (confirm_dir i x s)" "whole_records (confirm_owner cfg i s)"
  unfolding judge_stat_def empty_restat_def empty_reread_def after_unlink_def prove_moved_def prove_owner_def check_ours_def name_stat_def
    name_read_def open_pin_def check_pin_def release_read_def release_check_def name_verify_def torn_list_def torn_restat_def
    torn_reread_def judge_same_def judge_owner_def confirm_dir_def confirm_owner_def
  by (rule whole_stay [OF assms], simp add: initialising_def split: option.split)+

lemma whole_judgements:
  assumes "whole_records s"
  shows "whole_records (judge_read cfg i st s)" "whole_records (judge_probe cfg i st t s)" "whole_records (judge_birth cfg i st t s)"
  unfolding judge_read_def judge_probe_def judge_birth_def judge_unreadable_def
  by (rule whole_stay [OF assms], simp add: initialising_def split: option.split reading.split)+

lemma whole_changes:
  assumes "whole_records s"
  shows "whole_records (torn_detach i st s)" "whole_records (detach_dead i st t s)" "whole_records (empty_remove i s)"
    "whole_records (remove_emptied i x s)" "whole_records (see_absent i h s)" "whole_records (publish_staged i h s)"
    "whole_records (release_unlink i h s)" "whole_records (name_move i st s)" "whole_records (name_sweep i st h s)"
    "whole_records (fail i s)" "whole_records (refuse i s)"
  unfolding torn_detach_def detach_dead_def empty_remove_def remove_emptied_def see_absent_def publish_staged_def release_unlink_def
    name_move_def name_sweep_def fail_def refuse_def detach_lock_def rmdir_lock_def publish_dir_def
  using assms by (auto simp: initialising_def fail_pc_def drop_dir_def touch_dir_def put_owner_def owner_of_def whole_records_def
    split: option.split lock_pc.split)

lemma whole_try:
  assumes "whole_records s" and "a_protocol (c_att cfg i) \<noteq> Protocol1"
  shows "whole_records (try_lock cfg i n s)"
  using assms by (auto simp: try_lock_def add_dir_def new_dir_def owner_of_def initialising_def whole_records_def)

lemma whole_step:
  assumes w: "whole_records s" and p: "\<And>i. a_protocol (c_att cfg i) \<noteq> Protocol1"
  shows "whole_records (lock_step cfg s e)"
proof (cases e)
  case (Go i n)
  have "\<not> initialising (l_pc s i)" using w by (simp add: whole_records_def)
  then have "whole_records (go cfg i n s)"
    unfolding go_def
    by (cases "l_pc s i")
      (simp_all add: w whole_reads [OF w] whole_judgements [OF w] whole_changes [OF w] whole_try [OF w p] whole_stay [OF w] initialising_def)
  with Go w show ?thesis by simp
next
  case (Fail i)
  with w show ?thesis by (simp add: whole_changes)
next
  case (Refuse i)
  with w show ?thesis by (simp add: whole_changes)
qed (use w in \<open>auto simp: whole_records_def owner_of_def\<close>)

lemma whole_run: "whole_records s \<Longrightarrow> (\<And>i. a_protocol (c_att cfg i) \<noteq> Protocol1) \<Longrightarrow> graceful_run cfg s es"
  by (induction es arbitrary: s) (simp_all add: whole_graceful whole_step)

lemma no_lock_whole: "whole_records no_lock"
  by (simp add: whole_records_def no_lock_def owner_of_def initialising_def)

section \<open>Release and recovery\<close>

lemma set_pc_twice [simp]: "set_pc i p (set_pc i q s) = set_pc i p s"
  by (simp add: set_pc_def)

lemma set_pc_reads [simp]:
  "lstat_lock (set_pc i p s) = lstat_lock s" "canonical_owner (set_pc i p s) = canonical_owner s"
  "read_owner_path cfg (set_pc i p s) = read_owner_path cfg s" "pinned_text cfg h (set_pc i p s) = pinned_text cfg h s"
  "live_pid cfg host pid (set_pc i p s) = live_pid cfg host pid s" "ino_free (set_pc i p s) n = ino_free s n"
  "fence_taken (set_pc i p s) k = fence_taken s k"
  by (simp_all add: lstat_lock_def canonical_owner_def read_owner_path_def pinned_text_def live_pid_def ino_free_def fence_taken_def split: option.split)

lemma set_pc_world:
  "put_owner h f (set_pc i p s) = set_pc i p (put_owner h f s)" "drop_dir h (set_pc i p s) = set_pc i p (drop_dir h s)"
  "touch_dir h (set_pc i p s) = set_pc i p (touch_dir h s)" "write_owner h i (set_pc i p s) = set_pc i p (write_owner h i s)"
  "add_dir n f (set_pc i p s) = set_pc i p (add_dir n f s)" "(set_pc i p s)\<lparr>l_lock := x\<rparr> = set_pc i p (s\<lparr>l_lock := x\<rparr>)"
  "rmdir_lock (set_pc i p s) = map_option (set_pc i p) (rmdir_lock s)"
  "mkdir_lock n (set_pc i p s) = map_option (set_pc i p) (mkdir_lock n s)"
  "publish_dir h (set_pc i p s) = map_option (set_pc i p) (publish_dir h s)"
  "detach_lock k (set_pc i p s) = map_option (set_pc i p) (detach_lock k s)"
  by (simp_all add: set_pc_def put_owner_def drop_dir_def touch_dir_def write_owner_def add_dir_def new_dir_def set_dir_def
    rmdir_lock_def mkdir_lock_def publish_dir_def detach_lock_def fence_taken_def split: option.split)

text \<open>Acquisition \<open>i\<close> making \<open>k\<close> calls by itself.\<close>

definition alone :: "lock_config \<Rightarrow> nat \<Rightarrow> nat \<Rightarrow> nat \<Rightarrow> lock_state \<Rightarrow> lock_state" where
  "alone cfg i n k s = run (lock_step cfg) s (replicate k (Go i n))"

lemma alone_0 [simp]: "alone cfg i n 0 s = s"
  by (simp add: alone_def)

lemma alone_Suc: "alive cfg s i \<Longrightarrow> alone cfg i n (Suc k) s = alone cfg i n k (go cfg i n s)"
  by (simp add: alone_def)

lemma alone_add: "alone cfg i n (k + l) s = alone cfg i n l (alone cfg i n k s)"
  by (simp add: alone_def replicate_add run_append)

text \<open>A holder that makes its calls gives the name back.\<close>

lemma release_alone:
  assumes ok: "lock_ok cfg s" and a: "alive cfg s i" and pc: "l_pc s i = Holding h"
  shows "l_pc (alone cfg i n 6 s) i = Finished True" and "l_lock (alone cfg i n 6 s) = None"
proof -
  have c: "l_lock s = Some h" "owner_of s h = Some (Full i)" using holder_claims [OF ok a pc] by (simp_all add: claims_def)
  let ?w = "put_owner h None s"
  have w: "l_lock ?w = Some h" "owner_of ?w h = None" "d_ino (l_dirs ?w h) = d_ino (l_dirs s h)"
    using c by (simp_all add: put_owner_def)
  have g1: "go cfg i n s = set_pc i (Release h) s" by (simp add: go_def pc)
  have g2: "go cfg i n (set_pc i (Release h) s) = set_pc i (Checking h) s"
    using c by (simp add: go_def release_read_def pinned_text_def owner_of_def)
  have g3: "go cfg i n (set_pc i (Checking h) s) = set_pc i (Unlinking h) s"
    using c by (simp add: go_def release_check_def lstat_lock_def stat_of_def)
  have g4: "go cfg i n (set_pc i (Unlinking h) s) = set_pc i (Emptied (d_ino (l_dirs s h))) ?w"
    using c by (simp add: go_def release_unlink_def owner_of_def set_pc_world)
  have g5: "go cfg i n (set_pc i (Emptied (d_ino (l_dirs s h))) ?w) = set_pc i (Removing (d_ino (l_dirs s h))) ?w"
    using w by (simp add: go_def after_unlink_def lstat_lock_def stat_of_def)
  have g6: "go cfg i n (set_pc i (Removing (d_ino (l_dirs s h))) ?w) = set_pc i (Finished True) ((drop_dir h ?w)\<lparr>l_lock := None\<rparr>)"
    using w by (simp add: go_def remove_emptied_def set_pc_world rmdir_lock_def owner_of_def)
  have "alive cfg ?w i" using a by (simp add: alive_def put_owner_def)
  then have r: "alone cfg i n 6 s = set_pc i (Finished True) ((drop_dir h ?w)\<lparr>l_lock := None\<rparr>)"
    using a by (simp add: eval_nat_numeral alone_Suc g1 g2 g3 g4 g5 g6)
  show "l_pc (alone cfg i n 6 s) i = Finished True" and "l_lock (alone cfg i n 6 s) = None"
    unfolding r by simp_all
qed

text \<open>A free name is taken: nine calls under protocol 1, five under the others.\<close>

lemma initialise_alone:
  assumes a: "alive cfg s i" and pc: "l_pc s i = Trying" and l: "l_lock s = None" and n: "ino_free s n"
    and p: "a_protocol (c_att cfg i) = Protocol1"
  shows "in_section (alone cfg i n 9 s) i"
proof -
  define h where "h = l_next s"
  define w1 where "w1 = (add_dir n None s)\<lparr>l_lock := Some h\<rparr>"
  define w2 where "w2 = put_owner h (Some (Torn i)) w1"
  define w3 where "w3 = write_owner h i w2"
  have v1: "l_lock w1 = Some h" "owner_of w1 h = None" "d_gone (l_dirs w1 h) = False" "d_ino (l_dirs w1 h) = n" "alive cfg w1 i"
    using a by (simp_all add: w1_def h_def add_dir_def new_dir_def owner_of_def alive_def)
  have v2: "owner_of w2 h = Some (Torn i)" "alive cfg w2 i" using v1 by (simp_all add: w2_def put_owner_def alive_def)
  have v3: "l_lock w3 = Some h" "owner_of w3 h = Some (Full i)" "d_ino (l_dirs w3 h) = n" "alive cfg w3 i"
    using v1 v2 by (simp_all add: w3_def write_owner_def w2_def put_owner_def owner_of_def alive_def)
  have r3: "read_owner_path cfg w3 = Some (record_text cfg i)" "pinned_text cfg h w3 = Some (record_text cfg i)"
    using v3 by (simp_all add: read_owner_path_def canonical_owner_def pinned_text_def owner_of_def)
  have g: "go cfg i n s = set_pc i MadeDir w1" "go cfg i n (set_pc i MadeDir w1) = set_pc i (Resolving n) w1"
    "go cfg i n (set_pc i (Resolving n) w1) = set_pc i (Opening n h) w1"
    "go cfg i n (set_pc i (Opening n h) w1) = set_pc i (Created n h) w2"
    "go cfg i n (set_pc i (Created n h) w2) = set_pc i (Confirming n) w3"
    "go cfg i n (set_pc i (Confirming n) w3) = set_pc i Reading w3"
    "go cfg i n (set_pc i Reading w3) = set_pc i Pinning w3"
    "go cfg i n (set_pc i Pinning w3) = set_pc i (Pinned h) w3"
    "go cfg i n (set_pc i (Pinned h) w3) = set_pc i (Holding h) w3"
    using pc n p l v1 v3 r3
    by (simp_all add: go_def try_lock_def mkdir_lock_def w1_def [symmetric] h_def [symmetric] stat_made_def lstat_lock_def stat_of_def
      resolve_owner_def open_owner_def owner_of_def [symmetric] set_pc_world w2_def [symmetric] fill_owner_def w3_def [symmetric]
      confirm_dir_def confirm_owner_def open_pin_def check_pin_def)
  have "alone cfg i n 9 s = set_pc i (Holding h) w3"
    using a v1 v2 v3 by (simp add: eval_nat_numeral alone_Suc g)
  then show ?thesis by (simp add: in_section_def)
qed

lemma publish_alone:
  assumes a: "alive cfg s i" and pc: "l_pc s i = Trying" and l: "l_lock s = None" and n: "ino_free s n"
    and p: "a_protocol (c_att cfg i) \<noteq> Protocol1"
  shows "in_section (alone cfg i n 5 s) i"
proof -
  define h where "h = l_next s"
  define w1 where "w1 = add_dir n (Some (Full i)) s"
  define w2 where "w2 = (touch_dir h w1)\<lparr>l_lock := Some h\<rparr>"
  have v1: "l_lock w1 = None" "owner_of w1 h = Some (Full i)" "alive cfg w1 i"
    using a l by (simp_all add: w1_def h_def add_dir_def new_dir_def owner_of_def alive_def)
  have v2: "l_lock w2 = Some h" "owner_of w2 h = Some (Full i)" "alive cfg w2 i"
    using v1 by (simp_all add: w2_def touch_dir_def owner_of_def alive_def)
  have r2: "pinned_text cfg h w2 = Some (record_text cfg i)" using v2 by (simp add: pinned_text_def owner_of_def)
  have g: "go cfg i n s = set_pc i (Staged h) w1" "go cfg i n (set_pc i (Staged h) w1) = set_pc i (Absent h) w1"
    "go cfg i n (set_pc i (Absent h) w1) = set_pc i Pinning w2"
    "go cfg i n (set_pc i Pinning w2) = set_pc i (Pinned h) w2"
    "go cfg i n (set_pc i (Pinned h) w2) = set_pc i (Holding h) w2"
    using pc n p v1 v2 r2
    by (simp_all add: go_def try_lock_def w1_def [symmetric] h_def [symmetric] see_absent_def publish_staged_def publish_dir_def
      set_pc_world w2_def [symmetric] open_pin_def check_pin_def)
  have "alone cfg i n 5 s = set_pc i (Holding h) w2"
    using a v1 v2 by (simp add: eval_nat_numeral alone_Suc g)
  then show ?thesis by (simp add: in_section_def)
qed

lemma acquire_alone:
  assumes "alive cfg s i" and "l_pc s i = Trying" and "l_lock s = None" and "ino_free s n"
  shows "\<exists>k \<le> 9. in_section (alone cfg i n k s) i"
proof (cases "a_protocol (c_att cfg i) = Protocol1")
  case True
  then show ?thesis using initialise_alone [OF assms] by blast
next
  case False
  then show ?thesis using publish_alone [OF assms] by (intro exI [of _ 5]) simp
qed

text \<open>What a recoverer needs to convict the owner: pid evidence it may use, and the pid free.\<close>

definition convicts :: "lock_config \<Rightarrow> lock_state \<Rightarrow> nat \<Rightarrow> nat \<Rightarrow> bool" where
  "convicts cfg s i d \<longleftrightarrow> ended cfg s d
     \<and> may_use_pid (a_protocol (c_att cfg i)) (p_ns (att_process cfg i)) (recorded_ns (att_process cfg d) (c_att cfg d)) (c_local cfg)
     \<and> live_pid cfg (p_host (att_process cfg i)) (p_pid (att_process cfg d)) s = None"

lemma no_receipt_yet:
  assumes c: "sound_config cfg" and ok: "lock_ok cfg s" and d: "claims s d h"
  shows "\<not> fence_taken s (x, record_text cfg d)"
proof
  assume "fence_taken s (x, record_text cfg d)"
  then obtain k where "((x, record_text cfg d), k) \<in> set (l_fence s)"
    by (auto simp: fence_taken_def dest: jm_get_in_set split: option.splits)
  then obtain f where f: "l_lock s \<noteq> Some k" "owner_of s k = Some f" "(x, record_text cfg d) = fence_key cfg s k f"
    using ok_fence [OF ok] by blast
  show False
  proof (cases f)
    case (Torn w)
    then have "record_text cfg d = ''empty-owner''" using f(3) by (simp add: fence_key_def)
    moreover have "ends_newline (record_text cfg d)" by (simp add: record_text_def)
    ultimately show False by (simp add: ends_newline_def)
  next
    case (Full j)
    then have "j = d" using f(3) sound_text [OF c, of d j] by (simp add: fence_key_def)
    then have "k = h" using ok_one_file [OF ok f(2), of h "Full d"] d Full by (simp add: claims_def)
    with f(1) d show False by (simp add: claims_def)
  qed
qed

lemma recover_alone:
  assumes c: "sound_config cfg" and ok: "lock_ok cfg s" and a: "alive cfg s i" and pc: "l_pc s i = JudgeStat"
    and d: "claims s d h" and v: "convicts cfg s i d"
  shows "\<exists>w. alone cfg i n 6 s = set_pc i Trying w \<and> l_lock w = None \<and> ino_free w n = ino_free s n \<and> alive cfg w i"
proof -
  let ?t = "record_text cfg d"
  define st where "st = stat_of (l_dirs s h)"
  define w where "w = (touch_dir h s)\<lparr>l_lock := None, l_fence := jm_set (s_ino st, ?t) h (l_fence s)\<rparr>"
  have h: "l_lock s = Some h" "lstat_lock s = Some st" "read_owner_path cfg s = Some ?t" "s_ino st = d_ino (l_dirs s h)"
    using d by (simp_all add: claims_def lstat_lock_def st_def stat_of_def read_owner_path_def canonical_owner_def owner_of_def)
  have m: "may_use_pid (a_protocol (c_att cfg i)) (p_ns (att_process cfg i)) (recorded_ns (att_process cfg d) (c_att cfg d)) (c_local cfg)"
    and l: "live_pid cfg (p_host (att_process cfg i)) (p_pid (att_process cfg d)) s = None" using v by (simp_all add: convicts_def)
  have g: "go cfg i n s = set_pc i (JudgeRead st) s" "go cfg i n (set_pc i (JudgeRead st) s) = set_pc i (JudgeProbe st ?t) s"
    "go cfg i n (set_pc i (JudgeProbe st ?t) s) = set_pc i (JudgeSame st ?t) s"
    "go cfg i n (set_pc i (JudgeSame st ?t) s) = set_pc i (JudgeOwner st ?t) s"
    "go cfg i n (set_pc i (JudgeOwner st ?t) s) = set_pc i (Detach st ?t) s"
    using pc h m l
    by (simp_all add: go_def judge_stat_def judge_read_def judge_probe_def judge_same_def judge_owner_def sound_reading [OF c])
  have "detach_lock (s_ino st, ?t) s = Some w"
    using no_receipt_yet [OF c ok d] h(1) by (simp add: detach_lock_def w_def)
  then have g6: "go cfg i n (set_pc i (Detach st ?t) s) = set_pc i Trying w"
    by (simp add: go_def detach_dead_def set_pc_world)
  have "alone cfg i n 6 s = set_pc i Trying w"
    using a by (simp add: eval_nat_numeral alone_Suc g g6)
  moreover have "ino_free w n = ino_free s n" "l_lock w = None" "alive cfg w i"
    using a by (auto simp: w_def ino_free_def touch_dir_def alive_def list_all_iff split: if_splits)
  ultimately show ?thesis by blast
qed

text \<open>From the head of the loop: the probe fails on the dead owner's directory, and the recovery begins.\<close>

lemma probe_alone:
  assumes c: "sound_config cfg" and ok: "lock_ok cfg s" and a: "alive cfg s i" and pc: "l_pc s i = Trying"
    and d: "claims s d h" and v: "convicts cfg s i d" and n: "ino_free s n"
  shows "\<exists>k \<le> 2. \<exists>s'. alone cfg i n k s = s' \<and> lock_ok cfg s' \<and> alive cfg s' i \<and> l_pc s' i = JudgeStat \<and> claims s' d h
    \<and> convicts cfg s' i d \<and> ino_free s' n"
proof (cases "a_protocol (c_att cfg i) = Protocol1")
  case True
  have g: "go cfg i n s = set_pc i JudgeStat s"
    using pc n True d by (simp add: go_def try_lock_def mkdir_lock_def claims_def)
  have "lock_ok cfg (go cfg i n s)" by (rule go_ok [OF c ok a]) (simp add: graceful_def pc)
  then have "alone cfg i n 1 s = set_pc i JudgeStat s \<and> lock_ok cfg (set_pc i JudgeStat s)"
    using a g by (simp add: alone_def)
  then show ?thesis using a d v n by (intro exI [of _ 1]) (simp add: convicts_def)
next
  case False
  define k where "k = l_next s"
  define w1 where "w1 = add_dir n (Some (Full i)) s"
  define w2 where "w2 = drop_dir k w1"
  have hk: "h \<noteq> k" using ok_lock_lt [OF ok, of h] d by (auto simp: claims_def k_def)
  have v1: "l_lock w1 = Some h" "alive cfg w1 i" using d a by (simp_all add: w1_def add_dir_def claims_def alive_def)
  have g1: "go cfg i n s = set_pc i (Staged k) w1" using pc n False by (simp add: go_def try_lock_def w1_def k_def)
  have g2: "go cfg i n (set_pc i (Staged k) w1) = set_pc i JudgeStat w2"
    using v1 by (simp add: go_def see_absent_def set_pc_world w2_def)
  have ok1: "lock_ok cfg (set_pc i (Staged k) w1)"
    using go_ok [OF c ok a, of n] by (simp add: g1 graceful_def pc)
  have ok2: "lock_ok cfg (set_pc i JudgeStat w2)"
    using go_ok [OF c ok1, of i n] v1 by (simp add: g2 graceful_def)
  have al: "alone cfg i n 2 s = set_pc i JudgeStat w2" using a v1 by (simp add: eval_nat_numeral alone_Suc g1 g2)
  have own: "owner_of w2 h = owner_of s h" using hk by (simp add: w2_def w1_def drop_dir_def add_dir_def owner_of_def k_def)
  have "claims w2 d h" using d own by (simp add: claims_def w2_def w1_def drop_dir_def add_dir_def)
  moreover have "alive cfg w2 i" using v1 by (simp add: w2_def drop_dir_def alive_def)
  moreover have "convicts cfg w2 i d" using v by (simp add: convicts_def w2_def w1_def drop_dir_def add_dir_def ended_def live_pid_def set_dir_def)
  moreover have "ino_free w2 n" using n by (auto simp: ino_free_def list_all_iff w2_def w1_def drop_dir_def add_dir_def k_def set_dir_def)
  ultimately show ?thesis using al ok2 by (intro exI [of _ 2]) (simp add: convicts_def)
qed

lemma dead_owner_recovered:
  assumes c: "sound_config cfg" and ok: "lock_ok cfg s" and a: "alive cfg s i" and pc: "l_pc s i = Trying"
    and d: "claims s d h" and v: "convicts cfg s i d" and n: "ino_free s n"
  shows "\<exists>k \<le> 17. in_section (alone cfg i n k s) i"
proof -
  obtain k s' where k: "k \<le> 2" "alone cfg i n k s = s'" "lock_ok cfg s'" "alive cfg s' i" "l_pc s' i = JudgeStat" "claims s' d h"
    "convicts cfg s' i d" "ino_free s' n"
    using probe_alone [OF assms] by blast
  obtain w where w: "alone cfg i n 6 s' = set_pc i Trying w" "l_lock w = None" "ino_free w n" "alive cfg w i"
    using recover_alone [OF c k(3-7), of n] k(8) by auto
  obtain j where j: "j \<le> 9" "in_section (alone cfg i n j (set_pc i Trying w)) i"
    using acquire_alone [of cfg "set_pc i Trying w" i n] w by auto
  have "alone cfg i n (k + (6 + j)) s = alone cfg i n j (set_pc i Trying w)" using k w by (simp add: alone_add)
  with j k(1) show ?thesis by (intro exI [of _ "k + (6 + j)"]) simp
qed

section \<open>A concrete mesh\<close>

text \<open>Every process runs the acquisition of its own number; all share a host.\<close>

definition lock_demo :: "(nat \<Rightarrow> lock_protocol) \<Rightarrow> lock_config" where
  "lock_demo pr = \<lparr>c_att = (\<lambda>i. \<lparr>a_proc = i, a_token = replicate (Suc i) (CHR ''t''), a_protocol = pr i, a_created = 1\<rparr>),
     c_process = (\<lambda>p. \<lparr>p_host = 0, p_pid = Suc (min p 9), p_birth = replicate (Suc p) (CHR ''1''), p_start = Some (replicate (Suc p) (CHR ''1'')), p_ns = None\<rparr>),
     c_stale = 30000, c_local = True\<rparr>"

lemma lock_demo_sound: "sound_config (lock_demo pr)"
proof -
  have "Suc (min p 9) \<le> max_safe" for p by (simp add: max_safe_def)
  moreover have "replicate (Suc i) c = replicate (Suc j) c \<Longrightarrow> i = j" for i j :: nat and c :: char
    by (metis length_replicate nat.inject)
  moreover have "is_digit (CHR ''1'')" by (simp add: is_digit_def)
  ultimately show ?thesis
    by (auto simp: sound_config_def lock_demo_def one_line_def incarnation_def valid_incarnation_def all_digits_def list_all_iff
      simp del: replicate_Suc)
qed

definition first_only :: "nat \<Rightarrow> lock_protocol" where
  "first_only i = (if i = 0 then Protocol1 else Protocol2)"

definition demo_held :: lock_state where
  "demo_held = run (lock_step (lock_demo first_only)) no_lock (Start 0 # replicate 10 (Go 0 7))"

definition demo_dead :: lock_state where
  "demo_dead = run (lock_step (lock_demo first_only)) demo_held [Exit 0, Start 1, Go 1 8]"

lemma demo_held_reachable: "lock_reachable (lock_demo first_only) demo_held"
  unfolding demo_held_def by (rule reachable_run [OF Unlocked]) code_simp

lemma demo_held_facts: "alive (lock_demo first_only) demo_held 0 \<and> l_pc demo_held 0 = Holding 0"
  by code_simp

lemma demo_held_section: "alive (lock_demo first_only) demo_held 0" "in_section demo_held 0" "l_pc demo_held 0 = Holding 0"
  using demo_held_facts by (simp_all add: in_section_def)

lemma demo_dead_reachable: "lock_reachable (lock_demo first_only) demo_dead"
  unfolding demo_dead_def by (rule reachable_run [OF demo_held_reachable]) code_simp

lemma demo_dead_facts: "alive (lock_demo first_only) demo_dead 1 \<and> l_pc demo_dead 1 = Trying \<and> claims demo_dead 0 0
    \<and> convicts (lock_demo first_only) demo_dead 1 0 \<and> ino_free demo_dead 8"
  by code_simp

section \<open>The slow writer\<close>

text \<open>
  Acquisition 0 opens its owner file and stalls before it writes; acquisition 1 finds the file empty after the grace,
  checks everything it checks, and stalls before the rename; 0 writes its record, proves it and enters; 1 detaches the
  directory of the live holder and takes the lock.
\<close>

definition slow_writer :: "lock_event list" where
  "slow_writer = [Start 0, Start 1] @ replicate 5 (Go 0 7) @ [Pass 40000] @ replicate 7 (Go 1 8) @ replicate 5 (Go 0 7) @ replicate 10 (Go 1 8)"

lemma slow_writer_breaks_exclusion:
  "let cfg = lock_demo (\<lambda>i. Protocol1); s = run (lock_step cfg) no_lock slow_writer
   in alive cfg s 0 \<and> alive cfg s 1 \<and> in_section s 0 \<and> in_section s 1"
  by code_simp

lemma slow_writer_not_graceful: "\<not> graceful_run (lock_demo (\<lambda>i. Protocol1)) no_lock slow_writer"
  by code_simp

section \<open>Properties\<close>

text \<open>C31: mutual exclusion: whatever the interleaving of the system calls of any number of acquisitions, whichever of them
  fail, wherever processes die and their pids are reused, two acquisitions of living processes are never in the critical
  section at once, as long as no owner file stays empty beyond the grace while its writer is between open and write.\<close>

theorem mesh_lock_excludes:
  assumes "sound_config cfg" and "lock_reachable cfg s" and "alive cfg s i" and "alive cfg s j"
    and "in_section s i" and "in_section s j"
  shows "i = j"
  by (rule section_excludes [OF lock_reachable_ok [OF assms(2,1)] assms(3-6)])

theorem mesh_lock_excludes_witness:
  "lock_reachable (lock_demo first_only) demo_held \<and> in_section demo_held 0 \<and> (0::nat) = 0"
  using mesh_lock_excludes [OF lock_demo_sound demo_held_reachable demo_held_section(1) demo_held_section(1) demo_held_section(2) demo_held_section(2)]
    demo_held_reachable demo_held_section(2) by simp

text \<open>C32: under protocols 2 and 3 the exclusion needs no assumption about time: it holds after every list of events.\<close>

theorem staged_protocols_exclude:
  assumes "sound_config cfg" and "\<And>i. a_protocol (c_att cfg i) \<noteq> Protocol1"
    and "alive cfg (run (lock_step cfg) no_lock es) i" and "alive cfg (run (lock_step cfg) no_lock es) j"
    and "in_section (run (lock_step cfg) no_lock es) i" and "in_section (run (lock_step cfg) no_lock es) j"
  shows "i = j"
proof (rule section_excludes [OF lock_reachable_ok assms(3-6)])
  show "lock_reachable cfg (run (lock_step cfg) no_lock es)"
    by (rule reachable_run [OF Unlocked whole_run [OF no_lock_whole assms(2)]])
qed (rule assms(1))

definition demo_staged :: "lock_event list" where
  "demo_staged = Start 3 # replicate 6 (Go 3 9)"

lemma demo_staged_facts: "let s = run (lock_step (lock_demo (\<lambda>i. Protocol2))) no_lock demo_staged
    in alive (lock_demo (\<lambda>i. Protocol2)) s 3 \<and> in_section s 3"
  by code_simp

theorem staged_protocols_exclude_witness:
  "in_section (run (lock_step (lock_demo (\<lambda>i. Protocol2))) no_lock demo_staged) 3 \<and> (3::nat) = 3"
  using staged_protocols_exclude [OF lock_demo_sound, of "\<lambda>i. Protocol2" demo_staged 3 3] demo_staged_facts [unfolded Let_def]
  by (simp add: lock_demo_def)

text \<open>C33: the lock stays with its holder, as long as no owner file stays empty beyond the grace while its writer is between
  open and write: while a living acquisition is in the critical section, the canonical directory is
  the one it has pinned and holds its complete record; no recoverer, no release and no other publisher detaches, empties or
  replaces it. Without the proviso \<open>slow_writer_breaks_exclusion\<close> above detaches a living holder.\<close>

theorem lock_stays_with_holder:
  assumes "sound_config cfg" and "lock_reachable cfg s" and "alive cfg s i" and "l_pc s i = Holding h"
  shows "l_lock s = Some h \<and> read_owner_path cfg s = Some (record_text cfg i)"
  using holder_claims [OF lock_reachable_ok [OF assms(2,1)] assms(3,4)]
  by (simp add: claims_def read_owner_path_def canonical_owner_def owner_of_def)

theorem lock_stays_with_holder_witness:
  "l_lock demo_held = Some 0 \<and> read_owner_path (lock_demo first_only) demo_held = Some (record_text (lock_demo first_only) 0)"
  by (rule lock_stays_with_holder [OF lock_demo_sound demo_held_reachable demo_held_section(1) demo_held_section(3)])

text \<open>C34: a holder that leaves the section and makes its six calls undisturbed has released: the canonical name is free and
  the release is reported as confirmed.\<close>

theorem release_frees_name:
  assumes "sound_config cfg" and "lock_reachable cfg s" and "alive cfg s i" and "l_pc s i = Holding h"
  shows "l_pc (alone cfg i n 6 s) i = Finished True \<and> l_lock (alone cfg i n 6 s) = None"
  using release_alone [OF lock_reachable_ok [OF assms(2,1)] assms(3,4)] by blast

theorem release_frees_name_witness:
  "l_lock (alone (lock_demo first_only) 0 9 6 demo_held) = None"
  using release_frees_name [OF lock_demo_sound demo_held_reachable demo_held_section(1) demo_held_section(3)] by blast

text \<open>C35: a dead holder does not keep the lock: an acquisition at the head of the loop that may use pid evidence against the
  recorded process, whose pid is free, detaches the dead owner's directory and enters the section within seventeen calls
  when it runs undisturbed from there.\<close>

theorem dead_holder_recovered:
  assumes "sound_config cfg" and "lock_reachable cfg s" and "alive cfg s i" and "l_pc s i = Trying"
    and "claims s d h" and "convicts cfg s i d" and "ino_free s n"
  shows "\<exists>k \<le> 17. in_section (alone cfg i n k s) i"
  by (rule dead_owner_recovered [OF assms(1) lock_reachable_ok [OF assms(2,1)] assms(3-7)])

theorem dead_holder_recovered_witness:
  "\<exists>k \<le> 17. in_section (alone (lock_demo first_only) 1 8 k demo_dead) 1"
  using dead_holder_recovered [OF lock_demo_sound demo_dead_reachable, of 1 0 0 8] demo_dead_facts by simp

end
