(* ===== verification/Approvals.thy ===== *)
theory Approvals imports Kinds begin

text \<open>
  The permission gate of an action: the per-action overrides
  (\<^verbatim>\<open>src/src/core/approval-overrides.ts\<close>), the verdict of the automatic classifier
  (\<^verbatim>\<open>auto-approval-classifier-impl.ts\<close>) and the controllers of one session
  (\<^verbatim>\<open>approval-controller.ts\<close>). The gate is a machine over the points at which JavaScript
  may interleave other work: the call of \<open>approve\<close>, the turn of a queued request, the answer of the
  classifier, of the dialog or of the headless decision, the release of the queue, and \<open>reset\<close>.
  A refusal is a value without its text; notices to the user are left out, and the callbacks for notices and
  audits are taken to return.
\<close>

section \<open>Risks, modes and overrides\<close>

datatype risk = ReadRisk | WriteRisk | ExecuteRisk | NetworkRisk | AgentRisk

definition risk_name :: "risk \<Rightarrow> string" where
  "risk_name r = (case r of ReadRisk \<Rightarrow> ''read'' | WriteRisk \<Rightarrow> ''write'' | ExecuteRisk \<Rightarrow> ''execute''
     | NetworkRisk \<Rightarrow> ''network'' | AgentRisk \<Rightarrow> ''agent'')"

definition all_risks :: "risk list" where
  "all_risks = [ReadRisk, WriteRisk, ExecuteRisk, NetworkRisk, AgentRisk]"

datatype mode = Allow | Ask | Auto | Deny

definition override_mode :: "jsv \<Rightarrow> mode option" where
  "override_mode v = (if v = Text ''allow'' then Some Allow else if v = Text ''ask'' then Some Ask
     else if v = Text ''deny'' then Some Deny else None)"

text \<open>\<open>[a-z][a-z0-9_-]*\<close>, and a reference at its first full stop.\<close>

definition lower_char :: "char \<Rightarrow> bool" where
  "lower_char c \<longleftrightarrow> 97 \<le> code c \<and> code c \<le> 122"

definition provider_char :: "char \<Rightarrow> bool" where
  "provider_char c \<longleftrightarrow> lower_char c \<or> (48 \<le> code c \<and> code c \<le> 57) \<or> c = CHR ''_'' \<or> c = CHR ''-''"

definition provider_name :: "string \<Rightarrow> bool" where
  "provider_name p \<longleftrightarrow> p \<noteq> [] \<and> lower_char (hd p) \<and> list_all provider_char p"

definition before_dot :: "string \<Rightarrow> string" where
  "before_dot s = takeWhile (\<lambda>c. c \<noteq> CHR ''.'') s"

definition from_dot :: "string \<Rightarrow> string" where
  "from_dot s = dropWhile (\<lambda>c. c \<noteq> CHR ''.'') s"

definition provider_wildcard :: "string \<Rightarrow> bool" where
  "provider_wildcard k \<longleftrightarrow> provider_name (before_dot k) \<and> from_dot k = ''.*''"

definition exact_action_ref :: "string \<Rightarrow> bool" where
  "exact_action_ref k \<longleftrightarrow> provider_name (before_dot k) \<and> from_dot k \<noteq> [] \<and>
     (let n = tl (from_dot k) in 1 \<le> length n \<and> length n \<le> 256 \<and>
        list_all (\<lambda>c. \<not> space_char c \<and> c \<noteq> CHR ''*'') n)"

definition MAX_APPROVAL_ACTION_OVERRIDES :: nat where "MAX_APPROVAL_ACTION_OVERRIDES = 256"

datatype override_error = NotAnObject | TooManyEntries | InvalidKey string | InvalidMode string

type_synonym overrides = "(string, mode) jmap"

fun override_entries :: "(string \<times> jsv) list \<Rightarrow> overrides \<Rightarrow> override_error + overrides" where
  "override_entries [] acc = Inr acc"
| "override_entries ((k, v) # es) acc =
     (if \<not> provider_wildcard k \<and> (CHR ''*'' \<in> set k \<or> \<not> exact_action_ref k) then Inl (InvalidKey k)
      else case override_mode v of None \<Rightarrow> Inl (InvalidMode k)
        | Some m \<Rightarrow> override_entries es (jm_set k m acc))"

definition approval_action_overrides_value :: "jsv \<Rightarrow> override_error + overrides option" where
  "approval_action_overrides_value v =
     (case v of Undef \<Rightarrow> Inr None
      | Obj es \<Rightarrow>
          if length es > MAX_APPROVAL_ACTION_OVERRIDES then Inl TooManyEntries
          else bind_e (override_entries es []) (\<lambda>o'. Inr (if es \<noteq> [] then Some o' else None))
      | _ \<Rightarrow> Inl NotAnObject)"

definition action_approval_override :: "overrides option \<Rightarrow> string \<Rightarrow> mode option" where
  "action_approval_override ovs ref =
     (case ovs of None \<Rightarrow> None
      | Some m \<Rightarrow> (case jm_get m ref of Some d \<Rightarrow> Some d
          | None \<Rightarrow> if from_dot ref = [] \<or> before_dot ref = [] then None else jm_get m (before_dot ref @ ''.*'')))"

section \<open>The verdict of the classifier\<close>

text \<open>
  The reply of the classifier: it threw (no model, no credential, no user evidence, a failed
  request), a chat model's message, or the four probabilities of a Jev model with the threshold of
  the configuration. Of a decision the verdict is kept, not its text, model and usage.
\<close>

datatype content_part = ToolCall string jsv | OtherPart

datatype jev_answer = Noul jsnum | OtherAnswer

datatype classifier_reply =
    Threw
  | Message bool "content_part list"   \<comment> \<open>the stop reason is error or aborted\<close>
  | Answers jsnum "(string \<times> jev_answer) list"

datatype auto_decision = AutoAllow | Escalate

definition property :: "jsv \<Rightarrow> string \<Rightarrow> jsv" where
  "property v k = (case v of Obj fs \<Rightarrow> get_field fs k | _ \<Rightarrow> Undef)"

definition is_classify_result :: "content_part \<Rightarrow> bool" where
  "is_classify_result p = (case p of ToolCall n _ \<Rightarrow> n = ''classify_result'' | _ \<Rightarrow> False)"

definition message_decision :: "bool \<Rightarrow> content_part list \<Rightarrow> auto_decision option" where
  "message_decision stopped content =
     (if stopped then None
      else case find is_classify_result content of
        Some (ToolCall _ args) \<Rightarrow>
          (case (property args ''decision'', property args ''reason'') of
             (Text d, Text r) \<Rightarrow>
               if (d = ''allow'' \<or> d = ''escalate'') \<and> js_trim r \<noteq> []
               then Some (if d = ''allow'' then AutoAllow else Escalate) else None
           | _ \<Rightarrow> None)
      | _ \<Rightarrow> None)"

text \<open>\<open>>=\<close> on numbers: false when either side is not a number.\<close>

fun num_ge :: "jsnum \<Rightarrow> jsnum \<Rightarrow> bool" where
  "num_ge NaN _ = False"
| "num_ge _ NaN = False"
| "num_ge PosInf _ = True"
| "num_ge _ NegInf = True"
| "num_ge (Num a) (Num b) = (a \<ge> b)"
| "num_ge _ _ = False"

definition JEV_HARD_ESCALATION_PROBABILITY :: rat where "JEV_HARD_ESCALATION_PROBABILITY = 1 / 2"

definition threshold_ok :: "jsnum \<Rightarrow> bool" where
  "threshold_ok t = (case t of Num x \<Rightarrow> 0 \<le> x \<and> x \<le> 1 | _ \<Rightarrow> False)"

definition noul :: "(string \<times> jev_answer) list \<Rightarrow> string \<Rightarrow> jsnum option" where
  "noul answers k = (case map_of answers k of Some (Noul x) \<Rightarrow> Some x | _ \<Rightarrow> None)"

definition jev_decision :: "jsnum \<Rightarrow> (string \<times> jev_answer) list \<Rightarrow> auto_decision option" where
  "jev_decision threshold answers =
     (if \<not> threshold_ok threshold then None
      else case (noul answers ''safe_to_auto_approve'', noul answers ''touches_secrets'',
                 noul answers ''destructive'', noul answers ''targets_agent_artifacts'') of
        (Some safe, Some secrets, Some destructive, Some _) \<Rightarrow>
          (let hard = num_ge secrets (Num JEV_HARD_ESCALATION_PROBABILITY)
                    \<or> num_ge destructive (Num JEV_HARD_ESCALATION_PROBABILITY)
           in Some (if \<not> hard \<and> num_ge safe threshold then AutoAllow else Escalate))
      | _ \<Rightarrow> None)"

definition normalize_jev_approval_model :: "string \<Rightarrow> string" where
  "normalize_jev_approval_model key =
     (if take 4 key = ''jev/'' then ''pi-fabric/typesafe/'' @ drop 4 key else key)"

definition starts_with :: "string \<Rightarrow> string \<Rightarrow> bool" where
  "starts_with s p \<longleftrightarrow> take (length p) s = p"

definition is_jev_approval_model :: "string \<Rightarrow> bool" where
  "is_jev_approval_model key = (let k = normalize_jev_approval_model key in
     k \<noteq> [] \<and> (starts_with k ''pi-fabric/typesafe/'' \<or> starts_with k ''pi-fabric/openrouter/''
       \<or> starts_with k ''pi-fabric/vercel-ai-gateway/''))"

text \<open>
  The configured key chooses the path; a reply of the other path is no reply of this call.
  \<open>None\<close> is a classifier that throws.
\<close>

definition classify_auto_approval :: "string option \<Rightarrow> classifier_reply \<Rightarrow> auto_decision option" where
  "classify_auto_approval key reply =
     (let jev = (case key of None \<Rightarrow> False | Some k \<Rightarrow> k \<noteq> [] \<and> is_jev_approval_model k) in
      case reply of Threw \<Rightarrow> None
      | Message stopped content \<Rightarrow> if jev then None else message_decision stopped content
      | Answers threshold answers \<Rightarrow> if jev then jev_decision threshold answers else None)"

section \<open>Controllers and calls\<close>

datatype headless_mode = HeadlessDeny | HeadlessDecision

record approval_config =
  c_read :: mode
  c_write :: mode
  c_execute :: mode
  c_network :: mode
  c_agent :: mode
  c_model :: "string option"
  c_actions :: "overrides option"
  c_headless :: "headless_mode option"

definition config_mode :: "approval_config \<Rightarrow> risk \<Rightarrow> mode" where
  "config_mode cfg r = (case r of ReadRisk \<Rightarrow> c_read cfg | WriteRisk \<Rightarrow> c_write cfg | ExecuteRisk \<Rightarrow> c_execute cfg
     | NetworkRisk \<Rightarrow> c_network cfg | AgentRisk \<Rightarrow> c_agent cfg)"

text \<open>The action as the gate reads it.\<close>

record gate_action =
  a_ref :: string
  a_provider :: string
  a_risk :: risk

text \<open>
  A controller; \<open>k_brokered\<close>, \<open>k_headless\<close> and \<open>k_audits\<close> say which of the optional callbacks
  it was given, the broker's answer being a function of the provider.
\<close>

record controller =
  k_generation :: nat
  k_inherited :: "risk list"
  k_config :: approval_config
  k_brokered :: "(string \<Rightarrow> bool) option"
  k_internal :: bool
  k_headless :: bool
  k_audits :: bool

text \<open>\<open>split(",")\<close> of the environment variable; unknown words are dropped.\<close>

fun split_comma :: "string \<Rightarrow> string list" where
  "split_comma [] = [[]]"
| "split_comma (c # cs) = (if c = CHR '','' then [] # split_comma cs
     else case split_comma cs of w # ws \<Rightarrow> (c # w) # ws | [] \<Rightarrow> [[c]])"

definition inherited_risks :: "string option \<Rightarrow> risk list" where
  "inherited_risks env = List.map_filter (\<lambda>w. find (\<lambda>r. risk_name r = w) all_risks)
     (split_comma (case env of None \<Rightarrow> '''' | Some s \<Rightarrow> s))"

datatype refusal = SessionClosed | DeniedByAction | DeniedByRisk | UnsupportedInternally | NoInterface
  | NotDecided | UserDenied | InterfaceFailed

datatype verdict = Approved | Refused refusal

datatype interface = Tui | Dialog

text \<open>
  Where a call of \<open>approve\<close> stands: waiting for the promise of the call before it (\<open>None\<close>, the
  resolved promise), inside its request, its request settled but the queue not yet released, done.
\<close>

datatype phase = Waiting "nat option" | Classifying | Prompting interface | Deciding | Settled verdict | Done verdict

record call =
  l_controller :: nat
  l_action :: gate_action
  l_queued :: bool
  l_phase :: phase

record audit =
  u_ref :: string
  u_risk :: risk
  u_decision :: auto_decision
  u_error :: bool

record approvals =
  approved_risks :: "risk list"
  tail :: "nat option"
  generation :: nat
  controllers :: "controller list"
  calls :: "call list"
  audits :: "(nat \<times> audit) list"

definition no_approvals :: approvals where
  "no_approvals = \<lparr>approved_risks = [], tail = None, generation = 0, controllers = [], calls = [], audits = []\<rparr>"

definition controller_of :: "approvals \<Rightarrow> call \<Rightarrow> controller" where
  "controller_of s c = controllers s ! l_controller c"

definition override_of :: "approvals \<Rightarrow> call \<Rightarrow> mode option" where
  "override_of s c = action_approval_override (c_actions (k_config (controller_of s c))) (a_ref (l_action c))"

definition effective_mode :: "controller \<Rightarrow> gate_action \<Rightarrow> mode" where
  "effective_mode k a = (case action_approval_override (c_actions (k_config k)) (a_ref a) of
     Some m \<Rightarrow> m | None \<Rightarrow> config_mode (k_config k) (a_risk a))"

definition set_phase :: "nat \<Rightarrow> phase \<Rightarrow> approvals \<Rightarrow> approvals" where
  "set_phase i p s = s\<lparr>calls := (calls s)[i := (calls s ! i)\<lparr>l_phase := p\<rparr>]\<rparr>"

definition reset :: "approvals \<Rightarrow> approvals" where
  "reset s = s\<lparr>generation := Suc (generation s), tail := None, approved_risks := []\<rparr>"

text \<open>The constructor; the environment is read when the controller is made.\<close>

definition new_controller ::
  "approval_config \<Rightarrow> string option \<Rightarrow> (string \<Rightarrow> bool) option \<Rightarrow> bool \<Rightarrow> bool \<Rightarrow> bool \<Rightarrow> approvals \<Rightarrow> approvals" where
  "new_controller cfg env brokered internal headless audited s =
     s\<lparr>controllers := controllers s @ [\<lparr>k_generation = generation s, k_inherited = inherited_risks env, k_config = cfg,
        k_brokered = brokered, k_internal = internal, k_headless = headless, k_audits = audited\<rparr>]\<rparr>"

text \<open>What \<open>approve\<close> decides before any queue; \<open>None\<close> is a request to queue.\<close>

definition decide_at_once :: "nat \<Rightarrow> risk list \<Rightarrow> controller \<Rightarrow> gate_action \<Rightarrow> verdict option" where
  "decide_at_once gen granted k a =
     (let over = action_approval_override (c_actions (k_config k)) (a_ref a); mode = effective_mode k a in
      if k_generation k \<noteq> gen then Some (Refused SessionClosed)
      else if over = Some Deny then Some (Refused DeniedByAction)
      else if a_risk a = NetworkRisk \<and> (case k_brokered k of Some b \<Rightarrow> b (a_provider a) | None \<Rightarrow> False) then Some Approved
      else if mode = Allow \<or> (k_brokered k = None \<and> (a_risk a \<in> set (k_inherited k) \<or> a_risk a \<in> set granted)) then Some Approved
      else if mode = Deny then Some (Refused DeniedByRisk)
      else if k_internal k then (if a_risk a \<in> set granted then Some Approved else Some (Refused UnsupportedInternally))
      else None)"

text \<open>\<open>approve\<close>: decided at once, or queued behind the tail of \<open>serialize\<close>.\<close>

definition approve :: "nat \<Rightarrow> gate_action \<Rightarrow> approvals \<Rightarrow> approvals" where
  "approve k a s =
     (if k \<ge> length (controllers s) then s
      else case decide_at_once (generation s) (approved_risks s) (controllers s ! k) a of
        Some v \<Rightarrow> s\<lparr>calls := calls s @ [\<lparr>l_controller = k, l_action = a, l_queued = False, l_phase = Done v\<rparr>]\<rparr>
      | None \<Rightarrow> s\<lparr>calls := calls s @ [\<lparr>l_controller = k, l_action = a, l_queued = True, l_phase = Waiting (tail s)\<rparr>],
                 tail := Some (length (calls s))\<rparr>)"

text \<open>
  \<open>#requestApproval\<close> up to its first await; \<open>ui\<close> is \<open>hasUI\<close> and the mode of the interface at that moment.
\<close>

definition request_approval :: "nat \<Rightarrow> interface option \<Rightarrow> approvals \<Rightarrow> approvals" where
  "request_approval i ui s =
     (let k = controller_of s (calls s ! i) in
      if k_generation k \<noteq> generation s then set_phase i (Settled (Refused SessionClosed)) s
      else case ui of
        Some t \<Rightarrow> set_phase i (Prompting t) s
      | None \<Rightarrow> if c_headless (k_config k) = Some HeadlessDecision \<and> k_headless k then set_phase i Deciding s
                else set_phase i (Settled (Refused NoInterface)) s)"

text \<open>The queued request, once the promise before it resolves.\<close>

definition take_turn :: "nat \<Rightarrow> interface option \<Rightarrow> approvals \<Rightarrow> approvals" where
  "take_turn i ui s =
     (let c = calls s ! i; k = controller_of s c in
      if k_generation k \<noteq> generation s then set_phase i (Settled (Refused SessionClosed)) s
      else if a_risk (l_action c) \<in> set (approved_risks s) then set_phase i (Settled Approved) s
      else if effective_mode k (l_action c) \<noteq> Auto then request_approval i ui s
      else set_phase i Classifying s)"

definition note_audit :: "nat \<Rightarrow> auto_decision \<Rightarrow> bool \<Rightarrow> approvals \<Rightarrow> approvals" where
  "note_audit i d failed s =
     (let c = calls s ! i in
      if k_audits (controller_of s c)
      then s\<lparr>audits := audits s @ [(i, \<lparr>u_ref = a_ref (l_action c), u_risk = a_risk (l_action c), u_decision = d, u_error = failed\<rparr>)]\<rparr>
      else s)"

definition classified :: "nat \<Rightarrow> classifier_reply \<Rightarrow> interface option \<Rightarrow> approvals \<Rightarrow> approvals" where
  "classified i reply ui s =
     (let k = controller_of s (calls s ! i) in
      if k_generation k \<noteq> generation s then set_phase i (Settled (Refused SessionClosed)) s
      else case classify_auto_approval (c_model (k_config k)) reply of
        None \<Rightarrow> request_approval i ui (note_audit i Escalate True s)
      | Some AutoAllow \<Rightarrow> set_phase i (Settled Approved) (note_audit i AutoAllow False s)
      | Some Escalate \<Rightarrow> request_approval i ui (note_audit i Escalate False s))"

text \<open>The choice of the dialog: its labels, or the value of the terminal list.\<close>

datatype choice = AllowOnce | AllowSession | DenyChoice

datatype pick = Label "string option" | Value "choice option"

definition session_label :: "risk \<Rightarrow> string" where
  "session_label r = ''Allow '' @ risk_name r @ '' access for this session''"

definition choice_of :: "interface \<Rightarrow> risk \<Rightarrow> pick \<Rightarrow> choice" where
  "choice_of t r p =
     (case t of
        Dialog \<Rightarrow> if p = Label (Some ''Allow once'') then AllowOnce
                  else if p = Label (Some (session_label r)) then AllowSession else DenyChoice
      | Tui \<Rightarrow> (case p of Value (Some c) \<Rightarrow> c | _ \<Rightarrow> DenyChoice))"

definition chosen :: "nat \<Rightarrow> choice \<Rightarrow> approvals \<Rightarrow> approvals" where
  "chosen i ch s =
     (let c = calls s ! i in
      if k_generation (controller_of s c) \<noteq> generation s then set_phase i (Settled (Refused SessionClosed)) s
      else case ch of
        DenyChoice \<Rightarrow> set_phase i (Settled (Refused UserDenied)) s
      | AllowSession \<Rightarrow> set_phase i (Settled Approved) (s\<lparr>approved_risks := List.insert (a_risk (l_action c)) (approved_risks s)\<rparr>)
      | AllowOnce \<Rightarrow> set_phase i (Settled Approved) s)"

definition decided :: "nat \<Rightarrow> bool \<Rightarrow> approvals \<Rightarrow> approvals" where
  "decided i yes s =
     (if k_generation (controller_of s (calls s ! i)) \<noteq> generation s then set_phase i (Settled (Refused SessionClosed)) s
      else set_phase i (Settled (if yes then Approved else Refused NotDecided)) s)"

section \<open>The machine\<close>

datatype gate_event =
    Construct approval_config "string option" "(string \<Rightarrow> bool) option" bool bool bool
  | Reset
  | Approve nat gate_action
  | Turn nat "interface option"
  | Classified nat classifier_reply "interface option"
  | Picked nat pick
  | Decided nat bool
  | Failed nat          \<comment> \<open>the dialog or the headless decision rejects\<close>
  | Release nat

definition phase_of :: "approvals \<Rightarrow> nat \<Rightarrow> phase option" where
  "phase_of s i = (if i < length (calls s) then Some (l_phase (calls s ! i)) else None)"

definition resolved :: "approvals \<Rightarrow> nat option \<Rightarrow> bool" where
  "resolved s p = (case p of None \<Rightarrow> True | Some j \<Rightarrow> (case phase_of s j of Some (Done _) \<Rightarrow> True | _ \<Rightarrow> False))"

fun gate_step :: "approvals \<Rightarrow> gate_event \<Rightarrow> approvals" where
  "gate_step s (Construct cfg env brokered internal headless audited) = new_controller cfg env brokered internal headless audited s"
| "gate_step s Reset = reset s"
| "gate_step s (Approve k a) = approve k a s"
| "gate_step s (Turn i ui) = (case phase_of s i of Some (Waiting p) \<Rightarrow> if resolved s p then take_turn i ui s else s | _ \<Rightarrow> s)"
| "gate_step s (Classified i reply ui) = (if phase_of s i = Some Classifying then classified i reply ui s else s)"
| "gate_step s (Picked i p) = (case phase_of s i of
     Some (Prompting t) \<Rightarrow> chosen i (choice_of t (a_risk (l_action (calls s ! i))) p) s | _ \<Rightarrow> s)"
| "gate_step s (Decided i yes) = (if phase_of s i = Some Deciding then decided i yes s else s)"
| "gate_step s (Failed i) = (case phase_of s i of
     Some (Prompting _) \<Rightarrow> set_phase i (Settled (Refused InterfaceFailed)) s
   | Some Deciding \<Rightarrow> set_phase i (Settled (Refused InterfaceFailed)) s | _ \<Rightarrow> s)"
| "gate_step s (Release i) = (case phase_of s i of Some (Settled v) \<Rightarrow> set_phase i (Done v) s | _ \<Rightarrow> s)"

definition verdict_of :: "approvals \<Rightarrow> nat \<Rightarrow> verdict option" where
  "verdict_of s i = (case phase_of s i of Some (Settled v) \<Rightarrow> Some v | Some (Done v) \<Rightarrow> Some v | _ \<Rightarrow> None)"

end
