(* ===== verification/ApprovalRuns.thy ===== *)
theory ApprovalRuns imports Approvals begin

text \<open>
  What the permission gate guarantees over all runs of the machine of \<^verbatim>\<open>Approvals\<close>: the moves of
  one call, the invariant of every call, the grounds of an approval, the effect of \<open>reset\<close>, the
  order of the dialogs and the settling of every request.
\<close>

section \<open>The moves of a call\<close>

definition control :: "approvals \<Rightarrow> nat \<Rightarrow> controller" where
  "control s i = controller_of s (calls s ! i)"

definition act :: "approvals \<Rightarrow> nat \<Rightarrow> gate_action" where
  "act s i = l_action (calls s ! i)"

definition current :: "approvals \<Rightarrow> nat \<Rightarrow> bool" where
  "current s i \<longleftrightarrow> k_generation (control s i) = generation s"

definition asked :: "controller \<Rightarrow> interface option \<Rightarrow> phase" where
  "asked k ui = (case ui of Some t \<Rightarrow> Prompting t
     | None \<Rightarrow> if c_headless (k_config k) = Some HeadlessDecision \<and> k_headless k then Deciding
               else Settled (Refused NoInterface))"

inductive moves :: "approvals \<Rightarrow> gate_event \<Rightarrow> nat \<Rightarrow> phase \<Rightarrow> phase \<Rightarrow> bool" for s where
  turn_closed: "\<not> current s i \<Longrightarrow> resolved s p \<Longrightarrow> moves s (Turn i ui) i (Waiting p) (Settled (Refused SessionClosed))"
| turn_granted: "current s i \<Longrightarrow> resolved s p \<Longrightarrow> a_risk (act s i) \<in> set (approved_risks s)
    \<Longrightarrow> moves s (Turn i ui) i (Waiting p) (Settled Approved)"
| turn_asks: "current s i \<Longrightarrow> resolved s p \<Longrightarrow> effective_mode (control s i) (act s i) \<noteq> Auto
    \<Longrightarrow> moves s (Turn i ui) i (Waiting p) (asked (control s i) ui)"
| turn_classifies: "current s i \<Longrightarrow> resolved s p \<Longrightarrow> effective_mode (control s i) (act s i) = Auto
    \<Longrightarrow> moves s (Turn i ui) i (Waiting p) Classifying"
| late_classified: "\<not> current s i \<Longrightarrow> moves s (Classified i reply ui) i Classifying (Settled (Refused SessionClosed))"
| late_picked: "\<not> current s i \<Longrightarrow> moves s (Picked i pk) i (Prompting t) (Settled (Refused SessionClosed))"
| late_decided: "\<not> current s i \<Longrightarrow> moves s (Decided i yes) i Deciding (Settled (Refused SessionClosed))"
| allowed: "current s i \<Longrightarrow> classify_auto_approval (c_model (k_config (control s i))) reply = Some AutoAllow
    \<Longrightarrow> moves s (Classified i reply ui) i Classifying (Settled Approved)"
| escalated: "current s i \<Longrightarrow> classify_auto_approval (c_model (k_config (control s i))) reply \<noteq> Some AutoAllow
    \<Longrightarrow> moves s (Classified i reply ui) i Classifying (asked (control s i) ui)"
| picked: "current s i \<Longrightarrow> moves s (Picked i pk) i (Prompting t)
    (Settled (if choice_of t (a_risk (act s i)) pk = DenyChoice then Refused UserDenied else Approved))"
| decided: "current s i \<Longrightarrow> moves s (Decided i yes) i Deciding (Settled (if yes then Approved else Refused NotDecided))"
| failed: "ph = Prompting t \<or> ph = Deciding \<Longrightarrow> moves s (Failed i) i ph (Settled (Refused InterfaceFailed))"
| released: "moves s (Release i) i (Settled v) (Done v)"

lemma phase_of_Some: "phase_of s i = Some ph \<longleftrightarrow> i < length (calls s) \<and> l_phase (calls s ! i) = ph"
  by (auto simp: phase_of_def)

lemma calls_set_phase [simp]:
  "calls (set_phase i p s) = (calls s)[i := (calls s ! i)\<lparr>l_phase := p\<rparr>]"
  "controllers (set_phase i p s) = controllers s" "generation (set_phase i p s) = generation s"
  "tail (set_phase i p s) = tail s" "approved_risks (set_phase i p s) = approved_risks s"
  by (simp_all add: set_phase_def)

lemma note_audit_simps [simp]:
  "calls (note_audit i d f s) = calls s" "controllers (note_audit i d f s) = controllers s"
  "generation (note_audit i d f s) = generation s" "tail (note_audit i d f s) = tail s"
  "approved_risks (note_audit i d f s) = approved_risks s"
  by (simp_all add: note_audit_def Let_def)

lemma controller_of_note_audit [simp]: "controller_of (note_audit i d f s) c = controller_of s c"
  by (simp add: controller_of_def)

definition session_choice :: "approvals \<Rightarrow> nat \<Rightarrow> pick \<Rightarrow> risk \<Rightarrow> bool" where
  "session_choice s i p r \<longleftrightarrow> (case phase_of s i of
     Some (Prompting t) \<Rightarrow> current s i \<and> a_risk (act s i) = r \<and> choice_of t r p = AllowSession | _ \<Rightarrow> False)"

text \<open>The state after a move, outside the call that moves.\<close>

definition moved :: "approvals \<Rightarrow> gate_event \<Rightarrow> nat \<Rightarrow> phase \<Rightarrow> approvals \<Rightarrow> bool" where
  "moved s e i ph s' \<longleftrightarrow> calls s' = (calls s)[i := (calls s ! i)\<lparr>l_phase := ph\<rparr>] \<and>
     controllers s' = controllers s \<and> generation s' = generation s \<and> tail s' = tail s \<and>
     (\<forall>r. r \<in> set (approved_risks s') \<longleftrightarrow> r \<in> set (approved_risks s) \<or> (\<exists>p. e = Picked i p \<and> session_choice s i p r))"

lemma moved_set_phase:
  "(\<And>p r. e = Picked i p \<Longrightarrow> \<not> session_choice s i p r) \<Longrightarrow> moved s e i ph (set_phase i ph s)"
  by (auto simp: moved_def)

lemma moved_request:
  assumes "\<And>p r. e = Picked i p \<Longrightarrow> \<not> session_choice s i p r" "current s i" "calls s' = calls s"
    "controllers s' = controllers s" "generation s' = generation s" "tail s' = tail s" "approved_risks s' = approved_risks s"
  shows "moved s e i (asked (control s i) ui) (request_approval i ui s')"
  using assms by (auto simp: moved_def request_approval_def asked_def Let_def current_def control_def controller_of_def split: option.splits)

lemma gate_step_cases:
  obtains (same) "gate_step s e = s"
  | (made) cfg env b int h au where "e = Construct cfg env b int h au" "gate_step s e = new_controller cfg env b int h au s"
  | (reset) "e = Reset" "gate_step s e = reset s"
  | (called) k a where "e = Approve k a" "k < length (controllers s)" "gate_step s e = approve k a s"
  | (moved) i ph where "i < length (calls s)" "moves s e i (l_phase (calls s ! i)) ph" "moved s e i ph (gate_step s e)"
proof (cases e)
  case (Turn i ui)
  show ?thesis
  proof (cases "\<exists>p. phase_of s i = Some (Waiting p) \<and> resolved s p")
    case True
    then obtain p where p: "i < length (calls s)" "l_phase (calls s ! i) = Waiting p" "resolved s p"
      by (auto simp: phase_of_Some)
    have step: "gate_step s e = take_turn i ui s" using p by (simp add: Turn phase_of_def)
    consider "\<not> current s i" | "current s i" "a_risk (act s i) \<in> set (approved_risks s)"
      | "current s i" "a_risk (act s i) \<notin> set (approved_risks s)" "effective_mode (control s i) (act s i) = Auto"
      | "current s i" "a_risk (act s i) \<notin> set (approved_risks s)" "effective_mode (control s i) (act s i) \<noteq> Auto" by blast
    then show ?thesis
    proof cases
      case 1
      then have "gate_step s e = set_phase i (Settled (Refused SessionClosed)) s"
        by (simp add: step take_turn_def Let_def current_def control_def)
      with 1 p show ?thesis by (intro moved [OF p(1), of "Settled (Refused SessionClosed)"]) (auto simp: Turn intro: moves.intros moved_set_phase)
    next
      case 2
      then have "gate_step s e = set_phase i (Settled Approved) s"
        by (simp add: step take_turn_def Let_def current_def control_def act_def)
      with 2 p show ?thesis by (intro moved [OF p(1), of "Settled Approved"]) (auto simp: Turn intro: moves.intros moved_set_phase)
    next
      case 3
      then have "gate_step s e = set_phase i Classifying s"
        by (simp add: step take_turn_def Let_def current_def control_def act_def)
      with 3 p show ?thesis by (intro moved [OF p(1), of Classifying]) (auto simp: Turn intro: moves.intros moved_set_phase)
    next
      case 4
      then have "gate_step s e = request_approval i ui s"
        by (simp add: step take_turn_def Let_def current_def control_def act_def)
      with 4 p show ?thesis
        by (intro moved [OF p(1), of "asked (control s i) ui"]) (auto simp: Turn intro: moves.intros intro!: moved_request)
    qed
  qed (rule same, auto simp: Turn split: option.splits phase.splits)
next
  case (Classified i reply ui)
  show ?thesis
  proof (cases "phase_of s i = Some Classifying")
    case True
    then have p: "i < length (calls s)" "l_phase (calls s ! i) = Classifying" by (auto simp: phase_of_Some)
    have step: "gate_step s e = classified i reply ui s" using True by (simp add: Classified)
    let ?d = "classify_auto_approval (c_model (k_config (control s i))) reply"
    consider "\<not> current s i" | "current s i" "?d = Some AutoAllow" | "current s i" "?d \<noteq> Some AutoAllow" by blast
    then show ?thesis
    proof cases
      case 1
      then have "gate_step s e = set_phase i (Settled (Refused SessionClosed)) s"
        by (simp add: step classified_def Let_def current_def control_def)
      with 1 p show ?thesis by (intro moved [OF p(1), of "Settled (Refused SessionClosed)"]) (auto simp: Classified intro: moves.intros moved_set_phase)
    next
      case 2
      then have "gate_step s e = set_phase i (Settled Approved) (note_audit i AutoAllow False s)"
        by (simp add: step classified_def Let_def current_def control_def)
      with 2 p show ?thesis by (intro moved [OF p(1), of "Settled Approved"]) (auto simp: Classified moved_def intro: moves.intros)
    next
      case 3
      then have "?d = None \<or> ?d = Some Escalate" by (metis auto_decision.exhaust option.exhaust)
      then obtain f where "gate_step s e = request_approval i ui (note_audit i Escalate f s)"
        using 3 by (auto simp: step classified_def Let_def current_def control_def)
      with 3 p show ?thesis
        by (intro moved [OF p(1), of "asked (control s i) ui"]) (auto simp: Classified intro: moves.intros intro!: moved_request)
    qed
  qed (rule same, auto simp: Classified)
next
  case (Picked i pk)
  show ?thesis
  proof (cases "\<exists>t. phase_of s i = Some (Prompting t)")
    case True
    then obtain t where p: "i < length (calls s)" "l_phase (calls s ! i) = Prompting t" "phase_of s i = Some (Prompting t)"
      by (auto simp: phase_of_Some)
    let ?ch = "choice_of t (a_risk (act s i)) pk"
    let ?ph = "Settled (if \<not> current s i then Refused SessionClosed else if ?ch = DenyChoice then Refused UserDenied else Approved)"
    have "moved s e i ?ph (gate_step s e)"
      using p by (cases ?ch) (auto simp: Picked chosen_def Let_def current_def control_def act_def moved_def session_choice_def)
    moreover have "moves s e i (Prompting t) ?ph"
      using moves.picked [of s i pk t] moves.late_picked [of s i pk t] by (auto simp: Picked)
    ultimately show ?thesis using p by (intro moved) auto
  qed (rule same, auto simp: Picked split: option.splits phase.splits)
next
  case (Decided i yes)
  show ?thesis
  proof (cases "phase_of s i = Some Deciding")
    case True
    then have p: "i < length (calls s)" "l_phase (calls s ! i) = Deciding" by (auto simp: phase_of_Some)
    let ?ph = "Settled (if \<not> current s i then Refused SessionClosed else if yes then Approved else Refused NotDecided)"
    have "moved s e i ?ph (gate_step s e)"
      using True by (auto simp: Decided decided_def current_def control_def moved_def)
    moreover have "moves s e i Deciding ?ph"
      using moves.decided [of s i yes] moves.late_decided [of s i yes] by (auto simp: Decided)
    ultimately show ?thesis using p by (intro moved) auto
  qed (rule same, auto simp: Decided)
next
  case (Failed i)
  show ?thesis
  proof (cases "phase_of s i = Some Deciding \<or> (\<exists>t. phase_of s i = Some (Prompting t))")
    case True
    then have p: "i < length (calls s)" by (auto simp: phase_of_Some)
    have "gate_step s e = set_phase i (Settled (Refused InterfaceFailed)) s" using True by (auto simp: Failed)
    then have "moved s e i (Settled (Refused InterfaceFailed)) (gate_step s e)" by (auto simp: Failed moved_def)
    moreover have "moves s e i (l_phase (calls s ! i)) (Settled (Refused InterfaceFailed))"
      using True by (auto simp: Failed phase_of_Some intro: moves.intros)
    ultimately show ?thesis using p by (intro moved)
  qed (rule same, auto simp: Failed split: option.splits phase.splits)
next
  case (Release i)
  show ?thesis
  proof (cases "\<exists>v. phase_of s i = Some (Settled v)")
    case True
    then obtain v where "i < length (calls s)" "l_phase (calls s ! i) = Settled v" "phase_of s i = Some (Settled v)" by (auto simp: phase_of_Some)
    then show ?thesis by (intro moved [of i "Done v"]) (auto simp: Release moved_def intro: moves.intros)
  qed (rule same, auto simp: Release split: option.splits phase.splits)
next
  case (Approve k a)
  then show ?thesis by (cases "k < length (controllers s)") (auto intro: called same simp: approve_def)
qed (auto intro: made reset)

section \<open>Every call is well formed\<close>

definition call_ok :: "approvals \<Rightarrow> call \<Rightarrow> bool" where
  "call_ok s c \<longleftrightarrow> l_controller c < length (controllers s) \<and>
     (\<not> l_queued c \<longrightarrow> (\<exists>v. l_phase c = Done v)) \<and>
     (l_queued c \<longrightarrow> effective_mode (controller_of s c) (l_action c) \<noteq> Deny) \<and>
     (override_of s c = Some Deny \<longrightarrow> l_phase c \<in> {Done (Refused SessionClosed), Done (Refused DeniedByAction)}) \<and>
     (l_phase c = Classifying \<longrightarrow> effective_mode (controller_of s c) (l_action c) = Auto) \<and>
     (l_phase c = Deciding \<longrightarrow> c_headless (k_config (controller_of s c)) = Some HeadlessDecision \<and> k_headless (controller_of s c))"

definition gate_ok :: "approvals \<Rightarrow> bool" where
  "gate_ok s \<longleftrightarrow> (\<forall>c\<in>set (calls s). call_ok s c) \<and> (\<forall>k\<in>set (controllers s). k_generation k \<le> generation s)"

lemma override_deny_mode: "override_of s c = Some Deny \<Longrightarrow> effective_mode (controller_of s c) (l_action c) = Deny"
  by (simp add: override_of_def effective_mode_def)

lemma call_ok_grows:
  "call_ok s c \<Longrightarrow> controllers s' = controllers s @ ks \<Longrightarrow> call_ok s' c"
  by (auto simp: call_ok_def controller_of_def override_of_def nth_append)

abbreviation at_once :: "approvals \<Rightarrow> nat \<Rightarrow> gate_action \<Rightarrow> verdict option" where
  "at_once s k a \<equiv> decide_at_once (generation s) (approved_risks s) (controllers s ! k) a"

definition new_call :: "approvals \<Rightarrow> nat \<Rightarrow> gate_action \<Rightarrow> call" where
  "new_call s k a = \<lparr>l_controller = k, l_action = a, l_queued = (at_once s k a = None),
     l_phase = (case at_once s k a of Some v \<Rightarrow> Done v | None \<Rightarrow> Waiting (tail s))\<rparr>"

lemma new_call_simps [simp]:
  "l_controller (new_call s k a) = k" "l_action (new_call s k a) = a" "l_queued (new_call s k a) = (at_once s k a = None)"
  "l_phase (new_call s k a) = (case at_once s k a of Some v \<Rightarrow> Done v | None \<Rightarrow> Waiting (tail s))"
  by (simp_all add: new_call_def)

lemma approve_simps:
  assumes "k < length (controllers s)"
  shows "calls (approve k a s) = calls s @ [new_call s k a]" "controllers (approve k a s) = controllers s"
    "generation (approve k a s) = generation s" "approved_risks (approve k a s) = approved_risks s"
    "tail (approve k a s) = (if at_once s k a = None then Some (length (calls s)) else tail s)"
  using assms by (auto simp: approve_def new_call_def split: option.splits)

lemma decide_at_once_cases:
  shows "decide_at_once g granted k a = None \<Longrightarrow> k_generation k = g \<and> effective_mode k a \<in> {Ask, Auto} \<and> \<not> k_internal k"
    and "decide_at_once g granted k a = Some Approved \<Longrightarrow> k_generation k = g \<and> action_approval_override (c_actions (k_config k)) (a_ref a) \<noteq> Some Deny \<and>
      ((a_risk a = NetworkRisk \<and> (\<exists>b. k_brokered k = Some b \<and> b (a_provider a))) \<or> effective_mode k a = Allow \<or>
       (k_brokered k = None \<and> (a_risk a \<in> set (k_inherited k) \<or> a_risk a \<in> set granted)) \<or>
       (k_internal k \<and> effective_mode k a \<noteq> Deny \<and> a_risk a \<in> set granted))"
    and "action_approval_override (c_actions (k_config k)) (a_ref a) = Some Deny \<Longrightarrow>
      decide_at_once g granted k a \<in> {Some (Refused SessionClosed), Some (Refused DeniedByAction)}"
    and "k_generation k \<noteq> g \<Longrightarrow> decide_at_once g granted k a = Some (Refused SessionClosed)"
  by (cases "effective_mode k a"; auto simp: decide_at_once_def Let_def split: if_splits option.splits)+

lemma asked_ok: "call_ok s (c\<lparr>l_phase := asked (controller_of s c) ui\<rparr>)"
  if "call_ok s c" "override_of s c \<noteq> Some Deny" "l_queued c"
  using that by (auto simp: call_ok_def controller_of_def override_of_def asked_def split: option.splits)

lemma moves_ok:
  assumes m: "moves s e i (l_phase (calls s ! i)) ph" and ok: "call_ok s (calls s ! i)"
  shows "call_ok s ((calls s ! i)\<lparr>l_phase := ph\<rparr>)"
proof -
  let ?c = "calls s ! i"
  have q: "l_queued ?c \<Longrightarrow> override_of s ?c \<noteq> Some Deny"
    using ok override_deny_mode [of s ?c] by (auto simp: call_ok_def)
  have nd: "l_queued ?c" if "\<And>v. l_phase ?c \<noteq> Done v" using ok that by (auto simp: call_ok_def)
  have upd: "controller_of s (?c\<lparr>l_phase := p\<rparr>) = controller_of s ?c" "override_of s (?c\<lparr>l_phase := p\<rparr>) = override_of s ?c" for p
    by (simp_all add: controller_of_def override_of_def)
  have "(\<forall>v. l_phase ?c \<noteq> Done v) \<and> ((\<exists>v. ph = Settled v) \<or> (\<exists>v. ph = Done v) \<or>
      ph = Classifying \<and> effective_mode (control s i) (act s i) = Auto \<or> (\<exists>ui. ph = asked (control s i) ui))"
    using m by cases auto
  then have l: "l_queued ?c" "override_of s ?c \<noteq> Some Deny" and
    p: "(\<exists>v. ph = Settled v) \<or> (\<exists>v. ph = Done v) \<or> ph = Classifying \<and> effective_mode (control s i) (act s i) = Auto
        \<or> (\<exists>ui. ph = asked (control s i) ui)"
    using nd q by auto
  from p show ?thesis
  proof (elim disjE exE conjE)
    fix ui assume "ph = asked (control s i) ui"
    with asked_ok [OF ok l(2,1), of ui] show ?thesis by (simp add: control_def)
  qed (use ok l in \<open>auto simp: call_ok_def upd control_def act_def\<close>)
qed

lemma gate_step_ok: "gate_ok s \<Longrightarrow> gate_ok (gate_step s e)"
proof (cases rule: gate_step_cases [of s e])
  case (moved i ph)
  assume ok: "gate_ok s"
  have c: "calls (gate_step s e) = (calls s)[i := (calls s ! i)\<lparr>l_phase := ph\<rparr>]" "controllers (gate_step s e) = controllers s"
    "generation (gate_step s e) = generation s" using moved(3) by (simp_all add: moved_def)
  have same: "call_ok (gate_step s e) x = call_ok s x" for x
    by (simp add: call_ok_def controller_of_def override_of_def c)
  have "call_ok s (calls s ! i)" using ok moved(1) by (auto simp: gate_ok_def)
  from moves_ok [OF moved(2) this] have "call_ok s ((calls s ! i)\<lparr>l_phase := ph\<rparr>)" .
  with ok moved(1) show ?thesis by (auto simp: gate_ok_def same c dest!: subsetD [OF set_update_subset_insert])
next
  case (called k a)
  assume ok: "gate_ok s"
  note st = approve_simps [OF called(2), of a, folded called(3)]
  have "call_ok s (new_call s k a)"
    using called(2) decide_at_once_cases(1,3) [where g = "generation s" and granted = "approved_risks s" and k = "controllers s ! k" and a = a]
    by (auto simp: call_ok_def controller_of_def override_of_def split: option.splits)
  with ok show ?thesis by (auto simp: gate_ok_def st call_ok_def controller_of_def override_of_def)
next
  case (made cfg env b int h au)
  assume ok: "gate_ok s"
  have "call_ok s c \<Longrightarrow> call_ok (gate_step s e) c" for c
    by (erule call_ok_grows) (simp add: made(2) new_controller_def)
  with ok show ?thesis by (auto simp: gate_ok_def made(2) new_controller_def)
next
  case reset
  assume ok: "gate_ok s"
  have "call_ok s c \<Longrightarrow> call_ok (gate_step s e) c" for c
    by (erule call_ok_grows [where ks = "[]"]) (simp add: reset(2) reset_def)
  with ok show ?thesis by (auto simp: gate_ok_def reset(2) reset_def le_SucI)
qed simp

interpretation gate: machine_invariant gate_step gate_ok
  by unfold_locales (rule gate_step_ok)

lemma gate_ok_start: "gate_ok no_approvals"
  by (simp add: gate_ok_def no_approvals_def)

section \<open>The grounds of an approval\<close>

text \<open>The session after the events of a run.\<close>

abbreviation session :: "gate_event list \<Rightarrow> approvals" where
  "session evs \<equiv> run gate_step no_approvals evs"

lemma session_ok: "gate_ok (session evs)"
  by (rule gate.inv_run [OF gate_ok_start])

lemma no_approvals_simps [simp]:
  "generation no_approvals = 0" "approved_risks no_approvals = []" "calls no_approvals = []"
  "controllers no_approvals = []" "tail no_approvals = None"
  by (simp_all add: no_approvals_def)

lemma session_snoc: "session (evs @ [e]) = gate_step (session evs) e"
  by (simp add: run_append)

definition is_reset :: "gate_event \<Rightarrow> bool" where
  "is_reset e = (case e of Reset \<Rightarrow> True | _ \<Rightarrow> False)"

definition resets :: "gate_event list \<Rightarrow> nat" where
  "resets evs = length (filter is_reset evs)"

lemma is_reset_iff: "is_reset e \<longleftrightarrow> e = Reset"
  by (cases e) (simp_all add: is_reset_def)

lemma generation_step: "generation (gate_step s e) = generation s + (if is_reset e then 1 else 0)"
proof (cases rule: gate_step_cases [of s e])
  case same
  then show ?thesis by (cases "is_reset e") (auto simp: is_reset_iff reset_def dest: arg_cong [of _ _ generation])
next
  case (moved i ph)
  then show ?thesis by (cases e) (auto simp: moved_def is_reset_iff elim: moves.cases)
qed (simp_all add: new_controller_def reset_def is_reset_iff approve_simps)

lemma generation_session: "generation (session evs) = resets evs"
  by (induction evs rule: rev_induct) (simp_all add: session_snoc generation_step resets_def)

text \<open>
  The user has granted the risk for the session: some dialog of that risk, its controller not
  retired, was answered with the session choice, and no reset came after it.
\<close>

definition user_granted :: "gate_event list \<Rightarrow> risk \<Rightarrow> bool" where
  "user_granted evs r \<longleftrightarrow> (\<exists>n<length evs. (case evs ! n of
     Picked j p \<Rightarrow> session_choice (session (take n evs)) j p r \<and> list_all (\<lambda>e. \<not> is_reset e) (drop (Suc n) evs)
   | _ \<Rightarrow> False))"

lemma user_granted_snoc: "user_granted evs r \<Longrightarrow> \<not> is_reset e \<Longrightarrow> user_granted (evs @ [e]) r"
proof -
  assume "user_granted evs r" and e: "\<not> is_reset e"
  then obtain n where n: "n < length evs" "case evs ! n of
     Picked j p \<Rightarrow> session_choice (session (take n evs)) j p r \<and> list_all (\<lambda>e. \<not> is_reset e) (drop (Suc n) evs)
   | _ \<Rightarrow> False" by (auto simp: user_granted_def)
  then have "case (evs @ [e]) ! n of
     Picked j p \<Rightarrow> session_choice (session (take n (evs @ [e]))) j p r \<and> list_all (\<lambda>e. \<not> is_reset e) (drop (Suc n) (evs @ [e]))
   | _ \<Rightarrow> False"
    by (cases "evs ! n") (auto simp: nth_append e)
  with n(1) show ?thesis unfolding user_granted_def by (intro exI [of _ n]) simp
qed

lemma user_granted_now: "session_choice (session evs) j p r \<Longrightarrow> user_granted (evs @ [Picked j p]) r"
  unfolding user_granted_def by (rule exI [of _ "length evs"]) simp

lemma granted_by_user: "r \<in> set (approved_risks (session evs)) \<Longrightarrow> user_granted evs r"
proof (induction evs rule: rev_induct)
  case (snoc e evs)
  have r: "r \<in> set (approved_risks (gate_step (session evs) e))" using snoc.prems by (simp add: session_snoc)
  have keep: "user_granted (evs @ [e]) r" if "r \<in> set (approved_risks (session evs))" "\<not> is_reset e"
    using snoc.IH that by (simp add: user_granted_snoc)
  show ?case
  proof (cases rule: gate_step_cases [of "session evs" e])
    case same
    then show ?thesis using r keep generation_step [of "session evs" e] by (auto split: if_splits)
  next
    case (moved i ph)
    then have "\<not> is_reset e" by (auto simp: is_reset_iff elim: moves.cases)
    with moved r keep user_granted_now [of evs i _ r] show ?thesis by (auto simp: moved_def)
  qed (use r keep in \<open>auto simp: new_controller_def reset_def is_reset_def approve_simps\<close>)
qed simp

text \<open>
  The event that approves a call of controller \<open>k\<close> and action \<open>a\<close>, with the events before it: the
  controller is of the present generation, \<open>approvals.actions\<close> does not deny the action, and the approval comes
  from the host's broker for a network action, an allowing mode, the parent's risks or the user's session grant (the
  last two not beside a broker, except that an internal controller takes a session grant unless the mode denies);
  or, for a request that was queued and whose mode does not deny, from a session grant given since, from the classifier
  in automatic mode, from the user's answer to the dialog of this very call, or from its headless decision.
  Only the four grounds of a call decided at once can lift the deny of a risk class.
\<close>

definition ground :: "gate_event list \<Rightarrow> gate_event \<Rightarrow> nat \<Rightarrow> controller \<Rightarrow> gate_action \<Rightarrow> bool" where
  "ground pre e i k a \<longleftrightarrow>
     k_generation k = resets pre \<and> action_approval_override (c_actions (k_config k)) (a_ref a) \<noteq> Some Deny \<and>
     (case e of
        Approve _ _ \<Rightarrow> (a_risk a = NetworkRisk \<and> (\<exists>b. k_brokered k = Some b \<and> b (a_provider a))) \<or> effective_mode k a = Allow \<or>
          (k_brokered k = None \<and> a_risk a \<in> set (k_inherited k)) \<or> (k_brokered k = None \<and> user_granted pre (a_risk a)) \<or>
          (k_internal k \<and> effective_mode k a \<noteq> Deny \<and> user_granted pre (a_risk a))
      | Turn j _ \<Rightarrow> j = i \<and> effective_mode k a \<noteq> Deny \<and> user_granted pre (a_risk a)
      | Classified j reply _ \<Rightarrow> j = i \<and> effective_mode k a = Auto \<and>
          classify_auto_approval (c_model (k_config k)) reply = Some AutoAllow
      | Picked j p \<Rightarrow> j = i \<and> effective_mode k a \<noteq> Deny \<and> (\<exists>t. phase_of (session pre) i = Some (Prompting t) \<and> choice_of t (a_risk a) p \<noteq> DenyChoice)
      | Decided j yes \<Rightarrow> j = i \<and> yes \<and> effective_mode k a \<noteq> Deny \<and> c_headless (k_config k) = Some HeadlessDecision \<and> k_headless k
      | _ \<Rightarrow> False)"

text \<open>A call keeps its controller and its action.\<close>

lemma control_step:
  assumes "gate_ok s" "i < length (calls s)"
  shows "i < length (calls (gate_step s e))" "control (gate_step s e) i = control s i" "act (gate_step s e) i = act s i"
proof -
  have l: "l_controller (calls s ! i) < length (controllers s)" using assms by (auto simp: gate_ok_def call_ok_def)
  have "i < length (calls (gate_step s e)) \<and> control (gate_step s e) i = control s i \<and> act (gate_step s e) i = act s i"
  proof (cases rule: gate_step_cases [of s e])
    case (moved j ph)
    then show ?thesis using assms(2)
      by (auto simp: moved_def control_def act_def controller_of_def nth_list_update)
  qed (use assms(2) l in \<open>auto simp: control_def act_def controller_of_def new_controller_def reset_def approve_simps nth_append\<close>)
  then show "i < length (calls (gate_step s e))" "control (gate_step s e) i = control s i" "act (gate_step s e) i = act s i" by auto
qed

lemma verdict_of_Some:
  "verdict_of s i = Some v \<longleftrightarrow> i < length (calls s) \<and> (l_phase (calls s ! i) = Settled v \<or> l_phase (calls s ! i) = Done v)"
  by (auto simp: verdict_of_def phase_of_def split: option.splits phase.splits)

lemma asked_not_verdict: "asked k ui \<noteq> Settled Approved" "asked k ui \<noteq> Done v"
  by (auto simp: asked_def split: option.splits)

lemma verdict_step:
  assumes ok: "gate_ok (session evs)" and v: "verdict_of (session evs) i \<noteq> Some Approved"
    and v': "verdict_of (gate_step (session evs) e) i = Some Approved"
  shows "ground evs e i (control (gate_step (session evs) e) i) (act (gate_step (session evs) e) i)"
proof (cases rule: gate_step_cases [of "session evs" e])
  case (moved j ph)
  let ?s = "session evs"
  have c: "calls (gate_step ?s e) = (calls ?s)[j := (calls ?s ! j)\<lparr>l_phase := ph\<rparr>]" using moved(3) by (simp add: moved_def)
  have ij: "i = j" and ph: "ph = Settled Approved \<or> ph = Done Approved"
    using v v' moved(1) by (auto simp: verdict_of_Some c nth_list_update split: if_splits)
  have cok: "call_ok ?s (calls ?s ! i)" using ok moved(1) ij by (auto simp: gate_ok_def)
  have st: "control (gate_step ?s e) i = control ?s i" "act (gate_step ?s e) i = act ?s i"
    using control_step [OF ok] moved(1) ij by auto
  have nd: "action_approval_override (c_actions (k_config (control ?s i))) (a_ref (act ?s i)) \<noteq> Some Deny"
    if "\<not> (\<exists>v. l_phase (calls ?s ! i) = Done v)"
    using cok that by (auto simp: call_ok_def control_def act_def override_of_def)
  have nm: "effective_mode (control ?s i) (act ?s i) \<noteq> Deny" if "\<not> (\<exists>v. l_phase (calls ?s ! i) = Done v)"
    using cok that by (auto simp: call_ok_def control_def act_def)
  have pick: "\<exists>t. phase_of ?s i = Some (Prompting t) \<and> choice_of t (a_risk (act ?s i)) p \<noteq> DenyChoice"
    if "l_phase (calls ?s ! i) = Prompting t" "choice_of t (a_risk (act ?s i)) p \<noteq> DenyChoice" for t p
    using that moved(1) ij by (auto simp: phase_of_Some)
  have not_yet: "l_phase (calls ?s ! i) \<noteq> Settled Approved" using v moved(1) ij by (auto simp: verdict_of_Some)
  have g: "current ?s i \<Longrightarrow> k_generation (control ?s i) = resets evs" by (simp add: current_def generation_session)
  from moved(2) ij have "moves ?s e i (l_phase (calls ?s ! i)) ph" by simp
  then have "ground evs e i (control ?s i) (act ?s i)"
  proof (cases rule: moves.cases)
    case (turn_granted p ui)
    with g nd nm granted_by_user show ?thesis by (auto simp: ground_def)
  next
    case (allowed reply ui)
    with g nd cok show ?thesis by (auto simp: ground_def call_ok_def control_def act_def)
  next
    case (picked pk t)
    with g nd nm ph pick show ?thesis by (auto simp: ground_def split: if_splits)
  next
    case (decided yes)
    with g nd nm ph cok show ?thesis by (auto simp: ground_def call_ok_def control_def split: if_splits)
  qed (use ph asked_not_verdict not_yet in auto)
  then show ?thesis by (simp only: st)
next
  case (called k a)
  let ?s = "session evs"
  note st = approve_simps [OF called(2), of a, folded called(3)]
  have i: "i = length (calls ?s)" and d: "at_once ?s k a = Some Approved"
    using v v' by (auto simp: verdict_of_Some st nth_append less_Suc_eq split: if_splits option.splits)
  have "control (gate_step ?s e) i = controllers ?s ! k" "act (gate_step ?s e) i = a"
    by (simp_all add: control_def act_def controller_of_def st i)
  then show ?thesis using decide_at_once_cases(2) [OF d] granted_by_user [of "a_risk a" evs]
    by (auto simp: ground_def called(1) generation_session)
qed (use v v' in \<open>auto simp: verdict_of_Some new_controller_def reset_def\<close>)

lemma approval_grounded:
  "verdict_of (session evs) i = Some Approved \<Longrightarrow>
     \<exists>n<length evs. ground (take n evs) (evs ! n) i (control (session evs) i) (act (session evs) i) \<and>
       verdict_of (session (take n evs)) i \<noteq> Some Approved \<and> verdict_of (session (take (Suc n) evs)) i = Some Approved"
proof (induction evs rule: rev_induct)
  case (snoc e evs)
  show ?case
  proof (cases "verdict_of (session evs) i = Some Approved")
    case True
    from snoc.IH [OF this] obtain n where n: "n < length evs"
      "ground (take n evs) (evs ! n) i (control (session evs) i) (act (session evs) i)"
      "verdict_of (session (take n evs)) i \<noteq> Some Approved" "verdict_of (session (take (Suc n) evs)) i = Some Approved" by auto
    have "i < length (calls (session evs))" using True by (simp add: verdict_of_Some)
    from control_step [OF session_ok this, of e] n show ?thesis
      by (intro exI [of _ n]) (simp add: session_snoc nth_append)
  next
    case False
    from verdict_step [OF session_ok False] snoc.prems False show ?thesis
      by (intro exI [of _ "length evs"]) (simp add: session_snoc)
  qed
qed (simp add: verdict_of_Some)

text \<open>A verdict is final.\<close>

lemma moves_not_done: "moves s e i ph ph' \<Longrightarrow> (\<forall>v. ph \<noteq> Done v) \<and> (\<forall>v. ph = Settled v \<longrightarrow> ph' = Done v)"
  by (auto elim: moves.cases)

lemma verdict_step_keeps: "verdict_of s i = Some v \<Longrightarrow> verdict_of (gate_step s e) i = Some v"
proof (cases rule: gate_step_cases [of s e])
  case (moved j ph)
  then show "verdict_of s i = Some v \<Longrightarrow> ?thesis"
    using moves_not_done [OF moved(2)] by (auto simp: verdict_of_Some moved_def nth_list_update)
qed (auto simp: verdict_of_Some new_controller_def reset_def approve_simps nth_append)

lemma verdict_run: "verdict_of s i = Some v \<Longrightarrow> verdict_of (run gate_step s es) i = Some v"
  by (induction es arbitrary: s) (simp_all add: verdict_step_keeps)

lemma control_run: "gate_ok s \<Longrightarrow> i < length (calls s) \<Longrightarrow> i < length (calls (run gate_step s es)) \<and>
    control (run gate_step s es) i = control s i \<and> act (run gate_step s es) i = act s i"
  by (induction es arbitrary: s) (simp_all add: control_step gate_step_ok)

text \<open>A controller made before a run keeps its generation.\<close>

lemma controllers_step: "\<exists>ks. controllers (gate_step s e) = controllers s @ ks"
  by (cases rule: gate_step_cases [of s e]) (auto simp: new_controller_def reset_def approve_simps moved_def)

lemma controllers_run: "\<exists>ks. controllers (run gate_step s es) = controllers s @ ks"
proof (induction es arbitrary: s)
  case (Cons e es)
  then show ?case using controllers_step [of s e] by (metis append.assoc run_Cons)
qed simp

lemma session_append: "session (xs @ ys) = run gate_step (session xs) ys"
  by (simp add: run_append)

lemma resets_append: "resets (xs @ ys) = resets xs + resets ys"
  by (simp add: resets_def)

lemma resets_Cons: "resets (e # es) = (if is_reset e then 1 else 0) + resets es"
  by (simp add: resets_def)

lemma old_controller:
  assumes "k < length (controllers (session pre))"
  shows "k_generation (controllers (session (pre @ post)) ! k) \<le> generation (session pre)"
proof -
  obtain ks where "controllers (session (pre @ post)) = controllers (session pre) @ ks"
    using controllers_run [of "session pre" post] by (auto simp: session_append)
  with session_ok [of pre] assms show ?thesis by (auto simp: gate_ok_def nth_append)
qed

section \<open>The queue of a generation\<close>

definition queued :: "approvals \<Rightarrow> nat \<Rightarrow> bool" where
  "queued s i \<longleftrightarrow> i < length (calls s) \<and> l_queued (calls s ! i)"

definition gen_of :: "approvals \<Rightarrow> nat \<Rightarrow> nat" where
  "gen_of s i = k_generation (control s i)"

definition done_call :: "approvals \<Rightarrow> nat \<Rightarrow> bool" where
  "done_call s i \<longleftrightarrow> (case phase_of s i of Some (Done _) \<Rightarrow> True | _ \<Rightarrow> False)"

text \<open>The requests of one generation from \<open>p\<close> up to \<open>i\<close> are done.\<close>

definition cleared :: "approvals \<Rightarrow> nat \<Rightarrow> nat \<Rightarrow> nat \<Rightarrow> bool" where
  "cleared s g p i \<longleftrightarrow> (\<forall>j<i. p \<le> j \<longrightarrow> queued s j \<longrightarrow> gen_of s j = g \<longrightarrow> done_call s j)"

definition link_ok :: "approvals \<Rightarrow> nat \<Rightarrow> nat \<Rightarrow> nat option \<Rightarrow> bool" where
  "link_ok s g i p = (case p of None \<Rightarrow> cleared s g 0 i
     | Some j \<Rightarrow> j < i \<and> queued s j \<and> gen_of s j = g \<and> cleared s g (Suc j) i)"

definition turn_ok :: "approvals \<Rightarrow> nat \<Rightarrow> bool" where
  "turn_ok s i = (case l_phase (calls s ! i) of Waiting p \<Rightarrow> link_ok s (gen_of s i) i p | _ \<Rightarrow> cleared s (gen_of s i) 0 i)"

definition queue_ok :: "approvals \<Rightarrow> bool" where
  "queue_ok s \<longleftrightarrow> gate_ok s \<and> (\<forall>i. queued s i \<longrightarrow> turn_ok s i) \<and> link_ok s (generation s) (length (calls s)) (tail s)"

lemma done_call_iff: "done_call s i \<longleftrightarrow> i < length (calls s) \<and> (\<exists>v. l_phase (calls s ! i) = Done v)"
  by (auto simp: done_call_def phase_of_def split: phase.splits)

lemma resolved_iff: "resolved s p \<longleftrightarrow> (case p of None \<Rightarrow> True | Some j \<Rightarrow> done_call s j)"
  by (simp add: resolved_def done_call_def split: option.splits)

lemma queued_step:
  assumes "gate_ok s" "i < length (calls s)"
  shows "queued (gate_step s e) i = queued s i" "gen_of (gate_step s e) i = gen_of s i" "done_call s i \<Longrightarrow> done_call (gate_step s e) i"
proof -
  show "gen_of (gate_step s e) i = gen_of s i" by (simp add: gen_of_def control_step [OF assms])
  show "queued (gate_step s e) i = queued s i"
    using assms(2) by (cases rule: gate_step_cases [of s e])
      (auto simp: queued_def moved_def nth_list_update new_controller_def reset_def approve_simps nth_append)
  assume "done_call s i"
  then show "done_call (gate_step s e) i"
    by (cases rule: gate_step_cases [of s e])
      (auto simp: done_call_iff moved_def nth_list_update new_controller_def reset_def approve_simps nth_append dest: moves_not_done)
qed

lemma cleared_step: "gate_ok s \<Longrightarrow> i \<le> length (calls s) \<Longrightarrow> cleared s g p i \<Longrightarrow> cleared (gate_step s e) g p i"
  by (auto simp: cleared_def queued_step)

lemma link_step: "gate_ok s \<Longrightarrow> i \<le> length (calls s) \<Longrightarrow> link_ok s g i p \<Longrightarrow> link_ok (gate_step s e) g i p"
  by (auto simp: link_ok_def queued_step intro: cleared_step split: option.splits)

lemma cleared_join: "cleared s g 0 p \<Longrightarrow> done_call s p \<Longrightarrow> cleared s g (Suc p) i \<Longrightarrow> cleared s g 0 i"
  unfolding cleared_def by (metis le0 linorder_neqE_nat Suc_leI)

lemma resolved_cleared:
  assumes "queue_ok s" "link_ok s g i p" "resolved s p"
  shows "cleared s g 0 i"
proof (cases p)
  case (Some j)
  then have j: "queued s j" "gen_of s j = g" "cleared s g (Suc j) i" "done_call s j"
    using assms(2,3) by (auto simp: link_ok_def resolved_iff)
  then have "cleared s g 0 j" using assms(1) by (auto simp: queue_ok_def turn_ok_def done_call_iff split: phase.splits)
  then show ?thesis using j by (blast intro: cleared_join)
qed (use assms in \<open>simp add: link_ok_def\<close>)

lemma moves_from_waiting: "moves s e i (Waiting p) ph \<Longrightarrow> resolved s p"
  by (auto elim: moves.cases)

lemma moves_not_waiting: "moves s e i ph ph' \<Longrightarrow> ph' \<noteq> Waiting p"
  by (auto elim!: moves.cases simp: asked_def split: option.splits if_splits)

lemma queue_step: "queue_ok s \<Longrightarrow> queue_ok (gate_step s e)"
proof -
  assume q: "queue_ok s"
  then have ok: "gate_ok s" and turns: "\<And>i. queued s i \<Longrightarrow> turn_ok s i"
    and tl: "link_ok s (generation s) (length (calls s)) (tail s)" by (auto simp: queue_ok_def)
  let ?s = "gate_step s e"
  have keep: "turn_ok ?s i" if "i < length (calls s)" "l_phase (calls ?s ! i) = l_phase (calls s ! i)" "queued s i" for i
    using turns [OF that(3)] that(1,2)
    by (auto simp: turn_ok_def queued_step [OF ok] intro!: link_step cleared_step ok split: phase.splits)
  have young: "gen_of s j \<le> generation s" if "queued s j" for j
    using ok that by (auto simp: gate_ok_def queued_def gen_of_def control_def controller_of_def call_ok_def)
  show ?thesis
  proof (cases rule: gate_step_cases [of s e])
    case same
    with q show ?thesis by simp
  next
    case (made cfg env b int h au)
    then have c: "calls ?s = calls s" "tail ?s = tail s" "generation ?s = generation s" by (simp_all add: new_controller_def)
    have "queued ?s i \<Longrightarrow> turn_ok ?s i" for i by (rule keep) (auto simp: queued_def c)
    with gate_step_ok [OF ok] link_step [OF ok _ tl] show ?thesis by (simp add: queue_ok_def c)
  next
    case reset
    then have c: "calls ?s = calls s" "tail ?s = None" "generation ?s = Suc (generation s)" by (simp_all add: reset_def)
    have "queued ?s i \<Longrightarrow> turn_ok ?s i" for i by (rule keep) (auto simp: queued_def c)
    moreover have "cleared ?s (Suc (generation s)) 0 (length (calls s))"
      using young by (fastforce simp: cleared_def queued_step [OF ok])
    ultimately show ?thesis using gate_step_ok [OF ok] by (simp add: queue_ok_def c link_ok_def)
  next
    case (called k a)
    note st = approve_simps [OF called(2), of a, folded called(3)]
    let ?n = "length (calls s)"
    have old: "queued ?s i \<Longrightarrow> turn_ok ?s i" if "i < ?n" for i
      using that by (intro keep) (auto simp: queued_def st nth_append)
    have nth: "calls ?s ! ?n = new_call s k a" by (simp add: st)
    have g: "gen_of ?s ?n = k_generation (controllers s ! k)" by (simp add: gen_of_def control_def controller_of_def st)
    have tl': "link_ok ?s (generation s) ?n (tail s)" by (rule link_step [OF ok _ tl]) simp
    have new: "queued ?s ?n \<Longrightarrow> turn_ok ?s ?n"
      using decide_at_once_cases(1) [where g = "generation s" and granted = "approved_risks s" and k = "controllers s ! k" and a = a] tl' g
      by (auto simp: queued_def turn_ok_def nth)
    have "link_ok ?s (generation s) (Suc ?n) (tail ?s)"
    proof (cases "at_once s k a")
      case None
      with decide_at_once_cases(1) [OF None] g show ?thesis by (auto simp: st(5) link_ok_def queued_def nth cleared_def st(1))
    next
      case (Some v)
      then have "\<not> queued ?s ?n" by (simp add: queued_def nth)
      with Some tl' show ?thesis by (auto simp: st(5) link_ok_def cleared_def less_Suc_eq split: option.splits)
    qed
    moreover have "queued ?s i \<Longrightarrow> turn_ok ?s i" for i
      using old new by (cases "i < ?n") (auto simp: queued_def st(1) less_Suc_eq)
    ultimately show ?thesis using gate_step_ok [OF ok] by (simp add: queue_ok_def st(1,3))
  next
    case (moved m ph)
    have c: "calls ?s = (calls s)[m := (calls s ! m)\<lparr>l_phase := ph\<rparr>]" "tail ?s = tail s" "generation ?s = generation s"
      using moved(3) by (simp_all add: moved_def)
    have "turn_ok ?s i" if i: "queued ?s i" for i
    proof (cases "i = m")
      case True
      then have qi: "queued s i" using i moved(1) by (simp add: queued_step [OF ok])
      have "cleared s (gen_of s i) 0 i"
        using turns [OF qi] moves_from_waiting [of s e m _ ph] moved(2) True q
        by (auto simp: turn_ok_def intro: resolved_cleared split: phase.splits)
      then have "cleared ?s (gen_of ?s i) 0 i" using moved(1) True by (simp add: queued_step [OF ok] cleared_step ok)
      then show ?thesis using moved(1) moves_not_waiting [OF moved(2)] True by (auto simp: turn_ok_def c split: phase.splits)
    next
      case False
      then show ?thesis using i by (intro keep) (auto simp: queued_def c)
    qed
    with gate_step_ok [OF ok] link_step [OF ok _ tl] show ?thesis by (simp add: queue_ok_def c)
  qed
qed

interpretation queue: machine_invariant gate_step queue_ok
  by unfold_locales (rule queue_step)

lemma session_queue: "queue_ok (session evs)"
  by (rule queue.inv_run) (simp add: queue_ok_def gate_ok_start queued_def link_ok_def cleared_def)

lemma queue_in_order:
  assumes "queue_ok s" "queued s j" "\<forall>p. l_phase (calls s ! j) \<noteq> Waiting p" "i < j" "queued s i" "gen_of s i = gen_of s j"
  shows "done_call s i"
proof -
  have "turn_ok s j" using assms(1,2) by (auto simp: queue_ok_def)
  then have "cleared s (gen_of s j) 0 j" using assms(3) by (auto simp: turn_ok_def split: phase.splits)
  then show ?thesis using assms(4-) by (auto simp: cleared_def)
qed

text \<open>The request is with the classifier, at a dialog or at a headless decision.\<close>

definition in_dialog :: "approvals \<Rightarrow> nat \<Rightarrow> bool" where
  "in_dialog s i = (case phase_of s i of Some Classifying \<Rightarrow> True | Some (Prompting _) \<Rightarrow> True | Some Deciding \<Rightarrow> True | _ \<Rightarrow> False)"

section \<open>Every request settles\<close>

text \<open>What the environment answers to the waits of a call: any interface, reply, pick and decision.\<close>

record answers =
  n_ui :: "nat \<Rightarrow> interface option"
  n_reply :: "nat \<Rightarrow> classifier_reply"
  n_pick :: "nat \<Rightarrow> pick"
  n_yes :: "nat \<Rightarrow> bool option"   \<comment> \<open>\<open>None\<close> is a decision that rejects\<close>

text \<open>The event the request \<open>i\<close> waits for: its own, or that of the request before it.\<close>

fun next_event :: "answers \<Rightarrow> approvals \<Rightarrow> nat \<Rightarrow> gate_event" where
  "next_event env s i =
     (case l_phase (calls s ! i) of
        Waiting p \<Rightarrow> (case p of Some j \<Rightarrow> if \<not> resolved s p \<and> j < i then next_event env s j else Turn i (n_ui env i)
                      | None \<Rightarrow> Turn i (n_ui env i))
      | Classifying \<Rightarrow> Classified i (n_reply env i) (n_ui env i)
      | Prompting _ \<Rightarrow> Picked i (n_pick env i)
      | Deciding \<Rightarrow> (case n_yes env i of Some y \<Rightarrow> Decided i y | None \<Rightarrow> Failed i)
      | _ \<Rightarrow> Release i)"

declare next_event.simps [simp del]

fun serve :: "answers \<Rightarrow> nat \<Rightarrow> nat \<Rightarrow> approvals \<Rightarrow> approvals" where
  "serve env i 0 s = s"
| "serve env i (Suc n) s = serve env i n (gate_step s (next_event env s i))"

definition rank :: "phase \<Rightarrow> nat" where
  "rank ph = (case ph of Waiting _ \<Rightarrow> 4 | Classifying \<Rightarrow> 3 | Prompting _ \<Rightarrow> 2 | Deciding \<Rightarrow> 2 | Settled _ \<Rightarrow> 1 | Done _ \<Rightarrow> 0)"

definition work :: "approvals \<Rightarrow> nat \<Rightarrow> nat" where
  "work s i = (\<Sum>j\<le>i. rank (l_phase (calls s ! j)))"

lemma moves_rank: "moves s e i ph ph' \<Longrightarrow> rank ph' < rank ph"
  by (auto elim!: moves.cases simp: rank_def asked_def split: option.splits if_splits phase.splits)

lemma rank_le: "rank ph \<le> 4"
  by (simp add: rank_def split: phase.splits)

lemma work_bound: "work s i \<le> 4 * Suc i"
  unfolding work_def using sum_bounded_above [of "{..i}" "\<lambda>j. rank (l_phase (calls s ! j))" 4] by (simp add: rank_le mult.commute)

text \<open>An event that a call waits for moves that call.\<close>

definition awaited :: "approvals \<Rightarrow> gate_event \<Rightarrow> nat \<Rightarrow> bool" where
  "awaited s e j \<longleftrightarrow> (case e of
     Turn i _ \<Rightarrow> i = j \<and> (\<exists>p. phase_of s j = Some (Waiting p) \<and> resolved s p)
   | Classified i _ _ \<Rightarrow> i = j \<and> phase_of s j = Some Classifying
   | Picked i _ \<Rightarrow> i = j \<and> (\<exists>t. phase_of s j = Some (Prompting t))
   | Decided i _ \<Rightarrow> i = j \<and> phase_of s j = Some Deciding
   | Failed i \<Rightarrow> i = j \<and> phase_of s j = Some Deciding
   | Release i \<Rightarrow> i = j \<and> (\<exists>v. phase_of s j = Some (Settled v))
   | _ \<Rightarrow> False)"

lemma awaited_changes: "awaited s e j \<Longrightarrow> phase_of (gate_step s e) j \<noteq> phase_of s j"
  by (cases e) (auto simp: awaited_def phase_of_Some take_turn_def request_approval_def classified_def chosen_def decided_def Let_def
    phase_of_def split: option.splits auto_decision.splits choice.splits if_splits)

lemma awaited_moves:
  assumes "awaited s e j"
  shows "\<exists>ph. j < length (calls s) \<and> moves s e j (l_phase (calls s ! j)) ph \<and> moved s e j ph (gate_step s e)"
proof (cases rule: gate_step_cases [of s e])
  case (moved i ph)
  have "i = j"
    using awaited_changes [OF assms] moved(3) by (cases "i = j") (auto simp: moved_def phase_of_def split: if_splits)
  with moved show ?thesis by blast
qed (use assms awaited_changes [OF assms] in \<open>auto simp: awaited_def\<close>)

lemma next_event_awaited:
  assumes "queue_ok s" "queued s i" "\<not> done_call s i"
  shows "\<exists>j\<le>i. awaited s (next_event env s i) j"
  using assms(2,3)
proof (induction i rule: less_induct)
  case (less i)
  have i: "i < length (calls s)" using less.prems by (simp add: queued_def)
  have t: "turn_ok s i" using assms(1) less.prems by (simp add: queue_ok_def)
  show ?case
  proof (cases "l_phase (calls s ! i)")
    case (Waiting p)
    show ?thesis
    proof (cases "resolved s p")
      case True
      then show ?thesis using i Waiting
        by (intro exI [of _ i]) (auto simp: next_event.simps [of env s i] awaited_def phase_of_Some split: option.splits)
    next
      case False
      then obtain j where j: "p = Some j" "j < i" "queued s j" "\<not> done_call s j"
        using t Waiting by (auto simp: turn_ok_def link_ok_def resolved_iff split: option.splits)
      from less.IH [OF j(2,3,4)] obtain k where "k \<le> j" "awaited s (next_event env s j) k" by auto
      moreover have "next_event env s i = next_event env s j" using Waiting j False by (simp add: next_event.simps [of env s i])
      ultimately show ?thesis using j(2) by (intro exI [of _ k]) simp
    qed
  qed (use i less.prems in \<open>auto simp: next_event.simps [of env s i] awaited_def phase_of_Some done_call_iff intro!: exI [of _ i] split: option.splits\<close>)
qed

lemma next_event_work:
  assumes "queue_ok s" "queued s i" "\<not> done_call s i"
  shows "work (gate_step s (next_event env s i)) i < work s i"
proof -
  let ?e = "next_event env s i"
  obtain j where "j \<le> i" "awaited s ?e j" using next_event_awaited [OF assms] by blast
  then obtain ph where j: "j \<le> i" "j < length (calls s)" "moves s ?e j (l_phase (calls s ! j)) ph"
    and m: "calls (gate_step s ?e) = (calls s)[j := (calls s ! j)\<lparr>l_phase := ph\<rparr>]"
    using awaited_moves [of s ?e j] by (auto simp: moved_def)
  show ?thesis unfolding work_def
    by (rule sum_strict_mono_ex1) (use j moves_rank [OF j(3)] in \<open>auto simp: m nth_list_update intro!: bexI [of _ j]\<close>)
qed

lemma done_stays: "gate_ok s \<Longrightarrow> done_call s i \<Longrightarrow> done_call (serve env i n s) i"
proof (induction n arbitrary: s)
  case (Suc n)
  then have "done_call (gate_step s (next_event env s i)) i" by (simp add: queued_step(3) done_call_iff [of s])
  with Suc gate_step_ok show ?case by simp
qed simp

lemma serve_settles:
  "queue_ok s \<Longrightarrow> queued s i \<Longrightarrow> work s i \<le> n \<Longrightarrow> done_call (serve env i n s) i"
proof (induction n arbitrary: s)
  case 0
  show ?case
  proof (rule ccontr)
    assume "\<not> done_call (serve env i 0 s) i"
    with next_event_work [OF 0(1,2)] 0(3) show False by simp
  qed
next
  case (Suc n)
  have ok: "gate_ok s" and len: "i < length (calls s)" using Suc.prems by (auto simp: queue_ok_def queued_def)
  show ?case
  proof (cases "done_call s i")
    case True
    then show ?thesis by (rule done_stays [OF ok])
  next
    case False
    have "work (gate_step s (next_event env s i)) i \<le> n" using next_event_work [OF Suc.prems(1,2) False, of env] Suc.prems(3) by simp
    with Suc.IH [OF queue_step [OF Suc.prems(1)]] Suc.prems(2) show ?thesis by (simp add: queued_step [OF ok len])
  qed
qed

section \<open>Overrides as configured\<close>

text \<open>What the configured object says of a reference: its own entry, or that of its provider.\<close>

definition configured :: "(string \<times> jsv) list \<Rightarrow> string \<Rightarrow> jsv option" where
  "configured es ref = (case map_of es ref of Some v \<Rightarrow> Some v
     | None \<Rightarrow> if CHR ''.'' \<in> set ref \<and> before_dot ref \<noteq> [] then map_of es (before_dot ref @ ''.*'') else None)"

lemma override_entries_get:
  "override_entries es acc = Inr m \<Longrightarrow> distinct (map fst es) \<Longrightarrow>
     jm_get m k = (case map_of es k of Some v \<Rightarrow> override_mode v | None \<Rightarrow> jm_get acc k)"
proof (induction es acc rule: override_entries.induct)
  case (2 k' v es acc)
  then have "map_of es k' = None" by (auto simp: map_of_eq_None_iff)
  with 2 show ?case by (auto simp: jm_get_set split: if_splits option.splits)
qed simp

lemma override_entries_modes:
  "override_entries es acc = Inr m \<Longrightarrow> (k, v) \<in> set es \<Longrightarrow> override_mode v \<noteq> None"
  by (induction es acc rule: override_entries.induct) (auto split: if_splits option.splits)

lemma from_dot_Nil: "from_dot s = [] \<longleftrightarrow> CHR ''.'' \<notin> set s"
  by (auto simp: from_dot_def dropWhile_eq_Nil_conv)

lemma parsed_override:
  assumes p: "approval_action_overrides_value (Obj es) = Inr ovs" and d: "distinct (map fst es)"
  shows "action_approval_override ovs ref = Option.bind (configured es ref) override_mode"
proof (cases "es = []")
  case True
  with p show ?thesis by (auto simp: approval_action_overrides_value_def action_approval_override_def configured_def split: if_splits)
next
  case False
  then obtain m where m: "override_entries es [] = Inr m" "ovs = Some m"
    using p by (auto simp: approval_action_overrides_value_def bind_e_Inr split: if_splits)
  note get = override_entries_get [OF m(1) d]
  have "override_mode v \<noteq> None" if "map_of es ref = Some v" for v
    using override_entries_modes [OF m(1)] map_of_SomeD [OF that] by blast
  then show ?thesis
    by (auto simp: action_approval_override_def configured_def m(2) get from_dot_Nil split: option.splits)
qed

lemma denied_phase:
  assumes "i < length (calls (session evs))"
    "action_approval_override (c_actions (k_config (control (session evs) i))) (a_ref (act (session evs) i)) = Some Deny"
  shows "phase_of (session evs) i \<in> {Some (Done (Refused SessionClosed)), Some (Done (Refused DeniedByAction))}"
proof -
  have "call_ok (session evs) (calls (session evs) ! i)" using session_ok [of evs] assms(1) by (auto simp: gate_ok_def)
  then show ?thesis using assms by (auto simp: call_ok_def override_of_def control_def act_def phase_of_def)
qed

section \<open>Properties\<close>

text \<open>C36: No action is approved without grounds: whatever calls, dialogs, classifiers, decisions and resets interleave,
  a call whose verdict is Approved was approved by one event of the run at which its controller belonged to the
  present session, \<open>approvals.actions\<close> did not deny its action, and the approval came from an allowing mode, the
  host's network broker, the risks inherited from the parent, a session grant the user gave in a dialog after the last
  reset, the classifier in automatic mode, the user's answer to the dialog of this very call, or its headless decision.
  The deny of a risk class, unlike that of an action, is lifted by the broker, by inherited risks and by a session grant
  at the moment of the call; a request that was queued is never approved under it.\<close>

theorem approval_has_ground:
  assumes "verdict_of (session evs) i = Some Approved"
  shows "\<exists>n<length evs. ground (take n evs) (evs ! n) i (control (session evs) i) (act (session evs) i)"
  using approval_grounded [OF assms] by blast

definition cfg_demo :: approval_config where
  "cfg_demo = \<lparr>c_read = Allow, c_write = Ask, c_execute = Auto, c_network = Deny, c_agent = Ask, c_model = None,
     c_actions = Some [(''pi.*'', Ask), (''pi.rm'', Deny)], c_headless = None\<rparr>"

definition write_action :: gate_action where
  "write_action = \<lparr>a_ref = ''pi.write'', a_provider = ''pi'', a_risk = WriteRisk\<rparr>"

definition rm_action :: gate_action where
  "rm_action = \<lparr>a_ref = ''pi.rm'', a_provider = ''pi'', a_risk = WriteRisk\<rparr>"

text \<open>Two queued writes; the user grants the session at the first dialog, so the second shows none.\<close>

definition run_demo :: "gate_event list" where
  "run_demo = [Construct cfg_demo (Some ''read'') None False False True, Approve 0 write_action, Approve 0 write_action,
     Approve 0 rm_action, Turn 0 (Some Dialog), Picked 0 (Label (Some ''Allow write access for this session'')), Release 0,
     Turn 1 (Some Tui)]"

lemma approval_has_ground_witness:
  "verdict_of (session run_demo) 1 = Some Approved \<and>
   (\<exists>n<length run_demo. ground (take n run_demo) (run_demo ! n) 1 (control (session run_demo) 1) (act (session run_demo) 1))"
proof
  show v: "verdict_of (session run_demo) 1 = Some Approved" by code_simp
  show "\<exists>n<length run_demo. ground (take n run_demo) (run_demo ! n) 1 (control (session run_demo) 1) (act (session run_demo) 1)"
    by (rule approval_has_ground [OF v])
qed

text \<open>C37: A deny in \<open>approvals.actions\<close> is absolute: for a configuration accepted by the parser, an action whose own
  entry is deny, or whose provider's wildcard is deny while it has no entry of its own, is refused at the call in every
  run; it is never queued, so no dialog, classifier, session grant, inherited risk or network broker can lift it.\<close>

theorem denied_action_never_runs:
  assumes "approval_action_overrides_value (Obj es) = Inr (c_actions (k_config (control (session evs) i)))"
    and "distinct (map fst es)" and "i < length (calls (session evs))"
    and "configured es (a_ref (act (session evs) i)) = Some (Text ''deny'')"
  shows "phase_of (session evs) i \<in> {Some (Done (Refused SessionClosed)), Some (Done (Refused DeniedByAction))}"
  by (rule denied_phase [OF assms(3)]) (simp add: parsed_override [OF assms(1,2)] assms(4) override_mode_def)

lemma denied_action_never_runs_witness:
  "phase_of (session run_demo) 2 \<in> {Some (Done (Refused SessionClosed)), Some (Done (Refused DeniedByAction))}"
proof (rule denied_action_never_runs [of "[(''pi.*'', Text ''ask''), (''pi.rm'', Text ''deny'')]"])
  show "approval_action_overrides_value (Obj [(''pi.*'', Text ''ask''), (''pi.rm'', Text ''deny'')]) =
      Inr (c_actions (k_config (control (session run_demo) 2)))" by code_simp
  show "2 < length (calls (session run_demo))" by code_simp
  show "configured [(''pi.*'', Text ''ask''), (''pi.rm'', Text ''deny'')] (a_ref (act (session run_demo) 2)) = Some (Text ''deny'')"
    by code_simp
qed simp

text \<open>C38: \<open>reset\<close> retires a session: after it, no call of a controller made before it is approved, however late a
  dialog, classifier or decision answers and whatever the new session grants; calls approved before keep their verdict.\<close>

theorem reset_retires:
  assumes "verdict_of (session pre) i \<noteq> Some Approved"
    and "i < length (calls (session (pre @ Reset # post)))"
    and "l_controller (calls (session (pre @ Reset # post)) ! i) < length (controllers (session pre))"
  shows "verdict_of (session (pre @ Reset # post)) i \<noteq> Some Approved"
proof
  let ?evs = "pre @ Reset # post"
  assume "verdict_of (session ?evs) i = Some Approved"
  from approval_grounded [OF this] obtain n where n: "n < length ?evs"
    "ground (take n ?evs) (?evs ! n) i (control (session ?evs) i) (act (session ?evs) i)"
    "verdict_of (session (take n ?evs)) i \<noteq> Some Approved"
    "verdict_of (session (take (Suc n) ?evs)) i = Some Approved" by blast
  have "k_generation (control (session ?evs) i) \<le> resets pre"
    using old_controller [OF assms(3)] by (simp add: control_def controller_of_def generation_session)
  with n(2) have "resets (take n ?evs) \<le> resets pre" by (simp add: ground_def)
  then have "n \<le> length pre" by (cases "n - length pre") (auto simp: take_Cons' resets_append resets_Cons is_reset_def not_le)
  moreover have "n \<noteq> length pre" using n(2) by (auto simp: ground_def)
  ultimately have "take (Suc n) ?evs = take (Suc n) pre" by simp
  then have "session pre = run gate_step (session (take (Suc n) ?evs)) (drop (Suc n) pre)"
    by (metis append_take_drop_id session_append)
  with verdict_run [OF n(4)] assms(1) show False by simp
qed

text \<open>The dialog of the first write is open when the session is reset; the answer comes late.\<close>

definition late_run :: "gate_event list" where
  "late_run = [Construct cfg_demo None None False False True, Approve 0 write_action, Turn 0 (Some Tui)]"

definition late_answer :: "gate_event list" where
  "late_answer = [Construct cfg_demo None None False False True, Approve 1 write_action, Turn 1 (Some Tui),
     Picked 1 (Value (Some AllowSession)), Picked 0 (Value (Some AllowOnce)), Release 0]"

lemma reset_retires_witness:
  "verdict_of (session (late_run @ Reset # late_answer)) 0 \<noteq> Some Approved \<and>
   verdict_of (session (late_run @ Reset # late_answer)) 1 = Some Approved"
proof
  show "verdict_of (session (late_run @ Reset # late_answer)) 0 \<noteq> Some Approved"
  proof (rule reset_retires)
    show "verdict_of (session late_run) 0 \<noteq> Some Approved" by code_simp
    show "0 < length (calls (session (late_run @ Reset # late_answer)))" by code_simp
    show "l_controller (calls (session (late_run @ Reset # late_answer)) ! 0) < length (controllers (session late_run))" by code_simp
  qed
  show "verdict_of (session (late_run @ Reset # late_answer)) 1 = Some Approved" by code_simp
qed

text \<open>C39: The requests of one generation are served one at a time and in the order of their calls: while one is with the
  classifier, at a dialog or at a headless decision, every request of its generation queued before it is done; a request
  after it is still waiting. A retired generation's dialog does not hold up the next one: only requests of the same
  generation are ordered.\<close>

theorem one_dialog_in_order:
  assumes "in_dialog (session evs) j" and "queued (session evs) i"
    and "i \<noteq> j" and "gen_of (session evs) i = gen_of (session evs) j"
  shows "if i < j then done_call (session evs) i else (\<exists>p. phase_of (session evs) i = Some (Waiting p))"
proof -
  let ?s = "session evs"
  have j: "j < length (calls ?s)" "\<And>v. l_phase (calls ?s ! j) \<noteq> Done v" "\<And>p. l_phase (calls ?s ! j) \<noteq> Waiting p"
    using assms(1) by (auto simp: in_dialog_def phase_of_def split: if_splits)
  have "call_ok ?s (calls ?s ! j)" using session_ok [of evs] j(1) by (auto simp: gate_ok_def)
  then have qj: "queued ?s j" using j by (auto simp: call_ok_def queued_def)
  show ?thesis
  proof (cases "i < j")
    case True
    with queue_in_order [OF session_queue qj _ _ assms(2,4)] j(3) show ?thesis by simp
  next
    case False
    have "\<not> done_call ?s j" using j(2) by (auto simp: done_call_iff)
    with queue_in_order [OF session_queue assms(2) _ _ qj] False assms(3,4) have "\<exists>p. l_phase (calls ?s ! i) = Waiting p" by force
    with assms(2) False show ?thesis by (auto simp: queued_def phase_of_Some)
  qed
qed

definition run_two :: "gate_event list" where
  "run_two = [Construct cfg_demo None None False False True, Approve 0 write_action, Approve 0 write_action, Approve 0 write_action,
     Turn 0 (Some Dialog), Picked 0 (Label (Some ''Allow once'')), Release 0, Turn 1 (Some Tui)]"

lemma one_dialog_in_order_witness:
  "(if (0::nat) < 1 then done_call (session run_two) 0 else \<exists>p. phase_of (session run_two) 0 = Some (Waiting p)) \<and>
   (if (2::nat) < 1 then done_call (session run_two) 2 else \<exists>p. phase_of (session run_two) 2 = Some (Waiting p))"
proof -
  have b: "in_dialog (session run_two) 1" by code_simp
  have "queued (session run_two) 0" "gen_of (session run_two) 0 = gen_of (session run_two) 1"
    "queued (session run_two) 2" "gen_of (session run_two) 2 = gen_of (session run_two) 1" by code_simp+
  with one_dialog_in_order [OF b, of 0] one_dialog_in_order [OF b, of 2] show ?thesis by simp
qed

text \<open>C40: Every call of \<open>approve\<close> settles: from any point of any run, whatever interface is present and whatever the
  classifier, the user and the headless decision answer (or that they reject), serving the waits of a call and of the
  requests before it ends the call with a verdict within four events for each call up to it; the queue never wedges.\<close>

theorem every_request_settles:
  assumes "i < length (calls (session evs))"
  shows "\<exists>v. phase_of (serve env i (4 * Suc i) (session evs)) i = Some (Done v)"
proof -
  let ?s = "session evs"
  have "done_call (serve env i (4 * Suc i) ?s) i"
  proof (cases "queued ?s i")
    case True
    show ?thesis by (rule serve_settles [OF session_queue True work_bound])
  next
    case False
    have "call_ok ?s (calls ?s ! i)" using session_ok [of evs] assms by (auto simp: gate_ok_def)
    then have "done_call ?s i" using False assms by (auto simp: call_ok_def queued_def done_call_iff)
    then show ?thesis by (rule done_stays [OF session_ok])
  qed
  then show ?thesis by (auto simp: done_call_iff phase_of_Some)
qed

definition deaf :: answers where
  "deaf = \<lparr>n_ui = (\<lambda>_. None), n_reply = (\<lambda>_. Threw), n_pick = (\<lambda>_. Label None), n_yes = (\<lambda>_. None)\<rparr>"

lemma every_request_settles_witness:
  "\<exists>v. phase_of (serve deaf 2 (4 * Suc 2) (session run_two)) 2 = Some (Done v)"
proof (rule every_request_settles)
  show "2 < length (calls (session run_two))" by code_simp
qed

end
