(* ===== verification/Spec2Isabelle.thy ===== *)
theory Spec2Isabelle imports Semaphore Deadline Speculation Admission Chain Delivery Cache DrainGate TokenGaps Complexity Grants Outcomes Compaction PartialCode MeshWriters EffectScope Kinds DecisionStore BrokerEnds Watch MeshLockRuns ApprovalRuns begin

text \<open>
  \<^bold>\<open>A verification library of pi-fabric.\<close>

  pi-fabric is an extension of a coding agent: a session runs guest programs that call tools, start child agents and actors,
  and talk to other sessions through a shared mesh. Much of it is glue to the host program, to processes and to files. This
  library models the parts that decide: who may run, what is served, what is written, in which order, and what is refused.
  Each theory opens with the source files it models; a definition has the name of its function where HOL allows it.

  \<^bold>\<open>How the parts interact.\<close> A guest program runs under a deadline that pauses while a person is asked
  (\<open>Deadline\<close>); an action it calls needs an approval (\<open>Approvals\<close>); its child agents take permits (\<open>Semaphore\<close>); its tool calls may be served from
  speculation (\<open>Speculation\<close>, fed by \<open>PartialCode\<close>, limited by the effect policy in \<open>Kernel\<close>). Components of the session register
  effects in scopes (\<open>EffectScope\<close>). Follow-ups reach agents through a scheduler (\<open>Delivery\<close>). The mesh is a document of
  keyed entries (\<open>MeshState\<close>) with many writing processes (\<open>MeshWriters\<close>) that exclude each other by a lock made of directories
  (\<open>MeshLock\<close>), external posts under grants (\<open>Grants\<close>) and a
  journal of delivery outcomes (\<open>Outcomes\<close>); pending decisions live in it (\<open>DecisionStore\<close>), and so do the
  subscriptions by which one participant hears of another's lifecycle (\<open>Broker\<close>). Records are checked (\<open>Kinds\<close>), admitted while the archive keeps up
  (\<open>Admission\<close>) and hash-chained (\<open>Chain\<close>). A Main session keeps its prompt cache warm (\<open>Cache\<close>), compacts its context
  (\<open>Compaction\<close>) and drains before it is replaced (\<open>DrainGate\<close>). The display aligns changed words (\<open>Alignment\<close>,
  \<open>TokenGaps\<close>), and a policy counts the branches of a source (\<open>Complexity\<close>).

  \<^bold>\<open>The theories\<close> (paths below \<^verbatim>\<open>src/src/\<close>):
  \<^item> \<open>Prelude\<close>: runs of a machine (\<open>run\<close>), the locale \<open>machine_invariant\<close> that lifts a one-step invariant to
    runs and its extension with a monotone quantity, JavaScript's \<open>Map\<close> (\<open>jmap\<close>) with its interface, times with
    \<open>Infinity\<close>, list lemmas.
  \<^item> \<open>Approvals\<close> (\<^verbatim>\<open>core/approval-controller.ts\<close>, \<^verbatim>\<open>core/approval-overrides.ts\<close>, the verdict in
    \<^verbatim>\<open>core/auto-approval-classifier-impl.ts\<close>): the overrides of actions and what \<open>approve\<close> decides at once as functions; the
    queue of requests, dialogs, headless decisions and \<open>reset\<close> as a machine whose steps run between two awaits. \<open>ApprovalRuns\<close>
    has the moves of a call, the grounds of every approval, that a denied action is refused, that \<open>reset\<close> retires what was
    pending, that a generation's dialogs come one at a time and in order, and that every call settles within four events
    for each call up to it. The evidence shown to a classifier and the dialogs' widgets are left out.
  \<^item> \<open>Semaphore\<close> (\<^verbatim>\<open>agents/semaphore.ts\<close>): state = active count, limit, waiters, live permits; never more than \<open>limit\<close>
    live permits, and waiters are granted in order.
  \<^item> \<open>Deadline\<close> (\<^verbatim>\<open>runtime/execution-deadline.ts\<close>, \<^verbatim>\<open>runtime/deadline-pause.ts\<close>): the clock under its host ceiling; a
    locale for a pausable clock, interpreted on it; human waits are free, expiry is final, the timer is exact.
  \<^item> \<open>Speculation\<close> (\<^verbatim>\<open>speculation/store.ts\<close>): entries in an object store, \<open>tryServe\<close> split at its await; nothing stale is
    served, and every launched entry is accounted for.
  \<^item> \<open>PartialCode\<close> (\<^verbatim>\<open>speculation/partial-json.ts\<close>): the streamed extractor; how the blob is cut into deltas is invisible.
  \<^item> \<open>Kernel\<close> (\<^verbatim>\<open>verified/\<close>, \<^verbatim>\<open>components/effect-policy.ts\<close>): predicates of the compiled decision kernel, resource codec, memory
    pages, conflicts between declared effects. \<open>Compaction\<close> builds on it: bounded texts and samples (\<^verbatim>\<open>compaction/bounds.ts\<close>),
    token heuristics, trigger and pressure band.
  \<^item> \<open>EffectScope\<close> (\<^verbatim>\<open>components/effect-scope.ts\<close>): a program counter for the setup and one for the disposal of each
    record; no disposer leaks, and the report is exact.
  \<^item> \<open>Delivery\<close> (\<^verbatim>\<open>lifecycle/delivery-scheduler.ts\<close>, \<^verbatim>\<open>repeat-guard.ts\<close>): deliveries of a target are serialized and conserved.
  \<^item> \<open>MeshState\<close> (\<^verbatim>\<open>mesh/state-file.ts\<close>, \<^verbatim>\<open>verified/storage.ts\<close> and its compiled kernel): \<open>put\<close>, \<open>delete\<close>, batches and
    tombstone compaction over the parsed document; the abstract store \<open>amesh\<close> (live entries, a bounded graveyard, a clock) and
    the refinement of it, version monotonicity, conflict detection, refusal of damaged documents.
  \<^item> \<open>MeshWriters\<close>: the optimistic write protocol as an inductive step relation of many writers; published versions are
    serial and a writer ends.
  \<^item> \<open>LockRecord\<close>, \<open>MeshLock\<close> (\<^verbatim>\<open>mesh/mesh-lock.ts\<close>, \<^verbatim>\<open>mesh/fence-lock.ts\<close>, \<^verbatim>\<open>core/pid-namespace.ts\<close>): the owner record
    and the evidence against its writer; acquisition, pinned release and recovery of the mesh lock as a machine whose steps are
    single system calls of any number of acquisitions, with failing calls, dying processes and reused pids. \<open>MeshLockSafety\<close>
    has the invariant and its rely condition, \<open>MeshLockSteps\<close> that every event keeps it, \<open>MeshLockRuns\<close> mutual exclusion,
    the holder's hold on the name, release and recovery, and the run in which a slow protocol-1 writer loses the exclusion. It
    is what \<open>MeshWriters\<close> takes as one step under the lock. The platform is Linux; the FIFO admission queue, timing and
    statistics are left out, and an acquisition may probe at any time.
  \<^item> \<open>Decisions\<close>, \<open>DecisionStore\<close> (\<^verbatim>\<open>decisions/store.ts\<close>): raising, answering and escalating a pending decision and its lazily
    applied deadlines; many callers over one key as a step relation above the interface \<open>cas_slot\<close>, which the mesh state
    provides: one resolution, authorized on the record it replaced, and calls that end.
  \<^item> \<open>LifecycleTypes\<close> (\<^verbatim>\<open>lifecycle/types.ts\<close>): lifecycle events and subscriptions as JSON, with their round trips. \<open>Broker\<close>
    (\<^verbatim>\<open>lifecycle/broker.ts\<close>): the drain loop with its place in \<open>#drain\<close> and \<open>#drainSubscription\<close> as data, the
    delivery receipts, the retry, and the release checkpoint as a second thread; \<open>step\<close> runs them among the events of the world.
    \<open>BrokerSafety\<close> holds the invariant of every step, \<open>BrokerRuns\<close> what follows for runs (no event twice or out of
    order, none passed over, work left behind is carried, a release receipt attests saved cursors), \<open>BrokerEnds\<close> that a drain ends.
    \<open>Watch\<close> (\<^verbatim>\<open>core/observation-watch.ts\<close> and the broker's watcher): exactly one way to notice a change.
  \<^item> \<open>Grants\<close> (\<^verbatim>\<open>mesh/grants.ts\<close>), \<open>Outcomes\<close> (\<^verbatim>\<open>mesh/delivery-outcomes.ts\<close>): uses of a grant are bounded and scoped; refusals
    are counted once.
  \<^item> \<open>Kinds\<close> (\<^verbatim>\<open>records/kinds.ts\<close>), \<open>Admission\<close> (\<^verbatim>\<open>records/admission.ts\<close>), \<open>Chain\<close> (\<^verbatim>\<open>records/chain.ts\<close>): validated appends are well
    typed and stable; the gate fails closed; a verified chain is tamper evident.
  \<^item> \<open>Cache\<close> (\<^verbatim>\<open>cache/leases.ts\<close>, \<^verbatim>\<open>cache/observations.ts\<close>), \<open>DrainGate\<close> (\<^verbatim>\<open>main-drain/slot.ts\<close>, \<^verbatim>\<open>main-drain/gate.ts\<close>): one native handle at
    a time; the gate admits exactly its own children while closed.
  \<^item> \<open>Alignment\<close>, \<open>TokenGaps\<close> (\<^verbatim>\<open>ui/word-diff/\<close>): the dynamic programs are near optimal; the gaps are a correct patch.
    \<open>Complexity\<close> (\<^verbatim>\<open>state/complexity.ts\<close>): the tokenizer ends and the count is bounded.

  \<^bold>\<open>Conventions.\<close> Clock readings, random ids, digests, byte sizes and what a promise brings are arguments or events. An async
  method is split at its awaits; what runs between two awaits is one step. A JavaScript \<open>Map\<close> is \<open>jmap\<close> (insertion
  order), a thrown error is the left of a sum, and integers are unbounded with the bounds of the code written out (\<open>SAFE\<close>,
  \<open>RADIX\<close>). SQL, processes, sockets and files are parameters; hypotheses on them (a digest without collision on the
  compared rows, a file identity that is fresh after each replacement) are named in the statements.

  \<^bold>\<open>Fuel.\<close> The tokenizer of \<open>Complexity\<close> gets twice the length plus one, shown enough for every source. The recursion of
  \<open>TokenGaps\<close> gets the length of its left range plus one, shown to give \<open>Some\<close> always. The paging loops of \<open>Chain\<close> end whenever the fuel
  times the batch of a thousand exceeds the number of rows. Printing in \<open>Kinds\<close> gets as many digits as the number has. No theorem speaks only of runs that return.

  \<^bold>\<open>What modelling showed.\<close> \<open>reset\<close> of the speculation store leaves entries uncounted against its comment; the
  scheduler never cleans its in-flight map; a regular expression after a two-character operator is scanned as code; an effect
  scope loses the failure of a late rollback; a data field named like an inherited property is accepted by append validation; the
  lifecycle broker moves its cursor to the reservation counter and can pass over an event that is appended a moment later; the
  recovery of an empty owner file of the mesh lock can detach the directory of a live holder that wrote late.

  \<^bold>\<open>Not modelled\<close>, and why: actors, the agent manager, residency, runtimes, providers and transports are processes, files and
  third-party services; the worker drives a third-party agent; the display, the command-line tools and the configuration are
  input and output. The manifest lists every part with its reason.
\<close>

end
